(* ===== verification/Prelude.thy ===== *)
theory Prelude
  imports Main "HOL-Library.Word"
begin

text \<open>
  Shared vocabulary of the development: the error-or-value results the Go code returns as
  a pair, time stamps, Go's binary search, and the generic lemmas on lists, sums and sets
  the component theories use.
\<close>

section \<open>Collections of simplification rules\<close>

named_theorems life_defs \<open>definitions of the attempt and job doors\<close>
named_theorems queue_defs \<open>definitions of the queue's doors and predicates\<close>
named_theorems prog_defs \<open>definitions of the progress bookkeeping\<close>

section \<open>Results and time\<close>

text \<open>A Go function returning \<open>(T, error)\<close> is a sum: \<open>Inl\<close> the error, \<open>Inr\<close> the value.\<close>

type_synonym ('e, 'a) result = "'e + 'a"

lemma result_bind_Inr [simp]:
  "(case x of Inl e \<Rightarrow> Inl e | Inr a \<Rightarrow> f a) = Inr b \<longleftrightarrow> (\<exists>a. x = Inr a \<and> f a = Inr b)"
  by (cases x) auto

lemma result_bind_Inl [simp]:
  "(case x of Inl e \<Rightarrow> Inl e | Inr a \<Rightarrow> f a) = Inl d \<longleftrightarrow>
     x = Inl d \<or> (\<exists>a. x = Inr a \<and> f a = Inl d)"
  by (cases x) auto

text \<open>
  A \<open>time.Time\<close> is its distance from the Unix epoch in nanoseconds; the zero value is the
  first instant of year 1.
\<close>

type_synonym Time = int

definition zeroTime :: Time where
  "zeroTime = - 62135596800 * 1000000000"

definition unixSeconds :: "Time \<Rightarrow> int" where
  "unixSeconds t = t div 1000000000"

section \<open>Machine integers\<close>

text \<open>\<open>math.MaxInt64\<close>, and an \<open>int64\<close> sum as the machine leaves it.\<close>

definition MaxInt64 :: int where
  "MaxInt64 = 2 ^ 63 - 1"

definition wrap64 :: "int \<Rightarrow> int" where
  "wrap64 x = (x + 2 ^ 63) mod 2 ^ 64 - 2 ^ 63"

lemma wrap64_id: "- (2 ^ 63) \<le> x \<Longrightarrow> x \<le> MaxInt64 \<Longrightarrow> wrap64 x = x"
  by (simp add: wrap64_def MaxInt64_def)

section \<open>Go's sort.Search\<close>

text \<open>
  The loop of \<open>sort.Search\<close>: it keeps \<open>\<not> f (i - 1)\<close> and \<open>f j\<close> and halves the gap. For a
  predicate that is false and then true on the range it returns the first true index.
\<close>

function search_loop :: "(nat \<Rightarrow> bool) \<Rightarrow> nat \<Rightarrow> nat \<Rightarrow> nat" where
  "search_loop f i j =
     (if i < j
      then (let h = (i + j) div 2
            in if f h then search_loop f i h else search_loop f (Suc h) j)
      else i)"
  by pat_completeness auto
termination
  by (relation "measure (\<lambda>(f, i, j). j - i)") auto

declare search_loop.simps [simp del]

definition sort_Search :: "nat \<Rightarrow> (nat \<Rightarrow> bool) \<Rightarrow> nat" where
  "sort_Search n f = search_loop f 0 n"

definition upward :: "(nat \<Rightarrow> bool) \<Rightarrow> nat \<Rightarrow> bool" where
  "upward f n \<longleftrightarrow> (\<forall>a b. a \<le> b \<and> b < n \<and> f a \<longrightarrow> f b)"

lemma search_loop_spec:
  assumes "upward f n" and "i \<le> j" and "j \<le> n"
    and "\<forall>k<i. \<not> f k" and "\<forall>k. j \<le> k \<and> k < n \<longrightarrow> f k"
  shows "i \<le> search_loop f i j \<and> search_loop f i j \<le> j
    \<and> (\<forall>k. k < search_loop f i j \<longrightarrow> \<not> f k)
    \<and> (\<forall>k. search_loop f i j \<le> k \<and> k < n \<longrightarrow> f k)"
  using assms
proof (induction f i j rule: search_loop.induct)
  case (1 f i j)
  show ?case
  proof (cases "i < j")
    case False
    then have "search_loop f i j = i" by (simp add: search_loop.simps [of f i j])
    with False "1.prems" show ?thesis by auto
  next
    case True
    define h where "h = (i + j) div 2"
    have h: "i \<le> h" "h < j" "h < n" using True "1.prems"(3) by (auto simp: h_def)
    show ?thesis
    proof (cases "f h")
      case fh: True
      have up: "\<forall>k. h \<le> k \<and> k < n \<longrightarrow> f k"
        using fh "1.prems"(1) by (auto simp: upward_def)
      have IH: "i \<le> search_loop f i h \<and> search_loop f i h \<le> h
          \<and> (\<forall>k. k < search_loop f i h \<longrightarrow> \<not> f k)
          \<and> (\<forall>k. search_loop f i h \<le> k \<and> k < n \<longrightarrow> f k)"
        using "1.IH"(1)[OF True h_def fh "1.prems"(1)] h up "1.prems" by auto
      have "search_loop f i j = search_loop f i h"
        using True fh by (simp add: search_loop.simps [of f i j] h_def)
      then show ?thesis using IH h by auto
    next
      case fh: False
      have down: "\<forall>k<Suc h. \<not> f k"
        using fh "1.prems"(1) h(3) by (auto simp: upward_def less_Suc_eq_le)
      have IH: "Suc h \<le> search_loop f (Suc h) j \<and> search_loop f (Suc h) j \<le> j
          \<and> (\<forall>k. k < search_loop f (Suc h) j \<longrightarrow> \<not> f k)
          \<and> (\<forall>k. search_loop f (Suc h) j \<le> k \<and> k < n \<longrightarrow> f k)"
        using "1.IH"(2)[OF True h_def fh "1.prems"(1)] h down "1.prems" by auto
      have "search_loop f i j = search_loop f (Suc h) j"
        using True fh by (simp add: search_loop.simps [of f i j] h_def)
      then show ?thesis using IH h by auto
    qed
  qed
qed

lemma sort_Search_spec:
  assumes "upward f n"
  shows "sort_Search n f \<le> n"
    and "k < sort_Search n f \<Longrightarrow> \<not> f k"
    and "sort_Search n f \<le> k \<Longrightarrow> k < n \<Longrightarrow> f k"
proof -
  have "search_loop f 0 n \<le> n \<and> (\<forall>k. k < search_loop f 0 n \<longrightarrow> \<not> f k)
      \<and> (\<forall>k. search_loop f 0 n \<le> k \<and> k < n \<longrightarrow> f k)"
    using search_loop_spec [OF assms le0 order_refl] by (meson leD not_less0)
  then show "sort_Search n f \<le> n"
    and "k < sort_Search n f \<Longrightarrow> \<not> f k"
    and "sort_Search n f \<le> k \<Longrightarrow> k < n \<Longrightarrow> f k"
    unfolding sort_Search_def by blast+
qed

lemma sort_Search_eqI:
  assumes "upward f n" and "r \<le> n"
    and "\<And>k. k < r \<Longrightarrow> \<not> f k" and "r < n \<Longrightarrow> f r"
  shows "sort_Search n f = r"
proof (rule antisym)
  show "sort_Search n f \<le> r"
  proof (rule ccontr)
    assume "\<not> sort_Search n f \<le> r"
    then have "r < sort_Search n f" by simp
    with sort_Search_spec(1,2) [OF assms(1)] assms(4) show False by fastforce
  qed
  show "r \<le> sort_Search n f"
  proof (rule ccontr)
    assume "\<not> r \<le> sort_Search n f"
    then have lt: "sort_Search n f < r" by simp
    with sort_Search_spec(3) [OF assms(1), of "sort_Search n f"] assms(2,3) show False by simp
  qed
qed

end
