(* ===== verification/Job_Lifecycle.thy ===== *)
theory Job_Lifecycle
  imports Prelude
begin

text \<open>
  The job state machine of \<^verbatim>\<open>internal/job\<close>: the enumerations (state.go, outcome.go,
  intent.go, activity.go), the graph of legal edges and its two doors (transition.go), the
  table of admissible verdicts (admissibility.go), one attempt and its mutators
  (attempt.go), the lease (lease.go) and the lifecycle half of \<open>Job\<close> (job.go, the fields
  guarded by its first lock). Every mutator is a function from the old value to an error
  or the new value; a refused call leaves the value as it was.
\<close>

section \<open>Enumerations\<close>

text \<open>
  Each Go enumeration is a \<open>uint8\<close>, so a value outside the declared constants can occur.
  The last constructor stands for such a value.
\<close>

datatype State =
    StateUnset | Fetching | Assessing | Repairing | Extracting | Finalizing
  | OtherState "8 word"

definition AllStates :: "State list" where
  "AllStates = [Fetching, Assessing, Repairing, Extracting, Finalizing]"

datatype Outcome =
    OutcomePending | OutcomeOK | OutcomeFailed | OutcomeUnrecoverable | OutcomeCancelled
  | OtherOutcome "8 word"

definition AllOutcomes :: "Outcome list" where
  "AllOutcomes = [OutcomePending, OutcomeOK, OutcomeFailed, OutcomeUnrecoverable, OutcomeCancelled]"

definition IsSettled :: "Outcome \<Rightarrow> bool" where
  "IsSettled o' \<longleftrightarrow> o' \<noteq> OutcomePending"

datatype Intent = IntentRun | IntentPause | IntentCancel | OtherIntent "8 word"

definition AllIntents :: "Intent list" where
  "AllIntents = [IntentRun, IntentPause, IntentCancel]"

definition IsLatched :: "Intent \<Rightarrow> bool" where
  "IsLatched i \<longleftrightarrow> i = IntentCancel"

datatype Activity =
    ActNone | ActCRCCheck | ActPar2Verify | ActPar2Repair | ActVolumeRecovery
  | ActUnpack | ActDeobfuscate | ActCleanup | ActMove | ActScript | OtherActivity "8 word"

datatype WaitReason = NoLease | NoComputeSlot | UserPaused | GlobalPause | OtherReason "8 word"

definition IsPause :: "WaitReason \<Rightarrow> bool" where
  "IsPause r \<longleftrightarrow> r = UserPaused \<or> r = GlobalPause"

section \<open>Errors\<close>

text \<open>The sentinels of the package; \<open>wraps\<close> is the chain \<open>errors.Is\<close> follows.\<close>

datatype JobError =
    ErrIllegalTransition | ErrTransitionRequired | ErrCrossRequired
  | ErrOutcomeAlreadySet | ErrUnrecoverableAfterBoundary | ErrInvalidOutcome
  | ErrNextAlreadySet | ErrNoOpenAttempt | ErrBoundaryConsumed | ErrIntentLatched
  | ErrInvalidIntent | ErrAlreadyLeased | ErrNilLease | ErrUnidentifiedLease
  | ErrLeaseAfterBoundary

fun wraps :: "JobError \<Rightarrow> JobError option" where
  "wraps ErrTransitionRequired = Some ErrIllegalTransition"
| "wraps ErrCrossRequired = Some ErrIllegalTransition"
| "wraps _ = None"

definition errors_Is :: "JobError \<Rightarrow> JobError \<Rightarrow> bool" where
  "errors_Is e t \<longleftrightarrow> e = t \<or> wraps e = Some t"

section \<open>The graph of legal edges\<close>

datatype door = byTransition | byCross

type_synonym edge = "State \<times> door"

fun legalEdges :: "State \<Rightarrow> edge list" where
  "legalEdges Fetching = [(Assessing, byTransition)]"
| "legalEdges Assessing =
     [(Fetching, byTransition), (Repairing, byTransition), (Extracting, byCross)]"
| "legalEdges Repairing = [(Assessing, byTransition)]"
| "legalEdges Extracting = [(Finalizing, byTransition)]"
| "legalEdges _ = []"

definition edgeFrom :: "State \<Rightarrow> State \<Rightarrow> edge option" where
  "edgeFrom from to = find (\<lambda>e. fst e = to) (legalEdges from)"

definition CanTransition :: "State \<Rightarrow> State \<Rightarrow> bool" where
  "CanTransition from to \<longleftrightarrow> edgeFrom from to \<noteq> None"

definition IsCorrectness :: "State \<Rightarrow> bool" where
  "IsCorrectness s \<longleftrightarrow> s = Fetching \<or> s = Assessing \<or> s = Repairing"

definition IsProduction :: "State \<Rightarrow> bool" where
  "IsProduction s \<longleftrightarrow> s = Extracting \<or> s = Finalizing"

section \<open>Admissible verdicts\<close>

fun admissibleAt :: "Outcome \<Rightarrow> State list" where
  "admissibleAt OutcomeOK = [Finalizing]"
| "admissibleAt OutcomeFailed = [Fetching, Assessing, Repairing, Extracting, Finalizing]"
| "admissibleAt OutcomeUnrecoverable = [Fetching, Assessing, Repairing]"
| "admissibleAt OutcomeCancelled = [Fetching, Assessing, Repairing, Extracting, Finalizing]"
| "admissibleAt _ = []"

definition admits :: "Outcome \<Rightarrow> State \<Rightarrow> bool" where
  "admits o' s \<longleftrightarrow> s \<in> set (admissibleAt o')"

definition inadmissible :: "Outcome \<Rightarrow> State \<Rightarrow> JobError" where
  "inadmissible o' s =
     (if o' = OutcomeUnrecoverable then ErrUnrecoverableAfterBoundary else ErrInvalidOutcome)"

section \<open>One attempt\<close>

record Attempt =
  at_state :: State
  at_next :: State
  at_activity :: Activity
  at_outcome :: Outcome
  at_assessed :: bool
  at_started :: Time
  at_ended :: Time

record StateView =
  sv_State :: State
  sv_Next :: State
  sv_Activity :: Activity
  sv_Outcome :: Outcome
  sv_Assessed :: bool

definition newAttempt :: "Time \<Rightarrow> Attempt" where
  "newAttempt now =
     \<lparr>at_state = Fetching, at_next = StateUnset, at_activity = ActNone,
      at_outcome = OutcomePending, at_assessed = False, at_started = now, at_ended = zeroTime\<rparr>"

definition isOpen :: "Attempt \<Rightarrow> bool" where
  "isOpen a \<longleftrightarrow> at_outcome a = OutcomePending"

definition crossed :: "Attempt \<Rightarrow> bool" where
  "crossed a \<longleftrightarrow> IsProduction (at_state a)"

definition view :: "Attempt \<Rightarrow> StateView" where
  "view a =
     \<lparr>sv_State = at_state a, sv_Next = at_next a, sv_Activity = at_activity a,
      sv_Outcome = at_outcome a, sv_Assessed = at_assessed a\<rparr>"

definition setNext :: "State \<Rightarrow> Attempt \<Rightarrow> (JobError, Attempt) result" where
  "setNext n a =
     (if n = StateUnset then Inl ErrIllegalTransition
      else if \<not> CanTransition (at_state a) n then Inl ErrIllegalTransition
      else if at_next a \<noteq> StateUnset \<and> at_next a \<noteq> n then Inl ErrNextAlreadySet
      else Inr (a\<lparr>at_next := n\<rparr>))"

definition transition :: "State \<Rightarrow> Attempt \<Rightarrow> (JobError, Attempt) result" where
  "transition to a =
     (if to = StateUnset then Inl ErrIllegalTransition
      else if at_next a \<noteq> StateUnset \<and> to \<noteq> at_next a then Inl ErrIllegalTransition
      else case edgeFrom (at_state a) to of
        None \<Rightarrow> Inl ErrIllegalTransition
      | Some e \<Rightarrow>
          if snd e \<noteq> byTransition then Inl ErrCrossRequired
          else Inr (a\<lparr>at_state := to, at_activity := ActNone, at_next := StateUnset,
                      at_assessed := (if to = Assessing then True else at_assessed a)\<rparr>))"

definition cross :: "State \<Rightarrow> Attempt \<Rightarrow> (JobError, Attempt) result" where
  "cross to a =
     (if at_next a \<noteq> StateUnset \<and> at_next a \<noteq> to then Inl ErrIllegalTransition
      else case edgeFrom (at_state a) to of
        None \<Rightarrow> Inl ErrIllegalTransition
      | Some e \<Rightarrow>
          if snd e \<noteq> byCross then Inl ErrTransitionRequired
          else if at_next a = StateUnset then Inl ErrIllegalTransition
          else Inr (a\<lparr>at_state := to, at_activity := ActNone, at_next := StateUnset\<rparr>))"

definition setActivity :: "Activity \<Rightarrow> Attempt \<Rightarrow> Attempt" where
  "setActivity x a = a\<lparr>at_activity := x\<rparr>"

definition finish :: "Outcome \<Rightarrow> Time \<Rightarrow> Attempt \<Rightarrow> (JobError, Attempt) result" where
  "finish o' now a =
     (if \<not> IsSettled o' then Inl ErrInvalidOutcome
      else if o' \<notin> set AllOutcomes then Inl ErrInvalidOutcome
      else if IsSettled (at_outcome a) then Inl ErrOutcomeAlreadySet
      else if \<not> admits o' (at_state a) then Inl (inadmissible o' (at_state a))
      else Inr (a\<lparr>at_activity := ActNone, at_next := StateUnset, at_outcome := o',
                  at_ended := now\<rparr>))"

section \<open>The lease and the lifecycle half of a job\<close>

type_synonym LeaseID = "64 word"

definition LeaseUnset :: LeaseID where
  "LeaseUnset = 0"

datatype Lease = NewLease (lease_id: LeaseID)

text \<open>\<open>Lease.ID\<close> on a possibly nil pointer.\<close>

definition ID :: "Lease option \<Rightarrow> LeaseID" where
  "ID l = (case l of None \<Rightarrow> LeaseUnset | Some l' \<Rightarrow> lease_id l')"

record Policy =
  pol_Verify :: bool
  pol_Repair :: bool
  pol_Unpack :: bool
  pol_Delete :: bool

record Job =
  j_id :: string
  j_name :: string
  j_policy :: Policy
  j_attempts :: "Attempt list"
  j_intent :: Intent
  j_lease :: "Lease option"
  j_created :: Time

record Snapshot =
  sn_State :: StateView
  sn_Intent :: Intent
  sn_HoldsLease :: bool
  sn_HasRun :: bool

definition New :: "string \<Rightarrow> string \<Rightarrow> Policy \<Rightarrow> Time \<Rightarrow> Job" where
  "New i n p now =
     \<lparr>j_id = i, j_name = n, j_policy = p, j_attempts = [], j_intent = IntentRun,
      j_lease = None, j_created = now\<rparr>"

definition currentLocked :: "Job \<Rightarrow> Attempt option" where
  "currentLocked j = (if j_attempts j = [] then None else Some (last (j_attempts j)))"

text \<open>Writing through the pointer \<open>currentLocked\<close> returns.\<close>

definition setCurrent :: "Attempt \<Rightarrow> Job \<Rightarrow> Job" where
  "setCurrent a j = j\<lparr>j_attempts := butlast (j_attempts j) @ [a]\<rparr>"

definition zeroView :: StateView where
  "zeroView = \<lparr>sv_State = StateUnset, sv_Next = StateUnset, sv_Activity = ActNone,
     sv_Outcome = OutcomePending, sv_Assessed = False\<rparr>"

definition State_of :: "Job \<Rightarrow> StateView" where
  "State_of j = (case currentLocked j of None \<Rightarrow> zeroView | Some a \<Rightarrow> view a)"

definition HasRun :: "Job \<Rightarrow> bool" where
  "HasRun j \<longleftrightarrow> length (j_attempts j) > 0"

definition BeginAttempt :: "Time \<Rightarrow> Job \<Rightarrow> (JobError, Job) result" where
  "BeginAttempt now j =
     (case currentLocked j of
        Some a \<Rightarrow>
          if isOpen a then Inr j
          else if crossed a then Inl ErrBoundaryConsumed
          else Inr (j\<lparr>j_attempts := j_attempts j @ [newAttempt now]\<rparr>)
      | None \<Rightarrow> Inr (j\<lparr>j_attempts := j_attempts j @ [newAttempt now]\<rparr>))"

definition withOpenAttempt ::
  "(Attempt \<Rightarrow> Job \<Rightarrow> (JobError, 'r) result) \<Rightarrow> Job \<Rightarrow> (JobError, 'r) result" where
  "withOpenAttempt fn j =
     (case currentLocked j of
        None \<Rightarrow> Inl ErrNoOpenAttempt
      | Some a \<Rightarrow> if \<not> isOpen a then Inl ErrNoOpenAttempt else fn a j)"

definition surrenderLocked :: "Job \<Rightarrow> Lease option \<times> Job" where
  "surrenderLocked j = (j_lease j, j\<lparr>j_lease := None\<rparr>)"

definition Transition :: "State \<Rightarrow> Job \<Rightarrow> (JobError, Job) result" where
  "Transition to = withOpenAttempt (\<lambda>a j.
     case transition to a of Inl e \<Rightarrow> Inl e | Inr a' \<Rightarrow> Inr (setCurrent a' j))"

definition SetNext :: "State \<Rightarrow> Job \<Rightarrow> (JobError, Job) result" where
  "SetNext n = withOpenAttempt (\<lambda>a j.
     case setNext n a of Inl e \<Rightarrow> Inl e | Inr a' \<Rightarrow> Inr (setCurrent a' j))"

definition SetActivity :: "Activity \<Rightarrow> Job \<Rightarrow> (JobError, Job) result" where
  "SetActivity x = withOpenAttempt (\<lambda>a j. Inr (setCurrent (setActivity x a) j))"

definition Cross :: "State \<Rightarrow> Job \<Rightarrow> (JobError, Lease option \<times> Job) result" where
  "Cross to = withOpenAttempt (\<lambda>a j.
     case cross to a of Inl e \<Rightarrow> Inl e | Inr a' \<Rightarrow> Inr (surrenderLocked (setCurrent a' j)))"

definition Finish :: "Outcome \<Rightarrow> Time \<Rightarrow> Job \<Rightarrow> (JobError, Lease option \<times> Job) result" where
  "Finish o' now = withOpenAttempt (\<lambda>a j.
     case finish o' now a of Inl e \<Rightarrow> Inl e | Inr a' \<Rightarrow> Inr (surrenderLocked (setCurrent a' j)))"

definition SetIntent :: "Intent \<Rightarrow> Job \<Rightarrow> (JobError, Job) result" where
  "SetIntent i j =
     (if i \<notin> set AllIntents then Inl ErrInvalidIntent
      else if IsLatched (j_intent j) \<and> i \<noteq> j_intent j then Inl ErrIntentLatched
      else Inr (j\<lparr>j_intent := i\<rparr>))"

definition HoldsLease :: "Job \<Rightarrow> bool" where
  "HoldsLease j \<longleftrightarrow> j_lease j \<noteq> None"

definition Grant :: "Lease option \<Rightarrow> Job \<Rightarrow> (JobError, Job) result" where
  "Grant l j =
     (case l of
        None \<Rightarrow> Inl ErrNilLease
      | Some l' \<Rightarrow>
          if lease_id l' = LeaseUnset then Inl ErrUnidentifiedLease
          else (case currentLocked j of
                  None \<Rightarrow> Inl ErrNoOpenAttempt
                | Some a \<Rightarrow>
                    if \<not> isOpen a then Inl ErrNoOpenAttempt
                    else if crossed a then Inl ErrLeaseAfterBoundary
                    else if j_lease j \<noteq> None then Inl ErrAlreadyLeased
                    else Inr (j\<lparr>j_lease := Some l'\<rparr>)))"

definition Surrender :: "Job \<Rightarrow> Lease option \<times> Job" where
  "Surrender j = surrenderLocked j"

definition snapshot :: "Job \<Rightarrow> Snapshot" where
  "snapshot j =
     \<lparr>sn_State = (case currentLocked j of None \<Rightarrow> zeroView | Some a \<Rightarrow> view a),
      sn_Intent = j_intent j, sn_HoldsLease = (j_lease j \<noteq> None),
      sn_HasRun = (length (j_attempts j) > 0)\<rparr>"

definition IsOpen :: "Snapshot \<Rightarrow> bool" where
  "IsOpen s \<longleftrightarrow> sn_HasRun s \<and> \<not> IsSettled (sv_Outcome (sn_State s))"

section \<open>The steps of a job and its well-formedness\<close>

text \<open>
  One step of a job is one successful call of a door; which door is called, and when, is
  up to the callers, so the steps are a relation.
\<close>

inductive job_step :: "Job \<Rightarrow> Job \<Rightarrow> bool" where
  begin_attempt: "BeginAttempt now j = Inr j' \<Longrightarrow> job_step j j'"
| transition: "Transition to j = Inr j' \<Longrightarrow> job_step j j'"
| set_next: "SetNext n j = Inr j' \<Longrightarrow> job_step j j'"
| set_activity: "SetActivity x j = Inr j' \<Longrightarrow> job_step j j'"
| cross: "Cross to j = Inr (l, j') \<Longrightarrow> job_step j j'"
| finish: "Finish o' now j = Inr (l, j') \<Longrightarrow> job_step j j'"
| set_intent: "SetIntent i j = Inr j' \<Longrightarrow> job_step j j'"
| grant: "Grant l j = Inr j' \<Longrightarrow> job_step j j'"
| surrender: "Surrender j = (l, j') \<Longrightarrow> job_step j j'"

inductive job_steps :: "Job \<Rightarrow> Job \<Rightarrow> bool" where
  refl: "job_steps j j"
| step: "job_steps j k \<Longrightarrow> job_step k l \<Longrightarrow> job_steps j l"

definition attempt_wf :: "Attempt \<Rightarrow> bool" where
  "attempt_wf a \<longleftrightarrow>
     at_state a \<in> set AllStates
   \<and> (at_next a = StateUnset \<or> CanTransition (at_state a) (at_next a))
   \<and> (at_state a \<noteq> Fetching \<longrightarrow> at_assessed a)
   \<and> (\<not> isOpen a \<longrightarrow> at_next a = StateUnset \<and> at_activity a = ActNone
        \<and> at_outcome a \<in> set AllOutcomes \<and> admits (at_outcome a) (at_state a))"

text \<open>
  A job is well formed when every attempt is, every attempt but the last is settled short
  of the boundary, and a lease is held only by an open attempt in the correctness zone.
\<close>

definition job_wf :: "Job \<Rightarrow> bool" where
  "job_wf j \<longleftrightarrow>
     list_all attempt_wf (j_attempts j)
   \<and> list_all (\<lambda>a. \<not> isOpen a \<and> \<not> crossed a) (butlast (j_attempts j))
   \<and> (case j_lease j of
        None \<Rightarrow> True
      | Some l \<Rightarrow> lease_id l \<noteq> LeaseUnset
          \<and> (case currentLocked j of None \<Rightarrow> False
             | Some a \<Rightarrow> isOpen a \<and> IsCorrectness (at_state a)))
   \<and> j_intent j \<in> set AllIntents"

definition in_production :: "Job \<Rightarrow> bool" where
  "in_production j \<longleftrightarrow> (case currentLocked j of None \<Rightarrow> False | Some a \<Rightarrow> crossed a)"

section \<open>Facts about the graph and the doors\<close>

lemma edgeFrom_Some:
  "edgeFrom s t = Some e \<longleftrightarrow>
     e = (t, byTransition) \<and> (s, t) \<in> {(Fetching, Assessing), (Assessing, Fetching),
        (Assessing, Repairing), (Repairing, Assessing), (Extracting, Finalizing)}
   \<or> e = (t, byCross) \<and> (s, t) = (Assessing, Extracting)"
  by (cases s) (auto simp: edgeFrom_def)

lemma edgeFrom_target: "edgeFrom s t = Some e \<Longrightarrow> fst e = t \<and> t \<noteq> StateUnset"
  by (auto simp: edgeFrom_Some)

lemma edgeFrom_byCross: "edgeFrom s t = Some (t, byCross) \<longleftrightarrow> s = Assessing \<and> t = Extracting"
  by (auto simp: edgeFrom_Some)

lemma edgeFrom_None: "edgeFrom s t = None \<longleftrightarrow> t \<notin> fst ` set (legalEdges s)"
  by (cases s) (auto simp: edgeFrom_def)

lemma CanTransition_iff:
  "CanTransition s t \<longleftrightarrow>
     (s, t) \<in> {(Fetching, Assessing), (Assessing, Fetching), (Assessing, Repairing),
       (Assessing, Extracting), (Repairing, Assessing), (Extracting, Finalizing)}"
  by (cases s) (auto simp: CanTransition_def edgeFrom_None)

lemma setNext_Inr:
  "setNext n a = Inr a' \<longleftrightarrow>
     CanTransition (at_state a) n \<and> (at_next a = StateUnset \<or> at_next a = n)
     \<and> a' = a\<lparr>at_next := n\<rparr>"
  by (auto simp: setNext_def CanTransition_iff)

lemma transition_Inr:
  "transition to a = Inr a' \<longleftrightarrow>
     edgeFrom (at_state a) to = Some (to, byTransition)
     \<and> (at_next a = StateUnset \<or> at_next a = to)
     \<and> a' = a\<lparr>at_state := to, at_activity := ActNone, at_next := StateUnset,
              at_assessed := (to = Assessing \<or> at_assessed a)\<rparr>"
proof (cases "edgeFrom (at_state a) to")
  case None
  then show ?thesis by (simp add: transition_def)
next
  case (Some e)
  moreover obtain t d where "e = (t, d)" by force
  moreover have "t = to" "to \<noteq> StateUnset" using edgeFrom_target calculation by force+
  ultimately show ?thesis by (cases d) (auto simp: transition_def)
qed

lemma cross_Inr:
  "cross to a = Inr a' \<longleftrightarrow>
     at_state a = Assessing \<and> to = Extracting \<and> at_next a = Extracting
     \<and> a' = a\<lparr>at_state := Extracting, at_activity := ActNone, at_next := StateUnset\<rparr>"
proof (cases "edgeFrom (at_state a) to")
  case None
  then show ?thesis using edgeFrom_byCross [of "at_state a" to] by (auto simp: cross_def)
next
  case (Some e)
  moreover obtain t d where "e = (t, d)" by force
  moreover have "t = to" "to \<noteq> StateUnset" using edgeFrom_target calculation by force+
  ultimately show ?thesis
    using edgeFrom_byCross [of "at_state a" to] by (cases d) (auto simp: cross_def)
qed

lemma finish_Inr:
  "finish o' now a = Inr a' \<longleftrightarrow>
     admits o' (at_state a) \<and> isOpen a
     \<and> a' = a\<lparr>at_activity := ActNone, at_next := StateUnset, at_outcome := o', at_ended := now\<rparr>"
  by (cases o') (auto simp: finish_def admits_def IsSettled_def AllOutcomes_def isOpen_def)

lemma withOpenAttempt_Inr:
  "withOpenAttempt fn j = Inr r \<longleftrightarrow>
     (\<exists>a. currentLocked j = Some a \<and> isOpen a \<and> fn a j = Inr r)"
  by (auto simp: withOpenAttempt_def split: option.splits)

lemma Transition_Inr:
  "Transition to j = Inr j' \<longleftrightarrow>
     (\<exists>a a'. currentLocked j = Some a \<and> isOpen a \<and> transition to a = Inr a' \<and> j' = setCurrent a' j)"
  by (auto simp: Transition_def withOpenAttempt_Inr)

lemma SetNext_Inr:
  "SetNext n j = Inr j' \<longleftrightarrow>
     (\<exists>a a'. currentLocked j = Some a \<and> isOpen a \<and> setNext n a = Inr a' \<and> j' = setCurrent a' j)"
  by (auto simp: SetNext_def withOpenAttempt_Inr)

lemma SetActivity_Inr:
  "SetActivity x j = Inr j' \<longleftrightarrow>
     (\<exists>a. currentLocked j = Some a \<and> isOpen a \<and> j' = setCurrent (setActivity x a) j)"
  by (auto simp: SetActivity_def withOpenAttempt_Inr)

lemma Cross_Inr:
  "Cross to j = Inr (l, j') \<longleftrightarrow>
     (\<exists>a a'. currentLocked j = Some a \<and> isOpen a \<and> cross to a = Inr a'
        \<and> l = j_lease j \<and> j' = (setCurrent a' j)\<lparr>j_lease := None\<rparr>)"
  by (auto simp: Cross_def withOpenAttempt_Inr surrenderLocked_def setCurrent_def)

lemma Finish_Inr:
  "Finish o' now j = Inr (l, j') \<longleftrightarrow>
     (\<exists>a a'. currentLocked j = Some a \<and> isOpen a \<and> finish o' now a = Inr a'
        \<and> l = j_lease j \<and> j' = (setCurrent a' j)\<lparr>j_lease := None\<rparr>)"
  by (auto simp: Finish_def withOpenAttempt_Inr surrenderLocked_def setCurrent_def)

lemma SetIntent_Inr:
  "SetIntent i j = Inr j' \<longleftrightarrow>
     i \<in> set AllIntents \<and> (j_intent j = IntentCancel \<longrightarrow> i = IntentCancel) \<and> j' = j\<lparr>j_intent := i\<rparr>"
  by (auto simp: SetIntent_def IsLatched_def)

lemma Grant_Inr:
  "Grant l j = Inr j' \<longleftrightarrow>
     (\<exists>l' a. l = Some l' \<and> lease_id l' \<noteq> LeaseUnset \<and> currentLocked j = Some a \<and> isOpen a
        \<and> \<not> crossed a \<and> j_lease j = None \<and> j' = j\<lparr>j_lease := Some l'\<rparr>)"
  by (auto simp: Grant_def split: option.splits)

lemma BeginAttempt_Inr:
  "BeginAttempt now j = Inr j' \<longleftrightarrow>
     (case currentLocked j of
        None \<Rightarrow> j' = j\<lparr>j_attempts := [newAttempt now]\<rparr>
      | Some a \<Rightarrow> if isOpen a then j' = j
                 else \<not> crossed a \<and> j' = j\<lparr>j_attempts := j_attempts j @ [newAttempt now]\<rparr>)"
  by (auto simp: BeginAttempt_def currentLocked_def split: option.splits if_splits)

lemmas door_Inr =
  BeginAttempt_Inr Transition_Inr SetNext_Inr SetActivity_Inr Cross_Inr Finish_Inr
  SetIntent_Inr Grant_Inr

lemma currentLocked_Some:
  "currentLocked j = Some a \<longleftrightarrow> (\<exists>as. j_attempts j = as @ [a])"
  by (auto simp: currentLocked_def) (metis append_butlast_last_id)

lemma currentLocked_None: "currentLocked j = None \<longleftrightarrow> j_attempts j = []"
  by (simp add: currentLocked_def)

lemma setCurrent_attempts [simp]:
  "j_attempts (setCurrent a j) = butlast (j_attempts j) @ [a]"
  by (simp add: setCurrent_def)

lemma currentLocked_setCurrent [simp]: "currentLocked (setCurrent a j) = Some a"
  by (simp add: currentLocked_def)

lemma setCurrent_fields [simp]:
  "j_id (setCurrent a j) = j_id j" "j_intent (setCurrent a j) = j_intent j"
  "j_lease (setCurrent a j) = j_lease j" "j_name (setCurrent a j) = j_name j"
  "j_policy (setCurrent a j) = j_policy j"
  by (simp_all add: setCurrent_def)

lemma currentLocked_updates [simp]:
  "currentLocked (j\<lparr>j_lease := l\<rparr>) = currentLocked j"
  "currentLocked (j\<lparr>j_intent := i\<rparr>) = currentLocked j"
  "currentLocked (j\<lparr>j_attempts := as @ [a]\<rparr>) = Some a"
  by (simp_all add: currentLocked_def)

section \<open>Preservation of well-formedness\<close>

lemma setNext_wf:
  "attempt_wf a \<Longrightarrow> isOpen a \<Longrightarrow> setNext n a = Inr a' \<Longrightarrow>
     attempt_wf a' \<and> isOpen a' \<and> at_state a' = at_state a"
  by (auto simp: setNext_Inr attempt_wf_def isOpen_def)

lemma transition_wf:
  "attempt_wf a \<Longrightarrow> isOpen a \<Longrightarrow> transition to a = Inr a' \<Longrightarrow>
     attempt_wf a' \<and> isOpen a' \<and> IsCorrectness (at_state a') = IsCorrectness (at_state a)"
  by (auto simp: transition_Inr edgeFrom_Some attempt_wf_def isOpen_def AllStates_def IsCorrectness_def)

lemma cross_wf:
  "attempt_wf a \<Longrightarrow> isOpen a \<Longrightarrow> cross to a = Inr a' \<Longrightarrow> attempt_wf a' \<and> isOpen a'"
  by (auto simp: cross_Inr attempt_wf_def isOpen_def AllStates_def)

lemma finish_wf:
  assumes "attempt_wf a" and "finish o' now a = Inr a'"
  shows "attempt_wf a' \<and> \<not> isOpen a' \<and> at_state a' = at_state a"
proof -
  from assms(2) have fin: "admits o' (at_state a)"
      "a' = a\<lparr>at_activity := ActNone, at_next := StateUnset, at_outcome := o', at_ended := now\<rparr>"
    by (auto simp: finish_Inr)
  then have "o' \<in> set AllOutcomes" "o' \<noteq> OutcomePending"
    by (cases o'; simp add: admits_def AllOutcomes_def)+
  with fin assms(1) show ?thesis by (auto simp: attempt_wf_def isOpen_def)
qed

lemma setActivity_wf:
  "attempt_wf a \<Longrightarrow> isOpen a \<Longrightarrow> attempt_wf (setActivity x a) \<and> isOpen (setActivity x a)
     \<and> at_state (setActivity x a) = at_state a"
  by (auto simp: setActivity_def attempt_wf_def isOpen_def)

lemma newAttempt_wf [simp]: "attempt_wf (newAttempt now)" "isOpen (newAttempt now)"
  by (auto simp: newAttempt_def attempt_wf_def isOpen_def AllStates_def)

lemma job_wf_New [simp]: "job_wf (New i n p now)"
  by (simp add: job_wf_def New_def AllIntents_def)

lemma job_wf_current: "job_wf j \<Longrightarrow> currentLocked j = Some a \<Longrightarrow> attempt_wf a"
  by (auto simp: job_wf_def currentLocked_Some)

lemma job_wf_lease:
  "job_wf j \<Longrightarrow> j_lease j = Some l \<Longrightarrow>
     lease_id l \<noteq> LeaseUnset \<and> (\<exists>a. currentLocked j = Some a \<and> isOpen a \<and> IsCorrectness (at_state a))"
  by (auto simp: job_wf_def split: option.splits)

lemma job_wf_setCurrent:
  assumes "job_wf j" and "currentLocked j = Some a" and "attempt_wf a'"
    and "j_lease j \<noteq> None \<Longrightarrow> isOpen a' \<and> IsCorrectness (at_state a')"
  shows "job_wf (setCurrent a' j)"
  using assms by (auto simp: job_wf_def currentLocked_Some list_all_append split: option.splits)

lemma job_wf_dropLease: "job_wf j \<Longrightarrow> job_wf (j\<lparr>j_lease := None\<rparr>)"
  by (auto simp: job_wf_def)

lemma job_wf_setCurrent_dropLease:
  assumes "job_wf j" and "currentLocked j = Some a" and "attempt_wf a'"
  shows "job_wf ((setCurrent a' j)\<lparr>j_lease := None\<rparr>)"
  using assms by (auto simp: job_wf_def currentLocked_Some list_all_append)

lemma job_wf_BeginAttempt:
  assumes "job_wf j" and "BeginAttempt now j = Inr j'"
  shows "job_wf j'"
proof (cases "currentLocked j")
  case None
  then have "j_lease j = None" using job_wf_lease [OF assms(1)] by (cases "j_lease j") auto
  with None assms show ?thesis by (auto simp: BeginAttempt_Inr job_wf_def)
next
  case (Some a)
  with assms show ?thesis
    by (auto simp: BeginAttempt_Inr job_wf_def currentLocked_Some list_all_append butlast_append
        split: if_splits option.splits)
qed

lemma IsCorrectness_not_crossed: "attempt_wf a \<Longrightarrow> \<not> crossed a \<longleftrightarrow> IsCorrectness (at_state a)"
  by (auto simp: attempt_wf_def crossed_def AllStates_def IsCorrectness_def IsProduction_def)

lemma job_wf_Transition:
  assumes "job_wf j" and "Transition to j = Inr j'"
  shows "job_wf j'"
proof -
  obtain a a' where a: "currentLocked j = Some a" "isOpen a" "transition to a = Inr a'"
    and j': "j' = setCurrent a' j" using assms(2) by (auto simp: Transition_Inr)
  have "attempt_wf a' \<and> isOpen a' \<and> IsCorrectness (at_state a') = IsCorrectness (at_state a)"
    using transition_wf job_wf_current assms(1) a by blast
  then show ?thesis
    using job_wf_setCurrent [OF assms(1) a(1)] job_wf_lease [OF assms(1)] a(1) j' by force
qed

lemma job_wf_SetNext:
  assumes "job_wf j" and "SetNext n j = Inr j'"
  shows "job_wf j'"
proof -
  obtain a a' where a: "currentLocked j = Some a" "isOpen a" "setNext n a = Inr a'"
    and j': "j' = setCurrent a' j" using assms(2) by (auto simp: SetNext_Inr)
  have "attempt_wf a' \<and> isOpen a' \<and> at_state a' = at_state a"
    using setNext_wf job_wf_current assms(1) a by blast
  then show ?thesis
    using job_wf_setCurrent [OF assms(1) a(1)] job_wf_lease [OF assms(1)] a(1) j' by force
qed

lemma job_wf_SetActivity:
  assumes "job_wf j" and "SetActivity x j = Inr j'"
  shows "job_wf j'"
proof -
  obtain a where a: "currentLocked j = Some a" "isOpen a"
    and j': "j' = setCurrent (setActivity x a) j" using assms(2) by (auto simp: SetActivity_Inr)
  then show ?thesis
    using job_wf_setCurrent [OF assms(1) a(1)] setActivity_wf [OF job_wf_current [OF assms(1) a(1)] a(2)]
      job_wf_lease [OF assms(1)] by force
qed

lemma job_wf_Grant:
  assumes "job_wf j" and "Grant l j = Inr j'"
  shows "job_wf j'"
proof -
  obtain l' a where "lease_id l' \<noteq> LeaseUnset" "currentLocked j = Some a" "isOpen a" "\<not> crossed a"
    and "j' = j\<lparr>j_lease := Some l'\<rparr>" using assms(2) by (auto simp: Grant_Inr)
  moreover have "IsCorrectness (at_state a)"
    using IsCorrectness_not_crossed job_wf_current assms(1) calculation by blast
  ultimately show ?thesis using assms(1) by (simp add: job_wf_def)
qed

lemma job_wf_Cross:
  assumes "job_wf j" and "Cross to j = Inr (l, j')"
  shows "job_wf j'"
proof -
  obtain a a' where a: "currentLocked j = Some a" "isOpen a" "cross to a = Inr a'"
    and j': "j' = (setCurrent a' j)\<lparr>j_lease := None\<rparr>" using assms(2) unfolding Cross_Inr by blast
  have "attempt_wf a'" using cross_wf [OF job_wf_current [OF assms(1) a(1)] a(2,3)] by simp
  then show ?thesis unfolding j' by (rule job_wf_setCurrent_dropLease [OF assms(1) a(1)])
qed

lemma job_wf_Finish:
  assumes "job_wf j" and "Finish o' now j = Inr (l, j')"
  shows "job_wf j'"
proof -
  obtain a a' where a: "currentLocked j = Some a" "isOpen a" "finish o' now a = Inr a'"
    and j': "j' = (setCurrent a' j)\<lparr>j_lease := None\<rparr>" using assms(2) unfolding Finish_Inr by blast
  have "attempt_wf a'" using finish_wf [OF job_wf_current [OF assms(1) a(1)] a(3)] by simp
  then show ?thesis unfolding j' by (rule job_wf_setCurrent_dropLease [OF assms(1) a(1)])
qed

lemma job_step_wf:
  assumes "job_step j j'" and "job_wf j"
  shows "job_wf j'"
  using assms
proof (cases rule: job_step.cases)
  case (set_intent i)
  then show ?thesis using assms(2) by (auto simp: SetIntent_Inr job_wf_def split: option.splits)
next
  case (surrender l)
  then show ?thesis using assms(2) job_wf_dropLease by (auto simp: Surrender_def surrenderLocked_def)
next
  case (begin_attempt now)
  from assms(2) this show ?thesis by (rule job_wf_BeginAttempt)
next
  case (transition to)
  from assms(2) this show ?thesis by (rule job_wf_Transition)
next
  case (set_next n)
  from assms(2) this show ?thesis by (rule job_wf_SetNext)
next
  case (set_activity x)
  from assms(2) this show ?thesis by (rule job_wf_SetActivity)
next
  case (cross to l)
  from assms(2) this show ?thesis by (rule job_wf_Cross)
next
  case (finish o' now l)
  from assms(2) this show ?thesis by (rule job_wf_Finish)
next
  case (grant l)
  from assms(2) this show ?thesis by (rule job_wf_Grant)
qed

lemma job_steps_wf: "job_steps j j' \<Longrightarrow> job_wf j \<Longrightarrow> job_wf j'"
  by (induction rule: job_steps.induct) (auto dest: job_step_wf)

lemma job_steps_trans: "job_steps j k \<Longrightarrow> job_steps k l \<Longrightarrow> job_steps j l"
  by (rotate_tac, induction rule: job_steps.induct) (auto intro: job_steps.step)

lemma job_steps_one: "job_step j k \<Longrightarrow> job_steps j k"
  by (blast intro: job_steps.intros)

section \<open>The boundary, the verdicts and the latch\<close>

lemma in_production_current:
  "in_production j \<longleftrightarrow> (\<exists>as a. j_attempts j = as @ [a] \<and> crossed a)"
  by (auto simp: in_production_def currentLocked_None currentLocked_Some split: option.splits)

lemma in_production_updates [simp]:
  "in_production (j\<lparr>j_lease := l\<rparr>) = in_production j"
  "in_production (j\<lparr>j_intent := i\<rparr>) = in_production j"
  "in_production (setCurrent a j) = crossed a"
  by (simp_all add: in_production_def)

lemma job_step_production:
  assumes "job_step j j'" and "in_production j"
  shows "in_production j' \<and> length (j_attempts j') = length (j_attempts j)"
  using assms
proof (cases rule: job_step.cases)
  case (begin_attempt now)
  then show ?thesis using assms(2) by (auto simp: BeginAttempt_Inr in_production_def split: option.splits if_splits)
next
  case (transition to)
  then show ?thesis using assms(2)
    by (auto simp: Transition_Inr transition_Inr edgeFrom_Some in_production_current crossed_def
        IsProduction_def currentLocked_Some)
next
  case (set_next n)
  then show ?thesis using assms(2)
    by (auto simp: SetNext_Inr setNext_Inr in_production_current crossed_def currentLocked_Some)
next
  case (set_activity x)
  then show ?thesis using assms(2)
    by (auto simp: SetActivity_Inr setActivity_def in_production_current crossed_def currentLocked_Some)
next
  case (cross to l)
  then show ?thesis using assms(2)
    by (auto simp: Cross_Inr cross_Inr in_production_current crossed_def IsProduction_def currentLocked_Some)
next
  case (finish o' now l)
  then show ?thesis using assms(2)
    by (auto simp: Finish_Inr finish_Inr in_production_current crossed_def currentLocked_Some)
qed (use assms(2) in \<open>auto simp: SetIntent_Inr Grant_Inr Surrender_def surrenderLocked_def\<close>)

definition settled_prefix :: "Job \<Rightarrow> Job \<Rightarrow> bool" where
  "settled_prefix j j' \<longleftrightarrow>
     length (j_attempts j) \<le> length (j_attempts j')
   \<and> (\<forall>i < length (j_attempts j). \<not> isOpen (j_attempts j ! i) \<longrightarrow> j_attempts j' ! i = j_attempts j ! i)"

lemma settled_prefix_setCurrent:
  assumes "currentLocked j = Some a" and "isOpen a"
  shows "settled_prefix j (setCurrent a' j)"
  using assms by (auto simp: settled_prefix_def currentLocked_Some nth_append nth_Cons' less_Suc_eq)

lemma job_step_settled_prefix:
  assumes "job_step j j'"
  shows "settled_prefix j j'"
  using assms
proof (cases rule: job_step.cases)
  case (begin_attempt now)
  then show ?thesis
    by (auto simp: BeginAttempt_Inr settled_prefix_def nth_append currentLocked_None split: option.splits if_splits)
next
  case (cross to l)
  then obtain a a' where "currentLocked j = Some a" "isOpen a" "j' = (setCurrent a' j)\<lparr>j_lease := None\<rparr>"
    by (auto simp: Cross_Inr)
  then show ?thesis using settled_prefix_setCurrent [of j a a'] by (simp add: settled_prefix_def)
next
  case (finish o' now l)
  then obtain a a' where "currentLocked j = Some a" "isOpen a" "j' = (setCurrent a' j)\<lparr>j_lease := None\<rparr>"
    by (auto simp: Finish_Inr)
  then show ?thesis using settled_prefix_setCurrent [of j a a'] by (simp add: settled_prefix_def)
next
  case (transition to)
  then show ?thesis by (auto simp: Transition_Inr settled_prefix_setCurrent)
next
  case (set_next n)
  then show ?thesis by (auto simp: SetNext_Inr settled_prefix_setCurrent)
next
  case (set_activity x)
  then show ?thesis by (auto simp: SetActivity_Inr settled_prefix_setCurrent)
qed (auto simp: SetIntent_Inr Grant_Inr Surrender_def surrenderLocked_def settled_prefix_def)

lemma settled_prefix_trans: "settled_prefix j k \<Longrightarrow> settled_prefix k l \<Longrightarrow> settled_prefix j l"
  by (fastforce simp: settled_prefix_def)

lemma job_step_cancel: "job_step j j' \<Longrightarrow> j_intent j = IntentCancel \<Longrightarrow> j_intent j' = IntentCancel"
  by (induction rule: job_step.induct)
    (auto simp: door_Inr Surrender_def surrenderLocked_def split: option.splits if_splits)

lemma job_step_into_production:
  assumes "job_step j j'" and "\<not> in_production j" and "in_production j'"
  shows "\<exists>a. currentLocked j = Some a \<and> isOpen a \<and> at_state a = Assessing \<and> at_next a = Extracting
    \<and> Cross Extracting j = Inr (j_lease j, j')"
  using assms
proof (cases rule: job_step.cases)
  case (begin_attempt now)
  then show ?thesis using assms(2,3)
    by (auto simp: BeginAttempt_Inr in_production_def newAttempt_def crossed_def IsProduction_def
        currentLocked_def split: option.splits if_splits)
next
  case (transition to)
  then show ?thesis using assms(2,3)
    by (auto simp: Transition_Inr transition_Inr edgeFrom_Some in_production_def crossed_def IsProduction_def)
next
  case (set_next n)
  then show ?thesis using assms(2,3)
    by (auto simp: SetNext_Inr setNext_Inr in_production_def crossed_def)
next
  case (set_activity x)
  then show ?thesis using assms(2,3)
    by (auto simp: SetActivity_Inr setActivity_def in_production_def crossed_def)
next
  case (cross to l)
  then obtain a a' where a: "currentLocked j = Some a" "isOpen a" "cross to a = Inr a'" "l = j_lease j"
    by (auto simp: Cross_Inr)
  moreover from a(3) have "at_state a = Assessing" "to = Extracting" "at_next a = Extracting"
    by (auto simp: cross_Inr)
  ultimately show ?thesis using cross by auto
next
  case (finish o' now l)
  then show ?thesis using assms(2,3)
    by (auto simp: Finish_Inr finish_Inr in_production_def crossed_def)
qed (use assms(2,3) in \<open>auto simp: SetIntent_Inr Grant_Inr Surrender_def surrenderLocked_def\<close>)

section \<open>Properties of the lifecycle\<close>

text \<open>Concrete jobs for the witnesses: one at Assessing with a recorded verdict, and one past the boundary.\<close>

definition pp_all :: Policy where
  "pp_all = \<lparr>pol_Verify = True, pol_Repair = True, pol_Unpack = True, pol_Delete = True\<rparr>"

definition assessed_job :: Job where
  "assessed_job = (New ''id'' ''name'' pp_all 0)\<lparr>j_attempts :=
     [(newAttempt 1)\<lparr>at_state := Assessing, at_next := Extracting, at_assessed := True\<rparr>],
     j_lease := Some (NewLease 1)\<rparr>"

definition crossed_job :: Job where
  "crossed_job = (New ''id'' ''name'' pp_all 0)\<lparr>j_attempts :=
     [(newAttempt 1)\<lparr>at_state := Extracting, at_assessed := True\<rparr>]\<rparr>"

lemma Cross_assessed_job: "Cross Extracting assessed_job = Inr (Some (NewLease 1), crossed_job)"
  by (simp add: assessed_job_def crossed_job_def Cross_Inr cross_Inr currentLocked_def isOpen_def
      New_def newAttempt_def setCurrent_def)

text \<open>C4: Every state a job can reach from its constructor by any sequence of successful door
  calls is well formed: the recorded next state is a legal edge, only the last attempt can be
  open, a settled verdict is admissible where it was recorded, and a lease is held only by an
  open attempt short of the boundary.\<close>

theorem reachable_job_wf:
  assumes "job_steps (New i n p now) j"
  shows "job_wf j"
  using job_steps_wf [OF assms] by simp

theorem reachable_job_wf_witness:
  "\<exists>j. job_steps (New ''id'' ''name'' pp_all 0) j \<and> job_wf j \<and> length (j_attempts j) = 1"
proof -
  let ?j = "(New ''id'' ''name'' pp_all 0)\<lparr>j_attempts := [newAttempt 5]\<rparr>"
  have "BeginAttempt 5 (New ''id'' ''name'' pp_all 0) = Inr ?j"
    by (simp add: BeginAttempt_def currentLocked_def New_def)
  then have "job_steps (New ''id'' ''name'' pp_all 0) ?j"
    by (blast intro: job_steps.intros job_step.begin_attempt)
  with reachable_job_wf [OF this] show ?thesis by fastforce
qed

text \<open>C5: The irreversible boundary is one-way: once the current attempt of a job is in a
  Production state, every later state of the job is too, and no further attempt is ever opened.\<close>

theorem boundary_one_way:
  assumes "job_steps j j'" and "in_production j"
  shows "in_production j' \<and> length (j_attempts j') = length (j_attempts j)"
  using assms by (induction rule: job_steps.induct) (auto dest: job_step_production)

theorem boundary_one_way_witness:
  "\<exists>j'. job_steps crossed_job j' \<and> j' \<noteq> crossed_job \<and> in_production crossed_job
     \<and> in_production j' \<and> length (j_attempts j') = 1"
proof -
  let ?j = "setCurrent ((newAttempt 1)\<lparr>at_state := Finalizing, at_assessed := True\<rparr>) crossed_job"
  have "Transition Finalizing crossed_job = Inr ?j"
    by (simp add: crossed_job_def Transition_Inr transition_Inr edgeFrom_Some currentLocked_def
        isOpen_def newAttempt_def)
  then have st: "job_steps crossed_job ?j"
    by (blast intro: job_steps.intros job_step.transition)
  have prod: "in_production crossed_job"
    by (simp add: crossed_job_def in_production_def currentLocked_def crossed_def IsProduction_def)
  have "?j \<noteq> crossed_job"
    by (simp add: crossed_job_def setCurrent_def New_def newAttempt_def)
  with boundary_one_way [OF st prod] st prod show ?thesis
    by (intro exI [of _ ?j]) (simp add: crossed_job_def)
qed

text \<open>The boundary is entered by one door only: a step that takes a job into Production is
  the crossing, it leaves an open attempt at Assessing whose recorded verdict is Extracting,
  and it gives the lease back.\<close>

theorem production_entered_by_crossing:
  assumes "job_step j j'" and "\<not> in_production j" and "in_production j'"
  shows "\<exists>a. currentLocked j = Some a \<and> isOpen a \<and> at_state a = Assessing \<and> at_next a = Extracting
    \<and> Cross Extracting j = Inr (j_lease j, j') \<and> j_lease j' = None"
proof -
  obtain a where "currentLocked j = Some a \<and> isOpen a \<and> at_state a = Assessing \<and> at_next a = Extracting
      \<and> Cross Extracting j = Inr (j_lease j, j')"
    using job_step_into_production [OF assms] by blast
  then show ?thesis by (auto simp: Cross_Inr)
qed

theorem production_entered_by_crossing_witness:
  "job_step assessed_job crossed_job \<and> j_lease assessed_job = Some (NewLease 1)
   \<and> j_lease crossed_job = None
   \<and> (\<exists>a. currentLocked assessed_job = Some a \<and> at_next a = Extracting)"
proof -
  have st: "job_step assessed_job crossed_job"
    by (rule job_step.cross [OF Cross_assessed_job])
  have np: "\<not> in_production assessed_job" and ip: "in_production crossed_job"
    by (simp_all add: assessed_job_def crossed_job_def in_production_def currentLocked_def
        crossed_def IsProduction_def)
  from production_entered_by_crossing [OF st np ip] st show ?thesis
    by (auto simp: assessed_job_def)
qed

text \<open>C16: A verdict is written once: whatever doors are called afterwards, an attempt that has
  settled stays in the job's history unchanged, at the same index.\<close>

theorem verdict_write_once:
  assumes "job_steps j j'"
  shows "settled_prefix j j'"
  using assms
proof (induction rule: job_steps.induct)
  case (refl j)
  then show ?case by (simp add: settled_prefix_def)
next
  case (step j k l)
  then show ?case by (blast intro: settled_prefix_trans job_step_settled_prefix)
qed

theorem verdict_write_once_witness:
  "\<exists>j j'. job_steps j j' \<and> settled_prefix j j' \<and> length (j_attempts j') = 2
     \<and> at_outcome (j_attempts j' ! 0) = OutcomeFailed"
proof -
  let ?j = "(New ''id'' ''name'' pp_all 0)\<lparr>j_attempts := [(newAttempt 1)\<lparr>at_outcome := OutcomeFailed\<rparr>]\<rparr>"
  let ?k = "?j\<lparr>j_attempts := j_attempts ?j @ [newAttempt 9]\<rparr>"
  have "BeginAttempt 9 ?j = Inr ?k"
    by (simp add: BeginAttempt_def currentLocked_def isOpen_def crossed_def IsProduction_def newAttempt_def)
  then have st: "job_steps ?j ?k" by (blast intro: job_steps.intros job_step.begin_attempt)
  with verdict_write_once [OF st] show ?thesis
    by (intro exI [of _ ?j] exI [of _ ?k]) (simp add: newAttempt_def)
qed

text \<open>Cancellation is final: no door ever replaces a cancelled job's intent.\<close>

theorem cancel_is_latched:
  assumes "job_steps j j'" and "j_intent j = IntentCancel"
  shows "j_intent j' = IntentCancel"
  using assms by (induction rule: job_steps.induct) (auto dest: job_step_cancel)

theorem cancel_is_latched_witness:
  "\<exists>j j'. job_steps j j' \<and> j \<noteq> j' \<and> j_intent j = IntentCancel \<and> j_intent j' = IntentCancel"
proof -
  let ?j = "(New ''id'' ''name'' pp_all 0)\<lparr>j_intent := IntentCancel\<rparr>"
  let ?k = "?j\<lparr>j_attempts := [newAttempt 5]\<rparr>"
  have "BeginAttempt 5 ?j = Inr ?k" by (simp add: BeginAttempt_def currentLocked_def New_def)
  then have st: "job_steps ?j ?k" by (blast intro: job_steps.intros job_step.begin_attempt)
  with cancel_is_latched [OF st] show ?thesis
    by (intro exI [of _ ?j] exI [of _ ?k]) (simp add: New_def)
qed

text \<open>Every refusal of the two moving doors matches the one sentinel a caller tests for, and
  the wrong-door refusals are told apart: transition asks for Cross exactly on the crossing
  edge, and cross asks for Transition exactly on another existing edge.\<close>

theorem refused_moves_match_illegal:
  "(transition to a = Inl e \<longrightarrow> errors_Is e ErrIllegalTransition)
   \<and> (cross to a = Inl e \<longrightarrow> errors_Is e ErrIllegalTransition)
   \<and> (transition to a = Inl ErrCrossRequired \<longrightarrow> at_state a = Assessing \<and> to = Extracting)
   \<and> (cross to a = Inl ErrTransitionRequired \<longrightarrow>
        CanTransition (at_state a) to \<and> (at_state a, to) \<noteq> (Assessing, Extracting))"
proof -
  have 1: "transition to a = Inl e \<Longrightarrow> errors_Is e ErrIllegalTransition"
    by (auto simp: transition_def errors_Is_def split: if_splits option.splits)
  have 2: "cross to a = Inl e \<Longrightarrow> errors_Is e ErrIllegalTransition"
    by (auto simp: cross_def errors_Is_def split: if_splits option.splits)
  have 3: "transition to a = Inl ErrCrossRequired \<Longrightarrow> at_state a = Assessing \<and> to = Extracting"
    by (auto simp: transition_def edgeFrom_Some split: if_splits option.splits)
  have 4: "cross to a = Inl ErrTransitionRequired \<Longrightarrow>
      CanTransition (at_state a) to \<and> (at_state a, to) \<noteq> (Assessing, Extracting)"
    by (auto simp: cross_def CanTransition_def edgeFrom_Some split: if_splits option.splits)
  from 1 2 3 4 show ?thesis by blast
qed

theorem refused_moves_match_illegal_witness:
  "transition Extracting (newAttempt 0\<lparr>at_state := Assessing\<rparr>) = Inl ErrCrossRequired
   \<and> errors_Is ErrCrossRequired ErrIllegalTransition"
proof -
  have "transition Extracting (newAttempt 0\<lparr>at_state := Assessing\<rparr>) = Inl ErrCrossRequired"
    by (simp add: transition_def newAttempt_def edgeFrom_def)
  with refused_moves_match_illegal [of Extracting "newAttempt 0\<lparr>at_state := Assessing\<rparr>" ErrCrossRequired]
  show ?thesis by blast
qed

end
