(* ===== verification/Restore.thy ===== *)
theory Restore
  imports Job_Lifecycle
begin

text \<open>
  The replay that rebuilds a job from its stored row (\<^verbatim>\<open>reconstruct\<close>, \<^verbatim>\<open>takeHop\<close> and
  \<^verbatim>\<open>replayPath\<close> of internal/dispatch/dispatch.go): a stored position is reached again by
  driving a new job through the ordinary doors, so the state machine checks the row.
\<close>

section \<open>Definitions\<close>

record hop =
  hop_to :: State
  hop_cross :: bool

definition takeHop :: "Job \<Rightarrow> hop \<Rightarrow> (JobError, Job) result" where
  "takeHop j h =
     (if hop_cross h
      then (case SetNext (hop_to h) j of
              Inl e \<Rightarrow> Inl e
            | Inr j1 \<Rightarrow> (case Cross (hop_to h) j1 of Inl e \<Rightarrow> Inl e | Inr r \<Rightarrow> Inr (snd r)))
      else Transition (hop_to h) j)"

fun replayPath :: "State \<Rightarrow> hop list option" where
  "replayPath Assessing = Some [\<lparr>hop_to = Assessing, hop_cross = False\<rparr>]"
| "replayPath Repairing =
     Some [\<lparr>hop_to = Assessing, hop_cross = False\<rparr>, \<lparr>hop_to = Repairing, hop_cross = False\<rparr>]"
| "replayPath Extracting =
     Some [\<lparr>hop_to = Assessing, hop_cross = False\<rparr>, \<lparr>hop_to = Extracting, hop_cross = True\<rparr>]"
| "replayPath Finalizing =
     Some [\<lparr>hop_to = Assessing, hop_cross = False\<rparr>, \<lparr>hop_to = Extracting, hop_cross = True\<rparr>,
           \<lparr>hop_to = Finalizing, hop_cross = False\<rparr>]"
| "replayPath _ = None"

fun takeHops :: "Job \<Rightarrow> hop list \<Rightarrow> (JobError, Job) result" where
  "takeHops j [] = Inr j"
| "takeHops j (h # hs) = (case takeHop j h of Inl e \<Rightarrow> Inl e | Inr j1 \<Rightarrow> takeHops j1 hs)"

text \<open>What \<open>reconstruct\<close> refuses by itself, and what a door refused during the replay.\<close>

datatype RestoreError = RowNotZero | StateNotDeclared | DoorRefused JobError

definition restorePath :: "StateView \<Rightarrow> (RestoreError, hop list) result" where
  "restorePath v =
     (if sv_State v = Fetching \<and> sv_Assessed v
      then Inr [\<lparr>hop_to = Assessing, hop_cross = False\<rparr>, \<lparr>hop_to = Fetching, hop_cross = False\<rparr>]
      else if sv_State v = Fetching then Inr []
      else case replayPath (sv_State v) of None \<Rightarrow> Inl StateNotDeclared | Some p \<Rightarrow> Inr p)"

definition door :: "(JobError, 'a) result \<Rightarrow> (RestoreError, 'a) result" where
  "door r = (case r of Inl e \<Rightarrow> Inl (DoorRefused e) | Inr x \<Rightarrow> Inr x)"

definition reconstruct ::
  "string \<Rightarrow> string \<Rightarrow> Policy \<Rightarrow> StateView \<Rightarrow> Intent \<Rightarrow> Time \<Rightarrow> Time \<Rightarrow> (RestoreError, Job) result" where
  "reconstruct i n pol v intent t0 now =
     (let j = New i n pol t0 in
      if sv_State v = StateUnset
      then (if v \<noteq> zeroView then Inl RowNotZero else door (SetIntent intent j))
      else
        (case door (BeginAttempt now j) of Inl e \<Rightarrow> Inl e | Inr j1 \<Rightarrow>
        (case restorePath v of Inl e \<Rightarrow> Inl e | Inr path \<Rightarrow>
        (case door (takeHops j1 path) of Inl e \<Rightarrow> Inl e | Inr j2 \<Rightarrow>
        (case (if sv_Next v \<noteq> StateUnset then door (SetNext (sv_Next v) j2) else Inr j2) of
           Inl e \<Rightarrow> Inl e | Inr j3 \<Rightarrow>
        (case (if sv_Activity v \<noteq> ActNone then door (SetActivity (sv_Activity v) j3) else Inr j3) of
           Inl e \<Rightarrow> Inl e | Inr j4 \<Rightarrow>
        (case (if sv_Outcome v \<noteq> OutcomePending
               then door (case Finish (sv_Outcome v) now j4 of Inl e \<Rightarrow> Inl e | Inr r \<Rightarrow> Inr (snd r))
               else Inr j4) of
           Inl e \<Rightarrow> Inl e | Inr j5 \<Rightarrow> door (SetIntent intent j5))))))))"

section \<open>The replay of a stored position\<close>

lemma door_eq_Inr [simp]: "door r = Inr x \<longleftrightarrow> r = Inr x"
  by (cases r) (auto simp: door_def)

text \<open>The job the replay stands at after its moves: one open attempt at the wanted state.\<close>

definition at_position :: "string \<Rightarrow> string \<Rightarrow> Policy \<Rightarrow> Time \<Rightarrow> Time \<Rightarrow> State \<Rightarrow> bool \<Rightarrow> Job" where
  "at_position i n pol t0 now s assessed =
     (New i n pol t0)\<lparr>j_attempts := [(newAttempt now)\<lparr>at_state := s, at_assessed := assessed\<rparr>]\<rparr>"

lemma at_position_current [simp]:
  "currentLocked (at_position i n pol t0 now s b) = Some ((newAttempt now)\<lparr>at_state := s, at_assessed := b\<rparr>)"
  by (simp add: at_position_def currentLocked_def)

lemma BeginAttempt_New:
  "BeginAttempt now (New i n pol t0) = Inr (at_position i n pol t0 now Fetching False)"
  by (simp add: BeginAttempt_def currentLocked_def New_def at_position_def newAttempt_def)

lemma takeHop_move:
  assumes "edgeFrom s t = Some (t, byTransition)"
  shows "takeHop (at_position i n pol t0 now s b) \<lparr>hop_to = t, hop_cross = False\<rparr>
    = Inr (at_position i n pol t0 now t (t = Assessing \<or> b))"
proof -
  have "Transition t (at_position i n pol t0 now s b) = Inr (at_position i n pol t0 now t (t = Assessing \<or> b))"
    using assms
    by (simp add: Transition_Inr transition_Inr isOpen_def)
      (simp add: newAttempt_def at_position_def setCurrent_def)
  then show ?thesis by (simp add: takeHop_def)
qed

lemma takeHop_cross:
  "takeHop (at_position i n pol t0 now Assessing b) \<lparr>hop_to = Extracting, hop_cross = True\<rparr>
    = Inr (at_position i n pol t0 now Extracting b)"
proof -
  let ?j = "at_position i n pol t0 now Assessing b"
  let ?a = "(newAttempt now)\<lparr>at_state := Assessing, at_assessed := b, at_next := Extracting\<rparr>"
  have 1: "SetNext Extracting ?j = Inr (setCurrent ?a ?j)"
    by (simp add: SetNext_Inr setNext_Inr CanTransition_iff isOpen_def newAttempt_def)
  have 2: "Cross Extracting (setCurrent ?a ?j) = Inr (None, at_position i n pol t0 now Extracting b)"
    by (simp add: Cross_Inr cross_Inr isOpen_def newAttempt_def at_position_def setCurrent_def New_def
        currentLocked_def)
  from 1 2 show ?thesis by (simp add: takeHop_def)
qed

lemmas edge_rules = edgeFrom_def

lemma takeHops_restorePath:
  assumes "restorePath v = Inr path" and "sv_State v = Fetching \<or> sv_Assessed v"
  shows "takeHops (at_position i n pol t0 now Fetching False) path
    = Inr (at_position i n pol t0 now (sv_State v) (sv_Assessed v))"
  using assms
  by (cases "sv_State v")
    (auto simp: restorePath_def takeHop_move takeHop_cross edge_rules split: if_splits)

lemma restorePath_total:
  "sv_State v \<in> set AllStates \<Longrightarrow> \<exists>path. restorePath v = Inr path"
  by (auto simp: AllStates_def restorePath_def)

definition stored_ok :: "StateView \<Rightarrow> bool" where
  "stored_ok v \<longleftrightarrow> v = zeroView \<or>
     (sv_State v \<in> set AllStates
      \<and> (sv_Next v = StateUnset \<or> CanTransition (sv_State v) (sv_Next v))
      \<and> (sv_State v \<noteq> Fetching \<longrightarrow> sv_Assessed v)
      \<and> (sv_Outcome v \<noteq> OutcomePending \<longrightarrow> sv_Next v = StateUnset \<and> sv_Activity v = ActNone
          \<and> admits (sv_Outcome v) (sv_State v)))"

lemma job_wf_stored_ok: "job_wf j \<Longrightarrow> stored_ok (State_of j)"
  by (auto simp: State_of_def stored_ok_def view_def isOpen_def attempt_wf_def
      dest: job_wf_current split: option.splits)

lemma reconstruct_stored:
  assumes ok: "stored_ok v" and int: "intent \<in> set AllIntents"
  shows "\<exists>j. reconstruct i n pol v intent t0 now = Inr j \<and> State_of j = v \<and> j_intent j = intent
    \<and> j_lease j = None \<and> j_id j = i \<and> j_policy j = pol"
proof (cases "v = zeroView")
  case True
  with int show ?thesis
    by (simp add: reconstruct_def zeroView_def SetIntent_Inr)
      (simp add: New_def State_of_def currentLocked_def zeroView_def)
next
  case False
  define s where "s = sv_State v"
  from ok False have v: "s \<in> set AllStates" "sv_Next v = StateUnset \<or> CanTransition s (sv_Next v)"
      "s = Fetching \<or> sv_Assessed v"
      "sv_Outcome v \<noteq> OutcomePending \<Longrightarrow> sv_Next v = StateUnset \<and> sv_Activity v = ActNone
          \<and> admits (sv_Outcome v) s"
    by (auto simp: stored_ok_def s_def)
  obtain path where path: "restorePath v = Inr path" using restorePath_total v(1) s_def by blast
  have hops: "takeHops (at_position i n pol t0 now Fetching False) path = Inr (at_position i n pol t0 now s (sv_Assessed v))"
    unfolding s_def by (rule takeHops_restorePath [OF path]) (use v(3) s_def in simp)
  let ?a = "(newAttempt now)\<lparr>at_state := s, at_assessed := sv_Assessed v\<rparr>"
  let ?j2 = "at_position i n pol t0 now s (sv_Assessed v)"
  let ?a3 = "?a\<lparr>at_next := sv_Next v\<rparr>"
  have n3: "(if sv_Next v \<noteq> StateUnset then door (SetNext (sv_Next v) ?j2) else Inr ?j2) = Inr (setCurrent ?a3 ?j2)"
    using v(2) by (auto simp: SetNext_Inr setNext_Inr isOpen_def newAttempt_def at_position_def setCurrent_def
        currentLocked_def)
  let ?a4 = "?a3\<lparr>at_activity := sv_Activity v\<rparr>"
  have n4: "(if sv_Activity v \<noteq> ActNone then door (SetActivity (sv_Activity v) (setCurrent ?a3 ?j2)) else Inr (setCurrent ?a3 ?j2))
      = Inr (setCurrent ?a4 ?j2)"
    by (auto simp: SetActivity_Inr setActivity_def isOpen_def newAttempt_def at_position_def setCurrent_def
        currentLocked_def)
  let ?a5 = "if sv_Outcome v = OutcomePending then ?a4 else ?a4\<lparr>at_outcome := sv_Outcome v, at_ended := now\<rparr>"
  have n5: "(if sv_Outcome v \<noteq> OutcomePending
       then door (case Finish (sv_Outcome v) now (setCurrent ?a4 ?j2) of Inl e \<Rightarrow> Inl e | Inr r \<Rightarrow> Inr (snd r))
       else Inr (setCurrent ?a4 ?j2)) = Inr (setCurrent ?a5 ?j2)"
    using v(4) by (auto simp: Finish_Inr finish_Inr isOpen_def newAttempt_def at_position_def setCurrent_def New_def
        currentLocked_def)
  have sU: "sv_State v \<noteq> StateUnset" using v(1) by (auto simp: AllStates_def s_def)
  have "reconstruct i n pol v intent t0 now = Inr ((setCurrent ?a5 ?j2)\<lparr>j_intent := intent\<rparr>)"
  proof -
    have b: "door (BeginAttempt now (New i n pol t0)) = Inr (at_position i n pol t0 now Fetching False)"
      by (simp add: BeginAttempt_New)
    have h: "door (takeHops (at_position i n pol t0 now Fetching False) path) = Inr ?j2"
      by (simp add: hops)
    have si: "door (SetIntent intent (setCurrent ?a5 ?j2)) = Inr ((setCurrent ?a5 ?j2)\<lparr>j_intent := intent\<rparr>)"
      using int by (simp add: SetIntent_Inr) (simp add: at_position_def New_def)
    show ?thesis
      unfolding reconstruct_def Let_def if_not_P [OF sU] b path h n3 n4 n5 si sum.case ..
  qed
  moreover have "State_of ((setCurrent ?a5 ?j2)\<lparr>j_intent := intent\<rparr>) = v"
    by (simp add: State_of_def view_def newAttempt_def s_def)
  ultimately show ?thesis by (simp add: at_position_def New_def)
qed

section \<open>Only reachable jobs are rebuilt\<close>

lemma takeHop_steps:
  assumes "takeHop j h = Inr k"
  shows "job_steps j k"
proof (cases "hop_cross h")
  case True
  with assms obtain j1 l where "SetNext (hop_to h) j = Inr j1" "Cross (hop_to h) j1 = Inr (l, k)"
    by (auto simp: takeHop_def)
  then show ?thesis
    by (blast intro: job_steps.step job_steps_one job_step.set_next job_step.cross)
next
  case False
  with assms have "Transition (hop_to h) j = Inr k" by (simp add: takeHop_def)
  then show ?thesis by (blast intro: job_steps_one job_step.transition)
qed

lemma takeHops_steps: "takeHops j hs = Inr k \<Longrightarrow> job_steps j k"
  by (induction j hs rule: takeHops.induct)
    (auto intro: job_steps.refl job_steps_trans takeHop_steps split: sum.splits)

section \<open>Properties of the restore\<close>

text \<open>C6: Writing a job's row and restoring it is a round trip: for every job that can exist, the
  replay of its stored state view and intent succeeds and gives a job with the same identity,
  the same view (position, recorded verdict, activity, outcome, assessed flag) and the same
  intent, holding no lease.\<close>

theorem restore_roundtrip:
  assumes "job_steps (New i n p t) j"
  shows "\<exists>j'. reconstruct (j_id j) (j_name j) (j_policy j) (State_of j) (j_intent j) t0 now = Inr j'
    \<and> State_of j' = State_of j \<and> j_intent j' = j_intent j \<and> j_lease j' = None
    \<and> j_id j' = j_id j \<and> j_policy j' = j_policy j"
proof -
  have wf: "job_wf j" using job_steps_wf [OF assms] by simp
  then have "j_intent j \<in> set AllIntents" by (simp add: job_wf_def)
  with reconstruct_stored [OF job_wf_stored_ok [OF wf]] show ?thesis by blast
qed

theorem restore_roundtrip_witness:
  "\<exists>j j'. job_steps (New ''id'' ''n'' pp_all 0) j \<and> State_of j \<noteq> zeroView
     \<and> reconstruct (j_id j) (j_name j) (j_policy j) (State_of j) (j_intent j) 3 4 = Inr j'
     \<and> State_of j' = State_of j"
proof -
  let ?j = "at_position ''id'' ''n'' pp_all 0 5 Fetching False"
  have st: "job_steps (New ''id'' ''n'' pp_all 0) ?j"
    by (rule job_steps_one [OF job_step.begin_attempt [OF BeginAttempt_New]])
  have "State_of ?j \<noteq> zeroView" by (simp add: State_of_def view_def zeroView_def)
  with restore_roundtrip [OF st, of 3 4] st show ?thesis by blast
qed

lemma reconstruct_steps:
  assumes "reconstruct i n pol v intent t0 now = Inr j"
  shows "job_steps (New i n pol t0) j \<and> job_wf j"
proof (cases "sv_State v = StateUnset")
  case True
  with assms have "SetIntent intent (New i n pol t0) = Inr j"
    by (simp add: reconstruct_def split: if_splits)
  then have "job_steps (New i n pol t0) j" by (blast intro: job_steps_one job_step.set_intent)
  then show ?thesis using job_steps_wf by auto
next
  case False
  from assms False obtain j1 path j2 j3 j4 j5 where
      s1: "BeginAttempt now (New i n pol t0) = Inr j1" and s2: "takeHops j1 path = Inr j2"
    and s3: "(if sv_Next v \<noteq> StateUnset then door (SetNext (sv_Next v) j2) else Inr j2) = Inr j3"
    and s4: "(if sv_Activity v \<noteq> ActNone then door (SetActivity (sv_Activity v) j3) else Inr j3) = Inr j4"
    and s5: "(if sv_Outcome v \<noteq> OutcomePending
               then door (case Finish (sv_Outcome v) now j4 of Inl e \<Rightarrow> Inl e | Inr r \<Rightarrow> Inr (snd r))
               else Inr j4) = Inr j5"
    and s6: "SetIntent intent j5 = Inr j"
    unfolding reconstruct_def Let_def if_not_P [OF False] result_bind_Inr door_eq_Inr by blast
  have "job_steps (New i n pol t0) j1" by (rule job_steps_one [OF job_step.begin_attempt [OF s1]])
  moreover have "job_steps j1 j2" by (rule takeHops_steps [OF s2])
  moreover have "job_steps j2 j3"
    using s3 by (auto intro: job_steps.refl job_steps_one job_step.set_next split: if_splits)
  moreover have "job_steps j3 j4"
    using s4 by (auto intro: job_steps.refl job_steps_one job_step.set_activity split: if_splits)
  moreover have "job_steps j4 j5"
    using s5 by (auto intro: job_steps.refl job_steps_one job_step.finish split: if_splits)
  moreover have "job_steps j5 j" by (rule job_steps_one [OF job_step.set_intent [OF s6]])
  ultimately have "job_steps (New i n pol t0) j" by (meson job_steps_trans)
  then show ?thesis using job_steps_wf by auto
qed

text \<open>The replay trusts nothing in the store: whatever row it is given, a job it returns was
  reached from a new job through the ordinary doors, so it is well formed and holds no lease.\<close>

theorem restore_only_reachable:
  assumes "reconstruct i n pol v intent t0 now = Inr j"
  shows "job_steps (New i n pol t0) j \<and> job_wf j"
  using assms by (rule reconstruct_steps)

theorem restore_only_reachable_witness:
  "\<exists>j. reconstruct ''id'' ''n'' pp_all zeroView IntentPause 0 7 = Inr j
     \<and> job_steps (New ''id'' ''n'' pp_all 0) j \<and> job_wf j"
proof -
  have "reconstruct ''id'' ''n'' pp_all zeroView IntentPause 0 7
      = Inr ((New ''id'' ''n'' pp_all 0)\<lparr>j_intent := IntentPause\<rparr>)"
    by (simp add: reconstruct_def zeroView_def SetIntent_Inr AllIntents_def) (simp add: New_def)
  with restore_only_reachable [OF this] show ?thesis by blast
qed

section \<open>What a restored job holds\<close>

lemma takeHop_fields:
  assumes "takeHop k h = Inr k'"
  shows "j_id k' = j_id k" and "j_lease k = None \<Longrightarrow> j_lease k' = None"
  using assms by (auto simp: takeHop_def Transition_Inr SetNext_Inr Cross_Inr split: if_splits sum.splits)

lemma takeHops_fields:
  "takeHops k hs = Inr k' \<Longrightarrow> j_id k' = j_id k \<and> (j_lease k = None \<longrightarrow> j_lease k' = None)"
proof (induction k hs rule: takeHops.induct)
  case (2 j h hs)
  then obtain j1 where "takeHop j h = Inr j1" "takeHops j1 hs = Inr k'" by (auto split: sum.splits)
  then show ?case using 2 takeHop_fields [of j h j1] by auto
qed simp

lemma reconstruct_fields:
  assumes "reconstruct i n pol v intent t0 now = Inr j"
  shows "j_lease j = None \<and> j_id j = i"
proof -
  have fin: "Finish x t k = Inr r \<Longrightarrow> j_lease (snd r) = None \<and> j_id (snd r) = j_id k" for x t k r
    by (cases r) (auto simp: Finish_Inr)
  show ?thesis
    using assms
    by (auto simp: reconstruct_def Let_def SetIntent_Inr SetNext_Inr SetActivity_Inr BeginAttempt_Inr New_def
        split: if_splits sum.splits option.splits dest!: takeHops_fields fin)
qed

end
