(* ===== verification/Pools.thy ===== *)
theory Pools
  imports Job_Lifecycle
begin

text \<open>
  The two capacity pools of \<^verbatim>\<open>internal/sched/pool.go\<close>: the lease pool, which mints an
  identity per issuance and audits every lease it takes back, and the slot pool, which is a
  set of job ids. The locale \<open>bounded_pool\<close> is the contract the queue relies on: what is
  outstanding only ever grows below the capacity.
\<close>

section \<open>Errors of the scheduler\<close>

datatype SchedError =
    ErrNotOutstanding LeaseID | ErrNotSettled | ErrCancelReserved
  | JobErr JobError | Joined SchedError SchedError

section \<open>The lease pool\<close>

record leasePool =
  lp_capacity :: int
  lp_next :: LeaseID
  lp_issued :: "LeaseID set"

definition newLeasePool :: "int \<Rightarrow> leasePool" where
  "newLeasePool c = \<lparr>lp_capacity = c, lp_next = LeaseUnset, lp_issued = {}\<rparr>"

definition issue :: "leasePool \<Rightarrow> Lease option \<times> leasePool" where
  "issue p =
     (if lp_capacity p \<le> int (card (lp_issued p)) then (None, p)
      else (let n = lp_next p + 1
            in (Some (NewLease n), p\<lparr>lp_next := n, lp_issued := insert n (lp_issued p)\<rparr>)))"

definition reclaim :: "Lease option \<Rightarrow> leasePool \<Rightarrow> SchedError option \<times> leasePool" where
  "reclaim l p =
     (case l of
        None \<Rightarrow> (None, p)
      | Some l' \<Rightarrow>
          if lease_id l' \<notin> lp_issued p then (Some (ErrNotOutstanding (lease_id l')), p)
          else (None, p\<lparr>lp_issued := lp_issued p - {lease_id l'}\<rparr>))"

definition lp_outstanding :: "leasePool \<Rightarrow> nat" where
  "lp_outstanding p = card (lp_issued p)"

definition lp_setCapacity :: "int \<Rightarrow> leasePool \<Rightarrow> leasePool" where
  "lp_setCapacity c p = p\<lparr>lp_capacity := (if c < 1 then 1 else c)\<rparr>"

section \<open>The slot pool\<close>

record slotPool =
  sp_capacity :: int
  sp_held :: "string set"

definition newSlotPool :: "int \<Rightarrow> slotPool" where
  "newSlotPool c = \<lparr>sp_capacity = c, sp_held = {}\<rparr>"

definition acquire :: "string \<Rightarrow> slotPool \<Rightarrow> bool \<times> slotPool" where
  "acquire i p =
     (if i \<in> sp_held p then (True, p)
      else if sp_capacity p \<le> int (card (sp_held p)) then (False, p)
      else (True, p\<lparr>sp_held := insert i (sp_held p)\<rparr>))"

definition release :: "string \<Rightarrow> slotPool \<Rightarrow> slotPool" where
  "release i p = p\<lparr>sp_held := sp_held p - {i}\<rparr>"

definition sp_holds :: "string \<Rightarrow> slotPool \<Rightarrow> bool" where
  "sp_holds i p \<longleftrightarrow> i \<in> sp_held p"

definition sp_outstanding :: "slotPool \<Rightarrow> nat" where
  "sp_outstanding p = card (sp_held p)"

definition sp_setCapacity :: "int \<Rightarrow> slotPool \<Rightarrow> slotPool" where
  "sp_setCapacity c p = p\<lparr>sp_capacity := (if c < 1 then 1 else c)\<rparr>"

section \<open>The contract of a bounded pool\<close>

locale bounded_pool =
  fixes out :: "'p \<Rightarrow> nat"
    and cap :: "'p \<Rightarrow> int"
    and invar :: "'p \<Rightarrow> bool"
    and take_from :: "'t \<Rightarrow> 'p \<Rightarrow> 'p"
    and give_back :: "'g \<Rightarrow> 'p \<Rightarrow> 'p"
    and set_cap :: "int \<Rightarrow> 'p \<Rightarrow> 'p"
  assumes take_out: "invar p \<Longrightarrow> out (take_from t p) = out p \<or>
      out (take_from t p) = Suc (out p) \<and> int (out p) < cap p"
    and give_out: "invar p \<Longrightarrow> out (give_back g p) \<le> out p"
    and take_cap: "cap (take_from t p) = cap p"
    and give_cap: "cap (give_back g p) = cap p"
    and set_out: "out (set_cap c p) = out p"
    and set_cap_pos: "cap (set_cap c p) = max 1 c"
    and take_invar: "invar p \<Longrightarrow> invar (take_from t p)"
    and give_invar: "invar p \<Longrightarrow> invar (give_back g p)"
    and set_invar: "invar p \<Longrightarrow> invar (set_cap c p)"
begin

lemma growth_below_capacity:
  assumes "invar p" and "out p < out (take_from t p)"
  shows "int (out (take_from t p)) \<le> cap (take_from t p)"
  using take_out [OF assms(1), of t] assms(2) by (auto simp: take_cap)

lemma take_max:
  assumes "invar p"
  shows "int (out (take_from t p)) \<le> max (cap p) (int (out p))"
  using take_out [OF assms, of t] by auto

lemma give_max:
  assumes "invar p"
  shows "int (out (give_back g p)) \<le> max (cap p) (int (out p))"
  using give_out [OF assms, of g] by auto

end

interpretation lease_bound: bounded_pool lp_outstanding lp_capacity "\<lambda>p. finite (lp_issued p)"
  "\<lambda>_::unit. snd \<circ> issue" "\<lambda>l. snd \<circ> reclaim l" lp_setCapacity
proof unfold_locales
  fix p :: leasePool and t :: unit
  assume fin: "finite (lp_issued p)"
  show "lp_outstanding ((snd \<circ> issue) p) = lp_outstanding p \<or>
      lp_outstanding ((snd \<circ> issue) p) = Suc (lp_outstanding p) \<and> int (lp_outstanding p) < lp_capacity p"
    using fin by (auto simp: issue_def lp_outstanding_def Let_def card_insert_if)
next
  fix p :: leasePool and l
  assume fin: "finite (lp_issued p)"
  show "lp_outstanding ((snd \<circ> reclaim l) p) \<le> lp_outstanding p"
    using fin by (auto simp: reclaim_def lp_outstanding_def card_Diff1_le split: option.splits)
qed (auto simp: issue_def reclaim_def lp_setCapacity_def lp_outstanding_def Let_def split: option.splits)

interpretation slot_bound: bounded_pool sp_outstanding sp_capacity "\<lambda>p. finite (sp_held p)"
  "\<lambda>i. snd \<circ> acquire i" release sp_setCapacity
proof unfold_locales
  fix p :: slotPool and i
  assume fin: "finite (sp_held p)"
  show "sp_outstanding ((snd \<circ> acquire i) p) = sp_outstanding p \<or>
      sp_outstanding ((snd \<circ> acquire i) p) = Suc (sp_outstanding p) \<and> int (sp_outstanding p) < sp_capacity p"
    using fin by (auto simp: acquire_def sp_outstanding_def)
next
  fix p :: slotPool and i
  assume fin: "finite (sp_held p)"
  show "sp_outstanding (release i p) \<le> sp_outstanding p"
    using fin by (auto simp: release_def sp_outstanding_def card_Diff1_le)
qed (auto simp: acquire_def release_def sp_setCapacity_def sp_outstanding_def)

section \<open>Identity of leases\<close>

text \<open>
  Ids come from a 64-bit counter. \<open>fresh_ids\<close> says that every outstanding id is one the
  counter has passed, so the next id is new as long as the counter does not wrap.
\<close>

definition fresh_ids :: "leasePool \<Rightarrow> bool" where
  "fresh_ids p \<longleftrightarrow> finite (lp_issued p) \<and> (\<forall>i \<in> lp_issued p. 0 < unat i \<and> unat i \<le> unat (lp_next p))"

lemma unat_next:
  assumes "unat (lp_next p) < 2 ^ 64 - 1"
  shows "unat (lp_next p + 1) = Suc (unat (lp_next p))"
  using assms by (simp add: unat_word_ariths)

lemma issue_Some:
  assumes "issue p = (Some l, p')" and "fresh_ids p" and "unat (lp_next p) < 2 ^ 64 - 1"
  shows "lease_id l \<notin> lp_issued p" and "lease_id l \<noteq> LeaseUnset" and "fresh_ids p'"
    and "lp_issued p' = insert (lease_id l) (lp_issued p)" and "unat (lp_next p') = Suc (unat (lp_next p))"
proof -
  have l: "l = NewLease (lp_next p + 1)"
    and p': "p' = p\<lparr>lp_next := lp_next p + 1, lp_issued := insert (lp_next p + 1) (lp_issued p)\<rparr>"
    using assms(1) by (auto simp: issue_def Let_def split: if_splits)
  note n = unat_next [OF assms(3)]
  show "lease_id l \<notin> lp_issued p" using assms(2) n by (auto simp: l fresh_ids_def)
  show "lease_id l \<noteq> LeaseUnset" using n by (auto simp: l LeaseUnset_def unat_eq_zero)
  show "fresh_ids p'" using assms(2) n by (auto simp: p' fresh_ids_def)
  show "lp_issued p' = insert (lease_id l) (lp_issued p)" by (simp add: p' l)
  show "unat (lp_next p') = Suc (unat (lp_next p))" by (simp add: p' n)
qed

lemma issue_None: "issue p = (None, p') \<Longrightarrow> p' = p"
  by (auto simp: issue_def Let_def split: if_splits)

lemma reclaim_fresh: "fresh_ids p \<Longrightarrow> fresh_ids (snd (reclaim l p))"
  by (auto simp: reclaim_def fresh_ids_def split: option.splits)

lemma reclaim_next [simp]: "lp_next (snd (reclaim l p)) = lp_next p"
  by (auto simp: reclaim_def split: option.splits)

end
