(* ===== verification/Scheduler.thy ===== *)
theory Scheduler
  imports Pools
begin

text \<open>
  The admission queue of \<^verbatim>\<open>internal/sched\<close>: the predicates over a job's snapshot
  (queue.go, requirements.go), the one place resources are acquired and the two places they
  are returned (advance.go, queue.go), and the exported doors \<open>Advance\<close>, \<open>Cancel\<close>, \<open>Park\<close>,
  \<open>Handoff\<close>, \<open>Retry\<close>, \<open>Settle\<close>, \<open>Pause\<close>, \<open>Resume\<close> and \<open>SetCaps\<close>. A door runs under the
  queue's lock, so it is one atomic function on the queue and the job it is called with; it
  returns the error, if any, together with both, because a refused call may already have
  returned a resource.
\<close>

section \<open>The queue and its predicates\<close>

text \<open>
  \<open>q_aborted\<close> records the calls the queue made to the \<open>Workers.Abort\<close> it was built with.
\<close>

record Queue =
  q_paused :: bool
  q_leases :: leasePool
  q_slots :: slotPool
  q_aborted :: "string list"

definition NewQueue :: "int \<Rightarrow> int \<Rightarrow> Queue" where
  "NewQueue leaseCap slotCap =
     \<lparr>q_paused = False, q_leases = newLeasePool leaseCap, q_slots = newSlotPool slotCap, q_aborted = []\<rparr>"

definition Pause :: "Queue \<Rightarrow> Queue" where
  "Pause q = q\<lparr>q_paused := True\<rparr>"

definition Resume :: "Queue \<Rightarrow> Queue" where
  "Resume q = q\<lparr>q_paused := False\<rparr>"

definition SetCaps :: "int \<Rightarrow> int \<Rightarrow> Queue \<Rightarrow> Queue" where
  "SetCaps leaseCap slotCap q =
     q\<lparr>q_leases := lp_setCapacity leaseCap (q_leases q), q_slots := sp_setCapacity slotCap (q_slots q)\<rparr>"

definition needsLease :: "State \<Rightarrow> bool" where
  "needsLease s \<longleftrightarrow> s = Fetching \<or> s = Assessing \<or> s = Repairing"

definition needsSlot :: "State \<Rightarrow> bool" where
  "needsSlot s \<longleftrightarrow> s = Assessing \<or> s = Repairing \<or> s = Extracting \<or> s = Finalizing"

definition holds :: "Queue \<Rightarrow> string \<Rightarrow> Snapshot \<Rightarrow> bool" where
  "holds q i s =
     (let pos = sv_State (sn_State s) in
      if pos = StateUnset then False
      else if needsLease pos \<and> \<not> sn_HoldsLease s then False
      else if needsSlot pos \<and> \<not> sp_holds i (q_slots q) then False
      else True)"

definition running :: "Queue \<Rightarrow> string \<Rightarrow> Snapshot \<Rightarrow> bool" where
  "running q i s \<longleftrightarrow> IsOpen s \<and> sv_Next (sn_State s) = StateUnset \<and> holds q i s"

definition gatedBy :: "Queue \<Rightarrow> Snapshot \<Rightarrow> WaitReason option" where
  "gatedBy q s =
     (if sn_Intent s = IntentPause then Some UserPaused
      else if q_paused q then Some GlobalPause else None)"

definition waitReason :: "Queue \<Rightarrow> string \<Rightarrow> Snapshot \<Rightarrow> WaitReason option" where
  "waitReason q i s =
     (if IsSettled (sv_Outcome (sn_State s)) then None
      else if running q i s then None
      else case gatedBy q s of
        Some r \<Rightarrow> Some r
      | None \<Rightarrow>
          if sv_State (sn_State s) = StateUnset then Some NoLease
          else (let want = (if sv_Next (sn_State s) \<noteq> StateUnset then sv_Next (sn_State s)
                            else sv_State (sn_State s)) in
                if needsLease want \<and> \<not> sn_HoldsLease s then Some NoLease
                else if needsSlot want \<and> \<not> sp_holds i (q_slots q) then Some NoComputeSlot
                else None))"

section \<open>Acquisition and return\<close>

type_synonym QResult = "SchedError option \<times> Queue \<times> Job"

definition qreclaim :: "Lease option \<Rightarrow> Queue \<Rightarrow> SchedError option \<times> Queue" where
  "qreclaim l q = (let (e, lp) = reclaim l (q_leases q) in (e, q\<lparr>q_leases := lp\<rparr>))"

definition releaseFor :: "Queue \<Rightarrow> Job \<Rightarrow> State \<Rightarrow> Queue" where
  "releaseFor q j s = (if \<not> needsSlot s then q\<lparr>q_slots := release (j_id j) (q_slots q)\<rparr> else q)"

definition parkLocked :: "Queue \<Rightarrow> Job \<Rightarrow> QResult" where
  "parkLocked q j =
     (let q1 = releaseFor q j StateUnset;
          (l, j1) = Surrender j;
          (e, q2) = qreclaim l q1
      in (e, q2, j1))"

definition grantLease :: "Queue \<Rightarrow> Job \<Rightarrow> State \<Rightarrow> bool \<times> Queue \<times> Job" where
  "grantLease q j s =
     (if needsLease s \<and> \<not> HoldsLease j
      then (case issue (q_leases q) of
              (None, lp) \<Rightarrow> (False, q\<lparr>q_leases := lp\<rparr>, j)
            | (Some l, lp) \<Rightarrow>
                (case Grant (Some l) j of
                   Inl e \<Rightarrow> (False, snd (qreclaim (Some l) (q\<lparr>q_leases := lp\<rparr>)), j)
                 | Inr j' \<Rightarrow> (True, q\<lparr>q_leases := lp\<rparr>, j')))
      else (True, q, j))"

definition grantFor :: "Queue \<Rightarrow> Job \<Rightarrow> State \<Rightarrow> bool \<times> Queue \<times> Job" where
  "grantFor q j s =
     (let (ok, q1, j1) = grantLease q j s in
      if \<not> ok then (False, q1, j1)
      else if needsSlot s
      then (let (got, sp) = acquire (j_id j1) (q_slots q1) in (got, q1\<lparr>q_slots := sp\<rparr>, j1))
      else (True, q1, j1))"

definition moveTo :: "Queue \<Rightarrow> Job \<Rightarrow> State \<Rightarrow> State \<Rightarrow> QResult" where
  "moveTo q j from to =
     (let (ok, q1, j1) = grantFor q j to in
      if \<not> ok then (None, q1, j1)
      else case Transition to j1 of
        Inl e \<Rightarrow> (Some (JobErr e), releaseFor q1 j1 from, j1)
      | Inr j2 \<Rightarrow> (None, releaseFor q1 j2 to, j2))"

section \<open>Settling and cancelling\<close>

definition cancelInterrupts :: "State \<Rightarrow> bool" where
  "cancelInterrupts s \<longleftrightarrow> \<not> IsProduction s"

definition settleLocked :: "Queue \<Rightarrow> Job \<Rightarrow> Outcome \<Rightarrow> Snapshot \<Rightarrow> Time \<Rightarrow> QResult" where
  "settleLocked q j o' s now =
     (let o2 = (if sn_Intent s = IntentCancel \<and> cancelInterrupts (sv_State (sn_State s))
                then OutcomeCancelled else o') in
      case Finish o2 now j of
        Inl e \<Rightarrow> (Some (JobErr e), q, j)
      | Inr (l, j1) \<Rightarrow>
          (let q1 = releaseFor q j1 StateUnset; (e, q2) = qreclaim l q1 in (e, q2, j1)))"

definition Settle :: "Queue \<Rightarrow> Job \<Rightarrow> Outcome \<Rightarrow> Time \<Rightarrow> QResult" where
  "Settle q j o' now =
     (if o' = OutcomeCancelled then (Some ErrCancelReserved, q, j)
      else settleLocked q j o' (snapshot j) now)"

definition Abort :: "Job \<Rightarrow> Queue \<Rightarrow> Queue" where
  "Abort j q = q\<lparr>q_aborted := q_aborted q @ [j_id j]\<rparr>"

definition finishCancel :: "Queue \<Rightarrow> Job \<Rightarrow> Snapshot \<Rightarrow> Time \<Rightarrow> QResult" where
  "finishCancel q j s now =
     (if sv_State (sn_State s) = StateUnset then (None, q, j)
      else if IsSettled (sv_Outcome (sn_State s)) then (None, releaseFor q j StateUnset, j)
      else if running q (j_id j) s
      then (if \<not> cancelInterrupts (sv_State (sn_State s)) then (None, q, j)
            else (None, Abort j q, j))
      else settleLocked q j OutcomeCancelled s now)"

definition Cancel :: "Queue \<Rightarrow> Job \<Rightarrow> Time \<Rightarrow> QResult" where
  "Cancel q j now =
     (case SetIntent IntentCancel j of
        Inl e \<Rightarrow> (Some (JobErr e), q, j)
      | Inr j1 \<Rightarrow> finishCancel q j1 (snapshot j1) now)"

section \<open>Parking, retrying and advancing\<close>

definition Park :: "Queue \<Rightarrow> Job \<Rightarrow> QResult" where
  "Park q j = parkLocked q j"

definition Handoff :: "Queue \<Rightarrow> Job \<Rightarrow> State \<Rightarrow> State \<Rightarrow> Time \<Rightarrow> bool \<times> QResult" where
  "Handoff q j from nxt now =
     (let s = snapshot j in
      if \<not> IsOpen s \<or> sv_State (sn_State s) \<noteq> from \<or> sv_Next (sn_State s) \<noteq> StateUnset
      then (False, None, q, j)
      else if nxt \<noteq> StateUnset
      then (case SetNext nxt j of
              Inl e \<Rightarrow>
                (case settleLocked q j OutcomeFailed (snapshot j) now of
                   (None, q1, j1) \<Rightarrow> (True, Some (JobErr e), q1, j1)
                 | (Some se, q1, j1) \<Rightarrow> (True, Some (Joined (JobErr e) se), q1, j1))
            | Inr j1 \<Rightarrow> (True, parkLocked q j1))
      else (True, parkLocked q j))"

definition liftJob :: "Queue \<Rightarrow> Job \<Rightarrow> (JobError, Job) result \<Rightarrow> QResult" where
  "liftJob q j r = (case r of Inl e \<Rightarrow> (Some (JobErr e), q, j) | Inr j1 \<Rightarrow> (None, q, j1))"

definition Retry :: "Queue \<Rightarrow> Job \<Rightarrow> Time \<Rightarrow> QResult" where
  "Retry q j now =
     (if \<not> IsSettled (sv_Outcome (sn_State (snapshot j))) then (Some ErrNotSettled, q, j)
      else liftJob (releaseFor q j StateUnset) j (BeginAttempt now j))"

definition crossAndGrant :: "Queue \<Rightarrow> Job \<Rightarrow> State \<Rightarrow> QResult" where
  "crossAndGrant q j nxt =
     (case Cross nxt j of
        Inl e \<Rightarrow> (Some (JobErr e), q, j)
      | Inr (l, j1) \<Rightarrow>
          (case qreclaim l q of
             (Some e, q1) \<Rightarrow> (Some e, q1, j1)
           | (None, q1) \<Rightarrow> (let (_, q2, j2) = grantFor q1 j1 nxt in (None, q2, j2))))"

definition Advance :: "Queue \<Rightarrow> Job \<Rightarrow> Time \<Rightarrow> QResult" where
  "Advance q j now =
     (let s = snapshot j; st = sv_State (sn_State s); nx = sv_Next (sn_State s) in
      if sn_Intent s = IntentCancel then finishCancel q j s now
      else if st = StateUnset
      then (if gatedBy q s \<noteq> None then (None, q, j) else liftJob q j (BeginAttempt now j))
      else if IsSettled (sv_Outcome (sn_State s)) then (None, releaseFor q j StateUnset, j)
      else if nx = StateUnset
      then (if holds q (j_id j) s then (None, q, j)
            else if gatedBy q s \<noteq> None then parkLocked q j
            else (let (_, q1, j1) = grantFor q j st in (None, q1, j1)))
      else if gatedBy q s \<noteq> None then parkLocked q j
      else if IsCorrectness st \<and> IsProduction nx then crossAndGrant q j nx
      else moveTo q j st nx)"

section \<open>Rendering\<close>

record RenderView =
  rv_State :: StateView
  rv_Running :: bool
  rv_Reason :: WaitReason
  rv_Intent :: Intent
  rv_Holds :: bool

definition renderLocked :: "Queue \<Rightarrow> Job \<Rightarrow> RenderView" where
  "renderLocked q j =
     (let s = snapshot j in
      \<lparr>rv_State = sn_State s, rv_Running = running q (j_id j) s,
       rv_Reason = (case waitReason q (j_id j) s of None \<Rightarrow> NoLease | Some r \<Rightarrow> r),
       rv_Intent = sn_Intent s, rv_Holds = holds q (j_id j) s\<rparr>)"

definition Render :: "Queue \<Rightarrow> Job \<Rightarrow> RenderView" where
  "Render q j = renderLocked q j"

definition RenderAll :: "Queue \<Rightarrow> Job list \<Rightarrow> RenderView list" where
  "RenderAll q js = map (renderLocked q) js"

section \<open>What one call of a door may change\<close>

text \<open>
  \<open>lease_ok\<close> and \<open>slot_ok\<close> tie the pools to one job: the lease the job holds is one the
  pool has issued, and a slot recorded under the job's id is one its open attempt needs.
  \<open>frame k\<close> says what a call may change: outside the job it was called with nothing moves,
  a lease the job gains is one nobody held, at most \<open>k\<close> ids are minted, and neither
  pool grows past its capacity.
\<close>

definition leaseIDs :: "Job \<Rightarrow> LeaseID set" where
  "leaseIDs j = (case j_lease j of None \<Rightarrow> {} | Some l \<Rightarrow> {lease_id l})"

definition lease_ok :: "Queue \<Rightarrow> Job \<Rightarrow> bool" where
  "lease_ok q j \<longleftrightarrow>
     fresh_ids (q_leases q) \<and> finite (sp_held (q_slots q)) \<and> job_wf j
   \<and> leaseIDs j \<subseteq> lp_issued (q_leases q)"

definition slot_ok :: "Queue \<Rightarrow> Job \<Rightarrow> bool" where
  "slot_ok q j \<longleftrightarrow>
     (j_id j \<in> sp_held (q_slots q) \<longrightarrow>
        (\<exists>a. currentLocked j = Some a \<and> isOpen a \<and> needsSlot (at_state a)))"

definition within_caps :: "Queue \<Rightarrow> Queue \<Rightarrow> bool" where
  "within_caps q q' \<longleftrightarrow>
     lp_capacity (q_leases q') = lp_capacity (q_leases q)
   \<and> sp_capacity (q_slots q') = sp_capacity (q_slots q)
   \<and> int (lp_outstanding (q_leases q')) \<le>
       max (lp_capacity (q_leases q)) (int (lp_outstanding (q_leases q)))
   \<and> int (sp_outstanding (q_slots q')) \<le>
       max (sp_capacity (q_slots q)) (int (sp_outstanding (q_slots q)))"

definition frame :: "nat \<Rightarrow> Queue \<Rightarrow> Job \<Rightarrow> Queue \<Rightarrow> Job \<Rightarrow> bool" where
  "frame k q j q' j' \<longleftrightarrow>
     j_id j' = j_id j
   \<and> lp_issued (q_leases q') - leaseIDs j' = lp_issued (q_leases q) - leaseIDs j
   \<and> leaseIDs j' \<inter> lp_issued (q_leases q) \<subseteq> leaseIDs j
   \<and> sp_held (q_slots q') - {j_id j} = sp_held (q_slots q) - {j_id j}
   \<and> unat (lp_next (q_leases q')) \<le> unat (lp_next (q_leases q)) + k
   \<and> within_caps q q'"

lemma leaseIDs_simps [simp]:
  "leaseIDs (setCurrent a j) = leaseIDs j"
  "leaseIDs (j\<lparr>j_lease := None\<rparr>) = {}"
  "leaseIDs (j\<lparr>j_lease := Some l\<rparr>) = {lease_id l}"
  "leaseIDs (j\<lparr>j_intent := i\<rparr>) = leaseIDs j"
  "leaseIDs (j\<lparr>j_attempts := as\<rparr>) = leaseIDs j"
  by (simp_all add: leaseIDs_def)

lemma leaseIDs_None: "j_lease j = None \<longleftrightarrow> leaseIDs j = {}"
  by (cases "j_lease j") (simp_all add: leaseIDs_def)

lemma within_caps_refl [simp]: "within_caps q q"
  by (simp add: within_caps_def)

lemma frame_refl [simp]: "frame k q j q j"
  by (simp add: frame_def)

lemma frame_trans:
  assumes "frame k q j q' j'" and "frame m q' j' q'' j''"
  shows "frame (k + m) q j q'' j''"
proof -
  have "leaseIDs j'' \<inter> lp_issued (q_leases q) \<subseteq> leaseIDs j"
    using assms unfolding frame_def by blast
  with assms show ?thesis by (auto simp: frame_def within_caps_def)
qed

lemma frame_mono: "frame k q j q' j' \<Longrightarrow> k \<le> m \<Longrightarrow> frame m q j q' j'"
  by (simp add: frame_def)

lemma frame_job:
  assumes "j_id j' = j_id j" and "leaseIDs j' = leaseIDs j"
  shows "frame k q j q j'"
  using assms by (simp add: frame_def)

text \<open>Everything the queue holds for a job, returned.\<close>

definition drop_all :: "Queue \<Rightarrow> Job \<Rightarrow> Queue" where
  "drop_all q j =
     q\<lparr>q_slots := release (j_id j) (q_slots q),
       q_leases := (q_leases q)\<lparr>lp_issued := lp_issued (q_leases q) - leaseIDs j\<rparr>\<rparr>"

lemma release_simps [simp]:
  "sp_held (release i p) = sp_held p - {i}" "sp_capacity (release i p) = sp_capacity p"
  by (simp_all add: release_def)

lemma releaseFor_Unset [simp]:
  "releaseFor q j StateUnset = q\<lparr>q_slots := release (j_id j) (q_slots q)\<rparr>"
  by (simp add: releaseFor_def needsSlot_def)

lemma qreclaim_held:
  assumes "lease_ok q j"
  shows "qreclaim (j_lease j) (q\<lparr>q_slots := sp\<rparr>) =
    (None, q\<lparr>q_slots := sp, q_leases := (q_leases q)\<lparr>lp_issued := lp_issued (q_leases q) - leaseIDs j\<rparr>\<rparr>)"
  using assms by (auto simp: qreclaim_def reclaim_def lease_ok_def leaseIDs_def split: option.splits)

lemma parkLocked_eq:
  assumes "lease_ok q j"
  shows "parkLocked q j = (None, drop_all q j, j\<lparr>j_lease := None\<rparr>)"
  using qreclaim_held [OF assms]
  by (simp add: parkLocked_def Surrender_def surrenderLocked_def drop_all_def)

lemma within_caps_drop:
  assumes "fresh_ids (q_leases q)" and "finite (sp_held (q_slots q))"
  shows "within_caps q (q\<lparr>q_slots := release i (q_slots q)\<rparr>)" and "within_caps q (drop_all q j)"
proof -
  have fin: "finite (lp_issued (q_leases q))" using assms(1) by (simp add: fresh_ids_def)
  have s: "int (sp_outstanding (release i (q_slots q))) \<le>
      max (sp_capacity (q_slots q)) (int (sp_outstanding (q_slots q)))" for i
    by (rule slot_bound.give_max [OF assms(2)])
  then show "within_caps q (q\<lparr>q_slots := release i (q_slots q)\<rparr>)" by (simp add: within_caps_def)
  have "card (lp_issued (q_leases q) - leaseIDs j) \<le> card (lp_issued (q_leases q))"
    by (rule card_mono [OF fin Diff_subset])
  with s show "within_caps q (drop_all q j)"
    by (auto simp: within_caps_def drop_all_def lp_outstanding_def)
qed

lemma drop_all_frame:
  assumes "lease_ok q j" and "j_id j' = j_id j" and "j_lease j' = None" and "job_wf j'"
  shows "frame 0 q j (drop_all q j) j'" and "lease_ok (drop_all q j) j'" and "slot_ok (drop_all q j) j'"
proof -
  have "leaseIDs j' = {}" using assms(3) by (simp add: leaseIDs_None)
  then show "frame 0 q j (drop_all q j) j'" using assms within_caps_drop(2) [of q j]
    by (auto simp: frame_def drop_all_def lease_ok_def)
  show "lease_ok (drop_all q j) j'" "slot_ok (drop_all q j) j'"
    using assms \<open>leaseIDs j' = {}\<close>
    by (auto simp: lease_ok_def slot_ok_def drop_all_def fresh_ids_def)
qed

section \<open>Granting\<close>

lemma grantLease_Granted:
  assumes "lease_ok q j" and "unat (lp_next (q_leases q)) < 2 ^ 64 - 1"
    and "currentLocked j = Some a" and "isOpen a" and "IsCorrectness (at_state a)" and "j_lease j = None"
    and "issue (q_leases q) = (Some l, lp)"
  shows "Grant (Some l) j = Inr (j\<lparr>j_lease := Some l\<rparr>)"
    and "frame 1 q j (q\<lparr>q_leases := lp\<rparr>) (j\<lparr>j_lease := Some l\<rparr>)"
    and "lease_ok (q\<lparr>q_leases := lp\<rparr>) (j\<lparr>j_lease := Some l\<rparr>)"
proof -
  have ok: "fresh_ids (q_leases q)" "finite (sp_held (q_slots q))" "job_wf j"
    using assms(1) by (auto simp: lease_ok_def)
  note iss = issue_Some [OF assms(7) ok(1) assms(2)]
  have "\<not> crossed a" using IsCorrectness_not_crossed [OF job_wf_current [OF ok(3) assms(3)]] assms(5) by simp
  then show g: "Grant (Some l) j = Inr (j\<lparr>j_lease := Some l\<rparr>)"
    using assms iss(2) by (auto simp: Grant_Inr)
  have "int (lp_outstanding lp) \<le> max (lp_capacity (q_leases q)) (int (lp_outstanding (q_leases q)))"
    using lease_bound.take_max [of "q_leases q"] ok(1) assms(7) by (simp add: fresh_ids_def)
  moreover have "lp_capacity lp = lp_capacity (q_leases q)"
    using lease_bound.take_cap [of "q_leases q"] assms(7) by simp
  ultimately show "frame 1 q j (q\<lparr>q_leases := lp\<rparr>) (j\<lparr>j_lease := Some l\<rparr>)"
    using iss assms(6) by (auto simp: frame_def within_caps_def leaseIDs_None)
  show "lease_ok (q\<lparr>q_leases := lp\<rparr>) (j\<lparr>j_lease := Some l\<rparr>)"
    using iss ok job_wf_Grant [OF ok(3) g] by (simp add: lease_ok_def)
qed

text \<open>
  The outcome of \<open>grantLease\<close> on a well-formed open job: the lease is there (it was held or
  a fresh one was granted), or the pool is exhausted and nothing changed.
\<close>

lemma grantLease_spec:
  assumes "lease_ok q j" and "unat (lp_next (q_leases q)) < 2 ^ 64 - 1"
    and "currentLocked j = Some a" and "isOpen a" and "needsLease s \<Longrightarrow> IsCorrectness (at_state a)"
    and "grantLease q j s = (ok, q', j')"
  shows "frame 1 q j q' j' \<and> lease_ok q' j' \<and> q_slots q' = q_slots q \<and> q_paused q' = q_paused q
    \<and> q_aborted q' = q_aborted q \<and> (\<exists>l. j' = j\<lparr>j_lease := l\<rparr>) \<and> (ok \<and> needsLease s \<longrightarrow> HoldsLease j')
    \<and> (HoldsLease j \<longrightarrow> j' = j)
    \<and> (\<not> ok \<longrightarrow> q' = q \<and> j' = j \<and> lp_capacity (q_leases q) \<le> int (lp_outstanding (q_leases q)))"
proof (cases "needsLease s \<and> \<not> HoldsLease j")
  case False
  then have "ok" "q' = q" "j' = j" using assms(6) by (auto simp: grantLease_def)
  then show ?thesis using assms(1) False by (auto intro: exI [of _ "j_lease j"])
next
  case True
  then have free: "j_lease j = None" by (simp add: HoldsLease_def)
  show ?thesis
  proof (cases "issue (q_leases q)")
    case (Pair r lp)
    show ?thesis
    proof (cases r)
      case None
      then have lp: "lp = q_leases q" using issue_None Pair by blast
      moreover have "lp_capacity (q_leases q) \<le> int (lp_outstanding (q_leases q))"
        using Pair None by (auto simp: issue_def lp_outstanding_def Let_def split: if_splits)
      moreover have "\<not> ok" "q' = q" "j' = j" using assms(6) True Pair None lp by (auto simp: grantLease_def)
      ultimately show ?thesis using assms(1) True by (auto intro: exI [of _ "j_lease j"])
    next
      case (Some l)
      note g = grantLease_Granted [OF assms(1,2,3,4) assms(5) free Pair [unfolded Some]]
      from assms(6) True Pair Some g(1) True
      have "ok" "q' = q\<lparr>q_leases := lp\<rparr>" "j' = j\<lparr>j_lease := Some l\<rparr>"
        by (auto simp: grantLease_def)
      then show ?thesis using g True by (auto simp: HoldsLease_def)
    qed
  qed
qed

lemma acquire_spec:
  assumes "acquire i p = (got, p')" and "finite (sp_held p)"
  shows "sp_held p' - {i} = sp_held p - {i}" and "finite (sp_held p')" and "got \<longleftrightarrow> i \<in> sp_held p'"
    and "sp_capacity p' = sp_capacity p"
    and "int (sp_outstanding p') \<le> max (sp_capacity p) (int (sp_outstanding p))"
    and "\<not> got \<Longrightarrow> p' = p \<and> sp_capacity p \<le> int (sp_outstanding p)"
  using assms slot_bound.take_max [OF assms(2), of i]
  by (auto simp: acquire_def sp_outstanding_def split: if_splits)

text \<open>
  \<open>grantFor\<close> as the doors use it. A refusal names the pool that is exhausted, and leaves at
  most a newly granted lease with the job.
\<close>

lemma grantFor_spec:
  assumes "lease_ok q j" and "unat (lp_next (q_leases q)) < 2 ^ 64 - 1"
    and "currentLocked j = Some a" and "isOpen a" and "needsLease s \<Longrightarrow> IsCorrectness (at_state a)"
    and "grantFor q j s = (ok, q', j')"
  shows "frame 1 q j q' j' \<and> lease_ok q' j' \<and> q_paused q' = q_paused q
    \<and> q_aborted q' = q_aborted q \<and> (\<exists>l. j' = j\<lparr>j_lease := l\<rparr>) \<and> (HoldsLease j \<longrightarrow> j' = j)
    \<and> (ok \<longrightarrow> (needsLease s \<longrightarrow> HoldsLease j') \<and> (needsSlot s \<longrightarrow> j_id j \<in> sp_held (q_slots q')))
    \<and> (j_id j \<in> sp_held (q_slots q') \<longrightarrow> j_id j \<in> sp_held (q_slots q) \<or> ok \<and> needsSlot s)
    \<and> (\<not> ok \<longrightarrow> needsLease s \<and> lp_capacity (q_leases q) \<le> int (lp_outstanding (q_leases q))
         \<or> needsSlot s \<and> sp_capacity (q_slots q) \<le> int (sp_outstanding (q_slots q)))"
proof -
  obtain ok1 q1 j1 where g1: "grantLease q j s = (ok1, q1, j1)" by (metis prod_cases3)
  have spec: "frame 1 q j q1 j1 \<and> lease_ok q1 j1 \<and> q_slots q1 = q_slots q \<and> q_paused q1 = q_paused q
    \<and> q_aborted q1 = q_aborted q \<and> (\<exists>l. j1 = j\<lparr>j_lease := l\<rparr>) \<and> (ok1 \<and> needsLease s \<longrightarrow> HoldsLease j1)
    \<and> (HoldsLease j \<longrightarrow> j1 = j)
    \<and> (\<not> ok1 \<longrightarrow> q1 = q \<and> j1 = j \<and> lp_capacity (q_leases q) \<le> int (lp_outstanding (q_leases q)))"
    by (rule grantLease_spec [OF assms(1-5) g1])
  have id1: "j_id j1 = j_id j" using spec by auto
  show ?thesis
  proof (cases "ok1 \<and> needsSlot s")
    case False
    with g1 assms(6) have "ok = ok1" "q' = q1" "j' = j1" by (auto simp: grantFor_def split: if_splits)
    moreover have "\<not> ok1 \<Longrightarrow> needsLease s" using g1 by (auto simp: grantLease_def split: if_splits)
    ultimately show ?thesis using spec False by auto
  next
    case True
    obtain got sp where acq: "acquire (j_id j) (q_slots q) = (got, sp)" by force
    have q': "ok = got" "q' = q1\<lparr>q_slots := sp\<rparr>" "j' = j1"
      using True g1 assms(6) acq spec id1 by (auto simp: grantFor_def)
    have fin: "finite (sp_held (q_slots q))" using assms(1) by (simp add: lease_ok_def)
    note a = acquire_spec [OF acq fin]
    have "frame 0 q1 j1 q' j'" using a(1,4,5) spec id1 by (auto simp: frame_def within_caps_def q')
    then have "frame 1 q j q' j'" using frame_trans [of 1 q j q1 j1 0 q' j'] spec by simp
    moreover have "lease_ok q' j'" using spec a(2) by (simp add: lease_ok_def q')
    ultimately show ?thesis using spec True a(3,6) by (auto simp: q')
  qed
qed

section \<open>Every door keeps the pools and the job consistent\<close>

text \<open>
  \<open>call_ok\<close> is the contract of a door: it moves the job only by the job's own doors, touches
  the pools only for that job, mints at most one lease and leaves pools and job consistent.
\<close>

definition call_ok :: "Queue \<Rightarrow> Job \<Rightarrow> Queue \<Rightarrow> Job \<Rightarrow> bool" where
  "call_ok q j q' j' \<longleftrightarrow>
     job_steps j j' \<and> frame 1 q j q' j' \<and> lease_ok q' j' \<and> slot_ok q' j' \<and> q_paused q' = q_paused q"

lemma call_ok_refl: "lease_ok q j \<Longrightarrow> slot_ok q j \<Longrightarrow> call_ok q j q j"
  by (simp add: call_ok_def job_steps.refl)

lemma call_ok_drop:
  assumes "lease_ok q j" and "job_steps j j'" and "j_id j' = j_id j" and "j_lease j' = None"
  shows "call_ok q j (drop_all q j) j'"
proof -
  have "job_wf j'" using assms(1,2) job_steps_wf by (simp add: lease_ok_def)
  from drop_all_frame [OF assms(1,3,4) this] show ?thesis
    using assms(2) frame_mono [of 0 q j _ j' 1] by (simp add: call_ok_def drop_all_def)
qed

lemma call_ok_release:
  assumes "lease_ok q j"
  shows "call_ok q j (releaseFor q j StateUnset) j"
  using assms within_caps_drop(1) [of q "j_id j"]
  by (auto simp: call_ok_def job_steps.refl frame_def lease_ok_def slot_ok_def)

lemma park_steps: "job_steps j (j\<lparr>j_lease := None\<rparr>)"
  by (rule job_steps_one, rule job_step.surrender [of _ "j_lease j"]) (simp add: Surrender_def surrenderLocked_def)

lemma parkLocked_ok:
  assumes "lease_ok q j" and "parkLocked q j = (e, q', j')"
  shows "e = None \<and> call_ok q j q' j'"
  using assms parkLocked_eq [OF assms(1)] call_ok_drop [OF assms(1) park_steps] by auto

text \<open>What \<open>settleLocked\<close> records.\<close>

definition settled_as :: "Outcome \<Rightarrow> Snapshot \<Rightarrow> Outcome" where
  "settled_as o' s =
     (if sn_Intent s = IntentCancel \<and> cancelInterrupts (sv_State (sn_State s)) then OutcomeCancelled else o')"

lemma settleLocked_cases:
  assumes "lease_ok q j" and "settleLocked q j o' s now = (e, q', j')"
  shows "(\<exists>je. e = Some (JobErr je) \<and> Finish (settled_as o' s) now j = Inl je \<and> q' = q \<and> j' = j)
    \<or> (e = None \<and> q' = drop_all q j \<and> Finish (settled_as o' s) now j = Inr (j_lease j, j')
        \<and> j_id j' = j_id j \<and> j_lease j' = None)"
proof (cases "Finish (settled_as o' s) now j")
  case (Inl je)
  then show ?thesis using assms(2) by (simp add: settleLocked_def settled_as_def Let_def)
next
  case (Inr r)
  obtain l j1 where r: "r = (l, j1)" by force
  have fin: "l = j_lease j" "j_id j1 = j_id j" "j_lease j1 = None"
    using Inr r by (auto simp: Finish_Inr)
  then have "settleLocked q j o' s now = (None, drop_all q j, j1)"
    using Inr r qreclaim_held [OF assms(1)]
    by (simp add: settleLocked_def settled_as_def Let_def drop_all_def)
  then show ?thesis using assms(2) Inr r fin by simp
qed

lemma settleLocked_ok:
  assumes "lease_ok q j" and "slot_ok q j" and "settleLocked q j o' s now = (e, q', j')"
  shows "call_ok q j q' j'"
  using settleLocked_cases [OF assms(1,3)]
proof (elim disjE exE conjE)
  assume "q' = q" "j' = j"
  then show ?thesis using call_ok_refl assms by simp
next
  assume "q' = drop_all q j" "Finish (settled_as o' s) now j = Inr (j_lease j, j')"
    "j_id j' = j_id j" "j_lease j' = None"
  then show ?thesis using call_ok_drop [OF assms(1) job_steps_one [OF job_step.finish]] by simp
qed

lemma Settle_ok:
  assumes "lease_ok q j" and "slot_ok q j" and "Settle q j o' now = (e, q', j')"
  shows "call_ok q j q' j'"
  using assms settleLocked_ok call_ok_refl by (auto simp: Settle_def split: if_splits)

lemma call_ok_Abort:
  assumes "lease_ok q j" and "slot_ok q j"
  shows "call_ok q j (Abort j q) j"
  using assms by (simp add: call_ok_def job_steps.refl frame_def lease_ok_def slot_ok_def within_caps_def Abort_def)

lemma finishCancel_cases:
  assumes "finishCancel q j s now = (e, q', j')"
  shows "(e = None \<and> j' = j \<and> (q' = q \<or> q' = releaseFor q j StateUnset \<or> q' = Abort j q))
    \<or> settleLocked q j OutcomeCancelled s now = (e, q', j')"
  using assms unfolding finishCancel_def by (auto split: if_splits)

lemma finishCancel_ok:
  assumes "lease_ok q j" and "slot_ok q j" and "finishCancel q j s now = (e, q', j')"
  shows "call_ok q j q' j'"
  using finishCancel_cases [OF assms(3)] settleLocked_ok [OF assms(1,2)] call_ok_refl [OF assms(1,2)]
    call_ok_release [OF assms(1)] call_ok_Abort [OF assms(1,2)]
  by blast

lemma job_step_lease_ok:
  assumes "lease_ok q j" and "job_step j j'" and "leaseIDs j' = leaseIDs j"
  shows "lease_ok q j'"
  using assms job_step_wf by (auto simp: lease_ok_def)

lemma SetIntent_ok:
  assumes "lease_ok q j" and "slot_ok q j" and "SetIntent i j = Inr j'"
  shows "call_ok q j q j'"
proof -
  have st: "job_step j j'" using assms(3) by (rule job_step.set_intent)
  have "j' = j\<lparr>j_intent := i\<rparr>" using assms(3) by (simp add: SetIntent_Inr)
  then show ?thesis
    using job_step_lease_ok [OF assms(1) st] assms(2) job_steps_one [OF st] frame_job [of j' j]
    by (auto simp: call_ok_def slot_ok_def)
qed

lemma call_ok_trans:
  assumes "call_ok q j q j1" and "call_ok q j1 q' j'"
  shows "call_ok q j q' j'"
proof -
  have "frame 1 q j q' j'"
    using assms by (auto simp: call_ok_def frame_def)
  then show ?thesis using assms job_steps_trans by (auto simp: call_ok_def)
qed

lemma Cancel_ok:
  assumes "lease_ok q j" and "slot_ok q j" and "Cancel q j now = (e, q', j')"
  shows "call_ok q j q' j'"
proof (cases "SetIntent IntentCancel j")
  case (Inl x)
  then show ?thesis using assms call_ok_refl by (simp add: Cancel_def)
next
  case (Inr j1)
  note c = SetIntent_ok [OF assms(1,2) Inr]
  then have "call_ok q j1 q' j'"
    using finishCancel_ok [of q j1] assms(3) Inr by (auto simp: Cancel_def call_ok_def)
  then show ?thesis by (rule call_ok_trans [OF c])
qed

lemma snapshot_None:
  "currentLocked j = None \<Longrightarrow> snapshot j = \<lparr>sn_State = zeroView, sn_Intent = j_intent j,
     sn_HoldsLease = HoldsLease j, sn_HasRun = False\<rparr>"
  by (cases "j_attempts j") (simp_all add: snapshot_def HoldsLease_def currentLocked_def)

lemma snapshot_Some:
  "currentLocked j = Some a \<Longrightarrow> snapshot j = \<lparr>sn_State = view a, sn_Intent = j_intent j,
     sn_HoldsLease = HoldsLease j, sn_HasRun = True\<rparr>"
  by (cases "j_attempts j") (auto simp: snapshot_def HoldsLease_def currentLocked_def split: if_splits)

lemma snapshot_intent [simp]: "sn_Intent (snapshot j) = j_intent j"
  by (simp add: snapshot_def)

lemma attempt_wf_state: "attempt_wf a \<Longrightarrow> at_state a \<noteq> StateUnset"
  by (auto simp: attempt_wf_def AllStates_def)

lemma snapshot_Unset:
  assumes "job_wf j"
  shows "sv_State (sn_State (snapshot j)) = StateUnset \<longleftrightarrow> currentLocked j = None"
proof (cases "currentLocked j")
  case None
  then show ?thesis by (simp add: snapshot_None zeroView_def)
next
  case (Some a)
  then show ?thesis using attempt_wf_state [OF job_wf_current [OF assms Some]]
    by (simp add: snapshot_Some view_def)
qed

lemma never_run_no_lease: "job_wf j \<Longrightarrow> currentLocked j = None \<Longrightarrow> j_lease j = None"
  using job_wf_lease by (cases "j_lease j") fastforce+

lemma BeginAttempt_ok:
  assumes "lease_ok q j" and "slot_ok q j" and "BeginAttempt now j = Inr j'"
  shows "call_ok q j q j'"
proof -
  have st: "job_step j j'" using assms(3) by (rule job_step.begin_attempt)
  have same: "j_id j' = j_id j" "leaseIDs j' = leaseIDs j"
    using assms(3) by (auto simp: BeginAttempt_Inr split: option.splits if_splits)
  have "j_id j \<in> sp_held (q_slots q) \<Longrightarrow> j' = j"
    using assms(2,3) by (auto simp: slot_ok_def BeginAttempt_Inr)
  then have "slot_ok q j'" using assms(2) by (cases "j_id j \<in> sp_held (q_slots q)") (auto simp: slot_ok_def same)
  then show ?thesis
    using job_step_lease_ok [OF assms(1) st same(2)] job_steps_one [OF st] frame_job [OF same] by (simp add: call_ok_def)
qed

lemma grant_steps:
  assumes "grantFor q j s = (ok, q', j')"
  shows "job_steps j j'"
proof -
  have "job_steps j (snd (snd (grantLease q j s)))"
    by (auto simp: grantLease_def job_steps.refl intro: job_steps_one job_step.grant
        split: prod.splits option.splits sum.splits)
  then show ?thesis using assms by (auto simp: grantFor_def split: prod.splits if_splits)
qed

text \<open>Restoring what the position of an open job needs.\<close>

lemma grantHere_ok:
  assumes "lease_ok q j" and "slot_ok q j" and "unat (lp_next (q_leases q)) < 2 ^ 64 - 1"
    and "currentLocked j = Some a" and "isOpen a"
    and "grantFor q j (at_state a) = (ok, q', j')"
  shows "call_ok q j q' j'"
proof -
  have "needsLease (at_state a) \<Longrightarrow> IsCorrectness (at_state a)"
    by (simp add: needsLease_def IsCorrectness_def)
  note spec = grantFor_spec [OF assms(1,3,4,5) this assms(6)]
  have "currentLocked j' = Some a" "j_id j' = j_id j" using spec assms(4) by auto
  with spec grant_steps [OF assms(6)] assms show ?thesis
    by (auto simp: call_ok_def slot_ok_def)
qed

lemma moveTo_ok:
  assumes "lease_ok q j" and "slot_ok q j" and "unat (lp_next (q_leases q)) < 2 ^ 64 - 1"
    and "currentLocked j = Some a" and "isOpen a" and "at_next a = to"
    and "edgeFrom (at_state a) to = Some (to, byTransition)"
    and "moveTo q j (at_state a) to = (e, q', j')"
  shows "e = None \<and> call_ok q j q' j'"
proof -
  obtain ok q1 j1 where g: "grantFor q j to = (ok, q1, j1)" by (metis prod_cases3)
  have "needsLease to \<Longrightarrow> IsCorrectness (at_state a)"
    using assms(7) by (auto simp: edgeFrom_Some needsLease_def IsCorrectness_def)
  note spec = grantFor_spec [OF assms(1,3,4,5) this g]
  have cur: "currentLocked j1 = Some a" "j_id j1 = j_id j" using spec assms(4) by auto
  show ?thesis
  proof (cases ok)
    case False
    then have "e = None" "q' = q1" "j' = j1" using assms(8) g by (auto simp: moveTo_def)
    then show ?thesis using False spec cur grant_steps [OF g] assms(2,4)
      by (auto simp: call_ok_def slot_ok_def)
  next
    case True
    let ?a = "a\<lparr>at_state := to, at_activity := ActNone, at_next := StateUnset,
        at_assessed := (to = Assessing \<or> at_assessed a)\<rparr>"
    let ?j = "setCurrent ?a j1"
    have t: "Transition to j1 = Inr ?j"
      unfolding Transition_Inr transition_Inr using cur assms(5,6,7) by blast
    then have q': "e = None" "q' = releaseFor q1 ?j to" "j' = ?j"
      using assms(8) g True by (auto simp: moveTo_def)
    have st: "job_step j1 ?j" using t by (rule job_step.transition)
    have "lease_ok q1 ?j" using job_step_lease_ok [OF _ st] spec by simp
    then have "lease_ok q' ?j" by (auto simp: lease_ok_def q' releaseFor_def)
    moreover have "frame 0 q1 j1 q' j'"
      using within_caps_drop(1) [of q1 "j_id j"] spec cur by (auto simp: q' frame_def releaseFor_def lease_ok_def)
    then have "frame 1 q j q' j'" using frame_trans [of 1 q j q1 j1 0 q' j'] spec by simp
    moreover have "slot_ok q' j'" using assms(5) by (auto simp: slot_ok_def q' releaseFor_def isOpen_def)
    moreover have "job_steps j j'" using grant_steps [OF g] st by (auto simp: q' intro: job_steps.step)
    ultimately show ?thesis using spec by (simp add: call_ok_def q' releaseFor_def)
  qed
qed

lemma crossAndGrant_ok:
  assumes "lease_ok q j" and "slot_ok q j" and "unat (lp_next (q_leases q)) < 2 ^ 64 - 1"
    and "currentLocked j = Some a" and "isOpen a" and "at_state a = Assessing" and "at_next a = Extracting"
    and "crossAndGrant q j Extracting = (e, q', j')"
  shows "e = None \<and> call_ok q j q' j'"
proof -
  let ?a = "a\<lparr>at_state := Extracting, at_activity := ActNone, at_next := StateUnset\<rparr>"
  let ?j = "(setCurrent ?a j)\<lparr>j_lease := None\<rparr>"
  let ?q = "q\<lparr>q_leases := (q_leases q)\<lparr>lp_issued := lp_issued (q_leases q) - leaseIDs j\<rparr>\<rparr>"
  have c: "Cross Extracting j = Inr (j_lease j, ?j)"
    unfolding Cross_Inr cross_Inr using assms by blast
  have r: "qreclaim (j_lease j) q = (None, ?q)" using qreclaim_held [OF assms(1), of "q_slots q"] by simp
  obtain ok q1 j1 where g: "grantFor ?q ?j Extracting = (ok, q1, j1)" by (metis prod_cases3)
  have q': "e = None" "q' = q1" "j' = j1" using assms(8) c r g by (auto simp: crossAndGrant_def)
  have wf: "job_wf ?j" using job_wf_Cross [OF _ c] assms(1) by (simp add: lease_ok_def)
  have ok1: "lease_ok ?q ?j" using assms(1) wf by (auto simp: lease_ok_def fresh_ids_def)
  have "card (lp_issued (q_leases q) - leaseIDs j) \<le> card (lp_issued (q_leases q))"
    using assms(1) by (auto simp: lease_ok_def fresh_ids_def intro!: card_mono)
  then have f1: "frame 0 q j ?q ?j" by (auto simp: frame_def within_caps_def lp_outstanding_def)
  have open_a: "isOpen ?a" using assms(5) by (simp add: isOpen_def)
  have "frame 1 ?q ?j q1 j1 \<and> lease_ok q1 j1 \<and> q_paused q1 = q_paused ?q \<and> (\<exists>l. j1 = ?j\<lparr>j_lease := l\<rparr>)"
    using grantFor_spec [OF ok1 _ _ open_a _ g] assms(3) by (simp add: needsLease_def)
  moreover from this have "currentLocked j1 = Some ?a" "j_id j1 = j_id j" by auto
  then have "slot_ok q1 j1" using open_a by (simp add: slot_ok_def needsSlot_def)
  moreover have "job_steps j j1"
    using job_steps_trans [OF job_steps_one [OF job_step.cross [OF c]] grant_steps [OF g]] .
  ultimately show ?thesis using frame_trans [OF f1, of 1 q1 j1] by (simp add: call_ok_def q')
qed

text \<open>The edge a well-formed attempt has recorded, and the door it goes through.\<close>

lemma recorded_edge:
  assumes "attempt_wf a" and "at_next a \<noteq> StateUnset"
  shows "IsCorrectness (at_state a) \<and> IsProduction (at_next a) \<longleftrightarrow>
      at_state a = Assessing \<and> at_next a = Extracting"
    and "\<not> (IsCorrectness (at_state a) \<and> IsProduction (at_next a)) \<Longrightarrow>
      edgeFrom (at_state a) (at_next a) = Some (at_next a, byTransition)"
  using assms by (auto simp: attempt_wf_def CanTransition_iff edgeFrom_Some IsCorrectness_def IsProduction_def)

lemma settle_cancelled_None:
  assumes "lease_ok q j" and "currentLocked j = Some a" and "isOpen a"
    and "settleLocked q j OutcomeCancelled s now = (e, q', j')"
  shows "e = None"
proof -
  have "attempt_wf a" using job_wf_current assms(1,2) by (auto simp: lease_ok_def)
  then have "admits OutcomeCancelled (at_state a)"
    by (auto simp: attempt_wf_def AllStates_def admits_def)
  then have "\<exists>r. Finish OutcomeCancelled now j = Inr r"
    using assms(2,3) unfolding Finish_def withOpenAttempt_Inr
    by (auto simp: finish_def admits_def IsSettled_def AllOutcomes_def isOpen_def)
  moreover have "settled_as OutcomeCancelled s = OutcomeCancelled" by (simp add: settled_as_def)
  ultimately show ?thesis using settleLocked_cases [OF assms(1,4)] by auto
qed

lemma finishCancel_None:
  assumes "lease_ok q j" and "finishCancel q j (snapshot j) now = (e, q', j')"
  shows "e = None"
proof (cases "currentLocked j")
  case None
  then show ?thesis using assms(2) by (simp add: finishCancel_def snapshot_None zeroView_def)
next
  case (Some a)
  then show ?thesis
    using assms settle_cancelled_None [OF assms(1) Some] unfolding finishCancel_def
    by (auto simp: snapshot_Some view_def isOpen_def IsSettled_def split: if_splits)
qed

lemma Advance_open_cases:
  assumes "currentLocked j = Some a" and "isOpen a" and "attempt_wf a" and "j_intent j \<noteq> IntentCancel"
  shows "Advance q j now =
    (if at_next a = StateUnset
     then (if holds q (j_id j) (snapshot j) then (None, q, j)
           else if gatedBy q (snapshot j) \<noteq> None then parkLocked q j
           else (None, snd (grantFor q j (at_state a))))
     else if gatedBy q (snapshot j) \<noteq> None then parkLocked q j
     else if at_state a = Assessing \<and> at_next a = Extracting then crossAndGrant q j Extracting
     else moveTo q j (at_state a) (at_next a))"
  using assms attempt_wf_state [OF assms(3)] recorded_edge(1) [OF assms(3)]
  by (auto simp: Advance_def snapshot_Some view_def isOpen_def IsSettled_def Let_def split: prod.splits)

lemma Advance_open_ok:
  assumes "lease_ok q j" and "slot_ok q j" and "unat (lp_next (q_leases q)) < 2 ^ 64 - 1"
    and "currentLocked j = Some a" and "isOpen a" and "j_intent j \<noteq> IntentCancel"
    and "Advance q j now = (e, q', j')"
  shows "e = None \<and> call_ok q j q' j'"
proof -
  have wf: "attempt_wf a" using job_wf_current assms(1,4) by (auto simp: lease_ok_def)
  note adv = Advance_open_cases [OF assms(4,5) wf assms(6), of q now]
  show ?thesis
  proof (cases "at_next a = StateUnset")
    case True
    obtain ok q1 j1 where g: "grantFor q j (at_state a) = (ok, q1, j1)" by (metis prod_cases3)
    then show ?thesis
      using adv True assms(7) parkLocked_ok [OF assms(1), of e q' j'] call_ok_refl [OF assms(1,2)]
        grantHere_ok [OF assms(1-5) g]
      by (simp split: if_splits)
  next
    case False
    then show ?thesis
      using adv assms(7) parkLocked_ok [OF assms(1), of e q' j'] crossAndGrant_ok [OF assms(1-5), of e q' j']
        moveTo_ok [OF assms(1-5) HOL.refl recorded_edge(2) [OF wf False], of e q' j']
        recorded_edge(1) [OF wf False]
      by (simp split: if_splits)
  qed
qed

lemma Advance_ok:
  assumes "lease_ok q j" and "slot_ok q j" and "unat (lp_next (q_leases q)) < 2 ^ 64 - 1"
    and "Advance q j now = (e, q', j')"
  shows "e = None \<and> call_ok q j q' j'"
proof (cases "j_intent j = IntentCancel")
  case True
  then have "finishCancel q j (snapshot j) now = (e, q', j')" using assms(4) by (simp add: Advance_def Let_def)
  then show ?thesis using finishCancel_ok [OF assms(1,2)] finishCancel_None [OF assms(1)] by blast
next
  case nc: False
  show ?thesis
  proof (cases "currentLocked j")
    case None
    let ?j = "j\<lparr>j_attempts := [newAttempt now]\<rparr>"
    have b: "BeginAttempt now j = Inr ?j" using None by (simp add: BeginAttempt_Inr)
    then have "e = None \<and> q' = q \<and> (j' = j \<or> j' = ?j)"
      using assms(4) None nc by (auto simp: Advance_def snapshot_None zeroView_def liftJob_def split: if_splits)
    then show ?thesis using BeginAttempt_ok [OF assms(1,2) b] call_ok_refl [OF assms(1,2)] by blast
  next
    case (Some a)
    show ?thesis
    proof (cases "isOpen a")
      case True
      then show ?thesis using Advance_open_ok [OF assms(1-3) Some _ nc assms(4)] by blast
    next
      case False
      have "at_state a \<noteq> StateUnset"
        using attempt_wf_state job_wf_current assms(1) Some by (auto simp: lease_ok_def)
      then have "e = None" "q' = releaseFor q j StateUnset" "j' = j"
        using assms(4) nc Some False
        by (auto simp: Advance_def snapshot_Some view_def IsSettled_def isOpen_def Let_def)
      then show ?thesis using call_ok_release [OF assms(1)] by simp
    qed
  qed
qed

lemma Retry_ok:
  assumes "lease_ok q j" and "slot_ok q j" and "Retry q j now = (e, q', j')"
  shows "call_ok q j q' j'"
proof -
  let ?q = "releaseFor q j StateUnset"
  note rel = call_ok_release [OF assms(1)]
  have "(q' = q \<or> q' = ?q) \<and> j' = j \<or> q' = ?q \<and> BeginAttempt now j = Inr j'"
    using assms(3) by (auto simp: Retry_def liftJob_def simp del: releaseFor_Unset split: if_splits sum.splits)
  moreover have "call_ok q j ?q j'" if b: "BeginAttempt now j = Inr j'"
  proof -
    have "lease_ok ?q j" "slot_ok ?q j" using rel unfolding call_ok_def by blast+
    then have "call_ok ?q j ?q j'" by (rule BeginAttempt_ok [OF _ _ b])
    then show ?thesis using rel by (auto simp: call_ok_def frame_def within_caps_def)
  qed
  ultimately show ?thesis using rel call_ok_refl [OF assms(1,2)] by blast
qed

lemma SetNext_ok:
  assumes "lease_ok q j" and "SetNext n j = Inr j1"
  shows "lease_ok q j1" and "job_steps j j1" and "frame 0 q j q j1"
proof -
  have st: "job_step j j1" using assms(2) by (rule job_step.set_next)
  have same: "j_id j1 = j_id j" "leaseIDs j1 = leaseIDs j" using assms(2) by (auto simp: SetNext_Inr)
  show "lease_ok q j1" by (rule job_step_lease_ok [OF assms(1) st same(2)])
  show "job_steps j j1" by (rule job_steps_one [OF st])
  show "frame 0 q j q j1" by (rule frame_job [OF same])
qed

lemma Handoff_ok:
  assumes "lease_ok q j" and "slot_ok q j" and "Handoff q j from nxt now = (b, e, q', j')"
  shows "call_ok q j q' j'"
proof -
  consider "q' = q" "j' = j" | o2 s2 e2 where "settleLocked q j o2 s2 now = (e2, q', j')"
    | j1 where "SetNext nxt j = Inr j1" "parkLocked q j1 = (e, q', j')" | "parkLocked q j = (e, q', j')"
    using assms(3) by (auto simp: Handoff_def Let_def split: if_splits sum.splits prod.splits option.splits)
  then show ?thesis
  proof cases
    case 1
    then show ?thesis using call_ok_refl [OF assms(1,2)] by simp
  next
    case 2
    then show ?thesis by (rule settleLocked_ok [OF assms(1,2)])
  next
    case (3 j1)
    note s = SetNext_ok [OF assms(1) 3(1)]
    have "call_ok q j1 q' j'" using parkLocked_ok [OF s(1) 3(2)] by simp
    then show ?thesis using s frame_trans [OF s(3)] job_steps_trans [of j j1 j'] by (auto simp: call_ok_def)
  next
    case 4
    then show ?thesis using parkLocked_ok [OF assms(1)] by simp
  qed
qed

section \<open>Calls that grant nothing\<close>

definition no_grant :: "Queue \<Rightarrow> Job \<Rightarrow> Queue \<Rightarrow> Job \<Rightarrow> bool" where
  "no_grant q j q' j' \<longleftrightarrow> leaseIDs j' \<subseteq> leaseIDs j \<and> sp_held (q_slots q') \<subseteq> sp_held (q_slots q)"

lemma no_grant_refl [simp]: "no_grant q j q j"
  by (simp add: no_grant_def)

lemma no_grant_drop: "j_lease j' = None \<Longrightarrow> no_grant q j (drop_all q j) j'"
  by (auto simp: no_grant_def drop_all_def leaseIDs_None)

lemma parkLocked_no_grant:
  assumes "lease_ok q j" and "parkLocked q j = (e, q', j')"
  shows "no_grant q j q' j'"
  using assms parkLocked_eq [OF assms(1)] no_grant_drop [of "j\<lparr>j_lease := None\<rparr>"] by auto

lemma settleLocked_no_grant:
  assumes "lease_ok q j" and "settleLocked q j o' s now = (e, q', j')"
  shows "no_grant q j q' j'"
  using settleLocked_cases [OF assms] no_grant_drop by auto

lemma Settle_no_grant:
  assumes "lease_ok q j" and "Settle q j o' now = (e, q', j')"
  shows "no_grant q j q' j'"
  using assms settleLocked_no_grant by (auto simp: Settle_def split: if_splits)

lemma finishCancel_no_grant:
  assumes "lease_ok q j" and "finishCancel q j s now = (e, q', j')"
  shows "no_grant q j q' j'"
  using finishCancel_cases [OF assms(2)] settleLocked_no_grant [OF assms(1), of OutcomeCancelled s now e q' j']
  by (auto simp: no_grant_def Abort_def)

lemma Cancel_no_grant:
  assumes "lease_ok q j" and "Cancel q j now = (e, q', j')"
  shows "no_grant q j q' j'"
proof (cases "SetIntent IntentCancel j")
  case (Inl x)
  then show ?thesis using assms(2) by (simp add: Cancel_def)
next
  case (Inr j1)
  then have j1: "leaseIDs j1 = leaseIDs j" by (auto simp: SetIntent_Inr)
  have "lease_ok q j1" using job_step_lease_ok [OF assms(1) job_step.set_intent [OF Inr] j1] .
  then show ?thesis using finishCancel_no_grant [of q j1] assms(2) Inr j1 by (simp add: Cancel_def no_grant_def)
qed

lemma Handoff_no_grant:
  assumes "lease_ok q j" and "Handoff q j from nxt now = (b, e, q', j')"
  shows "no_grant q j q' j'"
proof -
  consider "q' = q" "j' = j" | o2 s2 e2 where "settleLocked q j o2 s2 now = (e2, q', j')"
    | j1 where "SetNext nxt j = Inr j1" "parkLocked q j1 = (e, q', j')" | "parkLocked q j = (e, q', j')"
    using assms(2) by (auto simp: Handoff_def Let_def split: if_splits sum.splits prod.splits option.splits)
  then show ?thesis
  proof cases
    case (3 j1)
    then have "leaseIDs j1 = leaseIDs j" by (auto simp: SetNext_Inr)
    then show ?thesis using parkLocked_no_grant [OF SetNext_ok(1) [OF assms(1) 3(1)] 3(2)] by (simp add: no_grant_def)
  qed (use assms(1) settleLocked_no_grant parkLocked_no_grant in auto)
qed

lemma Advance_cancel_no_grant:
  assumes "lease_ok q j" and "j_intent j = IntentCancel" and "Advance q j now = (e, q', j')"
  shows "no_grant q j q' j'"
  using assms finishCancel_no_grant [OF assms(1)] by (simp add: Advance_def Let_def)

lemma job_steps_cancel: "job_steps j j' \<Longrightarrow> j_intent j = IntentCancel \<Longrightarrow> j_intent j' = IntentCancel"
  by (induction rule: job_steps.induct) (auto dest: job_step_cancel)

section \<open>Properties of the doors\<close>

text \<open>Two queues and two jobs for the witnesses.\<close>

definition q_free :: Queue where
  "q_free = NewQueue 2 1"

definition fetching_job :: Job where
  "fetching_job = (New ''id'' ''name'' pp_all 0)\<lparr>j_attempts := [newAttempt 1], j_lease := Some (NewLease 1)\<rparr>"

definition q_fetching :: Queue where
  "q_fetching = q_free\<lparr>q_leases := \<lparr>lp_capacity = 2, lp_next = 1, lp_issued = {1}\<rparr>\<rparr>"

lemmas sched_eval =
  q_free_def NewQueue_def newLeasePool_def newSlotPool_def fetching_job_def q_fetching_def New_def
  newAttempt_def LeaseUnset_def

lemma lease_ok_fetching [simp]: "lease_ok q_fetching fetching_job"
  by (simp add: sched_eval lease_ok_def fresh_ids_def leaseIDs_def job_wf_def list_all_def attempt_wf_def AllStates_def
      currentLocked_def isOpen_def IsCorrectness_def AllIntents_def)

lemma lease_ok_fresh [simp]: "lease_ok q_free (New ''id'' ''name'' pp_all 0)"
  by (simp add: lease_ok_def fresh_ids_def q_free_def NewQueue_def newLeasePool_def newSlotPool_def leaseIDs_def New_def
      job_wf_def AllIntents_def)

lemma slot_ok_idle [simp]: "slot_ok q_fetching j" "slot_ok q_free j"
  by (simp_all add: slot_ok_def q_fetching_def q_free_def NewQueue_def newSlotPool_def)

lemma holds_snapshot:
  assumes "currentLocked j = Some a" and "attempt_wf a"
  shows "holds q i (snapshot j) \<longleftrightarrow>
    (needsLease (at_state a) \<longrightarrow> HoldsLease j) \<and> (needsSlot (at_state a) \<longrightarrow> i \<in> sp_held (q_slots q))"
  using assms attempt_wf_state [OF assms(2)] by (auto simp: holds_def snapshot_Some view_def sp_holds_def Let_def)

lemma running_snapshot:
  assumes "currentLocked j = Some a" and "attempt_wf a"
  shows "running q i (snapshot j) \<longleftrightarrow> isOpen a \<and> at_next a = StateUnset \<and> holds q i (snapshot j)"
  using assms by (auto simp: running_def IsOpen_def snapshot_Some view_def isOpen_def IsSettled_def)

text \<open>C3: A tick never fails and never breaks the books: on pools and a job that are
  consistent, Advance returns no error, moves the job only along its own doors, leaves every
  other job's lease and slot alone, mints at most one lease, never grows a pool past its
  capacity, and leaves pools and job consistent.\<close>

theorem advance_safe:
  assumes "lease_ok q j" and "slot_ok q j" and "unat (lp_next (q_leases q)) < 2 ^ 64 - 1"
  shows "\<exists>q' j'. Advance q j now = (None, q', j') \<and> job_steps j j' \<and> frame 1 q j q' j'
    \<and> lease_ok q' j' \<and> slot_ok q' j'"
proof -
  obtain e q' j' where adv: "Advance q j now = (e, q', j')" by (metis prod_cases3)
  from Advance_ok [OF assms adv] adv show ?thesis by (auto simp: call_ok_def)
qed

theorem advance_safe_witness:
  "\<exists>q' j'. Advance q_free (New ''id'' ''name'' pp_all 0) 3 = (None, q', j')
     \<and> j_attempts j' = [newAttempt 3] \<and> lease_ok q' j'"
  using advance_safe [OF lease_ok_fresh slot_ok_idle(2), of 3]
  by (simp add: q_free_def NewQueue_def newLeasePool_def LeaseUnset_def Advance_def snapshot_def currentLocked_def
      New_def zeroView_def gatedBy_def liftJob_def BeginAttempt_def)

text \<open>C7: Whoever stops working gives everything back: after Park, after a Settle that is
  accepted and after a Handoff that is accepted, the job holds no lease and no slot, its lease
  is out of the pool's books, and nothing else in the pools has changed.\<close>

theorem stopping_returns_everything:
  assumes "lease_ok q j"
  shows "(Park q j = (e, q', j') \<longrightarrow> e = None \<and> q' = drop_all q j \<and> j_lease j' = None)
    \<and> (Settle q j o' now = (None, q', j') \<longrightarrow> q' = drop_all q j \<and> j_lease j' = None)
    \<and> (Handoff q j from nxt now = (True, None, q', j') \<longrightarrow> q' = drop_all q j \<and> j_lease j' = None)"
proof (intro conjI impI)
  assume "Park q j = (e, q', j')"
  then show "e = None" "q' = drop_all q j" "j_lease j' = None"
    using parkLocked_eq [OF assms] by (auto simp: Park_def)
next
  assume "Settle q j o' now = (None, q', j')"
  then show "q' = drop_all q j" "j_lease j' = None"
    using settleLocked_cases [OF assms, of o' "snapshot j" now None q' j']
    by (auto simp: Settle_def split: if_splits)
next
  assume h: "Handoff q j from nxt now = (True, None, q', j')"
  have "drop_all q j1 = drop_all q j" if "SetNext nxt j = Inr j1" for j1
    using that by (auto simp: drop_all_def SetNext_Inr)
  with h show "q' = drop_all q j" "j_lease j' = None"
    using parkLocked_eq [OF assms] parkLocked_eq [OF SetNext_ok(1) [OF assms]]
    by (auto simp: Handoff_def Let_def split: if_splits sum.splits prod.splits option.splits)
qed

theorem stopping_returns_everything_witness:
  "\<exists>e1 q1 j1 q2 j2 q3 j3. Park q_fetching fetching_job = (e1, q1, j1)
     \<and> Settle q_fetching fetching_job OutcomeFailed 9 = (None, q2, j2)
     \<and> Handoff q_fetching fetching_job Fetching Assessing 9 = (True, None, q3, j3)
     \<and> j_lease fetching_job = Some (NewLease 1)
     \<and> (e1, q1, j_lease j1) = (None, drop_all q_fetching fetching_job, None) \<and> lp_issued (q_leases q1) = {}
     \<and> (q2, j_lease j2) = (q1, None) \<and> (q3, j_lease j3) = (q1, None)"
proof -
  obtain e1 q1 j1 where p: "Park q_fetching fetching_job = (e1, q1, j1)" by (metis prod_cases3)
  obtain q2 j2 where s: "Settle q_fetching fetching_job OutcomeFailed 9 = (None, q2, j2)"
    by (simp add: sched_eval Settle_def settleLocked_def snapshot_def currentLocked_def Finish_def withOpenAttempt_def
        isOpen_def finish_def IsSettled_def AllOutcomes_def admits_def view_def setCurrent_def surrenderLocked_def
        qreclaim_def reclaim_def)
  obtain q3 j3 where h: "Handoff q_fetching fetching_job Fetching Assessing 9 = (True, None, q3, j3)"
    by (simp add: sched_eval Handoff_def snapshot_def currentLocked_def IsOpen_def IsSettled_def view_def
        SetNext_def withOpenAttempt_def isOpen_def setNext_def CanTransition_iff setCurrent_def parkLocked_def
        Surrender_def surrenderLocked_def qreclaim_def reclaim_def)
  have "lp_issued (q_leases (drop_all q_fetching fetching_job)) = {}"
    by (simp add: drop_all_def sched_eval leaseIDs_def)
  moreover have "e1 = None \<and> q1 = drop_all q_fetching fetching_job \<and> j_lease j1 = None"
    using p stopping_returns_everything [OF lease_ok_fetching] by blast
  moreover have "q2 = drop_all q_fetching fetching_job \<and> j_lease j2 = None"
    using s stopping_returns_everything [OF lease_ok_fetching] by blast
  moreover have "q3 = drop_all q_fetching fetching_job \<and> j_lease j3 = None"
    using h stopping_returns_everything [OF lease_ok_fetching] by blast
  ultimately show ?thesis using p s h by (simp add: fetching_job_def)
qed

text \<open>C13: Cancelling takes effect: for a job whose intent is Cancel and whose attempt is open, one
  tick either settles the attempt as Cancelled and returns its lease and slot (no worker is on
  it), or asks the workers to abort (a worker is on it short of the boundary), or leaves a
  worker past the boundary to finish; in the last two the job and the pools stay as they are.\<close>

theorem cancel_takes_effect:
  assumes "lease_ok q j" and "j_intent j = IntentCancel" and "currentLocked j = Some a" and "isOpen a"
  shows "if running q (j_id j) (snapshot j)
     then Advance q j now = (None, if crossed a then q else Abort j q, j)
     else \<exists>j'. Advance q j now = (None, drop_all q j, j') \<and> j_lease j' = None
       \<and> (\<exists>a'. currentLocked j' = Some a' \<and> at_outcome a' = OutcomeCancelled \<and> at_ended a' = now)"
proof -
  have adv: "Advance q j now = finishCancel q j (snapshot j) now" using assms(2) by (simp add: Advance_def Let_def)
  have st: "at_state a \<noteq> StateUnset"
    using attempt_wf_state job_wf_current assms(1,3) by (auto simp: lease_ok_def)
  show ?thesis
  proof (cases "running q (j_id j) (snapshot j)")
    case True
    then show ?thesis using adv st assms(3,4)
      by (simp add: finishCancel_def snapshot_Some view_def IsSettled_def isOpen_def cancelInterrupts_def crossed_def)
  next
    case False
    obtain e q' j' where s: "settleLocked q j OutcomeCancelled (snapshot j) now = (e, q', j')"
      by (metis prod_cases3)
    then have "Advance q j now = (e, q', j')" using adv st assms(3,4) False
      by (simp add: finishCancel_def snapshot_Some view_def IsSettled_def isOpen_def)
    moreover have "settled_as OutcomeCancelled (snapshot j) = OutcomeCancelled" by (simp add: settled_as_def)
    ultimately show ?thesis
      using settleLocked_cases [OF assms(1) s] settle_cancelled_None [OF assms(1,3,4) s] False
      by (auto simp: Finish_Inr finish_Inr)
  qed
qed

theorem cancel_takes_effect_witness:
  "\<exists>j'. Advance q_fetching (fetching_job\<lparr>j_intent := IntentCancel, j_attempts :=
       [(newAttempt 1)\<lparr>at_next := Assessing\<rparr>]\<rparr>) 7 = (None, drop_all q_fetching fetching_job, j')
     \<and> j_lease j' = None \<and> (\<exists>a'. currentLocked j' = Some a' \<and> at_outcome a' = OutcomeCancelled \<and> at_ended a' = 7)"
proof -
  let ?a = "(newAttempt 1)\<lparr>at_next := Assessing\<rparr>"
  let ?j = "fetching_job\<lparr>j_intent := IntentCancel, j_attempts := [?a]\<rparr>"
  have ok: "lease_ok q_fetching ?j"
    by (simp add: sched_eval lease_ok_def fresh_ids_def leaseIDs_def job_wf_def list_all_def attempt_wf_def AllStates_def
        currentLocked_def isOpen_def IsCorrectness_def AllIntents_def CanTransition_iff)
  have cur: "currentLocked ?j = Some ?a" "isOpen ?a" by (simp_all add: currentLocked_def isOpen_def newAttempt_def)
  have "\<not> running q_fetching (j_id ?j) (snapshot ?j)"
    by (simp add: running_def snapshot_Some [OF cur(1)] view_def)
  moreover have "drop_all q_fetching ?j = drop_all q_fetching fetching_job"
    by (simp add: drop_all_def leaseIDs_def)
  ultimately show ?thesis using cancel_takes_effect [OF ok _ cur, of 7] by simp
qed

text \<open>A worker is never disturbed by the scheduler: while a job is running and not cancelled,
  a tick changes neither the job nor the pools, whatever is paused.\<close>

theorem running_worker_undisturbed:
  assumes "job_wf j" and "running q (j_id j) (snapshot j)" and "j_intent j \<noteq> IntentCancel"
  shows "Advance q j now = (None, q, j)"
proof -
  obtain a where a: "currentLocked j = Some a"
    using assms(2) by (cases "currentLocked j") (auto simp: running_def IsOpen_def snapshot_None)
  have wf: "attempt_wf a" by (rule job_wf_current [OF assms(1) a])
  have "isOpen a" "at_next a = StateUnset" "holds q (j_id j) (snapshot j)"
    using running_snapshot [OF a wf, of q "j_id j"] assms(2) by auto
  then show ?thesis using Advance_open_cases [OF a _ wf assms(3)] by simp
qed

theorem running_worker_undisturbed_witness:
  "running q_fetching ''id'' (snapshot fetching_job)
   \<and> Advance (Pause q_fetching) fetching_job 8 = (None, Pause q_fetching, fetching_job)"
proof -
  have wf: "job_wf fetching_job" using lease_ok_fetching by (simp add: lease_ok_def)
  have r: "running (q\<lparr>q_paused := b\<rparr>) ''id'' (snapshot fetching_job)"
      "running q ''id'' (snapshot fetching_job)" for q b
    by (simp_all add: running_def holds_def IsOpen_def snapshot_def sched_eval currentLocked_def view_def
        IsSettled_def needsSlot_def)
  then show ?thesis using running_worker_undisturbed [OF wf, of "Pause q_fetching" 8]
    by (simp add: Pause_def fetching_job_def New_def)
qed

text \<open>Free capacity in both pools, and nothing gating the job.\<close>

definition ready_for :: "Queue \<Rightarrow> Job \<Rightarrow> bool" where
  "ready_for q j \<longleftrightarrow>
     lease_ok q j \<and> slot_ok q j \<and> unat (lp_next (q_leases q)) < 2 ^ 64 - 1
   \<and> j_intent j = IntentRun \<and> \<not> q_paused q
   \<and> int (lp_outstanding (q_leases q)) < lp_capacity (q_leases q)
   \<and> int (sp_outstanding (q_slots q)) < sp_capacity (q_slots q)"

lemma ready_gate: "ready_for q j \<Longrightarrow> gatedBy q (snapshot j) = None"
  by (simp add: ready_for_def gatedBy_def)

lemma grantFor_free:
  assumes "ready_for q j" and "currentLocked j = Some a" and "isOpen a"
    and "needsLease s \<Longrightarrow> IsCorrectness (at_state a)"
  shows "\<exists>q' l. grantFor q j s = (True, q', j\<lparr>j_lease := l\<rparr>) \<and> (needsLease s \<longrightarrow> l \<noteq> None)
    \<and> (needsSlot s \<longrightarrow> j_id j \<in> sp_held (q_slots q'))"
proof -
  obtain ok q' j' where g: "grantFor q j s = (ok, q', j')" by (metis prod_cases3)
  have r: "lease_ok q j" "unat (lp_next (q_leases q)) < 2 ^ 64 - 1"
    using assms(1) by (auto simp: ready_for_def)
  note spec = grantFor_spec [OF r assms(2,3,4) g]
  have ok using spec assms(1) by (auto simp: ready_for_def)
  moreover obtain l where "j' = j\<lparr>j_lease := l\<rparr>" using spec by blast
  ultimately show ?thesis using spec g by (intro exI [of _ q'] exI [of _ l]) (simp add: HoldsLease_def)
qed

lemma running_granted:
  assumes "currentLocked j = Some a" and "isOpen a" and "attempt_wf a" and "at_next a = StateUnset"
    and "needsLease (at_state a) \<Longrightarrow> j_lease j \<noteq> None" and "needsSlot (at_state a) \<Longrightarrow> j_id j \<in> sp_held (q_slots q)"
  shows "running q (j_id j) (snapshot j)"
  using assms by (simp add: running_snapshot holds_snapshot HoldsLease_def)

lemma move_when_free:
  assumes "ready_for q j" and "currentLocked j = Some a" and "isOpen a" and "at_next a = to"
    and "edgeFrom (at_state a) to = Some (to, byTransition)"
  shows "\<exists>q' j' a'. moveTo q j (at_state a) to = (None, q', j') \<and> currentLocked j' = Some a'
    \<and> at_state a' = to \<and> running q' (j_id j') (snapshot j')"
proof -
  have "needsLease to \<Longrightarrow> IsCorrectness (at_state a)"
    using assms(5) by (auto simp: edgeFrom_Some needsLease_def IsCorrectness_def)
  from grantFor_free [OF assms(1,2,3) this, of to] obtain q' l where
    g: "grantFor q j to = (True, q', j\<lparr>j_lease := l\<rparr>)" "needsLease to \<longrightarrow> l \<noteq> None"
       "needsSlot to \<longrightarrow> j_id j \<in> sp_held (q_slots q')" by blast
  let ?a = "a\<lparr>at_state := to, at_activity := ActNone, at_next := StateUnset,
        at_assessed := (to = Assessing \<or> at_assessed a)\<rparr>"
  let ?j = "setCurrent ?a (j\<lparr>j_lease := l\<rparr>)"
  have t: "Transition to (j\<lparr>j_lease := l\<rparr>) = Inr ?j"
    unfolding Transition_Inr transition_Inr using assms by (intro exI [of _ a] exI [of _ ?a]) simp
  have wf: "attempt_wf ?a"
    using transition_wf [of a to ?a] job_wf_current [OF _ assms(2)] assms by (simp add: transition_Inr ready_for_def lease_ok_def)
  have "running (releaseFor q' ?j to) (j_id ?j) (snapshot ?j)"
    by (rule running_granted [of _ ?a]) (use wf g assms(3) in \<open>auto simp: isOpen_def releaseFor_def\<close>)
  then show ?thesis using g(1) t by (simp add: moveTo_def)
qed

lemma cross_when_free:
  assumes "ready_for q j" and "currentLocked j = Some a" and "isOpen a"
    and "at_state a = Assessing" and "at_next a = Extracting"
  shows "\<exists>q' j' a'. crossAndGrant q j Extracting = (None, q', j') \<and> currentLocked j' = Some a'
    \<and> at_state a' = Extracting \<and> running q' (j_id j') (snapshot j')"
proof -
  let ?a = "a\<lparr>at_state := Extracting, at_activity := ActNone, at_next := StateUnset\<rparr>"
  let ?j = "(setCurrent ?a j)\<lparr>j_lease := None\<rparr>"
  let ?q = "q\<lparr>q_leases := (q_leases q)\<lparr>lp_issued := lp_issued (q_leases q) - leaseIDs j\<rparr>\<rparr>"
  have ok: "lease_ok q j" using assms(1) by (simp add: ready_for_def)
  have c: "Cross Extracting j = Inr (j_lease j, ?j)"
    unfolding Cross_Inr cross_Inr using assms by blast
  have r: "qreclaim (j_lease j) q = (None, ?q)" using qreclaim_held [OF ok, of "q_slots q"] by simp
  have wf: "job_wf ?j" using job_wf_Cross [OF _ c] ok by (simp add: lease_ok_def)
  have "card (lp_issued (q_leases q) - leaseIDs j) \<le> card (lp_issued (q_leases q))"
    using ok by (auto simp: lease_ok_def fresh_ids_def intro!: card_mono)
  then have rdy: "ready_for ?q ?j" using assms wf
    by (auto simp: ready_for_def lease_ok_def fresh_ids_def slot_ok_def needsSlot_def isOpen_def lp_outstanding_def)
  have open_a: "isOpen ?a" using assms(3) by (simp add: isOpen_def)
  from grantFor_free [OF rdy _ open_a, of Extracting] obtain q' l where
    g: "grantFor ?q ?j Extracting = (True, q', ?j\<lparr>j_lease := l\<rparr>)" "j_id ?j \<in> sp_held (q_slots q')"
    unfolding needsSlot_def needsLease_def by fastforce
  have "running q' (j_id (?j\<lparr>j_lease := l\<rparr>)) (snapshot (?j\<lparr>j_lease := l\<rparr>))"
    by (rule running_granted [of _ ?a])
      (use g open_a job_wf_current [OF wf] in \<open>auto simp: needsLease_def\<close>)
  then show ?thesis using c r g(1) by (simp add: crossAndGrant_def)
qed

lemma newAttempt_start [simp]: "at_state (newAttempt now) = Fetching" "at_next (newAttempt now) = StateUnset"
  by (simp_all add: newAttempt_def)

lemma advance_when_free:
  assumes r: "ready_for q j" and a: "currentLocked j = Some a" "isOpen a"
  shows "\<exists>q' j' a'. Advance q j now = (None, q', j') \<and> currentLocked j' = Some a'
      \<and> at_state a' = (if at_next a = StateUnset then at_state a else at_next a)
      \<and> running q' (j_id j') (snapshot j')"
proof -
  have wf: "attempt_wf a" using job_wf_current [OF _ a(1)] r by (simp add: ready_for_def lease_ok_def)
  have nc: "j_intent j \<noteq> IntentCancel" using r by (simp add: ready_for_def)
  note adv = Advance_open_cases [OF a wf nc, of q now] ready_gate [OF r]
  show ?thesis
  proof (cases "at_next a = StateUnset")
    case True
    have "needsLease (at_state a) \<Longrightarrow> IsCorrectness (at_state a)" by (simp add: needsLease_def IsCorrectness_def)
    from grantFor_free [OF r a this, of "at_state a"] obtain q' l where
      g: "grantFor q j (at_state a) = (True, q', j\<lparr>j_lease := l\<rparr>)" "needsLease (at_state a) \<longrightarrow> l \<noteq> None"
        "needsSlot (at_state a) \<longrightarrow> j_id j \<in> sp_held (q_slots q')" by blast
    have "running q' (j_id (j\<lparr>j_lease := l\<rparr>)) (snapshot (j\<lparr>j_lease := l\<rparr>))"
      by (rule running_granted [of _ a]) (use a wf True g in auto)
    then show ?thesis using adv True g(1) a wf by (auto simp: running_snapshot)
  next
    case False
    then show ?thesis
      using adv move_when_free [OF r a HOL.refl recorded_edge(2) [OF wf False]] cross_when_free [OF r a]
        recorded_edge(1) [OF wf False]
      by (auto split: if_splits)
  qed
qed

text \<open>C14: Work proceeds when there is room: with a free lease and a free slot and no pause, one
  tick puts an open attempt's job to work, at the state its recorded verdict names or, with no
  verdict recorded, at the state it is in; and a job that never ran is at work, fetching, after
  two ticks.\<close>

theorem progress_when_free:
  assumes "ready_for q j"
  shows "case currentLocked j of
      Some a \<Rightarrow> isOpen a \<longrightarrow> (\<exists>q' j' a'. Advance q j now = (None, q', j') \<and> currentLocked j' = Some a'
        \<and> at_state a' = (if at_next a = StateUnset then at_state a else at_next a)
        \<and> running q' (j_id j') (snapshot j'))
    | None \<Rightarrow> \<exists>j1 q' j' a'. Advance q j now = (None, q, j1) \<and> Advance q j1 now' = (None, q', j')
        \<and> currentLocked j' = Some a' \<and> at_state a' = Fetching \<and> running q' (j_id j') (snapshot j')"
proof (cases "currentLocked j")
  case (Some a)
  then show ?thesis using advance_when_free [OF assms Some] by simp
next
  case None
  let ?j = "j\<lparr>j_attempts := [newAttempt now]\<rparr>"
  have b: "BeginAttempt now j = Inr ?j" using None by (simp add: BeginAttempt_Inr)
  then have adv: "Advance q j now = (None, q, ?j)" using None assms ready_gate [OF assms]
    by (auto simp: Advance_def snapshot_None zeroView_def liftJob_def ready_for_def)
  have "ready_for q ?j" using assms BeginAttempt_ok [OF _ _ b] by (simp add: ready_for_def call_ok_def)
  moreover have "currentLocked ?j = Some (newAttempt now)" by (simp add: currentLocked_def)
  ultimately show ?thesis using advance_when_free [of q ?j "newAttempt now" now'] adv None by simp
qed

theorem progress_when_free_witness:
  "\<exists>j1 q' j' a'. Advance q_free (New ''id'' ''name'' pp_all 0) 1 = (None, q_free, j1) \<and> Advance q_free j1 2 = (None, q', j')
     \<and> currentLocked j' = Some a' \<and> at_state a' = Fetching \<and> running q' (j_id j') (snapshot j')"
proof -
  have "ready_for q_free (New ''id'' ''name'' pp_all 0)"
    by (simp add: ready_for_def) (simp add: q_free_def NewQueue_def newLeasePool_def newSlotPool_def LeaseUnset_def New_def
        lp_outstanding_def sp_outstanding_def)
  from progress_when_free [OF this, of 1 2] show ?thesis by (simp add: currentLocked_def New_def)
qed

section \<open>What a wait reason says of the next tick\<close>

definition free_lease :: "Queue \<Rightarrow> bool" where
  "free_lease q \<longleftrightarrow> int (lp_outstanding (q_leases q)) < lp_capacity (q_leases q)"

definition free_slot :: "Queue \<Rightarrow> bool" where
  "free_slot q \<longleftrightarrow> int (sp_outstanding (q_slots q)) < sp_capacity (q_slots q)"

text \<open>Where an open attempt is headed: the recorded verdict's state, or the one it is in.\<close>

definition headed_for :: "Attempt \<Rightarrow> State" where
  "headed_for a = (if at_next a = StateUnset then at_state a else at_next a)"

lemma grantLease_full:
  assumes "needsLease s" and "\<not> HoldsLease j" and "\<not> free_lease q"
  shows "grantLease q j s = (False, q, j)"
  using assms by (simp add: grantLease_def issue_def free_lease_def lp_outstanding_def)

lemma grantFor_exact:
  assumes "lease_ok q j" and "unat (lp_next (q_leases q)) < 2 ^ 64 - 1"
    and "currentLocked j = Some a" and "isOpen a" and "needsLease s \<Longrightarrow> IsCorrectness (at_state a)"
    and g: "grantFor q j s = (ok, q', j')"
  shows "ok \<longleftrightarrow> (needsLease s \<and> \<not> HoldsLease j \<longrightarrow> free_lease q) \<and> (needsSlot s \<and> j_id j \<notin> sp_held (q_slots q) \<longrightarrow> free_slot q)"
    and "ok \<longleftrightarrow> (needsLease s \<longrightarrow> HoldsLease j') \<and> (needsSlot s \<longrightarrow> j_id j \<in> sp_held (q_slots q'))"
    and "needsLease s \<Longrightarrow> \<not> HoldsLease j \<Longrightarrow> \<not> free_lease q \<Longrightarrow> q' = q \<and> j' = j"
proof -
  obtain ok1 q1 j1 where g1: "grantLease q j s = (ok1, q1, j1)" by (metis prod_cases3)
  note l = grantLease_spec [OF assms(1-5) g1]
  have id1: "j_id j1 = j_id j" using l by auto
  have ok1: "ok1 \<longleftrightarrow> (needsLease s \<and> \<not> HoldsLease j \<longrightarrow> free_lease q)"
  proof
    assume ok1
    then show "needsLease s \<and> \<not> HoldsLease j \<longrightarrow> free_lease q" using grantLease_full [of s j q] g1 by auto
  next
    assume f: "needsLease s \<and> \<not> HoldsLease j \<longrightarrow> free_lease q"
    show ok1
    proof (rule ccontr)
      assume n: "\<not> ok1"
      then have "\<not> free_lease q" using l by (simp add: free_lease_def)
      then have "grantLease q j s = (True, q, j)" using f by (auto simp: grantLease_def)
      then show False using g1 n by simp
    qed
  qed
  have no: "needsLease s \<and> \<not> HoldsLease j1" if "\<not> ok1"
    using that l ok1 by auto
  obtain got sp where acq: "acquire (j_id j) (q_slots q) = (got, sp)" by force
  have got: "got \<longleftrightarrow> j_id j \<in> sp_held (q_slots q) \<or> free_slot q" "got \<longleftrightarrow> j_id j \<in> sp_held sp"
    using acq by (auto simp: acquire_def free_slot_def sp_outstanding_def split: if_splits)
  have g': "(ok, q', j') = (if \<not> ok1 then (False, q1, j1) else if needsSlot s then (got, q1\<lparr>q_slots := sp\<rparr>, j1) else (True, q1, j1))"
  proof -
    have "acquire (j_id j1) (q_slots q1) = (got, sp)" using l id1 acq by simp
    then show ?thesis using g by (simp add: grantFor_def g1 split: if_splits)
  qed
  show "ok \<longleftrightarrow> (needsLease s \<and> \<not> HoldsLease j \<longrightarrow> free_lease q) \<and> (needsSlot s \<and> j_id j \<notin> sp_held (q_slots q) \<longrightarrow> free_slot q)"
    using g' got(1) unfolding ok1 [symmetric] by (cases ok1; cases "needsSlot s") auto
  have "ok1 \<Longrightarrow> needsLease s \<Longrightarrow> HoldsLease j1" using l by blast
  then show "ok \<longleftrightarrow> (needsLease s \<longrightarrow> HoldsLease j') \<and> (needsSlot s \<longrightarrow> j_id j \<in> sp_held (q_slots q'))"
    using g' got(2) no by (cases ok1; cases "needsSlot s") auto
  show "q' = q \<and> j' = j" if "needsLease s" "\<not> HoldsLease j" "\<not> free_lease q"
    using g grantLease_full [OF that] by (simp add: grantFor_def)
qed

text \<open>The resources the tick must still obtain for a job to work where it is headed.\<close>

definition can_obtain :: "Queue \<Rightarrow> Job \<Rightarrow> State \<Rightarrow> bool" where
  "can_obtain q j s \<longleftrightarrow> (needsLease s \<and> \<not> HoldsLease j \<longrightarrow> free_lease q) \<and> (needsSlot s \<and> j_id j \<notin> sp_held (q_slots q) \<longrightarrow> free_slot q)"

lemma stay_running:
  assumes ok: "lease_ok q j" "unat (lp_next (q_leases q)) < 2 ^ 64 - 1" and a: "currentLocked j = Some a" "isOpen a" "attempt_wf a"
    and n: "at_next a = StateUnset" and g: "grantFor q j (at_state a) = (b, q', j')"
  shows "running q' (j_id j) (snapshot j') \<longleftrightarrow> can_obtain q j (at_state a)"
proof -
  have c: "needsLease (at_state a) \<Longrightarrow> IsCorrectness (at_state a)" by (simp add: needsLease_def IsCorrectness_def)
  have "\<exists>l. j' = j\<lparr>j_lease := l\<rparr>" using grantFor_spec [OF ok a(1,2) c g] by blast
  then have "currentLocked j' = Some a" using a(1) by auto
  then show ?thesis using grantFor_exact(1,2) [OF ok a(1,2) c g] a n
    by (simp add: running_snapshot holds_snapshot can_obtain_def)
qed

lemma move_running:
  assumes ok: "lease_ok q j" "unat (lp_next (q_leases q)) < 2 ^ 64 - 1" and a: "currentLocked j = Some a" "isOpen a" "attempt_wf a"
    and e: "edgeFrom (at_state a) to = Some (to, byTransition)" and n: "at_next a = to" "to \<noteq> StateUnset"
    and m: "moveTo q j (at_state a) to = (err, q', j')"
  shows "running q' (j_id j) (snapshot j') \<longleftrightarrow> can_obtain q j to"
proof -
  have c: "needsLease to \<Longrightarrow> IsCorrectness (at_state a)"
    using e by (auto simp: edgeFrom_Some needsLease_def IsCorrectness_def)
  obtain b q1 j1 where g: "grantFor q j to = (b, q1, j1)" by (metis prod_cases3)
  obtain l where j1: "j1 = j\<lparr>j_lease := l\<rparr>" using grantFor_spec [OF ok a(1,2) c g] by blast
  note x = grantFor_exact(1,2) [OF ok a(1,2) c g]
  show ?thesis
  proof (cases b)
    case False
    then have "q' = q1" "j' = j1" using m g by (auto simp: moveTo_def)
    moreover have "currentLocked j1 = Some a" using a(1) by (simp add: j1)
    then have "\<not> running q1 (j_id j) (snapshot j1)" using a(3) n by (simp add: running_snapshot)
    ultimately show ?thesis using False x(1) by (simp add: can_obtain_def)
  next
    case True
    let ?a = "a\<lparr>at_state := to, at_activity := ActNone, at_next := StateUnset, at_assessed := (to = Assessing \<or> at_assessed a)\<rparr>"
    have t: "Transition to j1 = Inr (setCurrent ?a j1)"
      unfolding Transition_Inr transition_Inr using a e n by (intro exI [of _ a] exI [of _ ?a]) (simp add: j1)
    have wf: "attempt_wf ?a" using transition_wf [of a to ?a] a(2,3) e n by (simp add: transition_Inr)
    have "q' = releaseFor q1 (setCurrent ?a j1) to" "j' = setCurrent ?a j1" using m g True t by (auto simp: moveTo_def)
    moreover have "running (releaseFor q1 (setCurrent ?a j1) to) (j_id (setCurrent ?a j1)) (snapshot (setCurrent ?a j1))"
      by (rule running_granted [of _ ?a]) (use wf x True a(1,2) in \<open>auto simp: isOpen_def releaseFor_def HoldsLease_def j1\<close>)
    ultimately show ?thesis using x True by (simp add: can_obtain_def j1)
  qed
qed

lemma cross_running:
  assumes ok: "lease_ok q j" "unat (lp_next (q_leases q)) < 2 ^ 64 - 1" and a: "currentLocked j = Some a" "isOpen a"
    and n: "at_state a = Assessing" "at_next a = Extracting" and m: "crossAndGrant q j Extracting = (err, q', j')"
  shows "running q' (j_id j) (snapshot j') \<longleftrightarrow> can_obtain q j Extracting"
proof -
  let ?a = "a\<lparr>at_state := Extracting, at_activity := ActNone, at_next := StateUnset\<rparr>"
  let ?j = "(setCurrent ?a j)\<lparr>j_lease := None\<rparr>"
  let ?q = "q\<lparr>q_leases := (q_leases q)\<lparr>lp_issued := lp_issued (q_leases q) - leaseIDs j\<rparr>\<rparr>"
  have c: "Cross Extracting j = Inr (j_lease j, ?j)" unfolding Cross_Inr cross_Inr using a n by blast
  have r: "qreclaim (j_lease j) q = (None, ?q)" using qreclaim_held [OF ok(1), of "q_slots q"] by simp
  have wf: "job_wf ?j" using job_wf_Cross [OF _ c] ok(1) by (simp add: lease_ok_def)
  have ok1: "lease_ok ?q ?j" using ok(1) wf by (auto simp: lease_ok_def fresh_ids_def)
  obtain b q1 j1 where g: "grantFor ?q ?j Extracting = (b, q1, j1)" by (metis prod_cases3)
  have q': "q' = q1" "j' = j1" using m c r g by (auto simp: crossAndGrant_def)
  have cur: "currentLocked ?j = Some ?a" using a(1) by simp
  have wa: "attempt_wf ?a" by (rule job_wf_current [OF wf cur])
  have "running q1 (j_id ?j) (snapshot j1) \<longleftrightarrow> can_obtain ?q ?j (at_state ?a)"
    by (rule stay_running [OF ok1 _ cur _ wa _, of b]) (use ok(2) a(2) g in \<open>simp_all add: isOpen_def\<close>)
  then show ?thesis by (simp add: q' can_obtain_def needsLease_def needsSlot_def free_slot_def)
qed

lemma next_tick_runs:
  assumes ok: "lease_ok q j" "unat (lp_next (q_leases q)) < 2 ^ 64 - 1" and a: "currentLocked j = Some a" "isOpen a"
    and nc: "j_intent j \<noteq> IntentCancel" and free: "gatedBy q (snapshot j) = None" and adv: "Advance q j now = (e, q', j')"
  shows "running q' (j_id j) (snapshot j') \<longleftrightarrow> can_obtain q j (headed_for a)"
proof -
  have wf: "attempt_wf a" using job_wf_current [OF _ a(1)] ok(1) by (simp add: lease_ok_def)
  note c = Advance_open_cases [OF a wf nc, of q now] free
  show ?thesis
  proof (cases "at_next a = StateUnset")
    case n: True
    obtain b q1 j1 where g: "grantFor q j (at_state a) = (b, q1, j1)" by (metis prod_cases3)
    show ?thesis using c adv n g stay_running [OF ok a wf n g] a wf
      by (auto simp: headed_for_def holds_snapshot running_snapshot can_obtain_def split: if_splits)
  next
    case n: False
    show ?thesis
    proof (cases "at_state a = Assessing \<and> at_next a = Extracting")
      case True
      then show ?thesis using c adv n cross_running [OF ok a, of e q' j'] by (simp add: headed_for_def)
    next
      case False
      then have "edgeFrom (at_state a) (at_next a) = Some (at_next a, byTransition)"
        using recorded_edge [OF wf n] by blast
      then show ?thesis using c adv n False move_running [OF ok a wf _ HOL.refl n, of e q' j'] by (simp add: headed_for_def)
    qed
  qed
qed

lemma next_tick_no_lease:
  assumes ok: "lease_ok q j" "unat (lp_next (q_leases q)) < 2 ^ 64 - 1" and a: "currentLocked j = Some a" "isOpen a"
    and nc: "j_intent j \<noteq> IntentCancel" and free: "gatedBy q (snapshot j) = None" and adv: "Advance q j now = (e, q', j')"
    and l: "needsLease (headed_for a)" "\<not> HoldsLease j" "\<not> free_lease q"
  shows "q' = q \<and> j' = j"
proof -
  have wf: "attempt_wf a" using job_wf_current [OF _ a(1)] ok(1) by (simp add: lease_ok_def)
  have g: "grantFor q j (headed_for a) = (False, q, j)" using grantLease_full [OF l] by (simp add: grantFor_def)
  then show ?thesis using Advance_open_cases [OF a wf nc, of q now] free adv l(1)
    by (auto simp: headed_for_def moveTo_def needsLease_def split: if_splits)
qed

text \<open>The reasons themselves, read off the attempt.\<close>

lemma waitReason_open:
  assumes a: "currentLocked j = Some a" "isOpen a" "attempt_wf a"
  shows "waitReason q (j_id j) (snapshot j) =
    (if running q (j_id j) (snapshot j) then None
     else if gatedBy q (snapshot j) \<noteq> None then gatedBy q (snapshot j)
     else if needsLease (headed_for a) \<and> \<not> HoldsLease j then Some NoLease
     else if needsSlot (headed_for a) \<and> j_id j \<notin> sp_held (q_slots q) then Some NoComputeSlot else None)"
  using assms attempt_wf_state [OF a(3)]
  by (auto simp: waitReason_def snapshot_Some [OF a(1)] view_def IsSettled_def isOpen_def headed_for_def sp_holds_def Let_def)

text \<open>C15: The reason shown for a waiting job predicts the next tick. For a job that is not cancelled, on
  consistent pools: when a pause is reported, that pause is in force (the job's own before the
  queue's) and the next tick moves the job nowhere and takes back whatever it holds. When a missing
  lease is reported for an open attempt, the job is at work after the tick exactly when the lease
  pool has one to give (and, if the state it is headed for also needs a compute slot it does not hold,
  the slot pool too), and with no lease to give the tick changes nothing; when a missing slot is
  reported, exactly when the slot pool has one. A job that never ran reports a missing lease, the
  tick only begins its attempt, and the attempt still reports the missing lease. When no reason is
  reported the attempt is settled or the tick leaves it at work.\<close>

theorem wait_reason_sound:
  assumes ok: "lease_ok q j" and slot: "slot_ok q j" and ids: "unat (lp_next (q_leases q)) < 2 ^ 64 - 1"
    and nc: "j_intent j \<noteq> IntentCancel"
  shows "\<exists>q' j'. Advance q j now = (None, q', j')
    \<and> (case waitReason q (j_id j) (snapshot j) of
         None \<Rightarrow> (\<exists>a. currentLocked j = Some a \<and> (\<not> isOpen a \<or> running q' (j_id j) (snapshot j')))
       | Some r \<Rightarrow> \<not> running q (j_id j) (snapshot j) \<and>
           (case r of
              UserPaused \<Rightarrow> j_intent j = IntentPause \<and> q' = drop_all q j \<and> j' = j\<lparr>j_lease := None\<rparr>
            | GlobalPause \<Rightarrow> q_paused q \<and> j_intent j \<noteq> IntentPause \<and> q' = drop_all q j \<and> j' = j\<lparr>j_lease := None\<rparr>
            | NoLease \<Rightarrow> (case currentLocked j of
                  None \<Rightarrow> q' = q \<and> currentLocked j' = Some (newAttempt now) \<and> waitReason q (j_id j) (snapshot j') = Some NoLease
                | Some a \<Rightarrow> isOpen a \<and> \<not> HoldsLease j \<and> (running q' (j_id j) (snapshot j') \<longleftrightarrow>
                    free_lease q \<and> (needsSlot (headed_for a) \<and> j_id j \<notin> sp_held (q_slots q) \<longrightarrow> free_slot q))
                    \<and> (\<not> free_lease q \<longrightarrow> q' = q \<and> j' = j))
            | NoComputeSlot \<Rightarrow> j_id j \<notin> sp_held (q_slots q) \<and> (running q' (j_id j) (snapshot j') \<longleftrightarrow> free_slot q)))"
proof (cases "currentLocked j")
  case None
  let ?j = "j\<lparr>j_attempts := [newAttempt now]\<rparr>"
  have l: "j_lease j = None" using never_run_no_lease [OF _ None] ok by (simp add: lease_ok_def)
  have h: "j_id j \<notin> sp_held (q_slots q)" using slot None by (auto simp: slot_ok_def)
  have b: "BeginAttempt now j = Inr ?j" using None by (simp add: BeginAttempt_Inr)
  have cur: "currentLocked ?j = Some (newAttempt now)" by (simp add: currentLocked_def)
  have "drop_all q j = q" using l h by (simp add: drop_all_def leaseIDs_def release_def)
  moreover have "j\<lparr>j_lease := None\<rparr> = j" using l by simp
  moreover have "waitReason q (j_id j) (snapshot ?j) = Some NoLease" if "gatedBy q (snapshot j) = None"
  proof -
    have w: "attempt_wf (newAttempt now)" "isOpen (newAttempt now)"
      by (simp_all add: newAttempt_def attempt_wf_def AllStates_def isOpen_def)
    have "gatedBy q (snapshot ?j) = None" using that by (simp add: gatedBy_def)
    then show ?thesis using waitReason_open [OF cur w(2,1), of q] w cur l
      by (simp add: running_snapshot holds_snapshot headed_for_def needsLease_def HoldsLease_def)
  qed
  moreover have "Advance q j now = (None, q, if gatedBy q (snapshot j) \<noteq> None then j else ?j)"
    using None nc b by (simp add: Advance_def snapshot_None zeroView_def liftJob_def)
  ultimately show ?thesis using None cur
    by (auto simp: waitReason_def snapshot_None zeroView_def IsSettled_def running_def IsOpen_def gatedBy_def)
next
  case (Some a)
  have wf: "attempt_wf a" using job_wf_current [OF _ Some] ok by (simp add: lease_ok_def)
  obtain q' j' where adv: "Advance q j now = (None, q', j')"
    using Advance_ok [OF ok slot ids] by (metis prod_cases3)
  show ?thesis
  proof (cases "isOpen a")
    case False
    then have "waitReason q (j_id j) (snapshot j) = None"
      using Some by (simp add: waitReason_def snapshot_Some view_def IsSettled_def isOpen_def)
    then show ?thesis using adv Some False by simp
  next
    case o: True
    note w = waitReason_open [OF Some o wf, of q]
    have keep: "running q' (j_id j) (snapshot j')" if "running q (j_id j) (snapshot j)"
      using that adv Advance_open_cases [OF Some o wf nc, of q now] Some wf by (auto simp: running_snapshot split: if_splits)
    show ?thesis
    proof (cases "gatedBy q (snapshot j)")
      case g: None
      then show ?thesis using adv w keep Some o next_tick_runs [OF ok ids Some o nc g adv] next_tick_no_lease [OF ok ids Some o nc g adv]
        by (auto simp: can_obtain_def)
    next
      case g: (Some r)
      have p: "q' = drop_all q j \<and> j' = j\<lparr>j_lease := None\<rparr>" if "\<not> running q (j_id j) (snapshot j)"
        using that adv g Advance_open_cases [OF Some o wf nc, of q now] parkLocked_eq [OF ok] o Some wf
        by (auto simp: running_snapshot split: if_splits)
      show ?thesis using adv w g p keep Some o by (auto simp: gatedBy_def split: if_splits)
    qed
  qed
qed

definition waiting_job :: Job where
  "waiting_job = fetching_job\<lparr>j_lease := None\<rparr>"

definition q_full :: Queue where
  "q_full = q_free\<lparr>q_leases := \<lparr>lp_capacity = 1, lp_next = 1, lp_issued = {1}\<rparr>\<rparr>"

theorem wait_reason_sound_witness:
  "waitReason q_full ''id'' (snapshot waiting_job) = Some NoLease \<and> Advance q_full waiting_job 8 = (None, q_full, waiting_job)
   \<and> waitReason q_fetching ''id'' (snapshot waiting_job) = Some NoLease
   \<and> (\<exists>q' j'. Advance q_fetching waiting_job 8 = (None, q', j') \<and> running q' ''id'' (snapshot j'))
   \<and> waitReason (Pause q_full) ''id'' (snapshot waiting_job) = Some GlobalPause
   \<and> Advance (Pause q_full) waiting_job 8 = (None, drop_all (Pause q_full) waiting_job, waiting_job)"
proof -
  have id: "j_id waiting_job = ''id''" "j_intent waiting_job = IntentRun" "waiting_job\<lparr>j_lease := None\<rparr> = waiting_job" "\<not> HoldsLease waiting_job"
    and cur: "currentLocked waiting_job = Some (newAttempt 1)"
    by (simp_all add: waiting_job_def sched_eval currentLocked_def HoldsLease_def)
  have ok: "lease_ok q_full waiting_job" "lease_ok (Pause q_full) waiting_job" "lease_ok q_fetching waiting_job"
    using job_wf_dropLease lease_ok_fetching
    by (simp_all add: waiting_job_def lease_ok_def leaseIDs_def q_full_def Pause_def q_free_def NewQueue_def newSlotPool_def fresh_ids_def q_fetching_def)
  have sl: "slot_ok q_full waiting_job" "slot_ok (Pause q_full) waiting_job"
    by (simp_all add: slot_ok_def q_full_def Pause_def q_free_def NewQueue_def newSlotPool_def)
  have ids: "unat (lp_next (q_leases q)) < 2 ^ 64 - 1" if "q \<in> {q_full, Pause q_full, q_fetching}" for q
    using that by (auto simp: q_full_def Pause_def q_fetching_def)
  have fr: "free_lease q_fetching" "\<not> free_lease q_full"
    by (simp_all add: free_lease_def q_fetching_def q_full_def lp_outstanding_def)
  have w: "waitReason q ''id'' (snapshot waiting_job) = (if q_paused q then Some GlobalPause else Some NoLease)" for q
    by (simp add: waitReason_def snapshot_Some [OF cur] view_def newAttempt_def IsSettled_def running_def holds_def needsLease_def gatedBy_def id)
  have p: "\<not> q_paused q_full" "\<not> q_paused q_fetching" "q_paused (Pause q_full)"
    by (simp_all add: q_full_def q_fetching_def Pause_def q_free_def NewQueue_def)
  have full: "Advance q_full waiting_job 8 = (None, q_full, waiting_job)"
    using wait_reason_sound [OF ok(1) sl(1) ids, of 8] fr p by (auto simp: w id cur)
  have paused: "Advance (Pause q_full) waiting_job 8 = (None, drop_all (Pause q_full) waiting_job, waiting_job)"
    using wait_reason_sound [OF ok(2) sl(2) ids, of 8] fr p by (auto simp: w id cur)
  have "\<exists>q' j'. Advance q_fetching waiting_job 8 = (None, q', j') \<and> running q' ''id'' (snapshot j')"
    using wait_reason_sound [OF ok(3) slot_ok_idle(1) ids, of 8] fr p
    by (auto simp: w id cur headed_for_def newAttempt_def needsSlot_def)
  then show ?thesis using full paused w p by simp
qed

end
