(* ===== verification/Status.thy ===== *)
theory Status
  imports Scheduler
begin

text \<open>
  The vocabulary the program speaks to the outside: post-processing levels and the policy they
  stand for (job/policy.go, job/pp.go), and the one-way translation of a rendered job into the
  status strings of the SABnzbd interface (job/sabnzbd.go, constants/status.go,
  \<open>Row.Status\<close> of dispatch/status.go).
\<close>

section \<open>Post-processing levels\<close>

definition PolicyFromPP :: "int \<Rightarrow> Policy" where
  "PolicyFromPP pp = \<lparr>pol_Verify = (pp \<ge> 1), pol_Repair = (pp \<ge> 1), pol_Unpack = (pp \<ge> 2), pol_Delete = (pp \<ge> 3)\<rparr>"

definition maxPP :: int where
  "maxPP = 3"

datatype PP = PP (pp_level: "8 word")

definition ClampPP :: "int \<Rightarrow> PP" where
  "ClampPP n = (if n < 0 then PP 0 else if n > maxPP then PP (word_of_int maxPP) else PP (word_of_int n))"

definition PP_Int :: "PP \<Rightarrow> int" where
  "PP_Int p = uint (pp_level p)"

definition PP_Policy :: "PP \<Rightarrow> Policy" where
  "PP_Policy p = PolicyFromPP (PP_Int p)"

section \<open>Status strings\<close>

datatype Status =
    StatusIdle | StatusQueued | StatusGrabbing | StatusFetching | StatusDownloading | StatusPaused
  | StatusPropagating | StatusChecking | StatusQuickCheck | StatusVerifying | StatusRepairing
  | StatusExtracting | StatusMoving | StatusRunning | StatusCompleted | StatusFailed | StatusDeleted

fun status_string :: "Status \<Rightarrow> string" where
  "status_string StatusIdle = ''Idle''"
| "status_string StatusQueued = ''Queued''"
| "status_string StatusGrabbing = ''Grabbing''"
| "status_string StatusFetching = ''Fetching''"
| "status_string StatusDownloading = ''Downloading''"
| "status_string StatusPaused = ''Paused''"
| "status_string StatusPropagating = ''Propagating''"
| "status_string StatusChecking = ''Checking''"
| "status_string StatusQuickCheck = ''QuickCheck''"
| "status_string StatusVerifying = ''Verifying''"
| "status_string StatusRepairing = ''Repairing''"
| "status_string StatusExtracting = ''Extracting''"
| "status_string StatusMoving = ''Moving''"
| "status_string StatusRunning = ''Running''"
| "status_string StatusCompleted = ''Completed''"
| "status_string StatusFailed = ''Failed''"
| "status_string StatusDeleted = ''Deleted''"

fun finishedStatus :: "Outcome \<Rightarrow> Status" where
  "finishedStatus OutcomeOK = StatusCompleted"
| "finishedStatus OutcomeCancelled = StatusDeleted"
| "finishedStatus _ = StatusFailed"

definition ToSABnzbd :: "RenderView \<Rightarrow> Status" where
  "ToSABnzbd v =
     (if IsSettled (sv_Outcome (rv_State v)) then finishedStatus (sv_Outcome (rv_State v))
      else if \<not> rv_Running v then (if IsPause (rv_Reason v) then StatusPaused else StatusQueued)
      else case sv_State (rv_State v) of
        Fetching \<Rightarrow> if sv_Assessed (rv_State v) then StatusFetching else StatusDownloading
      | Assessing \<Rightarrow> if sv_Activity (rv_State v) = ActCRCCheck then StatusQuickCheck else StatusVerifying
      | Repairing \<Rightarrow> StatusRepairing
      | Extracting \<Rightarrow> StatusExtracting
      | Finalizing \<Rightarrow> if sv_Activity (rv_State v) = ActScript then StatusRunning else StatusMoving
      | _ \<Rightarrow> StatusQueued)"

text \<open>\<open>Row.Status\<close> for a job rendered by the queue.\<close>

definition Row_Status :: "Queue \<Rightarrow> Job \<Rightarrow> Status" where
  "Row_Status q j = ToSABnzbd (Render q j)"

section \<open>Properties\<close>

lemma uint_small: "0 \<le> n \<Longrightarrow> n \<le> 3 \<Longrightarrow> uint (word_of_int n :: 8 word) = n"
  by (simp add: uint_word_of_int)

text \<open>Clamping a post-processing level never changes what it permits: for every integer a client
  may send, the policy of the clamped level is the policy of the level itself, the clamped level
  is between 0 and 3, and the permissions only grow with the level.\<close>

theorem clamped_level_same_policy:
  "PP_Policy (ClampPP n) = PolicyFromPP n \<and> 0 \<le> PP_Int (ClampPP n) \<and> PP_Int (ClampPP n) \<le> 3
   \<and> (pol_Delete (PolicyFromPP n) \<le> pol_Unpack (PolicyFromPP n))
   \<and> (pol_Unpack (PolicyFromPP n) \<le> pol_Repair (PolicyFromPP n))
   \<and> pol_Repair (PolicyFromPP n) = pol_Verify (PolicyFromPP n)"
proof -
  have "PP_Int (ClampPP n) = (if n < 0 then 0 else if n > 3 then 3 else n)"
    using uint_small [of n] uint_small [of 3] by (simp add: PP_Int_def ClampPP_def maxPP_def)
  then show ?thesis by (auto simp: PP_Policy_def PolicyFromPP_def le_bool_def)
qed

lemma render_simps [simp]:
  "rv_State (Render q j) = sn_State (snapshot j)" "rv_Running (Render q j) = running q (j_id j) (snapshot j)"
  "rv_Reason (Render q j) = (case waitReason q (j_id j) (snapshot j) of None \<Rightarrow> NoLease | Some r \<Rightarrow> r)"
  by (simp_all add: Render_def renderLocked_def Let_def)

lemma waiting_pause:
  assumes "\<not> running q i s" and "\<not> IsSettled (sv_Outcome (sn_State s))"
  shows "IsPause (case waitReason q i s of None \<Rightarrow> NoLease | Some r \<Rightarrow> r) \<longleftrightarrow> gatedBy q s \<noteq> None"
  using assms by (auto simp: waitReason_def gatedBy_def IsPause_def Let_def)

lemma status_open:
  assumes "job_wf j" and "currentLocked j = Some a" and "isOpen a"
  shows "Row_Status q j =
    (if running q (j_id j) (snapshot j)
     then (case at_state a of
             Fetching \<Rightarrow> if at_assessed a then StatusFetching else StatusDownloading
           | Assessing \<Rightarrow> if at_activity a = ActCRCCheck then StatusQuickCheck else StatusVerifying
           | Repairing \<Rightarrow> StatusRepairing | Extracting \<Rightarrow> StatusExtracting
           | _ \<Rightarrow> if at_activity a = ActScript then StatusRunning else StatusMoving)
     else if gatedBy q (snapshot j) \<noteq> None then StatusPaused else StatusQueued)"
proof -
  have wf: "attempt_wf a" by (rule job_wf_current [OF assms(1,2)])
  have o: "\<not> IsSettled (sv_Outcome (sn_State (snapshot j)))"
    using assms by (simp add: snapshot_Some view_def IsSettled_def isOpen_def)
  show ?thesis
  proof (cases "running q (j_id j) (snapshot j)")
    case True
    then show ?thesis using wf assms o
      by (auto simp: Row_Status_def ToSABnzbd_def snapshot_Some view_def attempt_wf_def AllStates_def IsSettled_def
          split: State.splits)
  next
    case False
    then show ?thesis using o waiting_pause [OF False o] by (simp add: Row_Status_def ToSABnzbd_def)
  qed
qed

text \<open>C18: The status shown for a well-formed job says what the job is doing, each status for one situation only.
  An open job that is running shows the state it works in: Downloading is fetching before the first
  assessment and Fetching after it, QuickCheck is assessing by checksums and Verifying any other
  assessing, Repairing and Extracting are those states, Running is finalizing in the user's script
  and Moving any other finalizing. A job shown so holds the lease or the slot the state needs. An open
  job that is not running shows Paused exactly when a pause gates it, and Queued otherwise, as does a
  job that never ran. A settled job shows Completed exactly when its outcome is OK, Deleted exactly
  when it was cancelled, and Failed for every other outcome. Four statuses are never shown.\<close>

theorem status_faithful:
  assumes "job_wf j"
  shows "Row_Status q j \<notin> {StatusIdle, StatusGrabbing, StatusPropagating, StatusChecking}
    \<and> (case currentLocked j of
         None \<Rightarrow> Row_Status q j = (if gatedBy q (snapshot j) \<noteq> None then StatusPaused else StatusQueued)
       | Some a \<Rightarrow>
           if isOpen a
           then (let r = running q (j_id j) (snapshot j) in
                (Row_Status q j = StatusPaused \<longleftrightarrow> \<not> r \<and> gatedBy q (snapshot j) \<noteq> None)
              \<and> (Row_Status q j = StatusQueued \<longleftrightarrow> \<not> r \<and> gatedBy q (snapshot j) = None)
              \<and> (Row_Status q j = StatusDownloading \<longleftrightarrow> r \<and> at_state a = Fetching \<and> \<not> at_assessed a)
              \<and> (Row_Status q j = StatusFetching \<longleftrightarrow> r \<and> at_state a = Fetching \<and> at_assessed a)
              \<and> (Row_Status q j = StatusQuickCheck \<longleftrightarrow> r \<and> at_state a = Assessing \<and> at_activity a = ActCRCCheck)
              \<and> (Row_Status q j = StatusVerifying \<longleftrightarrow> r \<and> at_state a = Assessing \<and> at_activity a \<noteq> ActCRCCheck)
              \<and> (Row_Status q j = StatusRepairing \<longleftrightarrow> r \<and> at_state a = Repairing)
              \<and> (Row_Status q j = StatusExtracting \<longleftrightarrow> r \<and> at_state a = Extracting)
              \<and> (Row_Status q j = StatusRunning \<longleftrightarrow> r \<and> at_state a = Finalizing \<and> at_activity a = ActScript)
              \<and> (Row_Status q j = StatusMoving \<longleftrightarrow> r \<and> at_state a = Finalizing \<and> at_activity a \<noteq> ActScript)
              \<and> (Row_Status q j \<in> {StatusDownloading, StatusFetching, StatusQuickCheck, StatusVerifying, StatusRepairing} \<longrightarrow> j_lease j \<noteq> None)
              \<and> (Row_Status q j \<in> {StatusQuickCheck, StatusVerifying, StatusRepairing, StatusExtracting, StatusRunning, StatusMoving}
                   \<longrightarrow> j_id j \<in> sp_held (q_slots q))
              \<and> Row_Status q j \<notin> {StatusCompleted, StatusFailed, StatusDeleted})
           else Row_Status q j \<in> {StatusCompleted, StatusFailed, StatusDeleted}
              \<and> (Row_Status q j = StatusCompleted \<longleftrightarrow> at_outcome a = OutcomeOK)
              \<and> (Row_Status q j = StatusDeleted \<longleftrightarrow> at_outcome a = OutcomeCancelled)
              \<and> (Row_Status q j = StatusFailed \<longleftrightarrow> at_outcome a \<noteq> OutcomeOK \<and> at_outcome a \<noteq> OutcomeCancelled))"
proof (cases "currentLocked j")
  case None
  have "\<not> running q (j_id j) (snapshot j)" "\<not> IsSettled (sv_Outcome (sn_State (snapshot j)))"
    using None by (simp_all add: running_def IsOpen_def snapshot_None zeroView_def IsSettled_def)
  then show ?thesis using None waiting_pause [of q "j_id j" "snapshot j"]
    by (auto simp: Row_Status_def ToSABnzbd_def)
next
  case (Some a)
  have wf: "attempt_wf a" by (rule job_wf_current [OF assms Some])
  show ?thesis
  proof (cases "isOpen a")
    case True
    have st: "at_state a \<in> {Fetching, Assessing, Repairing, Extracting, Finalizing}"
      using wf by (auto simp: attempt_wf_def AllStates_def)
    have h: "running q (j_id j) (snapshot j) \<Longrightarrow>
        (needsLease (at_state a) \<longrightarrow> j_lease j \<noteq> None) \<and> (needsSlot (at_state a) \<longrightarrow> j_id j \<in> sp_held (q_slots q))"
      using Some wf by (simp add: running_snapshot holds_snapshot HoldsLease_def)
    note table = status_open [OF assms Some True, of q]
    show ?thesis
    proof (cases "running q (j_id j) (snapshot j)")
      case r: True
      show ?thesis using st h [OF r] Some True unfolding table
        by (cases "at_state a"; simp add: r needsLease_def needsSlot_def)
    next
      case False
      then show ?thesis using Some True by (simp add: table)
    qed
  next
    case False
    then have "Row_Status q j = finishedStatus (at_outcome a)" using Some
      by (simp add: Row_Status_def ToSABnzbd_def snapshot_Some view_def IsSettled_def isOpen_def)
    then show ?thesis using Some False by (cases "at_outcome a") (auto simp: isOpen_def)
  qed
qed

theorem status_faithful_witness:
  "Row_Status q_fetching fetching_job = StatusDownloading"
proof -
  have "job_wf fetching_job" using lease_ok_fetching by (simp add: lease_ok_def)
  from status_faithful [OF this, of q_fetching] show ?thesis
    by (simp add: fetching_job_def currentLocked_def New_def newAttempt_def isOpen_def running_def holds_def
        snapshot_def IsOpen_def view_def IsSettled_def needsSlot_def)
qed

end
