(* ===== verification/Dispatch.thy ===== *)
theory Dispatch
  imports Restore Status "HOL-Library.Product_Lexorder" "HOL-Library.List_Lexorder" "HOL-Library.Char_ord"
    "HOL-Library.Finite_Map"
begin

text \<open>
  The dispatcher of \<^verbatim>\<open>internal/dispatch\<close>: the registry of jobs and their headers (registry.go),
  the doors a worker reports through (worker.go), the claim of a job by a worker
  (keyedlatch/latch.go), occupancy (occupy.go), residency and persistence as the tick drives
  them (tick.go), and the doors a client reaches (dispatch.go). The store, the residency and the
  runner are interfaces whose implementations live elsewhere, so what they answer is an
  argument of the operations that call them.
\<close>

section \<open>Headers, entries and stored rows\<close>

text \<open>A priority is an \<open>int8\<close>; the declared ones are constants.\<close>

type_synonym Priority = int

definition RepairPriority :: Priority where "RepairPriority = 3"
definition ForcePriority :: Priority where "ForcePriority = 2"
definition HighPriority :: Priority where "HighPriority = 1"
definition NormalPriority :: Priority where "NormalPriority = 0"
definition LowPriority :: Priority where "LowPriority = - 1"

definition IsConcrete :: "Priority \<Rightarrow> bool" where
  "IsConcrete p \<longleftrightarrow> p \<in> {RepairPriority, ForcePriority, HighPriority, NormalPriority, LowPriority}"

datatype UnwantedState = StateNone | StateBlocked | StateApproved | StateFailOwed

record Header =
  h_Name :: string
  h_Filename :: string
  h_Category :: string
  h_Priority :: Priority
  h_Bytes :: int
  h_IngestAnomaly :: string
  h_FailReason :: string
  h_DuplicateReason :: string
  h_OperationalError :: string
  h_Unwanted :: UnwantedState
  h_Script :: string
  h_Password :: string
  h_PP :: PP
  h_NZBBackup :: string
  h_URL :: string
  h_MD5 :: string
  h_Added :: int

text \<open>
  \<open>e_inst\<close> is the identity of the job instance: the doors that take a \<open>*job.Job\<close> act only while
  that very instance is the one registered.
\<close>

record entry =
  e_inst :: nat
  e_j :: Job
  e_h :: Header
  e_seq :: int

record Persisted =
  p_ID :: string
  p_SortKey :: int
  p_Header :: Header
  p_Policy :: Policy
  p_State :: StateView
  p_Intent :: Intent
  p_DownloadStarted :: int
  p_DownloadFinished :: int
  p_Par2ReleaseReason :: string

section \<open>Errors\<close>

datatype DispError =
    ErrNotFound | ErrNotRestored | ErrInvalidJobName | ErrJobNameTaken | ErrUnwantedBlocked
  | ErrJobStarted | ErrStaleReport | ErrStopped | ErrAlreadyRegistered | ErrPreemptedByRemoval
  | ErrAlreadyRestored | ErrRestoreInProgress | ErrPriority | ErrReservedOutcome | ErrStore | ErrHydrate | ErrNotAVerdict
  | QErr SchedError | JErr JobError | DJoined DispError DispError

section \<open>The latch of a worker's claim\<close>

type_synonym Latch = "string set"

definition TryClaim :: "string \<Rightarrow> Latch \<Rightarrow> bool \<times> Latch" where
  "TryClaim k l = (if k \<in> l then (False, l) else (True, insert k l))"

definition Release :: "string \<Rightarrow> Latch \<Rightarrow> Latch" where
  "Release k l = l - {k}"

definition Held :: "string \<Rightarrow> Latch \<Rightarrow> bool" where
  "Held k l \<longleftrightarrow> k \<in> l"

section \<open>The dispatcher\<close>

datatype restorePhase = phaseUnrestored | phaseRestoring | phaseRestored

record Dispatcher =
  d_byID :: "(string, entry) fmap"
  d_order :: "string list"
  d_resident :: "string set"
  d_launched :: Latch
  d_written :: "string \<Rightarrow> Persisted option"
  d_removing :: "string \<Rightarrow> nat"
  d_reservedNames :: "string \<Rightarrow> string option"
  d_occupiers :: "string \<Rightarrow> int"
  d_occupancyTokens :: "string \<Rightarrow> nat set"
  d_nextSeq :: int
  d_phase :: restorePhase
  d_stopped :: bool
  d_q :: Queue

definition NewDispatcher :: "int \<Rightarrow> int \<Rightarrow> Dispatcher" where
  "NewDispatcher leaseCap slotCap =
     \<lparr>d_byID = fmempty, d_order = [], d_resident = {}, d_launched = {}, d_written = Map.empty,
      d_removing = (\<lambda>_. 0), d_reservedNames = Map.empty, d_occupiers = (\<lambda>_. 0),
      d_occupancyTokens = (\<lambda>_. {}), d_nextSeq = 0,
      d_phase = phaseUnrestored, d_stopped = False, d_q = NewQueue leaseCap slotCap\<rparr>"

definition lookupFor :: "string \<Rightarrow> nat option \<Rightarrow> Dispatcher \<Rightarrow> entry option" where
  "lookupFor i expected d =
     (case fmlookup (d_byID d) i of
        None \<Rightarrow> None
      | Some e \<Rightarrow> if expected \<noteq> None \<and> expected \<noteq> Some (e_inst e) then None else Some e)"

definition admitsLocked :: "string \<Rightarrow> Dispatcher \<Rightarrow> bool" where
  "admitsLocked i d \<longleftrightarrow> fmlookup (d_byID d) i \<noteq> None \<and> d_removing d i = 0"

definition putEntry :: "string \<Rightarrow> entry \<Rightarrow> Dispatcher \<Rightarrow> Dispatcher" where
  "putEntry i e d = d\<lparr>d_byID := fmupd i e (d_byID d)\<rparr>"

text \<open>A door of the queue, called with the job of an entry.\<close>

definition queueCall ::
  "string \<Rightarrow> entry \<Rightarrow> (Queue \<Rightarrow> Job \<Rightarrow> QResult) \<Rightarrow> Dispatcher \<Rightarrow> SchedError option \<times> Dispatcher" where
  "queueCall i e f d =
     (let (err, q', j') = f (d_q d) (e_j e) in (err, putEntry i (e\<lparr>e_j := j'\<rparr>) (d\<lparr>d_q := q'\<rparr>)))"

section \<open>Names\<close>

definition nameHolderLocked :: "string \<Rightarrow> string \<Rightarrow> Dispatcher \<Rightarrow> bool" where
  "nameHolderLocked i n d \<longleftrightarrow>
     \<not> fmpred (\<lambda>otherID other. otherID = i \<or> h_Name (e_h other) \<noteq> n) (d_byID d)
   \<or> (case d_reservedNames d n of None \<Rightarrow> False | Some holder \<Rightarrow> holder \<noteq> i)"

definition badName :: "string \<Rightarrow> bool" where
  "badName n \<longleftrightarrow> n = [] \<or> n = ''.'' \<or> n = ''..'' \<or> (\<exists>c \<in> set n. c \<in> {CHR ''/'', CHR 0x5C, CHR 0x00})"

definition admitNameLocked :: "string \<Rightarrow> string \<Rightarrow> Dispatcher \<Rightarrow> DispError option" where
  "admitNameLocked i n d =
     (if badName n then Some ErrInvalidJobName
      else if nameHolderLocked i n d then Some ErrJobNameTaken else None)"

definition ReserveName :: "string \<Rightarrow> string \<Rightarrow> Dispatcher \<Rightarrow> (DispError, Dispatcher) result" where
  "ReserveName i n d =
     (case admitNameLocked i n d of
        Some e \<Rightarrow> Inl e
      | None \<Rightarrow> if d_reservedNames d n \<noteq> None then Inl ErrJobNameTaken
               else Inr (d\<lparr>d_reservedNames := (d_reservedNames d)(n \<mapsto> i)\<rparr>))"

definition releaseName :: "string \<Rightarrow> string \<Rightarrow> Dispatcher \<Rightarrow> Dispatcher" where
  "releaseName i n d =
     (if d_reservedNames d n = Some i then d\<lparr>d_reservedNames := (d_reservedNames d)(n := None)\<rparr> else d)"

section \<open>Registration and order\<close>

definition seqNext :: int where
  "seqNext = - 1"

definition advanceSeqLocked :: "int \<Rightarrow> Dispatcher \<Rightarrow> Dispatcher" where
  "advanceSeqLocked sq d = d\<lparr>d_nextSeq := max (d_nextSeq d) (sq + 1)\<rparr>"

definition checkPriority :: "Priority \<Rightarrow> DispError option" where
  "checkPriority p = (if \<not> IsConcrete p then Some ErrPriority else None)"

definition register :: "nat \<Rightarrow> Job \<Rightarrow> Header \<Rightarrow> int \<Rightarrow> Dispatcher \<Rightarrow> (DispError, Dispatcher) result" where
  "register inst j h sq d =
     (case checkPriority (h_Priority h) of Some e \<Rightarrow> Inl e | None \<Rightarrow>
      if fmlookup (d_byID d) (j_id j) \<noteq> None then Inl ErrAlreadyRegistered
      else if d_removing d (j_id j) > 0 then Inl ErrPreemptedByRemoval
      else
        (let h1 = h\<lparr>h_Name := j_name j\<rparr> in
         case admitNameLocked (j_id j) (h_Name h1) d of Some e \<Rightarrow> Inl e | None \<Rightarrow>
         (let sq1 = (if sq = seqNext then d_nextSeq d else sq) in
          Inr (advanceSeqLocked sq1
                 (d\<lparr>d_byID := fmupd (j_id j) \<lparr>e_inst = inst, e_j = j, e_h = h1, e_seq = sq1\<rparr> (d_byID d),
                    d_order := d_order d @ [j_id j]\<rparr>)))))"

definition sortKeyOf :: "string \<Rightarrow> Dispatcher \<Rightarrow> int" where
  "sortKeyOf i d = (case fmlookup (d_byID d) i of None \<Rightarrow> - 1 | Some e \<Rightarrow> e_seq e)"

definition entryFor :: "string \<Rightarrow> Dispatcher \<Rightarrow> (Header \<times> int \<times> Snapshot) option" where
  "entryFor i d = (case fmlookup (d_byID d) i of None \<Rightarrow> None | Some e \<Rightarrow> Some (e_h e, e_seq e, snapshot (e_j e)))"

text \<open>An id of the order that is not registered is a nil dereference: the result is \<open>None\<close>.\<close>

definition dispatchOrderLocked :: "Dispatcher \<Rightarrow> entry list option" where
  "dispatchOrderLocked d =
     (case those (map (fmlookup (d_byID d)) (d_order d)) of
        None \<Rightarrow> None
      | Some es \<Rightarrow>
          (let rs = zip es [0..<length es]
           in Some (map fst (sort_key (\<lambda>(e, pos). (- h_Priority (e_h e), pos)) rs))))"

definition snapshotOrder :: "Dispatcher \<Rightarrow> entry list option" where
  "snapshotOrder d =
     map_option (filter (\<lambda>e. d_written d (j_id (e_j e)) \<noteq> None)) (dispatchOrderLocked d)"

definition Len :: "Dispatcher \<Rightarrow> nat" where
  "Len d = length (d_order d)"

section \<open>Removal\<close>

definition beginRemovalLocked :: "string \<Rightarrow> Dispatcher \<Rightarrow> Dispatcher" where
  "beginRemovalLocked i d = d\<lparr>d_removing := (d_removing d)(i := d_removing d i + 1)\<rparr>"

definition beginRemovalFor :: "string \<Rightarrow> nat option \<Rightarrow> Dispatcher \<Rightarrow> Dispatcher option" where
  "beginRemovalFor i expected d =
     (case lookupFor i expected d of None \<Rightarrow> None | Some _ \<Rightarrow> Some (beginRemovalLocked i d))"

datatype IdleRemoval = NotRegistered | StillLive | Begun Dispatcher

definition beginRemovalIfIdle :: "string \<Rightarrow> Dispatcher \<Rightarrow> IdleRemoval" where
  "beginRemovalIfIdle i d =
     (if fmlookup (d_byID d) i = None then NotRegistered
      else if d_occupancyTokens d i \<noteq> {} \<or> Held i (d_launched d) then StillLive
      else Begun (beginRemovalLocked i d))"

definition abortRemoval :: "string \<Rightarrow> Dispatcher \<Rightarrow> Dispatcher" where
  "abortRemoval i d = d\<lparr>d_removing := (d_removing d)(i := d_removing d i - 1)\<rparr>"

definition clearLaunched :: "string \<Rightarrow> Dispatcher \<Rightarrow> Dispatcher" where
  "clearLaunched i d = d\<lparr>d_launched := Release i (d_launched d)\<rparr>"

definition deregister :: "string \<Rightarrow> Dispatcher \<Rightarrow> Dispatcher" where
  "deregister i d =
     clearLaunched i
       (d\<lparr>d_byID := fmdrop i (d_byID d), d_written := (d_written d)(i := None),
          d_resident := d_resident d - {i}, d_removing := (d_removing d)(i := d_removing d i - 1),
          d_occupiers := (d_occupiers d)(i := 0), d_occupancyTokens := (d_occupancyTokens d)(i := {}),
          d_order := remove1 i (d_order d)\<rparr>)"

section \<open>Occupancy\<close>

text \<open>
  \<open>Occupy\<close> brackets a callback: the entry half before it, the exit half after it. The channels
  that wake waiters carry no state of their own; a wait is over when its condition holds.
\<close>

definition occupyEnter ::
  "string \<Rightarrow> nat option \<Rightarrow> nat \<Rightarrow> Dispatcher \<Rightarrow> (DispError, Dispatcher) result" where
  "occupyEnter i expected tok d =
     (if \<not> admitsLocked i d \<or> lookupFor i expected d = None then Inl ErrNotFound
      else Inr (d\<lparr>d_occupancyTokens := (d_occupancyTokens d)(i := insert tok (d_occupancyTokens d i)),
                  d_occupiers := (d_occupiers d)(i := d_occupiers d i + 1)\<rparr>))"

definition occupyExit :: "string \<Rightarrow> nat \<Rightarrow> Dispatcher \<Rightarrow> Dispatcher" where
  "occupyExit i tok d =
     d\<lparr>d_occupancyTokens := (d_occupancyTokens d)(i := d_occupancyTokens d i - {tok}),
       d_occupiers := (d_occupiers d)(i := max 0 (d_occupiers d i - 1))\<rparr>"

definition IsOccupied :: "string \<Rightarrow> Dispatcher \<Rightarrow> bool" where
  "IsOccupied i d \<longleftrightarrow> d_occupiers d i > 0"

definition liveDrained :: "string \<Rightarrow> Dispatcher \<Rightarrow> bool" where
  "liveDrained i d \<longleftrightarrow> d_occupiers d i \<le> 0"

definition liveDrainedExcept :: "string \<Rightarrow> nat \<Rightarrow> Dispatcher \<Rightarrow> bool" where
  "liveDrainedExcept i tok d =
     (if tok \<notin> d_occupancyTokens d i then liveDrained i d else card (d_occupancyTokens d i) \<le> 1)"

section \<open>Persistence and residency\<close>

definition lastWritten :: "string \<Rightarrow> Dispatcher \<Rightarrow> Persisted option" where
  "lastWritten i d = d_written d i"

definition markWritten :: "Persisted \<Rightarrow> Dispatcher \<Rightarrow> Dispatcher" where
  "markWritten p d =
     (if fmlookup (d_byID d) (p_ID p) = None then d
      else d\<lparr>d_written := (d_written d)(p_ID p \<mapsto> p)\<rparr>)"

text \<open>
  The times and the release reason a row carries come from the content half of the job; they are
  arguments here, as \<open>ds\<close>, \<open>df\<close> (0 for an unset time) and \<open>reason\<close>.
\<close>

definition persistedRow :: "entry \<Rightarrow> int \<Rightarrow> int \<Rightarrow> string \<Rightarrow> Persisted" where
  "persistedRow e ds df reason =
     (let s = snapshot (e_j e) in
      \<lparr>p_ID = j_id (e_j e), p_SortKey = e_seq e, p_Header = e_h e, p_Policy = j_policy (e_j e),
       p_State = sn_State s, p_Intent = sn_Intent s, p_DownloadStarted = ds,
       p_DownloadFinished =
         (if sv_State (sn_State s) \<noteq> Fetching \<or> sv_Next (sn_State s) \<noteq> StateUnset then df else 0),
       p_Par2ReleaseReason = reason\<rparr>)"

definition persistIfChanged ::
  "bool \<Rightarrow> int \<Rightarrow> int \<Rightarrow> string \<Rightarrow> string \<Rightarrow> Dispatcher \<Rightarrow> DispError option \<times> Dispatcher" where
  "persistIfChanged saveOK ds df reason i d =
     (case fmlookup (d_byID d) i of
        None \<Rightarrow> (None, d)
      | Some e \<Rightarrow>
          (let p = persistedRow e ds df reason in
           if lastWritten i d = Some p then (None, d)
           else if \<not> admitsLocked i d then (None, d)
           else if \<not> saveOK then (Some ErrStore, d)
           else (None, markWritten p d)))"

definition isResident :: "string \<Rightarrow> Dispatcher \<Rightarrow> bool" where
  "isResident i d \<longleftrightarrow> i \<in> d_resident d"

definition markResident :: "string \<Rightarrow> Dispatcher \<Rightarrow> Dispatcher" where
  "markResident i d =
     (if fmlookup (d_byID d) i = None then d else d\<lparr>d_resident := insert i (d_resident d)\<rparr>)"

definition markNotResident :: "string \<Rightarrow> Dispatcher \<Rightarrow> Dispatcher" where
  "markNotResident i d = d\<lparr>d_resident := d_resident d - {i}\<rparr>"

text \<open>What \<open>Hydrate\<close> can answer; the last three are its errors.\<close>

datatype HydrateResult = HydrateOK | HydrateCanceled | HydrateFault | HydrateFailed

definition reconcileResidency ::
  "HydrateResult \<Rightarrow> string \<Rightarrow> entry \<Rightarrow> Time \<Rightarrow> Dispatcher \<Rightarrow> DispError option \<times> Dispatcher" where
  "reconcileResidency hr i e now d =
     (let v = Render (d_q d) (e_j e) in
      if rv_Holds v \<and> rv_Intent v \<noteq> IntentPause \<and> \<not> isResident i d
      then (case hr of
              HydrateOK \<Rightarrow> (None, markResident i d)
            | HydrateCanceled \<Rightarrow> (Some ErrHydrate, d)
            | HydrateFault \<Rightarrow> (Some ErrHydrate, d)
            | HydrateFailed \<Rightarrow>
                (case queueCall i e (\<lambda>q j. Settle q j OutcomeFailed now) d of
                   (Some se, d1) \<Rightarrow> (Some (DJoined ErrHydrate (QErr se)), d1)
                 | (None, d1) \<Rightarrow> (Some ErrHydrate, markNotResident i d1)))
      else if \<not> rv_Holds v \<and> rv_Intent v \<noteq> IntentPause \<and> isResident i d
      then (None, markNotResident i d)
      else (None, d))"

section \<open>Reports of a worker\<close>

definition liftQ :: "SchedError option \<times> Dispatcher \<Rightarrow> DispError option \<times> Dispatcher" where
  "liftQ r = (case r of (None, d) \<Rightarrow> (None, d) | (Some e, d) \<Rightarrow> (Some (QErr e), d))"

text \<open>\<open>SettleFailed\<close>, called with the job of a registered entry.\<close>

definition SettleFailed :: "string \<Rightarrow> entry \<Rightarrow> Time \<Rightarrow> Dispatcher \<Rightarrow> DispError option \<times> Dispatcher" where
  "SettleFailed i e now d = liftQ (queueCall i e (\<lambda>q j. Settle q j OutcomeFailed now) d)"

definition finishedFor ::
  "string \<Rightarrow> nat option \<Rightarrow> Outcome \<Rightarrow> Time \<Rightarrow> Dispatcher \<Rightarrow> DispError option \<times> Dispatcher" where
  "finishedFor i expected o' now d =
     (case lookupFor i expected d of
        None \<Rightarrow> (Some ErrNotFound, d)
      | Some e \<Rightarrow>
          if o' = OutcomeCancelled then (Some ErrReservedOutcome, clearLaunched i d)
          else (case liftQ (queueCall i e (\<lambda>q j. Settle q j o' now) d) of
                  (err, d1) \<Rightarrow> (err, clearLaunched i d1)))"

definition YieldedFor :: "string \<Rightarrow> nat option \<Rightarrow> Dispatcher \<Rightarrow> DispError option \<times> Dispatcher" where
  "YieldedFor i expected d =
     (case lookupFor i expected d of
        None \<Rightarrow> (Some ErrNotFound, d)
      | Some e \<Rightarrow> (case liftQ (queueCall i e Park d) of (err, d1) \<Rightarrow> (err, clearLaunched i d1)))"

definition handoff ::
  "string \<Rightarrow> nat \<Rightarrow> State \<Rightarrow> State \<Rightarrow> Time \<Rightarrow> Dispatcher \<Rightarrow> DispError option \<times> Dispatcher" where
  "handoff i inst from nxt now d =
     (case lookupFor i (Some inst) d of
        None \<Rightarrow> (Some ErrNotFound, d)
      | Some e \<Rightarrow>
          (case Handoff (d_q d) (e_j e) from nxt now of
             (False, _) \<Rightarrow> (Some ErrStaleReport, d)
           | (True, err, q', j') \<Rightarrow>
               (map_option QErr err,
                clearLaunched i (putEntry i (e\<lparr>e_j := j'\<rparr>) (d\<lparr>d_q := q'\<rparr>)))))"

definition AdvanceFrom ::
  "string \<Rightarrow> nat \<Rightarrow> State \<Rightarrow> State \<Rightarrow> Time \<Rightarrow> Dispatcher \<Rightarrow> DispError option \<times> Dispatcher" where
  "AdvanceFrom i inst from nxt now d =
     (if nxt = StateUnset then (Some ErrNotAVerdict, d) else handoff i inst from nxt now d)"

definition YieldedFrom ::
  "string \<Rightarrow> nat \<Rightarrow> State \<Rightarrow> Time \<Rightarrow> Dispatcher \<Rightarrow> DispError option \<times> Dispatcher" where
  "YieldedFrom i inst from now d = handoff i inst from StateUnset now d"

section \<open>Launching\<close>

definition parkGrant :: "string \<Rightarrow> entry \<Rightarrow> Dispatcher \<Rightarrow> Dispatcher" where
  "parkGrant i e d = snd (queueCall i e Park d)"

definition parkUnlaunched :: "string \<Rightarrow> entry \<Rightarrow> Dispatcher \<Rightarrow> Dispatcher" where
  "parkUnlaunched i e d = (if \<not> Held i (d_launched d) then parkGrant i e d else d)"

definition claimLaunched :: "string \<Rightarrow> Dispatcher \<Rightarrow> bool \<times> Dispatcher" where
  "claimLaunched i d =
     (if \<not> admitsLocked i d then (False, d)
      else (let (ok, l) = TryClaim i (d_launched d) in (ok, d\<lparr>d_launched := l\<rparr>)))"

text \<open>
  \<open>launch\<close> returns the state the runner was started with, if it was. The second rendering of the
  source follows the claim with nothing between them here, so it gives the same view.
\<close>

definition launch :: "string \<Rightarrow> entry \<Rightarrow> Dispatcher \<Rightarrow> State option \<times> Dispatcher" where
  "launch i e d =
     (let v = Render (d_q d) (e_j e) in
      if \<not> rv_Running v then (None, d)
      else if rv_Intent v \<noteq> IntentRun then (None, parkUnlaunched i e d)
      else (case claimLaunched i d of
              (False, d1) \<Rightarrow> (None, d1)
            | (True, d1) \<Rightarrow>
                (let v1 = Render (d_q d1) (e_j e) in
                 if \<not> rv_Running v1 \<or> rv_Intent v1 \<noteq> IntentRun then (None, clearLaunched i d1)
                 else (Some (sv_State (rv_State v1)), d1))))"

section \<open>The tick\<close>

text \<open>
  What the outside answers during a tick, per job: the store's \<open>Delete\<close> and \<open>Save\<close>, and \<open>Hydrate\<close>;
  and the content half's times and release reason for the stored row.
\<close>

record TickEnv =
  t_deleteOK :: bool
  t_saveOK :: bool
  t_hydrate :: HydrateResult
  t_started :: int
  t_finished :: int
  t_reason :: string

definition evictCancelledNeverRun :: "bool \<Rightarrow> string \<Rightarrow> entry \<Rightarrow> Dispatcher \<Rightarrow> bool \<times> Dispatcher" where
  "evictCancelledNeverRun deleteOK i e d =
     (let s = snapshot (e_j e) in
      if sv_State (sn_State s) \<noteq> StateUnset \<or> sn_Intent s \<noteq> IntentCancel then (False, d)
      else case beginRemovalIfIdle i d of
        StillLive \<Rightarrow> (False, d)
      | NotRegistered \<Rightarrow> (True, d)
      | Begun d1 \<Rightarrow> if \<not> deleteOK then (True, abortRemoval i d1) else (True, deregister i d1))"

definition persistTick :: "TickEnv \<Rightarrow> string \<Rightarrow> Dispatcher \<Rightarrow> Dispatcher" where
  "persistTick env i d = snd (persistIfChanged (t_saveOK env) (t_started env) (t_finished env) (t_reason env) i d)"

text \<open>
  One turn of the loop in \<open>tick\<close>. The job is the one registered under its id when its turn comes;
  a job removed since the order was taken is skipped.
\<close>

definition tickJob :: "TickEnv \<Rightarrow> Time \<Rightarrow> string \<Rightarrow> Dispatcher \<Rightarrow> Dispatcher" where
  "tickJob env now i d =
     (case fmlookup (d_byID d) i of None \<Rightarrow> d | Some e \<Rightarrow>
      case queueCall i e (\<lambda>q j. Advance q j now) d of
        (Some _, d1) \<Rightarrow> d1
      | (None, d1) \<Rightarrow>
          (case fmlookup (d_byID d1) i of None \<Rightarrow> d1 | Some e1 \<Rightarrow>
           case evictCancelledNeverRun (t_deleteOK env) i e1 d1 of
             (True, d2) \<Rightarrow> d2
           | (False, d2) \<Rightarrow>
               (case reconcileResidency (t_hydrate env) i e1 now d2 of
                  (Some _, d3) \<Rightarrow> persistTick env i d3
                | (None, d3) \<Rightarrow> persistTick env i (snd (launch i e1 d3)))))"

definition tick :: "(string \<Rightarrow> TickEnv) \<Rightarrow> Time \<Rightarrow> Dispatcher \<Rightarrow> Dispatcher option" where
  "tick env now d =
     map_option (\<lambda>es. fold (\<lambda>e. tickJob (env (j_id (e_j e))) now (j_id (e_j e))) es d) (snapshotOrder d)"

section \<open>The doors of a client\<close>

definition cancelFor :: "string \<Rightarrow> nat option \<Rightarrow> Time \<Rightarrow> Dispatcher \<Rightarrow> DispError option \<times> Dispatcher" where
  "cancelFor i expected now d =
     (case lookupFor i expected d of
        None \<Rightarrow> (Some ErrNotFound, d)
      | Some e \<Rightarrow> liftQ (queueCall i e (\<lambda>q j. Cancel q j now) d))"

definition D_Pause :: "Dispatcher \<Rightarrow> Dispatcher" where
  "D_Pause d = d\<lparr>d_q := Pause (d_q d)\<rparr>"

definition D_Resume :: "Dispatcher \<Rightarrow> Dispatcher" where
  "D_Resume d = d\<lparr>d_q := Resume (d_q d)\<rparr>"

definition D_SetCaps :: "int \<Rightarrow> int \<Rightarrow> Dispatcher \<Rightarrow> Dispatcher" where
  "D_SetCaps l s d = d\<lparr>d_q := SetCaps l s (d_q d)\<rparr>"

definition yieldPaused :: "string \<Rightarrow> nat \<Rightarrow> Time \<Rightarrow> Dispatcher \<Rightarrow> DispError option \<times> Dispatcher" where
  "yieldPaused i inst now d =
     (case YieldedFrom i inst Fetching now d of
        (Some ErrStaleReport, d1) \<Rightarrow> (None, d1)
      | r \<Rightarrow> r)"

definition pauseFor :: "string \<Rightarrow> nat option \<Rightarrow> Time \<Rightarrow> Dispatcher \<Rightarrow> DispError option \<times> Dispatcher" where
  "pauseFor i expected now d =
     (case lookupFor i expected d of
        None \<Rightarrow> (Some ErrNotFound, d)
      | Some e \<Rightarrow>
          (case SetIntent IntentPause (e_j e) of
             Inl je \<Rightarrow> (Some (JErr je), d)
           | Inr j' \<Rightarrow> yieldPaused i (e_inst e) now (putEntry i (e\<lparr>e_j := j'\<rparr>) d)))"

definition BlockUnwanted ::
  "string \<Rightarrow> nat \<Rightarrow> bool \<Rightarrow> Time \<Rightarrow> Dispatcher \<Rightarrow> (bool \<times> DispError option) \<times> Dispatcher" where
  "BlockUnwanted i inst pause now d =
     (case lookupFor i (Some inst) d of
        None \<Rightarrow> ((False, Some ErrNotFound), d)
      | Some e \<Rightarrow>
          if h_Unwanted (e_h e) \<noteq> StateNone then ((False, None), d)
          else
            (let e1 = e\<lparr>e_h := (e_h e)\<lparr>h_Unwanted := (if pause then StateBlocked else StateFailOwed)\<rparr>\<rparr> in
             if \<not> pause then ((True, None), putEntry i e1 d)
             else (case SetIntent IntentPause (e_j e) of
                     Inl je \<Rightarrow> ((True, Some (JErr je)), putEntry i e1 d)
                   | Inr j' \<Rightarrow>
                       (case yieldPaused i inst now (putEntry i (e1\<lparr>e_j := j'\<rparr>) d) of
                          (err, d1) \<Rightarrow> ((True, err), d1)))))"

definition resume :: "string \<Rightarrow> nat option \<Rightarrow> bool \<Rightarrow> Dispatcher \<Rightarrow> DispError option \<times> Dispatcher" where
  "resume i expected byUser d =
     (case lookupFor i expected d of
        None \<Rightarrow> (Some ErrNotFound, d)
      | Some e \<Rightarrow>
          if h_Unwanted (e_h e) = StateBlocked \<and> \<not> byUser then (Some ErrUnwantedBlocked, d)
          else
            (let e1 = (if h_Unwanted (e_h e) = StateBlocked
                       then e\<lparr>e_h := (e_h e)\<lparr>h_Unwanted := StateApproved\<rparr>\<rparr> else e) in
             case SetIntent IntentRun (e_j e) of
               Inl je \<Rightarrow> (Some (JErr je), putEntry i e1 d)
             | Inr j' \<Rightarrow> (None, putEntry i (e1\<lparr>e_j := j'\<rparr>) d)))"

definition updHeader ::
  "string \<Rightarrow> (Header \<Rightarrow> Header) \<Rightarrow> Dispatcher \<Rightarrow> DispError option \<times> Dispatcher" where
  "updHeader i f d =
     (case fmlookup (d_byID d) i of
        None \<Rightarrow> (Some ErrNotFound, d)
      | Some e \<Rightarrow> (None, putEntry i (e\<lparr>e_h := f (e_h e)\<rparr>) d))"

definition SetFailReason :: "string \<Rightarrow> nat \<Rightarrow> string \<Rightarrow> Dispatcher \<Rightarrow> DispError option \<times> Dispatcher" where
  "SetFailReason i inst reason d =
     (if lookupFor i (Some inst) d = None then (Some ErrNotFound, d)
      else updHeader i (\<lambda>h. h\<lparr>h_FailReason := reason\<rparr>) d)"

definition SetOperationalError :: "string \<Rightarrow> string \<Rightarrow> Dispatcher \<Rightarrow> DispError option \<times> Dispatcher" where
  "SetOperationalError i msg d = updHeader i (\<lambda>h. h\<lparr>h_OperationalError := msg\<rparr>) d"

definition SetPriority :: "string \<Rightarrow> Priority \<Rightarrow> Dispatcher \<Rightarrow> DispError option \<times> Dispatcher" where
  "SetPriority i p d =
     (case checkPriority p of
        Some e \<Rightarrow> (Some e, d)
      | None \<Rightarrow> updHeader i (\<lambda>h. h\<lparr>h_Priority := p\<rparr>) d)"

definition SetCategory :: "string \<Rightarrow> string \<Rightarrow> Dispatcher \<Rightarrow> DispError option \<times> Dispatcher" where
  "SetCategory i c d = updHeader i (\<lambda>h. h\<lparr>h_Category := c\<rparr>) d"

definition SetScript :: "string \<Rightarrow> string \<Rightarrow> Dispatcher \<Rightarrow> DispError option \<times> Dispatcher" where
  "SetScript i s d = updHeader i (\<lambda>h. h\<lparr>h_Script := s\<rparr>) d"

definition SetPP :: "string \<Rightarrow> PP \<Rightarrow> Dispatcher \<Rightarrow> DispError option \<times> Dispatcher" where
  "SetPP i pp d =
     (case fmlookup (d_byID d) i of
        None \<Rightarrow> (Some ErrNotFound, d)
      | Some e \<Rightarrow> (None, putEntry i (e\<lparr>e_h := (e_h e)\<lparr>h_PP := pp\<rparr>,
                                     e_j := (e_j e)\<lparr>j_policy := PP_Policy pp\<rparr>\<rparr>) d))"

text \<open>
  \<open>hydrated\<close> is whether \<open>Hydrate\<close> succeeded and \<open>wasResident\<close> what the job answered before it.
\<close>

definition LoadProgress :: "string \<Rightarrow> bool \<Rightarrow> bool \<Rightarrow> Dispatcher \<Rightarrow> DispError option \<times> Dispatcher" where
  "LoadProgress i hydrated wasResident d =
     (if fmlookup (d_byID d) i = None then (None, d)
      else if \<not> hydrated then (Some ErrHydrate, d)
      else (None, if wasResident then d else markResident i d))"

text \<open>\<open>begun\<close> is what \<open>DownloadBegun\<close> of the job's content half answers once its progress is loaded.\<close>

definition renameEntry :: "string \<Rightarrow> string \<Rightarrow> bool \<Rightarrow> Dispatcher \<Rightarrow> DispError option \<times> Dispatcher" where
  "renameEntry i n begun d =
     (case fmlookup (d_byID d) i of
        None \<Rightarrow> (Some ErrNotFound, d)
      | Some e \<Rightarrow>
          (case admitNameLocked i n d of
             Some err \<Rightarrow> (Some err, d)
           | None \<Rightarrow>
               if begun then (Some ErrJobStarted, d)
               else (None, putEntry i (e\<lparr>e_j := (e_j e)\<lparr>j_name := n\<rparr>, e_h := (e_h e)\<lparr>h_Name := n\<rparr>\<rparr>) d)))"

definition SetName ::
  "string \<Rightarrow> string \<Rightarrow> bool \<Rightarrow> bool \<Rightarrow> bool \<Rightarrow> Dispatcher \<Rightarrow> DispError option \<times> Dispatcher" where
  "SetName i n hydrated wasResident begun d =
     (case LoadProgress i hydrated wasResident d of
        (Some err, d1) \<Rightarrow> (Some err, d1)
      | (None, d1) \<Rightarrow> renameEntry i n begun d1)"

definition Add ::
  "nat \<Rightarrow> Job \<Rightarrow> Header \<Rightarrow> int \<Rightarrow> bool \<Rightarrow> Dispatcher \<Rightarrow> DispError option \<times> Dispatcher" where
  "Add inst j h nowUnix saveOK d =
     (if d_stopped d then (Some ErrStopped, d)
      else if d_phase d \<noteq> phaseRestored then (Some ErrNotRestored, d)
      else
        (let h1 = (if h_Added h \<le> 0 then h\<lparr>h_Added := nowUnix\<rparr> else h);
             j1 = j\<lparr>j_created := h_Added h1 * 1000000000\<rparr> in
         case register inst j1 h1 seqNext d of
           Inl e \<Rightarrow> (Some e, d)
         | Inr d1 \<Rightarrow>
             (case persistIfChanged saveOK 0 0 [] (j_id j1) d1 of
                (err, d2) \<Rightarrow>
                  (let err1 = (if err = None \<and> lastWritten (j_id j1) d2 = None
                               then Some ErrPreemptedByRemoval else err) in
                   case err1 of
                     None \<Rightarrow> (None, d2)
                   | Some e \<Rightarrow>
                       (case beginRemovalFor (j_id j1) None d2 of
                          None \<Rightarrow> (Some e, d2)
                        | Some d3 \<Rightarrow> (Some e, deregister (j_id j1) d3))))))"

section \<open>Removing a job and restoring the queue\<close>

text \<open>
  \<open>removeFor\<close> between its waits: cancel the job, return what no worker holds any more, and after the
  store has deleted the row, deregister. A wait may last any time, so other operations run
  between the parts; \<open>removeFor\<close> itself composes them with the waits' outcome as an argument.
\<close>

definition removePark :: "string \<Rightarrow> nat option \<Rightarrow> Dispatcher \<Rightarrow> Dispatcher" where
  "removePark i expected d = (case lookupFor i expected d of None \<Rightarrow> d | Some e \<Rightarrow> parkGrant i e d)"

definition removeEnd :: "string \<Rightarrow> bool \<Rightarrow> Dispatcher \<Rightarrow> DispError option \<times> Dispatcher" where
  "removeEnd i deleteOK d = (if \<not> deleteOK then (Some ErrStore, abortRemoval i d) else (None, deregister i d))"

definition removeFor ::
  "string \<Rightarrow> nat option \<Rightarrow> DispError option \<Rightarrow> bool \<Rightarrow> Time \<Rightarrow> Dispatcher \<Rightarrow> DispError option \<times> Dispatcher" where
  "removeFor i expected waitErr deleteOK now d =
     (case beginRemovalFor i expected d of
        None \<Rightarrow> (Some ErrNotFound, d)
      | Some d1 \<Rightarrow>
          (case cancelFor i None now d1 of
             (err, d2) \<Rightarrow>
               if err \<noteq> None \<and> err \<noteq> Some ErrNotFound then (err, abortRemoval i d2)
               else (case waitErr of
                       Some w \<Rightarrow> (Some w, abortRemoval i d2)
                     | None \<Rightarrow> removeEnd i deleteOK (removePark i expected d2))))"

text \<open>One row of the restore loop; a row that is refused only moves the sequence counter.\<close>

definition restoreRow :: "nat \<Rightarrow> Time \<Rightarrow> Persisted \<Rightarrow> Dispatcher \<Rightarrow> Dispatcher" where
  "restoreRow inst now p d =
     (let d1 = advanceSeqLocked (p_SortKey p) d in
      case reconstruct (p_ID p) (h_Name (p_Header p)) (p_Policy p) (p_State p) (p_Intent p) now now of
        Inl _ \<Rightarrow> d1
      | Inr j \<Rightarrow>
          (case register inst (j\<lparr>j_created := h_Added (p_Header p) * 1000000000\<rparr>) (p_Header p) (p_SortKey p) d1 of
             Inl _ \<Rightarrow> d1
           | Inr d2 \<Rightarrow> markWritten p d2))"

definition rowOrder :: "Persisted list \<Rightarrow> Persisted list" where
  "rowOrder rows = sort_key (\<lambda>p. (p_SortKey p, p_ID p)) rows"

definition restore ::
  "bool \<Rightarrow> Persisted list option \<Rightarrow> Time \<Rightarrow> Dispatcher \<Rightarrow> DispError option \<times> Dispatcher" where
  "restore reuse loaded now d =
     (if d_stopped d then (Some ErrStopped, d)
      else if d_phase d = phaseRestored \<and> reuse then (None, d)
      else if d_phase d = phaseRestored then (Some ErrAlreadyRestored, d)
      else if d_phase d = phaseRestoring then (Some ErrRestoreInProgress, d)
      else case loaded of
        None \<Rightarrow> (Some ErrStore, d\<lparr>d_phase := phaseUnrestored\<rparr>)
      | Some rows \<Rightarrow>
          (None, (fold (\<lambda>(inst, p). restoreRow inst now p)
                    (zip [0..<length rows] (rowOrder rows)) (d\<lparr>d_phase := phaseRestoring\<rparr>))
                 \<lparr>d_phase := phaseRestored\<rparr>))"

text \<open>
  \<open>Stop\<close>: the flag, and the turn of one job in its loop once its worker and its occupants are gone.
\<close>

definition stopBegin :: "Dispatcher \<Rightarrow> Dispatcher" where
  "stopBegin d = d\<lparr>d_stopped := True\<rparr>"

definition stopJob :: "TickEnv \<Rightarrow> string \<Rightarrow> Dispatcher \<Rightarrow> Dispatcher" where
  "stopJob env i d =
     (case fmlookup (d_byID d) i of
        None \<Rightarrow> d
      | Some e \<Rightarrow> clearLaunched i (markNotResident i (persistTick env i (snd (queueCall i e Park d)))))"

section \<open>Interleavings\<close>

text \<open>
  An operation runs to its end as one step; the arguments (who calls, with what, what the outside
  answers) are free. A removal waits between its parts, so its parts are steps of their own.
\<close>

inductive disp_op :: "Dispatcher \<Rightarrow> Dispatcher \<Rightarrow> bool" where
  add: "job_wf j \<Longrightarrow> j_lease j = None \<Longrightarrow> Add inst j h nowU saveOK d = (err, d') \<Longrightarrow> disp_op d d'"
| restore: "restore reuse loaded now d = (err, d') \<Longrightarrow> disp_op d d'"
| tick_job: "d_written d i \<noteq> None \<Longrightarrow> disp_op d (tickJob env now i d)"
| cancel: "cancelFor i x now d = (err, d') \<Longrightarrow> disp_op d d'"
| pause: "pauseFor i x now d = (err, d') \<Longrightarrow> disp_op d d'"
| resume: "resume i x byUser d = (err, d') \<Longrightarrow> disp_op d d'"
| block: "BlockUnwanted i inst ps now d = (r, d') \<Longrightarrow> disp_op d d'"
| finished: "finishedFor i x o' now d = (err, d') \<Longrightarrow> disp_op d d'"
| settle_failed: "fmlookup (d_byID d) i = Some e \<Longrightarrow> SettleFailed i e now d = (err, d') \<Longrightarrow> disp_op d d'"
| yielded: "YieldedFor i x d = (err, d') \<Longrightarrow> disp_op d d'"
| advance_from: "AdvanceFrom i inst from nxt now d = (err, d') \<Longrightarrow> disp_op d d'"
| yielded_from: "YieldedFrom i inst from now d = (err, d') \<Longrightarrow> disp_op d d'"
| activity: "fmlookup (d_byID d) i = Some e \<Longrightarrow> SetActivity x (e_j e) = Inr j' \<Longrightarrow>
    disp_op d (putEntry i (e\<lparr>e_j := j'\<rparr>) d)"
| set_fail_reason: "SetFailReason i inst reason d = (err, d') \<Longrightarrow> disp_op d d'"
| set_operational_error: "SetOperationalError i msg d = (err, d') \<Longrightarrow> disp_op d d'"
| set_category: "SetCategory i c d = (err, d') \<Longrightarrow> disp_op d d'"
| set_script: "SetScript i sc d = (err, d') \<Longrightarrow> disp_op d d'"
| set_priority: "SetPriority i p d = (err, d') \<Longrightarrow> disp_op d d'"
| set_pp: "SetPP i pp d = (err, d') \<Longrightarrow> disp_op d d'"
| load_progress: "LoadProgress i hydrated wasRes d = (err, d') \<Longrightarrow> disp_op d d'"
| set_name: "SetName i n hydrated wasRes begun d = (err, d') \<Longrightarrow> disp_op d d'"
| reserve: "ReserveName i n d = Inr d' \<Longrightarrow> disp_op d d'"
| release_name: "disp_op d (releaseName i n d)"
| occupy_enter: "occupyEnter i x tok d = Inr d' \<Longrightarrow> disp_op d d'"
| occupy_exit: "disp_op d (occupyExit i tok d)"
| stop: "disp_op d (stopBegin d)"
| stop_job: "disp_op d (stopJob env i d)"
| pause_all: "disp_op d (D_Pause d)"
| resume_all: "disp_op d (D_Resume d)"
| set_caps: "disp_op d (D_SetCaps l s d)"
| rm_begin: "beginRemovalFor i x d = Some d' \<Longrightarrow> disp_op d d'"
| rm_abort: "disp_op d (abortRemoval i d)"

text \<open>
  A system state is the dispatcher and the registered ids some removal has cancelled and then
  parked. A removal deregisters an id it has parked, or one that is already gone.
\<close>

type_synonym Sys = "Dispatcher \<times> string set"

definition registered :: "Dispatcher \<Rightarrow> string set" where
  "registered d = {k. fmlookup (d_byID d) k \<noteq> None}"

inductive disp_step :: "Sys \<Rightarrow> Sys \<Rightarrow> bool" where
  op: "disp_op d d' \<Longrightarrow> disp_step (d, P) (d', P \<inter> registered d')"
| rm_park: "lookupFor i x d = Some e \<Longrightarrow> j_intent (e_j e) = IntentCancel \<Longrightarrow>
    disp_step (d, P) (removePark i x d, insert i P)"
| rm_end: "i \<in> P \<or> i \<notin> registered d \<Longrightarrow> removeEnd i ok d = (err, d') \<Longrightarrow>
    disp_step (d, P) (d', P \<inter> registered d')"

inductive disp_trace :: "nat \<Rightarrow> Sys \<Rightarrow> bool" where
  start: "disp_trace 0 (NewDispatcher l s, {})"
| step: "disp_trace n s \<Longrightarrow> disp_step s s' \<Longrightarrow> disp_trace (Suc n) s'"

end
