(* ===== verification/Dispatch_Safety.thy ===== *)
theory Dispatch_Safety
  imports Dispatch
begin

text \<open>
  What the dispatcher keeps under every interleaving of its operations: the books of leases and
  slots (\<open>res_inv\<close>), the registry's own shape and the names (\<open>reg_inv\<close>), and that a job a removal
  has parked gains nothing before it is deregistered (\<open>quiet\<close>).
\<close>

section \<open>The books\<close>

definition balanced :: "(string, entry) fmap \<Rightarrow> Queue \<Rightarrow> bool" where
  "balanced m q \<longleftrightarrow>
     fresh_ids (q_leases q) \<and> finite (sp_held (q_slots q))
   \<and> (\<forall>i e. fmlookup m i = Some e \<longrightarrow> j_id (e_j e) = i \<and> lease_ok q (e_j e) \<and> slot_ok q (e_j e))
   \<and> (\<forall>x \<in> lp_issued (q_leases q). \<exists>i e. fmlookup m i = Some e \<and> x \<in> leaseIDs (e_j e))
   \<and> (\<forall>i k e e'. fmlookup m i = Some e \<longrightarrow> fmlookup m k = Some e' \<longrightarrow> i \<noteq> k \<longrightarrow>
        leaseIDs (e_j e) \<inter> leaseIDs (e_j e') = {})
   \<and> (\<forall>i \<in> sp_held (q_slots q). fmlookup m i \<noteq> None)"

definition res_inv :: "Dispatcher \<Rightarrow> bool" where
  "res_inv d \<longleftrightarrow> balanced (d_byID d) (d_q d)"

definition minted :: "Dispatcher \<Rightarrow> nat" where
  "minted d = unat (lp_next (q_leases (d_q d)))"

lemma res_inv_entry:
  assumes "res_inv d" and "fmlookup (d_byID d) i = Some e"
  shows "j_id (e_j e) = i" and "lease_ok (d_q d) (e_j e)" and "slot_ok (d_q d) (e_j e)"
  using assms by (auto simp: res_inv_def balanced_def)

lemma res_inv_disjoint:
  assumes "res_inv d" and "fmlookup (d_byID d) i = Some e" and "fmlookup (d_byID d) k = Some e'" and "i \<noteq> k"
  shows "leaseIDs (e_j e) \<inter> leaseIDs (e_j e') = {}"
  using assms unfolding res_inv_def balanced_def by blast

lemma res_inv_issued:
  assumes "res_inv d" and "x \<in> lp_issued (q_leases (d_q d))"
  obtains i e where "fmlookup (d_byID d) i = Some e" and "x \<in> leaseIDs (e_j e)"
  using assms unfolding res_inv_def balanced_def by blast

lemma balancedI:
  assumes "fresh_ids (q_leases q)" and "finite (sp_held (q_slots q))"
    and "\<And>i e. fmlookup m i = Some e \<Longrightarrow> j_id (e_j e) = i \<and> lease_ok q (e_j e) \<and> slot_ok q (e_j e)"
    and "\<And>x. x \<in> lp_issued (q_leases q) \<Longrightarrow> \<exists>i e. fmlookup m i = Some e \<and> x \<in> leaseIDs (e_j e)"
    and "\<And>i k e e'. fmlookup m i = Some e \<Longrightarrow> fmlookup m k = Some e' \<Longrightarrow> i \<noteq> k \<Longrightarrow>
        leaseIDs (e_j e) \<inter> leaseIDs (e_j e') = {}"
    and "\<And>i. i \<in> sp_held (q_slots q) \<Longrightarrow> fmlookup m i \<noteq> None"
  shows "balanced m q"
proof -
  have 1: "\<forall>i e. fmlookup m i = Some e \<longrightarrow> j_id (e_j e) = i \<and> lease_ok q (e_j e) \<and> slot_ok q (e_j e)"
    using assms(3) by blast
  have 2: "\<forall>x \<in> lp_issued (q_leases q). \<exists>i e. fmlookup m i = Some e \<and> x \<in> leaseIDs (e_j e)"
    using assms(4) by blast
  have 3: "\<forall>i k e e'. fmlookup m i = Some e \<longrightarrow> fmlookup m k = Some e' \<longrightarrow> i \<noteq> k \<longrightarrow>
      leaseIDs (e_j e) \<inter> leaseIDs (e_j e') = {}"
    by (intro allI impI) (rule assms(5))
  have 4: "\<forall>i \<in> sp_held (q_slots q). fmlookup m i \<noteq> None" using assms(6) by blast
  show ?thesis unfolding balanced_def using assms(1,2) 1 2 3 4 by (intro conjI)
qed

text \<open>Fields the books do not depend on.\<close>

lemma res_inv_cong: "d_byID d' = d_byID d \<Longrightarrow> d_q d' = d_q d \<Longrightarrow> res_inv d' \<longleftrightarrow> res_inv d"
  by (simp add: res_inv_def)

lemma putEntry_simps [simp]:
  "d_byID (putEntry i e d) = fmupd i e (d_byID d)" "d_q (putEntry i e d) = d_q d"
  "d_order (putEntry i e d) = d_order d" "d_written (putEntry i e d) = d_written d"
  "d_resident (putEntry i e d) = d_resident d" "d_launched (putEntry i e d) = d_launched d"
  "d_reservedNames (putEntry i e d) = d_reservedNames d" "d_nextSeq (putEntry i e d) = d_nextSeq d"
  "d_removing (putEntry i e d) = d_removing d"
  by (simp_all add: putEntry_def)

text \<open>
  One entry and the queue change as a door of the queue changes them: the other jobs' leases and
  slots are where they were.
\<close>

lemma others_kept:
  assumes "res_inv d" and "fmlookup (d_byID d) i = Some e" and "frame 1 (d_q d) (e_j e) q' j'"
    and "lease_ok q' j'" and "fmlookup (d_byID d) k = Some e'" and "k \<noteq> i"
  shows "lease_ok q' (e_j e')" and "slot_ok q' (e_j e')" and "leaseIDs j' \<inter> leaseIDs (e_j e') = {}"
proof -
  note ek = res_inv_entry [OF assms(1,5)] and ei = res_inv_entry [OF assms(1,2)]
  have dis: "leaseIDs (e_j e) \<inter> leaseIDs (e_j e') = {}"
    using res_inv_disjoint [OF assms(1,2,5)] assms(6) by blast
  have sub: "leaseIDs (e_j e') \<subseteq> lp_issued (q_leases (d_q d))" using ek(2) by (simp add: lease_ok_def)
  have "leaseIDs (e_j e') \<subseteq> lp_issued (q_leases q') - leaseIDs j'"
    using sub dis assms(3) unfolding frame_def by blast
  then show "lease_ok q' (e_j e')" using ek(2) assms(4) by (auto simp: lease_ok_def)
  show "leaseIDs j' \<inter> leaseIDs (e_j e') = {}" using sub dis assms(3) unfolding frame_def by blast
  have "k \<in> sp_held (q_slots q') \<longleftrightarrow> k \<in> sp_held (q_slots (d_q d))"
    using assms(3,6) ei(1) unfolding frame_def by blast
  then show "slot_ok q' (e_j e')" using ek by (simp add: slot_ok_def)
qed

lemma put_inv:
  assumes "res_inv d" and "fmlookup (d_byID d) i = Some e" and "frame 1 (d_q d) (e_j e) q' (e_j e')"
    and "lease_ok q' (e_j e')" and "slot_ok q' (e_j e')"
  shows "res_inv (putEntry i e' (d\<lparr>d_q := q'\<rparr>))"
proof -
  note ei = res_inv_entry [OF assms(1,2)] and ok = others_kept [OF assms(1-4)]
  have id: "j_id (e_j e') = i" using assms(3) ei(1) by (simp add: frame_def)
  have iss: "\<exists>k ek. fmlookup (fmupd i e' (d_byID d)) k = Some ek \<and> x \<in> leaseIDs (e_j ek)"
    if x: "x \<in> lp_issued (q_leases q')" for x
  proof (cases "x \<in> leaseIDs (e_j e')")
    case True
    then show ?thesis by (intro exI [of _ i] exI [of _ e']) simp
  next
    case False
    then have "x \<in> lp_issued (q_leases (d_q d))" "x \<notin> leaseIDs (e_j e)"
      using x assms(3) unfolding frame_def by blast+
    then obtain k ek where k: "fmlookup (d_byID d) k = Some ek" "x \<in> leaseIDs (e_j ek)"
      using res_inv_issued [OF assms(1)] by blast
    then have "k \<noteq> i" using \<open>x \<notin> leaseIDs (e_j e)\<close> assms(2) by auto
    with k show ?thesis by (intro exI [of _ k] exI [of _ ek]) simp
  qed
  have held: "fmlookup (fmupd i e' (d_byID d)) k \<noteq> None" if "k \<in> sp_held (q_slots q')" for k
    using that assms(1,3) ei(1) by (cases "k = i") (auto simp: frame_def res_inv_def balanced_def)
  have fresh: "fresh_ids (q_leases q')" "finite (sp_held (q_slots q'))" using assms(4) by (auto simp: lease_ok_def)
  have jobs: "j_id (e_j ek) = k \<and> lease_ok q' (e_j ek) \<and> slot_ok q' (e_j ek)"
    if "fmlookup (fmupd i e' (d_byID d)) k = Some ek" for k ek
    using that assms(4,5) id ok(1,2) [of k ek] res_inv_entry(1) [OF assms(1), of k ek]
    by (cases "k = i") auto
  have dis: "leaseIDs (e_j ek) \<inter> leaseIDs (e_j em) = {}"
    if l: "fmlookup (fmupd i e' (d_byID d)) k = Some ek" "fmlookup (fmupd i e' (d_byID d)) m = Some em"
      and ne: "k \<noteq> m" for k m ek em
  proof -
    consider "k = i" "m \<noteq> i" | "m = i" "k \<noteq> i" | "k \<noteq> i" "m \<noteq> i" using ne by blast
    then show ?thesis
    proof cases
      case 1
      then show ?thesis using l ok(3) [of m em] by simp
    next
      case 2
      then show ?thesis using l ok(3) [of k ek] by auto
    next
      case 3
      then show ?thesis using l ne res_inv_disjoint [OF assms(1), of k ek m em] by simp
    qed
  qed
  have "balanced (fmupd i e' (d_byID d)) q'"
    by (rule balancedI [OF fresh jobs iss dis held])
  then show ?thesis by (simp add: res_inv_def)
qed

section \<open>What every operation keeps\<close>

text \<open>A job a removal has parked: it is cancelled and nothing is recorded for it.\<close>

definition quiet :: "string \<Rightarrow> Dispatcher \<Rightarrow> bool" where
  "quiet i d \<longleftrightarrow>
     (\<forall>e. fmlookup (d_byID d) i = Some e \<longrightarrow>
        j_intent (e_j e) = IntentCancel \<and> leaseIDs (e_j e) = {} \<and> i \<notin> sp_held (q_slots (d_q d)))"

text \<open>
  \<open>books k\<close>: the books stay balanced, at most \<open>k\<close> leases are minted, no registered job that was
  quiet stops being quiet, and no pool grows past its capacity.
\<close>

definition books :: "nat \<Rightarrow> Dispatcher \<Rightarrow> Dispatcher \<Rightarrow> bool" where
  "books k d d' \<longleftrightarrow> res_inv d' \<and> minted d' \<le> minted d + k \<and> within_caps (d_q d) (d_q d')
     \<and> (\<forall>i. fmlookup (d_byID d) i \<noteq> None \<longrightarrow> quiet i d \<longrightarrow> quiet i d')"

lemma books_trans:
  assumes "books k d d'" and "books m d' d''" and "\<And>i. fmlookup (d_byID d) i \<noteq> None \<Longrightarrow> fmlookup (d_byID d') i \<noteq> None"
  shows "books (k + m) d d''"
  using assms by (auto simp: books_def within_caps_def)

lemma books_mono: "books k d d' \<Longrightarrow> k \<le> m \<Longrightarrow> books m d d'"
  by (auto simp: books_def)

lemma books_cong:
  assumes "res_inv d" and "d_byID d' = d_byID d" and "d_q d' = d_q d"
  shows "books k d d'"
  using assms res_inv_cong [OF assms(2,3)] by (simp add: books_def minted_def quiet_def)

lemma books_put:
  assumes "res_inv d" and "fmlookup (d_byID d) i = Some e" and "frame 1 (d_q d) (e_j e) q' (e_j e')"
    and "lease_ok q' (e_j e')" and "slot_ok q' (e_j e')"
    and "j_intent (e_j e) = IntentCancel \<Longrightarrow> no_grant (d_q d) (e_j e) q' (e_j e')"
    and "j_intent (e_j e) = IntentCancel \<Longrightarrow> j_intent (e_j e') = IntentCancel"
  shows "books 1 d (putEntry i e' (d\<lparr>d_q := q'\<rparr>))"
proof -
  have id: "j_id (e_j e) = i" by (rule res_inv_entry(1) [OF assms(1,2)])
  have q: "quiet k (putEntry i e' (d\<lparr>d_q := q'\<rparr>))" if "quiet k d" for k
  proof (cases "k = i")
    case True
    then show ?thesis using that assms(2,6,7) by (auto simp: quiet_def no_grant_def)
  next
    case False
    then have "k \<in> sp_held (q_slots q') \<longleftrightarrow> k \<in> sp_held (q_slots (d_q d))"
      using assms(3) id unfolding frame_def by blast
    then show ?thesis using that False by (simp add: quiet_def)
  qed
  show ?thesis using put_inv [OF assms(1-5)] q assms(3)
    by (simp add: books_def minted_def frame_def)
qed

lemma books_header:
  assumes "res_inv d" and "fmlookup (d_byID d) i = Some e" and "j_id (e_j e') = j_id (e_j e)"
    and "leaseIDs (e_j e') = leaseIDs (e_j e)" and "job_wf (e_j e')"
    and "slot_ok (d_q d) (e_j e')" and "j_intent (e_j e) = IntentCancel \<Longrightarrow> j_intent (e_j e') = IntentCancel"
  shows "books 1 d (putEntry i e' d)"
proof -
  have "lease_ok (d_q d) (e_j e')"
    using res_inv_entry(2) [OF assms(1,2)] assms(4,5) by (simp add: lease_ok_def)
  then show ?thesis
    using books_put [OF assms(1,2) frame_job [OF assms(3,4)]] assms(4,6,7) by (simp add: no_grant_def)
qed

lemma books_queueCall:
  assumes "res_inv d" and "fmlookup (d_byID d) i = Some e" and "f (d_q d) (e_j e) = (err, q', j')"
    and "call_ok (d_q d) (e_j e) q' j'"
    and "j_intent (e_j e) = IntentCancel \<Longrightarrow> no_grant (d_q d) (e_j e) q' j'"
  shows "books 1 d (snd (queueCall i e f d))"
  using books_put [OF assms(1,2), of q' "e\<lparr>e_j := j'\<rparr>"] assms(3-5) job_steps_cancel [of "e_j e" j']
  by (simp add: queueCall_def call_ok_def)

lemma books_deregister:
  assumes "res_inv d" and "\<And>e. fmlookup (d_byID d) i = Some e \<Longrightarrow> leaseIDs (e_j e) = {} \<and> i \<notin> sp_held (q_slots (d_q d))"
  shows "books 0 d (deregister i d)"
proof -
  have dr: "d_byID (deregister i d) = fmdrop i (d_byID d)" "d_q (deregister i d) = d_q d"
    by (simp_all add: deregister_def clearLaunched_def)
  have iss: "\<exists>k e. fmlookup (fmdrop i (d_byID d)) k = Some e \<and> x \<in> leaseIDs (e_j e)"
    if "x \<in> lp_issued (q_leases (d_q d))" for x
    using res_inv_issued [OF assms(1) that] assms(2) by (metis empty_iff fmlookup_drop)
  have ni: "i \<notin> sp_held (q_slots (d_q d))" using assms by (cases "fmlookup (d_byID d) i") (auto simp: res_inv_def balanced_def)
  have held: "fmlookup (fmdrop i (d_byID d)) k \<noteq> None" if "k \<in> sp_held (q_slots (d_q d))" for k
    using that ni assms(1) by (cases "k = i") (auto simp: res_inv_def balanced_def)
  have jobs: "j_id (e_j e) = k \<and> lease_ok (d_q d) (e_j e) \<and> slot_ok (d_q d) (e_j e)"
    if "fmlookup (fmdrop i (d_byID d)) k = Some e" for k e
    using that res_inv_entry [OF assms(1), of k e] by (simp split: if_splits)
  have dis: "leaseIDs (e_j ek) \<inter> leaseIDs (e_j em) = {}"
    if "fmlookup (fmdrop i (d_byID d)) k = Some ek" "fmlookup (fmdrop i (d_byID d)) m = Some em" "k \<noteq> m" for k m ek em
    using that res_inv_disjoint [OF assms(1), of k ek m em] by (simp split: if_splits)
  have fresh: "fresh_ids (q_leases (d_q d))" "finite (sp_held (q_slots (d_q d)))"
    using assms(1) by (simp_all add: res_inv_def balanced_def)
  have "balanced (fmdrop i (d_byID d)) (d_q d)" by (rule balancedI [OF fresh jobs iss dis held])
  then have "res_inv (deregister i d)" by (simp add: res_inv_def dr)
  then show ?thesis by (auto simp: books_def minted_def quiet_def dr)
qed

lemma lookupFor_Some: "lookupFor i x d = Some e \<Longrightarrow> fmlookup (d_byID d) i = Some e"
  by (auto simp: lookupFor_def split: option.splits if_splits)

lemma clearLaunched_simps [simp]:
  "d_byID (clearLaunched i d) = d_byID d" "d_q (clearLaunched i d) = d_q d"
  by (simp_all add: clearLaunched_def)

lemma books_same:
  assumes "books k d d1" and "d_byID d2 = d_byID d1" and "d_q d2 = d_q d1"
  shows "books k d d2"
  using assms(1) unfolding books_def minted_def quiet_def res_inv_def assms(2,3) .

lemma books_refl: "res_inv d \<Longrightarrow> books k d d"
  by (rule books_cong) auto

section \<open>The operations one by one\<close>

lemma books_tickAdvance:
  assumes "res_inv d" and "fmlookup (d_byID d) i = Some e" and "minted d < 2 ^ 64 - 1"
  shows "books 1 d (snd (queueCall i e (\<lambda>q j. Advance q j now) d))"
proof -
  obtain err q' j' where adv: "Advance (d_q d) (e_j e) now = (err, q', j')" by (metis prod_cases3)
  note e = res_inv_entry [OF assms(1,2)]
  have "call_ok (d_q d) (e_j e) q' j'" using Advance_ok [OF e(2,3) _ adv] assms(3) by (simp add: minted_def)
  then show ?thesis
    using books_queueCall [OF assms(1,2), of "\<lambda>q j. Advance q j now"] adv Advance_cancel_no_grant [OF e(2) _ adv]
    by blast
qed

lemma books_Settle:
  assumes "res_inv d" and "fmlookup (d_byID d) i = Some e"
  shows "books 1 d (snd (queueCall i e (\<lambda>q j. Settle q j o' now) d))"
proof -
  obtain err q' j' where f: "Settle (d_q d) (e_j e) o' now = (err, q', j')" by (metis prod_cases3)
  note e = res_inv_entry [OF assms]
  show ?thesis using books_queueCall [OF assms, of "\<lambda>q j. Settle q j o' now"] f Settle_ok [OF e(2,3) f]
      Settle_no_grant [OF e(2) f] by blast
qed

lemma books_Park:
  assumes "res_inv d" and "fmlookup (d_byID d) i = Some e"
  shows "books 1 d (snd (queueCall i e Park d))"
proof -
  obtain err q' j' where f: "Park (d_q d) (e_j e) = (err, q', j')" by (metis prod_cases3)
  note e = res_inv_entry [OF assms]
  show ?thesis using books_queueCall [OF assms, of Park] f parkLocked_ok [OF e(2)] parkLocked_no_grant [OF e(2)]
    by (simp add: Park_def)
qed

lemma books_Cancel:
  assumes "res_inv d" and "fmlookup (d_byID d) i = Some e"
  shows "books 1 d (snd (queueCall i e (\<lambda>q j. Cancel q j now) d))"
proof -
  obtain err q' j' where f: "Cancel (d_q d) (e_j e) now = (err, q', j')" by (metis prod_cases3)
  note e = res_inv_entry [OF assms]
  show ?thesis using books_queueCall [OF assms, of "\<lambda>q j. Cancel q j now"] f Cancel_ok [OF e(2,3) f]
      Cancel_no_grant [OF e(2) f] by blast
qed

lemma snd_liftQ [simp]: "snd (liftQ r) = snd r"
  by (auto simp: liftQ_def split: prod.splits option.splits)

lemma liftQ_snd: "liftQ r = (err, d') \<Longrightarrow> d' = snd r"
  using snd_liftQ [of r] by (metis snd_conv)

lemma books_finishedFor:
  assumes "res_inv d" and "finishedFor i x o' now d = (err, d')"
  shows "books 1 d d'"
proof (cases "lookupFor i x d")
  case None
  then show ?thesis using assms books_refl by (simp add: finishedFor_def)
next
  case (Some e)
  obtain err1 d1 where l: "liftQ (queueCall i e (\<lambda>q j. Settle q j o' now) d) = (err1, d1)" by force
  have "books 1 d d1" using books_Settle [OF assms(1) lookupFor_Some [OF Some]] liftQ_snd [OF l] by simp
  then show ?thesis
    using assms(2) Some l books_same [OF \<open>books 1 d d1\<close>, of "clearLaunched i d1"]
      books_cong [OF assms(1), of "clearLaunched i d"]
    by (auto simp: finishedFor_def split: if_splits)
qed

lemma books_YieldedFor:
  assumes "res_inv d" and "YieldedFor i x d = (err, d')"
  shows "books 1 d d'"
proof (cases "lookupFor i x d")
  case None
  then show ?thesis using assms books_refl by (simp add: YieldedFor_def)
next
  case (Some e)
  obtain err1 d1 where l: "liftQ (queueCall i e Park d) = (err1, d1)" by force
  have "books 1 d d1" using books_Park [OF assms(1) lookupFor_Some [OF Some]] liftQ_snd [OF l] by simp
  then have "books 1 d (clearLaunched i d1)" by (rule books_same) simp_all
  then show ?thesis using assms(2) Some l by (auto simp: YieldedFor_def)
qed

lemma books_handoff:
  assumes "res_inv d" and "handoff i inst from nxt now d = (err, d')"
  shows "books 1 d d'"
proof (cases "lookupFor i (Some inst) d")
  case None
  then show ?thesis using assms books_refl by (simp add: handoff_def)
next
  case (Some e)
  note l = lookupFor_Some [OF Some]
  note e = res_inv_entry [OF assms(1) l]
  obtain b err1 q' j' where h: "Handoff (d_q d) (e_j e) from nxt now = (b, err1, q', j')" by (metis prod_cases4)
  let ?d = "putEntry i (e\<lparr>e_j := j'\<rparr>) (d\<lparr>d_q := q'\<rparr>)"
  have ok: "call_ok (d_q d) (e_j e) q' j'" by (rule Handoff_ok [OF e(2,3) h])
  have "books 1 d ?d"
    by (rule books_put [OF assms(1) l]) (use ok Handoff_no_grant [OF e(2) h] job_steps_cancel in \<open>auto simp: call_ok_def\<close>)
  then have "books 1 d (clearLaunched i ?d)" by (rule books_same) simp_all
  then show ?thesis using assms Some h books_refl by (auto simp: handoff_def split: bool.splits)
qed

lemma books_cancelFor:
  assumes "res_inv d" and "cancelFor i x now d = (err, d')"
  shows "books 1 d d'"
proof (cases "lookupFor i x d")
  case None
  then show ?thesis using assms books_refl by (simp add: cancelFor_def)
next
  case (Some e)
  have "d' = snd (queueCall i e (\<lambda>q j. Cancel q j now) d)"
    using assms(2) Some liftQ_snd by (simp add: cancelFor_def)
  then show ?thesis using books_Cancel [OF assms(1) lookupFor_Some [OF Some]] by simp
qed

lemma books_intent:
  assumes "res_inv d" and "fmlookup (d_byID d) i = Some e" and "SetIntent x (e_j e) = Inr j'" and "e_j e' = j'"
  shows "books 1 d (putEntry i e' d)"
proof -
  note e = res_inv_entry [OF assms(1,2)]
  have ok: "call_ok (d_q d) (e_j e) (d_q d) j'" by (rule SetIntent_ok [OF e(2,3) assms(3)])
  have "j' = (e_j e)\<lparr>j_intent := x\<rparr>" using assms(3) by (simp add: SetIntent_Inr)
  then show ?thesis
    using books_header [OF assms(1,2), of e'] ok assms(3,4) by (auto simp: call_ok_def lease_ok_def SetIntent_Inr)
qed

lemma books_res_inv: "books k d d' \<Longrightarrow> res_inv d'"
  by (simp add: books_def)

lemma books_yieldPaused:
  assumes "res_inv d" and "yieldPaused i inst now d = (err, d')"
  shows "books 1 d d'"
proof -
  obtain err1 d1 where y: "YieldedFrom i inst Fetching now d = (err1, d1)" by force
  then have "books 1 d d1" using books_handoff [OF assms(1)] by (simp add: YieldedFrom_def)
  moreover have "d' = d1" using assms(2) y
    by (auto simp: yieldPaused_def split: option.splits DispError.splits)
  ultimately show ?thesis by simp
qed

lemma books_seq:
  assumes "books k d (putEntry i e d)" and "books m (putEntry i e d) d'"
  shows "books (k + m) d d'"
  using assms by (rule books_trans) (auto split: if_splits)

lemma books_pauseFor:
  assumes "res_inv d" and "pauseFor i x now d = (err, d')"
  shows "books 2 d d'"
proof (cases "lookupFor i x d")
  case None
  then show ?thesis using assms books_refl by (simp add: pauseFor_def)
next
  case (Some e)
  show ?thesis
  proof (cases "SetIntent IntentPause (e_j e)")
    case (Inl je)
    then show ?thesis using assms Some books_refl by (simp add: pauseFor_def)
  next
    case (Inr j')
    let ?d = "putEntry i (e\<lparr>e_j := j'\<rparr>) d"
    have b: "books 1 d ?d" by (rule books_intent [OF assms(1) lookupFor_Some [OF Some] Inr]) simp
    moreover have "books 1 ?d d'"
      using books_yieldPaused [OF books_res_inv [OF b]] assms(2) Some Inr by (simp add: pauseFor_def)
    ultimately have "books (1 + 1) d d'" by (rule books_seq)
    then show ?thesis by (simp add: numeral_2_eq_2)
  qed
qed

lemma books_header_only:
  assumes "res_inv d" and "fmlookup (d_byID d) i = Some e" and "e_j e' = e_j e"
  shows "books 1 d (putEntry i e' d)"
  by (rule books_header [OF assms(1,2)])
    (use assms(3) res_inv_entry [OF assms(1,2)] in \<open>simp_all add: lease_ok_def\<close>)

lemma books_resume:
  assumes "res_inv d" and "resume i x byUser d = (err, d')"
  shows "books 1 d d'"
proof (cases "lookupFor i x d")
  case None
  then show ?thesis using assms books_refl by (simp add: resume_def)
next
  case (Some e)
  note l = lookupFor_Some [OF Some]
  let ?e = "if h_Unwanted (e_h e) = StateBlocked then e\<lparr>e_h := (e_h e)\<lparr>h_Unwanted := StateApproved\<rparr>\<rparr> else e"
  consider "d' = d" | "d' = putEntry i ?e d" | j' where "SetIntent IntentRun (e_j e) = Inr j'" "d' = putEntry i (?e\<lparr>e_j := j'\<rparr>) d"
    using assms(2) Some by (auto simp: resume_def Let_def split: if_splits sum.splits)
  then show ?thesis
  proof cases
    case 1
    then show ?thesis using books_refl [OF assms(1)] by simp
  next
    case 2
    then show ?thesis using books_header_only [OF assms(1) l, of ?e] by simp
  next
    case (3 j')
    then show ?thesis using books_intent [OF assms(1) l 3(1), of "?e\<lparr>e_j := j'\<rparr>"] by simp
  qed
qed

lemma books_BlockUnwanted:
  assumes "res_inv d" and "BlockUnwanted i inst pause now d = (r, d')"
  shows "books 2 d d'"
proof (cases "lookupFor i (Some inst) d")
  case None
  then show ?thesis using assms books_refl by (simp add: BlockUnwanted_def)
next
  case (Some e)
  note l = lookupFor_Some [OF Some]
  let ?e = "e\<lparr>e_h := (e_h e)\<lparr>h_Unwanted := (if pause then StateBlocked else StateFailOwed)\<rparr>\<rparr>"
  consider "d' = d" | "d' = putEntry i ?e d"
    | j' err where "SetIntent IntentPause (e_j e) = Inr j'" "yieldPaused i inst now (putEntry i (?e\<lparr>e_j := j'\<rparr>) d) = (err, d')"
    using assms(2) Some by (auto simp: BlockUnwanted_def Let_def split: if_splits sum.splits prod.splits)
  then show ?thesis
  proof cases
    case 1
    then show ?thesis using books_refl [OF assms(1)] by simp
  next
    case 2
    then show ?thesis using books_mono [OF books_header_only [OF assms(1) l, of ?e], of 2] by simp
  next
    case (3 j' err)
    have b: "books 1 d (putEntry i (?e\<lparr>e_j := j'\<rparr>) d)" by (rule books_intent [OF assms(1) l 3(1)]) simp
    from books_seq [OF b books_yieldPaused [OF books_res_inv [OF b] 3(2)]] show ?thesis by (simp add: numeral_2_eq_2)
  qed
qed

lemma books_updHeader:
  assumes "res_inv d" and "updHeader i f d = (err, d')"
  shows "books 1 d d'"
  using assms books_refl [OF assms(1)] books_header_only [OF assms(1)]
  by (auto simp: updHeader_def split: option.splits)

lemma books_SetPriority:
  assumes "res_inv d" and "SetPriority i p d = (err, d')"
  shows "books 1 d d'"
  using assms books_refl [OF assms(1)] books_updHeader [OF assms(1)]
  by (auto simp: SetPriority_def split: option.splits)

lemma job_wf_policy_name [simp]:
  "job_wf (j\<lparr>j_policy := p\<rparr>) = job_wf j" "job_wf (j\<lparr>j_name := n\<rparr>) = job_wf j" "job_wf (j\<lparr>j_created := t\<rparr>) = job_wf j"
  by (simp_all add: job_wf_def currentLocked_def cong: option.case_cong)

lemma slot_ok_policy_name [simp]:
  "slot_ok q (j\<lparr>j_policy := p\<rparr>) = slot_ok q j" "slot_ok q (j\<lparr>j_name := n\<rparr>) = slot_ok q j"
  by (simp_all add: slot_ok_def currentLocked_def)

lemma leaseIDs_policy_name [simp]:
  "leaseIDs (j\<lparr>j_policy := p\<rparr>) = leaseIDs j" "leaseIDs (j\<lparr>j_name := n\<rparr>) = leaseIDs j"
  "leaseIDs (j\<lparr>j_created := t\<rparr>) = leaseIDs j"
  by (simp_all add: leaseIDs_def)

lemma books_SetPP:
  assumes "res_inv d" and "SetPP i pp d = (err, d')"
  shows "books 1 d d'"
proof (cases "fmlookup (d_byID d) i")
  case None
  then show ?thesis using assms books_refl by (simp add: SetPP_def)
next
  case (Some e)
  let ?e = "e\<lparr>e_h := (e_h e)\<lparr>h_PP := pp\<rparr>, e_j := (e_j e)\<lparr>j_policy := PP_Policy pp\<rparr>\<rparr>"
  have "books 1 d (putEntry i ?e d)"
    by (rule books_header [OF assms(1) Some])
      (use res_inv_entry [OF assms(1) Some] in \<open>simp_all add: lease_ok_def\<close>)
  then show ?thesis using assms(2) Some by (auto simp: SetPP_def)
qed

lemma books_renameEntry:
  assumes "res_inv d" and "renameEntry i n begun d = (err, d')"
  shows "books 1 d d'"
proof (cases "fmlookup (d_byID d) i")
  case None
  then show ?thesis using assms books_refl by (simp add: renameEntry_def)
next
  case (Some e)
  let ?e = "e\<lparr>e_j := (e_j e)\<lparr>j_name := n\<rparr>, e_h := (e_h e)\<lparr>h_Name := n\<rparr>\<rparr>"
  have "books 1 d (putEntry i ?e d)"
    by (rule books_header [OF assms(1) Some])
      (use res_inv_entry [OF assms(1) Some] in \<open>simp_all add: lease_ok_def\<close>)
  then show ?thesis using assms(2) Some books_refl [OF assms(1), of 1]
    by (auto simp: renameEntry_def split: option.splits if_splits)
qed

lemma LoadProgress_cases:
  assumes "LoadProgress i hydrated wasRes d = (err, d')"
  shows "d' = d \<or> d' = markResident i d"
  using assms by (auto simp: LoadProgress_def split: if_splits)

lemma resident_same [simp]:
  "d_byID (markResident i d) = d_byID d" "d_q (markResident i d) = d_q d"
  "d_byID (markNotResident i d) = d_byID d" "d_q (markNotResident i d) = d_q d"
  by (simp_all add: markResident_def markNotResident_def)

lemma books_LoadProgress:
  assumes "res_inv d" and "LoadProgress i hydrated wasRes d = (err, d')"
  shows "books 0 d d'" and "d_byID d' = d_byID d"
proof -
  show same: "d_byID d' = d_byID d" using LoadProgress_cases [OF assms(2)] by auto
  show "books 0 d d'" by (rule books_cong [OF assms(1) same]) (use LoadProgress_cases [OF assms(2)] in auto)
qed

lemma books_SetName:
  assumes "res_inv d" and "SetName i n hydrated wasRes begun d = (err, d')"
  shows "books 1 d d'"
proof -
  obtain lerr d1 where l: "LoadProgress i hydrated wasRes d = (lerr, d1)" by force
  note b = books_LoadProgress [OF assms(1) l]
  show ?thesis
  proof (cases lerr)
    case None
    then have "books 1 d1 d'" using books_renameEntry [OF books_res_inv [OF b(1)]] assms(2) l by (simp add: SetName_def)
    from books_trans [OF b(1) this] show ?thesis using b(2) by simp
  next
    case (Some e)
    then show ?thesis using assms(2) l books_mono [OF b(1)] by (simp add: SetName_def)
  qed
qed

lemma books_activity:
  assumes "res_inv d" and "fmlookup (d_byID d) i = Some e" and "SetActivity x (e_j e) = Inr j'"
  shows "books 1 d (putEntry i (e\<lparr>e_j := j'\<rparr>) d)"
proof -
  obtain a where a: "currentLocked (e_j e) = Some a" "isOpen a" "j' = setCurrent (setActivity x a) (e_j e)"
    using assms(3) by (auto simp: SetActivity_Inr)
  note e = res_inv_entry [OF assms(1,2)]
  have "job_wf j'" using job_wf_SetActivity [OF _ assms(3)] e(2) by (simp add: lease_ok_def)
  moreover have "slot_ok (d_q d) j'" using e(3) a by (simp add: slot_ok_def setActivity_def isOpen_def)
  ultimately show ?thesis using books_header [OF assms(1,2), of "e\<lparr>e_j := j'\<rparr>"] a(3) by simp
qed

lemma balanced_register:
  assumes "res_inv d" and "fmlookup (d_byID d) (j_id j) = None" and "job_wf j" and "j_lease j = None" and "e_j e = j"
  shows "balanced (fmupd (j_id j) e (d_byID d)) (d_q d)"
proof (rule balancedI)
  have free: "leaseIDs j = {}" using assms(4) by (simp add: leaseIDs_None)
  have nh: "j_id j \<notin> sp_held (q_slots (d_q d))" using assms(1,2) by (auto simp: res_inv_def balanced_def)
  show fresh: "fresh_ids (q_leases (d_q d))" and fin: "finite (sp_held (q_slots (d_q d)))"
    using assms(1) by (simp_all add: res_inv_def balanced_def)
  show "j_id (e_j ek) = k \<and> lease_ok (d_q d) (e_j ek) \<and> slot_ok (d_q d) (e_j ek)"
    if "fmlookup (fmupd (j_id j) e (d_byID d)) k = Some ek" for k ek
    using that res_inv_entry [OF assms(1), of k ek] assms(3,5) free nh fresh fin
    by (auto simp: lease_ok_def slot_ok_def split: if_splits)
  show "\<exists>k ek. fmlookup (fmupd (j_id j) e (d_byID d)) k = Some ek \<and> x \<in> leaseIDs (e_j ek)"
    if x: "x \<in> lp_issued (q_leases (d_q d))" for x
  proof -
    obtain k ek where k: "fmlookup (d_byID d) k = Some ek" "x \<in> leaseIDs (e_j ek)"
      using res_inv_issued [OF assms(1) x] .
    then have "k \<noteq> j_id j" using assms(2) by auto
    with k show ?thesis by (intro exI [of _ k] exI [of _ ek]) simp
  qed
  show "leaseIDs (e_j ek) \<inter> leaseIDs (e_j em) = {}"
    if "fmlookup (fmupd (j_id j) e (d_byID d)) k = Some ek" "fmlookup (fmupd (j_id j) e (d_byID d)) m = Some em" "k \<noteq> m"
    for k m ek em
    using that res_inv_disjoint [OF assms(1), of k ek m em] free assms(5) by (auto split: if_splits)
  show "fmlookup (fmupd (j_id j) e (d_byID d)) k \<noteq> None" if "k \<in> sp_held (q_slots (d_q d))" for k
    using that assms(1) by (auto simp: res_inv_def balanced_def)
qed

lemma register_Inr:
  assumes "register inst j h sq d = Inr d'"
  obtains sq1 where "d' = advanceSeqLocked sq1
      (d\<lparr>d_byID := fmupd (j_id j) \<lparr>e_inst = inst, e_j = j, e_h = h\<lparr>h_Name := j_name j\<rparr>, e_seq = sq1\<rparr> (d_byID d),
         d_order := d_order d @ [j_id j]\<rparr>)"
    and "sq1 = (if sq = seqNext then d_nextSeq d else sq)"
    and "fmlookup (d_byID d) (j_id j) = None" and "d_removing d (j_id j) = 0" and "IsConcrete (h_Priority h)"
    and "admitNameLocked (j_id j) (j_name j) d = None"
  using assms by (auto simp: register_def checkPriority_def Let_def split: option.splits if_splits)

lemma books_register:
  assumes "res_inv d" and "job_wf j" and "j_lease j = None" and "register inst j h sq d = Inr d'"
  shows "books 0 d d'"
  using register_Inr [OF assms(4)]
proof cases
  case (1 sq1)
  let ?e = "\<lparr>e_inst = inst, e_j = j, e_h = h\<lparr>h_Name := j_name j\<rparr>, e_seq = sq1\<rparr>"
  have same: "d_byID d' = fmupd (j_id j) ?e (d_byID d)" "d_q d' = d_q d"
    using 1(1) by (simp_all add: advanceSeqLocked_def)
  have "res_inv d'" unfolding res_inv_def same
    by (rule balanced_register [OF assms(1) 1(3) assms(2,3)]) simp
  then show ?thesis using 1(3) by (auto simp: books_def minted_def quiet_def same)
qed

lemma persist_same [simp]:
  "d_byID (snd (persistIfChanged ok ds df r i d)) = d_byID d" "d_q (snd (persistIfChanged ok ds df r i d)) = d_q d"
  by (auto simp: persistIfChanged_def markWritten_def Let_def split: option.splits)

lemma persistTick_same [simp]: "d_byID (persistTick env i d) = d_byID d" "d_q (persistTick env i d) = d_q d"
  by (simp_all add: persistTick_def)

lemma books_unregister_new:
  assumes "res_inv d" and "books 0 d d1" and "d_byID d2 = d_byID d1" and "d_q d2 = d_q d1"
    and "fmlookup (d_byID d) i = None" and "\<And>e. fmlookup (d_byID d2) i = Some e \<Longrightarrow> leaseIDs (e_j e) = {}"
    and "d_q d1 = d_q d" and "\<And>k. k \<noteq> i \<Longrightarrow> fmlookup (d_byID d1) k = fmlookup (d_byID d) k"
  shows "books 0 d (deregister i d2)"
proof -
  have "books 0 d d2" by (rule books_same [OF assms(2,3,4)])
  have "i \<notin> sp_held (q_slots (d_q d))" using assms(1,5) by (auto simp: res_inv_def balanced_def)
  then have "books 0 d2 (deregister i d2)"
    using books_deregister [OF books_res_inv [OF \<open>books 0 d d2\<close>], of i] assms(4,6,7) by simp
  moreover have "fmlookup (d_byID d2) k \<noteq> None" if "fmlookup (d_byID d) k \<noteq> None" for k
    using that assms(3,5,8) by (cases "k = i") auto
  ultimately show ?thesis using books_trans [OF \<open>books 0 d d2\<close>] by fastforce
qed

lemma books_Add:
  assumes "res_inv d" and "job_wf j" and "j_lease j = None" and "Add inst j h nowU saveOK d = (err, d')"
  shows "books 0 d d'"
proof -
  let ?h = "if h_Added h \<le> 0 then h\<lparr>h_Added := nowU\<rparr> else h"
  let ?j = "j\<lparr>j_created := h_Added ?h * 1000000000\<rparr>"
  have j: "job_wf ?j" "j_lease ?j = None" using assms(2,3) by simp_all
  show ?thesis
  proof (cases "register inst ?j ?h seqNext d")
    case (Inl x)
    then show ?thesis using assms(4) books_refl [OF assms(1)] by (auto simp: Add_def Let_def split: if_splits)
  next
    case (Inr d1)
    note b1 = books_register [OF assms(1) j Inr]
    obtain sq1 where d1: "d1 = advanceSeqLocked sq1
        (d\<lparr>d_byID := fmupd (j_id ?j) \<lparr>e_inst = inst, e_j = ?j, e_h = ?h\<lparr>h_Name := j_name ?j\<rparr>, e_seq = sq1\<rparr> (d_byID d),
           d_order := d_order d @ [j_id ?j]\<rparr>)" and "fmlookup (d_byID d) (j_id ?j) = None"
      using Inr by (rule register_Inr)
    then have new: "fmlookup (d_byID d) (j_id j) = None" by simp
    obtain perr d2 where p: "persistIfChanged saveOK 0 0 [] (j_id j) d1 = (perr, d2)" by force
    then have same: "d_byID d2 = d_byID d1" "d_q d2 = d_q d1"
      using persist_same [of saveOK 0 0 "[]" "j_id j" d1] by simp_all
    let ?d3 = "beginRemovalLocked (j_id j) d2"
    have "books 0 d (deregister (j_id j) ?d3)"
      by (rule books_unregister_new [OF assms(1) b1])
        (use same new assms(3) d1 in \<open>auto simp: beginRemovalLocked_def advanceSeqLocked_def leaseIDs_None [symmetric]\<close>)
    moreover have "books 0 d d2" by (rule books_same [OF b1 same])
    ultimately show ?thesis using assms(4) Inr p books_refl [OF assms(1)]
      by (auto simp: Add_def Let_def beginRemovalFor_def split: if_splits option.splits)
  qed
qed

lemma advanceSeq_same [simp]: "d_byID (advanceSeqLocked n d) = d_byID d" "d_q (advanceSeqLocked n d) = d_q d"
  by (simp_all add: advanceSeqLocked_def)

lemma registered_kept:
  assumes "register inst j h sq d = Inr d'" and "fmlookup (d_byID d) k \<noteq> None"
  shows "fmlookup (d_byID d') k \<noteq> None"
  using register_Inr [OF assms(1)] by cases (use assms(2) in auto)

lemma books_restoreRow:
  assumes "res_inv d"
  shows "books 0 d (restoreRow inst now p d)"
    and "fmlookup (d_byID d) k \<noteq> None \<Longrightarrow> fmlookup (d_byID (restoreRow inst now p d)) k \<noteq> None"
proof -
  let ?d1 = "advanceSeqLocked (p_SortKey p) d"
  let ?rec = "reconstruct (p_ID p) (h_Name (p_Header p)) (p_Policy p) (p_State p) (p_Intent p) now now"
  have b1: "books 0 d ?d1" by (rule books_cong [OF assms]) simp_all
  have mw: "d_byID (markWritten p d2) = d_byID d2" "d_q (markWritten p d2) = d_q d2" for d2
    by (simp_all add: markWritten_def)
  have "books 0 d (restoreRow inst now p d) \<and>
    (fmlookup (d_byID d) k \<noteq> None \<longrightarrow> fmlookup (d_byID (restoreRow inst now p d)) k \<noteq> None)"
  proof (cases ?rec)
    case (Inl x)
    then show ?thesis using b1 by (simp add: restoreRow_def Let_def)
  next
    case (Inr j)
    let ?j = "j\<lparr>j_created := h_Added (p_Header p) * 1000000000\<rparr>"
    have j: "job_wf ?j" "j_lease ?j = None" using reconstruct_steps [OF Inr] reconstruct_fields [OF Inr] by simp_all
    show ?thesis
    proof (cases "register inst ?j (p_Header p) (p_SortKey p) ?d1")
      case (Inl x)
      then show ?thesis using b1 Inr by (simp add: restoreRow_def Let_def)
    next
      case (Inr d2)
      have "books 0 ?d1 d2" by (rule books_register [OF books_res_inv [OF b1] j Inr])
      then have "books (0 + 0) d d2" by (rule books_trans [OF b1]) simp
      then have "books 0 d (markWritten p d2)" using books_same [OF _ mw] by simp
      moreover have "restoreRow inst now p d = markWritten p d2"
        using Inr \<open>?rec = Inr j\<close> by (simp add: restoreRow_def Let_def)
      ultimately show ?thesis using registered_kept [OF Inr, of k] mw by simp
    qed
  qed
  then show "books 0 d (restoreRow inst now p d)"
    and "fmlookup (d_byID d) k \<noteq> None \<Longrightarrow> fmlookup (d_byID (restoreRow inst now p d)) k \<noteq> None" by blast+
qed

lemma books_rows:
  "res_inv d \<Longrightarrow> books 0 d (fold (\<lambda>(inst, p). restoreRow inst now p) rows d)
     \<and> (\<forall>k. fmlookup (d_byID d) k \<noteq> None \<longrightarrow> fmlookup (d_byID (fold (\<lambda>(inst, p). restoreRow inst now p) rows d)) k \<noteq> None)"
proof (induction rows arbitrary: d)
  case Nil
  then show ?case by (simp add: books_refl)
next
  case (Cons r rows)
  obtain inst p where r: "r = (inst, p)" by force
  note b = books_restoreRow(1) [OF Cons.prems, of inst now p] books_restoreRow(2) [OF Cons.prems, where inst = inst and now = now and p = p]
  note ih = Cons.IH [OF books_res_inv [OF b(1)]]
  have "books (0 + 0) d (fold (\<lambda>(inst, p). restoreRow inst now p) rows (restoreRow inst now p d))"
    by (rule books_trans [OF b(1) conjunct1 [OF ih] b(2)])
  then show ?case using ih b(2) by (simp add: r)
qed

lemma books_restore:
  assumes "res_inv d" and "restore reuse loaded now d = (err, d')"
  shows "books 0 d d'"
proof -
  have ph: "d_byID (x\<lparr>d_phase := ph\<rparr>) = d_byID x" "d_q (x\<lparr>d_phase := ph\<rparr>) = d_q x" for x :: Dispatcher and ph by simp_all
  have r0: "res_inv (d\<lparr>d_phase := ph\<rparr>)" for ph using assms(1) res_inv_cong [OF ph] by blast
  have "books 0 d ((fold (\<lambda>(inst, p). restoreRow inst now p) rows (d\<lparr>d_phase := phaseRestoring\<rparr>))\<lparr>d_phase := phaseRestored\<rparr>)" for rows
  proof -
    have f: "books 0 (d\<lparr>d_phase := phaseRestoring\<rparr>) (fold (\<lambda>(inst, p). restoreRow inst now p) rows (d\<lparr>d_phase := phaseRestoring\<rparr>))"
      using books_rows [OF r0] by blast
    have "books 0 d (d\<lparr>d_phase := phaseRestoring\<rparr>)" by (rule books_cong [OF assms(1)]) simp_all
    from books_trans [OF this f] have "books (0 + 0) d (fold (\<lambda>(inst, p). restoreRow inst now p) rows (d\<lparr>d_phase := phaseRestoring\<rparr>))"
      by simp
    then show ?thesis using books_same [OF _ ph] by simp
  qed
  moreover have "books 0 d (d\<lparr>d_phase := ph\<rparr>)" for ph by (rule books_cong [OF assms(1)]) simp_all
  ultimately show ?thesis using assms(2) books_refl [OF assms(1)]
    by (auto simp: restore_def split: if_splits option.splits)
qed

lemma books_evict:
  assumes "res_inv d" and "fmlookup (d_byID d) i = Some e" and "evictCancelledNeverRun ok i e d = (gone, d')"
  shows "books 0 d d'" and "\<not> gone \<Longrightarrow> d' = d"
proof -
  show "\<not> gone \<Longrightarrow> d' = d"
    using assms(3) by (auto simp: evictCancelledNeverRun_def Let_def split: if_splits IdleRemoval.splits)
  note e = res_inv_entry [OF assms(1,2)]
  let ?d1 = "beginRemovalLocked i d"
  have same: "d_byID ?d1 = d_byID d" "d_q ?d1 = d_q d" by (simp_all add: beginRemovalLocked_def)
  have b1: "books 0 d ?d1" by (rule books_cong [OF assms(1) same])
  have b2: "books 0 d (abortRemoval i ?d1)" by (rule books_cong [OF assms(1)]) (simp_all add: same abortRemoval_def)
  have b3: "books 0 d (deregister i ?d1)" if u: "sv_State (sn_State (snapshot (e_j e))) = StateUnset"
  proof -
    have "currentLocked (e_j e) = None" using snapshot_Unset u e(2) by (auto simp: lease_ok_def)
    then have "leaseIDs (e_j e) = {} \<and> i \<notin> sp_held (q_slots (d_q d))"
      using never_run_no_lease e by (auto simp: lease_ok_def slot_ok_def leaseIDs_None)
    then have "books 0 ?d1 (deregister i ?d1)"
      using books_deregister [OF books_res_inv [OF b1], of i] assms(2) same by simp
    from books_trans [OF b1 this] show ?thesis using same by simp
  qed
  show "books 0 d d'"
    using assms(3) b2 b3 books_refl [OF assms(1)]
    by (auto simp: evictCancelledNeverRun_def beginRemovalIfIdle_def Let_def split: if_splits)
qed

lemma queueCall_registered:
  assumes "fmlookup (d_byID d) i = Some e"
  shows "\<exists>j'. fmlookup (d_byID (snd (queueCall i e f d))) i = Some (e\<lparr>e_j := j'\<rparr>)"
    and "fmlookup (d_byID d) k \<noteq> None \<Longrightarrow> fmlookup (d_byID (snd (queueCall i e f d))) k \<noteq> None"
  by (auto simp: queueCall_def split: prod.splits)

lemma books_reconcile:
  assumes "res_inv d" and "fmlookup (d_byID d) i = Some e" and "reconcileResidency hr i e now d = (err, d')"
  shows "books 1 d d'" and "fmlookup (d_byID d) k \<noteq> None \<Longrightarrow> fmlookup (d_byID d') k \<noteq> None"
    and "err = None \<Longrightarrow> d_byID d' = d_byID d \<and> d_q d' = d_q d"
proof -
  let ?c = "queueCall i e (\<lambda>q j. Settle q j OutcomeFailed now) d"
  have "(d_byID d' = d_byID d \<and> d_q d' = d_q d) \<or> err \<noteq> None \<and> d_byID d' = d_byID (snd ?c) \<and> d_q d' = d_q (snd ?c)"
    using assms(3) by (auto simp: reconcileResidency_def Let_def split: if_splits HydrateResult.splits prod.splits option.splits)
  then show "books 1 d d'" "fmlookup (d_byID d) k \<noteq> None \<Longrightarrow> fmlookup (d_byID d') k \<noteq> None"
    "err = None \<Longrightarrow> d_byID d' = d_byID d \<and> d_q d' = d_q d"
    using books_cong [OF assms(1)] books_same [OF books_Settle [OF assms(1,2)]] queueCall_registered(2) [OF assms(2), of k]
    by metis+
qed

lemma books_launch:
  assumes "res_inv d" and "fmlookup (d_byID d) i = Some e"
  shows "books 1 d (snd (launch i e d))" and "fmlookup (d_byID d) k \<noteq> None \<Longrightarrow> fmlookup (d_byID (snd (launch i e d))) k \<noteq> None"
proof -
  let ?c = "snd (queueCall i e Park d)" and ?d' = "snd (launch i e d)"
  have cl: "d_byID d1 = d_byID d \<and> d_q d1 = d_q d" if "claimLaunched i d = (b, d1)" for b d1
    using that by (auto simp: claimLaunched_def split: if_splits prod.splits)
  have "(d_byID ?d' = d_byID d \<and> d_q ?d' = d_q d) \<or> ?d' = ?c"
    by (auto simp: launch_def parkUnlaunched_def parkGrant_def Let_def split: if_splits prod.splits bool.splits dest: cl)
  then show "books 1 d ?d'" "fmlookup (d_byID d) k \<noteq> None \<Longrightarrow> fmlookup (d_byID ?d') k \<noteq> None"
    using books_cong [OF assms(1)] books_Park [OF assms] queueCall_registered(2) [OF assms(2), of k] by metis+
qed

lemma books_after_advance:
  assumes "res_inv d" and "fmlookup (d_byID d) i = Some e"
  shows "books 2 d
    (case reconcileResidency hr i e now d of
       (Some _, d3) \<Rightarrow> persistTick env i d3
     | (None, d3) \<Rightarrow> persistTick env i (snd (launch i e d3)))"
proof -
  obtain err d3 where r: "reconcileResidency hr i e now d = (err, d3)" by force
  note b = books_reconcile [OF assms r]
  show ?thesis
  proof (cases err)
    case (Some x)
    have "books 2 d d3" using books_mono [OF b(1)] by simp
    then have "books 2 d (persistTick env i d3)" by (rule books_same) simp_all
    then show ?thesis using r Some by simp
  next
    case None
    then have same: "d_byID d3 = d_byID d" "d_q d3 = d_q d" using b(3) by auto
    have "books 1 d3 (snd (launch i e d3))" using books_launch(1) [OF books_res_inv [OF b(1)]] assms(2) same by simp
    from books_trans [OF b(1) this] have "books (1 + 1) d (snd (launch i e d3))" using same by simp
    then have "books 2 d (persistTick env i (snd (launch i e d3)))"
      using books_same [of 2 d "snd (launch i e d3)" "persistTick env i (snd (launch i e d3))"] by (simp add: numeral_2_eq_2)
    then show ?thesis using r None by simp
  qed
qed

lemma books_tickJob:
  assumes "res_inv d" and "minted d < 2 ^ 64 - 1"
  shows "books 3 d (tickJob env now i d)"
proof (cases "fmlookup (d_byID d) i")
  case None
  then show ?thesis using books_refl [OF assms(1)] by (simp add: tickJob_def)
next
  case (Some e)
  obtain err d1 where q: "queueCall i e (\<lambda>q j. Advance q j now) d = (err, d1)" by force
  have b1: "books 1 d d1" using books_tickAdvance [OF assms(1) Some assms(2)] q by (metis snd_conv)
  have keep: "fmlookup (d_byID d) k \<noteq> None \<Longrightarrow> fmlookup (d_byID d1) k \<noteq> None" for k
    using queueCall_registered(2) [OF Some] q by (metis snd_conv)
  obtain e1 where e1: "fmlookup (d_byID d1) i = Some e1" using keep [of i] Some by auto
  obtain gone d2 where ev: "evictCancelledNeverRun (t_deleteOK env) i e1 d1 = (gone, d2)" by force
  note b2 = books_evict [OF books_res_inv [OF b1] e1 ev]
  let ?r = "if err \<noteq> None then d1 else if gone then d2 else
      (case reconcileResidency (t_hydrate env) i e1 now d2 of
         (Some _, d3) \<Rightarrow> persistTick env i d3
       | (None, d3) \<Rightarrow> persistTick env i (snd (launch i e1 d3)))"
  have "books 2 d1 ?r"
    using books_refl [OF books_res_inv [OF b1]] books_mono [OF b2(1)] b2(2)
      books_after_advance [OF books_res_inv [OF b1] e1] by (cases gone) auto
  then have "books (1 + 2) d ?r" by (rule books_trans [OF b1 _ keep])
  then have "books 3 d ?r" by (rule books_mono) simp
  moreover have "tickJob env now i d = ?r"
    using Some q e1 ev by (cases err; cases gone) (simp_all add: tickJob_def)
  ultimately show ?thesis by (simp only:)
qed

lemma books_stopJob:
  assumes "res_inv d"
  shows "books 1 d (stopJob env i d)"
proof (cases "fmlookup (d_byID d) i")
  case None
  then show ?thesis using books_refl [OF assms] by (simp add: stopJob_def)
next
  case (Some e)
  then show ?thesis using books_same [OF books_Park [OF assms Some], of "stopJob env i d"] by (simp add: stopJob_def)
qed

section \<open>The books under every interleaving\<close>

lemma books_field:
  assumes "res_inv d" and "d_byID d' = d_byID d" and "d_q d' = d_q d"
  shows "books 3 d d'"
  by (rule books_cong [OF assms])

lemma res_inv_caps:
  assumes "res_inv d"
  shows "res_inv (D_SetCaps l s d)" and "res_inv (D_Pause d)" and "res_inv (D_Resume d)"
  using assms
  by (simp_all add: res_inv_def balanced_def D_SetCaps_def D_Pause_def D_Resume_def SetCaps_def Pause_def Resume_def
      lp_setCapacity_def sp_setCapacity_def fresh_ids_def lease_ok_def slot_ok_def)

text \<open>What an operation keeps when the capacities may be set: growth ends at the capacity in force.\<close>

definition books_any :: "Dispatcher \<Rightarrow> Dispatcher \<Rightarrow> bool" where
  "books_any d d' \<longleftrightarrow> res_inv d' \<and> minted d' \<le> minted d + 3
     \<and> int (lp_outstanding (q_leases (d_q d'))) \<le>
         max (lp_capacity (q_leases (d_q d'))) (int (lp_outstanding (q_leases (d_q d))))
     \<and> int (sp_outstanding (q_slots (d_q d'))) \<le>
         max (sp_capacity (q_slots (d_q d'))) (int (sp_outstanding (q_slots (d_q d))))
     \<and> (\<forall>i \<in> registered d. quiet i d \<longrightarrow> quiet i d')"

lemma books_any: "books k d d' \<Longrightarrow> k \<le> 3 \<Longrightarrow> books_any d d'"
  by (auto simp: books_def books_any_def within_caps_def registered_def)

lemma books_any_gate:
  assumes "res_inv d"
  shows "books_any d (D_SetCaps l s d)" and "books_any d (D_Pause d)" and "books_any d (D_Resume d)"
  using assms res_inv_caps [OF assms]
  by (simp_all add: books_any_def minted_def quiet_def D_SetCaps_def D_Pause_def D_Resume_def SetCaps_def Pause_def
      Resume_def lp_setCapacity_def sp_setCapacity_def lp_outstanding_def sp_outstanding_def)

lemma op_books:
  assumes "disp_op d d'" and "res_inv d" and "minted d < 2 ^ 64 - 1"
  shows "books_any d d'"
  using assms(1)
proof (cases rule: disp_op.cases)
  case (add j inst h nowU saveOK err)
  then show ?thesis using books_any [OF books_Add [OF assms(2)]] by simp
next
  case (tick_job i env now)
  then show ?thesis using books_any [OF books_tickJob [OF assms(2,3)]] by simp
next
  case (settle_failed i e now err)
  have "d' = snd (queueCall i e (\<lambda>q j. Settle q j OutcomeFailed now) d)"
    using liftQ_snd [OF settle_failed(2) [unfolded SettleFailed_def]] .
  then show ?thesis using books_any [OF books_Settle [OF assms(2) settle_failed(1)]] by simp
next
  case (activity i e x j')
  then show ?thesis using books_any [OF books_activity [OF assms(2)]] by simp
next
  case (advance_from i inst frm nxt now err)
  then have "books 1 d d'" using books_handoff [OF assms(2)] books_refl [OF assms(2)]
    by (auto simp: AdvanceFrom_def split: if_splits)
  then show ?thesis by (rule books_any) simp
next
  case (yielded_from i inst frm now err)
  then show ?thesis using books_any [OF books_handoff [OF assms(2)]] by (simp add: YieldedFrom_def)
next
  case (set_fail_reason i inst reason err)
  then have "books 1 d d'" using books_updHeader [OF assms(2)] books_refl [OF assms(2)]
    by (auto simp: SetFailReason_def split: if_splits)
  then show ?thesis by (rule books_any) simp
next
  case (reserve i n)
  then have "d_byID d' = d_byID d" "d_q d' = d_q d"
    by (auto simp: ReserveName_def split: option.splits if_splits)
  then show ?thesis using books_any [OF books_field [OF assms(2)]] by simp
next
  case (occupy_enter i x tok)
  then have "d_byID d' = d_byID d" "d_q d' = d_q d" by (auto simp: occupyEnter_def split: if_splits)
  then show ?thesis using books_any [OF books_field [OF assms(2)]] by simp
next
  case (rm_begin i x)
  then have "d_byID d' = d_byID d" "d_q d' = d_q d"
    by (auto simp: beginRemovalFor_def beginRemovalLocked_def split: option.splits)
  then show ?thesis using books_any [OF books_field [OF assms(2)]] by simp
qed (use assms(2) books_any [OF books_restore] books_any [OF books_cancelFor] books_any [OF books_pauseFor]
    books_any [OF books_resume] books_any [OF books_BlockUnwanted] books_any [OF books_finishedFor]
    books_any [OF books_YieldedFor] books_any [OF books_updHeader] books_any [OF books_SetPriority]
    books_any [OF books_SetPP] books_any [OF books_SetName] books_any [OF books_LoadProgress(1)] books_any [OF books_field] books_any [OF books_stopJob]
    books_any_gate in \<open>simp_all add: SetOperationalError_def SetCategory_def SetScript_def releaseName_def occupyExit_def
      stopBegin_def abortRemoval_def\<close>)

lemma quiet_after_park:
  assumes "res_inv d" and "fmlookup (d_byID d) i = Some e" and "j_intent (e_j e) = IntentCancel"
  shows "quiet i (parkGrant i e d)"
proof -
  note e = res_inv_entry [OF assms(1,2)]
  have "Park (d_q d) (e_j e) = (None, drop_all (d_q d) (e_j e), (e_j e)\<lparr>j_lease := None\<rparr>)"
    using parkLocked_eq [OF e(2)] by (simp add: Park_def)
  then show ?thesis using assms(3) e(1) by (simp add: parkGrant_def queueCall_def quiet_def drop_all_def)
qed

lemma removeEnd_books:
  assumes "res_inv d" and "quiet i d \<or> i \<notin> registered d" and "removeEnd i ok d = (err, d')"
  shows "books_any d d'"
proof -
  have "books 0 d (abortRemoval i d)" by (rule books_cong [OF assms(1)]) (simp_all add: abortRemoval_def)
  moreover have "books 0 d (deregister i d)"
    using books_deregister [OF assms(1), of i] assms(2) by (auto simp: quiet_def registered_def)
  ultimately show ?thesis using assms(3) books_any by (auto simp: removeEnd_def split: if_splits)
qed

definition sys_inv :: "nat \<Rightarrow> Sys \<Rightarrow> bool" where
  "sys_inv n s \<longleftrightarrow> res_inv (fst s) \<and> minted (fst s) \<le> 3 * n \<and> snd s \<subseteq> registered (fst s)
     \<and> (\<forall>i \<in> snd s. quiet i (fst s))"

lemma step_books:
  assumes "disp_step (d, P) (d', P')" and "sys_inv n (d, P)" and "3 * n < 2 ^ 64 - 1"
  shows "books_any d d' \<and> sys_inv (Suc n) (d', P')"
proof -
  have inv: "res_inv d" "minted d \<le> 3 * n" "P \<subseteq> registered d" "\<And>i. i \<in> P \<Longrightarrow> quiet i d"
    using assms(2) by (auto simp: sys_inv_def)
  have lift: "sys_inv (Suc n) (d', P \<inter> registered d')" if "books_any d d'"
    using that inv by (auto simp: books_any_def sys_inv_def)
  from assms(1) show ?thesis
  proof (cases rule: disp_step.cases)
    case op
    then have "books_any d d'" using op_books inv(1,2) assms(3) by simp
    then show ?thesis using lift op by simp
  next
    case (rm_end i ok err)
    then have "books_any d d'" using removeEnd_books [OF inv(1)] inv(4) by blast
    then show ?thesis using lift rm_end by simp
  next
    case (rm_park i x e)
    note l = lookupFor_Some [OF rm_park(3)]
    have d': "d' = parkGrant i e d" using rm_park by (simp add: removePark_def)
    have b: "books 1 d d'" using books_Park [OF inv(1) l] by (simp add: d' parkGrant_def)
    have reg: "registered d' = registered d" using l
      by (auto simp: d' parkGrant_def queueCall_def registered_def split: prod.splits)
    show ?thesis using books_any [OF b] inv rm_park reg l quiet_after_park [OF inv(1) l rm_park(4)]
      by (auto simp: sys_inv_def books_any_def d' registered_def)
  qed
qed

lemma trace_inv:
  assumes "disp_trace n s" and "3 * n < 2 ^ 64 - 1"
  shows "sys_inv n s"
  using assms
proof (induction rule: disp_trace.induct)
  case (start l s)
  show ?case
    by (simp add: sys_inv_def res_inv_def balanced_def minted_def NewDispatcher_def NewQueue_def newLeasePool_def
        newSlotPool_def fresh_ids_def LeaseUnset_def)
next
  case (step n s s')
  obtain d P d' P' where "s = (d, P)" "s' = (d', P')" by (metis surj_pair)
  then show ?case using step step_books [of d P d' P' n] by auto
qed

text \<open>C1: No lease and no slot is ever leaked or granted twice. In every state the dispatcher can
  reach by any interleaving of its operations (adding, restoring, ticks with any answers from the
  store and the residency, worker reports, client calls, removals taken apart at their waits),
  the lease pool has issued exactly the leases the registered jobs hold, no two jobs hold the
  same lease, and every slot in use belongs to a registered job whose open attempt is in a state
  that needs one. The 64-bit lease counter must not wrap, which takes more than 2^62 steps.\<close>

theorem no_resource_leak:
  assumes "disp_trace n (d, P)" and "3 * n < 2 ^ 64 - 1"
  shows "lp_issued (q_leases (d_q d)) = (\<Union>i \<in> registered d. leaseIDs (e_j (the (fmlookup (d_byID d) i))))
    \<and> (\<forall>i k ei ek. fmlookup (d_byID d) i = Some ei \<longrightarrow> fmlookup (d_byID d) k = Some ek \<longrightarrow> i \<noteq> k \<longrightarrow>
         leaseIDs (e_j ei) \<inter> leaseIDs (e_j ek) = {})
    \<and> (\<forall>i \<in> sp_held (q_slots (d_q d)). \<exists>e a. fmlookup (d_byID d) i = Some e \<and> currentLocked (e_j e) = Some a
         \<and> isOpen a \<and> needsSlot (at_state a))
    \<and> (\<forall>i e. fmlookup (d_byID d) i = Some e \<longrightarrow> j_id (e_j e) = i \<and> job_wf (e_j e))"
proof (intro conjI)
  have r: "res_inv d" using trace_inv [OF assms] by (simp add: sys_inv_def)
  note entry = res_inv_entry [OF r]
  show "lp_issued (q_leases (d_q d)) = (\<Union>i \<in> registered d. leaseIDs (e_j (the (fmlookup (d_byID d) i))))"
  proof (intro equalityI subsetI)
    fix x assume "x \<in> lp_issued (q_leases (d_q d))"
    then obtain i e where "fmlookup (d_byID d) i = Some e" "x \<in> leaseIDs (e_j e)" by (rule res_inv_issued [OF r])
    then show "x \<in> (\<Union>i \<in> registered d. leaseIDs (e_j (the (fmlookup (d_byID d) i))))"
      by (intro UN_I [of i]) (simp_all add: registered_def)
  next
    fix x assume "x \<in> (\<Union>i \<in> registered d. leaseIDs (e_j (the (fmlookup (d_byID d) i))))"
    then obtain i e where "fmlookup (d_byID d) i = Some e" "x \<in> leaseIDs (e_j e)" by (auto simp: registered_def)
    then show "x \<in> lp_issued (q_leases (d_q d))" using entry(2) [of i e] by (auto simp: lease_ok_def)
  qed
  show "\<forall>i k ei ek. fmlookup (d_byID d) i = Some ei \<longrightarrow> fmlookup (d_byID d) k = Some ek \<longrightarrow> i \<noteq> k \<longrightarrow>
      leaseIDs (e_j ei) \<inter> leaseIDs (e_j ek) = {}"
    using res_inv_disjoint [OF r] by blast
  show "\<forall>i e. fmlookup (d_byID d) i = Some e \<longrightarrow> j_id (e_j e) = i \<and> job_wf (e_j e)"
    using entry by (auto simp: lease_ok_def)
  show "\<forall>i \<in> sp_held (q_slots (d_q d)). \<exists>e a. fmlookup (d_byID d) i = Some e \<and> currentLocked (e_j e) = Some a
      \<and> isOpen a \<and> needsSlot (at_state a)"
  proof
    fix i assume i: "i \<in> sp_held (q_slots (d_q d))"
    then obtain e where e: "fmlookup (d_byID d) i = Some e" using r unfolding res_inv_def balanced_def by blast
    then show "\<exists>e a. fmlookup (d_byID d) i = Some e \<and> currentLocked (e_j e) = Some a \<and> isOpen a \<and> needsSlot (at_state a)"
      using entry(1,3) [OF e] i by (simp add: slot_ok_def)
  qed
qed

text \<open>The pools stay within their capacities: from a reachable state, a step that makes more
  leases or slots outstanding ends with no more than the capacity then in force (an operator may
  lower a capacity below what is in use, and then nothing is granted until enough is returned).\<close>

theorem pools_grow_within_capacity:
  assumes "disp_trace n (d, P)" and "3 * n < 2 ^ 64 - 1" and "disp_step (d, P) (d', P')"
  shows "int (lp_outstanding (q_leases (d_q d'))) \<le>
      max (lp_capacity (q_leases (d_q d'))) (int (lp_outstanding (q_leases (d_q d))))
    \<and> int (sp_outstanding (q_slots (d_q d'))) \<le>
      max (sp_capacity (q_slots (d_q d'))) (int (sp_outstanding (q_slots (d_q d))))"
  using step_books [OF assms(3) trace_inv [OF assms(1,2)] assms(2)] by (auto simp: books_any_def)

section \<open>A run of the dispatcher\<close>

text \<open>
  A concrete run for the witnesses: an empty store is restored, one job is added, and three ticks
  take it from waiting to fetching.
\<close>

definition header0 :: Header where
  "header0 = \<lparr>h_Name = ''a'', h_Filename = ''a.nzb'', h_Category = [], h_Priority = 0, h_Bytes = 10,
     h_IngestAnomaly = [], h_FailReason = [], h_DuplicateReason = [], h_OperationalError = [],
     h_Unwanted = StateNone, h_Script = [], h_Password = [], h_PP = ClampPP 3, h_NZBBackup = [], h_URL = [],
     h_MD5 = [], h_Added = 7\<rparr>"

definition env0 :: TickEnv where
  "env0 = \<lparr>t_deleteOK = True, t_saveOK = True, t_hydrate = HydrateOK, t_started = 0, t_finished = 0, t_reason = []\<rparr>"

definition run1 :: Dispatcher where
  "run1 = snd (restore False (Some []) 0 (NewDispatcher 2 1))"

definition run2 :: Dispatcher where
  "run2 = snd (Add 0 (New ''j1'' ''a'' pp_all 0) header0 7 True run1)"

definition run3 :: Dispatcher where
  "run3 = tickJob env0 1 ''j1'' run2"

definition run4 :: Dispatcher where
  "run4 = tickJob env0 2 ''j1'' run3"

lemma run1_eq: "run1 = (NewDispatcher 2 1)\<lparr>d_phase := phaseRestored\<rparr>"
  by (simp add: run1_def restore_def NewDispatcher_def rowOrder_def)

definition job0 :: Job where
  "job0 = (New ''j1'' ''a'' pp_all 0)\<lparr>j_created := 7000000000\<rparr>"

definition entry0 :: "Job \<Rightarrow> entry" where
  "entry0 j = \<lparr>e_inst = 0, e_j = j, e_h = header0, e_seq = 0\<rparr>"

lemma run2_eq:
  "run2 = run1\<lparr>d_byID := fmupd ''j1'' (entry0 job0) fmempty, d_order := [''j1''], d_nextSeq := 1,
     d_written := [''j1'' \<mapsto> persistedRow (entry0 job0) 0 0 []]\<rparr>"
proof -
  have "admitNameLocked ''j1'' ''a'' run1 = None"
    by (simp add: admitNameLocked_def badName_def nameHolderLocked_def run1_eq NewDispatcher_def)
  then have "register 0 job0 header0 seqNext run1 = Inr (run1\<lparr>d_byID := fmupd ''j1'' (entry0 job0) fmempty,
      d_order := [''j1''], d_nextSeq := 1\<rparr>)"
    by (simp add: register_def job0_def header0_def New_def checkPriority_def IsConcrete_def NormalPriority_def
        advanceSeqLocked_def run1_eq NewDispatcher_def entry0_def)
  then show ?thesis
    by (simp add: run2_def Add_def run1_eq NewDispatcher_def header0_def job0_def [unfolded New_def] New_def
        persistIfChanged_def lastWritten_def admitsLocked_def markWritten_def Let_def entry0_def persistedRow_def)
qed

definition job1 :: Job where
  "job1 = job0\<lparr>j_attempts := [newAttempt 1]\<rparr>"

definition job2 :: Job where
  "job2 = job1\<lparr>j_lease := Some (NewLease 1)\<rparr>"

definition queue2 :: Queue where
  "queue2 = (NewQueue 2 1)\<lparr>q_leases := \<lparr>lp_capacity = 2, lp_next = 1, lp_issued = {1}\<rparr>\<rparr>"

lemma advance_run2: "Advance (NewQueue 2 1) job0 1 = (None, NewQueue 2 1, job1)"
  by (simp add: Advance_def snapshot_def currentLocked_def job0_def New_def zeroView_def gatedBy_def NewQueue_def
      liftJob_def BeginAttempt_def job1_def)

lemma advance_run3: "Advance (NewQueue 2 1) job1 2 = (None, queue2, job2)"
  by (simp add: Advance_def snapshot_def currentLocked_def job1_def job0_def New_def newAttempt_def view_def gatedBy_def
      NewQueue_def IsSettled_def holds_def needsLease_def needsSlot_def grantFor_def grantLease_def HoldsLease_def
      issue_def newLeasePool_def LeaseUnset_def Grant_def isOpen_def crossed_def IsProduction_def queue2_def job2_def)

lemma render_run:
  "Render (NewQueue 2 1) job1 = \<lparr>rv_State = view (newAttempt 1), rv_Running = False, rv_Reason = NoLease,
     rv_Intent = IntentRun, rv_Holds = False\<rparr>"
  "Render queue2 job2 = \<lparr>rv_State = view (newAttempt 1), rv_Running = True, rv_Reason = NoLease,
     rv_Intent = IntentRun, rv_Holds = True\<rparr>"
  by (simp_all add: Render_def renderLocked_def running_def holds_def waitReason_def gatedBy_def snapshot_def
      currentLocked_def job2_def job1_def job0_def New_def newAttempt_def view_def IsSettled_def IsOpen_def needsLease_def
      needsSlot_def NewQueue_def queue2_def)

lemma run3_eq:
  "run3 = run2\<lparr>d_byID := fmupd ''j1'' (entry0 job1) fmempty,
     d_written := [''j1'' \<mapsto> persistedRow (entry0 job1) 0 0 []]\<rparr>"
proof -
  have q: "d_q run2 = NewQueue 2 1" by (simp add: run2_eq run1_eq NewDispatcher_def)
  have "job1 \<noteq> job0" by (simp add: job1_def job0_def New_def)
  then have "persistedRow (entry0 job1) 0 0 [] \<noteq> persistedRow (entry0 job0) 0 0 []"
    by (simp add: persistedRow_def entry0_def job1_def job0_def New_def snapshot_def currentLocked_def view_def
        newAttempt_def zeroView_def)
  then show ?thesis
    by (simp add: run3_def tickJob_def queueCall_def q advance_run2 putEntry_def evictCancelledNeverRun_def
        reconcileResidency_def launch_def render_run persistTick_def persistIfChanged_def lastWritten_def admitsLocked_def
        markWritten_def env0_def isResident_def Let_def run2_eq run1_eq NewDispatcher_def entry0_def del: render_simps)
      (simp add: persistedRow_def job1_def job0_def New_def snapshot_def currentLocked_def newAttempt_def view_def)
qed

lemma run4_eq:
  "d_byID run4 = fmupd ''j1'' (entry0 job2) fmempty" "d_q run4 = queue2" "d_launched run4 = {''j1''}"
proof -
  have q: "d_q run3 = NewQueue 2 1" by (simp add: run3_eq run2_eq run1_eq NewDispatcher_def)
  have e: "fmlookup (d_byID run3) ''j1'' = Some (entry0 job1)" by (simp add: run3_eq)
  have s: "sv_State (sn_State (snapshot job2)) \<noteq> StateUnset"
    by (simp add: snapshot_def currentLocked_def job2_def job1_def newAttempt_def view_def)
  let ?d = "putEntry ''j1'' (entry0 job2) (run3\<lparr>d_q := queue2\<rparr>)"
  have c: "queueCall ''j1'' (entry0 job1) (\<lambda>q j. Advance q j 2) run3 = (None, ?d)"
    by (simp add: queueCall_def q entry0_def advance_run3)
  let ?d2 = "?d\<lparr>d_resident := {''j1''}, d_launched := {''j1''}\<rparr>"
  have l: "launch ''j1'' (entry0 job2) (?d\<lparr>d_resident := {''j1''}\<rparr>) = (Some Fetching, ?d2)"
    by (simp add: launch_def render_run entry0_def claimLaunched_def admitsLocked_def TryClaim_def run3_eq run2_eq
        run1_eq NewDispatcher_def putEntry_def view_def Let_def del: render_simps)
  have r: "reconcileResidency HydrateOK ''j1'' (entry0 job2) 2 ?d = (None, ?d\<lparr>d_resident := {''j1''}\<rparr>)"
    by (simp add: reconcileResidency_def render_run entry0_def isResident_def markResident_def run3_eq run2_eq run1_eq
        NewDispatcher_def putEntry_def Let_def del: render_simps)
  have ev: "evictCancelledNeverRun True ''j1'' (entry0 job2) ?d = (False, ?d)"
    using s by (simp add: evictCancelledNeverRun_def entry0_def Let_def)
  have t: "run4 = persistTick env0 ''j1'' ?d2"
    unfolding run4_def tickJob_def by (simp add: e c env0_def ev r l)
  have "d_launched (persistTick env0 ''j1'' x) = d_launched x" for x
    by (auto simp: persistTick_def persistIfChanged_def markWritten_def Let_def split: option.splits)
  then show "d_byID run4 = fmupd ''j1'' (entry0 job2) fmempty" "d_q run4 = queue2" "d_launched run4 = {''j1''}"
    by (simp_all add: t run3_eq)
qed

lemma run4_trace: "disp_trace 4 (run4, {})"
proof -
  have op: "disp_trace n (d, {}) \<Longrightarrow> disp_op d d' \<Longrightarrow> disp_trace (n + 1) (d', {})" for n d d'
    using disp_trace.step [OF _ disp_step.op, of n d "{}" d'] by simp
  have "disp_trace 0 (NewDispatcher 2 1, {})" by (rule disp_trace.start)
  moreover have "disp_op (NewDispatcher 2 1) run1" 
    by (rule disp_op.restore [of False "Some []" 0 _ "fst (restore False (Some []) 0 (NewDispatcher 2 1))"]) (simp add: run1_def)
  ultimately have "disp_trace (0 + 1) (run1, {})" by (rule op)
  moreover have "disp_op run1 run2"
  proof (rule disp_op.add)
    show "Add 0 (New ''j1'' ''a'' pp_all 0) header0 7 True run1 =
        (fst (Add 0 (New ''j1'' ''a'' pp_all 0) header0 7 True run1), run2)" by (simp add: run2_def)
    show "j_lease (New ''j1'' ''a'' pp_all 0) = None" by (simp add: New_def)
  qed simp
  ultimately have "disp_trace (0 + 1 + 1) (run2, {})" by (rule op)
  moreover have "disp_op run2 run3" unfolding run3_def by (rule disp_op.tick_job) (simp add: run2_eq)
  ultimately have "disp_trace (0 + 1 + 1 + 1) (run3, {})" by (rule op)
  moreover have "disp_op run3 run4" unfolding run4_def by (rule disp_op.tick_job) (simp add: run3_eq)
  ultimately have "disp_trace (0 + 1 + 1 + 1 + 1) (run4, {})" by (rule op)
  then show ?thesis by (simp add: numeral_eq_Suc)
qed

theorem no_resource_leak_witness:
  "disp_trace 4 (run4, {}) \<and> lp_issued (q_leases (d_q run4)) = {1}
   \<and> (\<Union>i \<in> registered run4. leaseIDs (e_j (the (fmlookup (d_byID run4) i)))) = {1}"
proof -
  have small: "3 * (4::nat) < 2 ^ 64 - 1" by simp
  have iss: "lp_issued (q_leases (d_q run4)) = {1}" by (simp add: run4_eq queue2_def)
  with no_resource_leak [OF run4_trace small] show ?thesis using run4_trace by simp
qed

theorem pools_grow_within_capacity_witness:
  "\<exists>d'. disp_step (run4, {}) (d', {}) \<and> lp_outstanding (q_leases (d_q run4)) = 1
     \<and> int (lp_outstanding (q_leases (d_q d'))) \<le> max (lp_capacity (q_leases (d_q d'))) 1
     \<and> int (sp_outstanding (q_slots (d_q d'))) \<le> max (sp_capacity (q_slots (d_q d'))) 0"
proof -
  have small: "3 * (4::nat) < 2 ^ 64 - 1" by simp
  have st: "disp_step (run4, {}) (D_SetCaps 1 1 run4, {})"
    using disp_step.op [OF disp_op.set_caps, of run4 "{}" 1 1] by simp
  have "lp_outstanding (q_leases (d_q run4)) = 1" "sp_outstanding (q_slots (d_q run4)) = 0"
    by (simp_all add: run4_eq queue2_def lp_outstanding_def sp_outstanding_def NewQueue_def newSlotPool_def)
  with pools_grow_within_capacity [OF run4_trace small st] st show ?thesis
    by (intro exI [of _ "D_SetCaps 1 1 run4"]) simp
qed

end
