(* ===== verification/Registry.thy ===== *)
theory Registry
  imports Dispatch_Safety
begin

text \<open>
  The shape of the registry under every interleaving: which ids it lists, that names are single
  path components held by one job each, and the order in which a tick visits the jobs.
\<close>

section \<open>The invariant\<close>

text \<open>
  \<open>names_ok m r\<close> for the entries \<open>m\<close> and the reservations \<open>r\<close>: every name is a single path
  component, no two jobs share one, and a reserved name is only ever held by its reserver.
\<close>

definition names_ok :: "(string, entry) fmap \<Rightarrow> (string \<Rightarrow> string option) \<Rightarrow> bool" where
  "names_ok m r \<longleftrightarrow>
     (\<forall>i e. fmlookup m i = Some e \<longrightarrow> \<not> badName (h_Name (e_h e)) \<and> IsConcrete (h_Priority (e_h e)))
   \<and> (\<forall>i k ei ek. fmlookup m i = Some ei \<longrightarrow> fmlookup m k = Some ek \<longrightarrow>
        h_Name (e_h ei) = h_Name (e_h ek) \<longrightarrow> i = k)
   \<and> (\<forall>n i k e. r n = Some i \<longrightarrow> fmlookup m k = Some e \<longrightarrow> h_Name (e_h e) = n \<longrightarrow> k = i)"

definition shape_ok :: "Dispatcher \<Rightarrow> bool" where
  "shape_ok d \<longleftrightarrow>
     distinct (d_order d) \<and> set (d_order d) = registered d
   \<and> dom (d_written d) \<subseteq> registered d \<and> d_resident d \<subseteq> registered d \<and> d_launched d \<subseteq> registered d
   \<and> (\<forall>i e. fmlookup (d_byID d) i = Some e \<longrightarrow> e_seq e < d_nextSeq d)"

definition reg_ok :: "Dispatcher \<Rightarrow> bool" where
  "reg_ok d \<longleftrightarrow> names_ok (d_byID d) (d_reservedNames d) \<and> shape_ok d"

lemma admitName_None:
  "admitNameLocked i n d = None \<longleftrightarrow>
     \<not> badName n \<and> (\<forall>k e. fmlookup (d_byID d) k = Some e \<longrightarrow> h_Name (e_h e) = n \<longrightarrow> k = i)
     \<and> (\<forall>h. d_reservedNames d n = Some h \<longrightarrow> h = i)"
  by (auto simp: admitNameLocked_def nameHolderLocked_def fmpred_iff split: option.splits)

lemma names_okD:
  assumes "names_ok m r"
  shows "fmlookup m i = Some e \<Longrightarrow> \<not> badName (h_Name (e_h e)) \<and> IsConcrete (h_Priority (e_h e))"
    and "fmlookup m i = Some ei \<Longrightarrow> fmlookup m k = Some ek \<Longrightarrow> h_Name (e_h ei) = h_Name (e_h ek) \<Longrightarrow> i = k"
    and "r (h_Name (e_h e)) = Some h \<Longrightarrow> fmlookup m i = Some e \<Longrightarrow> i = h"
  using assms by (auto simp: names_ok_def)

lemma names_okI:
  assumes "\<And>i e. fmlookup m i = Some e \<Longrightarrow> \<not> badName (h_Name (e_h e)) \<and> IsConcrete (h_Priority (e_h e))"
    and "\<And>i k ei ek. fmlookup m i = Some ei \<Longrightarrow> fmlookup m k = Some ek \<Longrightarrow> h_Name (e_h ei) = h_Name (e_h ek) \<Longrightarrow> i = k"
    and "\<And>i e h. r (h_Name (e_h e)) = Some h \<Longrightarrow> fmlookup m i = Some e \<Longrightarrow> i = h"
  shows "names_ok m r"
proof -
  have "\<forall>i e. fmlookup m i = Some e \<longrightarrow> \<not> badName (h_Name (e_h e)) \<and> IsConcrete (h_Priority (e_h e))"
    by (intro allI impI) (rule assms(1))
  moreover have "\<forall>i k ei ek. fmlookup m i = Some ei \<longrightarrow> fmlookup m k = Some ek \<longrightarrow>
      h_Name (e_h ei) = h_Name (e_h ek) \<longrightarrow> i = k"
    by (intro allI impI) (rule assms(2))
  moreover have "\<forall>n h k e. r n = Some h \<longrightarrow> fmlookup m k = Some e \<longrightarrow> h_Name (e_h e) = n \<longrightarrow> k = h"
    by (intro allI impI) (rule assms(3), simp_all)
  ultimately show ?thesis unfolding names_ok_def by (intro conjI)
qed

text \<open>An entry is replaced, or added, under a name the registry admits for its id.\<close>

lemma names_put:
  assumes "names_ok m r" and "\<not> badName (h_Name (e_h e))" and "IsConcrete (h_Priority (e_h e))"
    and fresh: "\<And>k ek. fmlookup m k = Some ek \<Longrightarrow> h_Name (e_h ek) = h_Name (e_h e) \<Longrightarrow> k = i"
    and free: "\<And>h. r (h_Name (e_h e)) = Some h \<Longrightarrow> h = i"
  shows "names_ok (fmupd i e m) r"
proof (rule names_okI)
  note old = names_okD [OF assms(1)]
  show "\<not> badName (h_Name (e_h ek)) \<and> IsConcrete (h_Priority (e_h ek))"
    if "fmlookup (fmupd i e m) k = Some ek" for k ek
    using that old(1) [of k ek] assms(2,3) by (simp split: if_splits)
  show "k = k'"
    if l: "fmlookup (fmupd i e m) k = Some ek" "fmlookup (fmupd i e m) k' = Some ek'"
      and n: "h_Name (e_h ek) = h_Name (e_h ek')" for k k' ek ek'
  proof (cases "k = i")
    case True
    then show ?thesis using l n fresh [of k' ek'] by (auto split: if_splits)
  next
    case False
    then show ?thesis using l n fresh [of k ek] old(2) [of k ek k' ek'] by (auto split: if_splits)
  qed
  show "k = h" if "r (h_Name (e_h ek)) = Some h" "fmlookup (fmupd i e m) k = Some ek" for k ek h
    using that free [of h] old(3) [of ek h k] by (auto split: if_splits)
qed

lemma names_keep:
  assumes "names_ok m r" and "fmlookup m i = Some e" and "h_Name (e_h e') = h_Name (e_h e)"
    and "IsConcrete (h_Priority (e_h e'))"
  shows "names_ok (fmupd i e' m) r"
proof (rule names_put [OF assms(1)])
  note old = names_okD [OF assms(1)]
  show "\<not> badName (h_Name (e_h e'))" using old(1) [OF assms(2)] assms(3) by simp
  show "k = i" if "fmlookup m k = Some ek" "h_Name (e_h ek) = h_Name (e_h e')" for k ek
    using old(2) [OF that(1) assms(2)] that(2) assms(3) by simp
  show "h = i" if "r (h_Name (e_h e')) = Some h" for h using old(3) [OF _ assms(2), of h] that assms(3) by simp
qed (rule assms(4))

lemma names_drop: "names_ok m r \<Longrightarrow> names_ok (fmdrop i m) r"
  by (auto simp: names_ok_def)

lemma reg_put:
  assumes "reg_ok d" and "fmlookup (d_byID d) i = Some e" and "h_Name (e_h e') = h_Name (e_h e)"
    and "IsConcrete (h_Priority (e_h e')) \<or> h_Priority (e_h e') = h_Priority (e_h e)" and "e_seq e' = e_seq e"
  shows "reg_ok (putEntry i e' d)"
proof -
  have "IsConcrete (h_Priority (e_h e'))" using assms by (auto simp: reg_ok_def names_ok_def)
  then have "names_ok (fmupd i e' (d_byID d)) (d_reservedNames d)"
    using names_keep assms by (auto simp: reg_ok_def)
  moreover have "registered (putEntry i e' d) = registered d" using assms(2) by (auto simp: registered_def)
  ultimately show ?thesis using assms by (auto simp: reg_ok_def shape_ok_def)
qed

lemma reg_queue [simp]: "reg_ok (d\<lparr>d_q := q\<rparr>) = reg_ok d"
  by (simp add: reg_ok_def shape_ok_def registered_def)

lemma reg_phase [simp]: "reg_ok (d\<lparr>d_phase := p\<rparr>) = reg_ok d" "reg_ok (d\<lparr>d_stopped := b\<rparr>) = reg_ok d"
  "reg_ok (d\<lparr>d_removing := f\<rparr>) = reg_ok d" "reg_ok (d\<lparr>d_occupiers := g\<rparr>) = reg_ok d"
  "reg_ok (d\<lparr>d_occupancyTokens := h\<rparr>) = reg_ok d"
  by (simp_all add: reg_ok_def shape_ok_def registered_def)

lemma reg_clearLaunched: "reg_ok d \<Longrightarrow> reg_ok (clearLaunched i d)"
  by (auto simp: reg_ok_def shape_ok_def registered_def clearLaunched_def Release_def)

lemma reg_resident: "reg_ok d \<Longrightarrow> reg_ok (markResident i d)" "reg_ok d \<Longrightarrow> reg_ok (markNotResident i d)"
  by (auto simp: reg_ok_def shape_ok_def registered_def markResident_def markNotResident_def)

lemma reg_markWritten: "reg_ok d \<Longrightarrow> reg_ok (markWritten p d)"
  by (auto simp: reg_ok_def shape_ok_def registered_def markWritten_def)

lemma reg_persist: "reg_ok d \<Longrightarrow> reg_ok (snd (persistIfChanged ok ds df r i d))"
  by (auto simp: persistIfChanged_def Let_def reg_markWritten split: option.splits)

lemma reg_persistTick: "reg_ok d \<Longrightarrow> reg_ok (persistTick env i d)"
  by (simp add: persistTick_def reg_persist)

lemma reg_claim: "reg_ok d \<Longrightarrow> reg_ok (snd (claimLaunched i d))"
  by (auto simp: reg_ok_def shape_ok_def registered_def claimLaunched_def admitsLocked_def TryClaim_def split: prod.splits)

lemma reg_deregister:
  assumes "reg_ok d"
  shows "reg_ok (deregister i d)"
proof -
  have "names_ok (fmdrop i (d_byID d)) (d_reservedNames d)" using assms names_drop by (auto simp: reg_ok_def)
  moreover have "distinct (remove1 i (d_order d))" "set (remove1 i (d_order d)) = registered d - {i}"
    using assms by (auto simp: reg_ok_def shape_ok_def set_remove1_eq)
  ultimately show ?thesis using assms
    by (auto simp: reg_ok_def shape_ok_def registered_def deregister_def clearLaunched_def Release_def split: if_splits)
qed

lemma reg_register:
  assumes "reg_ok d" and "register inst j h sq d = Inr d'"
  shows "reg_ok d'"
  using register_Inr [OF assms(2)]
proof cases
  case (1 sq1)
  let ?e = "\<lparr>e_inst = inst, e_j = j, e_h = h\<lparr>h_Name := j_name j\<rparr>, e_seq = sq1\<rparr>"
  have "names_ok (fmupd (j_id j) ?e (d_byID d)) (d_reservedNames d)"
    by (rule names_put) (use assms(1) 1(5,6) in \<open>auto simp: reg_ok_def admitName_None\<close>)
  moreover have "registered d' = insert (j_id j) (registered d)" "j_id j \<notin> registered d"
    using 1(1,3) by (auto simp: registered_def advanceSeqLocked_def)
  ultimately show ?thesis using assms(1) 1(1)
    by (auto simp: reg_ok_def shape_ok_def advanceSeqLocked_def split: if_splits intro: less_max_iff_disj [THEN iffD2])
qed

section \<open>The operations\<close>

lemma reg_queueCall:
  assumes "reg_ok d" and "fmlookup (d_byID d) i = Some e"
  shows "reg_ok (snd (queueCall i e f d))"
  using reg_put [of "d\<lparr>d_q := q\<rparr>" i e "e\<lparr>e_j := j\<rparr>" for q j] assms
  by (auto simp: queueCall_def split: prod.splits)

lemma reg_handoff:
  assumes "reg_ok d" and "handoff i inst frm nxt now d = (err, d')"
  shows "reg_ok d'"
proof (cases "lookupFor i (Some inst) d")
  case None
  then show ?thesis using assms by (simp add: handoff_def)
next
  case (Some e)
  note l = lookupFor_Some [OF Some]
  have "reg_ok (putEntry i (e\<lparr>e_j := j\<rparr>) (d\<lparr>d_q := q\<rparr>))" for j q
    using reg_put [of "d\<lparr>d_q := q\<rparr>" i e "e\<lparr>e_j := j\<rparr>"] assms(1) l by simp
  then show ?thesis using assms Some reg_clearLaunched by (auto simp: handoff_def split: prod.splits bool.splits)
qed

lemma reg_liftQ:
  assumes "reg_ok d" and "lookupFor i x d = Some e" and "liftQ (queueCall i e f d) = (err, d')"
  shows "reg_ok d'" and "reg_ok (clearLaunched i d')"
  using reg_queueCall [OF assms(1) lookupFor_Some [OF assms(2)], of f] liftQ_snd [OF assms(3)] reg_clearLaunched by auto

lemma reg_reports:
  assumes "reg_ok d"
  shows "finishedFor i x o' now d = (err, d') \<Longrightarrow> reg_ok d'" and "YieldedFor i x d = (err, d') \<Longrightarrow> reg_ok d'"
    and "cancelFor i x now d = (err, d') \<Longrightarrow> reg_ok d'"
  using assms reg_liftQ [OF assms] reg_clearLaunched
  by (auto simp: finishedFor_def YieldedFor_def cancelFor_def split: option.splits if_splits prod.splits)

lemma reg_yieldPaused:
  assumes "reg_ok d" and "yieldPaused i inst now d = (err, d')"
  shows "reg_ok d'"
proof -
  obtain err1 d1 where y: "YieldedFrom i inst Fetching now d = (err1, d1)" by force
  then have "reg_ok d1" using reg_handoff [OF assms(1)] by (simp add: YieldedFrom_def)
  moreover have "d' = d1" using assms(2) y by (auto simp: yieldPaused_def split: option.splits DispError.splits)
  ultimately show ?thesis by simp
qed

lemma reg_pauseFor:
  assumes "reg_ok d" and "pauseFor i x now d = (err, d')"
  shows "reg_ok d'"
proof (cases "lookupFor i x d")
  case None
  then show ?thesis using assms by (simp add: pauseFor_def)
next
  case (Some e)
  have "reg_ok (putEntry i (e\<lparr>e_j := j\<rparr>) d)" for j
    using reg_put [OF assms(1) lookupFor_Some [OF Some], of "e\<lparr>e_j := j\<rparr>"] by simp
  then show ?thesis using assms Some by (auto simp: pauseFor_def split: sum.splits dest: reg_yieldPaused [rotated])
qed

lemma reg_resume:
  assumes "reg_ok d" and "resume i x byUser d = (err, d')"
  shows "reg_ok d'"
proof (cases "lookupFor i x d")
  case None
  then show ?thesis using assms by (simp add: resume_def)
next
  case (Some e)
  note put = reg_put [OF assms(1) lookupFor_Some [OF Some]]
  show ?thesis using assms Some put by (auto simp: resume_def Let_def split: if_splits sum.splits)
qed

lemma reg_BlockUnwanted:
  assumes "reg_ok d" and "BlockUnwanted i inst ps now d = (r, d')"
  shows "reg_ok d'"
proof (cases "lookupFor i (Some inst) d")
  case None
  then show ?thesis using assms by (simp add: BlockUnwanted_def)
next
  case (Some e)
  note put = reg_put [OF assms(1) lookupFor_Some [OF Some]]
  let ?e = "e\<lparr>e_h := (e_h e)\<lparr>h_Unwanted := (if ps then StateBlocked else StateFailOwed)\<rparr>\<rparr>"
  have "reg_ok (putEntry i ?e d)" "reg_ok (putEntry i (?e\<lparr>e_j := j\<rparr>) d)" for j
    using put [of ?e] put [of "?e\<lparr>e_j := j\<rparr>"] by simp_all
  then show ?thesis using assms Some
    by (auto simp: BlockUnwanted_def Let_def split: if_splits sum.splits prod.splits dest: reg_yieldPaused [rotated])
qed

lemma reg_updHeader:
  assumes "reg_ok d" and "updHeader i f d = (err, d')" and "\<And>h. h_Name (f h) = h_Name h"
    and "\<And>h. IsConcrete (h_Priority (f h)) \<or> h_Priority (f h) = h_Priority h"
  shows "reg_ok d'"
  using assms reg_put [OF assms(1), of i] by (auto simp: updHeader_def split: option.splits)

lemma reg_setters:
  assumes "reg_ok d"
  shows "SetFailReason i inst reason d = (err, d') \<Longrightarrow> reg_ok d'"
    and "SetOperationalError i msg d = (err, d') \<Longrightarrow> reg_ok d'" and "SetCategory i c d = (err, d') \<Longrightarrow> reg_ok d'"
    and "SetScript i sc d = (err, d') \<Longrightarrow> reg_ok d'" and "SetPriority i p d = (err, d') \<Longrightarrow> reg_ok d'"
    and "SetPP i pp d = (err, d') \<Longrightarrow> reg_ok d'"
proof -
  show "SetFailReason i inst reason d = (err, d') \<Longrightarrow> reg_ok d'"
    using assms reg_updHeader [OF assms, of i "\<lambda>h. h\<lparr>h_FailReason := reason\<rparr>"] by (auto simp: SetFailReason_def split: if_splits)
  show "SetOperationalError i msg d = (err, d') \<Longrightarrow> reg_ok d'"
    using reg_updHeader [OF assms, of i "\<lambda>h. h\<lparr>h_OperationalError := msg\<rparr>"] by (simp add: SetOperationalError_def)
  show "SetCategory i c d = (err, d') \<Longrightarrow> reg_ok d'"
    using reg_updHeader [OF assms, of i "\<lambda>h. h\<lparr>h_Category := c\<rparr>"] by (simp add: SetCategory_def)
  show "SetScript i sc d = (err, d') \<Longrightarrow> reg_ok d'"
    using reg_updHeader [OF assms, of i "\<lambda>h. h\<lparr>h_Script := sc\<rparr>"] by (simp add: SetScript_def)
  show "SetPriority i p d = (err, d') \<Longrightarrow> reg_ok d'"
    using assms reg_updHeader [OF assms, of i "\<lambda>h. h\<lparr>h_Priority := p\<rparr>"]
    by (auto simp: SetPriority_def checkPriority_def split: if_splits)
  show "SetPP i pp d = (err, d') \<Longrightarrow> reg_ok d'"
    using assms reg_put [OF assms, of i] by (auto simp: SetPP_def split: option.splits)
qed

lemma reg_renameEntry:
  assumes "reg_ok d" and "renameEntry i n begun d = (err, d')"
  shows "reg_ok d'"
proof (cases "fmlookup (d_byID d) i = None \<or> admitNameLocked i n d \<noteq> None \<or> begun")
  case True
  then show ?thesis using assms by (auto simp: renameEntry_def split: option.splits)
next
  case False
  then obtain e where e: "fmlookup (d_byID d) i = Some e" by auto
  let ?e = "e\<lparr>e_j := (e_j e)\<lparr>j_name := n\<rparr>, e_h := (e_h e)\<lparr>h_Name := n\<rparr>\<rparr>"
  have "names_ok (fmupd i ?e (d_byID d)) (d_reservedNames d)"
    by (rule names_put) (use assms(1) False e in \<open>auto simp: reg_ok_def admitName_None names_ok_def\<close>)
  moreover have "registered (putEntry i ?e d) = registered d" using e by (auto simp: registered_def)
  ultimately have "reg_ok (putEntry i ?e d)" using assms(1) e by (auto simp: reg_ok_def shape_ok_def)
  then show ?thesis using assms(2) False e by (auto simp: renameEntry_def)
qed

lemma reg_LoadProgress:
  assumes "reg_ok d" and "LoadProgress i hydrated wasRes d = (err, d')"
  shows "reg_ok d'"
  using assms(1) reg_resident(1) [OF assms(1), of i] LoadProgress_cases [OF assms(2)] by auto

lemma reg_SetName:
  assumes "reg_ok d" and "SetName i n hydrated wasRes begun d = (err, d')"
  shows "reg_ok d'"
proof -
  obtain lerr d1 where l: "LoadProgress i hydrated wasRes d = (lerr, d1)" by force
  note r = reg_LoadProgress [OF assms(1) l]
  show ?thesis using assms(2) l r reg_renameEntry [OF r] by (cases lerr) (simp_all add: SetName_def)
qed

lemma reg_names:
  assumes "reg_ok d"
  shows "ReserveName i n d = Inr d' \<Longrightarrow> reg_ok d'" and "reg_ok (releaseName i n d)"
proof -
  show "reg_ok (releaseName i n d)"
    using assms by (auto simp: releaseName_def reg_ok_def names_ok_def shape_ok_def registered_def)
  assume r: "ReserveName i n d = Inr d'"
  then have a: "admitNameLocked i n d = None" and d': "d' = d\<lparr>d_reservedNames := (d_reservedNames d)(n \<mapsto> i)\<rparr>"
    by (auto simp: ReserveName_def split: option.splits if_splits)
  have "names_ok (d_byID d) ((d_reservedNames d)(n \<mapsto> i))"
    by (rule names_okI) (use assms a names_okD in \<open>auto simp: reg_ok_def admitName_None split: if_splits\<close>)
  then show "reg_ok d'" using assms by (simp add: d' reg_ok_def shape_ok_def registered_def)
qed

lemma reg_advanceSeq: "reg_ok d \<Longrightarrow> reg_ok (advanceSeqLocked n d)"
  by (fastforce simp: reg_ok_def shape_ok_def registered_def advanceSeqLocked_def less_max_iff_disj)

lemma reg_Add:
  assumes "reg_ok d" and "Add inst j h nowU saveOK d = (err, d')"
  shows "reg_ok d'"
proof -
  have "reg_ok d2" if "register inst j1 h1 sq d = Inr d1" "persistIfChanged ok a b c i d1 = (perr, d2)" for j1 h1 sq d1 ok a b c i perr d2
    using reg_persist [OF reg_register [OF assms(1) that(1)], of ok a b c i] that(2) by simp
  then show ?thesis using assms
    by (auto simp: Add_def Let_def beginRemovalFor_def beginRemovalLocked_def
        split: if_splits sum.splits option.splits prod.splits intro!: reg_deregister)
qed

lemma reg_restoreRow: "reg_ok d \<Longrightarrow> reg_ok (restoreRow inst now p d)"
  by (auto simp: restoreRow_def Let_def reg_advanceSeq split: sum.splits
      intro!: reg_markWritten dest: reg_register [rotated])

lemma reg_restore:
  assumes "reg_ok d" and "restore reuse loaded now d = (err, d')"
  shows "reg_ok d'"
proof -
  have "reg_ok x \<Longrightarrow> reg_ok (fold (\<lambda>(inst, p). restoreRow inst now p) rows x)" for rows x
    by (induction rows arbitrary: x) (auto simp: reg_restoreRow split: prod.splits)
  then show ?thesis using assms by (auto simp: restore_def split: if_splits option.splits)
qed

lemma reg_evict:
  assumes "reg_ok d" and "evictCancelledNeverRun ok i e d = (gone, d')"
  shows "reg_ok d'"
  using assms
  by (auto simp: evictCancelledNeverRun_def beginRemovalIfIdle_def beginRemovalLocked_def abortRemoval_def Let_def
      split: if_splits intro!: reg_deregister)

lemma reg_reconcile:
  assumes "reg_ok d" and "fmlookup (d_byID d) i = Some e" and "reconcileResidency hr i e now d = (err, d')"
  shows "reg_ok d'"
proof -
  have "reg_ok d1" if "queueCall i e f d = (err1, d1)" for f err1 d1
    using reg_queueCall [OF assms(1,2), of f] that by simp
  then show ?thesis using assms
    by (auto simp: reconcileResidency_def Let_def split: if_splits HydrateResult.splits prod.splits option.splits
        intro!: reg_resident)
qed

lemma reg_launch:
  assumes "reg_ok d" and "fmlookup (d_byID d) i = Some e"
  shows "reg_ok (snd (launch i e d))"
proof -
  have "reg_ok d1" if "claimLaunched i d = (b, d1)" for b d1 using reg_claim [OF assms(1), of i] that by simp
  then show ?thesis using assms reg_queueCall [OF assms]
    by (auto simp: launch_def parkUnlaunched_def parkGrant_def Let_def split: prod.splits bool.splits intro!: reg_clearLaunched)
qed

lemma reg_tickJob:
  assumes "reg_ok d"
  shows "reg_ok (tickJob env now i d)"
proof (cases "fmlookup (d_byID d) i")
  case None
  then show ?thesis using assms by (simp add: tickJob_def)
next
  case (Some e)
  obtain err d1 where q: "queueCall i e (\<lambda>q j. Advance q j now) d = (err, d1)" by force
  have r1: "reg_ok d1" using reg_queueCall [OF assms Some, of "\<lambda>q j. Advance q j now"] q by simp
  obtain e1 where e1: "fmlookup (d_byID d1) i = Some e1"
    using queueCall_registered(1) [OF Some, of "\<lambda>q j. Advance q j now"] q by auto
  obtain gone d2 where ev: "evictCancelledNeverRun (t_deleteOK env) i e1 d1 = (gone, d2)" by force
  have r2: "reg_ok d2" by (rule reg_evict [OF r1 ev])
  have same: "d2 = d1" if "\<not> gone"
    using ev that by (auto simp: evictCancelledNeverRun_def Let_def split: if_splits IdleRemoval.splits)
  obtain rerr d3 where rc: "reconcileResidency (t_hydrate env) i e1 now d2 = (rerr, d3)" by force
  show ?thesis
  proof (cases "err \<noteq> None \<or> gone")
    case True
    then show ?thesis using r1 r2 Some q e1 ev by (cases err) (auto simp: tickJob_def)
  next
    case False
    then have d2: "d2 = d1" "err = None" using same by auto
    have r3: "reg_ok d3" by (rule reg_reconcile [OF r2 _ rc]) (simp add: d2 e1)
    have "reg_ok (snd (launch i e1 d3))" if "rerr = None"
    proof (rule reg_launch [OF r3])
      have "d_byID d3 = d_byID d2" using rc that
        by (auto simp: reconcileResidency_def Let_def split: if_splits HydrateResult.splits prod.splits option.splits)
      then show "fmlookup (d_byID d3) i = Some e1" by (simp add: d2 e1)
    qed
    moreover have "tickJob env now i d = (case rerr of Some _ \<Rightarrow> persistTick env i d3 | None \<Rightarrow> persistTick env i (snd (launch i e1 d3)))"
      using Some q e1 ev rc False d2 by (cases rerr) (simp_all add: tickJob_def)
    ultimately show ?thesis using r3 by (cases rerr) (simp_all add: reg_persistTick)
  qed
qed

lemma reg_stopJob: "reg_ok d \<Longrightarrow> reg_ok (stopJob env i d)"
  by (auto simp: stopJob_def split: option.splits
      intro!: reg_clearLaunched reg_resident reg_persistTick reg_queueCall)

lemma op_reg:
  assumes "disp_op d d'" and "reg_ok d"
  shows "reg_ok d'"
  using assms
proof (cases rule: disp_op.cases)
  case (settle_failed i e now err)
  then show ?thesis using reg_queueCall [OF assms(2) settle_failed(1)] liftQ_snd [OF settle_failed(2) [unfolded SettleFailed_def]] by simp
next
  case (activity i e x j')
  then show ?thesis using reg_put [OF assms(2), of i e "e\<lparr>e_j := j'\<rparr>"] by simp
next
  case (advance_from i inst frm nxt now err)
  then show ?thesis using assms(2) reg_handoff [OF assms(2)] by (auto simp: AdvanceFrom_def split: if_splits)
next
  case (yielded_from i inst frm now err)
  then show ?thesis using reg_handoff [OF assms(2)] by (simp add: YieldedFrom_def)
next
  case (reserve i n)
  then show ?thesis by (rule reg_names(1) [OF assms(2)])
next
  case (occupy_enter i x tok)
  then show ?thesis using assms(2) by (auto simp: occupyEnter_def split: if_splits)
next
  case (rm_begin i x)
  then show ?thesis using assms(2) by (auto simp: beginRemovalFor_def beginRemovalLocked_def split: option.splits)
qed (use assms(2) reg_Add [OF assms(2)] reg_restore [OF assms(2)] reg_reports [OF assms(2)] reg_pauseFor [OF assms(2)]
    reg_resume [OF assms(2)] reg_BlockUnwanted [OF assms(2)] reg_setters [OF assms(2)] reg_SetName [OF assms(2)]
    reg_LoadProgress [OF assms(2)]
    reg_names(2) [OF assms(2)] in \<open>simp_all add: reg_tickJob reg_stopJob occupyExit_def stopBegin_def D_Pause_def
      D_Resume_def D_SetCaps_def abortRemoval_def\<close>)

lemma step_reg:
  assumes "disp_step (d, P) (d', P')" and "reg_ok d"
  shows "reg_ok d'"
  using assms(1)
proof (cases rule: disp_step.cases)
  case op
  then show ?thesis using op_reg assms(2) by simp
next
  case (rm_park i x e)
  then show ?thesis using reg_queueCall [OF assms(2) lookupFor_Some [OF rm_park(3)], of Park]
    by (simp add: removePark_def parkGrant_def)
next
  case (rm_end i ok err)
  then show ?thesis using reg_deregister [OF assms(2), of i] assms(2)
    by (auto simp: removeEnd_def abortRemoval_def split: if_splits)
qed

lemma trace_reg:
  assumes "disp_trace n s"
  shows "reg_ok (fst s)"
  using assms
proof (induction rule: disp_trace.induct)
  case (start l s)
  show ?case by (simp add: reg_ok_def names_ok_def shape_ok_def registered_def NewDispatcher_def)
next
  case (step n s s')
  obtain d P d' P' where "s = (d, P)" "s' = (d', P')" by (metis surj_pair)
  then show ?case using step step_reg [of d P d' P'] by auto
qed

section \<open>The order of a tick\<close>

text \<open>
  Sorting by priority with the position as tie-break, as the comparator does, is the stable sort by
  priority alone, because the positions ascend.
\<close>

lemma insort_position:
  "\<forall>y \<in> set xs. pos x < pos y \<Longrightarrow> insort_key (\<lambda>z. (k z, pos z :: nat)) x xs = insort_key k x xs"
  by (induction xs) (auto simp: less_eq_prod_def)

lemma sort_position:
  "sorted_wrt (<) (map pos xs) \<Longrightarrow> sort_key (\<lambda>z. (k z, pos z :: nat)) xs = sort_key k xs"
  by (induction xs) (simp_all add: insort_position)

lemma map_sort_key: "map h (sort_key (\<lambda>z. f (h z)) xs) = sort_key f (map h xs)"
proof -
  have "map h (insort_key (\<lambda>z. f (h z)) x ys) = insort_key f (h x) (map h ys)" for x ys by (induction ys) auto
  then show ?thesis by (induction xs) auto
qed

lemma sort_ranked:
  "map fst (sort_key (\<lambda>(e, pos). (f e :: int, pos :: nat)) (zip es [0..<length es])) = sort_key f es"
proof -
  have "sorted_wrt (<) (map snd (zip es [0..<length es]))" by simp
  then have "sort_key (\<lambda>z. (f (fst z), snd z)) (zip es [0..<length es]) = sort_key (\<lambda>z. f (fst z)) (zip es [0..<length es])"
    by (rule sort_position)
  then show ?thesis using map_sort_key [of fst f "zip es [0..<length es]"] by (simp add: case_prod_beta')
qed

lemma those_map_Some: "(\<And>x. x \<in> set xs \<Longrightarrow> f x = Some (g x)) \<Longrightarrow> those (map f xs) = Some (map g xs)"
  by (induction xs) auto

lemma distinct_singleton_list: "distinct xs \<Longrightarrow> set xs = {x} \<Longrightarrow> xs = [x]"
  by (cases xs; cases "tl xs") (auto simp: doubleton_eq_iff insert_eq_iff)

text \<open>A tick visits the jobs in priority order. In every reachable state the order exists (no id
  in it is unregistered), and it is the queue order sorted stably by descending priority: every
  registered job appears exactly once, a higher priority always comes first, and among equal
  priorities the job queued earlier comes first.\<close>

theorem dispatch_order_by_priority:
  assumes "disp_trace n (d, P)"
  shows "dispatchOrderLocked d = Some (sort_key (\<lambda>e. - h_Priority (e_h e)) (map (\<lambda>i. the (fmlookup (d_byID d) i)) (d_order d)))
    \<and> distinct (d_order d) \<and> set (d_order d) = registered d"
proof -
  have sh: "distinct (d_order d)" "set (d_order d) = registered d"
    using trace_reg [OF assms] by (auto simp: reg_ok_def shape_ok_def)
  have "those (map (fmlookup (d_byID d)) (d_order d)) = Some (map (\<lambda>i. the (fmlookup (d_byID d) i)) (d_order d))"
    by (rule those_map_Some) (use sh(2) in \<open>auto simp: registered_def\<close>)
  then show ?thesis
    using sh sort_ranked [of "\<lambda>e. - h_Priority (e_h e)" "map (\<lambda>i. the (fmlookup (d_byID d) i)) (d_order d)"]
    by (simp add: dispatchOrderLocked_def Let_def)
qed

theorem dispatch_order_by_priority_witness:
  "dispatchOrderLocked run4 = Some [entry0 job2]"
proof -
  have "d_order run4 = [''j1'']"
  proof -
    have reg: "registered run4 = {''j1''}" by (auto simp: registered_def run4_eq split: if_splits)
    show ?thesis by (rule distinct_singleton_list)
        (use dispatch_order_by_priority [OF run4_trace, THEN conjunct2] in \<open>simp_all only: reg\<close>)
  qed
  with dispatch_order_by_priority [OF run4_trace] show ?thesis by (simp add: run4_eq)
qed

text \<open>C17: Job names stay usable as directory names: in every reachable state each registered job's name is
  a single path component, no two registered jobs share a name, and a reserved name is held by no
  job but the one it is reserved for.\<close>

theorem job_names_exclusive:
  assumes "disp_trace n (d, P)" and "fmlookup (d_byID d) i = Some e"
  shows "\<not> badName (h_Name (e_h e))
    \<and> (\<forall>k e'. fmlookup (d_byID d) k = Some e' \<longrightarrow> h_Name (e_h e') = h_Name (e_h e) \<longrightarrow> k = i)
    \<and> (\<forall>h. d_reservedNames d (h_Name (e_h e)) = Some h \<longrightarrow> h = i)"
proof -
  have n: "names_ok (d_byID d) (d_reservedNames d)" using trace_reg [OF assms(1)] by (simp add: reg_ok_def)
  show ?thesis
    using names_okD(1) [OF n assms(2)] names_okD(2) [OF n _ assms(2)] names_okD(3) [OF n _ assms(2)] by blast
qed

theorem job_names_exclusive_witness:
  "\<not> badName ''a'' \<and> {k. \<exists>e'. fmlookup (d_byID run4) k = Some e' \<and> h_Name (e_h e') = ''a''} = {''j1''}"
proof -
  have l: "fmlookup (d_byID run4) ''j1'' = Some (entry0 job2)" by (simp add: run4_eq)
  have n: "h_Name (e_h (entry0 job2)) = ''a''" by (simp add: entry0_def header0_def)
  from job_names_exclusive [OF run4_trace l, unfolded n] l n show ?thesis by blast
qed

end
