(* ===== verification/Bitset.thy ===== *)
theory Bitset
  imports Prelude
begin

unbundle bit_operations_syntax

text \<open>
  The packed bitset of \<^verbatim>\<open>internal/job/bitset.go\<close>: 64-bit words, an out-of-range index reads
  as unset and is not written. The locale \<open>index_set\<close> is what the progress record relies on, and
  the counting lemmas it uses are proved from those laws.
\<close>

section \<open>The operations\<close>

record bitset =
  bs_words :: "64 word list"
  bs_n :: int

definition newBitset :: "int \<Rightarrow> bitset" where
  "newBitset n = (let m = (if n < 0 then 0 else n) in
     \<lparr>bs_words = replicate (nat ((m + 63) div 64)) 0, bs_n = m\<rparr>)"

definition bs_Len :: "bitset \<Rightarrow> int" where
  "bs_Len b = bs_n b"

definition bs_Get :: "bitset \<Rightarrow> int \<Rightarrow> bool" where
  "bs_Get b i =
     (if i < 0 \<or> i \<ge> bs_n b then False
      else (bs_words b ! nat (i div 64)) AND push_bit (nat (i mod 64)) 1 \<noteq> 0)"

definition bs_Set :: "int \<Rightarrow> bitset \<Rightarrow> bitset" where
  "bs_Set i b =
     (if i < 0 \<or> i \<ge> bs_n b then b
      else b\<lparr>bs_words := (bs_words b)[nat (i div 64) := (bs_words b ! nat (i div 64)) OR push_bit (nat (i mod 64)) 1]\<rparr>)"

definition bs_Clear :: "int \<Rightarrow> bitset \<Rightarrow> bitset" where
  "bs_Clear i b =
     (if i < 0 \<or> i \<ge> bs_n b then b
      else b\<lparr>bs_words := (bs_words b)[nat (i div 64) := (bs_words b ! nat (i div 64)) AND NOT (push_bit (nat (i mod 64)) 1)]\<rparr>)"

text \<open>\<open>Clone\<close> copies the words: the copy is the same value, and shares nothing with the original.\<close>

definition bs_Clone :: "bitset \<Rightarrow> bitset" where
  "bs_Clone b = \<lparr>bs_words = map id (bs_words b), bs_n = bs_n b\<rparr>"

definition bs_ok :: "bitset \<Rightarrow> bool" where
  "bs_ok b \<longleftrightarrow> 0 \<le> bs_n b \<and> int (length (bs_words b)) = (bs_n b + 63) div 64"

section \<open>The contract\<close>

locale index_set =
  fixes ok :: "'b \<Rightarrow> bool"
    and len :: "'b \<Rightarrow> int"
    and get :: "'b \<Rightarrow> int \<Rightarrow> bool"
    and put :: "int \<Rightarrow> 'b \<Rightarrow> 'b"
    and drop :: "int \<Rightarrow> 'b \<Rightarrow> 'b"
  assumes get_range: "get b i \<Longrightarrow> 0 \<le> i \<and> i < len b"
    and put_ok: "ok b \<Longrightarrow> ok (put i b)"
    and drop_ok: "ok b \<Longrightarrow> ok (drop i b)"
    and put_len: "len (put i b) = len b"
    and drop_len: "len (drop i b) = len b"
    and get_put: "ok b \<Longrightarrow> get (put i b) k \<longleftrightarrow> k = i \<and> 0 \<le> i \<and> i < len b \<or> get b k"
    and get_drop: "ok b \<Longrightarrow> get (drop i b) k \<longleftrightarrow> k \<noteq> i \<and> get b k"
begin

lemma put_put: "ok b \<Longrightarrow> get (put i (put i b)) k = get (put i b) k"
  by (auto simp: get_put put_ok put_len)

lemma drop_put: "ok b \<Longrightarrow> get (drop i (put i b)) k \<longleftrightarrow> k \<noteq> i \<and> get b k"
  by (auto simp: get_put get_drop put_ok)

lemma put_drop_restores: "ok b \<Longrightarrow> get b i \<Longrightarrow> get (put i (drop i b)) k = get b k"
  using get_range [of b i] by (auto simp: get_put get_drop drop_ok drop_len)

text \<open>The number of set indices among the first \<open>n\<close> positions from \<open>lo\<close>.\<close>

definition count_in :: "'b \<Rightarrow> nat \<Rightarrow> nat \<Rightarrow> nat" where
  "count_in b lo hi = length (filter (\<lambda>i. get b (int i)) [lo..<hi])"

lemma count_le: "count_in b lo hi \<le> hi - lo"
  using length_filter_le [of "\<lambda>i. get b (int i)" "[lo..<hi]"] by (simp add: count_in_def)

end

section \<open>The bitset keeps it\<close>

lemma and_push_bit: "(w AND 2 ^ k \<noteq> 0) \<longleftrightarrow> bit w k" if "k < 64" for w :: "64 word"
proof -
  have "w AND 2 ^ k = (if bit w k then 2 ^ k else 0)"
    by (rule bit_word_eqI) (auto simp: bit_simps)
  moreover have "bit (2 ^ k :: 64 word) k" using that by (simp add: bit_simps)
  then have "2 ^ k \<noteq> (0 :: 64 word)" by fastforce
  ultimately show ?thesis by simp
qed

lemma bs_Get_bit:
  "bs_Get b i \<longleftrightarrow> 0 \<le> i \<and> i < bs_n b \<and> bit (bs_words b ! nat (i div 64)) (nat (i mod 64))"
proof -
  have "nat (i mod 64) < 64" by (simp add: nat_less_iff)
  then show ?thesis by (auto simp: bs_Get_def and_push_bit)
qed

lemma word_index:
  assumes "bs_ok b" and "0 \<le> i" and "i < bs_n b"
  shows "nat (i div 64) < length (bs_words b)"
  using assms by (auto simp: bs_ok_def nat_less_iff)

lemma same_index:
  assumes "0 \<le> i" and "0 \<le> k" and "nat (i div 64) = nat (k div 64)" and "nat (i mod 64) = nat (k mod 64)"
  shows "i = k"
proof -
  have "i div 64 = k div 64" "i mod 64 = k mod 64" using assms by (simp_all add: eq_nat_nat_iff pos_imp_zdiv_nonneg_iff)
  then show ?thesis by (metis div_mult_mod_eq)
qed

lemma bs_Get_Set:
  assumes "bs_ok b"
  shows "bs_Get (bs_Set i b) k \<longleftrightarrow> k = i \<and> 0 \<le> i \<and> i < bs_n b \<or> bs_Get b k"
proof (cases "0 \<le> i \<and> i < bs_n b")
  case True
  then have "nat (i div 64) < length (bs_words b)" using word_index assms by simp
  moreover have "nat (x mod 64) < 64" for x :: int by (simp add: nat_less_iff)
  ultimately show ?thesis using True same_index [of i k]
    by (auto simp: bs_Get_bit bs_Set_def nth_list_update bit_simps)
qed (auto simp: bs_Set_def)

lemma bs_Get_Clear:
  assumes "bs_ok b"
  shows "bs_Get (bs_Clear i b) k \<longleftrightarrow> k \<noteq> i \<and> bs_Get b k"
proof (cases "0 \<le> i \<and> i < bs_n b")
  case True
  then have "nat (i div 64) < length (bs_words b)" using word_index assms by simp
  moreover have "nat (x mod 64) < 64" for x :: int by (simp add: nat_less_iff)
  ultimately show ?thesis using True same_index [of i k]
    by (auto simp: bs_Get_bit bs_Clear_def nth_list_update bit_simps)
next
  case False
  then show ?thesis by (auto simp: bs_Clear_def bs_Get_bit)
qed

interpretation bits: index_set bs_ok bs_Len bs_Get bs_Set bs_Clear
proof unfold_locales
  show "bs_Get b i \<Longrightarrow> 0 \<le> i \<and> i < bs_Len b" for b i by (simp add: bs_Get_bit bs_Len_def)
  show "bs_ok b \<Longrightarrow> bs_ok (bs_Set i b)" "bs_ok b \<Longrightarrow> bs_ok (bs_Clear i b)" for b i
    by (simp_all add: bs_ok_def bs_Set_def bs_Clear_def)
  show "bs_Len (bs_Set i b) = bs_Len b" "bs_Len (bs_Clear i b) = bs_Len b" for b i
    by (simp_all add: bs_Len_def bs_Set_def bs_Clear_def)
qed (simp_all add: bs_Get_Set bs_Get_Clear bs_Len_def)

text \<open>C19: The packed bitset is a set of indices: a new one of size n is empty and has length max n 0; Set adds
  an index in range and nothing else, Clear removes exactly its index, a clone reads the same, and an
  index outside the range reads as unset and changes nothing. Every word access is in range.\<close>

theorem bitset_is_index_set:
  "(bs_ok (newBitset n) \<and> bs_Len (newBitset n) = max n 0 \<and> \<not> bs_Get (newBitset n) k)
   \<and> (bs_ok b \<longrightarrow>
       {x. bs_Get (bs_Set i b) x} = {x. bs_Get b x} \<union> {x. x = i \<and> 0 \<le> i \<and> i < bs_Len b}
     \<and> {x. bs_Get (bs_Clear i b) x} = {x. bs_Get b x} - {i}
     \<and> bs_Get (bs_Clone b) k = bs_Get b k
     \<and> (i < 0 \<or> bs_Len b \<le> i \<longrightarrow> \<not> bs_Get b i \<and> bs_Set i b = b \<and> bs_Clear i b = b)
     \<and> (0 \<le> i \<and> i < bs_Len b \<longrightarrow> nat (i div 64) < length (bs_words b)))"
proof (intro conjI impI)
  show "bs_ok (newBitset n)" "bs_Len (newBitset n) = max n 0"
    by (auto simp: newBitset_def bs_ok_def bs_Len_def Let_def)
  show "\<not> bs_Get (newBitset n) k"
    using word_index [of "newBitset n" k] by (auto simp: bs_Get_bit newBitset_def Let_def bs_ok_def)
next
  assume ok: "bs_ok b"
  show "{x. bs_Get (bs_Set i b) x} = {x. bs_Get b x} \<union> {x. x = i \<and> 0 \<le> i \<and> i < bs_Len b}"
    by (auto simp: bits.get_put [OF ok])
  show "{x. bs_Get (bs_Clear i b) x} = {x. bs_Get b x} - {i}" by (auto simp: bits.get_drop [OF ok])
  show "bs_Get (bs_Clone b) k = bs_Get b k" by (simp add: bs_Get_def bs_Clone_def)
  show "\<not> bs_Get b i" "bs_Set i b = b" "bs_Clear i b = b" if "i < 0 \<or> bs_Len b \<le> i"
    using that by (auto simp: bs_Get_def bs_Set_def bs_Clear_def bs_Len_def)
  show "nat (i div 64) < length (bs_words b)" if "0 \<le> i \<and> i < bs_Len b"
    using word_index [OF ok] that by (simp add: bs_Len_def)
qed

theorem bitset_is_index_set_witness:
  "bs_ok (newBitset 70) \<and> {x. bs_Get (bs_Set 65 (newBitset 70)) x} = {65}"
proof -
  note new = bitset_is_index_set [of 70 _ "newBitset 70" 65]
  have "\<not> bs_Get (newBitset 70) x" for x using bitset_is_index_set [of 70 x] by blast
  then show ?thesis using new by auto
qed

end
