(* ===== verification/File_Table.thy ===== *)
theory File_Table
  imports Prelude "HOL-Library.Char_ord"
begin

text \<open>
  Which files a job has and which articles belong to which: the names of par2 recovery volumes
  (\<^verbatim>\<open>job/par2name.go\<close>), the file table (\<^verbatim>\<open>job/filetable.go\<close>) and the manifest's flat article
  lists (\<^verbatim>\<open>job/manifest.go\<close>). Byte counts are \<open>int64\<close> sums of sizes an NZB declares and stay
  far below its bound, so they are integers here; strings are byte strings.
\<close>

section \<open>Names of par2 files\<close>

definition lower :: "char \<Rightarrow> char" where
  "lower c = (if CHR ''A'' \<le> c \<and> c \<le> CHR ''Z'' then char_of (of_char c + 32 :: nat) else c)"

definition isDigit :: "char \<Rightarrow> bool" where
  "isDigit c \<longleftrightarrow> CHR ''0'' \<le> c \<and> c \<le> CHR ''9''"

definition isAlnum :: "char \<Rightarrow> bool" where
  "isAlnum c \<longleftrightarrow> isDigit c \<or> CHR ''a'' \<le> lower c \<and> lower c \<le> CHR ''z''"

text \<open>A literal matched without regard to case; the rest of the input on success.\<close>

fun lit :: "string \<Rightarrow> string \<Rightarrow> string option" where
  "lit [] s = Some s"
| "lit (c # cs) [] = None"
| "lit (c # cs) (d # ds) = (if lower d = c then lit cs ds else None)"

text \<open>
  The end of the pattern: the end of the input, or a rune outside \<open>[a-zA-Z0-9.]\<close>. Under the
  pattern's case folding that class also has the long s and the Kelvin sign, whose UTF-8
  encodings are spelled out.
\<close>

definition nameEnd :: "string \<Rightarrow> bool" where
  "nameEnd s =
     (case s of [] \<Rightarrow> True
      | c # r \<Rightarrow> \<not> isAlnum c \<and> c \<noteq> CHR ''.'' \<and> take 2 s \<noteq> [CHR 0xC5, CHR 0xBF] \<and> take 3 s \<noteq> [CHR 0xE2, CHR 0x84, CHR 0xAA])"

text \<open>
  One attempt of \<open>recoveryVolumePattern\<close> at the start of the input: \<open>.vol\<close>, digits, then \<open>-\<close> and
  digits or \<open>+\<close> and digits with a nonzero one, then \<open>.par2\<close> and the end. The result is the
  captured group, empty for the \<open>-\<close> form.
\<close>

definition volumeAt :: "string \<Rightarrow> string option" where
  "volumeAt s =
     (case lit ''.vol'' s of None \<Rightarrow> None | Some r \<Rightarrow>
      (let n1 = takeWhile isDigit r; r1 = dropWhile isDigit r in
       if n1 = [] \<or> r1 = [] then None
       else
         (let n2 = takeWhile isDigit (tl r1); r2 = dropWhile isDigit (tl r1);
              tailOK = (case lit ''.par2'' r2 of None \<Rightarrow> False | Some e \<Rightarrow> nameEnd e) in
          if hd r1 = CHR ''-'' \<and> n2 \<noteq> [] \<and> tailOK then Some []
          else if hd r1 = CHR ''+'' \<and> (\<exists>c \<in> set n2. c \<noteq> CHR ''0'') \<and> tailOK then Some n2
          else None)))"

fun findVolume :: "string \<Rightarrow> string option" where
  "findVolume [] = volumeAt []"
| "findVolume (c # s) = (case volumeAt (c # s) of Some g \<Rightarrow> Some g | None \<Rightarrow> findVolume s)"

definition IsRecoveryVolume :: "string \<Rightarrow> bool" where
  "IsRecoveryVolume s \<longleftrightarrow> findVolume s \<noteq> None"

definition MaxVolumeBlocks :: nat where
  "MaxVolumeBlocks = 65535"

definition digits_value :: "string \<Rightarrow> nat" where
  "digits_value ds = foldl (\<lambda>n c. 10 * n + (of_char c - 48)) 0 ds"

definition RecoveryVolumeBlocks :: "string \<Rightarrow> nat option" where
  "RecoveryVolumeBlocks s =
     (case findVolume s of
        None \<Rightarrow> None
      | Some g \<Rightarrow> if g = [] then None
                 else if digits_value g > MaxVolumeBlocks then None else Some (digits_value g))"

fun contains_lower :: "string \<Rightarrow> string \<Rightarrow> bool" where
  "contains_lower p [] = (lit p [] \<noteq> None)"
| "contains_lower p (c # s) = (lit p (c # s) \<noteq> None \<or> contains_lower p s)"

definition isPar2File :: "string \<Rightarrow> bool" where
  "isPar2File subject = contains_lower ''.par2'' subject"

section \<open>The file table\<close>

record fileEntry =
  fe_subject :: string
  fe_bytes :: int
  fe_articleCount :: nat
  fe_isPar2Recovery :: bool

record FileSpec =
  fs_Subject :: string
  fs_Bytes :: int
  fs_ArticleCount :: nat

record FileTable =
  ft_files :: "fileEntry list"
  ft_offsets :: "nat list"
  ft_totalBytes :: int
  ft_recoveryByteTotal :: int
  ft_recoveryFileTotal :: nat

fun recoveryFiguresOf :: "fileEntry list \<Rightarrow> int \<times> nat" where
  "recoveryFiguresOf [] = (0, 0)"
| "recoveryFiguresOf (f # fs) =
     (let (b, n) = recoveryFiguresOf fs in
      if fe_isPar2Recovery f then (fe_bytes f + b, Suc n) else (b, n))"

text \<open>The loop of \<open>newFileTable\<close>: the running offset and byte total.\<close>

fun buildOffsets :: "nat \<Rightarrow> FileSpec list \<Rightarrow> nat list" where
  "buildOffsets nxt [] = [nxt]"
| "buildOffsets nxt (s # ss) = nxt # buildOffsets (nxt + fs_ArticleCount s) ss"

definition newEntry :: "FileSpec \<Rightarrow> fileEntry" where
  "newEntry s = \<lparr>fe_subject = fs_Subject s, fe_bytes = fs_Bytes s, fe_articleCount = fs_ArticleCount s,
     fe_isPar2Recovery = IsRecoveryVolume (fs_Subject s)\<rparr>"

definition newFileTable :: "FileSpec list \<Rightarrow> FileTable" where
  "newFileTable specs =
     (let fs = map newEntry specs; r = recoveryFiguresOf fs in
      \<lparr>ft_files = fs, ft_offsets = buildOffsets 0 specs, ft_totalBytes = sum_list (map fs_Bytes specs),
       ft_recoveryByteTotal = fst r, ft_recoveryFileTotal = snd r\<rparr>)"

definition ft_NumFiles :: "FileTable \<Rightarrow> nat" where
  "ft_NumFiles t = length (ft_files t)"

definition ft_Subject :: "FileTable \<Rightarrow> nat \<Rightarrow> string" where
  "ft_Subject t fi = fe_subject (ft_files t ! fi)"

definition ft_Bytes :: "FileTable \<Rightarrow> nat \<Rightarrow> int" where
  "ft_Bytes t fi = fe_bytes (ft_files t ! fi)"

definition ft_IsPar2Recovery :: "FileTable \<Rightarrow> nat \<Rightarrow> bool" where
  "ft_IsPar2Recovery t fi = fe_isPar2Recovery (ft_files t ! fi)"

definition ft_ArticleCount :: "FileTable \<Rightarrow> nat \<Rightarrow> nat" where
  "ft_ArticleCount t fi = fe_articleCount (ft_files t ! fi)"

definition ft_Range :: "FileTable \<Rightarrow> nat \<Rightarrow> nat \<times> nat" where
  "ft_Range t fi = (ft_offsets t ! fi, ft_offsets t ! Suc fi)"

definition ft_TotalArticles :: "FileTable \<Rightarrow> nat" where
  "ft_TotalArticles t = ft_offsets t ! length (ft_files t)"

definition ft_Specs :: "FileTable \<Rightarrow> FileSpec list" where
  "ft_Specs t = map (\<lambda>f. \<lparr>fs_Subject = fe_subject f, fs_Bytes = fe_bytes f, fs_ArticleCount = fe_articleCount f\<rparr>) (ft_files t)"

section \<open>The manifest\<close>

record JobArticle =
  ja_ID :: string
  ja_Bytes :: int
  ja_Number :: int

record Manifest =
  mf_ft :: FileTable
  mf_articleIDs :: "string list"
  mf_articleBytes :: "int list"
  mf_articleNumber :: "int list"

definition newManifest :: "FileTable \<Rightarrow> JobArticle list \<Rightarrow> Manifest option" where
  "newManifest ft articles =
     (if length articles \<noteq> ft_TotalArticles ft then None
      else Some \<lparr>mf_ft = ft, mf_articleIDs = map ja_ID articles, mf_articleBytes = map ja_Bytes articles,
                 mf_articleNumber = map ja_Number articles\<rparr>)"

record JobFile =
  jf_Subject :: string
  jf_Articles :: "JobArticle list"
  jf_Bytes :: int

text \<open>\<open>None\<close> is the panic on a mismatch.\<close>

definition NewManifest :: "JobFile list \<Rightarrow> Manifest option" where
  "NewManifest files =
     newManifest
       (newFileTable (map (\<lambda>f. \<lparr>fs_Subject = jf_Subject f, fs_Bytes = jf_Bytes f,
                                 fs_ArticleCount = length (jf_Articles f)\<rparr>) files))
       (concat (map jf_Articles files))"

definition mf_NumFiles :: "Manifest \<Rightarrow> nat" where
  "mf_NumFiles m = ft_NumFiles (mf_ft m)"

definition mf_NumArticles :: "Manifest \<Rightarrow> nat" where
  "mf_NumArticles m = length (mf_articleIDs m)"

definition FileRange :: "Manifest \<Rightarrow> nat \<Rightarrow> nat \<times> nat" where
  "FileRange m fi = ft_Range (mf_ft m) fi"

definition ArticleInFile :: "Manifest \<Rightarrow> int \<Rightarrow> int \<Rightarrow> bool" where
  "ArticleInFile m fileIdx artIdx =
     (if fileIdx < 0 \<or> fileIdx \<ge> int (mf_NumFiles m) then False
      else (let (lo, hi) = FileRange m (nat fileIdx) in artIdx \<ge> int lo \<and> artIdx < int hi))"

definition fileIndexForArticle :: "Manifest \<Rightarrow> nat \<Rightarrow> nat" where
  "fileIndexForArticle m i = sort_Search (mf_NumFiles m) (\<lambda>fi. ft_offsets (mf_ft m) ! Suc fi > i)"

definition ArticleBytes :: "Manifest \<Rightarrow> nat \<Rightarrow> int" where
  "ArticleBytes m i = mf_articleBytes m ! i"

definition ArticleID :: "Manifest \<Rightarrow> nat \<Rightarrow> string" where
  "ArticleID m i = mf_articleIDs m ! i"

definition ArticleNumber :: "Manifest \<Rightarrow> nat \<Rightarrow> int" where
  "ArticleNumber m i = mf_articleNumber m ! i"

section \<open>Offsets\<close>

lemma length_buildOffsets [simp]: "length (buildOffsets n ss) = Suc (length ss)"
  by (induction ss arbitrary: n) simp_all

lemma nth_buildOffsets:
  "k \<le> length ss \<Longrightarrow> buildOffsets n ss ! k = n + sum_list (map fs_ArticleCount (take k ss))"
proof (induction ss arbitrary: n k)
  case (Cons s ss)
  then show ?case by (cases k) auto
qed simp

lemma buildOffsets_step:
  assumes "k < length ss"
  shows "buildOffsets n ss ! Suc k = buildOffsets n ss ! k + fs_ArticleCount (ss ! k)"
  using assms by (simp add: nth_buildOffsets take_Suc_conv_app_nth)

lemma buildOffsets_mono:
  assumes "k \<le> l" and "l \<le> length ss"
  shows "buildOffsets n ss ! k \<le> buildOffsets n ss ! l"
  using assms
proof (induction rule: dec_induct)
  case (step l)
  then show ?case using buildOffsets_step [of l ss n] by simp
qed simp

text \<open>Some cell of the partition holds an index below the total.\<close>

lemma buildOffsets_cell:
  assumes "n \<le> i" and "i < buildOffsets n ss ! length ss"
  shows "\<exists>k < length ss. buildOffsets n ss ! k \<le> i \<and> i < buildOffsets n ss ! Suc k"
  using assms
proof (induction ss arbitrary: n)
  case (Cons s ss)
  show ?case
  proof (cases "i < n + fs_ArticleCount s")
    case True
    then show ?thesis using Cons.prems by (intro exI [of _ 0]) (cases ss; simp)
  next
    case False
    then obtain k where "k < length ss"
      "buildOffsets (n + fs_ArticleCount s) ss ! k \<le> i \<and> i < buildOffsets (n + fs_ArticleCount s) ss ! Suc k"
      using Cons.IH [of "n + fs_ArticleCount s"] Cons.prems by auto
    then show ?thesis by (intro exI [of _ "Suc k"]) simp
  qed
qed simp

definition ft_ok :: "FileTable \<Rightarrow> bool" where
  "ft_ok t \<longleftrightarrow> ft_offsets t = buildOffsets 0 (ft_Specs t)"

definition mf_ok :: "Manifest \<Rightarrow> bool" where
  "mf_ok m \<longleftrightarrow> ft_ok (mf_ft m) \<and> length (mf_articleIDs m) = ft_TotalArticles (mf_ft m)
     \<and> length (mf_articleBytes m) = ft_TotalArticles (mf_ft m)
     \<and> length (mf_articleNumber m) = ft_TotalArticles (mf_ft m)"

lemma length_Specs [simp]: "length (ft_Specs t) = ft_NumFiles t"
  by (simp add: ft_Specs_def ft_NumFiles_def)

lemma ft_Specs_new: "ft_Specs (newFileTable specs) = specs"
  unfolding ft_Specs_def newFileTable_def newEntry_def Let_def by (simp add: comp_def map_idI)

lemma ft_ok_new: "ft_ok (newFileTable specs)"
  unfolding ft_ok_def ft_Specs_new by (simp add: newFileTable_def Let_def)

lemma newManifest_ok: "newManifest ft as = Some m \<Longrightarrow> ft_ok ft \<Longrightarrow> mf_ok m"
  by (auto simp: newManifest_def mf_ok_def split: if_splits)

lemma ft_NumFiles_new [simp]: "ft_NumFiles (newFileTable specs) = length specs"
  by (simp add: ft_NumFiles_def newFileTable_def Let_def)

lemma ft_TotalArticles_new: "ft_TotalArticles (newFileTable specs) = sum_list (map fs_ArticleCount specs)"
  by (simp add: ft_TotalArticles_def newFileTable_def Let_def nth_buildOffsets)

lemma ft_offset_mono:
  assumes "ft_ok t" and "k \<le> l" and "l \<le> ft_NumFiles t"
  shows "ft_offsets t ! k \<le> ft_offsets t ! l"
  using assms buildOffsets_mono [of k l "ft_Specs t" 0] by (simp add: ft_ok_def)

lemma ft_cell:
  assumes "ft_ok t" and "i < ft_TotalArticles t"
  shows "\<exists>fi < ft_NumFiles t. ft_offsets t ! fi \<le> i \<and> i < ft_offsets t ! Suc fi"
  using assms buildOffsets_cell [of 0 i "ft_Specs t"]
  by (simp add: ft_ok_def ft_TotalArticles_def ft_NumFiles_def [symmetric])

lemma fileIndexForArticle_eqI:
  assumes ok: "mf_ok m" and "fi < mf_NumFiles m" and lo: "fst (FileRange m fi) \<le> i" and "i < snd (FileRange m fi)"
  shows "fileIndexForArticle m i = fi"
  unfolding fileIndexForArticle_def
proof (rule sort_Search_eqI)
  have t: "ft_ok (mf_ft m)" using ok by (simp add: mf_ok_def)
  show "upward (\<lambda>fi. ft_offsets (mf_ft m) ! Suc fi > i) (mf_NumFiles m)"
    unfolding upward_def mf_NumFiles_def
    using ft_offset_mono [OF t] by (meson Suc_le_mono less_le_trans less_eq_Suc_le)
  show "fi \<le> mf_NumFiles m" using assms by simp
  show "ft_offsets (mf_ft m) ! Suc fi > i" using assms by (simp add: FileRange_def ft_Range_def)
  show "\<not> ft_offsets (mf_ft m) ! Suc k > i" if "k < fi" for k
    using ft_offset_mono [OF t, of "Suc k" fi] that assms
    by (simp add: FileRange_def ft_Range_def mf_NumFiles_def)
qed

lemma fileIndexForArticle_spec:
  assumes ok: "mf_ok m" and "i < mf_NumArticles m"
  shows "fileIndexForArticle m i < mf_NumFiles m"
    and "fst (FileRange m (fileIndexForArticle m i)) \<le> i"
    and "i < snd (FileRange m (fileIndexForArticle m i))"
proof -
  obtain fi where "fi < mf_NumFiles m" "fst (FileRange m fi) \<le> i" "i < snd (FileRange m fi)"
    using ft_cell [of "mf_ft m" i] assms
    by (auto simp: mf_ok_def mf_NumArticles_def mf_NumFiles_def FileRange_def ft_Range_def)
  with fileIndexForArticle_eqI [OF ok this]
  show "fileIndexForArticle m i < mf_NumFiles m"
    and "fst (FileRange m (fileIndexForArticle m i)) \<le> i"
    and "i < snd (FileRange m (fileIndexForArticle m i))" by simp_all
qed

lemma ArticleInFile_iff:
  "ArticleInFile m fi ai \<longleftrightarrow>
     0 \<le> fi \<and> nat fi < mf_NumFiles m \<and> int (fst (FileRange m (nat fi))) \<le> ai \<and> ai < int (snd (FileRange m (nat fi)))"
  by (auto simp: ArticleInFile_def Let_def split: prod.splits)

lemma ArticleInFile_search:
  assumes "mf_ok m" and "i < mf_NumArticles m"
  shows "ArticleInFile m fi (int i) \<longleftrightarrow> fi = int (fileIndexForArticle m i)"
  unfolding ArticleInFile_iff
  using fileIndexForArticle_spec [OF assms] fileIndexForArticle_eqI [OF assms(1), of "nat fi" i] by auto

lemma nth_concat:
  "fi < length xss \<Longrightarrow> k < length (xss ! fi) \<Longrightarrow>
     sum_list (map length (take fi xss)) + k < length (concat xss)
   \<and> concat xss ! (sum_list (map length (take fi xss)) + k) = xss ! fi ! k"
proof (induction xss arbitrary: fi)
  case (Cons xs xss)
  then show ?case by (cases fi) (auto simp: nth_append)
qed simp

lemma NewManifest_specs:
  assumes "specs = map (\<lambda>f. \<lparr>fs_Subject = jf_Subject f, fs_Bytes = jf_Bytes f, fs_ArticleCount = length (jf_Articles f)\<rparr>) files"
  shows "\<exists>m. NewManifest files = Some m \<and> mf_ok m \<and> mf_ft m = newFileTable specs
    \<and> mf_articleIDs m = map ja_ID (concat (map jf_Articles files))
    \<and> mf_articleBytes m = map ja_Bytes (concat (map jf_Articles files))"
proof -
  have "ft_TotalArticles (newFileTable specs) = length (concat (map jf_Articles files))"
    by (simp add: ft_TotalArticles_new assms length_concat comp_def)
  then show ?thesis
    using newManifest_ok [OF _ ft_ok_new [of specs]]
    by (simp add: NewManifest_def newManifest_def assms [symmetric] mf_ok_def ft_ok_new)
qed

section \<open>Properties\<close>

text \<open>C20: The flat article list and the per-file offsets agree: in every manifest NewManifest builds (it never
  hits its panic, and has as many articles as the files list), the binary search of
  fileIndexForArticle names, for an article in range, exactly the file whose half-open range holds
  it: ArticleInFile accepts that file and rejects every other index, negative or past the end
  included. The article found at offset k of file fi's range is the k-th article the NZB listed
  under that file.\<close>

theorem article_lookup_correct:
  "\<exists>m. NewManifest files = Some m
     \<and> mf_NumArticles m = length (concat (map jf_Articles files))
     \<and> (\<forall>i < mf_NumArticles m. \<forall>fi.
          ArticleInFile m fi (int i) \<longleftrightarrow> fi = int (fileIndexForArticle m i))
     \<and> (\<forall>fi < length files. \<forall>k < length (jf_Articles (files ! fi)).
          ArticleID m (fst (FileRange m fi) + k) = ja_ID (jf_Articles (files ! fi) ! k)
        \<and> ArticleBytes m (fst (FileRange m fi) + k) = ja_Bytes (jf_Articles (files ! fi) ! k)
        \<and> fileIndexForArticle m (fst (FileRange m fi) + k) = fi)"
proof -
  define specs where
    "specs = map (\<lambda>f. \<lparr>fs_Subject = jf_Subject f, fs_Bytes = jf_Bytes f, fs_ArticleCount = length (jf_Articles f)\<rparr>) files"
  obtain m where m: "NewManifest files = Some m" "mf_ok m" "mf_ft m = newFileTable specs"
    and ids: "mf_articleIDs m = map ja_ID (concat (map jf_Articles files))"
    and bytes: "mf_articleBytes m = map ja_Bytes (concat (map jf_Articles files))"
    using NewManifest_specs [OF specs_def] by blast
  have n: "mf_NumFiles m = length files" by (simp add: mf_NumFiles_def m(3) specs_def)
  have range: "FileRange m fi = (buildOffsets 0 specs ! fi, buildOffsets 0 specs ! Suc fi)" for fi
    by (simp add: FileRange_def ft_Range_def m(3) newFileTable_def Let_def)
  have lo: "fst (FileRange m fi) = sum_list (map length (take fi (map jf_Articles files)))"
    if "fi < length files" for fi
    using that by (simp add: range nth_buildOffsets specs_def take_map comp_def)
  have hi: "snd (FileRange m fi) = fst (FileRange m fi) + length (jf_Articles (files ! fi))"
    if "fi < length files" for fi
    using that buildOffsets_step [of fi specs 0] by (simp add: range specs_def)
  have "ArticleID m (fst (FileRange m fi) + k) = ja_ID (jf_Articles (files ! fi) ! k)
      \<and> ArticleBytes m (fst (FileRange m fi) + k) = ja_Bytes (jf_Articles (files ! fi) ! k)
      \<and> fileIndexForArticle m (fst (FileRange m fi) + k) = fi"
    if "fi < length files" "k < length (jf_Articles (files ! fi))" for fi k
    using that nth_concat [of fi "map jf_Articles files" k] lo [of fi] hi [of fi] n
    by (auto simp: ArticleID_def ArticleBytes_def ids bytes intro!: fileIndexForArticle_eqI [OF m(2)])
  then show ?thesis using m(1) ArticleInFile_search [OF m(2)] by (intro exI [of _ m]) (auto simp: mf_NumArticles_def ids)
qed

theorem article_lookup_correct_witness:
  "\<exists>m. NewManifest [\<lparr>jf_Subject = ''a'', jf_Articles = [], jf_Bytes = 0\<rparr>,
                   \<lparr>jf_Subject = ''b'', jf_Articles = [\<lparr>ja_ID = ''x@y'', ja_Bytes = 5, ja_Number = 1\<rparr>], jf_Bytes = 5\<rparr>] = Some m
     \<and> fileIndexForArticle m 0 = 1 \<and> \<not> ArticleInFile m 0 0 \<and> ArticleInFile m 1 0"
proof -
  obtain m where m: "NewManifest [\<lparr>jf_Subject = ''a'', jf_Articles = [], jf_Bytes = 0\<rparr>,
       \<lparr>jf_Subject = ''b'', jf_Articles = [\<lparr>ja_ID = ''x@y'', ja_Bytes = 5, ja_Number = 1\<rparr>], jf_Bytes = 5\<rparr>] = Some m"
    and n: "mf_NumArticles m = 1"
    and a: "\<forall>i < mf_NumArticles m. \<forall>fi. ArticleInFile m fi (int i) \<longleftrightarrow> fi = int (fileIndexForArticle m i)"
    and f: "\<forall>fi < 2. fi = 1 \<longrightarrow> fileIndexForArticle m (fst (FileRange m fi) + 0) = fi"
    using article_lookup_correct [of "[\<lparr>jf_Subject = ''a'', jf_Articles = [], jf_Bytes = 0\<rparr>,
       \<lparr>jf_Subject = ''b'', jf_Articles = [\<lparr>ja_ID = ''x@y'', ja_Bytes = 5, ja_Number = 1\<rparr>], jf_Bytes = 5\<rparr>]"] by auto
  have "fst (FileRange m 1) = 0"
    using m by (auto simp: NewManifest_def newManifest_def FileRange_def ft_Range_def newFileTable_def Let_def split: if_splits)
  then have "fileIndexForArticle m 0 = 1" using f by simp
  then show ?thesis using m n a by (intro exI [of _ m]) fastforce
qed

end
