(* ===== verification/Progress.thy ===== *)
theory Progress
  imports Bitset File_Table
begin

text \<open>
  How far a job's download has come: \<^verbatim>\<open>JobProgress\<close> of \<^verbatim>\<open>internal/job/progress.go\<close>, with the
  written rows of \<^verbatim>\<open>verified.go\<close> and the fetch policy of \<^verbatim>\<open>content.go\<close>. The counters are kept
  article by article; \<open>recompute\<close> derives the same figures from the bits. Counters and sizes are
  integers: an NZB's byte counts stay far below the \<open>int64\<close> bound.
\<close>

section \<open>Data\<close>

datatype FetchPolicy = FetchAlways | FetchIfNeeded | FetchNever

definition AllFetchPolicies :: "FetchPolicy list" where
  "AllFetchPolicies = [FetchAlways, FetchIfNeeded, FetchNever]"

record FileProgress =
  fp_Complete :: bool
  fp_Fetch :: FetchPolicy
  fp_Pending :: int
  fp_Bytes :: int
  fp_BytesDownloaded :: int
  fp_Verified :: bool
  fp_Recorded :: int
  fp_FailedBytes :: int
  fp_IsPar2 :: bool
  fp_Filename :: string
  fp_AssembledCRC32 :: "32 word"
  fp_fetchChanged :: bool

record WrittenRow =
  wr_FileIdx :: int
  wr_ArtIdx :: int
  wr_Offset :: int
  wr_Length :: int
  wr_CRC32 :: "32 word"

definition HasValidShape :: "WrittenRow \<Rightarrow> bool" where
  "HasValidShape r \<longleftrightarrow> wr_Offset r \<ge> 0 \<and> wr_Length r \<ge> 0"

text \<open>
  A stored slice of rows is its backing array's identity and its contents. Identities are drawn
  from \<open>jp_nextArr\<close>, so a fresh array never has an identity seen before.
\<close>

record rowSlice =
  rs_arr :: nat
  rs_rows :: "WrittenRow list"

record JobProgress =
  jp_done :: bitset
  jp_failed :: bitset
  jp_emitted :: bitset
  jp_files :: "FileProgress list"
  jp_fileStarts :: "nat list"
  jp_fetchChanges :: int
  jp_failCharge :: "nat \<rightharpoonup> int"
  jp_written :: "nat \<rightharpoonup> rowSlice"
  jp_nextArr :: nat
  jp_pendingArticles :: int
  jp_articlesResolved :: int
  jp_articlesFailed :: int
  jp_earlyAborted :: bool
  jp_failedBytes :: int
  jp_serverStats :: "string \<rightharpoonup> int"
  jp_downloadStarted :: Time
  jp_downloadFinished :: Time
  jp_par2ReleaseReason :: string

abbreviation doneAt :: "JobProgress \<Rightarrow> nat \<Rightarrow> bool" where
  "doneAt p i \<equiv> bs_Get (jp_done p) (int i)"

abbreviation failedAt :: "JobProgress \<Rightarrow> nat \<Rightarrow> bool" where
  "failedAt p i \<equiv> bs_Get (jp_failed p) (int i)"

abbreviation emittedAt :: "JobProgress \<Rightarrow> nat \<Rightarrow> bool" where
  "emittedAt p i \<equiv> bs_Get (jp_emitted p) (int i)"

definition updFile :: "nat \<Rightarrow> (FileProgress \<Rightarrow> FileProgress) \<Rightarrow> JobProgress \<Rightarrow> JobProgress" where
  "updFile fi f p = p\<lparr>jp_files := (jp_files p)[fi := f (jp_files p ! fi)]\<rparr>"

text \<open>The rows stored for a file; a missing map entry reads as the nil slice.\<close>

definition rowsOf :: "JobProgress \<Rightarrow> nat \<Rightarrow> WrittenRow list" where
  "rowsOf p fi = (case jp_written p fi of None \<Rightarrow> [] | Some s \<Rightarrow> rs_rows s)"

definition rowArr :: "JobProgress \<Rightarrow> nat \<Rightarrow> nat" where
  "rowArr p fi = (case jp_written p fi of None \<Rightarrow> 0 | Some s \<Rightarrow> rs_arr s)"

section \<open>Construction\<close>

record FileMeta =
  fm_ArticleCount :: nat
  fm_Bytes :: int
  fm_IsPar2 :: bool

text \<open>The \<open>fileStarts\<close> prefix sum.\<close>

fun startsFrom :: "nat \<Rightarrow> FileMeta list \<Rightarrow> nat list" where
  "startsFrom n [] = [n]"
| "startsFrom n (f # fs) = n # startsFrom (n + fm_ArticleCount f) fs"

definition newFileProgress :: "FileMeta \<Rightarrow> FileProgress" where
  "newFileProgress f = \<lparr>fp_Complete = False, fp_Fetch = FetchAlways, fp_Pending = int (fm_ArticleCount f),
     fp_Bytes = fm_Bytes f, fp_BytesDownloaded = 0, fp_Verified = False, fp_Recorded = 0, fp_FailedBytes = 0,
     fp_IsPar2 = fm_IsPar2 f, fp_Filename = [], fp_AssembledCRC32 = 0, fp_fetchChanged = False\<rparr>"

definition newJobProgressSized :: "FileMeta list \<Rightarrow> JobProgress" where
  "newJobProgressSized files =
     (let total = sum_list (map (\<lambda>f. int (fm_ArticleCount f)) files) in
      \<lparr>jp_done = newBitset total, jp_failed = newBitset total, jp_emitted = newBitset total,
       jp_files = map newFileProgress files, jp_fileStarts = startsFrom 0 files, jp_fetchChanges = 0,
       jp_failCharge = Map.empty, jp_written = Map.empty, jp_nextArr = 1,
       jp_pendingArticles = total, jp_articlesResolved = 0, jp_articlesFailed = 0, jp_earlyAborted = False,
       jp_failedBytes = 0, jp_serverStats = Map.empty, jp_downloadStarted = zeroTime,
       jp_downloadFinished = zeroTime, jp_par2ReleaseReason = []\<rparr>)"

definition fileMetaFromTable :: "FileTable \<Rightarrow> FileMeta list" where
  "fileMetaFromTable ft =
     map (\<lambda>fi. \<lparr>fm_ArticleCount = ft_ArticleCount ft fi, fm_Bytes = ft_Bytes ft fi,
                fm_IsPar2 = isPar2File (ft_Subject ft fi)\<rparr>) [0..<ft_NumFiles ft]"

section \<open>Pending articles\<close>

definition fileRange :: "JobProgress \<Rightarrow> nat \<Rightarrow> nat \<times> nat" where
  "fileRange p fi = (jp_fileStarts p ! fi, jp_fileStarts p ! Suc fi)"

definition countsPending :: "JobProgress \<Rightarrow> nat \<Rightarrow> bool" where
  "countsPending p fi \<longleftrightarrow> fp_Fetch (jp_files p ! fi) = FetchAlways"

text \<open>A loop that adds \<open>g i\<close> for every \<open>i\<close> from \<open>lo\<close> up to \<open>hi\<close>.\<close>

definition sumRange :: "(nat \<Rightarrow> int) \<Rightarrow> nat \<Rightarrow> nat \<Rightarrow> int" where
  "sumRange g lo hi = sum_list (map g [lo..<hi])"

definition pendingOf :: "JobProgress \<Rightarrow> nat \<Rightarrow> int" where
  "pendingOf p fi =
     (if \<not> countsPending p fi then 0
      else (let (lo, hi) = fileRange p fi in
            sumRange (\<lambda>i. if \<not> doneAt p i \<and> \<not> emittedAt p i then 1 else 0) lo hi))"

definition setPending :: "nat \<Rightarrow> int \<Rightarrow> JobProgress \<Rightarrow> JobProgress" where
  "setPending fi n p =
     (let q = p\<lparr>jp_pendingArticles := jp_pendingArticles p + (n - fp_Pending (jp_files p ! fi))\<rparr> in
      updFile fi (\<lambda>f. f\<lparr>fp_Pending := n\<rparr>) q)"

definition movePending :: "nat \<Rightarrow> int \<Rightarrow> JobProgress \<Rightarrow> JobProgress" where
  "movePending fi delta p =
     (if \<not> countsPending p fi then p
      else (let q = updFile fi (\<lambda>f. f\<lparr>fp_Pending := fp_Pending f + delta\<rparr>) p in
            q\<lparr>jp_pendingArticles := jp_pendingArticles q + delta\<rparr>))"

definition setFileFetchPolicy :: "nat \<Rightarrow> FetchPolicy \<Rightarrow> JobProgress \<Rightarrow> JobProgress" where
  "setFileFetchPolicy fi policy p =
     (if fp_Fetch (jp_files p ! fi) = policy then p
      else
        (let p1 = updFile fi (\<lambda>f. f\<lparr>fp_Fetch := policy\<rparr>) p;
             p2 = setPending fi (pendingOf p1 fi) p1 in
         if \<not> fp_fetchChanged (jp_files p2 ! fi)
         then (updFile fi (\<lambda>f. f\<lparr>fp_fetchChanged := True\<rparr>) p2)\<lparr>jp_fetchChanges := jp_fetchChanges p2 + 1\<rparr>
         else p2))"

record FileSeed =
  sd_Recorded :: int
  sd_Complete :: bool
  sd_Filename :: string
  sd_Fetch :: FetchPolicy

text \<open>The loop of \<open>newJobProgress\<close>, from file \<open>fi\<close> on.\<close>

fun seedFiles :: "nat \<Rightarrow> FileSeed list \<Rightarrow> JobProgress \<Rightarrow> JobProgress" where
  "seedFiles fi [] p = p"
| "seedFiles fi (s # ss) p =
     seedFiles (Suc fi) ss
       (setFileFetchPolicy fi (sd_Fetch s)
         (updFile fi (\<lambda>f. f\<lparr>fp_Verified := False, fp_Recorded := sd_Recorded s, fp_Complete := sd_Complete s,
                            fp_Filename := sd_Filename s\<rparr>) p))"

definition newJobProgress :: "FileTable \<Rightarrow> FileSeed list option \<Rightarrow> JobProgress" where
  "newJobProgress ft seed =
     (let p = newJobProgressSized (fileMetaFromTable ft) in
      case seed of
        None \<Rightarrow> p\<lparr>jp_files := map (\<lambda>f. f\<lparr>fp_Verified := True\<rparr>) (jp_files p)\<rparr>
      | Some ss \<Rightarrow> seedFiles 0 ss p)"

section \<open>The written rows\<close>

definition storeFresh :: "nat \<Rightarrow> WrittenRow list \<Rightarrow> JobProgress \<Rightarrow> JobProgress" where
  "storeFresh fi rows p =
     p\<lparr>jp_written := (jp_written p)(fi \<mapsto> \<lparr>rs_arr = jp_nextArr p, rs_rows = rows\<rparr>), jp_nextArr := Suc (jp_nextArr p)\<rparr>"

text \<open>
  \<open>append\<close> to a stored slice: an empty one gets a new array, one with spare capacity keeps its
  array and grows, a full one moves to a new array. The capacity is not modelled: keeping the
  array is the case in which an old reader's slice looks most like the stored one.
\<close>

definition storeGrown :: "nat \<Rightarrow> WrittenRow list \<Rightarrow> JobProgress \<Rightarrow> JobProgress" where
  "storeGrown fi rows p =
     (if rowsOf p fi = [] then storeFresh fi rows p
      else p\<lparr>jp_written := (jp_written p)(fi \<mapsto> \<lparr>rs_arr = rowArr p fi, rs_rows = rows\<rparr>)\<rparr>)"

definition appendRow :: "WrittenRow \<Rightarrow> JobProgress \<Rightarrow> JobProgress" where
  "appendRow row p = storeGrown (nat (wr_FileIdx row)) (rowsOf p (nat (wr_FileIdx row)) @ [row]) p"

text \<open>The position \<open>at\<close> gives an article: the last row that names it.\<close>

fun rowPos :: "int \<Rightarrow> WrittenRow list \<Rightarrow> nat option" where
  "rowPos a [] = None"
| "rowPos a (r # rs) =
     (case rowPos a rs of Some k \<Rightarrow> Some (Suc k) | None \<Rightarrow> if wr_ArtIdx r = a then Some 0 else None)"

fun upsertLoop :: "WrittenRow list \<Rightarrow> WrittenRow list \<Rightarrow> bool \<Rightarrow> WrittenRow list \<times> bool" where
  "upsertLoop [] out copied = (out, copied)"
| "upsertLoop (r # rs) out copied =
     (case rowPos (wr_ArtIdx r) out of
        None \<Rightarrow> upsertLoop rs (out @ [r]) copied
      | Some k \<Rightarrow> upsertLoop rs (out[k := r]) True)"

definition upsertRows :: "nat \<Rightarrow> WrittenRow list \<Rightarrow> JobProgress \<Rightarrow> JobProgress" where
  "upsertRows fi rows p =
     (if rows = [] then p
      else (let (out, copied) = upsertLoop rows (rowsOf p fi) False in
            if copied then storeFresh fi out p else storeGrown fi out p))"

definition dropRows :: "nat \<Rightarrow> nat list \<Rightarrow> JobProgress \<Rightarrow> JobProgress" where
  "dropRows fi arts p =
     (let rows = rowsOf p fi; dropped = (\<lambda>r. wr_ArtIdx r \<in> set (map int arts)) in
      if rows = [] \<or> arts = [] then p
      else if \<not> (\<exists>r \<in> set rows. dropped r) then p
      else storeFresh fi (filter (\<lambda>r. \<not> dropped r) rows) p)"

definition deleteRows :: "nat \<Rightarrow> JobProgress \<Rightarrow> JobProgress" where
  "deleteRows fi p = p\<lparr>jp_written := (jp_written p)(fi := None)\<rparr>"

section \<open>Article transitions\<close>

definition WholeArticle :: int where
  "WholeArticle = - 1"

definition markEmitted :: "Manifest \<Rightarrow> nat \<Rightarrow> JobProgress \<Rightarrow> JobProgress" where
  "markEmitted m i p =
     (if emittedAt p i \<or> doneAt p i then p
      else movePending (fileIndexForArticle m i) (- 1) (p\<lparr>jp_emitted := bs_Set (int i) (jp_emitted p)\<rparr>))"

definition clearEmitted :: "Manifest \<Rightarrow> nat \<Rightarrow> JobProgress \<Rightarrow> JobProgress" where
  "clearEmitted m i p =
     (if emittedAt p i \<and> \<not> doneAt p i
      then movePending (fileIndexForArticle m i) 1 (p\<lparr>jp_emitted := bs_Clear (int i) (jp_emitted p)\<rparr>)
      else if emittedAt p i then p\<lparr>jp_emitted := bs_Clear (int i) (jp_emitted p)\<rparr>
      else p)"

definition markDone :: "Manifest \<Rightarrow> nat \<Rightarrow> JobProgress \<Rightarrow> JobProgress \<times> bool" where
  "markDone m i p =
     (if doneAt p i then (p, False)
      else
        (let fi = fileIndexForArticle m i;
             p1 = (if \<not> emittedAt p i then movePending fi (- 1) p else p);
             p2 = p1\<lparr>jp_done := bs_Set (int i) (jp_done p1), jp_emitted := bs_Clear (int i) (jp_emitted p1),
                     jp_articlesResolved := jp_articlesResolved p1 + 1\<rparr> in
         (updFile fi (\<lambda>f. f\<lparr>fp_BytesDownloaded := fp_BytesDownloaded f + ArticleBytes m i\<rparr>) p2, True)))"

definition clearOne :: "nat \<Rightarrow> JobProgress \<Rightarrow> JobProgress" where
  "clearOne i p = p\<lparr>jp_done := bs_Clear (int i) (jp_done p), jp_failed := bs_Clear (int i) (jp_failed p),
                    jp_failCharge := (jp_failCharge p)(i := None)\<rparr>"

definition clearDone :: "nat \<Rightarrow> nat list \<Rightarrow> JobProgress \<Rightarrow> JobProgress" where
  "clearDone fi arts p = dropRows fi arts (foldl (\<lambda>q i. clearOne i q) p arts)"

definition markNotDone :: "nat \<Rightarrow> nat \<Rightarrow> JobProgress \<Rightarrow> JobProgress \<times> bool" where
  "markNotDone fi i p = (if \<not> doneAt p i \<or> failedAt p i then (p, False) else (clearDone fi [i] p, True))"

definition limitCharge :: "nat \<Rightarrow> int \<Rightarrow> JobProgress \<Rightarrow> JobProgress" where
  "limitCharge i uncovered p =
     (if uncovered = WholeArticle then p else p\<lparr>jp_failCharge := (jp_failCharge p)(i \<mapsto> uncovered)\<rparr>)"

definition chargeOf :: "Manifest \<Rightarrow> JobProgress \<Rightarrow> nat \<Rightarrow> int" where
  "chargeOf m p i =
     (let full = ArticleBytes m i in case jp_failCharge p i of Some c \<Rightarrow> min c full | None \<Rightarrow> full)"

definition setFailedBits :: "nat \<Rightarrow> JobProgress \<Rightarrow> JobProgress \<times> bool" where
  "setFailedBits i p =
     (if doneAt p i then (p, False)
      else (p\<lparr>jp_done := bs_Set (int i) (jp_done p), jp_failed := bs_Set (int i) (jp_failed p),
              jp_emitted := bs_Clear (int i) (jp_emitted p)\<rparr>, True))"

definition markFailedUncovered :: "Manifest \<Rightarrow> nat \<Rightarrow> int \<Rightarrow> JobProgress \<Rightarrow> JobProgress \<times> bool" where
  "markFailedUncovered m i uncovered p =
     (let wasEmitted = emittedAt p i in
      case setFailedBits i p of (p1, ok) \<Rightarrow>
        if \<not> ok then (p1, False)
        else
          (let p2 = limitCharge i uncovered p1;
               fi = fileIndexForArticle m i;
               p3 = (if \<not> wasEmitted then movePending fi (- 1) p2 else p2);
               charge = chargeOf m p3 i;
               p4 = p3\<lparr>jp_failedBytes := jp_failedBytes p3 + charge\<rparr>;
               p5 = updFile fi (\<lambda>f. f\<lparr>fp_FailedBytes := fp_FailedBytes f + charge,
                                       fp_BytesDownloaded := fp_BytesDownloaded f + (ArticleBytes m i - charge)\<rparr>) p4;
               p6 = p5\<lparr>jp_articlesResolved := jp_articlesResolved p5 + 1\<rparr> in
           (if charge > 0 then p6\<lparr>jp_articlesFailed := jp_articlesFailed p6 + 1\<rparr> else p6, True)))"

definition markFailed :: "Manifest \<Rightarrow> nat \<Rightarrow> JobProgress \<Rightarrow> JobProgress \<times> bool" where
  "markFailed m i p = markFailedUncovered m i WholeArticle p"

text \<open>
  The loop of \<open>resetForReload\<close>: the articles to reset and the ones a complete file keeps failed;
  the cleared list of the source is the reset list.
\<close>

definition resetForReload :: "nat \<Rightarrow> bool \<Rightarrow> JobProgress \<Rightarrow> JobProgress \<times> nat list \<times> nat list" where
  "resetForReload fi clear p =
     (let (lo, hi) = fileRange p fi;
          complete = fp_Complete (jp_files p ! fi);
          p1 = (if clear then p\<lparr>jp_emitted := foldl (\<lambda>b i. bs_Clear (int i) b) (jp_emitted p) [lo..<hi]\<rparr> else p);
          failed = filter (failedAt p) [lo..<hi];
          reset = (if complete then [] else failed);
          retained = (if complete then failed else []) in
      (clearDone fi reset p1, reset, retained))"

section \<open>The derived figures\<close>

definition fileSum :: "Manifest \<Rightarrow> (nat \<Rightarrow> int) \<Rightarrow> nat \<Rightarrow> int" where
  "fileSum m g fi = (let (lo, hi) = FileRange m fi in sumRange g lo hi)"

definition jobSum :: "Manifest \<Rightarrow> (nat \<Rightarrow> int) \<Rightarrow> int" where
  "jobSum m g = sumRange (fileSum m g) 0 (mf_NumFiles m)"

definition resolvedAt :: "JobProgress \<Rightarrow> nat \<Rightarrow> int" where
  "resolvedAt p i = (if doneAt p i then 1 else 0)"

definition chargeAt :: "Manifest \<Rightarrow> JobProgress \<Rightarrow> nat \<Rightarrow> int" where
  "chargeAt m p i = (if doneAt p i \<and> failedAt p i then chargeOf m p i else 0)"

definition chargedAt :: "Manifest \<Rightarrow> JobProgress \<Rightarrow> nat \<Rightarrow> int" where
  "chargedAt m p i = (if chargeAt m p i > 0 then 1 else 0)"

definition downloadedAt :: "Manifest \<Rightarrow> JobProgress \<Rightarrow> nat \<Rightarrow> int" where
  "downloadedAt m p i = (if doneAt p i then ArticleBytes m i - chargeAt m p i else 0)"

definition recomputeFile :: "Manifest \<Rightarrow> JobProgress \<Rightarrow> nat \<Rightarrow> FileProgress" where
  "recomputeFile m p fi =
     (if fi < mf_NumFiles m
      then (jp_files p ! fi)\<lparr>fp_Pending := pendingOf p fi, fp_BytesDownloaded := fileSum m (downloadedAt m p) fi,
              fp_FailedBytes := fileSum m (chargeAt m p) fi, fp_Bytes := ft_Bytes (mf_ft m) fi\<rparr>
      else jp_files p ! fi)"

text \<open>\<open>None\<close> is the panic on a size mismatch.\<close>

definition recompute :: "Manifest \<Rightarrow> JobProgress \<Rightarrow> JobProgress option" where
  "recompute m p =
     (if bs_Len (jp_done p) \<noteq> int (mf_NumArticles m) \<or> mf_NumFiles m > length (jp_files p) then None
      else Some (p\<lparr>jp_files := map (recomputeFile m p) [0..<length (jp_files p)],
                   jp_pendingArticles := sumRange (pendingOf p) 0 (mf_NumFiles m),
                   jp_articlesResolved := jobSum m (resolvedAt p),
                   jp_articlesFailed := jobSum m (chargedAt m p),
                   jp_failedBytes := jobSum m (chargeAt m p)\<rparr>))"

section \<open>Reading the progress\<close>

text \<open>Go's integer division truncates towards zero.\<close>

definition truncDiv :: "int \<Rightarrow> int \<Rightarrow> int" where
  "truncDiv a b = sgn a * sgn b * (\<bar>a\<bar> div \<bar>b\<bar>)"

definition fileBytesDownloaded :: "JobProgress \<Rightarrow> nat \<Rightarrow> int" where
  "fileBytesDownloaded p fi =
     (let f = jp_files p ! fi in
      if fp_Verified f then fp_BytesDownloaded f
      else (let n = int (jp_fileStarts p ! Suc fi) - int (jp_fileStarts p ! fi) in
            if n = 0 then 0 else truncDiv (fp_Bytes f * min (max (fp_Recorded f) 0) n) n))"

definition sizeFigures :: "JobProgress \<Rightarrow> int \<times> int" where
  "sizeFigures p =
     foldl (\<lambda>(expected, remaining) fi.
       let f = jp_files p ! fi in
       if fp_Fetch f \<noteq> FetchAlways then (expected, remaining)
       else if fp_Complete f then (expected + fp_Bytes f, remaining)
       else (let left = fp_Bytes f - fileBytesDownloaded p fi - fp_FailedBytes f in
             (expected + fp_Bytes f, if left > 0 then remaining + left else remaining)))
     (0, 0) [0..<length (jp_files p)]"

definition WrittenBytes :: "int \<Rightarrow> int \<Rightarrow> int \<Rightarrow> int" where
  "WrittenBytes expected remaining failed = max (expected - failed - remaining) 0"

definition prog_ContentFailedBytes :: "JobProgress \<Rightarrow> int" where
  "prog_ContentFailedBytes p = sum_list (map (\<lambda>f. if fp_IsPar2 f then 0 else fp_FailedBytes f) (jp_files p))"

definition prog_HasPar2Files :: "JobProgress \<Rightarrow> bool" where
  "prog_HasPar2Files p \<longleftrightarrow> (\<exists>f \<in> set (jp_files p). fp_IsPar2 f)"

definition prog_AllVerified :: "JobProgress \<Rightarrow> bool" where
  "prog_AllVerified p \<longleftrightarrow> (\<forall>f \<in> set (jp_files p). fp_Verified f)"

definition prog_HasDeferredPar2 :: "JobProgress \<Rightarrow> bool" where
  "prog_HasDeferredPar2 p \<longleftrightarrow> (\<exists>f \<in> set (jp_files p). fp_Fetch f = FetchIfNeeded)"

definition prog_UsesOnDemandPar2 :: "JobProgress \<Rightarrow> bool" where
  "prog_UsesOnDemandPar2 p \<longleftrightarrow> (\<exists>f \<in> set (jp_files p). fp_Fetch f \<noteq> FetchAlways)"

definition prog_DeferredRecoveryIndices :: "JobProgress \<Rightarrow> nat list" where
  "prog_DeferredRecoveryIndices p =
     filter (\<lambda>i. fp_Fetch (jp_files p ! i) = FetchIfNeeded) [0..<length (jp_files p)]"

text \<open>\<open>RecoveryReleased\<close>: fetched, held and total recovery volumes.\<close>

definition RecoveryReleased :: "(nat \<Rightarrow> bool) \<Rightarrow> JobProgress \<Rightarrow> nat \<times> nat \<times> nat" where
  "RecoveryReleased isRecovery p =
     (let vols = filter isRecovery [0..<length (jp_files p)];
          total = length vols;
          held = length (filter (\<lambda>fi. fp_Fetch (jp_files p ! fi) \<noteq> FetchAlways) vols) in
      (if jp_par2ReleaseReason p \<noteq> [] then total - held else 0, held, total))"

definition FetchedRecoveryBlocks :: "FileTable \<Rightarrow> JobProgress \<Rightarrow> nat" where
  "FetchedRecoveryBlocks ft p =
     sum_list (map (\<lambda>fi. let f = jp_files p ! fi in
         if \<not> ft_IsPar2Recovery ft fi \<or> fp_Fetch f \<noteq> FetchAlways \<or> \<not> fp_Complete f \<or> fp_FailedBytes f \<noteq> 0 then 0
         else (case RecoveryVolumeBlocks (ft_Subject ft fi) of Some b \<Rightarrow> b | None \<Rightarrow> 0))
       [0..<length (jp_files p)])"

section \<open>Early abort\<close>

text \<open>
  \<open>float64(failed) / float64(resolved) >= 0.80\<close>, in integers: the quotient of two counts below
  \<open>2 ^ 50\<close> rounds below the constant exactly when the fraction is below four fifths.
\<close>

definition isEarlyAbort :: "JobProgress \<Rightarrow> JobProgress \<times> bool" where
  "isEarlyAbort p =
     (if jp_earlyAborted p then (p, False)
      else if jp_articlesResolved p < 10 then (p, False)
      else if 5 * jp_articlesFailed p \<ge> 4 * jp_articlesResolved p then (p\<lparr>jp_earlyAborted := True\<rparr>, True)
      else (p, False))"

section \<open>Download stamps\<close>

definition isJobStamp :: "Time \<Rightarrow> bool" where
  "isJobStamp t \<longleftrightarrow> unixSeconds t > 0"

definition jobStampOrZero :: "Time \<Rightarrow> Time" where
  "jobStampOrZero t = (if isJobStamp t then t else zeroTime)"

definition setDownloadStartedOnce :: "Time \<Rightarrow> JobProgress \<Rightarrow> JobProgress \<times> bool" where
  "setDownloadStartedOnce t p =
     (if \<not> isJobStamp t \<or> jp_downloadStarted p \<noteq> zeroTime \<or> jp_downloadFinished p \<noteq> zeroTime then (p, False)
      else (p\<lparr>jp_downloadStarted := t\<rparr>, True))"

definition setDownloadFinishedOnce :: "Time \<Rightarrow> JobProgress \<Rightarrow> JobProgress \<times> bool" where
  "setDownloadFinishedOnce t p =
     (if \<not> isJobStamp t \<or> jp_downloadFinished p \<noteq> zeroTime then (p, False)
      else (p\<lparr>jp_downloadFinished := t\<rparr>, True))"

definition clearDownloadFinished :: "JobProgress \<Rightarrow> JobProgress" where
  "clearDownloadFinished p = p\<lparr>jp_downloadFinished := zeroTime\<rparr>"

definition clearDownloadStamps :: "JobProgress \<Rightarrow> JobProgress" where
  "clearDownloadStamps p = p\<lparr>jp_downloadStarted := zeroTime, jp_downloadFinished := zeroTime\<rparr>"

definition restoreDownloadStamps :: "Time \<Rightarrow> Time \<Rightarrow> JobProgress \<Rightarrow> JobProgress" where
  "restoreDownloadStamps started finished p =
     (clearDownloadStamps p)\<lparr>jp_downloadStarted := jobStampOrZero started, jp_downloadFinished := jobStampOrZero finished\<rparr>"

end
