(* ===== verification/Progress_Counts.thy ===== *)
theory Progress_Counts
  imports Progress
begin

text \<open>
  The counters of a resident job's progress always equal what \<open>recompute\<close> derives from the bits:
  every single-article transition moves exactly the figures of its own file and the totals. The
  bits themselves keep three laws: a failed article is done, an emitted one is not, and a limited
  charge belongs to a failed article.
\<close>

section \<open>Sums over ranges\<close>

lemma sumRange_cong: "(\<And>i. lo \<le> i \<Longrightarrow> i < hi \<Longrightarrow> g i = h i) \<Longrightarrow> sumRange g lo hi = sumRange h lo hi"
  unfolding sumRange_def by (intro arg_cong [where f = sum_list] map_cong) simp_all

lemma sumRange_upd:
  assumes "\<And>k. k \<noteq> i \<Longrightarrow> g' k = g k"
  shows "sumRange g' lo hi = sumRange g lo hi + (if lo \<le> i \<and> i < hi then g' i - g i else 0)"
proof (induction hi)
  case (Suc hi)
  show ?case
  proof (cases "lo \<le> hi")
    case True
    then show ?thesis using Suc assms [of hi] by (cases "hi = i") (auto simp: sumRange_def)
  next
    case False
    then show ?thesis by (simp add: sumRange_def)
  qed
qed (simp add: sumRange_def)

lemma fileSum_range: "fileSum m g fj = sumRange g (fst (FileRange m fj)) (snd (FileRange m fj))"
  by (simp add: fileSum_def Let_def split_beta)

lemma fileSum_upd:
  assumes ok: "mf_ok m" and i: "i < mf_NumArticles m" and fj: "fj < mf_NumFiles m"
    and eq: "\<And>k. k \<noteq> i \<Longrightarrow> g' k = g k"
  shows "fileSum m g' fj = fileSum m g fj + (if fj = fileIndexForArticle m i then g' i - g i else 0)"
proof -
  have "(fst (FileRange m fj) \<le> i \<and> i < snd (FileRange m fj)) \<longleftrightarrow> fj = fileIndexForArticle m i"
    using fileIndexForArticle_spec [OF ok i] fileIndexForArticle_eqI [OF ok fj, of i] by auto
  then show ?thesis using sumRange_upd [of i g' g, OF eq] by (simp add: fileSum_range)
qed

lemma jobSum_upd:
  assumes ok: "mf_ok m" and i: "i < mf_NumArticles m" and eq: "\<And>k. k \<noteq> i \<Longrightarrow> g' k = g k"
  shows "jobSum m g' = jobSum m g + (g' i - g i)"
proof -
  define fi where "fi = fileIndexForArticle m i"
  have fi: "fi < mf_NumFiles m" using fileIndexForArticle_spec [OF ok i] by (simp add: fi_def)
  let ?h = "\<lambda>fj. if fj < mf_NumFiles m then fileSum m g' fj else fileSum m g fj"
  have "jobSum m g' = sumRange ?h 0 (mf_NumFiles m)"
    unfolding jobSum_def by (rule sumRange_cong) simp
  also have "\<dots> = jobSum m g + (?h fi - fileSum m g fi)"
    unfolding jobSum_def using fi
    by (subst sumRange_upd [of fi ?h "fileSum m g"]) (auto simp: fileSum_upd [OF ok i _ eq] fi_def)
  finally show ?thesis using fi fileSum_upd [OF ok i fi eq] by (simp add: fi_def)
qed

lemma fileSum_cong: "(\<And>i. g i = h i) \<Longrightarrow> fileSum m g fj = fileSum m h fj"
  by (metis ext)

section \<open>The laws\<close>

definition prog_shape :: "FileTable \<Rightarrow> JobProgress \<Rightarrow> bool" where
  "prog_shape ft p \<longleftrightarrow>
     (bs_ok (jp_done p) \<and> bs_ok (jp_failed p) \<and> bs_ok (jp_emitted p))
   \<and> (bs_Len (jp_done p) = int (ft_TotalArticles ft) \<and> bs_Len (jp_failed p) = int (ft_TotalArticles ft)
      \<and> bs_Len (jp_emitted p) = int (ft_TotalArticles ft))
   \<and> length (jp_files p) = ft_NumFiles ft \<and> jp_fileStarts p = ft_offsets ft"

definition bits_ok :: "JobProgress \<Rightarrow> bool" where
  "bits_ok p \<longleftrightarrow>
     (\<forall>i. failedAt p i \<longrightarrow> doneAt p i) \<and> (\<forall>i. emittedAt p i \<longrightarrow> \<not> doneAt p i)
   \<and> (\<forall>i. i \<in> dom (jp_failCharge p) \<longrightarrow> failedAt p i)"

definition pending_sum :: "JobProgress \<Rightarrow> bool" where
  "pending_sum p \<longleftrightarrow> jp_pendingArticles p = sumRange (\<lambda>fi. fp_Pending (jp_files p ! fi)) 0 (length (jp_files p))"

definition counted :: "Manifest \<Rightarrow> JobProgress \<Rightarrow> bool" where
  "counted m p \<longleftrightarrow>
     (\<forall>fi < mf_NumFiles m.
        fp_Pending (jp_files p ! fi) = pendingOf p fi
      \<and> fp_BytesDownloaded (jp_files p ! fi) = fileSum m (downloadedAt m p) fi
      \<and> fp_FailedBytes (jp_files p ! fi) = fileSum m (chargeAt m p) fi
      \<and> fp_Bytes (jp_files p ! fi) = ft_Bytes (mf_ft m) fi)
   \<and> jp_pendingArticles p = sumRange (pendingOf p) 0 (mf_NumFiles m)
   \<and> jp_articlesResolved p = jobSum m (resolvedAt p)
   \<and> jp_articlesFailed p = jobSum m (chargedAt m p)
   \<and> jp_failedBytes p = jobSum m (chargeAt m p)"

lemma countedI:
  assumes "\<And>fi. fi < mf_NumFiles m \<Longrightarrow> fp_Pending (jp_files p ! fi) = pendingOf p fi"
    and "\<And>fi. fi < mf_NumFiles m \<Longrightarrow> fp_BytesDownloaded (jp_files p ! fi) = fileSum m (downloadedAt m p) fi"
    and "\<And>fi. fi < mf_NumFiles m \<Longrightarrow> fp_FailedBytes (jp_files p ! fi) = fileSum m (chargeAt m p) fi"
    and "\<And>fi. fi < mf_NumFiles m \<Longrightarrow> fp_Bytes (jp_files p ! fi) = ft_Bytes (mf_ft m) fi"
    and "jp_pendingArticles p = sumRange (pendingOf p) 0 (mf_NumFiles m)"
    and "jp_articlesResolved p = jobSum m (resolvedAt p)"
    and "jp_articlesFailed p = jobSum m (chargedAt m p)"
    and "jp_failedBytes p = jobSum m (chargeAt m p)"
  shows "counted m p"
  using assms unfolding counted_def by blast

lemma countedD:
  assumes "counted m p"
  shows "fi < mf_NumFiles m \<Longrightarrow> fp_Pending (jp_files p ! fi) = pendingOf p fi"
    and "fi < mf_NumFiles m \<Longrightarrow> fp_BytesDownloaded (jp_files p ! fi) = fileSum m (downloadedAt m p) fi"
    and "fi < mf_NumFiles m \<Longrightarrow> fp_FailedBytes (jp_files p ! fi) = fileSum m (chargeAt m p) fi"
    and "fi < mf_NumFiles m \<Longrightarrow> fp_Bytes (jp_files p ! fi) = ft_Bytes (mf_ft m) fi"
    and "jp_pendingArticles p = sumRange (pendingOf p) 0 (mf_NumFiles m)"
    and "jp_articlesResolved p = jobSum m (resolvedAt p)"
    and "jp_articlesFailed p = jobSum m (chargedAt m p)"
    and "jp_failedBytes p = jobSum m (chargeAt m p)"
  using assms unfolding counted_def by blast+

text \<open>\<open>counted\<close> is a fixpoint of \<open>recompute\<close>, and \<open>recompute\<close> always reaches it.\<close>

lemma figures_cong:
  assumes "jp_done q = jp_done p" and "jp_failed q = jp_failed p" and "jp_failCharge q = jp_failCharge p"
  shows "resolvedAt q = resolvedAt p" "chargeAt m q = chargeAt m p" "chargedAt m q = chargedAt m p"
    "downloadedAt m q = downloadedAt m p" "chargeOf m q = chargeOf m p"
  using assms by (auto simp: fun_eq_iff resolvedAt_def chargeAt_def chargedAt_def downloadedAt_def chargeOf_def)

lemma pendingOf_cong:
  assumes "jp_done q = jp_done p" and "jp_emitted q = jp_emitted p" and "jp_fileStarts q = jp_fileStarts p"
    and "fp_Fetch (jp_files q ! fi) = fp_Fetch (jp_files p ! fi)"
  shows "pendingOf q fi = pendingOf p fi"
  using assms by (simp add: pendingOf_def countsPending_def fileRange_def)

lemma recompute_total:
  assumes "prog_shape ft p" and "mf_ft m = ft" and "mf_ok m"
  shows "\<exists>q. recompute m p = Some q"
  using assms by (simp add: recompute_def prog_shape_def mf_ok_def mf_NumArticles_def mf_NumFiles_def)

lemma recompute_fields:
  assumes "recompute m p = Some q"
  shows "jp_done q = jp_done p" "jp_failed q = jp_failed p" "jp_emitted q = jp_emitted p"
    "jp_fileStarts q = jp_fileStarts p" "jp_failCharge q = jp_failCharge p" "jp_written q = jp_written p"
    "jp_nextArr q = jp_nextArr p" "length (jp_files q) = length (jp_files p)" "mf_NumFiles m \<le> length (jp_files p)"
    "\<And>fi. fi < length (jp_files p) \<Longrightarrow> jp_files q ! fi = recomputeFile m p fi"
  using assms by (auto simp: recompute_def split: if_splits)

lemma counted_recompute:
  assumes r: "recompute m p = Some q"
  shows "counted m q"
proof -
  note f = recompute_fields [OF r]
  note c = figures_cong [OF f(1,2,5)]
  have files: "jp_files q ! fi = recomputeFile m p fi" if "fi < mf_NumFiles m" for fi
    using that f(9,10) by simp
  have pend: "pendingOf q fi = pendingOf p fi" if "fi < mf_NumFiles m" for fi
    by (rule pendingOf_cong) (simp_all add: f(1-5) files [OF that] recomputeFile_def)
  show ?thesis
  proof (rule countedI)
    show "jp_pendingArticles q = sumRange (pendingOf q) 0 (mf_NumFiles m)"
      using r pend by (auto simp: recompute_def intro!: sumRange_cong split: if_splits)
    show "jp_articlesResolved q = jobSum m (resolvedAt q)" "jp_articlesFailed q = jobSum m (chargedAt m q)"
      "jp_failedBytes q = jobSum m (chargeAt m q)"
      using r unfolding c by (auto simp: recompute_def split: if_splits)
  qed (simp_all add: files recomputeFile_def pend c)
qed

lemma same_figures:
  assumes "fp_Pending f = a" and "fp_BytesDownloaded f = b" and "fp_FailedBytes f = c" and "fp_Bytes f = d"
  shows "f\<lparr>fp_Pending := a, fp_BytesDownloaded := b, fp_FailedBytes := c, fp_Bytes := d\<rparr> = f"
  using assms by (cases f) simp

lemma same_totals:
  assumes "jp_files p = f" and "jp_pendingArticles p = a" and "jp_articlesResolved p = b" and "jp_articlesFailed p = c"
    and "jp_failedBytes p = d"
  shows "p\<lparr>jp_files := f, jp_pendingArticles := a, jp_articlesResolved := b, jp_articlesFailed := c, jp_failedBytes := d\<rparr> = p"
  using assms by (cases p) simp

lemma recompute_fixpoint:
  assumes c: "counted m p" and "bs_Len (jp_done p) = int (mf_NumArticles m)" and n: "mf_NumFiles m = length (jp_files p)"
  shows "recompute m p = Some p"
proof -
  have "recomputeFile m p fi = jp_files p ! fi" if "fi < length (jp_files p)" for fi
  proof -
    have fi: "fi < mf_NumFiles m" using that n by simp
    show ?thesis unfolding recomputeFile_def if_P [OF fi] by (rule same_figures [OF countedD(1-4) [OF c fi]])
  qed
  then have "jp_files p = map (recomputeFile m p) [0..<length (jp_files p)]"
    by (intro nth_equalityI) simp_all
  note same = same_totals [OF this countedD(5-8) [OF c]]
  have "\<not> (bs_Len (jp_done p) \<noteq> int (mf_NumArticles m) \<or> mf_NumFiles m > length (jp_files p))"
    using assms(2,3) by simp
  then show ?thesis unfolding recompute_def same by (rule if_not_P)
qed

section \<open>One article at a time\<close>

definition pendAt :: "JobProgress \<Rightarrow> nat \<Rightarrow> int" where
  "pendAt p i = (if \<not> doneAt p i \<and> \<not> emittedAt p i then 1 else 0)"

lemma pendingOf_fileSum:
  assumes "jp_fileStarts p = ft_offsets (mf_ft m)"
  shows "pendingOf p fj = (if countsPending p fj then fileSum m (pendAt p) fj else 0)"
  using assms
  by (simp add: pendingOf_def fileSum_def fileRange_def FileRange_def ft_Range_def pendAt_def [abs_def])

text \<open>What a transition of article \<open>i\<close> may change, besides its bits and charge.\<close>

definition touches :: "Manifest \<Rightarrow> nat \<Rightarrow> JobProgress \<Rightarrow> JobProgress \<Rightarrow> bool" where
  "touches m i p q \<longleftrightarrow>
     (\<forall>k. k \<noteq> i \<longrightarrow> doneAt q k = doneAt p k \<and> failedAt q k = failedAt p k \<and> emittedAt q k = emittedAt p k
        \<and> jp_failCharge q k = jp_failCharge p k)
   \<and> jp_fileStarts q = jp_fileStarts p \<and> length (jp_files q) = length (jp_files p)
   \<and> (\<forall>fj. fj \<noteq> fileIndexForArticle m i \<longrightarrow> jp_files q ! fj = jp_files p ! fj)
   \<and> (\<forall>fj. fp_Fetch (jp_files q ! fj) = fp_Fetch (jp_files p ! fj) \<and> fp_Bytes (jp_files q ! fj) = fp_Bytes (jp_files p ! fj))"

text \<open>The transition moves every figure by what it changed at its own article.\<close>

definition moves :: "Manifest \<Rightarrow> nat \<Rightarrow> JobProgress \<Rightarrow> JobProgress \<Rightarrow> bool" where
  "moves m i p q \<longleftrightarrow>
     (let fi = fileIndexForArticle m i; f = jp_files p ! fi; g = jp_files q ! fi;
          dp = (if countsPending p fi then pendAt q i - pendAt p i else 0) in
      fp_Pending g = fp_Pending f + dp \<and> jp_pendingArticles q = jp_pendingArticles p + dp
    \<and> fp_BytesDownloaded g = fp_BytesDownloaded f + (downloadedAt m q i - downloadedAt m p i)
    \<and> fp_FailedBytes g = fp_FailedBytes f + (chargeAt m q i - chargeAt m p i)
    \<and> jp_articlesResolved q = jp_articlesResolved p + (resolvedAt q i - resolvedAt p i)
    \<and> jp_articlesFailed q = jp_articlesFailed p + (chargedAt m q i - chargedAt m p i)
    \<and> jp_failedBytes q = jp_failedBytes p + (chargeAt m q i - chargeAt m p i))"

lemma counted_transition:
  assumes ok: "mf_ok m" and i: "i < mf_NumArticles m" and starts: "jp_fileStarts p = ft_offsets (mf_ft m)"
    and c: "counted m p" and t: "touches m i p q" and mv: "moves m i p q"
  shows "counted m q"
proof -
  define fi where "fi = fileIndexForArticle m i"
  have fi: "fi < mf_NumFiles m" using fileIndexForArticle_spec [OF ok i] by (simp add: fi_def)
  have eq: "doneAt q k = doneAt p k \<and> failedAt q k = failedAt p k \<and> emittedAt q k = emittedAt p k
      \<and> jp_failCharge q k = jp_failCharge p k" if "k \<noteq> i" for k
    using t that unfolding touches_def by blast
  have at: "pendAt q k = pendAt p k" "resolvedAt q k = resolvedAt p k" "chargeAt m q k = chargeAt m p k"
    "chargedAt m q k = chargedAt m p k" "downloadedAt m q k = downloadedAt m p k" if "k \<noteq> i" for k
    using eq [OF that] by (simp_all add: pendAt_def resolvedAt_def chargeAt_def chargedAt_def downloadedAt_def chargeOf_def)
  have other: "jp_files q ! fj = jp_files p ! fj" if "fj \<noteq> fi" for fj
    using t that unfolding touches_def fi_def by blast
  have cp: "countsPending q fj = countsPending p fj" for fj
    using t unfolding touches_def countsPending_def by simp
  have startsq: "jp_fileStarts q = ft_offsets (mf_ft m)" using t starts unfolding touches_def by simp
  note pend = pendingOf_fileSum [OF starts] pendingOf_fileSum [OF startsq]
  have dp: "pendingOf q fj = pendingOf p fj
      + (if fj = fi then (if countsPending p fi then pendAt q i - pendAt p i else 0) else 0)"
    if "fj < mf_NumFiles m" for fj
    using fileSum_upd [OF ok i that at(1)] by (simp add: pend cp fi_def)
  note mv = mv [unfolded moves_def Let_def, folded fi_def]
  note sums = fileSum_upd [OF ok i _ at(5), folded fi_def] fileSum_upd [OF ok i _ at(3), folded fi_def]
  show ?thesis
  proof (rule countedI)
    show "fp_Pending (jp_files q ! fj) = pendingOf q fj" if "fj < mf_NumFiles m" for fj
      using countedD(1) [OF c that] mv other [of fj] dp [OF that] by (cases "fj = fi") simp_all
    show "fp_BytesDownloaded (jp_files q ! fj) = fileSum m (downloadedAt m q) fj" if "fj < mf_NumFiles m" for fj
      using countedD(2) [OF c that] mv other [of fj] sums(1) [OF that] by (cases "fj = fi") simp_all
    show "fp_FailedBytes (jp_files q ! fj) = fileSum m (chargeAt m q) fj" if "fj < mf_NumFiles m" for fj
      using countedD(3) [OF c that] mv other [of fj] sums(2) [OF that] by (cases "fj = fi") simp_all
    show "fp_Bytes (jp_files q ! fj) = ft_Bytes (mf_ft m) fj" if "fj < mf_NumFiles m" for fj
      using countedD(4) [OF c that] t unfolding touches_def by simp
    let ?h = "\<lambda>fj. if fj < mf_NumFiles m then pendingOf q fj else pendingOf p fj"
    have "sumRange (pendingOf q) 0 (mf_NumFiles m) = sumRange ?h 0 (mf_NumFiles m)"
      by (rule sumRange_cong) simp
    also have "\<dots> = sumRange (pendingOf p) 0 (mf_NumFiles m) + (?h fi - pendingOf p fi)"
      using fi by (subst sumRange_upd [of fi ?h "pendingOf p"]) (simp_all add: dp)
    finally show "jp_pendingArticles q = sumRange (pendingOf q) 0 (mf_NumFiles m)"
      using mv countedD(5) [OF c] fi dp [OF fi] by simp
    show "jp_articlesResolved q = jobSum m (resolvedAt q)"
      using mv countedD(6) [OF c] jobSum_upd [OF ok i at(2)] by simp
    show "jp_articlesFailed q = jobSum m (chargedAt m q)"
      using mv countedD(7) [OF c] jobSum_upd [OF ok i at(4)] by simp
    show "jp_failedBytes q = jobSum m (chargeAt m q)"
      using mv countedD(8) [OF c] jobSum_upd [OF ok i at(3)] by simp
  qed
qed

lemmas bit_reads = bits.get_put bits.get_drop bits.put_ok bits.drop_ok bits.put_len bits.drop_len

lemma shape_bits:
  assumes "prog_shape (mf_ft m) p" and "mf_ok m" and "i < mf_NumArticles m"
  shows "bs_ok (jp_done p)" "bs_ok (jp_failed p)" "bs_ok (jp_emitted p)"
    "int i < bs_Len (jp_done p)" "int i < bs_Len (jp_failed p)" "int i < bs_Len (jp_emitted p)"
    "fileIndexForArticle m i < length (jp_files p)" "jp_fileStarts p = ft_offsets (mf_ft m)"
  using assms fileIndexForArticle_spec(1) [OF assms(2,3)]
  by (simp_all add: prog_shape_def mf_ok_def mf_NumArticles_def mf_NumFiles_def)

lemma countsPending_bits [simp]:
  "countsPending (p\<lparr>jp_emitted := b\<rparr>) fi = countsPending p fi"
  "countsPending (p\<lparr>jp_done := d, jp_failed := f, jp_emitted := b\<rparr>) fi = countsPending p fi"
  "countsPending (p\<lparr>jp_failCharge := c\<rparr>) fi = countsPending p fi"
  by (simp_all add: countsPending_def)

lemmas step_defs = movePending_def updFile_def Let_def
lemmas at_defs = pendAt_def resolvedAt_def chargeAt_def chargedAt_def downloadedAt_def chargeOf_def

lemma markEmitted_moves:
  assumes sh: "prog_shape (mf_ft m) p" and ok: "mf_ok m" and i: "i < mf_NumArticles m"
    and n: "\<not> (emittedAt p i \<or> doneAt p i)"
  shows "touches m i p (markEmitted m i p)" "moves m i p (markEmitted m i p)"
  using n shape_bits [OF sh ok i]
  by (auto simp: touches_def moves_def markEmitted_def step_defs at_defs bit_reads nth_list_update)

lemma clearEmitted_moves:
  assumes sh: "prog_shape (mf_ft m) p" and ok: "mf_ok m" and i: "i < mf_NumArticles m"
  shows "touches m i p (clearEmitted m i p)" "moves m i p (clearEmitted m i p)"
  using shape_bits [OF sh ok i]
  by (auto simp: touches_def moves_def clearEmitted_def step_defs at_defs bit_reads nth_list_update)

lemma markDone_moves:
  assumes sh: "prog_shape (mf_ft m) p" and ok: "mf_ok m" and i: "i < mf_NumArticles m"
    and n: "\<not> doneAt p i" "\<not> failedAt p i"
  shows "touches m i p (fst (markDone m i p))" "moves m i p (fst (markDone m i p))"
  using n shape_bits [OF sh ok i]
  by (auto simp: touches_def moves_def markDone_def step_defs at_defs bit_reads nth_list_update countsPending_def)

lemma limitCharge_fields [simp]:
  "jp_done (limitCharge i u p) = jp_done p" "jp_failed (limitCharge i u p) = jp_failed p"
  "jp_emitted (limitCharge i u p) = jp_emitted p" "jp_files (limitCharge i u p) = jp_files p"
  "jp_fileStarts (limitCharge i u p) = jp_fileStarts p" "jp_written (limitCharge i u p) = jp_written p"
  "jp_nextArr (limitCharge i u p) = jp_nextArr p" "jp_pendingArticles (limitCharge i u p) = jp_pendingArticles p"
  "jp_articlesResolved (limitCharge i u p) = jp_articlesResolved p"
  "jp_articlesFailed (limitCharge i u p) = jp_articlesFailed p" "jp_failedBytes (limitCharge i u p) = jp_failedBytes p"
  "k \<noteq> i \<Longrightarrow> jp_failCharge (limitCharge i u p) k = jp_failCharge p k"
  by (simp_all add: limitCharge_def)

lemma movePending_fields [simp]:
  "jp_done (movePending fi d p) = jp_done p" "jp_failed (movePending fi d p) = jp_failed p"
  "jp_emitted (movePending fi d p) = jp_emitted p" "jp_failCharge (movePending fi d p) = jp_failCharge p"
  "jp_fileStarts (movePending fi d p) = jp_fileStarts p" "jp_written (movePending fi d p) = jp_written p"
  "jp_nextArr (movePending fi d p) = jp_nextArr p"
  "jp_articlesResolved (movePending fi d p) = jp_articlesResolved p"
  "jp_articlesFailed (movePending fi d p) = jp_articlesFailed p" "jp_failedBytes (movePending fi d p) = jp_failedBytes p"
  by (simp_all add: step_defs)

lemma movePending_moved:
  "jp_files (movePending fi d p) =
     (if countsPending p fi then (jp_files p)[fi := (jp_files p ! fi)\<lparr>fp_Pending := fp_Pending (jp_files p ! fi) + d\<rparr>]
      else jp_files p)"
  "jp_pendingArticles (movePending fi d p) = jp_pendingArticles p + (if countsPending p fi then d else 0)"
  by (simp_all add: step_defs)

text \<open>The closed form of \<open>markFailedUncovered\<close> on an article that is not done.\<close>

definition failMoved :: "nat \<Rightarrow> int \<Rightarrow> JobProgress \<Rightarrow> JobProgress" where
  "failMoved i u p = limitCharge i u (p\<lparr>jp_done := bs_Set (int i) (jp_done p),
     jp_failed := bs_Set (int i) (jp_failed p), jp_emitted := bs_Clear (int i) (jp_emitted p)\<rparr>)"

lemma failMoved_counts [simp]: "countsPending (failMoved i u p) fi = countsPending p fi"
  by (simp add: failMoved_def countsPending_def)

lemma markFailedUncovered_fields:
  assumes "\<not> doneAt p i" and "q = fst (markFailedUncovered m i u p)" and "fi = fileIndexForArticle m i"
    and "r = (if emittedAt p i then failMoved i u p else movePending fi (- 1) (failMoved i u p))"
    and "c = chargeOf m (failMoved i u p) i"
  shows "jp_done q = bs_Set (int i) (jp_done p)" "jp_failed q = bs_Set (int i) (jp_failed p)"
    "jp_emitted q = bs_Clear (int i) (jp_emitted p)" "jp_failCharge q = jp_failCharge (failMoved i u p)"
    "jp_fileStarts q = jp_fileStarts p" "jp_written q = jp_written p" "jp_nextArr q = jp_nextArr p"
    "jp_files q = (jp_files r)[fi := (jp_files r ! fi)\<lparr>fp_FailedBytes := fp_FailedBytes (jp_files r ! fi) + c,
        fp_BytesDownloaded := fp_BytesDownloaded (jp_files r ! fi) + (ArticleBytes m i - c)\<rparr>]"
    "jp_pendingArticles q = jp_pendingArticles r" "jp_articlesResolved q = jp_articlesResolved p + 1"
    "jp_articlesFailed q = jp_articlesFailed p + (if c > 0 then 1 else 0)" "jp_failedBytes q = jp_failedBytes p + c"
proof -
  have c: "chargeOf m r i = c" unfolding assms(4,5) by (simp add: chargeOf_def)
  have q: "q = (let p5 = updFile fi (\<lambda>f. f\<lparr>fp_FailedBytes := fp_FailedBytes f + c,
        fp_BytesDownloaded := fp_BytesDownloaded f + (ArticleBytes m i - c)\<rparr>) (r\<lparr>jp_failedBytes := jp_failedBytes r + c\<rparr>);
      p6 = p5\<lparr>jp_articlesResolved := jp_articlesResolved p5 + 1\<rparr> in
      if c > 0 then p6\<lparr>jp_articlesFailed := jp_articlesFailed p6 + 1\<rparr> else p6)"
    using assms(1-4) c
    by (cases "emittedAt p i") (simp_all add: markFailedUncovered_def setFailedBits_def failMoved_def Let_def)
  show "jp_done q = bs_Set (int i) (jp_done p)" "jp_failed q = bs_Set (int i) (jp_failed p)"
    "jp_emitted q = bs_Clear (int i) (jp_emitted p)" "jp_failCharge q = jp_failCharge (failMoved i u p)"
    "jp_fileStarts q = jp_fileStarts p" "jp_written q = jp_written p" "jp_nextArr q = jp_nextArr p"
    "jp_files q = (jp_files r)[fi := (jp_files r ! fi)\<lparr>fp_FailedBytes := fp_FailedBytes (jp_files r ! fi) + c,
        fp_BytesDownloaded := fp_BytesDownloaded (jp_files r ! fi) + (ArticleBytes m i - c)\<rparr>]"
    "jp_pendingArticles q = jp_pendingArticles r" "jp_articlesResolved q = jp_articlesResolved p + 1"
    "jp_articlesFailed q = jp_articlesFailed p + (if c > 0 then 1 else 0)" "jp_failedBytes q = jp_failedBytes p + c"
    unfolding q by (simp_all add: Let_def updFile_def assms(4) failMoved_def)
qed

lemma markFailedUncovered_moves:
  assumes sh: "prog_shape (mf_ft m) p" and ok: "mf_ok m" and i: "i < mf_NumArticles m"
    and n: "\<not> doneAt p i"
  shows "touches m i p (fst (markFailedUncovered m i u p))" "moves m i p (fst (markFailedUncovered m i u p))"
proof -
  note f = markFailedUncovered_fields [OF n HOL.refl HOL.refl HOL.refl HOL.refl, of m u]
  note s = shape_bits [OF sh ok i]
  show "touches m i p (fst (markFailedUncovered m i u p))"
    unfolding touches_def f using s
    by (auto simp: bit_reads nth_list_update movePending_moved failMoved_def)
  show "moves m i p (fst (markFailedUncovered m i u p))"
    unfolding moves_def f Let_def using s n
    by (auto simp: at_defs f bit_reads movePending_moved) (simp_all add: failMoved_def)
qed

end
