(* ===== verification/Progress_Inv.thy ===== *)
theory Progress_Inv
  imports Progress_Counts
begin

text \<open>
  The laws of the progress record that hold at any residency: the shape of its arrays, the laws of
  the bits, the sum of the pending counts, and the rows: a stored row is the only one of its
  article, belongs to its file and stands for a done article. The last is what lets
  \<open>MarkArticleWritten\<close> append a row without searching for an older one.
\<close>

section \<open>Laws and their frames\<close>

definition inFile :: "JobProgress \<Rightarrow> nat \<Rightarrow> nat \<Rightarrow> bool" where
  "inFile p fi i \<longleftrightarrow> fi < length (jp_files p) \<and> jp_fileStarts p ! fi \<le> i \<and> i < jp_fileStarts p ! Suc fi"

definition row_ok :: "JobProgress \<Rightarrow> nat \<Rightarrow> WrittenRow \<Rightarrow> bool" where
  "row_ok p fi r \<longleftrightarrow> 0 \<le> wr_ArtIdx r \<and> wr_FileIdx r = int fi \<and> HasValidShape r
     \<and> inFile p fi (nat (wr_ArtIdx r)) \<and> doneAt p (nat (wr_ArtIdx r))"

definition rows_ok :: "JobProgress \<Rightarrow> bool" where
  "rows_ok p \<longleftrightarrow> (\<forall>fi. distinct (map wr_ArtIdx (rowsOf p fi)) \<and> (\<forall>r \<in> set (rowsOf p fi). row_ok p fi r))"

definition prog_inv :: "FileTable \<Rightarrow> JobProgress \<Rightarrow> bool" where
  "prog_inv ft p \<longleftrightarrow> prog_shape ft p \<and> bits_ok p \<and> pending_sum p \<and> rows_ok p"

lemma prog_invI:
  "prog_shape ft p \<Longrightarrow> bits_ok p \<Longrightarrow> pending_sum p \<Longrightarrow> rows_ok p \<Longrightarrow> prog_inv ft p"
  by (simp add: prog_inv_def)

lemma prog_invD:
  assumes "prog_inv ft p"
  shows "prog_shape ft p" "bits_ok p" "pending_sum p" "rows_ok p"
  using assms by (simp_all add: prog_inv_def)

lemma pending_sum_cong:
  assumes "pending_sum p" and "jp_pendingArticles q = jp_pendingArticles p" and "length (jp_files q) = length (jp_files p)"
    and "\<And>fi. fi < length (jp_files p) \<Longrightarrow> fp_Pending (jp_files q ! fi) = fp_Pending (jp_files p ! fi)"
  shows "pending_sum q"
  using assms by (auto simp: pending_sum_def intro!: sumRange_cong)

lemma pending_sum_move:
  assumes "pending_sum p" and fi: "fi < length (jp_files p)" and "length (jp_files q) = length (jp_files p)"
    and "\<And>fj. fj \<noteq> fi \<Longrightarrow> fp_Pending (jp_files q ! fj) = fp_Pending (jp_files p ! fj)"
    and "jp_pendingArticles q - fp_Pending (jp_files q ! fi) = jp_pendingArticles p - fp_Pending (jp_files p ! fi)"
  shows "pending_sum q"
  using assms sumRange_upd [of fi "\<lambda>fj. fp_Pending (jp_files q ! fj)" "\<lambda>fj. fp_Pending (jp_files p ! fj)" 0 "length (jp_files p)"]
  by (simp add: pending_sum_def)

lemma row_ok_mono:
  assumes "row_ok p fi r" and "jp_fileStarts q = jp_fileStarts p" and "length (jp_files q) = length (jp_files p)"
    and "doneAt p (nat (wr_ArtIdx r)) \<Longrightarrow> doneAt q (nat (wr_ArtIdx r))"
  shows "row_ok q fi r"
  using assms(1) assms(4) unfolding row_ok_def inFile_def assms(2,3) by blast

lemma rows_okD:
  assumes "rows_ok p"
  shows "distinct (map wr_ArtIdx (rowsOf p fi))" and "r \<in> set (rowsOf p fi) \<Longrightarrow> row_ok p fi r"
  using assms unfolding rows_ok_def by blast+

lemma rows_okI:
  assumes "\<And>fi. distinct (map wr_ArtIdx (rowsOf p fi))" and "\<And>fi r. r \<in> set (rowsOf p fi) \<Longrightarrow> row_ok p fi r"
  shows "rows_ok p"
  using assms unfolding rows_ok_def by blast

lemma rows_ok_grow:
  assumes "rows_ok p" and "jp_written q = jp_written p" and "jp_fileStarts q = jp_fileStarts p"
    and "length (jp_files q) = length (jp_files p)" and "\<And>i. doneAt p i \<Longrightarrow> doneAt q i"
  shows "rows_ok q"
proof (rule rows_okI)
  have eq: "rowsOf q = rowsOf p" using assms(2) by (simp add: rowsOf_def fun_eq_iff)
  show "distinct (map wr_ArtIdx (rowsOf q fi))" for fi unfolding eq by (rule rows_okD(1) [OF assms(1)])
  show "row_ok q fi r" if "r \<in> set (rowsOf q fi)" for fi r
    using that unfolding eq by (rule row_ok_mono [OF rows_okD(2) [OF assms(1)] assms(3,4,5)])
qed

lemma shape_cong:
  assumes "prog_shape ft p" and "bs_ok (jp_done q)" and "bs_ok (jp_failed q)" and "bs_ok (jp_emitted q)"
    and "bs_Len (jp_done q) = bs_Len (jp_done p)" and "bs_Len (jp_failed q) = bs_Len (jp_failed p)"
    and "bs_Len (jp_emitted q) = bs_Len (jp_emitted p)" and "length (jp_files q) = length (jp_files p)"
    and "jp_fileStarts q = jp_fileStarts p"
  shows "prog_shape ft q"
  using assms by (simp add: prog_shape_def)

lemma shape_ok:
  assumes "prog_shape ft p"
  shows "bs_ok (jp_done p)" "bs_ok (jp_failed p)" "bs_ok (jp_emitted p)"
    "bs_Len (jp_done p) = int (ft_TotalArticles ft)" "bs_Len (jp_failed p) = int (ft_TotalArticles ft)"
    "bs_Len (jp_emitted p) = int (ft_TotalArticles ft)" "length (jp_files p) = ft_NumFiles ft" "jp_fileStarts p = ft_offsets ft"
  using assms by (simp_all add: prog_shape_def)

text \<open>Everything the laws read, besides counters other than \<open>Pending\<close>.\<close>

lemma prog_inv_cong:
  assumes "prog_inv ft p" and "jp_done q = jp_done p" and "jp_failed q = jp_failed p" and "jp_emitted q = jp_emitted p"
    and "jp_failCharge q = jp_failCharge p" and "jp_written q = jp_written p" and "jp_fileStarts q = jp_fileStarts p"
    and "jp_pendingArticles q = jp_pendingArticles p" and "length (jp_files q) = length (jp_files p)"
    and "\<And>fi. fi < length (jp_files p) \<Longrightarrow> fp_Pending (jp_files q ! fi) = fp_Pending (jp_files p ! fi)"
  shows "prog_inv ft q"
proof (rule prog_invI)
  note inv = prog_invD [OF assms(1)]
  show "prog_shape ft q" using inv(1) assms(2-9) by (simp add: prog_shape_def)
  show "bits_ok q" using inv(2) assms(2-5) by (simp add: bits_ok_def)
  show "pending_sum q" by (rule pending_sum_cong [OF inv(3)]) (use assms in auto)
  show "rows_ok q" by (rule rows_ok_grow [OF inv(4)]) (use assms in auto)
qed

section \<open>The article transitions\<close>

lemma prog_inv_touched:
  assumes inv: "prog_inv ft p" and fi: "fi < length (jp_files p)"
    and sh: "prog_shape ft q" and b: "bits_ok q" and len: "length (jp_files q) = length (jp_files p)"
    and other: "\<And>fj. fj \<noteq> fi \<Longrightarrow> jp_files q ! fj = jp_files p ! fj"
    and pend: "jp_pendingArticles q - fp_Pending (jp_files q ! fi) = jp_pendingArticles p - fp_Pending (jp_files p ! fi)"
    and w: "jp_written q = jp_written p" and d: "\<And>i. doneAt p i \<Longrightarrow> doneAt q i"
  shows "prog_inv ft q"
proof (rule prog_invI)
  note i = prog_invD [OF inv]
  show "pending_sum q" by (rule pending_sum_move [OF i(3) fi len]) (use other pend in auto)
  have "jp_fileStarts q = jp_fileStarts p" using sh i(1) by (simp add: prog_shape_def)
  then show "rows_ok q" by (rule rows_ok_grow [OF i(4) w _ len d])
qed (fact sh b)+

lemma moves_pending:
  assumes "moves m i p q"
  shows "jp_pendingArticles q - fp_Pending (jp_files q ! fileIndexForArticle m i)
       = jp_pendingArticles p - fp_Pending (jp_files p ! fileIndexForArticle m i)"
  using assms by (simp add: moves_def Let_def)

lemma transition_inv:
  assumes inv: "prog_inv (mf_ft m) p" and ok: "mf_ok m" and i: "i < mf_NumArticles m"
    and t: "touches m i p q" and mv: "moves m i p q" and sh: "prog_shape (mf_ft m) q"
    and b: "bits_ok q" and w: "jp_written q = jp_written p" and d: "doneAt p i \<Longrightarrow> doneAt q i"
  shows "prog_inv (mf_ft m) q"
proof (rule prog_inv_touched [OF inv _ sh b _ _ moves_pending [OF mv] w])
  show "fileIndexForArticle m i < length (jp_files p)" by (rule shape_bits(7) [OF prog_invD(1) [OF inv] ok i])
  show "length (jp_files q) = length (jp_files p)" using t by (simp add: touches_def)
  show "jp_files q ! fj = jp_files p ! fj" if "fj \<noteq> fileIndexForArticle m i" for fj
    using t that unfolding touches_def by blast
  show "doneAt q k" if "doneAt p k" for k
    using t that d unfolding touches_def by (cases "k = i") auto
qed

text \<open>A resident job's laws, and the two facts every door uses.\<close>

definition res_ok :: "Manifest \<Rightarrow> JobProgress \<Rightarrow> bool" where
  "res_ok m p \<longleftrightarrow> mf_ok m \<and> prog_inv (mf_ft m) p \<and> counted m p"

lemma res_okD:
  assumes "res_ok m p"
  shows "mf_ok m" "prog_inv (mf_ft m) p" "counted m p" "prog_shape (mf_ft m) p" "bits_ok p"
    "jp_fileStarts p = ft_offsets (mf_ft m)"
  using assms by (simp_all add: res_ok_def prog_inv_def prog_shape_def)

lemma res_ok_transition:
  assumes r: "res_ok m p" and i: "i < mf_NumArticles m" and t: "touches m i p q" and mv: "moves m i p q"
    and sh: "prog_shape (mf_ft m) q" and b: "bits_ok q" and w: "jp_written q = jp_written p"
    and d: "doneAt p i \<Longrightarrow> doneAt q i"
  shows "res_ok m q"
  using transition_inv [OF res_okD(2,1) [OF r] i t mv sh b w d]
    counted_transition [OF res_okD(1) [OF r] i res_okD(6) [OF r] res_okD(3) [OF r] t mv] res_okD(1) [OF r]
  by (simp add: res_ok_def)

lemma res_ok_markEmitted:
  assumes r: "res_ok m p" and i: "i < mf_NumArticles m"
  shows "res_ok m (markEmitted m i p)"
proof (cases "emittedAt p i \<or> doneAt p i")
  case False
  note s = shape_ok [OF res_okD(4) [OF r]]
  note mv = markEmitted_moves [OF res_okD(4) [OF r] res_okD(1) [OF r] i False]
  have q: "jp_done (markEmitted m i p) = jp_done p" "jp_failed (markEmitted m i p) = jp_failed p"
    "jp_emitted (markEmitted m i p) = bs_Set (int i) (jp_emitted p)" "jp_written (markEmitted m i p) = jp_written p"
    "jp_failCharge (markEmitted m i p) = jp_failCharge p" "length (jp_files (markEmitted m i p)) = length (jp_files p)"
    "jp_fileStarts (markEmitted m i p) = jp_fileStarts p"
    using False by (simp_all add: markEmitted_def movePending_moved)
  show ?thesis
  proof (rule res_ok_transition [OF r i mv])
    show "prog_shape (mf_ft m) (markEmitted m i p)"
      by (rule shape_cong [OF res_okD(4) [OF r]]) (simp_all add: q s bit_reads)
    show "bits_ok (markEmitted m i p)"
      using res_okD(5) [OF r] False s by (auto simp: bits_ok_def q bit_reads)
  qed (simp_all add: q)
qed (use r in \<open>simp add: markEmitted_def\<close>)

lemma res_ok_clearEmitted:
  assumes r: "res_ok m p" and i: "i < mf_NumArticles m"
  shows "res_ok m (clearEmitted m i p)"
proof -
  note s = shape_ok [OF res_okD(4) [OF r]]
  note mv = clearEmitted_moves [OF res_okD(4) [OF r] res_okD(1) [OF r] i]
  have q: "jp_done (clearEmitted m i p) = jp_done p" "jp_failed (clearEmitted m i p) = jp_failed p"
    "jp_written (clearEmitted m i p) = jp_written p"
    "jp_failCharge (clearEmitted m i p) = jp_failCharge p" "length (jp_files (clearEmitted m i p)) = length (jp_files p)"
    "jp_fileStarts (clearEmitted m i p) = jp_fileStarts p"
    "jp_emitted (clearEmitted m i p) = (if emittedAt p i then bs_Clear (int i) (jp_emitted p) else jp_emitted p)"
    by (simp_all add: clearEmitted_def movePending_moved)
  show ?thesis
  proof (rule res_ok_transition [OF r i mv])
    show "prog_shape (mf_ft m) (clearEmitted m i p)"
      by (rule shape_cong [OF res_okD(4) [OF r]]) (simp_all add: q s bit_reads)
    show "bits_ok (clearEmitted m i p)"
      using res_okD(5) [OF r] s by (auto simp: bits_ok_def q bit_reads)
  qed (simp_all add: q)
qed

lemma markDone_fields:
  assumes "\<not> doneAt p i"
  shows "jp_done (fst (markDone m i p)) = bs_Set (int i) (jp_done p)" "jp_failed (fst (markDone m i p)) = jp_failed p"
    "jp_emitted (fst (markDone m i p)) = bs_Clear (int i) (jp_emitted p)" "jp_written (fst (markDone m i p)) = jp_written p"
    "jp_failCharge (fst (markDone m i p)) = jp_failCharge p" "length (jp_files (fst (markDone m i p))) = length (jp_files p)"
    "jp_fileStarts (fst (markDone m i p)) = jp_fileStarts p" "jp_nextArr (fst (markDone m i p)) = jp_nextArr p"
  using assms by (simp_all add: markDone_def Let_def updFile_def movePending_moved)

lemma res_ok_markDone:
  assumes r: "res_ok m p" and i: "i < mf_NumArticles m"
  shows "res_ok m (fst (markDone m i p))"
proof (cases "doneAt p i")
  case False
  note s = shape_ok [OF res_okD(4) [OF r]]
  have nf: "\<not> failedAt p i" using False res_okD(5) [OF r] by (auto simp: bits_ok_def)
  note mv = markDone_moves [OF res_okD(4) [OF r] res_okD(1) [OF r] i False nf]
  note q = markDone_fields [OF False]
  show ?thesis
  proof (rule res_ok_transition [OF r i mv])
    show "prog_shape (mf_ft m) (fst (markDone m i p))"
      by (rule shape_cong [OF res_okD(4) [OF r]]) (simp_all add: q s bit_reads)
    show "bits_ok (fst (markDone m i p))"
      using res_okD(5) [OF r] False s by (auto simp: bits_ok_def q bit_reads)
  qed (simp_all add: q s bit_reads)
qed (use r in \<open>simp add: markDone_def\<close>)

lemma markDone_done:
  assumes "res_ok m p" and "i < mf_NumArticles m"
  shows "doneAt (fst (markDone m i p)) k \<longleftrightarrow> k = i \<or> doneAt p k"
proof (cases "doneAt p i")
  case False
  then show ?thesis using shape_bits(1,4) [OF res_okD(4,1) [OF assms(1)] assms(2)] by (auto simp: markDone_fields bit_reads)
qed (auto simp: markDone_def)

lemma failMoved_charge:
  "jp_failCharge (failMoved i u p) k = (if k = i \<and> u \<noteq> WholeArticle then Some u else jp_failCharge p k)"
  by (simp add: failMoved_def limitCharge_def)

lemma bits_ok_failMoved:
  assumes "bits_ok p" and "prog_shape ft p" and "i < ft_TotalArticles ft"
  shows "bits_ok (failMoved i u p)"
proof -
  note s = shape_ok [OF assms(2)]
  have "jp_done (failMoved i u p) = bs_Set (int i) (jp_done p)" "jp_failed (failMoved i u p) = bs_Set (int i) (jp_failed p)"
    "jp_emitted (failMoved i u p) = bs_Clear (int i) (jp_emitted p)" by (simp_all add: failMoved_def)
  then show ?thesis using assms s by (auto simp: bits_ok_def bit_reads failMoved_charge dom_def split: if_splits)
qed

lemma bits_ok_eq:
  assumes "bits_ok p" and "jp_done q = jp_done p" and "jp_failed q = jp_failed p" and "jp_emitted q = jp_emitted p"
    and "jp_failCharge q = jp_failCharge p"
  shows "bits_ok q"
  using assms by (simp add: bits_ok_def)

lemma res_ok_markFailedUncovered:
  assumes r: "res_ok m p" and i: "i < mf_NumArticles m"
  shows "res_ok m (fst (markFailedUncovered m i u p))"
proof (cases "doneAt p i")
  case False
  note s = shape_ok [OF res_okD(4) [OF r]]
  note mv = markFailedUncovered_moves [OF res_okD(4) [OF r] res_okD(1) [OF r] i False]
  note q = markFailedUncovered_fields [OF False HOL.refl HOL.refl HOL.refl HOL.refl, of m u]
  have i': "i < ft_TotalArticles (mf_ft m)" using i res_okD(1) [OF r] by (simp add: mf_ok_def mf_NumArticles_def)
  show ?thesis
  proof (rule res_ok_transition [OF r i mv])
    show "prog_shape (mf_ft m) (fst (markFailedUncovered m i u p))"
      using mv(1) by (intro shape_cong [OF res_okD(4) [OF r]]) (simp_all add: q(1-5) s bit_reads touches_def)
    show "bits_ok (fst (markFailedUncovered m i u p))"
      by (rule bits_ok_eq [OF bits_ok_failMoved [OF res_okD(5,4) [OF r] i', of u]]) (simp_all only: q(1-4), simp_all add: failMoved_def)
    show "doneAt p i \<Longrightarrow> doneAt (fst (markFailedUncovered m i u p)) i" using False by simp
  qed (fact q(6))
qed (use r in \<open>simp add: markFailedUncovered_def setFailedBits_def\<close>)

section \<open>Writes at any residency\<close>

text \<open>The evicted branch of \<open>markArticleFailed\<close>.\<close>

lemma prog_inv_failMoved:
  assumes inv: "prog_inv ft p" and i: "i < ft_TotalArticles ft"
  shows "prog_inv ft (failMoved i u p)"
proof (rule prog_invI)
  note d = prog_invD [OF inv]
  note s = shape_ok [OF d(1)]
  show "prog_shape ft (failMoved i u p)"
    by (rule shape_cong [OF d(1)]) (simp_all add: failMoved_def s bit_reads)
  show "bits_ok (failMoved i u p)" by (rule bits_ok_failMoved [OF d(2,1) i])
  show "pending_sum (failMoved i u p)" by (rule pending_sum_cong [OF d(3)]) (simp_all add: failMoved_def)
  show "rows_ok (failMoved i u p)" by (rule rows_ok_grow [OF d(4)]) (simp_all add: failMoved_def s bit_reads)
qed

lemma get_clears:
  "bs_ok b \<Longrightarrow> bs_Get (foldl (\<lambda>b i. bs_Clear (int i) b) b is) k \<longleftrightarrow> bs_Get b k \<and> k \<notin> int ` set is"
  "bs_ok b \<Longrightarrow> bs_ok (foldl (\<lambda>b i. bs_Clear (int i) b) b is)"
  "bs_Len (foldl (\<lambda>b i. bs_Clear (int i) b) b is) = bs_Len b"
  by (induction "is" arbitrary: b) (auto simp: bit_reads)

lemma prog_inv_emitted:
  assumes inv: "prog_inv ft p" and "bs_ok b" and "bs_Len b = bs_Len (jp_emitted p)" and "\<And>k. bs_Get b k \<Longrightarrow> bs_Get (jp_emitted p) k"
  shows "prog_inv ft (p\<lparr>jp_emitted := b\<rparr>)"
proof (rule prog_invI)
  note d = prog_invD [OF inv]
  show "prog_shape ft (p\<lparr>jp_emitted := b\<rparr>)" using d(1) assms by (simp add: prog_shape_def)
  show "bits_ok (p\<lparr>jp_emitted := b\<rparr>)" using d(2) assms(4) by (auto simp: bits_ok_def)
  show "pending_sum (p\<lparr>jp_emitted := b\<rparr>)" by (rule pending_sum_cong [OF d(3)]) simp_all
  show "rows_ok (p\<lparr>jp_emitted := b\<rparr>)" by (rule rows_ok_grow [OF d(4)]) simp_all
qed

lemma nth_updFile:
  "fj < length (jp_files p) \<Longrightarrow> jp_files (updFile fi g p) ! fj = (if fj = fi then g (jp_files p ! fi) else jp_files p ! fj)"
  by (simp add: updFile_def)

lemma updFile_fields [simp]:
  "jp_done (updFile fi g p) = jp_done p" "jp_failed (updFile fi g p) = jp_failed p" "jp_emitted (updFile fi g p) = jp_emitted p"
  "jp_failCharge (updFile fi g p) = jp_failCharge p" "jp_written (updFile fi g p) = jp_written p"
  "jp_nextArr (updFile fi g p) = jp_nextArr p" "jp_fileStarts (updFile fi g p) = jp_fileStarts p"
  "jp_pendingArticles (updFile fi g p) = jp_pendingArticles p" "length (jp_files (updFile fi g p)) = length (jp_files p)"
  "jp_articlesResolved (updFile fi g p) = jp_articlesResolved p" "jp_articlesFailed (updFile fi g p) = jp_articlesFailed p"
  "jp_failedBytes (updFile fi g p) = jp_failedBytes p"
  by (simp_all add: updFile_def)

lemma prog_inv_updFile:
  assumes "prog_inv ft p" and "\<And>f. fp_Pending (g f) = fp_Pending f"
  shows "prog_inv ft (updFile fi g p)"
  by (rule prog_inv_cong [OF assms(1)])
    (simp_all add: nth_updFile assms(2))

lemma prog_inv_recompute:
  assumes inv: "prog_inv (mf_ft m) p" and ok: "mf_ok m" and r: "recompute m p = Some q"
  shows "res_ok m q"
proof -
  note d = prog_invD [OF inv] and f = recompute_fields [OF r]
  have c: "counted m q" by (rule counted_recompute [OF r])
  have n: "length (jp_files q) = mf_NumFiles m" using f(8) shape_ok(7) [OF d(1)] by (simp add: mf_NumFiles_def)
  have "prog_inv (mf_ft m) q"
  proof (rule prog_invI)
    show "prog_shape (mf_ft m) q" using d(1) by (simp add: prog_shape_def f)
    show "bits_ok q" using d(2) by (simp add: bits_ok_def f)
    show "pending_sum q"
      unfolding pending_sum_def countedD(5) [OF c] n by (rule sumRange_cong) (simp add: countedD(1) [OF c])
    show "rows_ok q" by (rule rows_ok_grow [OF d(4)]) (simp_all add: f)
  qed
  then show ?thesis using ok c by (simp add: res_ok_def)
qed

lemma setFileFetchPolicy_fields:
  assumes fi: "fi < length (jp_files p)" and "q = setFileFetchPolicy fi policy p"
  shows "jp_done q = jp_done p" "jp_failed q = jp_failed p" "jp_emitted q = jp_emitted p" "jp_failCharge q = jp_failCharge p"
    "jp_fileStarts q = jp_fileStarts p" "jp_written q = jp_written p" "jp_nextArr q = jp_nextArr p"
    "length (jp_files q) = length (jp_files p)" "\<And>fj. fj \<noteq> fi \<Longrightarrow> jp_files q ! fj = jp_files p ! fj"
    "jp_pendingArticles q - fp_Pending (jp_files q ! fi) = jp_pendingArticles p - fp_Pending (jp_files p ! fi)"
    "fp_Fetch (jp_files q ! fi) = policy"
    "jp_articlesResolved q = jp_articlesResolved p" "jp_articlesFailed q = jp_articlesFailed p" "jp_failedBytes q = jp_failedBytes p"
    "fp_BytesDownloaded (jp_files q ! fi) = fp_BytesDownloaded (jp_files p ! fi)"
    "fp_FailedBytes (jp_files q ! fi) = fp_FailedBytes (jp_files p ! fi)" "fp_Bytes (jp_files q ! fi) = fp_Bytes (jp_files p ! fi)"
  using assms by (simp_all add: setFileFetchPolicy_def setPending_def updFile_def Let_def)

lemma setFileFetchPolicy_pending:
  assumes fi: "fi < length (jp_files p)" and "fp_Fetch (jp_files p ! fi) \<noteq> policy" and "q = setFileFetchPolicy fi policy p"
  shows "fp_Pending (jp_files q ! fi) = pendingOf q fi"
proof -
  define p1 where "p1 = updFile fi (\<lambda>f. f\<lparr>fp_Fetch := policy\<rparr>) p"
  note f = setFileFetchPolicy_fields [OF fi assms(3)]
  have "fp_Pending (jp_files q ! fi) = pendingOf p1 fi"
    using assms by (simp add: setFileFetchPolicy_def setPending_def Let_def p1_def) (simp add: updFile_def)
  also have "\<dots> = pendingOf q fi"
    using fi by (intro pendingOf_cong) (simp_all add: p1_def updFile_def f)
  finally show ?thesis .
qed

lemma prog_inv_setFileFetchPolicy:
  assumes inv: "prog_inv ft p" and fi: "fi < length (jp_files p)"
  shows "prog_inv ft (setFileFetchPolicy fi policy p)"
proof -
  note f = setFileFetchPolicy_fields [OF fi HOL.refl [of "setFileFetchPolicy fi policy p"]]
  note d = prog_invD [OF inv]
  show ?thesis
  proof (rule prog_inv_touched [OF inv fi _ _ f(8) f(9) f(10) f(6)])
    show "prog_shape ft (setFileFetchPolicy fi policy p)" using d(1) by (simp add: prog_shape_def f)
    show "bits_ok (setFileFetchPolicy fi policy p)" by (rule bits_ok_eq [OF d(2)]) (simp_all add: f)
  qed (simp_all add: f(1))
qed

lemma counted_setFileFetchPolicy:
  assumes r: "res_ok m p" and fi: "fi < length (jp_files p)"
  shows "res_ok m (setFileFetchPolicy fi policy p)"
proof (cases "fp_Fetch (jp_files p ! fi) = policy")
  case True
  then show ?thesis using r by (simp add: setFileFetchPolicy_def)
next
  case False
  define q where "q = setFileFetchPolicy fi policy p"
  note f = setFileFetchPolicy_fields [OF fi q_def] and c = res_okD(3) [OF r]
  have inv: "prog_inv (mf_ft m) q" unfolding q_def by (rule prog_inv_setFileFetchPolicy [OF res_okD(2) [OF r] fi])
  have pend: "fp_Pending (jp_files q ! fj) = pendingOf q fj" if "fj < mf_NumFiles m" for fj
  proof (cases "fj = fi")
    case False
    have "pendingOf q fj = pendingOf p fj" using False by (intro pendingOf_cong) (simp_all add: f)
    then show ?thesis using countedD(1) [OF c that] f(9) [OF False] by simp
  qed (use setFileFetchPolicy_pending [OF fi False q_def] in simp)
  have n: "length (jp_files q) = mf_NumFiles m"
    using shape_ok(7) [OF prog_invD(1) [OF inv]] by (simp add: mf_NumFiles_def)
  note g = figures_cong [OF f(1,2,4)]
  have "counted m q"
  proof (rule countedI)
    show "jp_pendingArticles q = sumRange (pendingOf q) 0 (mf_NumFiles m)"
      using prog_invD(3) [OF inv] unfolding pending_sum_def n by (simp cong: sumRange_cong add: pend)
    show "fp_BytesDownloaded (jp_files q ! fj) = fileSum m (downloadedAt m q) fj"
      "fp_FailedBytes (jp_files q ! fj) = fileSum m (chargeAt m q) fj"
      "fp_Bytes (jp_files q ! fj) = ft_Bytes (mf_ft m) fj" if "fj < mf_NumFiles m" for fj
      using countedD(2-4) [OF c that] f(9) [of fj] by (cases "fj = fi"; simp add: f g)+
  qed (simp_all add: pend f g countedD(6-8) [OF c])
  then show ?thesis using inv res_okD(1) [OF r] by (simp add: res_ok_def q_def)
qed

text \<open>Fields the figures do not read may change freely.\<close>

lemma res_ok_updFile:
  assumes r: "res_ok m p" and "\<And>f. fp_Pending (g f) = fp_Pending f" and "\<And>f. fp_BytesDownloaded (g f) = fp_BytesDownloaded f"
    and "\<And>f. fp_FailedBytes (g f) = fp_FailedBytes f" and "\<And>f. fp_Bytes (g f) = fp_Bytes f" and "\<And>f. fp_Fetch (g f) = fp_Fetch f"
  shows "res_ok m (updFile fi g p)"
proof -
  note c = res_okD(3) [OF r] and g = figures_cong [of "updFile fi g p" p, simplified]
  have n: "length (jp_files p) = mf_NumFiles m" using shape_ok(7) [OF res_okD(4) [OF r]] by (simp add: mf_NumFiles_def)
  have pend: "pendingOf (updFile fi g p) fj = pendingOf p fj" if "fj < mf_NumFiles m" for fj
    using that n by (intro pendingOf_cong) (simp_all add: nth_updFile assms)
  have "counted m (updFile fi g p)"
  proof (rule countedI)
    show "jp_pendingArticles (updFile fi g p) = sumRange (pendingOf (updFile fi g p)) 0 (mf_NumFiles m)"
      using countedD(5) [OF c] by (simp cong: sumRange_cong add: pend)
  qed (simp_all add: nth_updFile n pend g assms countedD [OF c])
  then show ?thesis using r prog_inv_updFile [of "mf_ft m" p g fi] assms(2) by (simp add: res_ok_def)
qed

section \<open>Rows\<close>

lemma storeFresh_fields [simp]:
  "jp_done (storeFresh fi rows p) = jp_done p" "jp_failed (storeFresh fi rows p) = jp_failed p"
  "jp_emitted (storeFresh fi rows p) = jp_emitted p" "jp_failCharge (storeFresh fi rows p) = jp_failCharge p"
  "jp_fileStarts (storeFresh fi rows p) = jp_fileStarts p" "jp_files (storeFresh fi rows p) = jp_files p"
  "jp_pendingArticles (storeFresh fi rows p) = jp_pendingArticles p"
  "jp_articlesResolved (storeFresh fi rows p) = jp_articlesResolved p"
  "jp_articlesFailed (storeFresh fi rows p) = jp_articlesFailed p" "jp_failedBytes (storeFresh fi rows p) = jp_failedBytes p"
  by (simp_all add: storeFresh_def)

lemma storeGrown_fields [simp]:
  "jp_done (storeGrown fi rows p) = jp_done p" "jp_failed (storeGrown fi rows p) = jp_failed p"
  "jp_emitted (storeGrown fi rows p) = jp_emitted p" "jp_failCharge (storeGrown fi rows p) = jp_failCharge p"
  "jp_fileStarts (storeGrown fi rows p) = jp_fileStarts p" "jp_files (storeGrown fi rows p) = jp_files p"
  "jp_pendingArticles (storeGrown fi rows p) = jp_pendingArticles p"
  "jp_articlesResolved (storeGrown fi rows p) = jp_articlesResolved p"
  "jp_articlesFailed (storeGrown fi rows p) = jp_articlesFailed p" "jp_failedBytes (storeGrown fi rows p) = jp_failedBytes p"
  by (simp_all add: storeGrown_def)

lemma rowsOf_store [simp]:
  "rowsOf (storeFresh fi rows p) fj = (if fj = fi then rows else rowsOf p fj)"
  "rowsOf (storeGrown fi rows p) fj = (if fj = fi then rows else rowsOf p fj)"
  by (simp_all add: rowsOf_def storeFresh_def storeGrown_def)

text \<open>Two records that differ in the stored rows only.\<close>

definition same_but_rows :: "JobProgress \<Rightarrow> JobProgress \<Rightarrow> bool" where
  "same_but_rows p q \<longleftrightarrow>
     (jp_done q = jp_done p \<and> jp_failed q = jp_failed p \<and> jp_emitted q = jp_emitted p \<and> jp_failCharge q = jp_failCharge p)
   \<and> (jp_fileStarts q = jp_fileStarts p \<and> jp_files q = jp_files p \<and> jp_pendingArticles q = jp_pendingArticles p)
   \<and> (jp_articlesResolved q = jp_articlesResolved p \<and> jp_articlesFailed q = jp_articlesFailed p \<and> jp_failedBytes q = jp_failedBytes p)"

lemma same_but_rowsD:
  assumes "same_but_rows p q"
  shows "jp_done q = jp_done p" "jp_failed q = jp_failed p" "jp_emitted q = jp_emitted p" "jp_failCharge q = jp_failCharge p"
    "jp_fileStarts q = jp_fileStarts p" "jp_files q = jp_files p" "jp_pendingArticles q = jp_pendingArticles p"
    "jp_articlesResolved q = jp_articlesResolved p" "jp_articlesFailed q = jp_articlesFailed p" "jp_failedBytes q = jp_failedBytes p"
  using assms by (simp_all add: same_but_rows_def)

lemma same_but_rows_store [simp, intro]:
  "same_but_rows p (storeFresh fi rows p)" "same_but_rows p (storeGrown fi rows p)"
  "same_but_rows p (appendRow r p)" "same_but_rows p (upsertRows fi rows p)" "same_but_rows p (dropRows fi arts p)"
  "same_but_rows p (deleteRows fi p)" "same_but_rows p p"
  by (simp_all add: same_but_rows_def appendRow_def upsertRows_def dropRows_def deleteRows_def Let_def split: prod.splits)

lemma counted_rows:
  assumes "same_but_rows p q" and "counted m p"
  shows "counted m q"
proof -
  note s = same_but_rowsD [OF assms(1)]
  have "pendingOf q = pendingOf p" by (rule ext, rule pendingOf_cong) (simp_all add: s)
  then show ?thesis using assms(2) unfolding counted_def figures_cong [OF s(1,2,4)] s by simp
qed

lemma prog_inv_rows:
  assumes "same_but_rows p q" and "prog_inv ft p" and "rows_ok q"
  shows "prog_inv ft q"
proof (rule prog_invI)
  note s = same_but_rowsD [OF assms(1)] and d = prog_invD [OF assms(2)]
  show "prog_shape ft q" using d(1) by (simp add: prog_shape_def s)
  show "bits_ok q" using d(2) by (simp add: bits_ok_def s)
  show "pending_sum q" using d(3) by (simp add: pending_sum_def s)
qed (fact assms(3))

lemma res_ok_rows: "same_but_rows p q \<Longrightarrow> res_ok m p \<Longrightarrow> rows_ok q \<Longrightarrow> res_ok m q"
  using counted_rows prog_inv_rows by (simp add: res_ok_def)

lemma rows_ok_store:
  assumes ok: "rows_ok p" and s: "same_but_rows p q" and eq: "\<And>fj. fj \<noteq> fi \<Longrightarrow> rowsOf q fj = rowsOf p fj"
    and d: "distinct (map wr_ArtIdx (rowsOf q fi))" and r: "\<And>r. r \<in> set (rowsOf q fi) \<Longrightarrow> row_ok p fi r"
  shows "rows_ok q"
proof (rule rows_okI)
  note t = same_but_rowsD [OF s]
  show "distinct (map wr_ArtIdx (rowsOf q fj))" for fj
    using d eq rows_okD(1) [OF ok, of fj] by (cases "fj = fi") simp_all
  show "row_ok q fj x" if "x \<in> set (rowsOf q fj)" for fj x
  proof (rule row_ok_mono)
    show "row_ok p fj x" using that r eq rows_okD(2) [OF ok, of x fj] by (cases "fj = fi") simp_all
  qed (simp_all add: t)
qed

lemma rowPos_None: "rowPos a rs = None \<longleftrightarrow> a \<notin> wr_ArtIdx ` set rs"
  by (induction rs) (auto split: option.splits)

lemma rowPos_Some: "rowPos a rs = Some k \<Longrightarrow> k < length rs \<and> wr_ArtIdx (rs ! k) = a"
  by (induction rs arbitrary: k) (auto split: option.splits if_splits)

lemma upsertLoop_props:
  assumes "upsertLoop rows out c = (res, c')" and "distinct (map wr_ArtIdx out)"
  shows "distinct (map wr_ArtIdx res) \<and> set res \<subseteq> set out \<union> set rows
    \<and> wr_ArtIdx ` set res = wr_ArtIdx ` set out \<union> wr_ArtIdx ` set rows"
  using assms
proof (induction rows out c arbitrary: res c' rule: upsertLoop.induct)
  case (2 r rs out c)
  show ?case
  proof (cases "rowPos (wr_ArtIdx r) out")
    case None
    then have "distinct (map wr_ArtIdx (out @ [r]))" using "2.prems" by (simp add: rowPos_None)
    then have "distinct (map wr_ArtIdx res) \<and> set res \<subseteq> set (out @ [r]) \<union> set rs
      \<and> wr_ArtIdx ` set res = wr_ArtIdx ` set (out @ [r]) \<union> wr_ArtIdx ` set rs"
      using "2.IH"(1) [OF None, of res c'] "2.prems" None by simp
    then show ?thesis by auto
  next
    case (Some k)
    note k = rowPos_Some [OF Some]
    have keys: "map wr_ArtIdx (out[k := r]) = map wr_ArtIdx out"
      using k by (simp add: map_update list_update_same_conv)
    then have img: "wr_ArtIdx ` set (out[k := r]) = wr_ArtIdx ` set out" by (metis set_map)
    have mem: "wr_ArtIdx r \<in> wr_ArtIdx ` set out" using k by (metis image_eqI nth_mem)
    have "distinct (map wr_ArtIdx res) \<and> set res \<subseteq> set (out[k := r]) \<union> set rs
      \<and> wr_ArtIdx ` set res = wr_ArtIdx ` set (out[k := r]) \<union> wr_ArtIdx ` set rs"
      using "2.IH"(2) [OF Some] "2.prems" Some keys by simp
    then show ?thesis using set_update_subset_insert [of out k r] img mem by (simp only: img) auto
  qed
qed auto

lemma rowsOf_upsertRows:
  "rowsOf (upsertRows fi rows p) fj = (if fj = fi \<and> rows \<noteq> [] then fst (upsertLoop rows (rowsOf p fi) False) else rowsOf p fj)"
  by (auto simp: upsertRows_def split: prod.splits)

lemma rows_ok_upsertRows:
  assumes ok: "rows_ok p" and r: "\<And>r. r \<in> set rows \<Longrightarrow> row_ok p fi r"
  shows "rows_ok (upsertRows fi rows p)"
proof (cases "rows = []")
  case False
  obtain res c where u: "upsertLoop rows (rowsOf p fi) False = (res, c)" by fastforce
  note props = upsertLoop_props [OF u rows_okD(1) [OF ok]]
  show ?thesis
  proof (rule rows_ok_store [OF ok, of _ fi])
    show "row_ok p fi x" if "x \<in> set (rowsOf (upsertRows fi rows p) fi)" for x
      using that False props r rows_okD(2) [OF ok, of x fi] by (auto simp: rowsOf_upsertRows u)
  qed (use False props in \<open>auto simp: rowsOf_upsertRows u\<close>)
qed (use ok in \<open>simp add: upsertRows_def\<close>)

lemma rows_ok_appendRow:
  assumes ok: "rows_ok p" and r: "row_ok p (nat (wr_FileIdx row)) row"
    and new: "wr_ArtIdx row \<notin> wr_ArtIdx ` set (rowsOf p (nat (wr_FileIdx row)))"
  shows "rows_ok (appendRow row p)"
proof (rule rows_ok_store [OF ok, of _ "nat (wr_FileIdx row)"])
  show "row_ok p (nat (wr_FileIdx row)) x" if "x \<in> set (rowsOf (appendRow row p) (nat (wr_FileIdx row)))" for x
    using that r rows_okD(2) [OF ok] by (auto simp: appendRow_def)
qed (use new rows_okD(1) [OF ok] in \<open>auto simp: appendRow_def\<close>)

lemma rowsOf_dropRows:
  "rowsOf (dropRows fi arts p) fj =
     (if fj = fi then filter (\<lambda>r. wr_ArtIdx r \<notin> int ` set arts) (rowsOf p fi) else rowsOf p fj)"
proof (cases "fj = fi \<and> rowsOf p fi \<noteq> [] \<and> arts \<noteq> []")
  case True
  then show ?thesis
    by (auto simp: dropRows_def Let_def filter_id_conv)
next
  case False
  then show ?thesis by (auto simp: dropRows_def Let_def)
qed

lemma rowsOf_deleteRows [simp]: "rowsOf (deleteRows fi p) fj = (if fj = fi then [] else rowsOf p fj)"
  by (simp add: rowsOf_def deleteRows_def)

lemma rows_ok_deleteRows: "rows_ok p \<Longrightarrow> rows_ok (deleteRows fi p)"
  by (rule rows_ok_store [of p _ fi]) simp_all

section \<open>Returning articles to Outstanding\<close>

lemma clears_fields:
  fixes p :: JobProgress
  defines "q arts \<equiv> foldl (\<lambda>q i. clearOne i q) p arts"
  shows "jp_emitted (q arts) = jp_emitted p" "jp_files (q arts) = jp_files p" "jp_fileStarts (q arts) = jp_fileStarts p"
    "jp_written (q arts) = jp_written p" "jp_nextArr (q arts) = jp_nextArr p" "jp_pendingArticles (q arts) = jp_pendingArticles p"
    "jp_done (q arts) = foldl (\<lambda>b i. bs_Clear (int i) b) (jp_done p) arts"
    "jp_failed (q arts) = foldl (\<lambda>b i. bs_Clear (int i) b) (jp_failed p) arts"
    "jp_failCharge (q arts) k = (if k \<in> set arts then None else jp_failCharge p k)"
  unfolding q_def by (induction arts rule: rev_induct) (auto simp: clearOne_def)

lemma inFile_unique:
  assumes ft: "ft_ok ft" and sh: "prog_shape ft p" and a: "inFile p fi i" and b: "inFile p fj i"
  shows "fi = fj"
proof -
  note s = shape_ok(7,8) [OF sh]
  have "\<not> (x < y)" if "inFile p x i" "inFile p y i" for x y
    using ft_offset_mono [OF ft, of "Suc x" y] that by (auto simp: inFile_def s)
  then show ?thesis using a b by (metis linorder_cases)
qed

lemma prog_inv_clearDone:
  assumes inv: "prog_inv ft p" and ft: "ft_ok ft" and arts: "\<And>i. i \<in> set arts \<Longrightarrow> inFile p fi i"
  shows "prog_inv ft (clearDone fi arts p)"
proof -
  define q where "q = foldl (\<lambda>q i. clearOne i q) p arts"
  note d = prog_invD [OF inv] and q = clears_fields [of p arts, folded q_def]
  note s = shape_ok [OF d(1)]
  have sb: "same_but_rows q (dropRows fi arts q)" by simp
  note t = same_but_rowsD [OF sb]
  show ?thesis unfolding clearDone_def q_def [symmetric]
  proof (rule prog_invI)
    show "prog_shape ft (dropRows fi arts q)"
      by (rule shape_cong [OF d(1)]) (simp_all add: t q s get_clears)
    show "bits_ok (dropRows fi arts q)"
      using d(2) s by (auto simp: bits_ok_def t q get_clears dom_def split: if_splits)
    show "pending_sum (dropRows fi arts q)" by (rule pending_sum_cong [OF d(3)]) (simp_all add: t q)
    have rq: "rowsOf q = rowsOf p" by (simp add: rowsOf_def q fun_eq_iff)
    show "rows_ok (dropRows fi arts q)"
    proof (rule rows_okI)
      show "distinct (map wr_ArtIdx (rowsOf (dropRows fi arts q) fj))" for fj
        using rows_okD(1) [OF d(4), of fj] by (auto simp: rowsOf_dropRows rq intro: distinct_map_filter)
      fix fj r assume r: "r \<in> set (rowsOf (dropRows fi arts q) fj)"
      then have ro: "row_ok p fj r" using rows_okD(2) [OF d(4), of r fj] by (auto simp: rowsOf_dropRows rq split: if_splits)
      have "nat (wr_ArtIdx r) \<notin> set arts"
      proof
        assume m: "nat (wr_ArtIdx r) \<in> set arts"
        then have "fi = fj" using inFile_unique [OF ft d(1) arts] ro by (auto simp: row_ok_def)
        then show False using r m ro by (force simp: rowsOf_dropRows rq row_ok_def)
      qed
      then show "row_ok (dropRows fi arts q) fj r"
        using s ro by (intro row_ok_mono [OF ro]) (auto simp: t q get_clears)
    qed
  qed
qed

end
