(* ===== verification/Crc.thy ===== *)
theory Crc
  imports Prelude
begin

unbundle bit_operations_syntax

text \<open>
  The checksum arithmetic of \<^verbatim>\<open>internal/crc32util/crc32combine.go\<close>: \<open>Combine\<close> derives the CRC-32 of a
  concatenation from the two parts' CRCs and the second length by squaring a matrix over GF(2). The
  reference is the bitwise CRC-32 (IEEE, reflected) that Go's \<^verbatim>\<open>hash/crc32\<close> computes. The locale
  \<open>linear_step\<close> has the algebra; it is interpreted on the one-bit CRC step.
\<close>

section \<open>The source\<close>

definition poly :: "32 word" where
  "poly = 0xEDB88320"

text \<open>The loop of \<open>gf2MatrixMul\<close>, which stops when no bit of the vector is left.\<close>

fun mulLoop :: "32 word list \<Rightarrow> 32 word \<Rightarrow> 32 word \<Rightarrow> 32 word" where
  "mulLoop [] vec acc = acc"
| "mulLoop (r # rs) vec acc =
     (if vec = 0 then acc
      else mulLoop rs (drop_bit 1 vec) (if vec AND 1 \<noteq> 0 then acc XOR r else acc))"

definition gf2MatrixMul :: "32 word list \<Rightarrow> 32 word \<Rightarrow> 32 word" where
  "gf2MatrixMul mat vec = mulLoop mat vec 0"

definition gf2MatrixSquare :: "32 word list \<Rightarrow> 32 word list" where
  "gf2MatrixSquare src = map (gf2MatrixMul src) src"

definition oneBit :: "32 word list" where
  "oneBit = poly # map (\<lambda>n. push_bit n 1) [0..<31]"

text \<open>
  The loop of \<open>Combine\<close>, one round of which uses and produces an odd and an even power; the length
  is a positive \<open>int64\<close>.
\<close>

function combineLoop :: "32 word list \<Rightarrow> nat \<Rightarrow> 32 word \<Rightarrow> 32 word" where
  "combineLoop oddM n crc1 =
     (let evenM = gf2MatrixSquare oddM;
          c1 = (if n mod 2 \<noteq> 0 then gf2MatrixMul evenM crc1 else crc1);
          n1 = n div 2 in
      if n1 = 0 then c1
      else
        (let oddM1 = gf2MatrixSquare evenM;
             c2 = (if n1 mod 2 \<noteq> 0 then gf2MatrixMul oddM1 c1 else c1);
             n2 = n1 div 2 in
         if n2 = 0 then c2 else combineLoop oddM1 n2 c2))"
  by pat_completeness auto
termination
  by (relation "measure (\<lambda>(oddM, n, c). n)") auto

declare combineLoop.simps [simp del]

definition Combine :: "32 word \<Rightarrow> 32 word \<Rightarrow> int \<Rightarrow> 32 word" where
  "Combine crc1 crc2 len2 =
     (if len2 \<le> 0 then crc1
      else
        (let evenM = gf2MatrixSquare oneBit;
             oddM = gf2MatrixSquare evenM in
         combineLoop oddM (nat len2) crc1 XOR crc2))"

definition oneByteShift :: "32 word list" where
  "oneByteShift = gf2MatrixSquare (gf2MatrixSquare (gf2MatrixSquare oneBit))"

function shiftLoop :: "32 word list \<Rightarrow> nat \<Rightarrow> 32 word \<Rightarrow> 32 word" where
  "shiftLoop p n val =
     (if n = 0 then val
      else
        (let v = (if n mod 2 \<noteq> 0 then gf2MatrixMul p val else val) in
         if n div 2 = 0 then v else shiftLoop (gf2MatrixSquare p) (n div 2) v))"
  by pat_completeness auto
termination
  by (relation "measure (\<lambda>(p, n, v). n)") auto

declare shiftLoop.simps [simp del]

definition applyShift :: "32 word \<Rightarrow> int \<Rightarrow> 32 word" where
  "applyShift val n = (if n \<le> 0 then val else shiftLoop oneByteShift (nat n) val)"

definition crcOfZeros :: "int \<Rightarrow> 32 word" where
  "crcOfZeros n = (if n \<le> 0 then 0 else applyShift 0xFFFFFFFF n XOR 0xFFFFFFFF)"

section \<open>The reference checksum\<close>

definition crcBit :: "32 word \<Rightarrow> 32 word" where
  "crcBit c = (if bit c 0 then drop_bit 1 c XOR poly else drop_bit 1 c)"

definition crcByte :: "32 word \<Rightarrow> 8 word \<Rightarrow> 32 word" where
  "crcByte c b = (crcBit ^^ 8) (c XOR ucast b)"

definition ChecksumIEEE :: "8 word list \<Rightarrow> 32 word" where
  "ChecksumIEEE data = NOT (foldl crcByte (NOT 0) data)"

section \<open>Matrices of linear maps\<close>

locale linear_step =
  fixes L :: "32 word \<Rightarrow> 32 word"
  assumes xor: "L (x XOR y) = L x XOR L y"
begin

lemma zero: "L 0 = 0"
  using xor [of 0 0] by simp

lemma pow_xor: "(L ^^ n) (x XOR y) = (L ^^ n) x XOR (L ^^ n) y"
  by (induction n) (simp_all add: xor)

end

definition represents :: "32 word list \<Rightarrow> (32 word \<Rightarrow> 32 word) \<Rightarrow> bool" where
  "represents M f \<longleftrightarrow> length M = 32 \<and> (\<forall>i < 32. M ! i = f (push_bit i 1)) \<and> (\<forall>x y. f (x XOR y) = f x XOR f y)"

lemma vec_split: "vec = (vec AND 1) XOR push_bit 1 (drop_bit 1 vec)" for vec :: "32 word"
proof (rule bit_word_eqI)
  fix n assume "n < LENGTH(32)"
  then show "bit vec n = bit ((vec AND 1) XOR push_bit 1 (drop_bit 1 vec)) n"
    unfolding bit_xor_iff bit_and_iff bit_push_bit_iff bit_drop_bit_eq comp_def bit_1_iff by (cases n) simp_all
qed

lemma mulLoop_spec:
  assumes lin: "\<And>x y. f (x XOR y) = f x XOR f y" and len: "length rs + k = 32"
    and rows: "\<And>j. j < length rs \<Longrightarrow> rs ! j = f (push_bit (k + j) 1)"
  shows "mulLoop rs vec acc = acc XOR f (push_bit k vec)"
  using len rows
proof (induction rs arbitrary: vec acc k)
  case Nil
  then have "push_bit k vec = 0" by (intro bit_word_eqI) (auto simp: bit_simps)
  moreover have "f 0 = 0" using lin [of 0 0] by simp
  ultimately show ?case by simp
next
  case (Cons r rs)
  have z: "f 0 = 0" using lin [of 0 0] by simp
  have r: "r = f (push_bit k 1)" using Cons.prems(2) [of 0] by simp
  show ?case
  proof (cases "vec = 0")
    case False
    have split: "push_bit k vec = push_bit k (vec AND 1) XOR push_bit (Suc k) (drop_bit 1 vec)"
      by (subst vec_split [of vec]) (simp only: push_bit_xor push_bit_push_bit add.commute plus_1_eq_Suc)
    have one: "vec AND 1 \<noteq> 0 \<Longrightarrow> vec AND 1 = 1" by (simp add: and_one_eq)
    have "mulLoop rs (drop_bit 1 vec) s = s XOR f (push_bit (Suc k) (drop_bit 1 vec))" for s
      by (rule Cons.IH) (use Cons.prems(1) Cons.prems(2) [of "Suc _"] in auto)
    then show ?thesis using False one
      by (cases "vec AND 1 = 0") (simp_all add: split lin z r xor.assoc)
  qed (simp add: z)
qed

lemma mul_represents: "represents M f \<Longrightarrow> gf2MatrixMul M x = f x"
  using mulLoop_spec [of f M 0 x 0] by (simp add: represents_def gf2MatrixMul_def)

lemma square_represents: "represents M f \<Longrightarrow> represents (gf2MatrixSquare M) (f ^^ 2)"
  using mul_represents [of M f] by (simp add: represents_def gf2MatrixSquare_def numeral_2_eq_2)

lemma combineLoop_spec:
  assumes "represents M f" and "n > 0"
  shows "combineLoop M n c = (f ^^ (2 * n)) c"
  using assms
proof (induction M n c arbitrary: f rule: combineLoop.induct)
  case (1 M n c)
  define n1 where "n1 = n div 2"
  define n2 where "n2 = n1 div 2"
  define c1 where "c1 = (if n mod 2 \<noteq> 0 then gf2MatrixMul (gf2MatrixSquare M) c else c)"
  define c2 where "c2 = (if n1 mod 2 \<noteq> 0 then gf2MatrixMul (gf2MatrixSquare (gf2MatrixSquare M)) c1 else c1)"
  note r2 = square_represents [OF "1.prems"(1)] and r4 = square_represents [OF square_represents [OF "1.prems"(1)]]
  have c1: "c1 = (f ^^ (2 * (n mod 2))) c"
    unfolding c1_def using mul_represents [OF r2] by (auto simp: not_mod_2_eq_1_eq_0)
  have c2: "c2 = (f ^^ (4 * (n1 mod 2))) c1"
    unfolding c2_def using mul_represents [OF r4] by (auto simp: not_mod_2_eq_1_eq_0 funpow_mult)
  have n: "2 * n = 8 * n2 + (4 * (n1 mod 2) + 2 * (n mod 2))" unfolding n1_def n2_def by presburger
  have total: "(f ^^ (2 * n)) c = (f ^^ (8 * n2)) c2"
    unfolding c1 c2 n funpow_add comp_apply by (rule HOL.refl)
  show ?case
  proof (cases "n1 = 0 \<or> n2 = 0")
    case False
    have "combineLoop M n c = combineLoop (gf2MatrixSquare (gf2MatrixSquare M)) n2 c2"
      using False by (subst combineLoop.simps) (simp add: Let_def n1_def n2_def c1_def c2_def)
    also have "\<dots> = (((f ^^ 2) ^^ 2) ^^ (2 * n2)) c2"
      by (rule "1.IH" [OF HOL.refl c1_def n1_def _ HOL.refl c2_def n2_def _ r4]) (use False in simp_all)
    finally show ?thesis using total by (simp add: funpow_mult)
  next
    case True
    then have "n2 = 0" by (auto simp: n2_def)
    moreover have "combineLoop M n c = c2"
      using True by (subst combineLoop.simps) (auto simp: Let_def n1_def n2_def c1_def c2_def)
    ultimately show ?thesis using total by simp
  qed
qed

lemma shiftLoop_spec:
  assumes "represents M f"
  shows "shiftLoop M n v = (f ^^ n) v"
  using assms
proof (induction M n v arbitrary: f rule: shiftLoop.induct)
  case (1 M n v)
  define w where "w = (if n mod 2 \<noteq> 0 then gf2MatrixMul M v else v)"
  have w: "w = (f ^^ (n mod 2)) v"
    unfolding w_def using mul_represents [OF "1.prems"] by (auto simp: not_mod_2_eq_1_eq_0)
  have "n = 2 * (n div 2) + n mod 2" by simp
  then have total: "(f ^^ n) v = (f ^^ (2 * (n div 2))) w"
    unfolding w by (metis comp_apply funpow_add)
  show ?case
  proof (cases "n = 0 \<or> n div 2 = 0")
    case True
    then show ?thesis using total by (subst shiftLoop.simps) (auto simp: Let_def w_def)
  next
    case False
    have "shiftLoop M n v = shiftLoop (gf2MatrixSquare M) (n div 2) w"
      using False by (subst shiftLoop.simps) (simp add: Let_def w_def)
    also have "\<dots> = ((f ^^ 2) ^^ (n div 2)) w"
      by (rule "1.IH" [OF _ w_def _ square_represents [OF "1.prems"]]) (use False in simp_all)
    finally show ?thesis using total by (simp add: funpow_mult)
  qed
qed

section \<open>The CRC step is linear\<close>

interpretation crc: linear_step crcBit
proof
  show "crcBit (x XOR y) = crcBit x XOR crcBit y" for x y
    unfolding crcBit_def by (simp add: bit_xor_iff drop_bit_xor xor.assoc xor.commute xor.left_commute)
qed

lemma crcBit_push: "i < 31 \<Longrightarrow> crcBit (push_bit (Suc i) 1) = push_bit i 1"
proof -
  assume i: "i < 31"
  have "\<not> bit (push_bit (Suc i) 1 :: 32 word) 0" unfolding bit_push_bit_iff by simp
  moreover have "drop_bit 1 (push_bit (Suc i) 1 :: 32 word) = push_bit i 1"
    by (rule bit_word_eqI) (use i in \<open>auto simp only: bit_push_bit_iff bit_drop_bit_eq comp_def bit_1_iff possible_bit_word\<close>, auto)
  ultimately show ?thesis unfolding crcBit_def by (simp only: if_False)
qed

lemma oneBit_represents: "represents oneBit crcBit"
  unfolding represents_def
proof (intro conjI allI impI)
  show "length oneBit = 32" by (simp add: oneBit_def)
  show "oneBit ! i = crcBit (push_bit i 1)" if "i < 32" for i
  proof (cases i)
    case 0
    have "drop_bit 1 (1 :: 32 word) = 0" by (rule bit_word_eqI) (simp add: bit_simps)
    then show ?thesis using 0 by (simp add: oneBit_def crcBit_def)
  next
    case (Suc j)
    then show ?thesis using that crcBit_push [of j] by (simp only: oneBit_def nth_Cons_Suc) simp
  qed
qed (rule crc.xor)

lemma Combine_spec: "len2 > 0 \<Longrightarrow> Combine c1 c2 len2 = (crcBit ^^ (8 * nat len2)) c1 XOR c2"
  using combineLoop_spec [OF square_represents [OF square_represents [OF oneBit_represents]], of "nat len2" c1]
  by (simp add: Combine_def Let_def funpow_mult)

lemma applyShift_spec: "n \<ge> 0 \<Longrightarrow> applyShift v n = (crcBit ^^ (8 * nat n)) v"
  using shiftLoop_spec [OF square_represents [OF square_represents [OF square_represents [OF oneBit_represents]]], of "nat n" v]
  by (simp add: applyShift_def oneByteShift_def funpow_mult)

lemma pow_byte: "(crcBit ^^ (8 * Suc n)) d = (crcBit ^^ (8 * n)) ((crcBit ^^ 8) d)"
proof -
  have "8 * Suc n = 8 * n + 8" by simp
  then show ?thesis by (simp only: funpow_add comp_apply)
qed

lemma crcBytes_xor: "foldl crcByte (c XOR d) data = foldl crcByte c data XOR (crcBit ^^ (8 * length data)) d"
proof (induction data arbitrary: c d)
  case (Cons b data)
  have "crcByte (c XOR d) b = crcByte c b XOR (crcBit ^^ 8) d"
    unfolding crcByte_def by (metis crc.pow_xor xor.assoc xor.commute)
  then show ?case using Cons.IH [of "crcByte c b" "(crcBit ^^ 8) d"] by (simp only: foldl_Cons list.size(4) add_0_right add_Suc_right pow_byte)
qed simp

lemma Combine_append: "Combine (ChecksumIEEE a) (ChecksumIEEE b) (int (length b)) = ChecksumIEEE (a @ b)"
proof (cases "b = []")
  case False
  have "ChecksumIEEE (a @ b) = NOT (foldl crcByte (NOT (ChecksumIEEE a)) b)" by (simp add: ChecksumIEEE_def)
  also have "NOT (ChecksumIEEE a) = NOT 0 XOR ChecksumIEEE a" by (simp add: bit_eq_iff bit_simps)
  finally show ?thesis using False unfolding crcBytes_xor
    by (simp add: Combine_spec ChecksumIEEE_def bit_eq_iff bit_simps) blast
qed (simp add: Combine_def)

lemma crcOfZeros_eq: "crcOfZeros (int n) = ChecksumIEEE (replicate n 0)"
proof -
  have z: "foldl crcByte c (replicate n 0) = (crcBit ^^ (8 * n)) c" for c
    by (induction n arbitrary: c) (simp_all add: crcByte_def pow_byte del: mult_Suc_right)
  have ones: "(0xFFFFFFFF :: 32 word) = NOT 0" by simp
  have "x XOR NOT 0 = NOT x" for x :: "32 word" by (rule bit_word_eqI) (simp add: bit_simps)
  then have "crcOfZeros (int n) = (if n = 0 then 0 else NOT ((crcBit ^^ (8 * n)) (NOT 0)))"
    unfolding crcOfZeros_def ones using applyShift_spec [of "int n"] by simp
  then show ?thesis unfolding ChecksumIEEE_def z by simp
qed

section \<open>Properties\<close>

text \<open>C21: Combining checksums is exact: from the CRC-32 of two byte strings and the length of the second,
  Combine returns the CRC-32 of their concatenation, for every pair of strings, the empty second
  string included; and crcOfZeros gives the CRC-32 of a run of zero bytes. The matrix squaring loops
  are proved for every length, so they end and use the right powers.\<close>

theorem combine_is_concat:
  "Combine (ChecksumIEEE a) (ChecksumIEEE b) (int (length b)) = ChecksumIEEE (a @ b)
   \<and> crcOfZeros (int n) = ChecksumIEEE (replicate n 0)"
  by (simp add: Combine_append crcOfZeros_eq)

end
