(* ===== verification/Content.thy ===== *)
theory Content
  imports Progress_Inv Crc "HOL-Library.Product_Lexorder"
begin

text \<open>
  The content tier of a job (\<^verbatim>\<open>internal/job/content.go\<close>, \<^verbatim>\<open>verified.go\<close>, \<^verbatim>\<open>verification.go\<close>,
  \<^verbatim>\<open>repair.go\<close>): which of file table, manifest and progress a job holds, and the doors through which
  the rest of the program reads and changes them. Each door runs under \<open>contentMu\<close>, so it is one
  step here; \<open>SettleFileCRC\<close>, which drops the lock while it combines checksums, is two.
\<close>

section \<open>State and errors\<close>

datatype ContentError =
    ErrNotResident | IndexOutOfRange | ArticleNotInFile | InvalidRange | NegativeCharge
  | NilTable | SeedMismatch | FilesAttached | NilManifest | NoFileTable | OtherFileTable | ManifestAttached
  | SizeMismatchPanic | ErrNameChanged

record Content =
  ct_manifest :: "Manifest option"
  ct_fileTable :: "FileTable option"
  ct_progress :: "JobProgress option"
  ct_totalBytes :: int
  ct_recoveryBytes :: int
  ct_recoveryFiles :: nat
  ct_restoredPar2Reason :: string
  ct_restoredDLStarted :: Time
  ct_restoredDLFinished :: Time

definition newContent :: Content where
  "newContent = \<lparr>ct_manifest = None, ct_fileTable = None, ct_progress = None, ct_totalBytes = 0, ct_recoveryBytes = 0,
     ct_recoveryFiles = 0, ct_restoredPar2Reason = [], ct_restoredDLStarted = zeroTime, ct_restoredDLFinished = zeroTime\<rparr>"

type_synonym door = "Content \<times> ContentError option"

section \<open>Whole-file checksums\<close>

definition sortedClone :: "WrittenRow list \<Rightarrow> WrittenRow list" where
  "sortedClone rows = sort_key (\<lambda>r. (wr_Offset r, wr_ArtIdx r)) rows"

text \<open>The loop of \<open>fileCRCFromRows\<close>; \<open>first\<close> is \<open>k == 0\<close>.\<close>

fun crcLoop :: "nat \<Rightarrow> nat \<Rightarrow> WrittenRow list \<Rightarrow> bool \<Rightarrow> bool list \<Rightarrow> 32 word \<Rightarrow> int \<Rightarrow> 32 word \<times> bool" where
  "crcLoop lo hi [] first seen crc end1 = (crc, True)"
| "crcLoop lo hi (r # rs) first seen crc end1 =
     (let a = wr_ArtIdx r in
      if a < int lo \<or> a \<ge> int hi \<or> seen ! nat (a - int lo) \<or> wr_Offset r \<noteq> end1 then (0, False)
      else crcLoop lo hi rs False (seen[nat (a - int lo) := True])
             (if first then wr_CRC32 r else Combine crc (wr_CRC32 r) (wr_Length r)) (wr_Offset r + wr_Length r))"

definition fileCRCFromRows :: "WrittenRow list \<Rightarrow> bool \<Rightarrow> nat \<Rightarrow> nat \<Rightarrow> 32 word \<times> bool" where
  "fileCRCFromRows rows failed lo hi =
     (if failed \<or> hi \<le> lo \<or> int (length rows) \<noteq> int hi - int lo then (0, False)
      else crcLoop lo hi rows True (replicate (hi - lo) False) 0 0)"

definition anyFailed :: "JobProgress \<Rightarrow> nat \<Rightarrow> nat \<Rightarrow> bool" where
  "anyFailed p lo hi \<longleftrightarrow> (\<exists>i \<in> set [lo..<hi]. failedAt p i)"

definition storeSettled :: "nat \<Rightarrow> 32 word \<Rightarrow> bool \<Rightarrow> JobProgress \<Rightarrow> JobProgress" where
  "storeSettled fi crc ok p =
     deleteRows fi (updFile fi (\<lambda>f. f\<lparr>fp_AssembledCRC32 := (if ok then crc else 0)\<rparr>) p)"

definition settleFileCRC :: "Manifest \<Rightarrow> nat \<Rightarrow> JobProgress \<Rightarrow> JobProgress \<times> 32 word \<times> bool" where
  "settleFileCRC m fi p =
     (let (lo, hi) = FileRange m fi;
          (crc, ok) = fileCRCFromRows (sortedClone (rowsOf p fi)) (anyFailed p lo hi) lo hi in
      (storeSettled fi crc ok p, crc, ok))"

record settleSnapshot =
  sn_arr :: nat
  sn_rows :: "WrittenRow list"
  sn_failed :: bool
  sn_lo :: nat
  sn_hi :: nat

definition settleInputs :: "int \<Rightarrow> Content \<Rightarrow> (ContentError, settleSnapshot) result" where
  "settleInputs fileIdx c =
     (case (ct_manifest c, ct_progress c) of
        (Some m, Some p) \<Rightarrow>
          if fileIdx < 0 \<or> fileIdx \<ge> int (mf_NumFiles m) then Inl IndexOutOfRange
          else (let fi = nat fileIdx; (lo, hi) = FileRange m fi in
                Inr \<lparr>sn_arr = rowArr p fi, sn_rows = rowsOf p fi, sn_failed = anyFailed p lo hi, sn_lo = lo, sn_hi = hi\<rparr>)
      | _ \<Rightarrow> Inl ErrNotResident)"

text \<open>The combination that runs outside the lock.\<close>

definition combineSnapshot :: "settleSnapshot \<Rightarrow> 32 word \<times> bool" where
  "combineSnapshot i = fileCRCFromRows (sortedClone (sn_rows i)) (sn_failed i) (sn_lo i) (sn_hi i)"

definition sameSlice :: "JobProgress \<Rightarrow> nat \<Rightarrow> settleSnapshot \<Rightarrow> bool" where
  "sameSlice p fi i \<longleftrightarrow> length (rowsOf p fi) = length (sn_rows i) \<and> (rowsOf p fi = [] \<or> rowArr p fi = sn_arr i)"

definition installSettled :: "nat \<Rightarrow> settleSnapshot \<Rightarrow> 32 word \<Rightarrow> bool \<Rightarrow> Content
    \<Rightarrow> Content \<times> (ContentError, 32 word \<times> bool) result" where
  "installSettled fi i combined combinedOK c =
     (case (ct_manifest c, ct_progress c) of
        (Some m, Some p) \<Rightarrow>
          if \<not> sameSlice p fi i
          then (let (p1, crc, ok) = settleFileCRC m fi p in (c\<lparr>ct_progress := Some p1\<rparr>, Inr (crc, ok)))
          else (c\<lparr>ct_progress := Some (storeSettled fi combined combinedOK p)\<rparr>, Inr (combined, combinedOK))
      | _ \<Rightarrow> (c, Inl ErrNotResident))"

section \<open>Installing verified rows\<close>

definition placeRow :: "Manifest \<Rightarrow> int \<Rightarrow> WrittenRow \<Rightarrow> bool" where
  "placeRow m fileIdx r \<longleftrightarrow>
     \<not> (wr_FileIdx r \<noteq> fileIdx \<or> \<not> ArticleInFile m (wr_FileIdx r) (wr_ArtIdx r) \<or> \<not> HasValidShape r)"

definition placeRows :: "Manifest \<Rightarrow> int \<Rightarrow> WrittenRow list \<Rightarrow> (ContentError, WrittenRow list \<times> nat) result" where
  "placeRows m fileIdx rows =
     (if fileIdx < 0 \<or> fileIdx \<ge> int (mf_NumFiles m) then Inl IndexOutOfRange
      else Inr (filter (placeRow m fileIdx) rows, length (filter (\<lambda>r. \<not> placeRow m fileIdx r) rows)))"

definition installRows :: "Manifest \<Rightarrow> nat \<Rightarrow> WrittenRow list \<Rightarrow> JobProgress \<Rightarrow> JobProgress" where
  "installRows m fi rows p =
     upsertRows fi rows (foldl (\<lambda>q r. fst (markDone m (nat (wr_ArtIdx r)) q)) p rows)"

definition InstallVerified :: "int \<Rightarrow> WrittenRow list \<Rightarrow> Content \<Rightarrow> Content \<times> (ContentError, nat) result" where
  "InstallVerified fileIdx rows c =
     (case (ct_manifest c, ct_progress c) of
        (Some m, Some p) \<Rightarrow>
          (case placeRows m fileIdx rows of
             Inl e \<Rightarrow> (c, Inl e)
           | Inr (kept, dropped) \<Rightarrow> (c\<lparr>ct_progress := Some (installRows m (nat fileIdx) kept p)\<rparr>, Inr dropped))
      | _ \<Rightarrow> (c, Inl ErrNotResident))"

definition MarkArticleWritten :: "WrittenRow \<Rightarrow> Content \<Rightarrow> door" where
  "MarkArticleWritten row c =
     (case (ct_manifest c, ct_progress c) of
        (Some m, Some p) \<Rightarrow>
          if \<not> ArticleInFile m (wr_FileIdx row) (wr_ArtIdx row) then (c, Some ArticleNotInFile)
          else if \<not> HasValidShape row then (c, Some InvalidRange)
          else (case markDone m (nat (wr_ArtIdx row)) p of
                  (p1, True) \<Rightarrow> (c\<lparr>ct_progress := Some (appendRow row p1)\<rparr>, None)
                | (p1, False) \<Rightarrow> (c\<lparr>ct_progress := Some (upsertRows (nat (wr_FileIdx row)) [row] p1)\<rparr>, None))
      | _ \<Rightarrow> (c, Some ErrNotResident))"

definition UntrustFile :: "int \<Rightarrow> Content \<Rightarrow> door" where
  "UntrustFile fileIdx c =
     (case (ct_manifest c, ct_progress c) of
        (Some m, Some p) \<Rightarrow>
          if fileIdx < 0 \<or> fileIdx \<ge> int (mf_NumFiles m) then (c, Some IndexOutOfRange)
          else
            (let fi = nat fileIdx; (lo, hi) = FileRange m fi;
                 p1 = foldl (\<lambda>q i. fst (markNotDone fi i q)) (deleteRows fi p) [lo..<hi];
                 p2 = updFile fi (\<lambda>f. f\<lparr>fp_Complete := False, fp_AssembledCRC32 := 0\<rparr>) p1 in
             case recompute m p2 of
               None \<Rightarrow> (c\<lparr>ct_progress := Some p2\<rparr>, Some SizeMismatchPanic)
             | Some p3 \<Rightarrow> (c\<lparr>ct_progress := Some p3\<rparr>, None))
      | _ \<Rightarrow> (c, Some ErrNotResident))"

definition FileRows :: "nat \<Rightarrow> Content \<Rightarrow> WrittenRow list" where
  "FileRows fi c = (case ct_progress c of None \<Rightarrow> [] | Some p \<Rightarrow> sortedClone (rowsOf p fi))"

section \<open>Failing, emitting, completing\<close>

text \<open>\<open>markArticleFailed\<close>: without a manifest only the bits and the limited charge are written.\<close>

definition markArticleFailed :: "int \<Rightarrow> int \<Rightarrow> Content \<Rightarrow> door" where
  "markArticleFailed artIdx charge c =
     (case ct_progress c of
        None \<Rightarrow> (c, Some ErrNotResident)
      | Some p \<Rightarrow>
          if artIdx < 0 \<or> artIdx \<ge> bs_Len (jp_done p) then (c, Some IndexOutOfRange)
          else (case ct_manifest c of
                  None \<Rightarrow>
                    (case setFailedBits (nat artIdx) p of
                       (p1, ok) \<Rightarrow> (c\<lparr>ct_progress := Some (if ok then limitCharge (nat artIdx) charge p1 else p1)\<rparr>, None))
                | Some m \<Rightarrow> (c\<lparr>ct_progress := Some (fst (markFailedUncovered m (nat artIdx) charge p))\<rparr>, None)))"

definition MarkArticleFailed :: "int \<Rightarrow> int \<Rightarrow> Content \<Rightarrow> door" where
  "MarkArticleFailed artIdx charge c =
     (if charge < 0 \<and> charge \<noteq> WholeArticle then (c, Some NegativeCharge) else markArticleFailed artIdx charge c)"

definition MarkArticleEmitted :: "int \<Rightarrow> Content \<Rightarrow> door" where
  "MarkArticleEmitted artIdx c =
     (case (ct_manifest c, ct_progress c) of
        (Some m, Some p) \<Rightarrow>
          if artIdx < 0 \<or> artIdx \<ge> int (mf_NumArticles m) then (c, Some IndexOutOfRange)
          else (c\<lparr>ct_progress := Some (markEmitted m (nat artIdx) p)\<rparr>, None)
      | _ \<Rightarrow> (c, Some ErrNotResident))"

definition ClearArticleEmitted :: "int \<Rightarrow> Content \<Rightarrow> door" where
  "ClearArticleEmitted artIdx c =
     (case ct_progress c of
        None \<Rightarrow> (c, Some ErrNotResident)
      | Some p \<Rightarrow>
          if artIdx < 0 \<or> artIdx \<ge> bs_Len (jp_done p) then (c, Some IndexOutOfRange)
          else (case ct_manifest c of
                  None \<Rightarrow> (c\<lparr>ct_progress := Some (p\<lparr>jp_emitted := bs_Clear artIdx (jp_emitted p)\<rparr>)\<rparr>, None)
                | Some m \<Rightarrow> (c\<lparr>ct_progress := Some (clearEmitted m (nat artIdx) p)\<rparr>, None)))"

definition MarkFileComplete :: "int \<Rightarrow> Content \<Rightarrow> door" where
  "MarkFileComplete fileIdx c =
     (case ct_progress c of
        None \<Rightarrow> (c, Some ErrNotResident)
      | Some p \<Rightarrow>
          if fileIdx < 0 \<or> fileIdx \<ge> int (length (jp_files p)) then (c, Some IndexOutOfRange)
          else (c\<lparr>ct_progress := Some (updFile (nat fileIdx) (\<lambda>f. f\<lparr>fp_Complete := True\<rparr>) p)\<rparr>, None))"

definition SetFileFetchPolicy :: "int \<Rightarrow> FetchPolicy \<Rightarrow> Content \<Rightarrow> door" where
  "SetFileFetchPolicy fileIdx policy c =
     (case ct_progress c of
        None \<Rightarrow> (c, Some ErrNotResident)
      | Some p \<Rightarrow>
          if fileIdx < 0 \<or> fileIdx \<ge> int (length (jp_files p)) then (c, Some IndexOutOfRange)
          else (c\<lparr>ct_progress := Some (setFileFetchPolicy (nat fileIdx) policy p)\<rparr>, None))"

text \<open>\<open>RecordFileFilename\<close>: the job's name, read under the job's own lock, must still be the one the
  caller resolved the file under.\<close>

definition RecordFileFilename :: "string \<Rightarrow> int \<Rightarrow> string \<Rightarrow> string \<Rightarrow> Content \<Rightarrow> door" where
  "RecordFileFilename jobName fileIdx name filename c =
     (if jobName \<noteq> name then (c, Some ErrNameChanged)
      else
        (case ct_progress c of
           None \<Rightarrow> (c, Some ErrNotResident)
         | Some p \<Rightarrow>
             if fileIdx < 0 \<or> fileIdx \<ge> int (length (jp_files p)) then (c, Some IndexOutOfRange)
             else (c\<lparr>ct_progress := Some (updFile (nat fileIdx) (\<lambda>f. f\<lparr>fp_Filename := filename\<rparr>) p)\<rparr>, None)))"

definition isSinglePathComponent :: "string \<Rightarrow> bool" where
  "isSinglePathComponent name \<longleftrightarrow> name \<noteq> [] \<and> name \<noteq> ''.'' \<and> name \<noteq> ''..'' \<and>
     \<not> (\<exists>ch \<in> set name. ch = CHR ''/'' \<or> ch = CHR 0x5C)"

definition setChanged :: "nat \<Rightarrow> JobProgress \<Rightarrow> JobProgress" where
  "setChanged fi p =
     (if \<not> fp_fetchChanged (jp_files p ! fi)
      then (updFile fi (\<lambda>f. f\<lparr>fp_fetchChanged := True\<rparr>) p)\<lparr>jp_fetchChanges := jp_fetchChanges p + 1\<rparr>
      else p)"

definition RecordFileRename :: "string \<Rightarrow> string \<Rightarrow> Content \<Rightarrow> Content \<times> bool" where
  "RecordFileRename frm to c =
     (if frm = to \<or> \<not> isSinglePathComponent frm \<or> \<not> isSinglePathComponent to then (c, False)
      else
        (case ct_progress c of
           None \<Rightarrow> (c, False)
         | Some p \<Rightarrow>
             (case filter (\<lambda>fi. fp_Filename (jp_files p ! fi) = frm) [0..<length (jp_files p)] of
                [] \<Rightarrow> (c, False)
              | fi # _ \<Rightarrow> (c\<lparr>ct_progress := Some (setChanged fi (updFile fi (\<lambda>f. f\<lparr>fp_Filename := to\<rparr>) p))\<rparr>, True))))"

record FileState =
  st_FileIdx :: nat
  st_Complete :: bool
  st_Filename :: string
  st_FetchPolicy :: FetchPolicy

definition fileState :: "JobProgress \<Rightarrow> nat \<Rightarrow> FileState" where
  "fileState p fi = (let f = jp_files p ! fi in
     \<lparr>st_FileIdx = fi, st_Complete = fp_Complete f, st_Filename = fp_Filename f, st_FetchPolicy = fp_Fetch f\<rparr>)"

definition TakeFetchPolicyChanges :: "Content \<Rightarrow> Content \<times> FileState list" where
  "TakeFetchPolicyChanges c =
     (case ct_progress c of
        None \<Rightarrow> (c, [])
      | Some p \<Rightarrow>
          if jp_fetchChanges p = 0 then (c, [])
          else (c\<lparr>ct_progress := Some (p\<lparr>jp_files := map (\<lambda>f. f\<lparr>fp_fetchChanged := False\<rparr>) (jp_files p), jp_fetchChanges := 0\<rparr>)\<rparr>,
                map (fileState p) (filter (\<lambda>fi. fp_fetchChanged (jp_files p ! fi)) [0..<length (jp_files p)])))"

section \<open>Verification of one file\<close>

record FileVerification =
  fv_FileIdx :: int
  fv_Filename :: string
  fv_RestorePolicy :: bool
  fv_Policy :: FetchPolicy
  fv_Complete :: bool
  fv_Rows :: "WrittenRow list"
  fv_Failed :: "int list"
  fv_Settle :: bool

text \<open>The part of \<open>installFileVerificationLocked\<close> up to the failed list.\<close>

definition installPlaced :: "Manifest \<Rightarrow> FileVerification \<Rightarrow> WrittenRow list \<Rightarrow> JobProgress \<Rightarrow> JobProgress" where
  "installPlaced m v kept p =
     (let fi = nat (fv_FileIdx v);
          p1 = (if fv_Filename v \<noteq> [] then updFile fi (\<lambda>f. f\<lparr>fp_Filename := fv_Filename v\<rparr>) p else p);
          p2 = (if fv_RestorePolicy v then setFileFetchPolicy fi (fv_Policy v) p1 else p1);
          p3 = installRows m fi kept p2 in
      if fv_Complete v
      then (let (lo, hi) = FileRange m fi in
            updFile fi (\<lambda>f. f\<lparr>fp_Complete := True\<rparr>) (foldl (\<lambda>q i. fst (markFailed m i q)) p3 [lo..<hi]))
      else p3)"

definition finishVerification :: "Manifest \<Rightarrow> FileVerification \<Rightarrow> JobProgress \<Rightarrow> JobProgress" where
  "finishVerification m v p =
     (let fi = nat (fv_FileIdx v);
          p1 = (if fv_Complete v \<or> fv_Settle v then fst (settleFileCRC m fi p) else p) in
      updFile fi (\<lambda>f. f\<lparr>fp_Verified := True, fp_Recorded := 0\<rparr>) p1)"

definition installFileVerificationLocked :: "FileVerification \<Rightarrow> Content \<Rightarrow> Content \<times> (ContentError, nat) result" where
  "installFileVerificationLocked v c =
     (case (ct_manifest c, ct_progress c) of
        (Some m, Some p) \<Rightarrow>
          (case placeRows m (fv_FileIdx v) (fv_Rows v) of
             Inl e \<Rightarrow> (c, Inl e)
           | Inr (kept, dropped) \<Rightarrow>
               (let c1 = c\<lparr>ct_progress := Some (installPlaced m v kept p)\<rparr>;
                    c2 = foldl (\<lambda>d a. fst (markArticleFailed a WholeArticle d)) c1 (fv_Failed v) in
                (c2\<lparr>ct_progress := map_option (finishVerification m v) (ct_progress c2)\<rparr>, Inr dropped)))
      | _ \<Rightarrow> (c, Inl ErrNotResident))"

section \<open>Attaching and evicting\<close>

definition AttachFiles :: "FileTable option \<Rightarrow> FileSeed list option \<Rightarrow> Content \<Rightarrow> door" where
  "AttachFiles ft seed c =
     (case ft of
        None \<Rightarrow> (c, Some NilTable)
      | Some t \<Rightarrow>
          if (case seed of None \<Rightarrow> False | Some s \<Rightarrow> length s \<noteq> ft_NumFiles t) then (c, Some SeedMismatch)
          else if ct_progress c \<noteq> None \<or> ct_fileTable c \<noteq> None then (c, Some FilesAttached)
          else
            (let p = restoreDownloadStamps (ct_restoredDLStarted c) (ct_restoredDLFinished c) (newJobProgress t seed);
                 p1 = p\<lparr>jp_par2ReleaseReason := ct_restoredPar2Reason c\<rparr> in
             (c\<lparr>ct_fileTable := Some t, ct_progress := Some p1, ct_totalBytes := ft_totalBytes t,
                ct_recoveryBytes := ft_recoveryByteTotal t, ct_recoveryFiles := ft_recoveryFileTotal t,
                ct_restoredPar2Reason := [], ct_restoredDLStarted := zeroTime, ct_restoredDLFinished := zeroTime\<rparr>, None)))"

fun installAll :: "FileVerification list \<Rightarrow> Content \<Rightarrow> Content \<times> (ContentError, nat) result list" where
  "installAll [] c = (c, [])"
| "installAll (v # vs) c =
     (let (c1, r) = installFileVerificationLocked v c; (c2, rs) = installAll vs c1 in (c2, r # rs))"

text \<open>
  The table a manifest was built from is compared by pointer in the source; here by value. A nil
  progress beside a file table would be a nil dereference.
\<close>

definition AttachArticles :: "Manifest option \<Rightarrow> FileVerification list \<Rightarrow> Content
    \<Rightarrow> Content \<times> (ContentError, (ContentError, nat) result list) result" where
  "AttachArticles mo vs c =
     (case mo of
        None \<Rightarrow> (c, Inl NilManifest)
      | Some m \<Rightarrow>
          (case ct_fileTable c of
             None \<Rightarrow> (c, Inl NoFileTable)
           | Some t \<Rightarrow>
               if mf_ft m \<noteq> t then (c, Inl OtherFileTable)
               else if ct_manifest c \<noteq> None then (c, Inl ManifestAttached)
               else
                 (case (case ct_progress c of None \<Rightarrow> None | Some p \<Rightarrow> recompute m p) of
                    None \<Rightarrow> (c, Inl SizeMismatchPanic)
                  | Some p1 \<Rightarrow>
                      (let (c1, out) = installAll vs (c\<lparr>ct_progress := Some p1, ct_manifest := Some m\<rparr>) in (c1, Inr out)))))"

definition AttachContent :: "Manifest option \<Rightarrow> Content \<Rightarrow> door" where
  "AttachContent mo c =
     (case mo of
        None \<Rightarrow> (c, Some NilManifest)
      | Some m \<Rightarrow>
          (case AttachFiles (Some (mf_ft m)) None c of
             (c1, Some e) \<Rightarrow> (c1, Some e)
           | (c1, None) \<Rightarrow>
               (case AttachArticles (Some m) [] c1 of
                  (c2, Inl e) \<Rightarrow> (c2, Some e)
                | (c2, Inr _) \<Rightarrow> (c2, None))))"

definition Evict :: "Content \<Rightarrow> Content" where
  "Evict c = c\<lparr>ct_manifest := None\<rparr>"

definition Resident :: "Content \<Rightarrow> bool" where
  "Resident c \<longleftrightarrow> ct_manifest c \<noteq> None"

section \<open>Reload and retry\<close>

fun reloadFiles :: "nat list \<Rightarrow> bool \<Rightarrow> JobProgress \<Rightarrow> JobProgress \<times> nat list \<times> nat list" where
  "reloadFiles [] clear p = (p, [], [])"
| "reloadFiles (fi # fis) clear p =
     (let (p1, c1, r1) = resetForReload fi clear p; (p2, c2, r2) = reloadFiles fis clear p1 in (p2, c1 @ c2, r1 @ r2))"

text \<open>\<open>None\<close> for the progress is the panic of \<open>recompute\<close>.\<close>

definition ClearEmittedForReload :: "bool \<Rightarrow> Content \<Rightarrow> door \<times> nat list \<times> nat list" where
  "ClearEmittedForReload skipEmitted c =
     (case ct_progress c of
        None \<Rightarrow> ((c, None), [], [])
      | Some p \<Rightarrow>
          (let (p1, cleared, retained) = reloadFiles [0..<length (jp_files p)] (\<not> skipEmitted) p in
           case ct_manifest c of
             None \<Rightarrow> ((c\<lparr>ct_progress := Some p1\<rparr>, None), cleared, retained)
           | Some m \<Rightarrow>
               (case recompute m p1 of
                  None \<Rightarrow> ((c\<lparr>ct_progress := Some p1\<rparr>, Some SizeMismatchPanic), cleared, retained)
                | Some p2 \<Rightarrow> ((c\<lparr>ct_progress := Some p2\<rparr>, None), cleared, retained))))"

definition retryFile :: "Manifest \<Rightarrow> nat \<Rightarrow> JobProgress \<Rightarrow> JobProgress" where
  "retryFile m fi p =
     (let (lo, hi) = FileRange m fi;
          reset = filter (failedAt p) [lo..<hi];
          unresolved = (\<exists>i \<in> set [lo..<hi]. failedAt p i \<or> \<not> doneAt p i);
          p1 = clearDone fi reset p in
      if unresolved then updFile fi (\<lambda>f. f\<lparr>fp_Complete := False, fp_AssembledCRC32 := 0\<rparr>) p1 else p1)"

definition ResetForRetry :: "Content \<Rightarrow> door" where
  "ResetForRetry c =
     (case (ct_manifest c, ct_progress c) of
        (Some m, Some p) \<Rightarrow>
          (let p1 = clearDownloadStamps (p\<lparr>jp_earlyAborted := False, jp_par2ReleaseReason := []\<rparr>);
               p2 = foldl (\<lambda>q fi. retryFile m fi q) p1 [0..<mf_NumFiles m] in
           case recompute m p2 of
             None \<Rightarrow> (c\<lparr>ct_progress := Some p2\<rparr>, Some SizeMismatchPanic)
           | Some p3 \<Rightarrow> (c\<lparr>ct_progress := Some p3\<rparr>, None))
      | _ \<Rightarrow> (c, None))"

section \<open>Reading\<close>

record visit =
  vi_fileIdx :: nat
  vi_artIdx :: nat
  vi_id :: string
  vi_bytes :: int
  vi_number :: int
  vi_subject :: string

definition visitOf :: "Manifest \<Rightarrow> nat \<Rightarrow> nat \<Rightarrow> visit" where
  "visitOf m fi i = \<lparr>vi_fileIdx = fi, vi_artIdx = i, vi_id = ArticleID m i, vi_bytes = ArticleBytes m i,
     vi_number = ArticleNumber m i, vi_subject = ft_Subject (mf_ft m) fi\<rparr>"

text \<open>The articles the two loops reach in one file, in order.\<close>

definition fileVisits :: "Manifest \<Rightarrow> JobProgress \<Rightarrow> nat \<Rightarrow> visit list" where
  "fileVisits m p fi =
     (let f = jp_files p ! fi in
      if fp_Complete f \<or> fp_Pending f = 0 \<or> fp_Fetch f \<noteq> FetchAlways then []
      else (let (lo, hi) = FileRange m fi in
            map (visitOf m fi) (filter (\<lambda>i. \<not> (doneAt p i \<or> emittedAt p i)) [lo..<hi])))"

text \<open>A loop over the visits that calls \<open>fn\<close> and stops after the first call that returns false.\<close>

fun callUntil :: "('a \<Rightarrow> bool) \<Rightarrow> 'a list \<Rightarrow> 'a list" where
  "callUntil fn [] = []"
| "callUntil fn (x # xs) = (if fn x then x # callUntil fn xs else [x])"

text \<open>The calls \<open>ForEachUnfinishedArticle\<close> makes.\<close>

definition ForEachUnfinishedArticle :: "(visit \<Rightarrow> bool) \<Rightarrow> Content \<Rightarrow> (ContentError, visit list) result" where
  "ForEachUnfinishedArticle fn c =
     (case (ct_manifest c, ct_progress c) of
        (Some m, Some p) \<Rightarrow>
          if jp_pendingArticles p = 0 then Inr []
          else Inr (callUntil fn (concat (map (fileVisits m p) [0..<mf_NumFiles m])))
      | _ \<Rightarrow> Inl ErrNotResident)"

definition CountUnfinishedArticles :: "int \<Rightarrow> Content \<Rightarrow> (ContentError, nat) result" where
  "CountUnfinishedArticles fileIdx c =
     (case (ct_manifest c, ct_progress c) of
        (Some m, Some p) \<Rightarrow>
          if fileIdx < 0 \<or> fileIdx \<ge> int (mf_NumFiles m) then Inl IndexOutOfRange
          else (let (lo, hi) = FileRange m (nat fileIdx) in Inr (length (filter (\<lambda>i. \<not> doneAt p i) [lo..<hi])))
      | _ \<Rightarrow> Inl ErrNotResident)"

definition IsComplete :: "Content \<Rightarrow> bool" where
  "IsComplete c =
     (case ct_progress c of
        None \<Rightarrow> False
      | Some p \<Rightarrow> list_all (\<lambda>f. fp_Fetch f \<noteq> FetchAlways \<or> fp_Complete f) (jp_files p))"

definition content_ProgressFigures :: "Content \<Rightarrow> int \<times> int \<times> int" where
  "content_ProgressFigures c =
     (case ct_progress c of
        None \<Rightarrow> (0, 0, 0)
      | Some p \<Rightarrow> (case sizeFigures p of (expected, remaining) \<Rightarrow> (expected, remaining, jp_failedBytes p)))"

definition DownloadBegun :: "Content \<Rightarrow> bool" where
  "DownloadBegun c =
     (case ct_progress c of
        None \<Rightarrow> ct_restoredDLStarted c \<noteq> zeroTime
      | Some p \<Rightarrow> (\<exists>f \<in> set (jp_files p). fp_Filename f \<noteq> []))"

section \<open>Repair state and early abort\<close>

datatype RepairState = RepairIntact | RepairPossible | RepairUnknown | RepairNoCapacity | RepairBeyondCapacity

definition AllRepairStates :: "RepairState list" where
  "AllRepairStates = [RepairIntact, RepairPossible, RepairUnknown, RepairNoCapacity, RepairBeyondCapacity]"

definition Hopeless :: "RepairState \<Rightarrow> bool" where
  "Hopeless s \<longleftrightarrow> s = RepairNoCapacity \<or> s = RepairBeyondCapacity"

definition RepairStateFrom :: "int \<Rightarrow> int \<Rightarrow> bool \<Rightarrow> RepairState" where
  "RepairStateFrom contentFailedBytes recoveryBytes hasPar2Files =
     (if contentFailedBytes = 0 then RepairIntact
      else if recoveryBytes = 0 then (if hasPar2Files then RepairUnknown else RepairNoCapacity)
      else if contentFailedBytes > recoveryBytes then RepairBeyondCapacity
      else RepairPossible)"

definition repairStateLocked :: "Content \<Rightarrow> RepairState" where
  "repairStateLocked c =
     (case ct_progress c of
        None \<Rightarrow> RepairUnknown
      | Some p \<Rightarrow> RepairStateFrom (prog_ContentFailedBytes p) (ct_recoveryBytes c) (prog_HasPar2Files p))"

definition CheckEarlyAbort :: "Content \<Rightarrow> Content \<times> bool" where
  "CheckEarlyAbort c =
     (case ct_progress c of
        None \<Rightarrow> (c, False)
      | Some p \<Rightarrow>
          (let st = repairStateLocked c in
           if st = RepairPossible \<or> st = RepairIntact then (c, False)
           else (case isEarlyAbort p of (p1, b) \<Rightarrow> (c\<lparr>ct_progress := Some p1\<rparr>, b))))"

section \<open>Recovery volumes\<close>

definition undeferOne :: "nat \<Rightarrow> JobProgress \<Rightarrow> JobProgress" where
  "undeferOne fi p =
     (if fi \<ge> length (jp_files p) \<or> fp_Fetch (jp_files p ! fi) \<noteq> FetchIfNeeded then p
      else setFileFetchPolicy fi FetchAlways p)"

definition undeferRecovery :: "nat list \<Rightarrow> JobProgress \<Rightarrow> JobProgress" where
  "undeferRecovery fis p = foldl (\<lambda>q fi. undeferOne fi q) p fis"

definition DiscardDeferredPar2 :: "Content \<Rightarrow> Content \<times> bool" where
  "DiscardDeferredPar2 c =
     (case ct_progress c of
        None \<Rightarrow> (c, False)
      | Some p \<Rightarrow>
          (c\<lparr>ct_progress := Some (foldl (\<lambda>q fi. if fp_Fetch (jp_files q ! fi) = FetchIfNeeded
                                                 then setFileFetchPolicy fi FetchNever q else q)
                                        p [0..<length (jp_files p)])\<rparr>,
           prog_HasDeferredPar2 p))"

section \<open>Stamps, servers and restored columns\<close>

text \<open>A door that writes the progress and needs only that.\<close>

definition onProgress :: "(JobProgress \<Rightarrow> JobProgress) \<Rightarrow> Content \<Rightarrow> door" where
  "onProgress f c =
     (case ct_progress c of None \<Rightarrow> (c, Some ErrNotResident) | Some p \<Rightarrow> (c\<lparr>ct_progress := Some (f p)\<rparr>, None))"

definition MarkJobStarted :: "Time \<Rightarrow> Content \<Rightarrow> door" where
  "MarkJobStarted t = onProgress (\<lambda>p. fst (setDownloadStartedOnce t p))"

definition MarkDownloadFinished :: "Time \<Rightarrow> Content \<Rightarrow> door" where
  "MarkDownloadFinished t = onProgress (\<lambda>p. fst (setDownloadFinishedOnce t p))"

definition ClearDownloadFinished :: "Content \<Rightarrow> door" where
  "ClearDownloadFinished = onProgress clearDownloadFinished"

definition RecordDownload :: "string \<Rightarrow> int \<Rightarrow> Content \<Rightarrow> door" where
  "RecordDownload server bytes =
     onProgress (\<lambda>p. p\<lparr>jp_serverStats := (jp_serverStats p)(server \<mapsto> (case jp_serverStats p server of None \<Rightarrow> 0 | Some n \<Rightarrow> n) + bytes)\<rparr>)"

definition SetPar2ReleaseReason :: "string \<Rightarrow> Content \<Rightarrow> Content" where
  "SetPar2ReleaseReason reason c =
     (case ct_progress c of
        None \<Rightarrow> c\<lparr>ct_restoredPar2Reason := reason\<rparr>
      | Some p \<Rightarrow> c\<lparr>ct_progress := Some (p\<lparr>jp_par2ReleaseReason := reason\<rparr>)\<rparr>)"

definition RestoreProgressState :: "string \<Rightarrow> Time \<Rightarrow> Time \<Rightarrow> Content \<Rightarrow> Content" where
  "RestoreProgressState reason started finished c =
     (case ct_progress c of
        Some p \<Rightarrow> c\<lparr>ct_progress := Some ((restoreDownloadStamps started finished p)\<lparr>jp_par2ReleaseReason := reason\<rparr>)\<rparr>
      | None \<Rightarrow> c\<lparr>ct_restoredPar2Reason := reason, ct_restoredDLStarted := jobStampOrZero started,
                 ct_restoredDLFinished := jobStampOrZero finished\<rparr>)"

end
