(* ===== verification/Content_Inv.thy ===== *)
theory Content_Inv
  imports Content
begin

text \<open>
  The content tier's invariant, kept by every door: table and progress come together, the progress
  keeps its laws at any residency, and while a manifest is attached every counter is the one
  \<open>recompute\<close> would derive.
\<close>

section \<open>The invariant\<close>

definition content_ok :: "Content \<Rightarrow> bool" where
  "content_ok c =
     (case (ct_fileTable c, ct_progress c) of
        (None, None) \<Rightarrow> ct_manifest c = None
      | (Some ft, Some p) \<Rightarrow>
          ft_ok ft \<and> prog_inv ft p \<and> (case ct_manifest c of None \<Rightarrow> True | Some m \<Rightarrow> mf_ok m \<and> mf_ft m = ft \<and> counted m p)
      | _ \<Rightarrow> False)"

lemma content_ok_none: "content_ok c \<Longrightarrow> ct_progress c = None \<Longrightarrow> ct_manifest c = None \<and> ct_fileTable c = None"
  by (auto simp: content_ok_def split: option.splits)

lemma content_ok_table:
  assumes "content_ok c" and "ct_progress c = Some p"
  obtains ft where "ct_fileTable c = Some ft" "ft_ok ft" "prog_inv ft p"
  using assms by (auto simp: content_ok_def split: option.splits)

lemma content_ok_res:
  assumes "content_ok c" and "ct_progress c = Some p" and "ct_manifest c = Some m"
  shows "res_ok m p" "ct_fileTable c = Some (mf_ft m)"
  using assms by (auto simp: content_ok_def res_ok_def split: option.splits)

lemma content_ok_put:
  assumes "content_ok c" and "ct_progress c = Some p"
    and "\<And>m. ct_manifest c = Some m \<Longrightarrow> res_ok m p \<Longrightarrow> res_ok m q"
    and "\<And>ft. ct_fileTable c = Some ft \<Longrightarrow> ft_ok ft \<Longrightarrow> prog_inv ft p \<Longrightarrow> ct_manifest c = None \<Longrightarrow> prog_inv ft q"
  shows "content_ok (c\<lparr>ct_progress := Some q\<rparr>)"
  using assms by (auto simp: content_ok_def res_ok_def split: option.splits)

lemma content_ok_put_res:
  assumes "content_ok c" and "ct_progress c = Some p" and "ct_manifest c = Some m" and "res_ok m q"
  shows "content_ok (c\<lparr>ct_progress := Some q\<rparr>)"
  by (rule content_ok_put [OF assms(1,2)]) (use assms in auto)

text \<open>Fields neither the laws nor the figures read.\<close>

definition same_figures_fields :: "JobProgress \<Rightarrow> JobProgress \<Rightarrow> bool" where
  "same_figures_fields p q \<longleftrightarrow> same_but_rows p q \<and> jp_written q = jp_written p"

lemma content_ok_fields:
  assumes "content_ok c" and "ct_progress c = Some p" and s: "same_figures_fields p q"
  shows "content_ok (c\<lparr>ct_progress := Some q\<rparr>)"
proof (rule content_ok_put [OF assms(1,2)])
  have w: "same_but_rows p q" and wr: "jp_written q = jp_written p" using s by (simp_all add: same_figures_fields_def)
  have r: "rows_ok q" if "rows_ok p"
    by (rule rows_ok_grow [OF that wr]) (simp_all add: same_but_rowsD [OF w])
  show "res_ok m q" if "res_ok m p" for m
    by (rule res_ok_rows [OF w that r [OF prog_invD(4) [OF res_okD(2) [OF that]]]])
  show "prog_inv ft q" if "prog_inv ft p" for ft by (rule prog_inv_rows [OF w that r [OF prog_invD(4) [OF that]]])
qed

lemma content_ok_manifest_None: "content_ok c \<Longrightarrow> content_ok (c\<lparr>ct_manifest := None\<rparr>)"
  by (auto simp: content_ok_def split: option.splits)

section \<open>A new progress record\<close>

lemma startsFrom_meta:
  "startsFrom n (map (\<lambda>s. \<lparr>fm_ArticleCount = fs_ArticleCount s, fm_Bytes = f s, fm_IsPar2 = g s\<rparr>) ss) = buildOffsets n ss"
  by (induction ss arbitrary: n) simp_all

lemma fileMeta_specs:
  "fileMetaFromTable ft =
     map (\<lambda>s. \<lparr>fm_ArticleCount = fs_ArticleCount s, fm_Bytes = fs_Bytes s, fm_IsPar2 = isPar2File (fs_Subject s)\<rparr>) (ft_Specs ft)"
  by (rule nth_equalityI)
    (simp_all add: fileMetaFromTable_def ft_Specs_def ft_NumFiles_def ft_ArticleCount_def ft_Bytes_def ft_Subject_def)

lemma total_articles: "ft_ok ft \<Longrightarrow> ft_TotalArticles ft = sum_list (map fs_ArticleCount (ft_Specs ft))"
  by (simp add: ft_ok_def ft_TotalArticles_def nth_buildOffsets ft_NumFiles_def [symmetric])

lemma new_bitset:
  "bs_ok (newBitset n)" "0 \<le> n \<Longrightarrow> bs_Len (newBitset n) = n" "\<not> bs_Get (newBitset n) k"
proof -
  show ok: "bs_ok (newBitset n)" by (simp add: newBitset_def bs_ok_def Let_def)
  show "0 \<le> n \<Longrightarrow> bs_Len (newBitset n) = n" by (simp add: newBitset_def bs_Len_def Let_def)
  show "\<not> bs_Get (newBitset n) k"
  proof
    assume g: "bs_Get (newBitset n) k"
    then have "nat (k div 64) < length (bs_words (newBitset n))" using word_index [OF ok] by (simp add: bs_Get_bit)
    then show False using g by (simp add: bs_Get_bit newBitset_def Let_def)
  qed
qed

lemma sum_nth: "sum_list (map f xs) = sumRange (\<lambda>i. f (xs ! i)) 0 (length xs)"
  unfolding sumRange_def by (rule arg_cong [where f = sum_list], rule nth_equalityI) simp_all

lemma meta_total:
  "sum_list (map (\<lambda>f. int (fm_ArticleCount f)) (map (\<lambda>s. \<lparr>fm_ArticleCount = fs_ArticleCount s, fm_Bytes = g s, fm_IsPar2 = h s\<rparr>) ss))
     = int (sum_list (map fs_ArticleCount ss))"
  by (induction ss) simp_all

lemma prog_inv_sized:
  assumes "ft_ok ft"
  shows "prog_inv ft (newJobProgressSized (fileMetaFromTable ft))"
proof -
  let ?p = "newJobProgressSized (fileMetaFromTable ft)"
  have t: "sum_list (map (\<lambda>f. int (fm_ArticleCount f)) (fileMetaFromTable ft)) = int (ft_TotalArticles ft)"
    unfolding total_articles [OF assms] fileMeta_specs by (rule meta_total)
  have bits: "jp_done ?p = newBitset (int (ft_TotalArticles ft))" "jp_failed ?p = newBitset (int (ft_TotalArticles ft))"
    "jp_emitted ?p = newBitset (int (ft_TotalArticles ft))" "jp_pendingArticles ?p = int (ft_TotalArticles ft)"
    unfolding t [symmetric] by (simp_all add: newJobProgressSized_def Let_def)
  show ?thesis
  proof (rule prog_invI)
    have "jp_fileStarts ?p = ft_offsets ft"
      using assms startsFrom_meta [of 0 _ _ "ft_Specs ft"] by (simp add: newJobProgressSized_def Let_def fileMeta_specs ft_ok_def)
    then show "prog_shape ft ?p"
      by (simp add: prog_shape_def bits new_bitset) (simp add: newJobProgressSized_def Let_def fileMeta_specs)
    show "bits_ok ?p" by (simp add: bits_ok_def bits new_bitset) (simp add: newJobProgressSized_def Let_def)
    show "pending_sum ?p"
      unfolding pending_sum_def bits(4) t [symmetric]
      by (subst sum_nth) (auto simp: newJobProgressSized_def newFileProgress_def Let_def intro!: sumRange_cong)
    show "rows_ok ?p" by (simp add: rows_ok_def rowsOf_def newJobProgressSized_def Let_def)
  qed
qed

lemma prog_inv_seedFiles:
  "prog_inv ft p \<Longrightarrow> fi + length ss \<le> length (jp_files p) \<Longrightarrow> prog_inv ft (seedFiles fi ss p)"
proof (induction fi ss p rule: seedFiles.induct)
  case (2 fi s ss p)
  let ?q = "updFile fi (\<lambda>f. f\<lparr>fp_Verified := False, fp_Recorded := sd_Recorded s, fp_Complete := sd_Complete s, fp_Filename := sd_Filename s\<rparr>) p"
  have q: "prog_inv ft ?q" by (rule prog_inv_updFile [OF "2.prems"(1)]) simp
  have fi: "fi < length (jp_files ?q)" using "2.prems"(2) by simp
  show ?case unfolding seedFiles.simps
    by (rule "2.IH" [OF prog_inv_setFileFetchPolicy [OF q fi]])
      (use "2.prems"(2) setFileFetchPolicy_fields(8) [OF fi HOL.refl, of "sd_Fetch s"] in simp)
qed simp

lemma prog_inv_new:
  assumes "ft_ok ft" and "\<And>ss. seed = Some ss \<Longrightarrow> length ss = ft_NumFiles ft"
  shows "prog_inv ft (newJobProgress ft seed)"
proof (cases seed)
  case None
  then show ?thesis
    using prog_inv_cong [OF prog_inv_sized [OF assms(1)]] by (simp add: newJobProgress_def Let_def)
next
  case (Some ss)
  then show ?thesis
    using prog_inv_seedFiles [OF prog_inv_sized [OF assms(1)], of 0 ss] assms
      shape_ok(7) [OF prog_invD(1) [OF prog_inv_sized [OF assms(1)]]]
    by (simp add: newJobProgress_def Let_def)
qed

lemma content_ok_AttachFiles:
  assumes "content_ok c" and "ft_ok ft"
  shows "content_ok (fst (AttachFiles (Some ft) seed c))"
proof (cases "(case seed of None \<Rightarrow> False | Some s \<Rightarrow> length s \<noteq> ft_NumFiles ft) \<or> ct_progress c \<noteq> None \<or> ct_fileTable c \<noteq> None")
  case True
  then show ?thesis using assms by (auto simp: AttachFiles_def)
next
  case False
  have "prog_inv ft (newJobProgress ft seed)"
    by (rule prog_inv_new [OF assms(2)]) (use False in \<open>auto split: option.splits\<close>)
  then have "prog_inv ft ((restoreDownloadStamps a b (newJobProgress ft seed))\<lparr>jp_par2ReleaseReason := r\<rparr>)" for a b r
    by (rule prog_inv_cong) (simp_all add: restoreDownloadStamps_def clearDownloadStamps_def)
  moreover have "ct_manifest c = None" using False content_ok_none [OF assms(1)] by simp
  ultimately show ?thesis using False assms(2) by (auto simp: AttachFiles_def content_ok_def Let_def)
qed

section \<open>The article doors\<close>

lemma num_articles: "mf_ok m \<Longrightarrow> mf_NumArticles m = ft_TotalArticles (mf_ft m)"
  by (simp add: mf_ok_def mf_NumArticles_def)

lemma content_ok_door:
  assumes "content_ok c"
    and "\<And>p. ct_progress c = Some p \<Longrightarrow> content_ok (fst (f p))" and "ct_progress c = None \<Longrightarrow> content_ok (fst d)"
  shows "content_ok (fst (case ct_progress c of None \<Rightarrow> d | Some p \<Rightarrow> f p))"
  using assms by (cases "ct_progress c") simp_all

lemma content_ok_both:
  assumes "content_ok c"
    and "\<And>m p. ct_manifest c = Some m \<Longrightarrow> ct_progress c = Some p \<Longrightarrow> content_ok (fst (f m p))"
  shows "content_ok (fst (case (ct_manifest c, ct_progress c) of (Some m, Some p) \<Rightarrow> f m p | _ \<Rightarrow> (c, e)))"
  using assms by (cases "ct_manifest c"; cases "ct_progress c") simp_all

lemma setFailedBits_limit:
  "(case setFailedBits i p of (p1, ok) \<Rightarrow> if ok then limitCharge i u p1 else p1) = (if doneAt p i then p else failMoved i u p)"
  by (simp add: setFailedBits_def failMoved_def)

lemma content_ok_markArticleFailed:
  assumes ok: "content_ok c"
  shows "content_ok (fst (markArticleFailed artIdx charge c))"
  unfolding markArticleFailed_def
proof (rule content_ok_door [OF ok])
  fix p assume p: "ct_progress c = Some p"
  show "content_ok (fst (if artIdx < 0 \<or> bs_Len (jp_done p) \<le> artIdx then (c, Some IndexOutOfRange)
      else case ct_manifest c of
        None \<Rightarrow> (case setFailedBits (nat artIdx) p of
           (p1, ok) \<Rightarrow> (c\<lparr>ct_progress := Some (if ok then limitCharge (nat artIdx) charge p1 else p1)\<rparr>, None))
      | Some m \<Rightarrow> (c\<lparr>ct_progress := Some (fst (markFailedUncovered m (nat artIdx) charge p))\<rparr>, None)))"
  proof (cases "artIdx < 0 \<or> bs_Len (jp_done p) \<le> artIdx")
    case False
    obtain ft where ft: "ct_fileTable c = Some ft" "ft_ok ft" "prog_inv ft p" by (rule content_ok_table [OF ok p])
    have i: "nat artIdx < ft_TotalArticles ft" using False shape_ok(4) [OF prog_invD(1) [OF ft(3)]] by auto
    show ?thesis
    proof (cases "ct_manifest c")
      case None
      have "content_ok (c\<lparr>ct_progress := Some (if doneAt p (nat artIdx) then p else failMoved (nat artIdx) charge p)\<rparr>)"
        by (rule content_ok_put [OF ok p]) (use None ft i prog_inv_failMoved in auto)
      then show ?thesis unfolding setFailedBits_limit [symmetric] using False None by (simp add: case_prod_unfold)
    next
      case (Some m)
      note r = content_ok_res [OF ok p Some]
      have "nat artIdx < mf_NumArticles m" using i r(2) ft(1) num_articles [OF res_okD(1) [OF r(1)]] by simp
      then show ?thesis using False Some content_ok_put_res [OF ok p Some res_ok_markFailedUncovered [OF r(1)]] by simp
    qed
  qed (use ok in simp)
qed (use ok in simp)

lemma content_ok_MarkArticleEmitted: "content_ok c \<Longrightarrow> content_ok (fst (MarkArticleEmitted artIdx c))"
  unfolding MarkArticleEmitted_def
proof (rule content_ok_both)
  assume ok: "content_ok c"
  fix m p assume m: "ct_manifest c = Some m" and p: "ct_progress c = Some p"
  have "content_ok (c\<lparr>ct_progress := Some (markEmitted m (nat artIdx) p)\<rparr>)" if "nat artIdx < mf_NumArticles m"
    by (rule content_ok_put_res [OF ok p m res_ok_markEmitted [OF content_ok_res(1) [OF ok p m] that]])
  then show "content_ok (fst (if artIdx < 0 \<or> int (mf_NumArticles m) \<le> artIdx then (c, Some IndexOutOfRange)
      else (c\<lparr>ct_progress := Some (markEmitted m (nat artIdx) p)\<rparr>, None)))"
    using ok by (simp add: nat_less_iff not_le)
qed

lemma content_ok_ClearArticleEmitted:
  assumes ok: "content_ok c"
  shows "content_ok (fst (ClearArticleEmitted artIdx c))"
  unfolding ClearArticleEmitted_def
proof (rule content_ok_door [OF ok])
  fix p assume p: "ct_progress c = Some p"
  show "content_ok (fst (if artIdx < 0 \<or> bs_Len (jp_done p) \<le> artIdx then (c, Some IndexOutOfRange)
      else case ct_manifest c of
        None \<Rightarrow> (c\<lparr>ct_progress := Some (p\<lparr>jp_emitted := bs_Clear artIdx (jp_emitted p)\<rparr>)\<rparr>, None)
      | Some m \<Rightarrow> (c\<lparr>ct_progress := Some (clearEmitted m (nat artIdx) p)\<rparr>, None)))"
  proof (cases "artIdx < 0 \<or> bs_Len (jp_done p) \<le> artIdx")
    case False
    obtain ft where ft: "ct_fileTable c = Some ft" "prog_inv ft p" by (rule content_ok_table [OF ok p])
    note s = shape_ok [OF prog_invD(1) [OF ft(2)]]
    show ?thesis
    proof (cases "ct_manifest c")
      case None
      have "content_ok (c\<lparr>ct_progress := Some (p\<lparr>jp_emitted := bs_Clear artIdx (jp_emitted p)\<rparr>)\<rparr>)"
        by (rule content_ok_put [OF ok p]) (use None ft(1) s in \<open>auto intro!: prog_inv_emitted simp: bit_reads\<close>)
      then show ?thesis using False None by simp
    next
      case (Some m)
      note r = content_ok_res [OF ok p Some]
      have "nat artIdx < mf_NumArticles m" using False r(2) ft(1) s(4) num_articles [OF res_okD(1) [OF r(1)]] by auto
      then show ?thesis using False Some content_ok_put_res [OF ok p Some res_ok_clearEmitted [OF r(1)]] by simp
    qed
  qed (use ok in simp)
qed (use ok in simp)

text \<open>Doors that write one file's descriptive fields.\<close>

lemma content_ok_updFile:
  assumes "content_ok c" and "ct_progress c = Some p" and "\<And>f. fp_Pending (g f) = fp_Pending f"
    and "\<And>f. fp_BytesDownloaded (g f) = fp_BytesDownloaded f" and "\<And>f. fp_FailedBytes (g f) = fp_FailedBytes f"
    and "\<And>f. fp_Bytes (g f) = fp_Bytes f" and "\<And>f. fp_Fetch (g f) = fp_Fetch f"
  shows "content_ok (c\<lparr>ct_progress := Some (updFile fi g p)\<rparr>)"
  by (rule content_ok_put [OF assms(1,2)]) (use assms res_ok_updFile prog_inv_updFile in blast)+

lemma content_ok_MarkFileComplete: "content_ok c \<Longrightarrow> content_ok (fst (MarkFileComplete fi c))"
  unfolding MarkFileComplete_def by (rule content_ok_door) (auto intro!: content_ok_updFile)

lemma content_ok_RecordFileFilename: "content_ok c \<Longrightarrow> content_ok (fst (RecordFileFilename jn fi n f c))"
  unfolding RecordFileFilename_def
  by (cases "jn = n") (simp_all, rule content_ok_door, auto intro!: content_ok_updFile)

lemma content_ok_policy:
  assumes "content_ok c" and "ct_progress c = Some p" and "fi < length (jp_files p)"
  shows "content_ok (c\<lparr>ct_progress := Some (setFileFetchPolicy fi policy p)\<rparr>)"
  by (rule content_ok_put [OF assms(1,2)])
    (use assms counted_setFileFetchPolicy prog_inv_setFileFetchPolicy in blast)+

lemma content_ok_SetFileFetchPolicy: "content_ok c \<Longrightarrow> content_ok (fst (SetFileFetchPolicy fi policy c))"
  unfolding SetFileFetchPolicy_def by (rule content_ok_door) (auto intro!: content_ok_policy simp: not_le)

section \<open>Rows\<close>

lemma placed_row:
  assumes r: "res_ok m p" and a: "ArticleInFile m (wr_FileIdx row) (wr_ArtIdx row)" and v: "HasValidShape row"
  shows "nat (wr_ArtIdx row) < mf_NumArticles m" "0 \<le> wr_ArtIdx row" "0 \<le> wr_FileIdx row"
    "inFile p (nat (wr_FileIdx row)) (nat (wr_ArtIdx row))"
    "doneAt p (nat (wr_ArtIdx row)) \<Longrightarrow> row_ok p (nat (wr_FileIdx row)) row"
proof -
  note s = shape_ok [OF res_okD(4) [OF r]]
  have f: "0 \<le> wr_FileIdx row" "nat (wr_FileIdx row) < mf_NumFiles m"
    "int (fst (FileRange m (nat (wr_FileIdx row)))) \<le> wr_ArtIdx row" "wr_ArtIdx row < int (snd (FileRange m (nat (wr_FileIdx row))))"
    using a unfolding ArticleInFile_iff by blast+
  show "0 \<le> wr_ArtIdx row" "0 \<le> wr_FileIdx row" using f by linarith+
  have t: "ft_ok (mf_ft m)" using res_okD(1) [OF r] by (simp add: mf_ok_def)
  have "snd (FileRange m (nat (wr_FileIdx row))) \<le> mf_NumArticles m"
    using f(2) ft_offset_mono [OF t, of "Suc (nat (wr_FileIdx row))" "ft_NumFiles (mf_ft m)"] num_articles [OF res_okD(1) [OF r]]
    by (simp add: FileRange_def ft_Range_def mf_NumFiles_def ft_TotalArticles_def ft_NumFiles_def)
  then show "nat (wr_ArtIdx row) < mf_NumArticles m" using f(3,4) by linarith
  show inf: "inFile p (nat (wr_FileIdx row)) (nat (wr_ArtIdx row))"
    using f unfolding inFile_def s by (simp add: FileRange_def ft_Range_def mf_NumFiles_def) linarith
  show "doneAt p (nat (wr_ArtIdx row)) \<Longrightarrow> row_ok p (nat (wr_FileIdx row)) row"
    using f inf v by (simp add: row_ok_def)
qed

lemma markDone_keeps:
  "jp_fileStarts (fst (markDone m i p)) = jp_fileStarts p" "length (jp_files (fst (markDone m i p))) = length (jp_files p)"
  "jp_written (fst (markDone m i p)) = jp_written p"
proof -
  have "jp_fileStarts (fst (markDone m i p)) = jp_fileStarts p \<and> length (jp_files (fst (markDone m i p))) = length (jp_files p)
      \<and> jp_written (fst (markDone m i p)) = jp_written p"
    by (cases "doneAt p i") (simp add: markDone_def, simp add: markDone_fields)
  then show "jp_fileStarts (fst (markDone m i p)) = jp_fileStarts p" "length (jp_files (fst (markDone m i p))) = length (jp_files p)"
    "jp_written (fst (markDone m i p)) = jp_written p" by simp_all
qed

lemma installRows_marks:
  assumes "res_ok m p" and "\<forall>r \<in> set rows. placeRow m (int fi) r"
  defines "q \<equiv> foldl (\<lambda>q r. fst (markDone m (nat (wr_ArtIdx r)) q)) p rows"
  shows "res_ok m q \<and> (\<forall>r \<in> set rows. doneAt q (nat (wr_ArtIdx r))) \<and> (\<forall>k. doneAt p k \<longrightarrow> doneAt q k)"
  unfolding q_def using assms(1,2)
proof (induction rows arbitrary: p)
  case (Cons r rows)
  let ?p = "fst (markDone m (nat (wr_ArtIdx r)) p)"
  have pl: "ArticleInFile m (wr_FileIdx r) (wr_ArtIdx r)" "HasValidShape r" using Cons.prems by (auto simp: placeRow_def)
  note i = placed_row(1) [OF Cons.prems(1) pl]
  have dn: "doneAt ?p k \<longleftrightarrow> k = nat (wr_ArtIdx r) \<or> doneAt p k" for k by (rule markDone_done [OF Cons.prems(1) i])
  have "\<forall>r \<in> set rows. placeRow m (int fi) r" using Cons.prems(2) by simp
  from Cons.IH [OF res_ok_markDone [OF Cons.prems(1) i] this] dn show ?case by auto
qed simp

lemma res_ok_installRows:
  assumes r: "res_ok m p" and k: "\<forall>x \<in> set rows. placeRow m (int fi) x"
  shows "res_ok m (installRows m fi rows p)"
proof -
  define q where "q = foldl (\<lambda>q r. fst (markDone m (nat (wr_ArtIdx r)) q)) p rows"
  have q: "res_ok m q" "\<And>x. x \<in> set rows \<Longrightarrow> doneAt q (nat (wr_ArtIdx x))"
    using installRows_marks [OF r k, folded q_def] by blast+
  have "row_ok q fi x" if "x \<in> set rows" for x
  proof -
    have "ArticleInFile m (wr_FileIdx x) (wr_ArtIdx x)" "HasValidShape x" "wr_FileIdx x = int fi"
      using k that by (auto simp: placeRow_def)
    then show ?thesis using placed_row(5) [OF q(1) _ _ q(2) [OF that]] by simp
  qed
  then have "rows_ok (upsertRows fi rows q)"
    by (rule rows_ok_upsertRows [OF prog_invD(4) [OF res_okD(2) [OF q(1)]]])
  then show ?thesis unfolding installRows_def q_def [symmetric]
    by (rule res_ok_rows [OF same_but_rows_store(4) q(1)])
qed

lemma content_ok_InstallVerified: "content_ok c \<Longrightarrow> content_ok (fst (InstallVerified fileIdx rows c))"
  unfolding InstallVerified_def
proof (rule content_ok_both)
  assume ok: "content_ok c"
  fix m p assume m: "ct_manifest c = Some m" and p: "ct_progress c = Some p"
  have "content_ok (c\<lparr>ct_progress := Some (installRows m (nat fileIdx) (filter (placeRow m fileIdx) rows) p)\<rparr>)" if "0 \<le> fileIdx"
    by (rule content_ok_put_res [OF ok p m res_ok_installRows [OF content_ok_res(1) [OF ok p m]]]) (use that in simp)
  then show "content_ok (fst (case placeRows m fileIdx rows of Inl e \<Rightarrow> (c, Inl e)
      | Inr (kept, dropped) \<Rightarrow> (c\<lparr>ct_progress := Some (installRows m (nat fileIdx) kept p)\<rparr>, Inr dropped)))"
    using ok by (simp add: placeRows_def)
qed

lemma res_ok_append:
  assumes r: "res_ok m p" and a: "ArticleInFile m (wr_FileIdx row) (wr_ArtIdx row)" and v: "HasValidShape row"
    and d: "\<not> doneAt p (nat (wr_ArtIdx row))"
  shows "res_ok m (appendRow row (fst (markDone m (nat (wr_ArtIdx row)) p)))"
proof -
  let ?q = "fst (markDone m (nat (wr_ArtIdx row)) p)"
  note i = placed_row(1) [OF r a v]
  have q: "res_ok m ?q" by (rule res_ok_markDone [OF r i])
  have rq: "rowsOf ?q = rowsOf p" by (simp add: rowsOf_def fun_eq_iff markDone_keeps)
  have new: "wr_ArtIdx row \<notin> wr_ArtIdx ` set (rowsOf ?q (nat (wr_FileIdx row)))"
  proof -
    have "nat (wr_ArtIdx x) \<noteq> nat (wr_ArtIdx row)" if "x \<in> set (rowsOf p (nat (wr_FileIdx row)))" for x
      using d rows_okD(2) [OF prog_invD(4) [OF res_okD(2) [OF r]] that] unfolding row_ok_def by metis
    then show ?thesis unfolding rq by force
  qed
  have "rows_ok (appendRow row ?q)"
    by (rule rows_ok_appendRow [OF prog_invD(4) [OF res_okD(2) [OF q]] placed_row(5) [OF q a v] new])
      (rule markDone_done [OF r i, THEN iffD2, OF disjI1, OF HOL.refl])
  then show ?thesis by (rule res_ok_rows [OF same_but_rows_store(3) q])
qed

lemma res_ok_upsert_one:
  assumes r: "res_ok m p" and a: "ArticleInFile m (wr_FileIdx row) (wr_ArtIdx row)" and v: "HasValidShape row"
    and d: "doneAt p (nat (wr_ArtIdx row))"
  shows "res_ok m (upsertRows (nat (wr_FileIdx row)) [row] p)"
  by (rule res_ok_rows [OF same_but_rows_store(4) r rows_ok_upsertRows [OF prog_invD(4) [OF res_okD(2) [OF r]]]])
    (use placed_row(5) [OF r a v d] in simp)

lemma content_ok_MarkArticleWritten: "content_ok c \<Longrightarrow> content_ok (fst (MarkArticleWritten row c))"
  unfolding MarkArticleWritten_def
proof (rule content_ok_both)
  assume ok: "content_ok c"
  fix m p assume m: "ct_manifest c = Some m" and p: "ct_progress c = Some p"
  note r = content_ok_res(1) [OF ok p m]
  have "content_ok (fst (case markDone m (nat (wr_ArtIdx row)) p of
      (p1, True) \<Rightarrow> (c\<lparr>ct_progress := Some (appendRow row p1)\<rparr>, None :: ContentError option)
    | (p1, False) \<Rightarrow> (c\<lparr>ct_progress := Some (upsertRows (nat (wr_FileIdx row)) [row] p1)\<rparr>, None)))"
    if a: "ArticleInFile m (wr_FileIdx row) (wr_ArtIdx row)" "HasValidShape row"
  proof (cases "doneAt p (nat (wr_ArtIdx row))")
    case True
    then have "markDone m (nat (wr_ArtIdx row)) p = (p, False)" by (simp add: markDone_def)
    then show ?thesis using content_ok_put_res [OF ok p m res_ok_upsert_one [OF r a True]] by simp
  next
    case False
    obtain p1 where e: "markDone m (nat (wr_ArtIdx row)) p = (p1, True)" using False by (simp add: markDone_def Let_def)
    show ?thesis using content_ok_put_res [OF ok p m res_ok_append [OF r a False]] unfolding e by simp
  qed
  then show "content_ok (fst (if \<not> ArticleInFile m (wr_FileIdx row) (wr_ArtIdx row) then (c, Some ArticleNotInFile)
      else if \<not> HasValidShape row then (c, Some InvalidRange)
      else case markDone m (nat (wr_ArtIdx row)) p of
        (p1, True) \<Rightarrow> (c\<lparr>ct_progress := Some (appendRow row p1)\<rparr>, None)
      | (p1, False) \<Rightarrow> (c\<lparr>ct_progress := Some (upsertRows (nat (wr_FileIdx row)) [row] p1)\<rparr>, None)))"
    using ok by simp
qed

section \<open>Settling\<close>

lemma res_ok_storeSettled:
  assumes r: "res_ok m p"
  shows "res_ok m (storeSettled fi crc ok p)"
proof -
  have q: "res_ok m (updFile fi (\<lambda>f. f\<lparr>fp_AssembledCRC32 := if ok then crc else 0\<rparr>) p)"
    by (rule res_ok_updFile [OF r]) simp_all
  show ?thesis unfolding storeSettled_def
    by (rule res_ok_rows [OF same_but_rows_store(6) q rows_ok_deleteRows [OF prog_invD(4) [OF res_okD(2) [OF q]]]])
qed

lemma settleFileCRC_fst:
  "\<exists>crc ok. settleFileCRC m fi p = (storeSettled fi crc ok p, crc, ok)"
  by (simp add: settleFileCRC_def split: prod.splits)

lemma res_ok_settleFileCRC: "res_ok m p \<Longrightarrow> res_ok m (fst (settleFileCRC m fi p))"
  using settleFileCRC_fst [of m fi p] res_ok_storeSettled by (metis fst_conv)

lemma content_ok_installSettled: "content_ok c \<Longrightarrow> content_ok (fst (installSettled fi i crc ok c))"
  unfolding installSettled_def
proof (rule content_ok_both)
  assume c: "content_ok c"
  fix m p assume m: "ct_manifest c = Some m" and p: "ct_progress c = Some p"
  have "content_ok (c\<lparr>ct_progress := Some (storeSettled fi a b p)\<rparr>)" for a b
    by (rule content_ok_put_res [OF c p m res_ok_storeSettled [OF content_ok_res(1) [OF c p m]]])
  then show "content_ok (fst (if \<not> sameSlice p fi i
      then let (p1, crc, ok) = settleFileCRC m fi p in (c\<lparr>ct_progress := Some p1\<rparr>, Inr (crc, ok))
      else (c\<lparr>ct_progress := Some (storeSettled fi crc ok p)\<rparr>, Inr (crc, ok))))"
    using settleFileCRC_fst [of m fi p] by auto
qed

section \<open>Untrusting, reloading, retrying\<close>

text \<open>Articles of a file return to Outstanding; the figures wait for a recompute.\<close>

lemma clearDone_keeps:
  "jp_fileStarts (clearDone fi arts p) = jp_fileStarts p" "jp_files (clearDone fi arts p) = jp_files p"
  using same_but_rowsD(5,6) [OF same_but_rows_store(5) [of "foldl (\<lambda>q i. clearOne i q) p arts" fi arts]] clears_fields(2,3) [of p arts]
  by (simp_all add: clearDone_def)

lemma inFile_cong: "jp_fileStarts q = jp_fileStarts p \<Longrightarrow> length (jp_files q) = length (jp_files p) \<Longrightarrow> inFile q = inFile p"
  by (simp add: inFile_def fun_eq_iff)

lemma inFile_range:
  assumes "prog_shape (mf_ft m) p" and "fi < mf_NumFiles m" and "i \<in> set [fst (FileRange m fi)..<snd (FileRange m fi)]"
  shows "inFile p fi i"
  using assms shape_ok(7,8) [OF assms(1)] by (simp add: inFile_def FileRange_def ft_Range_def mf_NumFiles_def)

lemma prog_inv_markNotDones:
  assumes "prog_inv ft p" and "ft_ok ft" and "\<And>i. i \<in> set is \<Longrightarrow> inFile p fi i"
  shows "prog_inv ft (foldl (\<lambda>q i. fst (markNotDone fi i q)) p is)"
  using assms
proof (induction "is" arbitrary: p)
  case (Cons i "is")
  let ?q = "fst (markNotDone fi i p)"
  have q: "prog_inv ft ?q"
    using prog_inv_clearDone [OF Cons.prems(1,2), of "[i]" fi] Cons.prems by (simp add: markNotDone_def)
  have "inFile ?q = inFile p" by (rule inFile_cong) (simp_all add: markNotDone_def clearDone_keeps)
  then show ?case using Cons.IH [OF q Cons.prems(2)] Cons.prems(3) by simp
qed simp

lemma prog_inv_deleteRows: "prog_inv ft p \<Longrightarrow> prog_inv ft (deleteRows fi p)"
  by (rule prog_inv_rows [OF same_but_rows_store(6) _ rows_ok_deleteRows [OF prog_invD(4)]])

lemma content_ok_recompute:
  assumes ok: "content_ok c" and p: "ct_progress c = Some p" and m: "ct_manifest c = Some m" and q: "prog_inv (mf_ft m) q"
  shows "\<exists>r. recompute m q = Some r \<and> content_ok (c\<lparr>ct_progress := Some r\<rparr>)"
proof -
  have mo: "mf_ok m" using res_okD(1) [OF content_ok_res(1) [OF ok p m]] .
  obtain r where r: "recompute m q = Some r" using recompute_total [OF prog_invD(1) [OF q] HOL.refl mo] by blast
  then show ?thesis using content_ok_put_res [OF ok p m prog_inv_recompute [OF q mo r]] by blast
qed

lemma UntrustFile_ok:
  assumes ok: "content_ok c"
  shows "content_ok (fst (UntrustFile fileIdx c))" and "snd (UntrustFile fileIdx c) \<noteq> Some SizeMismatchPanic"
proof -
  have "content_ok (fst (UntrustFile fileIdx c)) \<and> snd (UntrustFile fileIdx c) \<noteq> Some SizeMismatchPanic"
  proof (cases "\<exists>m p. ct_manifest c = Some m \<and> ct_progress c = Some p \<and> 0 \<le> fileIdx \<and> fileIdx < int (mf_NumFiles m)")
    case False
    then show ?thesis using ok by (auto simp: UntrustFile_def split: option.splits)
  next
    case True
    then obtain m p where m: "ct_manifest c = Some m" and p: "ct_progress c = Some p"
      and fi: "0 \<le> fileIdx" "fileIdx < int (mf_NumFiles m)" by blast
    note r = content_ok_res(1) [OF ok p m]
    define i where "i = nat fileIdx"
    have i: "i < mf_NumFiles m" using fi by (simp add: i_def)
    have ft: "ft_ok (mf_ft m)" using res_okD(1) [OF r] by (simp add: mf_ok_def)
    define p1 where "p1 = foldl (\<lambda>q k. fst (markNotDone i k q)) (deleteRows i p) [fst (FileRange m i)..<snd (FileRange m i)]"
    define p2 where "p2 = updFile i (\<lambda>f. f\<lparr>fp_Complete := False, fp_AssembledCRC32 := 0\<rparr>) p1"
    note d = prog_inv_deleteRows [OF res_okD(2) [OF r], of i]
    have "prog_inv (mf_ft m) p1" unfolding p1_def
      by (rule prog_inv_markNotDones [OF d ft inFile_range [OF prog_invD(1) [OF d] i]])
    then have "prog_inv (mf_ft m) p2" unfolding p2_def by (rule prog_inv_updFile) simp
    from content_ok_recompute [OF ok p m this] show ?thesis
      using m p fi by (auto simp: UntrustFile_def i_def [symmetric] Let_def case_prod_unfold p1_def [symmetric] p2_def [symmetric])
  qed
  then show "content_ok (fst (UntrustFile fileIdx c))" and "snd (UntrustFile fileIdx c) \<noteq> Some SizeMismatchPanic" by blast+
qed

lemma resetForReload_ok:
  assumes inv: "prog_inv ft p" and ft: "ft_ok ft" and fi: "fi < length (jp_files p)"
  shows "prog_inv ft (fst (resetForReload fi clear p))" "length (jp_files (fst (resetForReload fi clear p))) = length (jp_files p)"
proof -
  obtain lo hi where lh: "fileRange p fi = (lo, hi)" by fastforce
  define p1 where "p1 = (if clear then p\<lparr>jp_emitted := foldl (\<lambda>b i. bs_Clear (int i) b) (jp_emitted p) [lo..<hi]\<rparr> else p)"
  define reset where "reset = (if fp_Complete (jp_files p ! fi) then [] else filter (failedAt p) [lo..<hi])"
  have q: "fst (resetForReload fi clear p) = clearDone fi reset p1"
    by (simp add: resetForReload_def lh p1_def reset_def Let_def)
  have "prog_inv ft (p\<lparr>jp_emitted := foldl (\<lambda>b i. bs_Clear (int i) b) (jp_emitted p) [lo..<hi]\<rparr>)"
    by (rule prog_inv_emitted [OF inv]) (use shape_ok(3) [OF prog_invD(1) [OF inv]] in \<open>simp_all add: get_clears\<close>)
  then have "prog_inv ft p1" using inv by (simp add: p1_def)
  then show "prog_inv ft (fst (resetForReload fi clear p))" unfolding q
    by (rule prog_inv_clearDone [OF _ ft]) (use lh fi in \<open>auto simp: reset_def inFile_def p1_def fileRange_def split: if_splits\<close>)
  show "length (jp_files (fst (resetForReload fi clear p))) = length (jp_files p)" unfolding q clearDone_keeps by (simp add: p1_def)
qed

lemma reloadFiles_ok:
  assumes "prog_inv ft p" and "ft_ok ft" and "\<forall>fi \<in> set fis. fi < length (jp_files p)"
  shows "prog_inv ft (fst (reloadFiles fis clear p))"
  using assms
proof (induction fis arbitrary: p)
  case (Cons fi fis)
  note r = resetForReload_ok [OF Cons.prems(1,2), of fi clear]
  have "fi < length (jp_files p)" using Cons.prems(3) by simp
  from Cons.IH [OF r(1) [OF this] Cons.prems(2)] show ?case
    using Cons.prems(3) r(2) by (simp add: Let_def case_prod_unfold)
qed simp

lemma ClearEmittedForReload_ok:
  assumes ok: "content_ok c"
  shows "content_ok (fst (fst (ClearEmittedForReload skip c)))" and "snd (fst (ClearEmittedForReload skip c)) = None"
proof -
  have "content_ok (fst (fst (ClearEmittedForReload skip c))) \<and> snd (fst (ClearEmittedForReload skip c)) = None"
  proof (cases "ct_progress c")
    case (Some p)
    obtain ft where ft: "ct_fileTable c = Some ft" "ft_ok ft" "prog_inv ft p" by (rule content_ok_table [OF ok Some])
    define q where "q = fst (reloadFiles [0..<length (jp_files p)] (\<not> skip) p)"
    have q: "prog_inv ft q" unfolding q_def by (rule reloadFiles_ok [OF ft(3,2)]) simp
    show ?thesis
    proof (cases "ct_manifest c")
      case None
      have "content_ok (c\<lparr>ct_progress := Some q\<rparr>)"
        by (rule content_ok_put [OF ok Some]) (use None q ft in auto)
      then show ?thesis using Some None by (simp add: ClearEmittedForReload_def Let_def case_prod_unfold q_def [symmetric])
    next
      case m: (Some m)
      have "mf_ft m = ft" using content_ok_res(2) [OF ok Some m] ft(1) by simp
      then obtain r where "recompute m q = Some r" "content_ok (c\<lparr>ct_progress := Some r\<rparr>)"
        using content_ok_recompute [OF ok Some m, of q] q by blast
      then show ?thesis using Some m by (simp add: ClearEmittedForReload_def Let_def case_prod_unfold q_def [symmetric])
    qed
  qed (use ok in \<open>simp add: ClearEmittedForReload_def\<close>)
  then show "content_ok (fst (fst (ClearEmittedForReload skip c)))" and "snd (fst (ClearEmittedForReload skip c)) = None" by blast+
qed

lemma retryFile_ok:
  assumes inv: "prog_inv (mf_ft m) p" and ft: "ft_ok (mf_ft m)" and fi: "fi < mf_NumFiles m"
  shows "prog_inv (mf_ft m) (retryFile m fi p)"
proof -
  have "prog_inv (mf_ft m) (clearDone fi (filter (failedAt p) [fst (FileRange m fi)..<snd (FileRange m fi)]) p)"
    by (rule prog_inv_clearDone [OF inv ft inFile_range [OF prog_invD(1) [OF inv] fi]]) simp
  then show ?thesis unfolding retryFile_def case_prod_unfold Let_def
    by (auto intro!: prog_inv_updFile split: if_split)
qed

lemma retryFiles_ok:
  assumes "prog_inv (mf_ft m) p" and "ft_ok (mf_ft m)" and "\<forall>fi \<in> set fis. fi < mf_NumFiles m"
  shows "prog_inv (mf_ft m) (foldl (\<lambda>q fi. retryFile m fi q) p fis)"
  using assms by (induction fis arbitrary: p) (simp_all add: retryFile_ok)

lemma ResetForRetry_ok:
  assumes ok: "content_ok c"
  shows "content_ok (fst (ResetForRetry c))" and "snd (ResetForRetry c) = None"
proof -
  have "content_ok (fst (ResetForRetry c)) \<and> snd (ResetForRetry c) = None"
  proof (cases "\<exists>m p. ct_manifest c = Some m \<and> ct_progress c = Some p")
    case True
    then obtain m p where m: "ct_manifest c = Some m" and p: "ct_progress c = Some p" by blast
    note r = content_ok_res(1) [OF ok p m]
    define p1 where "p1 = clearDownloadStamps (p\<lparr>jp_earlyAborted := False, jp_par2ReleaseReason := []\<rparr>)"
    have "prog_inv (mf_ft m) p1" by (rule prog_inv_cong [OF res_okD(2) [OF r]]) (simp_all add: p1_def clearDownloadStamps_def)
    then have "prog_inv (mf_ft m) (foldl (\<lambda>q fi. retryFile m fi q) p1 [0..<mf_NumFiles m])"
      using res_okD(1) [OF r] by (intro retryFiles_ok) (simp_all add: mf_ok_def)
    from content_ok_recompute [OF ok p m this] show ?thesis
      using m p by (auto simp: ResetForRetry_def Let_def p1_def [symmetric])
  qed (use ok in \<open>auto simp: ResetForRetry_def split: option.splits\<close>)
  then show "content_ok (fst (ResetForRetry c))" and "snd (ResetForRetry c) = None" by blast+
qed

section \<open>Verifying files and attaching a manifest\<close>

lemma res_ok_markFaileds:
  assumes "res_ok m p" and "\<forall>i \<in> set is. i < mf_NumArticles m"
  shows "res_ok m (foldl (\<lambda>q i. fst (markFailed m i q)) p is)"
  using assms by (induction "is" arbitrary: p) (simp_all add: markFailed_def res_ok_markFailedUncovered)

lemma range_articles:
  assumes "mf_ok m" and "fi < mf_NumFiles m"
  shows "\<forall>i \<in> set [fst (FileRange m fi)..<snd (FileRange m fi)]. i < mf_NumArticles m"
  using assms ft_offset_mono [of "mf_ft m" "Suc fi" "ft_NumFiles (mf_ft m)"] num_articles [OF assms(1)]
  by (auto simp: FileRange_def ft_Range_def mf_NumFiles_def ft_TotalArticles_def ft_NumFiles_def mf_ok_def)

lemma res_ok_installPlaced:
  assumes r: "res_ok m p" and fi: "nat (fv_FileIdx v) < mf_NumFiles m"
    and k: "\<forall>x \<in> set kept. placeRow m (int (nat (fv_FileIdx v))) x"
  shows "res_ok m (installPlaced m v kept p)"
proof -
  define i where "i = nat (fv_FileIdx v)"
  define p1 where "p1 = (if fv_Filename v \<noteq> [] then updFile i (\<lambda>f. f\<lparr>fp_Filename := fv_Filename v\<rparr>) p else p)"
  define p2 where "p2 = (if fv_RestorePolicy v then setFileFetchPolicy i (fv_Policy v) p1 else p1)"
  define p3 where "p3 = installRows m i kept p2"
  have r1: "res_ok m p1" unfolding p1_def using r by (auto intro!: res_ok_updFile)
  have "i < length (jp_files p1)" using shape_ok(7) [OF res_okD(4) [OF r1]] fi by (simp add: i_def mf_NumFiles_def)
  then have r2: "res_ok m p2" unfolding p2_def using r1 by (simp add: counted_setFileFetchPolicy)
  have r3: "res_ok m p3" unfolding p3_def by (rule res_ok_installRows [OF r2 k [folded i_def]])
  have r4: "res_ok m (foldl (\<lambda>q i. fst (markFailed m i q)) p3 [fst (FileRange m i)..<snd (FileRange m i)])"
    by (rule res_ok_markFaileds [OF r3 range_articles [OF res_okD(1) [OF r] fi [folded i_def]]])
  have "res_ok m (updFile i (\<lambda>f. f\<lparr>fp_Complete := True\<rparr>)
      (foldl (\<lambda>q i. fst (markFailed m i q)) p3 [fst (FileRange m i)..<snd (FileRange m i)]))"
    by (rule res_ok_updFile [OF r4]) simp_all
  moreover have "installPlaced m v kept p = (if fv_Complete v then updFile i (\<lambda>f. f\<lparr>fp_Complete := True\<rparr>)
      (foldl (\<lambda>q i. fst (markFailed m i q)) p3 [fst (FileRange m i)..<snd (FileRange m i)]) else p3)"
    unfolding installPlaced_def Let_def case_prod_unfold i_def p1_def p2_def p3_def ..
  ultimately show ?thesis using r3 by simp
qed

lemma res_ok_finishVerification: "res_ok m p \<Longrightarrow> res_ok m (finishVerification m v p)"
  unfolding finishVerification_def Let_def by (rule res_ok_updFile) (simp_all add: res_ok_settleFileCRC)

lemma markArticleFailed_keeps:
  "ct_manifest (fst (markArticleFailed a u c)) = ct_manifest c" "ct_progress c \<noteq> None \<Longrightarrow> ct_progress (fst (markArticleFailed a u c)) \<noteq> None"
  "ct_fileTable (fst (markArticleFailed a u c)) = ct_fileTable c"
  by (auto simp: markArticleFailed_def split: option.splits prod.splits)

lemma markFaileds_keep:
  assumes "content_ok c" and "ct_progress c \<noteq> None" and "d = foldl (\<lambda>d a. fst (markArticleFailed a WholeArticle d)) c as"
  shows "content_ok d \<and> ct_progress d \<noteq> None \<and> ct_manifest d = ct_manifest c"
  unfolding assms(3) using assms(1,2)
proof (induction as arbitrary: c)
  case (Cons a as)
  show ?case
    using Cons.IH [OF content_ok_markArticleFailed [OF Cons.prems(1)] markArticleFailed_keeps(2) [OF Cons.prems(2)], of a WholeArticle]
    by (simp add: markArticleFailed_keeps(1))
qed simp

lemma installFileVerificationLocked_ok:
  assumes ok: "content_ok c"
  shows "content_ok (fst (installFileVerificationLocked v c))"
proof (cases "\<exists>m p. ct_manifest c = Some m \<and> ct_progress c = Some p \<and> 0 \<le> fv_FileIdx v \<and> fv_FileIdx v < int (mf_NumFiles m)")
  case True
  then obtain m p where m: "ct_manifest c = Some m" and p: "ct_progress c = Some p"
    and fi: "0 \<le> fv_FileIdx v" "fv_FileIdx v < int (mf_NumFiles m)" by blast
  define kept where "kept = filter (placeRow m (fv_FileIdx v)) (fv_Rows v)"
  define c1 where "c1 = c\<lparr>ct_progress := Some (installPlaced m v kept p)\<rparr>"
  define c2 where "c2 = foldl (\<lambda>d a. fst (markArticleFailed a WholeArticle d)) c1 (fv_Failed v)"
  have "res_ok m (installPlaced m v kept p)"
    by (rule res_ok_installPlaced [OF content_ok_res(1) [OF ok p m]]) (use fi in \<open>auto simp: kept_def\<close>)
  then have "content_ok c1" unfolding c1_def by (rule content_ok_put_res [OF ok p m])
  then have c2: "content_ok c2" "ct_progress c2 \<noteq> None" "ct_manifest c2 = Some m"
    using markFaileds_keep [OF _ _ c2_def] m by (auto simp: c1_def)
  then obtain q where q: "ct_progress c2 = Some q" by blast
  have "content_ok (c2\<lparr>ct_progress := Some (finishVerification m v q)\<rparr>)"
    by (rule content_ok_put_res [OF c2(1) q c2(3) res_ok_finishVerification [OF content_ok_res(1) [OF c2(1) q c2(3)]]])
  then show ?thesis using m p fi q
    by (simp add: installFileVerificationLocked_def placeRows_def kept_def [symmetric] c1_def [symmetric] c2_def [symmetric] Let_def)
qed (use ok in \<open>auto simp: installFileVerificationLocked_def placeRows_def split: option.splits\<close>)

lemma installAll_ok: "content_ok c \<Longrightarrow> content_ok (fst (installAll vs c))"
  by (induction vs arbitrary: c) (simp_all add: installFileVerificationLocked_ok case_prod_unfold Let_def)

lemma AttachArticles_ok:
  assumes ok: "content_ok c" and m: "mf_ok m"
  shows "content_ok (fst (AttachArticles (Some m) vs c))" and "snd (AttachArticles (Some m) vs c) \<noteq> Inl SizeMismatchPanic"
proof -
  have "content_ok (fst (AttachArticles (Some m) vs c)) \<and> snd (AttachArticles (Some m) vs c) \<noteq> Inl SizeMismatchPanic"
  proof (cases "ct_fileTable c = Some (mf_ft m) \<and> ct_manifest c = None")
    case True
    then obtain p where p: "ct_progress c = Some p" using ok by (auto simp: content_ok_def split: option.splits)
    have inv: "prog_inv (mf_ft m) p" using content_ok_table [OF ok p] True by auto
    obtain q where q: "recompute m p = Some q" using recompute_total [OF prog_invD(1) [OF inv] HOL.refl m] by blast
    have "res_ok m q" by (rule prog_inv_recompute [OF inv m q])
    then have "content_ok (c\<lparr>ct_progress := Some q, ct_manifest := Some m\<rparr>)"
      using True m by (auto simp: content_ok_def res_ok_def mf_ok_def)
    then show ?thesis using True p q installAll_ok by (simp add: AttachArticles_def Let_def case_prod_unfold)
  qed (use ok in \<open>auto simp: AttachArticles_def split: option.splits\<close>)
  then show "content_ok (fst (AttachArticles (Some m) vs c))" and "snd (AttachArticles (Some m) vs c) \<noteq> Inl SizeMismatchPanic" by blast+
qed

section \<open>The remaining doors\<close>

lemma content_ok_onProgress:
  "content_ok c \<Longrightarrow> (\<And>p. same_figures_fields p (f p)) \<Longrightarrow> content_ok (fst (onProgress f c))"
  unfolding onProgress_def by (rule content_ok_door) (auto intro: content_ok_fields)

lemmas field_defs = same_figures_fields_def same_but_rows_def

lemma content_ok_stamps:
  assumes "content_ok c"
  shows "content_ok (fst (MarkJobStarted t c))" "content_ok (fst (MarkDownloadFinished t c))"
    "content_ok (fst (ClearDownloadFinished c))" "content_ok (fst (RecordDownload s n c))"
  unfolding MarkJobStarted_def MarkDownloadFinished_def ClearDownloadFinished_def RecordDownload_def
  by (rule content_ok_onProgress [OF assms];
      simp add: field_defs setDownloadStartedOnce_def setDownloadFinishedOnce_def clearDownloadFinished_def)+

lemma content_ok_restored:
  "content_ok c \<Longrightarrow> ct_progress c = None \<Longrightarrow>
     content_ok (c\<lparr>ct_restoredPar2Reason := r, ct_restoredDLStarted := a, ct_restoredDLFinished := b\<rparr>)"
  "content_ok c \<Longrightarrow> ct_progress c = None \<Longrightarrow> content_ok (c\<lparr>ct_restoredPar2Reason := r\<rparr>)"
  by (auto simp: content_ok_def split: option.splits)

lemma content_ok_SetPar2ReleaseReason: "content_ok c \<Longrightarrow> content_ok (SetPar2ReleaseReason r c)"
  unfolding SetPar2ReleaseReason_def
  by (auto split: option.split simp: field_defs intro: content_ok_restored content_ok_fields)

lemma content_ok_RestoreProgressState: "content_ok c \<Longrightarrow> content_ok (RestoreProgressState r a b c)"
  unfolding RestoreProgressState_def
  by (auto split: option.split simp: field_defs restoreDownloadStamps_def clearDownloadStamps_def intro: content_ok_restored content_ok_fields)

lemma content_ok_CheckEarlyAbort: "content_ok c \<Longrightarrow> content_ok (fst (CheckEarlyAbort c))"
  unfolding CheckEarlyAbort_def Let_def
  by (rule content_ok_door) (auto simp: isEarlyAbort_def field_defs intro: content_ok_fields)

text \<open>The changed marks and the fetch policies.\<close>

lemma content_ok_RecordFileRename:
  assumes ok: "content_ok c"
  shows "content_ok (fst (RecordFileRename a b c))"
proof (cases "a = b \<or> \<not> isSinglePathComponent a \<or> \<not> isSinglePathComponent b")
  case False
  show ?thesis unfolding RecordFileRename_def if_not_P [OF False]
  proof (rule content_ok_door [OF ok])
    fix p assume p: "ct_progress c = Some p"
    have 1: "content_ok (c\<lparr>ct_progress := Some (updFile fi (\<lambda>f. f\<lparr>fp_Filename := b\<rparr>) p)\<rparr>)" for fi
      by (rule content_ok_updFile [OF ok p]) simp_all
    have 2: "content_ok (c\<lparr>ct_progress := Some (updFile fi (\<lambda>f. f\<lparr>fp_fetchChanged := True\<rparr>) (updFile fi (\<lambda>f. f\<lparr>fp_Filename := b\<rparr>) p))\<rparr>)" for fi
      using content_ok_updFile [OF 1, where p = "updFile fi (\<lambda>f. f\<lparr>fp_Filename := b\<rparr>) p"
          and g = "\<lambda>f. f\<lparr>fp_fetchChanged := True\<rparr>" and fi = fi] by simp
    have "content_ok (c\<lparr>ct_progress := Some (setChanged fi (updFile fi (\<lambda>f. f\<lparr>fp_Filename := b\<rparr>) p))\<rparr>)" for fi
      using 1 content_ok_fields [OF 2] by (simp add: setChanged_def field_defs)
    then show "content_ok (fst (case filter (\<lambda>fi. fp_Filename (jp_files p ! fi) = a) [0..<length (jp_files p)] of [] \<Rightarrow> (c, False)
        | fi # uu \<Rightarrow> (c\<lparr>ct_progress := Some (setChanged fi (updFile fi (\<lambda>f. f\<lparr>fp_Filename := b\<rparr>) p))\<rparr>, True)))"
      using ok by (simp split: list.split)
  qed (use ok in simp)
qed (use ok in \<open>simp add: RecordFileRename_def\<close>)

lemma res_ok_files:
  assumes r: "res_ok m p" and n: "length (jp_files q) = length (jp_files p)"
    and b: "jp_done q = jp_done p" "jp_failed q = jp_failed p" "jp_emitted q = jp_emitted p" "jp_failCharge q = jp_failCharge p"
      "jp_written q = jp_written p" "jp_fileStarts q = jp_fileStarts p" "jp_pendingArticles q = jp_pendingArticles p"
      "jp_articlesResolved q = jp_articlesResolved p" "jp_articlesFailed q = jp_articlesFailed p" "jp_failedBytes q = jp_failedBytes p"
    and f: "\<And>fi. fi < length (jp_files p) \<Longrightarrow> fp_Pending (jp_files q ! fi) = fp_Pending (jp_files p ! fi)
      \<and> fp_BytesDownloaded (jp_files q ! fi) = fp_BytesDownloaded (jp_files p ! fi)
      \<and> fp_FailedBytes (jp_files q ! fi) = fp_FailedBytes (jp_files p ! fi) \<and> fp_Bytes (jp_files q ! fi) = fp_Bytes (jp_files p ! fi)
      \<and> fp_Fetch (jp_files q ! fi) = fp_Fetch (jp_files p ! fi)"
  shows "res_ok m q"
proof -
  note c = res_okD(3) [OF r] and g = figures_cong [OF b(1,2,4)]
  have nf: "length (jp_files p) = mf_NumFiles m" using shape_ok(7) [OF res_okD(4) [OF r]] by (simp add: mf_NumFiles_def)
  have pend: "pendingOf q fi = pendingOf p fi" if "fi < mf_NumFiles m" for fi
    using that f nf by (intro pendingOf_cong) (simp_all add: b)
  have "counted m q"
  proof (rule countedI)
    show "jp_pendingArticles q = sumRange (pendingOf q) 0 (mf_NumFiles m)"
      using countedD(5) [OF c] by (simp cong: sumRange_cong add: pend b)
  qed (simp_all add: f nf pend g b countedD [OF c])
  moreover have "prog_inv (mf_ft m) q" by (rule prog_inv_cong [OF res_okD(2) [OF r]]) (simp_all add: b n f)
  ultimately show ?thesis using res_okD(1) [OF r] by (simp add: res_ok_def)
qed

lemma content_ok_TakeFetchPolicyChanges: "content_ok c \<Longrightarrow> content_ok (fst (TakeFetchPolicyChanges c))"
  unfolding TakeFetchPolicyChanges_def
proof (rule content_ok_door)
  assume ok: "content_ok c"
  fix p assume p: "ct_progress c = Some p"
  let ?q = "p\<lparr>jp_files := map (\<lambda>f. f\<lparr>fp_fetchChanged := False\<rparr>) (jp_files p), jp_fetchChanges := 0\<rparr>"
  have "content_ok (c\<lparr>ct_progress := Some ?q\<rparr>)"
  proof (rule content_ok_put [OF ok p])
    show "res_ok m p \<Longrightarrow> res_ok m ?q" for m by (erule res_ok_files) simp_all
    show "prog_inv ft p \<Longrightarrow> prog_inv ft ?q" for ft by (erule prog_inv_cong) simp_all
  qed
  then show "content_ok (fst (if jp_fetchChanges p = 0 then (c, []) else (c\<lparr>ct_progress := Some ?q\<rparr>,
      map (fileState p) (filter (\<lambda>fi. fp_fetchChanged (jp_files p ! fi)) [0..<length (jp_files p)]))))"
    using ok by simp
qed simp_all

end
