(* ===== verification/Cover.thy ===== *)
theory Cover
  imports Prelude
begin

text \<open>
  Which recovery volumes to fetch: \<open>cheapestCover\<close> of \<^verbatim>\<open>internal/job/cover.go\<close>, an in-place
  0/1 knapsack over block counts capped at the need, with a bit per item and cell to rebuild the
  choice. The bit array is modelled as one row of bits per item. The theorem compares it with the
  optimum over all subsets.
\<close>

section \<open>The source\<close>

type_synonym cells = "int list \<times> bool list \<times> nat"

text \<open>The body of the inner loop at cell \<open>c\<close>.\<close>

definition relax :: "nat \<Rightarrow> nat \<Rightarrow> int \<Rightarrow> nat \<Rightarrow> cells \<Rightarrow> cells" where
  "relax need b bytes c s =
     (case s of (best, took, intoNeed) \<Rightarrow>
      if best ! c = MaxInt64 then s
      else
        (let nc = min need (c + b); cost = best ! c + bytes in
         if cost < best ! nc
         then (best[nc := cost], took[nc := True], if nc = need then c else intoNeed)
         else s))"

fun relaxDown :: "nat \<Rightarrow> nat \<Rightarrow> int \<Rightarrow> nat \<Rightarrow> cells \<Rightarrow> cells" where
  "relaxDown need b bytes 0 s = relax need b bytes 0 s"
| "relaxDown need b bytes (Suc c) s = relaxDown need b bytes c (relax need b bytes (Suc c) s)"

definition coverItem :: "nat \<Rightarrow> nat \<Rightarrow> int \<Rightarrow> int list \<Rightarrow> cells" where
  "coverItem need b bytes best =
     (let s = (best, replicate (need + 1) False, 0) in
      if b \<le> 0 then s else relaxDown need b bytes need s)"

fun coverItems :: "nat \<Rightarrow> (nat \<times> int) list \<Rightarrow> int list \<Rightarrow> int list \<times> (bool list \<times> nat) list" where
  "coverItems need [] best = (best, [])"
| "coverItems need ((b, bytes) # its) best =
     (case coverItem need b bytes best of (best1, took, into) \<Rightarrow>
      case coverItems need its best1 of (best2, rows) \<Rightarrow> (best2, (took, into) # rows))"

text \<open>The backward loop: the items from the last to the first, each with its index and row.\<close>

fun coverBack :: "nat \<Rightarrow> (nat \<times> nat \<times> bool list \<times> nat) list \<Rightarrow> nat \<Rightarrow> nat list" where
  "coverBack need [] c = []"
| "coverBack need ((v, b, took, into) # its) c =
     (if took ! c then v # coverBack need its (if c = need then into else c - b)
      else coverBack need its c)"

definition cheapestCover :: "int list \<Rightarrow> int list \<Rightarrow> int \<Rightarrow> nat list \<times> bool" where
  "cheapestCover inBlocks bytes need =
     (if need \<le> 0 then ([], True)
      else
        (let blocks = map (\<lambda>b. nat (min (max b 0) need)) inBlocks; n = nat need in
         if sum_list blocks < n then ([], False)
         else
           (let best = 0 # replicate n MaxInt64;
                (_, rows) = coverItems n (zip blocks bytes) best;
                its = zip [0..<length blocks] (zip blocks rows) in
            (coverBack n (rev its) n, True))))"

section \<open>One item\<close>

text \<open>
  What the cells hold after the inner loop has gone down to cell \<open>k\<close>, from the cells \<open>old\<close> before
  the item.
\<close>

definition relaxed :: "nat \<Rightarrow> nat \<Rightarrow> int \<Rightarrow> int list \<Rightarrow> nat \<Rightarrow> cells \<Rightarrow> bool" where
  "relaxed need b bytes old k s =
     (case s of (best, took, into) \<Rightarrow>
      length best = need + 1 \<and> length took = need + 1
    \<and> (\<forall>n \<le> need. best ! n \<le> old ! n)
    \<and> (\<forall>n < need. n < k \<longrightarrow> best ! n = old ! n)
    \<and> (\<forall>c < need. k \<le> c \<longrightarrow> old ! c \<noteq> MaxInt64 \<longrightarrow> best ! min need (c + b) \<le> old ! c + bytes)
    \<and> (\<forall>n \<le> need. took ! n \<longleftrightarrow> best ! n < old ! n)
    \<and> (\<forall>n < need. took ! n \<longrightarrow> b \<le> n \<and> old ! (n - b) \<noteq> MaxInt64 \<and> best ! n = old ! (n - b) + bytes)
    \<and> (took ! need \<longrightarrow> into < need \<and> need \<le> into + b \<and> old ! into \<noteq> MaxInt64 \<and> best ! need = old ! into + bytes))"

lemma relaxed_start:
  assumes "length old = need + 1"
  shows "relaxed need b bytes old need (old, replicate (need + 1) False, 0)"
  using assms by (simp add: relaxed_def del: replicate_Suc)

lemma relaxed_step:
  assumes r: "relaxed need b bytes old (Suc c) s" and c: "c < need" and b: "0 < b"
  shows "relaxed need b bytes old c (relax need b bytes c s)"
proof -
  obtain best took into where s: "s = (best, took, into)" by (cases s)
  have len: "length best = need + 1" "length took = need + 1"
    and le: "\<And>n. n \<le> need \<Longrightarrow> best ! n \<le> old ! n"
    and low: "\<And>n. n < need \<Longrightarrow> n < Suc c \<Longrightarrow> best ! n = old ! n"
    and hit: "\<And>k. k < need \<Longrightarrow> Suc c \<le> k \<Longrightarrow> old ! k \<noteq> MaxInt64 \<Longrightarrow> best ! min need (k + b) \<le> old ! k + bytes"
    and bit: "\<And>n. n \<le> need \<Longrightarrow> took ! n \<longleftrightarrow> best ! n < old ! n"
    and mid: "\<And>n. n < need \<Longrightarrow> took ! n \<Longrightarrow> b \<le> n \<and> old ! (n - b) \<noteq> MaxInt64 \<and> best ! n = old ! (n - b) + bytes"
    and top: "took ! need \<Longrightarrow> into < need \<and> need \<le> into + b \<and> old ! into \<noteq> MaxInt64 \<and> best ! need = old ! into + bytes"
    using r unfolding relaxed_def s by simp_all
  have at: "best ! c = old ! c" using low c by simp
  define nc where "nc = min need (c + b)"
  have nc: "nc \<le> need" "c < nc" using c b by (simp_all add: nc_def)
  show ?thesis
  proof (cases "old ! c \<noteq> MaxInt64 \<and> old ! c + bytes < best ! nc")
    case False
    then have same: "relax need b bytes c s = s" by (auto simp: relax_def s at nc_def [symmetric] Let_def)
    have "best ! min need (k + b) \<le> old ! k + bytes" if "k < need" "c \<le> k" "old ! k \<noteq> MaxInt64" for k
      using False hit [OF that(1) _ that(3)] that by (cases "k = c") (auto simp: nc_def)
    then show ?thesis unfolding same unfolding relaxed_def s
      using len le low bit mid top by auto
  next
    case True
    have upd: "relax need b bytes c s = (best[nc := old ! c + bytes], took[nc := True], if nc = need then c else into)"
      using True by (simp add: relax_def s at nc_def [symmetric] Let_def)
    have hit': "best[nc := old ! c + bytes] ! min need (k + b) \<le> old ! k + bytes"
      if "k < need" "c \<le> k" "old ! k \<noteq> MaxInt64" for k
    proof (cases "k = c")
      case False
      then show ?thesis using hit [OF that(1) _ that(3)] that True len nc by (cases "nc = min need (k + b)") auto
    qed (use len nc in \<open>simp add: nc_def\<close>)
    have mid': "b \<le> n \<and> old ! (n - b) \<noteq> MaxInt64 \<and> best[nc := old ! c + bytes] ! n = old ! (n - b) + bytes"
      if "n < need" "took[nc := True] ! n" for n
    proof (cases "n = nc")
      case True2: True
      then show ?thesis using that True len nc by (simp add: nc_def)
    qed (use that mid in auto)
    have top': "(if nc = need then c else into) < need \<and> need \<le> (if nc = need then c else into) + b
        \<and> old ! (if nc = need then c else into) \<noteq> MaxInt64
        \<and> best[nc := old ! c + bytes] ! need = old ! (if nc = need then c else into) + bytes"
      if "took[nc := True] ! need"
      using that top True len nc c by (cases "nc = need") (auto simp: nc_def min_def split: if_splits)
    show ?thesis unfolding upd unfolding relaxed_def prod.case
    proof (intro conjI allI impI)
      show "best[nc := old ! c + bytes] ! n \<le> old ! n" if "n \<le> need" for n
        using that le [of n] le [of nc] True len nc by (cases "n = nc") auto
      show "took[nc := True] ! n \<longleftrightarrow> best[nc := old ! c + bytes] ! n < old ! n" if "n \<le> need" for n
        using that le [of nc] bit [of n] True len nc by (cases "n = nc") auto
      show "best[nc := old ! c + bytes] ! n = old ! n" if "n < need" "n < c" for n
        using that low nc by simp
    qed (use len hit' mid' top' in auto)
  qed
qed

lemma relaxed_down:
  assumes "relaxed need b bytes old (Suc c) s" and "c < need" and "0 < b"
  shows "relaxed need b bytes old 0 (relaxDown need b bytes c s)"
  using assms
proof (induction c arbitrary: s)
  case 0
  then show ?case using relaxed_step [of need b bytes old 0 s] by simp
next
  case (Suc c)
  then show ?case using relaxed_step [of need b bytes old "Suc c" s] by simp
qed

lemma relaxed_item:
  assumes "length old = need + 1" and b: "0 < b" and "0 < need" and "0 \<le> bytes"
  shows "relaxed need b bytes old 0 (coverItem need b bytes old)"
proof -
  obtain n where n: "need = Suc n" using assms(3) gr0_implies_Suc by blast
  have skip: "relax need b bytes need (old, replicate (need + 1) False, 0) = (old, replicate (need + 1) False, 0)"
    using assms(4) by (simp add: relax_def Let_def)
  show ?thesis
    using relaxed_down [of need b bytes old n "(old, replicate (need + 1) False, 0)"] relaxed_start [OF assms(1), of b bytes] b skip
    unfolding n by (simp add: coverItem_def Let_def)
qed

section \<open>All items\<close>

text \<open>Blocks and bytes of the items whose index, counted from \<open>k\<close>, is in \<open>S\<close>.\<close>

fun selBlocks :: "nat set \<Rightarrow> nat \<Rightarrow> (nat \<times> int) list \<Rightarrow> nat" where
  "selBlocks S k [] = 0"
| "selBlocks S k ((b, w) # its) = (if k \<in> S then b else 0) + selBlocks S (Suc k) its"

fun selBytes :: "nat set \<Rightarrow> nat \<Rightarrow> (nat \<times> int) list \<Rightarrow> int" where
  "selBytes S k [] = 0"
| "selBytes S k ((b, w) # its) = (if k \<in> S then w else 0) + selBytes S (Suc k) its"

lemma selBytes_bounds:
  assumes "\<forall>(b, w) \<in> set its. 0 \<le> w"
  shows "0 \<le> selBytes S k its" and "selBytes S k its \<le> sum_list (map snd its)"
  using assms by (induction its arbitrary: k) (auto simp: add_mono)

lemma coverItem_facts:
  assumes len: "length best = need + 1" and "0 < need" and w: "0 \<le> w"
    and it: "coverItem need b w best = (best1, took, into)"
  shows "length best1 = need + 1"
    and "n \<le> need \<Longrightarrow> best1 ! n \<le> best ! n"
    and "c \<le> need \<Longrightarrow> best ! c \<noteq> MaxInt64 \<Longrightarrow> best1 ! min need (c + b) \<le> best ! c + w"
    and "n \<le> need \<Longrightarrow> \<not> took ! n \<Longrightarrow> best1 ! n = best ! n"
    and "n \<le> need \<Longrightarrow> took ! n \<Longrightarrow>
      (let pred = (if n = need then into else n - b) in
       pred \<le> need \<and> best ! pred \<noteq> MaxInt64 \<and> best1 ! n = best ! pred + w \<and> min need (pred + b) = n)"
proof -
  have all: "length best1 = need + 1 \<and> (\<forall>n \<le> need. best1 ! n \<le> best ! n)
    \<and> (\<forall>c \<le> need. best ! c \<noteq> MaxInt64 \<longrightarrow> best1 ! min need (c + b) \<le> best ! c + w)
    \<and> (\<forall>n \<le> need. \<not> took ! n \<longrightarrow> best1 ! n = best ! n)
    \<and> (\<forall>n \<le> need. took ! n \<longrightarrow>
      (let pred = (if n = need then into else n - b) in
       pred \<le> need \<and> best ! pred \<noteq> MaxInt64 \<and> best1 ! n = best ! pred + w \<and> min need (pred + b) = n))"
  proof (cases "b = 0")
    case True
    then have "best1 = best" "took = replicate (need + 1) False" using it by (auto simp: coverItem_def Let_def)
    then show ?thesis using len w True by (simp add: Let_def del: replicate_Suc)
  next
    case False
    have r: "relaxed need b w best 0 (best1, took, into)"
      using relaxed_item [OF len _ assms(2) w, of b] False it by simp
    have le: "best1 ! n \<le> best ! n" if "n \<le> need" for n using r that unfolding relaxed_def by auto
    have "best1 ! min need (c + b) \<le> best ! c + w" if "c \<le> need" "best ! c \<noteq> MaxInt64" for c
    proof (cases "c = need")
      case True
      then show ?thesis using le [of need] w by simp
    qed (use r that in \<open>auto simp: relaxed_def\<close>)
    moreover
    have bit: "took ! n \<longleftrightarrow> best1 ! n < best ! n" if "n \<le> need" for n
      using r that unfolding relaxed_def prod.case by blast
    then have "best1 ! n = best ! n" if "n \<le> need" "\<not> took ! n" for n
      using le [OF that(1)] bit [OF that(1)] that(2) by simp
    moreover have "let pred = (if n = need then into else n - b) in
       pred \<le> need \<and> best ! pred \<noteq> MaxInt64 \<and> best1 ! n = best ! pred + w \<and> min need (pred + b) = n"
      if "n \<le> need" "took ! n" for n
      using r that unfolding relaxed_def Let_def by (cases "n = need") auto
    ultimately show ?thesis using r le unfolding relaxed_def by simp
  qed
  from all show "length best1 = need + 1" by (rule conjunct1)
  show "n \<le> need \<Longrightarrow> best1 ! n \<le> best ! n"
    using all [THEN conjunct2, THEN conjunct1] by blast
  show "c \<le> need \<Longrightarrow> best ! c \<noteq> MaxInt64 \<Longrightarrow> best1 ! min need (c + b) \<le> best ! c + w"
    using all [THEN conjunct2, THEN conjunct2, THEN conjunct1] by blast
  show "n \<le> need \<Longrightarrow> \<not> took ! n \<Longrightarrow> best1 ! n = best ! n"
    using all [THEN conjunct2, THEN conjunct2, THEN conjunct2, THEN conjunct1] by blast
  show "n \<le> need \<Longrightarrow> took ! n \<Longrightarrow>
      (let pred = (if n = need then into else n - b) in
       pred \<le> need \<and> best ! pred \<noteq> MaxInt64 \<and> best1 ! n = best ! pred + w \<and> min need (pred + b) = n)"
    using all [THEN conjunct2, THEN conjunct2, THEN conjunct2, THEN conjunct2, rule_format] .
qed

lemma coverItems_lower:
  assumes "coverItems need its best = (bf, rows)" and "length best = need + 1" and "0 < need"
    and "\<forall>(b, w) \<in> set its. 0 \<le> w" and "c \<le> need" and "best ! c + sum_list (map snd its) < MaxInt64"
  shows "bf ! min need (c + selBlocks S k its) \<le> best ! c + selBytes S k its"
  using assms
proof (induction its arbitrary: best bf rows c k)
  case (Cons it its)
  obtain b w where it: "it = (b, w)" by (cases it)
  obtain best1 took into where st: "coverItem need b w best = (best1, took, into)" using prod_cases3 by blast
  obtain rows' where rest: "coverItems need its best1 = (bf, rows')"
    using Cons.prems(1) by (auto simp: it st split: prod.splits)
  have w: "0 \<le> w" and ws: "\<forall>(b, w) \<in> set its. 0 \<le> w" using Cons.prems(4) by (auto simp: it)
  note f = coverItem_facts [OF Cons.prems(2,3) w st]
  have fin: "best ! c \<noteq> MaxInt64"
    using Cons.prems(6) selBytes_bounds [OF Cons.prems(4), of "{}" 0] by auto
  note IH = Cons.IH [OF rest f(1) Cons.prems(3) ws]
  show ?case
  proof (cases "k \<in> S")
    case True
    have step: "best1 ! min need (c + b) \<le> best ! c + w" by (rule f(3) [OF Cons.prems(5) fin])
    then have "bf ! min need (min need (c + b) + selBlocks S (Suc k) its)
        \<le> best1 ! min need (c + b) + selBytes S (Suc k) its"
      using Cons.prems(6) by (intro IH) (auto simp: it)
    moreover have "min need (min need (c + b) + x) = min need (c + b + x)" for x by (simp add: min_def)
    ultimately show ?thesis using step True by (simp add: it add.assoc)
  next
    case False
    have "best1 ! c \<le> best ! c" by (rule f(2) [OF Cons.prems(5)])
    moreover then have "bf ! min need (c + selBlocks S (Suc k) its) \<le> best1 ! c + selBytes S (Suc k) its"
      using Cons.prems(5,6) w by (intro IH) (auto simp: it)
    ultimately show ?thesis using False by (simp add: it)
  qed
qed simp

text \<open>The cell the backward loop is at after the items it has seen.\<close>

fun backCell :: "nat \<Rightarrow> (nat \<times> nat \<times> bool list \<times> nat) list \<Rightarrow> nat \<Rightarrow> nat" where
  "backCell need [] c = c"
| "backCell need ((v, b, took, into) # its) c =
     backCell need its (if took ! c then (if c = need then into else c - b) else c)"

lemma coverBack_append: "coverBack need (xs @ ys) c = coverBack need xs c @ coverBack need ys (backCell need xs c)"
  by (induction need xs c rule: coverBack.induct) auto

lemma backCell_append: "backCell need (xs @ ys) c = backCell need ys (backCell need xs c)"
  by (induction need xs c rule: backCell.induct) simp_all

definition indexed :: "nat \<Rightarrow> (nat \<times> int) list \<Rightarrow> (bool list \<times> nat) list \<Rightarrow> (nat \<times> nat \<times> bool list \<times> nat) list" where
  "indexed k its rows = zip [k..<k + length its] (zip (map fst its) rows)"

lemma indexed_Cons: "indexed k (it # its) (r # rows) = (k, fst it, r) # indexed (Suc k) its rows"
proof -
  have "[k..<k + length (it # its)] = k # [Suc k..<Suc k + length its]" by (simp add: upt_rec)
  then show ?thesis by (simp add: indexed_def)
qed

lemma coverItems_length: "coverItems need its best = (bf, rows) \<Longrightarrow> length rows = length its"
  by (induction its arbitrary: best bf rows) (auto split: prod.splits)

lemma coverBack_range:
  "v \<in> set (coverBack need (rev (indexed k its rows)) c) \<Longrightarrow> length rows = length its \<Longrightarrow> k \<le> v \<and> v < k + length its"
proof -
  have "set (coverBack need xs c) \<subseteq> fst ` set xs" for xs
    by (induction need xs c rule: coverBack.induct) auto
  then show "v \<in> set (coverBack need (rev (indexed k its rows)) c) \<Longrightarrow> length rows = length its \<Longrightarrow> k \<le> v \<and> v < k + length its"
    by (force simp: indexed_def dest: set_zip_leftD)
qed

lemma sel_extra:
  "k \<notin> S \<Longrightarrow> selBlocks (insert k S) (Suc k) its = selBlocks S (Suc k) its"
  "k \<notin> S \<Longrightarrow> selBytes (insert k S) (Suc k) its = selBytes S (Suc k) its"
proof -
  have "k < j \<Longrightarrow> selBlocks (insert k S) j its = selBlocks S j its \<and> selBytes (insert k S) j its = selBytes S j its" for j
    by (induction its arbitrary: j) (auto simp: less_Suc_eq)
  then show "k \<notin> S \<Longrightarrow> selBlocks (insert k S) (Suc k) its = selBlocks S (Suc k) its"
    "k \<notin> S \<Longrightarrow> selBytes (insert k S) (Suc k) its = selBytes S (Suc k) its" by blast+
qed

text \<open>The backward loop finds a subset that has the cost of its cell.\<close>

lemma coverItems_exact:
  assumes "coverItems need its best = (bf, rows)" and "length best = need + 1" and "0 < need"
    and "\<forall>(b, w) \<in> set its. 0 \<le> w" and "c \<le> need" and "bf ! c \<noteq> MaxInt64"
    and "L = coverBack need (rev (indexed k its rows)) c" and "c0 = backCell need (rev (indexed k its rows)) c"
  shows "distinct L \<and> c0 \<le> need \<and> best ! c0 \<noteq> MaxInt64 \<and> bf ! c = best ! c0 + selBytes (set L) k its
    \<and> min need (c0 + selBlocks (set L) k its) = c"
  using assms
proof (induction its arbitrary: best bf rows k L c0)
  case Nil
  then show ?case by (simp add: indexed_def)
next
  case (Cons it its)
  obtain b w where it: "it = (b, w)" by (cases it)
  obtain best1 took into where st: "coverItem need b w best = (best1, took, into)" using prod_cases3 by blast
  obtain rows' where rest: "coverItems need its best1 = (bf, rows')" and rows: "rows = (took, into) # rows'"
    using Cons.prems(1) by (auto simp: it st split: prod.splits)
  have w: "0 \<le> w" and ws: "\<forall>(b, w) \<in> set its. 0 \<le> w" using Cons.prems(4) by (auto simp: it)
  note f = coverItem_facts [OF Cons.prems(2,3) w st]
  define L1 where "L1 = coverBack need (rev (indexed (Suc k) its rows')) c"
  define c1 where "c1 = backCell need (rev (indexed (Suc k) its rows')) c"
  have IH: "distinct L1 \<and> c1 \<le> need \<and> best1 ! c1 \<noteq> MaxInt64 \<and> bf ! c = best1 ! c1 + selBytes (set L1) (Suc k) its
      \<and> min need (c1 + selBlocks (set L1) (Suc k) its) = c"
    by (rule Cons.IH [OF rest f(1) Cons.prems(3) ws Cons.prems(5,6) L1_def c1_def])
  have ix: "rev (indexed k (it # its) rows) = rev (indexed (Suc k) its rows') @ [(k, b, took, into)]"
    by (simp add: rows indexed_Cons it)
  have L: "L = (if took ! c1 then L1 @ [k] else L1)"
    and c0: "c0 = (if took ! c1 then (if c1 = need then into else c1 - b) else c1)"
    using Cons.prems(7,8) unfolding ix coverBack_append backCell_append L1_def [symmetric] c1_def [symmetric] by auto
  have fresh: "k \<notin> set L1" using coverBack_range [of k need "Suc k" its rows' c] coverItems_length [OF rest]
    by (auto simp: L1_def)
  show ?case
  proof (cases "took ! c1")
    case True
    note p = f(5) [OF _ True, unfolded Let_def]
    have "c0 \<le> need \<and> best ! c0 \<noteq> MaxInt64 \<and> best1 ! c1 = best ! c0 + w \<and> min need (c0 + b) = c1"
      using p IH True by (simp add: c0)
    moreover have "min need (c0 + (b + x)) = min need (min need (c0 + b) + x)" for x by (simp add: min_def)
    ultimately show ?thesis using IH True fresh by (simp add: L it sel_extra)
  next
    case False
    then show ?thesis using IH f(4) [OF _ False] fresh by (simp add: L c0 it)
  qed
qed

section \<open>Sums over chosen candidates\<close>

lemma sel_sums:
  "selBlocks S k its = (\<Sum>i<length its. if k + i \<in> S then fst (its ! i) else 0)"
  "selBytes S k its = (\<Sum>i<length its. if k + i \<in> S then snd (its ! i) else 0)"
  by (induction its arbitrary: k) (auto simp: sum.lessThan_Suc_shift simp del: sum.lessThan_Suc cong: if_cong)

lemma sum_chosen:
  fixes S :: "nat set"
  assumes "S \<subseteq> {..<n}"
  shows "(\<Sum>i<n. if i \<in> S then f i else 0) = (\<Sum>i\<in>S. f i)"
proof -
  have "{..<n} \<inter> S = S" using assms by blast
  then show ?thesis using sum.inter_restrict [OF finite_lessThan, where g = f and B = S and k1 = n] by simp
qed

text \<open>Capping each count at the need does not change which sets reach the need.\<close>

lemma capped_cover:
  fixes f :: "nat \<Rightarrow> int"
  assumes "finite S" and "0 < need"
  shows "need \<le> (\<Sum>i\<in>S. min (max (f i) 0) need) \<longleftrightarrow> need \<le> (\<Sum>i\<in>S. max (f i) 0)"
proof (cases "\<exists>i \<in> S. need \<le> f i")
  case True
  then obtain i where i: "i \<in> S" "need \<le> f i" by blast
  have "min (max (f i) 0) need \<le> (\<Sum>i\<in>S. min (max (f i) 0) need)"
    using assms i by (intro member_le_sum) auto
  moreover have "max (f i) 0 \<le> (\<Sum>i\<in>S. max (f i) 0)" using assms i by (intro member_le_sum) auto
  ultimately show ?thesis using i assms(2) by simp
next
  case False
  then have "(\<Sum>i\<in>S. min (max (f i) 0) need) = (\<Sum>i\<in>S. max (f i) 0)"
    using assms(2) by (intro sum.cong) auto
  then show ?thesis by simp
qed

definition cappedItems :: "int list \<Rightarrow> int list \<Rightarrow> int \<Rightarrow> (nat \<times> int) list" where
  "cappedItems inBlocks bytes need = zip (map (\<lambda>b. nat (min (max b 0) need)) inBlocks) bytes"

lemma capped_sums:
  assumes len: "length bytes = length inBlocks" and "0 < need" and S: "S \<subseteq> {..<length inBlocks}"
  shows "nat need \<le> selBlocks S 0 (cappedItems inBlocks bytes need) \<longleftrightarrow> need \<le> (\<Sum>i\<in>S. max (inBlocks ! i) 0)"
    and "selBytes S 0 (cappedItems inBlocks bytes need) = (\<Sum>i\<in>S. bytes ! i)"
proof -
  have fin: "finite S" using S finite_subset by blast
  have "int (selBlocks S 0 (cappedItems inBlocks bytes need)) = (\<Sum>i\<in>S. min (max (inBlocks ! i) 0) need)"
    unfolding sel_sums sum_chosen [OF S, symmetric] using len assms(2)
    by (auto simp: cappedItems_def int_sum intro!: sum.cong)
  then show "nat need \<le> selBlocks S 0 (cappedItems inBlocks bytes need) \<longleftrightarrow> need \<le> (\<Sum>i\<in>S. max (inBlocks ! i) 0)"
    using capped_cover [OF fin assms(2), of "\<lambda>i. inBlocks ! i"] by linarith
  show "selBytes S 0 (cappedItems inBlocks bytes need) = (\<Sum>i\<in>S. bytes ! i)"
    unfolding sel_sums sum_chosen [OF S, symmetric] using len by (auto simp: cappedItems_def intro!: sum.cong)
qed

lemma sum_list_sel: "sum_list (map fst its) = selBlocks {..<k + length its} k its"
  by (induction its arbitrary: k) (auto, metis add_Suc_right add_Suc)

lemma coverBack_cover:
  assumes run: "coverItems n its (0 # replicate n MaxInt64) = (bf, rows)" and n: "0 < n"
    and w: "\<forall>(b, w) \<in> set its. 0 \<le> w" and tot: "sum_list (map snd its) < MaxInt64"
    and enough: "n \<le> selBlocks {..<length its} 0 its"
    and L: "L = coverBack n (rev (indexed 0 its rows)) n"
  shows "distinct L" "set L \<subseteq> {..<length its}" "n \<le> selBlocks (set L) 0 its"
    "n \<le> selBlocks S 0 its \<Longrightarrow> selBytes (set L) 0 its \<le> selBytes S 0 its"
proof -
  let ?best = "0 # replicate n MaxInt64"
  have low: "bf ! min n (selBlocks S 0 its) \<le> selBytes S 0 its" for S
    using coverItems_lower [OF run _ n w, of 0 S 0] tot by simp
  have "bf ! n \<le> selBytes {..<length its} 0 its" using low [of "{..<length its}"] enough by (simp add: min_absorb1)
  then have "bf ! n \<noteq> MaxInt64" using selBytes_bounds(2) [OF w, of "{..<length its}" 0] tot by simp
  note e = coverItems_exact [OF run _ n w order_refl this L HOL.refl, simplified]
  define c0 where "c0 = backCell n (rev (indexed 0 its rows)) n"
  have "c0 = 0"
  proof (rule ccontr)
    assume "c0 \<noteq> 0"
    then have "?best ! c0 = MaxInt64" using e by (cases c0) (auto simp: c0_def [symmetric])
    then show False using e by (simp add: c0_def)
  qed
  then show "distinct L" "n \<le> selBlocks (set L) 0 its" using e by (auto simp: c0_def min_def split: if_splits)
  show "set L \<subseteq> {..<length its}"
    using coverBack_range [of _ n 0 its rows n] coverItems_length [OF run] by (auto simp: L)
  have "bf ! n = selBytes (set L) 0 its" using e \<open>c0 = 0\<close> by (simp add: c0_def)
  then show "n \<le> selBlocks S 0 its \<Longrightarrow> selBytes (set L) 0 its \<le> selBytes S 0 its"
    using low [of S] by (simp add: min_absorb1)
qed

lemma cheapestCover_correct:
  assumes len: "length bytes = length inBlocks" and nonneg: "\<forall>w \<in> set bytes. 0 \<le> w"
    and small: "sum_list bytes < MaxInt64" and run: "cheapestCover inBlocks bytes need = (cover, ok)"
  shows "(ok \<longleftrightarrow> need \<le> (\<Sum>i<length inBlocks. max (inBlocks ! i) 0))
    \<and> (ok \<longrightarrow> distinct cover \<and> set cover \<subseteq> {..<length inBlocks}
        \<and> need \<le> (\<Sum>i\<in>set cover. max (inBlocks ! i) 0)
        \<and> (\<forall>S \<subseteq> {..<length inBlocks}. need \<le> (\<Sum>i\<in>S. max (inBlocks ! i) 0)
             \<longrightarrow> (\<Sum>i\<in>set cover. bytes ! i) \<le> (\<Sum>i\<in>S. bytes ! i)))"
proof (cases "need \<le> 0")
  case True
  have "0 \<le> (\<Sum>i\<in>S. bytes ! i)" if "S \<subseteq> {..<length inBlocks}" for S
    using that nonneg len by (intro sum_nonneg) auto
  moreover have "0 \<le> (\<Sum>i<length inBlocks. max (inBlocks ! i) 0)" by (rule sum_nonneg) simp
  ultimately show ?thesis using True run by (auto simp: cheapestCover_def)
next
  case False
  then have pos: "0 < need" by simp
  define its where "its = cappedItems inBlocks bytes need"
  have li: "length its = length inBlocks" using len by (simp add: its_def cappedItems_def)
  have snds: "map snd its = bytes" "map fst its = map (\<lambda>b. nat (min (max b 0) need)) inBlocks"
    using len by (simp_all add: its_def cappedItems_def)
  have w: "\<forall>(b, w) \<in> set its. 0 \<le> w" using nonneg unfolding snds(1) [symmetric] by auto
  have all: "sum_list (map fst its) < nat need \<longleftrightarrow> \<not> need \<le> (\<Sum>i<length inBlocks. max (inBlocks ! i) 0)"
    using capped_sums(1) [OF len pos order_refl, folded its_def] sum_list_sel [of its 0] unfolding li by (simp only: add_0 not_le [symmetric])
  obtain bf rows where it: "coverItems (nat need) its (0 # replicate (nat need) MaxInt64) = (bf, rows)" by fastforce
  have co: "cheapestCover inBlocks bytes need = (if sum_list (map fst its) < nat need then ([], False)
      else (coverBack (nat need) (rev (indexed 0 its rows)) (nat need), True))"
    using False it unfolding snds(2) by (simp add: cheapestCover_def Let_def its_def cappedItems_def indexed_def len)
  show ?thesis
  proof (cases "sum_list (map fst its) < nat need")
    case True
    then show ?thesis using run co all by simp
  next
    case False
    then have ok: ok and c: "cover = coverBack (nat need) (rev (indexed 0 its rows)) (nat need)" using run co by auto
    have enough: "nat need \<le> selBlocks {..<length its} 0 its" using False sum_list_sel [of its 0] by simp
    note r = coverBack_cover [OF it _ w _ enough c]
    have sub: "set cover \<subseteq> {..<length inBlocks}" using r(2) pos small li by (simp add: snds)
    have opt: "(\<Sum>i\<in>set cover. bytes ! i) \<le> (\<Sum>i\<in>S. bytes ! i)"
      if "S \<subseteq> {..<length inBlocks}" "need \<le> (\<Sum>i\<in>S. max (inBlocks ! i) 0)" for S
      using r(4) [of S] that pos small capped_sums [OF len pos sub, folded its_def]
        capped_sums [OF len pos that(1), folded its_def] by (simp add: snds)
    show ?thesis
      using r(1,3) False all ok pos small sub opt capped_sums(1) [OF len pos sub, folded its_def]
      by (simp add: snds)
  qed
qed

section \<open>Properties\<close>

text \<open>C25: The choice of recovery volumes is feasible and optimal: cheapestCover reports failure exactly when
  all candidates together declare fewer blocks than needed; otherwise it returns distinct candidate
  indices whose blocks reach the need, and no other subset that reaches the need has fewer bytes.
  The byte counts are non-negative and their sum stays below the int64 maximum, which the table uses
  as its sentinel.\<close>

theorem cheapest_cover_optimal:
  assumes len: "length bytes = length inBlocks" and nonneg: "\<forall>w \<in> set bytes. 0 \<le> w"
    and small: "sum_list bytes < MaxInt64" and run: "cheapestCover inBlocks bytes need = (cover, ok)"
  shows "(ok \<longleftrightarrow> need \<le> (\<Sum>i<length inBlocks. max (inBlocks ! i) 0))
    \<and> (ok \<longrightarrow> distinct cover \<and> set cover \<subseteq> {..<length inBlocks}
        \<and> need \<le> (\<Sum>i\<in>set cover. max (inBlocks ! i) 0)
        \<and> (\<forall>S \<subseteq> {..<length inBlocks}. need \<le> (\<Sum>i\<in>S. max (inBlocks ! i) 0)
             \<longrightarrow> (\<Sum>i\<in>set cover. bytes ! i) \<le> (\<Sum>i\<in>S. bytes ! i)))"
  by (rule cheapestCover_correct [OF assms])

theorem cheapest_cover_optimal_witness:
  "cheapestCover [3, 1, 2, 2] [30, 5, 12, 11] 3 = ([3, 1], True)
   \<and> (\<Sum>i\<in>{3, 1}. [30, 5, 12, 11] ! i) \<le> (\<Sum>i\<in>{0}. [30, 5, 12, 11 :: int] ! i)"
proof -
  have run: "cheapestCover [3, 1, 2, 2] [30, 5, 12, 11] 3 = ([3, 1], True)" by code_simp
  have "\<forall>S \<subseteq> {..<4}. 3 \<le> (\<Sum>i\<in>S. max ([3, 1, 2, 2 :: int] ! i) 0) \<longrightarrow>
      (\<Sum>i\<in>{3, 1}. [30, 5, 12, 11] ! i) \<le> (\<Sum>i\<in>S. [30, 5, 12, 11 :: int] ! i)"
    using cheapest_cover_optimal [OF _ _ _ run] by (simp add: MaxInt64_def eval_nat_numeral)
  from this [rule_format, of "{0}"] run show ?thesis by simp
qed

end
