(* ===== verification/Release.thy ===== *)
theory Release
  imports Content_Inv Cover
begin

text \<open>
  Releasing recovery volumes (\<^verbatim>\<open>internal/job/release.go\<close>): the volumes held back are fetched when
  the content needs repair, as few bytes of them as cover the blocks needed. The optimum is the
  one of \<open>cheapestCover\<close>, carried over to the files of the job.
\<close>

record RecoverySizing =
  rz_need :: int
  rz_sized :: bool

definition NeedBlocks :: "int \<Rightarrow> RecoverySizing" where
  "NeedBlocks n = \<lparr>rz_need = max n 0, rz_sized = True\<rparr>"

definition Unsized :: RecoverySizing where
  "Unsized = \<lparr>rz_need = 0, rz_sized = False\<rparr>"

definition MaxPar2Slices :: int where
  "MaxPar2Slices = 32768"

definition maxCoverCells :: int where
  "maxCoverCells = 2 ^ 25"

definition onDiskVolumes :: "JobProgress \<Rightarrow> nat list" where
  "onDiskVolumes p = filter (\<lambda>i. fp_Complete (jp_files p ! i) \<and> fp_FailedBytes (jp_files p ! i) = 0) (prog_DeferredRecoveryIndices p)"

definition heldVolumes :: "JobProgress \<Rightarrow> nat list" where
  "heldVolumes p = filter (\<lambda>i. \<not> (fp_Complete (jp_files p ! i) \<and> fp_FailedBytes (jp_files p ! i) = 0)) (prog_DeferredRecoveryIndices p)"

text \<open>The held volumes whose names declare a block count.\<close>

definition countedVolumes :: "FileTable \<Rightarrow> nat list \<Rightarrow> nat list" where
  "countedVolumes ft held = filter (\<lambda>i. RecoveryVolumeBlocks (ft_Subject ft i) \<noteq> None) held"

definition blocksOf :: "FileTable \<Rightarrow> nat \<Rightarrow> int" where
  "blocksOf ft i = (case RecoveryVolumeBlocks (ft_Subject ft i) of Some n \<Rightarrow> int n | None \<Rightarrow> 0)"

definition chosenVolumes :: "FileTable \<Rightarrow> RecoverySizing \<Rightarrow> nat list \<Rightarrow> nat list" where
  "chosenVolumes ft s held =
     (if \<not> rz_sized s then held
      else
        (let idxs = countedVolumes ft held in
         if rz_need s \<le> MaxPar2Slices \<and> int (length idxs) * (rz_need s + 1) \<le> maxCoverCells
         then (case cheapestCover (map (blocksOf ft) idxs) (map (ft_Bytes ft) idxs) (rz_need s) of
                 (cover, ok) \<Rightarrow> if ok then map (\<lambda>k. idxs ! k) cover else held)
         else held))"

definition ReleaseRecovery :: "RecoverySizing \<Rightarrow> Content \<Rightarrow> Content \<times> (ContentError, nat) result" where
  "ReleaseRecovery s c =
     (case (ct_progress c, ct_fileTable c) of
        (None, _) \<Rightarrow> (c, Inl ErrNotResident)
      | (Some p, None) \<Rightarrow> (c, Inl NoFileTable)
      | (Some p, Some ft) \<Rightarrow>
          if Hopeless (repairStateLocked c) then (c, Inr 0)
          else
            (let held = chosenVolumes ft s (heldVolumes p);
                 p1 = undeferRecovery (onDiskVolumes p) p in
             (c\<lparr>ct_progress := Some (undeferRecovery held p1)\<rparr>, Inr (length held))))"

section \<open>Releasing keeps the invariant\<close>

lemma undeferOne_length: "length (jp_files (undeferOne fi p)) = length (jp_files p)"
  using setFileFetchPolicy_fields(8) [of fi p] by (auto simp: undeferOne_def)

lemma undeferRecovery_length: "length (jp_files (undeferRecovery fis p)) = length (jp_files p)"
  unfolding undeferRecovery_def by (induction fis arbitrary: p) (simp_all add: undeferOne_length)

lemma undeferRecovery_ok:
  "res_ok m p \<Longrightarrow> res_ok m (undeferRecovery fis p)" "prog_inv ft p \<Longrightarrow> prog_inv ft (undeferRecovery fis p)"
  unfolding undeferRecovery_def
  by (induction fis arbitrary: p)
    (auto simp: undeferOne_def not_le counted_setFileFetchPolicy prog_inv_setFileFetchPolicy)

lemma undeferOne_fetch:
  "i < length (jp_files p) \<Longrightarrow> fp_Fetch (jp_files (undeferOne fi p) ! i) =
     (if i = fi \<and> fp_Fetch (jp_files p ! i) = FetchIfNeeded then FetchAlways else fp_Fetch (jp_files p ! i))"
  using setFileFetchPolicy_fields(9,11) [of fi p _ FetchAlways] by (auto simp: undeferOne_def)

lemma undeferRecovery_fetch:
  "i < length (jp_files p) \<Longrightarrow> fp_Fetch (jp_files (undeferRecovery fis p) ! i) =
     (if i \<in> set fis \<and> fp_Fetch (jp_files p ! i) = FetchIfNeeded then FetchAlways else fp_Fetch (jp_files p ! i))"
  unfolding undeferRecovery_def
  by (induction fis arbitrary: p) (auto simp: undeferOne_length undeferOne_fetch)

lemma content_ok_ReleaseRecovery: "content_ok c \<Longrightarrow> content_ok (fst (ReleaseRecovery s c))"
  by (cases "ct_progress c"; cases "ct_fileTable c")
    (auto simp: ReleaseRecovery_def Let_def intro!: content_ok_put undeferRecovery_ok)

lemma discard_ok:
  defines "step \<equiv> \<lambda>q fi. if fp_Fetch (jp_files q ! fi) = FetchIfNeeded then setFileFetchPolicy fi FetchNever q else q"
  assumes "\<forall>fi \<in> set fis. fi < length (jp_files p)"
  shows "res_ok m p \<Longrightarrow> res_ok m (foldl step p fis)" "prog_inv ft p \<Longrightarrow> prog_inv ft (foldl step p fis)"
proof -
  have len: "fi < length (jp_files q) \<Longrightarrow> length (jp_files (step q fi)) = length (jp_files q)" for q fi
    using setFileFetchPolicy_fields(8) [of fi q] by (auto simp: step_def)
  have keep: "fi < length (jp_files q) \<Longrightarrow> res_ok m q \<Longrightarrow> res_ok m (step q fi)"
    "fi < length (jp_files q) \<Longrightarrow> prog_inv ft q \<Longrightarrow> prog_inv ft (step q fi)" for q fi
    by (simp_all add: step_def counted_setFileFetchPolicy prog_inv_setFileFetchPolicy)
  show "res_ok m p \<Longrightarrow> res_ok m (foldl step p fis)" using assms(2)
    by (induction fis arbitrary: p) (simp_all add: len keep)
  show "prog_inv ft p \<Longrightarrow> prog_inv ft (foldl step p fis)" using assms(2)
    by (induction fis arbitrary: p) (simp_all add: len keep)
qed

lemma content_ok_DiscardDeferredPar2: "content_ok c \<Longrightarrow> content_ok (fst (DiscardDeferredPar2 c))"
  unfolding DiscardDeferredPar2_def
  by (rule content_ok_door) (auto intro!: content_ok_put discard_ok)

section \<open>What is released\<close>

lemma volume_indices:
  "distinct (heldVolumes p)" "distinct (countedVolumes ft (heldVolumes p))"
  "i \<in> set (heldVolumes p) \<Longrightarrow> i < length (jp_files p) \<and> fp_Fetch (jp_files p ! i) = FetchIfNeeded \<and> i \<notin> set (onDiskVolumes p)"
  by (auto simp: heldVolumes_def onDiskVolumes_def countedVolumes_def prog_DeferredRecoveryIndices_def)

lemma cover_of_files:
  assumes d: "distinct idxs" and nonneg: "\<forall>i \<in> set idxs. 0 \<le> ft_Bytes ft i"
    and small: "sum_list (map (ft_Bytes ft) idxs) < MaxInt64"
    and run: "cheapestCover (map (blocksOf ft) idxs) (map (ft_Bytes ft) idxs) need = (cover, ok)"
    and sel: "sel = map (\<lambda>k. idxs ! k) cover"
  shows "ok \<longleftrightarrow> need \<le> (\<Sum>i\<in>set idxs. blocksOf ft i)"
    and "ok \<Longrightarrow> distinct sel \<and> set sel \<subseteq> set idxs \<and> need \<le> (\<Sum>i\<in>set sel. blocksOf ft i)
      \<and> (\<forall>S \<subseteq> set idxs. need \<le> (\<Sum>i\<in>S. blocksOf ft i) \<longrightarrow> (\<Sum>i\<in>set sel. ft_Bytes ft i) \<le> (\<Sum>i\<in>S. ft_Bytes ft i))"
proof -
  let ?n = "length idxs"
  have inj: "inj_on ((!) idxs) {..<?n}" using d by (simp add: inj_on_nth)
  have sums: "(\<Sum>k\<in>K. f (idxs ! k)) = (\<Sum>i\<in>(!) idxs ` K. f i)" if "K \<subseteq> {..<?n}" for K and f :: "nat \<Rightarrow> int"
    using sum.reindex [OF inj_on_subset [OF inj that], of f] by (simp add: comp_def)
  have nths: "(\<Sum>k\<in>K. max (map (blocksOf ft) idxs ! k) 0) = (\<Sum>i\<in>(!) idxs ` K. blocksOf ft i)"
    "(\<Sum>k\<in>K. map (ft_Bytes ft) idxs ! k) = (\<Sum>i\<in>(!) idxs ` K. ft_Bytes ft i)" if "K \<subseteq> {..<?n}" for K
  proof -
    have "max (map (blocksOf ft) idxs ! k) 0 = blocksOf ft (idxs ! k)" "map (ft_Bytes ft) idxs ! k = ft_Bytes ft (idxs ! k)"
      if "k \<in> K" for k using that \<open>K \<subseteq> {..<?n}\<close> by (auto simp: blocksOf_def split: option.split)
    then show "(\<Sum>k\<in>K. max (map (blocksOf ft) idxs ! k) 0) = (\<Sum>i\<in>(!) idxs ` K. blocksOf ft i)"
      "(\<Sum>k\<in>K. map (ft_Bytes ft) idxs ! k) = (\<Sum>i\<in>(!) idxs ` K. ft_Bytes ft i)"
      using sums [OF that, of "blocksOf ft"] sums [OF that, of "ft_Bytes ft"] by simp_all
  qed
  have all: "(!) idxs ` {..<?n} = set idxs" by (auto simp: set_conv_nth)
  have len: "length (map (ft_Bytes ft) idxs) = length (map (blocksOf ft) idxs)" and nn: "\<forall>w \<in> set (map (ft_Bytes ft) idxs). 0 \<le> w"
    using nonneg by simp_all
  note c = cheapestCover_correct [OF len nn small run, unfolded length_map]
  show "ok \<longleftrightarrow> need \<le> (\<Sum>i\<in>set idxs. blocksOf ft i)"
    using c [THEN conjunct1] nths(1) [OF order_refl] by (simp only: all)
  assume ok
  then have cov: "distinct cover" "set cover \<subseteq> {..<?n}"
    "need \<le> (\<Sum>k\<in>set cover. max (map (blocksOf ft) idxs ! k) 0)"
    "\<And>K. K \<subseteq> {..<?n} \<Longrightarrow> need \<le> (\<Sum>k\<in>K. max (map (blocksOf ft) idxs ! k) 0) \<Longrightarrow>
       (\<Sum>k\<in>set cover. map (ft_Bytes ft) idxs ! k) \<le> (\<Sum>k\<in>K. map (ft_Bytes ft) idxs ! k)"
    using c by blast+
  have set: "set sel = (!) idxs ` set cover" by (simp add: sel)
  have "(\<Sum>i\<in>set sel. ft_Bytes ft i) \<le> (\<Sum>i\<in>S. ft_Bytes ft i)"
    if "S \<subseteq> set idxs" "need \<le> (\<Sum>i\<in>S. blocksOf ft i)" for S
  proof -
    define K where "K = {k. k < ?n \<and> idxs ! k \<in> S}"
    have K: "K \<subseteq> {..<?n}" "(!) idxs ` K = S" using that(1) by (auto simp: K_def set_conv_nth image_iff subset_iff)
    show ?thesis using cov(4) [OF K(1)] that(2) unfolding nths [OF K(1)] nths [OF cov(2)] K(2) set by simp
  qed
  moreover have "distinct sel" unfolding sel using cov(1) inj_on_subset [OF inj cov(2)] by (simp add: distinct_map)
  moreover have "need \<le> (\<Sum>i\<in>set sel. blocksOf ft i)" using cov(3) unfolding nths [OF cov(2)] set .
  moreover have "set sel \<subseteq> set idxs" unfolding set using cov(2) by auto
  ultimately show "distinct sel \<and> set sel \<subseteq> set idxs \<and> need \<le> (\<Sum>i\<in>set sel. blocksOf ft i)
      \<and> (\<forall>S \<subseteq> set idxs. need \<le> (\<Sum>i\<in>S. blocksOf ft i) \<longrightarrow> (\<Sum>i\<in>set sel. ft_Bytes ft i) \<le> (\<Sum>i\<in>S. ft_Bytes ft i))"
    by blast
qed

section \<open>Properties\<close>

text \<open>C26: Releasing recovery fetches enough and no more than needed: when repair is not hopeless and n blocks
  are needed (within the limits the code sets for the table), then every deferred volume that is
  already on disk is freed to be used, whatever n is, and, with the held volumes being the other
  deferred ones, either their declared blocks reach n together, and then the released ones reach n and
  no other choice of counted volumes that reaches n has fewer bytes; or they do not, and then every held
  volume is released. The fetch policy of every other file of the job stays as it was. The count
  returned is the number of held volumes released.\<close>

theorem release_covers_need:
  assumes p: "ct_progress c = Some p" and ft: "ct_fileTable c = Some ft" and hope: "\<not> Hopeless (repairStateLocked c)"
    and lim: "max n 0 \<le> MaxPar2Slices" "int (length (countedVolumes ft (heldVolumes p))) * (max n 0 + 1) \<le> maxCoverCells"
    and nonneg: "\<forall>i \<in> set (countedVolumes ft (heldVolumes p)). 0 \<le> ft_Bytes ft i"
    and small: "sum_list (map (ft_Bytes ft) (countedVolumes ft (heldVolumes p))) < MaxInt64"
    and run: "ReleaseRecovery (NeedBlocks n) c = (c', r)"
  shows "\<exists>p'. ct_progress c' = Some p' \<and>
    (let counted = set (countedVolumes ft (heldVolumes p));
         released = {i \<in> set (heldVolumes p). fp_Fetch (jp_files p' ! i) = FetchAlways} in
     r = Inr (card released)
   \<and> length (jp_files p') = length (jp_files p)
   \<and> (\<forall>i < length (jp_files p). fp_Fetch (jp_files p' ! i) =
        (if i \<in> set (onDiskVolumes p) \<union> released then FetchAlways else fp_Fetch (jp_files p ! i)))
   \<and> (if n \<le> (\<Sum>i\<in>counted. blocksOf ft i)
      then released \<subseteq> counted \<and> n \<le> (\<Sum>i\<in>released. blocksOf ft i)
         \<and> (\<forall>S \<subseteq> counted. n \<le> (\<Sum>i\<in>S. blocksOf ft i) \<longrightarrow> (\<Sum>i\<in>released. ft_Bytes ft i) \<le> (\<Sum>i\<in>S. ft_Bytes ft i))
      else released = set (heldVolumes p)))"
proof -
  define held where "held = heldVolumes p"
  define idxs where "idxs = countedVolumes ft held"
  define sel where "sel = chosenVolumes ft (NeedBlocks n) held"
  define p' where "p' = undeferRecovery sel (undeferRecovery (onDiskVolumes p) p)"
  obtain cover ok where cov: "cheapestCover (map (blocksOf ft) idxs) (map (ft_Bytes ft) idxs) (max n 0) = (cover, ok)" by fastforce
  have sel: "sel = (if ok then map (\<lambda>k. idxs ! k) cover else held)"
    using lim cov by (simp add: sel_def chosenVolumes_def NeedBlocks_def idxs_def [symmetric] held_def [symmetric])
  have d: "distinct idxs" "distinct held" using volume_indices(1) [of p] volume_indices(2) [of ft p] by (simp_all add: idxs_def held_def)
  note nn = nonneg [folded held_def, folded idxs_def] and sm = small [folded held_def, folded idxs_def]
  note co = cover_of_files [OF d(1) nn sm cov HOL.refl]
  have bpos: "0 \<le> (\<Sum>i\<in>S. blocksOf ft i)" for S by (rule sum_nonneg) (simp add: blocksOf_def split: option.split)
  have nmax: "max n 0 \<le> (\<Sum>i\<in>S. blocksOf ft i) \<longleftrightarrow> n \<le> (\<Sum>i\<in>S. blocksOf ft i)" for S using bpos [of S] by auto
  have "set idxs \<subseteq> set held" by (auto simp: idxs_def countedVolumes_def)
  then have sub: "set sel \<subseteq> set held" "distinct sel" using co(2) d(2) by (auto simp: sel)
  have c': "ct_progress c' = Some p'" "r = Inr (length sel)"
    using run p ft hope by (auto simp: ReleaseRecovery_def Let_def p'_def sel_def held_def)
  have "fp_Fetch (jp_files p' ! i) = FetchAlways \<longleftrightarrow> i \<in> set sel" if "i \<in> set held" for i
    using volume_indices(3) [of i p] that
    by (simp add: p'_def undeferRecovery_length undeferRecovery_fetch held_def [symmetric])
  then have rel: "{i \<in> set held. fp_Fetch (jp_files p' ! i) = FetchAlways} = set sel" using sub(1) by blast
  have card: "card (set sel) = length sel" using sub(2) by (rule distinct_card)
  have sel_def': "fp_Fetch (jp_files p ! i) = FetchIfNeeded" if "i \<in> set (onDiskVolumes p) \<union> set sel" for i
    using that sub(1) volume_indices(3) [of i p] by (auto simp: onDiskVolumes_def prog_DeferredRecoveryIndices_def held_def)
  then have pol: "length (jp_files p') = length (jp_files p)" "\<forall>i < length (jp_files p). fp_Fetch (jp_files p' ! i) =
      (if i \<in> set (onDiskVolumes p) \<union> set sel then FetchAlways else fp_Fetch (jp_files p ! i))"
    by (auto simp: p'_def undeferRecovery_length undeferRecovery_fetch)
  show ?thesis
  proof (cases "n \<le> (\<Sum>i\<in>set idxs. blocksOf ft i)")
    case True
    then have ok: ok unfolding co(1) nmax .
    note c2 = co(2) [OF ok, folded sel [unfolded if_P [OF ok]], unfolded nmax]
    show ?thesis unfolding held_def [symmetric] idxs_def [symmetric] Let_def if_P [OF True]
      by (intro exI [of _ p']) (use c2 c' card pol in \<open>simp only: rel simp_thms\<close>, blast)
  next
    case False
    then have "\<not> ok" unfolding co(1) nmax .
    then have "sel = held" by (simp add: sel)
    then show ?thesis using False c' card pol unfolding held_def [symmetric] idxs_def [symmetric]
      by (intro exI [of _ p']) (simp add: Let_def rel)
  qed
qed

text \<open>A job with one held volume of two blocks and one of one block that is already on disk.\<close>

definition wTable :: FileTable where
  "wTable = \<lparr>ft_files = [\<lparr>fe_subject = ''.vol0+2.par2'', fe_bytes = 18, fe_articleCount = 1, fe_isPar2Recovery = True\<rparr>,
       \<lparr>fe_subject = ''.vol2+1.par2'', fe_bytes = 9, fe_articleCount = 1, fe_isPar2Recovery = True\<rparr>],
     ft_offsets = [0, 1, 2], ft_totalBytes = 27, ft_recoveryByteTotal = 27, ft_recoveryFileTotal = 2\<rparr>"

definition wProgress :: JobProgress where
  "wProgress = (newJobProgressSized [])\<lparr>jp_files :=
     [(newFileProgress \<lparr>fm_ArticleCount = 1, fm_Bytes = 18, fm_IsPar2 = True\<rparr>)\<lparr>fp_Fetch := FetchIfNeeded\<rparr>,
      (newFileProgress \<lparr>fm_ArticleCount = 1, fm_Bytes = 9, fm_IsPar2 = True\<rparr>)\<lparr>fp_Fetch := FetchIfNeeded, fp_Complete := True\<rparr>]\<rparr>"

definition wContent :: Content where
  "wContent = newContent\<lparr>ct_fileTable := Some wTable, ct_progress := Some wProgress, ct_recoveryBytes := 27\<rparr>"

lemma wContent_facts:
  "heldVolumes wProgress = [0]" "onDiskVolumes wProgress = [1]" "ft_Bytes wTable 0 = 18" "repairStateLocked wContent = RepairIntact"
  "length (jp_files wProgress) = 2"
  by (simp_all add: heldVolumes_def onDiskVolumes_def prog_DeferredRecoveryIndices_def wProgress_def newFileProgress_def ft_Bytes_def wTable_def
      repairStateLocked_def wContent_def prog_ContentFailedBytes_def RepairStateFrom_def upt_rec)

lemma wBlocks: "RecoveryVolumeBlocks ''.vol0+2.par2'' = Some 2"
  by (simp add: RecoveryVolumeBlocks_def volumeAt_def lower_def isDigit_def isAlnum_def nameEnd_def less_eq_char_def
      digits_value_def MaxVolumeBlocks_def)

lemma wCounted: "countedVolumes wTable [0] = [0]" "blocksOf wTable 0 = 2"
  by (simp_all add: countedVolumes_def blocksOf_def ft_Subject_def wTable_def wBlocks)

theorem release_covers_need_witness:
  "\<exists>c' p'. ReleaseRecovery (NeedBlocks 2) wContent = (c', Inr 1) \<and> ct_progress c' = Some p'
     \<and> fp_Fetch (jp_files p' ! 0) = FetchAlways \<and> fp_Fetch (jp_files p' ! 1) = FetchAlways"
proof -
  have c: "ct_progress wContent = Some wProgress" "ct_fileTable wContent = Some wTable" by (simp_all add: wContent_def)
  obtain c' r where run: "ReleaseRecovery (NeedBlocks 2) wContent = (c', r)" by fastforce
  have h: "\<not> Hopeless (repairStateLocked wContent)" by (simp add: wContent_facts Hopeless_def)
  have lim: "max 2 0 \<le> MaxPar2Slices"
    "int (length (countedVolumes wTable (heldVolumes wProgress))) * (max 2 0 + 1) \<le> maxCoverCells"
    "\<forall>i \<in> set (countedVolumes wTable (heldVolumes wProgress)). 0 \<le> ft_Bytes wTable i"
    "sum_list (map (ft_Bytes wTable) (countedVolumes wTable (heldVolumes wProgress))) < MaxInt64"
    by (simp_all add: wContent_facts wCounted MaxPar2Slices_def maxCoverCells_def MaxInt64_def)
  have enough: "2 \<le> (\<Sum>i\<in>set [0]. blocksOf wTable i)" by (simp add: wCounted)
  note spec = release_covers_need [OF c h lim run, unfolded wContent_facts wCounted Let_def if_P [OF enough]]
  from spec show ?thesis
  proof (elim exE conjE)
    fix p' :: JobProgress
    let ?rel = "{i \<in> set [0]. fp_Fetch (jp_files p' ! i) = FetchAlways}"
    assume p': "ct_progress c' = Some p'" and r: "r = Inr (card ?rel)" and two: "2 \<le> (\<Sum>i\<in>?rel. blocksOf wTable i)"
      and pol: "\<forall>i<2. fp_Fetch (jp_files p' ! i) = (if i \<in> set [1] \<union> ?rel then FetchAlways else fp_Fetch (jp_files wProgress ! i))"
    have f0: "fp_Fetch (jp_files p' ! 0) = FetchAlways"
    proof (rule ccontr)
      assume "fp_Fetch (jp_files p' ! 0) \<noteq> FetchAlways"
      then have "?rel = {}" by auto
      then show False using two by (simp only: sum.empty)
    qed
    have "?rel = {0}" using f0 by auto
    then have "r = Inr 1" using r by (simp only: card_1_singleton_iff) simp
    moreover have "fp_Fetch (jp_files p' ! 1) = FetchAlways" using pol [rule_format, of 1] by simp
    ultimately show ?thesis using run p' f0 by blast
  qed
qed

end
