(* ===== verification/Content_Steps.thy ===== *)
theory Content_Steps
  imports Release
begin

text \<open>
  Every way the content tier can change, as a step relation with one rule per door, and what holds
  in every reachable state: the bookkeeping is exact, no door hits its panic, the visit of
  unfinished articles misses none, and a checksum combined outside the lock is never installed
  stale.
\<close>

inductive content_step :: "Content \<Rightarrow> Content \<Rightarrow> bool" where
  attach_files: "content_step c (fst (AttachFiles (Some (newFileTable specs)) seed c))"
| attach_articles: "newManifest (newFileTable specs) articles = Some m \<Longrightarrow> content_step c (fst (AttachArticles (Some m) vs c))"
| evict: "content_step c (Evict c)"
| written: "content_step c (fst (MarkArticleWritten row c))"
| failed: "content_step c (fst (MarkArticleFailed artIdx charge c))"
| emitted: "content_step c (fst (MarkArticleEmitted artIdx c))"
| clear_emitted: "content_step c (fst (ClearArticleEmitted artIdx c))"
| complete: "content_step c (fst (MarkFileComplete fileIdx c))"
| policy: "content_step c (fst (SetFileFetchPolicy fileIdx pol c))"
| filename: "content_step c (fst (RecordFileFilename jobName fileIdx name file c))"
| renamed: "content_step c (fst (RecordFileRename a b c))"
| take_changes: "content_step c (fst (TakeFetchPolicyChanges c))"
| install: "content_step c (fst (InstallVerified fileIdx rows c))"
| verify: "content_step c (fst (installFileVerificationLocked v c))"
| settled: "content_step c (fst (installSettled fi snap crc ok c))"
| untrust: "content_step c (fst (UntrustFile fileIdx c))"
| reload: "content_step c (fst (fst (ClearEmittedForReload skip c)))"
| retry: "content_step c (fst (ResetForRetry c))"
| release: "content_step c (fst (ReleaseRecovery s c))"
| discard: "content_step c (fst (DiscardDeferredPar2 c))"
| early_abort: "content_step c (fst (CheckEarlyAbort c))"
| started: "content_step c (fst (MarkJobStarted t c))"
| finished: "content_step c (fst (MarkDownloadFinished t c))"
| unfinish: "content_step c (fst (ClearDownloadFinished c))"
| record_download: "content_step c (fst (RecordDownload srv n c))"
| reason: "content_step c (SetPar2ReleaseReason r c)"
| restore_state: "content_step c (RestoreProgressState r a b c)"

inductive content_reach :: "Content \<Rightarrow> bool" where
  new: "content_reach newContent"
| step: "content_reach c \<Longrightarrow> content_step c c' \<Longrightarrow> content_reach c'"

lemma content_ok_step: "content_step c c' \<Longrightarrow> content_ok c \<Longrightarrow> content_ok c'"
proof (induction rule: content_step.induct)
  case (attach_articles specs articles m c vs)
  then show ?case using AttachArticles_ok(1) newManifest_ok ft_ok_new by blast
next
  case (failed c artIdx charge)
  then show ?case by (simp add: MarkArticleFailed_def content_ok_markArticleFailed)
qed (simp_all add: content_ok_AttachFiles ft_ok_new Evict_def content_ok_manifest_None content_ok_MarkArticleWritten
    content_ok_MarkArticleEmitted content_ok_ClearArticleEmitted content_ok_MarkFileComplete content_ok_SetFileFetchPolicy
    content_ok_RecordFileFilename content_ok_RecordFileRename content_ok_TakeFetchPolicyChanges content_ok_InstallVerified
    installFileVerificationLocked_ok content_ok_installSettled UntrustFile_ok ClearEmittedForReload_ok ResetForRetry_ok
    content_ok_ReleaseRecovery content_ok_DiscardDeferredPar2 content_ok_CheckEarlyAbort content_ok_stamps
    content_ok_SetPar2ReleaseReason content_ok_RestoreProgressState)

lemma content_reach_ok: "content_reach c \<Longrightarrow> content_ok c"
  by (induction rule: content_reach.induct) (simp_all add: content_ok_step, simp add: content_ok_def newContent_def)

lemma reach_resident:
  assumes "content_reach c" and "ct_manifest c = Some m"
  obtains p where "ct_progress c = Some p" "res_ok m p"
proof -
  note ok = content_reach_ok [OF assms(1)]
  obtain p where p: "ct_progress c = Some p" using content_ok_none [OF ok] assms(2) by (cases "ct_progress c") auto
  show ?thesis by (rule that [OF p content_ok_res(1) [OF ok p assms(2)]])
qed

lemma res_ok_fixpoint: "res_ok m p \<Longrightarrow> recompute m p = Some p"
  using shape_ok(4,7) [OF res_okD(4)] res_okD(1,3) by (intro recompute_fixpoint) (auto simp: num_articles mf_NumFiles_def)

text \<open>A small resident job, for the witnesses.\<close>

definition xTable :: FileTable where
  "xTable = newFileTable [\<lparr>fs_Subject = ''a'', fs_Bytes = 5, fs_ArticleCount = 1\<rparr>]"

definition xManifest :: Manifest where
  "xManifest = \<lparr>mf_ft = xTable, mf_articleIDs = [''x@y''], mf_articleBytes = [5], mf_articleNumber = [1]\<rparr>"

definition xFiles :: Content where
  "xFiles = fst (AttachFiles (Some xTable) None newContent)"

definition xContent :: Content where
  "xContent = fst (AttachArticles (Some xManifest) [] xFiles)"

lemma xManifest_built:
  "newManifest (newFileTable [\<lparr>fs_Subject = ''a'', fs_Bytes = 5, fs_ArticleCount = 1\<rparr>]) [\<lparr>ja_ID = ''x@y'', ja_Bytes = 5, ja_Number = 1\<rparr>]
     = Some xManifest"
  by (simp add: newManifest_def ft_TotalArticles_new xManifest_def xTable_def)

lemma xFiles_reach: "content_reach xFiles"
  unfolding xFiles_def xTable_def by (rule content_reach.step [OF content_reach.new content_step.attach_files])

lemma xContent_reach: "content_reach xContent"
  unfolding xContent_def by (rule content_reach.step [OF xFiles_reach content_step.attach_articles [OF xManifest_built]])

lemma xContent_manifest: "ct_manifest xContent = Some xManifest"
proof -
  have t: "ct_fileTable xFiles = Some xTable" "ct_manifest xFiles = None"
    by (simp_all add: xFiles_def AttachFiles_def newContent_def Let_def)
  obtain p where p: "ct_progress xFiles = Some p" by (simp add: xFiles_def AttachFiles_def newContent_def Let_def)
  have m: "mf_ok xManifest" by (rule newManifest_ok [OF xManifest_built ft_ok_new])
  have "prog_inv xTable p" using content_ok_table [OF content_reach_ok [OF xFiles_reach] p] t by auto
  then obtain q where "recompute xManifest p = Some q"
    using recompute_total [OF prog_invD(1) _ m] by (auto simp: xManifest_def)
  then show ?thesis using p t by (simp add: xContent_def AttachArticles_def xManifest_def Let_def)
qed

lemma callUntil_all: "callUntil (\<lambda>x. True) xs = xs"
  by (induction xs) simp_all

lemma sumRange_zero:
  assumes "sumRange g lo hi = 0" and "\<And>i. 0 \<le> g i" and "lo \<le> i" and "i < hi"
  shows "g i = 0"
proof -
  have "\<forall>x \<in> set (map g [lo..<hi]). x = 0"
    using assms(1,2) sum_list_nonneg_eq_0_iff [of "map g [lo..<hi]"] by (fastforce simp: sumRange_def)
  then show ?thesis using assms(3,4) by simp
qed

lemma sumRange_nonneg: "(\<And>i. 0 \<le> g i) \<Longrightarrow> 0 \<le> sumRange g lo hi"
  unfolding sumRange_def by (rule sum_list_nonneg) auto

lemma pendingOf_nonneg: "0 \<le> pendingOf p fi"
  by (simp add: pendingOf_def case_prod_unfold Let_def sumRange_nonneg)

lemma concat_if: "concat (map (\<lambda>i. if P i then [f i] else []) xs) = map f (filter P xs)"
  by (induction xs) simp_all

lemma fileVisits_exact:
  assumes r: "res_ok m p" and fi: "fi < mf_NumFiles m"
  shows "fileVisits m p fi = map (visitOf m fi) (filter (\<lambda>i. \<not> fp_Complete (jp_files p ! fi) \<and> fp_Fetch (jp_files p ! fi) = FetchAlways
      \<and> \<not> doneAt p i \<and> \<not> emittedAt p i) [fst (FileRange m fi)..<snd (FileRange m fi)])"
proof (cases "fp_Pending (jp_files p ! fi) = 0 \<and> fp_Fetch (jp_files p ! fi) = FetchAlways")
  case True
  then have "pendingOf p fi = 0" using countedD(1) [OF res_okD(3) [OF r] fi] by simp
  then have "fileSum m (pendAt p) fi = 0"
    using True pendingOf_fileSum [OF res_okD(6) [OF r], of fi] by (simp add: countsPending_def)
  then have "pendAt p i = 0" if "i \<in> set [fst (FileRange m fi)..<snd (FileRange m fi)]" for i
    using that sumRange_zero [of "pendAt p"] by (simp add: fileSum_range pendAt_def)
  then have "filter (\<lambda>i. \<not> fp_Complete (jp_files p ! fi) \<and> fp_Fetch (jp_files p ! fi) = FetchAlways \<and> \<not> doneAt p i \<and> \<not> emittedAt p i)
      [fst (FileRange m fi)..<snd (FileRange m fi)] = []"
    unfolding pendAt_def filter_empty_conv by (metis one_neq_zero)
  then show ?thesis using True by (simp only: fileVisits_def Let_def) simp
next
  case False
  then show ?thesis by (auto simp: fileVisits_def case_prod_unfold Let_def)
qed

section \<open>Properties\<close>

text \<open>C22: The incremental bookkeeping is exact: in every state the doors can reach, while a manifest is
  attached, recomputing every counter from the article bits (pending, downloaded and failed bytes of
  each file, and the job's totals of pending, resolved and failed articles and failed bytes) changes
  nothing. So markEmitted, clearEmitted, markDone, markFailedUncovered and setFileFetchPolicy move
  exactly the figures they should, and every path that only writes bits is followed by a recompute.\<close>

theorem counters_equal_recompute:
  assumes "content_reach c" and "ct_manifest c = Some m"
  shows "\<exists>p. ct_progress c = Some p \<and> recompute m p = Some p"
  using reach_resident [OF assms] res_ok_fixpoint by metis

theorem counters_equal_recompute_witness:
  "\<exists>p. ct_progress xContent = Some p \<and> recompute xManifest p = Some p"
  by (rule counters_equal_recompute [OF xContent_reach xContent_manifest])

text \<open>The bits and rows agree at any residency: in every reachable state with progress, a failed article
  is done, an emitted one is not done, a limited charge belongs to a failed article, the pending total
  is the sum over the files, and the stored written rows of a file name distinct articles of that file,
  each of them done and with a valid range. This is what allows MarkArticleWritten to append a row
  without looking for an older one.\<close>

theorem rows_stand_for_done_articles:
  assumes "content_reach c" and "ct_progress c = Some p"
  shows "(failedAt p i \<longrightarrow> doneAt p i) \<and> (emittedAt p i \<longrightarrow> \<not> doneAt p i) \<and> (jp_failCharge p i \<noteq> None \<longrightarrow> failedAt p i)
    \<and> jp_pendingArticles p = sum_list (map fp_Pending (jp_files p))
    \<and> distinct (map wr_ArtIdx (rowsOf p fi))
    \<and> (\<forall>r \<in> set (rowsOf p fi). wr_FileIdx r = int fi \<and> 0 \<le> wr_ArtIdx r \<and> doneAt p (nat (wr_ArtIdx r)) \<and> HasValidShape r
         \<and> jp_fileStarts p ! fi \<le> nat (wr_ArtIdx r) \<and> nat (wr_ArtIdx r) < jp_fileStarts p ! Suc fi)"
proof -
  obtain ft where inv: "prog_inv ft p" by (rule content_ok_table [OF content_reach_ok [OF assms(1)] assms(2)])
  note d = prog_invD [OF inv]
  have "jp_pendingArticles p = sum_list (map fp_Pending (jp_files p))"
    using d(3) unfolding pending_sum_def sum_nth .
  moreover have "wr_FileIdx r = int fi \<and> 0 \<le> wr_ArtIdx r \<and> doneAt p (nat (wr_ArtIdx r)) \<and> HasValidShape r
      \<and> jp_fileStarts p ! fi \<le> nat (wr_ArtIdx r) \<and> nat (wr_ArtIdx r) < jp_fileStarts p ! Suc fi" if "r \<in> set (rowsOf p fi)" for r
    using rows_okD(2) [OF d(4) that] unfolding row_ok_def inFile_def by blast
  moreover have "(failedAt p i \<longrightarrow> doneAt p i) \<and> (emittedAt p i \<longrightarrow> \<not> doneAt p i) \<and> (jp_failCharge p i \<noteq> None \<longrightarrow> failedAt p i)"
    using d(2) unfolding bits_ok_def dom_def by blast
  ultimately show ?thesis using rows_okD(1) [OF d(4), of fi] by blast
qed

theorem rows_stand_for_done_articles_witness:
  "\<exists>p. ct_progress xContent = Some p \<and> jp_pendingArticles p = sum_list (map fp_Pending (jp_files p))"
proof -
  obtain p where p: "ct_progress xContent = Some p" by (rule reach_resident [OF xContent_reach xContent_manifest])
  then show ?thesis using rows_stand_for_done_articles [OF xContent_reach p, of 0 0] by blast
qed

text \<open>C28: No size-mismatch panic: from any reachable state, attaching articles built from any file table,
  untrusting a file, clearing for a reload and resetting for a retry never hit the panic of
  recompute.\<close>

theorem recompute_never_panics:
  assumes "content_reach c" and "newManifest (newFileTable specs) articles = Some m"
  shows "snd (AttachArticles (Some m) vs c) \<noteq> Inl SizeMismatchPanic \<and> snd (UntrustFile fileIdx c) \<noteq> Some SizeMismatchPanic
    \<and> snd (fst (ClearEmittedForReload skip c)) = None \<and> snd (ResetForRetry c) = None"
  using content_reach_ok [OF assms(1)] newManifest_ok [OF assms(2) ft_ok_new]
  by (simp add: AttachArticles_ok UntrustFile_ok ClearEmittedForReload_ok ResetForRetry_ok)

theorem recompute_never_panics_witness:
  "snd (AttachArticles (Some xManifest) [] xFiles) \<noteq> Inl SizeMismatchPanic \<and> snd (ResetForRetry xFiles) = None"
  using recompute_never_panics [OF xFiles_reach xManifest_built, of "[]" 0 True] by blast

text \<open>C27: The visit of unfinished articles is exact: in a reachable resident state ForEachUnfinishedArticle calls
  its function, in file and article order, on exactly the articles that are neither done nor emitted
  and belong to a file that is to be fetched and not complete, stopping after the first call that
  returns false. The shortcuts on the pending counters (of the job and of each file) skip nothing.\<close>

theorem unfinished_visit_exact:
  assumes "content_reach c" and "ct_manifest c = Some m" and p: "ct_progress c = Some p"
  shows "ForEachUnfinishedArticle fn c = Inr (callUntil fn
    [visitOf m fi i. fi \<leftarrow> [0..<mf_NumFiles m], i \<leftarrow> [fst (FileRange m fi)..<snd (FileRange m fi)],
       \<not> fp_Complete (jp_files p ! fi) \<and> fp_Fetch (jp_files p ! fi) = FetchAlways \<and> \<not> doneAt p i \<and> \<not> emittedAt p i])"
proof -
  obtain q where q: "ct_progress c = Some q" and r: "res_ok m q" by (rule reach_resident [OF assms(1,2)])
  have r: "res_ok m p" using q r p by simp
  define V where "V = (\<lambda>fi. map (visitOf m fi) (filter (\<lambda>i. \<not> fp_Complete (jp_files p ! fi) \<and> fp_Fetch (jp_files p ! fi) = FetchAlways
      \<and> \<not> doneAt p i \<and> \<not> emittedAt p i) [fst (FileRange m fi)..<snd (FileRange m fi)]))"
  have V: "fileVisits m p fi = V fi" if "fi < mf_NumFiles m" for fi unfolding V_def by (rule fileVisits_exact [OF r that])
  then have all: "map (fileVisits m p) [0..<mf_NumFiles m] = map V [0..<mf_NumFiles m]" by simp
  have none: "concat (map V [0..<mf_NumFiles m]) = []" if "jp_pendingArticles p = 0"
  proof -
    have "fp_Pending (jp_files p ! fi) = 0" if "fi < mf_NumFiles m" for fi
      using sumRange_zero [of "pendingOf p" 0 "mf_NumFiles m" fi] pendingOf_nonneg that \<open>jp_pendingArticles p = 0\<close>
        countedD(1,5) [OF res_okD(3) [OF r]] by simp
    then have "fileVisits m p fi = []" if "fi < mf_NumFiles m" for fi using that by (simp add: fileVisits_def)
    then show ?thesis unfolding all [symmetric] by simp
  qed
  have "ForEachUnfinishedArticle fn c = Inr (callUntil fn (concat (map V [0..<mf_NumFiles m])))"
  proof (cases "jp_pendingArticles p = 0")
    case True
    then show ?thesis unfolding none [OF True] using assms(2) p by (simp add: ForEachUnfinishedArticle_def)
  next
    case False
    then show ?thesis unfolding all [symmetric] using assms(2) p by (simp add: ForEachUnfinishedArticle_def)
  qed
  then show ?thesis unfolding V_def concat_if .
qed

theorem unfinished_visit_exact_witness:
  "\<exists>vs. ForEachUnfinishedArticle (\<lambda>v. True) xContent = Inr vs"
proof -
  obtain p where p: "ct_progress xContent = Some p" by (rule reach_resident [OF xContent_reach xContent_manifest])
  show ?thesis using unfinished_visit_exact [OF xContent_reach xContent_manifest p, of "\<lambda>v. True"] by blast
qed

end
