(* ===== verification/Settle.thy ===== *)
theory Settle
  imports Content_Steps "HOL-Library.Multiset"
begin

text \<open>
  Settling a file's checksum. A chain of rows that \<open>fileCRCFromRows\<close> accepts covers every article
  of the file once, and its result is the checksum of the bytes written. The combination runs
  outside the lock on a snapshot; while the stored slice is still the snapshot's, settling from the
  current state would give the same answer, whatever doors ran in between.
\<close>

section \<open>An accepted chain\<close>

lemma crcLoop_articles:
  assumes "crcLoop lo hi rows first seen crc end1 = (res, True)" and "length seen = hi - lo"
  shows "distinct (map wr_ArtIdx rows) \<and> (\<forall>r \<in> set rows. int lo \<le> wr_ArtIdx r \<and> wr_ArtIdx r < int hi \<and> \<not> seen ! nat (wr_ArtIdx r - int lo))"
  using assms
proof (induction lo hi rows first seen crc end1 rule: crcLoop.induct)
  case (2 lo hi r rs first seen crc end1)
  define a where "a = wr_ArtIdx r"
  have g: "\<not> (a < int lo \<or> int hi \<le> a \<or> seen ! nat (a - int lo) \<or> wr_Offset r \<noteq> end1)"
    using "2.prems"(1) by (auto simp: a_def Let_def split: if_splits)
  have k: "nat (a - int lo) < hi - lo" using g by linarith
  have IH: "distinct (map wr_ArtIdx rs) \<and> (\<forall>x \<in> set rs. int lo \<le> wr_ArtIdx x \<and> wr_ArtIdx x < int hi
      \<and> \<not> seen[nat (a - int lo) := True] ! nat (wr_ArtIdx x - int lo))"
    using "2.IH" [OF a_def g] "2.prems" g by (simp add: a_def Let_def)
  have ne: "wr_ArtIdx x \<noteq> a \<and> \<not> seen ! nat (wr_ArtIdx x - int lo)" if "x \<in> set rs" for x
    using IH that k "2.prems"(2) by (metis nth_list_update_eq nth_list_update_neq)
  then have "wr_ArtIdx r \<notin> set (map wr_ArtIdx rs)" unfolding a_def by force
  then show ?case using IH g ne by (simp add: a_def not_less)
qed simp

lemma crcLoop_sum:
  assumes "crcLoop lo hi rows first seen crc end1 = (res, True)" and "0 \<le> end1"
    and "\<forall>r \<in> set rows. 0 \<le> wr_Length r \<and> wr_Offset r + wr_Length r \<le> int (length data)
      \<and> wr_CRC32 r = ChecksumIEEE (take (nat (wr_Length r)) (drop (nat (wr_Offset r)) data))"
    and "if first then end1 = 0 \<and> rows \<noteq> [] else crc = ChecksumIEEE (take (nat end1) data)" and "end1 \<le> int (length data)"
  shows "res = ChecksumIEEE (take (nat (end1 + sum_list (map wr_Length rows))) data)"
  using assms
proof (induction lo hi rows first seen crc end1 rule: crcLoop.induct)
  case (2 lo hi r rs first seen crc end1)
  define a where "a = wr_ArtIdx r"
  have g: "\<not> (a < int lo \<or> int hi \<le> a \<or> seen ! nat (a - int lo) \<or> wr_Offset r \<noteq> end1)"
    using "2.prems"(1) by (auto simp: a_def Let_def split: if_splits)
  have r: "0 \<le> wr_Length r" "wr_Offset r + wr_Length r \<le> int (length data)" "wr_Offset r = end1"
    "wr_CRC32 r = ChecksumIEEE (take (nat (wr_Length r)) (drop (nat end1) data))"
    using "2.prems"(3) g by auto
  define crc' where "crc' = (if first then wr_CRC32 r else Combine crc (wr_CRC32 r) (wr_Length r))"
  have take: "take (nat (end1 + wr_Length r)) data = take (nat end1) data @ take (nat (wr_Length r)) (drop (nat end1) data)"
    using r(1) "2.prems"(2) by (simp add: nat_add_distrib take_add)
  have len: "int (length (take (nat (wr_Length r)) (drop (nat end1) data))) = wr_Length r"
    using r "2.prems"(2) by (simp add: min_def) linarith
  have crc': "crc' = ChecksumIEEE (take (nat (end1 + wr_Length r)) data)"
  proof (cases first)
    case True
    then show ?thesis using "2.prems"(4) r(4) by (simp add: crc'_def)
  next
    case False
    then have "crc' = Combine (ChecksumIEEE (take (nat end1) data)) (wr_CRC32 r) (wr_Length r)"
      using "2.prems"(4) by (simp add: crc'_def)
    then show ?thesis unfolding take r(4) using Combine_append len by metis
  qed
  have "res = ChecksumIEEE (take (nat (end1 + wr_Length r + sum_list (map wr_Length rs))) data)"
    using "2.IH" [OF a_def g] "2.prems" g r crc' by (simp add: a_def Let_def crc'_def)
  then show ?case by (simp add: add.assoc)
qed (auto split: if_splits)

section \<open>The stored slice\<close>

text \<open>Array identities in use are below the next one.\<close>

definition arr_ok :: "nat \<Rightarrow> JobProgress \<Rightarrow> bool" where
  "arr_ok fi p \<longleftrightarrow> (rowsOf p fi \<noteq> [] \<longrightarrow> rowArr p fi < jp_nextArr p)"

text \<open>
  What may happen to the slice of file \<open>fi\<close>: it is gone, it is in a newer array, or it is the old
  one, grown at the end, and the failed bits of its articles are as they were.
\<close>

definition slice_step :: "nat \<Rightarrow> JobProgress \<Rightarrow> JobProgress \<Rightarrow> bool" where
  "slice_step fi p q \<longleftrightarrow> (arr_ok fi p \<longrightarrow> arr_ok fi q) \<and> jp_nextArr p \<le> jp_nextArr q
     \<and> (rowsOf q fi = [] \<or> jp_nextArr p \<le> rowArr q fi
        \<or> rowsOf p fi \<noteq> [] \<and> rowArr q fi = rowArr p fi \<and> (\<exists>ext. rowsOf q fi = rowsOf p fi @ ext)
          \<and> (\<forall>r \<in> set (rowsOf p fi). failedAt q (nat (wr_ArtIdx r)) = failedAt p (nat (wr_ArtIdx r))))"

lemma slice_step_refl: "slice_step fi p p"
  by (auto simp: slice_step_def)

lemma slice_step_trans:
  assumes "slice_step fi p q" and "slice_step fi q r"
  shows "slice_step fi p r"
proof -
  have a: "arr_ok fi p \<longrightarrow> arr_ok fi r" "jp_nextArr p \<le> jp_nextArr q" "jp_nextArr q \<le> jp_nextArr r"
    using assms by (auto simp: slice_step_def)
  consider "rowsOf r fi = []" | "jp_nextArr q \<le> rowArr r fi"
    | ext where "rowsOf q fi \<noteq> []" "rowArr r fi = rowArr q fi" "rowsOf r fi = rowsOf q fi @ ext"
      "\<forall>x \<in> set (rowsOf q fi). failedAt r (nat (wr_ArtIdx x)) = failedAt q (nat (wr_ArtIdx x))"
    using assms(2) unfolding slice_step_def by blast
  then show ?thesis
  proof cases
    case 3
    consider "jp_nextArr p \<le> rowArr q fi"
      | ext' where "rowsOf p fi \<noteq> []" "rowArr q fi = rowArr p fi" "rowsOf q fi = rowsOf p fi @ ext'"
        "\<forall>x \<in> set (rowsOf p fi). failedAt q (nat (wr_ArtIdx x)) = failedAt p (nat (wr_ArtIdx x))"
      using assms(1) 3(1) unfolding slice_step_def by blast
    then show ?thesis
      by cases (use a 3 in \<open>auto simp: slice_step_def\<close>)
  qed (use a in \<open>auto simp: slice_step_def\<close>)
qed

lemma slice_same:
  assumes "jp_written q = jp_written p" and "jp_nextArr q = jp_nextArr p"
    and "\<And>r. r \<in> set (rowsOf p fi) \<Longrightarrow> failedAt q (nat (wr_ArtIdx r)) = failedAt p (nat (wr_ArtIdx r))"
  shows "slice_step fi p q"
proof -
  have "rowsOf q fi = rowsOf p fi" "rowArr q fi = rowArr p fi" using assms(1) by (simp_all add: rowsOf_def rowArr_def)
  then show ?thesis using assms(2,3) by (auto simp: slice_step_def arr_ok_def)
qed

lemma slice_fresh: "slice_step fi p (storeFresh fj rows p)"
proof (cases "fj = fi")
  case False
  then have "rowsOf (storeFresh fj rows p) fi = rowsOf p fi" by simp
  moreover have "rowArr (storeFresh fj rows p) fi = rowArr p fi" using False by (simp add: rowArr_def storeFresh_def)
  ultimately show ?thesis by (auto simp: slice_step_def arr_ok_def storeFresh_def)
qed (auto simp: slice_step_def arr_ok_def rowsOf_def rowArr_def storeFresh_def)

lemma slice_grown: "slice_step fi p (storeGrown fj (rowsOf p fj @ ext) p)"
proof (cases "rowsOf p fj = []")
  case True
  then show ?thesis using slice_fresh [of fi p fj ext] by (simp add: storeGrown_def)
next
  case False
  then have q: "storeGrown fj (rowsOf p fj @ ext) p = p\<lparr>jp_written := (jp_written p)(fj \<mapsto> \<lparr>rs_arr = rowArr p fj, rs_rows = rowsOf p fj @ ext\<rparr>)\<rparr>"
    by (simp add: storeGrown_def)
  show ?thesis unfolding q using False
    by (cases "fj = fi") (auto simp: slice_step_def arr_ok_def rowsOf_def rowArr_def)
qed

lemma slice_appendRow: "slice_step fi p (appendRow row p)"
  unfolding appendRow_def by (rule slice_grown)

lemma upsertLoop_copied: "snd (upsertLoop rows out True)"
  by (induction rows arbitrary: out) (auto split: option.split)

lemma upsertLoop_uncopied: "upsertLoop rows out c = (res, False) \<Longrightarrow> \<exists>ext. res = out @ ext"
proof (induction rows arbitrary: out c)
  case (Cons r rows)
  show ?case
  proof (cases "rowPos (wr_ArtIdx r) out")
    case None
    then show ?thesis using Cons.IH [of "out @ [r]" c] Cons.prems by auto
  next
    case (Some k)
    then have "snd (upsertLoop rows (out[k := r]) True) = False" using Cons.prems by simp
    then show ?thesis using upsertLoop_copied by blast
  qed
qed simp

lemma slice_upsertRows: "slice_step fi p (upsertRows fj rows p)"
proof (cases "rows = []")
  case False
  obtain out c where u: "upsertLoop rows (rowsOf p fj) False = (out, c)" by fastforce
  show ?thesis
  proof (cases c)
    case True
    then show ?thesis using False u slice_fresh by (simp add: upsertRows_def)
  next
    case False2: False
    then have "upsertLoop rows (rowsOf p fj) False = (out, False)" using u by simp
    then obtain ext where "out = rowsOf p fj @ ext" using upsertLoop_uncopied by blast
    then show ?thesis using False False2 u slice_grown by (simp add: upsertRows_def)
  qed
qed (simp add: upsertRows_def slice_step_refl)

lemma slice_deleteRows: "slice_step fi p (deleteRows fj p)"
  by (cases "fj = fi") (auto simp: slice_step_def arr_ok_def deleteRows_def rowsOf_def rowArr_def)

lemma slice_updFile: "slice_step fi p (updFile fj g p)"
  by (rule slice_same) simp_all

lemma slice_movePending: "slice_step fi p (movePending fj d p)"
  by (rule slice_same) simp_all

lemma slice_markDone: "slice_step fi p (fst (markDone m i p))"
  by (cases "doneAt p i") (simp add: markDone_def slice_step_refl, rule slice_same, simp_all add: markDone_fields)

text \<open>A failed bit is set on an article that is not done, and a stored row's article is done.\<close>

lemma slice_failMoved:
  assumes "prog_inv ft p" and "\<not> doneAt p i"
  shows "slice_step fi p (failMoved i u p)"
proof (rule slice_same)
  fix r assume "r \<in> set (rowsOf p fi)"
  then have "nat (wr_ArtIdx r) \<noteq> i"
    using rows_okD(2) [OF prog_invD(4) [OF assms(1)]] assms(2) unfolding row_ok_def by metis
  moreover have "failedAt (failMoved i u p) k = failedAt p k" if "k \<noteq> i" for k
    using that shape_ok(2) [OF prog_invD(1) [OF assms(1)]] by (simp add: failMoved_def bits.get_put)
  ultimately show "failedAt (failMoved i u p) (nat (wr_ArtIdx r)) = failedAt p (nat (wr_ArtIdx r))" by blast
qed (simp_all add: failMoved_def)

lemma slice_markFailedUncovered:
  assumes inv: "prog_inv ft p"
  shows "slice_step fi p (fst (markFailedUncovered m i u p))"
proof (cases "doneAt p i")
  case False
  note q = markFailedUncovered_fields [OF False HOL.refl HOL.refl HOL.refl HOL.refl, of m u]
  have "slice_step fi (failMoved i u p) (fst (markFailedUncovered m i u p))"
    by (rule slice_same) (simp_all add: q(2,6,7), simp_all add: failMoved_def)
  then show ?thesis by (rule slice_step_trans [OF slice_failMoved [OF inv False]])
qed (simp add: markFailedUncovered_def setFailedBits_def slice_step_refl)

text \<open>Clearing articles of one file leaves the others' slices, and replaces that file's if it had a
  row of a cleared article.\<close>

lemma slice_clearDone:
  assumes inv: "prog_inv ft p" and ft: "ft_ok ft" and arts: "\<And>i. i \<in> set arts \<Longrightarrow> inFile p fj i"
  shows "slice_step fi p (clearDone fj arts p)"
proof -
  define q where "q = foldl (\<lambda>q i. clearOne i q) p arts"
  note qf = clears_fields [of p arts, folded q_def]
  note ro = rows_okD(2) [OF prog_invD(4) [OF inv]]
  have rq: "rowsOf q = rowsOf p" "rowArr q = rowArr p" by (simp_all add: rowsOf_def rowArr_def qf fun_eq_iff)
  have fail: "failedAt q (nat (wr_ArtIdx r)) = failedAt p (nat (wr_ArtIdx r))" if "nat (wr_ArtIdx r) \<notin> set arts" for r
    using that shape_ok(2) [OF prog_invD(1) [OF inv]] unfolding qf(8) by (simp only: get_clears(1)) auto
  show ?thesis
  proof (cases "\<exists>r \<in> set (rowsOf p fj). wr_ArtIdx r \<in> int ` set arts")
    case True
    then have ne: "rowsOf q fj \<noteq> []" "arts \<noteq> []" by (auto simp: rq)
    then have c: "clearDone fj arts p = storeFresh fj (filter (\<lambda>r. wr_ArtIdx r \<notin> int ` set arts) (rowsOf q fj)) q"
      using True by (simp add: clearDone_def q_def [symmetric] dropRows_def Let_def rq)
    show ?thesis
    proof (cases "fi = fj")
      case True
      then show ?thesis unfolding c by (auto simp: slice_step_def arr_ok_def rowsOf_def rowArr_def storeFresh_def qf)
    next
      case False
      have "slice_step fi p q"
      proof (rule slice_same)
        fix r assume r: "r \<in> set (rowsOf p fi)"
        then have "nat (wr_ArtIdx r) \<notin> set arts"
          using ro [OF r] arts inFile_unique [OF ft prog_invD(1) [OF inv]] False by (auto simp: row_ok_def)
        then show "failedAt q (nat (wr_ArtIdx r)) = failedAt p (nat (wr_ArtIdx r))" by (rule fail)
      qed (simp_all add: qf)
      then show ?thesis unfolding c by (rule slice_step_trans [OF _ slice_fresh])
    qed
  next
    case False
    have c: "clearDone fj arts p = q"
      using False by (auto simp: clearDone_def q_def [symmetric] dropRows_def Let_def rq)
    show ?thesis unfolding c
    proof (rule slice_same)
      fix r assume r: "r \<in> set (rowsOf p fi)"
      have "nat (wr_ArtIdx r) \<notin> set arts"
      proof
        assume a: "nat (wr_ArtIdx r) \<in> set arts"
        then have "fi = fj" using ro [OF r] arts inFile_unique [OF ft prog_invD(1) [OF inv]] by (auto simp: row_ok_def)
        moreover have "wr_ArtIdx r = int (nat (wr_ArtIdx r))" using ro [OF r] by (simp add: row_ok_def)
        ultimately show False using False r a by blast
      qed
      then show "failedAt q (nat (wr_ArtIdx r)) = failedAt p (nat (wr_ArtIdx r))" by (rule fail)
    qed (simp_all add: qf)
  qed
qed

lemma slice_recompute: "recompute m p = Some q \<Longrightarrow> slice_step fi p q"
  by (rule slice_same) (simp_all add: recompute_fields)

lemma slice_setFileFetchPolicy: "fj < length (jp_files p) \<Longrightarrow> slice_step fi p (setFileFetchPolicy fj pol p)"
  by (rule slice_same) (simp_all add: setFileFetchPolicy_fields [OF _ HOL.refl])

lemma slice_storeSettled: "slice_step fi p (storeSettled fj crc ok p)"
  unfolding storeSettled_def by (rule slice_step_trans [OF slice_updFile slice_deleteRows])

lemma slice_settleFileCRC: "slice_step fi p (fst (settleFileCRC m fj p))"
  using settleFileCRC_fst [of m fj p] slice_storeSettled by (metis fst_conv)

lemma slice_installRows: "slice_step fi p (installRows m fj rows p)"
proof -
  have "slice_step fi p (foldl (\<lambda>q r. fst (markDone m (nat (wr_ArtIdx r)) q)) p rows)"
    by (induction rows arbitrary: p) (auto simp: slice_step_refl intro: slice_step_trans slice_markDone)
  then show ?thesis unfolding installRows_def by (rule slice_step_trans [OF _ slice_upsertRows])
qed

lemma slice_markFaileds:
  assumes "res_ok m p" and "\<forall>i \<in> set is. i < mf_NumArticles m"
  shows "slice_step fi p (foldl (\<lambda>q i. fst (markFailed m i q)) p is)"
  using assms
proof (induction "is" arbitrary: p)
  case (Cons i "is")
  have "slice_step fi p (fst (markFailed m i p))"
    unfolding markFailed_def by (rule slice_markFailedUncovered [OF res_okD(2) [OF Cons.prems(1)]])
  moreover have "res_ok m (fst (markFailed m i p))"
    unfolding markFailed_def using Cons.prems by (simp add: res_ok_markFailedUncovered)
  ultimately show ?case using Cons.IH Cons.prems(2) slice_step_trans by fastforce
qed (simp add: slice_step_refl)

lemma slice_installPlaced:
  assumes r: "res_ok m p" and fj: "nat (fv_FileIdx v) < mf_NumFiles m"
    and k: "\<forall>x \<in> set kept. placeRow m (int (nat (fv_FileIdx v))) x"
  shows "slice_step fi p (installPlaced m v kept p)"
proof -
  define i where "i = nat (fv_FileIdx v)"
  define p1 where "p1 = (if fv_Filename v \<noteq> [] then updFile i (\<lambda>f. f\<lparr>fp_Filename := fv_Filename v\<rparr>) p else p)"
  define p2 where "p2 = (if fv_RestorePolicy v then setFileFetchPolicy i (fv_Policy v) p1 else p1)"
  define p3 where "p3 = installRows m i kept p2"
  have r1: "res_ok m p1" unfolding p1_def using r by (auto intro!: res_ok_updFile)
  have i: "i < length (jp_files p1)" using shape_ok(7) [OF res_okD(4) [OF r1]] fj by (simp add: i_def mf_NumFiles_def)
  then have r2: "res_ok m p2" unfolding p2_def using r1 by (simp add: counted_setFileFetchPolicy)
  have r3: "res_ok m p3" unfolding p3_def by (rule res_ok_installRows [OF r2 k [folded i_def]])
  have s1: "slice_step fi p p1" unfolding p1_def by (simp add: slice_updFile slice_step_refl)
  have s2: "slice_step fi p1 p2" unfolding p2_def using i by (simp add: slice_setFileFetchPolicy slice_step_refl)
  have s3: "slice_step fi p p3" unfolding p3_def
    by (rule slice_step_trans [OF slice_step_trans [OF s1 s2] slice_installRows])
  have "slice_step fi p3 (foldl (\<lambda>q i. fst (markFailed m i q)) p3 [fst (FileRange m i)..<snd (FileRange m i)])"
    by (rule slice_markFaileds [OF r3 range_articles [OF res_okD(1) [OF r] fj [folded i_def]]])
  from slice_step_trans [OF slice_step_trans [OF s3 this] slice_updFile] s3
  have "slice_step fi p (if fv_Complete v then updFile i (\<lambda>f. f\<lparr>fp_Complete := True\<rparr>)
      (foldl (\<lambda>q i. fst (markFailed m i q)) p3 [fst (FileRange m i)..<snd (FileRange m i)]) else p3)" by simp
  then show ?thesis unfolding installPlaced_def Let_def case_prod_unfold i_def p1_def p2_def p3_def .
qed

lemma slice_finishVerification: "slice_step fi p (finishVerification m v p)"
proof -
  have "slice_step fi p (if b then fst (settleFileCRC m j p) else p)" for b j
    by (simp add: slice_settleFileCRC slice_step_refl)
  then show ?thesis unfolding finishVerification_def Let_def by (rule slice_step_trans [OF _ slice_updFile])
qed

lemma slice_markNotDones:
  assumes "prog_inv ft p" and "ft_ok ft" and "\<And>i. i \<in> set is \<Longrightarrow> inFile p fj i"
  shows "slice_step fi p (foldl (\<lambda>q i. fst (markNotDone fj i q)) p is)"
  using assms
proof (induction "is" arbitrary: p)
  case (Cons i "is")
  let ?q = "fst (markNotDone fj i p)"
  have s: "slice_step fi p ?q"
    using slice_clearDone [OF Cons.prems(1,2), of "[i]" fj fi] Cons.prems by (simp add: markNotDone_def slice_step_refl)
  have q: "prog_inv ft ?q"
    using prog_inv_clearDone [OF Cons.prems(1,2), of "[i]" fj] Cons.prems by (simp add: markNotDone_def)
  have "inFile ?q = inFile p" by (rule inFile_cong) (simp_all add: markNotDone_def clearDone_keeps)
  then show ?case using slice_step_trans [OF s Cons.IH [OF q Cons.prems(2)]] Cons.prems(3) by simp
qed (simp add: slice_step_refl)

lemma slice_resetForReload:
  assumes inv: "prog_inv ft p" and ft: "ft_ok ft" and fj: "fj < length (jp_files p)"
  shows "slice_step fi p (fst (resetForReload fj clear p))"
proof -
  obtain lo hi where lh: "fileRange p fj = (lo, hi)" by fastforce
  define p1 where "p1 = (if clear then p\<lparr>jp_emitted := foldl (\<lambda>b i. bs_Clear (int i) b) (jp_emitted p) [lo..<hi]\<rparr> else p)"
  define reset where "reset = (if fp_Complete (jp_files p ! fj) then [] else filter (failedAt p) [lo..<hi])"
  have q: "fst (resetForReload fj clear p) = clearDone fj reset p1"
    by (simp add: resetForReload_def lh p1_def reset_def Let_def)
  have "prog_inv ft (p\<lparr>jp_emitted := foldl (\<lambda>b i. bs_Clear (int i) b) (jp_emitted p) [lo..<hi]\<rparr>)"
    by (rule prog_inv_emitted [OF inv]) (use shape_ok(3) [OF prog_invD(1) [OF inv]] in \<open>simp_all add: get_clears\<close>)
  then have inv1: "prog_inv ft p1" using inv by (simp add: p1_def)
  have "slice_step fi p p1" by (rule slice_same) (simp_all add: p1_def)
  moreover have "slice_step fi p1 (clearDone fj reset p1)"
    by (rule slice_clearDone [OF inv1 ft]) (use lh fj in \<open>auto simp: reset_def inFile_def p1_def fileRange_def split: if_splits\<close>)
  ultimately show ?thesis unfolding q by (rule slice_step_trans)
qed

lemma slice_reloadFiles:
  assumes "prog_inv ft p" and "ft_ok ft" and "\<forall>fj \<in> set fis. fj < length (jp_files p)"
  shows "slice_step fi p (fst (reloadFiles fis clear p))"
  using assms
proof (induction fis arbitrary: p)
  case (Cons fj fis)
  have fj: "fj < length (jp_files p)" using Cons.prems(3) by simp
  note r = resetForReload_ok [OF Cons.prems(1,2) fj, of clear]
  have "slice_step fi (fst (resetForReload fj clear p)) (fst (reloadFiles fis clear (fst (resetForReload fj clear p))))"
    by (rule Cons.IH [OF r(1) Cons.prems(2)]) (use Cons.prems(3) r(2) in simp)
  then show ?case using slice_step_trans [OF slice_resetForReload [OF Cons.prems(1,2) fj]] by (simp add: Let_def case_prod_unfold)
qed (simp add: slice_step_refl)

lemma slice_retryFiles:
  assumes "prog_inv (mf_ft m) p" and "ft_ok (mf_ft m)" and "\<forall>fj \<in> set fis. fj < mf_NumFiles m"
  shows "slice_step fi p (foldl (\<lambda>q fj. retryFile m fj q) p fis)"
  using assms
proof (induction fis arbitrary: p)
  case (Cons fj fis)
  have fj: "fj < mf_NumFiles m" using Cons.prems(3) by simp
  have "slice_step fi p (clearDone fj (filter (failedAt p) [fst (FileRange m fj)..<snd (FileRange m fj)]) p)"
    by (rule slice_clearDone [OF Cons.prems(1,2) inFile_range [OF prog_invD(1) [OF Cons.prems(1)] fj]]) simp
  then have "slice_step fi p (retryFile m fj p)"
    unfolding retryFile_def case_prod_unfold Let_def by (auto intro: slice_step_trans slice_updFile)
  then show ?case using slice_step_trans [OF _ Cons.IH [OF retryFile_ok [OF Cons.prems(1,2) fj] Cons.prems(2)]] Cons.prems(3) by simp
qed (simp add: slice_step_refl)

lemma slice_undeferRecovery: "slice_step fi p (undeferRecovery fis p)"
  unfolding undeferRecovery_def
proof (induction fis arbitrary: p)
  case (Cons fj fis)
  have "slice_step fi p (undeferOne fj p)" by (simp add: undeferOne_def slice_setFileFetchPolicy slice_step_refl)
  then show ?case using slice_step_trans [OF _ Cons.IH] by simp
qed (simp add: slice_step_refl)

lemma slice_discards:
  assumes "\<forall>fj \<in> set fis. fj < length (jp_files p)"
  shows "slice_step fi p (foldl (\<lambda>q fj. if fp_Fetch (jp_files q ! fj) = FetchIfNeeded then setFileFetchPolicy fj FetchNever q else q) p fis)"
  using assms
proof (induction fis arbitrary: p)
  case (Cons fj fis)
  let ?q = "if fp_Fetch (jp_files p ! fj) = FetchIfNeeded then setFileFetchPolicy fj FetchNever p else p"
  have fj: "fj < length (jp_files p)" using Cons.prems by simp
  have "slice_step fi p ?q" using fj by (simp add: slice_setFileFetchPolicy slice_step_refl)
  moreover have "length (jp_files ?q) = length (jp_files p)" using setFileFetchPolicy_fields(8) [OF fj HOL.refl] by simp
  then have "slice_step fi ?q (foldl (\<lambda>q fj. if fp_Fetch (jp_files q ! fj) = FetchIfNeeded then setFileFetchPolicy fj FetchNever q else q) ?q fis)"
    using Cons.prems by (intro Cons.IH) simp
  ultimately show ?case unfolding foldl_Cons by (rule slice_step_trans)
qed (simp add: slice_step_refl)

section \<open>Across doors\<close>

definition keeps_slice :: "nat \<Rightarrow> Content \<Rightarrow> Content \<Rightarrow> bool" where
  "keeps_slice fi c c' \<longleftrightarrow>
     (\<forall>p. ct_progress c = Some p \<longrightarrow> ct_fileTable c' = ct_fileTable c \<and> (\<exists>q. ct_progress c' = Some q \<and> slice_step fi p q))"

lemma keeps_put: "ct_progress c = Some p \<Longrightarrow> slice_step fi p q \<Longrightarrow> keeps_slice fi c (c\<lparr>ct_progress := Some q\<rparr>)"
  by (simp add: keeps_slice_def)

lemma keeps_self: "ct_progress c' = ct_progress c \<Longrightarrow> ct_fileTable c' = ct_fileTable c \<Longrightarrow> keeps_slice fi c c'"
  by (simp add: keeps_slice_def slice_step_refl)

lemma keeps_refl: "keeps_slice fi c c"
  by (rule keeps_self) simp_all

lemma keeps_trans:
  assumes "keeps_slice fi c d" and "keeps_slice fi d e"
  shows "keeps_slice fi c e"
  using assms unfolding keeps_slice_def by (metis slice_step_trans)

lemma keeps_progress:
  "(\<And>p. slice_step fi p (f p)) \<Longrightarrow> keeps_slice fi c (fst (onProgress f c))"
  by (cases "ct_progress c") (simp_all add: onProgress_def keeps_slice_def)

lemma keeps_fields:
  "keeps_slice fi c (fst (MarkJobStarted t c))" "keeps_slice fi c (fst (MarkDownloadFinished t c))"
  "keeps_slice fi c (fst (ClearDownloadFinished c))" "keeps_slice fi c (fst (RecordDownload srv n c))"
  "keeps_slice fi c (SetPar2ReleaseReason r c)" "keeps_slice fi c (RestoreProgressState r a b c)"
  "keeps_slice fi c (fst (CheckEarlyAbort c))" "keeps_slice fi c (fst (TakeFetchPolicyChanges c))"
proof -
  have s: "slice_step fi p (p\<lparr>jp_par2ReleaseReason := r\<rparr>)" "slice_step fi p (p\<lparr>jp_earlyAborted := True\<rparr>)"
    "slice_step fi p (p\<lparr>jp_files := fs, jp_fetchChanges := 0\<rparr>)"
    "slice_step fi p ((restoreDownloadStamps a b p)\<lparr>jp_par2ReleaseReason := r\<rparr>)" for p r fs a b
    by (rule slice_same; simp add: restoreDownloadStamps_def clearDownloadStamps_def)+
  have t: "slice_step fi p (fst (setDownloadStartedOnce t p))" "slice_step fi p (fst (setDownloadFinishedOnce t p))"
    "slice_step fi p (clearDownloadFinished p)" "slice_step fi p (p\<lparr>jp_serverStats := st\<rparr>)" for p st
    by (rule slice_same; simp add: setDownloadStartedOnce_def setDownloadFinishedOnce_def clearDownloadFinished_def)+
  show "keeps_slice fi c (fst (MarkJobStarted t c))" "keeps_slice fi c (fst (MarkDownloadFinished t c))"
    "keeps_slice fi c (fst (ClearDownloadFinished c))" "keeps_slice fi c (fst (RecordDownload srv n c))"
    unfolding MarkJobStarted_def MarkDownloadFinished_def ClearDownloadFinished_def RecordDownload_def
    by (rule keeps_progress, rule t)+
  show "keeps_slice fi c (SetPar2ReleaseReason r c)"
    by (cases "ct_progress c") (simp_all add: SetPar2ReleaseReason_def keeps_slice_def s(1))
  show "keeps_slice fi c (RestoreProgressState r a b c)"
    by (cases "ct_progress c") (simp_all add: RestoreProgressState_def keeps_slice_def s(4))
  show "keeps_slice fi c (fst (CheckEarlyAbort c))"
    using keeps_put [OF _ s(2)] keeps_put [OF _ slice_step_refl]
    by (cases "ct_progress c") (auto simp: CheckEarlyAbort_def isEarlyAbort_def Let_def case_prod_unfold keeps_refl)
  show "keeps_slice fi c (fst (TakeFetchPolicyChanges c))"
    using keeps_put [OF _ s(3)] by (cases "ct_progress c") (auto simp: TakeFetchPolicyChanges_def keeps_refl Let_def)
qed

lemma keeps_both:
  assumes "\<And>m p. ct_manifest c = Some m \<Longrightarrow> ct_progress c = Some p \<Longrightarrow> keeps_slice fi c (fst (f m p))"
  shows "keeps_slice fi c (fst (case (ct_manifest c, ct_progress c) of (Some m, Some p) \<Rightarrow> f m p | _ \<Rightarrow> (c, e)))"
  using assms keeps_refl by (cases "ct_manifest c"; cases "ct_progress c") simp_all

lemma keeps_door:
  assumes "\<And>p. ct_progress c = Some p \<Longrightarrow> keeps_slice fi c (fst (f p))"
  shows "keeps_slice fi c (fst (case ct_progress c of None \<Rightarrow> (c, e) | Some p \<Rightarrow> f p))"
  using assms keeps_refl by (cases "ct_progress c") simp_all

lemma keeps_markArticleFailed:
  assumes ok: "content_ok c"
  shows "keeps_slice fi c (fst (markArticleFailed a u c))"
  unfolding markArticleFailed_def
proof (rule keeps_door)
  fix p assume p: "ct_progress c = Some p"
  obtain ft where inv: "prog_inv ft p" by (rule content_ok_table [OF ok p])
  have "slice_step fi p (case setFailedBits (nat a) p of (p1, ok) \<Rightarrow> if ok then limitCharge (nat a) u p1 else p1)"
    unfolding setFailedBits_limit using slice_failMoved [OF inv] by (simp add: slice_step_refl)
  then show "keeps_slice fi c (fst (if a < 0 \<or> bs_Len (jp_done p) \<le> a then (c, Some IndexOutOfRange)
      else case ct_manifest c of
        None \<Rightarrow> (case setFailedBits (nat a) p of
           (p1, ok) \<Rightarrow> (c\<lparr>ct_progress := Some (if ok then limitCharge (nat a) u p1 else p1)\<rparr>, None))
      | Some m \<Rightarrow> (c\<lparr>ct_progress := Some (fst (markFailedUncovered m (nat a) u p))\<rparr>, None)))"
    using keeps_put [OF p] slice_markFailedUncovered [OF inv] keeps_refl by (simp add: case_prod_unfold split: option.split)
qed

lemma keeps_small:
  assumes ok: "content_ok c"
  shows "keeps_slice fi c (fst (MarkArticleWritten row c))" "keeps_slice fi c (fst (MarkArticleFailed a u c))"
    "keeps_slice fi c (fst (MarkArticleEmitted a c))" "keeps_slice fi c (fst (ClearArticleEmitted a c))"
    "keeps_slice fi c (fst (MarkFileComplete f c))" "keeps_slice fi c (fst (SetFileFetchPolicy f pol c))"
    "keeps_slice fi c (fst (RecordFileFilename j f n x c))"
    "keeps_slice fi c (fst (InstallVerified f rows c))" "keeps_slice fi c (fst (installSettled g snap crc b c))"
proof -
  have aw: "slice_step fi p (appendRow row (fst (markDone m i p)))" "slice_step fi p (upsertRows g rs (fst (markDone m i p)))" for p m i g rs
    by (rule slice_step_trans [OF slice_markDone slice_appendRow], rule slice_step_trans [OF slice_markDone slice_upsertRows])
  have em: "slice_step fi p (p\<lparr>jp_emitted := b\<rparr>)" for p b by (rule slice_same) simp_all
  have mv: "slice_step fi p (movePending g d (p\<lparr>jp_emitted := b\<rparr>))" for p g d b
    by (rule slice_step_trans [OF em slice_movePending])
  have mw: "keeps_slice fi c (fst (case markDone m i p of (p1, True) \<Rightarrow> (c\<lparr>ct_progress := Some (appendRow row p1)\<rparr>, None :: ContentError option)
      | (p1, False) \<Rightarrow> (c\<lparr>ct_progress := Some (upsertRows g [row] p1)\<rparr>, None)))" if p: "ct_progress c = Some p" for m i p g
    using keeps_put [OF p aw(1), of m i] keeps_put [OF p aw(2), of g "[row]" m i]
    by (cases "markDone m i p"; cases "snd (markDone m i p)") simp_all
  show "keeps_slice fi c (fst (MarkArticleWritten row c))"
    unfolding MarkArticleWritten_def
    by (rule keeps_both) (simp add: keeps_refl mw)
  show "keeps_slice fi c (fst (MarkArticleFailed a u c))"
    by (simp add: MarkArticleFailed_def keeps_refl keeps_markArticleFailed [OF ok])
  show "keeps_slice fi c (fst (MarkArticleEmitted a c))"
    unfolding MarkArticleEmitted_def by (rule keeps_both) (auto simp: keeps_refl markEmitted_def slice_step_refl mv intro!: keeps_put)
  show "keeps_slice fi c (fst (ClearArticleEmitted a c))"
    unfolding ClearArticleEmitted_def
    by (rule keeps_door) (auto simp: keeps_refl clearEmitted_def slice_step_refl mv em intro!: keeps_put split: option.split)
  show "keeps_slice fi c (fst (MarkFileComplete f c))" "keeps_slice fi c (fst (SetFileFetchPolicy f pol c))"
    unfolding MarkFileComplete_def SetFileFetchPolicy_def
    by (rule keeps_door; auto simp: keeps_refl slice_updFile not_le nat_less_iff intro!: keeps_put slice_setFileFetchPolicy)+
  show "keeps_slice fi c (fst (RecordFileFilename j f n x c))"
    by (cases "j = n"; cases "ct_progress c") (auto simp: RecordFileFilename_def keeps_refl slice_updFile intro!: keeps_put)
  show "keeps_slice fi c (fst (InstallVerified f rows c))"
    unfolding InstallVerified_def
    by (rule keeps_both) (auto simp: keeps_refl slice_installRows intro!: keeps_put split: sum.split prod.split)
  show "keeps_slice fi c (fst (installSettled g snap crc b c))"
    unfolding installSettled_def
    by (rule keeps_both) (use slice_settleFileCRC in \<open>auto simp: slice_storeSettled case_prod_unfold Let_def intro!: keeps_put\<close>)
qed

lemma keeps_recomputed:
  assumes "ct_progress c = Some p" and "slice_step fi p q"
  shows "keeps_slice fi c (fst (case recompute m q of None \<Rightarrow> (c\<lparr>ct_progress := Some q\<rparr>, e) | Some r \<Rightarrow> (c\<lparr>ct_progress := Some r\<rparr>, d)))"
  using keeps_put [OF assms] keeps_put [OF assms(1) slice_step_trans [OF assms(2) slice_recompute]]
  by (cases "recompute m q") simp_all

lemma keeps_RecordFileRename: "keeps_slice fi c (fst (RecordFileRename a b c))"
proof (cases "a = b \<or> \<not> isSinglePathComponent a \<or> \<not> isSinglePathComponent b")
  case False
  have s: "slice_step fi p (setChanged fj (updFile fj g p))" for p fj g
    by (rule slice_same) (simp_all add: setChanged_def)
  show ?thesis unfolding RecordFileRename_def if_not_P [OF False]
    by (rule keeps_door) (simp add: keeps_refl keeps_put [OF _ s] split: list.split)
qed (simp add: RecordFileRename_def keeps_refl)

lemma keeps_UntrustFile:
  assumes ok: "content_ok c"
  shows "keeps_slice fi c (fst (UntrustFile fileIdx c))"
  unfolding UntrustFile_def
proof (rule keeps_both)
  fix m p assume m: "ct_manifest c = Some m" and p: "ct_progress c = Some p"
  note r = content_ok_res(1) [OF ok p m]
  have ft: "ft_ok (mf_ft m)" using res_okD(1) [OF r] by (simp add: mf_ok_def)
  have s: "slice_step fi p (updFile i g (foldl (\<lambda>q k. fst (markNotDone i k q)) (deleteRows i p) [fst (FileRange m i)..<snd (FileRange m i)]))"
    if i: "i < mf_NumFiles m" for i g
  proof -
    note d = prog_inv_deleteRows [OF res_okD(2) [OF r], of i]
    have "slice_step fi (deleteRows i p) (foldl (\<lambda>q k. fst (markNotDone i k q)) (deleteRows i p) [fst (FileRange m i)..<snd (FileRange m i)])"
      by (rule slice_markNotDones [OF d ft inFile_range [OF prog_invD(1) [OF d] i]])
    then show ?thesis using slice_step_trans [OF slice_deleteRows] slice_step_trans [OF _ slice_updFile] by blast
  qed
  show "keeps_slice fi c (fst (if fileIdx < 0 \<or> int (mf_NumFiles m) \<le> fileIdx then (c, Some IndexOutOfRange)
      else let fi = nat fileIdx; (lo, hi) = FileRange m fi;
             p1 = foldl (\<lambda>q i. fst (markNotDone fi i q)) (deleteRows fi p) [lo..<hi];
             p2 = updFile fi (\<lambda>f. f\<lparr>fp_Complete := False, fp_AssembledCRC32 := 0\<rparr>) p1 in
           case recompute m p2 of None \<Rightarrow> (c\<lparr>ct_progress := Some p2\<rparr>, Some SizeMismatchPanic)
           | Some p3 \<Rightarrow> (c\<lparr>ct_progress := Some p3\<rparr>, None)))"
    unfolding Let_def case_prod_unfold
    by (cases "fileIdx < 0 \<or> int (mf_NumFiles m) \<le> fileIdx")
      (simp add: keeps_refl, subst if_not_P, assumption, rule keeps_recomputed [OF p s], linarith)
qed

lemma keeps_ClearEmittedForReload:
  assumes ok: "content_ok c"
  shows "keeps_slice fi c (fst (fst (ClearEmittedForReload skip c)))"
proof (cases "ct_progress c")
  case (Some p)
  obtain ft where ft: "ft_ok ft" "prog_inv ft p" by (rule content_ok_table [OF ok Some])
  define q where "q = fst (reloadFiles [0..<length (jp_files p)] (\<not> skip) p)"
  have s: "slice_step fi p q" unfolding q_def by (rule slice_reloadFiles [OF ft(2,1)]) simp
  have "keeps_slice fi c (c\<lparr>ct_progress := Some q\<rparr>)" by (rule keeps_put [OF Some s])
  moreover have "keeps_slice fi c (c\<lparr>ct_progress := Some r\<rparr>)" if "recompute m q = Some r" for m r
    by (rule keeps_put [OF Some slice_step_trans [OF s slice_recompute [OF that]]])
  ultimately show ?thesis using Some
    by (auto simp: ClearEmittedForReload_def Let_def case_prod_unfold q_def [symmetric] split: option.split)
qed (simp add: ClearEmittedForReload_def keeps_refl)

lemma keeps_ResetForRetry:
  assumes ok: "content_ok c"
  shows "keeps_slice fi c (fst (ResetForRetry c))"
  unfolding ResetForRetry_def
proof (rule keeps_both)
  fix m p assume m: "ct_manifest c = Some m" and p: "ct_progress c = Some p"
  note r = content_ok_res(1) [OF ok p m]
  let ?p1 = "clearDownloadStamps (p\<lparr>jp_earlyAborted := False, jp_par2ReleaseReason := []\<rparr>)"
  have s: "slice_step fi p ?p1" by (rule slice_same) (simp_all add: clearDownloadStamps_def)
  have "prog_inv (mf_ft m) ?p1" by (rule prog_inv_cong [OF res_okD(2) [OF r]]) (simp_all add: clearDownloadStamps_def)
  then have "slice_step fi ?p1 (foldl (\<lambda>q fi. retryFile m fi q) ?p1 [0..<mf_NumFiles m])"
    using res_okD(1) [OF r] by (intro slice_retryFiles) (simp_all add: mf_ok_def)
  from keeps_recomputed [OF p slice_step_trans [OF s this]]
  show "keeps_slice fi c (fst (let p1 = ?p1; p2 = foldl (\<lambda>q fi. retryFile m fi q) p1 [0..<mf_NumFiles m] in
      case recompute m p2 of None \<Rightarrow> (c\<lparr>ct_progress := Some p2\<rparr>, Some SizeMismatchPanic)
      | Some p3 \<Rightarrow> (c\<lparr>ct_progress := Some p3\<rparr>, None)))"
    unfolding Let_def .
qed

lemma keeps_recovery:
  "keeps_slice fi c (fst (ReleaseRecovery s c))" "keeps_slice fi c (fst (DiscardDeferredPar2 c))"
proof -
  show "keeps_slice fi c (fst (ReleaseRecovery s c))"
    using keeps_put [OF _ slice_step_trans [OF slice_undeferRecovery slice_undeferRecovery]]
    by (cases "ct_progress c"; cases "ct_fileTable c") (simp_all add: ReleaseRecovery_def Let_def keeps_refl)
  show "keeps_slice fi c (fst (DiscardDeferredPar2 c))"
    unfolding DiscardDeferredPar2_def
    by (rule keeps_door) (simp add: keeps_put slice_discards)
qed

lemma keeps_markFaileds:
  assumes "content_ok c"
  shows "keeps_slice fi c (foldl (\<lambda>d a. fst (markArticleFailed a u d)) c as)"
  using assms
proof (induction as arbitrary: c)
  case (Cons a as)
  show ?case
    using keeps_trans [OF keeps_markArticleFailed [OF Cons.prems] Cons.IH [OF content_ok_markArticleFailed [OF Cons.prems]]] by simp
qed (simp add: keeps_refl)

lemma keeps_verify:
  assumes ok: "content_ok c"
  shows "keeps_slice fi c (fst (installFileVerificationLocked v c))"
proof (cases "\<exists>m p. ct_manifest c = Some m \<and> ct_progress c = Some p \<and> 0 \<le> fv_FileIdx v \<and> fv_FileIdx v < int (mf_NumFiles m)")
  case True
  then obtain m p where m: "ct_manifest c = Some m" and p: "ct_progress c = Some p"
    and f: "0 \<le> fv_FileIdx v" "fv_FileIdx v < int (mf_NumFiles m)" by blast
  define kept where "kept = filter (placeRow m (fv_FileIdx v)) (fv_Rows v)"
  define c1 where "c1 = c\<lparr>ct_progress := Some (installPlaced m v kept p)\<rparr>"
  define c2 where "c2 = foldl (\<lambda>d a. fst (markArticleFailed a WholeArticle d)) c1 (fv_Failed v)"
  have k: "\<forall>x \<in> set kept. placeRow m (int (nat (fv_FileIdx v))) x" "nat (fv_FileIdx v) < mf_NumFiles m"
    using f by (auto simp: kept_def)
  note r = content_ok_res(1) [OF ok p m]
  have 1: "keeps_slice fi c c1" unfolding c1_def by (rule keeps_put [OF p slice_installPlaced [OF r k(2,1)]])
  have "content_ok c1" unfolding c1_def by (rule content_ok_put_res [OF ok p m res_ok_installPlaced [OF r k(2,1)]])
  then have 2: "keeps_slice fi c1 c2" unfolding c2_def by (rule keeps_markFaileds)
  have 3: "keeps_slice fi c2 (c2\<lparr>ct_progress := map_option (finishVerification m v) (ct_progress c2)\<rparr>)"
    by (simp add: keeps_slice_def slice_finishVerification)
  from keeps_trans [OF keeps_trans [OF 1 2] 3] show ?thesis using m p f
    by (simp add: installFileVerificationLocked_def placeRows_def kept_def [symmetric] c1_def [symmetric] c2_def [symmetric] Let_def)
qed (auto simp: installFileVerificationLocked_def placeRows_def keeps_refl split: option.splits)

lemma keeps_installAll:
  assumes "content_ok c"
  shows "keeps_slice fi c (fst (installAll vs c))"
  using assms
proof (induction vs arbitrary: c)
  case (Cons v vs)
  show ?case
    using keeps_trans [OF keeps_verify [OF Cons.prems] Cons.IH [OF installFileVerificationLocked_ok [OF Cons.prems]]]
    by (simp add: case_prod_unfold Let_def)
qed (simp add: keeps_refl)

lemma keeps_AttachArticles:
  assumes ok: "content_ok c" and m: "mf_ok m"
  shows "keeps_slice fi c (fst (AttachArticles (Some m) vs c))"
proof (cases "ct_fileTable c = Some (mf_ft m) \<and> ct_manifest c = None")
  case True
  then obtain p where p: "ct_progress c = Some p" using ok by (auto simp: content_ok_def split: option.splits)
  have inv: "prog_inv (mf_ft m) p" using content_ok_table [OF ok p] True by auto
  obtain q where q: "recompute m p = Some q" using recompute_total [OF prog_invD(1) [OF inv] HOL.refl m] by blast
  let ?c1 = "c\<lparr>ct_progress := Some q, ct_manifest := Some m\<rparr>"
  have "res_ok m q" by (rule prog_inv_recompute [OF inv m q])
  then have "content_ok ?c1" using True m by (auto simp: content_ok_def res_ok_def mf_ok_def)
  moreover have "keeps_slice fi c ?c1" using p slice_recompute [OF q] by (simp add: keeps_slice_def)
  ultimately show ?thesis using True p q keeps_trans keeps_installAll by (simp add: AttachArticles_def Let_def case_prod_unfold)
qed (auto simp: AttachArticles_def keeps_refl split: option.splits)

lemma keeps_step: "content_step c c' \<Longrightarrow> content_ok c \<Longrightarrow> keeps_slice fi c c'"
proof (induction rule: content_step.induct)
  case (attach_files c specs seed)
  then show ?case by (auto simp: AttachFiles_def keeps_slice_def slice_step_refl)
next
  case (attach_articles specs articles m c vs)
  then show ?case using keeps_AttachArticles newManifest_ok ft_ok_new by blast
next
  case (evict c)
  show ?case by (rule keeps_self) (simp_all add: Evict_def)
qed (simp_all add: keeps_small keeps_fields keeps_RecordFileRename keeps_verify keeps_UntrustFile keeps_ClearEmittedForReload
    keeps_ResetForRetry keeps_recovery)

lemma keeps_steps: "content_step\<^sup>*\<^sup>* c c' \<Longrightarrow> content_ok c \<Longrightarrow> keeps_slice fi c c' \<and> content_ok c'"
  by (induction rule: rtranclp_induct) (auto intro: keeps_refl keeps_trans keeps_step content_ok_step)

section \<open>Reachable slices\<close>

lemma rows_seedFiles: "fi + length ss \<le> length (jp_files p) \<Longrightarrow> jp_written (seedFiles fi ss p) = jp_written p"
  by (induction fi ss p rule: seedFiles.induct) (simp_all add: setFileFetchPolicy_fields [OF _ HOL.refl])

lemma rows_newJobProgress:
  assumes "\<And>ss. seed = Some ss \<Longrightarrow> length ss = ft_NumFiles ft"
  shows "rowsOf (newJobProgress ft seed) fi = []"
proof -
  have n: "rowsOf (newJobProgressSized fs) fi = []" "length (jp_files (newJobProgressSized fs)) = length fs" for fs
    by (simp_all add: newJobProgressSized_def rowsOf_def Let_def)
  have "jp_written (newJobProgress ft seed) = jp_written (newJobProgressSized (fileMetaFromTable ft))"
    using assms by (cases seed) (simp_all add: newJobProgress_def Let_def rows_seedFiles n(2) fileMetaFromTable_def)
  then show ?thesis using n(1) by (simp add: rowsOf_def)
qed

lemma rows_AttachFiles:
  assumes "ct_progress c = None" and "ct_progress (fst (AttachFiles (Some ft) seed c)) = Some p"
  shows "rowsOf p fi = []"
proof -
  have n: "(case seed of None \<Rightarrow> False | Some s \<Rightarrow> length s \<noteq> ft_NumFiles ft) = False"
    "p = (restoreDownloadStamps (ct_restoredDLStarted c) (ct_restoredDLFinished c) (newJobProgress ft seed))\<lparr>jp_par2ReleaseReason := ct_restoredPar2Reason c\<rparr>"
    using assms by (auto simp: AttachFiles_def Let_def split: if_splits)
  have "rowsOf (newJobProgress ft seed) fi = []" by (rule rows_newJobProgress) (use n(1) in auto)
  then show ?thesis by (simp add: n(2) rowsOf_def restoreDownloadStamps_def clearDownloadStamps_def)
qed

lemma first_rows:
  assumes "content_step c c'" and "content_ok c" and "ct_progress c = None" and "ct_progress c' = Some p"
  shows "rowsOf p fi = []"
  using assms
proof (induction rule: content_step.induct)
  case (attach_files c specs seed)
  then show ?case using rows_AttachFiles by blast
next
  case (attach_articles specs articles m c vs)
  then show ?case using content_ok_none by (auto simp: AttachArticles_def)
qed (simp_all add: Evict_def MarkArticleWritten_def MarkArticleFailed_def markArticleFailed_def MarkArticleEmitted_def
    ClearArticleEmitted_def MarkFileComplete_def SetFileFetchPolicy_def RecordFileFilename_def RecordFileRename_def
    TakeFetchPolicyChanges_def InstallVerified_def installFileVerificationLocked_def installSettled_def UntrustFile_def
    ClearEmittedForReload_def ResetForRetry_def ReleaseRecovery_def DiscardDeferredPar2_def CheckEarlyAbort_def
    MarkJobStarted_def MarkDownloadFinished_def ClearDownloadFinished_def RecordDownload_def onProgress_def
    SetPar2ReleaseReason_def RestoreProgressState_def split: option.splits if_splits)

lemma reach_arr: "content_reach c \<Longrightarrow> ct_progress c = Some p \<Longrightarrow> arr_ok fi p"
proof (induction arbitrary: p rule: content_reach.induct)
  case (step c c')
  note ok = content_reach_ok [OF step.hyps(1)]
  show ?case
  proof (cases "ct_progress c")
    case None
    then show ?thesis using first_rows [OF step.hyps(2) ok None step.prems] by (simp add: arr_ok_def)
  next
    case (Some q)
    then show ?thesis using keeps_step [OF step.hyps(2) ok, of fi] step.IH step.prems by (auto simp: keeps_slice_def slice_step_def)
  qed
qed (simp add: newContent_def)

section \<open>The two settling claims\<close>

lemma crcLoop_rejects: "\<not> snd (crcLoop lo hi rows first seen crc e) \<Longrightarrow> crcLoop lo hi rows first seen crc e = (0, False)"
  by (induction lo hi rows first seen crc e rule: crcLoop.induct) (auto simp: Let_def)

lemma set_sortedClone: "set (sortedClone rows) = set rows" "length (sortedClone rows) = length rows"
  by (simp_all add: sortedClone_def)

lemma sum_sortedClone: "sum_list (map wr_Length (sortedClone rows)) = sum_list (map wr_Length rows)"
proof -
  have "mset (map wr_Length (sortedClone rows)) = mset (map wr_Length rows)" by (metis mset_map mset_sort sortedClone_def)
  then show ?thesis by (metis sum_mset_sum_list)
qed

lemma accepted_articles:
  assumes "fileCRCFromRows rows failed lo hi = (crc, True)"
  shows "\<not> failed" "lo < hi" "distinct (map wr_ArtIdx rows)" "wr_ArtIdx ` set rows = {int lo..<int hi}"
proof -
  have l: "\<not> failed" "lo < hi" "length rows = hi - lo"
    and cl: "crcLoop lo hi rows True (replicate (hi - lo) False) 0 0 = (crc, True)"
    using assms by (auto simp: fileCRCFromRows_def split: if_splits)
  note a = crcLoop_articles [OF cl]
  have sub: "wr_ArtIdx ` set rows \<subseteq> {int lo..<int hi}" using a by auto
  have "card (wr_ArtIdx ` set rows) = hi - lo" using distinct_card [of "map wr_ArtIdx rows"] a l(3) by simp
  then have "wr_ArtIdx ` set rows = {int lo..<int hi}" using card_subset_eq [OF _ sub] l(2) by simp
  then show "\<not> failed" "lo < hi" "distinct (map wr_ArtIdx rows)" "wr_ArtIdx ` set rows = {int lo..<int hi}" using l a by simp_all
qed

text \<open>While the rows of a chain are the same and the failed bits of their articles too, the answer is the same.\<close>

lemma fileCRC_same_rows:
  assumes "\<And>r. r \<in> set rows \<Longrightarrow> failedAt p (nat (wr_ArtIdx r)) = failedAt q (nat (wr_ArtIdx r))"
  shows "fileCRCFromRows rows (anyFailed p lo hi) lo hi = fileCRCFromRows rows (anyFailed q lo hi) lo hi"
proof (cases "snd (fileCRCFromRows rows False lo hi)")
  case True
  have "anyFailed p lo hi = anyFailed q lo hi"
  proof -
    have img: "wr_ArtIdx ` set rows = {int lo..<int hi}"
      using accepted_articles(4) [of rows False lo hi] True by (metis prod.collapse)
    have "failedAt p i = failedAt q i" if "lo \<le> i" "i < hi" for i
    proof -
      have "int i \<in> wr_ArtIdx ` set rows" using img that by simp
      then obtain r where "r \<in> set rows" "wr_ArtIdx r = int i" by force
      then show ?thesis using assms by (metis nat_int)
    qed
    then show ?thesis by (auto simp: anyFailed_def)
  qed
  then show ?thesis by simp
next
  case False
  then have "fileCRCFromRows rows b lo hi = (0, False)" for b
    using crcLoop_rejects by (auto simp: fileCRCFromRows_def split: if_splits)
  then show ?thesis by simp
qed

text \<open>The row of the small job's only article, holding one byte.\<close>

definition xRow :: WrittenRow where
  "xRow = \<lparr>wr_FileIdx = 0, wr_ArtIdx = 0, wr_Offset = 0, wr_Length = 1, wr_CRC32 = ChecksumIEEE [7]\<rparr>"

lemma xRange: "FileRange xManifest 0 = (0, 1)"
  by (simp add: FileRange_def ft_Range_def xManifest_def xTable_def newFileTable_def)

lemma xSettles:
  assumes "p = appendRow xRow (newJobProgress xTable None)"
  shows "settleFileCRC xManifest 0 p = (storeSettled 0 (ChecksumIEEE [7]) True p, ChecksumIEEE [7], True)"
    and "rowsOf p 0 = [xRow]" and "0 < length (jp_files p)"
proof -
  let ?q = "newJobProgress xTable None"
  have q: "jp_failed ?q = newBitset 1" "length (jp_files ?q) = 1"
    by (simp_all add: newJobProgress_def newJobProgressSized_def fileMetaFromTable_def Let_def xTable_def newFileTable_def
        ft_NumFiles_def ft_ArticleCount_def newEntry_def)
  have p: "jp_failed p = newBitset 1" "length (jp_files p) = 1" unfolding assms appendRow_def storeGrown_def storeFresh_def using q by simp_all
  show rows: "rowsOf p 0 = [xRow]"
    using rows_newJobProgress [of None xTable 0] by (simp add: assms appendRow_def storeGrown_def storeFresh_def rowsOf_def xRow_def)
  show "0 < length (jp_files p)" using p by simp
  have "\<not> anyFailed p 0 1" by (simp add: anyFailed_def p new_bitset)
  then show "settleFileCRC xManifest 0 p = (storeSettled 0 (ChecksumIEEE [7]) True p, ChecksumIEEE [7], True)"
    by (simp add: settleFileCRC_def xRange rows sortedClone_def fileCRCFromRows_def Let_def) (simp add: xRow_def)
qed

text \<open>C24: A settled checksum is the file's: when settling file fi from its stored rows succeeds, no article of
  the file has failed, the rows name every article of the file exactly once, and the checksum equals
  the CRC-32 of the file's first n bytes, n being the sum of the rows' lengths, provided each row
  carries the CRC-32 of the bytes it says it wrote. The progress then stores that checksum and no
  row of the file.\<close>

theorem settled_crc_is_file_crc:
  assumes s: "settleFileCRC m fi p = (p', crc, True)" and fi: "fi < length (jp_files p)"
    and rows: "\<forall>r \<in> set (rowsOf p fi). 0 \<le> wr_Length r \<and> wr_Offset r + wr_Length r \<le> int (length data)
      \<and> wr_CRC32 r = ChecksumIEEE (take (nat (wr_Length r)) (drop (nat (wr_Offset r)) data))"
  shows "\<not> anyFailed p (fst (FileRange m fi)) (snd (FileRange m fi))
    \<and> distinct (map wr_ArtIdx (rowsOf p fi))
    \<and> wr_ArtIdx ` set (rowsOf p fi) = {int (fst (FileRange m fi))..<int (snd (FileRange m fi))}
    \<and> crc = ChecksumIEEE (take (nat (sum_list (map wr_Length (rowsOf p fi)))) data)
    \<and> fp_AssembledCRC32 (jp_files p' ! fi) = crc \<and> rowsOf p' fi = []"
proof -
  obtain lo hi where lh: "FileRange m fi = (lo, hi)" by fastforce
  let ?rs = "sortedClone (rowsOf p fi)"
  have f: "fileCRCFromRows ?rs (anyFailed p lo hi) lo hi = (crc, True)" and p': "p' = storeSettled fi crc True p"
    using s by (auto simp: settleFileCRC_def lh split: prod.splits)
  note a = accepted_articles [OF f]
  have cl: "crcLoop lo hi ?rs True (replicate (hi - lo) False) 0 0 = (crc, True)" "?rs \<noteq> []"
    using f by (auto simp: fileCRCFromRows_def split: if_splits)
  have "crc = ChecksumIEEE (take (nat (0 + sum_list (map wr_Length ?rs))) data)"
    by (rule crcLoop_sum [OF cl(1)]) (use rows cl(2) in \<open>simp_all add: set_sortedClone\<close>)
  moreover have "distinct (map wr_ArtIdx (rowsOf p fi))"
    using a(3) by (metis distinct_map mset_eq_imp_distinct_iff mset_sort sortedClone_def set_sortedClone(1))
  moreover have "fp_AssembledCRC32 (jp_files p' ! fi) = crc" "rowsOf p' fi = []"
    using fi by (simp_all add: p' storeSettled_def deleteRows_def rowsOf_def updFile_def)
  ultimately show ?thesis using a by (simp add: lh set_sortedClone sum_sortedClone)
qed

theorem settled_crc_is_file_crc_witness:
  "\<exists>(p :: JobProgress) p'. settleFileCRC xManifest 0 p = (p', ChecksumIEEE [7], True)
    \<and> fp_AssembledCRC32 (jp_files p' ! 0) = ChecksumIEEE (take 1 [7, 9]) \<and> rowsOf p' 0 = []"
proof -
  define p where "p = appendRow xRow (newJobProgress xTable None)"
  note s = xSettles [OF p_def]
  have "\<forall>r \<in> set (rowsOf p 0). 0 \<le> wr_Length r \<and> wr_Offset r + wr_Length r \<le> int (length [7, 9 :: 8 word])
      \<and> wr_CRC32 r = ChecksumIEEE (take (nat (wr_Length r)) (drop (nat (wr_Offset r)) [7, 9]))"
    by (simp add: s(2) xRow_def)
  from settled_crc_is_file_crc [OF s(1,3) this]
  have "fp_AssembledCRC32 (jp_files (storeSettled 0 (ChecksumIEEE [7]) True p) ! 0) = ChecksumIEEE [7]"
    and "rowsOf (storeSettled 0 (ChecksumIEEE [7]) True p) 0 = []" by blast+
  then show ?thesis using s(1) by auto
qed

text \<open>C23: A checksum combined outside the lock is never installed stale: after the snapshot of file fileIdx was
  taken in a reachable state, any number of content doors may run, also doors that reload, retry or
  untrust the file. If the job is then still resident, installing the combined snapshot leaves
  exactly the state, and returns exactly the answer, of settling the file from its current rows.\<close>

theorem stale_combine_never_installed:
  assumes r0: "content_reach c0" and snap: "settleInputs fileIdx c0 = Inr snap" and steps: "content_step\<^sup>*\<^sup>* c0 c"
    and m: "ct_manifest c = Some m" and p: "ct_progress c = Some p"
    and comb: "combineSnapshot snap = (combined, combinedOK)"
  shows "installSettled (nat fileIdx) snap combined combinedOK c
    = (let (p1, crc, ok) = settleFileCRC m (nat fileIdx) p in (c\<lparr>ct_progress := Some p1\<rparr>, Inr (crc, ok)))"
proof (cases "sameSlice p (nat fileIdx) snap")
  case False
  then show ?thesis by (simp add: installSettled_def m p)
next
  case True
  define fi where "fi = nat fileIdx"
  obtain m0 p0 where m0: "ct_manifest c0 = Some m0" and p0: "ct_progress c0 = Some p0"
    using snap by (auto simp: settleInputs_def split: option.splits)
  obtain lo hi where lh: "FileRange m0 fi = (lo, hi)" by fastforce
  have sn: "snap = \<lparr>sn_arr = rowArr p0 fi, sn_rows = rowsOf p0 fi, sn_failed = anyFailed p0 lo hi, sn_lo = lo, sn_hi = hi\<rparr>"
    using snap m0 p0 lh by (auto simp: settleInputs_def fi_def Let_def split: if_splits)
  note ok0 = content_reach_ok [OF r0]
  note k = keeps_steps [OF steps ok0, of fi]
  have st: "slice_step fi p0 p" and tab: "ct_fileTable c = ct_fileTable c0" using k p0 p by (auto simp: keeps_slice_def)
  have "mf_ft m = mf_ft m0" using content_ok_res(2) [OF ok0 p0 m0] content_ok_res(2) [OF conjunct2 [OF k] p m] tab by simp
  then have lh': "FileRange m fi = (lo, hi)" using lh by (simp add: FileRange_def)
  have same: "length (rowsOf p fi) = length (rowsOf p0 fi)" "rowsOf p fi = [] \<or> rowArr p fi = rowArr p0 fi"
    using True by (simp_all add: sameSlice_def sn fi_def)
  have rows: "rowsOf p fi = rowsOf p0 fi \<and> (\<forall>r \<in> set (rowsOf p0 fi). failedAt p (nat (wr_ArtIdx r)) = failedAt p0 (nat (wr_ArtIdx r)))"
    using st same reach_arr [OF r0 p0, of fi] by (auto simp: slice_step_def arr_ok_def)
  have "fileCRCFromRows (sortedClone (rowsOf p fi)) (anyFailed p lo hi) lo hi
      = fileCRCFromRows (sortedClone (rowsOf p0 fi)) (anyFailed p0 lo hi) lo hi"
    using rows fileCRC_same_rows [of "sortedClone (rowsOf p0 fi)" p p0] by (simp add: set_sortedClone)
  also have "\<dots> = (combined, combinedOK)" using comb by (simp add: combineSnapshot_def sn)
  finally show ?thesis using True m p lh' by (simp add: installSettled_def settleFileCRC_def fi_def)
qed

theorem stale_combine_never_installed_witness:
  "\<exists>snap p1 crc ok. settleInputs 0 xContent = Inr snap
    \<and> installSettled 0 snap (fst (combineSnapshot snap)) (snd (combineSnapshot snap)) (fst (MarkArticleWritten xRow xContent))
      = ((fst (MarkArticleWritten xRow xContent))\<lparr>ct_progress := Some p1\<rparr>, Inr (crc, ok))"
proof -
  let ?c = "fst (MarkArticleWritten xRow xContent)"
  obtain p where p: "ct_progress xContent = Some p" by (rule reach_resident [OF xContent_reach xContent_manifest])
  have "0 < mf_NumFiles xManifest" by (simp add: mf_NumFiles_def xManifest_def xTable_def newFileTable_def ft_NumFiles_def)
  then obtain snap where snap: "settleInputs 0 xContent = Inr snap"
    by (simp add: settleInputs_def xContent_manifest p xRange Let_def)
  have step: "content_step\<^sup>*\<^sup>* xContent ?c" by (rule r_into_rtranclp [of content_step, OF content_step.written])
  have m: "ct_manifest ?c = Some xManifest" using xContent_manifest p
    by (auto simp: MarkArticleWritten_def split: prod.split bool.split)
  obtain q where q: "ct_progress ?c = Some q"
    by (rule reach_resident [OF content_reach.step [OF xContent_reach content_step.written] m])
  show ?thesis
    using stale_combine_never_installed [OF xContent_reach snap step m q, of "fst (combineSnapshot snap)" "snd (combineSnapshot snap)"]
      snap by (auto simp: Let_def case_prod_unfold)
qed

end
