(* ===== verification/Go_Bytes.thy ===== *)
theory Go_Bytes
  imports Prelude
begin

text \<open>
  What the decoder uses of Go's \<^verbatim>\<open>bytes\<close> and \<^verbatim>\<open>strconv\<close> packages, on byte lists: a Go index of
  -1 is \<open>None\<close>. The printing functions at the end are the other side of the round trips.
\<close>

type_synonym byte = "8 word"
type_synonym bytes = "8 word list"

section \<open>Searching and cutting\<close>

definition lit :: "string \<Rightarrow> bytes" where
  "lit s = map of_char s"

definition HasPrefix :: "bytes \<Rightarrow> bytes \<Rightarrow> bool" where
  "HasPrefix b pat \<longleftrightarrow> take (length pat) b = pat"

fun bytes_Index :: "bytes \<Rightarrow> bytes \<Rightarrow> nat option" where
  "bytes_Index [] pat = (if pat = [] then Some 0 else None)"
| "bytes_Index (x # xs) pat = (if HasPrefix (x # xs) pat then Some 0 else map_option Suc (bytes_Index xs pat))"

fun IndexByte :: "bytes \<Rightarrow> byte \<Rightarrow> nat option" where
  "IndexByte [] c = None"
| "IndexByte (x # xs) c = (if x = c then Some 0 else map_option Suc (IndexByte xs c))"

definition bytes_Cut :: "bytes \<Rightarrow> byte \<Rightarrow> (bytes \<times> bytes) option" where
  "bytes_Cut b c = (case IndexByte b c of None \<Rightarrow> None | Some i \<Rightarrow> Some (take i b, drop (Suc i) b))"

definition TrimRight :: "bytes \<Rightarrow> bytes \<Rightarrow> bytes" where
  "TrimRight b cutset = rev (dropWhile (\<lambda>c. c \<in> set cutset) (rev b))"

lemma IndexByte_Some:
  "IndexByte b c = Some i \<Longrightarrow> i < length b \<and> b ! i = c \<and> c \<notin> set (take i b)"
proof (induction b arbitrary: i)
  case (Cons x b)
  then show ?case by (cases "x = c"; cases i) auto
qed simp

lemma IndexByte_None: "IndexByte b c = None \<longleftrightarrow> c \<notin> set b"
  by (induction b) auto

lemma IndexByte_app: "c \<notin> set a \<Longrightarrow> IndexByte (a @ c # b) c = Some (length a)"
  by (induction a) auto

lemma bytes_Cut_app: "c \<notin> set a \<Longrightarrow> bytes_Cut (a @ c # b) c = Some (a, b)"
  by (simp add: bytes_Cut_def IndexByte_app)

lemma bytes_Cut_length: "bytes_Cut b c = Some (l, r) \<Longrightarrow> length l + length r < length b"
  using IndexByte_Some by (fastforce simp: bytes_Cut_def split: option.splits)

lemma HasPrefix_app [simp]: "HasPrefix (pat @ b) pat"
  by (simp add: HasPrefix_def)

lemma HasPrefix_simps [simp]:
  "HasPrefix b []" "\<not> HasPrefix [] (y # pat)" "HasPrefix (x # b) (y # pat) \<longleftrightarrow> x = y \<and> HasPrefix b pat"
  by (simp_all add: HasPrefix_def)

lemma HasPrefix_nth:
  assumes "HasPrefix b pat" and "k < length pat"
  shows "k < length b" "b ! k = pat ! k"
proof -
  have t: "take (length pat) b = pat" using assms(1) by (simp add: HasPrefix_def)
  then have "length pat \<le> length b" by (metis length_take min.cobounded1)
  then show "k < length b" using assms(2) by simp
  show "b ! k = pat ! k" using t assms(2) nth_take by metis
qed

lemma TrimRight_id: "b = [] \<or> last b \<notin> set cutset \<Longrightarrow> TrimRight b cutset = b"
  by (cases b rule: rev_cases) (simp_all add: TrimRight_def)

lemma TrimRight_snoc: "c \<in> set cutset \<Longrightarrow> TrimRight (b @ [c]) cutset = TrimRight b cutset"
  by (simp add: TrimRight_def)

text \<open>The first occurrence of a pattern that no earlier position matches.\<close>

lemma bytes_Index_app:
  assumes "pat \<noteq> []" and "\<And>i. i < length a \<Longrightarrow> \<not> HasPrefix (drop i (a @ pat @ b)) pat"
  shows "bytes_Index (a @ pat @ b) pat = Some (length a)"
  using assms(2)
proof (induction a)
  case Nil
  then show ?case using assms(1) by (cases pat) (simp_all add: HasPrefix_def)
next
  case (Cons x a)
  have "\<not> HasPrefix (x # (a @ pat @ b)) pat" using Cons.prems [of 0] by simp
  moreover have "\<not> HasPrefix (drop i (a @ pat @ b)) pat" if "i < length a" for i
    using Cons.prems [of "Suc i"] that by simp
  ultimately show ?case using Cons.IH by simp
qed

section \<open>Numbers\<close>

definition digitVal :: "nat \<Rightarrow> byte \<Rightarrow> nat option" where
  "digitVal base c =
     (let v = unat c;
          d = (if 48 \<le> v \<and> v \<le> 57 then v - 48
               else if 97 \<le> v \<and> v \<le> 122 then v - 87
               else if 65 \<le> v \<and> v \<le> 90 then v - 55 else base) in
      if d < base then Some d else None)"

fun digitsVal :: "nat \<Rightarrow> nat \<Rightarrow> bytes \<Rightarrow> nat option" where
  "digitsVal base acc [] = Some acc"
| "digitsVal base acc (c # cs) =
     (case digitVal base c of None \<Rightarrow> None | Some d \<Rightarrow> digitsVal base (acc * base + d) cs)"

text \<open>\<open>strconv.ParseUint(s, base, w)\<close> for a fixed base, and \<open>strconv.ParseInt(s, 10, 64)\<close>.\<close>

definition ParseUint :: "nat \<Rightarrow> nat \<Rightarrow> bytes \<Rightarrow> nat option" where
  "ParseUint base w s =
     (if s = [] then None
      else case digitsVal base 0 s of None \<Rightarrow> None | Some n \<Rightarrow> if n < 2 ^ w then Some n else None)"

definition ParseInt :: "bytes \<Rightarrow> int option" where
  "ParseInt s =
     (if s = [] then None
      else
        (let neg = (hd s = 45); ds = (if hd s = 45 \<or> hd s = 43 then tl s else s) in
         case ParseUint 10 64 ds of
           None \<Rightarrow> None
         | Some n \<Rightarrow>
             if \<not> neg \<and> n \<ge> 2 ^ 63 \<or> neg \<and> n > 2 ^ 63 then None
             else Some (if neg then - int n else int n)))"

text \<open>Printing in a base, lower case.\<close>

definition digit :: "nat \<Rightarrow> byte" where
  "digit d = word_of_nat (if d < 10 then 48 + d else 87 + d)"

fun printBase :: "nat \<Rightarrow> nat \<Rightarrow> bytes" where
  "printBase base n = (if base < 2 \<or> n < base then [digit n] else printBase base (n div base) @ [digit (n mod base)])"

declare printBase.simps [simp del]

lemma unat_digit: "d < 36 \<Longrightarrow> unat (digit d) = (if d < 10 then 48 + d else 87 + d)"
  by (simp add: digit_def unat_of_nat)

lemma digitVal_digit: "d < base \<Longrightarrow> base \<le> 36 \<Longrightarrow> digitVal base (digit d) = Some d"
  by (auto simp: digitVal_def unat_digit Let_def)

lemma digitsVal_app:
  "digitsVal base acc (a @ b) = (case digitsVal base acc a of None \<Rightarrow> None | Some v \<Rightarrow> digitsVal base v b)"
  by (induction a arbitrary: acc) (auto split: option.split)

lemma digitsVal_print:
  assumes "2 \<le> base" and "base \<le> 36"
  shows "digitsVal base 0 (printBase base n) = Some n"
  using assms
proof (induction base n rule: printBase.induct)
  case (1 base n)
  show ?case
  proof (cases "n < base")
    case True
    then show ?thesis using 1 by (simp add: printBase.simps digitVal_digit)
  next
    case False
    then have "digitsVal base 0 (printBase base (n div base)) = Some (n div base)" using 1 by simp
    then show ?thesis using 1 False by (simp add: printBase.simps [of base n] digitsVal_app digitVal_digit)
  qed
qed

lemma printBase_bytes: "2 \<le> base \<Longrightarrow> base \<le> 36 \<Longrightarrow> c \<in> set (printBase base n) \<Longrightarrow> 48 \<le> unat c \<and> unat c \<le> 122"
proof (induction base n rule: printBase.induct)
  case (1 base n)
  show ?case
  proof (cases "n < base")
    case True
    then show ?thesis using 1 by (auto simp: printBase.simps unat_digit)
  next
    case False
    have "n mod base < base" using 1(2) by simp
    then have "n mod base < 36" using 1(3) by linarith
    then show ?thesis using 1 False by (auto simp: printBase.simps [of base n] unat_digit)
  qed
qed

lemma printBase_nonempty: "printBase base n \<noteq> []"
  by (simp add: printBase.simps)

lemma printBase_length: "2 \<le> base \<Longrightarrow> n < base ^ Suc k \<Longrightarrow> length (printBase base n) \<le> Suc k"
proof (induction k arbitrary: n)
  case (Suc k)
  have "n div base < base ^ Suc k" using Suc.prems by (simp add: less_mult_imp_div_less mult.commute)
  then show ?case using Suc.IH [of "n div base"] Suc.prems(1) by (simp add: printBase.simps [of base n])
qed (simp add: printBase.simps)

lemma ParseUint_print:
  "2 \<le> base \<Longrightarrow> base \<le> 36 \<Longrightarrow> n < 2 ^ w \<Longrightarrow> ParseUint base w (printBase base n) = Some n"
  by (simp add: ParseUint_def printBase_nonempty digitsVal_print)

lemma ParseInt_print:
  assumes "n < 2 ^ 63"
  shows "ParseInt (printBase 10 n) = Some (int n)"
proof -
  have ne: "printBase 10 n \<noteq> []" by (rule printBase_nonempty)
  have "48 \<le> unat (hd (printBase 10 n))" using printBase_bytes [of 10] hd_in_set [OF ne] by simp
  then have "hd (printBase 10 n) \<noteq> 45" "hd (printBase 10 n) \<noteq> 43" by auto
  moreover have "ParseUint 10 64 (printBase 10 n) = Some n" using assms by (intro ParseUint_print) simp_all
  ultimately show ?thesis using ne assms by (simp add: ParseInt_def)
qed

lemma ParseInt_bounds: "ParseInt s = Some n \<Longrightarrow> - (2 ^ 63) \<le> n \<and> n < 2 ^ 63"
  by (auto simp: ParseInt_def Let_def split: if_splits option.splits)

end
