(* ===== verification/Yenc.thy ===== *)
theory Yenc
  imports Crc Go_Bytes
begin

text \<open>
  The yEnc decoder (\<^verbatim>\<open>internal/decoder/decoder.go\<close>): header and trailer lines, the decode loop with
  its bulk path, the checks of the declared size and checksum, and the size classes of the buffer
  pool. Buffers are values here, so which array a decoded slice lives in is not modelled.
\<close>

section \<open>The source\<close>

datatype DecodeError = ErrNotYEnc | errMalformed | ErrCRCMismatch | errMissingTrailer | errSizeMismatch | ErrBodyTooLarge

definition maxDecodeSize :: nat where
  "maxDecodeSize = 10 * 1024 * 1024"

definition maxPartOffset :: int where
  "maxPartOffset = 2 ^ 48"

record yencHeader =
  yh_size :: int
  yh_offset :: int
  yh_name :: bytes
  yh_isPart :: bool
  yh_hasYPart :: bool

record yencTrailer =
  yt_size :: int
  yt_crc :: "32 word"
  yt_valid :: bool

record Article =
  ar_Filename :: bytes
  ar_Offset :: int
  ar_HasOffset :: bool
  ar_TotalSize :: int
  ar_Data :: bytes
  ar_CRC :: "32 word"

definition zeroArticle :: Article where
  "zeroArticle = \<lparr>ar_Filename = [], ar_Offset = 0, ar_HasOffset = False, ar_TotalSize = 0, ar_Data = [], ar_CRC = 0\<rparr>"

definition latin1ToUTF8 :: "bytes \<Rightarrow> bytes" where
  "latin1ToUTF8 b =
     (if (\<forall>c \<in> set b. c < 128) then b
      else concat (map (\<lambda>c. if c < 128 then [c] else [0xC0 OR drop_bit 6 c, 0x80 OR (c AND 0x3F)]) b))"

text \<open>The loop of \<open>parseKeyValues\<close>: the calls of its callback, in order.\<close>

function kvLoop :: "bytes \<Rightarrow> (bytes \<times> bytes) list" where
  "kvLoop rest0 =
     (let rest = dropWhile (\<lambda>c. c = 32) rest0 in
      case IndexByte rest 61 of
        None \<Rightarrow> []
      | Some eq \<Rightarrow>
          (let key = TrimRight (take eq rest) [32]; r = drop (Suc eq) rest in
           if key = lit ''name'' then [(key, latin1ToUTF8 (TrimRight r [32, 9, 13, 10, 0]))]
           else
             (case IndexByte r 32 of
                None \<Rightarrow> [(key, TrimRight r [13, 10])]
              | Some sp \<Rightarrow> (key, take sp r) # kvLoop (drop (Suc sp) r))))"
  by pat_completeness auto
termination
proof (relation "measure length")
  fix rest0 rest :: bytes and eq :: nat and key r :: bytes and sp :: nat
  assume "rest = dropWhile (\<lambda>c. c = 32) rest0" and "IndexByte rest 61 = Some eq" and "r = drop (Suc eq) rest"
  then show "(drop (Suc sp) r, rest0) \<in> measure length"
    using IndexByte_Some [of rest 61 eq] length_dropWhile_le [of "\<lambda>c. c = 32" rest0] by auto
qed auto

declare kvLoop.simps [simp del]

definition parseKeyValues :: "bytes \<Rightarrow> (bytes \<times> bytes) list" where
  "parseKeyValues line = (case bytes_Cut line 32 of None \<Rightarrow> [] | Some (_, after) \<Rightarrow> kvLoop after)"

definition beginField :: "bytes \<times> bytes \<Rightarrow> yencHeader \<Rightarrow> yencHeader" where
  "beginField kv h =
     (case kv of (k, v) \<Rightarrow>
      if k = lit ''size'' then (case ParseInt v of None \<Rightarrow> h | Some n \<Rightarrow> h\<lparr>yh_size := n\<rparr>)
      else if k = lit ''name'' then h\<lparr>yh_name := v\<rparr>
      else if k = lit ''part'' then (if v \<noteq> [] then h\<lparr>yh_isPart := True\<rparr> else h)
      else h)"

definition partField :: "bytes \<times> bytes \<Rightarrow> int \<times> bool \<Rightarrow> int \<times> bool" where
  "partField kv s =
     (case (kv, s) of ((k, v), (beginVal, beginBad)) \<Rightarrow>
      if k = lit ''begin'' then (case ParseInt v of None \<Rightarrow> (beginVal, True) | Some n \<Rightarrow> (n, beginBad)) else s)"

definition parseHeader :: "bytes \<Rightarrow> (DecodeError, yencHeader \<times> nat) result" where
  "parseHeader body0 =
     (case bytes_Index body0 (lit ''=ybegin'') of
        None \<Rightarrow> Inl ErrNotYEnc
      | Some start \<Rightarrow>
          (let body = drop start body0 in
           case IndexByte body 10 of
             None \<Rightarrow> Inl errMalformed
           | Some ybeginEnd \<Rightarrow>
               (let hdr = foldl (\<lambda>h kv. beginField kv h)
                            \<lparr>yh_size = 0, yh_offset = 0, yh_name = [], yh_isPart = False, yh_hasYPart = False\<rparr>
                            (parseKeyValues (take ybeginEnd body));
                    bodyStart = start + ybeginEnd + 1;
                    rest = drop (ybeginEnd + 1) body in
                if HasPrefix rest (lit ''=ypart'')
                then
                  (case IndexByte rest 10 of
                     None \<Rightarrow> Inl errMalformed
                   | Some ypartEnd \<Rightarrow>
                       (let (beginVal, beginBad) = foldl (\<lambda>s kv. partField kv s) (0, False) (parseKeyValues (take ypartEnd rest)) in
                        if beginBad \<or> beginVal < 0 \<or> beginVal > maxPartOffset then Inl errMalformed
                        else Inr (hdr\<lparr>yh_offset := (if beginVal > 0 then beginVal - 1 else yh_offset hdr),
                                      yh_isPart := True, yh_hasYPart := True\<rparr>, bodyStart + ypartEnd + 1)))
                else Inr (hdr, bodyStart))))"

text \<open>The callback of \<open>parseTrailer\<close> on its trailer, \<open>hasSize\<close> and \<open>parseErr\<close>.\<close>

definition trailerField :: "bool \<Rightarrow> bytes \<times> bytes \<Rightarrow> yencTrailer \<times> bool \<times> bool \<Rightarrow> yencTrailer \<times> bool \<times> bool" where
  "trailerField isPart kv s =
     (case (kv, s) of ((k, v), (t, hasSize, bad)) \<Rightarrow>
      if k = lit ''size'' then
        (case ParseInt v of None \<Rightarrow> (t, hasSize, True) | Some n \<Rightarrow> (t\<lparr>yt_size := n\<rparr>, True, bad))
      else if k = lit ''crc32'' \<and> \<not> isPart \<or> k = lit ''pcrc32'' \<and> isPart then
        (case ParseUint 16 32 v of None \<Rightarrow> (t, hasSize, True)
         | Some n \<Rightarrow> (t\<lparr>yt_crc := word_of_nat n, yt_valid := True\<rparr>, hasSize, bad))
      else s)"

definition parseTrailer :: "bytes \<Rightarrow> bool \<Rightarrow> (DecodeError, yencTrailer) result" where
  "parseTrailer line isPart =
     (if \<not> HasPrefix line (lit ''=yend'') then Inl errMissingTrailer
      else
        (let (t, hasSize, bad) = foldl (\<lambda>s kv. trailerField isPart kv s)
               (\<lparr>yt_size = 0, yt_crc = 0, yt_valid = False\<rparr>, False, False) (parseKeyValues line) in
         if bad then Inl errMalformed else if \<not> hasSize then Inl errMalformed else Inr t))"

definition specialLUT :: "byte \<Rightarrow> bool" where
  "specialLUT c \<longleftrightarrow> c = 13 \<or> c = 10 \<or> c = 61"

fun indexSpecial :: "bytes \<Rightarrow> nat option" where
  "indexSpecial [] = None"
| "indexSpecial (c # cs) = (if specialLUT c then Some 0 else map_option Suc (indexSpecial cs))"

text \<open>The unrolled loop of \<open>sub42Span\<close>, eight bytes a time and then one by one.\<close>

fun sub42Loop :: "bytes \<Rightarrow> bytes" where
  "sub42Loop (a # b # c # d # e # f # g # h # src) =
     (a - 42) # (b - 42) # (c - 42) # (d - 42) # (e - 42) # (f - 42) # (g - 42) # (h - 42) # sub42Loop src"
| "sub42Loop src = map (\<lambda>c. c - 42) src"

definition sub42Span :: "bytes \<Rightarrow> bytes \<Rightarrow> bytes" where
  "sub42Span dst src = dst @ sub42Loop src"

text \<open>One byte outside the bulk path.\<close>

definition decodeByte :: "byte \<Rightarrow> bool \<Rightarrow> bytes \<Rightarrow> bool \<times> bytes" where
  "decodeByte c escaped out =
     (if c = 13 \<or> c = 10 then (escaped, out)
      else if escaped then (False, out @ [c - 106])
      else if c = 61 then (True, out)
      else (escaped, out @ [c - 42]))"

function decodeLoop :: "bytes \<Rightarrow> bool \<Rightarrow> bytes \<Rightarrow> bytes" where
  "decodeLoop remaining escaped out =
     (if remaining = [] then out
      else if \<not> escaped then
        (case indexSpecial remaining of
           None \<Rightarrow> sub42Span out remaining
         | Some next \<Rightarrow>
             (let out1 = (if next > 0 then sub42Span out (take next remaining) else out);
                  r = drop next remaining;
                  (e, out2) = decodeByte (hd r) escaped out1 in
              decodeLoop (tl r) e out2))
      else (let (e, out2) = decodeByte (hd remaining) escaped out in decodeLoop (tl remaining) e out2))"
  by pat_completeness auto
termination
  by (relation "measure (\<lambda>(r, _, _). length r)") (auto simp: Let_def)

declare decodeLoop.simps [simp del]

definition decodeBody :: "bytes \<Rightarrow> bytes \<times> 32 word" where
  "decodeBody encoded = (let out = decodeLoop encoded False [] in (out, ChecksumIEEE out))"

text \<open>Where the encoded body ends: the trailer's first byte.\<close>

definition trailerAt :: "bytes \<Rightarrow> nat \<Rightarrow> nat option" where
  "trailerAt body bodyStart =
     (case bytes_Index (drop bodyStart body) (10 # lit ''=yend'') of
        Some i \<Rightarrow> Some (i + bodyStart + 1)
      | None \<Rightarrow> if HasPrefix (drop bodyStart body) (lit ''=yend'') then Some bodyStart else None)"

definition trailerLine :: "bytes \<Rightarrow> bytes" where
  "trailerLine b =
     (let line = (case IndexByte b 10 of Some nl \<Rightarrow> take nl b | None \<Rightarrow> b) in TrimRight line [13])"

definition DecodeArticleBuf :: "bytes \<Rightarrow> Article \<times> DecodeError option" where
  "DecodeArticleBuf body =
     (if length body > maxDecodeSize then (zeroArticle, Some ErrBodyTooLarge)
      else
        (case parseHeader body of
           Inl e \<Rightarrow> (zeroArticle, Some e)
         | Inr (hdr, bodyStart) \<Rightarrow>
             (case trailerAt body bodyStart of
                None \<Rightarrow> (zeroArticle, Some errMissingTrailer)
              | Some trailerIdx \<Rightarrow>
                  (let (decoded, computedCRC) = decodeBody (take (trailerIdx - bodyStart) (drop bodyStart body)) in
                   case parseTrailer (trailerLine (drop trailerIdx body)) (yh_isPart hdr) of
                     Inl e \<Rightarrow> (zeroArticle, Some e)
                   | Inr t \<Rightarrow>
                       (let art = \<lparr>ar_Filename = yh_name hdr, ar_Offset = yh_offset hdr, ar_HasOffset = yh_hasYPart hdr,
                                   ar_TotalSize = yh_size hdr, ar_Data = decoded, ar_CRC = computedCRC\<rparr> in
                        if yt_size t \<noteq> int (length decoded) then (art, Some errSizeMismatch)
                        else if yt_valid t \<and> computedCRC \<noteq> yt_crc t then (art, Some ErrCRCMismatch)
                        else (art, None))))))"

section \<open>The decode loop against a byte-at-a-time reference\<close>

fun yDec :: "bool \<Rightarrow> bytes \<Rightarrow> bytes" where
  "yDec e [] = []"
| "yDec e (c # cs) =
     (if c = 13 \<or> c = 10 then yDec e cs
      else if e then (c - 106) # yDec False cs
      else if c = 61 then yDec True cs
      else (c - 42) # yDec False cs)"

lemma sub42Loop_map: "sub42Loop src = map (\<lambda>c. c - 42) src"
  by (induction src rule: sub42Loop.induct) simp_all

lemma yDec_plain: "indexSpecial cs = None \<Longrightarrow> yDec False cs = map (\<lambda>c. c - 42) cs"
  by (induction cs) (auto simp: specialLUT_def split: if_splits)

lemma yDec_skip:
  "indexSpecial cs = Some n \<Longrightarrow> yDec False cs = map (\<lambda>c. c - 42) (take n cs) @ yDec False (drop n cs) \<and> n < length cs"
proof (induction cs arbitrary: n)
  case (Cons c cs)
  then show ?case by (cases n) (auto simp: specialLUT_def split: if_splits)
qed simp

lemma yDec_step:
  assumes "cs \<noteq> []" and "decodeByte (hd cs) e out = (e', out')"
  shows "out @ yDec e cs = out' @ yDec e' (tl cs)"
  using assms by (cases cs) (auto simp: decodeByte_def split: if_splits)

lemma decodeLoop_yDec: "decodeLoop cs e out = out @ yDec e cs"
proof (induction cs e out rule: decodeLoop.induct)
  case (1 cs e out)
  show ?case
  proof (cases "cs = [] \<or> \<not> e \<and> indexSpecial cs = None")
    case True
    then show ?thesis by (auto simp: decodeLoop.simps [of cs] sub42Span_def sub42Loop_map yDec_plain)
  next
    case ne: False
    show ?thesis
    proof (cases e)
      case True
      obtain e' out' where d: "decodeByte (hd cs) e out = (e', out')" by fastforce
      have "decodeLoop (tl cs) e' out' = out' @ yDec e' (tl cs)" using 1(2) True ne d by simp
      then show ?thesis using yDec_step [OF _ d] ne True d by (simp add: decodeLoop.simps [of cs])
    next
      case False
      then obtain n where n: "indexSpecial cs = Some n" using ne by auto
      note s = yDec_skip [OF n]
      let ?o = "if n > 0 then sub42Span out (take n cs) else out"
      have o: "?o = out @ map (\<lambda>c. c - 42) (take n cs)" by (simp add: sub42Span_def sub42Loop_map)
      obtain e' out' where d: "decodeByte (hd (drop n cs)) e ?o = (e', out')" by fastforce
      have "decodeLoop (tl (drop n cs)) e' out' = out' @ yDec e' (tl (drop n cs))"
        using 1(1) [OF _ False n HOL.refl HOL.refl d [symmetric]] ne by simp
      moreover have "?o @ yDec e (drop n cs) = out' @ yDec e' (tl (drop n cs))"
        by (rule yDec_step [OF _ d]) (use s in simp)
      ultimately show ?thesis using s False ne n d o by (simp add: decodeLoop.simps [of cs] Let_def)
    qed
  qed
qed

section \<open>Encodings\<close>

text \<open>
  \<open>yEncodes d e\<close>: \<open>e\<close> is a yEnc encoding of the bytes \<open>d\<close>. A byte is shifted by 42, or escaped by
  \<open>=\<close> and shifted by 106; line breaks may stand anywhere, also between \<open>=\<close> and the byte it escapes.
  The shifted byte may not be a line break or \<open>=\<close>, and the escaped one not a line break, \<open>=\<close> or
  \<open>y\<close>, which only a byte that needs no escape would give.
\<close>

inductive yEncodes :: "bytes \<Rightarrow> bytes \<Rightarrow> bool" where
  nil: "yEncodes [] []"
| plain: "yEncodes d e \<Longrightarrow> b + 42 \<notin> {10, 13, 61} \<Longrightarrow> yEncodes (b # d) ((b + 42) # e)"
| esc: "yEncodes d e \<Longrightarrow> b + 106 \<notin> {10, 13, 61, 121} \<Longrightarrow> set brk \<subseteq> {10, 13} \<Longrightarrow> yEncodes (b # d) (61 # brk @ (b + 106) # e)"
| brk: "yEncodes d e \<Longrightarrow> c \<in> {10, 13} \<Longrightarrow> yEncodes d (c # e)"

lemma yDec_breaks: "set brk \<subseteq> {10, 13} \<Longrightarrow> yDec e (brk @ cs) = yDec e cs"
  by (induction brk) auto

lemma yDec_encodes: "yEncodes d e \<Longrightarrow> yDec False e = d"
proof (induction rule: yEncodes.induct)
  case (esc d e b brk)
  then show ?case by (simp add: yDec_breaks)
qed auto

lemma yEncodes_snoc: "yEncodes d e \<Longrightarrow> c \<in> {10, 13} \<Longrightarrow> yEncodes d (e @ [c])"
proof (induction rule: yEncodes.induct)
  case nil
  then show ?case using yEncodes.brk [OF yEncodes.nil] by simp
next
  case (esc d e b brk)
  then show ?case using yEncodes.esc [of d "e @ [c]" b brk] by simp
qed (auto intro: yEncodes.intros)

lemma decodeBody_encodes: "yEncodes d e \<Longrightarrow> decodeBody e = (d, ChecksumIEEE d)"
  by (simp add: decodeBody_def decodeLoop_yDec yDec_encodes)

text \<open>No \<open>=y\<close> in an encoding.\<close>

lemma encodes_no_eqy: "yEncodes d e \<Longrightarrow> Suc i < length e \<Longrightarrow> e ! i = 61 \<Longrightarrow> e ! Suc i \<noteq> 121"
proof (induction arbitrary: i rule: yEncodes.induct)
  case (plain d e b)
  then show ?case by (cases i) auto
next
  case (esc d e b brk)
  show ?case
  proof (cases "i < Suc (length brk)")
    case True
    have in_brk: "(brk @ (b + 106) # e) ! k \<noteq> 121" if "k \<le> length brk" for k
    proof (cases "k = length brk")
      case True
      then show ?thesis using esc.hyps(2) by (simp add: nth_append)
    next
      case False
      then have k: "k < length brk" using that by simp
      then have "brk ! k \<in> {10, 13}" using esc.hyps(3) nth_mem by blast
      then show ?thesis using k by (auto simp: nth_append)
    qed
    show ?thesis using in_brk [of i] True by simp
  next
    case False
    define k where "k = i - Suc (length brk)"
    have k: "i = Suc (length brk) + k" using False by (simp add: k_def)
    have e: "(61 # brk @ (b + 106) # e) ! i = ((b + 106) # e) ! k" "(61 # brk @ (b + 106) # e) ! Suc i = e ! k"
      unfolding k by (simp_all add: nth_append)
    show ?thesis
    proof (cases k)
      case 0
      then show ?thesis using esc.prems(2) esc.hyps(2) e by simp
    next
      case (Suc k')
      then show ?thesis using esc.IH [of k'] esc.prems k e by simp
    qed
  qed
next
  case (brk d e c)
  then show ?case by (cases i) auto
qed simp

section \<open>Header and trailer lines\<close>

lemma lit_byte [simp]: "lit [] = []" "lit (c # s) = of_char c # lit s" "lit (s @ t) = lit s @ lit t"
  by (simp_all add: lit_def)

text \<open>Fields, each followed by a space.\<close>

definition spaced :: "(bytes \<times> bytes) list \<Rightarrow> bytes" where
  "spaced fs = concat (map (\<lambda>(k, v). k @ 61 # v @ [32]) fs)"

definition key_ok :: "bytes \<Rightarrow> bool" where
  "key_ok k \<longleftrightarrow> k \<noteq> [] \<and> 32 \<notin> set k \<and> 61 \<notin> set k"

lemma dropWhile_key: "key_ok k \<Longrightarrow> dropWhile (\<lambda>c. c = 32) (k @ r) = k @ r"
  by (cases k) (auto simp: key_ok_def)

lemma trim_key: "key_ok k \<Longrightarrow> TrimRight k [32] = k"
  by (rule TrimRight_id) (metis key_ok_def last_in_set empty_set singletonD list.simps(15))

lemma kvLoop_field:
  assumes "key_ok k" and "k \<noteq> lit ''name''" and "32 \<notin> set v"
  shows "kvLoop (k @ 61 # v @ 32 # rest) = (k, v) # kvLoop rest"
  using assms IndexByte_app [of 61 k "v @ 32 # rest"] IndexByte_app [of 32 v rest] dropWhile_key [OF assms(1), of "61 # v @ 32 # rest"]
  by (simp add: kvLoop.simps [of "k @ 61 # v @ 32 # rest"] trim_key key_ok_def Let_def)

lemma kvLoop_last:
  assumes "key_ok k" and "k \<noteq> lit ''name''" and "32 \<notin> set v"
  shows "kvLoop (k @ 61 # v) = [(k, TrimRight v [13, 10])]"
proof -
  have "IndexByte v 32 = None" using assms(3) by (simp add: IndexByte_None)
  then show ?thesis using assms IndexByte_app [of 61 k v] dropWhile_key [OF assms(1), of "61 # v"]
    by (simp add: kvLoop.simps [of "k @ 61 # v"] trim_key key_ok_def Let_def)
qed

lemma kvLoop_name:
  assumes k: "k = lit ''name''"
  shows "kvLoop (k @ 61 # v) = [(k, latin1ToUTF8 (TrimRight v [32, 9, 13, 10, 0]))]"
proof -
  have "key_ok k" by (simp add: key_ok_def k)
  then show ?thesis using IndexByte_app [of 61 k v] dropWhile_key [of k "61 # v"]
    by (simp add: kvLoop.simps [of "k @ 61 # v"] trim_key key_ok_def Let_def) (simp add: k)
qed

lemma kvLoop_spaced:
  assumes "\<forall>(k, v) \<in> set fs. key_ok k \<and> k \<noteq> lit ''name'' \<and> 32 \<notin> set v"
  shows "kvLoop (spaced fs @ rest) = fs @ kvLoop rest"
  using assms
proof (induction fs)
  case (Cons f fs)
  obtain k v where f: "f = (k, v)" by fastforce
  have "kvLoop (k @ 61 # v @ 32 # (spaced fs @ rest)) = (k, v) # kvLoop (spaced fs @ rest)"
    using Cons.prems by (intro kvLoop_field) (auto simp: f)
  then show ?case using Cons by (simp add: spaced_def f)
qed (simp add: spaced_def)

lemma parseKeyValues_line:
  "32 \<notin> set d \<Longrightarrow> parseKeyValues (d @ 32 # rest) = kvLoop rest"
  by (simp add: parseKeyValues_def bytes_Cut_app)

lemma print_clean: "2 \<le> b \<Longrightarrow> b \<le> 36 \<Longrightarrow> unat c < 48 \<Longrightarrow> c \<notin> set (printBase b n)"
  using printBase_bytes by fastforce

lemmas dec_clean = print_clean [of 10 10, simplified] print_clean [of 10 13, simplified] print_clean [of 10 32, simplified]
lemmas hex_clean = print_clean [of 16 10, simplified] print_clean [of 16 13, simplified] print_clean [of 16 32, simplified]

text \<open>The lines of a multi-part article.\<close>

definition ybeginLine :: "nat \<Rightarrow> nat \<Rightarrow> nat \<Rightarrow> bytes \<Rightarrow> bytes" where
  "ybeginLine part ln sz name =
     lit ''=ybegin '' @ spaced [(lit ''part'', printBase 10 part), (lit ''line'', printBase 10 ln), (lit ''size'', printBase 10 sz)]
       @ lit ''name='' @ name @ [13]"

definition ypartLine :: "nat \<Rightarrow> nat \<Rightarrow> bytes" where
  "ypartLine b e = lit ''=ypart '' @ spaced [(lit ''begin'', printBase 10 b)] @ lit ''end='' @ printBase 10 e @ [13]"

definition yendLine :: "nat \<Rightarrow> nat \<Rightarrow> nat \<Rightarrow> 32 word \<Rightarrow> bytes" where
  "yendLine sz part pad crc =
     lit ''=yend '' @ spaced [(lit ''size'', printBase 10 sz), (lit ''part'', printBase 10 part)]
       @ lit ''pcrc32='' @ replicate pad 48 @ printBase 16 (unat crc)"

lemma ybegin_fields:
  "parseKeyValues (ybeginLine part ln sz name) =
     [(lit ''part'', printBase 10 part), (lit ''line'', printBase 10 ln), (lit ''size'', printBase 10 sz),
      (lit ''name'', latin1ToUTF8 (TrimRight (name @ [13]) [32, 9, 13, 10, 0]))]"
proof -
  let ?fs = "[(lit ''part'', printBase 10 part), (lit ''line'', printBase 10 ln), (lit ''size'', printBase 10 sz)]"
  have "parseKeyValues (ybeginLine part ln sz name) = kvLoop (spaced ?fs @ lit ''name='' @ name @ [13])"
    using parseKeyValues_line [of "lit ''=ybegin''" "spaced ?fs @ lit ''name='' @ name @ [13]"] by (simp add: ybeginLine_def)
  also have "\<dots> = ?fs @ kvLoop (lit ''name='' @ name @ [13])"
    by (rule kvLoop_spaced) (simp add: key_ok_def dec_clean)
  finally show ?thesis using kvLoop_name [OF HOL.refl, of "name @ [13]"] by simp
qed

lemma ypart_fields:
  "parseKeyValues (ypartLine b e) = [(lit ''begin'', printBase 10 b), (lit ''end'', TrimRight (printBase 10 e @ [13]) [13, 10])]"
proof -
  have "parseKeyValues (ypartLine b e) = kvLoop (spaced [(lit ''begin'', printBase 10 b)] @ lit ''end='' @ printBase 10 e @ [13])"
    using parseKeyValues_line [of "lit ''=ypart''" "spaced [(lit ''begin'', printBase 10 b)] @ lit ''end='' @ printBase 10 e @ [13]"]
    by (simp add: ypartLine_def)
  also have "\<dots> = [(lit ''begin'', printBase 10 b)] @ kvLoop (lit ''end='' @ printBase 10 e @ [13])"
    by (rule kvLoop_spaced) (simp add: key_ok_def dec_clean)
  finally show ?thesis using kvLoop_last [of "lit ''end''" "printBase 10 e @ [13]"] by (simp add: key_ok_def dec_clean)
qed

lemma yend_fields:
  "parseKeyValues (yendLine sz part pad crc) =
     [(lit ''size'', printBase 10 sz), (lit ''part'', printBase 10 part),
      (lit ''pcrc32'', TrimRight (replicate pad 48 @ printBase 16 (unat crc)) [13, 10])]"
proof -
  let ?fs = "[(lit ''size'', printBase 10 sz), (lit ''part'', printBase 10 part)]" and ?v = "replicate pad 48 @ printBase 16 (unat crc)"
  have "parseKeyValues (yendLine sz part pad crc) = kvLoop (spaced ?fs @ lit ''pcrc32='' @ ?v)"
    using parseKeyValues_line [of "lit ''=yend''" "spaced ?fs @ lit ''pcrc32='' @ ?v"] by (simp add: yendLine_def)
  also have "\<dots> = ?fs @ kvLoop (lit ''pcrc32='' @ ?v)"
    by (rule kvLoop_spaced) (simp add: key_ok_def dec_clean)
  finally show ?thesis using kvLoop_last [of "lit ''pcrc32''" ?v] by (simp add: key_ok_def hex_clean)
qed

section \<open>Decoding a posted article\<close>

lemma TrimRight_last: "b \<noteq> [] \<Longrightarrow> last b \<notin> set cs \<Longrightarrow> TrimRight (a @ b) cs = a @ b"
  by (rule TrimRight_id) simp

lemma ybegin_no_nl: "10 \<notin> set name \<Longrightarrow> 10 \<notin> set (ybeginLine part ln sz name)"
  by (simp add: ybeginLine_def spaced_def dec_clean)

lemma ypart_no_nl: "10 \<notin> set (ypartLine b e)"
  by (simp add: ypartLine_def spaced_def dec_clean)

lemma yend_no_nl: "10 \<notin> set (yendLine sz part pad crc)"
  by (simp add: yendLine_def spaced_def dec_clean hex_clean)

lemma digitsVal_pad: "digitsVal 16 0 (replicate pad 48 @ s) = digitsVal 16 0 s"
  by (induction pad) (simp_all add: digitVal_def)

lemma yend_prefix: "\<exists>r. yendLine sz part pad crc = lit ''=yend'' @ r"
  by (simp add: yendLine_def)

lemma parseTrailer_line:
  assumes "sz < 2 ^ 63"
  shows "parseTrailer (yendLine sz part pad crc) True = Inr \<lparr>yt_size = int sz, yt_crc = crc, yt_valid = True\<rparr>"
proof -
  let ?h = "printBase 16 (unat crc)"
  have "last ?h \<in> set ?h" by (rule last_in_set) (rule printBase_nonempty)
  then have l: "last ?h \<notin> set [13, 10]" using hex_clean by fastforce
  have v: "TrimRight (replicate pad 48 @ ?h) [13, 10] = replicate pad 48 @ ?h"
    by (rule TrimRight_last [OF printBase_nonempty l])
  have "unat crc < 2 ^ 32" using unsigned_less [of crc] by simp
  then have p: "ParseUint 16 32 (replicate pad 48 @ ?h) = Some (unat crc)"
    by (simp add: ParseUint_def digitsVal_pad digitsVal_print printBase_nonempty)
  show ?thesis
    using yend_prefix [of sz part pad crc] assms
    by (auto simp: parseTrailer_def yend_fields v trailerField_def p ParseInt_print)
qed

lemma trailerLine_yend: "trailerLine (yendLine sz part pad crc @ 13 # 10 # post) = yendLine sz part pad crc"
proof -
  let ?y = "yendLine sz part pad crc"
  have i: "IndexByte ((?y @ [13]) @ 10 # post) 10 = Some (length (?y @ [13]))"
    by (rule IndexByte_app) (simp add: yend_no_nl)
  have "last (printBase 16 (unat crc)) \<in> set (printBase 16 (unat crc))" by (rule last_in_set) (rule printBase_nonempty)
  then have "last (printBase 16 (unat crc)) \<noteq> 13" using hex_clean(2) by metis
  then have "last ?y \<noteq> 13" by (simp add: yendLine_def printBase_nonempty)
  then have "TrimRight (?y @ [13]) [13] = ?y" by (simp add: TrimRight_snoc TrimRight_id)
  then show ?thesis using i by (simp add: trailerLine_def)
qed

lemma trailerAt_encoded:
  assumes enc: "yEncodes d e"
  shows "trailerAt (h @ e @ 10 # yendLine sz part pad crc @ post) (length h) = Some (length h + length e + 1)"
proof -
  let ?pat = "10 # lit ''=yend'' :: bytes"
  obtain r where r: "yendLine sz part pad crc = lit ''=yend'' @ r" using yend_prefix by blast
  let ?all = "e @ ?pat @ r @ post"
  have "\<not> HasPrefix (drop i ?all) ?pat" if i: "i < length e" for i
  proof
    assume "HasPrefix (drop i ?all) ?pat"
    note p = HasPrefix_nth(2) [OF this]
    have le: "i \<le> length ?all" using i by simp
    have n: "?all ! Suc i = 61" "?all ! Suc (Suc i) = 121"
      using p [of 1, unfolded nth_drop [OF le]] p [of 2, unfolded nth_drop [OF le]] by simp_all
    have "Suc (Suc i) < length e"
      using n i by (cases "Suc i = length e"; cases "Suc (Suc i) = length e") (auto simp: nth_append)
    then show False using encodes_no_eqy [OF enc, of "Suc i"] n by (simp add: nth_append)
  qed
  then have "bytes_Index ?all ?pat = Some (length e)" by (intro bytes_Index_app) simp_all
  then show ?thesis by (simp add: trailerAt_def r)
qed

lemma parseHeader_lines:
  fixes part ln e :: nat
  assumes "61 \<notin> set pre" and "10 \<notin> set name" and "name = [] \<or> last name \<notin> {32, 9, 13, 10, 0}"
    and "sz < 2 ^ 63" and "0 < b" and "b \<le> 2 ^ 48"
  defines "h \<equiv> pre @ ybeginLine part ln sz name @ 10 # ypartLine b e @ [10]"
  shows "parseHeader (h @ rest) = Inr (\<lparr>yh_size = int sz, yh_offset = int b - 1, yh_name = latin1ToUTF8 name,
      yh_isPart = True, yh_hasYPart = True\<rparr>, length h)"
proof -
  define y where "y = ybeginLine part ln sz name"
  define q where "q = ypartLine b e"
  obtain r where y: "y = lit ''=ybegin'' @ r" by (simp add: y_def ybeginLine_def)
  have q_prefix: "HasPrefix (q @ t) [61, 121, 112, 97, 114, 116]" for t by (simp add: q_def ypartLine_def)
  have hr: "h @ rest = pre @ y @ 10 # q @ 10 # rest" by (simp add: h_def y_def q_def)
  have "\<not> HasPrefix (drop i (pre @ lit ''=ybegin'' @ t)) (lit ''=ybegin'')" if "i < length pre" for i t
  proof
    assume "HasPrefix (drop i (pre @ lit ''=ybegin'' @ t)) (lit ''=ybegin'')"
    from HasPrefix_nth(2) [OF this, of 0] have "pre ! i = 61" using that by (simp add: nth_append)
    then show False using assms(1) nth_mem [OF that] by metis
  qed
  then have idx: "bytes_Index (h @ rest) (lit ''=ybegin'') = Some (length pre)"
    unfolding hr y by (simp only: append_assoc) (rule bytes_Index_app, simp_all)
  have nl: "IndexByte (y @ 10 # q @ 10 # rest) 10 = Some (length y)" "IndexByte (q @ 10 # rest) 10 = Some (length q)"
    by (rule IndexByte_app, simp add: y_def q_def ybegin_no_nl ypart_no_nl assms(2))+
  have trim: "TrimRight (name @ [13]) [32, 9, 13, 10, 0] = name"
    using assms(3) by (simp add: TrimRight_snoc TrimRight_id)
  have hd: "foldl (\<lambda>h kv. beginField kv h) \<lparr>yh_size = 0, yh_offset = 0, yh_name = [], yh_isPart = False, yh_hasYPart = False\<rparr>
      (parseKeyValues y) = \<lparr>yh_size = int sz, yh_offset = 0, yh_name = latin1ToUTF8 name, yh_isPart = True, yh_hasYPart = False\<rparr>"
    using assms(4) by (simp add: y_def ybegin_fields beginField_def trim printBase_nonempty ParseInt_print)
  have "b < 2 ^ 63" using assms(6) by simp
  then have pt: "foldl (\<lambda>s kv. partField kv s) (0, False) (parseKeyValues q) = (int b, False)"
    by (simp add: q_def ypart_fields partField_def ParseInt_print)
  have "int b \<le> maxPartOffset" using assms(6) by (simp add: maxPartOffset_def)
  then show ?thesis
    using idx nl hd pt assms(5) by (simp add: parseHeader_def hr Let_def q_prefix h_def [unfolded y_def [symmetric] q_def [symmetric]])
qed

lemma encodes_length: "yEncodes d e \<Longrightarrow> length d \<le> length e"
  by (induction rule: yEncodes.induct) auto

lemma yDec_length: "length (yDec e cs) \<le> length cs"
  by (induction e cs rule: yDec.induct) (auto intro: le_SucI)

lemma beginField_offset: "yh_offset (foldl (\<lambda>h kv. beginField kv h) h kvs) = yh_offset h"
  by (induction kvs arbitrary: h) (auto simp: beginField_def split: prod.split option.split)

lemma parseHeader_offset: "parseHeader body = Inr (hdr, start) \<Longrightarrow> 0 \<le> yh_offset hdr \<and> yh_offset hdr < 2 ^ 48"
  by (auto simp: parseHeader_def Let_def beginField_offset maxPartOffset_def split: option.splits if_splits prod.splits)

text \<open>C29: yEnc round trip: an article posted in parts, with any text without an equals sign before it, its name
  ending in no white space, the part starting at byte b (from 1) and the part's data encoded in any
  way the format allows (lines broken anywhere, also inside an escape), decodes to exactly that data
  at offset b - 1, with the data's CRC-32, the declared file size and name, and no error, whatever
  follows the trailer.\<close>

theorem yenc_article_roundtrip:
  assumes "yEncodes d e" and "61 \<notin> set pre" and "10 \<notin> set name" and "name = [] \<or> last name \<notin> {32, 9, 13, 10, 0}"
    and "sz < 2 ^ 63" and "0 < b" and "b \<le> 2 ^ 48"
    and body: "body = pre @ ybeginLine part ln sz name @ 10 # ypartLine b en @ 10 # e
      @ 10 # yendLine (length d) part pad (ChecksumIEEE d) @ 13 # 10 # post"
    and len: "length body \<le> maxDecodeSize"
  shows "DecodeArticleBuf body = (\<lparr>ar_Filename = latin1ToUTF8 name, ar_Offset = int b - 1, ar_HasOffset = True,
    ar_TotalSize = int sz, ar_Data = d, ar_CRC = ChecksumIEEE d\<rparr>, None)"
proof -
  define h where "h = pre @ ybeginLine part ln sz name @ 10 # ypartLine b en @ [10]"
  define y where "y = yendLine (length d) part pad (ChecksumIEEE d)"
  have body': "body = h @ e @ 10 # y @ 13 # 10 # post" by (simp add: body h_def y_def)
  have hd: "parseHeader body = Inr (\<lparr>yh_size = int sz, yh_offset = int b - 1, yh_name = latin1ToUTF8 name,
      yh_isPart = True, yh_hasYPart = True\<rparr>, length h)"
    unfolding body' h_def by (rule parseHeader_lines) (use assms in simp_all)
  have tr: "trailerAt body (length h) = Some (length h + length e + 1)"
    unfolding body' y_def by (rule trailerAt_encoded [OF assms(1)])
  have "length d < 2 ^ 63" using encodes_length [OF assms(1)] len by (simp add: body maxDecodeSize_def)
  then have pt: "parseTrailer y True = Inr \<lparr>yt_size = int (length d), yt_crc = ChecksumIEEE d, yt_valid = True\<rparr>"
    unfolding y_def by (rule parseTrailer_line)
  have tl: "trailerLine (drop (Suc (length h + length e)) body) = y"
    unfolding y_def by (simp add: body' y_def [symmetric]) (simp add: y_def trailerLine_yend)
  have "take (Suc (length e)) (drop (length h) body) = e @ [10]" by (simp add: body')
  then have db: "decodeBody (take (Suc (length e)) (drop (length h) body)) = (d, ChecksumIEEE d)"
    using decodeBody_encodes [OF yEncodes_snoc [OF assms(1), of 10]] by simp
  show ?thesis using len hd tr pt tl db by (simp add: DecodeArticleBuf_def)
qed

theorem yenc_article_roundtrip_witness:
  "\<exists>body. DecodeArticleBuf body = (\<lparr>ar_Filename = [97], ar_Offset = 0, ar_HasOffset = True, ar_TotalSize = 1,
     ar_Data = [214], ar_CRC = ChecksumIEEE [214]\<rparr>, None)"
proof -
  let ?crc = "ChecksumIEEE [214]"
  let ?body = "[] @ ybeginLine 1 1 1 [97] @ 10 # ypartLine 1 1 @ 10 # [61, 13, 10, 64] @ 10 # yendLine (length [214 :: byte]) 1 0 ?crc @ 13 # 10 # []"
  have enc: "yEncodes [214] [61, 13, 10, 64]"
  proof -
    have e: "(214 :: byte) + 106 = 64" by simp
    show ?thesis using yEncodes.esc [OF yEncodes.nil, of 214 "[13, 10]", unfolded e] by simp
  qed
  have one: "printBase 10 1 = [49]" "printBase 10 (Suc 0) = [49]" by (simp_all add: printBase.simps digit_def)
  have "length (printBase 16 (unat ?crc)) \<le> Suc 7"
    by (rule printBase_length) (use unsigned_less [of ?crc] in simp_all)
  then have "length ?body \<le> maxDecodeSize"
    by (simp add: ybeginLine_def ypartLine_def yendLine_def spaced_def one maxDecodeSize_def)
  from yenc_article_roundtrip [OF enc _ _ _ _ _ _ HOL.refl this]
  have "DecodeArticleBuf ?body = (\<lparr>ar_Filename = latin1ToUTF8 [97], ar_Offset = int 1 - 1, ar_HasOffset = True, ar_TotalSize = int 1,
     ar_Data = [214], ar_CRC = ?crc\<rparr>, None)" by simp
  then show ?thesis by (intro exI [of _ ?body]) (simp add: latin1ToUTF8_def)
qed

text \<open>C30: What the decoder accepts: when it returns no error, the body is at most 10 MiB, the data is at most as
  long as the body, the offset is in [0, 2 to the 48), the checksum it reports is the CRC-32 of the
  data, the trailer's declared size is the data's length and the trailer's checksum, when it
  declares one, is the data's.\<close>

theorem accepted_article_sound:
  assumes "DecodeArticleBuf body = (art, None)"
  shows "length body \<le> maxDecodeSize \<and> length (ar_Data art) \<le> length body
    \<and> 0 \<le> ar_Offset art \<and> ar_Offset art < 2 ^ 48 \<and> ar_CRC art = ChecksumIEEE (ar_Data art)
    \<and> (\<exists>hdr start at t. parseHeader body = Inr (hdr, start) \<and> trailerAt body start = Some at
        \<and> parseTrailer (trailerLine (drop at body)) (yh_isPart hdr) = Inr t
        \<and> yt_size t = int (length (ar_Data art)) \<and> (yt_valid t \<longrightarrow> yt_crc t = ChecksumIEEE (ar_Data art)))"
proof -
  obtain hdr start "at" t where p: "length body \<le> maxDecodeSize" "parseHeader body = Inr (hdr, start)" "trailerAt body start = Some at"
    "parseTrailer (trailerLine (drop at body)) (yh_isPart hdr) = Inr t"
    and a: "ar_Data art = decodeLoop (take (at - start) (drop start body)) False []" "ar_Offset art = yh_offset hdr"
      "ar_CRC art = ChecksumIEEE (ar_Data art)" "yt_size t = int (length (ar_Data art))" "yt_valid t \<longrightarrow> yt_crc t = ChecksumIEEE (ar_Data art)"
    using assms by (auto simp: DecodeArticleBuf_def decodeBody_def Let_def split: if_splits sum.splits option.splits)
  have "length (ar_Data art) \<le> length body"
    using yDec_length [of False "take (at - start) (drop start body)"] by (simp add: a(1) decodeLoop_yDec) linarith
  moreover have "0 \<le> yh_offset hdr \<and> yh_offset hdr < 2 ^ 48" by (rule parseHeader_offset [OF p(2)])
  ultimately show ?thesis using p a by auto
qed

theorem accepted_article_sound_witness:
  "snd (DecodeArticleBuf (lit ''=ybegin size=1 name=a'' @ [10, 52, 10] @ lit ''=yend size=1'')) = None
   \<and> ar_CRC (fst (DecodeArticleBuf (lit ''=ybegin size=1 name=a'' @ [10, 52, 10] @ lit ''=yend size=1''))) = ChecksumIEEE [10]"
proof -
  let ?b = "lit ''=ybegin size=1 name=a'' @ [10, 52, 10] @ lit ''=yend size=1''"
  have n: "snd (DecodeArticleBuf ?b) = None \<and> ar_Data (fst (DecodeArticleBuf ?b)) = [10]"
    by (simp add: DecodeArticleBuf_def maxDecodeSize_def parseHeader_def parseKeyValues_def bytes_Cut_def kvLoop.simps TrimRight_def
        beginField_def ParseInt_def ParseUint_def digitVal_def Let_def trailerAt_def decodeBody_def decodeLoop_yDec parseTrailer_def
        trailerLine_def trailerField_def latin1ToUTF8_def)
  then have "DecodeArticleBuf ?b = (fst (DecodeArticleBuf ?b), None)" by (metis prod.collapse)
  from accepted_article_sound [OF this] show ?thesis using n by simp
qed

end
