(* ===== verification/Decode_Buffers.thy ===== *)
theory Decode_Buffers
  imports Yenc
begin

text \<open>
  The size classes of the decoder's buffer pool (\<^verbatim>\<open>internal/decoder/decoder.go\<close>). A pool is the
  number of buffers it holds per class; \<open>sync.Pool\<close> may drop any of them, so whether \<open>Get\<close> finds
  one is an argument.
\<close>

section \<open>The source\<close>

definition minBufferClass :: nat where
  "minBufferClass = 16 * 1024"

definition minBufferClassShift :: nat where
  "minBufferClassShift = 14"

definition numBufferClasses :: nat where
  "numBufferClasses = 38"

text \<open>\<open>bits.Len64\<close>.\<close>

fun Len64 :: "nat \<Rightarrow> nat" where
  "Len64 n = (if n = 0 then 0 else Suc (Len64 (n div 2)))"

declare Len64.simps [simp del]

definition bufferClass :: "nat \<Rightarrow> nat \<times> nat" where
  "bufferClass n =
     (if n \<le> minBufferClass then (0, minBufferClass)
      else
        (let k = Len64 (n - 1) - 1; step = 2 ^ (k - 2); sz = (n + step - 1) div step * step in
         ((k - minBufferClassShift) * 4 + sz div step - 4, sz)))"

definition clampBufferRequest :: "int \<Rightarrow> nat" where
  "clampBufferRequest capReq = nat (max (min capReq (int maxDecodeSize)) 1)"

definition BufferCap :: "int \<Rightarrow> nat" where
  "BufferCap capReq = snd (bufferClass (clampBufferRequest capReq))"

text \<open>The pools: the capacities of the buffers in each class. \<open>GetBuffer\<close> returns the capacity of the
  buffer it hands out, \<open>hit\<close> saying whether the pool still had one.\<close>

type_synonym pools = "nat \<Rightarrow> nat list"

definition GetBuffer :: "bool \<Rightarrow> int \<Rightarrow> pools \<Rightarrow> nat \<times> pools" where
  "GetBuffer hit capReq pl =
     (case bufferClass (clampBufferRequest capReq) of (idx, sz) \<Rightarrow>
      case pl idx of
        [] \<Rightarrow> (sz, pl)
      | c # cs \<Rightarrow> if hit then (c, pl(idx := cs)) else (sz, pl))"

definition PutBuffer :: "nat \<Rightarrow> pools \<Rightarrow> pools" where
  "PutBuffer c pl =
     (if c < minBufferClass \<or> c > maxDecodeSize then pl
      else case bufferClass c of (idx, sz) \<Rightarrow> if sz \<noteq> c then pl else pl(idx := c # pl idx))"

section \<open>Classes\<close>

lemma Len64_bounds: "0 < n \<Longrightarrow> 0 < Len64 n \<and> 2 ^ (Len64 n - 1) \<le> n \<and> n < 2 ^ Len64 n"
proof (induction n rule: Len64.induct)
  case (1 n)
  show ?case
  proof (cases "n div 2 = 0")
    case True
    then have "n = 1" using 1(2) by linarith
    then show ?thesis by (simp add: Len64.simps)
  next
    case False
    then obtain l where l: "Len64 (n div 2) = Suc l" "2 ^ l \<le> n div 2" "n div 2 < 2 ^ Suc l"
      using 1 by (cases "Len64 (n div 2)") auto
    then have "2 * 2 ^ l \<le> n" "n < 2 * 2 ^ Suc l" by linarith+
    then show ?thesis using 1(2) l(1) by (simp add: Len64.simps [of n])
  qed
qed

lemma Len64_unique: "2 ^ k \<le> n \<Longrightarrow> n < 2 ^ Suc k \<Longrightarrow> Len64 n = Suc k"
proof -
  assume a: "2 ^ k \<le> n" "n < 2 ^ Suc k"
  have "0 < n" using a(1) less_le_trans [of 0 "2 ^ k" n] by simp
  note b = Len64_bounds [OF this]
  have "(2 :: nat) ^ k < 2 ^ Len64 n" "(2 :: nat) ^ (Len64 n - 1) < 2 ^ Suc k" using a b by linarith+
  then have "k < Len64 n" "Len64 n - 1 < Suc k" by (simp_all only: power_strict_increasing_iff one_less_numeral_iff semiring_norm(76))
  then show ?thesis by simp
qed

text \<open>A class above the smallest is \<open>q\<close> steps of \<open>2 ^ j\<close>, \<open>q\<close> from 5 to 8.\<close>

lemma bufferClass_steps:
  assumes "4 * 2 ^ j < n" and "n \<le> 8 * 2 ^ j" and "12 \<le> j"
  shows "bufferClass n = ((j - 12) * 4 + (n + 2 ^ j - 1) div 2 ^ j - 4, (n + 2 ^ j - 1) div 2 ^ j * 2 ^ j)"
    and "5 \<le> (n + 2 ^ j - 1) div 2 ^ j" and "(n + 2 ^ j - 1) div 2 ^ j \<le> 8"
    and "n \<le> (n + 2 ^ j - 1) div 2 ^ j * 2 ^ j" and "(n + 2 ^ j - 1) div 2 ^ j * 2 ^ j < n + 2 ^ j"
proof -
  define s :: nat where "s = 2 ^ j"
  have s: "0 < s" "2 ^ 12 \<le> s" using assms(3) power_increasing [of 12 j "2 :: nat"] by (simp_all add: s_def)
  define q where "q = (n + s - 1) div s"
  have n: "4 * s < n" "n \<le> 8 * s" using assms by (simp_all add: s_def)
  have "q * s + (n + s - 1) mod s = n + s - 1" by (simp add: q_def)
  moreover have "(n + s - 1) mod s < s" using s by simp
  ultimately have b: "q * s \<le> n + s - 1" "n + s - 1 < q * s + s" by linarith+
  have q: "n \<le> q * s" "q * s < n + s" using b s n by linarith+
  have "4 * s < q * s" "q * s < 9 * s" using q n by linarith+
  then have q58: "4 < q" "q < 9" by simp_all
  have len: "Len64 (n - 1) = Suc (j + 2)" by (rule Len64_unique) (use n in \<open>simp_all add: s_def [symmetric] power_add\<close>)
  have "\<not> n \<le> minBufferClass" using n s by (simp add: minBufferClass_def)
  then have "bufferClass n = ((j + 2 - 14) * 4 + q * s div s - 4, q * s)"
    by (simp add: bufferClass_def len [simplified] Let_def minBufferClassShift_def s_def q_def)
  then show "bufferClass n = ((j - 12) * 4 + (n + 2 ^ j - 1) div 2 ^ j - 4, (n + 2 ^ j - 1) div 2 ^ j * 2 ^ j)"
    using s(1) assms(3) unfolding q_def s_def by simp
  show "5 \<le> (n + 2 ^ j - 1) div 2 ^ j" "(n + 2 ^ j - 1) div 2 ^ j \<le> 8"
    "n \<le> (n + 2 ^ j - 1) div 2 ^ j * 2 ^ j" "(n + 2 ^ j - 1) div 2 ^ j * 2 ^ j < n + 2 ^ j"
    using q58 q unfolding q_def s_def by linarith+
qed

lemma steps_of:
  assumes "minBufferClass < n"
  obtains j where "4 * 2 ^ j < n" "n \<le> 8 * 2 ^ j" "12 \<le> j"
proof -
  define k where "k = Len64 (n - 1) - 1"
  have pos: "0 < n - 1" using assms by (simp add: minBufferClass_def)
  note b = Len64_bounds [OF pos]
  have k: "2 ^ k \<le> n - 1" "n - 1 < 2 ^ Suc k" using b by (simp_all add: k_def)
  have "(2 :: nat) ^ 14 < 2 ^ Suc k" using k(2) assms by (simp add: minBufferClass_def)
  then have "14 < Suc k" by (simp only: power_strict_increasing_iff one_less_numeral_iff semiring_norm(76))
  then have j: "k = (k - 2) + 2" "12 \<le> k - 2" by linarith+
  have "4 * 2 ^ (k - 2) \<le> n - 1" "n - 1 < 8 * 2 ^ (k - 2)" using k by (subst (asm) (1 2) j(1), simp add: power_add)+
  then show ?thesis using that [of "k - 2"] pos j(2) by linarith
qed

lemma class_of_size:
  assumes "5 \<le> q" and "q \<le> 8" and "12 \<le> j"
  shows "bufferClass (q * 2 ^ j) = ((j - 12) * 4 + q - 4, q * 2 ^ j)"
proof -
  define s :: nat where "s = 2 ^ j"
  have s: "0 < s" by (simp add: s_def)
  have "4 * s < q * s" "q * s \<le> 8 * s" using assms(1,2) s by simp_all
  moreover have "(q * s + s - 1) div s = q"
    using s by (intro div_nat_eqI) (simp_all add: algebra_simps)
  ultimately show ?thesis using bufferClass_steps(1) [of j "q * s"] assms(3) by (simp add: s_def)
qed

lemma class_ok:
  assumes n: "n \<le> maxDecodeSize" and c: "bufferClass n = (idx, sz)"
  shows "n \<le> sz" "sz \<le> maxDecodeSize" "idx < numBufferClasses" "minBufferClass \<le> sz" "bufferClass sz = (idx, sz)"
    and "minBufferClass < n \<Longrightarrow> 4 * (sz - n) < n"
    and "idx = 0 \<longrightarrow> sz = minBufferClass"
    and "0 < idx \<longrightarrow> sz = (5 + (idx - 1) mod 4) * 2 ^ (12 + (idx - 1) div 4)"
proof -
  have "n \<le> sz \<and> sz \<le> maxDecodeSize \<and> idx < numBufferClasses \<and> minBufferClass \<le> sz \<and> bufferClass sz = (idx, sz)
    \<and> (minBufferClass < n \<longrightarrow> 4 * (sz - n) < n) \<and> (idx = 0 \<longrightarrow> sz = minBufferClass)
    \<and> (0 < idx \<longrightarrow> sz = (5 + (idx - 1) mod 4) * 2 ^ (12 + (idx - 1) div 4))"
  proof (cases "n \<le> minBufferClass")
    case True
    then show ?thesis using c by (auto simp: bufferClass_def numBufferClasses_def maxDecodeSize_def minBufferClass_def)
  next
    case False
    then obtain j where j: "4 * 2 ^ j < n" "n \<le> 8 * 2 ^ j" "12 \<le> j" by (metis not_le steps_of)
    define q where "q = (n + 2 ^ j - 1) div 2 ^ j"
    note b = bufferClass_steps [OF j, folded q_def]
    have iz: "idx = (j - 12) * 4 + q - 4" "sz = q * 2 ^ j" using b(1) c by simp_all
    have "(4 :: nat) * 2 ^ j < 4 * 2 ^ 22" using j(1) n by (simp add: maxDecodeSize_def)
    then have "(2 :: nat) ^ j < 2 ^ 22" by simp
    then have j21: "j \<le> 21" by (simp only: power_strict_increasing_iff one_less_numeral_iff semiring_norm(76))
    have lt: "(2 :: nat) ^ j * 2 ^ (21 - j) = 2 ^ 21" using j21 by (simp add: power_add [symmetric])
    have q5: "q \<le> 5" if "j = 21"
    proof -
      have "q < 6" unfolding q_def that by (rule less_mult_imp_div_less) (use n in \<open>simp add: maxDecodeSize_def\<close>)
      then show ?thesis by simp
    qed
    have max: "sz \<le> maxDecodeSize"
    proof (cases "j = 21")
      case True
      then show ?thesis using q5 by (simp add: iz maxDecodeSize_def)
    next
      case False
      then have "j \<le> 20" using j21 by simp
      then have "(2 :: nat) ^ j \<le> 2 ^ 20" by (rule power_increasing) simp
      then show ?thesis using mult_le_mono [OF b(3), of "2 ^ j" "2 ^ 20"] by (simp add: iz maxDecodeSize_def)
    qed
    have idx: "idx < numBufferClasses"
      using q5 j21 j(3) b(3) by (cases "j = 21") (auto simp: iz numBufferClasses_def)
    have "bufferClass sz = (idx, sz)" using class_of_size [OF b(2,3) j(3)] by (simp add: iz)
    moreover have "idx - 1 = (j - 12) * 4 + (q - 5)" "q - 5 < 4" "0 < idx" using b(2,3) by (auto simp: iz)
    then have "(idx - 1) mod 4 = q - 5" "(idx - 1) div 4 = j - 12" "0 < idx" by simp_all
    moreover have "4 * (sz - n) < n" using b(4,5) j(1) by (simp add: iz)
    ultimately show ?thesis using b j(3) max idx False by (simp add: iz)
  qed
  then show "n \<le> sz" "sz \<le> maxDecodeSize" "idx < numBufferClasses" "minBufferClass \<le> sz" "bufferClass sz = (idx, sz)"
    and "minBufferClass < n \<Longrightarrow> 4 * (sz - n) < n" and "idx = 0 \<longrightarrow> sz = minBufferClass"
    and "0 < idx \<longrightarrow> sz = (5 + (idx - 1) mod 4) * 2 ^ (12 + (idx - 1) div 4)" by blast+
qed

section \<open>Pools\<close>

definition pools_ok :: "pools \<Rightarrow> bool" where
  "pools_ok pl \<longleftrightarrow> (\<forall>idx. \<forall>c \<in> set (pl idx). c \<le> maxDecodeSize \<and> bufferClass c = (idx, c))"

lemma class_functional:
  assumes "bufferClass n = (idx, sz)" and "bufferClass n' = (idx, sz')" and "n \<le> maxDecodeSize" and "n' \<le> maxDecodeSize"
  shows "sz = sz'"
  using class_ok(7,8) [OF assms(3,1)] class_ok(7,8) [OF assms(4,2)] by (cases "idx = 0") simp_all

lemma clamp_ok: "1 \<le> clampBufferRequest r" "clampBufferRequest r \<le> maxDecodeSize"
  by (auto simp: clampBufferRequest_def maxDecodeSize_def)

inductive pools_reach :: "pools \<Rightarrow> bool" where
  start: "pools_reach (\<lambda>idx. [])"
| get: "pools_reach pl \<Longrightarrow> pools_reach (snd (GetBuffer hit r pl))"
| put: "pools_reach pl \<Longrightarrow> pools_reach (PutBuffer c pl)"
| drop: "pools_reach pl \<Longrightarrow> set (xs) \<subseteq> set (pl idx) \<Longrightarrow> pools_reach (pl(idx := xs))"

lemma pools_reach_ok: "pools_reach pl \<Longrightarrow> pools_ok pl"
proof (induction rule: pools_reach.induct)
  case (get pl hit r)
  obtain idx sz where c: "bufferClass (clampBufferRequest r) = (idx, sz)" by fastforce
  have "set (snd (GetBuffer hit r pl) i) \<subseteq> set (pl i)" for i
    by (cases "pl idx") (auto simp: GetBuffer_def c)
  then show ?case using get.IH unfolding pools_ok_def by blast
next
  case (put pl c)
  then show ?case by (auto simp: pools_ok_def PutBuffer_def split: prod.split)
qed (auto simp: pools_ok_def)

text \<open>Buffer classes: after any sequence of GetBuffer, PutBuffer and drops by the pool, GetBuffer(r) hands out a
  buffer of exactly BufferCap(r) bytes, whether from the pool or new. That capacity holds the
  request (clamped to 1 .. 10 MiB), is at most 10 MiB, is less than a quarter larger than a request
  above 16 KiB, its class index is within the array of pools, and returning the buffer puts it in
  the pool it came from.\<close>

theorem buffer_capacity_exact:
  assumes "pools_reach pl"
  shows "fst (GetBuffer hit r pl) = BufferCap r
    \<and> clampBufferRequest r \<le> BufferCap r \<and> BufferCap r \<le> maxDecodeSize
    \<and> (minBufferClass < clampBufferRequest r \<longrightarrow> 4 * (BufferCap r - clampBufferRequest r) < clampBufferRequest r)
    \<and> fst (bufferClass (clampBufferRequest r)) < numBufferClasses
    \<and> PutBuffer (BufferCap r) pl = pl(fst (bufferClass (clampBufferRequest r)) := BufferCap r # pl (fst (bufferClass (clampBufferRequest r))))"
proof -
  obtain idx sz where c: "bufferClass (clampBufferRequest r) = (idx, sz)" by fastforce
  note o = class_ok [OF clamp_ok(2) c]
  have "x = sz" if "x \<in> set (pl idx)" for x
    using class_functional [OF _ c _ clamp_ok(2)] pools_reach_ok [OF assms] that unfolding pools_ok_def by blast
  then have "fst (GetBuffer hit r pl) = sz" by (auto simp: GetBuffer_def c split: list.split)
  moreover have "PutBuffer sz pl = pl(idx := sz # pl idx)" using o by (simp add: PutBuffer_def)
  ultimately show ?thesis using c o(1,2,3,6) by (simp add: BufferCap_def)
qed

theorem buffer_capacity_exact_witness:
  "fst (GetBuffer True 20000 (PutBuffer 20480 (\<lambda>idx. []))) = 20480"
proof -
  have "Len64 19999 = 15" by (rule Len64_unique [of 14, simplified]) simp_all
  then have "BufferCap 20000 = 20480"
    by (simp add: BufferCap_def clampBufferRequest_def bufferClass_def maxDecodeSize_def minBufferClass_def Let_def)
  then show ?thesis using buffer_capacity_exact [OF pools_reach.put [OF pools_reach.start], of True 20000 20480] by simp
qed

end
