(* ===== verification/Uu.thy ===== *)
theory Uu
  imports Yenc
begin

text \<open>
  The UU decoder (\<^verbatim>\<open>internal/decoder/uu.go\<close>). An index out of range would be a Go panic: the line
  decoder returns \<open>None\<close> there, and the theorem shows it never does.
\<close>

section \<open>The source\<close>

datatype UUError = ErrNotUU | UUBodyTooLarge | IndexPanic

definition uuVal :: "byte \<Rightarrow> byte" where
  "uuVal c = (c - 0x20) AND 0x3f"

text \<open>The body of the loop of \<open>decodeUULine\<close>.\<close>

definition uuGroup :: "byte \<Rightarrow> byte \<Rightarrow> byte \<Rightarrow> byte \<Rightarrow> nat \<Rightarrow> bytes \<Rightarrow> bytes" where
  "uuGroup a b c d rawLen out =
     (let out1 = out @ [push_bit 2 a OR drop_bit 4 b];
          out2 = (if length out1 < rawLen then out1 @ [push_bit 4 b OR drop_bit 2 c] else out1) in
      if length out2 < rawLen then out2 @ [push_bit 6 c OR d] else out2)"

lemma uuGroup_longer: "length out < length (uuGroup a b c d rawLen out)"
  by (simp add: uuGroup_def Let_def)

function uuLoop :: "bytes \<Rightarrow> nat \<Rightarrow> nat \<Rightarrow> bytes \<Rightarrow> bytes option" where
  "uuLoop enc rawLen i out =
     (if length out < rawLen then
        (if i + 3 < length enc
         then uuLoop enc rawLen (i + 4) (uuGroup (uuVal (enc ! i)) (uuVal (enc ! (i + 1))) (uuVal (enc ! (i + 2))) (uuVal (enc ! (i + 3))) rawLen out)
         else None)
      else Some out)"
  by pat_completeness auto
termination
proof (relation "measure (\<lambda>(_, rawLen, _, out). rawLen - length out)")
  fix enc out :: bytes and rawLen i :: nat
  assume "length out < rawLen"
  then show "((enc, rawLen, i + 4, uuGroup (uuVal (enc ! i)) (uuVal (enc ! (i + 1))) (uuVal (enc ! (i + 2))) (uuVal (enc ! (i + 3))) rawLen out),
      enc, rawLen, i, out) \<in> measure (\<lambda>(_, rawLen, _, out). rawLen - length out)"
    using uuGroup_longer by (simp add: diff_less_mono2)
qed simp

declare uuLoop.simps [simp del]

definition decodeUULine :: "bytes \<Rightarrow> nat \<Rightarrow> bytes option" where
  "decodeUULine enc0 rawLen =
     (let needed = (rawLen + 2) div 3 * 4;
          enc = (if length enc0 < needed then enc0 @ replicate (needed - length enc0) 32 else enc0) in
      map_option (take rawLen) (uuLoop enc rawLen 0 []))"

text \<open>\<open>strings.SplitN(s, " ", 3)\<close> when it has three parts.\<close>

definition split3 :: "bytes \<Rightarrow> (bytes \<times> bytes \<times> bytes) option" where
  "split3 s = (case bytes_Cut s 32 of None \<Rightarrow> None
     | Some (a, r) \<Rightarrow> (case bytes_Cut r 32 of None \<Rightarrow> None | Some (b, c) \<Rightarrow> Some (a, b, c)))"

function uuLines :: "bytes \<Rightarrow> bytes \<Rightarrow> bytes option" where
  "uuLines rest out =
     (case bytes_Cut rest 10 of
        None \<Rightarrow> Some out
      | Some (line0, rest1) \<Rightarrow>
          (let line = TrimRight line0 [13] in
           if line = lit ''end'' then Some out
           else if line = [] then uuLines rest1 out
           else
             (let rawLen = unat (uuVal (hd line)) in
              if rawLen = 0 then Some out
              else (case decodeUULine (tl line) rawLen of
                      None \<Rightarrow> None
                    | Some d \<Rightarrow> uuLines rest1 (out @ d)))))"
  by pat_completeness auto
termination
  by (relation "measure (\<lambda>(r, _). length r)") (auto dest: bytes_Cut_length)

declare uuLines.simps [simp del]

definition DecodeUUBuf :: "bytes \<Rightarrow> (UUError, bytes \<times> bytes) result" where
  "DecodeUUBuf body =
     (if length body > maxDecodeSize then Inl UUBodyTooLarge
      else
        (case bytes_Cut body 10 of
           None \<Rightarrow> Inl ErrNotUU
         | Some (line, rest) \<Rightarrow>
             (case split3 (TrimRight line [13, 32]) of
                None \<Rightarrow> Inl ErrNotUU
              | Some (a, _, filename) \<Rightarrow>
                  if a \<noteq> lit ''begin'' then Inl ErrNotUU
                  else (case uuLines rest [] of None \<Rightarrow> Inl IndexPanic | Some out \<Rightarrow> Inr (out, filename)))))"

section \<open>No index is out of range\<close>

lemma uuGroup_length: "length out < rawLen \<Longrightarrow> length (uuGroup a b c d rawLen out) = min rawLen (length out + 3)"
  by (auto simp: uuGroup_def Let_def)

lemma uuLoop_total:
  assumes "(rawLen - length out + 2) div 3 * 4 + i \<le> length enc"
  shows "\<exists>res. uuLoop enc rawLen i out = Some res \<and> rawLen \<le> length res"
  using assms
proof (induction enc rawLen i out rule: uuLoop.induct)
  case (1 enc rawLen i out)
  show ?case
  proof (cases "length out < rawLen")
    case True
    let ?out = "uuGroup (uuVal (enc ! i)) (uuVal (enc ! (i + 1))) (uuVal (enc ! (i + 2))) (uuVal (enc ! (i + 3))) rawLen out"
    define r where "r = rawLen - length out"
    have r: "0 < r" "rawLen - length ?out = r - 3" using True by (auto simp: r_def uuGroup_length)
    have "(r + 2) div 3 = Suc ((r - 3 + 2) div 3)" using r(1) by presburger
    then have n: "(rawLen - length ?out + 2) div 3 * 4 + (i + 4) \<le> length enc" and i: "i + 3 < length enc"
      using 1(2) unfolding r(2) r_def [symmetric] by simp_all
    show ?thesis using 1(1) [OF True i n] True i by (simp add: uuLoop.simps [of enc rawLen i out])
  qed (simp add: uuLoop.simps)
qed

lemma decodeUULine_total: "\<exists>res. decodeUULine enc rawLen = Some res \<and> length res = rawLen"
proof -
  define needed where "needed = (rawLen + 2) div 3 * 4"
  define enc1 where "enc1 = (if length enc < needed then enc @ replicate (needed - length enc) 32 else enc)"
  have "(rawLen - length [] + 2) div 3 * 4 + 0 \<le> length enc1" by (simp add: enc1_def needed_def)
  from uuLoop_total [OF this] obtain res where "uuLoop enc1 rawLen 0 [] = Some res" "rawLen \<le> length res" by blast
  moreover have "decodeUULine enc rawLen = map_option (take rawLen) (uuLoop enc1 rawLen 0 [])"
    unfolding decodeUULine_def Let_def enc1_def needed_def ..
  ultimately show ?thesis by simp
qed

lemma uuLines_total: "uuLines rest out \<noteq> None"
proof (induction rest out rule: uuLines.induct)
  case (1 rest out)
  show ?case
  proof (cases "bytes_Cut rest 10")
    case (Some lr)
    obtain line0 rest1 where lr: "lr = (line0, rest1)" by fastforce
    let ?line = "TrimRight line0 [13]"
    let ?n = "unat (uuVal (hd ?line))"
    obtain d where d: "decodeUULine (tl ?line) ?n = Some d" using decodeUULine_total by blast
    have IH1: "uuLines rest1 out \<noteq> None" if "?line \<noteq> lit ''end''" "?line = []"
      using 1(1) [OF Some lr [symmetric] HOL.refl] that by blast
    have IH2: "uuLines rest1 (out @ d) \<noteq> None" if "?line \<noteq> lit ''end''" "?line \<noteq> []" "?n \<noteq> 0"
      using 1(2) [OF Some lr [symmetric] HOL.refl that(1,2) HOL.refl that(3) d] .
    show ?thesis using Some lr d IH1 IH2 by (simp add: uuLines.simps [of rest out] Let_def del: lit_byte)
  qed (simp add: uuLines.simps)
qed

section \<open>Encoding\<close>

definition uuChar :: "byte \<Rightarrow> byte" where
  "uuChar v = (if v = 0 then 96 else v + 32)"

definition uuQuad :: "byte \<Rightarrow> byte \<Rightarrow> byte \<Rightarrow> bytes" where
  "uuQuad x y z = [uuChar (drop_bit 2 x), uuChar ((push_bit 4 x OR drop_bit 4 y) AND 63),
     uuChar ((push_bit 2 y OR drop_bit 6 z) AND 63), uuChar (z AND 63)]"

fun uuEnc :: "bytes \<Rightarrow> bytes" where
  "uuEnc (x # y # z # r) = uuQuad x y z @ uuEnc r"
| "uuEnc [x, y] = uuQuad x y 0"
| "uuEnc [x] = uuQuad x 0 0"
| "uuEnc [] = []"

definition uuLine :: "bytes \<Rightarrow> bytes" where
  "uuLine d = (word_of_nat (length d) + 32) # uuEnc d"

lemma byte_bits: "n < 8 \<longleftrightarrow> n = 0 \<or> n = 1 \<or> n = 2 \<or> n = 3 \<or> n = 4 \<or> n = 5 \<or> n = 6 \<or> (n :: nat) = 7"
  by auto

lemma byte_eqI: "(\<And>n. n < 8 \<Longrightarrow> bit v n = bit w n) \<Longrightarrow> v = (w :: byte)"
  by (rule bit_word_eqI) simp

lemma uuVal_uuChar: "v AND 63 = v \<Longrightarrow> uuVal (uuChar v) = v"
  by (simp add: uuVal_def uuChar_def)

lemma six_bits: "drop_bit 2 x AND 63 = drop_bit 2 (x :: byte)"
proof (rule byte_eqI)
  fix n :: nat assume "n < 8"
  then show "bit (drop_bit 2 x AND 63) n = bit (drop_bit 2 x) n"
    unfolding byte_bits by (elim disjE) (auto simp: bit_simps bit_numeral_rec dest: bit_imp_le_length)
qed

lemma uuQuad_vals:
  defines "q \<equiv> \<lambda>x y z k. uuVal (uuQuad x y z ! k)"
  shows "push_bit 2 (q x y z 0) OR drop_bit 4 (q x y z 1) = x"
    and "push_bit 4 (q x y z 1) OR drop_bit 2 (q x y z 2) = y"
    and "push_bit 6 (q x y z 2) OR q x y z 3 = z"
proof -
  have v: "q x y z 0 = drop_bit 2 x" "q x y z 1 = (push_bit 4 x OR drop_bit 4 y) AND 63"
    "q x y z 2 = (push_bit 2 y OR drop_bit 6 z) AND 63" "q x y z 3 = z AND 63"
    by (simp_all add: q_def uuQuad_def uuVal_uuChar six_bits and.assoc)
  show "push_bit 2 (q x y z 0) OR drop_bit 4 (q x y z 1) = x" unfolding v
  proof (rule byte_eqI)
    fix n :: nat assume "n < 8"
    then show "bit (push_bit 2 (drop_bit 2 x) OR drop_bit 4 ((push_bit 4 x OR drop_bit 4 y) AND 63)) n = bit x n"
      unfolding byte_bits by (elim disjE) (simp_all add: bit_simps bit_numeral_rec)
  qed
  show "push_bit 4 (q x y z 1) OR drop_bit 2 (q x y z 2) = y" unfolding v
  proof (rule byte_eqI)
    fix n :: nat assume "n < 8"
    then show "bit (push_bit 4 ((push_bit 4 x OR drop_bit 4 y) AND 63) OR drop_bit 2 ((push_bit 2 y OR drop_bit 6 z) AND 63)) n = bit y n"
      unfolding byte_bits by (elim disjE) (simp_all add: bit_simps bit_numeral_rec)
  qed
  show "push_bit 6 (q x y z 2) OR q x y z 3 = z" unfolding v
  proof (rule byte_eqI)
    fix n :: nat assume "n < 8"
    then show "bit (push_bit 6 ((push_bit 2 y OR drop_bit 6 z) AND 63) OR z AND 63) n = bit z n"
      unfolding byte_bits by (elim disjE) (simp_all add: bit_simps bit_numeral_rec)
  qed
qed

lemma uuQuad_nth:
  "(pre @ uuQuad x y z @ r) ! length pre = uuQuad x y z ! 0" "(pre @ uuQuad x y z @ r) ! (length pre + 1) = uuQuad x y z ! 1"
  "(pre @ uuQuad x y z @ r) ! (length pre + 2) = uuQuad x y z ! 2" "(pre @ uuQuad x y z @ r) ! (length pre + 3) = uuQuad x y z ! 3"
  by (simp_all add: nth_append uuQuad_def)

lemma uuLoop_quad:
  assumes "length out < rawLen"
  shows "uuLoop (pre @ uuQuad x y z @ r) rawLen (length pre) out =
    uuLoop (pre @ uuQuad x y z @ r) rawLen (length (pre @ uuQuad x y z)) (take rawLen (out @ [x, y, z]))"
proof -
  have len: "length (uuQuad x y z) = 4" by (simp add: uuQuad_def)
  have g: "uuGroup (uuVal (uuQuad x y z ! 0)) (uuVal (uuQuad x y z ! 1)) (uuVal (uuQuad x y z ! 2)) (uuVal (uuQuad x y z ! 3)) rawLen out
      = take rawLen (out @ [x, y, z])"
    unfolding uuGroup_def Let_def uuQuad_vals using assms by (auto simp: take_Cons' not_less le_Suc_eq)
  have i: "length pre + 3 < length (pre @ uuQuad x y z @ r)" by (simp add: len)
  show ?thesis
    by (simp only: uuLoop.simps [of "pre @ uuQuad x y z @ r" rawLen "length pre" out] assms i if_True uuQuad_nth g length_append len) simp
qed

lemma uuLoop_enc: "uuLoop (pre @ uuEnc d) (length out + length d) (length pre) out = Some (out @ d)"
proof (induction d arbitrary: pre out rule: uuEnc.induct)
  case (1 x y z r)
  have "uuLoop (pre @ uuEnc (x # y # z # r)) (length out + length (x # y # z # r)) (length pre) out
      = uuLoop ((pre @ uuQuad x y z) @ uuEnc r) (length (out @ [x, y, z]) + length r) (length (pre @ uuQuad x y z)) (out @ [x, y, z])"
    using uuLoop_quad [of out "length out + length (x # y # z # r)" pre x y z "uuEnc r"] by simp
  then show ?case using 1 [of "pre @ uuQuad x y z" "out @ [x, y, z]"] by simp
next
  case (2 x y)
  show ?case using uuLoop_quad [of out "length out + 2" pre x y 0 "[]"] by (simp add: uuLoop.simps [of _ _ _ "out @ [x, y]"])
next
  case (3 x)
  show ?case using uuLoop_quad [of out "length out + 1" pre x 0 0 "[]"] by (simp add: uuLoop.simps [of _ _ _ "out @ [x]"])
next
  case 4
  show ?case by (simp add: uuLoop.simps)
qed

lemma uuEnc_length: "length (uuEnc d) = (length d + 2) div 3 * 4"
proof (induction d rule: uuEnc.induct)
  case (1 x y z r)
  have "(length (x # y # z # r) + 2) div 3 = Suc ((length r + 2) div 3)" by simp
  then show ?case using 1 by (simp add: uuQuad_def)
qed (simp_all add: uuQuad_def)

lemma decodeUULine_enc: "decodeUULine (uuEnc d) (length d) = Some d"
  using uuLoop_enc [of "[]" d "[]"] by (simp add: decodeUULine_def uuEnc_length Let_def)

section \<open>A posted article\<close>

lemma uuChar_bytes: "v AND 63 = v \<Longrightarrow> 32 < uuChar v \<and> uuChar v \<le> 96"
proof -
  assume "v AND 63 = v"
  then have "v \<le> 63" by (metis word_and_le1)
  then have "unat v \<le> 63" by (simp add: word_le_nat_alt)
  then show ?thesis
    by (auto simp: uuChar_def word_less_nat_alt word_le_nat_alt unat_word_ariths unat_gt_0)
qed

lemma uuQuad_bytes: "c \<in> set (uuQuad x y z) \<Longrightarrow> 32 < c \<and> c \<le> 96"
  unfolding uuQuad_def using uuChar_bytes by (auto simp: six_bits and.assoc)

lemma uuEnc_bytes: "c \<in> set (uuEnc d) \<Longrightarrow> 32 < c \<and> c \<le> 96"
  by (induction d rule: uuEnc.induct) (auto dest: uuQuad_bytes)

lemma uuLine_head:
  assumes "0 < length d" and "length d < 64"
  shows "uuVal (word_of_nat (length d) + 32) = word_of_nat (length d)" "32 < (word_of_nat (length d) + 32 :: byte)"
    "(word_of_nat (length d) + 32 :: byte) \<le> 96"
proof -
  have u: "unat (word_of_nat (length d) :: byte) = length d" using assms by (simp add: unat_of_nat)
  have "word_of_nat (length d) AND 63 = (take_bit 6 (word_of_nat (length d)) :: byte)" by (simp add: take_bit_eq_mask mask_eq_exp_minus_1)
  also have "\<dots> = word_of_nat (length d)" using assms by (simp add: take_bit_of_nat take_bit_nat_eq_self)
  finally show "uuVal (word_of_nat (length d) + 32) = word_of_nat (length d)" by (simp add: uuVal_def)
  show "32 < (word_of_nat (length d) + 32 :: byte)" "(word_of_nat (length d) + 32 :: byte) \<le> 96"
    using assms u by (simp_all add: word_less_nat_alt word_le_nat_alt unat_word_ariths)
qed

lemma uuLines_line:
  assumes "0 < length d" and "length d < 64"
  shows "uuLines (uuLine d @ 10 # rest) out = uuLines rest (out @ d)"
proof -
  note h = uuLine_head [OF assms]
  have r: "32 < c \<and> c \<le> 96" if "c \<in> set (uuLine d)" for c
    using that h(2,3) by (auto simp: uuLine_def dest: uuEnc_bytes)
  have "10 \<notin> set (uuLine d)" using r by force
  then have cut: "bytes_Cut (uuLine d @ 10 # rest) 10 = Some (uuLine d, rest)" by (rule bytes_Cut_app)
  have "last (uuLine d) \<in> set (uuLine d)" by (simp add: uuLine_def)
  then have "last (uuLine d) \<noteq> 13" using r by force
  then have trim: "TrimRight (uuLine d) [13] = uuLine d" by (simp add: TrimRight_id)
  have "101 \<notin> set (uuLine d)" using r by force
  then have ne: "uuLine d \<noteq> lit ''end''" by auto
  have n: "unat (uuVal (hd (uuLine d))) = length d" "tl (uuLine d) = uuEnc d"
    using assms h(1) by (simp_all add: uuLine_def unat_of_nat)
  show ?thesis using cut trim ne n assms decodeUULine_enc [of d]
    by (simp add: uuLines.simps [of "uuLine d @ 10 # rest"] Let_def del: lit_byte) (simp add: uuLine_def)
qed

lemma uuLines_chunks:
  assumes "\<forall>d \<in> set ds. 0 < length d \<and> length d < 64"
  shows "uuLines (concat (map (\<lambda>d. uuLine d @ [10]) ds) @ 96 # 10 # rest) out = Some (out @ concat ds)"
  using assms
proof (induction ds arbitrary: out)
  case Nil
  have "bytes_Cut ([96] @ 10 # rest) 10 = Some ([96], rest)" by (rule bytes_Cut_app) simp
  moreover have "TrimRight [96] [13] = [96 :: byte]" by (rule TrimRight_id) simp
  ultimately show ?case by (simp add: uuLines.simps [of "96 # 10 # rest"] Let_def uuVal_def)
next
  case (Cons d ds)
  then show ?case using uuLines_line [of d "concat (map (\<lambda>d. uuLine d @ [10]) ds) @ 96 # 10 # rest" out] by simp
qed

text \<open>C31: UU decoding: on any body the decoder indexes within its lines, whatever their declared lengths; and an
  article whose data is encoded in lines of 1 to 63 bytes, after a begin line with any mode and any
  name that ends in no space or carriage return, decodes to that data and name.\<close>

theorem uu_total_and_roundtrip:
  "DecodeUUBuf body \<noteq> Inl IndexPanic
   \<and> (body = lit ''begin '' @ mode @ 32 # name @ 10 # concat (map (\<lambda>d. uuLine d @ [10]) ds) @ 96 # 10 # rest
      \<and> length body \<le> maxDecodeSize \<and> set mode \<inter> {10, 32} = {} \<and> 10 \<notin> set name \<and> name \<noteq> [] \<and> last name \<notin> {13, 32}
      \<and> list_all (\<lambda>d. 0 < length d \<and> length d < 64) ds
      \<longrightarrow> DecodeUUBuf body = Inr (concat ds, name))"
proof (intro conjI impI)
  show "DecodeUUBuf body \<noteq> Inl IndexPanic" using uuLines_total
    by (auto simp: DecodeUUBuf_def simp del: not_None_eq split: option.split prod.split)
next
  let ?rest = "concat (map (\<lambda>d. uuLine d @ [10]) ds) @ 96 # 10 # rest"
  assume a: "body = lit ''begin '' @ mode @ 32 # name @ 10 # concat (map (\<lambda>d. uuLine d @ [10]) ds) @ 96 # 10 # rest
      \<and> length body \<le> maxDecodeSize \<and> set mode \<inter> {10, 32} = {} \<and> 10 \<notin> set name \<and> name \<noteq> [] \<and> last name \<notin> {13, 32}
      \<and> list_all (\<lambda>d. 0 < length d \<and> length d < 64) ds"
  let ?line = "lit ''begin '' @ mode @ 32 # name"
  have cut: "bytes_Cut (?line @ 10 # ?rest) 10 = Some (?line, ?rest)" by (rule bytes_Cut_app) (use a in auto)
  have trim: "TrimRight ?line [13, 32] = ?line" using a by (intro TrimRight_id) auto
  have "bytes_Cut (lit ''begin'' @ 32 # mode @ 32 # name) 32 = Some (lit ''begin'', mode @ 32 # name)"
    by (rule bytes_Cut_app) simp
  moreover have "bytes_Cut (mode @ 32 # name) 32 = Some (mode, name)" by (rule bytes_Cut_app) (use a in auto)
  ultimately have sp: "split3 ?line = Some (lit ''begin'', mode, name)" by (simp add: split3_def)
  have "uuLines ?rest [] = Some (concat ds)" using uuLines_chunks [of ds rest "[]"] a by (simp add: list_all_iff)
  moreover have "body = ?line @ 10 # ?rest" using a by simp
  moreover have "\<not> maxDecodeSize < length body" using a by (meson not_le)
  ultimately show "DecodeUUBuf body = Inr (concat ds, name)" using cut trim sp by (simp add: DecodeUUBuf_def)
qed

theorem uu_total_and_roundtrip_witness:
  "DecodeUUBuf (lit ''begin 6 a'' @ [10] @ uuLine [1, 2, 3, 4] @ [10, 96, 10]) = Inr ([1, 2, 3, 4], lit ''a'')"
  using uu_total_and_roundtrip [of "lit ''begin 6 a'' @ [10] @ uuLine [1, 2, 3, 4] @ [10, 96, 10]" "lit ''6''" "lit ''a''" "[[1, 2, 3, 4]]" "[]"]
  by (simp add: maxDecodeSize_def uuLine_def uuQuad_def)

end
