(* ===== verification/Ranges.thy ===== *)
theory Ranges
  imports Prelude
begin

text \<open>
  The byte ranges of a file and who wrote them (\<^verbatim>\<open>internal/assembler/ranges.go\<close>): a sorted list of
  disjoint ranges, searched by \<open>sort.Search\<close>. The refinement theorem reads it as a set of owned
  bytes. The locale \<open>range_set\<close> states what the file writer relies on.
\<close>

section \<open>The source\<close>

record Range =
  rg_Off :: int
  rg_Len :: int

definition rg_end :: "Range \<Rightarrow> int" where
  "rg_end r = rg_Off r + rg_Len r"

definition rg_intersects :: "Range \<Rightarrow> Range \<Rightarrow> bool" where
  "rg_intersects r s \<longleftrightarrow> rg_Len r > 0 \<and> rg_Len s > 0 \<and> rg_Off r < rg_end s \<and> rg_Off s < rg_end r"

text \<open>An owned range is a range and the index of the article that wrote it.\<close>

type_synonym ownedRanges = "(Range \<times> int) list"

definition firstAfter :: "ownedRanges \<Rightarrow> Range \<Rightarrow> nat" where
  "firstAfter s r = sort_Search (length s) (\<lambda>i. rg_end (fst (s ! i)) > rg_Off r)"

fun ownerScan :: "Range \<Rightarrow> ownedRanges \<Rightarrow> int option" where
  "ownerScan r [] = None"
| "ownerScan r (o1 # os) =
     (if rg_Off (fst o1) < rg_end r
      then (if rg_intersects (fst o1) r then Some (snd o1) else ownerScan r os)
      else None)"

definition ownerOf :: "ownedRanges \<Rightarrow> Range \<Rightarrow> int option" where
  "ownerOf s r = ownerScan r (drop (firstAfter s r) s)"

fun coveredScan :: "Range \<Rightarrow> ownedRanges \<Rightarrow> int" where
  "coveredScan r [] = 0"
| "coveredScan r (o1 # os) =
     (if rg_Off (fst o1) < rg_end r
      then (let lo = max (rg_Off (fst o1)) (rg_Off r); hi = min (rg_end (fst o1)) (rg_end r) in
            (if hi > lo then hi - lo else 0) + coveredScan r os)
      else 0)"

definition covered :: "ownedRanges \<Rightarrow> Range \<Rightarrow> int" where
  "covered s r = coveredScan r (drop (firstAfter s r) s)"

text \<open>\<open>None\<close> is the panic of \<open>claim\<close>.\<close>

definition claim :: "Range \<Rightarrow> int \<Rightarrow> ownedRanges \<Rightarrow> ownedRanges option" where
  "claim r artIdx s =
     (if rg_Len r \<le> 0 then Some s
      else
        (let lo = firstAfter s r in
         if lo < length s \<and> rg_Off (fst (s ! lo)) < rg_end r then None
         else Some (take lo s @ (r, artIdx) # drop lo s)))"

definition maxEnd :: "ownedRanges \<Rightarrow> int" where
  "maxEnd s = (if s = [] then 0 else rg_end (fst (last s)))"

definition seededOwner :: int where
  "seededOwner = -1"

fun seedLoop :: "ownedRanges \<Rightarrow> Range list \<Rightarrow> ownedRanges" where
  "seedLoop s [] = s"
| "seedLoop s (r # rs) =
     (if s \<noteq> [] \<and> rg_Off r \<le> rg_end (fst (last s))
      then seedLoop (if rg_end r > rg_end (fst (last s))
                     then butlast s @ [((fst (last s))\<lparr>rg_Len := rg_end r - rg_Off (fst (last s))\<rparr>, snd (last s))]
                     else s) rs
      else seedLoop (s @ [(r, seededOwner)]) rs)"

text \<open>\<open>None\<close> is \<open>errSeedNotEmpty\<close>. The order of ranges with one offset does not matter: they merge.\<close>

definition seed :: "Range list \<Rightarrow> ownedRanges \<Rightarrow> ownedRanges option" where
  "seed rs s =
     (if s \<noteq> [] then None
      else Some (seedLoop s (sort_key rg_Off (filter (\<lambda>r. \<not> rg_Len r \<le> 0) rs))))"

section \<open>Sorted and disjoint\<close>

definition rg_bytes :: "Range \<Rightarrow> int set" where
  "rg_bytes r = {rg_Off r..<rg_end r}"

definition owned_bytes :: "ownedRanges \<Rightarrow> int set" where
  "owned_bytes s = (\<Union>o1 \<in> set s. rg_bytes (fst o1))"

definition owned_ok :: "ownedRanges \<Rightarrow> bool" where
  "owned_ok s \<longleftrightarrow> (\<forall>o1 \<in> set s. rg_Len (fst o1) > 0) \<and> sorted_wrt (\<lambda>a b. rg_end (fst a) \<le> rg_Off (fst b)) s"

lemma owned_okD:
  assumes "owned_ok s"
  shows "i < length s \<Longrightarrow> rg_Off (fst (s ! i)) < rg_end (fst (s ! i))"
    and "i < j \<Longrightarrow> j < length s \<Longrightarrow> rg_end (fst (s ! i)) \<le> rg_Off (fst (s ! j))"
  using assms nth_mem [of i s] by (auto simp: owned_ok_def rg_end_def sorted_wrt_iff_nth_less)

lemma owned_ok_le:
  assumes "owned_ok s" and "i \<le> j" and "j < length s"
  shows "rg_end (fst (s ! i)) \<le> rg_end (fst (s ! j))" and "rg_Off (fst (s ! i)) \<le> rg_Off (fst (s ! j))"
proof -
  have "i < j \<Longrightarrow> rg_end (fst (s ! i)) \<le> rg_Off (fst (s ! j))" using owned_okD(2) [OF assms(1) _ assms(3)] by blast
  moreover have "rg_Off (fst (s ! i)) < rg_end (fst (s ! i))" "rg_Off (fst (s ! j)) < rg_end (fst (s ! j))"
    using owned_okD(1) [OF assms(1)] assms(2,3) by simp_all
  ultimately show "rg_end (fst (s ! i)) \<le> rg_end (fst (s ! j))" "rg_Off (fst (s ! i)) \<le> rg_Off (fst (s ! j))"
    using assms(2) by (cases "i = j"; simp)+
qed

lemma owned_ok_last:
  assumes "owned_ok s" and "x \<in> set s"
  shows "rg_end (fst x) \<le> rg_end (fst (last s))"
proof -
  obtain i where i: "i < length s" "x = s ! i" using assms(2) by (metis in_set_conv_nth)
  then have "s \<noteq> []" by auto
  then show ?thesis using owned_ok_le(1) [OF assms(1), of i "length s - 1"] i by (simp add: last_conv_nth)
qed

lemma firstAfter_upward:
  assumes "owned_ok s"
  shows "upward (\<lambda>i. rg_end (fst (s ! i)) > x) (length s)"
  unfolding upward_def
proof (intro allI impI)
  fix a b assume "a \<le> b \<and> b < length s \<and> rg_end (fst (s ! a)) > x"
  then show "rg_end (fst (s ! b)) > x"
    using owned_okD(2) [OF assms, of a b] owned_okD(1) [OF assms, of b] by (cases "a = b") auto
qed

lemma firstAfter_spec:
  assumes "owned_ok s"
  shows "firstAfter s r \<le> length s" "k < firstAfter s r \<Longrightarrow> rg_end (fst (s ! k)) \<le> rg_Off r"
    "firstAfter s r \<le> k \<Longrightarrow> k < length s \<Longrightarrow> rg_Off r < rg_end (fst (s ! k))"
proof -
  note f = sort_Search_spec [OF firstAfter_upward [OF assms, of "rg_Off r"], folded firstAfter_def]
  show "firstAfter s r \<le> length s" "k < firstAfter s r \<Longrightarrow> rg_end (fst (s ! k)) \<le> rg_Off r" using f(1,2) not_less by blast+
  show "firstAfter s r \<le> k \<Longrightarrow> k < length s \<Longrightarrow> rg_Off r < rg_end (fst (s ! k))" by (rule f(3))
qed

lemma owned_ok_app:
  "owned_ok (a @ b) \<longleftrightarrow> owned_ok a \<and> owned_ok b \<and> (\<forall>x \<in> set a. \<forall>y \<in> set b. rg_end (fst x) \<le> rg_Off (fst y))"
  by (auto simp: owned_ok_def sorted_wrt_append)

lemma owned_bytes_app [simp]: "owned_bytes (a @ b) = owned_bytes a \<union> owned_bytes b"
  by (auto simp: owned_bytes_def)

lemma owned_bytes_Cons [simp]: "owned_bytes (x # b) = rg_bytes (fst x) \<union> owned_bytes b" "owned_bytes [] = {}"
  by (auto simp: owned_bytes_def)

lemma split_at:
  assumes "owned_ok s"
  shows "owned_ok (take (firstAfter s r) s)" "owned_ok (drop (firstAfter s r) s)"
    "\<forall>x \<in> set (take (firstAfter s r) s). rg_end (fst x) \<le> rg_Off r"
    "\<forall>x \<in> set (drop (firstAfter s r) s). rg_Off r < rg_end (fst x)"
    "owned_bytes s = owned_bytes (take (firstAfter s r) s) \<union> owned_bytes (drop (firstAfter s r) s)"
proof -
  let ?k = "firstAfter s r"
  show "owned_ok (take ?k s)" "owned_ok (drop ?k s)" using assms owned_ok_app [of "take ?k s" "drop ?k s"] by simp_all
  show "\<forall>x \<in> set (take ?k s). rg_end (fst x) \<le> rg_Off r"
    by (metis firstAfter_spec(2) [OF assms] in_set_conv_nth length_take min_less_iff_conj nth_take)
  show "\<forall>x \<in> set (drop ?k s). rg_Off r < rg_end (fst x)"
  proof
    fix x assume "x \<in> set (drop ?k s)"
    then obtain i where "i < length s - ?k" "x = s ! (?k + i)"
      by (metis firstAfter_spec(1) [OF assms] in_set_conv_nth length_drop nth_drop)
    then show "rg_Off r < rg_end (fst x)" using firstAfter_spec(3) [OF assms, of r "?k + i"] by simp
  qed
  show "owned_bytes s = owned_bytes (take ?k s) \<union> owned_bytes (drop ?k s)"
    by (metis append_take_drop_id owned_bytes_app)
qed

lemma before_disjoint:
  assumes "owned_ok s"
  shows "rg_bytes r \<inter> owned_bytes (take (firstAfter s r) s) = {}"
  using split_at(3) [OF assms, of r] by (fastforce simp: owned_bytes_def rg_bytes_def)

section \<open>Searching\<close>

lemma ownerScan_None:
  assumes "owned_ok s" and "\<forall>x \<in> set s. rg_Off r < rg_end (fst x)"
  shows "ownerScan r s = None \<longleftrightarrow> rg_bytes r \<inter> owned_bytes s = {}"
  using assms
proof (induction s)
  case (Cons x s)
  have x: "rg_Off (fst x) < rg_end (fst x)" using owned_okD(1) [OF Cons.prems(1), of 0] by simp
  have later: "rg_end (fst x) \<le> rg_Off (fst y)" if "y \<in> set s" for y using Cons.prems(1) that by (simp add: owned_ok_def)
  have s: "owned_ok s" using Cons.prems(1) by (simp add: owned_ok_def)
  note IH = Cons.IH [OF s]
  show ?case
  proof (cases "rg_Off (fst x) < rg_end r")
    case False
    have "rg_bytes r \<inter> owned_bytes s = {}" using later False x by (fastforce simp: owned_bytes_def rg_bytes_def)
    then show ?thesis using False by (auto simp: rg_bytes_def)
  next
    case True
    have "rg_intersects (fst x) r \<longleftrightarrow> rg_bytes r \<inter> rg_bytes (fst x) \<noteq> {}"
    proof
      assume "rg_intersects (fst x) r"
      then have "max (rg_Off (fst x)) (rg_Off r) \<in> rg_bytes r \<inter> rg_bytes (fst x)" by (auto simp: rg_intersects_def rg_bytes_def rg_end_def)
      then show "rg_bytes r \<inter> rg_bytes (fst x) \<noteq> {}" by blast
    next
      assume "rg_bytes r \<inter> rg_bytes (fst x) \<noteq> {}"
      then show "rg_intersects (fst x) r" using x by (auto simp: rg_intersects_def rg_bytes_def rg_end_def)
    qed
    then show ?thesis using True IH Cons.prems(2) by auto
  qed
qed simp

lemma ownerScan_Some: "ownerScan r s = Some i \<Longrightarrow> \<exists>t. (t, i) \<in> set s \<and> rg_intersects t r"
  by (induction s) (auto split: if_splits)

lemma meet_bytes: "rg_bytes r \<inter> rg_bytes t = {max (rg_Off t) (rg_Off r)..<min (rg_end t) (rg_end r)}"
  by (auto simp: rg_bytes_def)

lemma finite_bytes [simp]: "finite (rg_bytes r)" "finite (owned_bytes s)"
  by (simp_all add: rg_bytes_def owned_bytes_def)

lemma coveredScan_card:
  assumes "owned_ok s" and "\<forall>x \<in> set s. rg_Off r < rg_end (fst x)"
  shows "coveredScan r s = int (card (rg_bytes r \<inter> owned_bytes s))"
  using assms
proof (induction s)
  case (Cons x s)
  have x: "rg_Off (fst x) < rg_end (fst x)" using owned_okD(1) [OF Cons.prems(1), of 0] by simp
  have later: "rg_end (fst x) \<le> rg_Off (fst y)" if "y \<in> set s" for y using Cons.prems(1) that by (simp add: owned_ok_def)
  have s: "owned_ok s" using Cons.prems(1) by (simp add: owned_ok_def)
  show ?case
  proof (cases "rg_Off (fst x) < rg_end r")
    case False
    have "rg_bytes r \<inter> owned_bytes s = {}" using later False x by (fastforce simp: owned_bytes_def rg_bytes_def)
    moreover have "rg_bytes r \<inter> rg_bytes (fst x) = {}" using False by (auto simp: rg_bytes_def)
    ultimately show ?thesis using False by (simp add: Int_Un_distrib)
  next
    case True
    have disj: "rg_bytes (fst x) \<inter> owned_bytes s = {}" using later by (fastforce simp: owned_bytes_def rg_bytes_def)
    have "card (rg_bytes r \<inter> owned_bytes (x # s)) = card (rg_bytes r \<inter> rg_bytes (fst x)) + card (rg_bytes r \<inter> owned_bytes s)"
      unfolding owned_bytes_Cons Int_Un_distrib by (rule card_Un_disjoint) (use disj in auto)
    moreover have "int (card (rg_bytes r \<inter> rg_bytes (fst x))) =
        (if min (rg_end (fst x)) (rg_end r) > max (rg_Off (fst x)) (rg_Off r)
         then min (rg_end (fst x)) (rg_end r) - max (rg_Off (fst x)) (rg_Off r) else 0)"
      unfolding meet_bytes by (simp add: min_def max_def)
    ultimately show ?thesis using True Cons.IH [OF s] Cons.prems(2) by (simp only: coveredScan.simps if_True Let_def of_nat_add) simp
  qed
qed simp

lemma ownerOf_None: "owned_ok s \<Longrightarrow> ownerOf s r = None \<longleftrightarrow> rg_bytes r \<inter> owned_bytes s = {}"
  using ownerScan_None [OF split_at(2,4)] split_at(5) [of s r] before_disjoint [of s r]
  by (simp add: ownerOf_def Int_Un_distrib)

lemma covered_card: "owned_ok s \<Longrightarrow> covered s r = int (card (rg_bytes r \<inter> owned_bytes s))"
  using coveredScan_card [OF split_at(2,4)] split_at(5) [of s r] before_disjoint [of s r]
  by (simp add: covered_def Int_Un_distrib)

lemma set_drop_in: "x \<in> set (drop k s) \<Longrightarrow> x \<in> set s"
  by (rule in_set_dropD)

lemma ownerOf_Some: "ownerOf s r = Some i \<Longrightarrow> \<exists>t. (t, i) \<in> set s \<and> rg_intersects t r"
  unfolding ownerOf_def using ownerScan_Some in_set_dropD by fast

section \<open>Claiming and seeding\<close>

lemma claim_spec:
  assumes ok: "owned_ok s" and len: "0 < rg_Len r"
  shows "claim r i s = None \<longleftrightarrow> rg_bytes r \<inter> owned_bytes s \<noteq> {}"
    and "claim r i s = Some s' \<Longrightarrow> owned_ok s' \<and> set s' = insert (r, i) (set s) \<and> owned_bytes s' = owned_bytes s \<union> rg_bytes r"
proof -
  define k where "k = firstAfter s r"
  note sp = split_at [OF ok, of r, folded k_def] and bd = before_disjoint [OF ok, of r, folded k_def]
  have r: "rg_Off r < rg_end r" using len by (simp add: rg_end_def)
  have hit: "(k < length s \<and> rg_Off (fst (s ! k)) < rg_end r) \<longleftrightarrow> rg_bytes r \<inter> owned_bytes s \<noteq> {}"
  proof (cases "drop k s")
    case Nil
    then show ?thesis using sp(5) bd by simp
  next
    case (Cons x t)
    have k: "k < length s" using Cons by (metis drop_all list.discI not_le)
    have x: "s ! k = x" using Cons k by (metis nth_via_drop)
    have ox: "owned_ok (x # t)" using sp(2) Cons by simp
    have later: "rg_end (fst x) \<le> rg_Off (fst y)" if "y \<in> set t" for y using ox that by (simp add: owned_ok_def)
    have xl: "rg_Off (fst x) < rg_end (fst x)" using owned_okD(1) [OF ox, of 0] by simp
    have "ownerScan r (x # t) = None \<longleftrightarrow> rg_bytes r \<inter> owned_bytes (x # t) = {}"
      by (rule ownerScan_None [OF ox]) (use sp(4) Cons in simp)
    moreover have "ownerScan r (x # t) = None \<longleftrightarrow> \<not> rg_Off (fst x) < rg_end r"
      using sp(4) Cons r xl len by (auto simp: rg_intersects_def rg_end_def)
    ultimately show ?thesis using k x bd sp(5) Cons by (simp add: Int_Un_distrib)
  qed
  show n: "claim r i s = None \<longleftrightarrow> rg_bytes r \<inter> owned_bytes s \<noteq> {}"
    using hit len by (simp add: claim_def k_def [symmetric] Let_def)
  show "owned_ok s' \<and> set s' = insert (r, i) (set s) \<and> owned_bytes s' = owned_bytes s \<union> rg_bytes r" if c: "claim r i s = Some s'"
  proof -
    have s': "s' = take k s @ (r, i) # drop k s" using c len by (auto simp: claim_def k_def [symmetric] Let_def split: if_splits)
    have no: "\<not> (k < length s \<and> rg_Off (fst (s ! k)) < rg_end r)" using c len by (auto simp: claim_def k_def [symmetric] Let_def split: if_splits)
    have after: "rg_end r \<le> rg_Off (fst y)" if "y \<in> set (drop k s)" for y
    proof -
      obtain j where j: "j < length s - k" "y = s ! (k + j)" using \<open>y \<in> set (drop k s)\<close> by (auto simp: in_set_conv_nth)
      have "rg_end r \<le> rg_Off (fst (s ! k))" using no j by linarith
      moreover have "k + j < length s" using j(1) by simp
      then have "rg_Off (fst (s ! k)) \<le> rg_Off (fst (s ! (k + j)))" by (rule owned_ok_le(2) [OF ok le_add1])
      ultimately show ?thesis unfolding j(2) by (rule order_trans)
    qed
    have "owned_ok ((r, i) # drop k s)" using sp(2) after len by (simp add: owned_ok_def)
    moreover have "rg_end (fst x) \<le> rg_Off (fst y)" if "x \<in> set (take k s)" "y \<in> set ((r, i) # drop k s)" for x y
      using sp(3) that after r by fastforce
    ultimately have "owned_ok s'" unfolding s' owned_ok_app using sp(1) by blast
    moreover have "set s' = insert (r, i) (set s)" unfolding s' by (simp, metis append_take_drop_id set_append)
    ultimately show ?thesis using sp(5) by (auto simp: s')
  qed
qed

lemma seedLoop_ok:
  assumes "owned_ok s" and "sorted (map rg_Off rs)" and "\<forall>r \<in> set rs. 0 < rg_Len r"
    and "s \<noteq> [] \<Longrightarrow> \<forall>r \<in> set rs. rg_Off (fst (last s)) \<le> rg_Off r"
  shows "owned_ok (seedLoop s rs) \<and> owned_bytes (seedLoop s rs) = owned_bytes s \<union> (\<Union>r \<in> set rs. rg_bytes r)"
  using assms
proof (induction s rs rule: seedLoop.induct)
  case (2 s r rs)
  have later: "\<forall>x \<in> set rs. rg_Off r \<le> rg_Off x" and srt: "sorted (map rg_Off rs)" using "2.prems"(2) by auto
  have rl: "rg_Off r < rg_end r" using "2.prems"(3) by (simp add: rg_end_def)
  show ?case
  proof (cases "s \<noteq> [] \<and> rg_Off r \<le> rg_end (fst (last s))")
    case True
    define l where "l = fst (last s)"
    have s: "s = butlast s @ [(l, snd (last s))]" using True by (simp add: l_def)
    have lo: "rg_Off l \<le> rg_Off r" using "2.prems"(4) True by (simp add: l_def)
    define s1 where "s1 = (if rg_end r > rg_end l then butlast s @ [(l\<lparr>rg_Len := rg_end r - rg_Off l\<rparr>, snd (last s))] else s)"
    have b: "owned_ok (butlast s)" "\<forall>x \<in> set (butlast s). rg_end (fst x) \<le> rg_Off l" "0 < rg_Len l"
      using "2.prems"(1) s owned_ok_app [of "butlast s" "[(l, snd (last s))]"] by (auto simp: owned_ok_def)
    have ok1: "owned_ok s1"
    proof (cases "rg_end r > rg_end l")
      case True
      then have "owned_ok (butlast s @ [(l\<lparr>rg_Len := rg_end r - rg_Off l\<rparr>, snd (last s))])"
        unfolding owned_ok_app using b lo rl by (auto simp: owned_ok_def)
      then show ?thesis using True by (simp add: s1_def)
    qed (simp add: s1_def "2.prems"(1))
    have by1: "owned_bytes s1 = owned_bytes s \<union> rg_bytes r"
    proof -
      have "owned_bytes s = owned_bytes (butlast s) \<union> rg_bytes l" by (subst s) simp
      moreover have "rg_bytes (l\<lparr>rg_Len := rg_end r - rg_Off l\<rparr>) = rg_bytes l \<union> rg_bytes r" if "rg_end r > rg_end l"
        using that True lo b(3) by (auto simp: rg_bytes_def rg_end_def l_def)
      moreover have "rg_bytes r \<subseteq> rg_bytes l" if "\<not> rg_end r > rg_end l" using that lo by (auto simp: rg_bytes_def)
      ultimately show ?thesis by (auto simp: s1_def)
    qed
    have "rg_Off (fst (last s1)) = rg_Off l" using True by (simp add: s1_def l_def)
    then have last1: "\<forall>x \<in> set rs. rg_Off (fst (last s1)) \<le> rg_Off x" using later lo by auto
    have step: "seedLoop s (r # rs) = seedLoop s1 rs" using True by (simp add: s1_def l_def)
    have "owned_ok (seedLoop s1 rs) \<and> owned_bytes (seedLoop s1 rs) = owned_bytes s1 \<union> (\<Union>x \<in> set rs. rg_bytes x)"
      using "2.IH"(1) [OF True] ok1 srt "2.prems"(3) last1 unfolding s1_def l_def by simp
    then show ?thesis unfolding step by1 by auto
  next
    case False
    have "owned_ok (s @ [(r, seededOwner)])"
    proof -
      have "rg_end (fst x) \<le> rg_Off r" if x: "x \<in> set s" for x
      proof -
        have "s \<noteq> []" using x by auto
        then show ?thesis using False owned_ok_last [OF "2.prems"(1) x] by simp
      qed
      then show ?thesis unfolding owned_ok_app using "2.prems"(1,3) by (simp add: owned_ok_def)
    qed
    then have "owned_ok (seedLoop (s @ [(r, seededOwner)]) rs)
        \<and> owned_bytes (seedLoop (s @ [(r, seededOwner)]) rs) = owned_bytes (s @ [(r, seededOwner)]) \<union> (\<Union>x \<in> set rs. rg_bytes x)"
      using "2.IH"(2) [OF False] srt "2.prems"(3) later by simp
    then show ?thesis using False by auto
  qed
qed simp

lemma seed_spec:
  assumes "seed rs s = Some s'"
  shows "s = []" "owned_ok s'" "owned_bytes s' = (\<Union>r \<in> set rs. rg_bytes r)"
proof -
  let ?rs = "sort_key rg_Off (filter (\<lambda>r. \<not> rg_Len r \<le> 0) rs)"
  show s: "s = []" using assms by (simp add: seed_def split: if_splits)
  have s': "s' = seedLoop [] ?rs" using assms s by (simp add: seed_def)
  have "owned_ok s' \<and> owned_bytes s' = owned_bytes [] \<union> (\<Union>r \<in> set ?rs. rg_bytes r)"
    unfolding s' by (rule seedLoop_ok) (simp_all add: owned_ok_def)
  moreover have "(\<Union>r \<in> set ?rs. rg_bytes r) = (\<Union>r \<in> set rs. rg_bytes r)" by (auto simp: rg_bytes_def rg_end_def)
  ultimately show "owned_ok s'" "owned_bytes s' = (\<Union>r \<in> set rs. rg_bytes r)" by auto
qed

lemma maxEnd_spec:
  assumes ok: "owned_ok s"
  shows "b \<in> owned_bytes s \<Longrightarrow> b < maxEnd s" and "s \<noteq> [] \<Longrightarrow> maxEnd s - 1 \<in> owned_bytes s"
proof -
  show "b < maxEnd s" if "b \<in> owned_bytes s"
  proof -
    obtain x where x: "x \<in> set s" "b \<in> rg_bytes (fst x)" using \<open>b \<in> owned_bytes s\<close> by (auto simp: owned_bytes_def)
    then have "s \<noteq> []" by auto
    then show ?thesis using x(2) owned_ok_last [OF ok x(1)] by (simp add: maxEnd_def rg_bytes_def)
  qed
  show "maxEnd s - 1 \<in> owned_bytes s" if "s \<noteq> []"
  proof -
    have "rg_Off (fst (last s)) < rg_end (fst (last s))" using that owned_okD(1) [OF ok, of "length s - 1"] by (simp add: last_conv_nth)
    then have "rg_end (fst (last s)) - 1 \<in> rg_bytes (fst (last s))" by (simp add: rg_bytes_def)
    then show ?thesis using that last_in_set [OF that] by (auto simp: owned_bytes_def maxEnd_def)
  qed
qed

section \<open>What the file writer relies on\<close>

locale range_set =
  fixes ok :: "'s \<Rightarrow> bool" and owned :: "'s \<Rightarrow> int set"
    and owner :: "'s \<Rightarrow> Range \<Rightarrow> 'i option" and cover :: "'s \<Rightarrow> Range \<Rightarrow> int" and take_range :: "Range \<Rightarrow> 'i \<Rightarrow> 's \<Rightarrow> 's option"
  assumes owner_None: "ok s \<Longrightarrow> owner s r = None \<longleftrightarrow> rg_bytes r \<inter> owned s = {}"
    and cover_card: "ok s \<Longrightarrow> cover s r = int (card (rg_bytes r \<inter> owned s))"
    and claim_free: "ok s \<Longrightarrow> rg_bytes r \<inter> owned s = {} \<Longrightarrow> \<exists>s'. take_range r i s = Some s' \<and> ok s' \<and> owned s' = owned s \<union> rg_bytes r"
begin

text \<open>A claim after \<open>owner\<close> found none does not panic.\<close>

lemma claim_unowned:
  assumes "ok s" and "owner s r = None"
  obtains s' where "take_range r i s = Some s'" "ok s'" "owned s' = owned s \<union> rg_bytes r"
  using claim_free [OF assms(1), of r i] owner_None [OF assms(1), of r] assms(2) by auto

text \<open>An owned arrival leaves fewer uncovered bytes than its length, and none below zero.\<close>

lemma uncovered_bounds:
  assumes "ok s" and "owner s r \<noteq> None"
  shows "0 \<le> rg_Len r - cover s r" "rg_Len r - cover s r < rg_Len r"
proof -
  have ne: "rg_bytes r \<inter> owned s \<noteq> {}" using owner_None [OF assms(1), of r] assms(2) by simp
  have fin: "finite (rg_bytes r)" by simp
  have "card (rg_bytes r \<inter> owned s) \<le> card (rg_bytes r)" by (rule card_mono [OF fin]) simp
  moreover have "0 < card (rg_bytes r \<inter> owned s)" using ne fin by (simp add: card_gt_0_iff)
  moreover have "card (rg_bytes r) = nat (rg_Len r)" by (simp add: rg_bytes_def rg_end_def)
  ultimately show "0 \<le> rg_Len r - cover s r" "rg_Len r - cover s r < rg_Len r" using cover_card [OF assms(1)] by simp_all
qed

end

lemma claim_free_ranges:
  assumes "owned_ok s" and "rg_bytes r \<inter> owned_bytes s = {}"
  shows "\<exists>s'. claim r i s = Some s' \<and> owned_ok s' \<and> owned_bytes s' = owned_bytes s \<union> rg_bytes r"
proof (cases "0 < rg_Len r")
  case True
  then show ?thesis using claim_spec [OF assms(1) True, of i] assms(2) by (cases "claim r i s") auto
next
  case False
  then show ?thesis using assms(1) by (simp add: claim_def rg_bytes_def rg_end_def)
qed

interpretation rs: range_set owned_ok owned_bytes ownerOf covered claim
  by (unfold_locales; rule ownerOf_None covered_card claim_free_ranges)

text \<open>C32: The sorted list of owned ranges refines a set of owned bytes. For a list of disjoint ranges in order:
  ownerOf finds an owner exactly when the range touches an owned byte, and then one whose range it
  intersects; covered counts the owned bytes of the range; claim panics exactly when a byte of the
  range is owned, and otherwise adds the range to the set and keeps the list in order; maxEnd is one
  past the last owned byte; and seeding the empty set owns exactly the bytes of the given ranges,
  overlapping or not, in any order.\<close>

theorem owned_ranges_refine:
  assumes "owned_ok s"
  shows "(ownerOf s r = None \<longleftrightarrow> rg_bytes r \<inter> owned_bytes s = {})
    \<and> (\<forall>i. ownerOf s r = Some i \<longrightarrow> (\<exists>t. (t, i) \<in> set s \<and> rg_intersects t r))
    \<and> covered s r = int (card (rg_bytes r \<inter> owned_bytes s))
    \<and> (claim r i s = None \<longleftrightarrow> rg_bytes r \<inter> owned_bytes s \<noteq> {} \<and> 0 < rg_Len r)
    \<and> (\<forall>s'. claim r i s = Some s' \<longrightarrow> owned_ok s' \<and> owned_bytes s' = owned_bytes s \<union> rg_bytes r)
    \<and> (\<forall>b \<in> owned_bytes s. b < maxEnd s) \<and> (s \<noteq> [] \<longrightarrow> maxEnd s - 1 \<in> owned_bytes s)
    \<and> (\<forall>s'. seed rs [] = Some s' \<longrightarrow> owned_ok s' \<and> owned_bytes s' = (\<Union>x \<in> set rs. rg_bytes x))"
proof -
  have "(claim r i s = None \<longleftrightarrow> rg_bytes r \<inter> owned_bytes s \<noteq> {} \<and> 0 < rg_Len r)
      \<and> (\<forall>s'. claim r i s = Some s' \<longrightarrow> owned_ok s' \<and> owned_bytes s' = owned_bytes s \<union> rg_bytes r)"
  proof (cases "0 < rg_Len r")
    case True
    then show ?thesis using claim_spec [OF assms True, of i] by simp
  next
    case False
    then show ?thesis using assms by (auto simp: claim_def rg_bytes_def rg_end_def)
  qed
  then show ?thesis
    using ownerOf_None [OF assms, of r] ownerOf_Some [of s r] covered_card [OF assms, of r] maxEnd_spec [OF assms] seed_spec [of rs "[]"]
    by (simp add: Ball_def)
qed

theorem owned_ranges_refine_witness:
  "\<exists>s. claim \<lparr>rg_Off = 5, rg_Len = 5\<rparr> 7 [] = Some s \<and> covered s \<lparr>rg_Off = 0, rg_Len = 7\<rparr> = 2"
proof -
  have e: "owned_ok []" by (simp add: owned_ok_def)
  let ?s = "[(\<lparr>rg_Off = 5, rg_Len = 5\<rparr>, 7)]"
  have c: "claim \<lparr>rg_Off = 5, rg_Len = 5\<rparr> 7 [] = Some ?s" by (simp add: claim_def firstAfter_def sort_Search_def search_loop.simps)
  have ok: "owned_ok ?s" using owned_ranges_refine [OF e] c by blast
  have "rg_bytes \<lparr>rg_Off = 0, rg_Len = 7\<rparr> \<inter> owned_bytes ?s = {5, 6}" by (auto simp: rg_bytes_def rg_end_def)
  moreover have "covered ?s \<lparr>rg_Off = 0, rg_Len = 7\<rparr> = int (card (rg_bytes \<lparr>rg_Off = 0, rg_Len = 7\<rparr> \<inter> owned_bytes ?s))"
    using owned_ranges_refine [OF ok] by blast
  ultimately show ?thesis using c by (intro exI [of _ ?s]) simp
qed

end
