(* ===== verification/Assembler.thy ===== *)
theory Assembler
  imports Ranges Go_Bytes
begin

text \<open>
  The assembler's worker (\<^verbatim>\<open>internal/assembler/assembler.go\<close>, \<^verbatim>\<open>filewriter.go\<close>, \<^verbatim>\<open>finish.go\<close>): one
  goroutine that takes requests from a channel and owns the open files, so a request is one step on
  its state. What the outside answers during a request (the application's \<open>FileInfo\<close>, the file
  system) is an argument, the environment; the callbacks it makes are the step's events. Logging,
  telemetry and the disk-space probe are left out.
\<close>

section \<open>File writer\<close>

datatype disposition = dispositionWritten | dispositionRejected | dispositionFetchFailed | dispositionRolledBack

record fileWriter =
  fw_seenDone :: "int set"
  fw_seenFailed :: "int set"
  fw_owned :: ownedRanges
  fw_partsWritten :: int

definition newFileWriter :: fileWriter where
  "newFileWriter = \<lparr>fw_seenDone = {}, fw_seenFailed = {}, fw_owned = [], fw_partsWritten = 0\<rparr>"

definition holdsPart :: "int \<Rightarrow> fileWriter \<Rightarrow> bool" where
  "holdsPart artIdx w \<longleftrightarrow> artIdx \<in> fw_seenDone w \<or> artIdx \<in> fw_seenFailed w"

definition admit :: "int \<Rightarrow> fileWriter \<Rightarrow> fileWriter \<times> bool" where
  "admit artIdx w =
     (if artIdx \<in> fw_seenDone w then (w, False)
      else (w\<lparr>fw_partsWritten := (if holdsPart artIdx w then fw_partsWritten w else fw_partsWritten w + 1),
              fw_seenDone := insert artIdx (fw_seenDone w)\<rparr>, True))"

text \<open>\<open>None\<close> is a panic.\<close>

definition resolve :: "int \<Rightarrow> disposition \<Rightarrow> fileWriter \<Rightarrow> fileWriter option" where
  "resolve artIdx d w =
     (let wasDone = (artIdx \<in> fw_seenDone w); wasFailed = (artIdx \<in> fw_seenFailed w) in
      if d \<noteq> dispositionFetchFailed \<and> \<not> wasDone then None
      else Some (case d of
        dispositionWritten \<Rightarrow> w
      | dispositionRejected \<Rightarrow> w\<lparr>fw_seenDone := fw_seenDone w - {artIdx}, fw_seenFailed := insert artIdx (fw_seenFailed w)\<rparr>
      | dispositionFetchFailed \<Rightarrow>
          w\<lparr>fw_partsWritten := (if \<not> wasDone \<and> \<not> wasFailed then fw_partsWritten w + 1 else fw_partsWritten w),
            fw_seenFailed := insert artIdx (fw_seenFailed w)\<rparr>
      | dispositionRolledBack \<Rightarrow>
          w\<lparr>fw_seenDone := fw_seenDone w - {artIdx},
            fw_partsWritten := (if \<not> wasFailed then fw_partsWritten w - 1 else fw_partsWritten w)\<rparr>))"

section \<open>Requests, files and the world\<close>

record WriteRequest =
  wq_Owner :: nat
  wq_JobID :: string
  wq_FileIdx :: int
  wq_ArtIdx :: int
  wq_MessageID :: string
  wq_Offset :: int
  wq_Data :: "bytes option"
  wq_CRC32 :: "32 word"
  wq_FatalErr :: bool
  wq_ack :: bool
  wq_delete :: bool

definition fileIdxCancelJob :: int where "fileIdxCancelJob = -1"

definition fileIdxCloseHandles :: int where "fileIdxCloseHandles = -2"

definition fileIdxForgetJob :: int where "fileIdxForgetJob = -4"

definition fileIdxQuiesce :: int where "fileIdxQuiesce = -5"

record FileInfo =
  fi_Path :: string
  fi_TotalParts :: int
  fi_ExpectedSize :: int
  fi_Owned :: "Range list"

type_synonym fileKey = "string \<times> int"

record openFile =
  of_w :: fileWriter
  of_info :: FileInfo
  of_owner :: nat

text \<open>A file's bytes; a byte never written reads as zero.\<close>

type_synonym disk = "string \<Rightarrow> int \<Rightarrow> byte"

record Worker =
  wk_open :: "fileKey \<rightharpoonup> openFile"
  wk_completed :: "fileKey set"
  wk_disk :: disk

datatype AsmEvent =
    OnArticleWritten nat int int int int "32 word"
  | OnArticleRejected nat int int string int
  | OnArticlesUnwritten nat int "int list"
  | OnWriteFault nat int
  | OnFileComplete nat int
  | OnFileUntrusted nat int
  | BufferReturned
  | Acked bool

text \<open>
  What one request meets outside: the answers of \<open>FileInfo\<close> (\<open>Inl True\<close> is \<open>ErrJobClosed\<close>, \<open>Inl False\<close>
  any other error; it is asked twice when the owner changed), whether the directory and file open,
  how many bytes a failed write left (\<open>None\<close>: the write succeeds), whether finishing and closing
  succeed and whether finishing truncated, and, for a request on all files of a job, the order in
  which the map is ranged over and each file's sync, close and remove.
\<close>

record Env =
  en_FileInfo0 :: "bool + FileInfo"
  en_FileInfo :: "bool + FileInfo"
  en_open :: bool
  en_write :: "nat option"
  en_finish :: bool
  en_truncated :: bool
  en_close :: bool
  en_order :: "fileKey list"
  en_syncs :: "fileKey \<Rightarrow> bool"
  en_closes :: "fileKey \<Rightarrow> bool"
  en_removes :: "fileKey \<Rightarrow> bool"

definition asmWholeArticle :: int where
  "asmWholeArticle = -1"

definition dataLen :: "WriteRequest \<Rightarrow> int" where
  "dataLen req = (case wq_Data req of None \<Rightarrow> 0 | Some d \<Rightarrow> int (length d))"

text \<open>\<open>releaseBuffer\<close> behind its \<open>Data != nil\<close> guard.\<close>

definition returnBuffer :: "WriteRequest \<Rightarrow> AsmEvent list" where
  "returnBuffer req = (if wq_Data req \<noteq> None then [BufferReturned] else [])"

section \<open>Accepting an article\<close>

definition offsetSlackDivisor :: int where
  "offsetSlackDivisor = 8"

definition offsetOutOfRange :: "FileInfo \<Rightarrow> WriteRequest \<Rightarrow> string option" where
  "offsetOutOfRange info req =
     (if wq_Offset req < 0 then Some ''negative offset''
      else
        (let endOff = wrap64 (wq_Offset req + dataLen req) in
         if endOff < wq_Offset req then Some ''offset+length overflows int64''
         else if fi_ExpectedSize info \<le> 0 then None
         else if fi_ExpectedSize info > MaxInt64 - fi_ExpectedSize info div offsetSlackDivisor then None
         else if endOff > fi_ExpectedSize info + fi_ExpectedSize info div offsetSlackDivisor
         then Some ''write extends past declared file size''
         else None))"

definition writeBytes :: "int \<Rightarrow> bytes \<Rightarrow> (int \<Rightarrow> byte) \<Rightarrow> int \<Rightarrow> byte" where
  "writeBytes off d file = (\<lambda>i. if off \<le> i \<and> i < off + int (length d) then d ! nat (i - off) else file i)"

text \<open>
  \<open>writeOne\<close>: the disk after it, and the writer unless the write failed; the outer \<open>None\<close> is the
  panic of \<open>claim\<close>.
\<close>

definition writeOne :: "Env \<Rightarrow> WriteRequest \<Rightarrow> string \<Rightarrow> fileWriter \<Rightarrow> disk \<Rightarrow> (disk \<times> fileWriter option) option" where
  "writeOne env req path w dk =
     (let d = (case wq_Data req of None \<Rightarrow> [] | Some d \<Rightarrow> d) in
      case en_write env of
        Some n \<Rightarrow> Some (dk(path := writeBytes (wq_Offset req) (take n d) (dk path)), None)
      | None \<Rightarrow>
          (case claim \<lparr>rg_Off = wq_Offset req, rg_Len = int (length d)\<rparr> (wq_ArtIdx req) (fw_owned w) of
             None \<Rightarrow> None
           | Some o' \<Rightarrow> Some (dk(path := writeBytes (wq_Offset req) d (dk path)), Some (w\<lparr>fw_owned := o'\<rparr>))))"

record outcome =
  oc_disposition :: disposition
  oc_n :: int
  oc_reason :: string
  oc_uncovered :: int

definition acceptArticle :: "Env \<Rightarrow> openFile \<Rightarrow> WriteRequest \<Rightarrow> fileWriter \<Rightarrow> disk
    \<Rightarrow> (fileWriter \<times> disk \<times> outcome \<times> AsmEvent list) option" where
  "acceptArticle env f req w dk =
     (case offsetOutOfRange (of_info f) req of
        Some reason \<Rightarrow>
          Some (w, dk, \<lparr>oc_disposition = dispositionRejected, oc_n = 0, oc_reason = reason, oc_uncovered = asmWholeArticle\<rparr>, returnBuffer req)
      | None \<Rightarrow>
          (let rng = \<lparr>rg_Off = wq_Offset req, rg_Len = dataLen req\<rparr> in
           case ownerOf (fw_owned w) rng of
             Some _ \<Rightarrow>
               Some (w, dk, \<lparr>oc_disposition = dispositionRejected, oc_n = 0,
                   oc_reason = ''claims a byte range already written by another article'',
                   oc_uncovered = rg_Len rng - covered (fw_owned w) rng\<rparr>, returnBuffer req)
           | None \<Rightarrow>
               (case writeOne env req (fi_Path (of_info f)) w dk of
                  None \<Rightarrow> None
                | Some (dk1, None) \<Rightarrow>
                    Some (w, dk1, \<lparr>oc_disposition = dispositionRolledBack, oc_n = 0, oc_reason = [], oc_uncovered = 0\<rparr>, returnBuffer req)
                | Some (dk1, Some w1) \<Rightarrow>
                    Some (w1, dk1, \<lparr>oc_disposition = dispositionWritten, oc_n = dataLen req, oc_reason = [], oc_uncovered = 0\<rparr>, returnBuffer req))))"

definition routeOutcome :: "WriteRequest \<Rightarrow> outcome \<Rightarrow> AsmEvent list option" where
  "routeOutcome req oc =
     (case oc_disposition oc of
        dispositionWritten \<Rightarrow>
          Some [OnArticleWritten (wq_Owner req) (wq_FileIdx req) (wq_ArtIdx req) (wq_Offset req) (oc_n oc) (wq_CRC32 req)]
      | dispositionRejected \<Rightarrow>
          Some [OnArticleRejected (wq_Owner req) (wq_FileIdx req) (wq_ArtIdx req) (oc_reason oc) (oc_uncovered oc)]
      | dispositionRolledBack \<Rightarrow>
          Some [OnArticlesUnwritten (wq_Owner req) (wq_FileIdx req) [wq_ArtIdx req], OnWriteFault (wq_Owner req) (wq_FileIdx req)]
      | _ \<Rightarrow> None)"

text \<open>The file's writer, the disk and the events.\<close>

definition handleSuccessArticle :: "Env \<Rightarrow> openFile \<Rightarrow> WriteRequest \<Rightarrow> disk \<Rightarrow> (fileWriter \<times> disk \<times> AsmEvent list) option" where
  "handleSuccessArticle env f req dk =
     (case admit (wq_ArtIdx req) (of_w f) of
        (w, False) \<Rightarrow> Some (w, dk, returnBuffer req)
      | (w, True) \<Rightarrow>
          (case acceptArticle env f req w dk of
             None \<Rightarrow> None
           | Some (w1, dk1, oc, evs) \<Rightarrow>
               (case (resolve (wq_ArtIdx req) (oc_disposition oc) w1, routeOutcome req oc) of
                  (Some w2, Some evs') \<Rightarrow> Some (w2, dk1, evs @ evs')
                | _ \<Rightarrow> None)))"

definition handleFatalArticle :: "openFile \<Rightarrow> WriteRequest \<Rightarrow> disk \<Rightarrow> (fileWriter \<times> disk \<times> AsmEvent list) option" where
  "handleFatalArticle f req dk =
     (case resolve (wq_ArtIdx req) dispositionFetchFailed (of_w f) of
        None \<Rightarrow> None
      | Some w \<Rightarrow> Some (w, dk, returnBuffer req))"

section \<open>Opening and finishing files\<close>

definition validOwned :: "Range list \<Rightarrow> Range list" where
  "validOwned owned = filter (\<lambda>r. \<not> (rg_Off r < 0 \<or> rg_Len r < 0 \<or> rg_Off r > MaxInt64 - rg_Len r)) owned"

definition seedOwned :: "Range list \<Rightarrow> fileWriter \<Rightarrow> fileWriter" where
  "seedOwned owned w =
     (if owned = [] then w
      else case seed (validOwned owned) (fw_owned w) of None \<Rightarrow> w | Some o' \<Rightarrow> w\<lparr>fw_owned := o'\<rparr>)"

text \<open>\<open>Inl True\<close> is \<open>ErrJobClosed\<close>.\<close>

definition openTargetFile :: "Env \<Rightarrow> WriteRequest \<Rightarrow> bool + openFile" where
  "openTargetFile env req =
     (case en_FileInfo env of
        Inl closed \<Rightarrow> Inl closed
      | Inr info \<Rightarrow>
          if \<not> en_open env then Inl False
          else Inr \<lparr>of_w = seedOwned (fi_Owned info) newFileWriter, of_info = info, of_owner = wq_Owner req\<rparr>)"

definition truncateAt :: "int \<Rightarrow> (int \<Rightarrow> byte) \<Rightarrow> int \<Rightarrow> byte" where
  "truncateAt endOff file = (\<lambda>i. if i < endOff then file i else 0)"

definition finalizeFile :: "Env \<Rightarrow> openFile \<Rightarrow> fileKey \<Rightarrow> WriteRequest \<Rightarrow> Worker \<Rightarrow> Worker \<times> AsmEvent list" where
  "finalizeFile env f key req wk =
     (let path = fi_Path (of_info f); endOff = maxEnd (fw_owned (of_w f));
          dk = (if en_truncated env \<and> endOff > 0 then (wk_disk wk)(path := truncateAt endOff (wk_disk wk path)) else wk_disk wk);
          wk1 = wk\<lparr>wk_disk := dk, wk_open := (wk_open wk)(key := None)\<rparr> in
      if \<not> en_finish env \<or> \<not> en_close env
      then (wk1, [OnFileUntrusted (wq_Owner req) (wq_FileIdx req), OnWriteFault (wq_Owner req) (wq_FileIdx req)])
      else (wk1\<lparr>wk_completed := insert key (wk_completed wk1)\<rparr>, [OnFileComplete (wq_Owner req) (wq_FileIdx req)]))"

text \<open>\<open>closeCancelledFile\<close>: a failed close is only logged.\<close>

definition closeCancelledFile :: "bool \<Rightarrow> bool \<Rightarrow> openFile \<Rightarrow> disk \<Rightarrow> disk" where
  "closeCancelledFile del removed f dk = (if del \<and> removed then dk(fi_Path (of_info f) := (\<lambda>i. 0)) else dk)"

section \<open>One request\<close>

text \<open>From the handled article on: counting parts and completing the file.\<close>

definition processOpen :: "Env \<Rightarrow> WriteRequest \<Rightarrow> fileKey \<Rightarrow> openFile \<Rightarrow> Worker \<Rightarrow> (Worker \<times> AsmEvent list) option" where
  "processOpen env req key f wk =
     (case (if wq_FatalErr req then handleFatalArticle f req (wk_disk wk) else handleSuccessArticle env f req (wk_disk wk)) of
        None \<Rightarrow> None
      | Some (w, dk, evs) \<Rightarrow>
          (let f1 = f\<lparr>of_w := w\<rparr>;
               wk1 = wk\<lparr>wk_open := (wk_open wk)(key \<mapsto> f1), wk_disk := dk\<rparr>;
               parts = fw_partsWritten w in
           if parts = fw_partsWritten (of_w f) then Some (wk1, evs)
           else if fi_TotalParts (of_info f) > 0 \<and> parts \<ge> fi_TotalParts (of_info f)
           then (case finalizeFile env f1 key req wk1 of (wk2, evs2) \<Rightarrow> Some (wk2, evs @ evs2))
           else Some (wk1, evs)))"

text \<open>Opening the target when the file is not open.\<close>

definition processClosed :: "Env \<Rightarrow> WriteRequest \<Rightarrow> fileKey \<Rightarrow> Worker \<Rightarrow> (Worker \<times> AsmEvent list) option" where
  "processClosed env req key wk =
     (case openTargetFile env req of
        Inl True \<Rightarrow> Some (wk, returnBuffer req)
      | Inl False \<Rightarrow>
          Some (wk, [OnArticlesUnwritten (wq_Owner req) (wq_FileIdx req) [wq_ArtIdx req], OnWriteFault (wq_Owner req) (wq_FileIdx req)] @ returnBuffer req)
      | Inr f \<Rightarrow> processOpen env req key f (wk\<lparr>wk_open := (wk_open wk)(key \<mapsto> f)\<rparr>))"

definition processRequest :: "Env \<Rightarrow> WriteRequest \<Rightarrow> Worker \<Rightarrow> (Worker \<times> AsmEvent list) option" where
  "processRequest env req wk =
     (let key = (wq_JobID req, wq_FileIdx req) in
      if key \<in> wk_completed wk
      then Some (wk, returnBuffer req @ [OnArticleRejected (wq_Owner req) (wq_FileIdx req) (wq_ArtIdx req)
                       ''redelivered after its file was completed'' asmWholeArticle])
      else
        (case wk_open wk key of
           None \<Rightarrow> processClosed env req key wk
         | Some f \<Rightarrow>
             if of_owner f = wq_Owner req then processOpen env req key f wk
             else if en_FileInfo0 env = Inl True then Some (wk, returnBuffer req)
             else processClosed env req key
                    (wk\<lparr>wk_open := (wk_open wk)(key := None), wk_disk := closeCancelledFile False False f (wk_disk wk)\<rparr>)))"

definition dropFileTombstones :: "string \<Rightarrow> fileKey set \<Rightarrow> fileKey set" where
  "dropFileTombstones jobID completed = {k \<in> completed. fst k \<noteq> jobID}"

text \<open>The files of a job, in the order the map is ranged over.\<close>

definition jobFiles :: "Env \<Rightarrow> string \<Rightarrow> Worker \<Rightarrow> (fileKey \<times> openFile) list" where
  "jobFiles env jobID wk =
     concat (map (\<lambda>k. case wk_open wk k of None \<Rightarrow> [] | Some f \<Rightarrow> if fst k = jobID then [(k, f)] else []) (en_order env))"

definition dropJobFiles :: "string \<Rightarrow> (fileKey \<rightharpoonup> openFile) \<Rightarrow> fileKey \<rightharpoonup> openFile" where
  "dropJobFiles jobID m = (\<lambda>k. if fst k = jobID then None else m k)"

definition dispatchRequest :: "Env \<Rightarrow> WriteRequest \<Rightarrow> Worker \<Rightarrow> (Worker \<times> AsmEvent list) option" where
  "dispatchRequest env req wk =
     (let jobID = wq_MessageID req; dropped = wk\<lparr>wk_completed := dropFileTombstones jobID (wk_completed wk)\<rparr> in
      if wq_ack req \<and> wq_FileIdx req = fileIdxCancelJob then
        Some (dropped\<lparr>wk_open := dropJobFiles jobID (wk_open wk),
                wk_disk := foldl (\<lambda>dk kf. closeCancelledFile (wq_delete req) (en_removes env (fst kf)) (snd kf) dk) (wk_disk wk) (jobFiles env jobID wk)\<rparr>,
              [Acked True])
      else if wq_ack req \<and> wq_FileIdx req = fileIdxCloseHandles then
        (let failed = filter (\<lambda>kf. \<not> (en_syncs env (fst kf) \<and> en_closes env (fst kf))) (jobFiles env jobID wk) in
         Some (dropped\<lparr>wk_open := dropJobFiles jobID (wk_open wk)\<rparr>,
               map (\<lambda>kf. OnFileUntrusted (of_owner (snd kf)) (snd (fst kf))) failed @ [Acked (failed = [])]))
      else if wq_ack req \<and> wq_FileIdx req = fileIdxForgetJob then Some (dropped, [Acked True])
      else if wq_ack req \<and> wq_FileIdx req = fileIdxQuiesce then Some (wk, [Acked True])
      else processRequest env req wk)"

definition newWorker :: "disk \<Rightarrow> Worker" where
  "newWorker dk = \<lparr>wk_open = Map.empty, wk_completed = {}, wk_disk = dk\<rparr>"

end
