(* ===== verification/Assembler_Safety.thy ===== *)
theory Assembler_Safety
  imports Assembler
begin

text \<open>
  What the worker keeps: the part counters are exact, no request panics, an owned byte is never
  written again while its file is open, and each data buffer is returned once.
\<close>

section \<open>The writer's invariant\<close>

definition fw_ok :: "fileWriter \<Rightarrow> bool" where
  "fw_ok w \<longleftrightarrow> owned_ok (fw_owned w) \<and> finite (fw_seenDone w) \<and> finite (fw_seenFailed w)
     \<and> fw_partsWritten w = int (card (fw_seenDone w \<union> fw_seenFailed w))
     \<and> (\<forall>x \<in> set (fw_owned w). snd x = seededOwner \<or> snd x \<in> fw_seenDone w)"

lemma fw_okD:
  assumes "fw_ok w"
  shows "owned_ok (fw_owned w)" "finite (fw_seenDone w)" "finite (fw_seenFailed w)"
    "fw_partsWritten w = int (card (fw_seenDone w \<union> fw_seenFailed w))"
    "x \<in> set (fw_owned w) \<Longrightarrow> snd x = seededOwner \<or> snd x \<in> fw_seenDone w"
  using assms by (auto simp: fw_ok_def)

lemma fw_ok_new: "fw_ok newFileWriter"
  by (simp add: fw_ok_def newFileWriter_def owned_ok_def)

lemma seedLoop_owner: "\<forall>x \<in> set s. snd x = seededOwner \<Longrightarrow> x \<in> set (seedLoop s rs) \<Longrightarrow> snd x = seededOwner"
proof (induction s rs rule: seedLoop.induct)
  case (2 s r rs)
  have "snd (last s) = seededOwner" if "s \<noteq> []" using 2(3) that by simp
  then show ?case using 2 by (auto split: if_splits dest: in_set_butlastD)
qed simp

lemma fw_ok_seedOwned: "fw_ok (seedOwned owned newFileWriter)"
proof (cases "owned = []")
  case False
  obtain s where s: "seed (validOwned owned) [] = Some s" by (simp add: seed_def)
  then have "\<forall>x \<in> set s. snd x = seededOwner" using seedLoop_owner [of "[]"] by (auto simp: seed_def)
  then show ?thesis using False s seed_spec(2) [OF s] by (simp add: seedOwned_def fw_ok_def newFileWriter_def)
qed (simp add: seedOwned_def fw_ok_new)

lemma seedOwned_parts: "fw_partsWritten (seedOwned owned newFileWriter) = 0"
  by (simp add: seedOwned_def newFileWriter_def split: option.split)

text \<open>Admitting a new article.\<close>

lemma admit_new:
  assumes ok: "fw_ok w" and a: "a \<notin> fw_seenDone w"
  defines "w1 \<equiv> fst (admit a w)"
  shows "admit a w = (w1, True)" "fw_ok w1" "fw_owned w1 = fw_owned w" "fw_seenDone w1 = insert a (fw_seenDone w)"
    "fw_seenFailed w1 = fw_seenFailed w" "a \<noteq> seededOwner \<Longrightarrow> a \<notin> snd ` set (fw_owned w1)"
proof -
  have w1: "w1 = w\<lparr>fw_partsWritten := (if holdsPart a w then fw_partsWritten w else fw_partsWritten w + 1),
      fw_seenDone := insert a (fw_seenDone w)\<rparr>" using a by (simp add: w1_def admit_def)
  show "admit a w = (w1, True)" using a by (simp add: w1_def admit_def)
  show f: "fw_owned w1 = fw_owned w" "fw_seenDone w1 = insert a (fw_seenDone w)" "fw_seenFailed w1 = fw_seenFailed w"
    by (simp_all add: w1)
  have "fw_partsWritten w1 = int (card (insert a (fw_seenDone w \<union> fw_seenFailed w)))"
    using a fw_okD(2,3,4) [OF ok] by (auto simp: w1 holdsPart_def insert_absorb)
  then show "fw_ok w1" using ok f unfolding fw_ok_def by auto
  show "a \<notin> snd ` set (fw_owned w1)" if "a \<noteq> seededOwner"
    using fw_okD(5) [OF ok] a that f(1) by auto
qed

text \<open>Resolving the admitted article.\<close>

lemma resolve_ok:
  assumes ok: "fw_ok w" and a: "a \<in> fw_seenDone w"
    and free: "d = dispositionWritten \<or> d = dispositionFetchFailed \<or> (a \<noteq> seededOwner \<longrightarrow> a \<notin> snd ` set (fw_owned w))"
  shows "\<exists>w'. resolve a d w = Some w' \<and> fw_ok w' \<and> fw_owned w' = fw_owned w"
proof (cases d)
  case dispositionWritten
  then show ?thesis using ok a by (simp add: resolve_def)
next
  case dispositionRejected
  let ?w = "w\<lparr>fw_seenDone := fw_seenDone w - {a}, fw_seenFailed := insert a (fw_seenFailed w)\<rparr>"
  have "(fw_seenDone w - {a}) \<union> insert a (fw_seenFailed w) = fw_seenDone w \<union> fw_seenFailed w" using a by auto
  moreover have "\<forall>x \<in> set (fw_owned w). snd x = seededOwner \<or> snd x \<in> fw_seenDone w - {a}"
    using free unfolding dispositionRejected using fw_okD(5) [OF ok] by fastforce
  ultimately have "fw_ok ?w" using ok unfolding fw_ok_def by simp
  then show ?thesis using dispositionRejected a by (simp add: resolve_def)
next
  case dispositionFetchFailed
  have "fw_seenDone w \<union> insert a (fw_seenFailed w) = fw_seenDone w \<union> fw_seenFailed w" using a by auto
  then show ?thesis using dispositionFetchFailed ok a unfolding fw_ok_def by (simp add: resolve_def)
next
  case dispositionRolledBack
  let ?w = "w\<lparr>fw_seenDone := fw_seenDone w - {a}, fw_partsWritten := (if a \<notin> fw_seenFailed w then fw_partsWritten w - 1 else fw_partsWritten w)\<rparr>"
  have "int (card ((fw_seenDone w - {a}) \<union> fw_seenFailed w)) = fw_partsWritten ?w"
  proof (cases "a \<in> fw_seenFailed w")
    case True
    then have "(fw_seenDone w - {a}) \<union> fw_seenFailed w = fw_seenDone w \<union> fw_seenFailed w" by auto
    then show ?thesis using True fw_okD(4) [OF ok] by simp
  next
    case False
    then have "(fw_seenDone w - {a}) \<union> fw_seenFailed w = (fw_seenDone w \<union> fw_seenFailed w) - {a}" by auto
    moreover have "0 < card (fw_seenDone w \<union> fw_seenFailed w)" using a fw_okD(2,3) [OF ok] by (auto simp: card_gt_0_iff)
    ultimately show ?thesis using False a fw_okD(2,3,4) [OF ok] by (simp add: of_nat_diff)
  qed
  moreover have "\<forall>x \<in> set (fw_owned w). snd x = seededOwner \<or> snd x \<in> fw_seenDone w - {a}"
    using free unfolding dispositionRolledBack using fw_okD(5) [OF ok] by fastforce
  ultimately have "fw_ok ?w" using ok unfolding fw_ok_def by simp
  then show ?thesis using dispositionRolledBack a by (simp add: resolve_def)
qed

lemma resolve_failed_ok:
  assumes ok: "fw_ok w"
  shows "\<exists>w'. resolve a dispositionFetchFailed w = Some w' \<and> fw_ok w' \<and> fw_owned w' = fw_owned w"
proof (cases "a \<in> fw_seenDone w")
  case False
  have "card (fw_seenDone w \<union> insert a (fw_seenFailed w)) =
      card (fw_seenDone w \<union> fw_seenFailed w) + (if a \<in> fw_seenFailed w then 0 else 1)"
    using False fw_okD(2,3) [OF ok] by (simp add: insert_absorb)
  then show ?thesis using ok False unfolding fw_ok_def by (simp add: resolve_def)
qed (rule resolve_ok [OF ok]; simp add: fw_ok_def)

section \<open>One article\<close>

definition reqBytes :: "WriteRequest \<Rightarrow> bytes" where
  "reqBytes req = (case wq_Data req of None \<Rightarrow> [] | Some d \<Rightarrow> d)"

lemma dataLen_bytes: "dataLen req = int (length (reqBytes req))"
  by (simp add: dataLen_def reqBytes_def split: option.split)

text \<open>
  What handling an article does to a file: owned bytes stay owned and stay as they are, no other
  path is touched, and a written article's bytes are owned and on disk.
\<close>

definition keeps_owned :: "string \<Rightarrow> fileWriter \<Rightarrow> fileWriter \<Rightarrow> disk \<Rightarrow> disk \<Rightarrow> bool" where
  "keeps_owned path w w' dk dk' \<longleftrightarrow> owned_bytes (fw_owned w) \<subseteq> owned_bytes (fw_owned w')
     \<and> (\<forall>i \<in> owned_bytes (fw_owned w). dk' path i = dk path i) \<and> (\<forall>p. p \<noteq> path \<longrightarrow> dk' p = dk p)"

definition written_ok :: "WriteRequest \<Rightarrow> string \<Rightarrow> fileWriter \<Rightarrow> disk \<Rightarrow> AsmEvent list \<Rightarrow> bool" where
  "written_ok req path w dk evs \<longleftrightarrow> (\<forall>ow fi a off n crc. OnArticleWritten ow fi a off n crc \<in> set evs \<longrightarrow>
     ow = wq_Owner req \<and> fi = wq_FileIdx req \<and> a = wq_ArtIdx req \<and> off = wq_Offset req \<and> n = dataLen req \<and> crc = wq_CRC32 req
     \<and> {off..<off + n} \<subseteq> owned_bytes (fw_owned w) \<and> map (dk path) [off..off + n - 1] = reqBytes req)"

definition returns_once :: "WriteRequest \<Rightarrow> AsmEvent list \<Rightarrow> bool" where
  "returns_once req evs \<longleftrightarrow> length (filter (\<lambda>e. e = BufferReturned) evs) = (if wq_Data req = None then 0 else 1)"

lemma returnBuffer_once [simp]: "returns_once req (returnBuffer req)"
  by (simp add: returns_once_def returnBuffer_def)

lemma returns_once_app: "returns_once req a \<Longrightarrow> BufferReturned \<notin> set b \<Longrightarrow> returns_once req (a @ b)"
  by (auto simp: returns_once_def filter_empty_conv)

lemma returns_once_pre: "returns_once req b \<Longrightarrow> BufferReturned \<notin> set a \<Longrightarrow> returns_once req (a @ b)"
  by (auto simp: returns_once_def filter_empty_conv)

lemma written_ok_none: "\<forall>ow fi a off n crc. OnArticleWritten ow fi a off n crc \<notin> set evs \<Longrightarrow> written_ok req path w dk evs"
  by (auto simp: written_ok_def)

lemma returnBuffer_events: "e \<in> set (returnBuffer req) \<Longrightarrow> e = BufferReturned"
  by (simp add: returnBuffer_def split: if_splits)

lemma written_ok_return: "written_ok req path w dk (returnBuffer req)"
  by (rule written_ok_none) (auto dest: returnBuffer_events)

lemma write_read: "map (writeBytes off d file) [off..off + int (length d) - 1] = d"
  by (rule nth_equalityI) (simp_all add: writeBytes_def nth_upto)

lemma writeBytes_other: "i \<notin> {off..<off + int (length d)} \<Longrightarrow> writeBytes off d file i = file i"
  by (auto simp: writeBytes_def)

lemma keeps_owned_refl: "fw_owned w' = fw_owned w \<Longrightarrow> keeps_owned path w w' dk dk"
  by (simp add: keeps_owned_def)

definition handled_ok :: "WriteRequest \<Rightarrow> openFile \<Rightarrow> fileWriter \<Rightarrow> disk \<Rightarrow> disk \<Rightarrow> AsmEvent list \<Rightarrow> bool" where
  "handled_ok req f w dk dk' evs \<longleftrightarrow> fw_ok w \<and> keeps_owned (fi_Path (of_info f)) (of_w f) w dk dk'
     \<and> written_ok req (fi_Path (of_info f)) w dk' evs \<and> returns_once req evs"

lemma handled_quiet:
  assumes "fw_ok w" and "fw_owned w = fw_owned (of_w f)" and "keeps_owned (fi_Path (of_info f)) (of_w f) w dk dk'"
    and "\<forall>e \<in> set evs. e \<noteq> BufferReturned \<and> (\<forall>ow fi a off n crc. e \<noteq> OnArticleWritten ow fi a off n crc)"
  shows "handled_ok req f w dk dk' (returnBuffer req @ evs)"
proof -
  have "returns_once req (returnBuffer req @ evs)" by (rule returns_once_app) (use assms(4) in auto)
  moreover have "written_ok req (fi_Path (of_info f)) w dk' (returnBuffer req @ evs)"
    by (rule written_ok_none) (use assms(4) in \<open>auto dest: returnBuffer_events\<close>)
  ultimately show ?thesis using assms(1,3) by (simp add: handled_ok_def)
qed

text \<open>A failed write leaves a prefix of the data in bytes nobody owns.\<close>

lemma keeps_owned_write:
  assumes "{wq_Offset req..<wq_Offset req + int (length (reqBytes req))} \<inter> owned_bytes (fw_owned w) = {}"
    and "owned_bytes (fw_owned w) \<subseteq> owned_bytes (fw_owned w')" and "length d \<le> length (reqBytes req)"
  shows "keeps_owned path w w' dk (dk(path := writeBytes (wq_Offset req) d (dk path)))"
proof -
  have "i \<notin> {wq_Offset req..<wq_Offset req + int (length d)}" if "i \<in> owned_bytes (fw_owned w)" for i
    using assms(1,3) that by fastforce
  then show ?thesis using assms(2) by (simp add: keeps_owned_def writeBytes_other)
qed

lemma written_claim:
  assumes ok: "fw_ok w" and adm: "a \<in> fw_seenDone w"
    and rng: "rng = \<lparr>rg_Off = wq_Offset req, rg_Len = dataLen req\<rparr>" and free: "ownerOf (fw_owned w) rng = None"
  obtains o' where "claim rng a (fw_owned w) = Some o'" "fw_ok (w\<lparr>fw_owned := o'\<rparr>)"
    "owned_bytes o' = owned_bytes (fw_owned w) \<union> {wq_Offset req..<wq_Offset req + int (length (reqBytes req))}"
proof -
  obtain o' where o': "claim rng a (fw_owned w) = Some o'" "owned_ok o'" "owned_bytes o' = owned_bytes (fw_owned w) \<union> rg_bytes rng"
    by (rule rs.claim_unowned [OF fw_okD(1) [OF ok] free])
  have "x \<in> set (fw_owned w) \<or> snd x = a" if "x \<in> set o'" for x
    using o'(1) that claim_spec(2) [OF fw_okD(1) [OF ok], of rng a o'] by (cases "0 < rg_Len rng") (auto simp: claim_def)
  then have "fw_ok (w\<lparr>fw_owned := o'\<rparr>)" using ok adm o'(2) unfolding fw_ok_def by fastforce
  then show ?thesis using that [OF o'(1)] o'(3) by (simp add: rng rg_bytes_def rg_end_def dataLen_bytes)
qed

lemma success_ok:
  assumes ok: "fw_ok (of_w f)"
  shows "\<exists>w dk' evs. handleSuccessArticle env f req dk = Some (w, dk', evs) \<and> handled_ok req f w dk dk' evs"
proof (cases "wq_ArtIdx req \<in> fw_seenDone (of_w f)")
  case True
  then have "admit (wq_ArtIdx req) (of_w f) = (of_w f, False)" by (simp add: admit_def)
  then show ?thesis using handled_quiet [OF ok HOL.refl keeps_owned_refl [OF HOL.refl], of "[]" req]
    by (simp add: handleSuccessArticle_def)
next
  case False
  define a where "a = wq_ArtIdx req"
  define path where "path = fi_Path (of_info f)"
  define rng where "rng = \<lparr>rg_Off = wq_Offset req, rg_Len = dataLen req\<rparr>"
  define w1 where "w1 = fst (admit a (of_w f))"
  note ad = admit_new [OF ok False, folded a_def, folded w1_def]
  have adm: "a \<in> fw_seenDone w1" by (simp add: ad(4))
  have free: "d = dispositionWritten \<or> d = dispositionFetchFailed \<or> (a \<noteq> seededOwner \<longrightarrow> a \<notin> snd ` set (fw_owned w1))" for d
    by (intro disjI2 impI ad(6))
  note res = resolve_ok [OF ad(2) adm free]
  note un = handleSuccessArticle_def a_def [symmetric] path_def [symmetric] routeOutcome_def
  show ?thesis
  proof (cases "offsetOutOfRange (of_info f) req = None \<and> ownerOf (fw_owned w1) rng = None")
    case no: False
    then obtain oc where oc: "acceptArticle env f req w1 dk = Some (w1, dk, oc, returnBuffer req)" "oc_disposition oc = dispositionRejected"
      by (cases "offsetOutOfRange (of_info f) req") (auto simp: acceptArticle_def rng_def [symmetric] Let_def)
    obtain w' where w': "resolve a dispositionRejected w1 = Some w'" "fw_ok w'" "fw_owned w' = fw_owned w1" using res by blast
    have "handled_ok req f w' dk dk (returnBuffer req @ [OnArticleRejected (wq_Owner req) (wq_FileIdx req) a (oc_reason oc) (oc_uncovered oc)])"
      by (rule handled_quiet) (use w' ad(3) in \<open>simp_all add: keeps_owned_refl\<close>)
    then show ?thesis using oc w' ad(1) by (simp add: un)
  next
    case yes: True
    have disj: "{wq_Offset req..<wq_Offset req + int (length (reqBytes req))} \<inter> owned_bytes (fw_owned w1) = {}"
      using yes rs.owner_None [OF fw_okD(1) [OF ad(2)], of rng] by (simp add: rng_def rg_bytes_def rg_end_def dataLen_bytes)
    show ?thesis
    proof (cases "en_write env")
      case (Some n)
      define dk1 where "dk1 = dk(path := writeBytes (wq_Offset req) (take n (reqBytes req)) (dk path))"
      have acc: "acceptArticle env f req w1 dk
          = Some (w1, dk1, \<lparr>oc_disposition = dispositionRolledBack, oc_n = 0, oc_reason = [], oc_uncovered = 0\<rparr>, returnBuffer req)"
        using yes Some by (simp add: acceptArticle_def rng_def [symmetric] path_def [symmetric] Let_def writeOne_def dk1_def reqBytes_def)
      obtain w' where w': "resolve a dispositionRolledBack w1 = Some w'" "fw_ok w'" "fw_owned w' = fw_owned w1" using res by blast
      have "handled_ok req f w' dk dk1 (returnBuffer req @ [OnArticlesUnwritten (wq_Owner req) (wq_FileIdx req) [a], OnWriteFault (wq_Owner req) (wq_FileIdx req)])"
        unfolding dk1_def path_def by (rule handled_quiet) (use w' ad(3) disj in \<open>auto intro!: keeps_owned_write\<close>)
      then show ?thesis using w' ad(1) acc by (simp add: un)
    next
      case None
      obtain o' where o': "claim rng a (fw_owned w1) = Some o'" "fw_ok (w1\<lparr>fw_owned := o'\<rparr>)"
        "owned_bytes o' = owned_bytes (fw_owned w1) \<union> {wq_Offset req..<wq_Offset req + int (length (reqBytes req))}"
        by (rule written_claim [OF ad(2) adm rng_def]) (use yes in simp_all)
      define w2 where "w2 = w1\<lparr>fw_owned := o'\<rparr>"
      define dk1 where "dk1 = dk(path := writeBytes (wq_Offset req) (reqBytes req) (dk path))"
      let ?evs = "[OnArticleWritten (wq_Owner req) (wq_FileIdx req) a (wq_Offset req) (dataLen req) (wq_CRC32 req)]"
      have acc: "acceptArticle env f req w1 dk
          = Some (w2, dk1, \<lparr>oc_disposition = dispositionWritten, oc_n = dataLen req, oc_reason = [], oc_uncovered = 0\<rparr>, returnBuffer req)"
        using yes None o'(1) by (simp add: acceptArticle_def rng_def [symmetric] path_def [symmetric] a_def [symmetric] Let_def writeOne_def dk1_def w2_def
            reqBytes_def [symmetric] dataLen_bytes [symmetric])
      have "resolve a dispositionWritten w2 = Some w2" using adm by (simp add: resolve_def w2_def)
      moreover have "keeps_owned path (of_w f) w2 dk dk1" unfolding dk1_def
        by (rule keeps_owned_write) (use disj o'(3) in \<open>simp_all add: w2_def ad(3)\<close>)
      moreover have "written_ok req path w2 dk1 (returnBuffer req @ ?evs)"
        using o'(3) write_read [of "wq_Offset req" "reqBytes req" "dk path"]
        by (auto simp: written_ok_def w2_def dk1_def dataLen_bytes a_def dest: returnBuffer_events)
      moreover have "returns_once req (returnBuffer req @ ?evs)" by (rule returns_once_app) simp_all
      ultimately show ?thesis using o'(2) ad(1) acc by (simp add: un handled_ok_def w2_def)
    qed
  qed
qed

lemma fatal_ok:
  assumes ok: "fw_ok (of_w f)"
  shows "\<exists>w dk' evs. handleFatalArticle f req dk = Some (w, dk', evs) \<and> handled_ok req f w dk dk' evs"
proof -
  obtain w where w: "resolve (wq_ArtIdx req) dispositionFetchFailed (of_w f) = Some w" "fw_ok w" "fw_owned w = fw_owned (of_w f)"
    using resolve_failed_ok [OF ok] by blast
  then show ?thesis using handled_quiet [OF w(2,3) keeps_owned_refl [OF w(3)], of "[]" req] by (simp add: handleFatalArticle_def)
qed

section \<open>The worker's invariant\<close>

definition file_ok :: "openFile \<Rightarrow> bool" where
  "file_ok f \<longleftrightarrow> fw_ok (of_w f) \<and> (fi_TotalParts (of_info f) > 0 \<longrightarrow> fw_partsWritten (of_w f) < fi_TotalParts (of_info f))"

definition worker_ok :: "Worker \<Rightarrow> bool" where
  "worker_ok wk \<longleftrightarrow> (\<forall>k f. wk_open wk k = Some f \<longrightarrow> file_ok f \<and> k \<notin> wk_completed wk)"

text \<open>Nothing is asked of the paths the application answers: two open files may have the same one.\<close>

inductive asm_reach :: "Worker \<Rightarrow> bool" where
  start: "asm_reach (newWorker dk)"
| step: "asm_reach wk \<Longrightarrow> dispatchRequest env req wk = Some (wk', evs) \<Longrightarrow> asm_reach wk'"

lemma worker_okD:
  assumes "worker_ok wk" and "wk_open wk k = Some f"
  shows "file_ok f" "k \<notin> wk_completed wk"
  using assms unfolding worker_ok_def by blast+

lemma worker_ok_put:
  assumes ok: "worker_ok wk" and f: "file_ok f" and k: "k \<notin> wk_completed wk"
  shows "worker_ok (wk\<lparr>wk_open := (wk_open wk)(k \<mapsto> f), wk_disk := dk\<rparr>)" "worker_ok (wk\<lparr>wk_open := (wk_open wk)(k \<mapsto> f)\<rparr>)"
  using assms unfolding worker_ok_def by (auto split: if_splits)

lemma worker_ok_sub:
  assumes "worker_ok wk" and "\<And>k f. wk_open wk' k = Some f \<Longrightarrow> wk_open wk k = Some f \<and> k \<notin> wk_completed wk'"
  shows "worker_ok wk'"
  using assms unfolding worker_ok_def by blast

text \<open>\<open>processOpen\<close> handles the article and, when the last part is in, finishes the file.\<close>

lemma processOpen_cases:
  assumes "fw_ok (of_w f)"
  obtains w dk evs f1 wk1 where "handled_ok req f w (wk_disk wk) dk evs" "f1 = f\<lparr>of_w := w\<rparr>"
    "wk1 = wk\<lparr>wk_open := (wk_open wk)(key \<mapsto> f1), wk_disk := dk\<rparr>"
    "processOpen env req key f wk =
      (if fw_partsWritten w \<noteq> fw_partsWritten (of_w f) \<and> fi_TotalParts (of_info f) > 0 \<and> fw_partsWritten w \<ge> fi_TotalParts (of_info f)
       then (case finalizeFile env f1 key req wk1 of (wk2, evs2) \<Rightarrow> Some (wk2, evs @ evs2)) else Some (wk1, evs))"
proof -
  obtain w dk evs where h: "(if wq_FatalErr req then handleFatalArticle f req (wk_disk wk) else handleSuccessArticle env f req (wk_disk wk)) = Some (w, dk, evs)"
    "handled_ok req f w (wk_disk wk) dk evs"
    using fatal_ok [OF assms, of req "wk_disk wk"] success_ok [OF assms, of env req "wk_disk wk"] by (cases "wq_FatalErr req") auto
  show ?thesis by (rule that [OF h(2) HOL.refl HOL.refl]) (simp add: processOpen_def h(1) Let_def)
qed

lemma processOpen_ok:
  assumes ok: "worker_ok wk" and f: "wk_open wk key = Some f"
  shows "\<exists>wk' evs. processOpen env req key f wk = Some (wk', evs) \<and> worker_ok wk' \<and> returns_once req evs"
proof -
  note fo = worker_okD(1) [OF ok f]
  obtain w dk evs f1 wk1 where h: "handled_ok req f w (wk_disk wk) dk evs" and f1_def: "f1 = f\<lparr>of_w := w\<rparr>"
    and wk1_def: "wk1 = wk\<lparr>wk_open := (wk_open wk)(key \<mapsto> f1), wk_disk := dk\<rparr>"
    and p: "processOpen env req key f wk =
      (if fw_partsWritten w \<noteq> fw_partsWritten (of_w f) \<and> fi_TotalParts (of_info f) > 0 \<and> fw_partsWritten w \<ge> fi_TotalParts (of_info f)
       then (case finalizeFile env f1 key req wk1 of (wk2, evs2) \<Rightarrow> Some (wk2, evs @ evs2)) else Some (wk1, evs))"
    by (rule processOpen_cases [of f]) (use fo in \<open>simp add: file_ok_def\<close>)
  have wo: "fw_ok w" "returns_once req evs" using h by (simp_all add: handled_ok_def)
  show ?thesis
  proof (cases "fw_partsWritten w \<noteq> fw_partsWritten (of_w f) \<and> fi_TotalParts (of_info f) > 0 \<and> fw_partsWritten w \<ge> fi_TotalParts (of_info f)")
    case True
    obtain wk2 evs2 where fin: "finalizeFile env f1 key req wk1 = (wk2, evs2)" by fastforce
    have "wk_open wk2 = (wk_open wk)(key := None)" "wk_completed wk2 \<subseteq> insert key (wk_completed wk)" "BufferReturned \<notin> set evs2"
      using fin by (auto simp: finalizeFile_def wk1_def Let_def split: if_splits)
    moreover from this have "worker_ok wk2"
      by (intro worker_ok_sub [OF ok]) (auto split: if_splits dest: worker_okD(2) [OF ok])
    ultimately show ?thesis using p True fin wo(2) returns_once_app by auto
  next
    case False
    have "file_ok f1" using fo wo(1) False by (auto simp: file_ok_def f1_def)
    then have "worker_ok wk1" unfolding wk1_def by (rule worker_ok_put(1) [OF ok _ worker_okD(2) [OF ok f]])
    then show ?thesis using p False wo(2) by auto
  qed
qed

lemma open_file_ok: "openTargetFile env req = Inr f \<Longrightarrow> file_ok f \<and> of_owner f = wq_Owner req \<and> en_FileInfo env = Inr (of_info f)"
  by (auto simp: openTargetFile_def file_ok_def fw_ok_seedOwned seedOwned_parts split: sum.splits if_splits)

lemma processClosed_ok:
  assumes ok: "worker_ok wk" and key: "key = (wq_JobID req, wq_FileIdx req)"
    and closed: "wk_open wk key = None" "key \<notin> wk_completed wk"
  shows "\<exists>wk' evs. processClosed env req key wk = Some (wk', evs) \<and> worker_ok wk' \<and> returns_once req evs"
proof (cases "openTargetFile env req")
  case (Inl b)
  have "returns_once req ([OnArticlesUnwritten (wq_Owner req) (wq_FileIdx req) [wq_ArtIdx req], OnWriteFault (wq_Owner req) (wq_FileIdx req)] @ returnBuffer req)"
    by (rule returns_once_pre) simp_all
  then show ?thesis using Inl ok by (cases b) (simp_all add: processClosed_def)
next
  case (Inr f)
  note fo = open_file_ok [OF Inr]
  let ?wk = "wk\<lparr>wk_open := (wk_open wk)(key \<mapsto> f)\<rparr>"
  have "worker_ok ?wk" by (rule worker_ok_put(2) [OF ok]) (use fo closed in auto)
  then have "\<exists>wk' evs. processOpen env req key f ?wk = Some (wk', evs) \<and> worker_ok wk' \<and> returns_once req evs"
    by (rule processOpen_ok) simp
  then show ?thesis using Inr by (simp add: processClosed_def)
qed

lemma processRequest_ok:
  assumes ok: "worker_ok wk"
  shows "\<exists>wk' evs. processRequest env req wk = Some (wk', evs) \<and> worker_ok wk' \<and> returns_once req evs"
proof -
  define key where "key = (wq_JobID req, wq_FileIdx req)"
  have rej: "returns_once req (returnBuffer req @ [OnArticleRejected (wq_Owner req) (wq_FileIdx req) (wq_ArtIdx req)
      ''redelivered after its file was completed'' asmWholeArticle])" by (rule returns_once_app) simp_all
  show ?thesis
  proof (cases "key \<in> wk_completed wk")
    case True
    then show ?thesis using ok rej by (simp add: processRequest_def key_def [symmetric] Let_def)
  next
    case nc: False
    show ?thesis
    proof (cases "wk_open wk key")
      case None
      then show ?thesis using processClosed_ok [OF ok key_def None nc] nc by (simp add: processRequest_def key_def [symmetric] Let_def)
    next
      case (Some f)
      let ?wk = "wk\<lparr>wk_open := (wk_open wk)(key := None), wk_disk := closeCancelledFile False False f (wk_disk wk)\<rparr>"
      have "worker_ok ?wk" by (rule worker_ok_sub [OF ok]) (use worker_okD(2) [OF ok] in \<open>auto split: if_splits\<close>)
      then have "\<exists>wk' evs. processClosed env req key ?wk = Some (wk', evs) \<and> worker_ok wk' \<and> returns_once req evs"
        by (rule processClosed_ok [OF _ key_def]) (use nc in simp_all)
      then show ?thesis using nc Some ok processOpen_ok [OF ok Some] by (simp add: processRequest_def key_def [symmetric] Let_def)
    qed
  qed
qed

lemma dispatchRequest_ok:
  assumes ok: "worker_ok wk"
  shows "\<exists>wk' evs. dispatchRequest env req wk = Some (wk', evs) \<and> worker_ok wk'"
proof -
  have "worker_ok (wk\<lparr>wk_completed := dropFileTombstones j (wk_completed wk)\<rparr>)" for j
    by (rule worker_ok_sub [OF ok]) (use worker_okD(2) [OF ok] in \<open>auto simp: dropFileTombstones_def\<close>)
  moreover have "worker_ok (wk\<lparr>wk_completed := dropFileTombstones j (wk_completed wk), wk_open := dropJobFiles j (wk_open wk), wk_disk := dk\<rparr>)"
    "worker_ok (wk\<lparr>wk_completed := dropFileTombstones j (wk_completed wk), wk_open := dropJobFiles j (wk_open wk)\<rparr>)" for j dk
    by (rule worker_ok_sub [OF ok]; use worker_okD(2) [OF ok] in \<open>auto simp: dropFileTombstones_def dropJobFiles_def split: if_splits\<close>)+
  ultimately show ?thesis using ok processRequest_ok [OF ok, of env req] unfolding dispatchRequest_def Let_def by force
qed

lemma asm_reach_ok: "asm_reach wk \<Longrightarrow> worker_ok wk"
proof (induction rule: asm_reach.induct)
  case (start dk)
  show ?case by (simp add: worker_ok_def newWorker_def)
next
  case (step wk env req wk' evs)
  then show ?case using dispatchRequest_ok [OF step.IH, of env req] step.hyps(2) by simp
qed

section \<open>The disk\<close>

definition targetPath :: "Env \<Rightarrow> WriteRequest \<Rightarrow> Worker \<Rightarrow> string" where
  "targetPath env req wk =
     (case wk_open wk (wq_JobID req, wq_FileIdx req) of
        Some f \<Rightarrow> if of_owner f = wq_Owner req then fi_Path (of_info f) else (case en_FileInfo env of Inr info \<Rightarrow> fi_Path info | Inl _ \<Rightarrow> [])
      | None \<Rightarrow> (case en_FileInfo env of Inr info \<Rightarrow> fi_Path info | Inl _ \<Rightarrow> []))"

text \<open>What a request changes: one path, outside what its file owned, and one open file.\<close>

definition step_ok :: "WriteRequest \<Rightarrow> string \<Rightarrow> int set \<Rightarrow> Worker \<Rightarrow> Worker \<Rightarrow> AsmEvent list \<Rightarrow> bool" where
  "step_ok req path kept wk wk' evs \<longleftrightarrow> (\<forall>p. p \<noteq> path \<longrightarrow> wk_disk wk' p = wk_disk wk p) \<and> (\<forall>i \<in> kept. wk_disk wk' path i = wk_disk wk path i)
     \<and> (\<forall>k. k \<noteq> (wq_JobID req, wq_FileIdx req) \<longrightarrow> wk_open wk' k = wk_open wk k)
     \<and> (\<forall>f'. wk_open wk' (wq_JobID req, wq_FileIdx req) = Some f' \<longrightarrow> kept \<subseteq> owned_bytes (fw_owned (of_w f')))
     \<and> (\<forall>ow fi a off n crc. OnArticleWritten ow fi a off n crc \<in> set evs \<longrightarrow>
          ow = wq_Owner req \<and> fi = wq_FileIdx req \<and> a = wq_ArtIdx req \<and> off = wq_Offset req \<and> n = dataLen req \<and> crc = wq_CRC32 req
          \<and> map (wk_disk wk' path) [off..off + n - 1] = reqBytes req
          \<and> (\<forall>f'. wk_open wk' (wq_JobID req, wq_FileIdx req) = Some f' \<longrightarrow> {off..<off + n} \<subseteq> owned_bytes (fw_owned (of_w f'))))"

lemma step_ok_frame:
  assumes "step_ok req path kept wk wk' evs" and "p \<noteq> path" and "k \<noteq> (wq_JobID req, wq_FileIdx req)"
  shows "wk_disk wk' p = wk_disk wk p \<and> wk_open wk' k = wk_open wk k"
  using assms unfolding step_ok_def by blast

lemma step_ok_quiet:
  assumes "\<forall>e \<in> set evs. \<forall>ow fi a off n crc. e \<noteq> OnArticleWritten ow fi a off n crc"
    and "wk_disk wk' = wk_disk wk" and "wk_open wk' = wk_open wk"
    and "\<And>f'. wk_open wk (wq_JobID req, wq_FileIdx req) = Some f' \<Longrightarrow> kept \<subseteq> owned_bytes (fw_owned (of_w f'))"
  shows "step_ok req path kept wk wk' evs"
  using assms unfolding step_ok_def by auto

lemma truncate_keeps:
  assumes "owned_ok s" and "i \<in> owned_bytes s"
  shows "truncateAt (maxEnd s) file i = file i"
  using maxEnd_spec(1) [OF assms] by (simp add: truncateAt_def)

lemma finalize_step:
  assumes wo: "written_ok req path w dk evs1" and w: "owned_ok (fw_owned w)" and key: "key = (wq_JobID req, wq_FileIdx req)"
    and path: "path = fi_Path (of_info f1)" and f1: "of_w f1 = w" and dk: "wk_disk wk1 = dk"
    and one: "step_ok req path kept wk wk1 evs1" and kept: "kept \<subseteq> owned_bytes (fw_owned w)"
    and fin: "finalizeFile env f1 key req wk1 = (wk2, evs2)"
  shows "step_ok req path kept wk wk2 (evs1 @ evs2) \<and> wk_open wk2 key = None"
proof -
  have o2: "wk_open wk2 = (wk_open wk1)(key := None)" and ev: "\<And>ow fi a off n crc. OnArticleWritten ow fi a off n crc \<notin> set evs2"
    and dk2: "wk_disk wk2 = (if en_truncated env \<and> maxEnd (fw_owned w) > 0 then dk(path := truncateAt (maxEnd (fw_owned w)) (dk path)) else dk)"
    using fin by (auto simp: finalizeFile_def f1 path dk Let_def split: if_splits)
  have same: "wk_disk wk2 path i = dk path i" if "i \<in> owned_bytes (fw_owned w)" for i
    using truncate_keeps [OF w that] by (simp add: dk2)
  have oth: "wk_disk wk2 p = dk p" if "p \<noteq> path" for p using that by (simp add: dk2)
  have data: "map (wk_disk wk2 path) [off..off + n - 1] = reqBytes req" if "OnArticleWritten ow fi a off n crc \<in> set evs1" for ow fi a off n crc
  proof -
    have b: "{off..<off + n} \<subseteq> owned_bytes (fw_owned w)" "map (dk path) [off..off + n - 1] = reqBytes req" using wo that unfolding written_ok_def by blast+
    have "map (wk_disk wk2 path) [off..off + n - 1] = map (dk path) [off..off + n - 1]"
      by (rule map_cong [OF HOL.refl]) (rule same, use b(1) in auto)
    then show ?thesis using b(2) by simp
  qed
  have none: "wk_open wk2 key = None" using o2 by simp
  have k: "wk_disk wk2 path i = wk_disk wk path i" if "i \<in> kept" for i
    using same kept that one unfolding step_ok_def dk by (metis subsetD)
  show ?thesis using one oth k data ev none o2 unfolding step_ok_def dk by (auto simp: key)
qed

lemma processOpen_step:
  assumes ok: "worker_ok wk" and f: "wk_open wk key = Some f" and key: "key = (wq_JobID req, wq_FileIdx req)"
    and step: "processOpen env req key f wk = Some (wk', evs)"
  shows "step_ok req (fi_Path (of_info f)) (owned_bytes (fw_owned (of_w f))) wk wk' evs
    \<and> (\<forall>f'. wk_open wk' key = Some f' \<longrightarrow> of_info f' = of_info f \<and> of_owner f' = of_owner f)"
proof -
  define path where "path = fi_Path (of_info f)"
  obtain w dk evs1 f1 wk1 where h: "handled_ok req f w (wk_disk wk) dk evs1" and f1: "f1 = f\<lparr>of_w := w\<rparr>"
    and wk1: "wk1 = wk\<lparr>wk_open := (wk_open wk)(key \<mapsto> f1), wk_disk := dk\<rparr>"
    and p: "processOpen env req key f wk =
      (if fw_partsWritten w \<noteq> fw_partsWritten (of_w f) \<and> fi_TotalParts (of_info f) > 0 \<and> fw_partsWritten w \<ge> fi_TotalParts (of_info f)
       then (case finalizeFile env f1 key req wk1 of (wk2, evs2) \<Rightarrow> Some (wk2, evs1 @ evs2)) else Some (wk1, evs1))"
    by (rule processOpen_cases [of f]) (use worker_okD(1) [OF ok f] in \<open>simp add: file_ok_def\<close>)
  have ko: "owned_bytes (fw_owned (of_w f)) \<subseteq> owned_bytes (fw_owned w)" "\<And>i. i \<in> owned_bytes (fw_owned (of_w f)) \<Longrightarrow> dk path i = wk_disk wk path i"
    "\<And>p. p \<noteq> path \<Longrightarrow> dk p = wk_disk wk p" and wo: "written_ok req path w dk evs1" and w: "owned_ok (fw_owned w)"
    using h fw_okD(1) by (auto simp: handled_ok_def keeps_owned_def path_def)
  have one: "step_ok req path (owned_bytes (fw_owned (of_w f))) wk wk1 evs1"
    using ko wo by (auto simp: step_ok_def written_ok_def wk1 key f1)
  show ?thesis
  proof (cases "fw_partsWritten w \<noteq> fw_partsWritten (of_w f) \<and> fi_TotalParts (of_info f) > 0 \<and> fw_partsWritten w \<ge> fi_TotalParts (of_info f)")
    case True
    obtain wk2 evs2 where fin: "finalizeFile env f1 key req wk1 = (wk2, evs2)" by fastforce
    have "step_ok req path (owned_bytes (fw_owned (of_w f))) wk wk2 (evs1 @ evs2) \<and> wk_open wk2 key = None"
      by (rule finalize_step [OF wo w key _ _ _ one ko(1) fin]) (simp_all add: f1 wk1 path_def)
    then show ?thesis using p True fin step by (auto simp: path_def)
  next
    case False
    then have "wk' = wk1" "evs = evs1" using p step by (auto split: if_splits)
    then show ?thesis using one by (simp add: path_def wk1 f1)
  qed
qed

lemma step_ok_weaken: "step_ok req path kept wk wk' evs \<Longrightarrow> kept' \<subseteq> kept \<Longrightarrow> step_ok req path kept' wk wk' evs"
  unfolding step_ok_def by blast

text \<open>A request that finds its file closed, or open for another owner, opens it anew or changes nothing but that entry.\<close>

definition closed_ok :: "Env \<Rightarrow> WriteRequest \<Rightarrow> Worker \<Rightarrow> Worker \<Rightarrow> AsmEvent list \<Rightarrow> bool" where
  "closed_ok env req wk wk' evs \<longleftrightarrow>
     (\<exists>f. openTargetFile env req = Inr f \<and> step_ok req (fi_Path (of_info f)) (owned_bytes (fw_owned (of_w f))) wk wk' evs
       \<and> (\<forall>f'. wk_open wk' (wq_JobID req, wq_FileIdx req) = Some f' \<longrightarrow> of_owner f' = wq_Owner req))
     \<or> wk_disk wk' = wk_disk wk \<and> (\<forall>k. k \<noteq> (wq_JobID req, wq_FileIdx req) \<longrightarrow> wk_open wk' k = wk_open wk k)
       \<and> (\<forall>f'. wk_open wk' (wq_JobID req, wq_FileIdx req) = Some f' \<longrightarrow> wk_open wk (wq_JobID req, wq_FileIdx req) = Some f')
       \<and> (\<forall>ow fi a off n crc. OnArticleWritten ow fi a off n crc \<notin> set evs)"

lemma processClosed_step:
  assumes ok: "worker_ok wk" and key: "key = (wq_JobID req, wq_FileIdx req)"
    and closed: "wk_open wk key = None" "key \<notin> wk_completed wk" and step: "processClosed env req key wk = Some (wk', evs)"
  shows "closed_ok env req wk wk' evs"
proof (cases "openTargetFile env req")
  case (Inl b)
  then have "wk' = wk" "\<forall>ow fi a off n crc. OnArticleWritten ow fi a off n crc \<notin> set evs"
    using step by (cases b; auto simp: processClosed_def dest: returnBuffer_events)+
  then show ?thesis by (simp add: closed_ok_def)
next
  case (Inr f)
  note fo = open_file_ok [OF Inr]
  let ?wk = "wk\<lparr>wk_open := (wk_open wk)(key \<mapsto> f)\<rparr>"
  have "worker_ok ?wk" by (rule worker_ok_put(2) [OF ok]) (use fo closed in auto)
  then have "step_ok req (fi_Path (of_info f)) (owned_bytes (fw_owned (of_w f))) ?wk wk' evs
      \<and> (\<forall>f'. wk_open wk' key = Some f' \<longrightarrow> of_info f' = of_info f \<and> of_owner f' = of_owner f)"
    using processOpen_step [of ?wk key f req env wk' evs] step Inr key by (simp add: processClosed_def)
  then have "step_ok req (fi_Path (of_info f)) (owned_bytes (fw_owned (of_w f))) wk wk' evs
      \<and> (\<forall>f'. wk_open wk' key = Some f' \<longrightarrow> of_owner f' = of_owner f)" unfolding step_ok_def by (simp add: key)
  then show ?thesis using Inr fo by (auto simp: closed_ok_def key openTargetFile_def split: sum.splits if_splits)
qed

lemma processRequest_step:
  assumes ok: "worker_ok wk" and step: "processRequest env req wk = Some (wk', evs)"
  shows "(\<exists>f. wk_open wk (wq_JobID req, wq_FileIdx req) = Some f \<and> of_owner f = wq_Owner req
        \<and> step_ok req (fi_Path (of_info f)) (owned_bytes (fw_owned (of_w f))) wk wk' evs
        \<and> (\<forall>f'. wk_open wk' (wq_JobID req, wq_FileIdx req) = Some f' \<longrightarrow> of_info f' = of_info f))
    \<or> (\<forall>f. wk_open wk (wq_JobID req, wq_FileIdx req) = Some f \<longrightarrow> of_owner f \<noteq> wq_Owner req) \<and> closed_ok env req wk wk' evs"
proof -
  define key where "key = (wq_JobID req, wq_FileIdx req)"
  note pr = processRequest_def [of env req wk, folded key_def, unfolded Let_def]
  have quiet: "closed_ok env req wk wk' evs" if "wk' = wk" "evs = returnBuffer req @ evs'" "\<forall>e \<in> set evs'. \<forall>ow fi a off n crc. e \<noteq> OnArticleWritten ow fi a off n crc" for evs'
    using that by (auto simp: closed_ok_def dest: returnBuffer_events)
  show ?thesis
  proof (cases "wk_open wk key")
    case None
    have "closed_ok env req wk wk' evs"
    proof (cases "key \<in> wk_completed wk")
      case True
      then show ?thesis using step pr by (intro quiet) auto
    next
      case False
      then show ?thesis using processClosed_step [OF ok key_def None False] step pr None by simp
    qed
    then show ?thesis using None by (simp add: key_def)
  next
    case (Some f)
    have nc: "key \<notin> wk_completed wk" using worker_okD(2) [OF ok Some] .
    show ?thesis
    proof (cases "of_owner f = wq_Owner req")
      case True
      then have "processOpen env req key f wk = Some (wk', evs)" using step Some nc pr by simp
      then show ?thesis using processOpen_step [OF ok Some key_def] Some True by (simp add: key_def)
    next
      case False
      let ?wk = "wk\<lparr>wk_open := (wk_open wk)(key := None), wk_disk := closeCancelledFile False False f (wk_disk wk)\<rparr>"
      have "worker_ok ?wk" by (rule worker_ok_sub [OF ok]) (use worker_okD(2) [OF ok] in \<open>auto split: if_splits\<close>)
      then have "closed_ok env req ?wk wk' evs" if "processClosed env req key ?wk = Some (wk', evs)"
        using processClosed_step [of ?wk key req env wk' evs] that nc by (simp add: key_def)
      then have "closed_ok env req wk wk' evs" if "processClosed env req key ?wk = Some (wk', evs)"
        using that unfolding closed_ok_def step_ok_def
        by (simp add: key_def closeCancelledFile_def; elim disjE; simp)
      moreover have "closed_ok env req wk wk' evs" if "en_FileInfo0 env = Inl True"
        using step Some nc False that pr by (intro quiet [of "[]"]) auto
      ultimately have "closed_ok env req wk wk' evs" using step Some nc False pr by (auto split: if_splits)
      then show ?thesis using Some False by (simp add: key_def)
    qed
  qed
qed

section \<open>Properties\<close>

lemma cancel_disk:
  assumes "\<And>k f. (k, f) \<in> set kfs \<Longrightarrow> del \<Longrightarrow> fi_Path (of_info f) \<noteq> p"
  shows "foldl (\<lambda>dk kf. closeCancelledFile del (rm (fst kf)) (snd kf) dk) dk kfs p = dk p"
  using assms
proof (induction kfs arbitrary: dk)
  case (Cons kf kfs)
  have "closeCancelledFile del (rm (fst kf)) (snd kf) dk p = dk p"
    using Cons.prems [of "fst kf" "snd kf"] by (auto simp: closeCancelledFile_def)
  moreover have "fi_Path (of_info f) \<noteq> p" if "(k, f) \<in> set kfs" "del" for k f
    by (rule Cons.prems [of k]) (use that in simp_all)
  then have "foldl (\<lambda>dk kf. closeCancelledFile del (rm (fst kf)) (snd kf) dk) dk' kfs p = dk' p" for dk' by (rule Cons.IH)
  ultimately show ?case by simp
qed simp

lemma jobFiles_open: "(k, f) \<in> set (jobFiles env j wk) \<Longrightarrow> wk_open wk k = Some f \<and> fst k = j"
  by (auto simp: jobFiles_def split: option.splits if_splits)

text \<open>C33: The worker never panics: in every reachable state, for every request, article or control, and whatever the
  file system and the application answer, the request is handled. Afterwards every open file's part
  count is the number of distinct articles resolved for it, below the file's total when that is
  known, and no open file is marked completed. A request that carries a data buffer returns it to
  the pool exactly once, one without returns none.\<close>

theorem assembler_never_panics:
  assumes "asm_reach wk"
  shows "\<exists>wk' evs. dispatchRequest env req wk = Some (wk', evs)
    \<and> (\<forall>k f. wk_open wk' k = Some f \<longrightarrow>
         fw_partsWritten (of_w f) = int (card (fw_seenDone (of_w f) \<union> fw_seenFailed (of_w f)))
         \<and> (fi_TotalParts (of_info f) > 0 \<longrightarrow> fw_partsWritten (of_w f) < fi_TotalParts (of_info f)) \<and> k \<notin> wk_completed wk')
    \<and> (\<not> wq_ack req \<longrightarrow> length (filter (\<lambda>e. e = BufferReturned) evs) = (if wq_Data req = None then 0 else 1))"
proof -
  note ok = asm_reach_ok [OF assms(1)]
  obtain wk' evs where s: "dispatchRequest env req wk = Some (wk', evs)" and ok': "worker_ok wk'"
    using dispatchRequest_ok [OF ok, of env req] by blast
  have "returns_once req evs" if "\<not> wq_ack req"
    using s processRequest_ok [OF ok, of env req] that by (auto simp: dispatchRequest_def Let_def)
  moreover have "fw_partsWritten (of_w f) = int (card (fw_seenDone (of_w f) \<union> fw_seenFailed (of_w f)))
      \<and> (fi_TotalParts (of_info f) > 0 \<longrightarrow> fw_partsWritten (of_w f) < fi_TotalParts (of_info f)) \<and> k \<notin> wk_completed wk'"
    if "wk_open wk' k = Some f" for k f
    using worker_okD(1,2) [OF ok' that] fw_okD(4) unfolding file_ok_def by blast
  ultimately show ?thesis using s unfolding returns_once_def by blast
qed

text \<open>The open file an article goes to: the one its owner has open, or the one opened for it.\<close>

definition targetFile :: "Env \<Rightarrow> WriteRequest \<Rightarrow> Worker \<Rightarrow> openFile option" where
  "targetFile env req wk =
     (case wk_open wk (wq_JobID req, wq_FileIdx req) of
        Some f \<Rightarrow> if of_owner f = wq_Owner req then Some f else (case openTargetFile env req of Inr g \<Rightarrow> Some g | Inl _ \<Rightarrow> None)
      | None \<Rightarrow> (case openTargetFile env req of Inr g \<Rightarrow> Some g | Inl _ \<Rightarrow> None))"

definition cancelDeletes :: "WriteRequest \<Rightarrow> Worker \<Rightarrow> string \<Rightarrow> bool" where
  "cancelDeletes req wk p \<longleftrightarrow> wq_ack req \<and> wq_FileIdx req = fileIdxCancelJob \<and> wq_delete req
     \<and> (\<exists>k f. wk_open wk k = Some f \<and> fst k = wq_MessageID req \<and> fi_Path (of_info f) = p)"

lemma dispatchRequest_kinds:
  assumes "dispatchRequest env req wk = Some (wk', evs)"
  obtains (cancel) "wq_ack req" "wq_FileIdx req = fileIdxCancelJob" "wk_open wk' = dropJobFiles (wq_MessageID req) (wk_open wk)"
      "wk_disk wk' = foldl (\<lambda>dk kf. closeCancelledFile (wq_delete req) (en_removes env (fst kf)) (snd kf) dk) (wk_disk wk) (jobFiles env (wq_MessageID req) wk)"
    | (control) "wk_disk wk' = wk_disk wk" "\<forall>k f'. wk_open wk' k = Some f' \<longrightarrow> wk_open wk k = Some f'"
    | (article) "processRequest env req wk = Some (wk', evs)"
  using assms that by (auto simp: dispatchRequest_def Let_def dropJobFiles_def split: if_splits)

lemma article_disk:
  assumes ok: "worker_ok wk" and step: "processRequest env req wk = Some (wk', evs)" and ch: "wk_disk wk' p i \<noteq> wk_disk wk p i"
  shows "\<exists>f. targetFile env req wk = Some f \<and> fi_Path (of_info f) = p \<and> i \<notin> owned_bytes (fw_owned (of_w f))"
proof -
  have tf: "\<exists>f. targetFile env req wk = Some f \<and> step_ok req (fi_Path (of_info f)) (owned_bytes (fw_owned (of_w f))) wk wk' evs"
    using processRequest_step [OF ok step] ch unfolding closed_ok_def targetFile_def by (auto split: option.splits)
  then obtain f where "targetFile env req wk = Some f" and "step_ok req (fi_Path (of_info f)) (owned_bytes (fw_owned (of_w f))) wk wk' evs"
    by blast
  then show ?thesis using ch unfolding step_ok_def by (intro exI [of _ f]) metis
qed

lemma article_open:
  assumes ok: "worker_ok wk" and step: "processRequest env req wk = Some (wk', evs)"
    and f: "wk_open wk k = Some f" and f': "wk_open wk' k = Some f'" and ow: "of_owner f' = of_owner f"
  shows "of_info f' = of_info f \<and> owned_bytes (fw_owned (of_w f)) \<subseteq> owned_bytes (fw_owned (of_w f'))"
proof (cases "k = (wq_JobID req, wq_FileIdx req)")
  case True
  then show ?thesis using processRequest_step [OF ok step] f f' ow unfolding closed_ok_def step_ok_def by auto
next
  case False
  then have "wk_open wk' k = wk_open wk k" using processRequest_step [OF ok step] unfolding closed_ok_def step_ok_def by blast
  then show ?thesis using f f' by simp
qed

text \<open>C10: An article never overwrites a byte its file owns. A byte of the disk changes only in two ways: a cancel
  that deletes the job's files clears a file the job had open, or an article changes a byte of the
  path of its own target (the file its owner has open, or the one opened for it) that is not among
  the bytes the target owns: those an accepted article wrote, or that were seeded as verified when
  the file was opened. This holds for every request, also when the write fails half way or the
  file is finished and truncated. A file that stays open for the same owner keeps its path and every
  byte it owned. Nothing is assumed of the paths: ownership is per open file, so when two open
  files have the same path each protects only its own bytes.\<close>

theorem owned_bytes_never_overwritten:
  assumes reach: "asm_reach wk" and step: "dispatchRequest env req wk = Some (wk', evs)"
  shows "(\<forall>p i. wk_disk wk' p i \<noteq> wk_disk wk p i \<longrightarrow> cancelDeletes req wk p
       \<or> (\<exists>f. targetFile env req wk = Some f \<and> fi_Path (of_info f) = p \<and> i \<notin> owned_bytes (fw_owned (of_w f))))
    \<and> (\<forall>k f f'. wk_open wk k = Some f \<and> wk_open wk' k = Some f' \<and> of_owner f' = of_owner f \<longrightarrow>
         of_info f' = of_info f \<and> owned_bytes (fw_owned (of_w f)) \<subseteq> owned_bytes (fw_owned (of_w f')))"
  using step
proof (cases rule: dispatchRequest_kinds)
  case cancel
  have "cancelDeletes req wk p" if "wk_disk wk' p i \<noteq> wk_disk wk p i" for p i
  proof (rule ccontr)
    assume no: "\<not> cancelDeletes req wk p"
    have "wk_disk wk' p = wk_disk wk p" unfolding cancel(4)
      by (rule cancel_disk) (use no jobFiles_open cancel(1,2) in \<open>fastforce simp: cancelDeletes_def\<close>)
    then show False using that by simp
  qed
  then show ?thesis using cancel(3) by (auto simp: dropJobFiles_def split: if_splits)
next
  case control
  then show ?thesis by fastforce
next
  case article
  note ok = asm_reach_ok [OF reach]
  show ?thesis using article_disk [OF ok article] article_open [OF ok article] by blast
qed

text \<open>C34: What the worker reports as written is on disk: when it calls OnArticleWritten, the call names the request's
  owner, file, article, offset, length and checksum, the bytes of the target file at that offset are
  the request's data (also when this article completed and truncated the file), and, while the file
  is open, they are owned.\<close>

theorem written_article_is_on_disk:
  assumes reach: "asm_reach wk" and step: "dispatchRequest env req wk = Some (wk', evs)"
    and ev: "OnArticleWritten ow fi a off n crc \<in> set evs"
  shows "ow = wq_Owner req \<and> fi = wq_FileIdx req \<and> a = wq_ArtIdx req \<and> off = wq_Offset req \<and> n = int (length (reqBytes req)) \<and> crc = wq_CRC32 req
    \<and> map (wk_disk wk' (targetPath env req wk)) [off..off + n - 1] = reqBytes req
    \<and> (\<forall>f'. wk_open wk' (wq_JobID req, wq_FileIdx req) = Some f' \<longrightarrow> {off..<off + n} \<subseteq> owned_bytes (fw_owned (of_w f')))"
proof -
  have article: "processRequest env req wk = Some (wk', evs)"
    using step ev by (auto simp: dispatchRequest_def Let_def split: if_splits)
  have "\<exists>s. step_ok req (targetPath env req wk) s wk wk' evs"
    using processRequest_step [OF asm_reach_ok [OF reach] article] ev
    unfolding closed_ok_def targetPath_def by (auto simp: openTargetFile_def split: option.split sum.splits if_splits)
  then show ?thesis using ev unfolding step_ok_def dataLen_bytes by blast
qed

section \<open>A run of the worker\<close>

definition xAsmEnv :: Env where
  "xAsmEnv = \<lparr>en_FileInfo0 = Inr \<lparr>fi_Path = ''f'', fi_TotalParts = 3, fi_ExpectedSize = 6, fi_Owned = []\<rparr>,
     en_FileInfo = Inr \<lparr>fi_Path = ''f'', fi_TotalParts = 3, fi_ExpectedSize = 6, fi_Owned = []\<rparr>,
     en_open = True, en_write = None, en_finish = True, en_truncated = True, en_close = True, en_order = [],
     en_syncs = (\<lambda>k. True), en_closes = (\<lambda>k. True), en_removes = (\<lambda>k. True)\<rparr>"

definition xAsmReq :: "int \<Rightarrow> int \<Rightarrow> bytes \<Rightarrow> WriteRequest" where
  "xAsmReq art off d = \<lparr>wq_Owner = 0, wq_JobID = ''j'', wq_FileIdx = 0, wq_ArtIdx = art, wq_MessageID = ''m'', wq_Offset = off,
     wq_Data = Some d, wq_CRC32 = 0, wq_FatalErr = False, wq_ack = False, wq_delete = False\<rparr>"

lemmas asm_eval = dispatchRequest_def processRequest_def processClosed_def processOpen_def openTargetFile_def seedOwned_def
  newFileWriter_def handleSuccessArticle_def admit_def holdsPart_def acceptArticle_def offsetOutOfRange_def dataLen_def
  wrap64_def MaxInt64_def offsetSlackDivisor_def ownerOf_def firstAfter_def sort_Search_def search_loop.simps ownerScan.simps
  writeOne_def claim_def resolve_def routeOutcome_def returnBuffer_def xAsmEnv_def xAsmReq_def newWorker_def

definition xAsmOpen :: openFile where
  "xAsmOpen = \<lparr>of_w = \<lparr>fw_seenDone = {0}, fw_seenFailed = {}, fw_owned = [(\<lparr>rg_Off = 0, rg_Len = 2\<rparr>, 0)], fw_partsWritten = 1\<rparr>,
     of_info = \<lparr>fi_Path = ''f'', fi_TotalParts = 3, fi_ExpectedSize = 6, fi_Owned = []\<rparr>, of_owner = 0\<rparr>"

definition xAsmWorker :: Worker where
  "xAsmWorker = \<lparr>wk_open = [(''j'', 0) \<mapsto> xAsmOpen], wk_completed = {},
     wk_disk = (\<lambda>p i. 0)(''f'' := writeBytes 0 [7, 8] (\<lambda>i. 0))\<rparr>"

lemma xAsm_first:
  "dispatchRequest xAsmEnv (xAsmReq 0 0 [7, 8]) (newWorker (\<lambda>p i. 0)) =
     Some (xAsmWorker, [BufferReturned, OnArticleWritten 0 0 0 0 2 0])"
  by (simp add: asm_eval xAsmWorker_def xAsmOpen_def)

lemma xAsm_reach: "asm_reach xAsmWorker"
  by (rule asm_reach.step [OF asm_reach.start xAsm_first])

theorem assembler_never_panics_witness:
  "\<exists>wk' evs. dispatchRequest xAsmEnv (xAsmReq 1 1 [9]) xAsmWorker = Some (wk', evs)
     \<and> length (filter (\<lambda>e. e = BufferReturned) evs) = 1"
proof -
  obtain wk' evs where "dispatchRequest xAsmEnv (xAsmReq 1 1 [9]) xAsmWorker = Some (wk', evs)"
    and "\<not> wq_ack (xAsmReq 1 1 [9]) \<longrightarrow>
      length (filter (\<lambda>e. e = BufferReturned) evs) = (if wq_Data (xAsmReq 1 1 [9]) = None then 0 else 1)"
    using assembler_never_panics [OF xAsm_reach] by blast
  then show ?thesis by (intro exI [of _ wk'] exI [of _ evs]) (simp add: xAsmReq_def)
qed

theorem owned_bytes_never_overwritten_witness:
  "\<exists>wk' evs. dispatchRequest xAsmEnv (xAsmReq 1 1 [9]) xAsmWorker = Some (wk', evs)
     \<and> wk_disk wk' ''f'' 1 = 8 \<and> wk_disk xAsmWorker ''f'' 1 = 8"
proof -
  obtain wk' evs where s: "dispatchRequest xAsmEnv (xAsmReq 1 1 [9]) xAsmWorker = Some (wk', evs)"
    using dispatchRequest_ok [OF asm_reach_ok [OF xAsm_reach]] by blast
  have "targetFile xAsmEnv (xAsmReq 1 1 [9]) xAsmWorker = Some xAsmOpen" "\<not> cancelDeletes (xAsmReq 1 1 [9]) xAsmWorker ''f''"
    "1 \<in> owned_bytes (fw_owned (of_w xAsmOpen))"
    by (simp_all add: targetFile_def cancelDeletes_def xAsmReq_def xAsmWorker_def xAsmOpen_def owned_bytes_def rg_bytes_def rg_end_def)
  then have "wk_disk wk' ''f'' 1 = wk_disk xAsmWorker ''f'' 1"
    using owned_bytes_never_overwritten [OF xAsm_reach s] by (metis option.inject)
  then show ?thesis using s by (intro exI [of _ wk'] exI [of _ evs]) (simp add: xAsmWorker_def writeBytes_def)
qed

theorem written_article_is_on_disk_witness:
  "OnArticleWritten 0 0 0 0 2 0 \<in> set [BufferReturned, OnArticleWritten 0 0 0 0 2 0] \<and> map (wk_disk xAsmWorker ''f'') [0..1] = [7, 8]"
  using written_article_is_on_disk [OF asm_reach.start xAsm_first, of 0 0 0 0 2 0]
  by (simp add: newWorker_def targetPath_def xAsmEnv_def xAsmReq_def reqBytes_def)

text \<open>
  Two files of a job whose paths are equal: while the first is open and owns its byte 0, an article
  of the second is written over that byte, and both articles are reported as written.
\<close>

lemma shared_path_overwrites:
  "\<exists>wk' f. dispatchRequest xAsmEnv ((xAsmReq 0 0 [9])\<lparr>wq_FileIdx := 1\<rparr>) xAsmWorker
      = Some (wk', [BufferReturned, OnArticleWritten 0 1 0 0 1 0])
    \<and> asm_reach wk' \<and> wk_open wk' (''j'', 0) = Some f \<and> fi_Path (of_info f) = ''f'' \<and> 0 \<in> owned_bytes (fw_owned (of_w f))
    \<and> wk_disk xAsmWorker ''f'' 0 = 7 \<and> wk_disk wk' ''f'' 0 = 9"
proof -
  have "\<exists>wk'. dispatchRequest xAsmEnv ((xAsmReq 0 0 [9])\<lparr>wq_FileIdx := 1\<rparr>) xAsmWorker
      = Some (wk', [BufferReturned, OnArticleWritten 0 1 0 0 1 0]) \<and> wk_open wk' (''j'', 0) = Some xAsmOpen \<and> wk_disk wk' ''f'' 0 = 9"
    by (simp add: asm_eval xAsmWorker_def writeBytes_def)
  moreover have "0 \<in> owned_bytes (fw_owned (of_w xAsmOpen))" "fi_Path (of_info xAsmOpen) = ''f''" "wk_disk xAsmWorker ''f'' 0 = 7"
    by (simp_all add: xAsmOpen_def xAsmWorker_def owned_bytes_def rg_bytes_def rg_end_def writeBytes_def)
  ultimately show ?thesis using asm_reach.step [OF xAsm_reach] by blast
qed

end
