(* ===== verification/Server_Mask.thy ===== *)
theory Server_Mask
  imports Bitset
begin

unbundle bit_operations_syntax

text \<open>
  The try-list bitmask of the downloader (\<^verbatim>\<open>internal/downloader/mask.go\<close>): one 64-bit word for the
  first 64 servers and a slice of words for the rest, and the set of server indices it stands for.
\<close>

section \<open>The mask\<close>

record serverMask =
  sm_fast :: "64 word"
  sm_slow :: "64 word list"

definition emptyMask :: serverMask where
  "emptyMask = \<lparr>sm_fast = 0, sm_slow = []\<rparr>"

definition slowIdx :: "nat \<Rightarrow> nat" where
  "slowIdx idx = idx div 64 - 1"

definition mask_set :: "nat \<Rightarrow> serverMask \<Rightarrow> serverMask" where
  "mask_set idx m =
     (if idx < 64 then m\<lparr>sm_fast := sm_fast m OR 2 ^ idx\<rparr>
      else
        (let si = slowIdx idx;
             slow = (if length (sm_slow m) \<le> si then sm_slow m @ replicate (si + 1 - length (sm_slow m)) 0 else sm_slow m) in
         m\<lparr>sm_slow := slow[si := slow ! si OR 2 ^ (idx mod 64)]\<rparr>))"

definition mask_has :: "serverMask \<Rightarrow> nat \<Rightarrow> bool" where
  "mask_has m idx =
     (if idx < 64 then sm_fast m AND 2 ^ idx \<noteq> 0
      else if length (sm_slow m) \<le> slowIdx idx then False
      else sm_slow m ! slowIdx idx AND 2 ^ (idx mod 64) \<noteq> 0)"

definition mask_unset :: "nat \<Rightarrow> serverMask \<Rightarrow> serverMask" where
  "mask_unset idx m =
     (if idx < 64 then m\<lparr>sm_fast := sm_fast m AND NOT (2 ^ idx)\<rparr>
      else if length (sm_slow m) \<le> slowIdx idx then m
      else m\<lparr>sm_slow := (sm_slow m)[slowIdx idx := sm_slow m ! slowIdx idx AND NOT (2 ^ (idx mod 64))]\<rparr>)"

definition mask_isEmpty :: "serverMask \<Rightarrow> bool" where
  "mask_isEmpty m = (if sm_fast m \<noteq> 0 then False else list_all (\<lambda>v. v = 0) (sm_slow m))"

text \<open>Kernighan's loop: \<open>v &= v - 1\<close> clears the lowest set bit.\<close>

lemma and_pred_less: "unat (v AND (v - 1)) < unat v" if "v \<noteq> 0" for v :: "64 word"
proof -
  have "v AND (v - 1) \<le> v - 1" by (rule word_and_le1)
  moreover have "unat (v - 1) < unat v" using that by (metis measure_unat)
  ultimately show ?thesis by (simp add: word_le_nat_alt)
qed

function countBits :: "64 word \<Rightarrow> nat" where
  "countBits v = (if v = 0 then 0 else Suc (countBits (v AND (v - 1))))"
  by auto
termination by (relation "measure unat") (auto simp: and_pred_less)

declare countBits.simps [simp del]

definition mask_count :: "serverMask \<Rightarrow> nat" where
  "mask_count m = foldl (\<lambda>n w. n + countBits w) (countBits (sm_fast m)) (sm_slow m)"

section \<open>Bits of a word\<close>

lemma bit_or_pow: "bit (v OR 2 ^ n) i \<longleftrightarrow> bit v i \<or> i = n" if "n < 64" for v :: "64 word"
  using that by (auto simp: bit_simps)

lemma bit_andnot_pow: "bit (v AND NOT (2 ^ n)) i \<longleftrightarrow> bit v i \<and> i \<noteq> n" if "n < 64" for v :: "64 word"
  using that by (auto simp: bit_simps dest: bit_imp_le_length)

lemma nat_and_pred:
  "0 < v \<Longrightarrow> \<exists>n. bit v n \<and> (\<forall>i. bit (v AND (v - 1)) i \<longleftrightarrow> bit v i \<and> i \<noteq> n)" for v :: nat
proof (induction v rule: nat_bit_induct)
  case zero
  then show ?case by simp
next
  case (even k)
  obtain n where n: "bit k n" "\<And>i. bit (k AND (k - 1)) i \<longleftrightarrow> bit k i \<and> i \<noteq> n"
    using even by blast
  have "2 * k - 1 = Suc (2 * (k - 1))" using even by simp
  then have "bit (2 * k AND (2 * k - 1)) i \<longleftrightarrow> bit (2 * k) i \<and> i \<noteq> Suc n" for i
    using n(2) [of "i - 1"] unfolding bit_and_iff by (cases i) (simp_all add: bit_Suc bit_0)
  moreover have "bit (2 * k) (Suc n)" using n by (simp add: bit_Suc)
  ultimately show ?case by blast
next
  case (odd k)
  have "bit (Suc (2 * k) AND (Suc (2 * k) - 1)) i \<longleftrightarrow> bit (Suc (2 * k)) i \<and> i \<noteq> 0" for i
    unfolding bit_and_iff by (cases i) (simp_all add: bit_Suc bit_0)
  moreover have "bit (Suc (2 * k)) 0" by (simp add: bit_0)
  ultimately show ?case by blast
qed

lemma bit_unat: "bit (unat v) i \<longleftrightarrow> bit v i" for v :: "64 word"
  by (auto simp: bit_unsigned_iff dest: bit_imp_le_length)

lemma countBits_card: "countBits v = card {i. bit v i}"
proof (induction v rule: countBits.induct)
  case (1 v)
  show ?case
  proof (cases "v = 0")
    case False
    have "unat (v - 1) = unat v - 1" using False by (rule unat_minus_one)
    then have b: "bit (v AND (v - 1)) i \<longleftrightarrow> bit (unat v AND (unat v - 1)) i" for i
      using bit_unat [of "v - 1" i] by (simp add: bit_and_iff bit_unat)
    have "0 < unat v" using False by (simp add: unat_gt_0)
    then obtain n where n: "bit v n" "\<And>i. bit (v AND (v - 1)) i \<longleftrightarrow> bit v i \<and> i \<noteq> n"
      using nat_and_pred [of "unat v"] b by (auto simp: bit_unat)
    have "finite {i. bit v i}" by (rule finite_subset [of _ "{..<64}"]) (auto dest: bit_imp_le_length)
    moreover have "{i. bit (v AND (v - 1)) i} = {i. bit v i} - {n}" using n by auto
    ultimately have "card {i. bit v i} = Suc (card {i. bit (v AND (v - 1)) i})"
      using card.remove [of "{i. bit v i}" n] n(1) by simp
    then show ?thesis using "1.IH" False by (simp add: countBits.simps [of v])
  qed (simp add: countBits.simps)
qed

section \<open>The mask as a set of indices\<close>

lemma slow_index_eq: "64 \<le> i \<Longrightarrow> 64 \<le> k \<Longrightarrow> slowIdx i = slowIdx k \<Longrightarrow> i mod 64 = k mod 64 \<Longrightarrow> i = k"
proof -
  assume "64 \<le> i" "64 \<le> k" "slowIdx i = slowIdx k" and m: "i mod 64 = k mod 64"
  moreover from this have "0 < i div 64" "0 < k div 64" by (simp_all add: div_greater_zero_iff)
  ultimately have "i div 64 = k div 64" unfolding slowIdx_def by linarith
  then show "i = k" using m by (metis div_mult_mod_eq)
qed

lemma mask_has_bit:
  "mask_has m i \<longleftrightarrow> (if i < 64 then bit (sm_fast m) i else slowIdx i < length (sm_slow m) \<and> bit (sm_slow m ! slowIdx i) (i mod 64))"
  by (auto simp: mask_has_def and_push_bit)

lemma mask_has_set: "mask_has (mask_set i m) k \<longleftrightarrow> k = i \<or> mask_has m k"
proof (cases "i < 64")
  case True
  then show ?thesis by (auto simp: mask_has_bit mask_set_def bit_or_pow)
next
  case False
  define slow where "slow = (if length (sm_slow m) \<le> slowIdx i then sm_slow m @ replicate (slowIdx i + 1 - length (sm_slow m)) 0 else sm_slow m)"
  have len: "slowIdx i < length slow" by (simp add: slow_def)
  have old: "slowIdx k < length slow \<and> bit (slow ! slowIdx k) (k mod 64) \<longleftrightarrow> slowIdx k < length (sm_slow m) \<and> bit (sm_slow m ! slowIdx k) (k mod 64)"
    by (auto simp: slow_def nth_append split: if_splits)
  have "mask_set i m = m\<lparr>sm_slow := slow[slowIdx i := slow ! slowIdx i OR 2 ^ (i mod 64)]\<rparr>"
    using False by (simp add: mask_set_def slow_def Let_def)
  then show ?thesis using False len old slow_index_eq [of i k]
    by (auto simp: mask_has_bit nth_list_update bit_or_pow)
qed

lemma mask_has_unset: "mask_has (mask_unset i m) k \<longleftrightarrow> k \<noteq> i \<and> mask_has m k"
proof (cases "i < 64 \<or> length (sm_slow m) \<le> slowIdx i")
  case True
  then show ?thesis by (auto simp: mask_has_bit mask_unset_def bit_andnot_pow)
next
  case False
  then have "mask_unset i m = m\<lparr>sm_slow := (sm_slow m)[slowIdx i := sm_slow m ! slowIdx i AND NOT (2 ^ (i mod 64))]\<rparr>"
    by (simp add: mask_unset_def)
  then show ?thesis using False slow_index_eq [of i k] by (auto simp: mask_has_bit nth_list_update bit_andnot_pow)
qed

lemma slow_bits: "{i. 64 \<le> i \<and> mask_has m i} = (\<Union>j < length (sm_slow m). (\<lambda>b. b + 64 * Suc j) ` {b. bit (sm_slow m ! j) b})"
proof (intro set_eqI iffI)
  fix i assume "i \<in> {i. 64 \<le> i \<and> mask_has m i}"
  then have i: "64 \<le> i" "slowIdx i < length (sm_slow m)" "bit (sm_slow m ! slowIdx i) (i mod 64)" by (auto simp: mask_has_bit)
  have "0 < i div 64" using i(1) by (simp add: div_greater_zero_iff)
  then have "i = i mod 64 + 64 * Suc (slowIdx i)" by (simp add: slowIdx_def)
  then show "i \<in> (\<Union>j < length (sm_slow m). (\<lambda>b. b + 64 * Suc j) ` {b. bit (sm_slow m ! j) b})" using i by blast
next
  fix i assume "i \<in> (\<Union>j < length (sm_slow m). (\<lambda>b. b + 64 * Suc j) ` {b. bit (sm_slow m ! j) b})"
  then obtain j b where i: "j < length (sm_slow m)" "bit (sm_slow m ! j) b" "i = b + 64 * Suc j" by auto
  moreover have "b < 64" using bit_imp_le_length [OF i(2)] by simp
  moreover have "slowIdx i = j" "i mod 64 = b" using i(3) \<open>b < 64\<close> by (simp_all add: slowIdx_def del: mult_Suc_right)
  ultimately show "i \<in> {i. 64 \<le> i \<and> mask_has m i}" by (simp add: mask_has_bit)
qed

lemma finite_bits: "finite {b. bit (v :: 64 word) b}"
  by (rule finite_subset [of _ "{..<64}"]) (auto dest: bit_imp_le_length)

lemma fast_bits: "{i. i < 64 \<and> mask_has m i} = {b. bit (sm_fast m) b}"
  by (auto simp: mask_has_bit dest: bit_imp_le_length)

lemma mask_has_split: "{i. mask_has m i} = {i. i < 64 \<and> mask_has m i} \<union> {i. 64 \<le> i \<and> mask_has m i}"
  by auto

lemma mask_has_finite: "finite {i. mask_has m i}"
  unfolding mask_has_split fast_bits slow_bits by (simp add: finite_bits)

lemma mask_isEmpty_iff: "mask_isEmpty m \<longleftrightarrow> (\<forall>i. \<not> mask_has m i)"
proof -
  have bits: "v = 0 \<longleftrightarrow> {b. bit v b} = {}" for v :: "64 word"
    by (auto intro: bit_word_eqI)
  have "(\<forall>i. \<not> mask_has m i) \<longleftrightarrow> {i. mask_has m i} = {}" by simp
  also have "\<dots> \<longleftrightarrow> {b. bit (sm_fast m) b} = {} \<and> (\<forall>j < length (sm_slow m). {b. bit (sm_slow m ! j) b} = {})"
    unfolding mask_has_split fast_bits slow_bits by auto
  also have "\<dots> \<longleftrightarrow> mask_isEmpty m"
    unfolding bits [symmetric] mask_isEmpty_def list_all_length by simp
  finally show ?thesis by simp
qed

lemma countBits_fold: "foldl (\<lambda>n w. n + countBits w) a ws = a + (\<Sum>j < length ws. countBits (ws ! j))"
proof (induction ws arbitrary: a)
  case (Cons w ws)
  have "(\<Sum>j < length (w # ws). countBits ((w # ws) ! j)) = countBits w + (\<Sum>j < length ws. countBits (ws ! j))"
    by (simp add: sum.lessThan_Suc_shift del: sum.lessThan_Suc)
  then show ?case by (simp only: foldl_Cons Cons.IH)
qed simp

lemma mask_count_card: "mask_count m = card {i. mask_has m i}"
proof -
  let ?f = "\<lambda>j b. b + 64 * Suc j" and ?B = "\<lambda>j. {b. bit (sm_slow m ! j) b}"
  have "card (?f j ` ?B j) = countBits (sm_slow m ! j)" for j
    by (subst card_image) (auto simp: inj_on_def countBits_card)
  moreover have "?f j ` ?B j \<inter> ?f k ` ?B k = {}" if "j \<noteq> k" for j k
  proof -
    have "(b + 64 * Suc j) div 64 = Suc j" if "b < 64" for b j :: nat using that by (simp del: mult_Suc_right)
    then have "j = k" if "b + 64 * Suc j = c + 64 * Suc k" "b < 64" "c < 64" for b c using that by (metis Suc_inject)
    moreover have "b < 64" if "b \<in> ?B i" for b i using that bit_imp_le_length [of "sm_slow m ! i" b] by simp
    ultimately show ?thesis using that by blast
  qed
  ultimately have "card (\<Union>j < length (sm_slow m). ?f j ` ?B j) = (\<Sum>j < length (sm_slow m). countBits (sm_slow m ! j))"
    by (subst card_UN_disjoint) (auto simp: finite_bits)
  moreover have "card ({i. i < 64 \<and> mask_has m i} \<union> {i. 64 \<le> i \<and> mask_has m i})
      = card {i. i < 64 \<and> mask_has m i} + card {i. 64 \<le> i \<and> mask_has m i}"
    by (rule card_Un_disjoint) (auto intro: finite_subset [OF _ mask_has_finite])
  ultimately show ?thesis
    unfolding mask_count_def countBits_fold mask_has_split [of m] by (simp add: fast_bits slow_bits countBits_card)
qed

section \<open>What the tracker relies on\<close>

locale tried_set =
  fixes empty :: 'm and has :: "'m \<Rightarrow> nat \<Rightarrow> bool" and put drop :: "nat \<Rightarrow> 'm \<Rightarrow> 'm" and isEmpty :: "'m \<Rightarrow> bool" and count :: "'m \<Rightarrow> nat"
  assumes has_empty: "\<not> has empty i"
    and has_put: "has (put i m) k \<longleftrightarrow> k = i \<or> has m k"
    and has_drop: "has (drop i m) k \<longleftrightarrow> k \<noteq> i \<and> has m k"
    and isEmpty_iff: "isEmpty m \<longleftrightarrow> (\<forall>i. \<not> has m i)"
    and has_finite: "finite {i. has m i}"
    and count_card: "count m = card {i. has m i}"
begin

lemma count_put: "count (put i m) = (if has m i then count m else Suc (count m))"
proof -
  have "{k. has (put i m) k} = insert i {k. has m k}" by (auto simp: has_put)
  then show ?thesis using has_finite [of m] by (simp add: count_card card_insert_if)
qed

lemma count_drop: "count (drop i m) = (if has m i then count m - 1 else count m)"
proof -
  have "{k. has (drop i m) k} = {k. has m k} - {i}" by (auto simp: has_drop)
  then show ?thesis by (simp add: count_card card_Diff_singleton_if)
qed

lemma isEmpty_count: "isEmpty m \<longleftrightarrow> count m = 0"
  using has_finite [of m] by (auto simp: isEmpty_iff count_card)

text \<open>When at least \<open>n\<close> of the first \<open>n\<close> indices are in, all of them are.\<close>

lemma count_full:
  assumes "\<forall>i. has m i \<longrightarrow> i < n" and "n \<le> count m" and "i < n"
  shows "has m i"
proof -
  have "{i. has m i} \<subseteq> {..<n}" using assms(1) by auto
  then have "{i. has m i} = {..<n}" using assms(2) by (intro card_subset_eq) (auto simp: count_card card_mono intro!: antisym card_mono [of "{..<n}", simplified])
  then show ?thesis using assms(3) by auto
qed

end

lemma mask_has_empty: "\<not> mask_has emptyMask i"
  by (simp add: mask_has_bit emptyMask_def)

interpretation sm: tried_set emptyMask mask_has mask_set mask_unset mask_isEmpty mask_count
  by unfold_locales (simp_all add: mask_has_empty mask_has_set mask_has_unset mask_isEmpty_iff mask_has_finite mask_count_card)

section \<open>Property\<close>

text \<open>The bitmask refines a set of server indices at every size, beyond the 64 of its first word too:
  the zero mask is empty, set and unset add and remove exactly one index, isEmpty tells whether any
  is left, and Kernighan's loop, which ends, counts them.\<close>

theorem mask_is_server_set:
  "{i. mask_has emptyMask i} = {} \<and> {i. mask_has (mask_set k m) i} = insert k {i. mask_has m i}
     \<and> {i. mask_has (mask_unset k m) i} = {i. mask_has m i} - {k}
     \<and> mask_isEmpty m = ({i. mask_has m i} = {}) \<and> mask_count m = card {i. mask_has m i} \<and> finite {i. mask_has m i}"
  using sm.has_empty sm.has_put sm.has_drop sm.isEmpty_iff sm.count_card sm.has_finite by auto

end
