(* ===== verification/Downloader.thy ===== *)
theory Downloader
  imports Server_Mask Content Job_Lifecycle "HOL-Library.Finite_Map"
begin

text \<open>
  The downloader's dispatch side (\<^verbatim>\<open>internal/downloader\<close>: \<^verbatim>\<open>server.go\<close>, \<^verbatim>\<open>tracker.go\<close>, \<^verbatim>\<open>penalty.go\<close> and the
  dispatch pass of \<^verbatim>\<open>dispatch.go\<close>): servers with their penalties, the tracker of try-lists and
  in-flight counts, the choice of a server and the pass over the queue. Work channels are bounded
  buffers; a weak pointer to a job is the instance number the dispatcher's model gives it; times are
  nanoseconds. The dispatcher's and the clock's answers during a pass are arguments.
\<close>

section \<open>Servers\<close>

record ServerConfig =
  sc_Name :: string
  sc_Enable :: bool
  sc_Priority :: int
  sc_Optional :: bool
  sc_Connections :: int

text \<open>A zero \<open>penaltyExpiry\<close> is \<open>None\<close>.\<close>

record Server =
  srv_cfg :: ServerConfig
  srv_badConns :: int
  srv_goodConns :: int
  srv_penaltyExpiry :: "int option"
  srv_deactivated :: bool

definition NewServer :: "ServerConfig \<Rightarrow> Server" where
  "NewServer cfg = \<lparr>srv_cfg = cfg, srv_badConns = 0, srv_goodConns = 0, srv_penaltyExpiry = None, srv_deactivated = False\<rparr>"

definition RecordBadConnection :: "Server \<Rightarrow> Server" where
  "RecordBadConnection s = s\<lparr>srv_badConns := srv_badConns s + 1\<rparr>"

definition RecordConnFault :: "Server \<Rightarrow> bool \<times> Server" where
  "RecordConnFault s =
     (let n = srv_badConns s + 1 in
      if n > sc_Connections (srv_cfg s) then (True, s\<lparr>srv_badConns := 0\<rparr>) else (False, s\<lparr>srv_badConns := n\<rparr>))"

definition RecordGoodConnection :: "Server \<Rightarrow> Server" where
  "RecordGoodConnection s = s\<lparr>srv_goodConns := srv_goodConns s + 1, srv_badConns := 0\<rparr>"

text \<open>
  The code divides as \<open>float64\<close>; for connection counts below 2^49 the rounded quotient exceeds the
  rounded 0.3 exactly when the integers compare as below.
\<close>

definition shouldDeactivateOptional :: "Server \<Rightarrow> bool" where
  "shouldDeactivateOptional s \<longleftrightarrow> sc_Optional (srv_cfg s) \<and> 10 * srv_badConns s > 3 * sc_Connections (srv_cfg s)"

definition ApplyPenalty :: "int \<Rightarrow> int \<Rightarrow> Server \<Rightarrow> Server" where
  "ApplyPenalty now pen s =
     s\<lparr>srv_penaltyExpiry := Some (now + pen),
       srv_deactivated := (if shouldDeactivateOptional s then True else srv_deactivated s)\<rparr>"

definition ServerActive :: "int \<Rightarrow> Server \<Rightarrow> bool" where
  "ServerActive now s =
     (if \<not> sc_Enable (srv_cfg s) then False
      else
        (let expired = (case srv_penaltyExpiry s of None \<Rightarrow> False | Some t \<Rightarrow> now > t) in
         if srv_deactivated s then expired else srv_penaltyExpiry s = None \<or> expired))"

definition ClearDeactivation :: "Server \<Rightarrow> Server" where
  "ClearDeactivation s = s\<lparr>srv_deactivated := False, srv_penaltyExpiry := None\<rparr>"

section \<open>Errors and penalties\<close>

text \<open>An error value, by the sentinels that \<open>errors.Is\<close> and \<open>errors.As\<close> find in its chain.\<close>

datatype sentinel =
    ErrAuthRejected | ErrServerUnavailable | ErrTransient | ErrNoArticle | ErrIdleClosed | ErrAuthRequired
  | ErrClosed | ErrDesynced | ErrInvalidState | ErrInvalidCredential
  | io_EOF | ErrUnexpectedEOF | ECONNRESET | ECONNABORTED | EPIPE | TimeoutError | NetOpError | errServerPenalized

type_synonym goerr = "sentinel list"

definition goerr_Is :: "goerr \<Rightarrow> sentinel \<Rightarrow> bool" where
  "goerr_Is err s \<longleftrightarrow> s \<in> set err"

definition second :: int where "second = 1000000000"

definition PenaltyUnknown :: int where "PenaltyUnknown = 180 * second"

definition PenaltyVeryShort :: int where "PenaltyVeryShort = 6 * second"

definition PenaltyShort :: int where "PenaltyShort = 60 * second"

definition Penalty502 :: int where "Penalty502 = 300 * second"

definition PenaltyTimeout :: int where "PenaltyTimeout = 600 * second"

definition PenaltyPerm :: int where "PenaltyPerm = 600 * second"

definition isTimeout :: "goerr \<Rightarrow> bool" where
  "isTimeout err \<longleftrightarrow> goerr_Is err TimeoutError"

definition PenaltyFor :: "goerr \<Rightarrow> int" where
  "PenaltyFor err =
     (if goerr_Is err ErrAuthRejected then PenaltyPerm
      else if goerr_Is err ErrServerUnavailable then Penalty502
      else if goerr_Is err ErrTransient then PenaltyVeryShort
      else if goerr_Is err ErrNoArticle then 0
      else if goerr_Is err ErrIdleClosed then 0
      else if goerr_Is err ErrAuthRequired then PenaltyShort
      else if goerr_Is err ErrClosed then PenaltyUnknown
      else if goerr_Is err ErrDesynced then PenaltyUnknown
      else if goerr_Is err ErrInvalidState then PenaltyShort
      else if isTimeout err then PenaltyUnknown
      else PenaltyUnknown)"

definition isConnFault :: "goerr \<Rightarrow> bool" where
  "isConnFault err \<longleftrightarrow> goerr_Is err io_EOF \<or> goerr_Is err ErrUnexpectedEOF \<or> goerr_Is err ECONNRESET
     \<or> goerr_Is err ECONNABORTED \<or> goerr_Is err EPIPE \<or> isTimeout err"

section \<open>The tracker\<close>

record articleKey =
  ak_jobID :: string
  ak_inst :: nat
  ak_artIdx :: nat

record dispatchTracker =
  dt_tryList :: "(articleKey, serverMask) fmap"
  dt_inFlight :: "(articleKey, int) fmap"
  dt_faults :: "(articleKey, (nat, int) fmap) fmap"

definition newDispatchTracker :: dispatchTracker where
  "newDispatchTracker = \<lparr>dt_tryList = fmempty, dt_inFlight = fmempty, dt_faults = fmempty\<rparr>"

text \<open>Reading a Go map of integers: a missing key reads as zero.\<close>

definition mapGet :: "('k, int) fmap \<Rightarrow> 'k \<Rightarrow> int" where
  "mapGet m k = (case fmlookup m k of None \<Rightarrow> 0 | Some v \<Rightarrow> v)"

definition InFlightLocked :: "articleKey \<Rightarrow> dispatchTracker \<Rightarrow> int" where
  "InFlightLocked key t = mapGet (dt_inFlight t) key"

definition IncrementInFlightLocked :: "articleKey \<Rightarrow> dispatchTracker \<Rightarrow> dispatchTracker" where
  "IncrementInFlightLocked key t = t\<lparr>dt_inFlight := fmupd key (mapGet (dt_inFlight t) key + 1) (dt_inFlight t)\<rparr>"

definition DecrementInFlight :: "articleKey \<Rightarrow> dispatchTracker \<Rightarrow> dispatchTracker" where
  "DecrementInFlight key t =
     (if mapGet (dt_inFlight t) key \<le> 1 then t\<lparr>dt_inFlight := fmdrop key (dt_inFlight t)\<rparr>
      else t\<lparr>dt_inFlight := fmupd key (mapGet (dt_inFlight t) key - 1) (dt_inFlight t)\<rparr>)"

definition TryListLocked :: "articleKey \<Rightarrow> dispatchTracker \<Rightarrow> serverMask \<times> bool" where
  "TryListLocked key t = (case fmlookup (dt_tryList t) key of None \<Rightarrow> (emptyMask, False) | Some msk \<Rightarrow> (msk, True))"

definition SetTriedLocked :: "articleKey \<Rightarrow> serverMask \<Rightarrow> dispatchTracker \<Rightarrow> dispatchTracker" where
  "SetTriedLocked key msk t = t\<lparr>dt_tryList := fmupd key msk (dt_tryList t)\<rparr>"

definition UnmarkTried :: "articleKey \<Rightarrow> nat \<Rightarrow> dispatchTracker \<Rightarrow> dispatchTracker" where
  "UnmarkTried key serverIdx t =
     (case fmlookup (dt_tryList t) key of
        None \<Rightarrow> t
      | Some msk \<Rightarrow>
          (let mask1 = mask_unset serverIdx msk in
           if mask_isEmpty mask1 then t\<lparr>dt_tryList := fmdrop key (dt_tryList t)\<rparr>
           else t\<lparr>dt_tryList := fmupd key mask1 (dt_tryList t)\<rparr>))"

definition maxConnFaultsPerArticle :: int where
  "maxConnFaultsPerArticle = 3"

definition UnmarkTriedAfterFault :: "articleKey \<Rightarrow> nat \<Rightarrow> dispatchTracker \<Rightarrow> bool \<times> dispatchTracker" where
  "UnmarkTriedAfterFault key serverIdx t =
     (let perServer = (case fmlookup (dt_faults t) key of None \<Rightarrow> fmempty | Some p \<Rightarrow> p);
          n = mapGet perServer serverIdx + 1 in
      if n \<ge> maxConnFaultsPerArticle then
        (let rest = fmdrop serverIdx perServer in
         (True, t\<lparr>dt_faults := (if rest = fmempty then fmdrop key (dt_faults t) else fmupd key rest (dt_faults t))\<rparr>))
      else (False, UnmarkTried key serverIdx (t\<lparr>dt_faults := fmupd key (fmupd serverIdx n perServer) (dt_faults t)\<rparr>)))"

definition ClearTried :: "articleKey \<Rightarrow> dispatchTracker \<Rightarrow> dispatchTracker" where
  "ClearTried key t = t\<lparr>dt_tryList := fmdrop key (dt_tryList t), dt_faults := fmdrop key (dt_faults t)\<rparr>"

text \<open>The instances with an entry, by job ID and instance number.\<close>

definition Instances :: "dispatchTracker \<Rightarrow> (string \<times> nat) fset" where
  "Instances t = (\<lambda>k. (ak_jobID k, ak_inst k)) |`| (fmdom (dt_tryList t) |\<union>| fmdom (dt_inFlight t) |\<union>| fmdom (dt_faults t))"

definition DropInstances :: "(nat \<Rightarrow> bool) \<Rightarrow> dispatchTracker \<Rightarrow> dispatchTracker" where
  "DropInstances stale t =
     \<lparr>dt_tryList = fmfilter (\<lambda>k. \<not> stale (ak_inst k)) (dt_tryList t),
      dt_inFlight = fmfilter (\<lambda>k. \<not> stale (ak_inst k)) (dt_inFlight t),
      dt_faults = fmfilter (\<lambda>k. \<not> stale (ak_inst k)) (dt_faults t)\<rparr>"

definition TriedCounts :: "dispatchTracker \<Rightarrow> nat \<Rightarrow> nat" where
  "TriedCounts t inst = fcard (ffilter (\<lambda>k. ak_inst k = inst) (fmdom (dt_tryList t)))"

section \<open>State of the downloader\<close>

record articleRequest =
  rq_jobID :: string
  rq_inst :: nat
  rq_messageID :: string
  rq_fileIdx :: nat
  rq_artIdx :: nat
  rq_bytes :: int
  rq_subject :: string
  rq_partNumber :: int

definition keyFor :: "string \<Rightarrow> nat \<Rightarrow> nat \<Rightarrow> articleKey" where
  "keyFor jobID inst artIdx = \<lparr>ak_jobID = jobID, ak_inst = inst, ak_artIdx = artIdx\<rparr>"

definition reqKey :: "articleRequest \<Rightarrow> articleKey" where
  "reqKey req = keyFor (rq_jobID req) (rq_inst req) (rq_artIdx req)"

text \<open>A buffered channel: its capacity and the requests waiting in it.\<close>

type_synonym chan = "nat \<times> articleRequest list"

record Fleet =
  fl_servers :: "Server list"
  fl_workCh :: "string \<rightharpoonup> chan"
  fl_tracker :: dispatchTracker

definition workChFor :: "int \<Rightarrow> int \<Rightarrow> chan" where
  "workChFor perServerQueue fallback = (nat (if perServerQueue \<le> 0 then fallback else perServerQueue), [])"

text \<open>\<open>New\<close>, with the pipelining depth of each server beside its configuration.\<close>

definition newFleet :: "(ServerConfig \<times> int) list \<Rightarrow> int \<Rightarrow> Fleet" where
  "newFleet cfgs perServerQueue =
     \<lparr>fl_servers = map (NewServer \<circ> fst) cfgs,
      fl_workCh = foldl (\<lambda>m c. m(sc_Name (fst c) \<mapsto> workChFor perServerQueue (2 * sc_Connections (fst c) * snd c))) Map.empty cfgs,
      fl_tracker = newDispatchTracker\<rparr>"

definition hasRoom :: "chan option \<Rightarrow> bool" where
  "hasRoom ch = (case ch of None \<Rightarrow> False | Some (cap, buf) \<Rightarrow> length buf < cap)"

record dispatchOpts =
  do_now :: int
  do_serverCfgs :: "ServerConfig list"
  do_maxArtTries :: int
  do_maxArtOpt :: int
  do_topOnly :: bool
  do_propagationDelay :: int

section \<open>Choosing a server\<close>

definition getMinServerPriority :: "ServerConfig list \<Rightarrow> int" where
  "getMinServerPriority cfgs =
     foldl (\<lambda>minPriority cfg. if sc_Enable cfg \<and> (minPriority < 0 \<or> sc_Priority cfg < minPriority) then sc_Priority cfg else minPriority)
       (-1) cfgs"

definition isServerCandidate :: "ServerConfig \<Rightarrow> serverMask \<Rightarrow> bool \<Rightarrow> nat \<Rightarrow> bool \<Rightarrow> int \<Rightarrow> int \<Rightarrow> int \<Rightarrow> bool" where
  "isServerCandidate cfg msk hasTried idx topOnly minPriority optionalTried maxArtOpt =
     (if hasTried \<and> mask_has msk idx then False
      else if \<not> sc_Enable cfg then False
      else if topOnly \<and> sc_Priority cfg > minPriority then False
      else if sc_Optional cfg \<and> maxArtOpt > 0 \<and> optionalTried \<ge> maxArtOpt then False
      else True)"

definition countOptionalTried :: "serverMask \<Rightarrow> bool \<Rightarrow> ServerConfig list \<Rightarrow> int" where
  "countOptionalTried msk hasTried cfgs =
     (if hasTried then int (length (filter (\<lambda>(idx, cfg). sc_Optional cfg \<and> mask_has msk idx) (enumerate 0 cfgs))) else 0)"

text \<open>
  The results \<open>(srv, idx)\<close>, \<open>(nil, -1)\<close> and \<open>(nil, -2)\<close>, and the variables of the loop; \<open>sel_pick\<close> is
  \<open>pickIdx\<close> when \<open>pick\<close> is not nil.
\<close>

datatype selection = Picked nat | NoCandidate | MustWait

record selectLoop =
  sel_any :: bool
  sel_tier :: "int option"
  sel_pick :: "nat option"

definition selectStep :: "(nat \<Rightarrow> bool) \<Rightarrow> int \<Rightarrow> Fleet \<Rightarrow> nat \<Rightarrow> Server \<Rightarrow> ServerConfig \<Rightarrow> selectLoop \<Rightarrow> selectLoop" where
  "selectStep cand now d idx srv cfg s =
     (if \<not> cand idx then s
      else
        (let s = s\<lparr>sel_any := True\<rparr> in
         if \<not> ServerActive now srv then s
         else if (case sel_tier s of None \<Rightarrow> False | Some tier \<Rightarrow> sc_Priority cfg > tier) then s
         else
           (let s = (if (case sel_tier s of None \<Rightarrow> True | Some tier \<Rightarrow> sc_Priority cfg < tier)
                     then s\<lparr>sel_tier := Some (sc_Priority cfg), sel_pick := None\<rparr> else s) in
            if sel_pick s = None \<and> hasRoom (fl_workCh d (sc_Name cfg)) then s\<lparr>sel_pick := Some idx\<rparr> else s)))"

fun selectLoopRun :: "(nat \<Rightarrow> bool) \<Rightarrow> int \<Rightarrow> Fleet \<Rightarrow> nat \<Rightarrow> (Server \<times> ServerConfig) list \<Rightarrow> selectLoop \<Rightarrow> selectLoop" where
  "selectLoopRun cand now d idx [] s = s"
| "selectLoopRun cand now d idx ((srv, cfg) # rest) s = selectLoopRun cand now d (Suc idx) rest (selectStep cand now d idx srv cfg s)"

definition candidateAt :: "serverMask \<Rightarrow> bool \<Rightarrow> dispatchOpts \<Rightarrow> nat \<Rightarrow> bool" where
  "candidateAt msk hasTried opts idx =
     isServerCandidate (do_serverCfgs opts ! idx) msk hasTried idx (do_topOnly opts)
       (if do_topOnly opts then getMinServerPriority (do_serverCfgs opts) else 0)
       (countOptionalTried msk hasTried (do_serverCfgs opts)) (do_maxArtOpt opts)"

definition selectServerForArticle :: "serverMask \<Rightarrow> bool \<Rightarrow> dispatchOpts \<Rightarrow> Fleet \<Rightarrow> selection" where
  "selectServerForArticle msk hasTried opts d =
     (let s = selectLoopRun (candidateAt msk hasTried opts) (do_now opts) d 0 (zip (fl_servers d) (do_serverCfgs opts))
                \<lparr>sel_any = False, sel_tier = None, sel_pick = None\<rparr> in
      case sel_pick s of
        Some i \<Rightarrow> Picked i
      | None \<Rightarrow> if \<not> sel_any s then NoCandidate else MustWait)"

section \<open>Dispatching one article\<close>

definition send :: "string \<Rightarrow> articleRequest \<Rightarrow> Fleet \<Rightarrow> Fleet option" where
  "send name req d =
     (case fl_workCh d name of
        None \<Rightarrow> None
      | Some (cap, buf) \<Rightarrow> if length buf < cap then Some (d\<lparr>fl_workCh := (fl_workCh d)(name \<mapsto> (cap, buf @ [req]))\<rparr>) else None)"

text \<open>The results are handled, exhausted and hadTryList.\<close>

definition tryDispatch :: "bool \<Rightarrow> articleRequest \<Rightarrow> dispatchOpts \<Rightarrow> Fleet \<Rightarrow> Fleet \<times> bool \<times> articleRequest option \<times> bool" where
  "tryDispatch ctxErr req opts d =
     (let key = reqKey req; (msk, hasTried) = TryListLocked key (fl_tracker d) in
      if InFlightLocked key (fl_tracker d) > 0 then (d, False, None, hasTried)
      else if ctxErr then (d, False, None, hasTried)
      else if do_maxArtTries opts > 0 \<and> hasTried \<and> int (mask_count msk) \<ge> do_maxArtTries opts then (d, True, Some req, hasTried)
      else
        (case selectServerForArticle msk hasTried opts d of
           Picked idx \<Rightarrow>
             (case send (sc_Name (srv_cfg (fl_servers d ! idx))) req d of
                Some d1 \<Rightarrow>
                  (d1\<lparr>fl_tracker := IncrementInFlightLocked key (SetTriedLocked key (mask_set idx msk) (fl_tracker d1))\<rparr>, True, None, hasTried)
              | None \<Rightarrow> (d, False, None, hasTried))
         | NoCandidate \<Rightarrow> (d, True, Some req, hasTried)
         | MustWait \<Rightarrow> (d, False, None, hasTried)))"

section \<open>The pass\<close>

definition freshArticlesWait :: "dispatchOpts \<Rightarrow> Fleet \<Rightarrow> bool" where
  "freshArticlesWait opts d \<longleftrightarrow> selectServerForArticle emptyMask False opts d = MustWait"

definition serverBusy :: "int \<Rightarrow> Fleet \<Rightarrow> Server \<times> ServerConfig \<Rightarrow> bool option" where
  "serverBusy now d sc =
     (case sc of (srv, cfg) \<Rightarrow>
        if \<not> sc_Enable cfg \<or> \<not> ServerActive now srv then None
        else case fl_workCh d (sc_Name cfg) of None \<Rightarrow> None | Some (cap, buf) \<Rightarrow> Some (\<not> length buf < cap))"

definition allServersFull :: "int \<Rightarrow> ServerConfig list \<Rightarrow> Fleet \<Rightarrow> bool" where
  "allServersFull now cfgs d =
     (let busy = List.map_filter (serverBusy now d) (zip (fl_servers d) cfgs) in busy \<noteq> [] \<and> list_all id busy)"

text \<open>What the pass reads of one row of \<open>Dispatcher.List\<close> and of its job; \<open>rw_inst\<close> is the lookup of the job.\<close>

record Row =
  rw_ID :: string
  rw_Intent :: Intent
  rw_Running :: bool
  rw_State :: State
  rw_Next :: State
  rw_Outcome :: Outcome
  rw_inst :: "nat option"
  rw_handedOff :: bool
  rw_Added :: int
  rw_content :: Content

record dispatchPlan =
  pl_dispatched :: nat
  pl_scanned :: nat
  pl_activeJobs :: "string set"
  pl_hopelessJobs :: "string set"
  pl_exhausted :: "articleRequest list"

definition emptyPlan :: dispatchPlan where
  "emptyPlan = \<lparr>pl_dispatched = 0, pl_scanned = 0, pl_activeJobs = {}, pl_hopelessJobs = {}, pl_exhausted = []\<rparr>"

text \<open>
  The context's state and the clock when so many articles have been scanned, and the request an
  article visit makes.
\<close>

record PassEnv =
  pe_cancelled :: "nat \<Rightarrow> bool"
  pe_clock :: "nat \<Rightarrow> int"

definition requestOf :: "string \<Rightarrow> nat \<Rightarrow> visit \<Rightarrow> articleRequest" where
  "requestOf jobID inst v =
     \<lparr>rq_jobID = jobID, rq_inst = inst, rq_messageID = vi_id v, rq_fileIdx = vi_fileIdx v, rq_artIdx = vi_artIdx v,
      rq_bytes = vi_bytes v, rq_subject = vi_subject v, rq_partNumber = vi_number v\<rparr>"

definition noteTried :: "articleRequest \<Rightarrow> bool \<Rightarrow> articleRequest option \<Rightarrow> dispatchPlan \<Rightarrow> dispatchPlan" where
  "noteTried req handled exReq plan =
     plan\<lparr>pl_scanned := pl_scanned plan + 1,
          pl_dispatched := (if handled then pl_dispatched plan + 1 else pl_dispatched plan),
          pl_activeJobs := (if handled then insert (rq_jobID req) (pl_activeJobs plan) else pl_activeJobs plan),
          pl_exhausted := (case exReq of None \<Rightarrow> pl_exhausted plan | Some r \<Rightarrow> pl_exhausted plan @ [r])\<rparr>"

text \<open>The callback of \<open>ForEachUnfinishedArticle\<close> along the articles it visits, and the value of \<open>stopAll\<close> after it.\<close>

fun walkArticles :: "PassEnv \<Rightarrow> dispatchOpts \<Rightarrow> articleRequest list \<Rightarrow> int \<Rightarrow> Fleet \<Rightarrow> dispatchPlan \<Rightarrow> Fleet \<times> dispatchPlan \<times> bool" where
  "walkArticles env opts [] triedLeft d plan = (d, plan, False)"
| "walkArticles env opts (req # reqs) triedLeft d plan =
     (case tryDispatch (pe_cancelled env (pl_scanned plan)) req opts d of
        (d1, handled, exReq, hadTryList) \<Rightarrow>
          (let plan1 = noteTried req handled exReq plan;
               left1 = (if hadTryList then triedLeft - 1 else triedLeft);
               full = allServersFull (pe_clock env (pl_scanned plan1)) (do_serverCfgs opts) d1 in
           if pe_cancelled env (pl_scanned plan1) then (d1, plan1, True)
           else if left1 > 0 \<or> \<not> freshArticlesWait opts d1
           then (if full then (d1, plan1, True) else walkArticles env opts reqs left1 d1 plan1)
           else (d1, plan1, full)))"

definition rowEligible :: "dispatchOpts \<Rightarrow> Row \<Rightarrow> bool" where
  "rowEligible opts row \<longleftrightarrow>
     rw_Intent row = IntentRun \<and> rw_Running row \<and> rw_State row = Fetching
     \<and> rw_inst row \<noteq> None \<and> ct_manifest (rw_content row) \<noteq> None \<and> \<not> rw_handedOff row
     \<and> \<not> (do_propagationDelay opts > 0 \<and> do_now opts < rw_Added row + do_propagationDelay opts)"

text \<open>The articles a job offers; an evicted job offers none.\<close>

definition rowRequests :: "Row \<Rightarrow> articleRequest list" where
  "rowRequests row =
     (case (rw_inst row, ForEachUnfinishedArticle (\<lambda>v. True) (rw_content row)) of
        (Some inst, Inr vs) \<Rightarrow> map (requestOf (rw_ID row) inst) vs
      | _ \<Rightarrow> [])"

fun walkRows :: "PassEnv \<Rightarrow> dispatchOpts \<Rightarrow> (nat \<Rightarrow> nat) \<Rightarrow> Row list \<Rightarrow> Fleet \<Rightarrow> dispatchPlan \<Rightarrow> Fleet \<times> dispatchPlan" where
  "walkRows env opts tried [] d plan = (d, plan)"
| "walkRows env opts tried (row # rows) d plan =
     (if \<not> rowEligible opts row then walkRows env opts tried rows d plan
      else if Hopeless (repairStateLocked (rw_content row))
      then walkRows env opts tried rows d (plan\<lparr>pl_hopelessJobs := insert (rw_ID row) (pl_hopelessJobs plan)\<rparr>)
      else
        (let triedLeft = int (tried (the (rw_inst row))) in
         if triedLeft = 0 \<and> freshArticlesWait opts d then walkRows env opts tried rows d plan
         else
           (case walkArticles env opts (rowRequests row) triedLeft d plan of
              (d1, plan1, stopAll) \<Rightarrow> if stopAll then (d1, plan1) else walkRows env opts tried rows d1 plan1)))"

definition buildDispatchPlan :: "PassEnv \<Rightarrow> dispatchOpts \<Rightarrow> Row list \<Rightarrow> Fleet \<Rightarrow> Fleet \<times> dispatchPlan" where
  "buildDispatchPlan env opts rows d =
     (if allServersFull (pe_clock env 0) (do_serverCfgs opts) d then (d, emptyPlan)
      else walkRows env opts (TriedCounts (fl_tracker d)) rows d emptyPlan)"

definition hasDownloadableJobs :: "bool \<Rightarrow> Row list \<Rightarrow> bool" where
  "hasDownloadableJobs paused rows =
     (if paused then False
      else list_ex (\<lambda>row. rw_Intent row = IntentRun \<and> \<not> IsSettled (rw_Outcome row)
              \<and> \<not> (rw_inst row \<noteq> None \<and> rw_handedOff row)
              \<and> (rw_State row = Fetching \<or> rw_State row = StateUnset \<and> rw_Next row = Fetching)) rows)"

end
