(* ===== verification/Dispatch_Pass.thy ===== *)
theory Dispatch_Pass
  imports Downloader Content_Steps
begin

text \<open>
  What a dispatch pass does: the server an article gets, and that the pass's early exits change
  nothing it sends.
\<close>

section \<open>The chosen server\<close>

definition sel_init :: selectLoop where
  "sel_init = \<lparr>sel_any = False, sel_tier = None, sel_pick = None\<rparr>"

definition selectUpto :: "(nat \<Rightarrow> bool) \<Rightarrow> dispatchOpts \<Rightarrow> Fleet \<Rightarrow> nat \<Rightarrow> selectLoop" where
  "selectUpto cand opts d k =
     foldl (\<lambda>s i. selectStep cand (do_now opts) d i (fl_servers d ! i) (do_serverCfgs opts ! i) s) sel_init [0..<k]"

lemma selectLoopRun_foldl:
  "length srvs = length cfgs \<Longrightarrow> selectLoopRun cand now d idx (zip srvs cfgs) s
     = foldl (\<lambda>s i. selectStep cand now d (idx + i) (srvs ! i) (cfgs ! i) s) s [0..<length srvs]"
proof (induction srvs cfgs arbitrary: idx s rule: list_induct2)
  case (Cons x xs y ys)
  have "[0..<length (x # xs)] = 0 # map Suc [0..<length xs]" by (simp add: upt_conv_Cons map_Suc_upt del: upt_Suc)
  then show ?case by (simp add: Cons.IH foldl_map del: upt_Suc)
qed simp

text \<open>Eligible: a candidate that is active; its priority and whether its channel has room.\<close>

definition eligible :: "(nat \<Rightarrow> bool) \<Rightarrow> dispatchOpts \<Rightarrow> Fleet \<Rightarrow> nat \<Rightarrow> bool" where
  "eligible cand opts d i \<longleftrightarrow> cand i \<and> ServerActive (do_now opts) (fl_servers d ! i)"

definition prio :: "dispatchOpts \<Rightarrow> nat \<Rightarrow> int" where
  "prio opts i = sc_Priority (do_serverCfgs opts ! i)"

definition roomAt :: "dispatchOpts \<Rightarrow> Fleet \<Rightarrow> nat \<Rightarrow> bool" where
  "roomAt opts d i = hasRoom (fl_workCh d (sc_Name (do_serverCfgs opts ! i)))"

definition sel_ok :: "(nat \<Rightarrow> bool) \<Rightarrow> dispatchOpts \<Rightarrow> Fleet \<Rightarrow> nat \<Rightarrow> selectLoop \<Rightarrow> bool" where
  "sel_ok cand opts d k s \<longleftrightarrow>
     (sel_any s \<longleftrightarrow> (\<exists>i<k. cand i))
     \<and> (case sel_tier s of
          None \<Rightarrow> (\<forall>i<k. \<not> eligible cand opts d i) \<and> sel_pick s = None
        | Some t \<Rightarrow> (\<exists>i<k. eligible cand opts d i \<and> prio opts i = t) \<and> (\<forall>i<k. eligible cand opts d i \<longrightarrow> t \<le> prio opts i)
            \<and> (case sel_pick s of
                 None \<Rightarrow> \<forall>i<k. eligible cand opts d i \<and> prio opts i = t \<longrightarrow> \<not> roomAt opts d i
               | Some p \<Rightarrow> p < k \<and> eligible cand opts d p \<and> prio opts p = t \<and> roomAt opts d p
                   \<and> (\<forall>i<p. eligible cand opts d i \<and> prio opts i = t \<longrightarrow> \<not> roomAt opts d i)))"

lemma sel_ok_step:
  assumes "sel_ok cand opts d k s"
  shows "sel_ok cand opts d (Suc k) (selectStep cand (do_now opts) d k (fl_servers d ! k) (do_serverCfgs opts ! k) s)"
proof (cases "eligible cand opts d k")
  case False
  then show ?thesis using assms
    by (auto simp: sel_ok_def selectStep_def eligible_def less_Suc_eq split: option.splits)
next
  case True
  then show ?thesis using assms
    unfolding sel_ok_def selectStep_def eligible_def Let_def prio_def [symmetric] roomAt_def [symmetric]
    by (cases "sel_tier s"; cases "sel_pick s"; cases "roomAt opts d k"; cases "prio opts k" "the (sel_tier s)" rule: linorder_cases)
      (simp_all add: less_Suc_eq all_conj_distrib ex_disj_distrib conj_disj_distribR prio_def roomAt_def, auto)
qed

lemma sel_ok_upto: "sel_ok cand opts d k (selectUpto cand opts d k)"
proof (induction k)
  case 0
  then show ?case by (simp add: selectUpto_def sel_ok_def sel_init_def)
next
  case (Suc k)
  then show ?case using sel_ok_step by (simp add: selectUpto_def)
qed

abbreviation cfgs_of :: "dispatchOpts \<Rightarrow> Fleet \<Rightarrow> bool" where
  "cfgs_of opts d \<equiv> do_serverCfgs opts = map srv_cfg (fl_servers d)"

lemma select_cases:
  assumes "length (do_serverCfgs opts) = length (fl_servers d)"
    and cand_def: "cand = candidateAt msk hasTried opts" and s_def: "s = selectUpto cand opts d (length (fl_servers d))"
  shows "selectServerForArticle msk hasTried opts d = (case sel_pick s of Some i \<Rightarrow> Picked i | None \<Rightarrow> if \<not> sel_any s then NoCandidate else MustWait)"
    and "sel_ok cand opts d (length (fl_servers d)) s"
proof -
  show "selectServerForArticle msk hasTried opts d = (case sel_pick s of Some i \<Rightarrow> Picked i | None \<Rightarrow> if \<not> sel_any s then NoCandidate else MustWait)"
    using selectLoopRun_foldl [of "fl_servers d" "do_serverCfgs opts" cand "do_now opts" d 0] assms(1)
    by (simp add: selectServerForArticle_def s_def selectUpto_def sel_init_def cand_def Let_def)
  show "sel_ok cand opts d (length (fl_servers d)) s" unfolding s_def by (rule sel_ok_upto)
qed

lemma select_Picked:
  assumes "length (do_serverCfgs opts) = length (fl_servers d)"
  shows "selectServerForArticle msk hasTried opts d = Picked i \<longleftrightarrow>
     i < length (fl_servers d) \<and> eligible (candidateAt msk hasTried opts) opts d i \<and> roomAt opts d i
     \<and> (\<forall>k < length (fl_servers d). eligible (candidateAt msk hasTried opts) opts d k \<longrightarrow> prio opts i \<le> prio opts k)
     \<and> (\<forall>k < i. eligible (candidateAt msk hasTried opts) opts d k \<and> prio opts k = prio opts i \<longrightarrow> \<not> roomAt opts d k)"
    (is "?l \<longleftrightarrow> ?r i")
proof -
  define cand where "cand = candidateAt msk hasTried opts"
  define s where "s = selectUpto cand opts d (length (fl_servers d))"
  note c = select_cases [OF assms cand_def s_def]
  have l: "?l \<longleftrightarrow> sel_pick s = Some i" using c(1) by (auto split: option.splits)
  show ?thesis
  proof
    assume ?l
    then show "?r i" using l c(2) unfolding sel_ok_def cand_def [symmetric] by (auto split: option.splits)
  next
    assume r: "?r i"
    then have e: "eligible cand opts d i" "i < length (fl_servers d)" "roomAt opts d i" by (simp_all add: cand_def)
    then obtain t where t: "sel_tier s = Some t" using c(2) unfolding sel_ok_def by (auto split: option.splits)
    then have m: "\<exists>k < length (fl_servers d). eligible cand opts d k \<and> prio opts k = t"
        "\<forall>k < length (fl_servers d). eligible cand opts d k \<longrightarrow> t \<le> prio opts k" using c(2) unfolding sel_ok_def by auto
    have "prio opts i = t" using m r e unfolding cand_def [symmetric] by (meson order_antisym)
    moreover obtain p where p: "sel_pick s = Some p" using c(2) t e \<open>prio opts i = t\<close> unfolding sel_ok_def by (auto split: option.splits)
    then have "p < length (fl_servers d) \<and> eligible cand opts d p \<and> prio opts p = t \<and> roomAt opts d p
        \<and> (\<forall>k < p. eligible cand opts d k \<and> prio opts k = t \<longrightarrow> \<not> roomAt opts d k)" using c(2) t unfolding sel_ok_def by simp
    ultimately have "p = i" using r e unfolding cand_def [symmetric] by (metis linorder_neqE_nat)
    then show ?l using p l by simp
  qed
qed

lemma select_NoCandidate:
  assumes "length (do_serverCfgs opts) = length (fl_servers d)"
  shows "selectServerForArticle msk hasTried opts d = NoCandidate \<longleftrightarrow> (\<forall>i < length (fl_servers d). \<not> candidateAt msk hasTried opts i)"
  using select_cases [OF assms HOL.refl HOL.refl, of msk hasTried] unfolding sel_ok_def
  by (auto split: option.splits simp: eligible_def)

section \<open>Early exits\<close>

text \<open>The pass without early exits: every unfinished article of every eligible job is offered.\<close>

fun dispatchAll :: "dispatchOpts \<Rightarrow> articleRequest list \<Rightarrow> Fleet \<Rightarrow> Fleet" where
  "dispatchAll opts [] d = d"
| "dispatchAll opts (req # reqs) d = dispatchAll opts reqs (fst (tryDispatch False req opts d))"

definition offered :: "dispatchOpts \<Rightarrow> Row list \<Rightarrow> articleRequest list" where
  "offered opts rows = concat (map rowRequests (filter (\<lambda>row. rowEligible opts row \<and> \<not> Hopeless (repairStateLocked (rw_content row))) rows))"

lemma dispatchAll_append: "dispatchAll opts (as @ bs) d = dispatchAll opts bs (dispatchAll opts as d)"
  by (induction as arbitrary: d) simp_all

lemma dispatchAll_stuck: "(\<And>req. req \<in> set reqs \<Longrightarrow> fst (tryDispatch False req opts d) = d) \<Longrightarrow> dispatchAll opts reqs d = d"
  by (induction reqs) simp_all

lemma send_fleet:
  "send name req d = Some d1 \<Longrightarrow> fl_servers d1 = fl_servers d \<and> fl_tracker d1 = fl_tracker d"
  by (auto simp: send_def split: option.splits if_splits)

text \<open>What offering one article changes.\<close>

lemma tryDispatch_fleet:
  assumes "tryDispatch c req opts d = (d1, h, e, t)"
  shows "fl_servers d1 = fl_servers d"
    and "k \<noteq> reqKey req \<Longrightarrow> fmlookup (dt_tryList (fl_tracker d1)) k = fmlookup (dt_tryList (fl_tracker d)) k"
    and "t \<longleftrightarrow> fmlookup (dt_tryList (fl_tracker d)) (reqKey req) \<noteq> None"
  using assms send_fleet
  by (fastforce simp: tryDispatch_def TryListLocked_def SetTriedLocked_def IncrementInFlightLocked_def Let_def
      split: if_splits selection.splits option.splits prod.splits)+

lemma tryDispatch_stays:
  assumes "\<And>i. selectServerForArticle (fst (TryListLocked (reqKey req) (fl_tracker d))) (snd (TryListLocked (reqKey req) (fl_tracker d))) opts d \<noteq> Picked i"
  shows "fst (tryDispatch c req opts d) = d"
  using assms by (auto simp: tryDispatch_def Let_def case_prod_unfold split: selection.split)

definition no_room :: "dispatchOpts \<Rightarrow> Fleet \<Rightarrow> bool" where
  "no_room opts d \<longleftrightarrow> (\<forall>i < length (fl_servers d). ServerActive (do_now opts) (fl_servers d ! i) \<longrightarrow> \<not> roomAt opts d i)"

lemma no_room_stays:
  assumes "no_room opts d" and "cfgs_of opts d"
  shows "fst (tryDispatch c req opts d) = d"
  by (rule tryDispatch_stays) (use assms select_Picked [of opts d] in \<open>auto simp: no_room_def eligible_def\<close>)

lemma ServerActive_mono: "ServerActive now s \<Longrightarrow> now \<le> now' \<Longrightarrow> ServerActive now' s"
  by (auto simp: ServerActive_def Let_def split: if_splits option.splits)

lemma map_filter_mem: "x \<in> set xs \<Longrightarrow> f x = Some y \<Longrightarrow> y \<in> set (List.map_filter f xs)"
  by (induction xs) (auto simp: map_filter_simps split: option.splits)

lemma allServersFull_no_room:
  assumes "allServersFull now' (do_serverCfgs opts) d" and "cfgs_of opts d" and "do_now opts \<le> now'"
  shows "no_room opts d"
  unfolding no_room_def roomAt_def
proof (intro allI impI)
  fix i assume i: "i < length (fl_servers d)" and "ServerActive (do_now opts) (fl_servers d ! i)"
  then have act: "ServerActive now' (fl_servers d ! i)" using ServerActive_mono assms(3) by blast
  then have en: "sc_Enable (do_serverCfgs opts ! i)" using i assms(2) by (auto simp: ServerActive_def split: if_splits)
  have z: "(fl_servers d ! i, do_serverCfgs opts ! i) \<in> set (zip (fl_servers d) (do_serverCfgs opts))"
    using i assms(2) by (auto simp: set_zip)
  have "b" if "serverBusy now' d (fl_servers d ! i, do_serverCfgs opts ! i) = Some b" for b
  proof -
    have "b \<in> set (List.map_filter (serverBusy now' d) (zip (fl_servers d) (do_serverCfgs opts)))"
      by (rule map_filter_mem [where f = "serverBusy now' d", OF z that])
    moreover have "list_all id (List.map_filter (serverBusy now' d) (zip (fl_servers d) (do_serverCfgs opts)))"
      using assms(1) by (simp add: allServersFull_def Let_def)
    ultimately show ?thesis unfolding list_all_iff by auto
  qed
  from this [of False] show "\<not> hasRoom (fl_workCh d (sc_Name (do_serverCfgs opts ! i)))"
    using act en by (auto simp: serverBusy_def hasRoom_def split: option.splits)
qed

lemma fresh_waits:
  assumes "freshArticlesWait opts d" and "fmlookup (dt_tryList (fl_tracker d)) (reqKey req) = None"
  shows "fst (tryDispatch c req opts d) = d"
  by (rule tryDispatch_stays) (use assms in \<open>simp add: freshArticlesWait_def TryListLocked_def\<close>)

text \<open>The articles of a list that have a try-list entry.\<close>

definition entries :: "articleRequest list \<Rightarrow> Fleet \<Rightarrow> int" where
  "entries reqs d = int (length (filter (\<lambda>r. fmlookup (dt_tryList (fl_tracker d)) (reqKey r) \<noteq> None) reqs))"

lemma entries_nonneg [simp]: "0 \<le> entries reqs d" by (simp add: entries_def)

lemma entries_zero: "entries reqs d \<le> 0 \<Longrightarrow> req \<in> set reqs \<Longrightarrow> fmlookup (dt_tryList (fl_tracker d)) (reqKey req) = None"
  unfolding entries_def by (metis (mono_tags, lifting) filter_empty_conv length_0_conv of_nat_le_0_iff)

lemma entries_frame:
  assumes "tryDispatch c req opts d = (d1, h, e, t)" and "reqKey req \<notin> reqKey ` set reqs"
  shows "entries reqs d1 = entries reqs d"
proof -
  have "fmlookup (dt_tryList (fl_tracker d1)) (reqKey r) = fmlookup (dt_tryList (fl_tracker d)) (reqKey r)" if "r \<in> set reqs" for r
    using tryDispatch_fleet(2) [OF assms(1)] assms(2) that by (metis imageI)
  then show ?thesis unfolding entries_def by (metis (mono_tags, lifting) filter_cong)
qed

lemma dispatchAll_frame:
  "reqKey ` set reqs \<inter> reqKey ` set rs = {} \<Longrightarrow> entries rs (dispatchAll opts reqs d) = entries rs d \<and> fl_servers (dispatchAll opts reqs d) = fl_servers d"
proof (induction reqs arbitrary: d)
  case (Cons req reqs)
  obtain d1 h e t where td: "tryDispatch False req opts d = (d1, h, e, t)" by (cases "tryDispatch False req opts d")
  then show ?case using Cons entries_frame [OF td, of rs] tryDispatch_fleet(1) [OF td] by auto
qed simp

definition calm :: "PassEnv \<Rightarrow> dispatchOpts \<Rightarrow> bool" where
  "calm env opts \<longleftrightarrow> (\<forall>n. \<not> pe_cancelled env n) \<and> (\<forall>n. do_now opts \<le> pe_clock env n)"

lemma walkArticles_all:
  assumes "calm env opts" and "distinct (map reqKey reqs)" and "cfgs_of opts d" and "entries reqs d \<le> left"
    and "walkArticles env opts reqs left d plan = (d1, plan1, stop)"
  shows "d1 = dispatchAll opts reqs d \<and> (stop \<longrightarrow> no_room opts d1)"
  using assms(2-)
proof (induction reqs arbitrary: left d plan)
  case (Cons req reqs)
  obtain d' h e t where td: "tryDispatch False req opts d = (d', h, e, t)" by (cases "tryDispatch False req opts d")
  define plan' where "plan' = noteTried req h e plan"
  define left' where "left' = (if t then left - 1 else left)"
  define full where "full = allServersFull (pe_clock env (pl_scanned plan')) (do_serverCfgs opts) d'"
  have cfg: "cfgs_of opts d'" using Cons.prems(2) tryDispatch_fleet(1) [OF td] by simp
  have "entries (req # reqs) d = (if t then 1 else 0) + entries reqs d"
    using tryDispatch_fleet(3) [OF td] by (simp add: entries_def)
  then have left: "entries reqs d' \<le> left'" using entries_frame [OF td, of reqs] Cons.prems(1,3) by (auto simp: left'_def)
  have full: "full \<Longrightarrow> no_room opts d'" using allServersFull_no_room [OF _ cfg] assms(1) by (auto simp: full_def calm_def)
  have rest: "full \<Longrightarrow> dispatchAll opts reqs d' = d'" using dispatchAll_stuck no_room_stays [OF full cfg] by metis
  have calm: "\<not> pe_cancelled env n" for n using assms(1) by (simp add: calm_def)
  have w: "walkArticles env opts (req # reqs) left d plan =
      (if left' > 0 \<or> \<not> freshArticlesWait opts d'
       then (if full then (d', plan', True) else walkArticles env opts reqs left' d' plan') else (d', plan', full))"
    by (simp add: td calm plan'_def left'_def full_def Let_def)
  show ?case
  proof (cases "left' > 0 \<or> \<not> freshArticlesWait opts d'")
    case True
    then show ?thesis using w Cons.prems full rest Cons.IH [OF _ cfg left] td by (cases full) auto
  next
    case False
    then have "fst (tryDispatch False r opts d') = d'" if "r \<in> set reqs" for r
      using fresh_waits entries_zero left that by (metis linorder_not_less order_trans)
    then have "dispatchAll opts reqs d' = d'" using dispatchAll_stuck by blast
    then show ?thesis using w False Cons.prems full td by simp
  qed
qed simp

lemma walkRows_all:
  assumes "calm env opts" and "distinct (map reqKey (offered opts rows))" and "cfgs_of opts d"
    and "\<And>row. row \<in> set rows \<Longrightarrow> rowEligible opts row \<Longrightarrow> \<not> Hopeless (repairStateLocked (rw_content row)) \<Longrightarrow>
      entries (rowRequests row) d \<le> int (tried (the (rw_inst row)))"
  shows "fst (walkRows env opts tried rows d plan) = dispatchAll opts (offered opts rows) d"
  using assms(2-)
proof (induction rows arbitrary: d plan)
  case (Cons row rows)
  have later: "entries (rowRequests r) d \<le> int (tried (the (rw_inst r)))"
    if "r \<in> set rows" "rowEligible opts r" "\<not> Hopeless (repairStateLocked (rw_content r))" for r
    using Cons.prems(3) [of r] that by simp
  show ?case
  proof (cases "rowEligible opts row \<and> \<not> Hopeless (repairStateLocked (rw_content row))")
    case False
    then have o: "offered opts (row # rows) = offered opts rows" by (auto simp: offered_def)
    have "fst (walkRows env opts tried rows d plan') = dispatchAll opts (offered opts rows) d" for plan'
      using Cons.IH [OF _ Cons.prems(2) later] Cons.prems(1) o by simp
    then show ?thesis using False o by auto
  next
    case True
    define reqs left where "reqs = rowRequests row" and "left = int (tried (the (rw_inst row)))"
    have o: "offered opts (row # rows) = reqs @ offered opts rows" using True by (simp add: offered_def reqs_def)
    have dist: "distinct (map reqKey reqs)" "distinct (map reqKey (offered opts rows))"
        "reqKey ` set reqs \<inter> reqKey ` set (offered opts rows) = {}" using Cons.prems(1) unfolding o by auto
    have ent: "entries reqs d \<le> left" using Cons.prems(3) [of row] True by (simp add: reqs_def left_def)
    show ?thesis
    proof (cases "left = 0 \<and> freshArticlesWait opts d")
      case skip: True
      then have "dispatchAll opts reqs d = d" using dispatchAll_stuck fresh_waits entries_zero ent by metis
      moreover have "fst (walkRows env opts tried rows d plan) = dispatchAll opts (offered opts rows) d"
        by (rule Cons.IH [OF dist(2) Cons.prems(2) later])
      ultimately show ?thesis using True skip by (simp add: o dispatchAll_append left_def)
    next
      case False
      obtain d1 plan1 stop where w: "walkArticles env opts reqs left d plan = (d1, plan1, stop)"
        by (cases "walkArticles env opts reqs left d plan")
      note d1 = walkArticles_all [OF assms(1) dist(1) Cons.prems(2) ent w]
      have srv: "fl_servers d1 = fl_servers d" using dispatchAll_frame [of reqs "[]"] d1 by simp
      have step: "fst (walkRows env opts tried (row # rows) d plan) = (if stop then d1 else fst (walkRows env opts tried rows d1 plan1))"
        using True False w by (auto simp: reqs_def left_def Let_def)
      show ?thesis
      proof (cases stop)
        case True
        then have "dispatchAll opts (offered opts rows) d1 = d1"
          using dispatchAll_stuck no_room_stays d1 srv Cons.prems(2) by metis
        then show ?thesis using step True d1 by (simp add: o dispatchAll_append)
      next
        case False
        have "entries (rowRequests r) d1 \<le> int (tried (the (rw_inst r)))"
          if "r \<in> set rows" "rowEligible opts r" "\<not> Hopeless (repairStateLocked (rw_content r))" for r
        proof -
          have "reqKey ` set reqs \<inter> reqKey ` set (rowRequests r) = {}" using dist(3) that by (auto simp: offered_def)
          then show ?thesis using dispatchAll_frame [of reqs "rowRequests r" opts d] d1 later [OF that] by simp
        qed
        then have "fst (walkRows env opts tried rows d1 plan1) = dispatchAll opts (offered opts rows) d1"
          using Cons.IH [OF dist(2)] Cons.prems(2) srv by simp
        then show ?thesis using step False d1 by (simp add: o dispatchAll_append)
      qed
    qed
  qed
qed (simp add: offered_def)

text \<open>A job offers each article once.\<close>

lemma fileVisits_art: "distinct (map vi_artIdx (fileVisits m p fi))"
  "i \<in> set (map vi_artIdx (fileVisits m p fi)) \<Longrightarrow> fst (FileRange m fi) \<le> i \<and> i < snd (FileRange m fi)"
proof -
  have a: "vi_artIdx \<circ> visitOf m fi = id" by (auto simp: visitOf_def)
  show "distinct (map vi_artIdx (fileVisits m p fi))"
    by (simp add: fileVisits_def Let_def case_prod_unfold a map_map [symmetric] del: map_map)
      (simp add: a)
  show "i \<in> set (map vi_artIdx (fileVisits m p fi)) \<Longrightarrow> fst (FileRange m fi) \<le> i \<and> i < snd (FileRange m fi)"
    by (auto simp: fileVisits_def visitOf_def Let_def case_prod_unfold split: if_splits)
qed

lemma visits_distinct:
  assumes "mf_ok m"
  shows "distinct (map vi_artIdx (concat (map (fileVisits m p) [0..<mf_NumFiles m])))"
proof -
  have "n \<le> mf_NumFiles m \<Longrightarrow> distinct (map vi_artIdx (concat (map (fileVisits m p) [0..<n])))" for n
  proof (induction n)
    case (Suc n)
    have owner: "fileIndexForArticle m i = fi" if "fi < mf_NumFiles m" "i \<in> set (map vi_artIdx (fileVisits m p fi))" for fi i
      using fileVisits_art(2) [OF that(2)] fileIndexForArticle_eqI [OF assms that(1)] by simp
    have "set (map vi_artIdx (concat (map (fileVisits m p) [0..<n]))) \<inter> set (map vi_artIdx (fileVisits m p n)) = {}"
      (is "?A \<inter> ?B = {}")
    proof -
      have one: "fileIndexForArticle m i = n" if "i \<in> ?B" for i using owner [of n i] Suc.prems that by simp
      have "fileIndexForArticle m i < n" if i: "i \<in> ?A" for i
      proof -
        obtain fi where "fi < n" "i \<in> set (map vi_artIdx (fileVisits m p fi))" using i by auto
        then show ?thesis using owner [of fi i] Suc.prems by simp
      qed
      then show ?thesis using one by blast
    qed
    then show ?case using Suc fileVisits_art(1) [of m p n] by (simp add: Suc_le_eq)
  qed simp
  then show ?thesis by blast
qed

lemma callUntil_True: "callUntil (\<lambda>v. True) vs = vs"
  by (induction vs) simp_all

lemma rowRequests_distinct:
  assumes "content_reach (rw_content row)"
  shows "distinct (map reqKey (rowRequests row))" and "\<forall>k \<in> reqKey ` set (rowRequests row). Some (ak_inst k) = rw_inst row"
proof -
  consider "rowRequests row = []"
    | inst m p where "rw_inst row = Some inst" "ct_manifest (rw_content row) = Some m"
        "rowRequests row = map (requestOf (rw_ID row) inst) (concat (map (fileVisits m p) [0..<mf_NumFiles m]))"
  proof (cases "rowRequests row = []")
    case False
    then obtain inst m p where "rw_inst row = Some inst" "ct_manifest (rw_content row) = Some m" "ct_progress (rw_content row) = Some p"
        "jp_pendingArticles p \<noteq> 0"
      by (auto simp: rowRequests_def ForEachUnfinishedArticle_def split: option.splits if_splits)
    then show ?thesis using that(2) by (simp add: rowRequests_def ForEachUnfinishedArticle_def callUntil_True)
  qed
  then show "distinct (map reqKey (rowRequests row))" and "\<forall>k \<in> reqKey ` set (rowRequests row). Some (ak_inst k) = rw_inst row"
  proof (atomize (full), cases)
    case (2 inst m p)
    have "mf_ok m" using reach_resident [OF assms 2(2)] res_okD(1) by metis
    then have "distinct (map vi_artIdx (concat (map (fileVisits m p) [0..<mf_NumFiles m])))" by (rule visits_distinct)
    moreover have "reqKey \<circ> requestOf (rw_ID row) inst = keyFor (rw_ID row) inst \<circ> vi_artIdx"
      by (auto simp: reqKey_def requestOf_def)
    then have "map reqKey (rowRequests row) = map (keyFor (rw_ID row) inst) (map vi_artIdx (concat (map (fileVisits m p) [0..<mf_NumFiles m])))"
      unfolding 2(3) map_map by simp
    moreover have "inj (keyFor (rw_ID row) inst)" by (auto simp: inj_on_def keyFor_def)
    ultimately show "distinct (map reqKey (rowRequests row)) \<and> (\<forall>k \<in> reqKey ` set (rowRequests row). Some (ak_inst k) = rw_inst row)"
      using 2(1,3) by (auto simp: distinct_map inj_on_def keyFor_def reqKey_def requestOf_def)
  qed simp
qed

lemma entries_TriedCounts:
  assumes "distinct (map reqKey reqs)" and "\<And>r. r \<in> set reqs \<Longrightarrow> ak_inst (reqKey r) = inst"
  shows "entries reqs d \<le> int (TriedCounts (fl_tracker d) inst)"
proof -
  let ?has = "\<lambda>r. fmlookup (dt_tryList (fl_tracker d)) (reqKey r) \<noteq> None"
  have "length (filter ?has reqs) = card (reqKey ` set (filter ?has reqs))"
    using assms(1) distinct_card [of "map reqKey (filter ?has reqs)"] distinct_map_filter by fastforce
  also have "\<dots> \<le> card (fset (ffilter (\<lambda>k. ak_inst k = inst) (fmdom (dt_tryList (fl_tracker d)))))"
    by (rule card_mono) (use assms(2) in \<open>auto intro: fmdomI\<close>)
  finally show ?thesis by (simp add: entries_def TriedCounts_def fcard.rep_eq)
qed

lemma offered_distinct:
  assumes "\<And>row. row \<in> set rows \<Longrightarrow> content_reach (rw_content row)" and "distinct (map rw_inst (filter (rowEligible opts) rows))"
  shows "distinct (map reqKey (offered opts rows))"
  using assms
proof (induction rows)
  case (Cons row rows)
  let ?P = "\<lambda>row. rowEligible opts row \<and> \<not> Hopeless (repairStateLocked (rw_content row))"
  have IH: "distinct (map reqKey (offered opts rows))" using Cons by (auto split: if_splits)
  show ?case
  proof (cases "?P row")
    case True
    have "reqKey ` set (rowRequests row) \<inter> reqKey ` set (rowRequests r) = {}" if "r \<in> set rows" "?P r" for r
    proof -
      have "rw_inst r \<in> rw_inst ` set (filter (rowEligible opts) rows)" using that by auto
      then have "rw_inst r \<noteq> rw_inst row" using Cons.prems(2) True by auto
      then show ?thesis using rowRequests_distinct(2) [of row] rowRequests_distinct(2) [of r] Cons.prems(1) that(1) by fastforce
    qed
    then show ?thesis using True IH rowRequests_distinct(1) [of row] Cons.prems(1) by (fastforce simp: offered_def)
  qed (use IH in \<open>auto simp: offered_def\<close>)
qed (simp add: offered_def)

section \<open>Properties\<close>

text \<open>Strict priority tiers: an article is handed to a server exactly when that server is a candidate for
  it (enabled, not tried, allowed by TopOnly and the limit on optional servers), active and has
  room, no active candidate has a better priority, and no earlier server of the same priority has
  room; it is given up exactly when it has no candidate at all, active or not; otherwise it waits.\<close>

theorem select_server_tiers:
  assumes "length (do_serverCfgs opts) = length (fl_servers d)"
  shows "(selectServerForArticle msk hasTried opts d = Picked i \<longleftrightarrow>
      i < length (fl_servers d) \<and> eligible (candidateAt msk hasTried opts) opts d i \<and> roomAt opts d i
      \<and> (\<forall>k < length (fl_servers d). eligible (candidateAt msk hasTried opts) opts d k \<longrightarrow> prio opts i \<le> prio opts k)
      \<and> (\<forall>k < i. eligible (candidateAt msk hasTried opts) opts d k \<and> prio opts k = prio opts i \<longrightarrow> \<not> roomAt opts d k))
    \<and> (selectServerForArticle msk hasTried opts d = NoCandidate \<longleftrightarrow> (\<forall>k < length (fl_servers d). \<not> candidateAt msk hasTried opts k))"
  using select_Picked [OF assms] select_NoCandidate [OF assms] by blast

text \<open>C37: The early exits of a dispatch pass lose nothing: a pass that is not cancelled hands out exactly the
  requests, in the same channels, order and tracker entries, that offering every unfinished article
  of every eligible job in turn would. That covers the exit on all channels full, the skip of a job
  whose fresh articles must wait, and the end of a job's walk once its tried articles are behind.\<close>

theorem pass_early_exits_exact:
  assumes calm: "calm env opts" and cfgs: "do_serverCfgs opts = map srv_cfg (fl_servers d)"
    and reach: "\<forall>row \<in> set rows. content_reach (rw_content row)"
    and inst: "distinct (map rw_inst (filter (rowEligible opts) rows))"
  shows "fst (buildDispatchPlan env opts rows d) = dispatchAll opts (offered opts rows) d"
proof (cases "allServersFull (pe_clock env 0) (do_serverCfgs opts) d")
  case True
  then have "no_room opts d" using allServersFull_no_room [OF True cfgs] calm by (simp add: calm_def)
  then have "dispatchAll opts (offered opts rows) d = d" using dispatchAll_stuck no_room_stays cfgs by metis
  then show ?thesis using True by (simp add: buildDispatchPlan_def)
next
  case False
  have "entries (rowRequests row) d \<le> int (TriedCounts (fl_tracker d) (the (rw_inst row)))" if "row \<in> set rows" "rowEligible opts row" for row
  proof (rule entries_TriedCounts)
    show "distinct (map reqKey (rowRequests row))" using rowRequests_distinct(1) reach that by blast
    show "ak_inst (reqKey r) = the (rw_inst row)" if "r \<in> set (rowRequests row)" for r
      using rowRequests_distinct(2) [of row] reach \<open>row \<in> set rows\<close> that by (metis imageI option.sel)
  qed
  moreover have "distinct (map reqKey (offered opts rows))" by (rule offered_distinct) (use reach inst in auto)
  ultimately show ?thesis using walkRows_all [OF calm _ cfgs] False by (simp add: buildDispatchPlan_def)
qed

section \<open>A pass over one job\<close>

definition xServerCfg :: "string \<Rightarrow> int \<Rightarrow> ServerConfig" where
  "xServerCfg name pr = \<lparr>sc_Name = name, sc_Enable = True, sc_Priority = pr, sc_Optional = False, sc_Connections = 1\<rparr>"

definition xFleet :: Fleet where
  "xFleet = newFleet [(xServerCfg ''b'' 1, 1), (xServerCfg ''a'' 0, 1)] 1"

definition xDispatchOpts :: dispatchOpts where
  "xDispatchOpts = \<lparr>do_now = 5, do_serverCfgs = [xServerCfg ''b'' 1, xServerCfg ''a'' 0], do_maxArtTries = 0, do_maxArtOpt = 0,
     do_topOnly = False, do_propagationDelay = 0\<rparr>"

definition xPassEnv :: PassEnv where
  "xPassEnv = \<lparr>pe_cancelled = (\<lambda>n. False), pe_clock = (\<lambda>n. 5 + int n)\<rparr>"

definition xRow :: Row where
  "xRow = \<lparr>rw_ID = ''j'', rw_Intent = IntentRun, rw_Running = True, rw_State = Fetching, rw_Next = StateUnset, rw_Outcome = OutcomePending,
     rw_inst = Some 0, rw_handedOff = False, rw_Added = 0, rw_content = xContent\<rparr>"

theorem select_server_tiers_witness:
  "selectServerForArticle emptyMask False xDispatchOpts xFleet = Picked 1 \<and> roomAt xDispatchOpts xFleet 1"
proof -
  have "selectServerForArticle emptyMask False xDispatchOpts xFleet = Picked 1"
    by (simp add: selectServerForArticle_def xFleet_def newFleet_def xDispatchOpts_def xServerCfg_def NewServer_def selectStep_def
        candidateAt_def isServerCandidate_def hasRoom_def workChFor_def ServerActive_def countOptionalTried_def Let_def)
  then show ?thesis using select_server_tiers [of xDispatchOpts xFleet emptyMask False 1]
    by (simp add: xDispatchOpts_def xFleet_def newFleet_def)
qed

theorem pass_early_exits_exact_witness:
  "fst (buildDispatchPlan xPassEnv xDispatchOpts [xRow] xFleet) = dispatchAll xDispatchOpts (offered xDispatchOpts [xRow]) xFleet"
  by (rule pass_early_exits_exact) (simp_all add: calm_def xPassEnv_def xDispatchOpts_def xFleet_def newFleet_def NewServer_def xRow_def xContent_reach)

end
