(* ===== verification/Fetch.thy ===== *)
theory Fetch
  imports Dispatch_Pass Yenc Uu
begin

text \<open>
  The downloader's fetch side (\<^verbatim>\<open>internal/downloader/dispatch.go\<close>: \<open>handleRequest\<close> and what it calls) and
  the steps of the whole downloader: passes, workers taking requests, requests being handled, and
  the removal of jobs. What the network, the clock and the job's registration answer while a request
  is handled are its environment. The budget of held bytes is one of those answers: a request either
  got its share or was cut short waiting for it.
\<close>

section \<open>Decoding a body\<close>

datatype PayloadError = ErrArticleRemoved | ErrOffsetUnknownForPart | YencError DecodeError | NeitherDecodes UUError

record decodedPayload =
  dp_data :: bytes
  dp_offset :: int
  dp_crc :: "32 word"

text \<open>
  \<open>bytes.ToLower\<close> as far as ASCII bytes of its result go: the Kelvin sign and the dotted capital I are
  the two characters outside ASCII with a lower case inside it.
\<close>

fun bytes_ToLower :: "bytes \<Rightarrow> bytes" where
  "bytes_ToLower [] = []"
| "bytes_ToLower (c # cs) =
     (if HasPrefix (c # cs) [0xE2, 0x84, 0xAA] then 107 # bytes_ToLower (drop 2 cs)
      else if HasPrefix (c # cs) [0xC4, 0xB0] then 105 # bytes_ToLower (drop 1 cs)
      else (if 65 \<le> c \<and> c \<le> 90 then c + 32 else c) # bytes_ToLower cs)"

definition bytes_Contains :: "bytes \<Rightarrow> bytes \<Rightarrow> bool" where
  "bytes_Contains b pat \<longleftrightarrow> bytes_Index b pat \<noteq> None"

fun splitLines :: "bytes \<Rightarrow> bytes list" where
  "splitLines [] = [[]]"
| "splitLines (c # cs) = (if c = 10 then [] # splitLines cs else (case splitLines cs of l # ls \<Rightarrow> (c # l) # ls | [] \<Rightarrow> [[c]]))"

definition dmcaKeywords :: "bytes list" where
  "dmcaKeywords = [lit ''dmca'', lit ''removed'', lit ''cancel'', lit ''blocked'']"

definition isDMCA :: "bytes \<Rightarrow> bool" where
  "isDMCA body =
     list_ex (\<lambda>line. let lower = bytes_ToLower (TrimRight line [13]) in
                \<not> HasPrefix lower (lit ''x-'') \<and> list_ex (bytes_Contains lower) dmcaKeywords) (splitLines body)"

definition decodePayload :: "bytes \<Rightarrow> int \<Rightarrow> (PayloadError, decodedPayload) result" where
  "decodePayload body requestedPartNumber =
     (case DecodeArticleBuf body of
        (article, None) \<Rightarrow>
          if \<not> ar_HasOffset article \<and> requestedPartNumber > 1 then Inl ErrOffsetUnknownForPart
          else Inr \<lparr>dp_data = ar_Data article, dp_offset = ar_Offset article, dp_crc = ar_CRC article\<rparr>
      | (article, Some ErrNotYEnc) \<Rightarrow>
          (case DecodeUUBuf body of
             Inr (data, name) \<Rightarrow>
               if requestedPartNumber > 1 then Inl ErrOffsetUnknownForPart
               else Inr \<lparr>dp_data = data, dp_offset = 0, dp_crc = ChecksumIEEE data\<rparr>
           | Inl uuErr \<Rightarrow> if isDMCA body then Inl ErrArticleRemoved else Inl (NeitherDecodes uuErr))
      | (article, Some e) \<Rightarrow> Inl (YencError e))"

section \<open>State\<close>

datatype ResultError = ErrNoServersLeft | FetchError goerr | PayloadFailed PayloadError

record ArticleResult =
  ars_jobID :: string
  ars_inst :: nat
  ars_fileIdx :: nat
  ars_artIdx :: nat
  ars_ServerName :: string
  ars_Data :: "bytes option"
  ars_Offset :: int
  ars_CRC :: "32 word"
  ars_Err :: "ResultError option"

text \<open>
  \<open>dn_content\<close> is the content tier of the job instances; \<open>dn_taken\<close> the requests that workers of a
  server are handling, \<open>dn_closing\<close> those handled whose in-flight count is not released yet.
\<close>

record Downloader =
  dn_fleet :: Fleet
  dn_content :: "nat \<Rightarrow> Content"
  dn_NoPenalties :: bool
  dn_MaxPenalty :: int
  dn_taken :: "(nat \<times> articleRequest) list"
  dn_closing :: "articleRequest list"
  dn_completions :: "ArticleResult list"

definition onTracker :: "(dispatchTracker \<Rightarrow> dispatchTracker) \<Rightarrow> Downloader \<Rightarrow> Downloader" where
  "onTracker f d = d\<lparr>dn_fleet := (dn_fleet d)\<lparr>fl_tracker := f (fl_tracker (dn_fleet d))\<rparr>\<rparr>"

definition onServer :: "nat \<Rightarrow> (Server \<Rightarrow> Server) \<Rightarrow> Downloader \<Rightarrow> Downloader" where
  "onServer i f d = d\<lparr>dn_fleet := (dn_fleet d)\<lparr>fl_servers := (fl_servers (dn_fleet d))[i := f (fl_servers (dn_fleet d) ! i)]\<rparr>\<rparr>"

definition markEmittedReq :: "articleRequest \<Rightarrow> Downloader \<Rightarrow> Downloader" where
  "markEmittedReq req d =
     d\<lparr>dn_content := (dn_content d)(rq_inst req := fst (MarkArticleEmitted (int (rq_artIdx req)) (dn_content d (rq_inst req))))\<rparr>"

definition clearEmittedReq :: "articleRequest \<Rightarrow> Downloader \<Rightarrow> Downloader" where
  "clearEmittedReq req d =
     d\<lparr>dn_content := (dn_content d)(rq_inst req := fst (ClearArticleEmitted (int (rq_artIdx req)) (dn_content d (rq_inst req))))\<rparr>"

definition resultFor :: "articleRequest \<Rightarrow> string \<Rightarrow> decodedPayload option \<Rightarrow> ResultError option \<Rightarrow> ArticleResult" where
  "resultFor req server payload err =
     \<lparr>ars_jobID = rq_jobID req, ars_inst = rq_inst req, ars_fileIdx = rq_fileIdx req, ars_artIdx = rq_artIdx req, ars_ServerName = server,
      ars_Data = map_option dp_data payload, ars_Offset = (case payload of None \<Rightarrow> 0 | Some p \<Rightarrow> dp_offset p),
      ars_CRC = (case payload of None \<Rightarrow> 0 | Some p \<Rightarrow> dp_crc p), ars_Err = err\<rparr>"

text \<open>\<open>sent\<close> is false when cancellation won over the send.\<close>

definition emitResult :: "bool \<Rightarrow> articleRequest \<Rightarrow> string \<Rightarrow> decodedPayload option \<Rightarrow> ResultError option \<Rightarrow> Downloader \<Rightarrow> Downloader" where
  "emitResult sent req server payload err d =
     (if sent then d\<lparr>dn_completions := dn_completions d @ [resultFor req server payload err]\<rparr> else clearEmittedReq req d)"

definition unmarkTried :: "articleRequest \<Rightarrow> nat \<Rightarrow> Downloader \<Rightarrow> Downloader" where
  "unmarkTried req serverIdx = onTracker (UnmarkTried (reqKey req) serverIdx)"

definition clearTried :: "articleRequest \<Rightarrow> Downloader \<Rightarrow> Downloader" where
  "clearTried req = onTracker (ClearTried (reqKey req))"

definition clearInFlight :: "articleRequest \<Rightarrow> Downloader \<Rightarrow> Downloader" where
  "clearInFlight req = onTracker (DecrementInFlight (reqKey req))"

section \<open>Penalties\<close>

definition clampPenalty :: "Downloader \<Rightarrow> int \<Rightarrow> int" where
  "clampPenalty d pen =
     (let maxPen = (if dn_NoPenalties d \<and> (dn_MaxPenalty d = 0 \<or> dn_MaxPenalty d > PenaltyShort) then PenaltyShort else dn_MaxPenalty d) in
      if maxPen > 0 \<and> pen > maxPen then maxPen else pen)"

definition chargePenalty :: "int \<Rightarrow> nat \<Rightarrow> int \<Rightarrow> Downloader \<Rightarrow> Downloader" where
  "chargePenalty now i pen d =
     (let p = clampPenalty d pen in if p > 0 then onServer i (ApplyPenalty now p) d else d)"

definition chargeFetchFailure :: "int \<Rightarrow> nat \<Rightarrow> goerr \<Rightarrow> Downloader \<Rightarrow> Downloader" where
  "chargeFetchFailure now i err d =
     (if isConnFault err then
        (case RecordConnFault (fl_servers (dn_fleet d) ! i) of
           (False, s) \<Rightarrow> onServer i (\<lambda>_. s) d
         | (True, s) \<Rightarrow> chargePenalty now i PenaltyTimeout (onServer i (\<lambda>_. s) d))
      else chargePenalty now i (PenaltyFor err) (onServer i RecordBadConnection d))"

section \<open>Handling a request\<close>

text \<open>
  The environment: whether the budget was acquired; whether the request's job is the one registered
  under its ID, its intent and hand-off; the global pause; the connection (\<open>Inl\<close> the error of
  \<open>managedConn.Get\<close>); the fetch; whether this call dropped the connection; whether the contexts were
  cancelled; whether the result could be sent; the clock.
\<close>

record FetchEnv =
  fe_held :: bool
  fe_registered :: bool
  fe_Intent :: Intent
  fe_handedOff :: bool
  fe_paused :: bool
  fe_conn :: "goerr option"
  fe_fetch :: "goerr + bytes"
  fe_dropped :: bool
  fe_cancelled :: bool
  fe_sent :: bool
  fe_now :: int

definition fetchArticle :: "FetchEnv \<Rightarrow> nat \<Rightarrow> articleRequest \<Rightarrow> Downloader \<Rightarrow> Downloader \<times> bytes option" where
  "fetchArticle env i req d =
     (let name = sc_Name (srv_cfg (fl_servers (dn_fleet d) ! i)) in
      if \<not> fe_registered env \<or> fe_Intent env \<noteq> IntentRun \<or> fe_handedOff env then (clearEmittedReq req (unmarkTried req i d), None)
      else if fe_paused env then (clearEmittedReq req (unmarkTried req i d), None)
      else
        (case fe_conn env of
           Some err \<Rightarrow>
             (let d1 = unmarkTried req i d in
              if goerr_Is err errServerPenalized then (d1, None)
              else if fe_cancelled env then (d1, None)
              else (chargePenalty (fe_now env) i (PenaltyFor err) (onServer i RecordBadConnection d1), None))
         | None \<Rightarrow>
             (case fe_fetch env of
                Inr body \<Rightarrow> (onServer i RecordGoodConnection d, Some body)
              | Inl err \<Rightarrow>
                  if goerr_Is err ErrIdleClosed then (unmarkTried req i d, None)
                  else if goerr_Is err ErrNoArticle
                  then (emitResult (fe_sent env) req name None (Some (FetchError err)) (onServer i RecordGoodConnection d), None)
                  else
                    (let d1 = (if \<not> fe_cancelled env \<and> fe_dropped env then chargeFetchFailure (fe_now env) i err d else d) in
                     if \<not> fe_cancelled env \<and> isConnFault err
                     then (onTracker (\<lambda>t. snd (UnmarkTriedAfterFault (reqKey req) i t)) d1, None)
                     else (unmarkTried req i d1, None)))))"

definition processFetchedArticle :: "FetchEnv \<Rightarrow> nat \<Rightarrow> articleRequest \<Rightarrow> bytes \<Rightarrow> Downloader \<Rightarrow> Downloader" where
  "processFetchedArticle env i req body d =
     (let name = sc_Name (srv_cfg (fl_servers (dn_fleet d) ! i)) in
      case decodePayload body (rq_partNumber req) of
        Inl err \<Rightarrow>
          if err = YencError ErrCRCMismatch
          then emitResult (fe_sent env) req name None (Some (PayloadFailed err)) (onServer i RecordGoodConnection d)
          else emitResult (fe_sent env) req name None (Some (PayloadFailed err)) (clearTried req (markEmittedReq req d))
      | Inr payload \<Rightarrow> emitResult (fe_sent env) req name (Some payload) None (clearTried req (markEmittedReq req d)))"

text \<open>\<open>handleRequest\<close> up to its deferred \<open>clearInFlight\<close>.\<close>

definition handleRequest :: "FetchEnv \<Rightarrow> nat \<Rightarrow> articleRequest \<Rightarrow> Downloader \<Rightarrow> Downloader" where
  "handleRequest env i req d =
     (if \<not> fe_held env then unmarkTried req i d
      else
        (case fetchArticle env i req d of
           (d1, None) \<Rightarrow> d1
         | (d1, Some body) \<Rightarrow> processFetchedArticle env i req body d1))"

section \<open>Steps of the downloader\<close>

definition applyExhausted :: "(articleRequest \<Rightarrow> bool) \<Rightarrow> articleRequest list \<Rightarrow> Downloader \<Rightarrow> Downloader" where
  "applyExhausted sent reqs d =
     foldl (\<lambda>d req. emitResult (sent req) req [] None (Some ErrNoServersLeft) (clearTried req (markEmittedReq req d))) d reqs"

text \<open>The plan's exhausted articles; its hopeless jobs and the idle disconnect are the second and third results.\<close>

definition applyDispatchPlan :: "(articleRequest \<Rightarrow> bool) \<Rightarrow> bool \<Rightarrow> bool \<Rightarrow> Row list \<Rightarrow> dispatchPlan \<Rightarrow> Downloader \<Rightarrow> Downloader \<times> string set \<times> bool" where
  "applyDispatchPlan sent paused connected rows plan d =
     (applyExhausted sent (pl_exhausted plan) d, pl_hopelessJobs plan,
      pl_dispatched plan = 0 \<and> \<not> hasDownloadableJobs paused rows \<and> connected)"

definition dispatchPass :: "(articleRequest \<Rightarrow> bool) \<Rightarrow> bool \<Rightarrow> bool \<Rightarrow> PassEnv \<Rightarrow> dispatchOpts \<Rightarrow> Row list \<Rightarrow> Downloader \<Rightarrow> Downloader \<times> string set \<times> bool" where
  "dispatchPass sent paused connected env opts rows d =
     (if paused \<or> pe_cancelled env 0 then (d, {}, False)
      else
        (let opts = opts\<lparr>do_serverCfgs := map srv_cfg (fl_servers (dn_fleet d))\<rparr>;
             (fleet, plan) = buildDispatchPlan env opts rows (dn_fleet d) in
         applyDispatchPlan sent paused connected rows plan (d\<lparr>dn_fleet := fleet\<rparr>)))"

definition checkExpiredPenalties :: "int \<Rightarrow> Downloader \<Rightarrow> Downloader" where
  "checkExpiredPenalties now d =
     d\<lparr>dn_fleet := (dn_fleet d)\<lparr>fl_servers := map (\<lambda>s. if ServerActive now s then ClearDeactivation s else s) (fl_servers (dn_fleet d))\<rparr>\<rparr>"

fun unblockFirst :: "string \<Rightarrow> Server list \<Rightarrow> Server list \<times> bool" where
  "unblockFirst name [] = ([], False)"
| "unblockFirst name (s # ss) =
     (if sc_Name (srv_cfg s) = name then (ClearDeactivation s # ss, True)
      else (case unblockFirst name ss of (ss1, found) \<Rightarrow> (s # ss1, found)))"

definition UnblockServer :: "string \<Rightarrow> Downloader \<Rightarrow> Downloader \<times> bool" where
  "UnblockServer name d =
     (case unblockFirst name (fl_servers (dn_fleet d)) of
        (ss, found) \<Rightarrow> (d\<lparr>dn_fleet := (dn_fleet d)\<lparr>fl_servers := ss\<rparr>\<rparr>, found))"

text \<open>\<open>registered\<close> tells which instance the dispatcher has under an ID.\<close>

definition staleInstances :: "string \<Rightarrow> (string \<Rightarrow> nat option) \<Rightarrow> dispatchTracker \<Rightarrow> nat \<Rightarrow> bool" where
  "staleInstances aborted registered t inst =
     fBex (Instances t) (\<lambda>(jobID, i). i = inst \<and> (jobID = aborted \<or> registered jobID \<noteq> Some i))"

definition reapTracker :: "string \<Rightarrow> (string \<Rightarrow> nat option) \<Rightarrow> Downloader \<Rightarrow> Downloader" where
  "reapTracker aborted registered d =
     onTracker (\<lambda>t. DropInstances (staleInstances aborted registered t) t) d"

text \<open>A worker of server \<open>i\<close> receives from its channel.\<close>

definition takeRequest :: "nat \<Rightarrow> Downloader \<Rightarrow> Downloader option" where
  "takeRequest i d =
     (let name = sc_Name (srv_cfg (fl_servers (dn_fleet d) ! i)) in
      case fl_workCh (dn_fleet d) name of
        Some (cap, req # buf) \<Rightarrow>
          Some (d\<lparr>dn_fleet := (dn_fleet d)\<lparr>fl_workCh := (fl_workCh (dn_fleet d))(name \<mapsto> (cap, buf))\<rparr>,
                  dn_taken := dn_taken d @ [(i, req)]\<rparr>)
      | _ \<Rightarrow> None)"

definition newDownloader :: "(ServerConfig \<times> int) list \<Rightarrow> int \<Rightarrow> bool \<Rightarrow> int \<Rightarrow> (nat \<Rightarrow> Content) \<Rightarrow> Downloader" where
  "newDownloader cfgs perServerQueue noPenalties maxPenalty content =
     \<lparr>dn_fleet = newFleet cfgs perServerQueue, dn_content = content, dn_NoPenalties = noPenalties, dn_MaxPenalty = maxPenalty,
      dn_taken = [], dn_closing = [], dn_completions = []\<rparr>"

end
