(* ===== verification/Fetch_Safety.thy ===== *)
theory Fetch_Safety
  imports Fetch
begin

text \<open>
  What holds of an article through any interleaving of passes, workers and removals: one request at a
  time is outstanding for it, its servers in flight are in its try-list, and its failures use up a
  fixed allowance.
\<close>

section \<open>One article's entries\<close>

definition triedMask :: "articleKey \<Rightarrow> dispatchTracker \<Rightarrow> serverMask" where
  "triedMask key t = fst (TryListLocked key t)"

definition faultsOf :: "articleKey \<Rightarrow> dispatchTracker \<Rightarrow> nat \<Rightarrow> int" where
  "faultsOf key t i = (case fmlookup (dt_faults t) key of None \<Rightarrow> 0 | Some p \<Rightarrow> mapGet p i)"

text \<open>The failures an article has left: three on a server, none on one that has been tried, except while it is being fetched from there.\<close>

definition allowance :: "articleKey \<Rightarrow> nat \<Rightarrow> dispatchTracker \<Rightarrow> (nat \<Rightarrow> nat) \<Rightarrow> int" where
  "allowance key N t g = (\<Sum>i<N. if mask_has (triedMask key t) i \<and> g i = 0 then 0 else 3 - faultsOf key t i)"

text \<open>
  \<open>g i\<close> is the number of the article's requests queued or being handled at server \<open>i\<close>, \<open>cl\<close> of those
  handled but still in flight, \<open>n\<close> its failures so far.
\<close>

definition kinv :: "articleKey \<Rightarrow> nat \<Rightarrow> nat \<Rightarrow> dispatchTracker \<Rightarrow> (nat \<Rightarrow> nat) \<Rightarrow> nat \<Rightarrow> bool" where
  "kinv key n N t g cl \<longleftrightarrow>
     InFlightLocked key t = int ((\<Sum>i<N. g i) + cl) \<and> (\<Sum>i<N. g i) + cl \<le> 1
     \<and> (\<forall>i<N. g i > 0 \<longrightarrow> mask_has (triedMask key t) i) \<and> (\<forall>i. 0 \<le> faultsOf key t i \<and> faultsOf key t i \<le> 2)
     \<and> int n + allowance key N t g \<le> 3 * int N"

lemma kinvD:
  assumes "kinv key n N t g cl"
  shows "InFlightLocked key t = int ((\<Sum>i<N. g i) + cl)" "(\<Sum>i<N. g i) + cl \<le> 1"
    "i < N \<Longrightarrow> g i > 0 \<Longrightarrow> mask_has (triedMask key t) i" "0 \<le> faultsOf key t i" "faultsOf key t i \<le> 2"
    "int n + allowance key N t g \<le> 3 * int N"
  using assms by (auto simp: kinv_def)

lemma kinv_cong:
  assumes "fmlookup (dt_tryList t') key = fmlookup (dt_tryList t) key" "fmlookup (dt_inFlight t') key = fmlookup (dt_inFlight t) key"
    "fmlookup (dt_faults t') key = fmlookup (dt_faults t) key"
  shows "kinv key n N t' g cl = kinv key n N t g cl"
proof -
  have e: "triedMask key t' = triedMask key t" "faultsOf key t' = faultsOf key t" "InFlightLocked key t' = InFlightLocked key t"
    using assms by (auto simp: triedMask_def TryListLocked_def faultsOf_def InFlightLocked_def mapGet_def)
  show ?thesis unfolding kinv_def allowance_def e ..
qed

lemma kinv_pointwise: "(\<And>i. i < N \<Longrightarrow> g' i = g i) \<Longrightarrow> kinv key n N t g' cl = kinv key n N t g cl"
  unfolding kinv_def allowance_def by (metis (no_types, lifting) lessThan_iff sum.cong)

lemma allowance_le: "(\<And>i. 0 \<le> faultsOf key t i) \<Longrightarrow> allowance key N t g \<le> 3 * int N"
  unfolding allowance_def
  using sum_bounded_above [of "{..<N}" "\<lambda>i. if mask_has (triedMask key t) i \<and> g i = 0 then 0 else 3 - faultsOf key t i" 3]
  by (simp add: mult.commute)

text \<open>The one server an outstanding request is at.\<close>

lemma kinv_busy:
  assumes "kinv key n N t g cl" and "i < N" and "g i > 0"
  shows "g i = 1" "cl = 0" "\<And>k. k < N \<Longrightarrow> k \<noteq> i \<Longrightarrow> g k = 0"
proof -
  have "(\<Sum>i<N. g i) = g i + (\<Sum>k \<in> {..<N} - {i}. g k)" using assms(2) by (simp add: sum.remove)
  then have *: "g i + (\<Sum>k \<in> {..<N} - {i}. g k) + cl \<le> 1" using kinvD(2) [OF assms(1)] by simp
  then show "g i = 1" "cl = 0" using assms(3) by linarith+
  have "(\<Sum>k \<in> {..<N} - {i}. g k) = 0" using * assms(3) by linarith
  then show "\<And>k. k < N \<Longrightarrow> k \<noteq> i \<Longrightarrow> g k = 0" by simp
qed

lemma sum_upd: "i < N \<Longrightarrow> (\<Sum>k<N. (g(i := x)) k) = (\<Sum>k<N. g k) - g i + x" for g :: "nat \<Rightarrow> nat"
proof -
  assume i: "i < N"
  have "(\<Sum>k<N. (g(i := x)) k) = x + (\<Sum>k \<in> {..<N} - {i}. g k)" using i by (simp add: sum.remove)
  moreover have "(\<Sum>k<N. g k) = g i + (\<Sum>k \<in> {..<N} - {i}. g k)" using i by (simp add: sum.remove)
  ultimately show ?thesis by simp
qed

text \<open>The allowance when only one server's part changes.\<close>

lemma allowance_upd:
  assumes "i < N" and "\<And>k. k < N \<Longrightarrow> k \<noteq> i \<Longrightarrow>
      (if mask_has (triedMask key t') k \<and> g' k = 0 then 0 else 3 - faultsOf key t' k) = (if mask_has (triedMask key t) k \<and> g k = 0 then 0 else 3 - faultsOf key t k)"
  shows "allowance key N t' g' = allowance key N t g
     - (if mask_has (triedMask key t) i \<and> g i = 0 then 0 else 3 - faultsOf key t i)
     + (if mask_has (triedMask key t') i \<and> g' i = 0 then 0 else 3 - faultsOf key t' i)"
proof -
  let ?f = "\<lambda>k. if mask_has (triedMask key t) k \<and> g k = 0 then 0 else 3 - faultsOf key t k"
  let ?f' = "\<lambda>k. if mask_has (triedMask key t') k \<and> g' k = 0 then 0 else 3 - faultsOf key t' k"
  have "sum ?f {..<N} = ?f i + sum ?f ({..<N} - {i})" "sum ?f' {..<N} = ?f' i + sum ?f' ({..<N} - {i})"
    using assms(1) by (simp_all add: sum.remove)
  moreover have "sum ?f ({..<N} - {i}) = sum ?f' ({..<N} - {i})" by (rule sum.cong) (use assms(2) in auto)
  ultimately show ?thesis unfolding allowance_def by linarith
qed

section \<open>The tracker's operations on an article\<close>

lemma triedMask_Set [simp]: "triedMask key (SetTriedLocked key m t) = m"
  by (simp add: triedMask_def TryListLocked_def SetTriedLocked_def)

lemma triedMask_simps [simp]:
  "triedMask key (IncrementInFlightLocked k t) = triedMask key t" "triedMask key (DecrementInFlight k t) = triedMask key t"
  "triedMask key (ClearTried key t) = emptyMask" "triedMask key (t\<lparr>dt_faults := x\<rparr>) = triedMask key t"
  by (simp_all add: triedMask_def TryListLocked_def IncrementInFlightLocked_def DecrementInFlight_def ClearTried_def)

lemma faultsOf_simps [simp]:
  "faultsOf key (IncrementInFlightLocked k t) = faultsOf key t" "faultsOf key (DecrementInFlight k t) = faultsOf key t"
  "faultsOf key (SetTriedLocked k m t) = faultsOf key t" "faultsOf key (UnmarkTried k i t) = faultsOf key t" "faultsOf key (ClearTried key t) = (\<lambda>i. 0)"
  by (auto simp: faultsOf_def IncrementInFlightLocked_def DecrementInFlight_def SetTriedLocked_def UnmarkTried_def ClearTried_def Let_def split: option.split)

lemma InFlight_simps [simp]:
  "InFlightLocked key (SetTriedLocked k m t) = InFlightLocked key t" "InFlightLocked key (UnmarkTried k i t) = InFlightLocked key t"
  "InFlightLocked key (ClearTried k t) = InFlightLocked key t" "InFlightLocked key (IncrementInFlightLocked key t) = InFlightLocked key t + 1"
  "InFlightLocked key (t\<lparr>dt_faults := x\<rparr>) = InFlightLocked key t"
  by (auto simp: InFlightLocked_def mapGet_def SetTriedLocked_def UnmarkTried_def ClearTried_def IncrementInFlightLocked_def Let_def split: option.split)

lemma InFlight_Decrement: "0 < InFlightLocked key t \<Longrightarrow> InFlightLocked key (DecrementInFlight key t) = InFlightLocked key t - 1"
  by (auto simp: InFlightLocked_def mapGet_def DecrementInFlight_def split: option.splits)

lemma mask_has_Unmark: "mask_has (triedMask key (UnmarkTried key i t)) k \<longleftrightarrow> k \<noteq> i \<and> mask_has (triedMask key t) k"
proof (cases "fmlookup (dt_tryList t) key")
  case None
  then show ?thesis by (simp add: UnmarkTried_def triedMask_def TryListLocked_def sm.has_empty)
next
  case (Some m)
  then show ?thesis
    using sm.isEmpty_iff [of "mask_unset i m"] sm.has_drop [of i m k]
    by (auto simp: UnmarkTried_def triedMask_def TryListLocked_def Let_def sm.has_empty)
qed

text \<open>The three cases of a connection fault.\<close>

lemma faultsOf_get: "faultsOf key t i = mapGet (case fmlookup (dt_faults t) key of None \<Rightarrow> fmempty | Some p \<Rightarrow> p) i"
  by (simp add: faultsOf_def mapGet_def split: option.split)

lemma fault_third:
  assumes "faultsOf key t i + 1 \<ge> 3"
  defines "t' \<equiv> snd (UnmarkTriedAfterFault key i t)"
  shows "triedMask key t' = triedMask key t" "InFlightLocked k t' = InFlightLocked k t" "faultsOf key t' = (faultsOf key t)(i := 0)"
proof -
  define p where "p = (case fmlookup (dt_faults t) key of None \<Rightarrow> fmempty | Some p \<Rightarrow> p)"
  have t': "t' = t\<lparr>dt_faults := (if fmdrop i p = fmempty then fmdrop key (dt_faults t) else fmupd key (fmdrop i p) (dt_faults t))\<rparr>"
    using assms(1) unfolding t'_def by (simp add: UnmarkTriedAfterFault_def Let_def maxConnFaultsPerArticle_def faultsOf_get p_def)
  show "triedMask key t' = triedMask key t" "InFlightLocked k t' = InFlightLocked k t" by (simp_all add: t')
  show "faultsOf key t' = (faultsOf key t)(i := 0)"
  proof
    fix k
    have "mapGet (fmdrop i p) k = ((faultsOf key t)(i := 0)) k" by (simp add: mapGet_def faultsOf_get p_def)
    moreover have "mapGet (fmdrop i p) k = 0" if "fmdrop i p = fmempty" using that by (simp add: mapGet_def)
    moreover have "faultsOf key t' k = (if fmdrop i p = fmempty then 0 else mapGet (fmdrop i p) k)"
      by (simp add: faultsOf_def t')
    ultimately show "faultsOf key t' k = ((faultsOf key t)(i := 0)) k" by auto
  qed
qed

lemma fault_early:
  assumes "\<not> faultsOf key t i + 1 \<ge> 3"
  defines "t' \<equiv> snd (UnmarkTriedAfterFault key i t)"
  shows "mask_has (triedMask key t') k \<longleftrightarrow> k \<noteq> i \<and> mask_has (triedMask key t) k" "InFlightLocked k' t' = InFlightLocked k' t"
    "faultsOf key t' = (faultsOf key t)(i := faultsOf key t i + 1)"
proof -
  define p where "p = (case fmlookup (dt_faults t) key of None \<Rightarrow> fmempty | Some p \<Rightarrow> p)"
  have t': "t' = UnmarkTried key i (t\<lparr>dt_faults := fmupd key (fmupd i (faultsOf key t i + 1) p) (dt_faults t)\<rparr>)"
    using assms(1) unfolding t'_def by (simp add: UnmarkTriedAfterFault_def Let_def maxConnFaultsPerArticle_def faultsOf_get p_def)
  show "mask_has (triedMask key t') k \<longleftrightarrow> k \<noteq> i \<and> mask_has (triedMask key t) k" by (simp add: t' mask_has_Unmark)
  show "InFlightLocked k' t' = InFlightLocked k' t" by (simp add: t')
  show "faultsOf key t' = (faultsOf key t)(i := faultsOf key t i + 1)"
    unfolding t' faultsOf_simps by (auto simp: faultsOf_def [of _ "t\<lparr>dt_faults := _\<rparr>"] faultsOf_get p_def mapGet_def)
qed

section \<open>Steps of an article\<close>

lemma kinv_idle:
  assumes "kinv key n N t g cl" and "InFlightLocked key t \<le> 0"
  shows "(\<Sum>i<N. g i) = 0" "cl = 0" "\<And>i. i < N \<Longrightarrow> g i = 0"
proof -
  have "int ((\<Sum>i<N. g i) + cl) \<le> 0" using kinvD(1) [OF assms(1)] assms(2) by linarith
  then have "(\<Sum>i<N. g i) + cl = 0" by (simp only: of_nat_le_0_iff)
  then show s: "(\<Sum>i<N. g i) = 0" and "cl = 0" by simp_all
  show "\<And>i. i < N \<Longrightarrow> g i = 0" using s by simp
qed

lemma kinv_dispatch:
  assumes k: "kinv key n N t g cl" and idle: "InFlightLocked key t \<le> 0" and i: "i < N" and new: "\<not> mask_has (triedMask key t) i"
  shows "kinv key n N (IncrementInFlightLocked key (SetTriedLocked key (mask_set i (triedMask key t)) t)) (g(i := g i + 1)) cl" (is "kinv _ _ _ ?t _ _")
proof -
  note z = kinv_idle(1,2) [OF k idle] and g = kinv_idle(3) [OF k idle]
  have h: "mask_has (triedMask key ?t) j \<longleftrightarrow> j = i \<or> mask_has (triedMask key t) j" for j by (simp add: sm.has_put)
  have "allowance key N ?t (g(i := g i + 1)) = allowance key N t g"
    by (subst allowance_upd [OF i, of key ?t "g(i := g i + 1)" t g]) (use new in \<open>auto simp: sm.has_put\<close>)
  moreover have "(\<Sum>j<N. (g(i := g i + 1)) j) = 1" using sum_upd [OF i, of g "g i + 1"] z g [OF i] by simp
  ultimately show ?thesis using k z g unfolding kinv_def h by (auto simp: fun_upd_def)
qed

text \<open>What handling the one outstanding request leaves, once the tracker is known to keep the rest.\<close>

lemma kinv_handled:
  assumes k: "kinv key n N t g cl" and i: "i < N" and busy: "g i > 0"
    and fl: "InFlightLocked key t' = InFlightLocked key t" and f: "\<And>j. 0 \<le> faultsOf key t' j \<and> faultsOf key t' j \<le> 2"
    and al: "int n' + allowance key N t' (g(i := g i - 1)) \<le> 3 * int N"
  shows "kinv key n' N t' (g(i := g i - 1)) (cl + 1)"
proof -
  note b = kinv_busy [OF k i busy]
  have "g i \<le> (\<Sum>j<N. g j)" using i by (intro member_le_sum) auto
  then have one: "(\<Sum>j<N. g j) = 1" using kinvD(2) [OF k] b by linarith
  have z: "(g(i := g i - 1)) j = 0" if "j < N" for j using b that by (cases "j = i") auto
  then have "(\<Sum>j<N. (g(i := g i - 1)) j) = 0" by simp
  moreover have "InFlightLocked key t' = 1" using kinvD(1) [OF k] one b(2) fl by simp
  ultimately show ?thesis unfolding kinv_def using z f al b(2) by simp
qed

lemma allowance_handled:
  assumes "kinv key n N t g cl" and i: "i < N" and busy: "g i > 0"
    and m: "\<And>j. j \<noteq> i \<Longrightarrow> mask_has (triedMask key t') j = mask_has (triedMask key t) j" and f: "\<And>j. j \<noteq> i \<Longrightarrow> faultsOf key t' j = faultsOf key t j"
  shows "allowance key N t' (g(i := g i - 1)) = allowance key N t g - (3 - faultsOf key t i)
     + (if mask_has (triedMask key t') i then 0 else 3 - faultsOf key t' i)"
  using kinv_busy(1) [OF assms(1-3)] busy m f
  by (subst allowance_upd [OF i, of key t' "g(i := g i - 1)" t g]) simp_all

lemma kinv_unmark:
  assumes k: "kinv key n N t g cl" and i: "i < N" and busy: "g i > 0"
  shows "kinv key n N (UnmarkTried key i t) (g(i := g i - 1)) (cl + 1)"
proof (rule kinv_handled [OF k i busy])
  have "allowance key N (UnmarkTried key i t) (g(i := g i - 1)) = allowance key N t g"
    by (subst allowance_handled [OF k i busy]) (simp_all add: mask_has_Unmark)
  then show "int n + allowance key N (UnmarkTried key i t) (g(i := g i - 1)) \<le> 3 * int N" using kinvD(6) [OF k] by simp
qed (use kinvD(4,5) [OF k] in simp_all)

lemma kinv_refused:
  assumes k: "kinv key n N t g cl" and i: "i < N" and busy: "g i > 0"
  shows "kinv key (n + 1) N t (g(i := g i - 1)) (cl + 1)"
proof (rule kinv_handled [OF k i busy])
  have "allowance key N t (g(i := g i - 1)) = allowance key N t g - (3 - faultsOf key t i)"
    using kinvD(3) [OF k i busy] by (subst allowance_handled [OF k i busy]) simp_all
  then show "int (n + 1) + allowance key N t (g(i := g i - 1)) \<le> 3 * int N" using kinvD(6) [OF k] kinvD(5) [OF k, of i] by simp
qed (use kinvD(4,5) [OF k] in simp_all)

lemma kinv_faulted:
  assumes k: "kinv key n N t g cl" and i: "i < N" and busy: "g i > 0"
  shows "kinv key (n + 1) N (snd (UnmarkTriedAfterFault key i t)) (g(i := g i - 1)) (cl + 1)" (is "kinv _ _ _ ?t _ _")
proof (cases "faultsOf key t i + 1 \<ge> 3")
  case True
  note th = fault_third [OF True]
  show ?thesis
  proof (rule kinv_handled [OF k i busy])
    have "allowance key N ?t (g(i := g i - 1)) = allowance key N t g - (3 - faultsOf key t i)"
      using kinvD(3) [OF k i busy] th by (subst allowance_handled [OF k i busy]) simp_all
    then show "int (n + 1) + allowance key N ?t (g(i := g i - 1)) \<le> 3 * int N" using kinvD(6) [OF k] kinvD(5) [OF k, of i] by simp
  qed (use kinvD(4,5) [OF k] th in simp_all)
next
  case False
  note th = fault_early [OF False]
  show ?thesis
  proof (rule kinv_handled [OF k i busy])
    have "allowance key N ?t (g(i := g i - 1)) = allowance key N t g - 1"
      by (subst allowance_handled [OF k i busy]) (simp_all add: th)
    then show "int (n + 1) + allowance key N ?t (g(i := g i - 1)) \<le> 3 * int N" using kinvD(6) [OF k] by simp
    show "0 \<le> faultsOf key ?t j \<and> faultsOf key ?t j \<le> 2" for j using kinvD(4,5) [OF k, of j] False by (auto simp: th)
  qed (use th in simp_all)
qed

lemma kinv_settled:
  assumes k: "kinv key n N t g cl" and i: "i < N" and busy: "g i > 0"
  shows "kinv key 0 N (ClearTried key t) (g(i := g i - 1)) (cl + 1)"
  by (rule kinv_handled [OF k i busy]) (use allowance_le [of key "ClearTried key t"] in simp_all)

lemma kinv_cleared:
  assumes k: "kinv key n N t g cl" and idle: "InFlightLocked key t \<le> 0"
  shows "kinv key 0 N (ClearTried key t) g cl"
  using k kinv_idle(3) [OF k idle] allowance_le [of key "ClearTried key t" N g] unfolding kinv_def by (auto simp del: of_nat_sum)

lemma kinv_finished:
  assumes k: "kinv key n N t g (Suc cl)"
  shows "kinv key n N (DecrementInFlight key t) g cl"
proof -
  have "InFlightLocked key (DecrementInFlight key t) = InFlightLocked key t - 1"
    using kinvD(1) [OF k] by (intro InFlight_Decrement) (simp del: of_nat_sum)
  moreover have "allowance key N (DecrementInFlight key t) g = allowance key N t g"
    unfolding allowance_def triedMask_simps faultsOf_simps ..
  ultimately show ?thesis using k by (simp add: kinv_def)
qed

section \<open>Requests in the downloader\<close>

definition nameAt :: "Fleet \<Rightarrow> nat \<Rightarrow> string" where
  "nameAt f i = sc_Name (srv_cfg (fl_servers f ! i))"

definition bufAt :: "Fleet \<Rightarrow> nat \<Rightarrow> articleRequest list" where
  "bufAt f i = (case fl_workCh f (nameAt f i) of None \<Rightarrow> [] | Some ch \<Rightarrow> snd ch)"

text \<open>The article's requests waiting for server \<open>i\<close> or being handled by its workers.\<close>

definition load :: "articleKey \<Rightarrow> Fleet \<Rightarrow> (nat \<times> articleRequest) list \<Rightarrow> nat \<Rightarrow> nat" where
  "load key f taken i =
     length (filter (\<lambda>r. reqKey r = key) (bufAt f i)) + length (filter (\<lambda>ir. fst ir = i \<and> reqKey (snd ir) = key) taken)"

definition closingOf :: "articleKey \<Rightarrow> Downloader \<Rightarrow> nat" where
  "closingOf key d = length (filter (\<lambda>r. reqKey r = key) (dn_closing d))"

abbreviation names :: "Fleet \<Rightarrow> string list" where
  "names f \<equiv> map (\<lambda>s. sc_Name (srv_cfg s)) (fl_servers f)"

abbreviation finv :: "articleKey \<Rightarrow> nat \<Rightarrow> Fleet \<Rightarrow> (nat \<times> articleRequest) list \<Rightarrow> nat \<Rightarrow> bool" where
  "finv key n f taken cl \<equiv> kinv key n (length (fl_servers f)) (fl_tracker f) (load key f taken) cl"

lemma nameAt_eq: "distinct (names f) \<Longrightarrow> i < length (fl_servers f) \<Longrightarrow> k < length (fl_servers f) \<Longrightarrow> nameAt f i = nameAt f k \<longleftrightarrow> i = k"
  using nth_eq_iff_index_eq [of "names f" i k] by (simp add: nameAt_def)

lemma TryList_triedMask: "TryListLocked key t = (triedMask key t, fmlookup (dt_tryList t) key \<noteq> None)"
  by (simp add: triedMask_def TryListLocked_def split: option.split)

lemma triedMask_none: "fmlookup (dt_tryList t) key = None \<Longrightarrow> triedMask key t = emptyMask"
  by (simp add: triedMask_def TryListLocked_def)

lemma picked_new:
  assumes "selectServerForArticle (triedMask key t) (fmlookup (dt_tryList t) key \<noteq> None) opts f = Picked i" and "cfgs_of opts f"
  shows "i < length (fl_servers f)" and "\<not> mask_has (triedMask key t) i"
proof -
  have "length (do_serverCfgs opts) = length (fl_servers f)" using assms(2) by simp
  note p = assms(1) [unfolded select_Picked [OF this]]
  show "i < length (fl_servers f)" using p by blast
  show "\<not> mask_has (triedMask key t) i"
    using p triedMask_none [of t key] by (cases "fmlookup (dt_tryList t) key") (auto simp: eligible_def candidateAt_def isServerCandidate_def sm.has_empty split: if_splits)
qed

text \<open>Offering an article either changes nothing or sends it to one server and records that.\<close>

lemma tryDispatch_cases:
  assumes "tryDispatch c req opts f = (f', h, e, b)" and "cfgs_of opts f"
  obtains "f' = f" "e = None \<or> e = Some req"
  | i buf cap where "e = None" "InFlightLocked (reqKey req) (fl_tracker f) \<le> 0" "i < length (fl_servers f)"
      "\<not> mask_has (triedMask (reqKey req) (fl_tracker f)) i" "fl_workCh f (nameAt f i) = Some (cap, buf)"
      "f' = f\<lparr>fl_workCh := (fl_workCh f)(nameAt f i \<mapsto> (cap, buf @ [req])),
             fl_tracker := IncrementInFlightLocked (reqKey req) (SetTriedLocked (reqKey req) (mask_set i (triedMask (reqKey req) (fl_tracker f))) (fl_tracker f))\<rparr>"
proof -
  define m where "m = triedMask (reqKey req) (fl_tracker f)"
  define hasT where "hasT = (fmlookup (dt_tryList (fl_tracker f)) (reqKey req) \<noteq> None)"
  have tl: "TryListLocked (reqKey req) (fl_tracker f) = (m, hasT)" unfolding m_def hasT_def by (rule TryList_triedMask)
  have "f' = f \<and> (e = None \<or> e = Some req) \<or> (\<exists>i f1. selectServerForArticle m hasT opts f = Picked i \<and> send (nameAt f i) req f = Some f1 \<and> e = None
      \<and> InFlightLocked (reqKey req) (fl_tracker f) \<le> 0
      \<and> f' = f1\<lparr>fl_tracker := IncrementInFlightLocked (reqKey req) (SetTriedLocked (reqKey req) (mask_set i m) (fl_tracker f1))\<rparr>)"
    using assms(1) unfolding tryDispatch_def Let_def tl nameAt_def prod.case
    by (cases "selectServerForArticle m hasT opts f") (auto split: if_splits option.splits)
  then consider "f' = f" "e = None \<or> e = Some req"
    | i f1 where "selectServerForArticle m hasT opts f = Picked i" "send (nameAt f i) req f = Some f1" "e = None" "InFlightLocked (reqKey req) (fl_tracker f) \<le> 0"
      "f' = f1\<lparr>fl_tracker := IncrementInFlightLocked (reqKey req) (SetTriedLocked (reqKey req) (mask_set i m) (fl_tracker f1))\<rparr>"
    by blast
  then show thesis
  proof cases
    case (2 i f1)
    note p = picked_new [OF 2(1) [unfolded m_def hasT_def] assms(2)]
    obtain cap buf where "fl_workCh f (nameAt f i) = Some (cap, buf)" "f1 = f\<lparr>fl_workCh := (fl_workCh f)(nameAt f i \<mapsto> (cap, buf @ [req]))\<rparr>"
      using 2(2) by (auto simp: send_def split: option.splits if_splits)
    then show thesis using that(2) [OF 2(3,4) p] 2(5) by (simp add: m_def)
  qed (use that(1) in blast)
qed

lemma finv_tryDispatch:
  assumes k: "finv key n f taken cl" and td: "tryDispatch c req opts f = (f', h, e, b)" and cfg: "cfgs_of opts f" and dist: "distinct (names f)"
  shows "finv key n f' taken cl"
  using td cfg
proof (cases rule: tryDispatch_cases)
  case (2 i buf cap)
  have srv: "fl_servers f' = fl_servers f" using 2(6) by simp
  have buf: "bufAt f' j = (if j = i then bufAt f j @ [req] else bufAt f j)" if "j < length (fl_servers f)" for j
    using nameAt_eq [OF dist that 2(3)] 2(5) unfolding 2(6) by (simp add: bufAt_def nameAt_def)
  show ?thesis
  proof (cases "reqKey req = key")
    case True
    have "load key f' taken j = ((load key f taken)(i := load key f taken i + 1)) j" if "j < length (fl_servers f)" for j
      using buf [OF that] True by (simp add: load_def)
    moreover have "kinv key n (length (fl_servers f)) (fl_tracker f') ((load key f taken)(i := load key f taken i + 1)) cl"
      using kinv_dispatch [OF k] 2(2,3,4) True unfolding 2(6) by simp
    ultimately show ?thesis unfolding srv by (subst kinv_pointwise [where g = "(load key f taken)(i := load key f taken i + 1)"])
  next
    case False
    have "load key f' taken j = load key f taken j" if "j < length (fl_servers f)" for j using buf [OF that] False by (simp add: load_def)
    then have "finv key n f' taken cl = kinv key n (length (fl_servers f)) (fl_tracker f') (load key f taken) cl"
      unfolding srv by (rule kinv_pointwise)
    also have "\<dots> = finv key n f taken cl"
      by (rule kinv_cong) (use False in \<open>auto simp: 2(6) IncrementInFlightLocked_def SetTriedLocked_def\<close>)
    finally show ?thesis using k by simp
  qed
qed (use k in simp)

section \<open>A pass\<close>

text \<open>An article that is not in flight and has no server left to try, or no try left.\<close>

definition spent :: "dispatchOpts \<Rightarrow> Fleet \<Rightarrow> articleKey \<Rightarrow> bool" where
  "spent opts f key \<longleftrightarrow> InFlightLocked key (fl_tracker f) \<le> 0
     \<and> (case TryListLocked key (fl_tracker f) of (m, hasT) \<Rightarrow>
          do_maxArtTries opts > 0 \<and> hasT \<and> int (mask_count m) \<ge> do_maxArtTries opts
          \<or> (\<forall>i < length (fl_servers f). \<not> candidateAt m hasT opts i))"

lemma spent_tryDispatch:
  assumes "spent opts f (reqKey req)" and "cfgs_of opts f"
  shows "tryDispatch c req opts f = (f, \<not> c, if c then None else Some req, snd (TryListLocked (reqKey req) (fl_tracker f)))"
proof -
  obtain m hasT where tl: "TryListLocked (reqKey req) (fl_tracker f) = (m, hasT)" by (cases "TryListLocked (reqKey req) (fl_tracker f)")
  have "length (do_serverCfgs opts) = length (fl_servers f)" using assms(2) by simp
  note n = select_NoCandidate [OF this, of m hasT]
  show ?thesis using assms(1) n unfolding spent_def tryDispatch_def Let_def tl prod.case snd_conv by (cases c) auto
qed

lemma exhausted_spent:
  assumes "tryDispatch c req opts f = (f', h, Some r, b)" and "cfgs_of opts f"
  shows "r = req" and "spent opts f (reqKey req)"
proof -
  obtain m hasT where tl: "TryListLocked (reqKey req) (fl_tracker f) = (m, hasT)" by (cases "TryListLocked (reqKey req) (fl_tracker f)")
  have "length (do_serverCfgs opts) = length (fl_servers f)" using assms(2) by simp
  note n = select_NoCandidate [OF this, of m hasT]
  show "r = req" and "spent opts f (reqKey req)"
    using assms(1) n unfolding spent_def tryDispatch_def Let_def tl prod.case
    by (auto split: if_splits selection.splits option.splits)
qed

lemma spent_stays:
  assumes s: "spent opts f key" and td: "tryDispatch c req opts f = (f', h, e, b)" and cfg: "cfgs_of opts f"
  shows "spent opts f' key"
proof (cases "reqKey req = key")
  case True
  then show ?thesis using spent_tryDispatch [of opts f req c] s td cfg by simp
next
  case False
  from td cfg show ?thesis
  proof (cases rule: tryDispatch_cases)
    case (2 i buf cap)
    have "InFlightLocked key (fl_tracker f') = InFlightLocked key (fl_tracker f)" "TryListLocked key (fl_tracker f') = TryListLocked key (fl_tracker f)"
      using False unfolding 2(6) by (simp_all add: IncrementInFlightLocked_def SetTriedLocked_def InFlightLocked_def mapGet_def TryListLocked_def)
    then show ?thesis using s 2(6) by (simp add: spent_def)
  qed (use s in simp)
qed

text \<open>What a walk keeps: the article's invariant, and that everything reported exhausted is spent.\<close>

definition walk_ok :: "articleKey \<Rightarrow> nat \<Rightarrow> (nat \<times> articleRequest) list \<Rightarrow> nat \<Rightarrow> dispatchOpts \<Rightarrow> Server list \<Rightarrow> Fleet \<Rightarrow> dispatchPlan \<Rightarrow> bool" where
  "walk_ok key n taken cl opts srvs f plan \<longleftrightarrow>
     finv key n f taken cl \<and> fl_servers f = srvs \<and> (\<forall>r \<in> set (pl_exhausted plan). spent opts f (reqKey r))"

lemma walk_ok_try:
  assumes w: "walk_ok key n taken cl opts srvs f plan" and td: "tryDispatch c req opts f = (f', h, e, b)" and cfg: "do_serverCfgs opts = map srv_cfg srvs"
    and dist: "distinct (map (\<lambda>s. sc_Name (srv_cfg s)) srvs)"
  shows "walk_ok key n taken cl opts srvs f' (noteTried req h e plan)"
proof -
  have c: "cfgs_of opts f" and s: "fl_servers f = srvs" and k: "finv key n f taken cl" and x: "\<And>r. r \<in> set (pl_exhausted plan) \<Longrightarrow> spent opts f (reqKey r)"
    using w cfg unfolding walk_ok_def by auto
  have "spent opts f' (reqKey r)" if "r \<in> set (pl_exhausted (noteTried req h e plan))" for r
  proof (cases "r \<in> set (pl_exhausted plan)")
    case True
    then show ?thesis using spent_stays [OF x td c] by blast
  next
    case False
    then have "e = Some r" using that by (auto simp: noteTried_def split: option.splits)
    then show ?thesis using exhausted_spent [of c req opts f f' h r b] td c spent_stays [OF _ td c] by blast
  qed
  moreover have "finv key n f' taken cl" by (rule finv_tryDispatch [OF k td c]) (use dist s in simp)
  moreover have "fl_servers f' = srvs" using tryDispatch_fleet(1) [OF td] s by simp
  ultimately show ?thesis by (simp add: walk_ok_def)
qed

lemma walk_ok_articles:
  assumes "walk_ok key n taken cl opts srvs f plan" and cfg: "do_serverCfgs opts = map srv_cfg srvs" "distinct (map (\<lambda>s. sc_Name (srv_cfg s)) srvs)"
  shows "walk_ok key n taken cl opts srvs (fst (walkArticles env opts reqs left f plan)) (fst (snd (walkArticles env opts reqs left f plan)))"
  using assms(1)
proof (induction reqs arbitrary: left f plan)
  case (Cons req reqs)
  obtain f' h e b where td: "tryDispatch (pe_cancelled env (pl_scanned plan)) req opts f = (f', h, e, b)"
    by (cases "tryDispatch (pe_cancelled env (pl_scanned plan)) req opts f")
  note w = walk_ok_try [OF Cons.prems td cfg]
  show ?case using w Cons.IH [OF w] by (simp add: td Let_def)
qed simp

lemma walk_ok_rows:
  assumes "walk_ok key n taken cl opts srvs f plan" and cfg: "do_serverCfgs opts = map srv_cfg srvs" "distinct (map (\<lambda>s. sc_Name (srv_cfg s)) srvs)"
  shows "walk_ok key n taken cl opts srvs (fst (walkRows env opts tried rows f plan)) (snd (walkRows env opts tried rows f plan))"
  using assms(1)
proof (induction rows arbitrary: f plan)
  case (Cons row rows)
  have h: "walk_ok key n taken cl opts srvs f (plan\<lparr>pl_hopelessJobs := x\<rparr>)" for x
    using Cons.prems unfolding walk_ok_def spent_def by auto
  obtain f1 plan1 stop where w: "walkArticles env opts (rowRequests row) (int (tried (the (rw_inst row)))) f plan = (f1, plan1, stop)"
    by (cases "walkArticles env opts (rowRequests row) (int (tried (the (rw_inst row)))) f plan")
  have a: "walk_ok key n taken cl opts srvs f1 plan1"
    using walk_ok_articles [OF Cons.prems cfg, of env "rowRequests row" "int (tried (the (rw_inst row)))"] w by simp
  show ?case using Cons.IH [OF Cons.prems] Cons.IH [OF h] Cons.IH [OF a] a w by (simp add: Let_def)
qed simp

lemma walk_ok_pass:
  assumes "finv key n f taken cl" and "do_serverCfgs opts = map srv_cfg (fl_servers f)" and "distinct (names f)"
  shows "walk_ok key n taken cl opts (fl_servers f) (fst (buildDispatchPlan env opts rows f)) (snd (buildDispatchPlan env opts rows f))"
proof -
  have "walk_ok key n taken cl opts (fl_servers f) f emptyPlan" using assms by (simp add: walk_ok_def emptyPlan_def)
  then show ?thesis using walk_ok_rows assms(2,3) by (simp add: buildDispatchPlan_def)
qed

lemma buildDispatchPlan_servers: "fl_servers (fst (buildDispatchPlan env opts rows f)) = fl_servers f"
proof -
  have a: "fl_servers (fst (walkArticles env opts reqs left f plan)) = fl_servers f" for reqs left f plan
  proof (induction reqs arbitrary: left f plan)
    case (Cons req reqs)
    obtain f' h e b where td: "tryDispatch (pe_cancelled env (pl_scanned plan)) req opts f = (f', h, e, b)"
      by (cases "tryDispatch (pe_cancelled env (pl_scanned plan)) req opts f")
    then show ?case using Cons.IH tryDispatch_fleet(1) [OF td] by (simp add: Let_def)
  qed simp
  have "fl_servers (fst (walkRows env opts tried rows f plan)) = fl_servers f" for tried f plan
  proof (induction rows arbitrary: f plan)
    case (Cons row rows)
    obtain f1 plan1 stop where w: "walkArticles env opts (rowRequests row) (int (tried (the (rw_inst row)))) f plan = (f1, plan1, stop)"
      by (cases "walkArticles env opts (rowRequests row) (int (tried (the (rw_inst row)))) f plan")
    then show ?case using Cons.IH a [of "rowRequests row" "int (tried (the (rw_inst row)))" f plan] by (simp add: Let_def)
  qed simp
  then show ?thesis by (simp add: buildDispatchPlan_def)
qed

text \<open>Giving up the exhausted articles clears their entries and touches no channel.\<close>

lemma applyExhausted_fleet:
  "dn_fleet (applyExhausted sent reqs d) = (dn_fleet d)\<lparr>fl_tracker := foldl (\<lambda>t r. ClearTried (reqKey r) t) (fl_tracker (dn_fleet d)) reqs\<rparr>
   \<and> dn_taken (applyExhausted sent reqs d) = dn_taken d \<and> dn_closing (applyExhausted sent reqs d) = dn_closing d"
  by (induction reqs arbitrary: d)
    (simp_all add: applyExhausted_def emitResult_def clearTried_def onTracker_def markEmittedReq_def clearEmittedReq_def)

lemma kinv_exhausted:
  assumes "kinv key n N t g cl" and "\<And>r. r \<in> set reqs \<Longrightarrow> InFlightLocked (reqKey r) t \<le> 0"
  shows "kinv key (if key \<in> reqKey ` set reqs then 0 else n) N (foldl (\<lambda>t r. ClearTried (reqKey r) t) t reqs) g cl"
  using assms
proof (induction reqs arbitrary: t n)
  case (Cons r reqs)
  have fl: "InFlightLocked (reqKey q) (ClearTried (reqKey r) t) \<le> 0" if "q \<in> set reqs" for q using Cons.prems(2) that by simp
  show ?case
  proof (cases "reqKey r = key")
    case True
    have "kinv key 0 N (ClearTried key t) g cl" by (rule kinv_cleared [OF Cons.prems(1)]) (use Cons.prems(2) [of r] True in simp)
    then show ?thesis using Cons.IH [of 0 "ClearTried (reqKey r) t"] fl True by simp
  next
    case False
    have "kinv key n N (ClearTried (reqKey r) t) g cl = kinv key n N t g cl"
      by (rule kinv_cong) (use False in \<open>auto simp: ClearTried_def\<close>)
    then show ?thesis using Cons.IH [of n "ClearTried (reqKey r) t"] Cons.prems(1) fl False by auto
  qed
qed simp

section \<open>Handling a request\<close>

text \<open>Whether handling the request reached its fetch.\<close>

definition fetched :: "FetchEnv \<Rightarrow> bool" where
  "fetched env \<longleftrightarrow> fe_held env \<and> fe_registered env \<and> fe_Intent env = IntentRun \<and> \<not> fe_handedOff env \<and> \<not> fe_paused env \<and> fe_conn env = None"

text \<open>A failure that counts against the article: a 430, a checksum mismatch, or a connection fault that is not a shutdown.\<close>

definition charged :: "FetchEnv \<Rightarrow> articleRequest \<Rightarrow> bool" where
  "charged env req \<longleftrightarrow> fetched env \<and>
     (case fe_fetch env of
        Inl err \<Rightarrow> \<not> goerr_Is err ErrIdleClosed \<and> (goerr_Is err ErrNoArticle \<or> \<not> fe_cancelled env \<and> isConnFault err)
      | Inr body \<Rightarrow> decodePayload body (rq_partNumber req) = Inl (YencError ErrCRCMismatch))"

text \<open>A fetch that settles the article: decoded, or undecodable for a reason other than its checksum.\<close>

definition settles :: "FetchEnv \<Rightarrow> articleRequest \<Rightarrow> bool" where
  "settles env req \<longleftrightarrow> fetched env \<and>
     (case fe_fetch env of Inl err \<Rightarrow> False | Inr body \<Rightarrow> decodePayload body (rq_partNumber req) \<noteq> Inl (YencError ErrCRCMismatch))"

text \<open>Same configurations, channels and requests: what handling leaves alone.\<close>

definition same_load :: "Downloader \<Rightarrow> Downloader \<Rightarrow> bool" where
  "same_load d d' \<longleftrightarrow> map srv_cfg (fl_servers (dn_fleet d')) = map srv_cfg (fl_servers (dn_fleet d))
     \<and> fl_workCh (dn_fleet d') = fl_workCh (dn_fleet d) \<and> dn_taken d' = dn_taken d \<and> dn_closing d' = dn_closing d"

lemma same_load_trans: "same_load a b \<Longrightarrow> same_load b c \<Longrightarrow> same_load a c"
  by (simp add: same_load_def)

abbreviation tracker_of :: "Downloader \<Rightarrow> dispatchTracker" where
  "tracker_of d \<equiv> fl_tracker (dn_fleet d)"

lemma onServer_same:
  assumes "srv_cfg (f (fl_servers (dn_fleet d) ! i)) = srv_cfg (fl_servers (dn_fleet d) ! i)"
  shows "same_load d (onServer i f d)" "tracker_of (onServer i f d) = tracker_of d"
proof -
  have "map srv_cfg ((fl_servers (dn_fleet d))[i := f (fl_servers (dn_fleet d) ! i)]) = map srv_cfg (fl_servers (dn_fleet d))"
    using assms by (cases "i < length (fl_servers (dn_fleet d))") (simp_all add: map_update list_update_same_conv list_update_beyond)
  then show "same_load d (onServer i f d)" "tracker_of (onServer i f d) = tracker_of d" by (simp_all add: same_load_def onServer_def)
qed

lemma record_cfg [simp]:
  "srv_cfg (RecordBadConnection s) = srv_cfg s" "srv_cfg (RecordGoodConnection s) = srv_cfg s" "srv_cfg (ApplyPenalty now p s) = srv_cfg s"
  "srv_cfg (snd (RecordConnFault s)) = srv_cfg s" "srv_cfg (ClearDeactivation s) = srv_cfg s"
  by (simp_all add: RecordBadConnection_def RecordGoodConnection_def ApplyPenalty_def RecordConnFault_def ClearDeactivation_def Let_def)

lemma emitted_same [simp]:
  "same_load a (markEmittedReq req d) = same_load a d" "tracker_of (markEmittedReq req d) = tracker_of d"
  "same_load a (clearEmittedReq req d) = same_load a d" "tracker_of (clearEmittedReq req d) = tracker_of d"
  "same_load a (emitResult sent req name p e d) = same_load a d" "tracker_of (emitResult sent req name p e d) = tracker_of d"
  "same_load a (onTracker f d) = same_load a d" "tracker_of (onTracker f d) = f (tracker_of d)" "same_load d d"
  by (simp_all add: same_load_def markEmittedReq_def clearEmittedReq_def emitResult_def onTracker_def)

lemma chargePenalty_same: "same_load d (chargePenalty now i pen d) \<and> tracker_of (chargePenalty now i pen d) = tracker_of d"
  using onServer_same [of "ApplyPenalty now (clampPenalty d pen)" d i] by (simp add: chargePenalty_def Let_def same_load_def)

lemma chargeFetchFailure_same: "same_load d (chargeFetchFailure now i err d) \<and> tracker_of (chargeFetchFailure now i err d) = tracker_of d"
proof (cases "isConnFault err")
  case True
  obtain p s where r: "RecordConnFault (fl_servers (dn_fleet d) ! i) = (p, s)" by (cases "RecordConnFault (fl_servers (dn_fleet d) ! i)")
  then have "srv_cfg s = srv_cfg (fl_servers (dn_fleet d) ! i)" using record_cfg(4) by (metis snd_conv)
  then have "same_load d (onServer i (\<lambda>_. s) d)" "tracker_of (onServer i (\<lambda>_. s) d) = tracker_of d" by (simp_all add: onServer_same)
  then show ?thesis using True r chargePenalty_same [of "onServer i (\<lambda>_. s) d" now i PenaltyTimeout]
    by (auto simp: chargeFetchFailure_def intro: same_load_trans split: bool.split)
next
  case False
  have "same_load d (onServer i RecordBadConnection d)" "tracker_of (onServer i RecordBadConnection d) = tracker_of d" by (simp_all add: onServer_same)
  then show ?thesis using False chargePenalty_same [of "onServer i RecordBadConnection d" now i "PenaltyFor err"]
    by (auto simp: chargeFetchFailure_def intro: same_load_trans)
qed

lemma good_same: "same_load d (onServer i RecordGoodConnection d) \<and> tracker_of (onServer i RecordGoodConnection d) = tracker_of d"
  by (simp add: onServer_same)

definition handled_as :: "FetchEnv \<Rightarrow> nat \<Rightarrow> articleRequest \<Rightarrow> Downloader \<Rightarrow> Downloader \<Rightarrow> bool" where
  "handled_as env i req d d' \<longleftrightarrow> same_load d d' \<and>
     (if charged env req then tracker_of d' = tracker_of d \<or> tracker_of d' = snd (UnmarkTriedAfterFault (reqKey req) i (tracker_of d))
      else if settles env req then tracker_of d' = ClearTried (reqKey req) (tracker_of d)
      else tracker_of d' = UnmarkTried (reqKey req) i (tracker_of d))"

lemma fetchArticle_stopped:
  assumes "fetchArticle env i req d = (d', None)" and "fe_held env"
  shows "handled_as env i req d d'"
proof (cases "fetched env")
  case False
  then have "\<not> charged env req" "\<not> settles env req" by (auto simp: charged_def settles_def)
  moreover have "same_load d d' \<and> tracker_of d' = UnmarkTried (reqKey req) i (tracker_of d)"
  proof (cases "\<not> fe_registered env \<or> fe_Intent env \<noteq> IntentRun \<or> fe_handedOff env \<or> fe_paused env")
    case True
    then have "d' = clearEmittedReq req (unmarkTried req i d)" using assms(1) by (auto simp: fetchArticle_def Let_def split: if_splits)
    then show ?thesis by (simp add: unmarkTried_def)
  next
    case gates: False
    then obtain err where e: "fe_conn env = Some err" using False assms(2) by (cases "fe_conn env") (auto simp: fetched_def)
    then have "d' = unmarkTried req i d \<or> d' = chargePenalty (fe_now env) i (PenaltyFor err) (onServer i RecordBadConnection (unmarkTried req i d))"
      using assms(1) gates by (auto simp: fetchArticle_def Let_def split: if_splits)
    then show ?thesis
    proof
      assume "d' = unmarkTried req i d"
      then show ?thesis by (simp add: unmarkTried_def)
    next
      assume d': "d' = chargePenalty (fe_now env) i (PenaltyFor err) (onServer i RecordBadConnection (unmarkTried req i d))"
      have u: "same_load d (unmarkTried req i d)" "tracker_of (unmarkTried req i d) = UnmarkTried (reqKey req) i (tracker_of d)" by (simp_all add: unmarkTried_def)
      have b: "same_load (unmarkTried req i d) (onServer i RecordBadConnection (unmarkTried req i d))"
        "tracker_of (onServer i RecordBadConnection (unmarkTried req i d)) = tracker_of (unmarkTried req i d)" by (simp_all add: onServer_same)
      show ?thesis using chargePenalty_same [of "onServer i RecordBadConnection (unmarkTried req i d)" "fe_now env" i "PenaltyFor err"]
        same_load_trans [OF u(1) b(1)] u b unfolding d' by (auto intro: same_load_trans)
    qed
  qed
  ultimately show ?thesis by (simp add: handled_as_def)
next
  case True
  then have gates: "fe_registered env" "fe_Intent env = IntentRun" "\<not> fe_handedOff env" "\<not> fe_paused env" "fe_conn env = None" by (simp_all add: fetched_def)
  then obtain err where e: "fe_fetch env = Inl err" using assms(1) by (cases "fe_fetch env") (auto simp: fetchArticle_def Let_def)
  have ns: "\<not> settles env req" by (simp add: settles_def e)
  have ch: "charged env req \<longleftrightarrow> \<not> goerr_Is err ErrIdleClosed \<and> (goerr_Is err ErrNoArticle \<or> \<not> fe_cancelled env \<and> isConnFault err)"
    using True by (simp add: charged_def e)
  define d1 where "d1 = (if \<not> fe_cancelled env \<and> fe_dropped env then chargeFetchFailure (fe_now env) i err d else d)"
  have d1: "same_load d d1" "tracker_of d1 = tracker_of d"
    using chargeFetchFailure_same [of d "fe_now env" i err] by (auto simp: d1_def same_load_def)
  consider "goerr_Is err ErrIdleClosed" "d' = unmarkTried req i d"
    | name where "\<not> goerr_Is err ErrIdleClosed" "goerr_Is err ErrNoArticle"
        "d' = emitResult (fe_sent env) req name None (Some (FetchError err)) (onServer i RecordGoodConnection d)"
    | "\<not> goerr_Is err ErrIdleClosed" "\<not> goerr_Is err ErrNoArticle" "\<not> fe_cancelled env \<and> isConnFault err"
        "d' = onTracker (\<lambda>t. snd (UnmarkTriedAfterFault (reqKey req) i t)) d1"
    | "\<not> goerr_Is err ErrIdleClosed" "\<not> goerr_Is err ErrNoArticle" "\<not> (\<not> fe_cancelled env \<and> isConnFault err)" "d' = unmarkTried req i d1"
    using assms(1) gates e unfolding fetchArticle_def Let_def by (auto simp: d1_def split: if_splits)
  then show ?thesis
  proof cases
    case 1
    then show ?thesis using ch ns by (simp add: handled_as_def unmarkTried_def)
  next
    case (2 name)
    then show ?thesis using ch good_same [of d i] unfolding 2(3) handled_as_def by simp
  next
    case 3
    then show ?thesis using ch d1 unfolding 3(4) handled_as_def by simp
  next
    case 4
    then have "\<not> charged env req" using ch by blast
    then show ?thesis using ns d1 unfolding 4(4) handled_as_def unmarkTried_def by simp
  qed
qed

lemma handleRequest_as: "handled_as env i req d (handleRequest env i req d)"
proof (cases "fe_held env")
  case False
  then have "\<not> charged env req" "\<not> settles env req" by (simp_all add: charged_def settles_def fetched_def)
  then show ?thesis using False by (simp add: handleRequest_def handled_as_def unmarkTried_def)
next
  case held: True
  obtain d1 b where f: "fetchArticle env i req d = (d1, b)" by (cases "fetchArticle env i req d")
  show ?thesis
  proof (cases b)
    case None
    then show ?thesis using fetchArticle_stopped [of env i req d d1] held f by (simp add: handleRequest_def)
  next
    case (Some body)
    then have g: "fe_registered env" "fe_Intent env = IntentRun" "\<not> fe_handedOff env" "\<not> fe_paused env" "fe_conn env = None" "fe_fetch env = Inr body"
        and d1: "d1 = onServer i RecordGoodConnection d"
      using f by (auto simp: fetchArticle_def Let_def split: if_splits option.splits sum.splits)
    have fe: "fetched env" using g held by (simp add: fetched_def)
    have h: "handleRequest env i req d = processFetchedArticle env i req body d1" using held f Some by (simp add: handleRequest_def)
    note same = good_same [of d i, folded d1]
    show ?thesis
    proof (cases "decodePayload body (rq_partNumber req) = Inl (YencError ErrCRCMismatch)")
      case True
      have "same_load d1 (processFetchedArticle env i req body d1) \<and> tracker_of (processFetchedArticle env i req body d1) = tracker_of d1"
        using good_same [of d1 i] unfolding processFetchedArticle_def Let_def True by simp
      moreover have "charged env req" using fe g True by (simp add: charged_def)
      ultimately show ?thesis using same same_load_trans unfolding h handled_as_def by metis
    next
      case False
      have "same_load d1 (clearTried req (markEmittedReq req d1)) \<and> tracker_of (clearTried req (markEmittedReq req d1)) = ClearTried (reqKey req) (tracker_of d1)"
        unfolding clearTried_def by simp
      then have "same_load d1 (processFetchedArticle env i req body d1) \<and> tracker_of (processFetchedArticle env i req body d1) = ClearTried (reqKey req) (tracker_of d1)"
        using False unfolding processFetchedArticle_def Let_def by (auto split: sum.split)
      moreover have "\<not> charged env req" "settles env req" using fe g False by (simp_all add: charged_def settles_def)
      ultimately show ?thesis using same same_load_trans unfolding h handled_as_def by metis
    qed
  qed
qed

section \<open>Runs\<close>

text \<open>
  The steps, in any order: a pass; a worker receiving; a request handled; its in-flight count
  released; a job's entries reaped; penalties expiring or lifted; other parties changing the jobs'
  content or taking results.
\<close>

datatype dlLabel = LPass "articleRequest list" | LHandle FetchEnv articleRequest | LReap "nat \<Rightarrow> bool" | LOther

definition passExhausted :: "bool \<Rightarrow> PassEnv \<Rightarrow> dispatchOpts \<Rightarrow> Row list \<Rightarrow> Downloader \<Rightarrow> articleRequest list" where
  "passExhausted paused env opts rows d =
     (if paused \<or> pe_cancelled env 0 then []
      else pl_exhausted (snd (buildDispatchPlan env (opts\<lparr>do_serverCfgs := map srv_cfg (fl_servers (dn_fleet d))\<rparr>) rows (dn_fleet d))))"

inductive dl_step :: "Downloader \<Rightarrow> dlLabel \<Rightarrow> Downloader \<Rightarrow> bool" where
  pass: "dl_step d (LPass (passExhausted paused env opts rows d)) (fst (dispatchPass sent paused connected env opts rows d))"
| receive: "i < length (fl_servers (dn_fleet d)) \<Longrightarrow> takeRequest i d = Some d' \<Longrightarrow> dl_step d LOther d'"
| handle: "(i, req) \<in> set (dn_taken d) \<Longrightarrow>
    dl_step d (LHandle env req) ((handleRequest env i req d)\<lparr>dn_taken := remove1 (i, req) (dn_taken d), dn_closing := dn_closing d @ [req]\<rparr>)"
| finish: "req \<in> set (dn_closing d) \<Longrightarrow> dl_step d LOther ((clearInFlight req d)\<lparr>dn_closing := remove1 req (dn_closing d)\<rparr>)"
| reap: "dl_step d (LReap (staleInstances aborted registered (tracker_of d))) (reapTracker aborted registered d)"
| expire: "dl_step d LOther (checkExpiredPenalties now d)"
| unblock: "dl_step d LOther (fst (UnblockServer name d))"
| content: "dl_step d LOther (d\<lparr>dn_content := c\<rparr>)"
| drain: "dl_step d LOther (d\<lparr>dn_completions := rs\<rparr>)"

text \<open>
  A run of the downloader seen from one article: its counted failures since it was last settled or
  given up, and the instances reaped so far.
\<close>

definition tally :: "articleKey \<Rightarrow> dlLabel \<Rightarrow> nat \<Rightarrow> nat" where
  "tally key l n =
     (case l of
        LPass ex \<Rightarrow> if key \<in> reqKey ` set ex then 0 else n
      | LHandle env req \<Rightarrow> if reqKey req \<noteq> key then n else if charged env req then n + 1 else if settles env req then 0 else n
      | _ \<Rightarrow> n)"

definition reaped :: "dlLabel \<Rightarrow> nat set" where
  "reaped l = (case l of LReap stale \<Rightarrow> {i. stale i} | _ \<Rightarrow> {})"

inductive dl_run :: "articleKey \<Rightarrow> nat \<Rightarrow> nat set \<Rightarrow> Downloader \<Rightarrow> bool" where
  start: "distinct (map (sc_Name \<circ> fst) cfgs) \<Longrightarrow> dl_run key 0 {} (newDownloader cfgs q noPen maxPen c)"
| step: "dl_run key n gone d \<Longrightarrow> dl_step d l d' \<Longrightarrow> dl_run key (tally key l n) (gone \<union> reaped l) d'"

definition run_ok :: "articleKey \<Rightarrow> nat \<Rightarrow> nat set \<Rightarrow> Downloader \<Rightarrow> bool" where
  "run_ok key n gone d \<longleftrightarrow> distinct (names (dn_fleet d)) \<and> (\<forall>ir \<in> set (dn_taken d). fst ir < length (fl_servers (dn_fleet d)))
     \<and> (ak_inst key \<notin> gone \<longrightarrow> finv key n (dn_fleet d) (dn_taken d) (closingOf key d))"

lemma load_same:
  assumes "map srv_cfg (fl_servers f') = map srv_cfg (fl_servers f)" "fl_workCh f' = fl_workCh f"
  shows "length (fl_servers f') = length (fl_servers f)" "names f' = names f"
    "i < length (fl_servers f) \<Longrightarrow> load key f' taken i = load key f taken i"
proof -
  show len: "length (fl_servers f') = length (fl_servers f)" using assms(1) by (metis length_map)
  show "names f' = names f" using arg_cong [OF assms(1), of "map sc_Name"] by (simp add: comp_def)
  show "i < length (fl_servers f) \<Longrightarrow> load key f' taken i = load key f taken i"
  proof -
    assume "i < length (fl_servers f)"
    then have "srv_cfg (fl_servers f' ! i) = srv_cfg (fl_servers f ! i)" using assms(1) len by (metis nth_map)
    then show ?thesis using assms(2) by (simp add: load_def bufAt_def nameAt_def)
  qed
qed

text \<open>A step that keeps the load and the article's entries keeps its invariant.\<close>

lemma run_ok_same:
  assumes "run_ok key n gone d" and "same_load d d'" and "\<And>k. k = key \<Longrightarrow> tracker_of d' = tracker_of d"
  shows "run_ok key n gone d'"
proof -
  note s = assms(2) [unfolded same_load_def]
  note l = load_same [OF conjunct1 [OF s] conjunct1 [OF conjunct2 [OF s]]]
  have "finv key n (dn_fleet d') (dn_taken d') (closingOf key d') = finv key n (dn_fleet d) (dn_taken d) (closingOf key d)"
    using s assms(3) l(3) by (auto simp: l(1) closingOf_def intro!: kinv_pointwise)
  then show ?thesis using assms(1) l(1,2) s by (simp add: run_ok_def)
qed

lemma length_filter_remove1:
  "x \<in> set xs \<Longrightarrow> length (filter P xs) = (if P x then Suc (length (filter P (remove1 x xs))) else length (filter P (remove1 x xs)))"
  by (induction xs) auto

lemma load_handled:
  assumes "(i, req) \<in> set taken"
  shows "load key f taken = (if reqKey req = key then (load key f (remove1 (i, req) taken))(i := load key f (remove1 (i, req) taken) i + 1)
      else load key f (remove1 (i, req) taken))"
  using length_filter_remove1 [OF assms, of "\<lambda>ir. fst ir = k \<and> reqKey (snd ir) = key" for k] by (auto simp: load_def fun_eq_iff)

lemma run_ok_handle:
  assumes r: "run_ok key n gone d" and m: "(i, req) \<in> set (dn_taken d)"
    and d'_def: "d' = (handleRequest env i req d)\<lparr>dn_taken := remove1 (i, req) (dn_taken d), dn_closing := dn_closing d @ [req]\<rparr>"
  shows "run_ok key (tally key (LHandle env req) n) gone d'"
proof -
  let ?N = "length (fl_servers (dn_fleet d))" and ?t = "tracker_of d'" and ?g = "load key (dn_fleet d) (dn_taken d)" and ?cl = "closingOf key d"
  note h = handleRequest_as [of env i req d, unfolded handled_as_def same_load_def]
  have cf: "map srv_cfg (fl_servers (dn_fleet d')) = map srv_cfg (fl_servers (dn_fleet d))" "fl_workCh (dn_fleet d') = fl_workCh (dn_fleet d)"
    using h by (simp_all add: d'_def)
  note l = load_same [OF cf]
  have i: "i < ?N" using r m by (auto simp: run_ok_def)
  have t: "?t = tracker_of (handleRequest env i req d)" by (simp add: d'_def)
  have "finv key (tally key (LHandle env req) n) (dn_fleet d') (dn_taken d') (closingOf key d')" if new: "ak_inst key \<notin> gone"
  proof -
    have k: "kinv key n ?N (tracker_of d) ?g ?cl" using r new by (simp add: run_ok_def)
    have "kinv key (tally key (LHandle env req) n) ?N ?t (load key (dn_fleet d) (dn_taken d')) (closingOf key d')"
    proof (cases "reqKey req = key")
      case True
      then have busy: "?g i > 0" and g: "load key (dn_fleet d) (dn_taken d') = ?g(i := ?g i - 1)"
        using load_handled [OF m, of key "dn_fleet d"] by (auto simp: d'_def)
      have c: "closingOf key d' = ?cl + 1" using True by (simp add: closingOf_def d'_def)
      show ?thesis
        using h True kinv_refused [OF k i busy] kinv_faulted [OF k i busy] kinv_settled [OF k i busy] kinv_unmark [OF k i busy]
        unfolding g c t tally_def by (auto split: if_splits)
    next
      case False
      then have g: "load key (dn_fleet d) (dn_taken d') = ?g" using load_handled [OF m, of key "dn_fleet d"] by (simp add: d'_def)
      have c: "closingOf key d' = ?cl" using False by (simp add: closingOf_def d'_def)
      have "fmlookup (dt_tryList ?t) key = fmlookup (dt_tryList (tracker_of d)) key \<and> fmlookup (dt_inFlight ?t) key = fmlookup (dt_inFlight (tracker_of d)) key
          \<and> fmlookup (dt_faults ?t) key = fmlookup (dt_faults (tracker_of d)) key"
        using h False unfolding t
        by (auto simp: ClearTried_def UnmarkTried_def UnmarkTriedAfterFault_def Let_def split: if_splits option.splits)
      then show ?thesis using k False kinv_cong [of ?t key "tracker_of d" n ?N ?g ?cl] unfolding g c by (simp add: tally_def)
    qed
    then show ?thesis
      unfolding l(1) using kinv_pointwise [of ?N "load key (dn_fleet d') (dn_taken d')" "load key (dn_fleet d) (dn_taken d')"] l(3) by simp
  qed
  moreover have "\<forall>ir \<in> set (dn_taken d'). fst ir < length (fl_servers (dn_fleet d'))"
  proof -
    have "set (dn_taken d') \<subseteq> set (dn_taken d)" by (simp add: d'_def set_remove1_subset)
    then show ?thesis using r unfolding l(1) run_ok_def by blast
  qed
  ultimately show ?thesis using r l(2) by (simp add: run_ok_def)
qed

lemma run_ok_pass:
  assumes r: "run_ok key n gone d"
  shows "run_ok key (tally key (LPass (passExhausted paused env opts rows d)) n) gone (fst (dispatchPass sent paused connected env opts rows d))"
proof (cases "paused \<or> pe_cancelled env 0")
  case True
  then show ?thesis using r by (simp add: dispatchPass_def passExhausted_def tally_def)
next
  case False
  define o1 where "o1 = opts\<lparr>do_serverCfgs := map srv_cfg (fl_servers (dn_fleet d))\<rparr>"
  obtain f plan where b: "buildDispatchPlan env o1 rows (dn_fleet d) = (f, plan)" by (cases "buildDispatchPlan env o1 rows (dn_fleet d)")
  define d' where "d' = applyExhausted sent (pl_exhausted plan) (d\<lparr>dn_fleet := f\<rparr>)"
  have e: "passExhausted paused env opts rows d = pl_exhausted plan" using False b by (simp add: passExhausted_def o1_def)
  have p: "fst (dispatchPass sent paused connected env opts rows d) = d'"
    using False b unfolding dispatchPass_def o1_def by (simp add: applyDispatchPlan_def d'_def Let_def)
  have dist: "distinct (names (dn_fleet d))" using r by (simp add: run_ok_def)
  note a = applyExhausted_fleet [of sent "pl_exhausted plan" "d\<lparr>dn_fleet := f\<rparr>", folded d'_def]
  have w: "finv key n (dn_fleet d) (dn_taken d) (closingOf key d) \<Longrightarrow>
      walk_ok key n (dn_taken d) (closingOf key d) o1 (fl_servers (dn_fleet d)) f plan"
    using walk_ok_pass [of key n "dn_fleet d" "dn_taken d" "closingOf key d" o1 env rows] b dist by (simp add: o1_def)
  have srv: "fl_servers f = fl_servers (dn_fleet d)"
    using buildDispatchPlan_servers [of env o1 rows "dn_fleet d"] b by simp
  have "finv key (tally key (LPass (pl_exhausted plan)) n) (dn_fleet d') (dn_taken d') (closingOf key d')" if "ak_inst key \<notin> gone"
  proof -
    have ok: "walk_ok key n (dn_taken d) (closingOf key d) o1 (fl_servers (dn_fleet d)) f plan" using w r that by (simp add: run_ok_def)
    then have k: "kinv key n (length (fl_servers f)) (fl_tracker f) (load key f (dn_taken d)) (closingOf key d)"
      and "\<And>r. r \<in> set (pl_exhausted plan) \<Longrightarrow> InFlightLocked (reqKey r) (fl_tracker f) \<le> 0"
      unfolding walk_ok_def spent_def by blast+
    note x = kinv_exhausted [OF this]
    have "load key (dn_fleet d') (dn_taken d') = load key f (dn_taken d)" using a by (simp add: load_def bufAt_def nameAt_def fun_eq_iff)
    moreover have "closingOf key d' = closingOf key d" using a by (simp add: closingOf_def)
    ultimately show ?thesis using x a by (simp add: tally_def)
  qed
  then show ?thesis unfolding e p using r a srv by (simp add: run_ok_def)
qed

lemma run_ok_receive:
  assumes r: "run_ok key n gone d" and i: "i < length (fl_servers (dn_fleet d))" and t: "takeRequest i d = Some d'"
  shows "run_ok key n gone d'"
proof -
  let ?f = "dn_fleet d"
  obtain cap req buf where ch: "fl_workCh ?f (nameAt ?f i) = Some (cap, req # buf)"
    and d': "d' = d\<lparr>dn_fleet := ?f\<lparr>fl_workCh := (fl_workCh ?f)(nameAt ?f i \<mapsto> (cap, buf))\<rparr>, dn_taken := dn_taken d @ [(i, req)]\<rparr>"
    using t by (auto simp: takeRequest_def nameAt_def Let_def split: option.splits list.splits)
  have srv: "fl_servers (dn_fleet d') = fl_servers ?f" by (simp add: d')
  have dist: "distinct (names ?f)" using r by (simp add: run_ok_def)
  have "load key (dn_fleet d') (dn_taken d') j = load key ?f (dn_taken d) j" if "j < length (fl_servers ?f)" for j
  proof -
    have "bufAt (dn_fleet d') j = (if j = i then buf else bufAt ?f j)" using nameAt_eq [OF dist that i] by (simp add: bufAt_def nameAt_def d')
    moreover have "bufAt ?f i = req # buf" using ch by (simp add: bufAt_def)
    ultimately show ?thesis by (auto simp: load_def d')
  qed
  then have "finv key n (dn_fleet d') (dn_taken d') (closingOf key d') = finv key n ?f (dn_taken d) (closingOf key d)"
    unfolding srv by (subst kinv_pointwise [where g = "load key ?f (dn_taken d)"]) (simp_all add: d' closingOf_def)
  then show ?thesis using r i srv by (auto simp: run_ok_def d')
qed

lemma run_ok_finish:
  assumes r: "run_ok key n gone d" and m: "req \<in> set (dn_closing d)"
  shows "run_ok key n gone ((clearInFlight req d)\<lparr>dn_closing := remove1 req (dn_closing d)\<rparr>)" (is "run_ok _ _ _ ?d")
proof -
  have g: "load key (dn_fleet ?d) (dn_taken ?d) = load key (dn_fleet d) (dn_taken d)" "fl_servers (dn_fleet ?d) = fl_servers (dn_fleet d)"
    by (simp_all add: clearInFlight_def onTracker_def load_def bufAt_def nameAt_def fun_eq_iff)
  have t: "tracker_of ?d = DecrementInFlight (reqKey req) (tracker_of d)" by (simp add: clearInFlight_def onTracker_def)
  have cl: "closingOf key d = (if reqKey req = key then Suc (closingOf key ?d) else closingOf key ?d)"
    using length_filter_remove1 [OF m, of "\<lambda>r. reqKey r = key"] by (simp add: closingOf_def)
  have "finv key n (dn_fleet ?d) (dn_taken ?d) (closingOf key ?d)" if "finv key n (dn_fleet d) (dn_taken d) (closingOf key d)"
  proof (cases "reqKey req = key")
    case True
    then show ?thesis using kinv_finished that cl unfolding g t by simp
  next
    case False
    have "kinv key n (length (fl_servers (dn_fleet d))) (tracker_of ?d) (load key (dn_fleet d) (dn_taken d)) (closingOf key ?d)
        = finv key n (dn_fleet d) (dn_taken d) (closingOf key ?d)"
      by (rule kinv_cong) (use False in \<open>auto simp: clearInFlight_def onTracker_def DecrementInFlight_def\<close>)
    then show ?thesis using that cl False unfolding g by simp
  qed
  then show ?thesis using r g(2) by (simp add: run_ok_def clearInFlight_def onTracker_def)
qed

lemma run_ok_reap:
  assumes r: "run_ok key n gone d"
  shows "run_ok key n (gone \<union> {i. staleInstances aborted registered (tracker_of d) i}) (reapTracker aborted registered d)" (is "run_ok _ _ (gone \<union> ?S) ?d")
proof -
  have g: "\<And>tk. load key (dn_fleet ?d) tk = load key (dn_fleet d) tk" "fl_servers (dn_fleet ?d) = fl_servers (dn_fleet d)"
    "closingOf key ?d = closingOf key d" "dn_taken ?d = dn_taken d"
    by (simp_all add: reapTracker_def onTracker_def load_def bufAt_def nameAt_def closingOf_def fun_eq_iff)
  have t: "tracker_of ?d = DropInstances (staleInstances aborted registered (tracker_of d)) (tracker_of d)" by (simp add: reapTracker_def)
  have "finv key n (dn_fleet ?d) (dn_taken ?d) (closingOf key ?d)" if "ak_inst key \<notin> gone \<union> ?S"
  proof -
    have "kinv key n (length (fl_servers (dn_fleet d))) (tracker_of ?d) (load key (dn_fleet d) (dn_taken d)) (closingOf key d)
        = finv key n (dn_fleet d) (dn_taken d) (closingOf key d)"
      by (rule kinv_cong) (use that in \<open>auto simp: t DropInstances_def\<close>)
    then show ?thesis using r that unfolding g by (simp add: run_ok_def)
  qed
  then show ?thesis using r g by (simp add: run_ok_def)
qed

lemma unblockFirst_cfg: "map srv_cfg (fst (unblockFirst name ss)) = map srv_cfg ss"
  by (induction ss) (auto split: prod.splits)

lemma quiet_same:
  "same_load d (checkExpiredPenalties now d)" "tracker_of (checkExpiredPenalties now d) = tracker_of d"
  "same_load d (fst (UnblockServer name d))" "tracker_of (fst (UnblockServer name d)) = tracker_of d"
  using unblockFirst_cfg [of name "fl_servers (dn_fleet d)"]
  by (simp_all add: same_load_def checkExpiredPenalties_def UnblockServer_def case_prod_unfold)

lemma run_ok_step: "dl_step d l d' \<Longrightarrow> run_ok key n gone d \<Longrightarrow> run_ok key (tally key l n) (gone \<union> reaped l) d'"
proof (induction rule: dl_step.induct)
  case (pass d paused env opts rows sent connected)
  then show ?case using run_ok_pass by (simp add: reaped_def)
next
  case (receive i d d')
  then show ?case using run_ok_receive by (simp add: tally_def reaped_def)
next
  case (handle i req d env)
  then show ?case using run_ok_handle [OF _ handle(1) HOL.refl] by (simp add: reaped_def)
next
  case (finish req d)
  then show ?case using run_ok_finish by (simp add: tally_def reaped_def)
next
  case (reap d aborted registered)
  then show ?case using run_ok_reap by (simp add: tally_def reaped_def)
next
  case (expire d now)
  then show ?case using run_ok_same [OF _ quiet_same(1)] quiet_same(2) by (simp add: tally_def reaped_def)
next
  case (unblock d name)
  then show ?case using run_ok_same [OF _ quiet_same(3)] quiet_same(4) by (simp add: tally_def reaped_def)
next
  case (content d c)
  then show ?case by (simp add: tally_def reaped_def run_ok_def closingOf_def)
next
  case (drain d rs)
  then show ?case by (simp add: tally_def reaped_def run_ok_def closingOf_def)
qed

lemma newFleet_empty:
  assumes "fl_workCh (newFleet cfgs q) name = Some ch"
  shows "snd ch = []"
proof -
  define P :: "(string \<rightharpoonup> chan) \<Rightarrow> bool" where "P m \<longleftrightarrow> (\<forall>name ch. m name = Some ch \<longrightarrow> snd ch = [])" for m
  have "P (m(x \<mapsto> workChFor q k))" if "P m" for m x k using that by (simp add: P_def workChFor_def)
  then have "P m \<Longrightarrow> P (foldl (\<lambda>m c. m(sc_Name (fst c) \<mapsto> workChFor q (2 * sc_Connections (fst c) * snd c))) m cfgs)" for m
    by (induction cfgs arbitrary: m) simp_all
  from this [of Map.empty] show ?thesis using assms by (cases ch) (simp add: P_def newFleet_def)
qed

lemma run_ok_start:
  assumes "distinct (map (sc_Name \<circ> fst) cfgs)"
  shows "run_ok key 0 {} (newDownloader cfgs q noPen maxPen c)"
proof -
  let ?f = "newFleet cfgs q"
  have "names ?f = map (sc_Name \<circ> fst) cfgs" by (simp add: newFleet_def NewServer_def comp_def)
  moreover have "load key ?f [] i = 0" for i
    using newFleet_empty [of cfgs q "nameAt ?f i"] by (auto simp: load_def bufAt_def split: option.split)
  then have "load key ?f [] = (\<lambda>i. 0)" by blast
  moreover have "faultsOf key newDispatchTracker i = 0" for i by (simp add: faultsOf_def newDispatchTracker_def)
  then have "kinv key 0 N newDispatchTracker (\<lambda>i. 0) 0" for N
    using allowance_le [of key newDispatchTracker N] by (simp add: kinv_def) (simp add: newDispatchTracker_def InFlightLocked_def mapGet_def)
  moreover have "fl_tracker ?f = newDispatchTracker" by (simp add: newFleet_def)
  ultimately show ?thesis using assms by (simp add: run_ok_def newDownloader_def closingOf_def)
qed

lemma dl_run_ok: "dl_run key n gone d \<Longrightarrow> run_ok key n gone d"
  by (induction rule: dl_run.induct) (auto intro: run_ok_start run_ok_step)

section \<open>Properties\<close>

text \<open>C35: An article is fetched from one server at a time: through any interleaving of passes, workers, pauses,
  penalties and removals of other jobs, at most one request for an article is queued, being handled
  or waiting to be released, the in-flight count says exactly how many, and the server a request is
  queued at or handled for is in the article's try-list. This is said of an article whose job's
  instance the downloader has not reaped: when a job is removed or aborted, its entries are dropped while its
  last requests may still be at a worker, and nothing is counted for them any more.\<close>

theorem one_fetch_per_article:
  assumes "dl_run key n gone d" and "ak_inst key \<notin> gone"
  shows "(\<Sum>i < length (fl_servers (dn_fleet d)). load key (dn_fleet d) (dn_taken d) i) + closingOf key d \<le> 1
    \<and> InFlightLocked key (fl_tracker (dn_fleet d))
        = int ((\<Sum>i < length (fl_servers (dn_fleet d)). load key (dn_fleet d) (dn_taken d) i) + closingOf key d)
    \<and> (\<forall>i < length (fl_servers (dn_fleet d)). 0 < load key (dn_fleet d) (dn_taken d) i \<longrightarrow> mask_has (triedMask key (fl_tracker (dn_fleet d))) i)"
proof -
  have k: "finv key n (dn_fleet d) (dn_taken d) (closingOf key d)" using dl_run_ok [OF assms(1)] assms(2) by (simp add: run_ok_def)
  show ?thesis using kinvD(1,2,3) [OF k] by blast
qed

text \<open>C36: The failures that count against an article are bounded. For an article whose job's instance the
  downloader has not reaped, a 430, a checksum mismatch and a connection fault are counted, and in
  every run there are at most three of them per server from the time the article was last settled or
  given up; when that many have happened every server is in the article's try-list and no request for it is at one. And
  when every server is in the try-list and the article is not in flight, the next offer gives it
  up. Failures the code does not count (a desynchronised or transient reply, a dial that
  fails, an idle connection closed) take the server off the try-list again and are not bounded.\<close>

theorem article_attempts_bounded:
  assumes "dl_run key n gone d" and "ak_inst key \<notin> gone"
  shows "n \<le> 3 * length (fl_servers (dn_fleet d))
    \<and> (n = 3 * length (fl_servers (dn_fleet d)) \<longrightarrow>
        (\<forall>i < length (fl_servers (dn_fleet d)). mask_has (triedMask key (fl_tracker (dn_fleet d))) i \<and> load key (dn_fleet d) (dn_taken d) i = 0))
    \<and> ((\<forall>i < length (fl_servers (dn_fleet d)). mask_has (triedMask key (fl_tracker (dn_fleet d))) i)
        \<and> fl_servers (dn_fleet d) \<noteq> [] \<and> InFlightLocked key (fl_tracker (dn_fleet d)) \<le> 0
        \<and> reqKey req = key \<and> do_serverCfgs opts = map srv_cfg (fl_servers (dn_fleet d))
       \<longrightarrow> fst (snd (snd (tryDispatch False req opts (dn_fleet d)))) = Some req)"
proof -
  let ?N = "length (fl_servers (dn_fleet d))" and ?t = "tracker_of d" and ?g = "load key (dn_fleet d) (dn_taken d)"
  have k: "kinv key n ?N ?t ?g (closingOf key d)" using dl_run_ok [OF assms(1)] assms(2) by (simp add: run_ok_def)
  have part: "0 \<le> (if mask_has (triedMask key ?t) i \<and> ?g i = 0 then 0 else 3 - faultsOf key ?t i)" for i using kinvD(5) [OF k, of i] by auto
  then have nonneg: "0 \<le> allowance key ?N ?t ?g" unfolding allowance_def by (intro sum_nonneg) blast
  then have "n \<le> 3 * ?N" using kinvD(6) [OF k] by linarith
  moreover have "mask_has (triedMask key ?t) i \<and> ?g i = 0" if h: "n = 3 * ?N" and i: "i < ?N" for i
  proof -
    have "allowance key ?N ?t ?g = 0" using kinvD(6) [OF k] nonneg h by linarith
    then have "\<forall>i \<in> {..<?N}. (if mask_has (triedMask key ?t) i \<and> ?g i = 0 then 0 else 3 - faultsOf key ?t i) = 0"
      unfolding allowance_def
      using sum_nonneg_eq_0_iff [of "{..<?N}" "\<lambda>i. if mask_has (triedMask key ?t) i \<and> ?g i = 0 then 0 else 3 - faultsOf key ?t i"] part by blast
    then show ?thesis using i kinvD(5) [OF k, of i] by (auto split: if_splits)
  qed
  moreover have "fst (snd (snd (tryDispatch False req opts (dn_fleet d)))) = Some req"
    if has: "\<forall>i < ?N. mask_has (triedMask key ?t) i" and h: "fl_servers (dn_fleet d) \<noteq> []" "InFlightLocked key ?t \<le> 0" "reqKey req = key"
      "do_serverCfgs opts = map srv_cfg (fl_servers (dn_fleet d))"
  proof -
    have "fmlookup (dt_tryList ?t) key \<noteq> None" using has h(1) triedMask_none [of ?t key] sm.has_empty by (metis length_greater_0_conv)
    then have tl: "TryListLocked key ?t = (triedMask key ?t, True)" by (simp only: TryList_triedMask simp_thms)
    have "\<not> candidateAt (triedMask key ?t) True opts i" if "i < ?N" for i using has that by (simp add: candidateAt_def isServerCandidate_def)
    then have "spent opts (dn_fleet d) (reqKey req)" using h(2) unfolding spent_def h(3) tl by simp
    then show ?thesis using spent_tryDispatch [of opts "dn_fleet d" req False] h(4) by simp
  qed
  ultimately show ?thesis by blast
qed

section \<open>A run\<close>

text \<open>One server: a pass queues the article there, the worker takes it, and the server answers 430.\<close>

definition xDownloader :: Downloader where
  "xDownloader = newDownloader [(xServerCfg ''b'' 1, 1)] 1 False 0 (\<lambda>i. xContent)"

definition xAfterPass :: Downloader where
  "xAfterPass = fst (dispatchPass (\<lambda>r. True) False False xPassEnv xDispatchOpts [xRow] xDownloader)"

definition xTaken :: Downloader where
  "xTaken = the (takeRequest 0 xAfterPass)"

definition xReq :: articleRequest where
  "xReq = \<lparr>rq_jobID = ''j'', rq_inst = 0, rq_messageID = ''x@y'', rq_fileIdx = 0, rq_artIdx = 0, rq_bytes = 5, rq_subject = ''a'', rq_partNumber = 1\<rparr>"

definition x430 :: FetchEnv where
  "x430 = \<lparr>fe_held = True, fe_registered = True, fe_Intent = IntentRun, fe_handedOff = False, fe_paused = False, fe_conn = None,
     fe_fetch = Inl [ErrNoArticle], fe_dropped = False, fe_cancelled = False, fe_sent = True, fe_now = 6\<rparr>"

definition xHandled :: Downloader where
  "xHandled = (handleRequest x430 0 xReq xTaken)\<lparr>dn_taken := remove1 (0, xReq) (dn_taken xTaken), dn_closing := dn_closing xTaken @ [xReq]\<rparr>"

definition xReleased :: Downloader where
  "xReleased = (clearInFlight xReq xHandled)\<lparr>dn_closing := remove1 xReq (dn_closing xHandled)\<rparr>"

definition xKey :: articleKey where
  "xKey = reqKey xReq"

lemma xTaken_eval:
  "takeRequest 0 xAfterPass \<noteq> None" "(0, xReq) \<in> set (dn_taken xTaken)" "load xKey (dn_fleet xTaken) (dn_taken xTaken) 0 = 1"
  "length (fl_servers (dn_fleet xTaken)) = 1" "mask_has (triedMask xKey (fl_tracker (dn_fleet xTaken))) 0"
  "InFlightLocked xKey (fl_tracker (dn_fleet xTaken)) = 1" "map srv_cfg (fl_servers (dn_fleet xTaken)) = [xServerCfg ''b'' 1]"
  by code_simp+

text \<open>The 430 leaves the try-list as it is, and the release takes the article out of flight.\<close>

lemma xReleased_eval:
  "length (fl_servers (dn_fleet xReleased)) = 1" "mask_has (triedMask xKey (fl_tracker (dn_fleet xReleased))) 0"
  "InFlightLocked xKey (fl_tracker (dn_fleet xReleased)) = 0" "map srv_cfg (fl_servers (dn_fleet xReleased)) = [xServerCfg ''b'' 1]"
proof -
  have h: "handleRequest x430 0 xReq xTaken = emitResult True xReq (sc_Name (srv_cfg (fl_servers (dn_fleet xTaken) ! 0))) None
      (Some (FetchError [ErrNoArticle])) (onServer 0 RecordGoodConnection xTaken)"
    by (simp add: handleRequest_def fetchArticle_def x430_def goerr_Is_def)
  have f: "fl_servers (dn_fleet xReleased) = (fl_servers (dn_fleet xTaken))[0 := RecordGoodConnection (fl_servers (dn_fleet xTaken) ! 0)]"
    "fl_tracker (dn_fleet xReleased) = DecrementInFlight xKey (fl_tracker (dn_fleet xTaken))"
    by (simp_all add: xReleased_def xHandled_def h emitResult_def onServer_def clearInFlight_def onTracker_def xKey_def)
  show "length (fl_servers (dn_fleet xReleased)) = 1" using xTaken_eval(4) f by simp
  show "mask_has (triedMask xKey (fl_tracker (dn_fleet xReleased))) 0"
    using xTaken_eval(5) by (simp add: f triedMask_def TryListLocked_def DecrementInFlight_def)
  show "InFlightLocked xKey (fl_tracker (dn_fleet xReleased)) = 0"
    using xTaken_eval(6) by (simp add: f InFlightLocked_def DecrementInFlight_def mapGet_def)
  show "map srv_cfg (fl_servers (dn_fleet xReleased)) = [xServerCfg ''b'' 1]"
    using xTaken_eval(4,7) by (cases "fl_servers (dn_fleet xTaken)") (simp_all add: f RecordGoodConnection_def)
qed

lemma xTaken_run: "dl_run xKey 0 {} xTaken"
proof -
  have "dl_run xKey 0 {} xDownloader" unfolding xDownloader_def by (rule dl_run.start) simp
  from dl_run.step [OF this dl_step.pass [of _ False xPassEnv xDispatchOpts "[xRow]" "\<lambda>r. True" False]]
  have p: "dl_run xKey 0 {} xAfterPass" by (simp add: xAfterPass_def tally_def reaped_def)
  have "takeRequest 0 xAfterPass = Some xTaken" using xTaken_eval(1) by (simp add: xTaken_def)
  moreover have "0 < length (fl_servers (dn_fleet xAfterPass))" by code_simp
  ultimately show ?thesis using dl_run.step [OF p dl_step.receive, of 0 xTaken] by (simp add: tally_def reaped_def)
qed

lemma xReleased_run: "dl_run xKey 1 {} xReleased"
proof -
  have c: "charged x430 xReq" by (simp add: charged_def fetched_def x430_def goerr_Is_def)
  have "dl_run xKey 1 {} xHandled"
    using dl_run.step [OF xTaken_run dl_step.handle [OF xTaken_eval(2), of x430]] c by (simp add: xHandled_def tally_def reaped_def xKey_def)
  moreover have "xReq \<in> set (dn_closing xHandled)" by (simp add: xHandled_def)
  ultimately show ?thesis unfolding xReleased_def using dl_run.step [OF _ dl_step.finish, of xKey 1 "{}" xHandled xReq]
    by (simp add: tally_def reaped_def)
qed

theorem one_fetch_per_article_witness:
  "dl_run xKey 0 {} xTaken \<and> load xKey (dn_fleet xTaken) (dn_taken xTaken) 0 = 1 \<and> closingOf xKey xTaken = 0
   \<and> InFlightLocked xKey (fl_tracker (dn_fleet xTaken)) = 1"
  using one_fetch_per_article [OF xTaken_run] xTaken_run xTaken_eval(3,4) by auto

theorem article_attempts_bounded_witness:
  "dl_run xKey 1 {} xReleased \<and> 1 \<le> 3 * length (fl_servers (dn_fleet xReleased))
   \<and> fst (snd (snd (tryDispatch False xReq (xDispatchOpts\<lparr>do_serverCfgs := [xServerCfg ''b'' 1]\<rparr>) (dn_fleet xReleased)))) = Some xReq"
proof -
  have "fl_servers (dn_fleet xReleased) \<noteq> []" using xReleased_eval(1) by auto
  then show ?thesis
    using article_attempts_bounded [OF xReleased_run, of xReq "xDispatchOpts\<lparr>do_serverCfgs := [xServerCfg ''b'' 1]\<rparr>"] xReleased_run xReleased_eval
    by (simp add: xKey_def)
qed

end
