(* ===== verification/Recorder.thy ===== *)
theory Recorder
  imports Content "HOL-Library.Finite_Map"
begin

text \<open>
  The record of written articles (\<^verbatim>\<open>internal/app/record.go\<close> and \<^verbatim>\<open>internal/durability/written.go\<close>):
  the in-memory buffer of rows, file states and owed deletes, the transaction that carries them to
  the two per-job tables, and the protocol by which a flush, an untrust and the workers that note
  rows interleave. A \<open>*job.Job\<close> key is an instance number; \<open>ident\<close> gives an instance's job ID. The
  order in which Go ranges over a map is an argument, and so are the registry's answers and the
  outcome of a database transaction.
\<close>

section \<open>The two tables\<close>

record FileVerdict =
  vd_FileIdx :: int
  vd_DeleteAll :: bool
  vd_DeleteArtIdxs :: "int list"
  vd_ClearComplete :: bool
  vd_SetComplete :: bool

record RecordBatch =
  rb_JobID :: string
  rb_Rows :: "WrittenRow list"
  rb_Files :: "FileState list"
  rb_Verdicts :: "FileVerdict list"

text \<open>
  \<open>written_articles\<close> has the primary key (job, file, article). \<open>job_files\<close> is unique on (job, file);
  the columns the recorder never writes are left out.
\<close>

record JobFileRow =
  jf_complete :: bool
  jf_filename :: string
  jf_fetch_policy :: FetchPolicy

record RecordStore =
  written_articles :: "string \<times> int \<times> int \<Rightarrow> WrittenRow option"
  job_files :: "(string \<times> int, JobFileRow) fmap"

datatype RecordError = errVerdictBothWays | StoreFault | WriterBusy

text \<open>
  How a transaction ends: it commits; it is rolled back after some statement, or the commit, failed;
  or it commits although the caller is told it did not, which a failing commit may do.
\<close>

datatype TxOutcome = TxCommitted | TxRolledBack | TxCommitUnreported

definition CompareWrittenRows :: "WrittenRow \<Rightarrow> WrittenRow \<Rightarrow> int" where
  "CompareWrittenRows a b =
     (if wr_Offset a < wr_Offset b then -1 else if wr_Offset b < wr_Offset a then 1
      else if wr_ArtIdx a < wr_ArtIdx b then -1 else if wr_ArtIdx b < wr_ArtIdx a then 1 else 0)"

definition deleteWhere :: "(string \<times> int \<times> int \<Rightarrow> bool) \<Rightarrow> RecordStore \<Rightarrow> RecordStore" where
  "deleteWhere P s = s\<lparr>written_articles := (\<lambda>k. if P k then None else written_articles s k)\<rparr>"

definition deleteVerdict :: "string \<Rightarrow> FileVerdict \<Rightarrow> RecordStore \<Rightarrow> RecordStore" where
  "deleteVerdict jobID v s =
     (if vd_DeleteAll v then deleteWhere (\<lambda>(k, f, a). k = jobID \<and> f = vd_FileIdx v) s
      else fold (\<lambda>x. deleteWhere (\<lambda>(k, f, a). k = jobID \<and> f = vd_FileIdx v \<and> a = x)) (vd_DeleteArtIdxs v) s)"

definition insertRow :: "string \<Rightarrow> WrittenRow \<Rightarrow> RecordStore \<Rightarrow> RecordStore" where
  "insertRow jobID r s = s\<lparr>written_articles := (written_articles s)((jobID, wr_FileIdx r, wr_ArtIdx r) \<mapsto> r)\<rparr>"

definition jobHasFiles :: "string \<Rightarrow> RecordStore \<Rightarrow> bool" where
  "jobHasFiles jobID s = fBex (fmdom (job_files s)) (\<lambda>k. fst k = jobID)"

definition insertRows :: "RecordBatch \<Rightarrow> RecordStore \<Rightarrow> RecordStore" where
  "insertRows b s =
     (if rb_Rows b = [] \<or> \<not> jobHasFiles (rb_JobID b) s then s else fold (insertRow (rb_JobID b)) (rb_Rows b) s)"

definition updateJobFile :: "string \<Rightarrow> int \<Rightarrow> (JobFileRow \<Rightarrow> JobFileRow) \<Rightarrow> RecordStore \<Rightarrow> RecordStore" where
  "updateJobFile jobID fi f s =
     (case fmlookup (job_files s) (jobID, fi) of
        None \<Rightarrow> s
      | Some x \<Rightarrow> s\<lparr>job_files := fmupd (jobID, fi) (f x) (job_files s)\<rparr>)"

definition storeFileState :: "string \<Rightarrow> FileState \<Rightarrow> RecordStore \<Rightarrow> RecordStore" where
  "storeFileState jobID f =
     updateJobFile jobID (int (st_FileIdx f))
       (\<lambda>_. \<lparr>jf_complete = st_Complete f, jf_filename = st_Filename f, jf_fetch_policy = st_FetchPolicy f\<rparr>)"

definition verdictComplete :: "string \<Rightarrow> FileVerdict \<Rightarrow> RecordStore \<Rightarrow> RecordStore" where
  "verdictComplete jobID v s =
     (if \<not> vd_SetComplete v \<and> \<not> vd_ClearComplete v then s
      else updateJobFile jobID (vd_FileIdx v) (\<lambda>x. x\<lparr>jf_complete := vd_SetComplete v\<rparr>) s)"

fun verdictDeletes :: "string \<Rightarrow> FileVerdict list \<Rightarrow> RecordStore \<Rightarrow> (RecordError, RecordStore) result" where
  "verdictDeletes jobID [] s = Inr s"
| "verdictDeletes jobID (v # vs) s =
     (if vd_SetComplete v \<and> vd_ClearComplete v then Inl errVerdictBothWays
      else verdictDeletes jobID vs (deleteVerdict jobID v s))"

definition applyBatch :: "RecordBatch \<Rightarrow> RecordStore \<Rightarrow> (RecordError, RecordStore) result" where
  "applyBatch b s =
     (case verdictDeletes (rb_JobID b) (rb_Verdicts b) s of
        Inl e \<Rightarrow> Inl e
      | Inr s1 \<Rightarrow>
          Inr (fold (verdictComplete (rb_JobID b)) (rb_Verdicts b)
                (fold (storeFileState (rb_JobID b)) (rb_Files b) (insertRows b s1))))"

fun applyBatches :: "RecordBatch list \<Rightarrow> RecordStore \<Rightarrow> (RecordError, RecordStore) result" where
  "applyBatches [] s = Inr s"
| "applyBatches (b # bs) s = (case applyBatch b s of Inl e \<Rightarrow> Inl e | Inr s1 \<Rightarrow> applyBatches bs s1)"

text \<open>\<open>ApplyRecord\<close> with \<open>inTx\<close>: the store after the call and the error returned.\<close>

definition ApplyRecord :: "TxOutcome \<Rightarrow> RecordBatch list \<Rightarrow> RecordStore \<Rightarrow> RecordStore \<times> RecordError option" where
  "ApplyRecord out bs s =
     (if bs = [] then (s, None)
      else case applyBatches bs s of
             Inl e \<Rightarrow> (s, Some e)
           | Inr s1 \<Rightarrow> (case out of
                          TxCommitted \<Rightarrow> (s1, None)
                        | TxRolledBack \<Rightarrow> (s, Some StoreFault)
                        | TxCommitUnreported \<Rightarrow> (s1, Some StoreFault)))"

section \<open>The buffer\<close>

type_synonym inst = nat
type_synonym debts = "(inst, (int, 64 word) fmap) fmap"
type_synonym rowBuf = "(inst, WrittenRow list) fmap"
type_synonym fileBuf = "(inst, (int, FileState) fmap) fmap"

record recorder =
  rc_pending :: rowBuf
  rc_dirty :: fileBuf
  rc_owed :: debts
  rc_owedSeq :: "64 word"

text \<open>Go's iteration orders over the instance keys and over the file keys of a map.\<close>

record iterOrder =
  io_jobs :: "inst fset \<Rightarrow> inst list"
  io_files :: "int fset \<Rightarrow> int list"

definition newRecorder :: recorder where
  "newRecorder = \<lparr>rc_pending = fmempty, rc_dirty = fmempty, rc_owed = fmempty, rc_owedSeq = 0\<rparr>"

definition untrustVerdict :: "int \<Rightarrow> FileVerdict" where
  "untrustVerdict fileIdx =
     \<lparr>vd_FileIdx = fileIdx, vd_DeleteAll = True, vd_DeleteArtIdxs = [], vd_ClearComplete = True, vd_SetComplete = False\<rparr>"

text \<open>A missing entry of a map of slices or of maps reads as empty.\<close>

definition bufferedRows :: "inst \<Rightarrow> rowBuf \<Rightarrow> WrittenRow list" where
  "bufferedRows j m = (case fmlookup m j of None \<Rightarrow> [] | Some rs \<Rightarrow> rs)"

definition innerOf :: "inst \<Rightarrow> (inst, (int, 'v) fmap) fmap \<Rightarrow> (int, 'v) fmap" where
  "innerOf j m = (case fmlookup m j of None \<Rightarrow> fmempty | Some x \<Rightarrow> x)"

text \<open>\<open>noteRow\<close> is the part of \<open>noteWritten\<close> under the recorder's lock; the job's own door follows it.\<close>

definition noteRow :: "inst \<Rightarrow> WrittenRow \<Rightarrow> recorder \<Rightarrow> recorder" where
  "noteRow j row r = r\<lparr>rc_pending := fmupd j (bufferedRows j (rc_pending r) @ [row]) (rc_pending r)\<rparr>"

definition noteWritten :: "inst \<Rightarrow> WrittenRow \<Rightarrow> recorder \<times> Content \<Rightarrow> recorder \<times> door" where
  "noteWritten j row = (\<lambda>(r, c). (noteRow j row r, MarkArticleWritten row c))"

definition markDirty :: "inst \<Rightarrow> nat \<Rightarrow> FileState \<Rightarrow> recorder \<Rightarrow> recorder" where
  "markDirty j fileIdx st r =
     r\<lparr>rc_dirty := fmupd j (fmupd (int fileIdx) (st\<lparr>st_FileIdx := fileIdx\<rparr>) (innerOf j (rc_dirty r))) (rc_dirty r)\<rparr>"

fun takeFetchPolicyChanges :: "inst list \<Rightarrow> (inst \<Rightarrow> Content) \<times> recorder \<Rightarrow> (inst \<Rightarrow> Content) \<times> recorder" where
  "takeFetchPolicyChanges [] w = w"
| "takeFetchPolicyChanges (j # js) (jobs, r) =
     (let (c, sts) = TakeFetchPolicyChanges (jobs j) in
      takeFetchPolicyChanges js (jobs(j := c), fold (\<lambda>st. markDirty j (st_FileIdx st) st) sts r))"

text \<open>
  \<open>cur j\<close> is the registry when instance \<open>j\<close> is looked up: \<open>liveInstances\<close> asks outside the lock,
  once per instance, so the answers need not belong to one moment.
\<close>

definition isCurrent :: "(inst \<Rightarrow> string) \<Rightarrow> (inst \<Rightarrow> string \<Rightarrow> inst option) \<Rightarrow> inst \<Rightarrow> bool" where
  "isCurrent ident cur j \<longleftrightarrow> cur j (ident j) = Some j"

type_synonym liveMap = "(inst, bool) fmap"

definition liveInstances :: "(inst \<Rightarrow> string) \<Rightarrow> (inst \<Rightarrow> string \<Rightarrow> inst option) \<Rightarrow> recorder \<Rightarrow> liveMap" where
  "liveInstances ident cur r =
     fmap_of_list (map (\<lambda>j. (j, isCurrent ident cur j))
       (sorted_list_of_fset (fmdom (rc_pending r) |\<union>| fmdom (rc_dirty r) |\<union>| fmdom (rc_owed r))))"

text \<open>
  The three takes leave alone an instance \<open>live\<close> has no answer for, and drop what belongs to one that
  is not current.
\<close>

definition takeUnchecked :: "liveMap \<Rightarrow> (inst, 'v) fmap \<Rightarrow> (inst, 'v) fmap" where
  "takeUnchecked live = fmfilter (\<lambda>j. fmlookup live j = None)"

definition takeCurrent :: "liveMap \<Rightarrow> (inst, 'v) fmap \<Rightarrow> (inst, 'v) fmap" where
  "takeCurrent live = fmfilter (\<lambda>j. fmlookup live j = Some True)"

definition takeRowsLocked :: "liveMap \<Rightarrow> recorder \<Rightarrow> recorder \<times> rowBuf" where
  "takeRowsLocked live r =
     (r\<lparr>rc_pending := takeUnchecked live (rc_pending r)\<rparr>, takeCurrent live (rc_pending r))"

definition takeFilesLocked :: "liveMap \<Rightarrow> recorder \<Rightarrow> recorder \<times> fileBuf" where
  "takeFilesLocked live r =
     (r\<lparr>rc_dirty := takeUnchecked live (rc_dirty r)\<rparr>, takeCurrent live (rc_dirty r))"

definition owedLocked :: "liveMap \<Rightarrow> recorder \<Rightarrow> recorder \<times> debts" where
  "owedLocked live r =
     (r\<lparr>rc_owed := fmfilter (\<lambda>j. fmlookup live j \<noteq> Some False) (rc_owed r)\<rparr>, takeCurrent live (rc_owed r))"

definition owedAt :: "debts \<Rightarrow> inst \<Rightarrow> int \<Rightarrow> 64 word option" where
  "owedAt m j fi = fmlookup (innerOf j m) fi"

definition settleOwedLocked :: "inst \<Rightarrow> int \<Rightarrow> 64 word \<Rightarrow> recorder \<Rightarrow> recorder" where
  "settleOwedLocked j fileIdx sq r =
     (if owedAt (rc_owed r) j fileIdx \<noteq> Some sq then r
      else let o1 = fmdrop fileIdx (innerOf j (rc_owed r)) in
           r\<lparr>rc_owed := (if o1 = fmempty then fmdrop j (rc_owed r) else fmupd j o1 (rc_owed r))\<rparr>)"

definition settle :: "iterOrder \<Rightarrow> debts \<Rightarrow> recorder \<Rightarrow> recorder" where
  "settle io carried =
     fold (\<lambda>j. fold (\<lambda>fi. settleOwedLocked j fi (the (owedAt carried j fi))) (io_files io (fmdom (innerOf j carried))))
       (io_jobs io (fmdom carried))"

definition overrunLocked :: "inst \<Rightarrow> (int, 64 word) fmap \<Rightarrow> int \<Rightarrow> recorder \<Rightarrow> bool" where
  "overrunLocked j carried fi r =
     (case owedAt (rc_owed r) j fi of
        None \<Rightarrow> False
      | Some c \<Rightarrow> c > (case fmlookup carried fi of None \<Rightarrow> 0 | Some x \<Rightarrow> x))"

section \<open>A flush\<close>

text \<open>The batch of one instance, and the batches of a snapshot.\<close>

definition flushVerdict :: "(int, FileState) fmap \<Rightarrow> int \<Rightarrow> FileVerdict" where
  "flushVerdict files fi =
     (if fi |\<in>| fmdom files then (untrustVerdict fi)\<lparr>vd_ClearComplete := False\<rparr> else untrustVerdict fi)"

definition batchOf :: "(inst \<Rightarrow> string) \<Rightarrow> iterOrder \<Rightarrow> rowBuf \<Rightarrow> fileBuf \<Rightarrow> debts \<Rightarrow> inst \<Rightarrow> RecordBatch" where
  "batchOf ident io rows files owed j =
     \<lparr>rb_JobID = ident j,
      rb_Rows = bufferedRows j rows,
      rb_Files = map (\<lambda>fi. the (fmlookup (innerOf j files) fi)) (io_files io (fmdom (innerOf j files))),
      rb_Verdicts = map (flushVerdict (innerOf j files)) (sorted_list_of_fset (fmdom (innerOf j owed)))\<rparr>"

definition flushBatches :: "(inst \<Rightarrow> string) \<Rightarrow> iterOrder \<Rightarrow> rowBuf \<Rightarrow> fileBuf \<Rightarrow> debts \<Rightarrow> RecordBatch list" where
  "flushBatches ident io rows files owed =
     map (batchOf ident io rows files owed) (io_jobs io (fmdom rows |\<union>| fmdom files |\<union>| fmdom owed))"

definition remergeRows :: "debts \<Rightarrow> rowBuf \<Rightarrow> inst \<Rightarrow> recorder \<Rightarrow> recorder" where
  "remergeRows carried rows j r =
     (let kept = filter (\<lambda>row. \<not> overrunLocked j (innerOf j carried) (wr_FileIdx row) r) (bufferedRows j rows) in
      if kept = [] then r else r\<lparr>rc_pending := fmupd j (kept @ bufferedRows j (rc_pending r)) (rc_pending r)\<rparr>)"

definition remergeFile :: "debts \<Rightarrow> fileBuf \<Rightarrow> inst \<Rightarrow> int \<Rightarrow> recorder \<Rightarrow> recorder" where
  "remergeFile carried files j fi r =
     (if overrunLocked j (innerOf j carried) fi r \<or> fi |\<in>| fmdom (innerOf j (rc_dirty r)) then r
      else r\<lparr>rc_dirty := fmupd j (fmupd fi (the (fmlookup (innerOf j files) fi)) (innerOf j (rc_dirty r))) (rc_dirty r)\<rparr>)"

definition remerge :: "iterOrder \<Rightarrow> rowBuf \<Rightarrow> fileBuf \<Rightarrow> debts \<Rightarrow> recorder \<Rightarrow> recorder" where
  "remerge io rows files carried r =
     fold (\<lambda>j. fold (remergeFile carried files j) (io_files io (fmdom (innerOf j files)))) (io_jobs io (fmdom files))
       (fold (remergeRows carried rows) (io_jobs io (fmdom rows)) r)"

definition takeSnapshot :: "liveMap \<Rightarrow> recorder \<Rightarrow> recorder \<times> rowBuf \<times> fileBuf \<times> debts" where
  "takeSnapshot live r =
     (let (r1, rows) = takeRowsLocked live r; (r2, files) = takeFilesLocked live r1; (r3, owed) = owedLocked live r2 in
      (r3, rows, files, owed))"

text \<open>
  \<open>flushLocked\<close> with nothing running between its critical sections: \<open>listed\<close> are the jobs of the
  dispatcher, \<open>out\<close> the transaction's outcome.
\<close>

definition flushLocked :: "(inst \<Rightarrow> string) \<Rightarrow> iterOrder \<Rightarrow> inst list \<Rightarrow> (inst \<Rightarrow> string \<Rightarrow> inst option) \<Rightarrow> TxOutcome \<Rightarrow>
    (inst \<Rightarrow> Content) \<times> recorder \<times> RecordStore \<Rightarrow> ((inst \<Rightarrow> Content) \<times> recorder \<times> RecordStore) \<times> RecordError option" where
  "flushLocked ident io listed cur out = (\<lambda>(jobs, r, s).
     (let (jobs1, r1) = takeFetchPolicyChanges listed (jobs, r);
          (r2, rows, files, owed) = takeSnapshot (liveInstances ident cur r1) r1;
          bs = flushBatches ident io rows files owed in
      if bs = [] then ((jobs1, r2, s), None)
      else case ApplyRecord out bs s of
             (s1, Some e) \<Rightarrow> ((jobs1, remerge io rows files owed r2, s1), Some e)
           | (s1, None) \<Rightarrow> ((jobs1, settle io owed r2, s1), None)))"

text \<open>\<open>flush\<close>: \<open>free\<close> is whether the writer lock came free before the context ended.\<close>

definition flush :: "bool \<Rightarrow> (inst \<Rightarrow> string) \<Rightarrow> iterOrder \<Rightarrow> inst list \<Rightarrow> (inst \<Rightarrow> string \<Rightarrow> inst option) \<Rightarrow> TxOutcome \<Rightarrow>
    (inst \<Rightarrow> Content) \<times> recorder \<times> RecordStore \<Rightarrow> ((inst \<Rightarrow> Content) \<times> recorder \<times> RecordStore) \<times> RecordError option" where
  "flush free ident io listed cur out w =
     (if free then flushLocked ident io listed cur out w else (w, Some WriterBusy))"

section \<open>Verdicts and untrust\<close>

definition dropsRow :: "FileVerdict \<Rightarrow> WrittenRow \<Rightarrow> bool" where
  "dropsRow fv row \<longleftrightarrow> wr_FileIdx row = vd_FileIdx fv \<and> (vd_DeleteAll fv \<or> wr_ArtIdx row \<in> set (vd_DeleteArtIdxs fv))"

definition setRows :: "inst \<Rightarrow> WrittenRow list \<Rightarrow> recorder \<Rightarrow> recorder" where
  "setRows j rs r = r\<lparr>rc_pending := (if rs = [] then fmdrop j (rc_pending r) else fmupd j rs (rc_pending r))\<rparr>"

definition setDirty :: "inst \<Rightarrow> (int, FileState) fmap \<Rightarrow> recorder \<Rightarrow> recorder" where
  "setDirty j m r = r\<lparr>rc_dirty := (if m = fmempty then fmdrop j (rc_dirty r) else fmupd j m (rc_dirty r))\<rparr>"

definition purgeLocked :: "inst \<Rightarrow> FileVerdict \<Rightarrow> recorder \<Rightarrow> recorder" where
  "purgeLocked j fv r =
     (let r1 = (if vd_DeleteAll fv \<or> vd_DeleteArtIdxs fv \<noteq> []
                then setRows j (filter (\<lambda>row. \<not> dropsRow fv row) (bufferedRows j (rc_pending r))) r else r);
          m = innerOf j (rc_dirty r1);
          m1 = (if vd_DeleteAll fv then fmdrop (vd_FileIdx fv) m
                else case fmlookup m (vd_FileIdx fv) of
                       Some st \<Rightarrow> if vd_SetComplete fv \<or> vd_ClearComplete fv
                                  then fmupd (vd_FileIdx fv) (st\<lparr>st_Complete := vd_SetComplete fv\<rparr>) m else m
                     | None \<Rightarrow> m) in
      setDirty j m1 r1)"

definition applyPurge :: "inst \<Rightarrow> FileVerdict list \<Rightarrow> FileState list \<Rightarrow> recorder \<Rightarrow> recorder" where
  "applyPurge j v files r =
     (let r1 = fold (purgeLocked j) v r in
      case fmlookup (rc_dirty r1) j of
        None \<Rightarrow> r1
      | Some m \<Rightarrow> setDirty j (fold (\<lambda>f. fmdrop (int (st_FileIdx f))) files m) r1)"

definition apply_record :: "bool \<Rightarrow> (inst \<Rightarrow> string) \<Rightarrow> TxOutcome \<Rightarrow> inst \<Rightarrow> FileVerdict list \<Rightarrow> FileState list \<Rightarrow>
    recorder \<times> RecordStore \<Rightarrow> (recorder \<times> RecordStore) \<times> RecordError option" where
  "apply_record free ident out j v files = (\<lambda>(r, s).
     if \<not> free then ((r, s), Some WriterBusy)
     else let (s1, e) = ApplyRecord out [\<lparr>rb_JobID = ident j, rb_Rows = [], rb_Files = files, rb_Verdicts = v\<rparr>] s in
          ((applyPurge j v files r, s1), e))"

text \<open>\<open>untrust\<close>: the purge and the debt, then, under the writer lock, the delete and its settlement.\<close>

definition untrustPurge :: "inst \<Rightarrow> int \<Rightarrow> recorder \<Rightarrow> recorder \<times> 64 word" where
  "untrustPurge j fileIdx r =
     (let r1 = purgeLocked j (untrustVerdict fileIdx) r; sq = rc_owedSeq r1 + 1 in
      (r1\<lparr>rc_owedSeq := sq, rc_owed := fmupd j (fmupd fileIdx sq (innerOf j (rc_owed r1))) (rc_owed r1)\<rparr>, sq))"

definition untrustWrite :: "(inst \<Rightarrow> string) \<Rightarrow> TxOutcome \<Rightarrow> inst \<Rightarrow> int \<Rightarrow> RecordStore \<Rightarrow> RecordStore \<times> RecordError option" where
  "untrustWrite ident out j fileIdx =
     ApplyRecord out [\<lparr>rb_JobID = ident j, rb_Rows = [], rb_Files = [], rb_Verdicts = [untrustVerdict fileIdx]\<rparr>]"

definition untrust :: "bool \<Rightarrow> (inst \<Rightarrow> string) \<Rightarrow> TxOutcome \<Rightarrow> inst \<Rightarrow> int \<Rightarrow> recorder \<times> RecordStore \<Rightarrow>
    (recorder \<times> RecordStore) \<times> RecordError option" where
  "untrust free ident out j fileIdx = (\<lambda>(r, s).
     (let (r1, sq) = untrustPurge j fileIdx r in
      if \<not> free then ((r1, s), Some WriterBusy)
      else case untrustWrite ident out j fileIdx s of
             (s1, Some e) \<Rightarrow> ((r1, s1), Some e)
           | (s1, None) \<Rightarrow> ((settleOwedLocked j fileIdx sq r1, s1), None)))"

end
