(* ===== verification/Recorder_Safety.thy ===== *)
theory Recorder_Safety
  imports Recorder
begin

text \<open>
  The recorder's protocol as a transition system, and the proof that it implements a log: whatever
  the interleaving, and however transactions end, the rows of a file that the recorder holds, in
  memory and in the store together, are the rows noted since the file was last untrusted.
\<close>

section \<open>Runs of a labelled system that simulates a specification\<close>

fun event_run :: "('s \<Rightarrow> 'e \<Rightarrow> 's \<Rightarrow> bool) \<Rightarrow> 's \<Rightarrow> 'e list \<Rightarrow> 's \<Rightarrow> bool" where
  "event_run step s [] s' \<longleftrightarrow> s' = s"
| "event_run step s (e # es) s' \<longleftrightarrow> (\<exists>t. step s e t \<and> event_run step t es s')"

locale log_simulation =
  fixes step :: "'s \<Rightarrow> 'e \<Rightarrow> 's \<Rightarrow> bool"
    and inv :: "'e list \<Rightarrow> 's \<Rightarrow> bool"
    and view :: "'s \<Rightarrow> 'v"
    and spec :: "'e \<Rightarrow> 'v \<Rightarrow> 'v"
  assumes inv_step: "step s e t \<Longrightarrow> inv (e # es) s \<Longrightarrow> inv es t"
    and view_step: "step s e t \<Longrightarrow> inv (e # es) s \<Longrightarrow> view t = spec e (view s)"
begin

lemma run_inv: "event_run step s es t \<Longrightarrow> inv es s \<Longrightarrow> inv [] t"
  by (induction es arbitrary: s) (auto dest: inv_step)

lemma run_view: "event_run step s es t \<Longrightarrow> inv es s \<Longrightarrow> view t = fold spec es (view s)"
proof (induction es arbitrary: s)
  case (Cons e es)
  then obtain u where "step s e u" "event_run step u es t" by auto
  with Cons show ?case using inv_step view_step by fastforce
qed simp

end

section \<open>The system\<close>

text \<open>
  The holder of the writer lock, between its critical sections: a flush that has asked the registry,
  one that has its snapshot, one whose transaction was reported committed or failed, an untrust
  between its write and its settlement, and an \<open>apply\<close> between its purge and its write.
\<close>

datatype writer =
    WrFree
  | WrLive liveMap
  | WrTaken rowBuf fileBuf debts
  | WrWritten debts
  | WrFailed rowBuf fileBuf debts
  | WrUntrust
  | WrApply inst "FileVerdict list" "FileState list"

text \<open>The assembler's worker, the one goroutine that notes rows and untrusts files.\<close>

datatype worker =
    WkIdle
  | WkOwes inst int "64 word"
  | WkWrote inst int "64 word"

record recsys =
  ry_rec :: recorder
  ry_store :: RecordStore
  ry_writer :: writer
  ry_worker :: worker

datatype revent =
    ENote inst WrittenRow
  | EDirty inst nat FileState
  | ELive "inst \<Rightarrow> string \<Rightarrow> inst option"
  | ETake
  | EWrite TxOutcome
  | EEnd
  | EUntrust inst int
  | EUntrustBusy
  | EUntrustWrite TxOutcome
  | EUntrustEnd
  | EApplyPurge inst "FileVerdict list" "FileState list"
  | EApplyWrite TxOutcome

inductive rec_step :: "(inst \<Rightarrow> string) \<Rightarrow> iterOrder \<Rightarrow> recsys \<Rightarrow> revent \<Rightarrow> recsys \<Rightarrow> bool"
  for ident :: "inst \<Rightarrow> string" and io :: iterOrder where
  noted: "ry_worker s = WkIdle \<Longrightarrow>
    rec_step ident io s (ENote j row) (s\<lparr>ry_rec := noteRow j row (ry_rec s)\<rparr>)"
| dirty: "rec_step ident io s (EDirty j fi st) (s\<lparr>ry_rec := markDirty j fi st (ry_rec s)\<rparr>)"
| live: "ry_writer s = WrFree \<Longrightarrow>
    rec_step ident io s (ELive cur) (s\<lparr>ry_writer := WrLive (liveInstances ident cur (ry_rec s))\<rparr>)"
| take: "ry_writer s = WrLive live \<Longrightarrow> takeSnapshot live (ry_rec s) = (r, rows, files, owed) \<Longrightarrow>
    rec_step ident io s ETake
      (s\<lparr>ry_rec := r,
         ry_writer := (if flushBatches ident io rows files owed = [] then WrFree else WrTaken rows files owed)\<rparr>)"
| wrote: "ry_writer s = WrTaken rows files owed \<Longrightarrow>
    ApplyRecord out (flushBatches ident io rows files owed) (ry_store s) = (st, e) \<Longrightarrow>
    rec_step ident io s (EWrite out)
      (s\<lparr>ry_store := st, ry_writer := (if e = None then WrWritten owed else WrFailed rows files owed)\<rparr>)"
| settled: "ry_writer s = WrWritten owed \<Longrightarrow>
    rec_step ident io s EEnd (s\<lparr>ry_rec := settle io owed (ry_rec s), ry_writer := WrFree\<rparr>)"
| remerged: "ry_writer s = WrFailed rows files owed \<Longrightarrow>
    rec_step ident io s EEnd (s\<lparr>ry_rec := remerge io rows files owed (ry_rec s), ry_writer := WrFree\<rparr>)"
| untrust: "ry_worker s = WkIdle \<Longrightarrow> untrustPurge j fi (ry_rec s) = (r, sq) \<Longrightarrow>
    rec_step ident io s (EUntrust j fi) (s\<lparr>ry_rec := r, ry_worker := WkOwes j fi sq\<rparr>)"
| untrust_busy: "ry_worker s = WkOwes j fi sq \<Longrightarrow>
    rec_step ident io s EUntrustBusy (s\<lparr>ry_worker := WkIdle\<rparr>)"
| untrust_write: "ry_worker s = WkOwes j fi sq \<Longrightarrow> ry_writer s = WrFree \<Longrightarrow>
    untrustWrite ident out j fi (ry_store s) = (st, e) \<Longrightarrow>
    rec_step ident io s (EUntrustWrite out)
      (s\<lparr>ry_store := st,
         ry_worker := (if e = None then WkWrote j fi sq else WkIdle),
         ry_writer := (if e = None then WrUntrust else WrFree)\<rparr>)"
| untrust_end: "ry_worker s = WkWrote j fi sq \<Longrightarrow>
    rec_step ident io s EUntrustEnd
      (s\<lparr>ry_rec := settleOwedLocked j fi sq (ry_rec s), ry_worker := WkIdle, ry_writer := WrFree\<rparr>)"
| apply_purge: "ry_writer s = WrFree \<Longrightarrow>
    rec_step ident io s (EApplyPurge j v files)
      (s\<lparr>ry_rec := applyPurge j v files (ry_rec s), ry_writer := WrApply j v files\<rparr>)"
| apply_write: "ry_writer s = WrApply j v files \<Longrightarrow>
    ApplyRecord out [\<lparr>rb_JobID = ident j, rb_Rows = [], rb_Files = files, rb_Verdicts = v\<rparr>] (ry_store s) = (st, e) \<Longrightarrow>
    rec_step ident io s (EApplyWrite out) (s\<lparr>ry_store := st, ry_writer := WrFree\<rparr>)"

inductive_cases rec_stepE: "rec_step ident io s e t"

text \<open>The order of a range over a map: every key once.\<close>

definition valid_order :: "iterOrder \<Rightarrow> bool" where
  "valid_order io \<longleftrightarrow>
     (\<forall>A. set (io_jobs io A) = fset A \<and> distinct (io_jobs io A)) \<and> (\<forall>A. set (io_files io A) = fset A)"

section \<open>The log\<close>

type_synonym rowLog = "int \<Rightarrow> WrittenRow option"

text \<open>The rows of file \<open>fi\<close> in a list by article, the later of two for one article winning.\<close>

definition rowMap :: "int \<Rightarrow> WrittenRow list \<Rightarrow> rowLog" where
  "rowMap fi rs = map_of (rev (map (\<lambda>r. (wr_ArtIdx r, r)) (filter (\<lambda>r. wr_FileIdx r = fi) rs)))"

definition storeMap :: "string \<Rightarrow> int \<Rightarrow> RecordStore \<Rightarrow> rowLog" where
  "storeMap jobID fi s = (\<lambda>a. written_articles s (jobID, fi, a))"

fun log_spec :: "inst \<Rightarrow> int \<Rightarrow> revent \<Rightarrow> rowLog \<Rightarrow> rowLog" where
  "log_spec j fi (ENote j' row) l = (if j' = j \<and> wr_FileIdx row = fi then l(wr_ArtIdx row \<mapsto> row) else l)"
| "log_spec j fi (EUntrust j' fi') l = (if j' = j \<and> fi' = fi then Map.empty else l)"
| "log_spec j fi _ l = l"

text \<open>What the recorder holds for a file: the store unless a delete is owed, the snapshot, the buffer.\<close>

definition deleteOwed :: "inst \<Rightarrow> int \<Rightarrow> recsys \<Rightarrow> bool" where
  "deleteOwed j fi s =
     (case ry_writer s of
        WrWritten carried \<Rightarrow> overrunLocked j (innerOf j carried) fi (ry_rec s)
      | _ \<Rightarrow> owedAt (rc_owed (ry_rec s)) j fi \<noteq> None)"

definition snapRows :: "inst \<Rightarrow> int \<Rightarrow> rowBuf \<Rightarrow> debts \<Rightarrow> recorder \<Rightarrow> rowLog" where
  "snapRows j fi rows carried r =
     (if overrunLocked j (innerOf j carried) fi r then Map.empty else rowMap fi (bufferedRows j rows))"

definition snapMap :: "inst \<Rightarrow> int \<Rightarrow> recsys \<Rightarrow> rowLog" where
  "snapMap j fi s =
     (case ry_writer s of
        WrTaken rows files carried \<Rightarrow> snapRows j fi rows carried (ry_rec s)
      | WrFailed rows files carried \<Rightarrow> snapRows j fi rows carried (ry_rec s)
      | _ \<Rightarrow> Map.empty)"

definition recordView :: "(inst \<Rightarrow> string) \<Rightarrow> inst \<Rightarrow> int \<Rightarrow> recsys \<Rightarrow> rowLog" where
  "recordView ident j fi s =
     (if deleteOwed j fi s then Map.empty else storeMap (ident j) fi (ry_store s)) ++
     snapMap j fi s ++ rowMap fi (bufferedRows j (rc_pending (ry_rec s)))"

section \<open>Tables\<close>

lemma rowMap_Nil [simp]: "rowMap fi [] = Map.empty"
  by (simp add: rowMap_def)

lemma rowMap_append [simp]: "rowMap fi (xs @ ys) = rowMap fi xs ++ rowMap fi ys"
  by (simp add: rowMap_def)

lemma rowMap_single: "rowMap fi [r] = (if wr_FileIdx r = fi then [wr_ArtIdx r \<mapsto> r] else Map.empty)"
  by (simp add: rowMap_def)

lemma rowMap_filter_file:
  "(\<And>r. r \<in> set rs \<Longrightarrow> wr_FileIdx r = fi \<Longrightarrow> P r \<longleftrightarrow> b) \<Longrightarrow>
     rowMap fi (filter P rs) = (if b then rowMap fi rs else Map.empty)"
  by (induction rs) (auto simp: rowMap_def split: if_splits)

lemma storeMap_insertRow [simp]:
  "storeMap J fi (insertRow J' r s) = (if J' = J then storeMap J fi s ++ rowMap fi [r] else storeMap J fi s)"
  by (auto simp: storeMap_def insertRow_def rowMap_single fun_eq_iff)

lemma storeMap_insert_fold [simp]:
  "storeMap J fi (fold (insertRow J') rs s) = (if J' = J then storeMap J fi s ++ rowMap fi rs else storeMap J fi s)"
proof (induction rs arbitrary: s)
  case (Cons r rs)
  show ?case using rowMap_append[of fi "[r]" rs] by (simp add: Cons.IH)
qed simp

lemma storeMap_deleteVerdict:
  "vd_DeleteAll v \<Longrightarrow>
     storeMap J fi (deleteVerdict J' v s) = (if J' = J \<and> vd_FileIdx v = fi then Map.empty else storeMap J fi s)"
  by (auto simp: storeMap_def deleteVerdict_def deleteWhere_def fun_eq_iff)

lemma storeMap_other_deletes: "J' \<noteq> J \<Longrightarrow> storeMap J fi (deleteVerdict J' v s) = storeMap J fi s"
proof -
  assume "J' \<noteq> J"
  then have "storeMap J fi (fold (\<lambda>x. deleteWhere (\<lambda>(k, f, a). k = J' \<and> f = vd_FileIdx v \<and> a = x)) xs s) =
      storeMap J fi s" for xs
    by (induction xs arbitrary: s) (simp_all add: storeMap_def deleteWhere_def)
  with \<open>J' \<noteq> J\<close> show ?thesis
    by (auto simp: deleteVerdict_def deleteWhere_def storeMap_def)
qed

lemma storeMap_updateJobFile [simp]: "storeMap J fi (updateJobFile J' fi' f s) = storeMap J fi s"
  by (auto simp: storeMap_def updateJobFile_def split: option.splits)

lemma storeMap_file_folds [simp]:
  "storeMap J fi (fold (storeFileState J') fs s) = storeMap J fi s"
  "storeMap J fi (fold (verdictComplete J') vs s) = storeMap J fi s"
  by (induction fs arbitrary: s, simp_all add: storeFileState_def)
     (induction vs arbitrary: s, simp_all add: verdictComplete_def)

lemma jobHasFiles_updateJobFile [simp]: "jobHasFiles J (updateJobFile J' fi f s) = jobHasFiles J s"
proof (cases "fmlookup (job_files s) (J', fi)")
  case (Some x)
  then have "(J', fi) |\<in>| fmdom (job_files s)" by (rule fmdomI)
  then have "fmdom (fmupd (J', fi) y (job_files s)) = fmdom (job_files s)" for y
    by (simp add: finsert_absorb)
  with Some show ?thesis by (simp add: jobHasFiles_def updateJobFile_def del: fmdom_fmupd)
qed (simp add: updateJobFile_def)

lemma jobHasFiles_deleteVerdict [simp]: "jobHasFiles J (deleteVerdict J' v s) = jobHasFiles J s"
proof -
  have one: "job_files (deleteWhere Q s) = job_files s" for Q s
    by (simp add: deleteWhere_def)
  have "job_files (fold (\<lambda>x. deleteWhere (\<lambda>(k, f, a). k = J' \<and> f = vd_FileIdx v \<and> a = x)) xs s) = job_files s" for xs
    by (induction xs arbitrary: s) (simp_all add: one)
  with one show ?thesis by (simp add: deleteVerdict_def jobHasFiles_def)
qed

lemma jobHasFiles_folds [simp]:
  "jobHasFiles J (fold (storeFileState J') fs s) = jobHasFiles J s"
  "jobHasFiles J (fold (verdictComplete J') vs s) = jobHasFiles J s"
  "jobHasFiles J (fold (insertRow J') rs s) = jobHasFiles J s"
  subgoal by (induction fs arbitrary: s) (simp_all add: storeFileState_def)
  subgoal by (induction vs arbitrary: s) (simp_all add: verdictComplete_def)
  subgoal by (induction rs arbitrary: s) (simp_all add: jobHasFiles_def insertRow_def)
  done

lemma verdictDeletes_keeps:
  "verdictDeletes J' vs s = Inr t \<Longrightarrow>
     jobHasFiles J t = jobHasFiles J s \<and> (J' \<noteq> J \<longrightarrow> storeMap J fi t = storeMap J fi s)"
  by (induction vs arbitrary: s) (auto simp: storeMap_other_deletes split: if_splits)

lemma verdictDeletes_all:
  "(\<And>v. v \<in> set vs \<Longrightarrow> vd_DeleteAll v \<and> \<not> vd_SetComplete v) \<Longrightarrow>
     \<exists>t. verdictDeletes J vs s = Inr t \<and>
         storeMap J fi t = (if fi \<in> vd_FileIdx ` set vs then Map.empty else storeMap J fi s)"
proof (induction vs arbitrary: s)
  case (Cons v vs)
  obtain t where "verdictDeletes J vs (deleteVerdict J v s) = Inr t"
    "storeMap J fi t = (if fi \<in> vd_FileIdx ` set vs then Map.empty else storeMap J fi (deleteVerdict J v s))"
    using Cons.IH[of "deleteVerdict J v s"] Cons.prems by auto
  with Cons.prems show ?case by (auto simp: storeMap_deleteVerdict)
qed simp

lemma insertRows_keeps [simp]:
  "jobHasFiles J (insertRows b s) = jobHasFiles J s"
  "rb_JobID b \<noteq> J \<Longrightarrow> storeMap J fi (insertRows b s) = storeMap J fi s"
  by (simp_all add: insertRows_def)

text \<open>A transaction for other jobs leaves a job's rows alone; none removes a job's file rows.\<close>

lemma applyBatch_keeps:
  "applyBatch b s = Inr t \<Longrightarrow>
     jobHasFiles J t = jobHasFiles J s \<and> (rb_JobID b \<noteq> J \<longrightarrow> storeMap J fi t = storeMap J fi s)"
  by (auto simp: applyBatch_def dest!: verdictDeletes_keeps[where J = J and fi = fi] split: sum.splits)

lemma applyBatches_keeps:
  "applyBatches bs s = Inr t \<Longrightarrow>
     jobHasFiles J t = jobHasFiles J s \<and> ((\<forall>b\<in>set bs. rb_JobID b \<noteq> J) \<longrightarrow> storeMap J fi t = storeMap J fi s)"
  by (induction bs arbitrary: s) (auto dest!: applyBatch_keeps[where J = J and fi = fi] split: sum.splits)

lemma ApplyRecord_keeps:
  assumes "ApplyRecord out bs s = (t, e)"
  shows "jobHasFiles J t = jobHasFiles J s"
    and "(\<And>b. b \<in> set bs \<Longrightarrow> rb_JobID b \<noteq> J) \<Longrightarrow> storeMap J fi t = storeMap J fi s"
  using assms applyBatches_keeps[of bs s _ J fi]
  by (auto simp: ApplyRecord_def split: if_splits sum.splits TxOutcome.splits)

lemma flush_verdict_file: "vd_FileIdx (flushVerdict files fi) = fi"
  by (simp add: flushVerdict_def untrustVerdict_def)

text \<open>The batch of an instance first deletes what is owed, then adds the snapshot's rows.\<close>

lemma applyBatch_flush:
  assumes "jobHasFiles (ident j) s"
  shows "\<exists>t. applyBatch (batchOf ident io rows files owed j) s = Inr t \<and>
    storeMap (ident j) fi t =
      (if owedAt owed j fi = None then storeMap (ident j) fi s else Map.empty) ++ rowMap fi (bufferedRows j rows)"
proof -
  let ?b = "batchOf ident io rows files owed j"
  have "vd_DeleteAll v \<and> \<not> vd_SetComplete v" if "v \<in> set (rb_Verdicts ?b)" for v
    using that by (auto simp: batchOf_def flushVerdict_def untrustVerdict_def)
  then obtain t where t: "verdictDeletes (ident j) (rb_Verdicts ?b) s = Inr t"
    "storeMap (ident j) fi t = (if fi \<in> vd_FileIdx ` set (rb_Verdicts ?b) then Map.empty else storeMap (ident j) fi s)"
    using verdictDeletes_all by blast
  have "vd_FileIdx ` set (rb_Verdicts ?b) = fset (fmdom (innerOf j owed))"
    by (simp add: batchOf_def image_image flush_verdict_file)
  then have "fi \<in> vd_FileIdx ` set (rb_Verdicts ?b) \<longleftrightarrow> owedAt owed j fi \<noteq> None"
    by (simp add: owedAt_def fmlookup_dom_iff)
  with t assms verdictDeletes_keeps[OF t(1), of "ident j"] show ?thesis
    by (auto simp: applyBatch_def insertRows_def batchOf_def)
qed

lemma applyBatch_flush_total: "\<exists>t. applyBatch (batchOf ident io rows files owed j) s = Inr t"
proof -
  have "\<exists>t. verdictDeletes J vs s = Inr t" if "\<And>v. v \<in> set vs \<Longrightarrow> vd_DeleteAll v \<and> \<not> vd_SetComplete v" for J vs
    using verdictDeletes_all[OF that] by blast
  moreover have "vd_DeleteAll v \<and> \<not> vd_SetComplete v"
    if "v \<in> set (rb_Verdicts (batchOf ident io rows files owed j))" for v
    using that by (auto simp: batchOf_def flushVerdict_def untrustVerdict_def)
  ultimately obtain t where
    "verdictDeletes (rb_JobID (batchOf ident io rows files owed j)) (rb_Verdicts (batchOf ident io rows files owed j)) s = Inr t"
    by blast
  then show ?thesis by (simp add: applyBatch_def)
qed

lemma applyBatches_flush:
  assumes "jobHasFiles (ident j) s" "distinct js" "\<And>k. k \<in> set js \<Longrightarrow> ident k = ident j \<Longrightarrow> k = j"
  shows "\<exists>t. applyBatches (map (batchOf ident io rows files owed) js) s = Inr t \<and>
    storeMap (ident j) fi t =
      (if j \<in> set js
       then (if owedAt owed j fi = None then storeMap (ident j) fi s else Map.empty) ++ rowMap fi (bufferedRows j rows)
       else storeMap (ident j) fi s)"
  using assms
proof (induction js arbitrary: s)
  case (Cons k js)
  obtain t where t: "applyBatch (batchOf ident io rows files owed k) s = Inr t"
    using applyBatch_flush_total by blast
  have keeps: "jobHasFiles (ident j) t" "k \<noteq> j \<Longrightarrow> storeMap (ident j) fi t = storeMap (ident j) fi s"
    using applyBatch_keeps[OF t, of "ident j" fi] Cons.prems by (auto simp: batchOf_def)
  obtain u where u: "applyBatches (map (batchOf ident io rows files owed) js) t = Inr u"
    "storeMap (ident j) fi u =
       (if j \<in> set js
        then (if owedAt owed j fi = None then storeMap (ident j) fi t else Map.empty) ++ rowMap fi (bufferedRows j rows)
        else storeMap (ident j) fi t)"
    using Cons.IH[OF keeps(1)] Cons.prems by auto
  show ?case
  proof (cases "k = j")
    case True
    with t applyBatch_flush[of ident j s io rows files owed fi] u Cons.prems show ?thesis by auto
  next
    case False
    with t u keeps show ?thesis by auto
  qed
qed simp

lemma ApplyRecord_flush:
  assumes "ApplyRecord out (flushBatches ident io rows files owed) s = (t, e)" "valid_order io"
    "jobHasFiles (ident j) s" "\<And>k. k \<in> fset (fmdom rows |\<union>| fmdom files |\<union>| fmdom owed) \<Longrightarrow> ident k = ident j \<Longrightarrow> k = j"
    and new_def: "new = (if owedAt owed j fi = None then storeMap (ident j) fi s else Map.empty) ++ rowMap fi (bufferedRows j rows)"
  shows "if e = None then storeMap (ident j) fi t = new
         else storeMap (ident j) fi t = storeMap (ident j) fi s \<or> storeMap (ident j) fi t = new"
proof -
  let ?js = "io_jobs io (fmdom rows |\<union>| fmdom files |\<union>| fmdom owed)"
  have js: "set ?js = fset (fmdom rows |\<union>| fmdom files |\<union>| fmdom owed)" "distinct ?js"
    using assms(2) by (auto simp: valid_order_def)
  obtain u where u: "applyBatches (flushBatches ident io rows files owed) s = Inr u"
    "storeMap (ident j) fi u = (if j \<in> set ?js then new else storeMap (ident j) fi s)"
    using applyBatches_flush[of ident j s ?js io rows files owed fi] assms(3,4) js
    by (auto simp: flushBatches_def new_def)
  have same: "new = storeMap (ident j) fi s" if "j \<notin> set ?js"
    using that js(1) by (auto simp: new_def owedAt_def innerOf_def bufferedRows_def fmdom_notD)
  with u have "storeMap (ident j) fi u = new" by auto
  moreover have "flushBatches ident io rows files owed = [] \<Longrightarrow> j \<notin> set ?js"
    by (auto simp: flushBatches_def)
  ultimately show ?thesis
    using assms(1) u(1) same by (auto simp: ApplyRecord_def split: if_splits TxOutcome.splits)
qed

section \<open>The buffer's operations, seen from one file\<close>

lemma bufferedRows_fmupd [simp]:
  "bufferedRows k (fmupd j rs m) = (if k = j then rs else bufferedRows k m)"
  "bufferedRows k (fmdrop j m) = (if k = j then [] else bufferedRows k m)"
  by (simp_all add: bufferedRows_def)

lemma innerOf_fmupd [simp]:
  "innerOf k (fmupd j x m) = (if k = j then x else innerOf k m)"
  "innerOf k (fmdrop j m) = (if k = j then fmempty else innerOf k m)"
  by (simp_all add: innerOf_def)

lemma noteRow_effect [simp]:
  "bufferedRows k (rc_pending (noteRow j row r)) = bufferedRows k (rc_pending r) @ (if k = j then [row] else [])"
  "rc_owed (noteRow j row r) = rc_owed r" "rc_owedSeq (noteRow j row r) = rc_owedSeq r"
  by (simp_all add: noteRow_def)

lemma markDirty_effect [simp]:
  "rc_pending (markDirty j fi st r) = rc_pending r" "rc_owed (markDirty j fi st r) = rc_owed r"
  "rc_owedSeq (markDirty j fi st r) = rc_owedSeq r"
  by (simp_all add: markDirty_def)

lemma set_buffers_effect [simp]:
  "bufferedRows k (rc_pending (setRows j rs r)) = (if k = j then rs else bufferedRows k (rc_pending r))"
  "rc_owed (setRows j rs r) = rc_owed r" "rc_owedSeq (setRows j rs r) = rc_owedSeq r"
  "rc_pending (setDirty j m r) = rc_pending r" "rc_owed (setDirty j m r) = rc_owed r"
  "rc_owedSeq (setDirty j m r) = rc_owedSeq r"
  by (simp_all add: setRows_def setDirty_def)

lemma purgeLocked_effect [simp]:
  "rc_owed (purgeLocked j v r) = rc_owed r" "rc_owedSeq (purgeLocked j v r) = rc_owedSeq r"
  "k \<noteq> j \<Longrightarrow> bufferedRows k (rc_pending (purgeLocked j v r)) = bufferedRows k (rc_pending r)"
  by (simp_all add: purgeLocked_def Let_def)

lemma purge_untrust_rows:
  "rowMap fi (bufferedRows k (rc_pending (purgeLocked j (untrustVerdict fi') r))) =
     (if k = j \<and> fi = fi' then Map.empty else rowMap fi (bufferedRows k (rc_pending r)))"
proof (cases "k = j")
  case True
  have "rowMap fi (filter (\<lambda>row. \<not> dropsRow (untrustVerdict fi') row) rs) =
      (if fi \<noteq> fi' then rowMap fi rs else Map.empty)" for rs
    by (rule rowMap_filter_file) (auto simp: dropsRow_def untrustVerdict_def)
  moreover have "bufferedRows k (rc_pending (purgeLocked j (untrustVerdict fi') r)) =
      filter (\<lambda>row. \<not> dropsRow (untrustVerdict fi') row) (bufferedRows j (rc_pending r))"
    using True by (simp add: purgeLocked_def Let_def untrustVerdict_def)
  ultimately show ?thesis using True by simp
qed simp

lemma purges_effect:
  "rc_owed (fold (purgeLocked j) vs r) = rc_owed r" "rc_owedSeq (fold (purgeLocked j) vs r) = rc_owedSeq r"
  "k \<noteq> j \<Longrightarrow> bufferedRows k (rc_pending (fold (purgeLocked j) vs r)) = bufferedRows k (rc_pending r)"
  by (induction vs arbitrary: r) simp_all

lemma applyPurge_effect [simp]:
  "rc_owed (applyPurge j v fs r) = rc_owed r" "rc_owedSeq (applyPurge j v fs r) = rc_owedSeq r"
  "k \<noteq> j \<Longrightarrow> bufferedRows k (rc_pending (applyPurge j v fs r)) = bufferedRows k (rc_pending r)"
  by (simp_all add: applyPurge_def Let_def purges_effect split: option.splits)

lemma owedAt_upd [simp]:
  "owedAt (fmupd j (fmupd fi sq (innerOf j m)) m) k fk = (if k = j \<and> fk = fi then Some sq else owedAt m k fk)"
  by (simp add: owedAt_def)

lemma untrustPurge_effect:
  assumes "untrustPurge j fi r = (t, sq)"
  shows "rowMap fk (bufferedRows k (rc_pending t)) =
           (if k = j \<and> fk = fi then Map.empty else rowMap fk (bufferedRows k (rc_pending r)))"
    and "owedAt (rc_owed t) k fk = (if k = j \<and> fk = fi then Some sq else owedAt (rc_owed r) k fk)"
    and "rc_owedSeq t = sq" and "sq = rc_owedSeq r + 1"
proof -
  have t: "t = (purgeLocked j (untrustVerdict fi) r)\<lparr>rc_owedSeq := sq,
        rc_owed := fmupd j (fmupd fi sq (innerOf j (rc_owed r))) (rc_owed r)\<rparr>" and sq: "sq = rc_owedSeq r + 1"
    using assms by (auto simp: untrustPurge_def Let_def)
  show "rowMap fk (bufferedRows k (rc_pending t)) =
      (if k = j \<and> fk = fi then Map.empty else rowMap fk (bufferedRows k (rc_pending r)))"
    by (simp add: t purge_untrust_rows)
  show "owedAt (rc_owed t) k fk = (if k = j \<and> fk = fi then Some sq else owedAt (rc_owed r) k fk)"
    "rc_owedSeq t = sq" "sq = rc_owedSeq r + 1"
    using sq by (simp_all add: t)
qed

lemma settleOwedLocked_effect [simp]:
  "rc_pending (settleOwedLocked j fi sq r) = rc_pending r" "rc_owedSeq (settleOwedLocked j fi sq r) = rc_owedSeq r"
  "owedAt (rc_owed (settleOwedLocked j fi sq r)) k fk =
     (if k = j \<and> fk = fi \<and> owedAt (rc_owed r) j fi = Some sq then None else owedAt (rc_owed r) k fk)"
proof -
  show "owedAt (rc_owed (settleOwedLocked j fi sq r)) k fk =
     (if k = j \<and> fk = fi \<and> owedAt (rc_owed r) j fi = Some sq then None else owedAt (rc_owed r) k fk)"
  proof (cases "fmdrop fi (innerOf j (rc_owed r)) = fmempty")
    case True
    then have "fk \<noteq> fi \<Longrightarrow> fmlookup (innerOf j (rc_owed r)) fk = None"
      by (metis fmempty_lookup fmlookup_drop)
    with True show ?thesis by (auto simp: settleOwedLocked_def Let_def owedAt_def)
  qed (auto simp: settleOwedLocked_def Let_def owedAt_def)
qed (simp_all add: settleOwedLocked_def Let_def)

lemma fold_nested: "fold (\<lambda>j. fold (f j) (g j)) js r = fold (\<lambda>(j, x). f j x) (concat (map (\<lambda>j. map (Pair j) (g j)) js)) r"
  by (induction js arbitrary: r) (simp_all add: fold_map comp_def)

lemma settle_pairs:
  "rc_pending (fold (\<lambda>(j, fi). settleOwedLocked j fi (q j fi)) ps r) = rc_pending r"
  "rc_owedSeq (fold (\<lambda>(j, fi). settleOwedLocked j fi (q j fi)) ps r) = rc_owedSeq r"
  "owedAt (rc_owed (fold (\<lambda>(j, fi). settleOwedLocked j fi (q j fi)) ps r)) k fk =
     (if (k, fk) \<in> set ps \<and> owedAt (rc_owed r) k fk = Some (q k fk) then None else owedAt (rc_owed r) k fk)"
  by (induction ps arbitrary: r) (auto simp: split_beta)

lemma settle_effect [simp]:
  assumes "valid_order io"
  shows "rc_pending (settle io carried r) = rc_pending r" "rc_owedSeq (settle io carried r) = rc_owedSeq r"
    "owedAt (rc_owed (settle io carried r)) k fk =
       (if owedAt (rc_owed r) k fk = owedAt carried k fk then None else owedAt (rc_owed r) k fk)"
proof -
  let ?ps = "concat (map (\<lambda>j. map (Pair j) (io_files io (fmdom (innerOf j carried)))) (io_jobs io (fmdom carried)))"
  have s: "settle io carried r = fold (\<lambda>(j, fi). settleOwedLocked j fi (the (owedAt carried j fi))) ?ps r"
    unfolding settle_def by (rule fold_nested)
  have "(k, fk) \<in> set ?ps \<longleftrightarrow> k |\<in>| fmdom carried \<and> fk |\<in>| fmdom (innerOf k carried)"
    using assms by (auto simp: valid_order_def)
  also have "\<dots> \<longleftrightarrow> owedAt carried k fk \<noteq> None"
    by (auto simp: owedAt_def innerOf_def fmlookup_dom_iff split: option.splits)
  finally have "(k, fk) \<in> set ?ps \<longleftrightarrow> owedAt carried k fk \<noteq> None" .
  then show "owedAt (rc_owed (settle io carried r)) k fk =
       (if owedAt (rc_owed r) k fk = owedAt carried k fk then None else owedAt (rc_owed r) k fk)"
    unfolding s settle_pairs by auto
  show "rc_pending (settle io carried r) = rc_pending r" "rc_owedSeq (settle io carried r) = rc_owedSeq r"
    unfolding s settle_pairs by simp_all
qed

lemma remergeFile_effect [simp]:
  "rc_pending (remergeFile c fs j fi r) = rc_pending r" "rc_owed (remergeFile c fs j fi r) = rc_owed r"
  "rc_owedSeq (remergeFile c fs j fi r) = rc_owedSeq r"
  by (simp_all add: remergeFile_def)

lemma remergeFiles_effect [simp]:
  "rc_pending (fold (\<lambda>(j, fi). remergeFile c fs j fi) ps r) = rc_pending r"
  "rc_owed (fold (\<lambda>(j, fi). remergeFile c fs j fi) ps r) = rc_owed r"
  "rc_owedSeq (fold (\<lambda>(j, fi). remergeFile c fs j fi) ps r) = rc_owedSeq r"
  by (induction ps arbitrary: r) (auto simp: split_beta)

lemma overrun_cong: "rc_owed r = rc_owed t \<Longrightarrow> overrunLocked j m fi r = overrunLocked j m fi t"
  by (simp add: overrunLocked_def)

text \<open>A failed snapshot goes back in front of the buffer, without the files an untrust has overrun.\<close>

lemma remergeRows_effect [simp]:
  "rc_owed (remergeRows c rows j r) = rc_owed r" "rc_owedSeq (remergeRows c rows j r) = rc_owedSeq r"
  "bufferedRows k (rc_pending (remergeRows c rows j r)) =
     (if k = j then filter (\<lambda>row. \<not> overrunLocked j (innerOf j c) (wr_FileIdx row) r) (bufferedRows j rows) else []) @
     bufferedRows k (rc_pending r)"
  by (simp_all add: remergeRows_def Let_def)

lemma remergeRows_fold:
  assumes "distinct js"
  shows "rc_owed (fold (remergeRows c rows) js r) = rc_owed r"
    and "rc_owedSeq (fold (remergeRows c rows) js r) = rc_owedSeq r"
    and "bufferedRows k (rc_pending (fold (remergeRows c rows) js r)) =
     (if k \<in> set js then filter (\<lambda>row. \<not> overrunLocked k (innerOf k c) (wr_FileIdx row) r) (bufferedRows k rows) else []) @
     bufferedRows k (rc_pending r)"
  using assms by (induction js arbitrary: r) (auto simp: overrun_cong[of "remergeRows c rows _ _"])

lemma remerge_effect [simp]:
  assumes "valid_order io"
  shows "rc_owed (remerge io rows files c r) = rc_owed r" "rc_owedSeq (remerge io rows files c r) = rc_owedSeq r"
    "rowMap fi (bufferedRows k (rc_pending (remerge io rows files c r))) =
       snapRows k fi rows c r ++ rowMap fi (bufferedRows k (rc_pending r))"
proof -
  let ?js = "io_jobs io (fmdom rows)"
  let ?r = "fold (remergeRows c rows) ?js r"
  have js: "set ?js = fset (fmdom rows)" "distinct ?js" using assms by (auto simp: valid_order_def)
  note effs = remergeRows_fold[OF js(2), where c = c and rows = rows and r = r]
  show "rc_owed (remerge io rows files c r) = rc_owed r" "rc_owedSeq (remerge io rows files c r) = rc_owedSeq r"
    using effs(1,2) by (simp_all add: remerge_def fold_nested)
  have out: "bufferedRows k rows = []" if "k \<notin> set ?js"
    using that js(1) by (simp add: bufferedRows_def fmdom_notD)
  have "rowMap fi (filter (\<lambda>row. \<not> overrunLocked k (innerOf k c) (wr_FileIdx row) r) (bufferedRows k rows)) =
      (if \<not> overrunLocked k (innerOf k c) fi r then rowMap fi (bufferedRows k rows) else Map.empty)"
    by (rule rowMap_filter_file) simp
  with out show "rowMap fi (bufferedRows k (rc_pending (remerge io rows files c r))) =
       snapRows k fi rows c r ++ rowMap fi (bufferedRows k (rc_pending r))"
    by (auto simp: remerge_def fold_nested effs(3) snapRows_def)
qed

lemma live_lookup:
  "fmlookup (liveInstances ident cur r) k = Some b \<Longrightarrow> b = isCurrent ident cur k"
  by (auto simp: liveInstances_def fmlookup_of_list dest: map_of_SomeD)

lemma takeSnapshot_effect:
  assumes "takeSnapshot live r = (t, rows, files, owed)"
  shows "bufferedRows k (rc_pending t) = (if fmlookup live k = None then bufferedRows k (rc_pending r) else [])"
    and "bufferedRows k rows = (if fmlookup live k = Some True then bufferedRows k (rc_pending r) else [])"
    and "owedAt (rc_owed t) k fi = (if fmlookup live k = Some False then None else owedAt (rc_owed r) k fi)"
    and "owedAt owed k fi = (if fmlookup live k = Some True then owedAt (rc_owed r) k fi else None)"
    and "rc_owedSeq t = rc_owedSeq r"
    and "k \<in> fset (fmdom rows |\<union>| fmdom files |\<union>| fmdom owed) \<Longrightarrow> fmlookup live k = Some True"
  using assms
  by (auto simp: takeSnapshot_def takeRowsLocked_def takeFilesLocked_def owedLocked_def takeUnchecked_def takeCurrent_def
      bufferedRows_def owedAt_def innerOf_def split: option.splits if_splits)

section \<open>The invariant\<close>

text \<open>
  What the surrounding code keeps for a registered instance \<open>j\<close>: each time a flush asks the registry it
  holds \<open>j\<close> and no other instance under its ID, and no other instance under that ID is untrusted. Verdicts
  applied under the ID are left out: \<open>apply\<close> serves the hydration of a restored job, which is registered
  by then but has had nothing written, so the log starts after it.
\<close>

fun serves :: "(inst \<Rightarrow> string) \<Rightarrow> inst \<Rightarrow> revent \<Rightarrow> bool" where
  "serves ident j (ELive cur) \<longleftrightarrow> isCurrent ident cur j \<and> (\<forall>k. k \<noteq> j \<and> ident k = ident j \<longrightarrow> \<not> isCurrent ident cur k)"
| "serves ident j (EUntrust k fi) \<longleftrightarrow> (ident k = ident j \<longrightarrow> k = j)"
| "serves ident j (EApplyPurge k v fs) \<longleftrightarrow> ident k \<noteq> ident j"
| "serves ident j _ \<longleftrightarrow> True"

fun untrusts :: "revent list \<Rightarrow> nat" where
  "untrusts [] = 0"
| "untrusts (EUntrust j fi # es) = Suc (untrusts es)"
| "untrusts (_ # es) = untrusts es"

definition tracked :: "inst \<Rightarrow> int \<Rightarrow> debts \<Rightarrow> recorder \<Rightarrow> bool" where
  "tracked j fi carried r \<longleftrightarrow>
     (\<forall>q. owedAt carried j fi = Some q \<longrightarrow> q \<le> rc_owedSeq r) \<and>
     (owedAt (rc_owed r) j fi = owedAt carried j fi \<or> overrunLocked j (innerOf j carried) fi r)"

definition onlyInstance :: "(inst \<Rightarrow> string) \<Rightarrow> inst \<Rightarrow> rowBuf \<Rightarrow> fileBuf \<Rightarrow> debts \<Rightarrow> bool" where
  "onlyInstance ident j rows files owed \<longleftrightarrow>
     (\<forall>k. k |\<in>| fmdom rows |\<union>| fmdom files |\<union>| fmdom owed \<longrightarrow> ident k = ident j \<longrightarrow> k = j)"

fun writer_ok :: "(inst \<Rightarrow> string) \<Rightarrow> inst \<Rightarrow> int \<Rightarrow> recorder \<Rightarrow> writer \<Rightarrow> bool" where
  "writer_ok ident j fi r (WrLive live) \<longleftrightarrow>
     fmlookup live j \<noteq> Some False \<and> (\<forall>k. k \<noteq> j \<and> ident k = ident j \<longrightarrow> fmlookup live k \<noteq> Some True)"
| "writer_ok ident j fi r (WrTaken rows files owed) \<longleftrightarrow> onlyInstance ident j rows files owed \<and> tracked j fi owed r"
| "writer_ok ident j fi r (WrFailed rows files owed) \<longleftrightarrow> tracked j fi owed r"
| "writer_ok ident j fi r (WrWritten owed) \<longleftrightarrow> tracked j fi owed r"
| "writer_ok ident j fi r (WrApply k v fs) \<longleftrightarrow> ident k \<noteq> ident j"
| "writer_ok ident j fi r _ \<longleftrightarrow> True"

fun worker_ok :: "(inst \<Rightarrow> string) \<Rightarrow> inst \<Rightarrow> int \<Rightarrow> recsys \<Rightarrow> worker \<Rightarrow> bool" where
  "worker_ok ident j fi s (WkOwes k fk sq) \<longleftrightarrow>
     (ident k = ident j \<longrightarrow> k = j) \<and> (k = j \<and> fk = fi \<longrightarrow> recordView ident j fi s = Map.empty)"
| "worker_ok ident j fi s (WkWrote k fk sq) \<longleftrightarrow>
     ry_writer s = WrUntrust \<and>
     (k = j \<and> fk = fi \<longrightarrow> recordView ident j fi s = Map.empty \<and> storeMap (ident j) fi (ry_store s) = Map.empty)"
| "worker_ok ident j fi s WkIdle \<longleftrightarrow> True"

definition rec_inv :: "(inst \<Rightarrow> string) \<Rightarrow> iterOrder \<Rightarrow> inst \<Rightarrow> int \<Rightarrow> revent list \<Rightarrow> recsys \<Rightarrow> bool" where
  "rec_inv ident io j fi es s \<longleftrightarrow>
     valid_order io \<and> jobHasFiles (ident j) (ry_store s) \<and>
     (\<forall>q. owedAt (rc_owed (ry_rec s)) j fi = Some q \<longrightarrow> 0 < q \<and> q \<le> rc_owedSeq (ry_rec s)) \<and>
     unat (rc_owedSeq (ry_rec s)) + untrusts es < 2 ^ 64 \<and>
     (\<forall>e\<in>set es. serves ident j e) \<and>
     writer_ok ident j fi (ry_rec s) (ry_writer s) \<and> worker_ok ident j fi s (ry_worker s)"

lemma untrusts_Cons: "untrusts (e # es) = (case e of EUntrust _ _ \<Rightarrow> Suc (untrusts es) | _ \<Rightarrow> untrusts es)"
  by (cases e) simp_all

lemma overrun_iff:
  "overrunLocked j (innerOf j carried) fi r \<longleftrightarrow>
     (\<exists>c. owedAt (rc_owed r) j fi = Some c \<and> (case owedAt carried j fi of None \<Rightarrow> 0 | Some x \<Rightarrow> x) < c)"
  by (simp add: overrunLocked_def owedAt_def split: option.splits)

lemma next_seq:
  "unat (w :: 64 word) + Suc n < 2 ^ 64 \<Longrightarrow> unat (w + 1) = Suc (unat w) \<and> w < w + 1 \<and> 0 < w + 1"
proof -
  assume "unat w + Suc n < 2 ^ 64"
  then have "unat (w + 1) = Suc (unat w)"
    by (simp add: unat_word_ariths)
  then show ?thesis by (simp add: word_less_nat_alt)
qed

lemma untrust_tracked:
  assumes "untrustPurge k fk r = (t, sq)" "tracked j fi carried r" "unat (rc_owedSeq r) + Suc n < 2 ^ 64"
  shows "tracked j fi carried t"
  using assms(2) next_seq[OF assms(3)] untrustPurge_effect(2,3,4)[OF assms(1)]
  by (auto simp: tracked_def overrun_iff split: option.splits)

lemma untrust_store:
  assumes "untrustWrite ident out k fk s = (t, e)" "ident k = ident j \<longrightarrow> k = j"
  shows "storeMap (ident j) fi t =
    (if k = j \<and> fk = fi \<and> out \<noteq> TxRolledBack then Map.empty else storeMap (ident j) fi s)"
    and "e = None \<longleftrightarrow> out = TxCommitted"
proof -
  let ?b = "\<lparr>rb_JobID = ident k, rb_Rows = [], rb_Files = [], rb_Verdicts = [untrustVerdict fk]\<rparr>"
  obtain u where u: "verdictDeletes (ident k) [untrustVerdict fk] s = Inr u"
    "storeMap (ident j) fi u = (if ident k = ident j \<and> fk = fi then Map.empty else storeMap (ident j) fi s)"
    by (simp add: untrustVerdict_def storeMap_deleteVerdict)
  then have "applyBatches [?b] s = Inr (verdictComplete (ident k) (untrustVerdict fk) u)"
    by (simp add: applyBatch_def insertRows_def)
  moreover have "storeMap (ident j) fi (verdictComplete (ident k) (untrustVerdict fk) u) = storeMap (ident j) fi u"
    using storeMap_file_folds(2)[of "ident j" fi "ident k" "[untrustVerdict fk]" u] by simp
  ultimately show "storeMap (ident j) fi t =
      (if k = j \<and> fk = fi \<and> out \<noteq> TxRolledBack then Map.empty else storeMap (ident j) fi s)"
    "e = None \<longleftrightarrow> out = TxCommitted"
    using assms u(2) by (auto simp: untrustWrite_def ApplyRecord_def split: TxOutcome.splits)
qed

lemma map_add_again: "m ++ r ++ r = m ++ r"
  by (auto simp: map_add_def fun_eq_iff split: option.splits)

lemmas view_defs = recordView_def deleteOwed_def snapMap_def snapRows_def

lemma view_step:
  assumes "rec_step ident io s e t" "rec_inv ident io j fi (e # es) s"
  shows "recordView ident j fi t = log_spec j fi e (recordView ident j fi s)"
  using assms(1)
proof cases
  case (noted k row)
  then show ?thesis by (auto simp: view_defs overrunLocked_def rowMap_single split: writer.splits)
next
  case (dirty k fk st)
  then show ?thesis by (simp add: view_defs overrunLocked_def split: writer.splits)
next
  case (live cur)
  then show ?thesis by (simp add: view_defs)
next
  case (take lv r rows files owed)
  note eff = takeSnapshot_effect[OF take(4)]
  have lv: "fmlookup lv j \<noteq> Some False" using assms(2) take by (simp add: rec_inv_def)
  have o: "overrunLocked j (innerOf j owed) fi r \<longrightarrow> bufferedRows j rows = []"
    using lv by (auto simp: overrun_iff eff split: option.splits)
  have "rowMap fi (bufferedRows j rows) ++ rowMap fi (bufferedRows j (rc_pending r)) =
      rowMap fi (bufferedRows j (rc_pending (ry_rec s)))"
    using lv by (auto simp: eff)
  moreover have "bufferedRows j rows = []" if "flushBatches ident io rows files owed = []"
  proof -
    have "io_jobs io (fmdom rows |\<union>| fmdom files |\<union>| fmdom owed) = []" using that by (simp add: flushBatches_def)
    then have "fmdom rows = {||}" using assms(2)
      by (metis rec_inv_def valid_order_def set_empty bot_fset.rep_eq fset_inject sup_eq_bot_iff)
    then show ?thesis by (simp add: bufferedRows_def fmdom_notD)
  qed
  ultimately show ?thesis using take o lv by (auto simp: view_defs eff simp flip: map_add_assoc)
next
  case (wrote rows files owed out st err)
  have inv: "onlyInstance ident j rows files owed" "tracked j fi owed (ry_rec s)"
    using assms(2) wrote by (simp_all add: rec_inv_def)
  define new where
    "new = (if owedAt owed j fi = None then storeMap (ident j) fi (ry_store s) else Map.empty) ++ rowMap fi (bufferedRows j rows)"
  have st: "if err = None then storeMap (ident j) fi st = new
      else storeMap (ident j) fi st = storeMap (ident j) fi (ry_store s) \<or> storeMap (ident j) fi st = new"
  proof (rule ApplyRecord_flush[OF wrote(4)])
    show "valid_order io" "jobHasFiles (ident j) (ry_store s)" using assms(2) by (simp_all add: rec_inv_def)
    show "k = j" if "k \<in> fset (fmdom rows |\<union>| fmdom files |\<union>| fmdom owed)" "ident k = ident j" for k
      using inv(1) that by (auto simp: onlyInstance_def)
  qed (rule new_def)
  have "owedAt (rc_owed (ry_rec s)) j fi = owedAt owed j fi" if "\<not> overrunLocked j (innerOf j owed) fi (ry_rec s)"
    using that inv(2) by (simp add: tracked_def)
  moreover have "owedAt (rc_owed (ry_rec s)) j fi \<noteq> None" if "overrunLocked j (innerOf j owed) fi (ry_rec s)"
    using that by (auto simp: overrun_iff)
  ultimately show ?thesis using wrote st
    by (cases "overrunLocked j (innerOf j owed) fi (ry_rec s)") (auto simp: view_defs new_def map_add_again split: if_splits)
next
  case (settled owed)
  have "valid_order io" "tracked j fi owed (ry_rec s)" using assms(2) settled by (simp_all add: rec_inv_def)
  then show ?thesis using settled by (auto simp: view_defs tracked_def overrun_iff split: option.splits)
next
  case (remerged rows files owed)
  have "valid_order io" using assms(2) by (simp add: rec_inv_def)
  with remerged show ?thesis by (simp add: view_defs)
next
  case (untrust k fk r sq)
  note eff = untrustPurge_effect[OF untrust(4)]
  have inv: "writer_ok ident j fi (ry_rec s) (ry_writer s)" and seq: "unat (rc_owedSeq (ry_rec s)) + Suc (untrusts es) < 2 ^ 64"
    using assms(2) untrust by (simp_all add: rec_inv_def)
  then show ?thesis using untrust next_seq[OF seq]
    by (auto simp: view_defs overrun_iff eff tracked_def split: writer.splits option.splits)
next
  case (untrust_busy k fk sq)
  then show ?thesis by (simp add: view_defs split: writer.splits)
next
  case (untrust_write k fk sq out st err)
  have "worker_ok ident j fi s (WkOwes k fk sq)" using assms(2) untrust_write by (simp add: rec_inv_def)
  moreover have "storeMap (ident j) fi st = storeMap (ident j) fi (ry_store s) \<or> k = j \<and> fk = fi \<and> storeMap (ident j) fi st = Map.empty"
    using untrust_store(1)[OF untrust_write(5), of j fi] calculation by auto
  ultimately show ?thesis using untrust_write by (auto simp: view_defs)
next
  case (untrust_end k fk sq)
  have "worker_ok ident j fi s (WkWrote k fk sq)" using assms(2) untrust_end by (simp add: rec_inv_def)
  with untrust_end show ?thesis by (auto simp: view_defs)
next
  case (apply_purge k v files)
  moreover have "j \<noteq> k" using assms(2) apply_purge by (auto simp: rec_inv_def)
  ultimately show ?thesis by (simp add: view_defs overrunLocked_def)
next
  case (apply_write k v files out st err)
  moreover have "storeMap (ident j) fi st = storeMap (ident j) fi (ry_store s)"
    using assms(2) apply_write by (intro ApplyRecord_keeps(2)[OF apply_write(4)]) (auto simp: rec_inv_def)
  ultimately show ?thesis by (simp add: view_defs)
qed

text \<open>
  The invariant's writer part after each step; the worker's part holds because the view has not changed
  under an untrust in progress.
\<close>

lemma writer_ok_owed:
  "rc_owed r = rc_owed t \<Longrightarrow> rc_owedSeq r = rc_owedSeq t \<Longrightarrow> writer_ok ident j fi r w = writer_ok ident j fi t w"
  by (cases w) (simp_all add: tracked_def overrunLocked_def)

lemma writer_ok_untrust:
  assumes "untrustPurge k fk r = (t, sq)" "writer_ok ident j fi r w" "unat (rc_owedSeq r) + Suc n < 2 ^ 64"
  shows "writer_ok ident j fi t w"
  using assms(2) untrust_tracked[OF assms(1) _ assms(3)] by (cases w) simp_all

lemma take_tracked:
  assumes "takeSnapshot lv r = (t, rows, files, owed)" "fmlookup lv j \<noteq> Some False"
    "\<And>q. owedAt (rc_owed r) j fi = Some q \<Longrightarrow> 0 < q \<and> q \<le> rc_owedSeq r"
  shows "tracked j fi owed t"
  using assms(2,3) takeSnapshot_effect(3,4,5)[OF assms(1)]
  by (auto simp: tracked_def overrun_iff split: option.splits)

lemma inv_writer:
  assumes "rec_step ident io s e t" "rec_inv ident io j fi (e # es) s"
  shows "writer_ok ident j fi (ry_rec t) (ry_writer t)"
  using assms(1)
proof cases
  case (noted k row)
  then show ?thesis using assms(2) writer_ok_owed[of "noteRow k row (ry_rec s)" "ry_rec s"] by (simp add: rec_inv_def)
next
  case (dirty k fk st)
  then show ?thesis using assms(2) writer_ok_owed[of "markDirty k fk st (ry_rec s)" "ry_rec s"] by (simp add: rec_inv_def)
next
  case (live cur)
  then show ?thesis using assms(2) by (auto simp: rec_inv_def dest: live_lookup)
next
  case (take lv r rows files owed)
  note eff = takeSnapshot_effect[OF take(4)]
  have "fmlookup lv j \<noteq> Some False" and others: "\<forall>k. k \<noteq> j \<and> ident k = ident j \<longrightarrow> fmlookup lv k \<noteq> Some True"
    using assms(2) take by (simp_all add: rec_inv_def)
  then have "tracked j fi owed r" using assms(2) by (intro take_tracked[OF take(4)]) (auto simp: rec_inv_def)
  moreover have "onlyInstance ident j rows files owed" using eff(6) others by (auto simp: onlyInstance_def)
  ultimately show ?thesis using take by simp
next
  case (untrust k fk r sq)
  then show ?thesis using assms(2) writer_ok_untrust[OF untrust(4), of ident j fi _ "untrusts es"]
    by (simp add: rec_inv_def)
next
  case (untrust_end k fk sq)
  then show ?thesis by simp
qed (use assms(2) in \<open>auto simp: rec_inv_def\<close>)

lemma inv_owed:
  assumes "rec_step ident io s e t" "rec_inv ident io j fi (e # es) s"
  shows "(\<forall>q. owedAt (rc_owed (ry_rec t)) j fi = Some q \<longrightarrow> 0 < q \<and> q \<le> rc_owedSeq (ry_rec t)) \<and>
         unat (rc_owedSeq (ry_rec t)) + untrusts es < 2 ^ 64"
  using assms(1)
proof cases
  case (take lv r rows files owed)
  then show ?thesis using assms(2) takeSnapshot_effect(3,5)[OF take(4)] by (simp add: rec_inv_def)
next
  case (untrust k fk r sq)
  have "unat (rc_owedSeq (ry_rec s)) + Suc (untrusts es) < 2 ^ 64" using assms(2) untrust by (simp add: rec_inv_def)
  then show ?thesis
    using untrust assms(2) untrustPurge_effect(2,3,4)[OF untrust(4)] next_seq[of "rc_owedSeq (ry_rec s)" "untrusts es"]
    by (auto simp: rec_inv_def intro: order_trans less_imp_le)
qed (use assms(2) in \<open>auto simp: rec_inv_def\<close>)

lemma inv_files:
  assumes "rec_step ident io s e t" "jobHasFiles J (ry_store s)"
  shows "jobHasFiles J (ry_store t)"
  using assms by cases (auto simp: untrustWrite_def dest: ApplyRecord_keeps(1)[where J = J])

lemma inv_worker:
  assumes "rec_step ident io s e t" "rec_inv ident io j fi (e # es) s"
  shows "worker_ok ident j fi t (ry_worker t)"
proof -
  have v: "recordView ident j fi t = log_spec j fi e (recordView ident j fi s)"
    using view_step[OF assms] .
  have w: "worker_ok ident j fi s (ry_worker s)" using assms(2) by (simp add: rec_inv_def)
  show ?thesis using assms(1)
  proof cases
    case (untrust k fk r sq)
    then show ?thesis using v assms(2) by (auto simp: rec_inv_def)
  next
    case (untrust_write k fk sq out st err)
    then have "worker_ok ident j fi s (WkOwes k fk sq)" using w by simp
    then show ?thesis using untrust_write v untrust_store(1)[OF untrust_write(5), of j fi] untrust_store(2)[OF untrust_write(5), of j] by auto
  qed (use v w in \<open>cases "ry_worker s"; auto\<close>)+
qed

lemma inv_step:
  assumes "rec_step ident io s e t" "rec_inv ident io j fi (e # es) s"
  shows "rec_inv ident io j fi es t"
  using inv_writer[OF assms] inv_owed[OF assms] inv_worker[OF assms] inv_files[OF assms(1)] assms(2)
  by (simp add: rec_inv_def)

interpretation rl: log_simulation "rec_step ident io" "rec_inv ident io j fi" "recordView ident j fi" "log_spec j fi"
  by unfold_locales (rule inv_step view_step, assumption, assumption)+

section \<open>Theorems\<close>

text \<open>C8: Started with an empty buffer, the recorder implements a log of written rows. For a registered
  instance, after any interleaving of notes, dirty marks, flushes, untrusts and verdicts for other jobs,
  with every transaction committing, failing or committing unreported, the rows of a file it holds
  (store, snapshot in flight and buffer together, an owed delete hiding the store) are those noted
  since the file was last untrusted, the latest per article, over what the store held at the start.
  Once the buffer and the debts of the instance are empty and no write is in flight, the store is that log.
\<close>

theorem recorder_refines_log:
  assumes "event_run (rec_step ident io) s es t" "valid_order io"
    and "ry_rec s = newRecorder" "ry_writer s = WrFree" "ry_worker s = WkIdle"
    and "jobHasFiles (ident j) (ry_store s)" "\<forall>e\<in>set es. serves ident j e" "untrusts es < 2 ^ 64"
  shows "recordView ident j fi t = fold (log_spec j fi) es (storeMap (ident j) fi (ry_store s)) \<and>
    (ry_writer t = WrFree \<and> j |\<notin>| fmdom (rc_pending (ry_rec t)) \<and> j |\<notin>| fmdom (rc_owed (ry_rec t)) \<longrightarrow>
       storeMap (ident j) fi (ry_store t) = fold (log_spec j fi) es (storeMap (ident j) fi (ry_store s)))"
proof -
  have "rec_inv ident io j fi es s" using assms(2-8) by (simp add: rec_inv_def newRecorder_def owedAt_def innerOf_def)
  then have "recordView ident j fi t = fold (log_spec j fi) es (recordView ident j fi s)"
    using rl.run_view[OF assms(1)] by blast
  moreover have "recordView ident j fi s = storeMap (ident j) fi (ry_store s)"
    using assms(3,4) by (simp add: view_defs newRecorder_def owedAt_def innerOf_def bufferedRows_def)
  moreover have "recordView ident j fi t = storeMap (ident j) fi (ry_store t)"
    if "ry_writer t = WrFree" "j |\<notin>| fmdom (rc_pending (ry_rec t))" "j |\<notin>| fmdom (rc_owed (ry_rec t))"
    using that by (simp add: view_defs owedAt_def innerOf_def bufferedRows_def fmdom_notD)
  ultimately show ?thesis by auto
qed

text \<open>An example: two jobs, a row noted, flushed by a failing transaction while the file is untrusted.\<close>

definition xIdent :: "inst \<Rightarrow> string" where
  "xIdent j = (if j = 0 then ''a'' else ''b'')"

definition xOrder :: iterOrder where
  "xOrder = \<lparr>io_jobs = sorted_list_of_fset, io_files = sorted_list_of_fset\<rparr>"

definition xWritten :: "int \<Rightarrow> WrittenRow" where
  "xWritten a = \<lparr>wr_FileIdx = 0, wr_ArtIdx = a, wr_Offset = 10 * a, wr_Length = 10, wr_CRC32 = 7\<rparr>"

definition xStore :: RecordStore where
  "xStore = \<lparr>written_articles = Map.empty,
     job_files = fmupd (''a'', 0) \<lparr>jf_complete = True, jf_filename = ''f'', jf_fetch_policy = FetchAlways\<rparr> fmempty\<rparr>"

definition xSys :: recsys where
  "xSys = \<lparr>ry_rec = newRecorder, ry_store = xStore, ry_writer = WrFree, ry_worker = WkIdle\<rparr>"

definition xNoted :: recorder where
  "xNoted = noteRow 0 (xWritten 1) newRecorder"

definition xRows :: rowBuf where
  "xRows = fmupd 0 [xWritten 1] fmempty"

definition xEvents :: "revent list" where
  "xEvents = [ENote 0 (xWritten 1), ELive (\<lambda>_ _. Some 0), ETake, EUntrust 0 0, EWrite TxCommitted, EEnd, EUntrustBusy,
     ENote 0 (xWritten 2)]"

lemma xSnapshot:
  "takeSnapshot (liveInstances xIdent (\<lambda>_ _. Some 0) xNoted) xNoted = (newRecorder, xRows, fmempty, fmempty)"
  by code_simp

lemma xBatches: "flushBatches xIdent xOrder xRows fmempty fmempty \<noteq> []"
  by (simp add: flushBatches_def xRows_def xOrder_def sorted_list_of_fset.rep_eq)

lemma xApply: "snd (ApplyRecord TxCommitted bs s) = None" if "bs = flushBatches xIdent xOrder xRows fmempty fmempty" for s
  using applyBatch_flush_total[of xIdent xOrder xRows fmempty fmempty 0 s]
  by (auto simp: that ApplyRecord_def flushBatches_def xRows_def xOrder_def sorted_list_of_fset.rep_eq)

lemma xOrder_valid: "valid_order xOrder"
  by (simp add: valid_order_def xOrder_def sorted_list_of_fset.rep_eq)

lemma xRun: "\<exists>t. event_run (rec_step xIdent xOrder) xSys xEvents t"
proof -
  let ?st = "rec_step xIdent xOrder"
  define s1 where "s1 = xSys\<lparr>ry_rec := xNoted\<rparr>"
  define s2 where "s2 = s1\<lparr>ry_writer := WrLive (liveInstances xIdent (\<lambda>_ _. Some 0) xNoted)\<rparr>"
  define s3 where "s3 = s2\<lparr>ry_rec := newRecorder, ry_writer := WrTaken xRows fmempty fmempty\<rparr>"
  obtain r sq where pg: "untrustPurge 0 0 newRecorder = (r, sq)" by fastforce
  define s4 where "s4 = s3\<lparr>ry_rec := r, ry_worker := WkOwes 0 0 sq\<rparr>"
  obtain st e where ap: "ApplyRecord TxCommitted (flushBatches xIdent xOrder xRows fmempty fmempty) xStore = (st, e)"
    by fastforce
  then have "e = None" using xApply[OF HOL.refl, of xStore] by simp
  define s5 where "s5 = s4\<lparr>ry_store := st, ry_writer := WrWritten fmempty\<rparr>"
  define s6 where "s6 = s5\<lparr>ry_rec := settle xOrder fmempty (ry_rec s5), ry_writer := WrFree\<rparr>"
  define s7 where "s7 = s6\<lparr>ry_worker := WkIdle\<rparr>"
  have "?st xSys (ENote 0 (xWritten 1)) s1"
    unfolding s1_def xNoted_def using rec_step.noted[of xSys xIdent xOrder 0 "xWritten 1"] by (simp add: xSys_def)
  moreover have "?st s1 (ELive (\<lambda>_ _. Some 0)) s2"
    unfolding s2_def using rec_step.live[of s1 xIdent xOrder "\<lambda>_ _. Some 0"] by (simp add: s1_def xSys_def)
  moreover have "?st s2 ETake s3"
    unfolding s3_def using rec_step.take[of s2 _ newRecorder xRows fmempty fmempty xIdent xOrder] xSnapshot xBatches
    by (simp add: s2_def s1_def)
  moreover have "?st s3 (EUntrust 0 0) s4"
    unfolding s4_def using rec_step.untrust[of s3 0 0 r sq xIdent xOrder] pg by (simp add: s3_def s2_def s1_def xSys_def)
  moreover have "?st s4 (EWrite TxCommitted) s5"
    unfolding s5_def using rec_step.wrote[of s4 xRows fmempty fmempty TxCommitted xIdent xOrder st e] ap \<open>e = None\<close>
    by (simp add: s4_def s3_def s2_def s1_def xSys_def)
  moreover have "?st s5 EEnd s6"
    unfolding s6_def using rec_step.settled[of s5 fmempty xIdent xOrder] by (simp add: s5_def)
  moreover have "?st s6 EUntrustBusy s7"
    unfolding s7_def using rec_step.untrust_busy[of s6 0 0 sq xIdent xOrder] by (simp add: s6_def s5_def s4_def)
  moreover have "?st s7 (ENote 0 (xWritten 2)) (s7\<lparr>ry_rec := noteRow 0 (xWritten 2) (ry_rec s7)\<rparr>)"
    using rec_step.noted[of s7 xIdent xOrder 0 "xWritten 2"] by (simp add: s7_def)
  ultimately show ?thesis unfolding xEvents_def event_run.simps by blast
qed

text \<open>
  At work: a flush carries row 1 to the store while the file is untrusted and the untrust cannot get the
  writer lock; the refetched row 2 is all the recorder then holds.
\<close>

theorem recorder_refines_log_witness:
  "\<exists>t. event_run (rec_step xIdent xOrder) xSys xEvents t \<and> recordView xIdent 0 0 t = [2 \<mapsto> xWritten 2]"
proof -
  obtain t where t: "event_run (rec_step xIdent xOrder) xSys xEvents t" using xRun by blast
  have "recordView xIdent 0 0 t = fold (log_spec 0 0) xEvents (storeMap (xIdent 0) 0 (ry_store xSys))"
  proof (rule recorder_refines_log[THEN conjunct1, OF t xOrder_valid])
    show "\<forall>e\<in>set xEvents. serves xIdent 0 e" by (simp add: xEvents_def isCurrent_def xIdent_def)
    show "untrusts xEvents < 2 ^ 64" by (simp add: xEvents_def)
    show "jobHasFiles (xIdent 0) (ry_store xSys)" by (simp add: xSys_def xIdent_def xStore_def jobHasFiles_def)
  qed (simp_all add: xSys_def)
  also have "\<dots> = [2 \<mapsto> xWritten 2]"
    by (simp add: xEvents_def storeMap_def xSys_def xStore_def xWritten_def)
  finally show ?thesis using t by blast
qed

end
