(* ===== verification/Recorder_Flush.thy ===== *)
theory Recorder_Flush
  imports Recorder_Safety
begin

text \<open>
  A flush of the recorder that nothing interrupts: its transaction carries a file's rows, its complete
  flag, name and policy and its owed delete together, and one that fails puts everything back.
\<close>

section \<open>The file table\<close>

definition fileAt :: "string \<Rightarrow> int \<Rightarrow> RecordStore \<Rightarrow> JobFileRow option" where
  "fileAt jobID fi s = fmlookup (job_files s) (jobID, fi)"

definition asJobFile :: "FileState \<Rightarrow> JobFileRow" where
  "asJobFile st = \<lparr>jf_complete = st_Complete st, jf_filename = st_Filename st, jf_fetch_policy = st_FetchPolicy st\<rparr>"

text \<open>Every buffered file state is filed under its own index.\<close>

definition dirtyKeyed :: "(int, FileState) fmap \<Rightarrow> bool" where
  "dirtyKeyed m \<longleftrightarrow> (\<forall>fi st. fmlookup m fi = Some st \<longrightarrow> int (st_FileIdx st) = fi)"

lemma fileAt_update [simp]:
  "fileAt J fi (updateJobFile J' fi' f s) = (if J' = J \<and> fi' = fi then map_option f (fileAt J fi s) else fileAt J fi s)"
  by (auto simp: fileAt_def updateJobFile_def split: option.splits)

lemma job_files_deleteVerdict [simp]: "job_files (deleteVerdict J v s) = job_files s"
proof -
  have one: "job_files (deleteWhere Q s) = job_files s" for Q s
    by (simp add: deleteWhere_def)
  have "job_files (fold (\<lambda>x. deleteWhere (\<lambda>(k, f, a). k = J \<and> f = vd_FileIdx v \<and> a = x)) xs s) = job_files s" for xs
    by (induction xs arbitrary: s) (simp_all add: one)
  with one show ?thesis by (simp add: deleteVerdict_def)
qed

lemma job_files_rows [simp]:
  "verdictDeletes J vs s = Inr t \<Longrightarrow> job_files t = job_files s"
  "job_files (insertRows b s) = job_files s"
proof -
  show "verdictDeletes J vs s = Inr t \<Longrightarrow> job_files t = job_files s"
    by (induction vs arbitrary: s) (auto split: if_splits)
  have "job_files (fold (insertRow (rb_JobID b)) rs s) = job_files s" for rs
    by (induction rs arbitrary: s) (simp_all add: insertRow_def)
  then show "job_files (insertRows b s) = job_files s" by (simp add: insertRows_def)
qed

lemma fileAt_states:
  assumes "dirtyKeyed m" "set ks \<subseteq> fset (fmdom m)"
  shows "fileAt J fi (fold (storeFileState J') (map (\<lambda>k. the (fmlookup m k)) ks) s) =
    (if J' = J \<and> fi \<in> set ks then map_option (\<lambda>_. asJobFile (the (fmlookup m fi))) (fileAt J fi s) else fileAt J fi s)"
  using assms(2)
proof (induction ks arbitrary: s)
  case (Cons k ks)
  then obtain st where st: "fmlookup m k = Some st" by (auto dest: fmdomE)
  then have "int (st_FileIdx st) = k" using assms(1) by (simp add: dirtyKeyed_def)
  with Cons st show ?case by (auto simp: storeFileState_def asJobFile_def option.map_comp comp_def)
qed simp

lemma fileAt_verdicts:
  "fileAt J fi (fold (verdictComplete J') (map (flushVerdict m) ks) s) =
    (if J' = J \<and> fi \<in> set ks \<and> fi |\<notin>| fmdom m then map_option (\<lambda>x. x\<lparr>jf_complete := False\<rparr>) (fileAt J fi s)
     else fileAt J fi s)"
  by (induction ks arbitrary: s)
    (auto simp: verdictComplete_def flushVerdict_def untrustVerdict_def option.map_comp comp_def)

text \<open>The file row a batch leaves: the marked state, or the old row, complete cleared if a delete was owed.\<close>

definition newFile :: "fileBuf \<Rightarrow> debts \<Rightarrow> inst \<Rightarrow> int \<Rightarrow> JobFileRow \<Rightarrow> JobFileRow" where
  "newFile files owed j fi x =
     (case fmlookup (innerOf j files) fi of
        Some st \<Rightarrow> asJobFile st
      | None \<Rightarrow> if owedAt owed j fi = None then x else x\<lparr>jf_complete := False\<rparr>)"

lemma applyBatch_file:
  assumes "applyBatch (batchOf ident io rows files owed k) s = Inr t" "valid_order io" "dirtyKeyed (innerOf k files)"
  shows "fileAt J fi t = (if ident k = J then map_option (newFile files owed k fi) (fileAt J fi s) else fileAt J fi s)"
proof -
  let ?b = "batchOf ident io rows files owed k" and ?m = "innerOf k files"
  let ?fs = "map (\<lambda>x. the (fmlookup ?m x)) (io_files io (fmdom ?m))"
  let ?vs = "map (flushVerdict ?m) (sorted_list_of_fset (fmdom (innerOf k owed)))"
  have b: "rb_Files ?b = ?fs" "rb_Verdicts ?b = ?vs" "rb_JobID ?b = ident k" by (simp_all add: batchOf_def)
  obtain u where u: "verdictDeletes (ident k) ?vs s = Inr u"
    and t: "t = fold (verdictComplete (ident k)) ?vs (fold (storeFileState (ident k)) ?fs (insertRows ?b u))"
    using assms(1) by (auto simp: applyBatch_def b)
  obtain w where w: "w = insertRows ?b u" "fileAt J fi w = fileAt J fi s" using u by (auto simp: fileAt_def)
  have ks: "set (io_files io (fmdom ?m)) = fset (fmdom ?m)" using assms(2) by (simp add: valid_order_def)
  have "fileAt J fi (fold (storeFileState (ident k)) ?fs w) =
      (if ident k = J \<and> fi |\<in>| fmdom ?m then map_option (\<lambda>_. asJobFile (the (fmlookup ?m fi))) (fileAt J fi s) else fileAt J fi s)"
    using fileAt_states[OF assms(3), of "io_files io (fmdom ?m)" J fi "ident k" w] ks w(2) by simp
  then show ?thesis
    by (cases "fileAt J fi s")
      (auto simp: t fileAt_verdicts w(1)[symmetric] newFile_def owedAt_def fmlookup_dom_iff split: option.splits)
qed

lemma applyBatches_file:
  assumes "applyBatches (map (batchOf ident io rows files owed) js) s = Inr t" "valid_order io"
    "\<And>k. dirtyKeyed (innerOf k files)" "distinct js" "\<And>k. k \<in> set js \<Longrightarrow> ident k = ident j \<Longrightarrow> k = j"
  shows "fileAt (ident j) fi t =
    (if j \<in> set js then map_option (newFile files owed j fi) (fileAt (ident j) fi s) else fileAt (ident j) fi s)"
  using assms(1,4,5)
proof (induction js arbitrary: s)
  case (Cons k js)
  obtain u where u: "applyBatch (batchOf ident io rows files owed k) s = Inr u"
    "applyBatches (map (batchOf ident io rows files owed) js) u = Inr t"
    using Cons.prems(1) by auto
  have "fileAt (ident j) fi t =
      (if j \<in> set js then map_option (newFile files owed j fi) (fileAt (ident j) fi u) else fileAt (ident j) fi u)"
    using Cons.IH[OF u(2)] Cons.prems(2,3) by simp
  moreover have "ident k = ident j \<longleftrightarrow> k = j" using Cons.prems(3)[of k] by auto
  ultimately show ?case using applyBatch_file[OF u(1) assms(2,3), of "ident j" fi] Cons.prems(2) by auto
qed simp

section \<open>The uninterrupted flush\<close>

lemma takeFetchPolicyChanges_buffers:
  "takeFetchPolicyChanges js (jobs, r) = (jobs1, r1) \<Longrightarrow> rc_pending r1 = rc_pending r \<and> rc_owed r1 = rc_owed r"
proof (induction js arbitrary: jobs r)
  case (Cons j js)
  have "rc_pending (fold (\<lambda>st. markDirty j (st_FileIdx st) st) sts r) = rc_pending r \<and>
      rc_owed (fold (\<lambda>st. markDirty j (st_FileIdx st) st) sts r) = rc_owed r" for sts
    by (induction sts arbitrary: r) simp_all
  with Cons show ?case by (auto simp: split_beta Let_def)
qed simp

lemma live_iff:
  "fmlookup (liveInstances ident cur r) k =
     (if k |\<in>| fmdom (rc_pending r) |\<union>| fmdom (rc_dirty r) |\<union>| fmdom (rc_owed r) then Some (isCurrent ident cur k) else None)"
  by (simp add: liveInstances_def fmlookup_of_list map_of_map_restrict restrict_map_def)

lemma takeSnapshot_dirty:
  assumes "takeSnapshot live r = (t, rows, files, owed)"
  shows "innerOf k (rc_dirty t) = (if fmlookup live k = None then innerOf k (rc_dirty r) else fmempty)"
    and "innerOf k files = (if fmlookup live k = Some True then innerOf k (rc_dirty r) else fmempty)"
    and "innerOf k owed = (if fmlookup live k = Some True then innerOf k (rc_owed r) else fmempty)"
  using assms
  by (auto simp: takeSnapshot_def takeRowsLocked_def takeFilesLocked_def owedLocked_def takeUnchecked_def takeCurrent_def
      innerOf_def split: option.splits if_splits)

text \<open>For a current instance the snapshot takes everything the buffer has of it.\<close>

lemma snapshot_of_current:
  assumes "takeSnapshot (liveInstances ident cur r) r = (t, rows, files, owed)" "isCurrent ident cur j"
  shows "bufferedRows j rows = bufferedRows j (rc_pending r)" "bufferedRows j (rc_pending t) = []"
    "innerOf j files = innerOf j (rc_dirty r)" "innerOf j (rc_dirty t) = fmempty"
    "owedAt owed j fi = owedAt (rc_owed r) j fi" "owedAt (rc_owed t) j fi = owedAt (rc_owed r) j fi"
proof -
  have no: "bufferedRows j (rc_pending r) = [] \<and> innerOf j (rc_dirty r) = fmempty \<and> innerOf j (rc_owed r) = fmempty"
    if "fmlookup (liveInstances ident cur r) j = None"
    using that by (auto simp: live_iff bufferedRows_def innerOf_def fmdom_notD split: if_splits)
  have yes: "fmlookup (liveInstances ident cur r) j \<noteq> Some False" using assms(2) by (simp add: live_iff)
  then have "fmlookup (liveInstances ident cur r) j = None \<or> fmlookup (liveInstances ident cur r) j = Some True"
    by (cases "fmlookup (liveInstances ident cur r) j") auto
  then show "bufferedRows j rows = bufferedRows j (rc_pending r)" "bufferedRows j (rc_pending t) = []"
    "innerOf j files = innerOf j (rc_dirty r)" "innerOf j (rc_dirty t) = fmempty"
    "owedAt owed j fi = owedAt (rc_owed r) j fi" "owedAt (rc_owed t) j fi = owedAt (rc_owed r) j fi"
    using no takeSnapshot_effect[OF assms(1)] takeSnapshot_dirty[OF assms(1)] by (auto simp: owedAt_def)
qed

lemma remerge_files_one:
  assumes "\<And>fi. \<not> overrunLocked j (innerOf j c) fi r" "\<And>k fi. (k, fi) \<in> set ps \<Longrightarrow> fi |\<in>| fmdom (innerOf k files)"
  shows "fmlookup (innerOf j (rc_dirty (fold (\<lambda>(k, fi). remergeFile c files k fi) ps r))) fi =
    (case fmlookup (innerOf j (rc_dirty r)) fi of
       Some x \<Rightarrow> Some x
     | None \<Rightarrow> if (j, fi) \<in> set ps then fmlookup (innerOf j files) fi else None)"
  using assms
proof (induction ps arbitrary: r)
  case (Cons p ps)
  obtain k fk where p: "p = (k, fk)" by (cases p)
  have "fk |\<in>| fmdom (innerOf k files)" using Cons.prems(2)[of k fk] p by simp
  then obtain x where x: "fmlookup (innerOf k files) fk = Some x" by (rule fmdomE)
  have "\<not> overrunLocked j (innerOf j c) y (remergeFile c files k fk r)" for y
    using Cons.prems(1) overrun_cong[of "remergeFile c files k fk r" r] by simp
  then have "fmlookup (innerOf j (rc_dirty (fold (\<lambda>(k, fi). remergeFile c files k fi) ps (remergeFile c files k fk r)))) fi =
    (case fmlookup (innerOf j (rc_dirty (remergeFile c files k fk r))) fi of
       Some x \<Rightarrow> Some x
     | None \<Rightarrow> if (j, fi) \<in> set ps then fmlookup (innerOf j files) fi else None)"
    using Cons.prems(2) by (intro Cons.IH) auto
  moreover have "fmlookup (innerOf j (rc_dirty (remergeFile c files k fk r))) fi =
      (case fmlookup (innerOf j (rc_dirty r)) fi of Some y \<Rightarrow> Some y | None \<Rightarrow> if (j, fi) = (k, fk) then Some x else None)"
    using Cons.prems(1)[of fk] x by (auto simp: remergeFile_def fmlookup_dom_iff split: option.splits)
  ultimately show ?case using x by (auto simp: p split: option.splits)
qed (simp split: option.splits)

text \<open>The snapshot of a current instance that comes back after a failed write is as it was.\<close>

lemma remerge_restores:
  assumes "takeSnapshot (liveInstances ident cur r) r = (t, rows, files, owed)" "isCurrent ident cur j" "valid_order io"
  defines "u \<equiv> remerge io rows files owed t"
  shows "bufferedRows j (rc_pending u) = bufferedRows j (rc_pending r)"
    "innerOf j (rc_dirty u) = innerOf j (rc_dirty r)" "owedAt (rc_owed u) j fi = owedAt (rc_owed r) j fi"
proof -
  note snap = snapshot_of_current[OF assms(1,2)]
  have no: "\<not> overrunLocked j (innerOf j owed) x t" for x
    using snap(5,6)[of x] by (auto simp: overrun_iff split: option.splits)
  let ?js = "io_jobs io (fmdom rows)"
  let ?w = "fold (remergeRows owed rows) ?js t"
  let ?ps = "concat (map (\<lambda>j. map (Pair j) (io_files io (fmdom (innerOf j files)))) (io_jobs io (fmdom files)))"
  have js: "set ?js = fset (fmdom rows)" "distinct ?js" using assms(3) by (auto simp: valid_order_def)
  note rows_back = remergeRows_fold[OF js(2), where c = owed and rows = rows and r = t]
  have u: "u = fold (\<lambda>(j, fi). remergeFile owed files j fi) ?ps ?w"
    by (simp add: u_def remerge_def fold_nested)
  have "j \<notin> set ?js \<Longrightarrow> bufferedRows j rows = []"
    using js(1) by (simp add: bufferedRows_def fmdom_notD)
  then show "bufferedRows j (rc_pending u) = bufferedRows j (rc_pending r)"
    using rows_back(3)[of j] no snap(1,2) by (auto simp: u)
  have dirty_same: "rc_dirty ?w = rc_dirty t"
  proof -
    have "rc_dirty (fold (remergeRows owed rows) xs t) = rc_dirty t" for xs
      by (induction xs arbitrary: t) (simp_all add: remergeRows_def Let_def)
    then show ?thesis .
  qed
  have ps: "(k, x) \<in> set ?ps \<longleftrightarrow> k |\<in>| fmdom files \<and> x |\<in>| fmdom (innerOf k files)" for k x
    using assms(3) by (auto simp: valid_order_def)
  have "\<not> overrunLocked j (innerOf j owed) x ?w" for x
    using no overrun_cong[OF rows_back(1)] by simp
  then have "fmlookup (innerOf j (rc_dirty u)) x = fmlookup (innerOf j (rc_dirty r)) x" for x
    unfolding u using remerge_files_one[of j owed ?w ?ps files x] ps[of j x] snap(3,4) ps
    by (auto simp: dirty_same innerOf_def fmlookup_dom_iff split: option.splits)
  then show "innerOf j (rc_dirty u) = innerOf j (rc_dirty r)" by (rule fmap_ext)
  show "owedAt (rc_owed u) j fi = owedAt (rc_owed r) j fi"
    using snap(6)[of fi] rows_back(1) by (simp add: u)
qed

lemma markDirty_keyed: "dirtyKeyed (innerOf k (rc_dirty r)) \<Longrightarrow> dirtyKeyed (innerOf k (rc_dirty (markDirty j fi st r)))"
  by (auto simp: dirtyKeyed_def markDirty_def)

lemma takeFetchPolicyChanges_keyed:
  "takeFetchPolicyChanges js (jobs, r) = (jobs1, r1) \<Longrightarrow> dirtyKeyed (innerOf k (rc_dirty r)) \<Longrightarrow> dirtyKeyed (innerOf k (rc_dirty r1))"
proof (induction js arbitrary: jobs r)
  case (Cons j js)
  have "dirtyKeyed (innerOf k (rc_dirty (fold (\<lambda>st. markDirty j (st_FileIdx st) st) sts r)))" for sts
    using Cons.prems(2) by (induction sts arbitrary: r) (simp_all add: markDirty_keyed)
  with Cons.IH Cons.prems(1) show ?case by (auto simp: split_beta Let_def)
qed simp

lemma ApplyRecord_flush_file:
  assumes "ApplyRecord TxCommitted (flushBatches ident io rows files owed) s = (t, e)" "valid_order io"
    "\<And>k. dirtyKeyed (innerOf k files)" "onlyInstance ident j rows files owed"
  shows "e = None" "fileAt (ident j) fi t = map_option (newFile files owed j fi) (fileAt (ident j) fi s)"
proof -
  let ?js = "io_jobs io (fmdom rows |\<union>| fmdom files |\<union>| fmdom owed)"
  have js: "set ?js = fset (fmdom rows |\<union>| fmdom files |\<union>| fmdom owed)" "distinct ?js"
    using assms(2) by (auto simp: valid_order_def)
  have "\<exists>u. applyBatches (map (batchOf ident io rows files owed) xs) s = Inr u" for xs
  proof (induction xs arbitrary: s)
    case (Cons k xs)
    then show ?case using applyBatch_flush_total[of ident io rows files owed k s] by auto
  qed simp
  then obtain u where u: "applyBatches (flushBatches ident io rows files owed) s = Inr u"
    unfolding flushBatches_def by blast
  then have f: "fileAt (ident j) fi u =
      (if j \<in> set ?js then map_option (newFile files owed j fi) (fileAt (ident j) fi s) else fileAt (ident j) fi s)"
    unfolding flushBatches_def using js assms(2-4)
    by (intro applyBatches_file) (auto simp: onlyInstance_def)
  have same: "map_option (newFile files owed j fi) x = x" if "j \<notin> set ?js" for x
    using that js(1) by (cases x) (auto simp: newFile_def owedAt_def innerOf_def fmdom_notD)
  have "?js = []" if "flushBatches ident io rows files owed = []" using that by (simp add: flushBatches_def)
  then show "e = None" "fileAt (ident j) fi t = map_option (newFile files owed j fi) (fileAt (ident j) fi s)"
    using assms(1) u f same by (auto simp: ApplyRecord_def split: if_splits)
qed

lemma flush_none:
  "valid_order io \<Longrightarrow> flushBatches ident io rows files owed = [] \<Longrightarrow> fmdom rows |\<union>| fmdom files |\<union>| fmdom owed = {||}"
  unfolding flushBatches_def valid_order_def by (metis map_is_Nil_conv set_empty bot_fset.rep_eq fset_inject)

lemma settle_dirty: "rc_dirty (settle io owed r) = rc_dirty r"
proof -
  have "rc_dirty (settleOwedLocked j fi sq r) = rc_dirty r" for j fi sq r by (simp add: settleOwedLocked_def Let_def)
  then have "rc_dirty (fold (\<lambda>(j, fi). settleOwedLocked j fi (the (owedAt owed j fi))) ps r) = rc_dirty r" for ps
    by (induction ps arbitrary: r) (simp_all add: split_beta)
  then show ?thesis unfolding settle_def fold_nested .
qed

lemma flush_snapshot_only:
  assumes "takeSnapshot (liveInstances ident cur r) r = (t, rows, files, owed)"
    "\<And>k. k \<noteq> j \<Longrightarrow> ident k = ident j \<Longrightarrow> \<not> isCurrent ident cur k"
  shows "onlyInstance ident j rows files owed"
  using takeSnapshot_effect(6)[OF assms(1)] assms(2) by (force simp: onlyInstance_def live_iff split: if_splits)

text \<open>C38: A flush is all or nothing for the registered instance it serves. When its transaction commits, the
  store holds the file's rows with the owed delete applied first and the buffered rows over them, the file
  row has the marked state (or, with a delete owed and no state marked, complete cleared), and buffer and
  debt are empty. When the transaction fails, the buffer and the debts are what they were with the
  fetch-policy changes marked, and a rolled back one leaves the store alone.
\<close>

theorem flush_all_or_nothing:
  assumes "flushLocked ident io listed cur out (jobs, r, s) = ((jobs', r', s'), err)"
    and "takeFetchPolicyChanges listed (jobs, r) = (jobs1, r1)" "valid_order io"
    and "isCurrent ident cur j" "\<forall>k. k \<noteq> j \<and> ident k = ident j \<longrightarrow> \<not> isCurrent ident cur k"
    and "jobHasFiles (ident j) s" "\<forall>k. dirtyKeyed (innerOf k (rc_dirty r))"
  shows "if out = TxCommitted
    then err = None \<and>
      storeMap (ident j) fi s' =
        (if owedAt (rc_owed r) j fi = None then storeMap (ident j) fi s else Map.empty) ++
        rowMap fi (bufferedRows j (rc_pending r)) \<and>
      fileAt (ident j) fi s' = map_option (newFile (rc_dirty r1) (rc_owed r) j fi) (fileAt (ident j) fi s) \<and>
      bufferedRows j (rc_pending r') = [] \<and> innerOf j (rc_dirty r') = fmempty \<and> owedAt (rc_owed r') j fi = None
    else (out = TxRolledBack \<longrightarrow> s' = s) \<and>
      bufferedRows j (rc_pending r') = bufferedRows j (rc_pending r) \<and>
      innerOf j (rc_dirty r') = innerOf j (rc_dirty r1) \<and> owedAt (rc_owed r') j fi = owedAt (rc_owed r) j fi"
proof -
  obtain r2 rows files owed where snap: "takeSnapshot (liveInstances ident cur r1) r1 = (r2, rows, files, owed)"
    by (metis prod_cases4)
  note took = snapshot_of_current[OF snap assms(4)]
  note same = takeFetchPolicyChanges_buffers[OF assms(2)]
  have only: "onlyInstance ident j rows files owed" using flush_snapshot_only[OF snap] assms(5) by blast
  have own: "k = j" if "k \<in> fset (fmdom rows |\<union>| fmdom files |\<union>| fmdom owed)" "ident k = ident j" for k
    using only that by (auto simp: onlyInstance_def)
  have keyed: "dirtyKeyed (innerOf k files)" for k
  proof -
    have "dirtyKeyed (innerOf k (rc_dirty r1))" using takeFetchPolicyChanges_keyed[OF assms(2)] assms(7) by blast
    moreover have "dirtyKeyed fmempty" by (simp add: dirtyKeyed_def)
    ultimately show ?thesis unfolding takeSnapshot_dirty(2)[OF snap] by simp
  qed
  obtain t e where ap: "ApplyRecord out (flushBatches ident io rows files owed) s = (t, e)" by fastforce
  let ?none = "flushBatches ident io rows files owed = []"
  have fl: "s' = t" "err = e" "r' = (if ?none then r2 else if e = None then settle io owed r2 else remerge io rows files owed r2)"
    using assms(1) unfolding flushLocked_def Let_def prod.case assms(2) snap ap
    using ap by (auto simp: ApplyRecord_def split: if_splits option.splits)
  have none: "bufferedRows j rows = []" "innerOf j files = fmempty" "owedAt owed j fi = None" if "?none"
    using that flush_none[OF assms(3)] by (auto simp: bufferedRows_def innerOf_def owedAt_def fmdom_notD)
  show ?thesis
  proof (cases "out = TxCommitted")
    case True
    note fl_file = ApplyRecord_flush_file[OF ap[unfolded True] assms(3) keyed only]
    have "storeMap (ident j) fi t =
        (if owedAt owed j fi = None then storeMap (ident j) fi s else Map.empty) ++ rowMap fi (bufferedRows j rows)"
      using ApplyRecord_flush[OF ap assms(3,6) own HOL.refl, of fi] fl_file(1) by simp
    moreover have "newFile files owed j fi = newFile (rc_dirty r1) (rc_owed r) j fi"
      using took(3) took(5)[of fi] same by (auto simp: newFile_def fun_eq_iff)
    ultimately show ?thesis
      using True fl fl_file took(1,2,4) took(5)[of fi] took(6)[of fi] same none(3) assms(3) by (auto simp: settle_dirty)
  next
    case False
    then have "e \<noteq> None" if "\<not> ?none"
      using ap that by (auto simp: ApplyRecord_def split: sum.splits TxOutcome.splits)
    moreover have "out = TxRolledBack \<longrightarrow> t = s"
      using ap by (auto simp: ApplyRecord_def split: if_splits sum.splits)
    moreover note remerge_restores[OF snap assms(4,3)]
    ultimately show ?thesis
      using False fl took(1,2,3,4) took(6)[of fi] same none(1,2) by auto
  qed
qed

text \<open>An untrusted file, refetched: row 2 is buffered, the delete of row 1 is owed.\<close>

definition xOwing :: recorder where
  "xOwing = noteRow 0 (xWritten 2) (fst (untrustPurge 0 0 newRecorder))"

definition xOld :: RecordStore where
  "xOld = insertRow ''a'' (xWritten 1) xStore"

lemma xOwing_parts:
  "bufferedRows 0 (rc_pending xOwing) = [xWritten 2]" "owedAt (rc_owed xOwing) 0 0 = Some 1"
  "innerOf k (rc_dirty xOwing) = fmempty"
  by (simp_all add: xOwing_def untrustPurge_def purgeLocked_def newRecorder_def setRows_def setDirty_def noteRow_def
      untrustVerdict_def bufferedRows_def innerOf_def owedAt_def Let_def)

theorem flush_all_or_nothing_witness:
  "\<exists>jobs r s. flushLocked xIdent xOrder [] (\<lambda>_ _. Some 0) TxCommitted (\<lambda>_. newContent, xOwing, xOld) = ((jobs, r, s), None) \<and>
     storeMap ''a'' 0 s = [2 \<mapsto> xWritten 2] \<and>
     fileAt ''a'' 0 s = Some \<lparr>jf_complete = False, jf_filename = ''f'', jf_fetch_policy = FetchAlways\<rparr>"
proof -
  obtain jobs r s err where f: "flushLocked xIdent xOrder [] (\<lambda>_ _. Some 0) TxCommitted (\<lambda>_. newContent, xOwing, xOld) =
      ((jobs, r, s), err)"
    by (metis prod.exhaust)
  have a: "xIdent 0 = ''a''" by (simp add: xIdent_def)
  have "if TxCommitted = TxCommitted
    then err = None \<and>
      storeMap (xIdent 0) 0 s =
        (if owedAt (rc_owed xOwing) 0 0 = None then storeMap (xIdent 0) 0 xOld else Map.empty) ++
        rowMap 0 (bufferedRows 0 (rc_pending xOwing)) \<and>
      fileAt (xIdent 0) 0 s = map_option (newFile (rc_dirty xOwing) (rc_owed xOwing) 0 0) (fileAt (xIdent 0) 0 xOld) \<and>
      bufferedRows 0 (rc_pending r) = [] \<and> innerOf 0 (rc_dirty r) = fmempty \<and> owedAt (rc_owed r) 0 0 = None
    else (TxCommitted = TxRolledBack \<longrightarrow> s = xOld) \<and>
      bufferedRows 0 (rc_pending r) = bufferedRows 0 (rc_pending xOwing) \<and>
      innerOf 0 (rc_dirty r) = innerOf 0 (rc_dirty xOwing) \<and> owedAt (rc_owed r) 0 0 = owedAt (rc_owed xOwing) 0 0"
    by (rule flush_all_or_nothing[OF f _ xOrder_valid])
      (simp_all add: xOwing_parts isCurrent_def xIdent_def dirtyKeyed_def jobHasFiles_def xOld_def insertRow_def xStore_def)
  then have "err = None" "storeMap ''a'' 0 s = rowMap 0 [xWritten 2]"
    "fileAt ''a'' 0 s = map_option (newFile (rc_dirty xOwing) (rc_owed xOwing) 0 0) (fileAt ''a'' 0 xOld)"
    by (simp_all add: xOwing_parts a)
  with f show ?thesis
    by (simp add: rowMap_single xWritten_def newFile_def xOwing_parts fileAt_def xOld_def insertRow_def xStore_def)
qed

end
