(* ===== verification/Sanitize.thy ===== *)
theory Sanitize
  imports Prelude "HOL-Library.Sublist"
begin

text \<open>
  Names on disk (\<^verbatim>\<open>internal/fsutil\<close>: \<^verbatim>\<open>sanitize.go\<close>, and the name checks of \<^verbatim>\<open>nofollow_unix.go\<close> and
  \<^verbatim>\<open>rootedcreate.go\<close>). A Go string is its list of bytes. Unicode normalisation and the removal of
  diacritics come from \<^verbatim>\<open>golang.org/x/text\<close> and are arguments; so is the answer of \<open>Lstat\<close>.
\<close>

section \<open>What is used of Go's strings\<close>

definition ReplaceAll :: "string \<Rightarrow> char \<Rightarrow> string \<Rightarrow> string" where
  "ReplaceAll s old new = concat (map (\<lambda>c. if c = old then new else [c]) s)"

definition ContainsAny :: "string \<Rightarrow> string \<Rightarrow> bool" where
  "ContainsAny s chars \<longleftrightarrow> list_ex (\<lambda>c. c \<in> set chars) s"

text \<open>
  \<open>unicode.IsSpace\<close> as the UTF-8 encodings of its runes. A rune is decoded from the front or the back of
  a string as one of these exactly when the string begins or ends with its bytes.
\<close>

definition bytesOf :: "nat list \<Rightarrow> string" where
  "bytesOf = map char_of"

definition spaceRunes :: "string list" where
  "spaceRunes =
     map bytesOf ([[9], [10], [11], [12], [13], [32], [0xC2, 0x85], [0xC2, 0xA0], [0xE1, 0x9A, 0x80]] @
       map (\<lambda>b. [0xE2, 0x80, b]) ([0x80..<0x8B] @ [0xA8, 0xA9, 0xAF]) @ [[0xE2, 0x81, 0x9F], [0xE3, 0x80, 0x80]])"

function trimLeftAny :: "string list \<Rightarrow> string \<Rightarrow> string" where
  "trimLeftAny ps s =
     (case find (\<lambda>p. p \<noteq> [] \<and> take (length p) s = p) ps of
        None \<Rightarrow> s
      | Some p \<Rightarrow> trimLeftAny ps (drop (length p) s))"
  by pat_completeness auto
termination
proof (relation "measure (\<lambda>(ps, s). length s)")
  fix ps s p assume "find (\<lambda>p. p \<noteq> [] \<and> take (length p) s = p) ps = Some p"
  then have "p \<noteq> []" "take (length p) s = p" by (auto simp: find_Some_iff)
  then have "s \<noteq> []" by auto
  with \<open>p \<noteq> []\<close> show "((ps, drop (length p) s), ps, s) \<in> measure (\<lambda>(ps, s). length s)"
    by (cases p; cases s) auto
qed simp

declare trimLeftAny.simps [simp del]

definition trimRightAny :: "string list \<Rightarrow> string \<Rightarrow> string" where
  "trimRightAny ps s = rev (trimLeftAny (map rev ps) (rev s))"

definition TrimSpace :: "string \<Rightarrow> string" where
  "TrimSpace s = trimRightAny spaceRunes (trimLeftAny spaceRunes s)"

text \<open>
  \<open>strings.ToLower\<close> on the letters A to Z. Of the other runes only the Kelvin sign and the dotted capital I
  have an ASCII lower case, k and i, which occur in none of the names it is compared with.
\<close>

definition lowerChar :: "char \<Rightarrow> char" where
  "lowerChar c = (if 65 \<le> (of_char c :: nat) \<and> (of_char c :: nat) \<le> 90 then char_of (of_char c + 32 :: nat) else c)"

definition ToLower :: "string \<Rightarrow> string" where
  "ToLower = map lowerChar"

text \<open>\<open>filepath.Ext\<close>: from the last dot of the last path component.\<close>

fun extFrom :: "string \<Rightarrow> string \<Rightarrow> string" where
  "extFrom [] acc = []"
| "extFrom (c # cs) acc = (if c = CHR ''/'' then [] else if c = CHR ''.'' then c # acc else extFrom cs (c # acc))"

definition Ext :: "string \<Rightarrow> string" where
  "Ext path = extFrom (rev path) []"

definition RuneStart :: "char \<Rightarrow> bool" where
  "RuneStart c \<longleftrightarrow> \<not> (128 \<le> (of_char c :: nat) \<and> (of_char c :: nat) < 192)"

text \<open>\<open>%d\<close> of a number that is not negative.\<close>

fun itoa :: "nat \<Rightarrow> string" where
  "itoa n = (if n < 10 then [char_of (48 + n)] else itoa (n div 10) @ [char_of (48 + n mod 10)])"

declare itoa.simps [simp del]

section \<open>Sanitizing\<close>

definition reservedNames :: "string list" where
  "reservedNames = [''CON'', ''PRN'', ''AUX'', ''NUL''] @
     map (\<lambda>d. ''COM'' @ [d]) ''123456789'' @ map (\<lambda>d. ''LPT'' @ [d]) ''123456789''"

definition maxFilenameBytes :: nat where
  "maxFilenameBytes = 255"

definition maxExtensionLen :: nat where
  "maxExtensionLen = 20"

text \<open>The compiled clean-up expressions are the functions that delete their matches.\<close>

record SanitizeOptions =
  so_ReplaceIllegalWith :: string
  so_ReplaceSpacesWith :: string
  so_StripDiacritics :: bool
  so_Cleanup :: "(string \<Rightarrow> string) list"

record textLib =
  tl_NFC :: "string \<Rightarrow> string"
  tl_stripDiacritics :: "string \<Rightarrow> string"

definition illegalChars :: string where
  "illegalChars = map char_of [0..<32] @ [CHR 0x5C, CHR ''/'', CHR '':'', CHR ''*'', CHR ''?'', CHR 0x22, CHR ''<'', CHR ''>'', CHR ''|'']"

definition CheckReplacement :: "string \<Rightarrow> bool" where
  "CheckReplacement s \<longleftrightarrow> \<not> ContainsAny s illegalChars"

definition replaceWinDevices :: "string \<Rightarrow> string" where
  "replaceWinDevices name =
     (let lower = ToLower name in
      if list_ex (\<lambda>res. lower = ToLower res \<or> prefix (ToLower res @ ''.'') lower) reservedNames then CHR ''_'' # name
      else if prefix ''$mft'' lower then CHR ''S'' # tl name
      else name)"

definition sanitizeCore :: "textLib \<Rightarrow> SanitizeOptions \<Rightarrow> string \<Rightarrow> string" where
  "sanitizeCore lib opts name0 =
     (let name1 = tl_NFC lib name0;
          name2 = (if so_StripDiacritics opts then tl_stripDiacritics lib name1 else name1);
          rep = so_ReplaceIllegalWith opts;
          illegalReplacement = (if rep = [] \<or> \<not> CheckReplacement rep then ''_'' else rep);
          name3 = fold (\<lambda>c s. ReplaceAll s c illegalReplacement) illegalChars name2;
          name4 = (if so_ReplaceSpacesWith opts \<noteq> [] \<and> CheckReplacement (so_ReplaceSpacesWith opts)
                   then ReplaceAll name3 (CHR '' '') (so_ReplaceSpacesWith opts) else name3) in
      replaceWinDevices (TrimSpace name4))"

fun backToRune :: "string \<Rightarrow> nat \<Rightarrow> nat" where
  "backToRune s 0 = 0"
| "backToRune s (Suc n) = (if RuneStart (s ! Suc n) then Suc n else backToRune s n)"

definition truncateOnRuneBoundary :: "string \<Rightarrow> int \<Rightarrow> string" where
  "truncateOnRuneBoundary s maxBytes =
     (if maxBytes < 1 then [] else if int (length s) \<le> maxBytes then s else take (backToRune s (nat maxBytes)) s)"

definition truncateFilename :: "string \<Rightarrow> int \<Rightarrow> string" where
  "truncateFilename filename maxBytes =
     (if int (length filename) \<le> maxBytes then filename
      else let ext = truncateOnRuneBoundary (Ext filename) (int maxExtensionLen);
               base = take (length filename - length (Ext filename)) filename;
               maxBaseBytes = maxBytes - int (length ext) in
           if maxBaseBytes \<le> 0 then truncateOnRuneBoundary filename maxBytes
           else truncateOnRuneBoundary base maxBaseBytes @ ext)"

definition trimTrailingDotAndSpace :: "string \<Rightarrow> string" where
  "trimTrailingDotAndSpace = trimRightAny (''.'' # spaceRunes)"

definition SanitizeFilename :: "textLib \<Rightarrow> SanitizeOptions \<Rightarrow> string \<Rightarrow> string" where
  "SanitizeFilename lib opts filename =
     (if filename = [] then ''unknown''
      else let f = trimTrailingDotAndSpace (truncateFilename (trimTrailingDotAndSpace (sanitizeCore lib opts filename)) (int maxFilenameBytes)) in
           if f = [] then ''unknown'' else f)"

definition SanitizeFolderName :: "textLib \<Rightarrow> SanitizeOptions \<Rightarrow> string \<Rightarrow> string" where
  "SanitizeFolderName lib opts foldername =
     (if foldername = [] then ''unknown''
      else let c = sanitizeCore lib opts foldername;
               f = trimTrailingDotAndSpace (if length c > maxFilenameBytes then truncateFilename c (int maxFilenameBytes) else c) in
           if f = [] then ''unknown'' else f)"

definition CleanupName :: "SanitizeOptions \<Rightarrow> string \<Rightarrow> string" where
  "CleanupName opts name = TrimSpace (fold (\<lambda>re s. re s) (so_Cleanup opts) name)"

section \<open>One component, and a free name\<close>

definition CheckOneComponent :: "string \<Rightarrow> bool" where
  "CheckOneComponent name \<longleftrightarrow> \<not> (name = [] \<or> name = ''.'' \<or> name = ''..'' \<or> CHR ''/'' \<in> set name)"

text \<open>What \<open>Lstat\<close> says of a name: something is there, nothing is, or it could not tell.\<close>

datatype LstatAnswer = Held | NotExist | Blocked

definition numbered :: "string \<Rightarrow> nat \<Rightarrow> string" where
  "numbered rel i = (let ext = Ext rel in take (length rel - length ext) rel @ ''.'' @ itoa i @ ext)"

fun uniqueLoop :: "(string \<Rightarrow> LstatAnswer) \<Rightarrow> string \<Rightarrow> nat \<Rightarrow> nat \<Rightarrow> string option" where
  "uniqueLoop lstat rel i 0 = None"
| "uniqueLoop lstat rel i (Suc n) =
     (if lstat (numbered rel i) \<noteq> Held then Some (numbered rel i) else uniqueLoop lstat rel (Suc i) n)"

definition uniqueAttempts :: nat where
  "uniqueAttempts = 10000"

definition GetUniqueRelPath :: "(string \<Rightarrow> LstatAnswer) \<Rightarrow> string \<Rightarrow> string" where
  "GetUniqueRelPath lstat rel =
     (if lstat rel = NotExist then rel
      else case uniqueLoop lstat rel 1 uniqueAttempts of
             Some r \<Rightarrow> r
           | None \<Rightarrow> numbered rel uniqueAttempts)"

text \<open>A job's file: its directory and the name inside it. An unreadable directory is \<open>None\<close>.\<close>

record jobFile =
  jf_Dir :: string
  jf_Name :: string

definition uniqueJobFileName :: "(string \<Rightarrow> (string \<Rightarrow> LstatAnswer) option) \<Rightarrow> jobFile \<Rightarrow> string" where
  "uniqueJobFileName openRoot loc =
     (case openRoot (jf_Dir loc) of None \<Rightarrow> jf_Name loc | Some lstat \<Rightarrow> GetUniqueRelPath lstat (jf_Name loc))"

section \<open>Trimming and truncating\<close>

lemma trimLeftAny_suffix: "suffix (trimLeftAny ps s) s"
proof (induction ps s rule: trimLeftAny.induct)
  case (1 ps s)
  show ?case
  proof (cases "find (\<lambda>p. p \<noteq> [] \<and> take (length p) s = p) ps")
    case (Some p)
    then have "suffix (trimLeftAny ps (drop (length p) s)) (drop (length p) s)" using 1 by blast
    with Some show ?thesis by (subst trimLeftAny.simps) (auto intro: suffix_order.trans suffix_drop)
  qed (subst trimLeftAny.simps, simp)
qed

lemma trimLeftAny_stops: "p \<in> set ps \<Longrightarrow> p \<noteq> [] \<Longrightarrow> \<not> prefix p (trimLeftAny ps s)"
proof (induction ps s rule: trimLeftAny.induct)
  case (1 ps s)
  show ?case
  proof (cases "find (\<lambda>p. p \<noteq> [] \<and> take (length p) s = p) ps")
    case None
    then have "take (length p) s \<noteq> p" using 1 by (auto simp: find_None_iff)
    with None show ?thesis by (subst trimLeftAny.simps) (auto simp: prefix_def)
  next
    case (Some q)
    then show ?thesis using 1 by (subst trimLeftAny.simps) auto
  qed
qed

lemma trimRightAny_prefix: "prefix (trimRightAny ps s) s"
  using trimLeftAny_suffix[of "map rev ps" "rev s"] by (simp add: trimRightAny_def suffix_to_prefix)

lemma trimRightAny_stops: "p \<in> set ps \<Longrightarrow> p \<noteq> [] \<Longrightarrow> \<not> suffix p (trimRightAny ps s)"
  using trimLeftAny_stops[of "rev p" "map rev ps" "rev s"] by (simp add: trimRightAny_def suffix_to_prefix)

lemma trims_subset:
  "set (trimLeftAny ps s) \<subseteq> set s" "set (trimRightAny ps s) \<subseteq> set s" "set (TrimSpace s) \<subseteq> set s"
proof -
  show l: "set (trimLeftAny ps s) \<subseteq> set s" for ps s using trimLeftAny_suffix set_mono_suffix by blast
  show r: "set (trimRightAny ps s) \<subseteq> set s" for ps s using trimRightAny_prefix set_mono_prefix by blast
  show "set (TrimSpace s) \<subseteq> set s" unfolding TrimSpace_def using l r by blast
qed

lemma backToRune_le: "backToRune s n \<le> n"
  by (induction n) auto

text \<open>The cut loses the tail of a rune, never a part of one: what follows it starts a rune.\<close>

lemma backToRune_boundary: "0 < backToRune s n \<Longrightarrow> RuneStart (s ! backToRune s n)"
  by (induction n) (auto split: if_splits)

lemma truncateOnRuneBoundary_sound:
  "int (length (truncateOnRuneBoundary s n)) \<le> max 0 n" "prefix (truncateOnRuneBoundary s n) s"
  using backToRune_le[of s "nat n"] by (auto simp: truncateOnRuneBoundary_def take_is_prefix)

lemma extFrom_suffix: "\<exists>p. rev cs @ acc = p @ extFrom cs acc"
proof (induction cs acc rule: extFrom.induct)
  case (2 c cs acc)
  then show ?case by (cases "c = CHR ''/''"; cases "c = CHR ''.''") auto
qed simp

lemma Ext_suffix: "suffix (Ext s) s"
  using extFrom_suffix[of "rev s" "[]"] by (auto simp: Ext_def suffix_def)

lemma Ext_split: "take (length s - length (Ext s)) s @ Ext s = s"
proof -
  obtain zs where "s = zs @ Ext s" using Ext_suffix[of s] by (auto simp: suffix_def)
  then show ?thesis by (metis append_eq_conv_conj diff_add_inverse2 length_append)
qed

lemma truncateFilename_sound:
  "0 \<le> n \<Longrightarrow> int (length (truncateFilename s n)) \<le> n" "set (truncateFilename s n) \<subseteq> set s"
proof -
  let ?ext = "truncateOnRuneBoundary (Ext s) (int maxExtensionLen)"
  let ?base = "take (length s - length (Ext s)) s"
  assume "0 \<le> n"
  then show "int (length (truncateFilename s n)) \<le> n"
    using truncateOnRuneBoundary_sound(1)[of s n] truncateOnRuneBoundary_sound(1)[of ?base "n - int (length ?ext)"]
    by (auto simp: truncateFilename_def Let_def)
next
  have sub: "set (truncateOnRuneBoundary t k) \<subseteq> set t" for t k
    using truncateOnRuneBoundary_sound(2) set_mono_prefix by blast
  have "set (Ext s) \<subseteq> set s" using Ext_suffix set_mono_suffix by blast
  then show "set (truncateFilename s n) \<subseteq> set s"
    using subset_trans[OF sub[of "Ext s" "int maxExtensionLen"]]
      subset_trans[OF sub[of "take (length s - length (Ext s)) s"] set_take_subset[of "length s - length (Ext s)" s]] sub[of s n]
    by (simp add: truncateFilename_def Let_def)
qed

section \<open>No illegal character survives\<close>

lemma set_ReplaceAll: "set (ReplaceAll s c r) \<subseteq> (set s - {c}) \<union> set r"
  by (auto simp: ReplaceAll_def split: if_splits)

lemma replace_illegal:
  assumes "CheckReplacement r"
  shows "set (fold (\<lambda>c s. ReplaceAll s c r) cs s) \<subseteq> (set s - set cs) \<union> set r"
proof (induction cs arbitrary: s)
  case (Cons c cs)
  then show ?case using set_ReplaceAll[of s c r] by fastforce
qed simp

lemma check_replacement_iff: "CheckReplacement r \<longleftrightarrow> set r \<inter> set illegalChars = {}"
  by (auto simp: CheckReplacement_def ContainsAny_def list_ex_iff)

lemma safe_letters: "CHR ''_'' \<notin> set illegalChars" "CHR ''S'' \<notin> set illegalChars" "CHR ''/'' \<in> set illegalChars"
  "set ''unknown'' \<inter> set illegalChars = {}" "CHR 0x00 \<in> set illegalChars" "CHR 0x5C \<in> set illegalChars"
  unfolding illegalChars_def by code_simp+

lemma sanitizeCore_clean: "set (sanitizeCore lib opts s) \<inter> set illegalChars = {}"
proof -
  define rep where "rep = (if so_ReplaceIllegalWith opts = [] \<or> \<not> CheckReplacement (so_ReplaceIllegalWith opts)
    then ''_'' else so_ReplaceIllegalWith opts)"
  have rep: "CheckReplacement rep" using safe_letters(1) by (auto simp: rep_def check_replacement_iff)
  define n2 where "n2 = (if so_StripDiacritics opts then tl_stripDiacritics lib (tl_NFC lib s) else tl_NFC lib s)"
  define n3 where "n3 = fold (\<lambda>c s. ReplaceAll s c rep) illegalChars n2"
  have n3: "set n3 \<inter> set illegalChars = {}"
    using replace_illegal[OF rep, of illegalChars n2] rep by (auto simp: n3_def check_replacement_iff)
  define n4 where "n4 = (if so_ReplaceSpacesWith opts \<noteq> [] \<and> CheckReplacement (so_ReplaceSpacesWith opts)
    then ReplaceAll n3 (CHR '' '') (so_ReplaceSpacesWith opts) else n3)"
  have "set n4 \<inter> set illegalChars = {}"
    using n3 set_ReplaceAll[of n3 "CHR '' ''" "so_ReplaceSpacesWith opts"] by (auto simp: n4_def check_replacement_iff)
  then have "set (TrimSpace n4) \<inter> set illegalChars = {}" using trims_subset(3)[of n4] by blast
  moreover have "set (replaceWinDevices t) \<subseteq> insert (CHR ''_'') (insert (CHR ''S'') (set t))" for t
    by (cases t) (auto simp: replaceWinDevices_def Let_def)
  moreover have "sanitizeCore lib opts s = replaceWinDevices (TrimSpace n4)"
    unfolding sanitizeCore_def Let_def n4_def n3_def n2_def rep_def by simp
  ultimately show ?thesis using safe_letters(1,2) by auto
qed

section \<open>Theorems\<close>

lemma component_if_clean:
  assumes "set s \<inter> set illegalChars = {}" "s \<noteq> []" "\<not> suffix ''.'' s"
  shows "CheckOneComponent s"
  using assms safe_letters(3) by (auto simp: CheckOneComponent_def suffix_def)

lemma trimmed_end:
  "\<not> suffix ''.'' (trimTrailingDotAndSpace s)" "set (trimTrailingDotAndSpace s) \<subseteq> set s"
  "length (trimTrailingDotAndSpace s) \<le> length s"
  "p \<in> set spaceRunes \<Longrightarrow> \<not> suffix p (trimTrailingDotAndSpace s)"
proof -
  show "\<not> suffix ''.'' (trimTrailingDotAndSpace s)"
    unfolding trimTrailingDotAndSpace_def by (rule trimRightAny_stops) simp_all
  have "\<forall>p\<in>set spaceRunes. p \<noteq> []" by (simp add: spaceRunes_def bytesOf_def)
  then show "p \<in> set spaceRunes \<Longrightarrow> \<not> suffix p (trimTrailingDotAndSpace s)"
    unfolding trimTrailingDotAndSpace_def by (intro trimRightAny_stops) auto
  show "set (trimTrailingDotAndSpace s) \<subseteq> set s" "length (trimTrailingDotAndSpace s) \<le> length s"
    unfolding trimTrailingDotAndSpace_def using trims_subset(2) trimRightAny_prefix prefix_length_le by blast+
qed

definition safe_name :: "string \<Rightarrow> bool" where
  "safe_name s \<longleftrightarrow> CheckOneComponent s \<and> set s \<inter> set illegalChars = {} \<and> length s \<le> maxFilenameBytes \<and>
     \<not> suffix ''.'' s \<and> (\<forall>p\<in>set spaceRunes. \<not> suffix p s)"

lemma unknown_safe: "safe_name ''unknown''"
  unfolding safe_name_def CheckOneComponent_def by code_simp

lemma safe_nameI:
  assumes "s \<noteq> []" "s = trimTrailingDotAndSpace t" "set t \<inter> set illegalChars = {}" "length t \<le> maxFilenameBytes"
  shows "safe_name s"
proof -
  have "set s \<inter> set illegalChars = {}" using trimmed_end(2)[of t] assms(2,3) by blast
  moreover have "length s \<le> maxFilenameBytes" using trimmed_end(3)[of t] assms(2,4) by simp
  ultimately show ?thesis
    using assms(1,2) trimmed_end(1)[of t] trimmed_end(4)[of _ t] component_if_clean[of s] by (auto simp: safe_name_def)
qed

text \<open>C39: Whatever the name, the options and the Unicode library do, SanitizeFilename and SanitizeFolderName
  return one path component (not empty, not . or .., no separator) of at most 255 bytes, with no control or
  reserved character, that ends in neither a dot nor white space.\<close>

theorem sanitized_name_safe:
  "safe_name (SanitizeFilename lib opts name) \<and> safe_name (SanitizeFolderName lib opts name)"
proof
  let ?c = "sanitizeCore lib opts name"
  note clean = sanitizeCore_clean[of lib opts name]
  have max: "0 \<le> int maxFilenameBytes" by simp
  have tf: "length (truncateFilename t (int maxFilenameBytes)) \<le> maxFilenameBytes" for t
    using truncateFilename_sound(1)[OF max, of t] by simp
  show "safe_name (SanitizeFilename lib opts name)"
  proof -
    let ?t = "truncateFilename (trimTrailingDotAndSpace ?c) (int maxFilenameBytes)"
    have "set ?t \<inter> set illegalChars = {}"
      using truncateFilename_sound(2)[of "trimTrailingDotAndSpace ?c" "int maxFilenameBytes"] trimmed_end(2)[of ?c] clean by blast
    then show ?thesis using safe_nameI[OF _ HOL.refl, of ?t] tf unknown_safe by (simp add: SanitizeFilename_def Let_def)
  qed
  show "safe_name (SanitizeFolderName lib opts name)"
  proof -
    let ?t = "if length ?c > maxFilenameBytes then truncateFilename ?c (int maxFilenameBytes) else ?c"
    have "set ?t \<inter> set illegalChars = {}" using truncateFilename_sound(2)[of ?c "int maxFilenameBytes"] clean by auto
    moreover have "length ?t \<le> maxFilenameBytes" using tf by auto
    ultimately show ?thesis using safe_nameI[OF _ HOL.refl, of ?t] unknown_safe by (simp add: SanitizeFolderName_def Let_def)
  qed
qed

text \<open>
  Two names that escape what the comments promise. A device name followed by a space and a dot is not seen
  by \<open>replaceWinDevices\<close>, and the trailing trim then lays it bare; and the number that makes a name free is
  added to a name already at the limit.
\<close>

definition plainLib :: textLib where
  "plainLib = \<lparr>tl_NFC = id, tl_stripDiacritics = id\<rparr>"

definition plainOptions :: SanitizeOptions where
  "plainOptions = \<lparr>so_ReplaceIllegalWith = [], so_ReplaceSpacesWith = [], so_StripDiacritics = False, so_Cleanup = []\<rparr>"

lemma spaceRunes_bytes: "spaceRunes =
  [[CHR 0x09], [CHR 0x0A], [CHR 0x0B], [CHR 0x0C], [CHR 0x0D], [CHR 0x20], [CHR 0xC2, CHR 0x85], [CHR 0xC2, CHR 0xA0], [CHR 0xE1, CHR 0x9A, CHR 0x80], [CHR 0xE2, CHR 0x80, CHR 0x80], [CHR 0xE2, CHR 0x80, CHR 0x81], [CHR 0xE2, CHR 0x80, CHR 0x82], [CHR 0xE2, CHR 0x80, CHR 0x83], [CHR 0xE2, CHR 0x80, CHR 0x84], [CHR 0xE2, CHR 0x80, CHR 0x85], [CHR 0xE2, CHR 0x80, CHR 0x86], [CHR 0xE2, CHR 0x80, CHR 0x87], [CHR 0xE2, CHR 0x80, CHR 0x88], [CHR 0xE2, CHR 0x80, CHR 0x89], [CHR 0xE2, CHR 0x80, CHR 0x8A], [CHR 0xE2, CHR 0x80, CHR 0xA8], [CHR 0xE2, CHR 0x80, CHR 0xA9], [CHR 0xE2, CHR 0x80, CHR 0xAF], [CHR 0xE2, CHR 0x81, CHR 0x9F], [CHR 0xE3, CHR 0x80, CHR 0x80]]"
  by code_simp

lemma illegalChars_bytes: "illegalChars =
  [CHR 0x00, CHR 0x01, CHR 0x02, CHR 0x03, CHR 0x04, CHR 0x05, CHR 0x06, CHR 0x07, CHR 0x08, CHR 0x09, CHR 0x0A, CHR 0x0B, CHR 0x0C, CHR 0x0D, CHR 0x0E, CHR 0x0F, CHR 0x10, CHR 0x11, CHR 0x12, CHR 0x13, CHR 0x14, CHR 0x15, CHR 0x16, CHR 0x17, CHR 0x18, CHR 0x19, CHR 0x1A, CHR 0x1B, CHR 0x1C, CHR 0x1D, CHR 0x1E, CHR 0x1F, CHR 0x5C, CHR 0x2F, CHR 0x3A, CHR 0x2A, CHR 0x3F, CHR 0x22, CHR 0x3C, CHR 0x3E, CHR 0x7C]"
  by code_simp

lemma rep_none: "c \<notin> set s \<Longrightarrow> ReplaceAll s c r = s"
  by (induction s) (auto simp: ReplaceAll_def)

lemma rep_illegal_none: "set s \<inter> set cs = {} \<Longrightarrow> fold (\<lambda>c s. ReplaceAll s c r) cs s = s"
  by (induction cs) (auto simp: rep_none)

lemma plain_core:
  "set s \<inter> set illegalChars = {} \<Longrightarrow> sanitizeCore plainLib plainOptions s = replaceWinDevices (TrimSpace s)"
  by (simp add: sanitizeCore_def plainLib_def plainOptions_def Let_def rep_illegal_none)

lemma letters:
  "char_of (99 :: nat) = CHR ''c''"
  "char_of (111 :: nat) = CHR ''o''"
  "char_of (110 :: nat) = CHR ''n''"
  "char_of (112 :: nat) = CHR ''p''"
  "char_of (114 :: nat) = CHR ''r''"
  "char_of (97 :: nat) = CHR ''a''"
  "char_of (117 :: nat) = CHR ''u''"
  "char_of (108 :: nat) = CHR ''l''"
  "char_of (120 :: nat) = CHR ''x''"
  "char_of (109 :: nat) = CHR ''m''"
  "char_of (116 :: nat) = CHR ''t''"
  by code_simp+

lemma lower_reserved: "map ToLower reservedNames =
  [''con'', ''prn'', ''aux'', ''nul'', ''com1'', ''com2'', ''com3'', ''com4'', ''com5'', ''com6'', ''com7'', ''com8'', ''com9'', ''lpt1'', ''lpt2'', ''lpt3'', ''lpt4'', ''lpt5'', ''lpt6'', ''lpt7'', ''lpt8'', ''lpt9'']"
  by (simp add: reservedNames_def ToLower_def lowerChar_def letters)

lemma replaceWinDevices_lower:
  "replaceWinDevices name =
     (if list_ex (\<lambda>res. ToLower name = res \<or> prefix (res @ ''.'') (ToLower name)) (map ToLower reservedNames) then CHR ''_'' # name
      else if prefix ''$mft'' (ToLower name) then CHR ''S'' # tl name else name)"
  by (simp add: replaceWinDevices_def Let_def list_ex_iff)

lemma con_steps:
  "sanitizeCore plainLib plainOptions ''con .'' = ''con .''" "trimTrailingDotAndSpace ''con .'' = ''con''"
  "trimTrailingDotAndSpace ''con'' = ''con''"
proof -
  show "trimTrailingDotAndSpace ''con .'' = ''con''" "trimTrailingDotAndSpace ''con'' = ''con''"
    unfolding trimTrailingDotAndSpace_def trimRightAny_def spaceRunes_bytes
    by (simp_all add: trimLeftAny.simps)
  have "TrimSpace ''con .'' = ''con .''"
    unfolding TrimSpace_def trimRightAny_def spaceRunes_bytes by (simp add: trimLeftAny.simps)
  moreover have "set ''con .'' \<inter> set illegalChars = {}" unfolding illegalChars_bytes by simp
  ultimately show "sanitizeCore plainLib plainOptions ''con .'' = ''con .''"
    by (simp add: plain_core replaceWinDevices_lower lower_reserved) (simp add: ToLower_def lowerChar_def)
qed

theorem device_name_survives:
  "SanitizeFilename plainLib plainOptions ''con .'' = ''con'' \<and>
   SanitizeFilename plainLib plainOptions ''con'' = ''_con''"
proof
  show "SanitizeFilename plainLib plainOptions ''con .'' = ''con''"
    by (simp add: SanitizeFilename_def con_steps truncateFilename_def maxFilenameBytes_def)
  have "TrimSpace ''con'' = ''con''" "trimTrailingDotAndSpace ''_con'' = ''_con''"
    unfolding TrimSpace_def trimTrailingDotAndSpace_def trimRightAny_def spaceRunes_bytes by (simp_all add: trimLeftAny.simps)
  moreover have "set ''con'' \<inter> set illegalChars = {}" unfolding illegalChars_bytes by simp
  moreover have "replaceWinDevices ''con'' = ''_con''"
    by (simp add: replaceWinDevices_lower lower_reserved) (simp add: ToLower_def lowerChar_def)
  ultimately show "SanitizeFilename plainLib plainOptions ''con'' = ''_con''"
    by (simp add: SanitizeFilename_def plain_core truncateFilename_def maxFilenameBytes_def)
qed

lemma trimLeftAny_keep: "\<forall>p\<in>set ps. p = [] \<or> hd p \<noteq> c \<Longrightarrow> trimLeftAny ps (c # s) = c # s"
proof -
  assume a: "\<forall>p\<in>set ps. p = [] \<or> hd p \<noteq> c"
  have "find (\<lambda>p. p \<noteq> [] \<and> take (length p) (c # s) = p) ps = None"
    unfolding find_None_iff using a by (auto simp: take_Cons' split: if_splits) (metis list.sel(1))
  then show ?thesis by (subst trimLeftAny.simps) simp
qed

lemma all_a:
  assumes "0 < n" "n \<le> 255"
  defines "s \<equiv> replicate n (CHR ''a'')"
  shows "SanitizeFilename plainLib plainOptions s = s" "numbered s 1 = s @ ''.1''"
proof -
  obtain k where s: "s = CHR ''a'' # replicate k (CHR ''a'')" using assms(1) by (cases n) (auto simp: s_def)
  have rs: "rev s = s" by (simp add: s_def)
  have "trimTrailingDotAndSpace s = s" "TrimSpace s = s"
    unfolding trimTrailingDotAndSpace_def TrimSpace_def trimRightAny_def
    using trimLeftAny_keep[of spaceRunes "CHR ''a''"] trimLeftAny_keep[of "map rev spaceRunes" "CHR ''a''"]
      trimLeftAny_keep[of "map rev (''.'' # spaceRunes)" "CHR ''a''"] rs
    by (simp_all add: s spaceRunes_bytes)
  moreover have "set s \<inter> set illegalChars = {}" using assms(1) by (simp add: s_def illegalChars_bytes)
  moreover have "replaceWinDevices s = s"
  proof -
    have low: "ToLower s = s" using assms(1) by (simp add: ToLower_def s_def lowerChar_def)
    have only: "set p \<subseteq> {CHR ''a''}" if "prefix p s" for p
      using set_mono_prefix[OF that] assms(1) by (simp add: s_def)
    have "ToLower res \<noteq> s" if "res \<in> set reservedNames" for res
    proof -
      have "\<forall>x\<in>set (map ToLower reservedNames). \<not> set x \<subseteq> {CHR ''a''}" by (simp add: lower_reserved)
      then show ?thesis using that assms(1) by (auto simp: s_def)
    qed
    moreover have "\<not> prefix (ToLower res @ ''.'') s" for res using only[of "ToLower res @ ''.''"] by auto
    moreover have "\<not> prefix ''$mft'' s" using only[of "''$mft''"] by auto
    ultimately show ?thesis by (auto simp: replaceWinDevices_def Let_def low list_ex_iff)
  qed
  ultimately show "SanitizeFilename plainLib plainOptions s = s"
    using assms(1,2) by (simp add: SanitizeFilename_def plain_core truncateFilename_def maxFilenameBytes_def) (simp add: s_def)
  have "extFrom (replicate m (CHR ''a'')) acc = []" for m acc by (induction m arbitrary: acc) simp_all
  then have "Ext s = []" by (simp add: Ext_def s_def)
  moreover have "itoa 1 = ''1''" by code_simp
  ultimately show "numbered s 1 = s @ ''.1''" by (simp add: numbered_def)
qed

theorem numbered_name_too_long:
  "let name = SanitizeFilename plainLib plainOptions (replicate 255 (CHR ''a'')) in
   length name = 255 \<and> length (GetUniqueRelPath (\<lambda>r. if r = name then Held else NotExist) name) = 257"
proof -
  obtain n where n: "uniqueAttempts = Suc n" by (cases uniqueAttempts) (simp_all add: uniqueAttempts_def)
  show ?thesis using all_a[of 255] by (simp add: Let_def GetUniqueRelPath_def n)
qed

section \<open>The numbered names\<close>

lemma itoa_digits: "itoa n \<noteq> []" "set (itoa n) \<subseteq> set ''0123456789''"
proof -
  show "itoa n \<noteq> []" by (subst itoa.simps) simp
  define D where "D = set ''0123456789''"
  have digit: "char_of (48 + d) \<in> D" if "d < 10" for d :: nat
  proof -
    have "\<forall>d\<in>set [0..<10]. (char_of (48 + d) :: char) \<in> set ''0123456789''" by code_simp
    then show ?thesis unfolding D_def using that by simp
  qed
  have "set (itoa n) \<subseteq> D"
  proof (induction n rule: itoa.induct)
    case (1 n)
    then show ?case using digit[of n] digit[of "n mod 10"] by (subst itoa.simps) auto
  qed
  then show "set (itoa n) \<subseteq> set ''0123456789''" unfolding D_def .
qed

lemma numbered_component: "CheckOneComponent rel \<Longrightarrow> CheckOneComponent (numbered rel i)"
proof -
  assume rel: "CheckOneComponent rel"
  obtain d ds where d: "itoa i = d # ds" using itoa_digits(1)[of i] by (cases "itoa i") auto
  then have "d \<in> set ''0123456789''" using itoa_digits(2)[of i] by simp
  then have "d \<noteq> CHR ''.''" "d \<noteq> CHR ''/''" by auto
  moreover have "d \<in> set (numbered rel i)" by (simp add: numbered_def Let_def d)
  moreover have "CHR ''/'' \<notin> set (numbered rel i)"
  proof -
    have "CHR ''/'' \<notin> set (itoa i)" using itoa_digits(2)[of i] by auto
    moreover have "CHR ''/'' \<notin> set (take (length rel - length (Ext rel)) rel @ Ext rel)"
      using rel by (simp add: Ext_split CheckOneComponent_def)
    ultimately show ?thesis by (simp add: numbered_def Let_def)
  qed
  ultimately show ?thesis by (auto simp: CheckOneComponent_def)
qed

lemma uniqueLoop_sound:
  "uniqueLoop lstat rel i n = Some r \<Longrightarrow> \<exists>k. i \<le> k \<and> k < i + n \<and> r = numbered rel k \<and> lstat r \<noteq> Held"
  "uniqueLoop lstat rel i n = None \<Longrightarrow> i \<le> k \<Longrightarrow> k < i + n \<Longrightarrow> lstat (numbered rel k) = Held"
proof -
  show "uniqueLoop lstat rel i n = Some r \<Longrightarrow> \<exists>k. i \<le> k \<and> k < i + n \<and> r = numbered rel k \<and> lstat r \<noteq> Held"
  proof (induction n arbitrary: i)
    case (Suc n)
    show ?case
    proof (cases "lstat (numbered rel i) = Held")
      case True
      then obtain k where "Suc i \<le> k" "k < Suc i + n" "r = numbered rel k" "lstat r \<noteq> Held"
        using Suc.IH[of "Suc i"] Suc.prems by auto
      then show ?thesis by (intro exI[of _ k]) simp
    next
      case False
      then show ?thesis using Suc.prems by auto
    qed
  qed simp
  show "uniqueLoop lstat rel i n = None \<Longrightarrow> i \<le> k \<Longrightarrow> k < i + n \<Longrightarrow> lstat (numbered rel k) = Held"
  proof (induction n arbitrary: i)
    case (Suc n)
    then show ?case by (cases "k = i") (auto split: if_splits)
  qed simp
qed

lemma unique_rel_path:
  assumes "CheckOneComponent rel"
  shows "CheckOneComponent (GetUniqueRelPath lstat rel)"
    and "lstat (GetUniqueRelPath lstat rel) \<noteq> Held \<or> (\<forall>i\<in>{1..uniqueAttempts}. lstat (numbered rel i) = Held)"
proof -
  show "CheckOneComponent (GetUniqueRelPath lstat rel)"
    using assms numbered_component[OF assms] uniqueLoop_sound(1)[of lstat rel 1 uniqueAttempts]
    by (auto simp: GetUniqueRelPath_def split: option.splits)
  show "lstat (GetUniqueRelPath lstat rel) \<noteq> Held \<or> (\<forall>i\<in>{1..uniqueAttempts}. lstat (numbered rel i) = Held)"
    using uniqueLoop_sound[of lstat rel 1 uniqueAttempts]
    by (auto simp: GetUniqueRelPath_def split: option.splits)
qed

end
