(* ===== verification/Pipeline.thy ===== *)
theory Pipeline
  imports Assembler Fetch Recorder Sanitize
begin

text \<open>
  The pipeline (\<^verbatim>\<open>internal/app/pipeline.go\<close>), which takes the downloader's results to the assembler, with
  the application's callbacks for what the assembler reports (\<^verbatim>\<open>internal/app/record.go\<close>,
  \<^verbatim>\<open>internal/app/durability.go\<close>). The registry's answers, the job's name as it is read, the directory
  listing and what becomes of a send are arguments. A result is handled by one worker of several; what
  the handler does is taken in one step, apart from the job's name, which may change in its course.
\<close>

section \<open>Paths\<close>

text \<open>\<open>filepath.Clean\<close> and \<open>filepath.Join\<close> on Unix: elements are processed lexically.\<close>

fun splitSlash :: "string \<Rightarrow> string list" where
  "splitSlash [] = [[]]"
| "splitSlash (c # cs) =
     (if c = CHR ''/'' then [] # splitSlash cs else (case splitSlash cs of l # ls \<Rightarrow> (c # l) # ls | [] \<Rightarrow> [[c]]))"

fun joinSlash :: "string list \<Rightarrow> string" where
  "joinSlash [] = []"
| "joinSlash [x] = x"
| "joinSlash (x # y # xs) = x @ ''/'' @ joinSlash (y # xs)"

definition cleanStep :: "bool \<Rightarrow> string list \<Rightarrow> string \<Rightarrow> string list" where
  "cleanStep rooted out x =
     (if x = [] \<or> x = ''.'' then out
      else if x \<noteq> ''..'' then out @ [x]
      else if out \<noteq> [] \<and> last out \<noteq> ''..'' then butlast out
      else if rooted then out else out @ [x])"

definition Clean :: "string \<Rightarrow> string" where
  "Clean path =
     (let rooted = prefix ''/'' path; out = foldl (cleanStep rooted) [] (splitSlash path) in
      if rooted then ''/'' @ joinSlash out else if out = [] then ''.'' else joinSlash out)"

definition Join :: "string \<Rightarrow> string \<Rightarrow> string" where
  "Join a b =
     (if a = [] then (if b = [] then [] else Clean b) else if b = [] then Clean a else Clean (a @ ''/'' @ b))"

section \<open>Registered files\<close>

record fileEntry_pipe =
  fe_info :: FileInfo
  fe_inst :: nat

record pipeline =
  pl_downloadDir :: string
  pl_sanitize :: SanitizeOptions
  pl_fileInfo :: "fileKey \<Rightarrow> fileEntry_pipe option"

definition setSanitize :: "SanitizeOptions \<Rightarrow> pipeline \<Rightarrow> pipeline" where
  "setSanitize o' p = p\<lparr>pl_sanitize := o'\<rparr>"

definition lookupFile :: "pipeline \<Rightarrow> string \<Rightarrow> int \<Rightarrow> fileEntry_pipe option" where
  "lookupFile p jobID fileIdx = pl_fileInfo p (jobID, fileIdx)"

definition resolveFileInfo :: "pipeline \<Rightarrow> string \<Rightarrow> int \<Rightarrow> FileInfo option" where
  "resolveFileInfo p jobID fileIdx = map_option fe_info (lookupFile p jobID fileIdx)"

text \<open>\<open>Inl True\<close> is \<open>ErrJobClosed\<close>, as the assembler distinguishes it.\<close>

definition resolveForWrite :: "(inst \<Rightarrow> string) \<Rightarrow> (inst \<Rightarrow> bool) \<Rightarrow> (inst \<Rightarrow> bool) \<Rightarrow> pipeline \<Rightarrow> inst \<Rightarrow> int \<Rightarrow> bool + FileInfo" where
  "resolveForWrite ident holds handedOff p j fileIdx =
     (if \<not> holds j then Inl True
      else if handedOff j then Inl True
      else case lookupFile p (ident j) fileIdx of None \<Rightarrow> Inl False | Some e \<Rightarrow> Inr (fe_info e))"

definition ownedRanges_of :: "WrittenRow list \<Rightarrow> Range list" where
  "ownedRanges_of rows = map (\<lambda>r. \<lparr>rg_Off = wr_Offset r, rg_Len = wr_Length r\<rparr>) rows"

definition forgetFile :: "string \<Rightarrow> int \<Rightarrow> pipeline \<Rightarrow> pipeline" where
  "forgetFile jobID fileIdx p = p\<lparr>pl_fileInfo := (pl_fileInfo p)((jobID, fileIdx) := None)\<rparr>"

definition forgetJob :: "string \<Rightarrow> pipeline \<Rightarrow> pipeline" where
  "forgetJob jobID p = p\<lparr>pl_fileInfo := (\<lambda>k. if fst k = jobID then None else pl_fileInfo p k)\<rparr>"

definition newJobFileLocation :: "textLib \<Rightarrow> (string \<Rightarrow> (string \<Rightarrow> LstatAnswer) option) \<Rightarrow> pipeline \<Rightarrow> string \<Rightarrow> string \<Rightarrow> jobFile" where
  "newJobFileLocation lib openRoot p jobName subject =
     (let loc = \<lparr>jf_Dir = Join (pl_downloadDir p) jobName, jf_Name = SanitizeFilename lib (pl_sanitize p) subject\<rparr> in
      loc\<lparr>jf_Name := uniqueJobFileName openRoot loc\<rparr>)"

definition jobFileLocation :: "pipeline \<Rightarrow> string \<Rightarrow> string \<Rightarrow> jobFile \<times> bool" where
  "jobFileLocation p jobName recorded =
     (\<lparr>jf_Dir = Join (pl_downloadDir p) jobName, jf_Name = recorded\<rparr>, CheckOneComponent recorded)"

definition jobFile_Path :: "jobFile \<Rightarrow> string" where
  "jobFile_Path f = Join (jf_Dir f) (jf_Name f)"

definition preallocSize :: "FileTable \<Rightarrow> nat \<Rightarrow> int" where
  "preallocSize ft fi = ft_Bytes ft fi"

text \<open>Two of the job's readers.\<close>

definition FileFilename :: "Content \<Rightarrow> int \<Rightarrow> string" where
  "FileFilename c fi =
     (case ct_progress c of
        None \<Rightarrow> []
      | Some p \<Rightarrow> if fi < 0 \<or> fi \<ge> int (length (jp_files p)) then [] else fp_Filename (jp_files p ! nat fi))"

definition job_FileState :: "Content \<Rightarrow> int \<Rightarrow> FileState option" where
  "job_FileState c fi =
     (case ct_progress c of
        None \<Rightarrow> None
      | Some p \<Rightarrow> if fi < 0 \<or> fi \<ge> int (length (jp_files p)) then None else Some (fileState p (nat fi)))"

definition markFileDirty :: "inst \<Rightarrow> int \<Rightarrow> Content \<Rightarrow> recorder \<Rightarrow> recorder" where
  "markFileDirty j fi c r = (case job_FileState c fi of None \<Rightarrow> r | Some st \<Rightarrow> markDirty j (nat fi) st r)"

section \<open>Registering a file\<close>

datatype regError = RegJobClosed | RegNameChanged | RegOther

text \<open>
  What one attempt meets: the name read, the directories as they are when a free name is sought, the name
  when the filename is recorded, and whether the instance is still registered then.
\<close>

record attemptEnv =
  ae_name :: string
  ae_nameNow :: string
  ae_openRoot :: "string \<Rightarrow> (string \<Rightarrow> LstatAnswer) option"
  ae_held :: bool

record pipeWorld =
  pw_ident :: "inst \<Rightarrow> string"
  pw_lib :: textLib

definition fileLocation :: "pipeWorld \<Rightarrow> attemptEnv \<Rightarrow> pipeline \<Rightarrow> Manifest \<Rightarrow> int \<Rightarrow> string \<Rightarrow> jobFile option" where
  "fileLocation w ae p m fileIdx filename =
     (if filename \<noteq> [] then (case jobFileLocation p (ae_name ae) filename of (loc, ok) \<Rightarrow> if ok then Some loc else None)
      else Some (newJobFileLocation (pw_lib w) (ae_openRoot ae) p (ae_name ae) (ft_Subject (mf_ft m) (nat fileIdx))))"

text \<open>
  Only the directory tells two files of one posted subject apart: before the first of them is created the
  second is given the same place.
\<close>

lemma same_subject_same_place:
  assumes "ft_Subject (mf_ft m) (nat i) = ft_Subject (mf_ft m) (nat k)"
  shows "fileLocation w ae p m i [] = fileLocation w ae p m k []"
  using assms by (simp add: fileLocation_def)

definition newFileInfo :: "jobFile \<Rightarrow> nat \<Rightarrow> Manifest \<Rightarrow> int \<Rightarrow> Content \<Rightarrow> FileInfo" where
  "newFileInfo loc totalParts m fileIdx c =
     \<lparr>fi_Path = jobFile_Path loc, fi_TotalParts = int totalParts, fi_ExpectedSize = preallocSize (mf_ft m) (nat fileIdx),
      fi_Owned = ownedRanges_of (FileRows (nat fileIdx) c)\<rparr>"

definition registerFileAttempt :: "pipeWorld \<Rightarrow> attemptEnv \<Rightarrow> inst \<Rightarrow> Manifest \<Rightarrow> int \<Rightarrow> pipeline \<times> Content \<times> recorder
    \<Rightarrow> (pipeline \<times> Content \<times> recorder) \<times> regError option" where
  "registerFileAttempt w ae j m fileIdx = (\<lambda>(p, c, r).
     (let key = (pw_ident w j, fileIdx); filename = FileFilename c fileIdx in
      if (case pl_fileInfo p key of Some e \<Rightarrow> fe_inst e = j | None \<Rightarrow> False) then ((p, c, r), None)
      else
        (case fileLocation w ae p m fileIdx filename of
           None \<Rightarrow> ((p, c, r), Some RegOther)
         | Some loc \<Rightarrow>
             (case CountUnfinishedArticles fileIdx c of
                Inl e \<Rightarrow> ((p, c, r), Some RegOther)
              | Inr totalParts \<Rightarrow>
                  (let info = newFileInfo loc totalParts m fileIdx c;
                       p1 = p\<lparr>pl_fileInfo := (pl_fileInfo p)(key \<mapsto> \<lparr>fe_info = info, fe_inst = j\<rparr>)\<rparr> in
                   if \<not> ae_held ae then ((p, c, r), Some RegJobClosed)
                   else if filename \<noteq> [] then ((p1, c, r), None)
                   else
                     (case RecordFileFilename (ae_nameNow ae) fileIdx (ae_name ae) (jf_Name loc) c of
                        (c1, Some e) \<Rightarrow> ((p, c1, r), Some (if e = ErrNameChanged then RegNameChanged else RegOther))
                      | (c1, None) \<Rightarrow> ((p1, c1, markFileDirty j fileIdx c1 r), None)))))))"

definition registerNameAttempts :: nat where
  "registerNameAttempts = 3"

text \<open>The loop from an attempt number on; \<open>n\<close> attempts are left.\<close>

fun registerLoop :: "pipeWorld \<Rightarrow> (nat \<Rightarrow> attemptEnv) \<Rightarrow> inst \<Rightarrow> Manifest \<Rightarrow> int \<Rightarrow> nat \<Rightarrow> nat \<Rightarrow> pipeline \<times> Content \<times> recorder
    \<Rightarrow> (pipeline \<times> Content \<times> recorder) \<times> regError option" where
  "registerLoop w ae j m fileIdx attempt 0 s = (s, Some RegNameChanged)"
| "registerLoop w ae j m fileIdx attempt (Suc n) s =
     (case registerFileAttempt w (ae attempt) j m fileIdx s of
        (s1, Some RegNameChanged) \<Rightarrow> if n = 0 then (s1, Some RegNameChanged) else registerLoop w ae j m fileIdx (Suc attempt) n s1
      | (s1, e) \<Rightarrow> (s1, e))"

definition registerFile :: "pipeWorld \<Rightarrow> (nat \<Rightarrow> attemptEnv) \<Rightarrow> inst \<Rightarrow> int \<Rightarrow> pipeline \<times> Content \<times> recorder
    \<Rightarrow> (pipeline \<times> Content \<times> recorder) \<times> regError option" where
  "registerFile w ae j fileIdx = (\<lambda>(p, c, r).
     (if (case pl_fileInfo p (pw_ident w j, fileIdx) of Some e \<Rightarrow> fe_inst e = j | None \<Rightarrow> False) then ((p, c, r), None)
      else
        (case ct_manifest c of
           None \<Rightarrow> ((p, c, r), Some RegOther)
         | Some m \<Rightarrow>
             if fileIdx < 0 \<or> fileIdx \<ge> int (mf_NumFiles m) then ((p, c, r), Some RegOther)
             else registerLoop w ae j m fileIdx 1 registerNameAttempts (p, c, r))))"

section \<open>The production line\<close>

text \<open>
  The parts a downloaded article passes through: the downloader with the jobs' content and the results
  it has sent, the pipeline, the recorder with the store, the assembler's request channel and worker.
  \<open>ln_released\<close> counts the results whose buffer the pipeline gave back itself, \<open>ln_hopeless\<close> the jobs it
  reported as hopeless.
\<close>

record Line =
  ln_dl :: Downloader
  ln_pipe :: pipeline
  ln_rec :: recorder
  ln_store :: RecordStore
  ln_queue :: "WriteRequest list"
  ln_wk :: Worker
  ln_released :: nat
  ln_hopeless :: "string list"

definition contentOf :: "inst \<Rightarrow> Line \<Rightarrow> Content" where
  "contentOf j L = dn_content (ln_dl L) j"

definition setContent :: "inst \<Rightarrow> Content \<Rightarrow> Line \<Rightarrow> Line" where
  "setContent j c L = L\<lparr>ln_dl := (ln_dl L)\<lparr>dn_content := (dn_content (ln_dl L))(j := c)\<rparr>\<rparr>"

definition releaseResult :: "Line \<Rightarrow> Line" where
  "releaseResult L = L\<lparr>ln_released := ln_released L + 1\<rparr>"

text \<open>The channel takes the request, or the context ended, or the assembler refused it.\<close>

datatype writeOutcome = WaQueued | WaCancelled | WaFailed

record handleEnv =
  he_current :: bool
  he_attempt :: "nat \<Rightarrow> attemptEnv"
  he_write :: writeOutcome
  he_now :: Time

definition isRetryableDownloaderError :: "ResultError \<Rightarrow> bool" where
  "isRetryableDownloaderError err =
     (case err of
        ErrNoServersLeft \<Rightarrow> False
      | FetchError e \<Rightarrow>
          list_ex (goerr_Is e) [ErrNoArticle, ErrServerUnavailable, ErrAuthRequired, ErrTransient, ErrClosed, ErrUnexpectedEOF, NetOpError, TimeoutError]
      | PayloadFailed e \<Rightarrow> e = YencError ErrCRCMismatch)"

text \<open>\<open>WriteArticle\<close> gives the request the identity of the reference.\<close>

definition writeRequestFor :: "ArticleResult \<Rightarrow> bool \<Rightarrow> WriteRequest" where
  "writeRequestFor res fatal =
     \<lparr>wq_Owner = ars_inst res, wq_JobID = ars_jobID res, wq_FileIdx = int (ars_fileIdx res), wq_ArtIdx = int (ars_artIdx res),
      wq_MessageID = [], wq_Offset = (if fatal then 0 else ars_Offset res), wq_Data = (if fatal then None else ars_Data res),
      wq_CRC32 = (if fatal then 0 else ars_CRC res), wq_FatalErr = fatal, wq_ack = False, wq_delete = False\<rparr>"

definition WriteArticle :: "writeOutcome \<Rightarrow> WriteRequest \<Rightarrow> Line \<Rightarrow> Line" where
  "WriteArticle out req L = (if out = WaQueued then L\<lparr>ln_queue := ln_queue L @ [req]\<rparr> else L)"

definition pipe_clearEmitted :: "ArticleResult \<Rightarrow> Line \<Rightarrow> Line" where
  "pipe_clearEmitted res L =
     setContent (ars_inst res) (fst (ClearArticleEmitted (int (ars_artIdx res)) (contentOf (ars_inst res) L))) L"

definition registerForResult :: "pipeWorld \<Rightarrow> handleEnv \<Rightarrow> ArticleResult \<Rightarrow> Line \<Rightarrow> Line \<times> bool" where
  "registerForResult w env res L =
     (case registerFile w (he_attempt env) (ars_inst res) (int (ars_fileIdx res))
             (ln_pipe L, contentOf (ars_inst res) L, ln_rec L) of
        ((p, c, r), e) \<Rightarrow>
          (let L1 = setContent (ars_inst res) c (L\<lparr>ln_pipe := p, ln_rec := r\<rparr>) in
           case e of
             None \<Rightarrow> (L1, True)
           | Some RegJobClosed \<Rightarrow> (L1, False)
           | Some _ \<Rightarrow> (pipe_clearEmitted res L1, False)))"

definition reportEarlyAbort :: "ArticleResult \<Rightarrow> Line \<Rightarrow> Line" where
  "reportEarlyAbort res L =
     (case CheckEarlyAbort (contentOf (ars_inst res) L) of
        (c, b) \<Rightarrow>
          let L1 = setContent (ars_inst res) c L in
          if b then L1\<lparr>ln_hopeless := ln_hopeless L1 @ [ars_jobID res]\<rparr> else L1)"

definition handleFailureResult :: "pipeWorld \<Rightarrow> handleEnv \<Rightarrow> ArticleResult \<Rightarrow> ResultError \<Rightarrow> Line \<Rightarrow> Line" where
  "handleFailureResult w env res err L0 =
     (let L = releaseResult L0 in
      if err = ErrNoServersLeft \<or> \<not> isRetryableDownloaderError err then
        (case registerForResult w env res L of
           (L1, False) \<Rightarrow> L1
         | (L1, True) \<Rightarrow>
             (let c = fst (MarkArticleFailed (int (ars_artIdx res)) WholeArticle (contentOf (ars_inst res) L1));
                  L2 = WriteArticle (he_write env) (writeRequestFor res True) (setContent (ars_inst res) c L1);
                  L3 = (if he_write env = WaFailed then pipe_clearEmitted res L2 else L2) in
              reportEarlyAbort res L3))
      else pipe_clearEmitted res L)"

definition noteDownload :: "Time \<Rightarrow> ArticleResult \<Rightarrow> Line \<Rightarrow> Line" where
  "noteDownload now res L =
     (let c1 = fst (MarkJobStarted now (contentOf (ars_inst res) L));
          n = (case ars_Data res of None \<Rightarrow> 0 | Some d \<Rightarrow> int (length d)) in
      setContent (ars_inst res) (fst (RecordDownload (ars_ServerName res) n c1)) L)"

definition handleSuccessResult :: "pipeWorld \<Rightarrow> handleEnv \<Rightarrow> ArticleResult \<Rightarrow> Line \<Rightarrow> Line" where
  "handleSuccessResult w env res L0 =
     (case registerForResult w env res (noteDownload (he_now env) res L0) of
        (L1, False) \<Rightarrow> releaseResult L1
      | (L1, True) \<Rightarrow>
          (let L2 = WriteArticle (he_write env) (writeRequestFor res False) L1 in
           case he_write env of
             WaQueued \<Rightarrow> L2
           | WaCancelled \<Rightarrow> releaseResult L2
           | WaFailed \<Rightarrow> releaseResult (pipe_clearEmitted res L2)))"

definition handleResult :: "pipeWorld \<Rightarrow> handleEnv \<Rightarrow> ArticleResult \<Rightarrow> Line \<Rightarrow> Line" where
  "handleResult w env res L =
     (if \<not> he_current env then releaseResult L
      else case ars_Err res of
             Some err \<Rightarrow> handleFailureResult w env res err L
           | None \<Rightarrow> handleSuccessResult w env res L)"

section \<open>The assembler's reports\<close>

definition handleArticleWritten :: "inst \<Rightarrow> int \<Rightarrow> int \<Rightarrow> int \<Rightarrow> int \<Rightarrow> 32 word \<Rightarrow> Line \<Rightarrow> Line" where
  "handleArticleWritten j fileIdx artIdx off n crc L =
     (case noteWritten j \<lparr>wr_FileIdx = fileIdx, wr_ArtIdx = artIdx, wr_Offset = off, wr_Length = n, wr_CRC32 = crc\<rparr> (ln_rec L, contentOf j L) of
        (r, c, e) \<Rightarrow> setContent j c (L\<lparr>ln_rec := r\<rparr>))"

definition handleArticlesUnwritten :: "inst \<Rightarrow> int list \<Rightarrow> Line \<Rightarrow> Line" where
  "handleArticlesUnwritten j artIdxs L =
     foldl (\<lambda>L a. setContent j (fst (ClearArticleEmitted a (contentOf j L))) L) L artIdxs"

definition handleArticleRejected :: "inst \<Rightarrow> int \<Rightarrow> int \<Rightarrow> Line \<Rightarrow> Line" where
  "handleArticleRejected j artIdx uncovered L =
     (let charge = (if uncovered = asmWholeArticle then WholeArticle else uncovered) in
      setContent j (fst (MarkArticleFailed artIdx charge (contentOf j L))) L)"

text \<open>What an untrust meets: whether the instance is registered, whether the writer lock came free, and the transaction.\<close>

record untrustEnv =
  ue_registered :: bool
  ue_free :: bool
  ue_out :: TxOutcome

definition handleFileUntrusted :: "pipeWorld \<Rightarrow> untrustEnv \<Rightarrow> inst \<Rightarrow> int \<Rightarrow> Line \<Rightarrow> Line" where
  "handleFileUntrusted w ue j fileIdx L =
     (if \<not> ue_registered ue then L
      else
        (case untrust (ue_free ue) (pw_ident w) (ue_out ue) j fileIdx (ln_rec L, ln_store L) of
           ((r, s), _) \<Rightarrow>
             (let L1 = L\<lparr>ln_rec := r, ln_store := s\<rparr>;
                  L2 = (case UntrustFile fileIdx (contentOf j L1) of
                          (c, Some e) \<Rightarrow> setContent j c L1
                        | (c, None) \<Rightarrow> (setContent j c L1)\<lparr>ln_rec := markFileDirty j fileIdx c r\<rparr>) in
              L2\<lparr>ln_pipe := forgetFile (pw_ident w j) fileIdx (ln_pipe L2)\<rparr>)))"

text \<open>
  The reports in order. A write fault is handed to a goroutine of its own and a completed file to a
  channel; a returned buffer and an acknowledgement concern the sender.
\<close>

fun onAsmEvent :: "pipeWorld \<Rightarrow> (inst \<Rightarrow> int \<Rightarrow> untrustEnv) \<Rightarrow> AsmEvent \<Rightarrow> Line \<Rightarrow> Line" where
  "onAsmEvent w ue (OnArticleWritten j fi a off n crc) L = handleArticleWritten j fi a off n crc L"
| "onAsmEvent w ue (OnArticleRejected j fi a reason uncovered) L = handleArticleRejected j a uncovered L"
| "onAsmEvent w ue (OnArticlesUnwritten j fi as) L = handleArticlesUnwritten j as L"
| "onAsmEvent w ue (OnFileUntrusted j fi) L = handleFileUntrusted w (ue j fi) j fi L"
| "onAsmEvent w ue _ L = L"

definition onAsmEvents :: "pipeWorld \<Rightarrow> (inst \<Rightarrow> int \<Rightarrow> untrustEnv) \<Rightarrow> AsmEvent list \<Rightarrow> Line \<Rightarrow> Line" where
  "onAsmEvents w ue evs L = fold (onAsmEvent w ue) evs L"

end
