(* ===== verification/Verify.thy ===== *)
theory Verify
  imports Pipeline Crc
begin

text \<open>
  Reading back a job's recorded articles after a restart or for a retry (\<^verbatim>\<open>internal/app/verify.go\<close>), and
  installing what was verified (\<^verbatim>\<open>internal/app/residency.go\<close>). Files are byte lists by location; whether an
  open, a sync, a read or a finish fails, and whether the context has ended, are arguments. The sums of an
  offset and a length are taken not to overflow an \<open>int64\<close>: the decoder bounds both.
\<close>

section \<open>Answers of the file system\<close>

datatype dirAnswer = DirOpen | DirMissing | DirFault

text \<open>A finish fails before it truncates, or after.\<close>

datatype finishAnswer = FinishOk | FinishBefore | FinishAfter

record vfsEnv =
  ve_dir :: "string \<Rightarrow> dirAnswer"
  ve_openFault :: "jobFile \<Rightarrow> bool"
  ve_syncFails :: "jobFile \<Rightarrow> bool"
  ve_dropFails :: "jobFile \<Rightarrow> bool"
  ve_readFault :: "jobFile \<Rightarrow> int \<Rightarrow> bool"
  ve_ended :: "jobFile \<Rightarrow> nat \<Rightarrow> bool"
  ve_endedFinish :: "jobFile \<Rightarrow> bool"
  ve_finish :: "jobFile \<Rightarrow> finishAnswer"

type_synonym vfs = "jobFile \<Rightarrow> bytes option"

datatype verifyFault = LocateFault jobFile | DirectoryFault string | FileFault jobFile

text \<open>\<open>ReadAt\<close>: the bytes there are, and end of file when they are fewer than asked for.\<close>

datatype readError = ReadEOF | ReadOther

definition preadAt :: "vfsEnv \<Rightarrow> jobFile \<Rightarrow> bytes \<Rightarrow> nat \<Rightarrow> int \<Rightarrow> bytes \<times> readError option" where
  "preadAt e loc content n off =
     (if ve_readFault e loc off then ([], Some ReadOther)
      else let b = take n (drop (nat off) content) in (b, if length b < n then Some ReadEOF else None))"

section \<open>One row\<close>

definition verifyBufSize :: nat where
  "verifyBufSize = 2 ^ 20"

definition crc32_Update :: "32 word \<Rightarrow> bytes \<Rightarrow> 32 word" where
  "crc32_Update crc p = NOT (foldl crcByte (NOT crc) p)"

definition chunkLen :: "WrittenRow \<Rightarrow> int \<Rightarrow> nat" where
  "chunkLen r pos = nat (min (int verifyBufSize) (wr_Length r - pos))"

text \<open>\<open>Inl\<close> is a read error.\<close>

function rowLoop :: "(nat \<Rightarrow> int \<Rightarrow> bytes \<times> readError option) \<Rightarrow> WrittenRow \<Rightarrow> int \<Rightarrow> 32 word \<Rightarrow> unit + bool" where
  "rowLoop pread r pos crc =
     (if pos < wr_Length r then
        (let got = pread (chunkLen r pos) (wr_Offset r + pos) in
         if length (fst got) = chunkLen r pos then rowLoop pread r (pos + int (length (fst got))) (crc32_Update crc (fst got))
         else if snd got = Some ReadEOF then Inr False
         else Inl ())
      else Inr (crc = wr_CRC32 r))"
  by pat_completeness auto
termination
  by (relation "measure (\<lambda>(pread, r, pos, crc). nat (wr_Length r - pos))") (auto simp: verifyBufSize_def chunkLen_def)

declare rowLoop.simps [simp del]

definition rowMatches :: "vfsEnv \<Rightarrow> jobFile \<Rightarrow> bytes \<Rightarrow> WrittenRow \<Rightarrow> unit + bool" where
  "rowMatches e loc content r = rowLoop (preadAt e loc content) r 0 0"

section \<open>The rows of a file\<close>

record fileReadback =
  rk_deleteAll :: bool
  rk_deleted :: "int list"
  rk_verified :: "WrittenRow list"
  rk_failed :: "int list"

definition noReadback :: fileReadback where
  "noReadback = \<lparr>rk_deleteAll = False, rk_deleted = [], rk_verified = [], rk_failed = []\<rparr>"

definition intersects :: "WrittenRow \<Rightarrow> WrittenRow \<Rightarrow> bool" where
  "intersects a b \<longleftrightarrow> wr_Offset a < wr_Offset b + wr_Length b \<and> wr_Offset b < wr_Offset a + wr_Length a"

text \<open>The first loop: the rows kept so far and the flags of the rows seen.\<close>

fun keepLoop :: "WrittenRow list \<Rightarrow> (WrittenRow \<times> bool) list \<Rightarrow> WrittenRow list \<times> bool list" where
  "keepLoop verified [] = (verified, [])"
| "keepLoop verified ((r, matched) # rs) =
     (let keep = (matched \<and> \<not> (verified \<noteq> [] \<and> intersects r (last verified)));
          (v, ks) = keepLoop (if keep then verified @ [r] else verified) rs in
      (v, keep # ks))"

text \<open>The second: \<open>before\<close> kept rows precede the row looked at.\<close>

fun judgeLoop :: "WrittenRow list \<Rightarrow> nat \<Rightarrow> (WrittenRow \<times> bool) list \<Rightarrow> int list \<times> int list" where
  "judgeLoop verified before [] = ([], [])"
| "judgeLoop verified before ((r, kept) # rs) =
     (if kept then judgeLoop verified (before + 1) rs
      else let hit = (before > 0 \<and> intersects r (verified ! (before - 1)) \<or>
                      before < length verified \<and> intersects r (verified ! before));
               (failed, deleted) = judgeLoop verified before rs in
           (if hit then wr_ArtIdx r # failed else failed, wr_ArtIdx r # deleted))"

definition resolveRows :: "WrittenRow list \<Rightarrow> bool list \<Rightarrow> fileReadback" where
  "resolveRows rows matches =
     (case keepLoop [] (zip rows matches) of
        (verified, kept) \<Rightarrow>
          (case judgeLoop verified 0 (zip rows kept) of
             (failed, deleted) \<Rightarrow> \<lparr>rk_deleteAll = False, rk_deleted = deleted, rk_verified = verified, rk_failed = failed\<rparr>))"

text \<open>The read-back of each row until one cannot be read or the context ends.\<close>

fun matchLoop :: "vfsEnv \<Rightarrow> jobFile \<Rightarrow> bytes \<Rightarrow> nat \<Rightarrow> WrittenRow list \<Rightarrow> unit + bool list" where
  "matchLoop e loc content k [] = Inr []"
| "matchLoop e loc content k (r # rs) =
     (if ve_ended e loc k then Inl ()
      else case rowMatches e loc content r of
             Inl u \<Rightarrow> Inl u
           | Inr ok \<Rightarrow> (case matchLoop e loc content (k + 1) rs of Inl u \<Rightarrow> Inl u | Inr bs \<Rightarrow> Inr (ok # bs)))"

definition readBackOpen :: "vfsEnv \<Rightarrow> jobFile \<Rightarrow> bytes \<Rightarrow> WrittenRow list \<Rightarrow> unit + fileReadback" where
  "readBackOpen e loc content rows =
     (let invalid = filter (\<lambda>r. \<not> HasValidShape r) rows;
          empty = filter (\<lambda>r. HasValidShape r \<and> wr_Length r = 0) rows;
          valid = filter (\<lambda>r. HasValidShape r \<and> wr_Length r \<noteq> 0) rows in
      case matchLoop e loc content 0 valid of
        Inl u \<Rightarrow> Inl u
      | Inr bs \<Rightarrow>
          (let out = resolveRows valid bs in
           Inr (out\<lparr>rk_deleted := rk_deleted out @ map wr_ArtIdx invalid @ map wr_ArtIdx (filter (\<lambda>r. wr_CRC32 r \<noteq> 0) empty),
                    rk_verified := rk_verified out @ filter (\<lambda>r. wr_CRC32 r = 0) empty\<rparr>)))"

definition readBackFile :: "vfsEnv \<Rightarrow> vfs \<Rightarrow> jobFile \<Rightarrow> WrittenRow list \<Rightarrow> bool \<Rightarrow> verifyFault + fileReadback" where
  "readBackFile e fs loc rows retry =
     (case ve_dir e (jf_Dir loc) of
        DirMissing \<Rightarrow> if retry then Inr (noReadback\<lparr>rk_deleteAll := True\<rparr>) else Inl (DirectoryFault (jf_Dir loc))
      | DirFault \<Rightarrow> Inl (DirectoryFault (jf_Dir loc))
      | DirOpen \<Rightarrow>
          if ve_openFault e loc then Inl (FileFault loc)
          else (case fs loc of
                  None \<Rightarrow> Inr (noReadback\<lparr>rk_deleteAll := True\<rparr>)
                | Some content \<Rightarrow>
                    if ve_syncFails e loc then Inr (noReadback\<lparr>rk_deleteAll := True\<rparr>)
                    else if ve_dropFails e loc then Inl (FileFault loc)
                    else (case readBackOpen e loc content rows of
                            Inl u \<Rightarrow> Inl (FileFault loc)
                          | Inr out \<Rightarrow> Inr out)))"

section \<open>Finishing a file whose articles are all resolved\<close>

record FileRow =
  fr_FileIndex :: int
  fr_Complete :: bool
  fr_FetchPolicy :: FetchPolicy
  fr_Filename :: string

definition fileFinishable :: "FileTable \<Rightarrow> int \<Rightarrow> FetchPolicy \<Rightarrow> bool \<Rightarrow> (int \<Rightarrow> bool) \<Rightarrow> bool" where
  "fileFinishable ft fi policy complete resolved =
     (if fi < 0 \<or> fi \<ge> int (ft_NumFiles ft) then False
      else if policy \<noteq> FetchAlways \<or> complete then False
      else let (lo, hi) = ft_Range ft (nat fi) in
           if hi \<le> lo then False else list_all (\<lambda>i. resolved (int i)) [lo..<hi])"

text \<open>\<open>ShrinkAfterSync\<close> on a file of some size: it is cut at \<open>end\<close>, which 0 leaves alone.\<close>

definition shrinkTo :: "int \<Rightarrow> bytes \<Rightarrow> bytes" where
  "shrinkTo fend content = (if fend > 0 \<and> int (length content) > fend then take (nat fend) content else content)"

definition finishFileByPath :: "vfsEnv \<Rightarrow> jobFile \<Rightarrow> int \<Rightarrow> int \<Rightarrow> vfs \<Rightarrow> vfs \<times> bool" where
  "finishFileByPath e loc fileEnd prealloc fs =
     (if ve_dir e (jf_Dir loc) \<noteq> DirOpen \<or> ve_openFault e loc then (fs, False)
      else case fs loc of
             None \<Rightarrow> (fs, False)
           | Some content \<Rightarrow>
               if ve_finish e loc = FinishBefore then (fs, False)
               else (fs(loc \<mapsto> shrinkTo (if int (length content) = prealloc then fileEnd else 0) content),
                     ve_finish e loc = FinishOk))"

definition verifiedEnd :: "WrittenRow list \<Rightarrow> int" where
  "verifiedEnd rows = fold (\<lambda>r n. if wr_Length r > 0 then max n (wr_Offset r + wr_Length r) else n) rows 0"

text \<open>\<open>Inl\<close> is a failed finish or an ended context.\<close>

definition finishIfResolved :: "vfsEnv \<Rightarrow> FileTable \<Rightarrow> FileRow \<Rightarrow> jobFile \<Rightarrow> fileReadback \<Rightarrow> bool \<Rightarrow> vfs \<Rightarrow> vfs \<times> (unit + bool)" where
  "finishIfResolved e ft f loc out retry fs =
     (if rk_deleteAll out \<or> rk_verified out = [] then (fs, Inr False)
      else let resolved = (\<lambda>i. i \<in> wr_ArtIdx ` set (rk_verified out) \<or> \<not> retry \<and> i \<in> set (rk_failed out)) in
           if \<not> fileFinishable ft (fr_FileIndex f) (fr_FetchPolicy f) (fr_Complete f) resolved then (fs, Inr False)
           else if ve_endedFinish e loc then (fs, Inl ())
           else (case finishFileByPath e loc (verifiedEnd (rk_verified out)) (preallocSize ft (nat (fr_FileIndex f))) fs of
                   (fs1, ok) \<Rightarrow> (fs1, if ok then Inr True else Inl ())))"

section \<open>All files of a job\<close>

record verifyResult =
  vr_Verdicts :: "FileVerdict list"
  vr_Verified :: "int \<Rightarrow> WrittenRow list"
  vr_Failed :: "int \<Rightarrow> int list"

definition noResult :: verifyResult where
  "noResult = \<lparr>vr_Verdicts = [], vr_Verified = (\<lambda>_. []), vr_Failed = (\<lambda>_. [])\<rparr>"

definition rowsByFile :: "WrittenRow list \<Rightarrow> int \<Rightarrow> WrittenRow list" where
  "rowsByFile rows fi =
     sort_key wr_Offset (sort_key wr_ArtIdx (filter (\<lambda>r. wr_FileIdx r = fi) rows))"

definition verdictOf :: "int \<Rightarrow> bool \<Rightarrow> int list \<Rightarrow> bool \<Rightarrow> FileVerdict" where
  "verdictOf fi deleteAll deleted finished =
     \<lparr>vd_FileIdx = fi, vd_DeleteAll = deleteAll, vd_DeleteArtIdxs = deleted, vd_ClearComplete = False, vd_SetComplete = finished\<rparr>"

text \<open>What a read-back file adds to the result.\<close>

definition noteReadback :: "int \<Rightarrow> fileReadback \<Rightarrow> bool \<Rightarrow> verifyResult \<Rightarrow> verifyResult" where
  "noteReadback fi out finished res =
     (let v = verdictOf fi (rk_deleteAll out) (rk_deleted out) finished;
          res1 = (if rk_verified out \<noteq> [] then res\<lparr>vr_Verified := (vr_Verified res)(fi := rk_verified out)\<rparr> else res);
          res2 = (if rk_failed out \<noteq> [] then res1\<lparr>vr_Failed := (vr_Failed res1)(fi := rk_failed out)\<rparr> else res1) in
      if vd_DeleteAll v \<or> vd_DeleteArtIdxs v \<noteq> [] \<or> vd_SetComplete v then res2\<lparr>vr_Verdicts := vr_Verdicts res2 @ [v]\<rparr> else res2)"

fun verifyLoop :: "vfsEnv \<Rightarrow> FileTable \<Rightarrow> WrittenRow list \<Rightarrow> (string \<Rightarrow> jobFile \<times> bool) \<Rightarrow> bool \<Rightarrow> FileRow list \<Rightarrow> verifyResult
    \<Rightarrow> vfs \<Rightarrow> vfs \<times> (verifyFault + verifyResult)" where
  "verifyLoop e ft rows locate retry [] res fs = (fs, Inr res)"
| "verifyLoop e ft rows locate retry (f # files) res fs =
     (let fi = fr_FileIndex f; fr = rowsByFile rows fi; continue = verifyLoop e ft rows locate retry files in
      if fr = [] then continue res fs
      else if fr_Complete f then continue (res\<lparr>vr_Verified := (vr_Verified res)(fi := fr)\<rparr>) fs
      else if fr_Filename f = [] then continue (res\<lparr>vr_Verdicts := vr_Verdicts res @ [verdictOf fi True [] False]\<rparr>) fs
      else
        (case locate (fr_Filename f) of
           (loc, ok) \<Rightarrow>
             if \<not> ok then (fs, Inl (LocateFault loc))
             else
               (case readBackFile e fs loc fr retry of
                  Inl fault \<Rightarrow> (fs, Inl fault)
                | Inr out \<Rightarrow>
                    (case finishIfResolved e ft f loc out retry fs of
                       (fs1, Inl u) \<Rightarrow> (fs1, Inl (FileFault loc))
                     | (fs1, Inr finished) \<Rightarrow> continue (noteReadback fi out finished res) fs1))))"

definition verifyJobFiles :: "vfsEnv \<Rightarrow> FileTable \<Rightarrow> FileRow list \<Rightarrow> WrittenRow list \<Rightarrow> (string \<Rightarrow> jobFile \<times> bool) \<Rightarrow> bool
    \<Rightarrow> vfs \<Rightarrow> vfs \<times> (verifyFault + verifyResult)" where
  "verifyJobFiles e ft files rows locate retry fs = verifyLoop e ft rows locate retry files noResult fs"

section \<open>Installing what was verified\<close>

definition verificationOf :: "WrittenRow list \<Rightarrow> verifyResult \<Rightarrow> bool \<Rightarrow> FileRow \<Rightarrow> FileVerification" where
  "verificationOf rows res restorePolicy f =
     (let fi = fr_FileIndex f in
      \<lparr>fv_FileIdx = fi, fv_Filename = fr_Filename f, fv_RestorePolicy = restorePolicy, fv_Policy = fr_FetchPolicy f,
       fv_Complete = fr_Complete f, fv_Rows = (if fr_Complete f then rowsByFile rows fi else vr_Verified res fi),
       fv_Failed = vr_Failed res fi,
       fv_Settle = list_ex (\<lambda>v. vd_SetComplete v \<and> vd_FileIdx v = fi) (vr_Verdicts res)\<rparr>)"

definition verificationsOf :: "FileRow list \<Rightarrow> WrittenRow list \<Rightarrow> verifyResult \<Rightarrow> bool \<Rightarrow> FileVerification list" where
  "verificationsOf files rows res restorePolicy = map (verificationOf rows res restorePolicy) files"

text \<open>The files it finished; the archive peek it may call changes no state of the model.\<close>

fun finishInstalled :: "(FileVerification \<times> (ContentError, nat) result) list \<Rightarrow> Content \<Rightarrow> Content \<times> int list" where
  "finishInstalled [] c = (c, [])"
| "finishInstalled ((v, i) # vs) c =
     (case i of
        Inl e \<Rightarrow> finishInstalled vs c
      | Inr dropped \<Rightarrow>
          if \<not> fv_Settle v then finishInstalled vs c
          else (case MarkFileComplete (fv_FileIdx v) c of
                  (c1, Some e) \<Rightarrow> finishInstalled vs c1
                | (c1, None) \<Rightarrow> (case finishInstalled vs c1 of (c2, fin) \<Rightarrow> (c2, fv_FileIdx v # fin))))"

definition installVerification :: "Manifest option \<Rightarrow> FileRow list \<Rightarrow> WrittenRow list \<Rightarrow> verifyResult \<Rightarrow> bool \<Rightarrow> Content
    \<Rightarrow> Content \<times> (ContentError + int list)" where
  "installVerification mo files rows res restorePolicy c =
     (let vs = verificationsOf files rows res restorePolicy in
      case (case mo of Some m \<Rightarrow> AttachArticles (Some m) vs c | None \<Rightarrow> (case installAll vs c of (c1, rs) \<Rightarrow> (c1, Inr rs))) of
        (c1, Inl e) \<Rightarrow> (c1, Inl e)
      | (c1, Inr installs) \<Rightarrow> (case finishInstalled (zip vs installs) c1 of (c2, fin) \<Rightarrow> (c2, Inr fin)))"

section \<open>One row is what the file holds\<close>

definition row_bytes :: "WrittenRow \<Rightarrow> int set" where
  "row_bytes r = {wr_Offset r..<wr_Offset r + wr_Length r}"

definition row_on_disk :: "bytes \<Rightarrow> WrittenRow \<Rightarrow> bool" where
  "row_on_disk content r \<longleftrightarrow> HasValidShape r \<and>
     (if wr_Length r = 0 then wr_CRC32 r = 0
      else wr_Offset r + wr_Length r \<le> int (length content) \<and>
           ChecksumIEEE (take (nat (wr_Length r)) (drop (nat (wr_Offset r)) content)) = wr_CRC32 r)"

lemma crc32_Update_append: "crc32_Update (crc32_Update c a) b = crc32_Update c (a @ b)"
  by (simp add: crc32_Update_def)

lemma crc32_Update_zero: "crc32_Update 0 p = ChecksumIEEE p"
  by (simp add: crc32_Update_def ChecksumIEEE_def)

lemma rowLoop_sound:
  assumes "rowLoop (preadAt e loc content) r pos crc = Inr b" "0 \<le> wr_Offset r" "0 < wr_Length r" "0 \<le> pos" "pos \<le> wr_Length r"
    "pos = 0 \<or> wr_Offset r + pos \<le> int (length content)"
  shows "b \<longleftrightarrow> wr_Offset r + wr_Length r \<le> int (length content) \<and>
    crc32_Update crc (take (nat (wr_Length r - pos)) (drop (nat (wr_Offset r + pos)) content)) = wr_CRC32 r"
  using assms
proof (induction "preadAt e loc content" r pos crc rule: rowLoop.induct)
  case (1 r pos crc)
  define n where "n = chunkLen r pos"
  let ?d = "drop (nat (wr_Offset r + pos)) content"
  show ?case
  proof (cases "pos < wr_Length r")
    case False
    then show ?thesis using "1.prems" by (simp add: rowLoop.simps crc32_Update_def)
  next
    case True
    have n0: "0 < n" "int n \<le> wr_Length r - pos" using True by (auto simp: n_def chunkLen_def verifyBufSize_def)
    have "\<not> ve_readFault e loc (wr_Offset r + pos)"
      using "1.prems"(1) True n0(1) by (auto simp: rowLoop.simps preadAt_def Let_def n_def split: if_splits)
    then have p: "preadAt e loc content n (wr_Offset r + pos) =
        (take n ?d, if length (take n ?d) < n then Some ReadEOF else None)"
      by (simp add: preadAt_def Let_def)
    show ?thesis
    proof (cases "length (take n ?d) = n")
      case full: True
      have le: "n \<le> length ?d" using full by (metis length_take min.cobounded1)
      have step: "rowLoop (preadAt e loc content) r pos crc = rowLoop (preadAt e loc content) r (pos + int n) (crc32_Update crc (take n ?d))"
        using True full by (subst rowLoop.simps) (simp add: p Let_def flip: n_def)
      have fit: "wr_Offset r + (pos + int n) \<le> int (length content)"
        using le n0 "1.prems"(2,4) by (simp add: le_diff_conv)
      have "b \<longleftrightarrow> wr_Offset r + wr_Length r \<le> int (length content) \<and>
        crc32_Update (crc32_Update crc (take n ?d)) (take (nat (wr_Length r - (pos + int n))) (drop (nat (wr_Offset r + (pos + int n))) content)) = wr_CRC32 r"
        using "1.hyps"[OF True HOL.refl] full "1.prems" n0 step fit by (simp add: p flip: n_def)
      moreover have "take (nat (wr_Length r - pos)) ?d = take n ?d @ take (nat (wr_Length r - (pos + int n))) (drop (nat (wr_Offset r + (pos + int n))) content)"
      proof -
        have "nat (wr_Length r - pos) = n + nat (wr_Length r - (pos + int n))"
          "nat (wr_Offset r + (pos + int n)) = n + nat (wr_Offset r + pos)" using n0 "1.prems"(2,4) by auto
        then show ?thesis by (simp add: take_add add.commute)
      qed
      ultimately show ?thesis by (simp add: crc32_Update_append)
    next
      case short: False
      then have "b = False" using True "1.prems"(1) by (subst (asm) rowLoop.simps) (auto simp: p Let_def split: if_splits simp flip: n_def)
      moreover have "\<not> wr_Offset r + wr_Length r \<le> int (length content)"
        using short n0 "1.prems"(2,4) by auto
      ultimately show ?thesis by simp
    qed
  qed
qed

lemma rowMatches_sound:
  assumes "rowMatches e loc content r = Inr b" "HasValidShape r" "wr_Length r \<noteq> 0"
  shows "b \<longleftrightarrow> row_on_disk content r"
  using rowLoop_sound[of e loc content r 0 0 b] assms
  by (auto simp: rowMatches_def row_on_disk_def HasValidShape_def crc32_Update_zero)

lemma matchLoop_sound:
  assumes "matchLoop e loc content k rows = Inr bs" "\<forall>r\<in>set rows. HasValidShape r \<and> wr_Length r \<noteq> 0"
  shows "bs = map (row_on_disk content) rows"
  using assms
proof (induction rows arbitrary: k bs)
  case (Cons r rs)
  obtain ok bs' where "rowMatches e loc content r = Inr ok" "matchLoop e loc content (k + 1) rs = Inr bs'" "bs = ok # bs'"
    using Cons.prems(1) by (auto split: if_splits sum.splits)
  then show ?case using Cons.IH[of "k + 1" bs'] rowMatches_sound[of e loc content r ok] Cons.prems(2) by simp
qed simp

section \<open>Rows that intersect\<close>

definition before_row :: "WrittenRow \<Rightarrow> WrittenRow \<Rightarrow> bool" where
  "before_row a b \<longleftrightarrow> wr_Offset a + wr_Length a \<le> wr_Offset b"

lemma intersects_iff:
  "0 < wr_Length a \<Longrightarrow> 0 < wr_Length b \<Longrightarrow> intersects a b \<longleftrightarrow> row_bytes a \<inter> row_bytes b \<noteq> {}"
  by (auto simp: intersects_def row_bytes_def ivl_disj_int)

lemma keepLoop_sound:
  assumes "keepLoop acc rs = (v, ks)" "sorted (map (wr_Offset \<circ> fst) rs)" "sorted_wrt before_row acc"
    "\<forall>a\<in>set acc. 0 < wr_Length a \<and> (\<forall>r\<in>set rs. wr_Offset a \<le> wr_Offset (fst r))" "\<forall>r\<in>set rs. 0 < wr_Length (fst r)"
  shows "length ks = length rs" "v = acc @ map fst (filter snd (zip (map fst rs) ks))" "sorted_wrt before_row v"
    "\<forall>(r, k)\<in>set (zip rs ks). k \<longrightarrow> snd r" "\<forall>(r, k)\<in>set (zip rs ks). snd r \<longrightarrow> \<not> k \<longrightarrow> (\<exists>x\<in>set v. intersects (fst r) x)"
proof -
  have "length ks = length rs \<and> v = acc @ map fst (filter snd (zip (map fst rs) ks)) \<and> sorted_wrt before_row v \<and>
    (\<forall>(r, k)\<in>set (zip rs ks). (k \<longrightarrow> snd r) \<and> (snd r \<longrightarrow> \<not> k \<longrightarrow> (\<exists>x\<in>set v. intersects (fst r) x)))"
    using assms
  proof (induction rs arbitrary: acc v ks)
    case (Cons p rs)
    obtain r m where p: "p = (r, m)" by force
    let ?keep = "m \<and> \<not> (acc \<noteq> [] \<and> intersects r (last acc))"
    let ?acc = "if ?keep then acc @ [r] else acc"
    obtain ks' where ks': "keepLoop ?acc rs = (v, ks')" "ks = ?keep # ks'"
      using Cons.prems(1) by (auto simp: p Let_def split: prod.splits)
    have chain: "sorted_wrt before_row ?acc"
    proof (cases ?keep)
      case True
      have "before_row a r" if "a \<in> set acc" for a
      proof -
        have ne: "acc \<noteq> []" using that by auto
        have l: "before_row (last acc) r"
          using True ne bspec[OF Cons.prems(4) last_in_set[OF ne]] Cons.prems(5) by (simp add: p intersects_def before_row_def)
        show ?thesis
        proof (cases "a = last acc")
          case False
          then have "a \<in> set (butlast acc)" using that ne by (metis append_butlast_last_id in_set_conv_decomp_last insert_iff set_ConsD Un_iff set_append rotate1.simps(2) set_rotate1 empty_iff list.set(1))
          then have "before_row a (last acc)" using Cons.prems(3) ne
            by (metis append_butlast_last_id sorted_wrt_append last_in_set list.set_intros(1))
          then show ?thesis using l bspec[OF Cons.prems(4) last_in_set[OF ne]] by (simp add: before_row_def)
        qed (simp add: l)
      qed
      then show ?thesis using True Cons.prems(3) by (simp add: sorted_wrt_append)
    next
      case False
      show ?thesis by (simp only: False if_False) (rule Cons.prems(3))
    qed
    have ih: "length ks' = length rs \<and> v = ?acc @ map fst (filter snd (zip (map fst rs) ks')) \<and> sorted_wrt before_row v \<and>
      (\<forall>(r, k)\<in>set (zip rs ks'). (k \<longrightarrow> snd r) \<and> (snd r \<longrightarrow> \<not> k \<longrightarrow> (\<exists>x\<in>set v. intersects (fst r) x)))"
      using Cons.prems(2,4,5) by (intro Cons.IH ks'(1) chain) (auto simp: p)
    note ih = ih[THEN conjunct1] ih[THEN conjunct2, THEN conjunct1] ih[THEN conjunct2, THEN conjunct2, THEN conjunct1]
      ih[THEN conjunct2, THEN conjunct2, THEN conjunct2]
    have hit: "\<exists>x\<in>set v. intersects r x" if "m" "\<not> ?keep"
    proof
      show "intersects r (last acc)" "last acc \<in> set v" using that ih(2) by auto
    qed
    have z: "set (zip (p # rs) ks) = insert (p, ?keep) (set (zip rs ks'))" by (simp add: ks'(2))
    show ?case
    proof (intro conjI)
      show "length ks = length (p # rs)" using ih(1) by (simp add: ks'(2))
      show "v = acc @ map fst (filter snd (zip (map fst (p # rs)) ks))"
        by (subst ih(2)) (simp add: ks'(2) p)
      show "\<forall>(r, k)\<in>set (zip (p # rs) ks). (k \<longrightarrow> snd r) \<and> (snd r \<longrightarrow> \<not> k \<longrightarrow> (\<exists>x\<in>set v. intersects (fst r) x))"
        unfolding z using ih(4) hit by (simp add: p)
    qed (rule ih(3))
  qed simp
  note * = this
  show "length ks = length rs" by (rule *[THEN conjunct1])
  show "v = acc @ map fst (filter snd (zip (map fst rs) ks))" by (rule *[THEN conjunct2, THEN conjunct1])
  show "sorted_wrt before_row v" by (rule *[THEN conjunct2, THEN conjunct2, THEN conjunct1])
  note b = *[THEN conjunct2, THEN conjunct2, THEN conjunct2]
  show "\<forall>(r, k)\<in>set (zip rs ks). k \<longrightarrow> snd r" "\<forall>(r, k)\<in>set (zip rs ks). snd r \<longrightarrow> \<not> k \<longrightarrow> (\<exists>x\<in>set v. intersects (fst r) x)"
    using b by fast+
qed

text \<open>Of the kept rows only the neighbours need be asked.\<close>

lemma neighbours_suffice:
  assumes "sorted_wrt before_row (pre @ post)" "\<forall>x\<in>set (pre @ post). 0 < wr_Length x" "0 < wr_Length r"
    "\<forall>x\<in>set pre. wr_Offset x \<le> wr_Offset r" "\<forall>x\<in>set post. wr_Offset r \<le> wr_Offset x"
  shows "(pre \<noteq> [] \<and> intersects r (last pre) \<or> post \<noteq> [] \<and> intersects r (hd post)) \<longleftrightarrow> (\<exists>x\<in>set (pre @ post). intersects r x)"
proof
  assume "\<exists>x\<in>set (pre @ post). intersects r x"
  then obtain x where x: "x \<in> set pre \<or> x \<in> set post" "intersects r x" by auto
  then show "pre \<noteq> [] \<and> intersects r (last pre) \<or> post \<noteq> [] \<and> intersects r (hd post)"
  proof (elim disjE conjE)
    assume a: "x \<in> set pre"
    then obtain ys zs where pre: "pre = ys @ x # zs" by (meson split_list)
    have "zs = []"
    proof (rule ccontr)
      assume "zs \<noteq> []"
      then have "before_row x (hd zs)" "hd zs \<in> set pre" using assms(1) pre by (auto simp: sorted_wrt_append)
      then show False using assms(4) x(2) by (force simp: before_row_def intersects_def)
    qed
    then show ?thesis using x(2) pre by simp
  next
    assume a: "x \<in> set post"
    then obtain y ys where post: "post = y # ys" by (cases post) auto
    show ?thesis
    proof (cases "x = y")
      case False
      then have "before_row y x" using a post assms(1) by (simp add: sorted_wrt_append)
      moreover have "0 < wr_Length y" "wr_Offset r \<le> wr_Offset y" using assms(2,5) post by auto
      ultimately have "intersects r y" using x(2) assms(3) by (auto simp: before_row_def intersects_def)
      then show ?thesis by (simp add: post)
    qed (use x(2) post in simp)
  qed
qed auto

lemma judgeLoop_sound:
  assumes "v = pre @ map fst (filter snd rs)" "sorted_wrt before_row v" "sorted (map (wr_Offset \<circ> fst) rs)"
    "\<forall>x\<in>set pre. 0 < wr_Length x \<and> (\<forall>r\<in>set rs. wr_Offset x \<le> wr_Offset (fst r))" "\<forall>r\<in>set rs. 0 < wr_Length (fst r)"
  shows "judgeLoop v (length pre) rs =
    (map wr_ArtIdx (filter (\<lambda>r. \<exists>x\<in>set v. intersects r x) (map fst (filter (\<lambda>r. \<not> snd r) rs))),
     map wr_ArtIdx (map fst (filter (\<lambda>r. \<not> snd r) rs)))"
  using assms
proof (induction rs arbitrary: pre)
  case (Cons p rs)
  obtain r k where p: "p = (r, k)" by force
  show ?case
  proof (cases k)
    case True
    have "judgeLoop v (length (pre @ [r])) rs =
      (map wr_ArtIdx (filter (\<lambda>r. \<exists>x\<in>set v. intersects r x) (map fst (filter (\<lambda>r. \<not> snd r) rs))),
       map wr_ArtIdx (map fst (filter (\<lambda>r. \<not> snd r) rs)))"
      using Cons.prems True by (intro Cons.IH) (auto simp: p)
    then show ?thesis using True by (simp add: p)
  next
    case False
    let ?post = "map fst (filter snd rs)"
    have v: "v = pre @ ?post" using Cons.prems(1) False by (simp add: p)
    have ih: "judgeLoop v (length pre) rs =
      (map wr_ArtIdx (filter (\<lambda>r. \<exists>x\<in>set v. intersects r x) (map fst (filter (\<lambda>r. \<not> snd r) rs))),
       map wr_ArtIdx (map fst (filter (\<lambda>r. \<not> snd r) rs)))"
      using Cons.prems v by (intro Cons.IH) auto
    have "(0 < length pre \<and> intersects r (v ! (length pre - 1)) \<or> length pre < length v \<and> intersects r (v ! length pre)) \<longleftrightarrow>
      (pre \<noteq> [] \<and> intersects r (last pre) \<or> ?post \<noteq> [] \<and> intersects r (hd ?post))"
      by (auto simp: v nth_append last_conv_nth hd_conv_nth)
    also have "\<dots> \<longleftrightarrow> (\<exists>x\<in>set v. intersects r x)"
      unfolding v using Cons.prems(2-5) v by (intro neighbours_suffice) (auto simp: p)
    finally show ?thesis using False ih by (simp add: p)
  qed
qed simp

section \<open>One file\<close>

text \<open>
  What a read-back establishes: the verified rows are on disk and disjoint, every other row is deleted, the
  deleted ones that lost their bytes to a verified row are failed, and a row whose bytes match is given up
  only that way.
\<close>

definition readback_ok :: "bytes \<Rightarrow> WrittenRow list \<Rightarrow> fileReadback \<Rightarrow> bool" where
  "readback_ok content rows out \<longleftrightarrow> \<not> rk_deleteAll out \<and> set (rk_verified out) \<subseteq> set rows \<and>
     (\<forall>r\<in>set (rk_verified out). row_on_disk content r) \<and>
     (\<forall>x\<in>set (rk_verified out). \<forall>y\<in>set (rk_verified out). x \<noteq> y \<longrightarrow> row_bytes x \<inter> row_bytes y = {}) \<and>
     set (rk_deleted out) = wr_ArtIdx ` (set rows - set (rk_verified out)) \<and>
     set (rk_failed out) = wr_ArtIdx ` {r \<in> set rows - set (rk_verified out). HasValidShape r \<and>
        (\<exists>x\<in>set (rk_verified out). row_bytes r \<inter> row_bytes x \<noteq> {})} \<and>
     (\<forall>r\<in>set rows. row_on_disk content r \<longrightarrow> r \<in> set (rk_verified out) \<or> wr_ArtIdx r \<in> set (rk_failed out))"

lemma resolveRows_sound:
  assumes rows: "sorted (map wr_Offset rows)" "distinct rows" "\<forall>r\<in>set rows. 0 < wr_Length r"
    and out_def: "out = resolveRows rows (map P rows)"
  shows "\<not> rk_deleteAll out" "set (rk_verified out) \<subseteq> {r \<in> set rows. P r}" "sorted_wrt before_row (rk_verified out)"
    "set (rk_deleted out) = wr_ArtIdx ` (set rows - set (rk_verified out))"
    "set (rk_failed out) = wr_ArtIdx ` {r \<in> set rows - set (rk_verified out). \<exists>x\<in>set (rk_verified out). intersects r x}"
    "\<forall>r\<in>set rows. P r \<longrightarrow> r \<in> set (rk_verified out) \<or> wr_ArtIdx r \<in> set (rk_failed out)"
proof -
  let ?rs = "zip rows (map P rows)"
  have fsts: "map fst ?rs = rows" by simp
  obtain v ks where k: "keepLoop [] ?rs = (v, ks)" by force
  have srt: "sorted (map (wr_Offset \<circ> fst) ?rs)" using rows(1) by (simp flip: map_map)
  have pos: "\<forall>r\<in>set ?rs. 0 < wr_Length (fst r)" using rows(3) by (auto dest: set_zip_leftD)
  note ks = keepLoop_sound[OF k srt _ _ pos, simplified fsts, simplified]
  let ?zs = "zip rows ks"
  have zf: "map fst ?zs = rows" using ks(1) by simp
  have srt': "sorted (map (wr_Offset \<circ> fst) ?zs)" using rows(1) zf by (simp flip: map_map)
  have pos': "\<forall>r\<in>set ?zs. 0 < wr_Length (fst r)" using rows(3) by (auto dest: set_zip_leftD)
  have sv: "set v = fst ` {z \<in> set ?zs. snd z}" by (subst ks(2)) simp
  define nks where "nks = map fst (filter (\<lambda>r. \<not> snd r) ?zs)"
  have nk: "set nks = set rows - set v"
  proof -
    have "distinct ?zs" "inj_on fst (set ?zs)" using rows(2) zf by (metis distinct_map)+
    have "fst z \<notin> set v" if "z \<in> set ?zs" "\<not> snd z" for z
    proof
      assume "fst z \<in> set v"
      then obtain y where "y \<in> set ?zs" "snd y" "fst y = fst z" unfolding sv by auto
      then show False using inj_onD[OF \<open>inj_on fst (set ?zs)\<close>, of y z] that by auto
    qed
    moreover have "r \<in> set (map fst (filter (\<lambda>r. \<not> snd r) ?zs))" if "r \<in> set rows" "r \<notin> set v" for r
    proof -
      have "r \<in> set (map fst ?zs)" unfolding zf by (rule that(1))
      then obtain z where z: "z \<in> set ?zs" "fst z = r" unfolding set_map by blast
      then have "\<not> snd z" using that(2) unfolding sv by blast
      then show ?thesis using z by auto
    qed
    moreover have "fst z \<in> set rows" if "z \<in> set ?zs" for z using that by (metis prod.collapse set_zip_leftD)
    ultimately show ?thesis unfolding nks_def by auto
  qed
  have o: "out = \<lparr>rk_deleteAll = False, rk_deleted = map wr_ArtIdx nks, rk_verified = v,
     rk_failed = map wr_ArtIdx (filter (\<lambda>r. \<exists>x\<in>set v. intersects r x) nks)\<rparr>"
    unfolding out_def resolveRows_def nks_def using judgeLoop_sound[of v "[]" ?zs] ks srt' pos' by (simp add: k)
  show "\<not> rk_deleteAll out" "sorted_wrt before_row (rk_verified out)" using ks(3) by (simp_all add: o)
  have kept: "P r \<and> r \<in> set rows" if rv: "r \<in> set v" for r
  proof -
    obtain i where i: "i < length rows" "rows ! i = r" "ks ! i" using rv ks(1) unfolding sv by (auto simp: set_zip)
    then have "(?rs ! i, ks ! i) \<in> set (zip ?rs ks)" using ks(1) by (auto simp: set_zip intro!: exI[of _ i])
    then show ?thesis using ks(4) i by force
  qed
  then show "set (rk_verified out) \<subseteq> {r \<in> set rows. P r}" by (auto simp: o)
  show del: "set (rk_deleted out) = wr_ArtIdx ` (set rows - set (rk_verified out))"
    and fl: "set (rk_failed out) = wr_ArtIdx ` {r \<in> set rows - set (rk_verified out). \<exists>x\<in>set (rk_verified out). intersects r x}"
    by (simp_all add: o nk)
  show "\<forall>r\<in>set rows. P r \<longrightarrow> r \<in> set (rk_verified out) \<or> wr_ArtIdx r \<in> set (rk_failed out)"
  proof (intro ballI impI)
    fix r assume r: "r \<in> set rows" "P r"
    then obtain i where i: "i < length rows" "rows ! i = r" by (auto simp: in_set_conv_nth)
    then have z: "(?rs ! i, ks ! i) \<in> set (zip ?rs ks)" using ks(1) by (auto simp: set_zip intro!: exI[of _ i])
    show "r \<in> set (rk_verified out) \<or> wr_ArtIdx r \<in> set (rk_failed out)"
    proof (cases "r \<in> set v")
      case False
      have "(rows ! i, ks ! i) \<in> set ?zs" using i(1) ks(1) by (auto simp: set_zip intro!: exI[of _ i])
      then have "\<not> ks ! i" using i(2) False unfolding sv by force
      then have "\<exists>x\<in>set v. intersects r x" using ks(5) z i r(2) by force
      then show ?thesis using r(1) False fl by (auto simp: o)
    qed (simp add: o)
  qed
qed

lemma kept_disjoint:
  assumes "sorted_wrt before_row v" "x \<in> set v" "y \<in> set v" "x \<noteq> y"
  shows "row_bytes x \<inter> row_bytes y = {}"
proof -
  have "before_row x y \<or> before_row y x"
    using assms by (induction v) auto
  then show ?thesis by (auto simp: before_row_def row_bytes_def)
qed

lemma readBackOpen_sound:
  assumes "readBackOpen e loc content rows = Inr out" "sorted (map wr_Offset rows)" "distinct rows"
  shows "readback_ok content rows out"
proof -
  let ?valid = "filter (\<lambda>r. HasValidShape r \<and> wr_Length r \<noteq> 0) rows"
  let ?empty = "filter (\<lambda>r. HasValidShape r \<and> wr_Length r = 0) rows"
  obtain bs where bs: "matchLoop e loc content 0 ?valid = Inr bs" using assms(1) by (auto simp: readBackOpen_def Let_def split: sum.splits)
  have m: "bs = map (row_on_disk content) ?valid" by (rule matchLoop_sound[OF bs]) simp
  define o1 where "o1 = resolveRows ?valid (map (row_on_disk content) ?valid)"
  have out: "rk_deleteAll out = rk_deleteAll o1" "rk_failed out = rk_failed o1"
    "set (rk_deleted out) = set (rk_deleted o1) \<union> wr_ArtIdx ` {r \<in> set rows. \<not> HasValidShape r \<or> wr_Length r = 0 \<and> wr_CRC32 r \<noteq> 0}"
    "set (rk_verified out) = set (rk_verified o1) \<union> {r \<in> set rows. HasValidShape r \<and> wr_Length r = 0 \<and> wr_CRC32 r = 0}"
    using assms(1) by (auto simp: readBackOpen_def Let_def bs m image_iff simp flip: o1_def) blast
  have pos: "\<forall>r\<in>set ?valid. 0 < wr_Length r" by (auto simp: HasValidShape_def)
  have "sorted (map wr_Offset ?valid)" "distinct ?valid" using assms(2,3) by (auto simp: sorted_filter)
  note rs = resolveRows_sound[OF this pos o1_def]
  have V1: "r \<in> set ?valid \<and> row_on_disk content r" if "r \<in> set (rk_verified o1)" for r using rs(2) that by blast
  have disj: "row_bytes x \<inter> row_bytes y = {}" if "x \<in> set (rk_verified out)" "y \<in> set (rk_verified out)" "x \<noteq> y" for x y
    using that kept_disjoint[OF rs(3)] by (auto simp: out(4) row_bytes_def)
  have int: "intersects r x \<longleftrightarrow> row_bytes r \<inter> row_bytes x \<noteq> {}" if "r \<in> set ?valid" "x \<in> set (rk_verified o1)" for r x
    using intersects_iff[of r x] pos that V1 by blast
  have fail: "{r \<in> set ?valid - set (rk_verified o1). \<exists>x\<in>set (rk_verified o1). intersects r x} =
    {r \<in> set rows - set (rk_verified out). HasValidShape r \<and> (\<exists>x\<in>set (rk_verified out). row_bytes r \<inter> row_bytes x \<noteq> {})}"
    (is "?A = ?B")
  proof (intro set_eqI iffI)
    fix r assume r: "r \<in> ?A"
    then obtain x where "x \<in> set (rk_verified o1)" "intersects r x" by blast
    then show "r \<in> ?B" using r int[of r x] by (auto simp: out(4))
  next
    fix r assume r: "r \<in> ?B"
    then obtain x where x: "x \<in> set (rk_verified out)" "row_bytes r \<inter> row_bytes x \<noteq> {}" by blast
    then have "wr_Length r \<noteq> 0" "wr_Length x \<noteq> 0" by (auto simp: row_bytes_def)
    then have "x \<in> set (rk_verified o1)" "r \<in> set ?valid" using x(1) r by (auto simp: out(4))
    then show "r \<in> ?A" using int[of r x] x(2) r by (auto simp: out(4))
  qed
  show ?thesis
    unfolding readback_ok_def
  proof (intro conjI ballI impI)
    show "set (rk_verified out) \<subseteq> set rows" using V1 by (auto simp: out(4))
    show "row_on_disk content r" if "r \<in> set (rk_verified out)" for r
      using that V1 by (auto simp: out(4) row_on_disk_def)
    show "set (rk_deleted out) = wr_ArtIdx ` (set rows - set (rk_verified out))"
    proof -
      have "set rows - set (rk_verified out) = (set ?valid - set (rk_verified o1)) \<union> {r \<in> set rows. \<not> HasValidShape r \<or> wr_Length r = 0 \<and> wr_CRC32 r \<noteq> 0}"
        using V1 by (auto simp: out(4))
      then show ?thesis unfolding out(3) rs(4) by (simp add: image_Un)
    qed
    show "set (rk_failed out) = wr_ArtIdx ` {r \<in> set rows - set (rk_verified out). HasValidShape r \<and>
        (\<exists>x\<in>set (rk_verified out). row_bytes r \<inter> row_bytes x \<noteq> {})}"
      unfolding out(2) rs(5) fail ..
    show "r \<in> set (rk_verified out) \<or> wr_ArtIdx r \<in> set (rk_failed out)" if "r \<in> set rows" "row_on_disk content r" for r
    proof (cases "wr_Length r = 0")
      case True
      then show ?thesis using that by (auto simp: out(4) row_on_disk_def)
    next
      case False
      then have "r \<in> set ?valid" using that by (simp add: row_on_disk_def)
      then show ?thesis using rs(6) that(2) by (auto simp: out(2,4))
    qed
  qed (use rs(1) disj out(1) in auto)
qed

text \<open>Cutting a file at or past the end of a row leaves the row.\<close>

lemma row_on_disk_shrink:
  assumes "row_on_disk content r" "0 < fend \<Longrightarrow> 0 < wr_Length r \<Longrightarrow> wr_Offset r + wr_Length r \<le> fend"
  shows "row_on_disk (shrinkTo fend content) r"
proof (cases "fend > 0 \<and> int (length content) > fend \<and> 0 < wr_Length r")
  case True
  then have "nat (wr_Length r) \<le> nat fend - nat (wr_Offset r)"
    using assms by (auto simp: row_on_disk_def HasValidShape_def)
  then have "take (nat (wr_Length r)) (drop (nat (wr_Offset r)) (take (nat fend) content)) =
    take (nat (wr_Length r)) (drop (nat (wr_Offset r)) content)"
    by (simp add: drop_take min_def)
  then show ?thesis using True assms by (auto simp: row_on_disk_def shrinkTo_def)
qed (use assms(1) in \<open>auto simp: row_on_disk_def shrinkTo_def HasValidShape_def\<close>)

lemma verifiedEnd_ge:
  "\<lbrakk>r \<in> set rows; 0 < wr_Length r\<rbrakk> \<Longrightarrow> wr_Offset r + wr_Length r \<le> verifiedEnd rows"
proof -
  let ?f = "\<lambda>r n. if wr_Length r > 0 then max n (wr_Offset r + wr_Length r) else n"
  have mono: "n \<le> fold ?f rows n" for rows n
    by (induction rows arbitrary: n) (auto intro: order_trans max.cobounded1)
  assume "r \<in> set rows" "0 < wr_Length r"
  then have "wr_Offset r + wr_Length r \<le> fold ?f rows n" for n
  proof (induction rows arbitrary: n)
    case (Cons x xs)
    then show ?case using order_trans[OF max.cobounded2 mono[of _ xs], of "wr_Offset r + wr_Length r" n] by (cases "x = r") auto
  qed simp
  then show ?thesis by (simp add: verifiedEnd_def)
qed

lemma shrink_frame:
  assumes "finishFileByPath e loc (verifiedEnd V) prealloc fs = (fs1, ok)" "fs loc = Some content"
  shows "\<exists>content1. fs1 loc = Some content1 \<and> (\<forall>r\<in>set V. row_on_disk content r \<longrightarrow> row_on_disk content1 r)"
    "l \<noteq> loc \<Longrightarrow> fs1 l = fs l"
proof -
  let ?fin = "if int (length content) = prealloc then verifiedEnd V else 0"
  have "fs1 = fs \<or> fs1 = fs(loc \<mapsto> shrinkTo ?fin content)"
    using assms by (auto simp: finishFileByPath_def split: if_splits)
  moreover have "row_on_disk (shrinkTo ?fin content) r" if "r \<in> set V" "row_on_disk content r" for r
    using that row_on_disk_shrink[of content r ?fin] verifiedEnd_ge[of r V] by (auto split: if_splits)
  ultimately show "\<exists>content1. fs1 loc = Some content1 \<and> (\<forall>r\<in>set V. row_on_disk content r \<longrightarrow> row_on_disk content1 r)"
    "l \<noteq> loc \<Longrightarrow> fs1 l = fs l" using assms(2) by auto
qed

text \<open>A file is finished when it is fetched as a matter of course, has a verified row, and every article of its range is resolved.\<close>

definition finished_file :: "FileTable \<Rightarrow> FileRow \<Rightarrow> bool \<Rightarrow> WrittenRow set \<Rightarrow> int set \<Rightarrow> bool" where
  "finished_file ft f retry V F \<longleftrightarrow> V \<noteq> {} \<and> 0 \<le> fr_FileIndex f \<and> nat (fr_FileIndex f) < ft_NumFiles ft \<and> fr_FetchPolicy f = FetchAlways
     \<and> (case ft_Range ft (nat (fr_FileIndex f)) of (lo, hi) \<Rightarrow> lo < hi \<and> (\<forall>a \<in> {lo..<hi}. int a \<in> wr_ArtIdx ` V \<or> \<not> retry \<and> int a \<in> F))"

lemma fileFinishable_iff:
  assumes "\<not> complete" and "fi = fr_FileIndex f" and "policy = fr_FetchPolicy f" and "V \<noteq> {}"
  shows "fileFinishable ft fi policy complete (\<lambda>i. i \<in> wr_ArtIdx ` V \<or> \<not> retry \<and> i \<in> F) \<longleftrightarrow> finished_file ft f retry V F"
  using assms by (cases "ft_Range ft (nat fi)") (auto simp: fileFinishable_def finished_file_def list_all_iff Let_def)

lemma finishIfResolved_sound:
  assumes "finishIfResolved e ft f loc out retry fs = (fs1, Inr fin)"
  shows "l \<noteq> loc \<Longrightarrow> fs1 l = fs l"
    "fs loc = Some content \<Longrightarrow> \<exists>content1. fs1 loc = Some content1 \<and> (\<forall>r\<in>set (rk_verified out). row_on_disk content r \<longrightarrow> row_on_disk content1 r)"
    "\<not> fr_Complete f \<Longrightarrow> fin \<longleftrightarrow> \<not> rk_deleteAll out \<and> finished_file ft f retry (set (rk_verified out)) (set (rk_failed out))"
proof -
  let ?resolved = "\<lambda>i. i \<in> wr_ArtIdx ` set (rk_verified out) \<or> \<not> retry \<and> i \<in> set (rk_failed out)"
  let ?fb = "finishFileByPath e loc (verifiedEnd (rk_verified out)) (preallocSize ft (nat (fr_FileIndex f))) fs"
  have c: "fs1 = fs \<and> \<not> fin \<or>
    fileFinishable ft (fr_FileIndex f) (fr_FetchPolicy f) (fr_Complete f) ?resolved \<and> \<not> rk_deleteAll out \<and> ?fb = (fs1, True)"
    using assms by (auto simp: finishIfResolved_def Let_def split: if_splits prod.splits)
  have none: "fs1 = fs" if "fs loc = None" using c that by (auto simp: finishFileByPath_def split: if_splits)
  show "l \<noteq> loc \<Longrightarrow> fs1 l = fs l" using c none shrink_frame(2)[of e loc "rk_verified out" _ fs fs1 True] by (cases "fs loc") auto
  show "fs loc = Some content \<Longrightarrow> \<exists>content1. fs1 loc = Some content1 \<and> (\<forall>r\<in>set (rk_verified out). row_on_disk content r \<longrightarrow> row_on_disk content1 r)"
    using c shrink_frame(1)[of e loc "rk_verified out" _ fs fs1 True content] by auto
  show "fin \<longleftrightarrow> \<not> rk_deleteAll out \<and> finished_file ft f retry (set (rk_verified out)) (set (rk_failed out))" if nc: "\<not> fr_Complete f"
  proof (cases "rk_deleteAll out \<or> rk_verified out = []")
    case True
    then show ?thesis using assms by (auto simp: finishIfResolved_def finished_file_def)
  next
    case False
    then have "fileFinishable ft (fr_FileIndex f) (fr_FetchPolicy f) (fr_Complete f) ?resolved \<longleftrightarrow>
        finished_file ft f retry (set (rk_verified out)) (set (rk_failed out))"
      using nc by (intro fileFinishable_iff) auto
    then show ?thesis using assms False by (auto simp: finishIfResolved_def Let_def split: if_splits prod.splits)
  qed
qed

section \<open>All files\<close>

definition deletes :: "FileVerdict list \<Rightarrow> int \<Rightarrow> bool" where
  "deletes vds a \<longleftrightarrow> (\<exists>v\<in>set vds. vd_DeleteAll v \<or> a \<in> set (vd_DeleteArtIdxs v))"

text \<open>All rows of a file are given up when it is not there or cannot be synced, and on a retry when its directory is gone.\<close>

definition rows_gone :: "vfsEnv \<Rightarrow> jobFile \<Rightarrow> bool \<Rightarrow> bytes option \<Rightarrow> bool" where
  "rows_gone e loc retry found \<longleftrightarrow> found = None \<or> ve_syncFails e loc \<or> retry \<and> ve_dir e (jf_Dir loc) = DirMissing"

text \<open>
  What a verification says of a file that has a name and is not complete, from the bytes it found and the bytes it
  left: \<open>V\<close> are the rows verified, \<open>F\<close> the articles failed, \<open>vds\<close> the verdicts on the file.
\<close>

definition verified_file :: "vfsEnv \<Rightarrow> FileTable \<Rightarrow> WrittenRow list \<Rightarrow> bool \<Rightarrow> FileRow \<Rightarrow> jobFile \<Rightarrow> bytes option \<Rightarrow> bytes option
    \<Rightarrow> WrittenRow list \<Rightarrow> int list \<Rightarrow> FileVerdict list \<Rightarrow> bool" where
  "verified_file e ft rows retry f loc found left V F vds \<longleftrightarrow>
     (let R = {r \<in> set rows. wr_FileIdx r = fr_FileIndex f} in
      (\<forall>r\<in>set V. \<exists>content. left = Some content \<and> row_on_disk content r) \<and>
      (\<forall>x\<in>set V. \<forall>y\<in>set V. x \<noteq> y \<longrightarrow> row_bytes x \<inter> row_bytes y = {}) \<and>
      set V = {r \<in> R. \<not> deletes vds (wr_ArtIdx r)} \<and>
      set F = wr_ArtIdx ` {r \<in> R - set V. HasValidShape r \<and> (\<exists>x\<in>set V. row_bytes r \<inter> row_bytes x \<noteq> {})} \<and>
      (if rows_gone e loc retry found then V = []
       else \<forall>r\<in>R. \<forall>content. found = Some content \<longrightarrow> row_on_disk content r \<longrightarrow> r \<in> set V \<or> wr_ArtIdx r \<in> set F) \<and>
      ((\<exists>v\<in>set vds. vd_SetComplete v) \<longleftrightarrow> finished_file ft f retry (set V) (set F)) \<and>
      (\<forall>v\<in>set vds. \<not> vd_ClearComplete v))"

definition verdictsFor :: "verifyResult \<Rightarrow> int \<Rightarrow> FileVerdict list" where
  "verdictsFor res fi = filter (\<lambda>v. vd_FileIdx v = fi) (vr_Verdicts res)"

definition untouched :: "verifyResult \<Rightarrow> int \<Rightarrow> bool" where
  "untouched res fi \<longleftrightarrow> vr_Verified res fi = [] \<and> vr_Failed res fi = [] \<and> verdictsFor res fi = []"

lemma rowsByFile_facts:
  "set (rowsByFile rows fi) = {r \<in> set rows. wr_FileIdx r = fi}" "sorted (map wr_Offset (rowsByFile rows fi))"
  "distinct (map (\<lambda>r. (wr_FileIdx r, wr_ArtIdx r)) rows) \<Longrightarrow> distinct (rowsByFile rows fi)"
  by (auto simp: rowsByFile_def distinct_map)

lemma verified_file_deleted:
  assumes "set rows \<inter> {r. wr_FileIdx r = fr_FileIndex f} = {} \<and> vds = [] \<or>
      (\<exists>v\<in>set vds. vd_DeleteAll v) \<and> (\<forall>v\<in>set vds. \<not> vd_SetComplete v \<and> \<not> vd_ClearComplete v) \<and> rows_gone e loc retry found"
  shows "verified_file e ft rows retry f loc found left [] [] vds"
  using assms by (auto simp: verified_file_def deletes_def Let_def finished_file_def)

lemma verified_file_readback:
  assumes rb: "readback_ok content (rowsByFile rows (fr_FileIndex f)) out" and d: "distinct (map (\<lambda>r. (wr_FileIdx r, wr_ArtIdx r)) rows)"
    and l: "left = Some content1" "\<forall>r\<in>set (rk_verified out). row_on_disk content r \<longrightarrow> row_on_disk content1 r"
    and fin: "fin \<longleftrightarrow> finished_file ft f retry (set (rk_verified out)) (set (rk_failed out))"
    and here: "\<not> rows_gone e loc retry (Some content)"
    and vds: "vds = (if rk_deleted out \<noteq> [] \<or> fin then [verdictOf (fr_FileIndex f) False (rk_deleted out) fin] else [])"
  shows "verified_file e ft rows retry f loc (Some content) left (rk_verified out) (rk_failed out) vds"
proof -
  let ?R = "{r \<in> set rows. wr_FileIdx r = fr_FileIndex f}"
  note rb = rb[unfolded readback_ok_def rowsByFile_facts(1)]
  note vfd = rb[THEN conjunct2, THEN conjunct2, THEN conjunct2, THEN conjunct2, THEN conjunct2]
  have "wr_ArtIdx r \<in> set (rk_deleted out) \<longleftrightarrow> r \<notin> set (rk_verified out)" if "r \<in> ?R" for r
  proof
    assume "wr_ArtIdx r \<in> set (rk_deleted out)"
    then obtain s where s: "s \<in> ?R" "s \<notin> set (rk_verified out)" "wr_ArtIdx s = wr_ArtIdx r" using rb by auto
    then have "s = r" using that inj_onD[OF conjunct2[OF d[unfolded distinct_map]], of s r] by auto
    then show "r \<notin> set (rk_verified out)" using s(2) by simp
  qed (use rb that in auto)
  moreover have "deletes vds a \<longleftrightarrow> a \<in> set (rk_deleted out)" for a
    by (auto simp: vds deletes_def verdictOf_def)
  ultimately have V: "set (rk_verified out) = {r \<in> ?R. \<not> deletes vds (wr_ArtIdx r)}"
    using rb[THEN conjunct2, THEN conjunct1] by blast
  have marks: "(\<exists>v\<in>set vds. vd_SetComplete v) \<longleftrightarrow> fin" "\<forall>v\<in>set vds. \<not> vd_ClearComplete v" by (auto simp: vds verdictOf_def)
  show ?thesis
    unfolding verified_file_def Let_def if_not_P[OF here]
  proof (intro conjI)
    show "\<forall>r\<in>set (rk_verified out). \<exists>content. left = Some content \<and> row_on_disk content r"
      unfolding l(1) using rb l(2) by simp
    show "\<forall>x\<in>set (rk_verified out). \<forall>y\<in>set (rk_verified out). x \<noteq> y \<longrightarrow> row_bytes x \<inter> row_bytes y = {}" using rb by blast
    show "set (rk_failed out) = wr_ArtIdx ` {r \<in> ?R - set (rk_verified out). HasValidShape r \<and>
       (\<exists>x\<in>set (rk_verified out). row_bytes r \<inter> row_bytes x \<noteq> {})}" by (rule vfd[THEN conjunct1])
    show "\<forall>r\<in>?R. \<forall>c. Some content = Some c \<longrightarrow> row_on_disk c r \<longrightarrow> r \<in> set (rk_verified out) \<or> wr_ArtIdx r \<in> set (rk_failed out)"
      using vfd[THEN conjunct2] by simp
  qed (use V marks fin in auto)
qed

text \<open>One file of the loop, and then the rest.\<close>

lemma verifyLoop_step:
  assumes run: "verifyLoop e ft rows locate retry (f # files) res fs = (fs', Inr res')"
    and d: "distinct (map (\<lambda>r. (wr_FileIdx r, wr_ArtIdx r)) rows)" and u: "untouched res (fr_FileIndex f)"
  obtains res1 fs1 where "verifyLoop e ft rows locate retry files res1 fs1 = (fs', Inr res')"
    "\<And>fi. fi \<noteq> fr_FileIndex f \<Longrightarrow> vr_Verified res1 fi = vr_Verified res fi \<and> vr_Failed res1 fi = vr_Failed res fi \<and> verdictsFor res1 fi = verdictsFor res fi"
    "\<And>l. \<not> (\<not> fr_Complete f \<and> fr_Filename f \<noteq> [] \<and> l = fst (locate (fr_Filename f))) \<Longrightarrow> fs1 l = fs l"
    "\<not> fr_Complete f \<Longrightarrow> fr_Filename f \<noteq> [] \<Longrightarrow> verified_file e ft rows retry f (fst (locate (fr_Filename f)))
       (fs (fst (locate (fr_Filename f)))) (fs1 (fst (locate (fr_Filename f)))) (vr_Verified res1 (fr_FileIndex f)) (vr_Failed res1 (fr_FileIndex f)) (verdictsFor res1 (fr_FileIndex f))"
proof -
  let ?fi = "fr_FileIndex f"
  let ?fr = "rowsByFile rows ?fi"
  note u = u[unfolded untouched_def]
  consider (none) "?fr = []" | (complete) "?fr \<noteq> []" "fr_Complete f" | (noname) "?fr \<noteq> []" "\<not> fr_Complete f" "fr_Filename f = []"
    | (read) "?fr \<noteq> []" "\<not> fr_Complete f" "fr_Filename f \<noteq> []" by blast
  then show thesis
  proof cases
    case none
    have "set rows \<inter> {r. wr_FileIdx r = ?fi} = {}" using none rowsByFile_facts(1)[of rows ?fi] by auto
    then have ok: "verified_file e ft rows retry f loc found left [] [] []" for loc found left by (intro verified_file_deleted) simp
    show thesis using run none u ok by (intro that[of res fs]) (auto simp: Let_def)
  next
    case complete
    show thesis using run complete by (intro that[of "res\<lparr>vr_Verified := (vr_Verified res)(?fi := ?fr)\<rparr>" fs]) (auto simp: verdictsFor_def Let_def)
  next
    case noname
    let ?res = "res\<lparr>vr_Verdicts := vr_Verdicts res @ [verdictOf ?fi True [] False]\<rparr>"
    have v: "verdictsFor ?res ?fi = [verdictOf ?fi True [] False]" "\<And>fi. fi \<noteq> ?fi \<Longrightarrow> verdictsFor ?res fi = verdictsFor res fi"
      using u by (auto simp: verdictsFor_def verdictOf_def)
    show thesis using run noname v by (intro that[of ?res fs]) (auto simp: Let_def)
  next
    case read
    obtain loc where loc: "locate (fr_Filename f) = (loc, True)"
      using run read by (cases "locate (fr_Filename f)") (auto simp: Let_def split: if_splits)
    obtain out where out: "readBackFile e fs loc ?fr retry = Inr out" using run read loc by (auto simp: Let_def split: sum.splits)
    obtain fs1 fin where fin: "finishIfResolved e ft f loc out retry fs = (fs1, Inr fin)"
      using run read loc out by (auto simp: Let_def split: sum.splits prod.splits)
    let ?res = "noteReadback ?fi out fin res"
    have rest: "verifyLoop e ft rows locate retry files ?res fs1 = (fs', Inr res')"
      using run read loc out fin by (simp add: Let_def)
    have V: "vr_Verified ?res ?fi = rk_verified out" "vr_Failed ?res ?fi = rk_failed out"
      "verdictsFor ?res ?fi = (if rk_deleteAll out \<or> rk_deleted out \<noteq> [] \<or> fin then [verdictOf ?fi (rk_deleteAll out) (rk_deleted out) fin] else [])"
      using u by (auto simp: noteReadback_def Let_def verdictsFor_def verdictOf_def)
    have other: "vr_Verified ?res fi = vr_Verified res fi \<and> vr_Failed ?res fi = vr_Failed res fi \<and> verdictsFor ?res fi = verdictsFor res fi"
      if "fi \<noteq> ?fi" for fi using that by (auto simp: noteReadback_def Let_def verdictsFor_def verdictOf_def)
    note fs1 = finishIfResolved_sound[OF fin]
    have ok: "verified_file e ft rows retry f loc (fs loc) (fs1 loc) (vr_Verified ?res ?fi) (vr_Failed ?res ?fi) (verdictsFor ?res ?fi)"
    proof (cases "rk_deleteAll out")
      case True
      have no: "readBackOpen e loc content ?fr \<noteq> Inr out" for content
        using readBackOpen_sound[OF _ rowsByFile_facts(2) rowsByFile_facts(3)[OF d]] True unfolding readback_ok_def by blast
      have "out = noReadback\<lparr>rk_deleteAll := True\<rparr>"
        using out by (auto simp: readBackFile_def no split: dirAnswer.splits if_splits option.splits sum.splits)
      moreover have "\<not> fin" using fs1(3) True read(2) by blast
      moreover have "rows_gone e loc retry (fs loc)" using out True
        by (auto simp: readBackFile_def no rows_gone_def noReadback_def split: dirAnswer.splits if_splits option.splits sum.splits)
      ultimately show ?thesis unfolding V by (auto simp: noReadback_def verdictOf_def intro!: verified_file_deleted)
    next
      case False
      then obtain content where c: "fs loc = Some content" "readBackOpen e loc content ?fr = Inr out"
        using out by (auto simp: readBackFile_def noReadback_def split: dirAnswer.splits if_splits option.splits sum.splits)
      obtain content1 where c1: "fs1 loc = Some content1" "\<forall>r\<in>set (rk_verified out). row_on_disk content r \<longrightarrow> row_on_disk content1 r"
        using fs1(2)[OF c(1)] by blast
      have rb: "readback_ok content ?fr out" by (rule readBackOpen_sound[OF c(2) rowsByFile_facts(2) rowsByFile_facts(3)[OF d]])
      have "\<not> rows_gone e loc retry (Some content)" using out False c(1)
        by (auto simp: readBackFile_def rows_gone_def noReadback_def split: dirAnswer.splits if_splits option.splits sum.splits)
      then show ?thesis unfolding V c(1)
        by (intro verified_file_readback[OF rb d c1, where fin = fin]) (use fs1(3) False read(2) in auto)
    qed
    show thesis using ok by (intro that[OF rest]) (auto simp: loc other read fs1(1))
  qed
qed

lemma verifyLoop_sound:
  assumes "verifyLoop e ft rows locate retry files res fs = (fs', Inr res')"
    "distinct (map (\<lambda>r. (wr_FileIdx r, wr_ArtIdx r)) rows)" "\<forall>f\<in>set files. untouched res (fr_FileIndex f)"
    "distinct (map fr_FileIndex files)" "distinct (filter (\<lambda>n. n \<noteq> []) (map fr_Filename files))" "inj (fst \<circ> locate)"
  shows "(\<forall>fi. fi \<notin> fr_FileIndex ` set files \<longrightarrow>
      vr_Verified res' fi = vr_Verified res fi \<and> vr_Failed res' fi = vr_Failed res fi \<and> verdictsFor res' fi = verdictsFor res fi) \<and>
    (\<forall>n. n \<notin> fr_Filename ` set files \<longrightarrow> fs' (fst (locate n)) = fs (fst (locate n))) \<and>
    (\<forall>f\<in>set files. \<not> fr_Complete f \<longrightarrow> fr_Filename f \<noteq> [] \<longrightarrow>
      verified_file e ft rows retry f (fst (locate (fr_Filename f))) (fs (fst (locate (fr_Filename f)))) (fs' (fst (locate (fr_Filename f))))
        (vr_Verified res' (fr_FileIndex f)) (vr_Failed res' (fr_FileIndex f)) (verdictsFor res' (fr_FileIndex f)))"
  using assms(1,3-5)
proof (induction files arbitrary: res fs)
  case (Cons f files)
  let ?loc = "\<lambda>n. fst (locate n)"
  obtain res1 fs1 where s: "verifyLoop e ft rows locate retry files res1 fs1 = (fs', Inr res')"
    "\<And>fi. fi \<noteq> fr_FileIndex f \<Longrightarrow> vr_Verified res1 fi = vr_Verified res fi \<and> vr_Failed res1 fi = vr_Failed res fi \<and> verdictsFor res1 fi = verdictsFor res fi"
    "\<And>l. \<not> (\<not> fr_Complete f \<and> fr_Filename f \<noteq> [] \<and> l = ?loc (fr_Filename f)) \<Longrightarrow> fs1 l = fs l"
    "\<not> fr_Complete f \<Longrightarrow> fr_Filename f \<noteq> [] \<Longrightarrow> verified_file e ft rows retry f (?loc (fr_Filename f)) (fs (?loc (fr_Filename f))) (fs1 (?loc (fr_Filename f)))
       (vr_Verified res1 (fr_FileIndex f)) (vr_Failed res1 (fr_FileIndex f)) (verdictsFor res1 (fr_FileIndex f))"
    using verifyLoop_step[OF Cons.prems(1) assms(2)] Cons.prems(2) by auto
  have idx: "fr_FileIndex f \<notin> fr_FileIndex ` set files" using Cons.prems(3) by auto
  have u1: "\<forall>g\<in>set files. untouched res1 (fr_FileIndex g)"
    using s(2) Cons.prems(2) idx unfolding untouched_def by (metis image_eqI list.set_intros(2))
  have names: "fr_Filename f = [] \<or> fr_Filename f \<notin> fr_Filename ` set files" using Cons.prems(4) by auto
  have apart: "fs1 (?loc n) = fs (?loc n)" if "n \<noteq> fr_Filename f \<or> n = []" for n
    using s(3)[of "?loc n"] that injD[OF assms(6), of n "fr_Filename f"] by auto
  note ih = Cons.IH[OF s(1) u1]
  have ihs: "distinct (map fr_FileIndex files)" "distinct (filter (\<lambda>n. n \<noteq> []) (map fr_Filename files))"
    using Cons.prems(3,4) by (auto split: if_splits)
  note ih1 = ih[OF ihs, THEN conjunct1, rule_format] and ih2 = ih[OF ihs, THEN conjunct2, THEN conjunct1, rule_format]
    and ih3 = ih[OF ihs, THEN conjunct2, THEN conjunct2, rule_format]
  show ?case
  proof (intro conjI allI impI ballI)
    fix fi assume "fi \<notin> fr_FileIndex ` set (f # files)"
    then show "vr_Verified res' fi = vr_Verified res fi" "vr_Failed res' fi = vr_Failed res fi" "verdictsFor res' fi = verdictsFor res fi"
      using ih1[of fi] s(2)[of fi] by auto
  next
    fix n assume "n \<notin> fr_Filename ` set (f # files)"
    then show "fs' (?loc n) = fs (?loc n)" using ih2[of n] apart[of n] by auto
  next
    fix g assume g: "g \<in> set (f # files)" "\<not> fr_Complete g" "fr_Filename g \<noteq> []"
    show "verified_file e ft rows retry g (?loc (fr_Filename g)) (fs (?loc (fr_Filename g))) (fs' (?loc (fr_Filename g)))
        (vr_Verified res' (fr_FileIndex g)) (vr_Failed res' (fr_FileIndex g)) (verdictsFor res' (fr_FileIndex g))"
    proof (cases "g = f")
      case True
      then show ?thesis using s(4) ih1[OF idx] ih2[of "fr_Filename f"] names g by auto
    next
      case False
      then have gf: "g \<in> set files" using g by simp
      then have "fr_Filename g \<noteq> fr_Filename f" using names g(3) by (metis image_eqI)
      then show ?thesis using ih3[OF gf g(2,3)] apart[of "fr_Filename g"] by simp
    qed
  qed
qed simp

end
