(* ===== verification/Resume.thy ===== *)
theory Resume
  imports Verify Content_Steps
begin

text \<open>
  Resuming a stored job (\<^verbatim>\<open>internal/app/residency.go\<close>): the read-back, the commit of its verdicts, the removal of
  unrecorded files and the installation of what was verified, and what holds afterwards of the store, the
  files and the job.
\<close>

section \<open>The steps of a hydration\<close>

datatype hydrateError = VerifyFaulted verifyFault | CommitFaulted | InstallRefused ContentError

record Disk =
  dk_files :: vfs
  dk_rec :: recorder
  dk_store :: RecordStore

text \<open>What the outside answers: the registry's ID, the writer lock, the transaction, the listing and each removal.\<close>

record resumeEnv =
  re_vfs :: vfsEnv
  re_ident :: "inst \<Rightarrow> string"
  re_free :: bool
  re_out :: TxOutcome
  re_lists :: bool
  re_removes :: "string \<Rightarrow> bool"

text \<open>The staging directories of the unpacker, which it also clears, are not files of the job.\<close>

definition cleanUnrecordedFetchingFiles :: "resumeEnv \<Rightarrow> FileRow list \<Rightarrow> (string \<Rightarrow> jobFile \<times> bool) \<Rightarrow> vfs \<Rightarrow> vfs" where
  "cleanUnrecordedFetchingFiles e files locate fs =
     (let dir = jf_Dir (fst (locate ''.'')); recorded = filter (\<lambda>n. n \<noteq> []) (map fr_Filename files) in
      if dir = [] \<or> ve_dir (re_vfs e) dir \<noteq> DirOpen \<or> \<not> re_lists e then fs
      else (\<lambda>l. if jf_Dir l = dir \<and> jf_Name l \<notin> set recorded \<and> re_removes e (jf_Name l) then None else fs l))"

definition verifyAndAttach :: "resumeEnv \<Rightarrow> (string \<Rightarrow> jobFile \<times> bool) \<Rightarrow> bool \<Rightarrow> inst \<Rightarrow> Manifest \<Rightarrow> FileRow list \<Rightarrow> WrittenRow list
    \<Rightarrow> Disk \<times> Content \<Rightarrow> (Disk \<times> Content) \<times> (hydrateError + int list)" where
  "verifyAndAttach e locate fetching j m files rows = (\<lambda>(d, c).
     (case verifyJobFiles (re_vfs e) (mf_ft m) files rows locate False (dk_files d) of
        (fs1, Inl fault) \<Rightarrow> ((d\<lparr>dk_files := fs1\<rparr>, c), Inl (VerifyFaulted fault))
      | (fs1, Inr res) \<Rightarrow>
          (let d1 = d\<lparr>dk_files := fs1\<rparr>;
               (d2, err) =
                 (if vr_Verdicts res = [] then (d1, None)
                  else case apply_record (re_free e) (re_ident e) (re_out e) j (vr_Verdicts res) [] (dk_rec d1, dk_store d1) of
                         ((r, s), er) \<Rightarrow> (d1\<lparr>dk_rec := r, dk_store := s\<rparr>, er)) in
           if err \<noteq> None then ((d2, c), Inl CommitFaulted)
           else let d3 = (if fetching then d2\<lparr>dk_files := cleanUnrecordedFetchingFiles e files locate (dk_files d2)\<rparr> else d2) in
                case installVerification (Some m) files rows res True c of
                  (c1, Inl er) \<Rightarrow> ((d3, c1), Inl (InstallRefused er))
                | (c1, Inr fin) \<Rightarrow> ((d3, c1), Inr fin))))"

section \<open>The commit\<close>

lemma deleteVerdict_rows:
  "written_articles (deleteVerdict J v s) (J, fi, a) =
     (if vd_FileIdx v = fi \<and> (vd_DeleteAll v \<or> a \<in> set (vd_DeleteArtIdxs v)) then None else written_articles s (J, fi, a))"
proof -
  have "written_articles (fold (\<lambda>x. deleteWhere (\<lambda>(k, f, a). k = J \<and> f = vd_FileIdx v \<and> a = x)) xs s) (J, fi, a) =
     (if vd_FileIdx v = fi \<and> a \<in> set xs then None else written_articles s (J, fi, a))" for xs
    by (induction xs arbitrary: s) (auto simp: deleteWhere_def)
  then show ?thesis by (auto simp: deleteVerdict_def deleteWhere_def)
qed

lemma verdictDeletes_rows:
  "verdictDeletes J vs s = Inr t \<Longrightarrow>
     written_articles t (J, fi, a) = (if deletes (filter (\<lambda>v. vd_FileIdx v = fi) vs) a then None else written_articles s (J, fi, a))"
proof (induction vs arbitrary: s)
  case (Cons v vs)
  then have "verdictDeletes J vs (deleteVerdict J v s) = Inr t" by (auto split: if_splits)
  from Cons.IH[OF this] show ?case by (auto simp: deleteVerdict_rows deletes_def)
qed (simp add: deletes_def)

lemma fold_verdictComplete_rows: "written_articles (fold (verdictComplete J) vs s) = written_articles s"
proof (induction vs arbitrary: s)
  case (Cons v vs)
  have "written_articles (verdictComplete J v s) = written_articles s"
    by (simp add: verdictComplete_def updateJobFile_def split: option.splits)
  then show ?case using Cons by simp
qed simp

lemma updateJobFile_lookup:
  "fmlookup (job_files (updateJobFile J i g s)) (K, fi) =
     (if J = K \<and> i = fi then map_option g (fmlookup (job_files s) (K, fi)) else fmlookup (job_files s) (K, fi))"
  by (auto simp: updateJobFile_def split: option.splits)

lemma fold_verdictComplete_files:
  assumes "\<forall>v\<in>set vs. vd_FileIdx v = fi \<longrightarrow> \<not> vd_ClearComplete v"
  shows "fmlookup (job_files (fold (verdictComplete J) vs s)) (J, fi) =
    map_option (\<lambda>x. if \<exists>v\<in>set vs. vd_FileIdx v = fi \<and> vd_SetComplete v then x\<lparr>jf_complete := True\<rparr> else x) (fmlookup (job_files s) (J, fi))"
  using assms
proof (induction vs arbitrary: s)
  case (Cons v vs)
  have "fmlookup (job_files (verdictComplete J v s)) (J, fi) =
      map_option (\<lambda>x. if vd_FileIdx v = fi \<and> vd_SetComplete v then x\<lparr>jf_complete := True\<rparr> else x) (fmlookup (job_files s) (J, fi))"
    using Cons.prems by (auto simp: verdictComplete_def updateJobFile_lookup option.map_ident)
  then show ?case using Cons by (auto simp: option.map_comp comp_def split: if_splits intro!: option.map_cong)
qed (simp add: option.map_ident)

lemma deleteWhere_files [simp]: "job_files (deleteWhere P s) = job_files s"
  by (simp add: deleteWhere_def)

lemma fold_deleteWhere_files: "job_files (fold (\<lambda>x. deleteWhere (P x)) xs s) = job_files s"
  by (induction xs arbitrary: s) simp_all

lemma verdictDeletes_files: "verdictDeletes J vs s = Inr t \<Longrightarrow> job_files t = job_files s"
proof (induction vs arbitrary: s)
  case (Cons v vs)
  have "job_files (deleteVerdict J v s) = job_files s" by (simp add: deleteVerdict_def fold_deleteWhere_files)
  then show ?case using Cons by (auto split: if_splits)
qed simp

lemma commit_rows:
  assumes "apply_record free ident out j vs [] (r, s) = ((r', s'), None)"
  shows "written_articles s' (ident j, fi, a) =
    (if deletes (filter (\<lambda>v. vd_FileIdx v = fi) vs) a then None else written_articles s (ident j, fi, a))"
    and "\<forall>v\<in>set vs. vd_FileIdx v = fi \<longrightarrow> \<not> vd_ClearComplete v \<Longrightarrow> fmlookup (job_files s') (ident j, fi) =
      map_option (\<lambda>x. if \<exists>v\<in>set vs. vd_FileIdx v = fi \<and> vd_SetComplete v then x\<lparr>jf_complete := True\<rparr> else x) (fmlookup (job_files s) (ident j, fi))"
proof -
  let ?b = "\<lparr>rb_JobID = ident j, rb_Rows = [], rb_Files = [], rb_Verdicts = vs\<rparr>"
  have "ApplyRecord out [?b] s = (s', None)" using assms by (auto simp: apply_record_def split: if_splits prod.splits)
  then have "applyBatch ?b s = Inr s'" by (auto simp: ApplyRecord_def split: sum.splits TxOutcome.splits)
  then obtain t where t: "verdictDeletes (ident j) vs s = Inr t" "s' = fold (verdictComplete (ident j)) vs t"
    by (auto simp: applyBatch_def insertRows_def split: sum.splits)
  then show "written_articles s' (ident j, fi, a) =
      (if deletes (filter (\<lambda>v. vd_FileIdx v = fi) vs) a then None else written_articles s (ident j, fi, a))"
    using verdictDeletes_rows[of "ident j" vs s t fi a] by (simp add: fold_verdictComplete_rows)
  show "fmlookup (job_files s') (ident j, fi) =
      map_option (\<lambda>x. if \<exists>v\<in>set vs. vd_FileIdx v = fi \<and> vd_SetComplete v then x\<lparr>jf_complete := True\<rparr> else x) (fmlookup (job_files s) (ident j, fi))"
    if "\<forall>v\<in>set vs. vd_FileIdx v = fi \<longrightarrow> \<not> vd_ClearComplete v"
    using fold_verdictComplete_files[OF that, of "ident j" t] t verdictDeletes_files[OF t(1)] by simp
qed

text \<open>The files reported as finished are among those with a verdict that sets them complete.\<close>

lemma finishInstalled_settled: "fi \<in> set (snd (finishInstalled vis c)) \<Longrightarrow> \<exists>v i. (v, i) \<in> set vis \<and> fv_FileIdx v = fi \<and> fv_Settle v"
  by (induction vis c rule: finishInstalled.induct) (fastforce split: sum.splits if_splits prod.splits option.splits)+

lemma installVerification_settled:
  assumes "installVerification mo files rows res rp c = (c', Inr fin)" and "fi \<in> set fin"
  shows "\<exists>v\<in>set (vr_Verdicts res). vd_FileIdx v = fi \<and> vd_SetComplete v"
proof -
  obtain installs c1 where "finishInstalled (zip (verificationsOf files rows res rp) installs) c1 = (c', fin)"
    using assms(1) by (auto simp: installVerification_def Let_def split: sum.splits prod.splits)
  then obtain v i where "(v, i) \<in> set (zip (verificationsOf files rows res rp) installs)" "fv_FileIdx v = fi" "fv_Settle v"
    using finishInstalled_settled[of fi "zip (verificationsOf files rows res rp) installs" c1] assms(2) by auto
  then obtain x where "x \<in> set files" "v = verificationOf rows res rp x" by (auto simp: verificationsOf_def dest!: set_zip_leftD)
  then have "list_ex (\<lambda>v. vd_SetComplete v \<and> vd_FileIdx v = fi) (vr_Verdicts res)"
    using \<open>fv_FileIdx v = fi\<close> \<open>fv_Settle v\<close> by (simp add: verificationOf_def Let_def)
  then show ?thesis unfolding list_ex_iff by blast
qed

section \<open>After a resume\<close>

lemma clean_keeps_recorded:
  assumes "f \<in> set files" "fr_Filename f \<noteq> []" "jf_Name l = fr_Filename f"
  shows "cleanUnrecordedFetchingFiles e files locate fs l = fs l"
  using assms by (auto simp: cleanUnrecordedFetchingFiles_def Let_def)

lemma jobFileLocation_inj: "inj (fst \<circ> jobFileLocation p name)"
  by (auto simp: jobFileLocation_def intro!: injI)

text \<open>The rows read are those the store has of the job.\<close>

definition rows_of_store :: "string \<Rightarrow> RecordStore \<Rightarrow> WrittenRow list \<Rightarrow> bool" where
  "rows_of_store J s rows \<longleftrightarrow> distinct (map (\<lambda>r. (wr_FileIdx r, wr_ArtIdx r)) rows) \<and>
     (\<forall>fi a r. written_articles s (J, fi, a) = Some r \<longleftrightarrow> r \<in> set rows \<and> wr_FileIdx r = fi \<and> wr_ArtIdx r = a)"

text \<open>The commit as the verification sees it: every verdict applied, or there was none.\<close>

lemma verifyAndAttach_run:
  assumes run: "verifyAndAttach e locate fetching j m files rows (d, c) = ((d', c'), Inr fin)"
  obtains fs1 res where "verifyJobFiles (re_vfs e) (mf_ft m) files rows locate False (dk_files d) = (fs1, Inr res)"
    "dk_files d' = fs1 \<or> dk_files d' = cleanUnrecordedFetchingFiles e files locate fs1"
    "\<And>fi a. written_articles (dk_store d') (re_ident e j, fi, a) =
       (if deletes (verdictsFor res fi) a then None else written_articles (dk_store d) (re_ident e j, fi, a))"
    "\<And>fi. \<forall>v\<in>set (verdictsFor res fi). \<not> vd_ClearComplete v \<Longrightarrow> fmlookup (job_files (dk_store d')) (re_ident e j, fi) =
       map_option (\<lambda>x. if \<exists>v\<in>set (verdictsFor res fi). vd_SetComplete v then x\<lparr>jf_complete := True\<rparr> else x)
         (fmlookup (job_files (dk_store d)) (re_ident e j, fi))"
    "\<And>fi. fi \<in> set fin \<Longrightarrow> \<exists>v\<in>set (verdictsFor res fi). vd_SetComplete v"
proof -
  obtain fs1 res where v: "verifyJobFiles (re_vfs e) (mf_ft m) files rows locate False (dk_files d) = (fs1, Inr res)"
    using run by (auto simp: verifyAndAttach_def split: prod.splits sum.splits)
  obtain c1 where inst: "installVerification (Some m) files rows res True c = (c1, Inr fin)"
    using run v by (auto simp: verifyAndAttach_def Let_def split: prod.splits sum.splits if_splits)
  have files: "dk_files d' = fs1 \<or> dk_files d' = cleanUnrecordedFetchingFiles e files locate fs1"
    using run v by (auto simp: verifyAndAttach_def Let_def split: prod.splits sum.splits if_splits)
  have settled: "\<exists>v\<in>set (verdictsFor res fi). vd_SetComplete v" if "fi \<in> set fin" for fi
    using installVerification_settled[OF inst that] by (auto simp: verdictsFor_def)
  show thesis
  proof (cases "vr_Verdicts res = []")
    case True
    then have "dk_store d' = dk_store d"
      using run v by (auto simp: verifyAndAttach_def Let_def split: prod.splits sum.splits if_splits)
    then show thesis using that[OF v files _ _ settled] True by (simp add: verdictsFor_def deletes_def option.map_ident)
  next
    case False
    obtain r s where ap: "apply_record (re_free e) (re_ident e) (re_out e) j (vr_Verdicts res) [] (dk_rec d, dk_store d) = ((r, s), None)"
      and s: "dk_store d' = s"
      using run v False by (auto simp: verifyAndAttach_def Let_def split: prod.splits sum.splits if_splits)
    show thesis
    proof (rule that[OF v files _ _ settled])
      fix fi a
      show "written_articles (dk_store d') (re_ident e j, fi, a) =
       (if deletes (verdictsFor res fi) a then None else written_articles (dk_store d) (re_ident e j, fi, a))"
        using commit_rows(1)[OF ap] s by (simp add: verdictsFor_def)
    next
      fix fi assume nc: "\<forall>v\<in>set (verdictsFor res fi). \<not> vd_ClearComplete v"
      have ex: "(\<exists>v\<in>set (vr_Verdicts res). vd_FileIdx v = fi \<and> vd_SetComplete v) \<longleftrightarrow> (\<exists>v\<in>set (verdictsFor res fi). vd_SetComplete v)"
        by (auto simp: verdictsFor_def)
      show "fmlookup (job_files (dk_store d')) (re_ident e j, fi) =
       map_option (\<lambda>x. if \<exists>v\<in>set (verdictsFor res fi). vd_SetComplete v then x\<lparr>jf_complete := True\<rparr> else x)
         (fmlookup (job_files (dk_store d)) (re_ident e j, fi))"
        using commit_rows(2)[OF ap, of fi] nc s unfolding ex by (simp add: verdictsFor_def)
    qed
  qed
qed

text \<open>C9: A resumed job trusts only what is on disk. When verifyAndAttach succeeds on the rows the store has, with no
  two files of the job recorded under one index or one name, then for every file that has a name and was not
  complete: the rows the store keeps are among those it had, are pairwise disjoint, and each names bytes of
  the file, as it is after the finish and the cleaning, whose CRC-32 is the recorded one. When the
  file is not there or its sync fails all its rows are given up; otherwise every row whose bytes were on
  disk is kept or failed, the failed rows being the dropped ones of valid shape that overlap a kept one. The stored file becomes complete exactly when
  it is fetched as a matter of course, has a kept row, and every article of its range is kept or failed; otherwise
  the stored completeness is as it was. A file reported as finished is such a file.\<close>

theorem resume_trusts_only_disk:
  assumes run: "verifyAndAttach e (jobFileLocation p name) fetching j m files rows (d, c) = ((d', c'), Inr fin)"
    and store: "rows_of_store (re_ident e j) (dk_store d) rows"
    and files: "distinct (map fr_FileIndex files)" "distinct (filter (\<lambda>n. n \<noteq> []) (map fr_Filename files))"
    and f: "f \<in> set files" "\<not> fr_Complete f" "fr_Filename f \<noteq> []"
  shows "let J = re_ident e j; fi = fr_FileIndex f; loc = fst (jobFileLocation p name (fr_Filename f));
             R = {r \<in> set rows. wr_FileIdx r = fi};
             K = {r. \<exists>a. written_articles (dk_store d') (J, fi, a) = Some r};
             F = {r \<in> R - K. HasValidShape r \<and> (\<exists>x\<in>K. row_bytes r \<inter> row_bytes x \<noteq> {})} in
    (\<forall>a r. written_articles (dk_store d') (J, fi, a) = Some r \<longrightarrow> r \<in> R \<and> wr_ArtIdx r = a) \<and>
    (\<forall>r\<in>K. \<exists>content. dk_files d' loc = Some content \<and> row_on_disk content r) \<and>
    (\<forall>x\<in>K. \<forall>y\<in>K. x \<noteq> y \<longrightarrow> row_bytes x \<inter> row_bytes y = {}) \<and>
    (if dk_files d loc = None \<or> ve_syncFails (re_vfs e) loc then K = {}
     else \<forall>r\<in>R. \<forall>content. dk_files d loc = Some content \<and> row_on_disk content r \<longrightarrow> r \<in> K \<union> F) \<and>
    fmlookup (job_files (dk_store d')) (J, fi) =
      map_option (\<lambda>x. if finished_file (mf_ft m) f False K (wr_ArtIdx ` F) then x\<lparr>jf_complete := True\<rparr> else x) (fmlookup (job_files (dk_store d)) (J, fi)) \<and>
    (fi \<in> set fin \<longrightarrow> finished_file (mf_ft m) f False K (wr_ArtIdx ` F))"
proof -
  let ?fi = "fr_FileIndex f" and ?loc = "fst (jobFileLocation p name (fr_Filename f))"
  let ?R = "{r \<in> set rows. wr_FileIdx r = ?fi}" and ?K = "{r. \<exists>a. written_articles (dk_store d') (re_ident e j, ?fi, a) = Some r}"
  let ?F = "{r \<in> ?R - ?K. HasValidShape r \<and> (\<exists>x\<in>?K. row_bytes r \<inter> row_bytes x \<noteq> {})}"
  note st = store[unfolded rows_of_store_def]
  obtain fs1 res where v: "verifyJobFiles (re_vfs e) (mf_ft m) files rows (jobFileLocation p name) False (dk_files d) = (fs1, Inr res)"
    and fs': "dk_files d' = fs1 \<or> dk_files d' = cleanUnrecordedFetchingFiles e files (jobFileLocation p name) fs1"
    and rows': "\<And>fi a. written_articles (dk_store d') (re_ident e j, fi, a) =
       (if deletes (verdictsFor res fi) a then None else written_articles (dk_store d) (re_ident e j, fi, a))"
    and marks: "\<And>fi. \<forall>v\<in>set (verdictsFor res fi). \<not> vd_ClearComplete v \<Longrightarrow> fmlookup (job_files (dk_store d')) (re_ident e j, fi) =
       map_option (\<lambda>x. if \<exists>v\<in>set (verdictsFor res fi). vd_SetComplete v then x\<lparr>jf_complete := True\<rparr> else x)
         (fmlookup (job_files (dk_store d)) (re_ident e j, fi))"
    and settled: "\<And>fi. fi \<in> set fin \<Longrightarrow> \<exists>v\<in>set (verdictsFor res fi). vd_SetComplete v"
    by (rule verifyAndAttach_run[OF run]) blast
  let ?V = "vr_Verified res ?fi" and ?Fl = "vr_Failed res ?fi"
  have ok: "verified_file (re_vfs e) (mf_ft m) rows False f ?loc (dk_files d ?loc) (fs1 ?loc) ?V ?Fl (verdictsFor res ?fi)"
    using verifyLoop_sound[OF v[unfolded verifyJobFiles_def] st[THEN conjunct1] _ files jobFileLocation_inj, THEN conjunct2, THEN conjunct2] f
    by (auto simp: untouched_def noResult_def verdictsFor_def)
  note ok = ok[unfolded verified_file_def Let_def rows_gone_def]
  have "jf_Name ?loc = fr_Filename f" by (simp add: jobFileLocation_def)
  then have left: "dk_files d' ?loc = fs1 ?loc" using fs' clean_keeps_recorded[OF f(1,3)] by metis
  have wr: "written_articles (dk_store d') (re_ident e j, ?fi, a) = Some r \<longleftrightarrow> r \<in> set ?V \<and> wr_ArtIdx r = a" for a r
    using ok[THEN conjunct2, THEN conjunct2, THEN conjunct1] st[THEN conjunct2] by (auto simp: rows')
  then have K: "?K = set ?V" by auto
  have F: "wr_ArtIdx ` ?F = set ?Fl" unfolding K using ok by simp
  have inF: "r \<in> ?F" if r: "r \<in> ?R" and w: "wr_ArtIdx r \<in> set ?Fl" for r
  proof -
    obtain s where s: "wr_ArtIdx r = wr_ArtIdx s" "s \<in> ?F" using w unfolding F[symmetric] by (rule imageE)
    then have "s = r" using r inj_onD[OF conjunct2[OF st[THEN conjunct1, unfolded distinct_map]], of s r] by auto
    then show ?thesis using s(2) by simp
  qed
  have mk: "(\<exists>v\<in>set (verdictsFor res ?fi). vd_SetComplete v) \<longleftrightarrow> finished_file (mf_ft m) f False ?K (wr_ArtIdx ` ?F)"
    unfolding F unfolding K using ok by blast
  have keep: "if dk_files d ?loc = None \<or> ve_syncFails (re_vfs e) ?loc then ?K = {}
     else \<forall>r\<in>?R. \<forall>content. dk_files d ?loc = Some content \<and> row_on_disk content r \<longrightarrow> r \<in> ?K \<union> ?F"
  proof (cases "dk_files d ?loc = None \<or> ve_syncFails (re_vfs e) ?loc")
    case True
    then show ?thesis using ok K by auto
  next
    case False
    then have no: "\<not> (dk_files d ?loc = None \<or> ve_syncFails (re_vfs e) ?loc \<or> False \<and> ve_dir (re_vfs e) (jf_Dir ?loc) = DirMissing)" by simp
    note ok[THEN conjunct2, THEN conjunct2, THEN conjunct2, THEN conjunct2, THEN conjunct1, unfolded if_not_P[OF no]]
    then show ?thesis unfolding if_not_P[OF False] using inF K by (metis (no_types, lifting) Un_iff)
  qed
  have V: "set ?V \<subseteq> ?R" using ok[THEN conjunct2, THEN conjunct2, THEN conjunct1] by blast
  show ?thesis unfolding Let_def
  proof (intro conjI)
    show "\<forall>a r. written_articles (dk_store d') (re_ident e j, ?fi, a) = Some r \<longrightarrow> r \<in> ?R \<and> wr_ArtIdx r = a" using wr V by blast
    show "\<forall>r\<in>?K. \<exists>content. dk_files d' ?loc = Some content \<and> row_on_disk content r" unfolding K left by (rule ok[THEN conjunct1])
    show "\<forall>x\<in>?K. \<forall>y\<in>?K. x \<noteq> y \<longrightarrow> row_bytes x \<inter> row_bytes y = {}" unfolding K by (rule ok[THEN conjunct2, THEN conjunct1])
    show "fmlookup (job_files (dk_store d')) (re_ident e j, ?fi) =
      map_option (\<lambda>x. if finished_file (mf_ft m) f False ?K (wr_ArtIdx ` ?F) then x\<lparr>jf_complete := True\<rparr> else x) (fmlookup (job_files (dk_store d)) (re_ident e j, ?fi))"
      using marks[of ?fi] ok unfolding mk by blast
    show "?fi \<in> set fin \<longrightarrow> finished_file (mf_ft m) f False ?K (wr_ArtIdx ` ?F)" using settled[of ?fi] mk by blast
  qed (rule keep)
qed

text \<open>A job with one file of one article, which is on disk in a file still at its preallocated size.\<close>

definition yEnv :: resumeEnv where
  "yEnv = \<lparr>re_vfs = \<lparr>ve_dir = (\<lambda>_. DirOpen), ve_openFault = (\<lambda>_. False), ve_syncFails = (\<lambda>_. False), ve_dropFails = (\<lambda>_. False),
      ve_readFault = (\<lambda>_ _. False), ve_ended = (\<lambda>_ _. False), ve_endedFinish = (\<lambda>_. False), ve_finish = (\<lambda>_. FinishOk)\<rparr>,
     re_ident = (\<lambda>_. ''j''), re_free = True, re_out = TxCommitted, re_lists = True, re_removes = (\<lambda>_. True)\<rparr>"

definition yRow :: WrittenRow where
  "yRow = \<lparr>wr_FileIdx = 0, wr_ArtIdx = 0, wr_Offset = 0, wr_Length = 1, wr_CRC32 = ChecksumIEEE [0x41]\<rparr>"

definition yFile :: FileRow where
  "yFile = \<lparr>fr_FileIndex = 0, fr_Complete = False, fr_FetchPolicy = FetchAlways, fr_Filename = ''a''\<rparr>"

definition yDisk :: Disk where
  "yDisk = \<lparr>dk_files = (\<lambda>l. if jf_Name l = ''a'' then Some [0x41, 0, 0, 0, 0] else None), dk_rec = newRecorder,
     dk_store = \<lparr>written_articles = (\<lambda>k. if k = (''j'', 0, 0) then Some yRow else None), job_files = fmupd (''j'', 0) \<lparr>jf_complete = False, jf_filename = ''a'', jf_fetch_policy = FetchAlways\<rparr> fmempty\<rparr>\<rparr>"

definition yPipe :: pipeline where
  "yPipe = \<lparr>pl_downloadDir = ''/d'', pl_sanitize = plainOptions, pl_fileInfo = (\<lambda>_. None)\<rparr>"

lemma y_row_matches: "rowMatches (re_vfs yEnv) loc [0x41, 0, 0, 0, 0] yRow = Inr True"
proof -
  have c: "chunkLen yRow 0 = 1" by (simp add: chunkLen_def verifyBufSize_def yRow_def)
  have "preadAt (re_vfs yEnv) loc [0x41, 0, 0, 0, 0] 1 0 = ([0x41], None)" by (simp add: preadAt_def yEnv_def)
  then show ?thesis using c
    by (simp add: rowMatches_def rowLoop.simps[of _ _ 0] rowLoop.simps[of _ _ 1] yRow_def Let_def crc32_Update_zero)
qed

lemma y_facts:
  "ve_dir (re_vfs yEnv) dir = DirOpen" "\<not> ve_openFault (re_vfs yEnv) loc" "\<not> ve_syncFails (re_vfs yEnv) loc" "\<not> ve_dropFails (re_vfs yEnv) loc"
  "\<not> ve_ended (re_vfs yEnv) loc k" "\<not> ve_endedFinish (re_vfs yEnv) loc" "ve_finish (re_vfs yEnv) loc = FinishOk"
  "HasValidShape yRow" "wr_Length yRow = 1" "wr_ArtIdx yRow = 0" "wr_FileIdx yRow = 0"
  "fr_FileIndex yFile = 0" "\<not> fr_Complete yFile" "fr_FetchPolicy yFile = FetchAlways" "fr_Filename yFile = ''a''"
  by (simp_all add: yEnv_def yRow_def yFile_def HasValidShape_def)

lemma y_readback:
  "jf_Name loc = ''a'' \<Longrightarrow> readBackFile (re_vfs yEnv) (dk_files yDisk) loc [yRow] False =
     Inr \<lparr>rk_deleteAll = False, rk_deleted = [], rk_verified = [yRow], rk_failed = []\<rparr>"
  by (simp add: readBackFile_def yDisk_def readBackOpen_def resolveRows_def y_row_matches y_facts)

lemma y_verify:
  "\<exists>fs1. verifyJobFiles (re_vfs yEnv) xTable [yFile] [yRow] (jobFileLocation yPipe ''n'') False (dk_files yDisk) =
     (fs1, Inr \<lparr>vr_Verdicts = [verdictOf 0 False [] True], vr_Verified = (\<lambda>_. [])(0 := [yRow]), vr_Failed = (\<lambda>_. [])\<rparr>)"
proof -
  obtain loc where l: "jobFileLocation yPipe ''n'' ''a'' = (loc, True)" "jf_Name loc = ''a''"
    by (simp add: jobFileLocation_def CheckOneComponent_def)
  have rows: "rowsByFile [yRow] 0 = [yRow]" by (simp add: rowsByFile_def y_facts)
  have t: "ft_NumFiles xTable = 1" "ft_Range xTable 0 = (0, 1)"
    by (simp_all add: xTable_def newFileTable_def ft_NumFiles_def ft_Range_def)
  have "\<exists>fs1. finishIfResolved (re_vfs yEnv) xTable yFile loc \<lparr>rk_deleteAll = False, rk_deleted = [], rk_verified = [yRow], rk_failed = []\<rparr>
      False (dk_files yDisk) = (fs1, Inr True)"
    by (simp add: finishIfResolved_def fileFinishable_def t y_facts finishFileByPath_def yDisk_def l(2))
  then show ?thesis
    by (auto simp: verifyJobFiles_def y_facts rows y_readback[OF l(2)] l(1) Let_def noteReadback_def noResult_def verdictOf_def)
qed

theorem resume_trusts_only_disk_witness:
  "\<exists>(d' :: Disk) c' fin. verifyAndAttach yEnv (jobFileLocation yPipe ''n'') False 0 xManifest [yFile] [yRow] (yDisk, xFiles) = ((d', c'), Inr fin)
     \<and> written_articles (dk_store d') (''j'', 0, 0) = Some yRow
     \<and> map_option jf_complete (fmlookup (job_files (dk_store d')) (''j'', 0)) = Some True"
proof -
  have xm: "mf_ft xManifest = xTable" by (simp add: xManifest_def)
  obtain fs1 res where v: "verifyJobFiles (re_vfs yEnv) xTable [yFile] [yRow] (jobFileLocation yPipe ''n'') False (dk_files yDisk) = (fs1, Inr res)"
    "vr_Verdicts res = [verdictOf 0 False [] True]" using y_verify by fastforce
  have "\<exists>c1 out. AttachArticles (Some xManifest) vs xFiles = (c1, Inr out)" for vs
    using AttachArticles_ok(2)[OF content_reach_ok[OF xFiles_reach] newManifest_ok[OF xManifest_built ft_ok_new], of vs] xm
    by (auto simp: AttachArticles_def xFiles_def AttachFiles_def newContent_def Let_def split: option.splits prod.splits)
  then obtain c0 out where att: "AttachArticles (Some xManifest) (verificationsOf [yFile] [yRow] res True) xFiles = (c0, Inr out)" by blast
  obtain c1 fin where "finishInstalled (zip (verificationsOf [yFile] [yRow] res True) out) c0 = (c1, fin)" by force
  with att have i: "installVerification (Some xManifest) [yFile] [yRow] res True xFiles = (c1, Inr fin)"
    by (simp add: installVerification_def)
  have "\<exists>r s. apply_record True (\<lambda>_. ''j'') TxCommitted 0 (vr_Verdicts res) [] (dk_rec yDisk, dk_store yDisk) = ((r, s), None)"
    by (simp add: apply_record_def ApplyRecord_def applyBatch_def v(2) verdictOf_def)
  then obtain d' c' fin' where run: "verifyAndAttach yEnv (jobFileLocation yPipe ''n'') False 0 xManifest [yFile] [yRow] (yDisk, xFiles) = ((d', c'), Inr fin')"
    using v i by (auto simp: verifyAndAttach_def xm yEnv_def Let_def)
  have store: "rows_of_store (re_ident yEnv 0) (dk_store yDisk) [yRow]"
    by (auto simp: rows_of_store_def yEnv_def yDisk_def yRow_def)
  have y: "fr_Filename yFile = ''a''" "\<not> fr_Complete yFile" "fr_FileIndex yFile = 0" "re_ident yEnv 0 = ''j''"
    "dk_files yDisk (fst (jobFileLocation yPipe ''n'' ''a'')) = Some [0x41, 0, 0, 0, 0]" "\<not> ve_syncFails (re_vfs yEnv) l"
    "fmlookup (job_files (dk_store yDisk)) (''j'', 0) = Some \<lparr>jf_complete = False, jf_filename = ''a'', jf_fetch_policy = FetchAlways\<rparr>" for l
    by (simp_all add: yFile_def yEnv_def yDisk_def jobFileLocation_def)
  define K where "K = {r. \<exists>a. written_articles (dk_store d') (''j'', 0, a) = Some r}"
  define F where "F = {r \<in> {r \<in> set [yRow]. wr_FileIdx r = 0} - K. HasValidShape r \<and> (\<exists>x\<in>K. row_bytes r \<inter> row_bytes x \<noteq> {})}"
  note spec = resume_trusts_only_disk[OF run store, of yFile, unfolded Let_def y xm, folded K_def, folded F_def]
  have sub: "\<forall>a r. written_articles (dk_store d') (''j'', 0, a) = Some r \<longrightarrow> r = yRow \<and> wr_ArtIdx r = a" using spec y by auto
  have disk: "row_on_disk [0x41, 0, 0, 0, 0] yRow" by (simp add: row_on_disk_def y_facts) (simp add: yRow_def)
  have "yRow \<in> K \<union> F" using spec y disk y_facts(11) by auto
  moreover have "K \<noteq> {} \<Longrightarrow> yRow \<in> K" using sub by (auto simp: K_def)
  ultimately have k: "yRow \<in> K" by (auto simp: F_def)
  then have row: "written_articles (dk_store d') (''j'', 0, 0) = Some yRow" using sub y_facts(10) by (auto simp: K_def)
  have "finished_file xTable yFile False K (wr_ArtIdx ` F)"
    using k y_facts by (auto simp: finished_file_def xTable_def newFileTable_def ft_NumFiles_def ft_Range_def intro: image_eqI[of _ _ yRow])
  then have "map_option jf_complete (fmlookup (job_files (dk_store d')) (''j'', 0)) = Some True" using spec y by auto
  then show ?thesis using run row by blast
qed

end
