(* ===== verification/Line_Content.thy ===== *)
theory Line_Content
  imports Pipeline Content_Inv Assembler_Safety
begin

text \<open>
  What the doors of a job's content that the production line uses do to its emitted and done articles.
\<close>

section \<open>The bits of a job, resident or evicted\<close>

definition emittedSet :: "Content \<Rightarrow> nat set" where
  "emittedSet c = (case ct_progress c of None \<Rightarrow> {} | Some p \<Rightarrow> {i. emittedAt p i})"

definition doneSet :: "Content \<Rightarrow> nat set" where
  "doneSet c = (case ct_progress c of None \<Rightarrow> {} | Some p \<Rightarrow> {i. doneAt p i})"

definition resident :: "Manifest \<Rightarrow> Content \<Rightarrow> bool" where
  "resident m c \<longleftrightarrow> content_ok c \<and> ct_manifest c = Some m \<and> ct_progress c \<noteq> None"

lemma residentE:
  assumes "resident m c"
  obtains p where "content_ok c" "ct_manifest c = Some m" "ct_progress c = Some p" "res_ok m p"
    "emittedSet c = {i. emittedAt p i}" "doneSet c = {i. doneAt p i}"
  using assms content_ok_res(1) by (auto simp: resident_def emittedSet_def doneSet_def)

text \<open>The job keeps its progress when it is evicted; only the manifest goes, and comes back with the next hydration.\<close>

definition held :: "Manifest \<Rightarrow> Content \<Rightarrow> bool" where
  "held m c \<longleftrightarrow> content_ok c \<and> mf_ok m \<and> ct_fileTable c = Some (mf_ft m) \<and> ct_progress c \<noteq> None
     \<and> (ct_manifest c = Some m \<or> ct_manifest c = None)"

lemma heldE:
  assumes "held m c"
  obtains p where "content_ok c" "mf_ok m" "ct_fileTable c = Some (mf_ft m)" "ct_progress c = Some p" "prog_inv (mf_ft m) p"
    "emittedSet c = {i. emittedAt p i}" "doneSet c = {i. doneAt p i}"
  using assms by (auto simp: held_def emittedSet_def doneSet_def content_ok_def split: option.splits)

lemma resident_held: "resident m c \<Longrightarrow> held m c"
  using content_ok_res(2) by (auto simp: held_def resident_def dest: content_ok_res(1) intro: res_okD(1))

lemma held_cases:
  assumes "held m c"
  obtains (resident) "resident m c" | (evicted) "ct_manifest c = None"
  using assms that by (auto simp: held_def resident_def)

lemma held_mf: "held m c \<Longrightarrow> mf_ok m"
  by (simp add: held_def)

lemma emitted_not_done: "held m c \<Longrightarrow> emittedSet c \<inter> doneSet c = {}"
  by (erule heldE) (auto dest!: prog_invD(2) simp: bits_ok_def)

text \<open>A change that emits nothing and keeps what is done.\<close>

definition settles_bits :: "Manifest \<Rightarrow> Content \<Rightarrow> Content \<Rightarrow> bool" where
  "settles_bits m c c' \<longleftrightarrow> held m c' \<and> emittedSet c' \<subseteq> emittedSet c \<and> doneSet c \<subseteq> doneSet c'"

lemma settles_trans: "settles_bits m a b \<Longrightarrow> settles_bits m b c \<Longrightarrow> settles_bits m a c"
  by (auto simp: settles_bits_def)

lemma settles_refl: "held m c \<Longrightarrow> settles_bits m c c"
  by (simp add: settles_bits_def)

lemma settles_put:
  assumes "resident m c" "content_ok c'" "ct_manifest c' = Some m" "ct_progress c = Some p" "ct_progress c' = Some q"
    "\<And>i. emittedAt q i \<Longrightarrow> emittedAt p i" "\<And>i. doneAt p i \<Longrightarrow> doneAt q i"
  shows "settles_bits m c c'"
proof -
  have "resident m c'" using assms by (simp add: resident_def)
  then show ?thesis using assms resident_held by (auto simp: settles_bits_def emittedSet_def doneSet_def)
qed

lemma settles_put_evicted:
  assumes "held m c" "ct_manifest c = None" "content_ok (c\<lparr>ct_progress := Some q\<rparr>)" "ct_progress c = Some p"
    "\<And>i. emittedAt q i \<Longrightarrow> emittedAt p i" "\<And>i. doneAt p i \<Longrightarrow> doneAt q i"
  shows "settles_bits m c (c\<lparr>ct_progress := Some q\<rparr>)"
  using assms by (auto simp: settles_bits_def held_def emittedSet_def doneSet_def)

lemma inFile_index:
  assumes "mf_ok m" "ArticleInFile m fi a"
  shows "0 \<le> a" "nat a < mf_NumArticles m" "0 \<le> fi" "nat fi < mf_NumFiles m"
    "fst (FileRange m (nat fi)) \<le> nat a" "nat a < snd (FileRange m (nat fi))"
proof -
  show "0 \<le> a" "0 \<le> fi" and fi: "nat fi < mf_NumFiles m" and "fst (FileRange m (nat fi)) \<le> nat a"
    and a: "nat a < snd (FileRange m (nat fi))"
    using assms(2) by (auto simp: ArticleInFile_iff)
  show "nat a < mf_NumArticles m" using range_articles[OF assms(1) fi] a \<open>fst (FileRange m (nat fi)) \<le> nat a\<close> by simp
qed

section \<open>Doors of a resident job\<close>

lemma emit_bits_resident:
  assumes "resident m c" "0 \<le> a"
  defines "c' \<equiv> fst (MarkArticleEmitted a c)"
  shows "resident m c'" "emittedSet c' \<subseteq> insert (nat a) (emittedSet c)" "doneSet c' = doneSet c"
proof -
  obtain p where p: "content_ok c" "ct_manifest c = Some m" "ct_progress c = Some p" "res_ok m p"
    "emittedSet c = {i. emittedAt p i}" "doneSet c = {i. doneAt p i}" using assms(1) by (rule residentE)
  have c': "c' = (if a \<ge> int (mf_NumArticles m) then c else c\<lparr>ct_progress := Some (markEmitted m (nat a) p)\<rparr>)"
    using p(2,3) assms(2) by (simp add: c'_def MarkArticleEmitted_def)
  show "resident m c'"
    using content_ok_MarkArticleEmitted[OF p(1), of a] p(2,3) unfolding c'_def[symmetric] by (simp add: resident_def c')
  note s = shape_ok[OF res_okD(4)[OF p(4)]]
  show "emittedSet c' \<subseteq> insert (nat a) (emittedSet c)" "doneSet c' = doneSet c"
    using assms(2) s p(5,6)
    by (auto simp: c' emittedSet_def doneSet_def markEmitted_def movePending_moved bit_reads split: if_splits)
qed

lemma clear_bits_resident:
  assumes "resident m c" and c'_def: "c' = fst (ClearArticleEmitted a c)"
  shows "settles_bits m c c'" "0 \<le> a \<Longrightarrow> nat a \<notin> emittedSet c'"
proof -
  obtain p where p: "content_ok c" "ct_manifest c = Some m" "ct_progress c = Some p" "res_ok m p"
    "emittedSet c = {i. emittedAt p i}" "doneSet c = {i. doneAt p i}" using assms(1) by (rule residentE)
  note s = shape_ok[OF res_okD(4)[OF p(4)]]
  have c': "c' = (if a < 0 \<or> a \<ge> bs_Len (jp_done p) then c else c\<lparr>ct_progress := Some (clearEmitted m (nat a) p)\<rparr>)"
    using p(2,3) by (simp add: c'_def ClearArticleEmitted_def)
  have q: "jp_emitted (clearEmitted m i p) = (if emittedAt p i then bs_Clear (int i) (jp_emitted p) else jp_emitted p)"
    "jp_done (clearEmitted m i p) = jp_done p" for i
    by (simp_all add: clearEmitted_def movePending_moved)
  have ok: "content_ok c'" unfolding c'_def by (rule content_ok_ClearArticleEmitted[OF p(1)])
  show "settles_bits m c c'"
  proof (cases "a < 0 \<or> a \<ge> bs_Len (jp_done p)")
    case False
    then show ?thesis using p(2,3) ok s(3)
      by (intro settles_put[OF assms(1), of c' p "clearEmitted m (nat a) p"]) (auto simp: c' q bit_reads split: if_splits)
  qed (simp add: c' settles_refl resident_held assms(1))
  show "nat a \<notin> emittedSet c'" if "0 \<le> a"
    using that s bits.get_range[of "jp_emitted p" a] p(5) by (auto simp: c' q emittedSet_def bit_reads p(3))
qed

lemma fail_bits_resident:
  assumes "resident m c" and c'_def: "c' = fst (MarkArticleFailed a charge c)"
  shows "settles_bits m c c'"
    "0 \<le> a \<Longrightarrow> nat a < mf_NumArticles m \<Longrightarrow> 0 \<le> charge \<or> charge = WholeArticle \<Longrightarrow> nat a \<in> doneSet c'"
proof -
  obtain p where p: "content_ok c" "ct_manifest c = Some m" "ct_progress c = Some p" "res_ok m p"
    "emittedSet c = {i. emittedAt p i}" "doneSet c = {i. doneAt p i}" using assms(1) by (rule residentE)
  note s = shape_ok[OF res_okD(4)[OF p(4)]]
  let ?q = "fst (markFailedUncovered m (nat a) charge p)"
  let ?no = "charge < 0 \<and> charge \<noteq> WholeArticle \<or> a < 0 \<or> a \<ge> bs_Len (jp_done p)"
  have c': "c' = (if ?no then c else c\<lparr>ct_progress := Some ?q\<rparr>)"
    using p(2,3) by (auto simp: c'_def MarkArticleFailed_def markArticleFailed_def)
  have ok: "content_ok c'"
    unfolding c'_def MarkArticleFailed_def using p(1) content_ok_markArticleFailed[OF p(1)] by simp
  have q: "jp_done ?q = (if doneAt p (nat a) then jp_done p else bs_Set (int (nat a)) (jp_done p))"
    "jp_emitted ?q = (if doneAt p (nat a) then jp_emitted p else bs_Clear (int (nat a)) (jp_emitted p))"
    using markFailedUncovered_fields(1,3)[OF _ HOL.refl HOL.refl HOL.refl HOL.refl, of p "nat a" m charge]
    by (auto simp: markFailedUncovered_def setFailedBits_def)
  show "settles_bits m c c'"
  proof (cases ?no)
    case False
    then show ?thesis using p(2,3) ok s(1,3)
      by (intro settles_put[OF assms(1), of c' p ?q]) (auto simp: c' q bit_reads split: if_splits)
  qed (simp add: c' settles_refl resident_held assms(1))
  show "nat a \<in> doneSet c'" if "0 \<le> a" "nat a < mf_NumArticles m" "0 \<le> charge \<or> charge = WholeArticle"
  proof -
    have "\<not> ?no" using that s(4) res_okD(1)[OF p(4)] by (auto simp: num_articles)
    then show ?thesis using s(1) by (auto simp: c' doneSet_def q bit_reads)
  qed
qed

lemma written_bits_resident:
  assumes "resident m c" and c'_def: "c' = fst (MarkArticleWritten row c)"
  shows "settles_bits m c c'" "ArticleInFile m (wr_FileIdx row) (wr_ArtIdx row) \<Longrightarrow> HasValidShape row \<Longrightarrow> nat (wr_ArtIdx row) \<in> doneSet c'"
proof -
  obtain p where p: "content_ok c" "ct_manifest c = Some m" "ct_progress c = Some p" "res_ok m p"
    "emittedSet c = {i. emittedAt p i}" "doneSet c = {i. doneAt p i}" using assms(1) by (rule residentE)
  note s = shape_ok[OF res_okD(4)[OF p(4)]]
  have ok: "content_ok c'" unfolding c'_def by (rule content_ok_MarkArticleWritten[OF p(1)])
  let ?i = "nat (wr_ArtIdx row)" and ?d = "fst (markDone m (nat (wr_ArtIdx row)) p)"
  consider (refused) "\<not> (ArticleInFile m (wr_FileIdx row) (wr_ArtIdx row) \<and> HasValidShape row)" "c' = c"
    | (marked) q where "ArticleInFile m (wr_FileIdx row) (wr_ArtIdx row)" "HasValidShape row" "c' = c\<lparr>ct_progress := Some q\<rparr>" "same_but_rows ?d q"
  proof (cases "ArticleInFile m (wr_FileIdx row) (wr_ArtIdx row) \<and> HasValidShape row")
    case False
    then show thesis using refused p(2,3) by (simp add: c'_def MarkArticleWritten_def)
  next
    case True
    obtain d b where db: "markDone m ?i p = (d, b)" by force
    have "c' = c\<lparr>ct_progress := Some (if b then appendRow row d else upsertRows (nat (wr_FileIdx row)) [row] d)\<rparr>"
      using True p(2,3) db by (auto simp: c'_def MarkArticleWritten_def split: bool.splits)
    then show thesis using True db by (intro marked) auto
  qed
  then show "settles_bits m c c'" "ArticleInFile m (wr_FileIdx row) (wr_ArtIdx row) \<Longrightarrow> HasValidShape row \<Longrightarrow> ?i \<in> doneSet c'"
  proof (atomize (full), cases)
    case refused
    then show "settles_bits m c c' \<and> (ArticleInFile m (wr_FileIdx row) (wr_ArtIdx row) \<longrightarrow> HasValidShape row \<longrightarrow> ?i \<in> doneSet c')"
      using assms(1) by (simp add: settles_refl resident_held)
  next
    case (marked q)
    note i = placed_row(1)[OF p(4) marked(1,2)]
    have dn: "doneAt q k \<longleftrightarrow> k = ?i \<or> doneAt p k" for k
      using markDone_done[OF p(4) i] same_but_rowsD(1)[OF marked(4)] by simp
    have em: "emittedAt q k \<Longrightarrow> emittedAt p k" for k
      using same_but_rowsD(3)[OF marked(4)] markDone_fields(3)[of p ?i m] s(3)
      by (cases "doneAt p ?i") (auto simp: markDone_def bit_reads)
    have "settles_bits m c c'"
      by (rule settles_put[OF assms(1) ok _ p(3), of q]) (use marked p(2) dn em in auto)
    then show "settles_bits m c c' \<and> (ArticleInFile m (wr_FileIdx row) (wr_ArtIdx row) \<longrightarrow> HasValidShape row \<longrightarrow> ?i \<in> doneSet c')"
      using marked(3) dn by (simp add: doneSet_def)
  qed
qed

lemma markNotDones_bits:
  "jp_emitted (foldl (\<lambda>q i. fst (markNotDone fi i q)) p is) = jp_emitted p"
  "bs_ok (jp_done p) \<Longrightarrow> doneAt p k \<Longrightarrow> k \<notin> set is \<Longrightarrow> doneAt (foldl (\<lambda>q i. fst (markNotDone fi i q)) p is) k"
proof -
  have one: "jp_emitted (fst (markNotDone fi i p)) = jp_emitted p"
    "bs_ok (jp_done p) \<Longrightarrow> bs_ok (jp_done (fst (markNotDone fi i p)))"
    "bs_ok (jp_done p) \<Longrightarrow> doneAt p k \<Longrightarrow> k \<noteq> i \<Longrightarrow> doneAt (fst (markNotDone fi i p)) k" for i p
    using same_but_rowsD(1,3)[OF same_but_rows_store(5)[of "clearOne i p" fi "[i]"]]
    by (auto simp: markNotDone_def clearDone_def clearOne_def bit_reads)
  show "jp_emitted (foldl (\<lambda>q i. fst (markNotDone fi i q)) p is) = jp_emitted p"
    by (induction "is" arbitrary: p) (simp_all add: one)
  show "bs_ok (jp_done p) \<Longrightarrow> doneAt p k \<Longrightarrow> k \<notin> set is \<Longrightarrow> doneAt (foldl (\<lambda>q i. fst (markNotDone fi i q)) p is) k"
    by (induction "is" arbitrary: p) (simp_all add: one)
qed

lemma untrust_bits_resident:
  assumes "resident m c" and c'_def: "c' = fst (UntrustFile fi c)"
  shows "resident m c'" "emittedSet c' = emittedSet c" "i \<in> doneSet c \<Longrightarrow> \<not> ArticleInFile m fi (int i) \<Longrightarrow> i \<in> doneSet c'"
proof -
  obtain p where p: "content_ok c" "ct_manifest c = Some m" "ct_progress c = Some p" "res_ok m p"
    "emittedSet c = {i. emittedAt p i}" "doneSet c = {i. doneAt p i}" using assms(1) by (rule residentE)
  note ok = UntrustFile_ok[OF p(1), of fi]
  show "resident m c'" using ok(1) p(2,3)
    by (auto simp: resident_def c'_def UntrustFile_def Let_def case_prod_unfold split: option.splits if_splits)
  show "emittedSet c' = emittedSet c" "i \<in> doneSet c \<Longrightarrow> \<not> ArticleInFile m fi (int i) \<Longrightarrow> i \<in> doneSet c'"
  proof (atomize (full), cases "fi < 0 \<or> fi \<ge> int (mf_NumFiles m)")
    case True
    then show "emittedSet c' = emittedSet c \<and> (i \<in> doneSet c \<longrightarrow> \<not> ArticleInFile m fi (int i) \<longrightarrow> i \<in> doneSet c')"
      using p(2,3) by (simp add: c'_def UntrustFile_def)
  next
    case False
    let ?is = "[fst (FileRange m (nat fi))..<snd (FileRange m (nat fi))]"
    obtain p1 where p1_def: "p1 = foldl (\<lambda>q i. fst (markNotDone (nat fi) i q)) (deleteRows (nat fi) p) ?is" by simp
    obtain p2 where p2_def: "p2 = updFile (nat fi) (\<lambda>f. f\<lparr>fp_Complete := False, fp_AssembledCRC32 := 0\<rparr>) p1" by simp
    have u: "UntrustFile fi c = (case recompute m p2 of None \<Rightarrow> (c\<lparr>ct_progress := Some p2\<rparr>, Some SizeMismatchPanic)
        | Some p3 \<Rightarrow> (c\<lparr>ct_progress := Some p3\<rparr>, None))"
      using False p(2,3) unfolding p2_def p1_def by (simp add: UntrustFile_def Let_def case_prod_unfold)
    obtain p3 where p3: "recompute m p2 = Some p3" using ok(2) unfolding u by (cases "recompute m p2") auto
    have bits: "jp_done p3 = jp_done p1" "jp_emitted p3 = jp_emitted p1"
      using p3 by (auto simp: recompute_def p2_def updFile_def split: if_splits)
    note d = same_but_rowsD(1,3)[OF same_but_rows_store(6)[of p "nat fi"]]
    have "jp_emitted p3 = jp_emitted p" using bits(2) markNotDones_bits(1) d(2) by (simp add: p1_def)
    moreover have "doneAt p3 i" if "doneAt p i" "\<not> ArticleInFile m fi (int i)"
      using that False markNotDones_bits(2)[of "deleteRows (nat fi) p" i ?is "nat fi"] bits(1) d(1) shape_ok(1)[OF res_okD(4)[OF p(4)]]
      by (auto simp: p1_def ArticleInFile_iff)
    ultimately show "emittedSet c' = emittedSet c \<and> (i \<in> doneSet c \<longrightarrow> \<not> ArticleInFile m fi (int i) \<longrightarrow> i \<in> doneSet c')"
      using p(5,6) p3 by (simp add: c'_def u emittedSet_def doneSet_def)
  qed
qed

section \<open>Doors, resident or evicted\<close>

lemma emit_bits:
  assumes "held m c" "0 \<le> a"
  defines "c' \<equiv> fst (MarkArticleEmitted a c)"
  shows "held m c'" "emittedSet c' \<subseteq> insert (nat a) (emittedSet c)" "doneSet c' = doneSet c"
  using assms(1)
proof (atomize (full), cases rule: held_cases)
  case resident
  then show "held m c' \<and> emittedSet c' \<subseteq> insert (nat a) (emittedSet c) \<and> doneSet c' = doneSet c"
    using emit_bits_resident[OF resident assms(2)] resident_held by (simp add: c'_def)
next
  case evicted
  then have "c' = c" by (simp add: c'_def MarkArticleEmitted_def)
  then show "held m c' \<and> emittedSet c' \<subseteq> insert (nat a) (emittedSet c) \<and> doneSet c' = doneSet c" using assms(1) by auto
qed

text \<open>Without the manifest only the bit is cleared.\<close>

lemma clear_bits:
  assumes "held m c" and c'_def: "c' = fst (ClearArticleEmitted a c)"
  shows "settles_bits m c c'" "0 \<le> a \<Longrightarrow> nat a \<notin> emittedSet c'" "doneSet c' = doneSet c"
  using assms(1)
proof (atomize (full), cases rule: held_cases)
  case resident
  have "doneSet c' = doneSet c"
    using resident by (elim residentE) (auto simp: c'_def ClearArticleEmitted_def doneSet_def clearEmitted_def movePending_moved)
  then show "settles_bits m c c' \<and> (0 \<le> a \<longrightarrow> nat a \<notin> emittedSet c') \<and> doneSet c' = doneSet c"
    using clear_bits_resident[OF resident c'_def] by blast
next
  case evicted
  obtain p where p: "content_ok c" "ct_progress c = Some p" "prog_inv (mf_ft m) p" "emittedSet c = {i. emittedAt p i}" "doneSet c = {i. doneAt p i}"
    using assms(1) by (rule heldE)
  note s = shape_ok[OF prog_invD(1)[OF p(3)]]
  have ok: "content_ok c'" unfolding c'_def by (rule content_ok_ClearArticleEmitted[OF p(1)])
  show "settles_bits m c c' \<and> (0 \<le> a \<longrightarrow> nat a \<notin> emittedSet c') \<and> doneSet c' = doneSet c"
  proof (cases "a < 0 \<or> a \<ge> bs_Len (jp_done p)")
    case True
    then have "c' = c" using p(2) by (simp add: c'_def ClearArticleEmitted_def)
    moreover have "nat a \<notin> emittedSet c" if "0 \<le> a" using that True s(4,6) bits.get_range[of "jp_emitted p" a] p(4) by auto
    ultimately show ?thesis using settles_refl[OF assms(1)] by simp
  next
    case False
    let ?q = "p\<lparr>jp_emitted := bs_Clear a (jp_emitted p)\<rparr>"
    have c': "c' = c\<lparr>ct_progress := Some ?q\<rparr>" using p(2) False evicted by (simp add: c'_def ClearArticleEmitted_def)
    have e: "emittedAt ?q i \<longleftrightarrow> emittedAt p i \<and> int i \<noteq> a" for i using s(3) False by (auto simp: bit_reads)
    have "settles_bits m c c'" unfolding c'
      by (rule settles_put_evicted[OF assms(1) evicted _ p(2)]) (use ok e c' in auto)
    moreover have "nat a \<notin> emittedSet c'" using e[of "nat a"] False by (simp add: c' emittedSet_def)
    moreover have "doneSet c' = doneSet c" using p(5) by (simp add: c' doneSet_def)
    ultimately show ?thesis by blast
  qed
qed

lemma fail_bits:
  assumes "held m c" and c'_def: "c' = fst (MarkArticleFailed a charge c)"
  shows "settles_bits m c c'"
    "0 \<le> a \<Longrightarrow> nat a < mf_NumArticles m \<Longrightarrow> 0 \<le> charge \<or> charge = WholeArticle \<Longrightarrow> nat a \<in> doneSet c'"
  using assms(1)
proof (atomize (full), cases rule: held_cases)
  case resident
  then show "settles_bits m c c' \<and> (0 \<le> a \<longrightarrow> nat a < mf_NumArticles m \<longrightarrow> 0 \<le> charge \<or> charge = WholeArticle \<longrightarrow> nat a \<in> doneSet c')"
    using fail_bits_resident[OF resident c'_def] by blast
next
  case evicted
  obtain p where p: "content_ok c" "mf_ok m" "ct_progress c = Some p" "prog_inv (mf_ft m) p" "emittedSet c = {i. emittedAt p i}" "doneSet c = {i. doneAt p i}"
    using assms(1) by (rule heldE)
  note s = shape_ok[OF prog_invD(1)[OF p(4)]]
  have ok: "content_ok c'"
    unfolding c'_def MarkArticleFailed_def using p(1) content_ok_markArticleFailed[OF p(1)] by simp
  show "settles_bits m c c' \<and> (0 \<le> a \<longrightarrow> nat a < mf_NumArticles m \<longrightarrow> 0 \<le> charge \<or> charge = WholeArticle \<longrightarrow> nat a \<in> doneSet c')"
  proof (cases "charge < 0 \<and> charge \<noteq> WholeArticle \<or> a < 0 \<or> a \<ge> bs_Len (jp_done p)")
    case True
    then have "c' = c" using p(3) by (auto simp: c'_def MarkArticleFailed_def markArticleFailed_def)
    moreover have "int (mf_NumArticles m) = bs_Len (jp_done p)" using s(4) p(2) by (simp add: num_articles)
    ultimately show ?thesis using True settles_refl[OF assms(1)] by auto
  next
    case False
    obtain p1 ok1 where sf: "setFailedBits (nat a) p = (p1, ok1)" by force
    define q where "q = (if ok1 then limitCharge (nat a) charge p1 else p1)"
    have c': "c' = c\<lparr>ct_progress := Some q\<rparr>"
      using p(3) False evicted sf by (auto simp: c'_def MarkArticleFailed_def markArticleFailed_def q_def)
    have bits: "jp_done q = (if doneAt p (nat a) then jp_done p else bs_Set (int (nat a)) (jp_done p))"
      "jp_emitted q = (if doneAt p (nat a) then jp_emitted p else bs_Clear (int (nat a)) (jp_emitted p))"
      using sf by (auto simp: q_def setFailedBits_def limitCharge_def split: if_splits)
    have "settles_bits m c c'" unfolding c'
      by (rule settles_put_evicted[OF assms(1) evicted _ p(3)]) (use ok c' bits s(1,3) False in \<open>auto simp: bit_reads split: if_splits\<close>)
    moreover have "nat a \<in> doneSet c'" using False s(1) by (auto simp: c' doneSet_def bits bit_reads)
    ultimately show ?thesis by blast
  qed
qed

text \<open>A write is refused when the manifest is gone: the article is then not marked done.\<close>

lemma written_bits:
  assumes "held m c" and c'_def: "c' = fst (MarkArticleWritten row c)"
  shows "settles_bits m c c'"
    "ct_manifest c \<noteq> None \<Longrightarrow> ArticleInFile m (wr_FileIdx row) (wr_ArtIdx row) \<Longrightarrow> HasValidShape row \<Longrightarrow> nat (wr_ArtIdx row) \<in> doneSet c'"
  using assms(1)
proof (atomize (full), cases rule: held_cases)
  case resident
  then show "settles_bits m c c' \<and> (ct_manifest c \<noteq> None \<longrightarrow> ArticleInFile m (wr_FileIdx row) (wr_ArtIdx row) \<longrightarrow> HasValidShape row
      \<longrightarrow> nat (wr_ArtIdx row) \<in> doneSet c')"
    using written_bits_resident[OF resident c'_def] by blast
next
  case evicted
  then have "c' = c" by (simp add: c'_def MarkArticleWritten_def)
  then show "settles_bits m c c' \<and> (ct_manifest c \<noteq> None \<longrightarrow> ArticleInFile m (wr_FileIdx row) (wr_ArtIdx row) \<longrightarrow> HasValidShape row
      \<longrightarrow> nat (wr_ArtIdx row) \<in> doneSet c')"
    using evicted settles_refl[OF assms(1)] by simp
qed

lemma untrust_bits:
  assumes "held m c" and c'_def: "c' = fst (UntrustFile fi c)"
  shows "held m c'" "emittedSet c' = emittedSet c" "i \<in> doneSet c \<Longrightarrow> \<not> ArticleInFile m fi (int i) \<Longrightarrow> i \<in> doneSet c'"
  using assms(1)
proof (atomize (full), cases rule: held_cases)
  case resident
  then show "held m c' \<and> emittedSet c' = emittedSet c \<and> (i \<in> doneSet c \<longrightarrow> \<not> ArticleInFile m fi (int i) \<longrightarrow> i \<in> doneSet c')"
    using untrust_bits_resident[OF resident c'_def] resident_held by blast
next
  case evicted
  then have "c' = c" by (simp add: c'_def UntrustFile_def)
  then show "held m c' \<and> emittedSet c' = emittedSet c \<and> (i \<in> doneSet c \<longrightarrow> \<not> ArticleInFile m fi (int i) \<longrightarrow> i \<in> doneSet c')"
    using assms(1) by simp
qed

text \<open>Doors that leave the bits alone; eviction is one of them, and so is the hydration of a job verified before.\<close>

lemma settles_same:
  assumes "held m c" "content_ok c'" "ct_manifest c' = ct_manifest c \<or> ct_manifest c' = None \<or> ct_manifest c' = Some m" "ct_fileTable c' = ct_fileTable c"
    "c' = c \<or> (\<exists>p q. ct_progress c = Some p \<and> ct_progress c' = Some q \<and> jp_done q = jp_done p \<and> jp_emitted q = jp_emitted p)"
  shows "settles_bits m c c'"
  using assms by (auto simp: settles_bits_def held_def emittedSet_def doneSet_def)

lemma quiet_doors:
  assumes "held m c"
  shows "settles_bits m c (fst (RecordFileFilename jn fi n f c))" "settles_bits m c (fst (MarkJobStarted t c))"
    "settles_bits m c (fst (RecordDownload s k c))" "settles_bits m c (fst (CheckEarlyAbort c))"
    "settles_bits m c (Evict c)" "settles_bits m c (fst (AttachArticles (Some m) [] c))"
proof -
  obtain p where p: "content_ok c" "mf_ok m" "ct_fileTable c = Some (mf_ft m)" "ct_progress c = Some p" using assms by (rule heldE)
  show "settles_bits m c (fst (RecordFileFilename jn fi n f c))"
    by (rule settles_same[OF assms content_ok_RecordFileFilename[OF p(1)]]) (auto simp: RecordFileFilename_def p(4) updFile_def)
  show "settles_bits m c (fst (MarkJobStarted t c))"
    by (rule settles_same[OF assms content_ok_stamps(1)[OF p(1)]]) (auto simp: MarkJobStarted_def onProgress_def setDownloadStartedOnce_def p(4))
  show "settles_bits m c (fst (RecordDownload s k c))"
    by (rule settles_same[OF assms content_ok_stamps(4)[OF p(1)]]) (auto simp: RecordDownload_def onProgress_def p(4))
  show "settles_bits m c (fst (CheckEarlyAbort c))"
    by (rule settles_same[OF assms content_ok_CheckEarlyAbort[OF p(1)]])
      (auto simp: CheckEarlyAbort_def Let_def isEarlyAbort_def p(4) split: prod.splits)
  show "settles_bits m c (Evict c)"
    by (rule settles_same[OF assms content_ok_manifest_None[OF p(1), folded Evict_def]]) (auto simp: Evict_def p(4))
  show "settles_bits m c (fst (AttachArticles (Some m) [] c))"
    by (rule settles_same[OF assms AttachArticles_ok(1)[OF p(1) p(2)]])
      (auto simp: AttachArticles_def p(3,4) recompute_def Let_def split: option.splits if_splits)
qed

end
