(* ===== verification/Line_Safety.thy ===== *)
theory Line_Safety
  imports Line_Content
begin

text \<open>
  What the downloader, the pipeline and the application's callbacks do to the emitted and done articles of one
  tracked job: an article they take up is queued for the next part, resolved or handed back.
\<close>

section \<open>The downloader's part\<close>

text \<open>
  The results it adds name articles of the tracked job's files, and an article it newly marks emitted has one
  of them.
\<close>

definition result_ok :: "pipeWorld \<Rightarrow> Manifest \<Rightarrow> inst \<Rightarrow> ArticleResult \<Rightarrow> bool" where
  "result_ok w m j res \<longleftrightarrow> (ars_inst res = j \<longrightarrow> ArticleInFile m (int (ars_fileIdx res)) (int (ars_artIdx res)) \<and> ars_jobID res = pw_ident w j)"

definition request_ok :: "pipeWorld \<Rightarrow> Manifest \<Rightarrow> inst \<Rightarrow> articleRequest \<Rightarrow> bool" where
  "request_ok w m j req \<longleftrightarrow> (rq_inst req = j \<longrightarrow> ArticleInFile m (int (rq_fileIdx req)) (int (rq_artIdx req)) \<and> rq_jobID req = pw_ident w j)"

definition arts_of :: "inst \<Rightarrow> ArticleResult list \<Rightarrow> nat set" where
  "arts_of j rs = ars_artIdx ` {r \<in> set rs. ars_inst r = j}"

lemma arts_of_append [simp]: "arts_of j (as @ bs) = arts_of j as \<union> arts_of j bs"
  by (auto simp: arts_of_def)

definition dl_ok :: "pipeWorld \<Rightarrow> Manifest \<Rightarrow> inst \<Rightarrow> Downloader \<Rightarrow> Downloader \<Rightarrow> bool" where
  "dl_ok w m j d d' \<longleftrightarrow> (held m (dn_content d j) \<longrightarrow>
     (\<exists>new. dn_completions d' = dn_completions d @ new \<and> (\<forall>r\<in>set new. result_ok w m j r) \<and>
        held m (dn_content d' j) \<and> doneSet (dn_content d' j) = doneSet (dn_content d j) \<and>
        emittedSet (dn_content d' j) \<subseteq> emittedSet (dn_content d j) \<union> arts_of j new))"

lemma dl_ok_trans: "dl_ok w m j a b \<Longrightarrow> dl_ok w m j b c \<Longrightarrow> dl_ok w m j a c"
  unfolding dl_ok_def
proof
  assume ab: "held m (dn_content a j) \<longrightarrow> (\<exists>new. dn_completions b = dn_completions a @ new \<and> (\<forall>r\<in>set new. result_ok w m j r) \<and>
        held m (dn_content b j) \<and> doneSet (dn_content b j) = doneSet (dn_content a j) \<and>
        emittedSet (dn_content b j) \<subseteq> emittedSet (dn_content a j) \<union> arts_of j new)"
    and bc: "held m (dn_content b j) \<longrightarrow> (\<exists>new. dn_completions c = dn_completions b @ new \<and> (\<forall>r\<in>set new. result_ok w m j r) \<and>
        held m (dn_content c j) \<and> doneSet (dn_content c j) = doneSet (dn_content b j) \<and>
        emittedSet (dn_content c j) \<subseteq> emittedSet (dn_content b j) \<union> arts_of j new)"
    and r: "held m (dn_content a j)"
  obtain n1 where n1: "dn_completions b = dn_completions a @ n1" "\<forall>r\<in>set n1. result_ok w m j r"
    "held m (dn_content b j)" "doneSet (dn_content b j) = doneSet (dn_content a j)"
    "emittedSet (dn_content b j) \<subseteq> emittedSet (dn_content a j) \<union> arts_of j n1" using ab r by auto
  obtain n2 where n2: "dn_completions c = dn_completions b @ n2" "\<forall>r\<in>set n2. result_ok w m j r"
    "held m (dn_content c j)" "doneSet (dn_content c j) = doneSet (dn_content b j)"
    "emittedSet (dn_content c j) \<subseteq> emittedSet (dn_content b j) \<union> arts_of j n2" using bc n1(3) by auto
  show "\<exists>new. dn_completions c = dn_completions a @ new \<and> (\<forall>r\<in>set new. result_ok w m j r) \<and>
        held m (dn_content c j) \<and> doneSet (dn_content c j) = doneSet (dn_content a j) \<and>
        emittedSet (dn_content c j) \<subseteq> emittedSet (dn_content a j) \<union> arts_of j new"
    by (rule exI[of _ "n1 @ n2"]) (use n1 n2 in auto)
qed

lemma dl_ok_same: "dn_content d' = dn_content d \<Longrightarrow> dn_completions d' = dn_completions d \<Longrightarrow> dl_ok w m j d d'"
  by (auto simp: dl_ok_def)

lemma quiet_dl [simp]:
  "dn_content (onTracker f d) = dn_content d" "dn_completions (onTracker f d) = dn_completions d"
  "dn_content (onServer i g d) = dn_content d" "dn_completions (onServer i g d) = dn_completions d"
  "dn_content (unmarkTried req k d) = dn_content d" "dn_completions (unmarkTried req k d) = dn_completions d"
  "dn_content (clearTried req d) = dn_content d" "dn_completions (clearTried req d) = dn_completions d"
  "dn_content (chargePenalty now i pen d) = dn_content d" "dn_completions (chargePenalty now i pen d) = dn_completions d"
  by (simp_all add: onTracker_def onServer_def unmarkTried_def clearTried_def chargePenalty_def Let_def)

lemma quiet_charge [simp]:
  "dn_content (chargeFetchFailure now i err d) = dn_content d" "dn_completions (chargeFetchFailure now i err d) = dn_completions d"
  by (simp_all add: chargeFetchFailure_def split: prod.splits bool.splits)

lemma dl_clear: "dl_ok w m j d (clearEmittedReq req d)"
proof -
  have "settles_bits m (dn_content d j) (fst (ClearArticleEmitted (int (rq_artIdx req)) (dn_content d j)))" if "held m (dn_content d j)"
    by (rule clear_bits(1)[OF that HOL.refl])
  moreover have "doneSet (fst (ClearArticleEmitted (int (rq_artIdx req)) c)) = doneSet c" if "held m c" for c
    by (rule clear_bits(3)[OF that HOL.refl])
  ultimately show ?thesis by (auto simp: dl_ok_def clearEmittedReq_def settles_bits_def)
qed

lemma dl_emit:
  assumes "request_ok w m j req"
  shows "dl_ok w m j d (emitResult sent req s p e d)"
    "dl_ok w m j d (emitResult sent req s p e (clearTried req (markEmittedReq req d)))"
proof -
  have res: "result_ok w m j (resultFor req s p e)" using assms by (simp add: result_ok_def request_ok_def resultFor_def)
  show "dl_ok w m j d (emitResult sent req s p e d)"
  proof (cases sent)
    case True
    then show ?thesis using res by (auto simp: dl_ok_def emitResult_def)
  qed (simp add: emitResult_def dl_clear)
  let ?d = "clearTried req (markEmittedReq req d)"
  have mark: "dn_content ?d j = (if rq_inst req = j then fst (MarkArticleEmitted (int (rq_artIdx req)) (dn_content d j)) else dn_content d j)"
    "dn_completions ?d = dn_completions d" by (simp_all add: markEmittedReq_def)
  note eb = emit_bits[of m "dn_content d j" "int (rq_artIdx req)"]
  show "dl_ok w m j d (emitResult sent req s p e ?d)"
  proof (cases sent)
    case True
    have "dn_completions (emitResult sent req s p e ?d) = dn_completions d @ [resultFor req s p e]" "dn_content (emitResult sent req s p e ?d) = dn_content ?d"
      using True mark(2) by (simp_all add: emitResult_def)
    then show ?thesis using res eb mark(1) unfolding dl_ok_def
      by (intro impI exI[of _ "[resultFor req s p e]"]) (auto simp: resultFor_def arts_of_def)
  next
    case False
    show ?thesis
    proof (cases "rq_inst req = j")
      case True
      let ?c = "dn_content d j" and ?a = "int (rq_artIdx req)"
      let ?c1 = "fst (MarkArticleEmitted ?a ?c)"
      let ?c2 = "fst (ClearArticleEmitted ?a ?c1)"
      have c2: "dn_content (emitResult sent req s p e ?d) j = ?c2" "dn_completions (emitResult sent req s p e ?d) = dn_completions d"
        using False True mark by (simp_all add: emitResult_def clearEmittedReq_def)
      have "held m ?c2 \<and> doneSet ?c2 = doneSet ?c \<and> emittedSet ?c2 \<subseteq> emittedSet ?c" if r: "held m ?c"
      proof -
        note e = eb[OF r, simplified]
        note cb = clear_bits[OF e(1) HOL.refl, of ?a]
        show ?thesis using e cb unfolding settles_bits_def by auto
      qed
      then show ?thesis using c2 by (auto simp: dl_ok_def)
    next
      case other: False
      have "dn_content (emitResult sent req s p e ?d) j = dn_content d j" "dn_completions (emitResult sent req s p e ?d) = dn_completions d"
        using False other mark by (simp_all add: emitResult_def clearEmittedReq_def)
      then show ?thesis by (auto simp: dl_ok_def)
    qed
  qed
qed

lemma dl_fetch:
  assumes "request_ok w m j req"
  shows "dl_ok w m j d (fst (fetchArticle env i req d))"
proof -
  have c: "dl_ok w m j d (clearEmittedReq req (unmarkTried req i d))"
    by (rule dl_ok_trans[OF dl_ok_same dl_clear]) simp_all
  have e: "dl_ok w m j d (emitResult sent req s p er (onServer i g d))" for sent s p er g
    by (rule dl_ok_trans[OF dl_ok_same dl_emit(1)[OF assms]]) simp_all
  show ?thesis
    by (auto simp: fetchArticle_def Let_def intro: c e dl_ok_same split: option.splits sum.splits)
qed

lemma dl_process:
  assumes "request_ok w m j req"
  shows "dl_ok w m j d (processFetchedArticle env i req body d)"
proof -
  have e: "dl_ok w m j d (emitResult sent req s p er (onServer i g d))" for sent s p er g
    by (rule dl_ok_trans[OF dl_ok_same dl_emit(1)[OF assms]]) simp_all
  show ?thesis unfolding processFetchedArticle_def Let_def
    by (simp add: e dl_emit(2)[OF assms] split: sum.splits)
qed

lemma dl_handle: "request_ok w m j req \<Longrightarrow> dl_ok w m j d (handleRequest env i req d)"
  unfolding handleRequest_def
  using dl_fetch[of w m j req d env i] dl_process[of w m j req _ env i] dl_ok_trans
  by (auto simp: dl_ok_same split: prod.splits option.splits) 

lemma dl_exhausted: "\<forall>r\<in>set reqs. request_ok w m j r \<Longrightarrow> dl_ok w m j d (applyExhausted sent reqs d)"
proof (induction reqs arbitrary: d)
  case (Cons r reqs)
  have "applyExhausted sent (r # reqs) d = applyExhausted sent reqs
      (emitResult (sent r) r [] None (Some ErrNoServersLeft) (clearTried r (markEmittedReq r d)))" by (simp add: applyExhausted_def)
  then show ?case using Cons dl_ok_trans[OF dl_emit(2)] by (metis list.set_intros)
qed (simp add: applyExhausted_def dl_ok_same)

text \<open>The articles a pass gives up.\<close>

definition passGivesUp :: "PassEnv \<Rightarrow> dispatchOpts \<Rightarrow> Row list \<Rightarrow> Downloader \<Rightarrow> articleRequest list" where
  "passGivesUp env opts rows d =
     pl_exhausted (snd (buildDispatchPlan env (opts\<lparr>do_serverCfgs := map srv_cfg (fl_servers (dn_fleet d))\<rparr>) rows (dn_fleet d)))"

lemma dl_pass:
  assumes "\<forall>r\<in>set (passGivesUp env opts rows d). request_ok w m j r"
  shows "dl_ok w m j d (fst (dispatchPass sent paused connected env opts rows d))"
proof -
  have "dl_ok w m j d (applyExhausted sent (passGivesUp env opts rows d) (d\<lparr>dn_fleet := fleet\<rparr>))" for fleet
    by (rule dl_ok_trans[OF dl_ok_same dl_exhausted[OF assms]]) simp_all
  then show ?thesis
    by (auto simp: dispatchPass_def applyDispatchPlan_def Let_def passGivesUp_def dl_ok_same split: prod.splits)
qed

section \<open>The pipeline's part\<close>

lemma setContent_simps [simp]:
  "contentOf k (setContent j c L) = (if k = j then c else contentOf k L)" "ln_wk (setContent j c L) = ln_wk L"
  "ln_queue (setContent j c L) = ln_queue L" "dn_completions (ln_dl (setContent j c L)) = dn_completions (ln_dl L)"
  "contentOf k (L\<lparr>ln_pipe := p\<rparr>) = contentOf k L" "contentOf k (L\<lparr>ln_rec := r\<rparr>) = contentOf k L" "contentOf k (L\<lparr>ln_store := s\<rparr>) = contentOf k L"
  "contentOf k (L\<lparr>ln_queue := q\<rparr>) = contentOf k L" "contentOf k (L\<lparr>ln_wk := wk\<rparr>) = contentOf k L"
  "contentOf k (L\<lparr>ln_hopeless := h\<rparr>) = contentOf k L" "contentOf k (L\<lparr>ln_released := n\<rparr>) = contentOf k L"
  by (simp_all add: setContent_def contentOf_def)

lemma releaseResult_simps [simp]:
  "contentOf k (releaseResult L) = contentOf k L" "ln_wk (releaseResult L) = ln_wk L" "ln_queue (releaseResult L) = ln_queue L"
  "dn_completions (ln_dl (releaseResult L)) = dn_completions (ln_dl L)"
  by (simp_all add: releaseResult_def)

text \<open>What a handler may change besides the content of its job.\<close>

definition same_line :: "inst \<Rightarrow> Line \<Rightarrow> Line \<Rightarrow> bool" where
  "same_line j L L' \<longleftrightarrow> ln_wk L' = ln_wk L \<and> ln_queue L' = ln_queue L \<and> dn_completions (ln_dl L') = dn_completions (ln_dl L) \<and>
     (\<forall>k. k \<noteq> j \<longrightarrow> contentOf k L' = contentOf k L)"

lemma same_line_trans: "same_line j A B \<Longrightarrow> same_line j B C \<Longrightarrow> same_line j A C"
  by (simp add: same_line_def)

lemma registerFileAttempt_content:
  assumes "registerFileAttempt w ae j m' fi (p, c, r) = ((p', c', r'), e)" "held m c"
  shows "settles_bits m c c'" "ae_held ae \<Longrightarrow> e \<noteq> Some RegJobClosed"
proof -
  have "c' = c \<or> (\<exists>jn n f. c' = fst (RecordFileFilename jn fi n f c))"
    using assms(1) by (auto simp: registerFileAttempt_def Let_def split: if_splits option.splits sum.splits prod.splits) (metis fst_conv)+
  then show "settles_bits m c c'" using quiet_doors(1)[OF assms(2)] settles_refl[OF assms(2)] by auto
  show "ae_held ae \<Longrightarrow> e \<noteq> Some RegJobClosed"
    using assms(1) by (auto simp: registerFileAttempt_def Let_def split: if_splits option.splits sum.splits prod.splits)
qed

lemma registerLoop_content:
  assumes "registerLoop w ae j m' fi k n (p, c, r) = ((p', c', r'), e)" "held m c"
  shows "settles_bits m c c' \<and> ((\<forall>i. ae_held (ae i)) \<longrightarrow> e \<noteq> Some RegJobClosed)"
  using assms
proof (induction n arbitrary: k p c r)
  case 0
  then show ?case by (auto simp: settles_refl)
next
  case (Suc n)
  obtain p1 c1 r1 e1 where a: "registerFileAttempt w (ae k) j m' fi (p, c, r) = ((p1, c1, r1), e1)" by (metis prod.collapse)
  note s = registerFileAttempt_content[OF a Suc.prems(2)]
  show ?case
  proof (cases "e1 = Some RegNameChanged \<and> n \<noteq> 0")
    case True
    then have "registerLoop w ae j m' fi (Suc k) n (p1, c1, r1) = ((p', c', r'), e)" using Suc.prems(1) a by simp
    moreover have "held m c1" using s(1) by (simp add: settles_bits_def)
    ultimately have "settles_bits m c1 c' \<and> ((\<forall>i. ae_held (ae i)) \<longrightarrow> e \<noteq> Some RegJobClosed)" by (rule Suc.IH)
    then show ?thesis using settles_trans[OF s(1)] by blast
  next
    case False
    then have "((p1, c1, r1), e1) = ((p', c', r'), e)" using Suc.prems(1) a by (auto split: option.splits regError.splits if_splits)
    then show ?thesis using s by auto
  qed
qed

lemma registerFile_content:
  assumes "registerFile w ae j fi (p, c, r) = ((p', c', r'), e)" "held m c"
  shows "settles_bits m c c'" "\<forall>i. ae_held (ae i) \<Longrightarrow> e \<noteq> Some RegJobClosed"
proof -
  have "(c' = c \<and> e \<noteq> Some RegJobClosed) \<or> (\<exists>m'. registerLoop w ae j m' fi 1 registerNameAttempts (p, c, r) = ((p', c', r'), e))"
    using assms(1) by (auto simp: registerFile_def split: if_splits option.splits)
  then show "settles_bits m c c'" "\<forall>i. ae_held (ae i) \<Longrightarrow> e \<noteq> Some RegJobClosed"
    using registerLoop_content[OF _ assms(2)] settles_refl[OF assms(2)] by blast+
qed

lemma pipe_clear:
  assumes "ars_inst res = j"
  shows "same_line j L (pipe_clearEmitted res L)"
    "contentOf j (pipe_clearEmitted res L) = fst (ClearArticleEmitted (int (ars_artIdx res)) (contentOf j L))"
  using assms by (simp_all add: same_line_def pipe_clearEmitted_def)

lemma registerForResult_line:
  assumes "registerForResult w env res L = (L1, ok)" "ars_inst res = j"
  shows "same_line j L L1"
    "held m (contentOf j L) \<Longrightarrow> settles_bits m (contentOf j L) (contentOf j L1)"
    "held m (contentOf j L) \<Longrightarrow> \<forall>i. ae_held (he_attempt env i) \<Longrightarrow> \<not> ok \<Longrightarrow> ars_artIdx res \<notin> emittedSet (contentOf j L1)"
proof -
  obtain p c r e where reg: "registerFile w (he_attempt env) j (int (ars_fileIdx res)) (ln_pipe L, contentOf j L, ln_rec L) = ((p, c, r), e)"
    by (metis prod.collapse)
  define L0 where "L0 = setContent j c (L\<lparr>ln_pipe := p, ln_rec := r\<rparr>)"
  have L1: "L1 = (if e = None \<or> e = Some RegJobClosed then L0 else pipe_clearEmitted res L0)" "ok \<longleftrightarrow> e = None"
    using assms reg by (auto simp: registerForResult_def Let_def L0_def split: option.splits regError.splits)
  have s0: "same_line j L L0" "contentOf j L0 = c" by (simp_all add: L0_def same_line_def)
  note pc = pipe_clear[OF assms(2), of L0]
  show "same_line j L L1" using s0(1) same_line_trans[OF s0(1) pc(1)] by (simp add: L1(1))
  assume r: "held m (contentOf j L)"
  note rc = registerFile_content[OF reg r]
  have rc': "held m c" using rc(1) by (simp add: settles_bits_def)
  note cb = clear_bits[OF rc' HOL.refl, of "int (ars_artIdx res)"]
  show "settles_bits m (contentOf j L) (contentOf j L1)"
    using rc(1) settles_trans[OF rc(1) cb(1)] s0(2) pc(2) by (simp add: L1(1))
  show "\<forall>i. ae_held (he_attempt env i) \<Longrightarrow> \<not> ok \<Longrightarrow> ars_artIdx res \<notin> emittedSet (contentOf j L1)"
    using rc(2) cb(2) s0(2) pc(2) by (auto simp: L1)
qed

text \<open>The result of an article of the tracked job: resolved, handed back or queued.\<close>

definition calm_env :: "handleEnv \<Rightarrow> bool" where
  "calm_env env \<longleftrightarrow> he_current env \<and> he_write env \<noteq> WaCancelled \<and> (\<forall>i. ae_held (he_attempt env i))"

definition line_ext :: "inst \<Rightarrow> ArticleResult \<Rightarrow> Line \<Rightarrow> Line \<Rightarrow> bool" where
  "line_ext j res L L' \<longleftrightarrow> ln_wk L' = ln_wk L \<and> dn_completions (ln_dl L') = dn_completions (ln_dl L) \<and>
     (\<forall>k. k \<noteq> j \<longrightarrow> contentOf k L' = contentOf k L) \<and>
     (\<exists>new. ln_queue L' = ln_queue L @ new \<and> set new \<subseteq> {writeRequestFor res True, writeRequestFor res False})"

lemma line_extI: "same_line j L L' \<Longrightarrow> line_ext j res L L'"
  by (auto simp: same_line_def line_ext_def)

lemma line_ext_pre: "same_line j A B \<Longrightarrow> line_ext j res B C \<Longrightarrow> line_ext j res A C"
  by (auto simp: same_line_def line_ext_def)

lemma line_ext_post: "line_ext j res A B \<Longrightarrow> same_line j B C \<Longrightarrow> line_ext j res A C"
  by (auto simp: same_line_def line_ext_def)

lemma WriteArticle_line:
  "line_ext j res L (WriteArticle out (writeRequestFor res fatal) L)" "contentOf k (WriteArticle out q L) = contentOf k L"
  by (cases fatal; auto simp: line_ext_def WriteArticle_def)+

lemma same_steps:
  "ars_inst res = j \<Longrightarrow> same_line j L (setContent j c L)" "same_line j L (releaseResult L)"
  "ars_inst res = j \<Longrightarrow> same_line j L (reportEarlyAbort res L)" "ars_inst res = j \<Longrightarrow> same_line j L (noteDownload now res L)"
  by (auto simp: same_line_def reportEarlyAbort_def noteDownload_def Let_def split: prod.splits)

lemma report_bits: "held m (contentOf j L) \<Longrightarrow> ars_inst res = j \<Longrightarrow> settles_bits m (contentOf j L) (contentOf j (reportEarlyAbort res L))"
  using quiet_doors(4)[of m "contentOf j L"] by (auto simp: reportEarlyAbort_def Let_def split: prod.splits)

lemma note_bits: "held m (contentOf j L) \<Longrightarrow> ars_inst res = j \<Longrightarrow> settles_bits m (contentOf j L) (contentOf j (noteDownload now res L))"
proof -
  assume r: "held m (contentOf j L)" and j: "ars_inst res = j"
  let ?c1 = "fst (MarkJobStarted now (contentOf j L))"
  have s1: "settles_bits m (contentOf j L) ?c1" by (rule quiet_doors(2)[OF r])
  then have "held m ?c1" by (simp add: settles_bits_def)
  from settles_trans[OF s1 quiet_doors(3)[OF this]] j show ?thesis by (simp add: noteDownload_def Let_def)
qed

lemma handleSuccess_line:
  assumes j: "ars_inst res = j" and L': "L' = handleSuccessResult w env res L"
  shows "line_ext j res L L'"
    "held m (contentOf j L) \<Longrightarrow> settles_bits m (contentOf j L) (contentOf j L') \<and>
      (calm_env env \<longrightarrow> ars_artIdx res \<in> emittedSet (contentOf j L') \<longrightarrow> writeRequestFor res False \<in> set (ln_queue L'))"
proof -
  define L0 where "L0 = noteDownload (he_now env) res L"
  obtain L1 ok where reg: "registerForResult w env res L0 = (L1, ok)" by force
  define L2 where "L2 = WriteArticle (he_write env) (writeRequestFor res False) L1"
  have e: "L' = (if \<not> ok then releaseResult L1 else case he_write env of WaQueued \<Rightarrow> L2 | WaCancelled \<Rightarrow> releaseResult L2
      | WaFailed \<Rightarrow> releaseResult (pipe_clearEmitted res L2))"
    using reg unfolding L2_def by (auto simp: L' handleSuccessResult_def L0_def Let_def split: bool.splits)
  note s0 = same_steps(4)[OF j, of L "he_now env", folded L0_def]
  note r1 = registerForResult_line[OF reg j]
  have l2: "line_ext j res L1 L2" "contentOf j L2 = contentOf j L1" by (simp_all add: L2_def WriteArticle_line)
  have pc: "same_line j L2 (pipe_clearEmitted res L2)" by (rule pipe_clear(1)[OF j])
  have l1': "line_ext j res L1 L'"
    using l2(1) line_ext_post[OF l2(1)] same_steps(2) pc same_line_trans by (auto simp: e line_extI split: writeOutcome.split)
  show "line_ext j res L L'" by (rule line_ext_pre[OF same_line_trans[OF s0 r1(1)] l1'])
  assume r: "held m (contentOf j L)"
  note n = note_bits[OF r j, of "he_now env", folded L0_def]
  have rr: "held m (contentOf j L0)" using n by (simp add: settles_bits_def)
  note b1 = settles_trans[OF n r1(2)[OF rr]]
  have r2: "held m (contentOf j L2)" using b1 by (simp add: settles_bits_def l2(2))
  note cb = clear_bits[OF r2 HOL.refl, of "int (ars_artIdx res)"]
  have "settles_bits m (contentOf j L) (contentOf j L')"
    using b1 settles_trans[OF b1] cb(1) l2(2) pipe_clear(2)[OF j, of L2] by (auto simp: e split: writeOutcome.split)
  moreover have "writeRequestFor res False \<in> set (ln_queue L')" if "calm_env env" "ars_artIdx res \<in> emittedSet (contentOf j L')"
    using that r1(3)[OF rr] cb(2) pipe_clear(2)[OF j, of L2]
    by (auto simp: e calm_env_def L2_def WriteArticle_def split: if_splits writeOutcome.splits)
  ultimately show "settles_bits m (contentOf j L) (contentOf j L') \<and>
      (calm_env env \<longrightarrow> ars_artIdx res \<in> emittedSet (contentOf j L') \<longrightarrow> writeRequestFor res False \<in> set (ln_queue L'))" by blast
qed

lemma handleFailure_line:
  assumes j: "ars_inst res = j" and L': "L' = handleFailureResult w env res err L"
  shows "line_ext j res L L'"
    "held m (contentOf j L) \<Longrightarrow> settles_bits m (contentOf j L) (contentOf j L') \<and>
      (calm_env env \<longrightarrow> ArticleInFile m (int (ars_fileIdx res)) (int (ars_artIdx res)) \<longrightarrow> ars_artIdx res \<notin> emittedSet (contentOf j L'))"
proof -
  define L0 where "L0 = releaseResult L"
  have s0: "same_line j L L0" "contentOf j L0 = contentOf j L" by (simp_all add: L0_def same_steps)
  have "line_ext j res L0 L' \<and> (held m (contentOf j L0) \<longrightarrow> settles_bits m (contentOf j L0) (contentOf j L') \<and>
      (calm_env env \<longrightarrow> ArticleInFile m (int (ars_fileIdx res)) (int (ars_artIdx res)) \<longrightarrow> ars_artIdx res \<notin> emittedSet (contentOf j L')))"
  proof (cases "err = ErrNoServersLeft \<or> \<not> isRetryableDownloaderError err")
    case False
    then have e: "L' = pipe_clearEmitted res L0" by (auto simp: L' handleFailureResult_def L0_def Let_def)
    show ?thesis using pipe_clear[OF j, of L0] clear_bits[OF _ HOL.refl, of m "contentOf j L0" "int (ars_artIdx res)"]
      by (auto simp: e line_extI)
  next
    case True
    obtain L1 ok where reg: "registerForResult w env res L0 = (L1, ok)" by force
    note r1 = registerForResult_line[OF reg j]
    show ?thesis
    proof (cases ok)
      case False
      then have e: "L' = L1" using True reg by (auto simp: L' handleFailureResult_def L0_def Let_def)
      show ?thesis using r1 False by (auto simp: e line_extI calm_env_def)
    next
      case ok: True
      define c where "c = fst (MarkArticleFailed (int (ars_artIdx res)) WholeArticle (contentOf j L1))"
      define L2 where "L2 = WriteArticle (he_write env) (writeRequestFor res True) (setContent j c L1)"
      define L3 where "L3 = (if he_write env = WaFailed then pipe_clearEmitted res L2 else L2)"
      have e: "L' = reportEarlyAbort res L3"
        using True reg ok j by (auto simp: L' handleFailureResult_def L0_def Let_def c_def L2_def L3_def)
      have l2: "line_ext j res L1 L2" "contentOf j L2 = c"
        unfolding L2_def using line_ext_pre[OF same_steps(1)[OF j] WriteArticle_line(1)] by (simp_all add: WriteArticle_line(2))
      have l3: "line_ext j res L1 L3" using l2(1) line_ext_post[OF l2(1) pipe_clear(1)[OF j]] by (simp add: L3_def)
      have "line_ext j res L0 L'"
        unfolding e by (rule line_ext_pre[OF r1(1) line_ext_post[OF l3 same_steps(3)[OF j]]])
      moreover have "settles_bits m (contentOf j L0) (contentOf j L')"
        "ArticleInFile m (int (ars_fileIdx res)) (int (ars_artIdx res)) \<Longrightarrow> ars_artIdx res \<notin> emittedSet (contentOf j L')"
        if r: "held m (contentOf j L0)"
      proof -
        note b1 = r1(2)[OF r]
        have r1': "held m (contentOf j L1)" using b1 by (simp add: settles_bits_def)
        note fb = fail_bits[OF r1' c_def]
        have rc: "held m c" using fb(1) by (simp add: settles_bits_def)
        have b3: "settles_bits m c (contentOf j L3)"
          using clear_bits(1)[OF rc HOL.refl] settles_refl[OF rc] l2(2) pipe_clear(2)[OF j, of L2] by (simp add: L3_def)
        have r3: "held m (contentOf j L3)" using b3 by (simp add: settles_bits_def)
        have b4: "settles_bits m c (contentOf j L')" using settles_trans[OF b3 report_bits[OF r3 j]] by (simp add: e)
        show "settles_bits m (contentOf j L0) (contentOf j L')" by (rule settles_trans[OF settles_trans[OF b1 fb(1)] b4])
        assume a: "ArticleInFile m (int (ars_fileIdx res)) (int (ars_artIdx res))"
        from inFile_index(2)[OF held_mf[OF r] a] have "ars_artIdx res \<in> doneSet c" using fb(2) by simp
        then have "ars_artIdx res \<in> doneSet (contentOf j L')" using b4 by (auto simp: settles_bits_def)
        moreover have "held m (contentOf j L')" using b4 by (simp add: settles_bits_def)
        ultimately show "ars_artIdx res \<notin> emittedSet (contentOf j L')" using emitted_not_done by blast
      qed
      ultimately show ?thesis by blast
    qed
  qed
  then show "line_ext j res L L'" "held m (contentOf j L) \<Longrightarrow> settles_bits m (contentOf j L) (contentOf j L') \<and>
      (calm_env env \<longrightarrow> ArticleInFile m (int (ars_fileIdx res)) (int (ars_artIdx res)) \<longrightarrow> ars_artIdx res \<notin> emittedSet (contentOf j L'))"
    using line_ext_pre[OF s0(1)] s0(2) by auto
qed

lemma handleResult_line:
  assumes j: "ars_inst res = j" and L': "L' = handleResult w env res L"
  shows "line_ext j res L L'"
    "held m (contentOf j L) \<Longrightarrow> calm_env env \<Longrightarrow> ArticleInFile m (int (ars_fileIdx res)) (int (ars_artIdx res)) \<Longrightarrow>
      settles_bits m (contentOf j L) (contentOf j L') \<and>
      (ars_artIdx res \<in> emittedSet (contentOf j L') \<longrightarrow> writeRequestFor res False \<in> set (ln_queue L'))"
  using handleFailure_line[OF j HOL.refl] handleSuccess_line[OF j HOL.refl] same_steps(2)[of j L]
  by (auto simp: L' handleResult_def line_extI calm_env_def split: option.splits)

section \<open>The assembler's part\<close>

text \<open>What a report does to the content of an instance.\<close>

fun evContent :: "(inst \<Rightarrow> int \<Rightarrow> untrustEnv) \<Rightarrow> inst \<Rightarrow> AsmEvent \<Rightarrow> Content \<Rightarrow> Content" where
  "evContent ue j (OnArticleWritten k fi a off n crc) c =
     (if k = j then fst (MarkArticleWritten \<lparr>wr_FileIdx = fi, wr_ArtIdx = a, wr_Offset = off, wr_Length = n, wr_CRC32 = crc\<rparr> c) else c)"
| "evContent ue j (OnArticleRejected k fi a reason uncovered) c =
     (if k = j then fst (MarkArticleFailed a (if uncovered = asmWholeArticle then WholeArticle else uncovered) c) else c)"
| "evContent ue j (OnArticlesUnwritten k fi as) c = (if k = j then foldl (\<lambda>c a. fst (ClearArticleEmitted a c)) c as else c)"
| "evContent ue j (OnFileUntrusted k fi) c = (if k = j \<and> ue_registered (ue j fi) then fst (UntrustFile fi c) else c)"
| "evContent ue j _ c = c"

lemma unwritten_line:
  "contentOf k (handleArticlesUnwritten j as L) = (if k = j then foldl (\<lambda>c a. fst (ClearArticleEmitted a c)) (contentOf k L) as else contentOf k L)"
  "ln_wk (handleArticlesUnwritten j as L) = ln_wk L" "ln_queue (handleArticlesUnwritten j as L) = ln_queue L"
  "dn_completions (ln_dl (handleArticlesUnwritten j as L)) = dn_completions (ln_dl L)"
  unfolding handleArticlesUnwritten_def by (induction as arbitrary: L) simp_all

lemma untrusted_line:
  "contentOf k (handleFileUntrusted w e j fi L) = (if k = j \<and> ue_registered e then fst (UntrustFile fi (contentOf k L)) else contentOf k L)"
  "ln_wk (handleFileUntrusted w e j fi L) = ln_wk L" "ln_queue (handleFileUntrusted w e j fi L) = ln_queue L"
  "dn_completions (ln_dl (handleFileUntrusted w e j fi L)) = dn_completions (ln_dl L)"
  by (auto simp: handleFileUntrusted_def Let_def split: prod.splits option.splits)

lemma onAsmEvent_line:
  "contentOf j (onAsmEvent w ue e L) = evContent ue j e (contentOf j L)" "ln_wk (onAsmEvent w ue e L) = ln_wk L"
  "ln_queue (onAsmEvent w ue e L) = ln_queue L" "dn_completions (ln_dl (onAsmEvent w ue e L)) = dn_completions (ln_dl L)"
  by (cases e; simp add: handleArticleWritten_def noteWritten_def handleArticleRejected_def unwritten_line untrusted_line split: prod.splits)+

lemma onAsmEvents_line:
  "contentOf j (onAsmEvents w ue evs L) = fold (evContent ue j) evs (contentOf j L)" "ln_wk (onAsmEvents w ue evs L) = ln_wk L"
  "ln_queue (onAsmEvents w ue evs L) = ln_queue L" "dn_completions (ln_dl (onAsmEvents w ue evs L)) = dn_completions (ln_dl L)"
  unfolding onAsmEvents_def by (induction evs arbitrary: L) (simp_all add: onAsmEvent_line)

lemma ev_return [simp]: "fold (evContent ue j) (returnBuffer req) c = c"
  by (simp add: returnBuffer_def)

text \<open>
  The articles of the tracked job that are reported written while it is evicted: \<open>MarkArticleWritten\<close>
  refuses them, so they stay emitted and never become done.
\<close>

definition lostBy :: "inst \<Rightarrow> Content \<Rightarrow> AsmEvent list \<Rightarrow> nat set" where
  "lostBy j c evs = {nat a | fi a off n crc. OnArticleWritten j fi a off n crc \<in> set evs \<and> ct_manifest c = None}"

lemma lostBy_none: "\<forall>fi a off n crc. OnArticleWritten j fi a off n crc \<notin> set evs \<Longrightarrow> lostBy j c evs = {}"
  by (simp add: lostBy_def)

text \<open>An open file of the tracked job has seen only articles of the file that are done or lost.\<close>

definition opens_ok :: "pipeWorld \<Rightarrow> Manifest \<Rightarrow> inst \<Rightarrow> nat set \<Rightarrow> Worker \<Rightarrow> Content \<Rightarrow> bool" where
  "opens_ok w m j X wk c \<longleftrightarrow> (\<forall>k f. wk_open wk k = Some f \<longrightarrow> of_owner f = j \<longrightarrow>
     fst k = pw_ident w j \<and> (\<forall>a\<in>fw_seenDone (of_w f). ArticleInFile m (snd k) a \<and> nat a \<in> doneSet c \<union> X))"

lemma opens_ok_settles: "opens_ok w m j X wk c \<Longrightarrow> settles_bits m c c' \<Longrightarrow> opens_ok w m j X wk c'"
  unfolding opens_ok_def settles_bits_def by blast

lemma opens_ok_mono: "opens_ok w m j X wk c \<Longrightarrow> X \<subseteq> Y \<Longrightarrow> opens_ok w m j Y wk c"
  unfolding opens_ok_def by blast

lemma done_not_emitted: "held m c \<Longrightarrow> i \<in> doneSet c \<Longrightarrow> i \<notin> emittedSet c"
  using emitted_not_done by blast

lemma covered_le:
  assumes "owned_ok s" "0 \<le> rg_Len r"
  shows "covered s r \<le> rg_Len r"
proof -
  have "card (rg_bytes r \<inter> owned_bytes s) \<le> card (rg_bytes r)" by (rule card_mono) (auto simp: rg_bytes_def)
  moreover have "int (card (rg_bytes r)) = rg_Len r" using assms(2) by (simp add: rg_bytes_def rg_end_def)
  ultimately show ?thesis using covered_card[OF assms(1), of r] by linarith
qed

lemma dataLen_nonneg: "0 \<le> dataLen req"
  by (simp add: dataLen_def split: option.split)

lemma accept_shape:
  assumes acc: "acceptArticle env f req w dk = Some (w1, dk1, oc, ev)" and o: "owned_ok (fw_owned w)"
  shows "ev = returnBuffer req" "fw_seenDone w1 = fw_seenDone w"
    "oc_disposition oc = dispositionRejected \<and> (oc_uncovered oc = asmWholeArticle \<or> 0 \<le> oc_uncovered oc)
     \<or> oc_disposition oc = dispositionRolledBack
     \<or> oc_disposition oc = dispositionWritten \<and> oc_n oc = dataLen req \<and> 0 \<le> wq_Offset req"
proof -
  let ?r = "\<lparr>rg_Off = wq_Offset req, rg_Len = dataLen req\<rparr>"
  have "ev = returnBuffer req \<and> fw_seenDone w1 = fw_seenDone w \<and>
    (oc_disposition oc = dispositionRejected \<and> (oc_uncovered oc = asmWholeArticle \<or> 0 \<le> oc_uncovered oc)
     \<or> oc_disposition oc = dispositionRolledBack
     \<or> oc_disposition oc = dispositionWritten \<and> oc_n oc = dataLen req \<and> 0 \<le> wq_Offset req)"
  proof (cases "offsetOutOfRange (of_info f) req")
    case (Some reason)
    then show ?thesis using acc by (auto simp: acceptArticle_def)
  next
    case None
    then have off: "0 \<le> wq_Offset req" by (auto simp: offsetOutOfRange_def split: if_splits)
    show ?thesis
    proof (cases "ownerOf (fw_owned w) ?r")
      case (Some x)
      then show ?thesis using acc None covered_le[OF o, of ?r] dataLen_nonneg[of req] by (auto simp: acceptArticle_def Let_def)
    next
      case free: None
      obtain dk2 ww where wo: "writeOne env req (fi_Path (of_info f)) w dk = Some (dk2, ww)"
        using acc None free by (cases "writeOne env req (fi_Path (of_info f)) w dk") (auto simp: acceptArticle_def Let_def)
      have "\<forall>w'. ww = Some w' \<longrightarrow> fw_seenDone w' = fw_seenDone w"
        using wo by (auto simp: writeOne_def Let_def split: if_splits option.splits)
      then show ?thesis using acc None free wo off by (cases ww) (auto simp: acceptArticle_def Let_def)
    qed
  qed
  then show "ev = returnBuffer req" "fw_seenDone w1 = fw_seenDone w"
    "oc_disposition oc = dispositionRejected \<and> (oc_uncovered oc = asmWholeArticle \<or> 0 \<le> oc_uncovered oc)
     \<or> oc_disposition oc = dispositionRolledBack
     \<or> oc_disposition oc = dispositionWritten \<and> oc_n oc = dataLen req \<and> 0 \<le> wq_Offset req" by blast+
qed

lemma success_article:
  assumes h: "handleSuccessArticle env f req dk = Some (w2, dk1, evs)" and o: "owned_ok (fw_owned (of_w f))"
    and own: "wq_Owner req = j" and a: "ArticleInFile m (wq_FileIdx req) (wq_ArtIdx req)" and r: "held m c"
    and seen: "wq_ArtIdx req \<in> fw_seenDone (of_w f) \<Longrightarrow> nat (wq_ArtIdx req) \<in> doneSet c \<union> X"
    and c1: "c1 = fold (evContent ue j) evs c" and Y: "Y = X \<union> lostBy j c evs"
  shows "settles_bits m c c1" "nat (wq_ArtIdx req) \<notin> emittedSet c1 \<or> nat (wq_ArtIdx req) \<in> Y"
    "fw_seenDone w2 \<subseteq> insert (wq_ArtIdx req) (fw_seenDone (of_w f))" "wq_ArtIdx req \<in> fw_seenDone w2 \<Longrightarrow> nat (wq_ArtIdx req) \<in> doneSet c1 \<union> Y"
proof -
  let ?a = "wq_ArtIdx req"
  note ix = inFile_index[OF held_mf[OF r] a]
  have failed: "settles_bits m c c'" "nat ?a \<notin> emittedSet c'"
    if "c' = fst (MarkArticleFailed ?a ch c)" "0 \<le> ch \<or> ch = WholeArticle" for c' ch
  proof -
    note fb = fail_bits[OF r that(1)]
    show "settles_bits m c c'" by (rule fb(1))
    show "nat ?a \<notin> emittedSet c'" using done_not_emitted fb that(2) ix by (metis settles_bits_def)
  qed
  have wr: "settles_bits m c c'" "ct_manifest c \<noteq> None \<Longrightarrow> nat ?a \<in> doneSet c' \<and> nat ?a \<notin> emittedSet c'"
    if "c' = fst (MarkArticleWritten \<lparr>wr_FileIdx = wq_FileIdx req, wr_ArtIdx = ?a, wr_Offset = wq_Offset req, wr_Length = dataLen req, wr_CRC32 = crc\<rparr> c)"
      "0 \<le> wq_Offset req" for c' crc
  proof -
    note wb = written_bits[OF r that(1)]
    show "settles_bits m c c'" by (rule wb(1))
    assume "ct_manifest c \<noteq> None"
    then have d: "nat ?a \<in> doneSet c'" using wb(2) a that(2) dataLen_nonneg by (simp add: HasValidShape_def)
    then show "nat ?a \<in> doneSet c' \<and> nat ?a \<notin> emittedSet c'" using done_not_emitted[OF _ d] wb(1) by (auto simp: settles_bits_def)
  qed
  note cb = clear_bits[OF r HOL.refl, of ?a]
  have cl: "settles_bits m c (fst (ClearArticleEmitted ?a c))" "nat ?a \<notin> emittedSet (fst (ClearArticleEmitted ?a c))" using cb ix(1) by auto
  have "settles_bits m c c1 \<and> (nat ?a \<notin> emittedSet c1 \<or> nat ?a \<in> Y) \<and> fw_seenDone w2 \<subseteq> insert ?a (fw_seenDone (of_w f)) \<and>
    (?a \<in> fw_seenDone w2 \<longrightarrow> nat ?a \<in> doneSet c1 \<union> Y)"
  proof (cases "?a \<in> fw_seenDone (of_w f)")
    case True
    then have "w2 = of_w f" "c1 = c" using h c1 by (auto simp: handleSuccessArticle_def admit_def)
    then show ?thesis using settles_refl[OF r] seen[OF True] done_not_emitted[OF r] Y by auto
  next
    case False
    define w where "w = fst (admit ?a (of_w f))"
    have ad: "admit ?a (of_w f) = (w, True)" "fw_owned w = fw_owned (of_w f)" "fw_seenDone w = insert ?a (fw_seenDone (of_w f))"
      using False by (simp_all add: w_def admit_def)
    obtain w1 dkx oc ev ev' where acc: "acceptArticle env f req w dk = Some (w1, dkx, oc, ev)"
      "Assembler.resolve ?a (oc_disposition oc) w1 = Some w2" "routeOutcome req oc = Some ev'" "evs = ev @ ev'"
      using h ad(1) by (auto simp: handleSuccessArticle_def split: option.splits prod.splits)
    note shape = accept_shape[OF acc(1), unfolded ad(2), OF o]
    have s1: "fw_seenDone w1 = insert ?a (fw_seenDone (of_w f))" by (simp only: shape(2) ad(3))
    have s2: "oc_disposition oc = dispositionWritten \<Longrightarrow> fw_seenDone w2 = insert ?a (fw_seenDone (of_w f))"
      "oc_disposition oc = dispositionRejected \<or> oc_disposition oc = dispositionRolledBack \<Longrightarrow> fw_seenDone w2 = fw_seenDone (of_w f)"
      using acc(2) s1 False by (auto simp: Assembler.resolve_def Let_def)
    have gone: ?thesis if "settles_bits m c c1" "nat ?a \<notin> emittedSet c1" "fw_seenDone w2 = fw_seenDone (of_w f)"
      using that False by (simp add: subset_insertI)
    have c1': "c1 = fold (evContent ue j) ev' c" by (simp add: c1 acc(4) shape(1))
    from shape(3) show ?thesis
    proof (elim disjE conjE)
      assume d: "oc_disposition oc = dispositionRejected" and u: "oc_uncovered oc = asmWholeArticle"
      have "c1 = fst (MarkArticleFailed ?a WholeArticle c)" using acc(3) d u own by (auto simp: c1' routeOutcome_def)
      then show ?thesis using failed[of c1 WholeArticle] s2(2) d by (intro gone) blast+
    next
      assume d: "oc_disposition oc = dispositionRejected" and u: "0 \<le> oc_uncovered oc"
      have "c1 = fst (MarkArticleFailed ?a (oc_uncovered oc) c)" using acc(3) d u own by (auto simp: c1' routeOutcome_def asmWholeArticle_def)
      then show ?thesis using failed[of c1 "oc_uncovered oc"] u s2(2) d by (intro gone) blast+
    next
      assume d: "oc_disposition oc = dispositionRolledBack"
      have "c1 = fst (ClearArticleEmitted ?a c)" using acc(3) d own by (auto simp: c1' routeOutcome_def)
      then show ?thesis using cl s2(2) d by (intro gone) blast+
    next
      assume d: "oc_disposition oc = dispositionWritten" "oc_n oc = dataLen req" "0 \<le> wq_Offset req"
      have "c1 = fst (MarkArticleWritten \<lparr>wr_FileIdx = wq_FileIdx req, wr_ArtIdx = ?a, wr_Offset = wq_Offset req, wr_Length = dataLen req, wr_CRC32 = wq_CRC32 req\<rparr> c)"
        using acc(3) d own by (auto simp: c1' routeOutcome_def)
      note wr' = wr[OF this d(3)]
      have "OnArticleWritten j (wq_FileIdx req) ?a (wq_Offset req) (dataLen req) (wq_CRC32 req) \<in> set evs"
        using acc(3,4) d own by (auto simp: routeOutcome_def)
      then have "nat ?a \<in> Y" if "ct_manifest c = None" using that unfolding Y lostBy_def by blast
      then show ?thesis using wr' s2(1)[OF d(1)] by (cases "ct_manifest c = None") simp_all
    qed
  qed
  then show "settles_bits m c c1" "nat ?a \<notin> emittedSet c1 \<or> nat ?a \<in> Y"
    "fw_seenDone w2 \<subseteq> insert ?a (fw_seenDone (of_w f))" "?a \<in> fw_seenDone w2 \<Longrightarrow> nat ?a \<in> doneSet c1 \<union> Y" by blast+
qed

end
