(* ===== verification/Line_Worker.thy ===== *)
theory Line_Worker
  imports Line_Safety
begin

text \<open>
  The assembler worker's requests seen by one tracked job: what each of them reports to the job's content and
  what it leaves in the open files.
\<close>

section \<open>Open files\<close>

lemma article_file_unique:
  assumes "mf_ok m" "ArticleInFile m fi a" "ArticleInFile m fi' a"
  shows "fi = fi'"
proof -
  note i = inFile_index(1,2)[OF assms(1,2)]
  note u = ArticleInFile_search[OF assms(1) i(2)]
  show ?thesis using assms(2,3) u[of fi] u[of fi'] i(1) by simp
qed

lemma opens_ok_sub:
  assumes "opens_ok w m j X wk c" "\<And>k f. wk_open wk' k = Some f \<Longrightarrow> of_owner f = j \<Longrightarrow> wk_open wk k = Some f"
  shows "opens_ok w m j X wk' c"
  using assms unfolding opens_ok_def by blast

lemma opens_ok_put:
  assumes "opens_ok w m j X wk c" "wk_open wk' = (wk_open wk)(key \<mapsto> f)"
    "fst key = pw_ident w j" "\<forall>a\<in>fw_seenDone (of_w f). ArticleInFile m (snd key) a \<and> nat a \<in> doneSet c \<union> X"
  shows "opens_ok w m j X wk' c"
  unfolding opens_ok_def
proof (intro allI impI)
  fix k g assume k: "wk_open wk' k = Some g" "of_owner g = j"
  show "fst k = pw_ident w j \<and> (\<forall>a\<in>fw_seenDone (of_w g). ArticleInFile m (snd k) a \<and> nat a \<in> doneSet c \<union> X)"
  proof (cases "k = key")
    case True
    then have "g = f" using k(1) assms(2) by simp
    then show ?thesis using True assms(3,4) by simp
  next
    case False
    then have "wk_open wk k = Some g" using k(1) assms(2) by simp
    then show ?thesis using assms(1)[unfolded opens_ok_def, rule_format, OF _ k(2)] by blast
  qed
qed

text \<open>What a request may do to the tracked job.\<close>

definition asm_ok :: "pipeWorld \<Rightarrow> Manifest \<Rightarrow> inst \<Rightarrow> nat set \<Rightarrow> Worker \<Rightarrow> Content \<Rightarrow> Content \<Rightarrow> bool" where
  "asm_ok w m j X wk' c c' \<longleftrightarrow> held m c' \<and> emittedSet c' \<subseteq> emittedSet c \<and> opens_ok w m j X wk' c'"

lemma asm_ok_same: "held m c \<Longrightarrow> opens_ok w m j X wk' c \<Longrightarrow> asm_ok w m j X wk' c c"
  by (simp add: asm_ok_def)

lemma asm_ok_settles: "settles_bits m c c' \<Longrightarrow> opens_ok w m j X wk' c' \<Longrightarrow> asm_ok w m j X wk' c c'"
  by (simp add: asm_ok_def settles_bits_def)

lemma asm_ok_mono: "asm_ok w m j X wk' c c' \<Longrightarrow> asm_ok w m j (X \<union> Z) wk' c c'"
  by (auto simp: asm_ok_def elim!: opens_ok_mono)

text \<open>A file that is untrusted has been closed; the tracked job's other files keep their articles.\<close>

lemma opens_untrust:
  assumes "opens_ok w m j X wk c" "held m c" "wk_open wk (pw_ident w j, fi) = None"
  shows "opens_ok w m j X wk (fst (UntrustFile fi c))"
  unfolding opens_ok_def
proof (intro allI impI conjI ballI)
  fix k f assume k: "wk_open wk k = Some f" "of_owner f = j"
  note o = assms(1)[unfolded opens_ok_def, rule_format, OF k]
  then show "fst k = pw_ident w j" by blast
  have ne: "snd k \<noteq> fi" using o assms(3) k(1) by (metis option.distinct(1) prod.collapse)
  fix a assume a: "a \<in> fw_seenDone (of_w f)"
  then show i: "ArticleInFile m (snd k) a" using o by blast
  have "0 \<le> a" by (rule inFile_index(1)[OF held_mf[OF assms(2)] i])
  moreover have "\<not> ArticleInFile m fi a" using article_file_unique[OF held_mf[OF assms(2)] i] ne by blast
  ultimately show "nat a \<in> doneSet (fst (UntrustFile fi c)) \<union> X"
    using untrust_bits(3)[OF assms(2) HOL.refl, of "nat a" fi] o a by auto
qed

text \<open>Only the article's own report tells of a write.\<close>

lemma lost_open:
  assumes "processOpen env req key f wk = Some (wk', evs)"
    "(if wq_FatalErr req then handleFatalArticle f req (wk_disk wk) else handleSuccessArticle env f req (wk_disk wk)) = Some (w1, dk, ev)"
  shows "lostBy j c evs = lostBy j c ev"
proof -
  have fin: "OnArticleWritten k fi a off n crc \<notin> set (snd (finalizeFile env g key req wk0))" for k fi a off n crc g wk0
    by (simp add: finalizeFile_def Let_def)
  have "evs = ev \<or> (\<exists>g wk0. evs = ev @ snd (finalizeFile env g key req wk0))"
    using assms by (auto simp: processOpen_def Let_def split: if_splits prod.splits) (metis snd_conv)+
  then show ?thesis
  proof (elim disjE exE)
    fix g wk0 assume "evs = ev @ snd (finalizeFile env g key req wk0)"
    then have "OnArticleWritten j fi a off n crc \<in> set evs \<longleftrightarrow> OnArticleWritten j fi a off n crc \<in> set ev" for fi a off n crc
      using fin by simp
    then show ?thesis by (simp add: lostBy_def)
  qed simp
qed

lemma processOpen_line:
  assumes po: "processOpen env req key f wk = Some (wk', evs)" and f: "wk_open wk key = Some f" "of_owner f = j" "file_ok f"
    and key: "key = (pw_ident w j, wq_FileIdx req)" and own: "wq_Owner req = j" and a: "ArticleInFile m (wq_FileIdx req) (wq_ArtIdx req)"
    and r: "held m c" and o: "opens_ok w m j X wk c" and c': "c' = fold (evContent ue j) evs c" and Y: "Y = X \<union> lostBy j c evs"
  shows "asm_ok w m j Y wk' c c'" "\<not> wq_FatalErr req \<Longrightarrow> nat (wq_ArtIdx req) \<notin> emittedSet c' \<or> nat (wq_ArtIdx req) \<in> Y"
proof -
  let ?a = "wq_ArtIdx req"
  have seen: "\<forall>x\<in>fw_seenDone (of_w f). ArticleInFile m (wq_FileIdx req) x \<and> nat x \<in> doneSet c \<union> X"
    using o[unfolded opens_ok_def, rule_format, OF f(1,2)] by (simp add: key)
  obtain w1 dk ev where h: "(if wq_FatalErr req then handleFatalArticle f req (wk_disk wk) else handleSuccessArticle env f req (wk_disk wk)) = Some (w1, dk, ev)"
    using po by (auto simp: processOpen_def split: option.splits prod.splits)
  define f1 where "f1 = f\<lparr>of_w := w1\<rparr>"
  define wk1 where "wk1 = wk\<lparr>wk_open := (wk_open wk)(key \<mapsto> f1), wk_disk := dk\<rparr>"
  define c1 where "c1 = fold (evContent ue j) ev c"
  have evY: "Y = X \<union> lostBy j c ev" using lost_open[OF po h] by (simp add: Y own)
  have art: "settles_bits m c c1 \<and> (\<not> wq_FatalErr req \<longrightarrow> nat ?a \<notin> emittedSet c1 \<or> nat ?a \<in> Y) \<and>
      (\<forall>x\<in>fw_seenDone w1. ArticleInFile m (wq_FileIdx req) x \<and> nat x \<in> doneSet c1 \<union> Y)"
  proof (cases "wq_FatalErr req")
    case True
    then have "ev = returnBuffer req" "fw_seenDone w1 = fw_seenDone (of_w f)"
      using h by (auto simp: handleFatalArticle_def Assembler.resolve_def Let_def split: option.splits)
    then show ?thesis using True seen settles_refl[OF r] by (auto simp: c1_def evY)
  next
    case False
    then have h': "handleSuccessArticle env f req (wk_disk wk) = Some (w1, dk, ev)" using h by simp
    have ok: "owned_ok (fw_owned (of_w f))" using f(3) by (simp add: file_ok_def fw_ok_def)
    note sa = success_article[OF h' ok own a r _ c1_def evY]
    have s: "?a \<in> fw_seenDone (of_w f) \<Longrightarrow> nat ?a \<in> doneSet c \<union> X" using seen by blast
    have "ArticleInFile m (wq_FileIdx req) x \<and> nat x \<in> doneSet c1 \<union> Y" if "x \<in> fw_seenDone w1" for x
      using sa(3)[OF s] sa(4)[OF s] sa(1)[OF s] that seen a evY by (cases "x = ?a") (auto simp: settles_bits_def)
    then show ?thesis using sa(1,2)[OF s] by blast
  qed
  have r1: "held m c1" using art by (simp add: settles_bits_def)
  have XY: "X \<subseteq> Y" by (simp add: Y)
  have "opens_ok w m j Y wk c1" by (rule opens_ok_settles[OF opens_ok_mono[OF o XY]]) (use art in blast)
  then have o1: "opens_ok w m j Y wk1 c1"
    by (rule opens_ok_put[where key = key and f = f1]) (use art in \<open>simp_all add: wk1_def f1_def key\<close>)
  consider (stays) "wk' = wk1" "evs = ev" | (finishes) wk2 evs2 where "finalizeFile env f1 key req wk1 = (wk2, evs2)" "wk' = wk2" "evs = ev @ evs2"
    using po h by (auto simp: processOpen_def Let_def f1_def wk1_def split: if_splits prod.splits)
  then have "asm_ok w m j Y wk' c c' \<and> (\<not> wq_FatalErr req \<longrightarrow> nat ?a \<notin> emittedSet c' \<or> nat ?a \<in> Y)"
  proof cases
    case stays
    then have "c' = c1" by (simp add: c' c1_def)
    then show ?thesis using stays(1) art asm_ok_settles o1 by auto
  next
    case finishes
    have sh: "wk_open wk2 = (wk_open wk1)(key := None)"
      "evs2 = [OnFileUntrusted (wq_Owner req) (wq_FileIdx req), OnWriteFault (wq_Owner req) (wq_FileIdx req)] \<or> evs2 = [OnFileComplete (wq_Owner req) (wq_FileIdx req)]"
      using finishes(1) by (auto simp: finalizeFile_def Let_def split: if_splits)
    have o2: "opens_ok w m j Y wk2 c1" by (rule opens_ok_sub[OF o1]) (simp add: sh(1) split: if_splits)
    have "c' = c1 \<or> c' = fst (UntrustFile (wq_FileIdx req) c1)"
      using sh(2) own by (auto simp: c' finishes(3) c1_def[symmetric])
    then show ?thesis
    proof
      assume "c' = c1"
      then show ?thesis using finishes(2) art o2 asm_ok_settles by auto
    next
      assume e: "c' = fst (UntrustFile (wq_FileIdx req) c1)"
      note u = untrust_bits(1,2)[OF r1 e]
      have "opens_ok w m j Y wk2 c'" unfolding e by (rule opens_untrust[OF o2 r1]) (simp add: sh(1) key)
      then show ?thesis using u art finishes(2) by (auto simp: asm_ok_def settles_bits_def)
    qed
  qed
  then show "asm_ok w m j Y wk' c c'" "\<not> wq_FatalErr req \<Longrightarrow> nat ?a \<notin> emittedSet c' \<or> nat ?a \<in> Y" by blast+
qed

text \<open>A request of the tracked job, which the registry still holds.\<close>

lemma processClosed_line:
  assumes pc: "processClosed env req key wk = Some (wk', evs)" and closed: "wk_open wk key = None"
    and key: "key = (pw_ident w j, wq_FileIdx req)" and own: "wq_Owner req = j" and a: "ArticleInFile m (wq_FileIdx req) (wq_ArtIdx req)"
    and held: "en_FileInfo env \<noteq> Inl True" and r: "held m c" and o: "opens_ok w m j X wk c" and c': "c' = fold (evContent ue j) evs c" and Y: "Y = X \<union> lostBy j c evs"
  shows "asm_ok w m j Y wk' c c' \<and> (\<not> wq_FatalErr req \<longrightarrow> (nat (wq_ArtIdx req) \<notin> emittedSet c' \<or> nat (wq_ArtIdx req) \<in> Y))"
proof (cases "openTargetFile env req")
  case (Inl b)
  then have "\<not> b" using held by (cases "en_FileInfo env") (auto simp: openTargetFile_def split: if_splits)
  then have e: "wk' = wk" "c' = fst (ClearArticleEmitted (wq_ArtIdx req) c)" using pc Inl own by (auto simp: processClosed_def c')
  note cb = clear_bits[OF r e(2)]
  show ?thesis using cb(1) cb(2) inFile_index(1)[OF held_mf[OF r] a] asm_ok_settles[OF cb(1)] opens_ok_settles[OF opens_ok_mono[OF o] cb(1)] e(1) by (auto simp: Y)
next
  case (Inr f)
  note fo = open_file_ok[OF Inr]
  let ?wk = "wk\<lparr>wk_open := (wk_open wk)(key \<mapsto> f)\<rparr>"
  have empty: "fw_seenDone (of_w f) = {}"
    using Inr by (auto simp: openTargetFile_def seedOwned_def newFileWriter_def split: sum.splits if_splits option.splits)
  have "opens_ok w m j X ?wk c" by (rule opens_ok_put[OF o, where key = key and f = f]) (simp_all add: empty key)
  moreover have "processOpen env req key f ?wk = Some (wk', evs)" using pc Inr by (simp add: processClosed_def)
  ultimately show ?thesis
    using processOpen_line[OF _ _ _ _ key own a r _ c' Y, of env f ?wk wk'] fo own by simp
qed

lemma processRequest_line:
  assumes pr: "processRequest env req wk = Some (wk', evs)" and wk: "worker_ok wk"
    and job: "wq_JobID req = pw_ident w j" and own: "wq_Owner req = j" and a: "ArticleInFile m (wq_FileIdx req) (wq_ArtIdx req)"
    and held: "en_FileInfo0 env \<noteq> Inl True" "en_FileInfo env \<noteq> Inl True"
    and r: "held m c" and o: "opens_ok w m j X wk c" and c': "c' = fold (evContent ue j) evs c" and Y: "Y = X \<union> lostBy j c evs"
  shows "asm_ok w m j Y wk' c c' \<and> (\<not> wq_FatalErr req \<longrightarrow> (nat (wq_ArtIdx req) \<notin> emittedSet c' \<or> nat (wq_ArtIdx req) \<in> Y))"
proof -
  define key where "key = (pw_ident w j, wq_FileIdx req)"
  note ix = inFile_index(1,2)[OF held_mf[OF r] a]
  note pr' = pr[unfolded processRequest_def job key_def[symmetric] Let_def]
  consider (finished) "key \<in> wk_completed wk" | (closed) "key \<notin> wk_completed wk" "wk_open wk key = None"
    | (ours) f where "key \<notin> wk_completed wk" "wk_open wk key = Some f" "of_owner f = j"
    | (theirs) f where "key \<notin> wk_completed wk" "wk_open wk key = Some f" "of_owner f \<noteq> j" by (cases "wk_open wk key") blast+
  then show ?thesis
  proof cases
    case finished
    then have e: "wk' = wk" "c' = fst (MarkArticleFailed (wq_ArtIdx req) WholeArticle c)" using pr' own by (auto simp: c')
    note fb = fail_bits[OF r e(2)]
    have "nat (wq_ArtIdx req) \<notin> emittedSet c'" using fb ix by (intro done_not_emitted) (auto simp: settles_bits_def)
    then show ?thesis using asm_ok_settles[OF fb(1)] opens_ok_settles[OF opens_ok_mono[OF o] fb(1)] e(1) by (simp add: Y)
  next
    case closed
    then have "processClosed env req key wk = Some (wk', evs)" using pr' by simp
    then show ?thesis using processClosed_line[OF _ closed(2) key_def own a held(2) r o c' Y] by blast
  next
    case ours
    then have "processOpen env req key f wk = Some (wk', evs)" using pr' own by simp
    then show ?thesis using processOpen_line[OF _ ours(2,3) worker_okD(1)[OF wk ours(2)] key_def own a r o c' Y] by blast
  next
    case theirs
    let ?wk = "wk\<lparr>wk_open := (wk_open wk)(key := None), wk_disk := closeCancelledFile False False f (wk_disk wk)\<rparr>"
    have "processClosed env req key ?wk = Some (wk', evs)" using pr' own theirs held(1) by simp
    moreover have "opens_ok w m j X ?wk c" by (rule opens_ok_sub[OF o]) (simp split: if_splits)
    ultimately show ?thesis using processClosed_line[OF _ _ key_def own a held(2) r _ c' Y, of ?wk] by simp
  qed
qed

text \<open>A request of another instance leaves the tracked job's content alone and may only close its file.\<close>

definition shrinks :: "inst \<Rightarrow> Worker \<Rightarrow> Worker \<Rightarrow> bool" where
  "shrinks j wk wk' \<longleftrightarrow> (\<forall>k f. wk_open wk' k = Some f \<longrightarrow> of_owner f = j \<longrightarrow> wk_open wk k = Some f)"

lemma shrinks_trans: "shrinks j a b \<Longrightarrow> shrinks j b c \<Longrightarrow> shrinks j a c"
  by (simp add: shrinks_def)

lemma processOpen_other:
  assumes po: "processOpen env req key f wk = Some (wk', evs)" and own: "wq_Owner req \<noteq> j" "of_owner f \<noteq> j"
  shows "fold (evContent ue j) evs c = c" "shrinks j wk wk'"
proof -
  obtain w1 dk ev where h: "(if wq_FatalErr req then handleFatalArticle f req (wk_disk wk) else handleSuccessArticle env f req (wk_disk wk)) = Some (w1, dk, ev)"
    using po by (auto simp: processOpen_def split: option.splits prod.splits)
  have "routeOutcome req oc = Some es \<Longrightarrow> fold (evContent ue j) es c = c" for oc es
    using own(1) by (auto simp: routeOutcome_def split: disposition.splits)
  moreover have "acceptArticle env f req x dk0 = Some (w', d', oc, es) \<Longrightarrow> es = returnBuffer req" for x dk0 w' d' oc es
    by (auto simp: acceptArticle_def Let_def split: option.splits)
  ultimately have ev: "fold (evContent ue j) ev c = c"
    using h by (cases "admit (wq_ArtIdx req) (of_w f)")
      (fastforce simp: handleSuccessArticle_def handleFatalArticle_def split: if_splits option.splits bool.splits prod.splits)
  define f1 where "f1 = f\<lparr>of_w := w1\<rparr>"
  define wk1 where "wk1 = wk\<lparr>wk_open := (wk_open wk)(key \<mapsto> f1), wk_disk := dk\<rparr>"
  have s1: "shrinks j wk wk1" using own(2) by (auto simp: shrinks_def wk1_def f1_def)
  consider (stays) "wk' = wk1" "evs = ev" | (finishes) wk2 evs2 where "finalizeFile env f1 key req wk1 = (wk2, evs2)" "wk' = wk2" "evs = ev @ evs2"
    using po h by (auto simp: processOpen_def Let_def f1_def wk1_def split: if_splits prod.splits)
  then have "fold (evContent ue j) evs c = c \<and> shrinks j wk wk'"
  proof cases
    case finishes
    have "wk_open wk2 = (wk_open wk1)(key := None)" "fold (evContent ue j) evs2 c = c"
      using finishes(1) own(1) by (auto simp: finalizeFile_def Let_def split: if_splits)
    then show ?thesis using finishes(2,3) ev s1 by (auto simp: shrinks_def split: if_splits)
  qed (simp add: ev s1)
  then show "fold (evContent ue j) evs c = c" "shrinks j wk wk'" by blast+
qed

lemma processRequest_other:
  assumes pr: "processRequest env req wk = Some (wk', evs)" and own: "wq_Owner req \<noteq> j"
  shows "fold (evContent ue j) evs c = c" "shrinks j wk wk'"
proof -
  have closed: "fold (evContent ue j) evs c = c \<and> shrinks j wk1 wk'"
    if "processClosed env req key wk1 = Some (wk', evs)" for key wk1
  proof (cases "openTargetFile env req")
    case (Inl b)
    then show ?thesis using that own by (cases b) (auto simp: processClosed_def shrinks_def)
  next
    case (Inr f)
    then have fo: "of_owner f \<noteq> j" using open_file_ok[OF Inr] own by simp
    let ?wk = "wk1\<lparr>wk_open := (wk_open wk1)(key \<mapsto> f)\<rparr>"
    have "processOpen env req key f ?wk = Some (wk', evs)" using that Inr by (simp add: processClosed_def)
    note po = processOpen_other[OF this own fo]
    have "shrinks j wk1 ?wk" using fo by (simp add: shrinks_def)
    then show ?thesis using po shrinks_trans by blast
  qed
  let ?key = "(wq_JobID req, wq_FileIdx req)"
  have "shrinks j wk (wk\<lparr>wk_open := (wk_open wk)(?key := None), wk_disk := dk\<rparr>)" for dk by (simp add: shrinks_def)
  note drop = shrinks_trans[OF this]
  have "fold (evContent ue j) evs c = c \<and> shrinks j wk wk'"
  proof (cases "?key \<in> wk_completed wk")
    case True
    then show ?thesis using pr own by (auto simp: processRequest_def shrinks_def)
  next
    case False
    note pr' = pr[unfolded processRequest_def Let_def, simplified if_not_P[OF False]]
    show ?thesis
    proof (cases "wk_open wk ?key")
      case None
      then show ?thesis using pr' closed by simp
    next
      case (Some f)
      consider "of_owner f = wq_Owner req" | "of_owner f \<noteq> wq_Owner req" "en_FileInfo0 env = Inl True" | "of_owner f \<noteq> wq_Owner req" "en_FileInfo0 env \<noteq> Inl True" by blast
      then show ?thesis
      proof cases
        case 1
        then show ?thesis using pr' Some own processOpen_other[of env req ?key f wk wk' evs j] by simp
      next
        case 2
        then show ?thesis using pr' Some by (auto simp: shrinks_def)
      next
        case 3
        then show ?thesis using pr' Some closed drop by fastforce
      qed
    qed
  qed
  then show "fold (evContent ue j) evs c = c" "shrinks j wk wk'" by blast+
qed

text \<open>The requests that wait in the channel.\<close>

definition control_request :: "WriteRequest \<Rightarrow> bool" where
  "control_request req \<longleftrightarrow> wq_ack req \<and> wq_FileIdx req \<in> {fileIdxCancelJob, fileIdxCloseHandles, fileIdxForgetJob, fileIdxQuiesce}"

definition waiting_ok :: "pipeWorld \<Rightarrow> Manifest \<Rightarrow> inst \<Rightarrow> WriteRequest \<Rightarrow> bool" where
  "waiting_ok w m j req \<longleftrightarrow> control_request req \<or>
     \<not> wq_ack req \<and> (wq_Owner req = j \<longrightarrow> ArticleInFile m (wq_FileIdx req) (wq_ArtIdx req) \<and> wq_JobID req = pw_ident w j)"

lemma untrusts_bits:
  assumes "held m c" "opens_ok w m j X wk c" and none: "\<And>k f. wk_open wk k = Some f \<Longrightarrow> of_owner f \<noteq> j"
  shows "asm_ok w m j X wk c (fold (evContent ue j) (map (\<lambda>kf. OnFileUntrusted (of_owner (snd kf)) (snd (fst kf))) kfs) c)"
proof -
  have "held m (fold (evContent ue j) (map (\<lambda>kf. OnFileUntrusted (of_owner (snd kf)) (snd (fst kf))) kfs) c) \<and>
    emittedSet (fold (evContent ue j) (map (\<lambda>kf. OnFileUntrusted (of_owner (snd kf)) (snd (fst kf))) kfs) c) = emittedSet c"
    using assms(1)
  proof (induction kfs arbitrary: c)
    case (Cons kf kfs)
    let ?c = "evContent ue j (OnFileUntrusted (of_owner (snd kf)) (snd (fst kf))) c"
    have "held m ?c" "emittedSet ?c = emittedSet c" using untrust_bits(1,2)[OF Cons.prems HOL.refl] Cons.prems by auto
    then show ?case using Cons.IH[of ?c] by simp
  qed simp
  moreover have "opens_ok w m j X wk c'" for c' using none by (auto simp: opens_ok_def)
  ultimately show ?thesis by (simp add: asm_ok_def)
qed

lemma control_line:
  assumes d: "dispatchRequest env req wk = Some (wk', evs)" and ctl: "control_request req"
    and r: "held m c" and o: "opens_ok w m j X wk c" and c': "c' = fold (evContent ue j) evs c"
  shows "asm_ok w m j X wk' c c'"
proof (cases "wq_FileIdx req = fileIdxCloseHandles")
  case False
  then have "c' = c" "shrinks j wk wk'"
    using d ctl by (auto simp: dispatchRequest_def Let_def control_request_def c' shrinks_def dropJobFiles_def
        fileIdxCancelJob_def fileIdxCloseHandles_def fileIdxForgetJob_def fileIdxQuiesce_def split: if_splits)
  then show ?thesis using asm_ok_same[OF r] opens_ok_sub[OF o] by (auto simp: shrinks_def)
next
  case True
  let ?failed = "filter (\<lambda>kf. \<not> (en_syncs env (fst kf) \<and> en_closes env (fst kf))) (jobFiles env (wq_MessageID req) wk)"
  let ?es = "map (\<lambda>kf. OnFileUntrusted (of_owner (snd kf)) (snd (fst kf))) ?failed"
  have e: "wk_open wk' = dropJobFiles (wq_MessageID req) (wk_open wk)" "c' = fold (evContent ue j) ?es c"
    using d ctl True by (auto simp: dispatchRequest_def Let_def control_request_def c' fileIdxCancelJob_def fileIdxCloseHandles_def)
  have o': "opens_ok w m j X wk' c" by (rule opens_ok_sub[OF o]) (simp add: e(1) dropJobFiles_def split: if_splits)
  show ?thesis
  proof (cases "wq_MessageID req = pw_ident w j")
    case same: True
    have "of_owner f \<noteq> j" if "wk_open wk' k = Some f" for k f
    proof
      assume "of_owner f = j"
      with o' that have "fst k = pw_ident w j" unfolding opens_ok_def by blast
      then show False using that same by (simp add: e(1) dropJobFiles_def)
    qed
    then show ?thesis unfolding e(2) by (rule untrusts_bits[OF r o'])
  next
    case other: False
    have "of_owner (snd kf) \<noteq> j" if "kf \<in> set ?failed" for kf
    proof
      assume "of_owner (snd kf) = j"
      moreover have "wk_open wk (fst kf) = Some (snd kf)" "fst (fst kf) = wq_MessageID req" using jobFiles_open[of "fst kf" "snd kf"] that by auto
      ultimately show False using o other unfolding opens_ok_def by metis
    qed
    then have "fold (evContent ue j) (map (\<lambda>kf. OnFileUntrusted (of_owner (snd kf)) (snd (fst kf))) kfs) c = c" if "set kfs \<subseteq> set ?failed" for kfs
      using that by (induction kfs) auto
    then show ?thesis using asm_ok_same[OF r o'] unfolding e(2) by simp
  qed
qed

text \<open>Any request.\<close>

lemma dispatch_line:
  assumes d: "dispatchRequest env req wk = Some (wk', evs)" and wk: "worker_ok wk" and q: "waiting_ok w m j req"
    and held: "wq_Owner req = j \<Longrightarrow> \<not> wq_ack req \<Longrightarrow> en_FileInfo0 env \<noteq> Inl True \<and> en_FileInfo env \<noteq> Inl True"
    and r: "held m c" and o: "opens_ok w m j X wk c" and c': "c' = fold (evContent ue j) evs c" and Y: "Y = X \<union> lostBy j c evs"
  shows "asm_ok w m j Y wk' c c'"
    "wq_Owner req = j \<Longrightarrow> \<not> wq_ack req \<Longrightarrow> \<not> wq_FatalErr req \<Longrightarrow> nat (wq_ArtIdx req) \<notin> emittedSet c' \<or> nat (wq_ArtIdx req) \<in> Y"
proof -
  have "asm_ok w m j Y wk' c c' \<and> (wq_Owner req = j \<longrightarrow> \<not> wq_ack req \<longrightarrow> \<not> wq_FatalErr req \<longrightarrow> nat (wq_ArtIdx req) \<notin> emittedSet c' \<or> nat (wq_ArtIdx req) \<in> Y)"
  proof (cases "control_request req")
    case True
    then show ?thesis using control_line[OF d True r o c'] asm_ok_mono[of w m j X] by (simp add: control_request_def Y)
  next
    case False
    then have ack: "\<not> wq_ack req" using q by (simp add: waiting_ok_def)
    then have pr: "processRequest env req wk = Some (wk', evs)" using d by (simp add: dispatchRequest_def Let_def)
    show ?thesis
    proof (cases "wq_Owner req = j")
      case True
      then show ?thesis
        using processRequest_line[OF pr wk _ True _ _ _ r o c' Y] q held[OF True ack] False by (simp add: waiting_ok_def)
    next
      case other: False
      note po = processRequest_other[OF pr other]
      have "opens_ok w m j X wk' c" by (rule opens_ok_sub[OF o]) (use po(2) in \<open>unfold shrinks_def, blast\<close>)
      then have "opens_ok w m j Y wk' c" by (rule opens_ok_mono) (simp add: Y)
      then show ?thesis using asm_ok_same[OF r] po(1) other by (simp add: c')
    qed
  qed
  then show "asm_ok w m j Y wk' c c'"
    "wq_Owner req = j \<Longrightarrow> \<not> wq_ack req \<Longrightarrow> \<not> wq_FatalErr req \<Longrightarrow> nat (wq_ArtIdx req) \<notin> emittedSet c' \<or> nat (wq_ArtIdx req) \<in> Y" by blast+
qed

end
