(* ===== verification/Line_Run.thy ===== *)
theory Line_Run
  imports Line_Worker Fetch_Safety
begin

text \<open>
  The production line as a step relation: downloader, pipeline, assembler worker and the application's
  callbacks, interleaved with the job's eviction and hydration. An article the downloader has emitted has a
  result or a write request waiting, or it has been resolved or handed back, or its write was reported while
  the job was evicted.
\<close>

section \<open>The requests in the downloader\<close>

definition fleet_reqs :: "(articleRequest \<Rightarrow> bool) \<Rightarrow> Fleet \<Rightarrow> bool" where
  "fleet_reqs P f \<longleftrightarrow> (\<forall>name ch. fl_workCh f name = Some ch \<longrightarrow> (\<forall>r\<in>set (snd ch). P r))"

definition walk_reqs :: "(articleRequest \<Rightarrow> bool) \<Rightarrow> Fleet \<Rightarrow> dispatchPlan \<Rightarrow> bool" where
  "walk_reqs P f plan \<longleftrightarrow> fleet_reqs P f \<and> (\<forall>r\<in>set (pl_exhausted plan). P r)"

definition dl_reqs :: "(articleRequest \<Rightarrow> bool) \<Rightarrow> Downloader \<Rightarrow> bool" where
  "dl_reqs P d \<longleftrightarrow> fleet_reqs P (dn_fleet d) \<and> (\<forall>ir\<in>set (dn_taken d). P (snd ir))"

lemma tryDispatch_reqs:
  assumes "tryDispatch c req opts f = (f', h, e, b)" "fleet_reqs P f" "P req"
  shows "fleet_reqs P f'" "e = None \<or> e = Some req"
  using assms
  by (auto simp: tryDispatch_def Let_def send_def fleet_reqs_def split: if_splits selection.splits option.splits prod.splits)

lemma walkArticles_reqs:
  assumes "walk_reqs P f plan" "\<forall>r\<in>set reqs. P r"
  shows "walk_reqs P (fst (walkArticles env opts reqs left f plan)) (fst (snd (walkArticles env opts reqs left f plan)))"
  using assms
proof (induction reqs arbitrary: left f plan)
  case (Cons req reqs)
  obtain f' h e b where td: "tryDispatch (pe_cancelled env (pl_scanned plan)) req opts f = (f', h, e, b)"
    by (cases "tryDispatch (pe_cancelled env (pl_scanned plan)) req opts f")
  have "fleet_reqs P f" "P req" using Cons.prems by (simp_all add: walk_reqs_def)
  note t = tryDispatch_reqs[OF td this]
  have "walk_reqs P f' (noteTried req h e plan)"
    using t Cons.prems by (auto simp: walk_reqs_def noteTried_def split: option.splits)
  then show ?case using Cons.IH[of f' "noteTried req h e plan"] Cons.prems(2) by (simp add: td Let_def)
qed simp

lemma walkRows_reqs:
  assumes "walk_reqs P f plan" "\<forall>row\<in>set rows. \<forall>r\<in>set (rowRequests row). P r"
  shows "walk_reqs P (fst (walkRows env opts tried rows f plan)) (snd (walkRows env opts tried rows f plan))"
  using assms
proof (induction rows arbitrary: f plan)
  case (Cons row rows)
  have h: "walk_reqs P f (plan\<lparr>pl_hopelessJobs := x\<rparr>)" for x using Cons.prems(1) by (simp add: walk_reqs_def)
  obtain f1 plan1 stop where w: "walkArticles env opts (rowRequests row) (int (tried (the (rw_inst row)))) f plan = (f1, plan1, stop)"
    by (cases "walkArticles env opts (rowRequests row) (int (tried (the (rw_inst row)))) f plan")
  have rest: "\<forall>row\<in>set rows. \<forall>r\<in>set (rowRequests row). P r" using Cons.prems(2) by simp
  have a: "walk_reqs P f1 plan1"
    using walkArticles_reqs[OF Cons.prems(1), of "rowRequests row" env opts "int (tried (the (rw_inst row)))"] w Cons.prems(2) by simp
  show ?case using Cons.IH[OF Cons.prems(1) rest] Cons.IH[OF h rest] Cons.IH[OF a rest] a w by (simp add: Let_def)
qed simp

lemma plan_reqs:
  assumes "fleet_reqs P f" "\<forall>row\<in>set rows. \<forall>r\<in>set (rowRequests row). P r"
  shows "walk_reqs P (fst (buildDispatchPlan env opts rows f)) (snd (buildDispatchPlan env opts rows f))"
proof -
  have "walk_reqs P f emptyPlan" using assms(1) by (simp add: walk_reqs_def emptyPlan_def)
  then show ?thesis using walkRows_reqs[OF _ assms(2)] by (simp add: buildDispatchPlan_def)
qed

text \<open>The requests of a row of the tracked job name articles of the job's files.\<close>

lemma rowRequests_ok:
  assumes "held m c" "rw_inst row = Some j \<Longrightarrow> rw_ID row = pw_ident w j \<and> rw_content row = c" "r \<in> set (rowRequests row)"
  shows "request_ok w m j r"
proof -
  obtain inst vs v where row: "rw_inst row = Some inst" "ForEachUnfinishedArticle (\<lambda>v. True) (rw_content row) = Inr vs"
    "v \<in> set vs" "r = requestOf (rw_ID row) inst v"
    using assms(3) by (cases "rw_inst row"; cases "ForEachUnfinishedArticle (\<lambda>v. True) (rw_content row)") (auto simp: rowRequests_def)
  show ?thesis
  proof (cases "inst = j")
    case True
    then have c: "rw_content row = c" "rw_ID row = pw_ident w j" using assms(2) row(1) by simp_all
    have "ct_manifest c \<noteq> None" using row(2) c(1) by (auto simp: ForEachUnfinishedArticle_def split: option.splits)
    then obtain p where p: "ct_manifest c = Some m" "ct_progress c = Some p" using assms(1) by (auto simp: held_def)
    have "v \<in> set (concat (map (fileVisits m p) [0..<mf_NumFiles m]))"
      using row(2,3) c(1) p by (auto simp: ForEachUnfinishedArticle_def callUntil_True split: if_splits)
    then obtain fi where fi: "fi < mf_NumFiles m" "v \<in> set (fileVisits m p fi)" by auto
    then have "vi_fileIdx v = fi" "fst (FileRange m fi) \<le> vi_artIdx v \<and> vi_artIdx v < snd (FileRange m fi)"
      using fileVisits_art(2)[of "vi_artIdx v" m p fi] by (auto simp: fileVisits_def visitOf_def Let_def case_prod_unfold split: if_splits)
    then have "ArticleInFile m (int (vi_fileIdx v)) (int (vi_artIdx v))" using fi(1) by (simp add: ArticleInFile_iff)
    then show ?thesis using row(4) c(2) by (simp add: request_ok_def requestOf_def)
  next
    case False
    then show ?thesis using row(4) by (simp add: request_ok_def requestOf_def)
  qed
qed

lemma dispatchPass_reqs:
  assumes d: "dl_reqs P d" and rows: "\<forall>row\<in>set rows. \<forall>r\<in>set (rowRequests row). P r"
  shows "dl_reqs P (fst (dispatchPass sent paused connected env opts rows d))" "\<forall>r\<in>set (passGivesUp env opts rows d). P r"
proof -
  define o1 where "o1 = opts\<lparr>do_serverCfgs := map srv_cfg (fl_servers (dn_fleet d))\<rparr>"
  obtain f plan where b: "buildDispatchPlan env o1 rows (dn_fleet d) = (f, plan)" by (cases "buildDispatchPlan env o1 rows (dn_fleet d)")
  have w: "walk_reqs P f plan" using plan_reqs[of P "dn_fleet d" rows env o1] d rows b by (simp add: dl_reqs_def)
  then show "\<forall>r\<in>set (passGivesUp env opts rows d). P r" using b by (simp add: passGivesUp_def o1_def walk_reqs_def)
  note a = applyExhausted_fleet[of sent "pl_exhausted plan" "d\<lparr>dn_fleet := f\<rparr>"]
  show "dl_reqs P (fst (dispatchPass sent paused connected env opts rows d))"
  proof (cases "paused \<or> pe_cancelled env 0")
    case False
    then have "fst (dispatchPass sent paused connected env opts rows d) = applyExhausted sent (pl_exhausted plan) (d\<lparr>dn_fleet := f\<rparr>)"
      using b unfolding dispatchPass_def o1_def by (simp add: applyDispatchPlan_def Let_def)
    then show ?thesis using a w d by (simp add: dl_reqs_def walk_reqs_def fleet_reqs_def)
  qed (simp add: dispatchPass_def d)
qed

lemma same_load_reqs: "same_load d d' \<Longrightarrow> dl_reqs P d \<Longrightarrow> dl_reqs P d'"
  by (simp add: same_load_def dl_reqs_def fleet_reqs_def)

lemma takeRequest_reqs:
  assumes "takeRequest i d = Some d'" "dl_reqs P d"
  shows "dl_reqs P d'" "dn_content d' = dn_content d" "dn_completions d' = dn_completions d"
proof -
  let ?name = "sc_Name (srv_cfg (fl_servers (dn_fleet d) ! i))"
  obtain cap req buf where ch: "fl_workCh (dn_fleet d) ?name = Some (cap, req # buf)"
    and d': "d' = d\<lparr>dn_fleet := (dn_fleet d)\<lparr>fl_workCh := (fl_workCh (dn_fleet d))(?name \<mapsto> (cap, buf))\<rparr>, dn_taken := dn_taken d @ [(i, req)]\<rparr>"
    using assms(1) by (auto simp: takeRequest_def Let_def split: option.splits list.splits)
  have "\<forall>r\<in>set (req # buf). P r" using assms(2) ch unfolding dl_reqs_def fleet_reqs_def by fastforce
  then show "dl_reqs P d'" using assms(2) by (auto simp: d' dl_reqs_def fleet_reqs_def)
  show "dn_content d' = dn_content d" "dn_completions d' = dn_completions d" by (simp_all add: d')
qed

section \<open>The line\<close>

text \<open>
  The rows a pass reads are the registry's. A worker of the pipeline takes any waiting result; the assembler
  takes the head of its channel, and the application's callbacks follow each request. A tick may evict any job
  at any moment and hydrate it again. The tracked job \<open>j\<close> is registered, not handed off, and the process is
  not shutting down while its articles are handled (\<open>calm_env\<close>, \<open>file_answers\<close>); nothing is asked of other
  jobs. Other changes of the tracked job's content emit nothing and keep what is done (\<open>settles_bits\<close>); a
  reload of the downloader and a retry, which reset the marks, are not steps. A step is labelled with the
  articles of the tracked job it reports written while the job is evicted.
\<close>

definition rows_of :: "pipeWorld \<Rightarrow> Row list \<Rightarrow> Line \<Rightarrow> bool" where
  "rows_of w rows L \<longleftrightarrow> (\<forall>row\<in>set rows. \<forall>k. rw_inst row = Some k \<longrightarrow> rw_ID row = pw_ident w k \<and> rw_content row = contentOf k L)"

definition file_answers :: "pipeWorld \<Rightarrow> inst \<Rightarrow> Line \<Rightarrow> WriteRequest \<Rightarrow> Env \<Rightarrow> bool" where
  "file_answers w j L req env \<longleftrightarrow> (\<exists>holds handedOff. holds j \<and> \<not> handedOff j \<and>
     en_FileInfo0 env = resolveForWrite (pw_ident w) holds handedOff (ln_pipe L) (wq_Owner req) (wq_FileIdx req) \<and>
     en_FileInfo env = resolveForWrite (pw_ident w) holds handedOff (ln_pipe L) (wq_Owner req) (wq_FileIdx req))"

inductive line_step :: "pipeWorld \<Rightarrow> Manifest \<Rightarrow> inst \<Rightarrow> Line \<Rightarrow> nat set \<Rightarrow> Line \<Rightarrow> bool" for w m j where
  pass: "rows_of w rows L \<Longrightarrow> line_step w m j L {} (L\<lparr>ln_dl := fst (dispatchPass sent paused connected env opts rows (ln_dl L))\<rparr>)"
| receive: "takeRequest i (ln_dl L) = Some d' \<Longrightarrow> line_step w m j L {} (L\<lparr>ln_dl := d'\<rparr>)"
| fetch: "(i, req) \<in> set (dn_taken (ln_dl L)) \<Longrightarrow>
    line_step w m j L {} (L\<lparr>ln_dl := (handleRequest env i req (ln_dl L))\<lparr>dn_taken := remove1 (i, req) (dn_taken (ln_dl L)),
      dn_closing := dn_closing (ln_dl L) @ [req]\<rparr>\<rparr>)"
| finish: "req \<in> set (dn_closing (ln_dl L)) \<Longrightarrow>
    line_step w m j L {} (L\<lparr>ln_dl := (clearInFlight req (ln_dl L))\<lparr>dn_closing := remove1 req (dn_closing (ln_dl L))\<rparr>\<rparr>)"
| reap: "line_step w m j L {} (L\<lparr>ln_dl := reapTracker aborted registered (ln_dl L)\<rparr>)"
| expire: "line_step w m j L {} (L\<lparr>ln_dl := checkExpiredPenalties now (ln_dl L)\<rparr>)"
| unblock: "line_step w m j L {} (L\<lparr>ln_dl := fst (UnblockServer name (ln_dl L))\<rparr>)"
| deliver: "res \<in> set (dn_completions (ln_dl L)) \<Longrightarrow> (ars_inst res = j \<longrightarrow> calm_env env) \<Longrightarrow>
    line_step w m j L {} (handleResult w env res (L\<lparr>ln_dl := (ln_dl L)\<lparr>dn_completions := remove1 res (dn_completions (ln_dl L))\<rparr>\<rparr>))"
| work: "ln_queue L = req # q \<Longrightarrow> file_answers w j L req env \<Longrightarrow>
    dispatchRequest env req (ln_wk L) = Some (wk', evs) \<Longrightarrow>
    line_step w m j L (lostBy j (contentOf j L) evs) (onAsmEvents w ue evs (L\<lparr>ln_queue := q, ln_wk := wk'\<rparr>))"
| control: "control_request req \<Longrightarrow> line_step w m j L {} (L\<lparr>ln_queue := ln_queue L @ [req]\<rparr>)"
| content: "(k = j \<longrightarrow> settles_bits m (contentOf j L) c) \<Longrightarrow> line_step w m j L {} (setContent k c L)"
| evict: "line_step w m j L {} (setContent k (Evict (contentOf k L)) L)"
| hydrate: "line_step w m j L {} (setContent j (fst (AttachArticles (Some m) [] (contentOf j L))) L)"
| other: "line_step w m j L {} (L\<lparr>ln_pipe := p, ln_rec := r, ln_store := s, ln_hopeless := h\<rparr>)"

inductive line_reach :: "pipeWorld \<Rightarrow> Manifest \<Rightarrow> inst \<Rightarrow> nat set \<Rightarrow> Line \<Rightarrow> bool" for w m j where
  start: "ln_dl L = newDownloader cfgs n noPen maxPen c \<Longrightarrow> held m (c j) \<Longrightarrow> emittedSet (c j) = {} \<Longrightarrow>
    ln_queue L = [] \<Longrightarrow> ln_wk L = newWorker dk \<Longrightarrow> line_reach w m j {} L"
| step: "line_reach w m j X L \<Longrightarrow> line_step w m j L Y L' \<Longrightarrow> line_reach w m j (X \<union> Y) L'"

section \<open>The invariant\<close>

definition queued_arts :: "inst \<Rightarrow> WriteRequest list \<Rightarrow> nat set" where
  "queued_arts j q = {nat (wq_ArtIdx req) | req. req \<in> set q \<and> wq_Owner req = j \<and> \<not> wq_ack req \<and> \<not> wq_FatalErr req}"

definition line_inv :: "pipeWorld \<Rightarrow> Manifest \<Rightarrow> inst \<Rightarrow> nat set \<Rightarrow> Line \<Rightarrow> bool" where
  "line_inv w m j X L \<longleftrightarrow> held m (contentOf j L)
     \<and> emittedSet (contentOf j L) \<subseteq> arts_of j (dn_completions (ln_dl L)) \<union> queued_arts j (ln_queue L) \<union> X
     \<and> (\<forall>r\<in>set (dn_completions (ln_dl L)). result_ok w m j r) \<and> (\<forall>req\<in>set (ln_queue L). waiting_ok w m j req)
     \<and> worker_ok (ln_wk L) \<and> opens_ok w m j X (ln_wk L) (contentOf j L) \<and> dl_reqs (request_ok w m j) (ln_dl L)"

lemma queued_arts_simps [simp]:
  "queued_arts j (a @ b) = queued_arts j a \<union> queued_arts j b" "queued_arts j [] = {}"
  "queued_arts j (req # q) = (if wq_Owner req = j \<and> \<not> wq_ack req \<and> \<not> wq_FatalErr req then {nat (wq_ArtIdx req)} else {}) \<union> queued_arts j q"
  by (auto simp: queued_arts_def)

lemma line_inv_cong:
  assumes "line_inv w m j X L" "contentOf j L' = contentOf j L" "dn_completions (ln_dl L') = dn_completions (ln_dl L)"
    "ln_queue L' = ln_queue L" "ln_wk L' = ln_wk L" "dl_reqs (request_ok w m j) (ln_dl L')"
  shows "line_inv w m j X L'"
  using assms by (simp add: line_inv_def)

lemma line_inv_dl:
  assumes inv: "line_inv w m j X L" and ok: "dl_ok w m j (ln_dl L) d'" and reqs: "dl_reqs (request_ok w m j) d'"
  shows "line_inv w m j X (L\<lparr>ln_dl := d'\<rparr>)"
proof -
  have "held m (dn_content (ln_dl L) j)" using inv by (simp add: line_inv_def contentOf_def)
  then obtain new where new: "dn_completions d' = dn_completions (ln_dl L) @ new" "\<forall>r\<in>set new. result_ok w m j r"
    "held m (dn_content d' j)" "doneSet (dn_content d' j) = doneSet (dn_content (ln_dl L) j)"
    "emittedSet (dn_content d' j) \<subseteq> emittedSet (dn_content (ln_dl L) j) \<union> arts_of j new"
    using ok unfolding dl_ok_def by blast
  have "opens_ok w m j X (ln_wk L) (dn_content d' j)" using inv new(4) by (simp add: line_inv_def opens_ok_def contentOf_def)
  then show ?thesis using inv new reqs by (auto simp: line_inv_def contentOf_def)
qed

text \<open>The pipeline and the callbacks leave the downloader's requests alone.\<close>

lemma setContent_fleet [simp]: "dn_fleet (ln_dl (setContent j c L)) = dn_fleet (ln_dl L)" "dn_taken (ln_dl (setContent j c L)) = dn_taken (ln_dl L)"
  by (simp_all add: setContent_def)

definition same_fleet :: "Line \<Rightarrow> Line \<Rightarrow> bool" where
  "same_fleet L L' \<longleftrightarrow> dn_fleet (ln_dl L') = dn_fleet (ln_dl L) \<and> dn_taken (ln_dl L') = dn_taken (ln_dl L)"

lemma same_fleet_trans: "same_fleet a b \<Longrightarrow> same_fleet b c \<Longrightarrow> same_fleet a c"
  by (simp add: same_fleet_def)

lemma same_fleet_steps:
  "same_fleet L (setContent j c L)" "same_fleet L (releaseResult L)" "same_fleet L (WriteArticle out req L)" "same_fleet L (pipe_clearEmitted res L)"
  "same_fleet L (noteDownload now res L)" "same_fleet L (reportEarlyAbort res L)" "same_fleet L (L\<lparr>ln_pipe := p, ln_rec := r\<rparr>)" "same_fleet L L"
  by (simp_all add: same_fleet_def releaseResult_def WriteArticle_def pipe_clearEmitted_def noteDownload_def reportEarlyAbort_def Let_def split: prod.split)

lemma registerForResult_fleet: "same_fleet L (fst (registerForResult w env res L))"
proof -
  obtain p c r e where reg: "registerFile w (he_attempt env) (ars_inst res) (int (ars_fileIdx res)) (ln_pipe L, contentOf (ars_inst res) L, ln_rec L) = ((p, c, r), e)"
    by (metis prod.collapse)
  have "same_fleet L (setContent (ars_inst res) c (L\<lparr>ln_pipe := p, ln_rec := r\<rparr>))" by (simp add: same_fleet_def)
  then show ?thesis using same_fleet_trans[OF _ same_fleet_steps(4)]
    by (simp add: registerForResult_def reg Let_def split: option.split regError.split)
qed

lemma handleResult_fleet: "same_fleet L (handleResult w env res L)"
proof -
  note via = same_fleet_trans[OF _ registerForResult_fleet]
  have s: "same_fleet L (handleSuccessResult w env res L)"
  proof -
    obtain L1 ok where reg: "registerForResult w env res (noteDownload (he_now env) res L) = (L1, ok)" by force
    have "same_fleet L L1" using via[OF same_fleet_steps(5)[of L "he_now env" res], of w env res] reg by simp
    note t = same_fleet_trans[OF this]
    show ?thesis using t[OF same_fleet_steps(2)] t[OF same_fleet_steps(3)] t[OF same_fleet_trans[OF same_fleet_steps(3) same_fleet_steps(2)]]
        t[OF same_fleet_trans[OF same_fleet_trans[OF same_fleet_steps(3) same_fleet_steps(4)] same_fleet_steps(2)]]
      by (cases ok; cases "he_write env") (simp_all add: handleSuccessResult_def reg Let_def)
  qed
  have f: "same_fleet L (handleFailureResult w env res err L)" for err
  proof -
    obtain L1 ok where reg: "registerForResult w env res (releaseResult L) = (L1, ok)" by force
    have l1: "same_fleet L L1" using via[OF same_fleet_steps(2)[of L], of w env res] reg by simp
    note t = same_fleet_trans[OF l1 same_fleet_trans[OF same_fleet_steps(1) same_fleet_steps(3)]]
    show ?thesis using l1 same_fleet_trans[OF t same_fleet_steps(6)] same_fleet_trans[OF same_fleet_trans[OF t same_fleet_steps(4)] same_fleet_steps(6)]
        same_fleet_trans[OF same_fleet_steps(2) same_fleet_steps(4)]
      by (cases ok) (simp_all add: handleFailureResult_def reg Let_def)
  qed
  show ?thesis unfolding handleResult_def using s f same_fleet_steps(2) by (simp split: option.split)
qed

lemma unwritten_fleet [simp]:
  "dn_fleet (ln_dl (handleArticlesUnwritten j as L)) = dn_fleet (ln_dl L)" "dn_taken (ln_dl (handleArticlesUnwritten j as L)) = dn_taken (ln_dl L)"
  unfolding handleArticlesUnwritten_def by (induction as arbitrary: L) simp_all

lemma onAsmEvent_fleet:
  "dn_fleet (ln_dl (onAsmEvent w ue e L)) = dn_fleet (ln_dl L)" "dn_taken (ln_dl (onAsmEvent w ue e L)) = dn_taken (ln_dl L)"
  by (cases e; simp add: handleArticleWritten_def handleArticleRejected_def handleFileUntrusted_def Let_def split: prod.split option.split)+

lemma onAsmEvents_fleet:
  "dn_fleet (ln_dl (onAsmEvents w ue evs L)) = dn_fleet (ln_dl L)" "dn_taken (ln_dl (onAsmEvents w ue evs L)) = dn_taken (ln_dl L)"
  unfolding onAsmEvents_def by (induction evs arbitrary: L) (simp_all add: onAsmEvent_fleet)

lemma arts_of_remove1: "arts_of j rs \<subseteq> arts_of j (remove1 res rs) \<union> (if ars_inst res = j then {ars_artIdx res} else {})"
  by (induction rs) (auto simp: arts_of_def)

lemma line_inv_deliver:
  assumes inv: "line_inv w m j X L" and res: "res \<in> set (dn_completions (ln_dl L))" and calm: "ars_inst res = j \<Longrightarrow> calm_env env"
  shows "line_inv w m j X (handleResult w env res (L\<lparr>ln_dl := (ln_dl L)\<lparr>dn_completions := remove1 res (dn_completions (ln_dl L))\<rparr>\<rparr>))"
proof -
  let ?rs = "dn_completions (ln_dl L)"
  define L0 where "L0 = L\<lparr>ln_dl := (ln_dl L)\<lparr>dn_completions := remove1 res ?rs\<rparr>\<rparr>"
  define L' where "L' = handleResult w env res L0"
  note hr = handleResult_line[OF HOL.refl L'_def]
  have L0: "contentOf k L0 = contentOf k L" "dn_completions (ln_dl L0) = remove1 res ?rs" "ln_queue L0 = ln_queue L" "ln_wk L0 = ln_wk L" for k
    by (simp_all add: L0_def contentOf_def)
  obtain new where x: "ln_wk L' = ln_wk L" "dn_completions (ln_dl L') = remove1 res ?rs" "\<And>k. k \<noteq> ars_inst res \<Longrightarrow> contentOf k L' = contentOf k L"
    "ln_queue L' = ln_queue L @ new" "set new \<subseteq> {writeRequestFor res True, writeRequestFor res False}"
    using hr(1) unfolding line_ext_def L0 by blast
  have ro: "result_ok w m j res" using inv res by (simp add: line_inv_def)
  have r: "held m (contentOf j L0)" using inv L0 by (simp add: line_inv_def)
  have new: "waiting_ok w m j q" if "q \<in> set new" for q
    using that x(5) ro by (auto simp: waiting_ok_def writeRequestFor_def result_ok_def)
  have rs: "set (remove1 res ?rs) \<subseteq> set ?rs" "arts_of j ?rs \<subseteq> arts_of j (remove1 res ?rs) \<union> (if ars_inst res = j then {ars_artIdx res} else {})"
    by (rule set_remove1_subset, rule arts_of_remove1)
  have reqs: "dl_reqs (request_ok w m j) (ln_dl L')"
    using inv handleResult_fleet[of L0 w env res] by (simp add: same_fleet_def L'_def line_inv_def dl_reqs_def L0_def)
  have core: "settles_bits m (contentOf j L) (contentOf j L') \<and>
      (ars_inst res = j \<longrightarrow> ars_artIdx res \<in> emittedSet (contentOf j L') \<longrightarrow> writeRequestFor res False \<in> set (ln_queue L'))"
  proof (cases "ars_inst res = j")
    case True
    then show ?thesis using hr(2)[of m] r ro calm[OF True] L0(1) by (simp add: result_ok_def)
  next
    case False
    then have "contentOf j L' = contentOf j L" using x(3)[of j] by simp
    then show ?thesis using False settles_refl r L0(1) by simp
  qed
  have "emittedSet (contentOf j L') \<subseteq> arts_of j (remove1 res ?rs) \<union> queued_arts j (ln_queue L') \<union> X"
  proof
    fix a assume a: "a \<in> emittedSet (contentOf j L')"
    then have "a \<in> arts_of j ?rs \<union> queued_arts j (ln_queue L) \<union> X" using inv core unfolding line_inv_def settles_bits_def by blast
    moreover have "ars_artIdx res \<in> queued_arts j (ln_queue L')" if "ars_inst res = j" "a = ars_artIdx res"
    proof -
      have "writeRequestFor res False \<in> set (ln_queue L')" using core that a by blast
      then show ?thesis unfolding queued_arts_def using that(1)
        by (intro CollectI exI[of _ "writeRequestFor res False"]) (simp add: writeRequestFor_def)
    qed
    ultimately show "a \<in> arts_of j (remove1 res ?rs) \<union> queued_arts j (ln_queue L') \<union> X"
      using rs(2) by (cases "ars_inst res = j") (auto simp: x(4))
  qed
  moreover have "opens_ok w m j X (ln_wk L') (contentOf j L')"
    unfolding x(1) by (rule opens_ok_settles[of w m j X "ln_wk L" "contentOf j L"]) (use inv core in \<open>simp_all add: line_inv_def\<close>)
  moreover have "\<forall>r\<in>set (remove1 res ?rs). result_ok w m j r" using inv rs(1) unfolding line_inv_def by blast
  moreover have "\<forall>q\<in>set (ln_queue L'). waiting_ok w m j q" using inv new unfolding line_inv_def x(4) by auto
  moreover have "held m (contentOf j L')" "worker_ok (ln_wk L')" using inv core by (simp_all add: line_inv_def settles_bits_def x(1))
  ultimately have "line_inv w m j X L'" using reqs by (simp add: line_inv_def x(2))
  then show ?thesis by (simp only: L'_def L0_def)
qed

lemma line_inv_work:
  assumes inv: "line_inv w m j X L" and q: "ln_queue L = req # q" and ans: "file_answers w j L req env"
    and d: "dispatchRequest env req (ln_wk L) = Some (wk', evs)"
    and Y: "Y = X \<union> lostBy j (contentOf j L) evs"
  shows "line_inv w m j Y (onAsmEvents w ue evs (L\<lparr>ln_queue := q, ln_wk := wk'\<rparr>))"
proof -
  define L' where "L' = onAsmEvents w ue evs (L\<lparr>ln_queue := q, ln_wk := wk'\<rparr>)"
  have L': "contentOf j L' = fold (evContent ue j) evs (contentOf j L)" "ln_wk L' = wk'" "ln_queue L' = q"
    "dn_completions (ln_dl L') = dn_completions (ln_dl L)" "dn_fleet (ln_dl L') = dn_fleet (ln_dl L)" "dn_taken (ln_dl L') = dn_taken (ln_dl L)"
    unfolding L'_def by (simp_all add: onAsmEvents_line onAsmEvents_fleet)
  have wk: "worker_ok (ln_wk L)" and wait: "waiting_ok w m j req" and r: "held m (contentOf j L)" and o: "opens_ok w m j X (ln_wk L) (contentOf j L)"
    using inv q by (simp_all add: line_inv_def)
  have held: "en_FileInfo0 env \<noteq> Inl True \<and> en_FileInfo env \<noteq> Inl True" if "wq_Owner req = j" "\<not> wq_ack req"
    using ans that(1) by (auto simp: file_answers_def resolveForWrite_def split: option.splits)
  have dl: "asm_ok w m j Y wk' (contentOf j L) (contentOf j L')"
    "wq_Owner req = j \<Longrightarrow> \<not> wq_ack req \<Longrightarrow> \<not> wq_FatalErr req \<Longrightarrow> nat (wq_ArtIdx req) \<notin> emittedSet (contentOf j L') \<or> nat (wq_ArtIdx req) \<in> Y"
    using dispatch_line[OF d wk wait _ r o L'(1) Y] held by blast+
  have "worker_ok wk'" using dispatchRequest_ok[OF wk, of env req] d by simp
  moreover have "emittedSet (contentOf j L') \<subseteq> arts_of j (dn_completions (ln_dl L)) \<union> queued_arts j q \<union> Y"
  proof
    fix a assume a: "a \<in> emittedSet (contentOf j L')"
    then have "a \<in> emittedSet (contentOf j L)" using dl(1) unfolding asm_ok_def by blast
    then have "a \<in> arts_of j (dn_completions (ln_dl L)) \<union> queued_arts j (req # q) \<union> X" using inv q unfolding line_inv_def by auto
    moreover have "a \<noteq> nat (wq_ArtIdx req) \<or> a \<in> Y" if "wq_Owner req = j" "\<not> wq_ack req" "\<not> wq_FatalErr req" using dl(2)[OF that] a by blast
    ultimately show "a \<in> arts_of j (dn_completions (ln_dl L)) \<union> queued_arts j q \<union> Y" using Y by (auto split: if_splits)
  qed
  moreover have "held m (contentOf j L')" "opens_ok w m j Y wk' (contentOf j L')" using dl(1) by (simp_all add: asm_ok_def)
  moreover have "\<forall>x\<in>set q. waiting_ok w m j x" using inv q by (simp add: line_inv_def)
  ultimately have "line_inv w m j Y L'" using inv by (simp add: line_inv_def dl_reqs_def L')
  then show ?thesis unfolding L'_def .
qed

lemma line_inv_settles:
  assumes inv: "line_inv w m j X L" and s: "settles_bits m (contentOf j L) c"
  shows "line_inv w m j X (setContent j c L)"
proof -
  have "opens_ok w m j X (ln_wk L) c" by (rule opens_ok_settles[OF _ s]) (use inv in \<open>simp add: line_inv_def\<close>)
  then show ?thesis using inv s by (auto simp: line_inv_def settles_bits_def dl_reqs_def)
qed

lemma line_inv_others: "line_inv w m j X L \<Longrightarrow> k \<noteq> j \<Longrightarrow> line_inv w m j X (setContent k c L)"
  by (rule line_inv_cong) (simp_all add: line_inv_def dl_reqs_def)

lemma line_inv_step: "line_step w m j L Y L' \<Longrightarrow> line_inv w m j X L \<Longrightarrow> line_inv w m j (X \<union> Y) L'"
proof (induction rule: line_step.induct)
  case (pass rows L sent paused connected env opts)
  have r: "held m (contentOf j L)" and reqs: "dl_reqs (request_ok w m j) (ln_dl L)" using pass.prems by (simp_all add: line_inv_def)
  have "request_ok w m j q" if "row \<in> set rows" "q \<in> set (rowRequests row)" for row q
    by (rule rowRequests_ok[OF r _ that(2)]) (use pass.hyps that(1) in \<open>unfold rows_of_def, blast\<close>)
  then have rows: "\<forall>row\<in>set rows. \<forall>q\<in>set (rowRequests row). request_ok w m j q" by blast
  show ?case unfolding Un_empty_right by (rule line_inv_dl[OF pass.prems dl_pass dispatchPass_reqs(1)[OF reqs rows]]) (rule dispatchPass_reqs(2)[OF reqs rows])
next
  case (receive i L d')
  have "dl_reqs (request_ok w m j) (ln_dl L)" using receive.prems by (simp add: line_inv_def)
  note t = takeRequest_reqs[OF receive.hyps this]
  show ?case unfolding Un_empty_right by (rule line_inv_dl[OF receive.prems dl_ok_same t(1)]) (use t in simp_all)
next
  case (fetch i req L env)
  have reqs: "dl_reqs (request_ok w m j) (ln_dl L)" using fetch.prems by (simp add: line_inv_def)
  let ?h = "handleRequest env i req (ln_dl L)"
  let ?d = "?h\<lparr>dn_taken := remove1 (i, req) (dn_taken (ln_dl L)), dn_closing := dn_closing (ln_dl L) @ [req]\<rparr>"
  have q: "request_ok w m j req" using reqs fetch.hyps by (auto simp: dl_reqs_def)
  have same: "same_load (ln_dl L) ?h" using handleRequest_as[of env i req "ln_dl L"] by (simp add: handled_as_def)
  have "dl_ok w m j (ln_dl L) ?d" by (rule dl_ok_trans[OF dl_handle[OF q] dl_ok_same]) simp_all
  moreover have "dl_reqs (request_ok w m j) ?d"
    using same_load_reqs[OF same reqs] reqs set_remove1_subset[of "(i, req)" "dn_taken (ln_dl L)"] unfolding dl_reqs_def by auto
  ultimately show ?case unfolding Un_empty_right by (rule line_inv_dl[OF fetch.prems])
next
  case (finish req L)
  show ?case unfolding Un_empty_right by (rule line_inv_dl[OF finish.prems dl_ok_same])
      (use finish.prems in \<open>simp_all add: line_inv_def clearInFlight_def onTracker_def dl_reqs_def fleet_reqs_def\<close>)
next
  case (reap L aborted registered)
  show ?case unfolding Un_empty_right by (rule line_inv_dl[OF reap dl_ok_same])
      (use reap in \<open>simp_all add: line_inv_def reapTracker_def onTracker_def dl_reqs_def fleet_reqs_def\<close>)
next
  case (expire L now)
  show ?case unfolding Un_empty_right by (rule line_inv_dl[OF expire dl_ok_same])
      (use expire in \<open>simp_all add: line_inv_def checkExpiredPenalties_def dl_reqs_def fleet_reqs_def\<close>)
next
  case (unblock L name)
  show ?case unfolding Un_empty_right by (rule line_inv_dl[OF unblock dl_ok_same])
      (use unblock in \<open>simp_all add: line_inv_def UnblockServer_def case_prod_unfold dl_reqs_def fleet_reqs_def\<close>)
next
  case (deliver res L env)
  show ?case unfolding Un_empty_right by (rule line_inv_deliver) (use deliver in blast)+
next
  case (work L req q env wk' evs ue)
  show ?case by (rule line_inv_work[OF work(4,1,2,3) HOL.refl])
next
  case (control req L)
  have "queued_arts j [req] = {}" using control.hyps by (simp add: control_request_def)
  then show ?case using control by (auto simp: line_inv_def waiting_ok_def)
next
  case (content k L c)
  then show ?case using line_inv_settles line_inv_others by (cases "k = j") auto
next
  case (evict L k)
  have "held m (contentOf j L)" using evict by (simp add: line_inv_def)
  then show ?case using evict line_inv_settles[OF evict quiet_doors(5)] line_inv_others by (cases "k = j") auto
next
  case (hydrate L)
  have "held m (contentOf j L)" using hydrate by (simp add: line_inv_def)
  then show ?case using line_inv_settles[OF hydrate quiet_doors(6)] by simp
next
  case (other L p r s h)
  show ?case unfolding Un_empty_right by (rule line_inv_cong[OF other]) (use other in \<open>simp_all add: line_inv_def contentOf_def\<close>)
qed

lemma line_reach_inv: "line_reach w m j X L \<Longrightarrow> line_inv w m j X L"
proof (induction rule: line_reach.induct)
  case (start L cfgs n noPen maxPen c dk)
  have "fleet_reqs P (newFleet cfgs n)" for P using newFleet_empty[of cfgs n] by (fastforce simp: fleet_reqs_def)
  then show ?case using start
    by (simp add: line_inv_def contentOf_def newDownloader_def dl_reqs_def worker_ok_def opens_ok_def newWorker_def)
next
  case (step X L Y L')
  then show ?case using line_inv_step by blast
qed

section \<open>A run\<close>

text \<open>With no server configured the first pass gives the one article of the job up.\<close>

definition xLineWorld :: pipeWorld where
  "xLineWorld = \<lparr>pw_ident = (\<lambda>i. ''j''), pw_lib = \<lparr>tl_NFC = id, tl_stripDiacritics = id\<rparr>\<rparr>"

definition xLine :: Line where
  "xLine = \<lparr>ln_dl = newDownloader [] 1 False 0 (\<lambda>i. xContent),
     ln_pipe = \<lparr>pl_downloadDir = ''d'', pl_sanitize = \<lparr>so_ReplaceIllegalWith = ''_'', so_ReplaceSpacesWith = [], so_StripDiacritics = False, so_Cleanup = []\<rparr>,
       pl_fileInfo = (\<lambda>k. None)\<rparr>,
     ln_rec = newRecorder, ln_store = \<lparr>written_articles = (\<lambda>k. None), job_files = fmempty\<rparr>, ln_queue = [],
     ln_wk = newWorker (\<lambda>p i. 0), ln_released = 0, ln_hopeless = []\<rparr>"

definition xLinePass :: Line where
  "xLinePass = xLine\<lparr>ln_dl := fst (dispatchPass (\<lambda>r. True) False False xPassEnv xDispatchOpts [xRow] (ln_dl xLine))\<rparr>"

lemma xContent_bits: "(case ct_progress xContent of None \<Rightarrow> False | Some p \<Rightarrow> \<not> emittedAt p 0)"
  by code_simp

lemma xLine_reach: "line_reach xLineWorld xManifest 0 {} xLine"
proof -
  obtain p where p: "ct_progress xContent = Some p" "res_ok xManifest p" by (rule reach_resident[OF xContent_reach xContent_manifest])
  have "\<not> emittedAt p i" for i
  proof
    assume e: "emittedAt p i"
    have "int i < bs_Len (jp_emitted p)" using bits.get_range[OF e] by simp
    then have "i = 0" using shape_ok(6)[OF res_okD(4)[OF p(2)]] num_articles[OF res_okD(1)[OF p(2)]] by (simp add: xManifest_def mf_NumArticles_def)
    then show False using e xContent_bits p(1) by simp
  qed
  then have "emittedSet xContent = {}" by (simp add: emittedSet_def p(1))
  moreover have "held xManifest xContent"
    using content_reach_ok[OF xContent_reach] xContent_manifest p(1) by (intro resident_held) (simp add: resident_def)
  ultimately show ?thesis by (intro line_reach.start[of xLine "[]" 1 False 0 "\<lambda>i. xContent"]) (simp_all add: xLine_def)
qed

lemma xLinePass_reach: "line_reach xLineWorld xManifest 0 {} xLinePass"
proof -
  have "rows_of xLineWorld [xRow] xLine" by (simp add: rows_of_def xRow_def xLineWorld_def xLine_def contentOf_def newDownloader_def)
  from line_reach.step[OF xLine_reach line_step.pass[OF this]] show ?thesis unfolding xLinePass_def by simp
qed

text \<open>The job is evicted while the result waits; the result then hands the article back, although the manifest is gone.\<close>

definition xLineEvicted :: Line where
  "xLineEvicted = setContent 0 (Evict (contentOf 0 xLinePass)) xLinePass"

lemma xLineEvicted_reach: "line_reach xLineWorld xManifest 0 {} xLineEvicted"
  using line_reach.step[OF xLinePass_reach line_step.evict[of _ _ _ _ 0]] unfolding xLineEvicted_def by simp

lemma xLineEvicted_emitted:
  "ct_manifest (contentOf 0 xLineEvicted) = None \<and> ln_queue xLineEvicted = []
   \<and> (case ct_progress (contentOf 0 xLineEvicted) of None \<Rightarrow> False | Some p \<Rightarrow> emittedAt p 0)"
  by code_simp

section \<open>A write reported while the job is evicted\<close>

text \<open>
  The report marks nothing, and the next hydration does not make up for it: the article stays emitted and not
  done, and no pass offers it again. This is why the labels of the steps appear in what is proved of the line.
\<close>

lemma evicted_write_strands:
  assumes "held m (contentOf j L)" "ct_manifest (contentOf j L) = None" "a \<in> emittedSet (contentOf j L)"
    and c_def: "c = fst (AttachArticles (Some m) [] (contentOf j (onAsmEvent w ue (OnArticleWritten j fi (int a) off n crc) L)))"
  shows "a \<in> emittedSet c" "a \<notin> doneSet c"
    "ForEachUnfinishedArticle (\<lambda>v. True) c = Inr vs \<Longrightarrow> v \<in> set vs \<Longrightarrow> vi_artIdx v \<noteq> a"
proof -
  let ?c = "contentOf j L"
  have c: "c = fst (AttachArticles (Some m) [] ?c)"
    using assms(2) unfolding c_def onAsmEvent_line by (simp add: MarkArticleWritten_def)
  obtain p where p: "ct_fileTable ?c = Some (mf_ft m)" "ct_progress ?c = Some p" "emittedSet ?c = {i. emittedAt p i}" using assms(1) by (rule heldE)
  have s: "settles_bits m ?c c" unfolding c by (rule quiet_doors(6)[OF assms(1)])
  have "\<exists>q. ct_progress c = Some q \<and> jp_emitted q = jp_emitted p"
    using p by (auto simp: c AttachArticles_def recompute_def Let_def split: option.splits if_splits)
  then obtain q where q: "ct_progress c = Some q" "jp_emitted q = jp_emitted p" by blast
  show e: "a \<in> emittedSet c" using assms(3) p(3) q by (simp add: emittedSet_def)
  have h: "held m c" using s by (simp add: settles_bits_def)
  show "a \<notin> doneSet c" using emitted_not_done[OF h] e by blast
  assume v: "ForEachUnfinishedArticle (\<lambda>v. True) c = Inr vs" "v \<in> set vs"
  then obtain m' where m': "ct_manifest c = Some m'" by (auto simp: ForEachUnfinishedArticle_def split: option.splits)
  then have "v \<in> set (concat (map (fileVisits m' q) [0..<mf_NumFiles m']))"
    using v q(1) by (auto simp: ForEachUnfinishedArticle_def callUntil_True split: if_splits)
  then have "\<not> emittedAt q (vi_artIdx v)" by (auto simp: fileVisits_def visitOf_def Let_def case_prod_unfold split: if_splits)
  then show "vi_artIdx v \<noteq> a" using e q(1) by (auto simp: emittedSet_def)
qed

end
