(* ===== verification/Nntp_Io.thy ===== *)
theory Nntp_Io
  imports Fetch
begin

text \<open>
  Reading from a news server (\<^verbatim>\<open>internal/nntp/io.go\<close> and the parsing functions of \<^verbatim>\<open>pipeline.go\<close>,
  \<^verbatim>\<open>capabilities.go\<close>, \<^verbatim>\<open>errors.go\<close>): status lines, dot-stuffed bodies, the Message-ID a status line names.
  Errors are the sentinels found in them, as in \<open>goerr\<close>; an error without one is \<open>[]\<close>.
\<close>

section \<open>The buffered reader\<close>

text \<open>
  What \<open>bufio.Reader\<close> is to its user: the bytes the connection still delivers, the error that follows them,
  whether the read that delivers the last of them returns the error too, and the size asked for
  (\<open>NewReaderSize\<close> gives at least 16 bytes).
\<close>

record bufReader =
  br_data :: bytes
  br_err :: goerr
  br_together :: bool
  br_size :: nat

definition bufSize :: "bufReader \<Rightarrow> nat" where
  "bufSize br = max 16 (br_size br)"

datatype sliceError = ErrBufferFull | ReadError goerr

text \<open>\<open>ReadSlice\<close> for the delimiter LF.\<close>

definition ReadSlice :: "bufReader \<Rightarrow> bytes \<times> sliceError option \<times> bufReader" where
  "ReadSlice br =
     (let n = bufSize br; d = br_data br in
      case IndexByte (take n d) 10 of
        Some i \<Rightarrow> (take (Suc i) d, None, br\<lparr>br_data := drop (Suc i) d\<rparr>)
      | None \<Rightarrow>
          if length d < n \<or> length d = n \<and> br_together br then (d, Some (ReadError (br_err br)), br\<lparr>br_data := []\<rparr>)
          else (take n d, Some ErrBufferFull, br\<lparr>br_data := drop n d\<rparr>))"

lemma ReadSlice_line:
  assumes "10 \<notin> set l" "length l < bufSize br" "br_data br = l @ 10 # rest"
  shows "ReadSlice br = (l @ [10], None, br\<lparr>br_data := rest\<rparr>)"
proof -
  have "take (bufSize br) (br_data br) = l @ 10 # take (bufSize br - Suc (length l)) rest"
    using assms(2) by (simp add: assms(3) take_Cons')
  then have "IndexByte (take (bufSize br) (br_data br)) 10 = Some (length l)" using assms(1) by (simp add: IndexByte_app)
  then show ?thesis by (simp add: ReadSlice_def Let_def assms(3))
qed

lemma ReadSlice_full:
  assumes "ReadSlice br = (chunk, Some ErrBufferFull, br1)"
  shows "length (br_data br1) < length (br_data br)" "chunk \<noteq> []"
  using assms by (auto simp: ReadSlice_def Let_def bufSize_def split: option.splits if_splits)

lemma ReadSlice_shorter:
  assumes "ReadSlice br = (chunk, None, br1)"
  shows "length (br_data br1) < length (br_data br)" "\<exists>l. chunk = l @ [10] \<and> 10 \<notin> set l" "br_data br = chunk @ br_data br1"
    "br1 = br\<lparr>br_data := br_data br1\<rparr>"
proof -
  obtain i where i: "IndexByte (take (bufSize br) (br_data br)) 10 = Some i" "chunk = take (Suc i) (br_data br)" "br1 = br\<lparr>br_data := drop (Suc i) (br_data br)\<rparr>"
    using assms by (auto simp: ReadSlice_def Let_def split: option.splits if_splits)
  note x = IndexByte_Some[OF i(1)]
  have lt: "i < length (br_data br)" "br_data br ! i = 10" using x by auto
  have "take i (take (bufSize br) (br_data br)) = take i (br_data br)" using x by simp
  then have "10 \<notin> set (take i (br_data br))" using x by metis
  moreover have "chunk = take i (br_data br) @ [10]" using lt by (simp add: i(2) take_Suc_conv_app_nth)
  ultimately show "\<exists>l. chunk = l @ [10] \<and> 10 \<notin> set l" by blast
  show "length (br_data br1) < length (br_data br)" "br_data br = chunk @ br_data br1" "br1 = br\<lparr>br_data := br_data br1\<rparr>"
    using lt(1) by (simp_all add: i)
qed

section \<open>Status lines\<close>

definition maxResponseLineLen :: nat where
  "maxResponseLineLen = 2048"

definition trimCRLF :: "bytes \<Rightarrow> bytes" where
  "trimCRLF s =
     (let n = length s in
      if n \<ge> 2 \<and> s ! (n - 2) = 13 \<and> s ! (n - 1) = 10 then take (n - 2) s
      else if n \<ge> 1 \<and> s ! (n - 1) = 10 then take (n - 1) s
      else s)"

text \<open>The inner loop that throws the rest of an overlong line away.\<close>

function discardLine :: "bufReader \<Rightarrow> bufReader" where
  "discardLine br =
     (case ReadSlice br of
        (_, Some ErrBufferFull, br1) \<Rightarrow> discardLine br1
      | (_, _, br1) \<Rightarrow> br1)"
  by auto
termination
  by (relation "measure (\<lambda>br. length (br_data br))") (auto dest!: sym[of _ "ReadSlice _"] ReadSlice_full(1))

declare discardLine.simps [simp del]

function respLoop :: "bytes \<Rightarrow> bufReader \<Rightarrow> (goerr, bytes) result \<times> bufReader" where
  "respLoop line br =
     (case ReadSlice br of
        (chunk, None, br1) \<Rightarrow>
          if length (line @ chunk) > maxResponseLineLen then (Inl [], br1) else (Inr (trimCRLF (line @ chunk)), br1)
      | (chunk, Some ErrBufferFull, br1) \<Rightarrow>
          if length (line @ chunk) > maxResponseLineLen then (Inl [], discardLine br1) else respLoop (line @ chunk) br1
      | (chunk, Some (ReadError e), br1) \<Rightarrow>
          (Inl (if goerr_Is e io_EOF \<and> line @ chunk = [] then [io_EOF] else if goerr_Is e io_EOF then [ErrUnexpectedEOF] else e), br1))"
  by auto
termination
  by (relation "measure (\<lambda>(line, br). length (br_data br))") (auto dest!: sym[of _ "ReadSlice _"] ReadSlice_full(1))

declare respLoop.simps [simp del]

definition readResponseLine :: "bufReader \<Rightarrow> (goerr, bytes) result \<times> bufReader" where
  "readResponseLine br = respLoop [] br"

definition isDigit :: "byte \<Rightarrow> bool" where
  "isDigit c \<longleftrightarrow> \<not> (c < 48 \<or> c > 57)"

definition parseStatus :: "bytes \<Rightarrow> (goerr, int \<times> bytes) result" where
  "parseStatus line =
     (if length line < 3 then Inl []
      else if \<not> list_all isDigit (take 3 line) then Inl []
      else case ParseInt (take 3 line) of
             None \<Rightarrow> Inl []
           | Some code \<Rightarrow>
               if length line = 3 then Inr (code, [])
               else if line ! 3 \<noteq> 32 then Inl []
               else Inr (code, drop 4 line))"

section \<open>Bodies\<close>

definition maxBodySize :: nat where
  "maxBodySize = 10 * 1024 * 1024"

text \<open>A line without its LF and the CR before it.\<close>

definition lineBody :: "bytes \<Rightarrow> bytes" where
  "lineBody line = (let e = length line - 1 in if e > 0 \<and> line ! (e - 1) = 13 then take (e - 1) line else take e line)"

definition unstuff :: "bytes \<Rightarrow> bytes" where
  "unstuff body = (if length body > 0 \<and> body ! 0 = 46 then drop 1 body else body)"

function bodyLoop :: "bytes \<Rightarrow> bufReader \<Rightarrow> (goerr, bytes) result \<times> bufReader" where
  "bodyLoop buf br =
     (case ReadSlice br of
        (_, Some (ReadError e), br1) \<Rightarrow> (Inl (if goerr_Is e io_EOF then [ErrUnexpectedEOF] else e), br1)
      | (_, Some ErrBufferFull, br1) \<Rightarrow> (Inl [], br1)
      | (line, None, br1) \<Rightarrow>
          (let body = lineBody line in
           if length body = 1 \<and> body ! 0 = 46 then (Inr buf, br1)
           else if length buf + length (unstuff body) + 1 > maxBodySize then (Inl [], br1)
           else bodyLoop (buf @ unstuff body @ [10]) br1))"
  by auto
termination
  by (relation "measure (\<lambda>(buf, br). length (br_data br))") (auto dest!: sym[of _ "ReadSlice _"] ReadSlice_shorter(1))

declare bodyLoop.simps [simp del]

definition readDotStuffedBody :: "bufReader \<Rightarrow> (goerr, bytes) result \<times> bufReader" where
  "readDotStuffedBody br = bodyLoop [] br"

section \<open>Commands and their responses\<close>

datatype cmdKind = cmdBody | cmdArticle | cmdHead | cmdStat | cmdCapabilities | cmdDate | cmdQuit | cmdAuthInfoUser | cmdAuthInfoPass

text \<open>The success code, whether a body follows and whether the status line names the Message-ID.\<close>

fun successResponse :: "cmdKind \<Rightarrow> int \<times> bool \<times> bool" where
  "successResponse cmdBody = (222, True, True)"
| "successResponse cmdArticle = (220, True, True)"
| "successResponse cmdHead = (221, True, True)"
| "successResponse cmdStat = (223, False, True)"
| "successResponse cmdCapabilities = (101, True, False)"
| "successResponse _ = (0, False, False)"

fun verb :: "cmdKind \<Rightarrow> bytes" where
  "verb cmdBody = lit ''BODY''"
| "verb cmdArticle = lit ''ARTICLE''"
| "verb cmdHead = lit ''HEAD''"
| "verb cmdStat = lit ''STAT''"
| "verb _ = []"

text \<open>\<open>strings.Cut\<close> at a space: without one the rest is empty.\<close>

definition cutSpace :: "bytes \<Rightarrow> bytes \<times> bytes" where
  "cutSpace s = (case bytes_Cut s 32 of None \<Rightarrow> (s, []) | Some fr \<Rightarrow> fr)"

function messageIDFromStatusLine :: "bytes \<Rightarrow> bytes option" where
  "messageIDFromStatusLine rest =
     (if rest = [] then None
      else
        (let (field, rest1) = cutSpace rest in
         if length field \<ge> 3 \<and> field ! 0 = 60 \<and> field ! (length field - 1) = 62 then Some (butlast (tl field))
         else messageIDFromStatusLine rest1))"
  by auto
termination
  by (relation "measure length") (auto simp: cutSpace_def split: option.splits dest!: bytes_Cut_length)

declare messageIDFromStatusLine.simps [simp del]

record pendingCmd =
  pc_kind :: cmdKind
  pc_msgID :: bytes

definition newArticleCmd :: "cmdKind \<Rightarrow> bytes \<Rightarrow> pendingCmd \<times> bytes" where
  "newArticleCmd kind messageID = (\<lparr>pc_kind = kind, pc_msgID = messageID\<rparr>, verb kind @ lit '' <'' @ messageID @ [62, 13, 10])"

definition isServerIdleDisconnect :: "int \<Rightarrow> bytes \<Rightarrow> bool" where
  "isServerIdleDisconnect code text =
     (if code = 205 then True
      else if code \<noteq> 400 then False
      else (let lower = bytes_ToLower text in bytes_Contains lower (lit ''idle'') \<or> bytes_Contains lower (lit ''timeout'')))"

definition classifyStatus :: "int \<Rightarrow> sentinel option" where
  "classifyStatus code =
     (if code = 430 \<or> code = 423 then Some ErrNoArticle
      else if code = 480 then Some ErrAuthRequired
      else if code = 481 \<or> code = 482 then Some ErrAuthRejected
      else if code = 502 \<or> code = 503 then Some ErrServerUnavailable
      else if code \<ge> 400 \<and> code < 600 then Some ErrTransient
      else None)"

text \<open>\<open>ServerError\<close> unwraps to the sentinel of its code.\<close>

definition ServerError :: "int \<Rightarrow> goerr" where
  "ServerError code = (case classifyStatus code of None \<Rightarrow> [] | Some s \<Rightarrow> [s])"

section \<open>What reading gives\<close>

text \<open>A line as a server sends it: stuffed, with CRLF or a bare LF.\<close>

definition stuffed :: "bytes \<Rightarrow> bytes" where
  "stuffed l = (if l \<noteq> [] \<and> hd l = 46 then 46 # l else l)"

definition wireLine :: "bytes \<times> bool \<Rightarrow> bytes" where
  "wireLine lc = stuffed (fst lc) @ (if snd lc then [13, 10] else [10])"

definition sendable :: "nat \<Rightarrow> bytes \<times> bool \<Rightarrow> bool" where
  "sendable n lc \<longleftrightarrow> 10 \<notin> set (fst lc) \<and> length (wireLine lc) \<le> n \<and> (snd lc \<or> fst lc = [] \<or> last (fst lc) \<noteq> 13)"

lemma lineBody_crlf [simp]: "lineBody (s @ [13, 10]) = s"
  by (simp add: lineBody_def Let_def nth_append)

lemma lineBody_lf: "s = [] \<or> last s \<noteq> 13 \<Longrightarrow> lineBody (s @ [10]) = s"
  by (cases s rule: rev_cases) (auto simp: lineBody_def Let_def nth_append)

lemma bodyLoop_step:
  assumes "ReadSlice br = (line, None, br1)"
  shows "bodyLoop buf br = (if length (lineBody line) = 1 \<and> lineBody line ! 0 = 46 then (Inr buf, br1)
      else if length buf + length (unstuff (lineBody line)) + 1 > maxBodySize then (Inl [], br1)
      else bodyLoop (buf @ unstuff (lineBody line) @ [10]) br1)"
  unfolding bodyLoop.simps[of buf br] assms by (simp add: Let_def)

lemma bodyLoop_line:
  assumes s: "sendable (bufSize br) lc" and d: "br_data br = wireLine lc @ rest" and m: "length buf + length (fst lc) + 1 \<le> maxBodySize"
  shows "bodyLoop buf br = bodyLoop (buf @ fst lc @ [10]) (br\<lparr>br_data := rest\<rparr>)"
proof -
  let ?s = "stuffed (fst lc)"
  let ?l = "?s @ (if snd lc then [13] else [])"
  have l: "10 \<notin> set ?l" "length ?l < bufSize br" "br_data br = ?l @ 10 # rest"
    using s d by (auto simp: sendable_def wireLine_def stuffed_def split: if_splits)
  have last: "?s = [] \<or> last ?s = last (fst lc)" by (auto simp: stuffed_def)
  have body: "lineBody (?l @ [10]) = ?s"
    using s last lineBody_lf[of ?s] by (cases "snd lc") (auto simp: sendable_def stuffed_def split: if_splits)
  have "\<not> (length ?s = 1 \<and> ?s ! 0 = 46)" by (cases "fst lc") (auto simp: stuffed_def)
  moreover have "unstuff ?s = fst lc" by (cases "fst lc") (auto simp: stuffed_def unstuff_def)
  ultimately show ?thesis using m bodyLoop_step[OF ReadSlice_line[OF l], of buf] unfolding body by (auto split: if_splits)
qed

lemma bodyLoop_end:
  assumes "br_data br = 46 # 13 # 10 # rest"
  shows "bodyLoop buf br = (Inr buf, br\<lparr>br_data := rest\<rparr>)"
proof -
  have l: "10 \<notin> set [46, 13 :: byte]" "length [46, 13 :: byte] < bufSize br" "br_data br = [46, 13] @ 10 # rest"
    using assms by (simp_all add: bufSize_def)
  have "lineBody ([46, 13] @ [10]) = [46]" using lineBody_crlf[of "[46]"] by simp
  then show ?thesis using bodyLoop_step[OF ReadSlice_line[OF l], of buf] by simp
qed

lemma bodyLoop_lines:
  assumes "\<forall>lc\<in>set ls. sendable (bufSize br) lc" "br_data br = concat (map wireLine ls) @ 46 # 13 # 10 # rest"
    "length buf + (\<Sum>lc\<leftarrow>ls. length (fst lc) + 1) \<le> maxBodySize"
  shows "bodyLoop buf br = (Inr (buf @ concat (map (\<lambda>lc. fst lc @ [10]) ls)), br\<lparr>br_data := rest\<rparr>)"
  using assms
proof (induction ls arbitrary: buf br)
  case Nil
  then show ?case using bodyLoop_end[of br rest buf] by simp
next
  case (Cons lc ls)
  let ?rest = "concat (map wireLine ls) @ 46 # 13 # 10 # rest"
  let ?br = "br\<lparr>br_data := ?rest\<rparr>"
  have "bodyLoop buf br = bodyLoop (buf @ fst lc @ [10]) ?br" by (rule bodyLoop_line) (use Cons.prems in simp_all)
  also have "\<dots> = (Inr ((buf @ fst lc @ [10]) @ concat (map (\<lambda>lc. fst lc @ [10]) ls)), ?br\<lparr>br_data := rest\<rparr>)"
    by (rule Cons.IH) (use Cons.prems in \<open>simp_all add: bufSize_def\<close>)
  finally show ?case by simp
qed

text \<open>Whatever is sent, a body read is bounded, and what was read was there.\<close>

lemma bodyLoop_bound:
  assumes "bodyLoop buf br = (Inr b, br1)" "length buf \<le> maxBodySize"
  shows "length b \<le> maxBodySize \<and> (\<exists>used. br_data br = used @ br_data br1) \<and> br1 = br\<lparr>br_data := br_data br1\<rparr>"
  using assms
proof (induction buf br rule: bodyLoop.induct)
  case (1 buf br)
  obtain line e br2 where rs: "ReadSlice br = (line, e, br2)" by (metis prod.collapse)
  have e: "e = None" using "1.prems"(1) unfolding bodyLoop.simps[of buf br] rs by (auto split: option.splits sliceError.splits)
  note sh = ReadSlice_shorter(3,4)[OF rs[unfolded e]]
  let ?body = "lineBody line" and ?body1 = "unstuff (lineBody line)"
  note bl = bodyLoop_step[OF rs[unfolded e], of buf]
  show ?case
  proof (cases "length ?body = 1 \<and> ?body ! 0 = 46")
    case True
    then have "b = buf" "br1 = br2" using "1.prems"(1) bl by simp_all
    then show ?thesis using "1.prems"(2) sh by auto
  next
    case False
    then have fit: "\<not> length buf + length ?body1 + 1 > maxBodySize" using "1.prems"(1) bl by (auto split: if_splits)
    then have rec: "bodyLoop (buf @ ?body1 @ [10]) br2 = (Inr b, br1)" using "1.prems"(1) bl False by (auto split: if_splits)
    have "length (buf @ ?body1 @ [10]) \<le> maxBodySize" using fit by simp
    then have IH: "length b \<le> maxBodySize \<and> (\<exists>used. br_data br2 = used @ br_data br1) \<and> br1 = br2\<lparr>br_data := br_data br1\<rparr>"
      using "1.IH"[OF rs[symmetric] HOL.refl e HOL.refl False fit rec] by simp
    then obtain used where "br_data br2 = used @ br_data br1" by blast
    then have "br_data br = (line @ used) @ br_data br1" using sh(1) by simp
    then show ?thesis using IH sh(2) by (metis bufReader.surjective bufReader.update_convs(1) bufReader.select_convs)
  qed
qed

lemma respLoop_line:
  assumes "10 \<notin> set l" "br_data br = l @ 10 # rest" "length line + length l + 1 \<le> maxResponseLineLen"
  shows "respLoop line br = (Inr (trimCRLF (line @ l @ [10])), br\<lparr>br_data := rest\<rparr>)"
  using assms
proof (induction line br arbitrary: l rule: respLoop.induct)
  case (1 line br)
  show ?case
  proof (cases "length l < bufSize br")
    case True
    then show ?thesis using "1.prems" unfolding respLoop.simps[of line br] ReadSlice_line[OF "1.prems"(1) True "1.prems"(2)] by simp
  next
    case False
    define n where "n = bufSize br"
    have n: "n \<le> length l" using False by (simp add: n_def)
    have t: "take n (br_data br) = take n l" "drop n (br_data br) = drop n l @ 10 # rest" "\<not> length (br_data br) \<le> n" using n "1.prems"(2) by simp_all
    have "10 \<notin> set (take n l)" using "1.prems"(1) by (meson in_set_takeD)
    then have rs: "ReadSlice br = (take n l, Some ErrBufferFull, br\<lparr>br_data := drop n l @ 10 # rest\<rparr>)"
      using t IndexByte_None[of "take n l" 10] by (simp add: ReadSlice_def Let_def n_def[symmetric])
    have fit: "\<not> length (line @ take n l) > maxResponseLineLen" using "1.prems"(3) by simp
    have "respLoop line br = respLoop (line @ take n l) (br\<lparr>br_data := drop n l @ 10 # rest\<rparr>)"
      using fit unfolding respLoop.simps[of line br] rs by simp
    also have "\<dots> = (Inr (trimCRLF ((line @ take n l) @ drop n l @ [10])), (br\<lparr>br_data := drop n l @ 10 # rest\<rparr>)\<lparr>br_data := rest\<rparr>)"
    proof (rule "1.IH"[OF rs[symmetric] HOL.refl HOL.refl HOL.refl fit])
      show "10 \<notin> set (drop n l)" using "1.prems"(1) by (meson in_set_dropD)
      show "br_data (br\<lparr>br_data := drop n l @ 10 # rest\<rparr>) = drop n l @ 10 # rest" by simp
      show "length (line @ take n l) + length (drop n l) + 1 \<le> maxResponseLineLen" using "1.prems"(3) n by simp
    qed
    also have "(line @ take n l) @ drop n l @ [10] = line @ l @ [10]" by simp
    finally show ?thesis by simp
  qed
qed

lemma trimCRLF_crlf [simp]: "trimCRLF (s @ [13, 10]) = s"
  by (simp add: trimCRLF_def Let_def nth_append)

lemma printBase_code:
  assumes "100 \<le> c" "c < 1000"
  shows "printBase 10 c = [digit (c div 100), digit (c div 10 mod 10), digit (c mod 10)]" "list_all isDigit (printBase 10 c)"
proof -
  have "c div 100 < 10" using assms by linarith
  moreover have "\<not> c div 10 < 10" "\<not> c < 10" using assms by linarith+
  moreover have "c div 10 div 10 = c div 100" by (simp add: div_mult2_eq[symmetric])
  ultimately show p: "printBase 10 c = [digit (c div 100), digit (c div 10 mod 10), digit (c mod 10)]"
    by (simp add: printBase.simps)
  have "isDigit (digit d)" if "d < 10" for d using that unat_digit[of d] by (simp add: isDigit_def word_less_nat_alt)
  then show "list_all isDigit (printBase 10 c)" using \<open>c div 100 < 10\<close> by (simp add: p)
qed

lemma parseStatus_print:
  assumes "100 \<le> c" "c < 1000"
  shows "parseStatus (printBase 10 c @ 32 # text) = Inr (int c, text)"
proof -
  note p = printBase_code[OF assms]
  have l: "length (printBase 10 c) = 3" by (simp add: p(1))
  have "c < 2 ^ 63" using assms by simp
  note i = ParseInt_print[OF this]
  have t: "take 3 (printBase 10 c @ 32 # text) = printBase 10 c" "(printBase 10 c @ 32 # text) ! 3 = 32" "drop 4 (printBase 10 c @ 32 # text) = text"
    using l by (simp_all add: nth_append)
  show ?thesis unfolding parseStatus_def t i using l p(2) by simp
qed

lemma messageID_found:
  assumes "32 \<notin> set num" "num \<noteq> []" "num ! 0 \<noteq> 60" "32 \<notin> set ident" "ident \<noteq> []" "comment = [] \<or> hd comment = 32"
  shows "messageIDFromStatusLine (num @ 32 # 60 # ident @ 62 # comment) = Some ident"
proof -
  let ?f = "60 # ident @ [62]"
  have "cutSpace (num @ 32 # 60 # ident @ 62 # comment) = (num, ?f @ comment)"
    using assms(1) by (simp add: cutSpace_def bytes_Cut_app)
  then have 1: "messageIDFromStatusLine (num @ 32 # 60 # ident @ 62 # comment) = messageIDFromStatusLine (?f @ comment)"
    using assms(2,3) by (subst messageIDFromStatusLine.simps) simp
  have "\<exists>r. cutSpace (?f @ comment) = (?f, r)"
  proof (cases comment)
    case Nil
    then show ?thesis using assms(4) IndexByte_None[of ?f 32] by (simp add: cutSpace_def bytes_Cut_def)
  next
    case (Cons a r)
    then have "?f @ comment = ?f @ 32 # r" using assms(6) by simp
    moreover have "32 \<notin> set ?f" using assms(4) by simp
    ultimately show ?thesis using bytes_Cut_app[of 32 ?f r] by (simp add: cutSpace_def)
  qed
  then obtain r where c: "cutSpace (?f @ comment) = (?f, r)" by blast
  have l: "length ?f \<ge> 3" "?f ! 0 = 60" "?f ! (length ?f - 1) = 62" "butlast (tl ?f) = ident" using assms(5)
    by (cases ident; simp add: nth_append)+
  have "messageIDFromStatusLine (?f @ comment) = Some ident"
    unfolding messageIDFromStatusLine.simps[of "?f @ comment"] c Let_def prod.case using l by simp
  with 1 show ?thesis by simp
qed

lemma printBase_plain: "32 \<notin> set (printBase 10 n)" "10 \<notin> set (printBase 10 n)" "printBase 10 n ! 0 \<noteq> 60"
proof -
  have b: "48 \<le> unat c" if "c \<in> set (printBase 10 n)" for c using printBase_bytes[of 10 c n] that by simp
  then show "32 \<notin> set (printBase 10 n)" "10 \<notin> set (printBase 10 n)" by fastforce+
  have dig: "unat c \<le> 57" if "c \<in> set (printBase 10 n)" for c using that
  proof (induction "10 :: nat" n rule: printBase.induct)
    case (1 n)
    show ?case
    proof (cases "n < 10")
      case True
      then show ?thesis using 1 by (simp add: printBase.simps unat_digit)
    next
      case False
      then show ?thesis using 1 by (auto simp: printBase.simps[of 10 n] unat_digit)
    qed
  qed
  have "printBase 10 n ! 0 \<in> set (printBase 10 n)" using printBase_nonempty[of 10 n] by simp
  from dig[OF this] show "printBase 10 n ! 0 \<noteq> 60" by auto
qed

section \<open>Property\<close>

text \<open>C40: A response is read as it was sent: a status line with any three-digit code, an article number, a bracketed
  Message-ID and any commentary, followed by the lines of a body with leading dots doubled, ended by CRLF or
  a bare LF, and the final dot, gives back the code, the Message-ID and the lines joined by LF, and leaves
  the reader exactly at what follows. The size of the read buffer matters only for the length of a body
  line. No stream of bytes makes the reader accept a longer body than 10 MiB.\<close>

theorem nntp_response_roundtrip:
  assumes code: "100 \<le> c" "c < 1000" and ident: "32 \<notin> set ident" "10 \<notin> set ident" "ident \<noteq> []"
    and comment: "comment = [] \<or> hd comment = 32" "10 \<notin> set comment"
    and stat: "text = printBase 10 num @ 32 # 60 # ident @ 62 # comment" "length text + 6 \<le> maxResponseLineLen"
    and lines: "\<forall>lc\<in>set ls. sendable (bufSize br) lc" "(\<Sum>lc\<leftarrow>ls. length (fst lc) + 1) \<le> maxBodySize"
    and data: "br_data br = printBase 10 c @ 32 # text @ [13, 10] @ concat (map wireLine ls) @ [46, 13, 10] @ rest"
  shows "(\<exists>br1. readResponseLine br = (Inr (printBase 10 c @ 32 # text), br1)
      \<and> parseStatus (printBase 10 c @ 32 # text) = Inr (int c, text) \<and> messageIDFromStatusLine text = Some ident
      \<and> readDotStuffedBody br1 = (Inr (concat (map (\<lambda>lc. fst lc @ [10]) ls)), br\<lparr>br_data := rest\<rparr>))
    \<and> (\<forall>br0 body br2. readDotStuffedBody br0 = (Inr body, br2) \<longrightarrow> length body \<le> maxBodySize)"
proof -
  let ?body = "concat (map wireLine ls) @ 46 # 13 # 10 # rest"
  let ?l = "printBase 10 c @ 32 # text @ [13]"
  have "10 \<notin> set text" using ident(2) comment(2) printBase_plain(2) by (simp add: stat(1))
  then have "10 \<notin> set ?l" using printBase_plain(2) by simp
  moreover have "br_data br = ?l @ 10 # ?body" by (simp add: data)
  moreover have "length [] + length ?l + 1 \<le> maxResponseLineLen" using stat(2) by (simp add: printBase_code(1)[OF code])
  ultimately have l: "10 \<notin> set ?l" "br_data br = ?l @ 10 # ?body" "length [] + length ?l + 1 \<le> maxResponseLineLen" .
  have line: "readResponseLine br = (Inr (printBase 10 c @ 32 # text), br\<lparr>br_data := ?body\<rparr>)"
    unfolding readResponseLine_def respLoop_line[OF l] using trimCRLF_crlf[of "printBase 10 c @ 32 # text"] by simp
  have "\<forall>lc\<in>set ls. sendable (bufSize (br\<lparr>br_data := ?body\<rparr>)) lc" using lines(1) by (simp add: bufSize_def)
  from bodyLoop_lines[OF this, of rest "[]"] have "readDotStuffedBody (br\<lparr>br_data := ?body\<rparr>) = (Inr (concat (map (\<lambda>lc. fst lc @ [10]) ls)), br\<lparr>br_data := rest\<rparr>)"
    using lines(2) by (simp add: readDotStuffedBody_def)
  moreover have "messageIDFromStatusLine text = Some ident"
    unfolding stat(1) by (rule messageID_found[OF printBase_plain(1) printBase_nonempty printBase_plain(3) ident(1,3) comment(1)])
  moreover have "length body \<le> maxBodySize" if "readDotStuffedBody br0 = (Inr body, br2)" for br0 body br2
    using bodyLoop_bound[of "[]" br0 body br2] that by (simp add: readDotStuffedBody_def)
  ultimately show ?thesis using line parseStatus_print[OF code] by blast
qed

definition xReader :: bufReader where
  "xReader = \<lparr>br_data = printBase 10 222 @ 32 # (printBase 10 0 @ 32 # 60 # lit ''a@b'' @ [62]) @ [13, 10] @ [46, 46, 120, 13, 10, 13, 10] @ [46, 13, 10] @ [7],
     br_err = [io_EOF], br_together = False, br_size = 16\<rparr>"

theorem nntp_response_roundtrip_witness:
  "\<exists>br1. readResponseLine xReader = (Inr (printBase 10 222 @ 32 # (printBase 10 0 @ 32 # 60 # lit ''a@b'' @ [62])), br1)
    \<and> readDotStuffedBody br1 = (Inr [46, 120, 10, 10], xReader\<lparr>br_data := [7]\<rparr>)"
proof -
  have "length (printBase 10 0) = 1" by (simp add: printBase.simps)
  then have "length (printBase 10 0 @ 32 # 60 # lit ''a@b'' @ 62 # []) + 6 \<le> maxResponseLineLen"
    by (simp add: maxResponseLineLen_def lit_def)
  note r = nntp_response_roundtrip[OF _ _ _ _ _ _ _ HOL.refl this, of 222 "[([46, 120], True), ([], True)]" xReader "[7]"]
  have "32 \<notin> set (lit ''a@b'')" "10 \<notin> set (lit ''a@b'')" "lit ''a@b'' \<noteq> []" by (simp_all add: lit_def of_char_def)
  then show ?thesis using r by (simp add: xReader_def sendable_def wireLine_def stuffed_def bufSize_def maxBodySize_def) blast
qed

end
