(* ===== verification/Nntp_Conn.thy ===== *)
theory Nntp_Conn
  imports Nntp_Io
begin

text \<open>
  One connection to a news server (\<^verbatim>\<open>internal/nntp/conn.go\<close>, \<^verbatim>\<open>pipeline.go\<close>, \<^verbatim>\<open>state.go\<close>): the handshake,
  callers that pipeline commands, the reader goroutine that pairs responses with them, and closing, as
  interleaved steps. A critical section under one of the locks is one step. \<open>br_data\<close> is what the connection
  delivers until it fails or is closed; deadlines are kept as armed or not.
\<close>

section \<open>States\<close>

datatype nntpState = StateDisconnected | StateConnected | StateAuthenticated | StateReady | StateClosed

fun nntp_canTransition :: "nntpState \<Rightarrow> nntpState \<Rightarrow> bool" where
  "nntp_canTransition StateDisconnected next = (next = StateConnected \<or> next = StateClosed)"
| "nntp_canTransition StateConnected next = (next = StateAuthenticated \<or> next = StateReady \<or> next = StateClosed)"
| "nntp_canTransition StateAuthenticated next = (next = StateReady \<or> next = StateClosed)"
| "nntp_canTransition StateReady next = (next = StateConnected \<or> next = StateClosed)"
| "nntp_canTransition StateClosed next = False"

section \<open>The connection\<close>

record cmdResult =
  cr_code :: int
  cr_line :: bytes
  cr_body :: bytes
  cr_err :: "goerr option"
  cr_success :: bool

text \<open>The idle timer of the connection: commands in flight and whether the read deadline is set.\<close>

record idleTimeoutReader =
  ir_inFlight :: int
  ir_armed :: bool
  ir_underflows :: nat

datatype onceState = OnceFree | OnceRunning | OnceDone

type_synonym cmdId = nat

text \<open>Where the reader goroutine, the body of \<open>Close\<close> and a call of \<open>Fetch\<close> or \<open>Stat\<close> stand.\<close>

datatype readerPhase =
    RdLine
  | RdStatus int bytes
  | RdPaired cmdId cmdResult
  | RdRelease
  | RdFinish goerr bool
  | RdWaking goerr "cmdId list"
  | RdEnded

datatype closePhase = ClNone | ClQuit | ClWake | ClWaking "cmdId list" | ClEnded

datatype callPhase =
    CallBlocked
  | CallAcquired
  | CallAppended
  | CallReleasing goerr
  | CallWaiting
  | CallReturned "(goerr, bytes) result"

text \<open>
  A command is named by the identity of its entry. \<open>cn_results\<close> has the entries whose channel \<open>done\<close> is
  closed; closing it again would panic. \<open>cn_appended\<close>, \<open>cn_popped\<close>, \<open>cn_drained\<close> and \<open>cn_withdrawn\<close> keep the
  history of the queue.
\<close>

record Conn =
  cn_state :: nntpState
  cn_br :: bufReader
  cn_wire :: bytes
  cn_pending :: "cmdId list"
  cn_sem :: nat
  cn_cap :: nat
  cn_closed :: "goerr option option"
  cn_once :: onceState
  cn_itr :: "idleTimeoutReader option"
  cn_send :: "cmdId option"
  cn_cmds :: "cmdId \<rightharpoonup> pendingCmd"
  cn_results :: "cmdId \<rightharpoonup> cmdResult"
  cn_calls :: "cmdId \<rightharpoonup> callPhase"
  cn_reader :: readerPhase
  cn_close :: closePhase
  cn_panicked :: bool
  cn_appended :: "cmdId list"
  cn_popped :: "cmdId list"
  cn_drained :: "cmdId list"
  cn_withdrawn :: "cmdId set"

definition nntp_setState :: "nntpState \<Rightarrow> Conn \<Rightarrow> Conn \<times> goerr option" where
  "nntp_setState next c = (if nntp_canTransition (cn_state c) next then (c\<lparr>cn_state := next\<rparr>, None) else (c, Some [ErrInvalidState]))"

section \<open>The handshake\<close>

text \<open>A write with its flush: all of it, or an error after so many bytes.\<close>

type_synonym writeOut = "(nat \<times> goerr) option"

definition bw_write :: "writeOut \<Rightarrow> bytes \<Rightarrow> Conn \<Rightarrow> Conn" where
  "bw_write out cmd c = c\<lparr>cn_wire := cn_wire c @ (case out of None \<Rightarrow> cmd | Some (n, e) \<Rightarrow> take n cmd)\<rparr>"

text \<open>Reading and parsing one status line.\<close>

definition readStatus :: "Conn \<Rightarrow> Conn \<times> (goerr, int \<times> bytes) result" where
  "readStatus c =
     (case readResponseLine (cn_br c) of
        (Inl e, br) \<Rightarrow> (c\<lparr>cn_br := br\<rparr>, Inl e)
      | (Inr line, br) \<Rightarrow> (c\<lparr>cn_br := br\<rparr>, parseStatus line))"

definition expectGreeting :: "Conn \<Rightarrow> Conn \<times> goerr option" where
  "expectGreeting c =
     (case readStatus c of
        (c1, Inl e) \<Rightarrow> (c1, Some e)
      | (c1, Inr (code, text)) \<Rightarrow>
          if code \<noteq> 200 \<and> code \<noteq> 201 then (c1, Some (ServerError code)) else nntp_setState StateConnected c1)"

definition validateCredential :: "bytes \<Rightarrow> goerr option" where
  "validateCredential val = (if list_ex (\<lambda>b. b \<in> {13, 10, 0}) val then Some [ErrInvalidCredential] else None)"

text \<open>The second half of \<open>authenticate\<close>, after the server asked for a password.\<close>

definition authPass :: "writeOut \<Rightarrow> bytes \<Rightarrow> Conn \<Rightarrow> Conn \<times> goerr option" where
  "authPass out pass c =
     (let c1 = bw_write out (lit ''AUTHINFO PASS '' @ pass @ [13, 10]) c in
      case out of Some (n, e) \<Rightarrow> (c1, Some e)
      | None \<Rightarrow>
        (case readStatus c1 of
           (c2, Inl e) \<Rightarrow> (c2, Some e)
         | (c2, Inr (code, text)) \<Rightarrow>
             if code = 281 then nntp_setState StateAuthenticated c2
             else if code = 481 \<or> code = 482 then (c2, Some [ErrAuthRejected])
             else (c2, Some (ServerError code))))"

definition authenticate :: "writeOut \<Rightarrow> writeOut \<Rightarrow> bytes \<Rightarrow> bytes \<Rightarrow> Conn \<Rightarrow> Conn \<times> goerr option" where
  "authenticate out1 out2 user pass c =
     (case validateCredential user of
        Some e \<Rightarrow> (c, Some e)
      | None \<Rightarrow>
          (case validateCredential pass of
             Some e \<Rightarrow> (c, Some e)
           | None \<Rightarrow>
               (let c1 = bw_write out1 (lit ''AUTHINFO USER '' @ user @ [13, 10]) c in
                case out1 of Some (n, e) \<Rightarrow> (c1, Some e)
                | None \<Rightarrow>
                  (case readStatus c1 of
                     (c2, Inl e) \<Rightarrow> (c2, Some e)
                   | (c2, Inr (code, text)) \<Rightarrow>
                       if code = 281 then nntp_setState StateAuthenticated c2
                       else if code = 381 then authPass out2 pass c2
                       else if code = 481 \<or> code = 482 then (c2, Some [ErrAuthRejected])
                       else (c2, Some (ServerError code))))))"

text \<open>The probe only moves the reader along; what it learns is for display.\<close>

definition probeCapabilities :: "writeOut \<Rightarrow> Conn \<Rightarrow> Conn" where
  "probeCapabilities out c =
     (let c1 = bw_write out (lit ''CAPABILITIES'' @ [13, 10]) c in
      if out \<noteq> None then c1
      else
        (case readStatus c1 of
           (c2, Inl e) \<Rightarrow> c2
         | (c2, Inr (code, text)) \<Rightarrow>
             if code \<noteq> 101 then c2 else (case readDotStuffedBody (cn_br c2) of (r, br) \<Rightarrow> c2\<lparr>cn_br := br\<rparr>)))"

definition handshake :: "writeOut \<times> writeOut \<times> writeOut \<Rightarrow> bytes \<Rightarrow> bytes \<Rightarrow> Conn \<Rightarrow> Conn \<times> goerr option" where
  "handshake outs user pass c =
     (case expectGreeting c of
        (c1, Some e) \<Rightarrow> (c1, Some e)
      | (c1, None) \<Rightarrow>
          (case (if user \<noteq> [] then authenticate (fst outs) (fst (snd outs)) user pass c1 else (c1, None)) of
             (c2, Some e) \<Rightarrow> (c2, Some e)
           | (c2, None) \<Rightarrow> nntp_setState StateReady (probeCapabilities (snd (snd outs)) c2)))"

section \<open>The queue\<close>

definition closeCause :: "Conn \<Rightarrow> goerr option" where
  "closeCause c = (case cn_closed c of None \<Rightarrow> None | Some e \<Rightarrow> e)"

definition closeError :: "Conn \<Rightarrow> goerr" where
  "closeError c = (case closeCause c of Some e \<Rightarrow> e | None \<Rightarrow> [ErrClosed])"

definition itr_begin :: "idleTimeoutReader \<Rightarrow> idleTimeoutReader" where
  "itr_begin r = r\<lparr>ir_inFlight := ir_inFlight r + 1, ir_armed := (if ir_inFlight r = 0 then True else ir_armed r)\<rparr>"

definition itr_end :: "idleTimeoutReader \<Rightarrow> idleTimeoutReader" where
  "itr_end r =
     (if ir_inFlight r \<le> 0 then r\<lparr>ir_underflows := ir_underflows r + 1\<rparr>
      else r\<lparr>ir_inFlight := ir_inFlight r - 1, ir_armed := (if ir_inFlight r - 1 = 0 then False else ir_armed r)\<rparr>)"

text \<open>What a read does to the deadline once the handshake is over.\<close>

definition itr_read :: "idleTimeoutReader \<Rightarrow> idleTimeoutReader" where
  "itr_read r = r\<lparr>ir_armed := (ir_inFlight r \<noteq> 0)\<rparr>"

definition beginCmd :: "Conn \<Rightarrow> Conn" where
  "beginCmd c = c\<lparr>cn_itr := map_option itr_begin (cn_itr c)\<rparr>"

definition endCmd :: "Conn \<Rightarrow> Conn" where
  "endCmd c = c\<lparr>cn_itr := map_option itr_end (cn_itr c)\<rparr>"

definition readsDeadline :: "Conn \<Rightarrow> Conn" where
  "readsDeadline c = c\<lparr>cn_itr := map_option itr_read (cn_itr c)\<rparr>"

text \<open>Filling the result and closing \<open>done\<close>.\<close>

definition closeDone :: "cmdId \<Rightarrow> cmdResult \<Rightarrow> Conn \<Rightarrow> Conn" where
  "closeDone i res c =
     (if cn_results c i \<noteq> None then c\<lparr>cn_panicked := True\<rparr> else c\<lparr>cn_results := (cn_results c)(i \<mapsto> res)\<rparr>)"

definition errResult :: "goerr \<Rightarrow> cmdResult" where
  "errResult e = \<lparr>cr_code = 0, cr_line = [], cr_body = [], cr_err = Some e, cr_success = False\<rparr>"

definition popPending :: "Conn \<Rightarrow> cmdId option \<times> Conn" where
  "popPending c =
     (case cn_pending c of
        [] \<Rightarrow> (None, c)
      | i # rest \<Rightarrow> (Some i, c\<lparr>cn_pending := rest, cn_popped := cn_popped c @ [i]\<rparr>))"

definition unappendPending :: "cmdId \<Rightarrow> Conn \<Rightarrow> Conn" where
  "unappendPending i c =
     (if cn_pending c \<noteq> [] \<and> last (cn_pending c) = i
      then endCmd (c\<lparr>cn_pending := butlast (cn_pending c), cn_withdrawn := insert i (cn_withdrawn c)\<rparr>)
      else c)"

definition releaseSem :: "Conn \<Rightarrow> Conn" where
  "releaseSem c = c\<lparr>cn_sem := cn_sem c - 1\<rparr>"

text \<open>Draining the queue: by the reader with the store to \<open>closed\<close>, by \<open>Close\<close> after it.\<close>

definition drain :: "Conn \<Rightarrow> Conn" where
  "drain c = c\<lparr>cn_pending := [], cn_drained := cn_pending c\<rparr>"

definition finishReaderWithMode :: "goerr \<Rightarrow> bool \<Rightarrow> Conn \<Rightarrow> Conn option" where
  "finishReaderWithMode err prePop c =
     (case cn_once c of
        OnceRunning \<Rightarrow> None
      | OnceDone \<Rightarrow> Some (c\<lparr>cn_reader := RdEnded\<rparr>)
      | OnceFree \<Rightarrow>
          (let e = (if prePop \<and> cn_pending c = [] \<and> \<not> goerr_Is err ErrIdleClosed then ErrIdleClosed # err else err) in
           Some ((drain c)\<lparr>cn_once := OnceRunning, cn_closed := Some (Some e), cn_reader := RdWaking e (cn_pending c)\<rparr>)))"

section \<open>The reader\<close>

text \<open>The check that a successful response answers the command it is paired with.\<close>

definition checkReply :: "pendingCmd \<Rightarrow> cmdResult \<Rightarrow> goerr option" where
  "checkReply pc res =
     (case successResponse (pc_kind pc) of
        (expected, hasBody, echoesMsgID) \<Rightarrow>
          if cr_success res \<and> echoesMsgID
          then (case messageIDFromStatusLine (cr_line res) of
                  None \<Rightarrow> Some [ErrDesynced]
                | Some got \<Rightarrow> if got \<noteq> pc_msgID pc then Some [ErrDesynced] else None)
          else None)"

definition failPopped :: "cmdId \<Rightarrow> cmdResult \<Rightarrow> goerr \<Rightarrow> Conn \<Rightarrow> Conn" where
  "failPopped i res err c = (closeDone i (res\<lparr>cr_err := Some err\<rparr>) c)\<lparr>cn_reader := RdFinish err False\<rparr>"

definition deliver :: "cmdId \<Rightarrow> cmdResult \<Rightarrow> Conn \<Rightarrow> Conn" where
  "deliver i res c = (endCmd (closeDone i res c))\<lparr>cn_reader := RdRelease\<rparr>"

text \<open>From the popped command to its result.\<close>

definition answerPopped :: "cmdId \<Rightarrow> cmdResult \<Rightarrow> Conn \<Rightarrow> Conn" where
  "answerPopped i res c =
     (case cn_cmds c i of
        None \<Rightarrow> c
      | Some pc \<Rightarrow>
          (case checkReply pc res of
             Some e \<Rightarrow> failPopped i res e c
           | None \<Rightarrow>
               if cr_success res \<and> fst (snd (successResponse (pc_kind pc)))
               then (case readDotStuffedBody (cn_br c) of
                       (Inl e, br) \<Rightarrow> failPopped i res e ((readsDeadline c)\<lparr>cn_br := br\<rparr>)
                     | (Inr body, br) \<Rightarrow> deliver i (res\<lparr>cr_body := body\<rparr>) ((readsDeadline c)\<lparr>cn_br := br\<rparr>))
               else deliver i res c))"

text \<open>One step of \<open>runReader\<close>; \<open>None\<close> when it has ended or waits for the body of \<open>Close\<close>.\<close>

definition runReader :: "Conn \<Rightarrow> Conn option" where
  "runReader c =
     (case cn_reader c of
        RdLine \<Rightarrow>
          (case readStatus (readsDeadline c) of
             (c1, Inl e) \<Rightarrow> Some (c1\<lparr>cn_reader := RdFinish e True\<rparr>)
           | (c1, Inr (code, text)) \<Rightarrow>
               if isServerIdleDisconnect code text then Some (c1\<lparr>cn_reader := RdFinish [ErrIdleClosed] False\<rparr>)
               else Some (c1\<lparr>cn_reader := RdStatus code text\<rparr>))
      | RdStatus code text \<Rightarrow>
          (case popPending c of
             (None, c1) \<Rightarrow> Some (c1\<lparr>cn_reader := RdFinish [ErrIdleClosed] False\<rparr>)
           | (Some i, c1) \<Rightarrow>
               (let ok = (case cn_cmds c i of None \<Rightarrow> False | Some pc \<Rightarrow> code = fst (successResponse (pc_kind pc))) in
                Some (c1\<lparr>cn_reader := RdPaired i \<lparr>cr_code = code, cr_line = text, cr_body = [], cr_err = None, cr_success = ok\<rparr>\<rparr>)))
      | RdPaired i res \<Rightarrow> Some (answerPopped i res c)
      | RdRelease \<Rightarrow>
          if cn_sem c > 0 then Some (c\<lparr>cn_sem := cn_sem c - 1, cn_reader := RdLine\<rparr>)
          else Some (c\<lparr>cn_reader := RdFinish [] False\<rparr>)
      | RdFinish e prePop \<Rightarrow> finishReaderWithMode e prePop c
      | RdWaking e [] \<Rightarrow> Some (c\<lparr>cn_once := OnceDone, cn_reader := RdEnded\<rparr>)
      | RdWaking e (i # is) \<Rightarrow> Some ((closeDone i (errResult e) c)\<lparr>cn_reader := RdWaking e is\<rparr>)
      | RdEnded \<Rightarrow> None)"

section \<open>Closing\<close>

text \<open>One step of the body of \<open>Close\<close>; a call that finds it entered already only waits.\<close>

definition Close_step :: "writeOut \<Rightarrow> Conn \<Rightarrow> Conn option" where
  "Close_step out c =
     (case cn_close c of
        ClNone \<Rightarrow>
          if cn_once c = OnceFree then Some (c\<lparr>cn_once := OnceRunning, cn_closed := Some None, cn_close := ClQuit\<rparr>) else None
      | ClQuit \<Rightarrow>
          (let c1 = (if cn_state c = StateReady \<and> cn_send c = None then bw_write out (lit ''QUIT'' @ [13, 10]) c else c) in
           Some ((fst (nntp_setState StateClosed c1))\<lparr>cn_close := ClWake\<rparr>))
      | ClWake \<Rightarrow> Some ((drain c)\<lparr>cn_close := ClWaking (cn_pending c)\<rparr>)
      | ClWaking [] \<Rightarrow> Some (c\<lparr>cn_once := OnceDone, cn_close := ClEnded\<rparr>)
      | ClWaking (i # is) \<Rightarrow> Some ((closeDone i (errResult [ErrClosed]) c)\<lparr>cn_close := ClWaking is\<rparr>)
      | ClEnded \<Rightarrow> None)"

section \<open>Calls\<close>

definition setCall :: "cmdId \<Rightarrow> callPhase \<Rightarrow> Conn \<Rightarrow> Conn" where
  "setCall i ph c = c\<lparr>cn_calls := (cn_calls c)(i \<mapsto> ph)\<rparr>"

text \<open>The start of \<open>Fetch\<close> and \<open>Stat\<close>, and the slot of the pipelining semaphore.\<close>

definition call_start :: "cmdId \<Rightarrow> Conn \<Rightarrow> Conn" where
  "call_start i c = (if cn_state c \<noteq> StateReady then setCall i (CallReturned (Inl [ErrInvalidState])) c else setCall i CallBlocked c)"

definition call_acquire :: "cmdId \<Rightarrow> cmdKind \<Rightarrow> bytes \<Rightarrow> Conn \<Rightarrow> Conn" where
  "call_acquire i kind messageID c =
     setCall i CallAcquired (c\<lparr>cn_sem := cn_sem c + 1, cn_cmds := (cn_cmds c)(i \<mapsto> fst (newArticleCmd kind messageID))\<rparr>)"

text \<open>\<open>submit\<close>: the check and the append under the lock; the write; what a failed write undoes.\<close>

definition submit_append :: "cmdId \<Rightarrow> Conn \<Rightarrow> Conn" where
  "submit_append i c =
     (if cn_closed c \<noteq> None then setCall i (CallReturned (Inl (closeError c))) (releaseSem c)
      else setCall i CallAppended (beginCmd (c\<lparr>cn_send := Some i, cn_pending := cn_pending c @ [i], cn_appended := cn_appended c @ [i]\<rparr>)))"

definition submit_write :: "writeOut \<Rightarrow> cmdId \<Rightarrow> Conn \<Rightarrow> Conn" where
  "submit_write out i c =
     (let wire = (case cn_cmds c i of None \<Rightarrow> [] | Some pc \<Rightarrow> snd (newArticleCmd (pc_kind pc) (pc_msgID pc))); c1 = bw_write out wire c in
      case out of
        None \<Rightarrow> setCall i CallWaiting (c1\<lparr>cn_send := None\<rparr>)
      | Some (n, e) \<Rightarrow> setCall i (CallReleasing e) (unappendPending i c1))"

definition submit_undone :: "goerr \<Rightarrow> cmdId \<Rightarrow> Conn \<Rightarrow> Conn" where
  "submit_undone e i c =
     (let c1 = releaseSem c; ce = closeError c1 in
      setCall i (CallReturned (Inl (if goerr_Is ce ErrIdleClosed then ce else e))) (c1\<lparr>cn_send := None\<rparr>))"

text \<open>What a call returns of a result.\<close>

definition callResult :: "cmdResult \<Rightarrow> (goerr, bytes) result" where
  "callResult res =
     (case cr_err res of
        Some e \<Rightarrow> Inl e
      | None \<Rightarrow>
          (case classifyStatus (cr_code res) of
             Some s \<Rightarrow> Inl [s]
           | None \<Rightarrow> if \<not> cr_success res then Inl (ServerError (cr_code res)) else Inr (cr_body res)))"

end
