(* ===== verification/Nntp_Safety.thy ===== *)
theory Nntp_Safety
  imports Nntp_Conn
begin

text \<open>
  The connection as a step relation, its invariant, and what callers can rely on: every command is answered
  once, whoever closes the connection, and an article returned is the one asked for.
\<close>

section \<open>Steps\<close>

definition openConn :: "bufReader \<Rightarrow> bytes \<Rightarrow> nat \<Rightarrow> bool \<Rightarrow> Conn" where
  "openConn br wire cap hasTimer =
     \<lparr>cn_state = StateReady, cn_br = br, cn_wire = wire, cn_pending = [], cn_sem = 0, cn_cap = cap, cn_closed = None, cn_once = OnceFree,
      cn_itr = (if hasTimer then Some \<lparr>ir_inFlight = 0, ir_armed = False, ir_underflows = 0\<rparr> else None), cn_send = None,
      cn_cmds = Map.empty, cn_results = Map.empty, cn_calls = Map.empty, cn_reader = RdLine, cn_close = ClNone, cn_panicked = False,
      cn_appended = [], cn_popped = [], cn_drained = [], cn_withdrawn = {}\<rparr>"

inductive conn_step :: "Conn \<Rightarrow> Conn \<Rightarrow> bool" where
  call: "cn_calls c i = None \<Longrightarrow> conn_step c (call_start i c)"
| acquire: "cn_calls c i = Some CallBlocked \<Longrightarrow> cn_sem c < cn_cap c \<Longrightarrow> kind = cmdBody \<or> kind = cmdStat \<Longrightarrow>
    conn_step c (call_acquire i kind messageID c)"
| abandon: "cn_calls c i = Some CallBlocked \<Longrightarrow> conn_step c (setCall i (CallReturned (Inl e)) c)"
| submit: "cn_calls c i = Some CallAcquired \<Longrightarrow> cn_send c = None \<Longrightarrow> conn_step c (submit_append i c)"
| sending: "cn_calls c i = Some CallAppended \<Longrightarrow> conn_step c (submit_write out i c)"
| undone: "cn_calls c i = Some (CallReleasing e) \<Longrightarrow> conn_step c (submit_undone e i c)"
| answered: "cn_calls c i = Some CallWaiting \<Longrightarrow> cn_results c i = Some res \<Longrightarrow> conn_step c (setCall i (CallReturned (callResult res)) c)"
| cancelled: "cn_calls c i = Some CallWaiting \<Longrightarrow> conn_step c (setCall i (CallReturned (Inl e)) c)"
| reader: "runReader c = Some c' \<Longrightarrow> conn_step c c'"
| closing: "Close_step out c = Some c' \<Longrightarrow> conn_step c c'"

inductive conn_reach :: "Conn \<Rightarrow> bool" where
  start: "conn_reach (openConn br wire cap hasTimer)"
| step: "conn_reach c \<Longrightarrow> conn_step c c' \<Longrightarrow> conn_reach c'"

section \<open>The invariant\<close>

fun heldBy :: "readerPhase \<Rightarrow> cmdId list" where
  "heldBy (RdPaired i res) = [i]"
| "heldBy _ = []"

fun wokenBy :: "readerPhase \<Rightarrow> cmdId list" where
  "wokenBy (RdWaking e is) = is"
| "wokenBy _ = []"

fun wakes :: "readerPhase \<Rightarrow> bool" where
  "wakes (RdWaking e is) = True"
| "wakes _ = False"

fun closedBy :: "closePhase \<Rightarrow> cmdId list" where
  "closedBy (ClWaking is) = is"
| "closedBy _ = []"

definition live :: "Conn \<Rightarrow> cmdId list" where
  "live c = cn_pending c @ heldBy (cn_reader c) @ wokenBy (cn_reader c) @ closedBy (cn_close c)"

text \<open>Where an entry is: exactly one of in the queue, with the reader, with a closer, answered, withdrawn.\<close>

definition places_ok :: "Conn \<Rightarrow> bool" where
  "places_ok c \<longleftrightarrow> distinct (live c) \<and> set (live c) \<inter> dom (cn_results c) = {} \<and> set (live c) \<inter> cn_withdrawn c = {}
     \<and> dom (cn_results c) \<inter> cn_withdrawn c = {} \<and> set (cn_appended c) = set (live c) \<union> dom (cn_results c) \<union> cn_withdrawn c"

text \<open>Who runs the body of \<open>closeOnce\<close>.\<close>

fun once_phase :: "onceState \<Rightarrow> closePhase \<Rightarrow> readerPhase \<Rightarrow> bool \<Rightarrow> bool \<Rightarrow> bool \<Rightarrow> bool" where
  "once_phase OnceFree cl rd closed idle undrained \<longleftrightarrow> cl = ClNone \<and> \<not> wakes rd \<and> rd \<noteq> RdEnded \<and> \<not> closed \<and> undrained"
| "once_phase OnceRunning cl rd closed idle undrained \<longleftrightarrow> closed \<and> rd \<noteq> RdEnded \<and>
     (if wakes rd then cl = ClNone \<and> idle else cl = ClQuit \<and> undrained \<or> cl = ClWake \<and> undrained \<or> (\<exists>is. cl = ClWaking is) \<and> idle)"
| "once_phase OnceDone cl rd closed idle undrained \<longleftrightarrow> closed \<and> \<not> wakes rd \<and> (cl = ClNone \<or> cl = ClEnded) \<and> idle"

definition once_ok :: "Conn \<Rightarrow> bool" where
  "once_ok c \<longleftrightarrow> once_phase (cn_once c) (cn_close c) (cn_reader c) (cn_closed c \<noteq> None) (cn_pending c = []) (cn_drained c = [])"

fun call_ok :: "cmdId list \<Rightarrow> cmdId set \<Rightarrow> (cmdId \<rightharpoonup> pendingCmd) \<Rightarrow> (cmdId \<rightharpoonup> cmdResult) \<Rightarrow> cmdId option \<Rightarrow> cmdId \<Rightarrow> callPhase option \<Rightarrow> bool" where
  "call_ok app wd cmds results lock i None \<longleftrightarrow> i \<notin> set app"
| "call_ok app wd cmds results lock i (Some CallBlocked) \<longleftrightarrow> i \<notin> set app"
| "call_ok app wd cmds results lock i (Some CallAcquired) \<longleftrightarrow> i \<notin> set app \<and> (\<exists>pc. cmds i = Some pc \<and> (pc_kind pc = cmdBody \<or> pc_kind pc = cmdStat))"
| "call_ok app wd cmds results lock i (Some CallAppended) \<longleftrightarrow> i \<in> set app \<and> i \<notin> wd \<and> lock = Some i"
| "call_ok app wd cmds results lock i (Some (CallReleasing e)) \<longleftrightarrow> i \<in> set app \<and> lock = Some i"
| "call_ok app wd cmds results lock i (Some CallWaiting) \<longleftrightarrow> i \<in> set app \<and> i \<notin> wd"
| "call_ok app wd cmds results lock i (Some (CallReturned (Inl e))) \<longleftrightarrow> True"
| "call_ok app wd cmds results lock i (Some (CallReturned (Inr body))) \<longleftrightarrow> (\<exists>res. results i = Some res \<and> callResult res = Inr body)"

abbreviation call_at :: "Conn \<Rightarrow> cmdId \<Rightarrow> callPhase option \<Rightarrow> bool" where
  "call_at c \<equiv> call_ok (cn_appended c) (cn_withdrawn c) (cn_cmds c) (cn_results c) (cn_send c)"

definition calls_ok :: "Conn \<Rightarrow> bool" where
  "calls_ok c \<longleftrightarrow> (\<forall>i. call_at c i (cn_calls c i))
     \<and> (\<forall>i\<in>set (cn_appended c). \<exists>pc. cn_cmds c i = Some pc \<and> (pc_kind pc = cmdBody \<or> pc_kind pc = cmdStat))
     \<and> distinct (cn_appended c)"

definition fifo_ok :: "Conn \<Rightarrow> bool" where
  "fifo_ok c \<longleftrightarrow> filter (\<lambda>i. i \<notin> cn_withdrawn c) (cn_appended c) = cn_popped c @ cn_pending c @ cn_drained c"

text \<open>The count of commands in flight and the deadline.\<close>

definition timed :: "nat \<Rightarrow> idleTimeoutReader option \<Rightarrow> bool" where
  "timed n it \<longleftrightarrow> (\<forall>r. it = Some r \<longrightarrow> ir_underflows r = 0 \<and> int n \<le> ir_inFlight r \<and> (ir_armed r \<longleftrightarrow> ir_inFlight r \<noteq> 0))"

lemma timed_steps:
  "timed n it \<Longrightarrow> timed (Suc n) (map_option itr_begin it)" "timed (Suc n) it \<Longrightarrow> timed n (map_option itr_end it)"
  "timed n it \<Longrightarrow> timed n (map_option itr_read it)" "timed n it \<Longrightarrow> k \<le> n \<Longrightarrow> timed k it"
  by (cases it; simp add: timed_def itr_begin_def itr_end_def itr_read_def)+

definition timer_ok :: "Conn \<Rightarrow> bool" where
  "timer_ok c \<longleftrightarrow> timed (length (cn_pending c) + length (heldBy (cn_reader c))) (cn_itr c)"

text \<open>A result without error answers its command.\<close>

definition answers :: "pendingCmd \<Rightarrow> cmdResult \<Rightarrow> bool" where
  "answers pc res \<longleftrightarrow> (cr_success res \<longrightarrow> cr_code res = fst (successResponse (pc_kind pc)) \<and> messageIDFromStatusLine (cr_line res) = Some (pc_msgID pc)
     \<and> length (cr_body res) \<le> maxBodySize)"

definition results_ok :: "Conn \<Rightarrow> bool" where
  "results_ok c \<longleftrightarrow> (\<forall>i res. cn_results c i = Some res \<longrightarrow> cr_err res = None \<longrightarrow> (\<exists>pc. cn_cmds c i = Some pc \<and> answers pc res))
     \<and> (\<forall>i res. cn_reader c = RdPaired i res \<longrightarrow> cr_err res = None \<and> cr_body res = []
          \<and> (\<forall>pc. cn_cmds c i = Some pc \<longrightarrow> cr_success res = (cr_code res = fst (successResponse (pc_kind pc)))))"

definition conn_inv :: "Conn \<Rightarrow> bool" where
  "conn_inv c \<longleftrightarrow> \<not> cn_panicked c \<and> places_ok c \<and> once_ok c \<and> calls_ok c \<and> fifo_ok c \<and> timer_ok c \<and> results_ok c"

lemmas conn_parts = live_def places_ok_def calls_ok_def fifo_ok_def timer_ok_def results_ok_def
lemmas conn_defs = conn_parts once_ok_def

lemma conn_inv_start: "conn_inv (openConn br wire cap hasTimer)"
  by (simp add: conn_inv_def conn_defs openConn_def timed_def)

lemma conn_invD:
  assumes "conn_inv c"
  shows "\<not> cn_panicked c" "places_ok c" "once_ok c" "calls_ok c" "fifo_ok c" "timer_ok c" "results_ok c"
  using assms by (simp_all add: conn_inv_def)

text \<open>Fields the invariant does not read.\<close>

lemma conn_inv_quiet [simp]:
  "conn_inv (c\<lparr>cn_sem := n\<rparr>) = conn_inv c" "conn_inv (c\<lparr>cn_br := br\<rparr>) = conn_inv c" "conn_inv (c\<lparr>cn_wire := wr\<rparr>) = conn_inv c"
  "conn_inv (c\<lparr>cn_state := st\<rparr>) = conn_inv c" "conn_inv (releaseSem c) = conn_inv c" "conn_inv (bw_write out cmd c) = conn_inv c"
  by (simp_all add: conn_inv_def conn_defs releaseSem_def bw_write_def)

lemma inv_readsDeadline: "conn_inv c \<Longrightarrow> conn_inv (readsDeadline c)"
  by (simp add: conn_inv_def conn_defs readsDeadline_def timed_steps)

lemma appended_places:
  assumes "conn_inv c"
  shows "set (live c) \<subseteq> set (cn_appended c)" "dom (cn_results c) \<subseteq> set (cn_appended c)" "cn_withdrawn c \<subseteq> set (cn_appended c)"
  using conn_invD(2)[OF assms] by (auto simp: places_ok_def)

lemma call_atI: "conn_inv c \<Longrightarrow> cn_calls c i = ph \<Longrightarrow> call_at c i ph"
  using conn_invD(4) by (fastforce simp: calls_ok_def)

text \<open>The phase of a call.\<close>

lemma inv_setCall:
  assumes "conn_inv c" "call_at c i (Some ph)"
  shows "conn_inv (setCall i ph c)"
proof -
  note d = conn_invD[OF assms(1)]
  have "call_at c k (((cn_calls c)(i \<mapsto> ph)) k)" for k using d(4) assms(2) by (simp add: calls_ok_def)
  then have "calls_ok (setCall i ph c)" using d(4) by (simp add: calls_ok_def setCall_def)
  moreover have "places_ok (setCall i ph c) = places_ok c" "once_ok (setCall i ph c) = once_ok c" "fifo_ok (setCall i ph c) = fifo_ok c"
    "timer_ok (setCall i ph c) = timer_ok c" "results_ok (setCall i ph c) = results_ok c" "cn_panicked (setCall i ph c) = cn_panicked c"
    by (simp_all add: conn_defs setCall_def)
  ultimately show ?thesis using d by (simp add: conn_inv_def)
qed

lemma inv_call_acquire:
  assumes inv: "conn_inv c" and b: "cn_calls c i = Some CallBlocked" and k: "kind = cmdBody \<or> kind = cmdStat"
  shows "conn_inv (call_acquire i kind messageID c)"
proof -
  let ?cmds = "(cn_cmds c)(i \<mapsto> fst (newArticleCmd kind messageID))"
  let ?c = "c\<lparr>cn_sem := cn_sem c + 1, cn_cmds := ?cmds\<rparr>"
  note d = conn_invD[OF inv]
  have fresh: "i \<notin> set (cn_appended c)" using call_atI[OF inv b] by simp
  have ne: "k \<noteq> i" if "k \<in> dom (cn_results c) \<or> k \<in> set (heldBy (cn_reader c))" for k
    using that fresh appended_places[OF inv] by (auto simp: live_def)
  have kind: "pc_kind (fst (newArticleCmd kind messageID)) = kind" by (simp add: newArticleCmd_def)
  have "call_ok (cn_appended c) (cn_withdrawn c) ?cmds (cn_results c) (cn_send c) k (cn_calls c k)" for k
    using call_atI[OF inv HOL.refl, of k] b
    by (cases "(cn_appended c, cn_withdrawn c, cn_cmds c, cn_results c, cn_send c, k, cn_calls c k)" rule: call_ok.cases) auto
  then have "calls_ok ?c" using d(4) fresh by (auto simp: calls_ok_def)
  moreover have "results_ok ?c" unfolding results_ok_def
  proof (intro conjI allI impI)
    fix k res assume "cn_results ?c k = Some res" "cr_err res = None"
    then show "\<exists>pc. cn_cmds ?c k = Some pc \<and> answers pc res" using d(7) ne[of k] by (auto simp: results_ok_def)
  next
    fix k res assume "cn_reader ?c = RdPaired k res"
    then have r: "cn_reader c = RdPaired k res" by simp
    then show "cr_err res = None" "cr_body res = []" using d(7) by (auto simp: results_ok_def)
    fix pc assume "cn_cmds ?c k = Some pc"
    then show "cr_success res = (cr_code res = fst (successResponse (pc_kind pc)))"
      using d(7) ne[of k] r by (auto simp: results_ok_def)
  qed
  moreover have "places_ok ?c = places_ok c" "once_ok ?c = once_ok c" "fifo_ok ?c = fifo_ok c" "timer_ok ?c = timer_ok c"
    by (simp_all add: conn_defs)
  ultimately have "conn_inv ?c" using d by (simp add: conn_inv_def)
  then show ?thesis unfolding call_acquire_def by (rule inv_setCall) (use fresh k kind in simp)
qed

text \<open>Submitting.\<close>

lemma inv_append:
  assumes inv: "conn_inv c" and b: "cn_calls c i = Some CallAcquired" and free: "cn_send c = None" and opn: "cn_closed c = None"
  shows "conn_inv (setCall i CallAppended (beginCmd (c\<lparr>cn_send := Some i, cn_pending := cn_pending c @ [i], cn_appended := cn_appended c @ [i]\<rparr>)))" (is "conn_inv ?c")
proof -
  note d = conn_invD[OF inv] and ap = appended_places[OF inv]
  have at: "i \<notin> set (cn_appended c)" "\<exists>pc. cn_cmds c i = Some pc \<and> (pc_kind pc = cmdBody \<or> pc_kind pc = cmdStat)" using call_atI[OF inv b] by simp_all
  have new: "i \<notin> set (live c)" "i \<notin> dom (cn_results c)" "i \<notin> cn_withdrawn c" using at(1) ap by blast+
  have once: "cn_once c = OnceFree" using d(3) opn by (cases "cn_once c") (simp_all add: once_ok_def)
  have "distinct (live ?c)" using d(2) new(1) by (auto simp: places_ok_def live_def setCall_def beginCmd_def)
  moreover have s: "set (live ?c) = insert i (set (live c))" by (auto simp: live_def setCall_def beginCmd_def)
  moreover have rest: "cn_results ?c = cn_results c" "cn_withdrawn ?c = cn_withdrawn c" "cn_appended ?c = cn_appended c @ [i]"
    by (simp_all add: setCall_def beginCmd_def)
  ultimately have p: "places_ok ?c" using d(2) new unfolding places_ok_def by (auto simp: rest s)
  have "call_at ?c k (cn_calls ?c k)" for k
  proof (cases "k = i")
    case True
    then show ?thesis using new(3) by (simp add: setCall_def beginCmd_def)
  next
    case False
    then have "call_ok (cn_appended c @ [i]) (cn_withdrawn c) (cn_cmds c) (cn_results c) (Some i) k (cn_calls c k)"
      using call_atI[OF inv HOL.refl, of k] free
      by (cases "(cn_appended c, cn_withdrawn c, cn_cmds c, cn_results c, cn_send c, k, cn_calls c k)" rule: call_ok.cases) auto
    then show ?thesis using False by (simp add: setCall_def beginCmd_def)
  qed
  then have "calls_ok ?c" using d(4) at by (auto simp: calls_ok_def setCall_def beginCmd_def)
  moreover have "fifo_ok ?c" using d(3,5) once new(3) by (simp add: fifo_ok_def once_ok_def setCall_def beginCmd_def)
  moreover have "timer_ok ?c" using timed_steps(1)[OF d(6)[unfolded timer_ok_def]] by (simp add: timer_ok_def setCall_def beginCmd_def)
  moreover have "once_ok ?c" "results_ok ?c" "\<not> cn_panicked ?c" using d(1,3,7) once by (simp_all add: once_ok_def results_ok_def setCall_def beginCmd_def)
  ultimately show ?thesis using p by (simp add: conn_inv_def)
qed

text \<open>Giving the lock of the senders back.\<close>

lemma inv_unlock:
  assumes inv: "conn_inv c" and lock: "cn_send c = Some i" and ph: "call_at c i (Some ph)" "ph \<noteq> CallAppended" "\<And>e. ph \<noteq> CallReleasing e"
  shows "conn_inv (setCall i ph (c\<lparr>cn_send := None\<rparr>))" (is "conn_inv ?c")
proof -
  note d = conn_invD[OF inv]
  have "call_at ?c k (cn_calls ?c k)" for k
  proof (cases "k = i")
    case True
    then show ?thesis using ph by (cases ph; cases "cn_results c i") (auto simp: setCall_def split: sum.splits elim: call_ok.elims)
  next
    case False
    then have "call_ok (cn_appended c) (cn_withdrawn c) (cn_cmds c) (cn_results c) None k (cn_calls c k)"
      using call_atI[OF inv HOL.refl, of k] lock
      by (cases "(cn_appended c, cn_withdrawn c, cn_cmds c, cn_results c, cn_send c, k, cn_calls c k)" rule: call_ok.cases) auto
    then show ?thesis using False by (simp add: setCall_def)
  qed
  then have "calls_ok ?c" using d(4) by (simp add: calls_ok_def setCall_def)
  then show ?thesis using d by (simp add: conn_inv_def conn_defs setCall_def)
qed

lemma filter_without_last:
  assumes "filter P xs = as @ [x]" "distinct xs"
  shows "filter (\<lambda>y. y \<noteq> x \<and> P y) xs = as"
proof -
  have "filter (\<lambda>y. y \<noteq> x \<and> P y) xs = filter (\<lambda>y. y \<noteq> x) (filter P xs)" by (simp add: conj_commute)
  also have "\<dots> = filter (\<lambda>y. y \<noteq> x) (as @ [x])" by (simp only: assms(1))
  also have "\<dots> = as"
  proof -
    have "distinct (as @ [x])" using assms by (metis distinct_filter)
    then show ?thesis by (auto simp: filter_id_conv)
  qed
  finally show ?thesis .
qed

lemma inv_unappend:
  assumes inv: "conn_inv c" and b: "cn_calls c i = Some CallAppended"
  shows "conn_inv (setCall i (CallReleasing e) (unappendPending i c))"
proof (cases "cn_pending c \<noteq> [] \<and> last (cn_pending c) = i")
  case False
  then have "unappendPending i c = c" by (auto simp: unappendPending_def)
  then show ?thesis using inv_setCall[OF inv, of i "CallReleasing e"] call_atI[OF inv b] by simp
next
  case True
  define pre where "pre = butlast (cn_pending c)"
  have pend: "cn_pending c = pre @ [i]" using True by (auto simp: pre_def)
  let ?c = "setCall i (CallReleasing e) (unappendPending i c)"
  have f: "cn_pending ?c = pre" "cn_withdrawn ?c = insert i (cn_withdrawn c)" "cn_results ?c = cn_results c" "cn_appended ?c = cn_appended c"
    "cn_reader ?c = cn_reader c" "cn_close ?c = cn_close c" "cn_once ?c = cn_once c" "cn_closed ?c = cn_closed c" "cn_drained ?c = cn_drained c"
    "cn_itr ?c = map_option itr_end (cn_itr c)" "cn_cmds ?c = cn_cmds c" "cn_send ?c = cn_send c" "cn_popped ?c = cn_popped c" "cn_panicked ?c = cn_panicked c"
    "cn_calls ?c = (cn_calls c)(i \<mapsto> CallReleasing e)"
    using True by (simp_all add: unappendPending_def setCall_def endCmd_def pre_def)
  note d = conn_invD[OF inv] and at = call_atI[OF inv b]
  have ne: "cn_pending c \<noteq> []" by (simp add: pend)
  have live: "live c = pre @ i # heldBy (cn_reader c) @ wokenBy (cn_reader c) @ closedBy (cn_close c)"
    "live ?c = pre @ heldBy (cn_reader c) @ wokenBy (cn_reader c) @ closedBy (cn_close c)" by (simp_all add: live_def f pend)
  have p: "places_ok ?c" using d(2) unfolding places_ok_def f live by auto
  have drained: "cn_drained c = []" using d(3) ne by (cases "cn_once c") (auto simp: once_ok_def split: if_splits)
  have "call_ok (cn_appended c) (insert i (cn_withdrawn c)) (cn_cmds c) (cn_results c) (cn_send c) k (cn_calls c k)" if "k \<noteq> i" for k
    using call_atI[OF inv HOL.refl, of k] that
    by (cases "(cn_appended c, cn_withdrawn c, cn_cmds c, cn_results c, cn_send c, k, cn_calls c k)" rule: call_ok.cases) auto
  then have "calls_ok ?c" using d(4) at unfolding calls_ok_def f by simp
  moreover have "fifo_ok ?c"
  proof -
    have "filter (\<lambda>k. k \<notin> cn_withdrawn c) (cn_appended c) = (cn_popped c @ pre) @ [i]" using d(5) drained by (simp add: fifo_ok_def pend)
    from filter_without_last[OF this] d(4) show ?thesis unfolding fifo_ok_def f drained by (simp add: calls_ok_def)
  qed
  moreover have "timer_ok ?c" using d(6) timed_steps(2) unfolding timer_ok_def f by (simp add: pend)
  moreover have "once_ok ?c" using d(3) ne unfolding once_ok_def f by (cases "cn_once c") (auto split: if_splits)
  moreover have "results_ok ?c" using d(7) unfolding results_ok_def f .
  ultimately show ?thesis using p d(1) by (simp add: conn_inv_def f)
qed

lemma inv_submit_write:
  assumes inv: "conn_inv c" and b: "cn_calls c i = Some CallAppended"
  shows "conn_inv (submit_write out i c)"
proof -
  define wr where "wr = (case cn_cmds c i of None \<Rightarrow> [] | Some pc \<Rightarrow> snd (newArticleCmd (pc_kind pc) (pc_msgID pc)))"
  let ?c1 = "bw_write out wr c"
  have inv1: "conn_inv ?c1" using inv by simp
  have same: "cn_calls ?c1 = cn_calls c" "cn_send ?c1 = cn_send c" "cn_appended ?c1 = cn_appended c" "cn_withdrawn ?c1 = cn_withdrawn c"
    by (simp_all add: bw_write_def)
  note at = call_atI[OF inv b]
  show ?thesis
  proof (cases out)
    case None
    then show ?thesis using inv_unlock[OF inv1, of i CallWaiting] at same by (simp add: submit_write_def wr_def[symmetric] Let_def)
  next
    case (Some ne)
    obtain n e where "ne = (n, e)" by force
    then show ?thesis using inv_unappend[OF inv1, of i e] b same Some by (simp add: submit_write_def wr_def[symmetric] Let_def)
  qed
qed

lemma inv_submit_undone:
  assumes inv: "conn_inv c" and b: "cn_calls c i = Some (CallReleasing e0)"
  shows "conn_inv (submit_undone e i c)"
proof -
  have "conn_inv (releaseSem c)" "cn_send (releaseSem c) = Some i" using inv call_atI[OF inv b] by (simp_all add: releaseSem_def[of c])
  then show ?thesis using inv_unlock[of "releaseSem c" i] by (simp add: submit_undone_def Let_def)
qed

text \<open>The reader moves on without a command in hand.\<close>

definition plain :: "readerPhase \<Rightarrow> bool" where
  "plain rd \<longleftrightarrow> heldBy rd = [] \<and> \<not> wakes rd \<and> rd \<noteq> RdEnded"

lemma plainD: "plain rd \<Longrightarrow> heldBy rd = []" "plain rd \<Longrightarrow> wokenBy rd = []" "plain rd \<Longrightarrow> \<not> wakes rd" "plain rd \<Longrightarrow> rd \<noteq> RdEnded" "plain rd \<Longrightarrow> rd \<noteq> RdPaired i res"
  by (cases rd; simp add: plain_def)+

lemma once_phase_plain: "plain rd \<Longrightarrow> plain rd' \<Longrightarrow> once_phase st cl rd' a b u = once_phase st cl rd a b u"
  by (cases st) (simp_all add: plainD)

lemma inv_plain:
  assumes inv: "conn_inv c" and p: "plain (cn_reader c)" "plain ph"
  shows "conn_inv (c\<lparr>cn_reader := ph\<rparr>)"
proof -
  note d = conn_invD[OF inv]
  have "once_ok (c\<lparr>cn_reader := ph\<rparr>) = once_ok c" using once_phase_plain[OF p] by (simp add: once_ok_def)
  moreover have "places_ok (c\<lparr>cn_reader := ph\<rparr>) = places_ok c" "timer_ok (c\<lparr>cn_reader := ph\<rparr>) = timer_ok c" "results_ok (c\<lparr>cn_reader := ph\<rparr>) = results_ok c"
    using p by (simp_all add: places_ok_def live_def timer_ok_def results_ok_def plainD)
  ultimately show ?thesis using d by (simp add: conn_inv_def calls_ok_def fifo_ok_def)
qed

lemma inv_pop:
  assumes inv: "conn_inv c" and pend: "cn_pending c = i # rest" and p: "plain (cn_reader c)"
    and res: "cr_err res = None" "cr_body res = []" "\<And>pc. cn_cmds c i = Some pc \<Longrightarrow> cr_success res = (cr_code res = fst (successResponse (pc_kind pc)))"
  shows "conn_inv (c\<lparr>cn_pending := rest, cn_popped := cn_popped c @ [i], cn_reader := RdPaired i res\<rparr>)" (is "conn_inv ?c")
proof -
  note d = conn_invD[OF inv]
  have "live c = i # rest @ closedBy (cn_close c)" "live ?c = rest @ i # closedBy (cn_close c)" using p pend by (simp_all add: live_def plainD)
  then have "places_ok ?c" using d(2) unfolding places_ok_def by auto
  moreover have "once_ok ?c" using d(3) pend p by (cases "cn_once c") (auto simp: once_ok_def plainD split: if_splits)
  moreover have "timer_ok ?c" using d(6) pend p by (simp add: timer_ok_def plainD)
  moreover have "fifo_ok ?c" using d(5) pend by (simp add: fifo_ok_def)
  moreover have "results_ok ?c" using d(7) res by (simp add: results_ok_def)
  ultimately show ?thesis using d by (simp add: conn_inv_def calls_ok_def)
qed

text \<open>An entry gets its result.\<close>

lemma inv_answer:
  assumes inv: "conn_inv c" and live: "set (live c) = insert i (set (live c'))" "i \<notin> set (live c')" "distinct (live c')"
    and same: "cn_results c' = (cn_results c)(i \<mapsto> res)" "cn_panicked c' = cn_panicked c" "cn_appended c' = cn_appended c" "cn_withdrawn c' = cn_withdrawn c"
      "cn_cmds c' = cn_cmds c" "cn_calls c' = cn_calls c" "cn_send c' = cn_send c" "cn_popped c' = cn_popped c" "cn_pending c' = cn_pending c" "cn_drained c' = cn_drained c"
    and once: "once_ok c'" and timer: "timer_ok c'" and rd: "heldBy (cn_reader c') = [] \<or> cn_reader c' = cn_reader c"
    and res: "cr_err res = None \<Longrightarrow> \<exists>pc. cn_cmds c i = Some pc \<and> answers pc res"
  shows "conn_inv c'"
proof -
  note d = conn_invD[OF inv]
  have new: "cn_results c i = None" using d(2) live(1) by (auto simp: places_ok_def)
  have "places_ok c'" using d(2) live new unfolding places_ok_def same by auto
  moreover have "call_ok (cn_appended c) (cn_withdrawn c) (cn_cmds c) ((cn_results c)(i \<mapsto> res)) (cn_send c) k (cn_calls c k)" for k
    using call_atI[OF inv HOL.refl, of k] new
    by (cases "(cn_appended c, cn_withdrawn c, cn_cmds c, cn_results c, cn_send c, k, cn_calls c k)" rule: call_ok.cases) auto
  then have "calls_ok c'" using d(4) unfolding calls_ok_def same by simp
  moreover have "results_ok c'"
    using d(7) res rd unfolding results_ok_def same by (cases "cn_reader c'") auto
  ultimately show ?thesis using d once timer by (simp add: conn_inv_def same fifo_ok_def)
qed

lemma closeDone_new: "cn_results c i = None \<Longrightarrow> closeDone i res c = c\<lparr>cn_results := (cn_results c)(i \<mapsto> res)\<rparr>"
  by (simp add: closeDone_def)

lemma live_unanswered: "conn_inv c \<Longrightarrow> i \<in> set (live c) \<Longrightarrow> cn_results c i = None"
  using conn_invD(2) by (fastforce simp: places_ok_def)

lemma paired_live:
  assumes inv: "conn_inv c" and rd: "cn_reader c = RdPaired i res0"
  shows "live c = cn_pending c @ i # closedBy (cn_close c)" "cn_results c i = None" "i \<notin> set (cn_pending c @ closedBy (cn_close c))"
    "distinct (cn_pending c @ closedBy (cn_close c))"
proof -
  show l: "live c = cn_pending c @ i # closedBy (cn_close c)" by (simp add: live_def rd)
  then show "cn_results c i = None" using live_unanswered[OF inv] by simp
  show "i \<notin> set (cn_pending c @ closedBy (cn_close c))" "distinct (cn_pending c @ closedBy (cn_close c))"
    using conn_invD(2)[OF inv] l by (auto simp: places_ok_def)
qed

lemma once_phase_paired: "plain rd \<Longrightarrow> once_phase st cl (RdPaired i res) a b u = once_phase st cl rd a b u"
  by (cases st) (simp_all add: plainD)

lemma inv_failPopped:
  assumes inv: "conn_inv c" and rd: "cn_reader c = RdPaired i res0"
  shows "conn_inv (failPopped i res e c)"
proof -
  note p = paired_live[OF inv rd] and d = conn_invD[OF inv]
  let ?c = "failPopped i res e c"
  have c: "?c = c\<lparr>cn_results := (cn_results c)(i \<mapsto> res\<lparr>cr_err := Some e\<rparr>), cn_reader := RdFinish e False\<rparr>"
    by (simp add: failPopped_def closeDone_new[OF p(2)])
  have l: "live ?c = cn_pending c @ closedBy (cn_close c)" by (simp add: c live_def)
  have "plain (RdFinish e False)" by (simp add: plain_def)
  then have "once_ok ?c" using d(3) once_phase_paired by (simp add: once_ok_def c rd)
  moreover have "timer_ok ?c" using d(6) timed_steps(4) by (simp add: timer_ok_def c rd)
  ultimately show ?thesis by (intro inv_answer[OF inv, where i = i and res = "res\<lparr>cr_err := Some e\<rparr>"]) (use p l in \<open>simp_all add: c\<close>)
qed

lemma inv_deliver:
  assumes inv: "conn_inv c" and rd: "cn_reader c = RdPaired i res0" and res: "\<exists>pc. cn_cmds c i = Some pc \<and> answers pc res"
  shows "conn_inv (deliver i res c)"
proof -
  note p = paired_live[OF inv rd] and d = conn_invD[OF inv]
  let ?c = "deliver i res c"
  have c: "?c = c\<lparr>cn_results := (cn_results c)(i \<mapsto> res), cn_itr := map_option itr_end (cn_itr c), cn_reader := RdRelease\<rparr>"
    by (simp add: deliver_def closeDone_new[OF p(2)] endCmd_def)
  have l: "live ?c = cn_pending c @ closedBy (cn_close c)" by (simp add: c live_def)
  have "plain RdRelease" by (simp add: plain_def)
  then have "once_ok ?c" using d(3) once_phase_paired by (simp add: once_ok_def c rd)
  moreover have "timer_ok ?c" using d(6) timed_steps(2) by (simp add: timer_ok_def c rd)
  ultimately show ?thesis by (intro inv_answer[OF inv, where i = i and res = res]) (use p l res in \<open>simp_all add: c\<close>)
qed

lemma checkReply_ok:
  assumes "checkReply pc res = None" "pc_kind pc = cmdBody \<or> pc_kind pc = cmdStat" "cr_success res = (cr_code res = fst (successResponse (pc_kind pc)))"
    "length (cr_body res) \<le> maxBodySize"
  shows "answers pc res"
  using assms by (auto simp: checkReply_def answers_def split: option.splits if_splits)

lemma inv_answerPopped:
  assumes inv: "conn_inv c" and rd: "cn_reader c = RdPaired i res"
  shows "conn_inv (answerPopped i res c)"
proof -
  have "i \<in> set (cn_appended c)" using paired_live(1)[OF inv rd] appended_places(1)[OF inv] by simp
  then obtain pc where pc: "cn_cmds c i = Some pc" "pc_kind pc = cmdBody \<or> pc_kind pc = cmdStat"
    using conn_invD(4)[OF inv] by (auto simp: calls_ok_def)
  have r: "cr_err res = None" "cr_body res = []" "cr_success res = (cr_code res = fst (successResponse (pc_kind pc)))"
    using conn_invD(7)[OF inv] rd pc(1) by (auto simp: results_ok_def)
  let ?c = "\<lambda>br. (readsDeadline c)\<lparr>cn_br := br\<rparr>"
  have inv1: "conn_inv (?c br)" for br using inv_readsDeadline[OF inv] by simp
  have rd1: "cn_reader (?c br) = RdPaired i res" "cn_cmds (?c br) = cn_cmds c" for br by (simp_all add: readsDeadline_def rd)
  have ok: "answers pc (res\<lparr>cr_body := body\<rparr>)" if "checkReply pc res = None" "length body \<le> maxBodySize" for body
  proof (rule checkReply_ok)
    show "checkReply pc (res\<lparr>cr_body := body\<rparr>) = None" using that(1) pc(2) by (elim disjE) (auto simp: checkReply_def split: if_splits)
  qed (use that pc(2) r(3) in simp_all)
  show ?thesis
  proof (cases "checkReply pc res")
    case (Some e)
    then show ?thesis using inv_failPopped[OF inv rd] pc(1) by (simp add: answerPopped_def)
  next
    case None
    show ?thesis
    proof (cases "cr_success res \<and> fst (snd (successResponse (pc_kind pc)))")
      case True
      obtain x br where b: "readDotStuffedBody (cn_br c) = (x, br)" by force
      show ?thesis
      proof (cases x)
        case (Inl e)
        then show ?thesis using inv_failPopped[OF inv1 rd1(1)] pc(1) None True b by (simp add: answerPopped_def)
      next
        case (Inr body)
        then have "length body \<le> maxBodySize" using bodyLoop_bound[of "[]" "cn_br c" body br] b by (simp add: readDotStuffedBody_def)
        from ok[OF None this] have "\<exists>pc. cn_cmds (?c br) i = Some pc \<and> answers pc (res\<lparr>cr_body := body\<rparr>)" using pc(1) rd1(2) by simp
        from inv_deliver[OF inv1 rd1(1) this] show ?thesis using pc(1) None True b Inr by (simp add: answerPopped_def)
      qed
    next
      case False
      have "answers pc res" by (rule checkReply_ok[OF None pc(2) r(3)]) (simp add: r(2))
      then show ?thesis using inv_deliver[OF inv rd, of res] pc(1) None False by (auto simp: answerPopped_def)
    qed
  qed
qed

text \<open>Draining the queue and waking those who wait.\<close>

lemma inv_finish:
  assumes inv: "conn_inv c" and f: "finishReaderWithMode e prePop c = Some c'" and p: "plain (cn_reader c)"
  shows "conn_inv c'"
proof (cases "cn_once c")
  case OnceFree
  note d = conn_invD[OF inv]
  have o: "cn_close c = ClNone" "cn_drained c = []" using d(3) OnceFree by (simp_all add: once_ok_def)
  obtain e' where c': "c' = (drain c)\<lparr>cn_once := OnceRunning, cn_closed := Some (Some e'), cn_reader := RdWaking e' (cn_pending c)\<rparr>"
    using f OnceFree by (auto simp: finishReaderWithMode_def Let_def)
  have "live c' = live c" using p o(1) by (simp add: live_def c' drain_def plainD)
  then have "places_ok c'" using d(2) by (simp add: places_ok_def c' drain_def)
  moreover have "timer_ok c'" using d(6) timed_steps(4) by (simp add: timer_ok_def c' drain_def)
  moreover have "fifo_ok c'" using d(5) o(2) by (simp add: fifo_ok_def c' drain_def)
  moreover have "results_ok c'" using d(7) by (simp add: results_ok_def c' drain_def)
  moreover have "once_ok c'" "calls_ok c'" using d(4) o(1) by (simp_all add: once_ok_def calls_ok_def c' drain_def)
  ultimately show ?thesis using d(1) by (simp add: conn_inv_def c' drain_def)
next
  case OnceDone
  then have c': "c' = c\<lparr>cn_reader := RdEnded\<rparr>" using f by (simp add: finishReaderWithMode_def)
  note d = conn_invD[OF inv]
  show ?thesis using d p OnceDone by (simp add: c' conn_inv_def conn_defs plainD)
qed (use f in \<open>simp add: finishReaderWithMode_def\<close>)

lemma inv_wake_reader:
  assumes inv: "conn_inv c" and rd: "cn_reader c = RdWaking e (i # is)"
  shows "conn_inv ((closeDone i (errResult x) c)\<lparr>cn_reader := RdWaking e is\<rparr>)"
proof -
  note d = conn_invD[OF inv]
  have l: "live c = cn_pending c @ i # is @ closedBy (cn_close c)" by (simp add: live_def rd)
  have new: "cn_results c i = None" by (rule live_unanswered[OF inv]) (simp add: l)
  define c' where "c' = c\<lparr>cn_results := (cn_results c)(i \<mapsto> errResult x), cn_reader := RdWaking e is\<rparr>"
  have l': "live c' = cn_pending c @ is @ closedBy (cn_close c)" by (simp add: c'_def live_def)
  have dist: "distinct (live c)" using d(2) by (simp add: places_ok_def)
  have once: "once_ok c'" using d(3) by (cases "cn_once c") (simp_all add: once_ok_def c'_def rd)
  have timer: "timer_ok c'" using d(6) by (simp add: timer_ok_def c'_def rd)
  have "conn_inv c'"
  proof (rule inv_answer[OF inv, where i = i and res = "errResult x"])
    show "set (live c) = insert i (set (live c'))" "i \<notin> set (live c')" "distinct (live c')" using dist unfolding l l' by auto
  qed (use once timer in \<open>simp_all add: c'_def errResult_def\<close>)
  then show ?thesis by (simp add: closeDone_new[OF new] c'_def)
qed

lemma inv_wake_closer:
  assumes inv: "conn_inv c" and cl: "cn_close c = ClWaking (i # is)"
  shows "conn_inv ((closeDone i (errResult x) c)\<lparr>cn_close := ClWaking is\<rparr>)"
proof -
  note d = conn_invD[OF inv]
  have l: "live c = cn_pending c @ heldBy (cn_reader c) @ wokenBy (cn_reader c) @ i # is" by (simp add: live_def cl)
  have new: "cn_results c i = None" by (rule live_unanswered[OF inv]) (simp add: l)
  define c' where "c' = c\<lparr>cn_results := (cn_results c)(i \<mapsto> errResult x), cn_close := ClWaking is\<rparr>"
  have l': "live c' = cn_pending c @ heldBy (cn_reader c) @ wokenBy (cn_reader c) @ is" by (simp add: c'_def live_def)
  have dist: "distinct (live c)" using d(2) by (simp add: places_ok_def)
  have once: "once_ok c'" using d(3) by (cases "cn_once c") (auto simp: once_ok_def c'_def cl split: if_splits)
  have timer: "timer_ok c'" using d(6) by (simp add: timer_ok_def c'_def)
  have "conn_inv c'"
  proof (rule inv_answer[OF inv, where i = i and res = "errResult x"])
    show "set (live c) = insert i (set (live c'))" "i \<notin> set (live c')" "distinct (live c')" using dist unfolding l l' by auto
  qed (use once timer in \<open>simp_all add: c'_def errResult_def\<close>)
  then show ?thesis by (simp add: closeDone_new[OF new] c'_def)
qed

lemma inv_wake_done:
  assumes inv: "conn_inv c"
  shows "cn_reader c = RdWaking e [] \<Longrightarrow> conn_inv (c\<lparr>cn_once := OnceDone, cn_reader := RdEnded\<rparr>)"
    and "cn_close c = ClWaking [] \<Longrightarrow> conn_inv (c\<lparr>cn_once := OnceDone, cn_close := ClEnded\<rparr>)"
proof -
  note d = conn_invD[OF inv]
  assume rd: "cn_reader c = RdWaking e []"
  have "once_ok (c\<lparr>cn_once := OnceDone, cn_reader := RdEnded\<rparr>)" using d(3) rd by (cases "cn_once c") (simp_all add: once_ok_def)
  then show "conn_inv (c\<lparr>cn_once := OnceDone, cn_reader := RdEnded\<rparr>)" using d rd by (simp add: conn_inv_def conn_parts)
next
  note d = conn_invD[OF inv]
  assume cl: "cn_close c = ClWaking []"
  have "once_ok (c\<lparr>cn_once := OnceDone, cn_close := ClEnded\<rparr>)"
    using d(3) cl by (cases "cn_once c") (auto simp: once_ok_def split: if_splits)
  then show "conn_inv (c\<lparr>cn_once := OnceDone, cn_close := ClEnded\<rparr>)" using d cl by (simp add: conn_inv_def conn_parts)
qed

lemma readStatus_br: "fst (readStatus c) = c\<lparr>cn_br := snd (readResponseLine (cn_br c))\<rparr>"
  by (simp add: readStatus_def split: prod.splits sum.splits)

lemma inv_runReader:
  assumes inv: "conn_inv c" and s: "runReader c = Some c'"
  shows "conn_inv c'"
proof (cases "cn_reader c")
  case RdLine
  obtain c1 x where r: "readStatus (readsDeadline c) = (c1, x)" by force
  have c1: "c1 = (readsDeadline c)\<lparr>cn_br := snd (readResponseLine (cn_br (readsDeadline c)))\<rparr>" using readStatus_br[of "readsDeadline c"] r by simp
  have inv1: "conn_inv c1" using inv_readsDeadline[OF inv] by (simp add: c1)
  have "cn_reader c1 = RdLine" using RdLine by (simp add: c1 readsDeadline_def)
  then have pl: "plain (cn_reader c1)" by (simp add: plain_def)
  obtain ph where "c' = c1\<lparr>cn_reader := ph\<rparr>" "plain ph"
    using s RdLine r by (auto simp: runReader_def plain_def split: sum.splits if_splits)
  then show ?thesis using inv_plain[OF inv1 pl] by simp
next
  case (RdStatus code line)
  have pl: "plain (cn_reader c)" by (simp add: RdStatus plain_def)
  show ?thesis
  proof (cases "cn_pending c")
    case Nil
    have "plain (RdFinish [ErrIdleClosed] False)" by (simp add: plain_def)
    from inv_plain[OF inv pl this] show ?thesis using s RdStatus Nil by (simp add: runReader_def popPending_def)
  next
    case (Cons i rest)
    show ?thesis using inv_pop[OF inv Cons pl, of "\<lparr>cr_code = code, cr_line = line, cr_body = [], cr_err = None,
        cr_success = (case cn_cmds c i of None \<Rightarrow> False | Some pc \<Rightarrow> code = fst (successResponse (pc_kind pc)))\<rparr>"] s RdStatus Cons
      by (simp add: runReader_def popPending_def Let_def)
  qed
next
  case (RdPaired i res)
  then show ?thesis using inv_answerPopped[OF inv RdPaired] s by (simp add: runReader_def)
next
  case RdRelease
  have pl: "plain (cn_reader c)" "plain (cn_reader (c\<lparr>cn_sem := n\<rparr>))" "plain RdLine" "plain (RdFinish [] False)" for n
    by (simp_all add: RdRelease plain_def)
  have "conn_inv (c\<lparr>cn_sem := n\<rparr>)" for n using inv by simp
  from inv_plain[OF this pl(2,3)] inv_plain[OF inv pl(1,4)] show ?thesis using s RdRelease by (auto simp: runReader_def split: if_splits)
next
  case (RdFinish e prePop)
  then show ?thesis using inv_finish[OF inv, of e prePop c'] s by (simp add: runReader_def plain_def)
next
  case (RdWaking e js)
  then show ?thesis using inv_wake_done(1)[OF inv, of e] inv_wake_reader[OF inv, of e] s
    by (cases js) (auto simp: runReader_def)
next
  case RdEnded
  then show ?thesis using s by (simp add: runReader_def)
qed

lemma inv_Close_step:
  assumes inv: "conn_inv c" and s: "Close_step out c = Some c'"
  shows "conn_inv c'"
proof (cases "cn_close c")
  note d = conn_invD[OF inv]
  case ClNone
  then have free: "cn_once c = OnceFree" and c': "c' = c\<lparr>cn_once := OnceRunning, cn_closed := Some None, cn_close := ClQuit\<rparr>"
    using s by (auto simp: Close_step_def split: if_splits)
  have "once_ok c'" using d(3) free by (simp add: once_ok_def c')
  then show ?thesis using d ClNone by (simp add: conn_inv_def conn_parts c')
next
  case ClQuit
  define c1 where "c1 = fst (nntp_setState StateClosed (if cn_state c = StateReady \<and> cn_send c = None then bw_write out (lit ''QUIT'' @ [13, 10]) c else c))"
  have inv1: "conn_inv c1" using inv by (simp add: c1_def nntp_setState_def)
  have "cn_close c1 = ClQuit" using ClQuit by (simp add: c1_def nntp_setState_def bw_write_def)
  moreover from this have "once_ok (c1\<lparr>cn_close := ClWake\<rparr>)"
    using conn_invD(3)[OF inv1] by (cases "cn_once c1") (auto simp: once_ok_def split: if_splits)
  ultimately have "conn_inv (c1\<lparr>cn_close := ClWake\<rparr>)" using conn_invD[OF inv1] by (simp add: conn_inv_def conn_parts)
  then show ?thesis using s ClQuit by (simp add: Close_step_def Let_def c1_def)
next
  note d = conn_invD[OF inv]
  case ClWake
  then have c': "c' = (drain c)\<lparr>cn_close := ClWaking (cn_pending c)\<rparr>" using s by (simp add: Close_step_def)
  have o: "cn_once c = OnceRunning" "\<not> wakes (cn_reader c)" "cn_drained c = []" "once_ok c'"
    using d(3) ClWake by (cases "cn_once c"; auto simp: once_ok_def c' drain_def split: if_splits)+
  have l: "set (live c') = set (live c)" "distinct (live c') = distinct (live c)"
    using ClWake by (auto simp: live_def c' drain_def)
  have "places_ok c'" using d(2) unfolding places_ok_def l by (simp add: c' drain_def)
  moreover have "timer_ok c'" using d(6) timed_steps(4) by (simp add: timer_ok_def c' drain_def)
  moreover have "fifo_ok c'" using d(5) o(3) by (simp add: fifo_ok_def c' drain_def)
  moreover have "results_ok c'" "calls_ok c'" using d(4,7) by (simp_all add: results_ok_def calls_ok_def c' drain_def)
  ultimately show ?thesis using d(1) o(4) by (simp add: conn_inv_def) (simp add: c' drain_def)
next
  case (ClWaking js)
  then show ?thesis using inv_wake_done(2)[OF inv] inv_wake_closer[OF inv] s by (cases js) (auto simp: Close_step_def)
next
  case ClEnded
  then show ?thesis using s by (simp add: Close_step_def)
qed

lemma inv_submit_append:
  assumes inv: "conn_inv c" and b: "cn_calls c i = Some CallAcquired" and free: "cn_send c = None"
  shows "conn_inv (submit_append i c)"
proof (cases "cn_closed c")
  case None
  then show ?thesis using inv_append[OF inv b free] by (simp add: submit_append_def)
next
  case (Some x)
  have "conn_inv (releaseSem c)" using inv by simp
  from inv_setCall[OF this] show ?thesis using Some by (simp add: submit_append_def)
qed

theorem conn_inv_step:
  assumes "conn_step c c'" "conn_inv c"
  shows "conn_inv c'"
  using assms
proof (cases rule: conn_step.cases)
  case (call i)
  then show ?thesis using inv_setCall[OF assms(2)] call_atI[OF assms(2), of i] by (simp add: call_start_def)
next
  case (answered i res)
  have "call_at c i (Some (CallReturned (callResult res)))" using answered(3) by (cases "callResult res") auto
  then show ?thesis using inv_setCall[OF assms(2)] answered by simp
qed (use assms(2) in \<open>auto intro: inv_setCall inv_call_acquire inv_submit_append inv_submit_write inv_submit_undone inv_runReader inv_Close_step\<close>)

lemma conn_reach_inv: "conn_reach c \<Longrightarrow> conn_inv c"
  by (induction rule: conn_reach.induct) (auto intro: conn_inv_start conn_inv_step)

section \<open>The reader and closing come to an end\<close>

text \<open>One step of the reader goroutine or of the body of \<open>Close\<close>.\<close>

definition serves :: "Conn \<Rightarrow> Conn \<Rightarrow> bool" where
  "serves c c' \<longleftrightarrow> runReader c = Some c' \<or> (\<exists>out. Close_step out c = Some c')"

fun readerWork :: "readerPhase \<Rightarrow> nat" where
  "readerWork RdLine = 3"
| "readerWork (RdStatus code text) = 6"
| "readerWork (RdPaired i res) = 5"
| "readerWork RdRelease = 4"
| "readerWork (RdFinish e prePop) = 2"
| "readerWork (RdWaking e is) = 1 + length is"
| "readerWork RdEnded = 0"

fun closeWork :: "closePhase \<Rightarrow> nat" where
  "closeWork ClNone = 4"
| "closeWork ClQuit = 3"
| "closeWork ClWake = 2"
| "closeWork (ClWaking is) = 1 + length is"
| "closeWork ClEnded = 0"

definition conn_work :: "Conn \<Rightarrow> nat" where
  "conn_work c = 4 * length (br_data (cn_br c)) + 2 * length (cn_pending c) + readerWork (cn_reader c) + closeWork (cn_close c)"

lemma ReadSlice_le: "length (br_data (snd (snd (ReadSlice br)))) \<le> length (br_data br)"
  by (auto simp: ReadSlice_def Let_def split: option.splits)

lemma discardLine_le: "length (br_data (discardLine br)) \<le> length (br_data br)"
proof (induction br rule: discardLine.induct)
  case (1 br)
  obtain chunk e br1 where rs: "ReadSlice br = (chunk, e, br1)" by (metis prod.collapse)
  have le: "length (br_data br1) \<le> length (br_data br)" using ReadSlice_le[of br] by (simp add: rs)
  show ?case
  proof (cases "e = Some ErrBufferFull")
    case True
    then show ?thesis using "1.IH"[OF rs[symmetric] HOL.refl, of ErrBufferFull] le by (subst discardLine.simps) (simp add: rs)
  next
    case False
    then show ?thesis using le by (subst discardLine.simps) (auto simp: rs split: option.splits sliceError.splits)
  qed
qed

lemma respLoop_le:
  assumes "respLoop line br = (x, br1)"
  shows "length (br_data br1) \<le> length (br_data br) \<and> (\<forall>l. x = Inr l \<longrightarrow> length (br_data br1) < length (br_data br))"
  using assms
proof (induction line br rule: respLoop.induct)
  case (1 line br)
  obtain chunk e br2 where rs: "ReadSlice br = (chunk, e, br2)" by (metis prod.collapse)
  have le: "length (br_data br2) \<le> length (br_data br)" using ReadSlice_le[of br] by (simp add: rs)
  show ?case
  proof (cases e)
    case None
    then show ?thesis using "1.prems" ReadSlice_shorter(1)[of br chunk br2] rs le
      unfolding respLoop.simps[of line br] rs by (auto split: if_splits)
  next
    case (Some er)
    show ?thesis
    proof (cases er)
      case ErrBufferFull
      note full = ReadSlice_full(1)[OF rs[unfolded Some ErrBufferFull]]
      show ?thesis
      proof (cases "length (line @ chunk) > maxResponseLineLen")
        case True
        then show ?thesis using "1.prems" full discardLine_le[of br2] unfolding respLoop.simps[of line br] rs Some ErrBufferFull by auto
      next
        case False
        then have "respLoop (line @ chunk) br2 = (x, br1)"
          using "1.prems" unfolding respLoop.simps[of line br] rs Some ErrBufferFull by auto
        from "1.IH"[OF rs[symmetric] HOL.refl Some ErrBufferFull False this] full show ?thesis by auto
      qed
    next
      case (ReadError re)
      then show ?thesis using "1.prems" le unfolding respLoop.simps[of line br] rs Some by auto
    qed
  qed
qed

lemma bodyLoop_le: "bodyLoop buf br = (x, br1) \<Longrightarrow> length (br_data br1) \<le> length (br_data br)"
proof (induction buf br rule: bodyLoop.induct)
  case (1 buf br)
  obtain line e br2 where rs: "ReadSlice br = (line, e, br2)" by (metis prod.collapse)
  have le: "length (br_data br2) \<le> length (br_data br)" using ReadSlice_le[of br] by (simp add: rs)
  show ?case
  proof (cases e)
    case None
    let ?body = "lineBody line" and ?body1 = "unstuff (lineBody line)"
    note bl = bodyLoop_step[OF rs[unfolded None], of buf]
    show ?thesis
    proof (cases "length ?body = 1 \<and> ?body ! 0 = 46 \<or> length buf + length ?body1 + 1 > maxBodySize")
      case True
      then show ?thesis using "1.prems" bl le by (auto split: if_splits)
    next
      case False
      then have f: "\<not> (length ?body = 1 \<and> ?body ! 0 = 46)" "\<not> length buf + length ?body1 + 1 > maxBodySize" by auto
      then have "bodyLoop (buf @ ?body1 @ [10]) br2 = (x, br1)" using "1.prems" bl by (auto split: if_splits)
      from "1.IH"[OF rs[symmetric] HOL.refl None HOL.refl f this] le show ?thesis by simp
    qed
  next
    case (Some er)
    then show ?thesis using "1.prems" le unfolding bodyLoop.simps[of buf br] rs Some by (cases er) auto
  qed
qed

lemma closeDone_same [simp]:
  "cn_br (closeDone i res c) = cn_br c" "cn_pending (closeDone i res c) = cn_pending c" "cn_close (closeDone i res c) = cn_close c"
  "cn_reader (closeDone i res c) = cn_reader c"
  by (simp_all add: closeDone_def)

lemma runReader_works:
  assumes s: "runReader c = Some c'"
    and paired: "\<And>i res. cn_reader c = RdPaired i res \<Longrightarrow> cn_cmds c i \<noteq> None"
  shows "conn_work c' < conn_work c"
proof (cases "cn_reader c")
  case RdLine
  obtain x br where rr: "readResponseLine (cn_br c) = (x, br)" by force
  note le = respLoop_le[OF rr[unfolded readResponseLine_def]]
  show ?thesis using s le by (auto simp: runReader_def RdLine readStatus_def readsDeadline_def rr conn_work_def split: sum.splits if_splits)
next
  case (RdStatus code line)
  then show ?thesis using s by (cases "cn_pending c") (auto simp: runReader_def popPending_def Let_def conn_work_def)
next
  case (RdPaired i res)
  obtain pc where pc: "cn_cmds c i = Some pc" using paired[OF RdPaired] by auto
  obtain x br where b: "readDotStuffedBody (cn_br c) = (x, br)" by force
  note le = bodyLoop_le[OF b[unfolded readDotStuffedBody_def]]
  show ?thesis using s le
    by (auto simp: runReader_def RdPaired answerPopped_def pc b failPopped_def deliver_def endCmd_def readsDeadline_def conn_work_def
        split: option.splits sum.splits if_splits)
next
  case (RdWaking e js)
  then show ?thesis using s by (cases js) (auto simp: runReader_def conn_work_def)
qed (use s in \<open>auto simp: runReader_def finishReaderWithMode_def drain_def Let_def conn_work_def split: if_splits onceState.splits\<close>)

lemma Close_step_works:
  assumes s: "Close_step out c = Some c'"
  shows "conn_work c' < conn_work c"
proof (cases "cn_close c")
  case (ClWaking js)
  then show ?thesis using s by (cases js) (auto simp: Close_step_def conn_work_def)
next
  case ClQuit
  then show ?thesis using s by (auto simp: Close_step_def Let_def nntp_setState_def bw_write_def conn_work_def)
qed (use s in \<open>auto simp: Close_step_def drain_def conn_work_def split: if_splits\<close>)

lemma reach_cmds: "conn_reach c \<Longrightarrow> i \<in> set (cn_appended c) \<Longrightarrow> \<exists>pc. cn_cmds c i = Some pc \<and> (pc_kind pc = cmdBody \<or> pc_kind pc = cmdStat)"
  using conn_invD(4)[OF conn_reach_inv] by (simp add: calls_ok_def)

lemma serves_works:
  assumes "conn_reach c" "serves c c'"
  shows "conn_work c' < conn_work c" "conn_reach c'"
proof -
  have "cn_cmds c i \<noteq> None" if "cn_reader c = RdPaired i res" for i res
    using paired_live(1)[OF conn_reach_inv[OF assms(1)] that] appended_places(1)[OF conn_reach_inv[OF assms(1)]] reach_cmds[OF assms(1), of i] by auto
  then show "conn_work c' < conn_work c" using assms(2) runReader_works Close_step_works by (auto simp: serves_def)
  show "conn_reach c'" using assms by (auto simp: serves_def intro: conn_reach.step conn_step.reader conn_step.closing)
qed

lemma serves_bound: "(serves ^^ n) c c' \<Longrightarrow> conn_reach c \<Longrightarrow> n + conn_work c' \<le> conn_work c \<and> conn_reach c'"
proof (induction n arbitrary: c')
  case (Suc n)
  then obtain d where "(serves ^^ n) c d" "serves d c'" by auto
  then show ?case using Suc.IH[of d] Suc.prems(2) serves_works[of d c'] by auto
qed auto

text \<open>Where neither can move on, nothing is left to be answered.\<close>

lemma settled_empty:
  assumes inv: "conn_inv c" and stop: "\<nexists>c'. serves c c'"
  shows "live c = []"
proof -
  have r: "runReader c = None" and cl: "Close_step None c = None" using stop unfolding serves_def by (metis option.exhaust)+
  note o = conn_invD(3)[OF inv, unfolded once_ok_def]
  have "cn_reader c = RdEnded \<or> (\<exists>e p. cn_reader c = RdFinish e p) \<and> cn_once c = OnceRunning"
    using r by (auto simp: runReader_def finishReaderWithMode_def Let_def
        split: readerPhase.splits prod.splits sum.splits option.splits if_splits list.splits onceState.splits)
  moreover have "cn_close c = ClEnded \<or> cn_close c = ClNone \<and> cn_once c \<noteq> OnceFree"
    using cl by (auto simp: Close_step_def Let_def split: closePhase.splits list.splits if_splits)
  ultimately show ?thesis using o by (cases "cn_once c") (auto simp: live_def split: if_splits)
qed

lemma count_once: "distinct xs \<Longrightarrow> count_list xs i = (if i \<in> set xs then 1 else 0)"
  by (induction xs) auto

section \<open>Properties\<close>

text \<open>C11: No caller of \<open>Fetch\<close> or \<open>Stat\<close> is left waiting, however callers, the reader and \<open>Close\<close> interleave, whatever
  the server sends and whichever writes fail. A command that was sent is in exactly one place: in the queue,
  with the reader, with whoever tears the connection down, or answered; its channel is never closed twice
  and the count of commands in flight never falls below zero, so the read deadline is set exactly while it
  is positive. The reader and \<open>Close\<close> together take at most \<open>conn_work\<close> steps, and where neither has a step
  left every waiting caller has a result.\<close>

theorem nntp_callers_never_stranded:
  assumes "conn_reach c"
  shows "\<not> cn_panicked c
    \<and> (\<forall>r. cn_itr c = Some r \<longrightarrow> ir_underflows r = 0 \<and> (ir_armed r \<longleftrightarrow> ir_inFlight r > 0) \<and> ir_inFlight r \<ge> int (length (cn_pending c)))
    \<and> (\<forall>i. cn_calls c i = Some CallWaiting \<longrightarrow> count_list (live c) i + (if cn_results c i = None then 0 else 1) = 1)
    \<and> (\<forall>n c'. (serves ^^ n) c c' \<longrightarrow> n \<le> conn_work c
        \<and> ((\<nexists>c2. serves c' c2) \<longrightarrow> (\<forall>i. cn_calls c' i = Some CallWaiting \<longrightarrow> cn_results c' i \<noteq> None)))"
proof (intro conjI allI impI)
  note d = conn_invD[OF conn_reach_inv[OF assms]]
  show "\<not> cn_panicked c" by (rule d(1))
  fix r assume "cn_itr c = Some r"
  then show "ir_underflows r = 0" "ir_armed r \<longleftrightarrow> ir_inFlight r > 0" "ir_inFlight r \<ge> int (length (cn_pending c))"
    using d(6) by (auto simp: timer_ok_def timed_def)
next
  fix i assume w: "cn_calls c i = Some CallWaiting"
  have "i \<in> set (cn_appended c)" "i \<notin> cn_withdrawn c" using call_atI[OF conn_reach_inv[OF assms] w] by simp_all
  then have "(i \<in> set (live c)) \<noteq> (i \<in> dom (cn_results c))" "distinct (live c)"
    using conn_invD(2)[OF conn_reach_inv[OF assms]] unfolding places_ok_def by blast+
  then show "count_list (live c) i + (if cn_results c i = None then 0 else 1) = 1"
    by (auto simp: count_once)
next
  fix n c' assume "(serves ^^ n) c c'"
  then have s: "n + conn_work c' \<le> conn_work c" "conn_reach c'" using serves_bound[OF _ assms] by blast+
  then show "n \<le> conn_work c" by simp
  fix i assume "\<nexists>c2. serves c' c2" and w: "cn_calls c' i = Some CallWaiting"
  then have "live c' = []" using settled_empty[OF conn_reach_inv[OF s(2)]] by blast
  moreover have "i \<in> set (cn_appended c')" "i \<notin> cn_withdrawn c'" using call_atI[OF conn_reach_inv[OF s(2)] w] by simp_all
  ultimately show "cn_results c' i \<noteq> None" using conn_invD(2)[OF conn_reach_inv[OF s(2)]] by (auto simp: places_ok_def)
qed

text \<open>C12: A caller gets the article it asked for: commands are answered in the order they were sent, those whose write
  failed left out, and a body returned to a caller came with the success code of its command and a status
  line naming the very Message-ID of the command, and is at most 10 MiB long.\<close>

theorem nntp_reply_matches_command:
  assumes "conn_reach c"
  shows "filter (\<lambda>i. i \<notin> cn_withdrawn c) (cn_appended c) = cn_popped c @ cn_pending c @ cn_drained c
    \<and> (\<forall>i body. cn_calls c i = Some (CallReturned (Inr body)) \<longrightarrow>
        (\<exists>pc res. cn_cmds c i = Some pc \<and> cn_results c i = Some res \<and> cr_body res = body \<and> length body \<le> maxBodySize
          \<and> cr_code res = fst (successResponse (pc_kind pc)) \<and> messageIDFromStatusLine (cr_line res) = Some (pc_msgID pc)))"
proof (intro conjI allI impI)
  note d = conn_invD[OF conn_reach_inv[OF assms]]
  show "filter (\<lambda>i. i \<notin> cn_withdrawn c) (cn_appended c) = cn_popped c @ cn_pending c @ cn_drained c" using d(5) by (simp add: fifo_ok_def)
  fix i body assume "cn_calls c i = Some (CallReturned (Inr body))"
  from call_atI[OF conn_reach_inv[OF assms] this] obtain res where res: "cn_results c i = Some res" "callResult res = Inr body" by auto
  then have r: "cr_err res = None" "cr_success res" "cr_body res = body" by (auto simp: callResult_def split: option.splits if_splits)
  from d(7) res(1) r(1) obtain pc where "cn_cmds c i = Some pc" "answers pc res" unfolding results_ok_def by blast
  with res(1) r show "\<exists>pc res. cn_cmds c i = Some pc \<and> cn_results c i = Some res \<and> cr_body res = body \<and> length body \<le> maxBodySize
      \<and> cr_code res = fst (successResponse (pc_kind pc)) \<and> messageIDFromStatusLine (cr_line res) = Some (pc_msgID pc)" by (auto simp: answers_def)
qed

section \<open>A run\<close>

text \<open>Two commands are sent; the server answers the first and closes the connection.\<close>

definition xData :: "bytes \<Rightarrow> bufReader" where
  "xData d = \<lparr>br_data = d, br_err = [io_EOF], br_together = False, br_size = 16\<rparr>"

definition xConn :: Conn where
  "xConn = openConn (xData (lit ''222 0 <a@b>'' @ [13, 10] @ [46, 46, 120, 13, 10, 46, 13, 10])) [] 2 True"

definition xSend :: "cmdId \<Rightarrow> bytes \<Rightarrow> Conn \<Rightarrow> Conn" where
  "xSend i messageID c = submit_write None i (submit_append i (call_acquire i cmdBody messageID (call_start i c)))"

lemma xSend_reach:
  assumes "conn_reach c" "cn_state c = StateReady" "cn_calls c i = None" "cn_sem c < cn_cap c" "cn_send c = None" "cn_closed c = None"
  shows "conn_reach (xSend i messageID c)"
proof -
  let ?c1 = "call_start i c" and ?c2 = "call_acquire i cmdBody messageID (call_start i c)"
  have c1: "conn_step c ?c1" by (rule conn_step.call[OF assms(3)])
  have "conn_step ?c1 ?c2" by (rule conn_step.acquire) (use assms in \<open>simp_all add: call_start_def setCall_def\<close>)
  moreover have "conn_step ?c2 (submit_append i ?c2)"
    by (rule conn_step.submit) (use assms in \<open>simp_all add: call_start_def call_acquire_def setCall_def\<close>)
  moreover have "conn_step (submit_append i ?c2) (xSend i messageID c)" unfolding xSend_def
    by (rule conn_step.sending) (use assms in \<open>simp add: call_start_def call_acquire_def submit_append_def setCall_def beginCmd_def\<close>)
  ultimately show ?thesis using assms(1) c1 by (meson conn_reach.step)
qed

definition xSent :: Conn where
  "xSent = xSend 1 (lit ''c@d'') (xSend 0 (lit ''a@b'') xConn)"

lemma xSent_reach: "conn_reach xSent"
proof -
  have "conn_reach xConn" unfolding xConn_def by (rule conn_reach.start)
  then have "conn_reach (xSend 0 (lit ''a@b'') xConn)" by (rule xSend_reach) (simp_all add: xConn_def openConn_def)
  then show ?thesis unfolding xSent_def
    by (rule xSend_reach) (simp_all add: xConn_def openConn_def xSend_def call_start_def call_acquire_def submit_append_def submit_write_def bw_write_def setCall_def beginCmd_def Let_def)
qed

fun readerRuns :: "nat \<Rightarrow> Conn \<Rightarrow> Conn option" where
  "readerRuns 0 c = Some c"
| "readerRuns (Suc n) c = (case runReader c of None \<Rightarrow> None | Some c1 \<Rightarrow> readerRuns n c1)"

lemma readerRuns_serves: "readerRuns n c = Some c' \<Longrightarrow> (serves ^^ n) c c'"
proof (induction n c rule: readerRuns.induct)
  case (2 n c)
  then obtain c1 where "runReader c = Some c1" "readerRuns n c1 = Some c'" by (auto split: option.splits)
  then have "serves c c1" "(serves ^^ n) c1 c'" using "2.IH"[of c1] by (simp_all add: serves_def[of c c1])
  then show ?case by (rule relpowp_Suc_I2)
qed simp

lemma xData_reads:
  "readResponseLine (xData (lit ''222 0 <a@b>'' @ [13, 10] @ d)) = (Inr (lit ''222 0 <a@b>''), xData d)"
  "readDotStuffedBody (xData [46, 46, 120, 13, 10, 46, 13, 10]) = (Inr [46, 120, 10], xData [])"
  "readResponseLine (xData []) = (Inl [io_EOF], xData [])"
proof -
  have "10 \<notin> set (lit ''222 0 <a@b>'' @ [13])" by (simp add: lit_def of_char_def)
  from respLoop_line[OF this, of "xData (lit ''222 0 <a@b>'' @ [13, 10] @ d)" d "[]"]
  show "readResponseLine (xData (lit ''222 0 <a@b>'' @ [13, 10] @ d)) = (Inr (lit ''222 0 <a@b>''), xData d)"
    using trimCRLF_crlf[of "lit ''222 0 <a@b>''"] by (simp add: readResponseLine_def maxResponseLineLen_def xData_def lit_def)
  have "\<forall>lc\<in>set [([46, 120 :: byte], True)]. sendable (bufSize (xData [46, 46, 120, 13, 10, 46, 13, 10])) lc"
    by (simp add: sendable_def wireLine_def stuffed_def bufSize_def)
  from bodyLoop_lines[OF this, of "[]" "[]"]
  show "readDotStuffedBody (xData [46, 46, 120, 13, 10, 46, 13, 10]) = (Inr [46, 120, 10], xData [])"
    by (simp add: readDotStuffedBody_def maxBodySize_def wireLine_def stuffed_def xData_def)
  show "readResponseLine (xData []) = (Inl [io_EOF], xData [])"
    by (simp add: readResponseLine_def respLoop.simps ReadSlice_def bufSize_def xData_def Let_def goerr_Is_def)
qed

lemma xStatus: "parseStatus (lit ''222 0 <a@b>'') = Inr (222, lit ''0 <a@b>'')" "messageIDFromStatusLine (lit ''0 <a@b>'') = Some (lit ''a@b'')"
  "isServerIdleDisconnect 222 t = False"
proof -
  have "lit ''222 0 <a@b>'' = printBase 10 222 @ 32 # lit ''0 <a@b>''" by (simp add: printBase.simps digit_def lit_def of_char_def)
  then show "parseStatus (lit ''222 0 <a@b>'') = Inr (222, lit ''0 <a@b>'')" 
    using parseStatus_print[of 222 "lit ''0 <a@b>''"] by (simp only:) simp
  have "lit ''0 <a@b>'' = [48] @ 32 # 60 # lit ''a@b'' @ 62 # []" by (simp add: lit_def of_char_def)
  moreover have "messageIDFromStatusLine ([48] @ 32 # 60 # lit ''a@b'' @ 62 # []) = Some (lit ''a@b'')"
    by (rule messageID_found) (simp_all add: lit_def of_char_def)
  ultimately show "messageIDFromStatusLine (lit ''0 <a@b>'') = Some (lit ''a@b'')" by simp
qed (simp add: isServerIdleDisconnect_def)

lemma readerRuns_SucI: "runReader c = Some c1 \<Longrightarrow> readerRuns n c1 = r \<Longrightarrow> readerRuns (Suc n) c = r"
  by simp

text \<open>One article read: status line, body, result, slot.\<close>

lemma reader_article:
  assumes rd: "cn_reader c = RdLine" and line: "readResponseLine (cn_br c) = (Inr line, br1)" "parseStatus line = Inr (222, t)"
    and pend: "cn_pending c = i # rest" "cn_cmds c i = Some pc" "pc_kind pc = cmdBody" "cn_results c i = None" "cn_sem c = Suc n"
    and reply: "messageIDFromStatusLine t = Some (pc_msgID pc)" "readDotStuffedBody br1 = (Inr body, br2)"
  shows "\<exists>it. readerRuns (Suc (Suc (Suc (Suc k)))) c = readerRuns k (c\<lparr>cn_br := br2, cn_pending := rest, cn_popped := cn_popped c @ [i], cn_itr := it, cn_sem := n,
      cn_results := (cn_results c)(i \<mapsto> \<lparr>cr_code = 222, cr_line = t, cr_body = body, cr_err = None, cr_success = True\<rparr>)\<rparr>)"
proof -
  let ?it = "map_option itr_read (cn_itr c)"
  let ?res = "\<lparr>cr_code = 222, cr_line = t, cr_body = [], cr_err = None, cr_success = True\<rparr>"
  let ?c1 = "c\<lparr>cn_br := br1, cn_itr := ?it, cn_reader := RdStatus 222 t\<rparr>"
  let ?c2 = "?c1\<lparr>cn_pending := rest, cn_popped := cn_popped c @ [i], cn_reader := RdPaired i ?res\<rparr>"
  let ?c3 = "?c2\<lparr>cn_br := br2, cn_itr := map_option itr_end (map_option itr_read ?it), cn_results := (cn_results c)(i \<mapsto> ?res\<lparr>cr_body := body\<rparr>), cn_reader := RdRelease\<rparr>"
  have 1: "runReader c = Some ?c1" using rd line by (simp add: runReader_def readStatus_def readsDeadline_def isServerIdleDisconnect_def)
  have 2: "runReader ?c1 = Some ?c2" using pend by (simp add: runReader_def popPending_def Let_def)
  have chk: "checkReply pc ?res = None" using reply(1) by (simp add: checkReply_def pend(3))
  have "runReader ?c2 = Some (answerPopped i ?res ?c2)" by (simp add: runReader_def)
  also have "answerPopped i ?res ?c2 = ?c3"
    using pend reply(2) chk by (simp add: answerPopped_def readsDeadline_def deliver_def endCmd_def closeDone_def)
  finally have 3: "runReader ?c2 = Some ?c3" .
  have 4: "runReader ?c3 = Some (?c3\<lparr>cn_sem := n, cn_reader := RdLine\<rparr>)" using pend(5) by (simp add: runReader_def)
  have "?c3\<lparr>cn_sem := n, cn_reader := RdLine\<rparr> = c\<lparr>cn_br := br2, cn_pending := rest, cn_popped := cn_popped c @ [i],
      cn_itr := map_option itr_end (map_option itr_read ?it), cn_sem := n, cn_results := (cn_results c)(i \<mapsto> ?res\<lparr>cr_body := body\<rparr>)\<rparr>"
    using rd by (simp add: Conn.equality)
  then have "readerRuns (Suc (Suc (Suc (Suc k)))) c = readerRuns k (c\<lparr>cn_br := br2, cn_pending := rest, cn_popped := cn_popped c @ [i],
      cn_itr := map_option itr_end (map_option itr_read ?it), cn_sem := n, cn_results := (cn_results c)(i \<mapsto> ?res\<lparr>cr_body := body\<rparr>)\<rparr>)"
    by (intro readerRuns_SucI[OF 1] readerRuns_SucI[OF 2] readerRuns_SucI[OF 3] readerRuns_SucI[OF 4]) simp
  then show ?thesis by auto
qed

text \<open>The connection ends while one command waits.\<close>

lemma reader_lost:
  assumes rd: "cn_reader c = RdLine" and line: "readResponseLine (cn_br c) = (Inl e, br1)"
    and c: "cn_pending c = [i]" "cn_results c i = None" "cn_once c = OnceFree"
  shows "\<exists>it. readerRuns (Suc (Suc (Suc (Suc 0)))) c = Some (c\<lparr>cn_br := br1, cn_itr := it, cn_pending := [], cn_drained := [i], cn_closed := Some (Some e),
      cn_results := (cn_results c)(i \<mapsto> errResult e), cn_once := OnceDone, cn_reader := RdEnded\<rparr>)"
proof -
  let ?c1 = "c\<lparr>cn_br := br1, cn_itr := map_option itr_read (cn_itr c), cn_reader := RdFinish e True\<rparr>"
  let ?c2 = "?c1\<lparr>cn_pending := [], cn_drained := [i], cn_closed := Some (Some e), cn_once := OnceRunning, cn_reader := RdWaking e [i]\<rparr>"
  let ?c3 = "?c2\<lparr>cn_results := (cn_results c)(i \<mapsto> errResult e), cn_reader := RdWaking e []\<rparr>"
  have 1: "runReader c = Some ?c1" using rd line by (simp add: runReader_def readStatus_def readsDeadline_def)
  have 2: "runReader ?c1 = Some ?c2" using c by (simp add: runReader_def finishReaderWithMode_def drain_def Let_def)
  have 3: "runReader ?c2 = Some ?c3" using c(2) by (simp add: runReader_def closeDone_def)
  have 4: "runReader ?c3 = Some (?c3\<lparr>cn_once := OnceDone, cn_reader := RdEnded\<rparr>)" by (simp add: runReader_def)
  have "readerRuns (Suc (Suc (Suc (Suc 0)))) c = Some (?c3\<lparr>cn_once := OnceDone, cn_reader := RdEnded\<rparr>)"
    by (intro readerRuns_SucI[OF 1] readerRuns_SucI[OF 2] readerRuns_SucI[OF 3] readerRuns_SucI[OF 4]) simp
  then show ?thesis by (intro exI[of _ "map_option itr_read (cn_itr c)"]) simp
qed

definition xEnd :: Conn where
  "xEnd = the (readerRuns 8 xSent)"

lemma xSent_fields:
  "cn_reader xSent = RdLine" "cn_br xSent = xData (lit ''222 0 <a@b>'' @ [13, 10] @ [46, 46, 120, 13, 10, 46, 13, 10])" "cn_pending xSent = [0, Suc 0]"
  "cn_cmds xSent 0 = Some \<lparr>pc_kind = cmdBody, pc_msgID = lit ''a@b''\<rparr>" "cn_results xSent = Map.empty" "cn_sem xSent = Suc (Suc 0)"
  "cn_once xSent = OnceFree" "cn_close xSent = ClNone" "cn_calls xSent = [0 \<mapsto> CallWaiting, Suc 0 \<mapsto> CallWaiting]"
  by (simp_all add: xSent_def xConn_def openConn_def xSend_def call_start_def call_acquire_def submit_append_def submit_write_def bw_write_def
      setCall_def beginCmd_def newArticleCmd_def Let_def)

lemma xEnd_run: "readerRuns 8 xSent = Some xEnd" "cn_reader xEnd = RdEnded" "cn_close xEnd = ClNone" "cn_once xEnd = OnceDone"
    "cn_calls xEnd = [0 \<mapsto> CallWaiting, Suc 0 \<mapsto> CallWaiting]" "\<exists>res. cn_results xEnd 0 = Some res \<and> callResult res = Inr [46, 120, 10]"
proof -
  note f = xSent_fields
  have p: "pc_kind \<lparr>pc_kind = cmdBody, pc_msgID = lit ''a@b''\<rparr> = cmdBody" "cn_results xSent 0 = None"
    "messageIDFromStatusLine (lit ''0 <a@b>'') = Some (pc_msgID \<lparr>pc_kind = cmdBody, pc_msgID = lit ''a@b''\<rparr>)"
    by (simp_all only: f pendingCmd.simps xStatus)
  have eight: "(8 :: nat) = Suc (Suc (Suc (Suc (Suc (Suc (Suc (Suc 0)))))))" by simp
  define c1 where "c1 it = xSent\<lparr>cn_br := xData [], cn_pending := [Suc 0], cn_popped := cn_popped xSent @ [0], cn_itr := it, cn_sem := Suc 0,
      cn_results := (cn_results xSent)(0 \<mapsto> \<lparr>cr_code = 222, cr_line = lit ''0 <a@b>'', cr_body = [46, 120, 10], cr_err = None, cr_success = True\<rparr>)\<rparr>" for it
  have "\<exists>it. readerRuns (Suc (Suc (Suc (Suc (Suc (Suc (Suc (Suc 0)))))))) xSent = readerRuns (Suc (Suc (Suc (Suc 0)))) (c1 it)" unfolding c1_def
    by (rule reader_article[OF f(1) xData_reads(1)[of "[46, 46, 120, 13, 10, 46, 13, 10]", folded f(2)] xStatus(1) f(3,4) p(1,2) f(6) p(3) xData_reads(2)])
  then obtain it where 1: "readerRuns 8 xSent = readerRuns (Suc (Suc (Suc (Suc 0)))) (c1 it)" unfolding eight by (rule exE)
  have q: "cn_reader (c1 it) = RdLine" "readResponseLine (cn_br (c1 it)) = (Inl [io_EOF], xData [])" "cn_pending (c1 it) = [Suc 0]"
    "cn_results (c1 it) (Suc 0) = None" "cn_once (c1 it) = OnceFree"
    using xData_reads(3) by (simp_all add: f c1_def)
  from reader_lost[OF q] obtain it2 where 2: "readerRuns (Suc (Suc (Suc (Suc 0)))) (c1 it) = Some ((c1 it)\<lparr>cn_br := xData [], cn_itr := it2, cn_pending := [], cn_drained := [Suc 0],
      cn_closed := Some (Some [io_EOF]), cn_results := (cn_results (c1 it))(Suc 0 \<mapsto> errResult [io_EOF]), cn_once := OnceDone, cn_reader := RdEnded\<rparr>)"
    by (rule exE)
  note fin = 1[unfolded 2]
  then show "readerRuns 8 xSent = Some xEnd" by (simp add: xEnd_def)
  show "cn_reader xEnd = RdEnded" "cn_close xEnd = ClNone" "cn_once xEnd = OnceDone" "cn_calls xEnd = [0 \<mapsto> CallWaiting, Suc 0 \<mapsto> CallWaiting]"
    "\<exists>res. cn_results xEnd 0 = Some res \<and> callResult res = Inr [46, 120, 10]"
    using fin f by (simp_all add: xEnd_def c1_def callResult_def classifyStatus_def)
qed

lemma xEnd_stops: "\<nexists>c. serves xEnd c"
  using xEnd_run(2-4) by (simp add: serves_def runReader_def Close_step_def)

theorem nntp_callers_never_stranded_witness:
  "8 \<le> conn_work xSent \<and> cn_calls xEnd (Suc 0) = Some CallWaiting \<and> cn_results xEnd (Suc 0) \<noteq> None \<and> count_list (live xSent) 0 = 1"
proof -
  note p = nntp_callers_never_stranded[OF xSent_reach]
  have run: "(serves ^^ 8) xSent xEnd" by (rule readerRuns_serves[OF xEnd_run(1)])
  have w: "cn_calls xEnd (Suc 0) = Some CallWaiting" "cn_calls xSent 0 = Some CallWaiting" "cn_results xSent 0 = None"
    by (simp_all add: xEnd_run(5) xSent_fields)
  have "8 \<le> conn_work xSent" "cn_results xEnd (Suc 0) \<noteq> None" using p run xEnd_stops w(1) by blast+
  moreover have "count_list (live xSent) 0 + (if cn_results xSent 0 = None then 0 else 1) = 1" using p w(2) by blast
  ultimately show ?thesis using w by simp
qed

definition xAnswered :: Conn where
  "xAnswered = setCall 0 (CallReturned (callResult (the (cn_results xEnd 0)))) xEnd"

theorem nntp_reply_matches_command_witness:
  "cn_calls xAnswered 0 = Some (CallReturned (Inr [46, 120, 10])) \<and> (\<exists>pc res. cn_cmds xAnswered 0 = Some pc \<and> cn_results xAnswered 0 = Some res
     \<and> cr_body res = [46, 120, 10] \<and> messageIDFromStatusLine (cr_line res) = Some (pc_msgID pc))"
proof -
  obtain res where res: "cn_results xEnd 0 = Some res" "callResult res = Inr [46, 120, 10]" using xEnd_run(6) by blast
  have "conn_reach xEnd" using serves_bound[OF readerRuns_serves[OF xEnd_run(1)] xSent_reach] by blast
  moreover have "conn_step xEnd xAnswered" unfolding xAnswered_def res(1) option.sel
    by (rule conn_step.answered) (simp_all add: xEnd_run(5) res(1))
  ultimately have "conn_reach xAnswered" by (rule conn_reach.step)
  moreover have c: "cn_calls xAnswered 0 = Some (CallReturned (Inr [46, 120, 10]))" by (simp add: xAnswered_def setCall_def res)
  ultimately show ?thesis using nntp_reply_matches_command[of xAnswered] by blast
qed

section \<open>After the handshake\<close>

lemma readStatus_same [simp]: "readStatus c = (c1, r) \<Longrightarrow> cn_state c1 = cn_state c \<and> cn_wire c1 = cn_wire c"
  by (auto simp: readStatus_def split: prod.splits sum.splits)

lemma setState_ok:
  assumes "nntp_setState st c = (c1, None)"
  shows "c1 = c\<lparr>cn_state := st\<rparr>" "nntp_canTransition (cn_state c) st"
  using assms by (auto simp: nntp_setState_def split: if_splits)

lemma expectGreeting_ok:
  assumes "expectGreeting c = (c1, None)"
  shows "cn_state c1 = StateConnected \<and> cn_wire c1 = cn_wire c"
  using assms by (auto simp: expectGreeting_def split: prod.splits sum.splits if_splits dest!: setState_ok(1) readStatus_same)

definition userLine :: "bytes \<Rightarrow> bytes" where
  "userLine user = lit ''AUTHINFO USER '' @ user @ [13, 10]"

definition passLine :: "bytes \<Rightarrow> bytes" where
  "passLine pass = lit ''AUTHINFO PASS '' @ pass @ [13, 10]"

lemma authenticate_ok:
  assumes "authenticate out1 out2 user pass c = (c1, None)"
  shows "cn_state c1 = StateAuthenticated \<and> validateCredential user = None \<and> validateCredential pass = None
    \<and> (\<exists>ps\<in>{[], passLine pass}. cn_wire c1 = cn_wire c @ userLine user @ ps)"
  using assms
  by (auto simp: authenticate_def authPass_def bw_write_def Let_def userLine_def passLine_def split: prod.splits sum.splits if_splits option.splits
      dest!: setState_ok(1) readStatus_same)

lemma probe_same: "cn_state (probeCapabilities out c) = cn_state c" "\<exists>k. cn_wire (probeCapabilities out c) = cn_wire c @ take k (lit ''CAPABILITIES'' @ [13, 10])"
proof -
  let ?cap = "lit ''CAPABILITIES'' @ [13, 10]"
  have bw: "cn_state (bw_write out ?cap c) = cn_state c" "\<exists>k. cn_wire (bw_write out ?cap c) = cn_wire c @ take k ?cap"
    by (auto simp: bw_write_def split: option.splits prod.splits intro: exI[of _ "length ?cap"])
  obtain c2 r where rs: "readStatus (bw_write out ?cap c) = (c2, r)" by force
  note same = readStatus_same[OF rs]
  have "probeCapabilities out c = bw_write out ?cap c \<or> (\<exists>br. probeCapabilities out c = c2\<lparr>cn_br := br\<rparr>) \<or> probeCapabilities out c = c2"
    using rs by (auto simp: probeCapabilities_def Let_def split: sum.splits prod.splits)
  then show "cn_state (probeCapabilities out c) = cn_state c" "\<exists>k. cn_wire (probeCapabilities out c) = cn_wire c @ take k ?cap"
    using bw same by auto
qed

text \<open>A handshake that succeeds leaves the connection ready, and what was sent is the authentication asked for, in
  credentials that cannot hold a line break, and then the capability probe.\<close>

theorem handshake_ready:
  assumes "handshake outs user pass c = (c1, None)"
  shows "cn_state c1 = StateReady \<and> (\<exists>auth k. cn_wire c1 = cn_wire c @ auth @ take k (lit ''CAPABILITIES'' @ [13, 10])
    \<and> (if user = [] then auth = [] else auth \<in> {userLine user, userLine user @ passLine pass} \<and> set (user @ pass) \<inter> {13, 10, 0} = {}))"
proof -
  obtain cg x where g: "expectGreeting c = (cg, x)" by force
  have "x = None" using assms g by (cases x) (simp_all add: handshake_def)
  note greet = expectGreeting_ok[OF g[unfolded this]]
  obtain ca y where a: "(if user \<noteq> [] then authenticate (fst outs) (fst (snd outs)) user pass cg else (cg, None)) = (ca, y)" by force
  have "y = None" using assms g a \<open>x = None\<close> by (cases y) (simp_all add: handshake_def)
  then have "nntp_setState StateReady (probeCapabilities (snd (snd outs)) ca) = (c1, None)" using assms g a \<open>x = None\<close> by (simp add: handshake_def)
  note c1 = setState_ok(1)[OF this]
  obtain k where k: "cn_wire c1 = cn_wire ca @ take k (lit ''CAPABILITIES'' @ [13, 10])" using probe_same(2)[of "snd (snd outs)" ca] c1 by auto
  show ?thesis
  proof (cases "user = []")
    case True
    then show ?thesis using k c1 a greet by auto
  next
    case False
    then have "authenticate (fst outs) (fst (snd outs)) user pass cg = (ca, None)" using a \<open>y = None\<close> by simp
    note au = authenticate_ok[OF this]
    then have "set (user @ pass) \<inter> {13, 10, 0} = {}" by (auto simp: validateCredential_def list_ex_iff split: if_splits)
    moreover obtain ps where "ps \<in> {[], passLine pass}" "cn_wire ca = cn_wire c @ userLine user @ ps" using au greet by auto
    ultimately show ?thesis using False k c1
      by (intro conjI exI[of _ "userLine user @ ps"] exI[of _ k]) auto
  qed
qed

section \<open>A slot given back twice\<close>

text \<open>
  The reader takes a slot of the semaphore to be held by every command it answers. An unsolicited line that arrives
  between the append and the write is paired with the command; when the write then fails, \<open>unappendPending\<close> finds
  the entry gone and leaves the queue alone, but \<open>submit\<close> gives the slot back all the same, and so does the reader.
\<close>

definition yConn :: Conn where
  "yConn = openConn (xData (lit ''400 bye'' @ [13, 10])) [] 1 False"

definition yAppended :: Conn where
  "yAppended = submit_append 0 (call_acquire 0 cmdBody (lit ''a@b'') (call_start 0 yConn))"

lemma yReads: "readResponseLine (xData (lit ''400 bye'' @ [13, 10])) = (Inr (lit ''400 bye''), xData [])" "parseStatus (lit ''400 bye'') = Inr (400, lit ''bye'')"
  "isServerIdleDisconnect 400 (lit ''bye'') = False"
proof -
  have "10 \<notin> set (lit ''400 bye'' @ [13])" by (simp add: lit_def of_char_def)
  from respLoop_line[OF this, of "xData (lit ''400 bye'' @ [13, 10])" "[]" "[]"]
  show "readResponseLine (xData (lit ''400 bye'' @ [13, 10])) = (Inr (lit ''400 bye''), xData [])"
    using trimCRLF_crlf[of "lit ''400 bye''"] by (simp add: readResponseLine_def maxResponseLineLen_def xData_def lit_def)
  have "lit ''400 bye'' = printBase 10 400 @ 32 # lit ''bye''" by (simp add: printBase.simps digit_def lit_def of_char_def)
  then show "parseStatus (lit ''400 bye'') = Inr (400, lit ''bye'')" using parseStatus_print[of 400 "lit ''bye''"] by (simp only:) simp
  show "isServerIdleDisconnect 400 (lit ''bye'') = False" by code_simp
qed

lemma yAppended_reach: "conn_reach yAppended"
proof -
  have "conn_reach yConn" unfolding yConn_def by (rule conn_reach.start)
  moreover have "conn_step yConn (call_start 0 yConn)" by (rule conn_step.call) (simp add: yConn_def openConn_def)
  moreover have "conn_step (call_start 0 yConn) (call_acquire 0 cmdBody (lit ''a@b'') (call_start 0 yConn))"
    by (rule conn_step.acquire) (simp_all add: yConn_def openConn_def call_start_def setCall_def)
  moreover have "conn_step (call_acquire 0 cmdBody (lit ''a@b'') (call_start 0 yConn)) yAppended" unfolding yAppended_def
    by (rule conn_step.submit) (simp_all add: yConn_def openConn_def call_start_def call_acquire_def setCall_def)
  ultimately show ?thesis by (meson conn_reach.step)
qed

lemma readerRuns_reach: "conn_reach c \<Longrightarrow> readerRuns n c = Some c' \<Longrightarrow> conn_reach c'"
  using serves_bound readerRuns_serves by blast

theorem semaphore_underflow_reachable: "\<exists>c. conn_reach c \<and> cn_reader c = RdRelease \<and> cn_sem c = 0"
proof -
  let ?res = "\<lparr>cr_code = 400, cr_line = lit ''bye'', cr_body = [], cr_err = None, cr_success = False\<rparr>"
  let ?c1 = "yAppended\<lparr>cn_br := xData [], cn_reader := RdStatus 400 (lit ''bye'')\<rparr>"
  let ?c2 = "?c1\<lparr>cn_pending := [], cn_popped := [0], cn_reader := RdPaired 0 ?res\<rparr>"
  let ?c3 = "?c2\<lparr>cn_results := [0 \<mapsto> ?res], cn_reader := RdRelease\<rparr>"
  have f: "cn_reader yAppended = RdLine" "cn_br yAppended = xData (lit ''400 bye'' @ [13, 10])" "cn_pending yAppended = [0]" "cn_popped yAppended = []"
    "cn_cmds yAppended 0 = Some \<lparr>pc_kind = cmdBody, pc_msgID = lit ''a@b''\<rparr>" "cn_results yAppended = Map.empty" "cn_itr yAppended = None" "cn_sem yAppended = 1"
    "cn_calls yAppended 0 = Some CallAppended"
    by (simp_all add: yAppended_def yConn_def openConn_def call_start_def call_acquire_def submit_append_def setCall_def beginCmd_def newArticleCmd_def)
  have 1: "runReader yAppended = Some ?c1" using f(1,7) yReads by (simp add: runReader_def readStatus_def readsDeadline_def f(2))
  have 2: "runReader ?c1 = Some ?c2" using f by (simp add: runReader_def popPending_def Let_def)
  have 3: "runReader ?c2 = Some ?c3" using f by (simp add: runReader_def answerPopped_def checkReply_def deliver_def endCmd_def closeDone_def)
  have "readerRuns (Suc (Suc (Suc 0))) yAppended = Some ?c3"
    by (intro readerRuns_SucI[OF 1] readerRuns_SucI[OF 2] readerRuns_SucI[OF 3]) simp
  from readerRuns_reach[OF yAppended_reach this] have r3: "conn_reach ?c3" .
  have "conn_step ?c3 (submit_write (Some (0, [])) 0 ?c3)" by (rule conn_step.sending) (simp add: f(9))
  with r3 have r4: "conn_reach (submit_write (Some (0, [])) 0 ?c3)" by (rule conn_reach.step)
  have "conn_step (submit_write (Some (0, [])) 0 ?c3) (submit_undone [] 0 (submit_write (Some (0, [])) 0 ?c3))"
    by (rule conn_step.undone) (simp add: submit_write_def setCall_def Let_def)
  with r4 have "conn_reach (submit_undone [] 0 (submit_write (Some (0, [])) 0 ?c3))" by (rule conn_reach.step)
  moreover have "cn_reader (submit_undone [] 0 (submit_write (Some (0, [])) 0 ?c3)) = RdRelease" "cn_sem (submit_undone [] 0 (submit_write (Some (0, [])) 0 ?c3)) = 0"
    using f by (simp_all add: submit_undone_def submit_write_def unappendPending_def bw_write_def setCall_def releaseSem_def Let_def)
  ultimately show ?thesis by blast
qed

end
