(* ===== verification/Spec2Isabelle.thy ===== *)
theory Spec2Isabelle
  imports Registry Settle Decode_Buffers Uu Assembler_Safety Fetch_Safety Recorder_Flush Resume Line_Run Nntp_Safety
begin

text \<open>
  A verification library for GoNZBD, a Usenet downloader written in Go. Paths below are relative to the
  repository; definitions keep the source's names, record fields carry a prefix of the type
  (\<open>at_state\<close> of an attempt, \<open>jp_done\<close> of a job's progress).

  \<^bold>\<open>The program.\<close> A job is an NZB file: a list of files, each a list of articles. The dispatcher
  (\<^verbatim>\<open>internal/dispatch\<close>) keeps the jobs, a scheduler (\<^verbatim>\<open>internal/sched\<close>) moves each through its
  states (\<^verbatim>\<open>internal/job\<close>) on leases and slots of two bounded pools. While a job is fetching, the
  downloader (\<^verbatim>\<open>internal/downloader\<close>) offers its unfinished articles to news servers; an article that
  comes back is decoded (\<^verbatim>\<open>internal/decoder\<close>), the pipeline (\<^verbatim>\<open>internal/app/pipeline.go\<close>) registers its
  file and hands it to the assembler (\<^verbatim>\<open>internal/assembler\<close>), whose worker writes it at its offset and
  reports what became of it. The report marks the article in the job's progress (\<^verbatim>\<open>internal/job\<close>) and
  in the recorder (\<^verbatim>\<open>internal/app/record.go\<close>), which writes rows to the database in batches; after a
  restart the rows are read back against the files (\<^verbatim>\<open>internal/app/verify.go\<close>).

  \<^bold>\<open>Theories and sources.\<close>
  \<^item> \<^verbatim>\<open>Prelude\<close>: result types, Go's integers, the lemmas several components share, the \<open>named_theorems\<close>.
  \<^item> \<^verbatim>\<open>Job_Lifecycle\<close> (\<^verbatim>\<open>job.go\<close>, \<^verbatim>\<open>attempt.go\<close>, \<^verbatim>\<open>transition.go\<close>, \<^verbatim>\<open>admissibility.go\<close>, \<^verbatim>\<open>state.go\<close>, \<dots>): a job and
    its doors; \<^verbatim>\<open>Restore\<close> (\<^verbatim>\<open>dispatch.go\<close>): rebuilding a stored job by the same doors. Every reachable job is
    well formed, the Production boundary is one-way, settled attempts are write-once, and storing then
    rebuilding a job is the identity on what is stored.
  \<^item> \<^verbatim>\<open>Pools\<close> (\<^verbatim>\<open>pool.go\<close>), \<^verbatim>\<open>Scheduler\<close> (\<^verbatim>\<open>queue.go\<close>, \<^verbatim>\<open>advance.go\<close>, \<^verbatim>\<open>cancel.go\<close>, \<^verbatim>\<open>settle.go\<close>, \<^verbatim>\<open>render.go\<close>):
    the locale \<open>bounded_pool\<close> is the contract of both pools. A tick is safe, stopping gives everything back,
    cancelling takes effect, a free job makes progress, and the shown wait reason is what the next tick meets.
  \<^item> \<^verbatim>\<open>Status\<close> (\<^verbatim>\<open>policy.go\<close>, \<^verbatim>\<open>sabnzbd.go\<close>, \<dots>), \<^verbatim>\<open>Dispatch\<close> (\<^verbatim>\<open>registry.go\<close>, \<^verbatim>\<open>occupy.go\<close>, \<^verbatim>\<open>tick.go\<close>, \<^verbatim>\<open>worker.go\<close>),
    \<^verbatim>\<open>Dispatch_Safety\<close>, \<^verbatim>\<open>Registry\<close>: the dispatcher as a step relation, a removal taken apart at its waits. No
    lease or slot is lost or doubled, names are exclusive, the dispatch order is the stable priority order.
  \<^item> \<^verbatim>\<open>Bitset\<close>, \<^verbatim>\<open>File_Table\<close>, \<^verbatim>\<open>Progress\<close>, \<^verbatim>\<open>Progress_Counts\<close>, \<^verbatim>\<open>Progress_Inv\<close>, \<^verbatim>\<open>Content\<close>, \<^verbatim>\<open>Content_Inv\<close>,
    \<^verbatim>\<open>Content_Steps\<close>, \<^verbatim>\<open>Settle\<close>, \<^verbatim>\<open>Crc\<close>, \<^verbatim>\<open>Cover\<close>, \<^verbatim>\<open>Release\<close> (the content half of \<^verbatim>\<open>internal/job\<close> and
    \<^verbatim>\<open>internal/crc32util\<close>): which articles are emitted, done and failed, with counters that always equal a
    recount, the checksum of a whole file from those of its articles, and the cheapest set of recovery
    volumes.
  \<^item> \<^verbatim>\<open>Go_Bytes\<close>, \<^verbatim>\<open>Yenc\<close>, \<^verbatim>\<open>Decode_Buffers\<close>, \<^verbatim>\<open>Uu\<close> (\<^verbatim>\<open>internal/decoder\<close>): round trips with an encoder and
    what an accepted article satisfies.
  \<^item> \<^verbatim>\<open>Ranges\<close>, \<^verbatim>\<open>Assembler\<close>, \<^verbatim>\<open>Assembler_Safety\<close> (\<^verbatim>\<open>internal/assembler\<close>): the worker over a model of file
    contents. It never panics, and what it reports written is on disk. An article changes no byte that its own
    file owns; nothing keeps two open files from sharing a path, and then they overwrite each other
    (\<open>shared_path_overwrites\<close>).
  \<^item> \<^verbatim>\<open>Server_Mask\<close>, \<^verbatim>\<open>Downloader\<close>, \<^verbatim>\<open>Dispatch_Pass\<close>, \<^verbatim>\<open>Fetch\<close>, \<^verbatim>\<open>Fetch_Safety\<close> (\<^verbatim>\<open>internal/downloader\<close>): choice of
    a server, the pass and its shortcuts; for an instance the tracker has not dropped, one fetch per article and a bound on
    the failures that are counted (the others are retried as often as they happen).
  \<^item> \<^verbatim>\<open>Nntp_Io\<close>, \<^verbatim>\<open>Nntp_Conn\<close>, \<^verbatim>\<open>Nntp_Safety\<close> (\<^verbatim>\<open>internal/nntp\<close>): status lines and dot-stuffed bodies, the handshake, and
    one connection as a step relation of pipelined callers, the reader and \<open>Close\<close>. A response is read as it was
    sent, no caller is left waiting, an article returned is the one asked for, a handshake leaves the
    connection ready and sends no line break inside a credential.
  \<^item> \<^verbatim>\<open>Recorder\<close>, \<^verbatim>\<open>Recorder_Safety\<close>, \<^verbatim>\<open>Recorder_Flush\<close> (\<^verbatim>\<open>record.go\<close>, \<^verbatim>\<open>internal/durability/written.go\<close>): store,
    snapshot and buffer together are the log of what was noted since a file was last untrusted.
  \<^item> \<^verbatim>\<open>Sanitize\<close> (\<^verbatim>\<open>internal/fsutil/sanitize.go\<close>, \<^verbatim>\<open>rootedcreate.go\<close>): a sanitized name is one safe path component.
  \<^item> \<^verbatim>\<open>Pipeline\<close> (\<^verbatim>\<open>internal/app/pipeline.go\<close>, \<^verbatim>\<open>record.go\<close>, \<^verbatim>\<open>durability.go\<close>): the production line that composes
    downloader, pipeline, assembler, recorder and content, with its callbacks. \<^verbatim>\<open>Line_Content\<close>, \<^verbatim>\<open>Line_Safety\<close>,
    \<^verbatim>\<open>Line_Worker\<close>, \<^verbatim>\<open>Line_Run\<close>: what each part does to the emitted and done articles of a tracked job, and the
    line as a step relation, with the tracked job evicted and hydrated at any moment. The property at the end of
    this theory says where an emitted article can be; \<open>evicted_write_strands\<close> shows the one place it is
    forgotten, a write reported while the job is evicted.
  \<^item> \<^verbatim>\<open>Verify\<close>, \<^verbatim>\<open>Resume\<close> (\<^verbatim>\<open>internal/app/verify.go\<close>, \<^verbatim>\<open>residency.go\<close>): reading the recorded rows back at a resume.
    What the store keeps of an unfinished file is on disk, with its checksum, and the store marks a file complete
    exactly when every article of it is accounted for.

  \<^bold>\<open>Style of the model.\<close> A method of a mutable object is a function from the state record to the new
  state and its result; an error is a value of a datatype or an option; what runs under a lock is one step,
  and goroutines are interleavings of steps in an inductive relation. Loops are structural recursion or carry
  a termination proof; none needs fuel. What the code learns from outside (clock, network, file system,
  database, the order of a map) is an argument, so a theorem holds for every answer. Pointers to a job are
  instance numbers, so that two instances with one ID stay apart.

  \<^bold>\<open>Widths and bounds.\<close> Bitset words, CRC values, lease numbers and the recorder's sequence are machine
  words. The lease counter cannot wrap within \<open>3 * n < 2 ^ 64 - 1\<close> operations, the recorder's within fewer
  than \<open>2 ^ 64\<close> untrusts; both are hypotheses with witnesses. Sizes and offsets are unbounded integers where the code has
  validated them (an offset below \<open>2 ^ 48\<close>, a body of at most 10 MiB) and have the comparison
  with \<open>MaxInt64\<close> written out where it relies on it. The ratio of allowed connections is exact for counts below
  \<open>2 ^ 49\<close>. The block counts that \<open>cheapestCover\<close> narrows to \<open>int32\<close> are natural numbers: the one caller,
  \<open>ReleaseRecovery\<close>, passes a need far below \<open>2 ^ 31\<close>. File names are at most 255 bytes, a free one is sought in 10,000 attempts.

  \<^bold>\<open>Not modelled.\<close> Goroutine start and stop, channels beyond the interleaving of their effects, contexts
  and timers; sharing of slices and buffers; logging and metrics; preallocation and the disk probe;
  dialling and reuse of connections, TLS, the SQL engine; the HTTP interface, configuration, NZB
  parsing, par2, unpacking and post-processing, which run external tools or libraries or only feed the
  modelled parts.
\<close>

section \<open>A property of the whole line\<close>

text \<open>C2: No article is stranded, but for one case: through any interleaving of dispatch passes, fetches, pipeline
  workers, the assembler's requests, the application's callbacks and evictions and hydrations of the job, with
  other jobs coming and going, take a job that stays registered and is not handed off or retried, in a process
  that is not shutting down or reloading its downloader. An article of it that is marked emitted (and so is
  offered to no server) is the subject of a result that waits for the pipeline, or of a write request that
  waits for the assembler, or it is one of the articles \<open>lost\<close> whose write was reported while the job was
  evicted. So when both channels have been drained no article of the job is left marked but those.\<close>

theorem no_article_stranded:
  assumes "line_reach w m j lost L" "a \<in> emittedSet (contentOf j L)"
  shows "(\<exists>res\<in>set (dn_completions (ln_dl L)). ars_inst res = j \<and> ars_artIdx res = a)
    \<or> (\<exists>req\<in>set (ln_queue L). wq_Owner req = j \<and> \<not> wq_ack req \<and> \<not> wq_FatalErr req \<and> wq_ArtIdx req = int a)
    \<or> a \<in> lost"
proof -
  note inv = line_reach_inv[OF assms(1), unfolded line_inv_def]
  then consider "a \<in> arts_of j (dn_completions (ln_dl L))" | "a \<in> queued_arts j (ln_queue L)" | "a \<in> lost" using assms(2) by blast
  then show ?thesis
  proof cases
    case 1
    then show ?thesis by (auto simp: arts_of_def)
  next
    case 2
    then obtain req where q: "req \<in> set (ln_queue L)" "wq_Owner req = j" "\<not> wq_ack req" "\<not> wq_FatalErr req" "a = nat (wq_ArtIdx req)"
      unfolding queued_arts_def by blast
    have "waiting_ok w m j req" using inv q(1) by blast
    then have "ArticleInFile m (wq_FileIdx req) (wq_ArtIdx req)" using q(2,3) by (simp add: waiting_ok_def control_request_def)
    then have "0 \<le> wq_ArtIdx req" using inFile_index(1)[OF held_mf] inv by blast
    then show ?thesis using q by auto
  qed simp
qed

theorem no_article_stranded_witness:
  "line_reach xLineWorld xManifest 0 {} xLineEvicted \<and> ct_manifest (contentOf 0 xLineEvicted) = None
   \<and> 0 \<in> emittedSet (contentOf 0 xLineEvicted) \<and> (\<exists>res\<in>set (dn_completions (ln_dl xLineEvicted)). ars_inst res = 0 \<and> ars_artIdx res = 0)"
proof -
  have "0 \<in> emittedSet (contentOf 0 xLineEvicted)" using xLineEvicted_emitted by (auto simp: emittedSet_def split: option.splits)
  then show ?thesis using no_article_stranded[OF xLineEvicted_reach] xLineEvicted_reach xLineEvicted_emitted by auto
qed

end
